(* ===== verification/Pmgd_Prelude.thy ===== *)
theory Pmgd_Prelude
  imports Main "HOL-Library.Word" "HOL-Library.Product_Lexorder"
begin

unbundle bit_operations_syntax

text \<open>
  The prelude of the development: the machine-integer types, the error values of
  \<open>include/exception.h\<close>, the result type every fallible operation returns, a byte-addressed
  memory with its read and write operations, the little-endian encoding of words as byte
  lists, and the lemma collections (\<open>mem_simps\<close>, \<open>res_simps\<close>) shared by the components.
\<close>

named_theorems mem_simps "reading back from a written byte memory"
named_theorems res_simps "unfolding of the result type"

section \<open>Machine integers and errors\<close>

type_synonym u8 = "8 word"
type_synonym u16 = "16 word"
type_synonym u32 = "32 word"
type_synonym u64 = "64 word"

datatype pmgd_error =
    UndefinedException | BadAlloc | NullIterator | VacantIterator
  | OpenFailed | VersionMismatch | ReadOnly | InvalidConfig | OutOfSpace
  | PropertyTypeMismatch | PropertyNotFound
  | NoTransaction | OutOfTransactions | OutOfJournalSpace
  | LockTimeout | InvalidID
  | NotImplemented | PropertyTypeInvalid

type_synonym 'a result = "pmgd_error + 'a"

definition rbind :: "'a result \<Rightarrow> ('a \<Rightarrow> 'b result) \<Rightarrow> 'b result" where
  "rbind r f = (case r of Inl e \<Rightarrow> Inl e | Inr x \<Rightarrow> f x)"

lemma rbind_Inl [simp, res_simps]: "rbind (Inl e) f = Inl e"
  by (simp add: rbind_def)

lemma rbind_Inr [simp, res_simps]: "rbind (Inr x) f = f x"
  by (simp add: rbind_def)

lemma rbind_eq_Inr: "rbind r f = Inr y \<longleftrightarrow> (\<exists>x. r = Inr x \<and> f x = Inr y)"
  by (cases r) auto

section \<open>Byte memory\<close>

text \<open>
  Addresses are natural numbers. The code masks 64-bit addresses with complements of
  \<open>2 ^ k - 1\<close>; \<open>align_down\<close> is that operation on naturals, and \<open>unat_and_not_mask\<close>
  shows that it is what the word operation computes.
\<close>

type_synonym addr = nat
type_synonym mem = "addr \<Rightarrow> u8"

definition align_down :: "nat \<Rightarrow> addr \<Rightarrow> addr" where
  "align_down n a = a div n * n"

lemma unat_and_not_mask:
  fixes w :: u64
  shows "unat (w AND NOT (mask k)) = align_down (2 ^ k) (unat w)"
proof -
  have "w AND NOT (mask k) = push_bit k (drop_bit k w)"
    by (rule bit_word_eqI) (auto simp: bit_simps)
  then have "unat (w AND NOT (mask k)) = unat (push_bit k (drop_bit k w))" by simp
  also have "\<dots> = take_bit 64 (push_bit k (unat (drop_bit k w)))"
    by (simp only: unsigned_push_bit_eq) simp
  also have "unat (drop_bit k w) = unat w div 2 ^ k"
    by (simp add: unat_drop_bit_eq flip: drop_bit_eq_div)
  also have "take_bit 64 (push_bit k (unat w div 2 ^ k)) = take_bit 64 (unat w div 2 ^ k * 2 ^ k)"
    by (simp only: push_bit_eq_mult)
  also have "\<dots> = unat w div 2 ^ k * 2 ^ k"
  proof (rule take_bit_nat_eq_self)
    have "unat w div 2 ^ k * 2 ^ k \<le> unat w" by simp
    also have "\<dots> < 2 ^ 64" using unsigned_less [of w] by simp
    finally show "unat w div 2 ^ k * 2 ^ k < 2 ^ 64" .
  qed
  finally show ?thesis by (simp add: align_down_def)
qed

lemma align_down_le: "align_down n a \<le> a"
  by (simp add: align_down_def)

lemma align_down_upper: "0 < n \<Longrightarrow> a < align_down n a + n"
  using mod_less_divisor [of n a] div_mult_mod_eq [of a n] unfolding align_down_def by linarith

definition read_bytes :: "mem \<Rightarrow> addr \<Rightarrow> nat \<Rightarrow> u8 list" where
  "read_bytes m a n = map m [a..<a + n]"

definition write_bytes :: "mem \<Rightarrow> addr \<Rightarrow> u8 list \<Rightarrow> mem" where
  "write_bytes m a bs = (\<lambda>x. if a \<le> x \<and> x < a + length bs then bs ! (x - a) else m x)"

lemma length_read_bytes [simp, mem_simps]: "length (read_bytes m a n) = n"
  by (simp add: read_bytes_def)

lemma nth_read_bytes [simp, mem_simps]: "i < n \<Longrightarrow> read_bytes m a n ! i = m (a + i)"
  by (simp add: read_bytes_def)

lemma write_bytes_in [mem_simps]:
  "a \<le> x \<Longrightarrow> x < a + length bs \<Longrightarrow> write_bytes m a bs x = bs ! (x - a)"
  by (simp add: write_bytes_def)

lemma write_bytes_out [mem_simps]:
  "x < a \<or> a + length bs \<le> x \<Longrightarrow> write_bytes m a bs x = m x"
  by (auto simp: write_bytes_def)

lemma write_bytes_Nil [simp, mem_simps]: "write_bytes m a [] = m"
  by (auto simp: write_bytes_def fun_eq_iff)

lemma read_write_same [simp, mem_simps]: "read_bytes (write_bytes m a bs) a (length bs) = bs"
  by (rule nth_equalityI) (simp_all add: write_bytes_def)

lemma read_write_disjoint [mem_simps]:
  "a + n \<le> b \<or> b + length bs \<le> a \<Longrightarrow> read_bytes (write_bytes m b bs) a n = read_bytes m a n"
  by (rule nth_equalityI) (auto simp: write_bytes_def)

lemma write_read_back [simp, mem_simps]: "write_bytes m a (read_bytes m a n) = m"
  by (auto simp: write_bytes_def fun_eq_iff)

lemma read_bytes_append: "read_bytes m a (n + k) = read_bytes m a n @ read_bytes m (a + n) k"
  by (rule nth_equalityI) (auto simp: nth_append)

lemma read_bytes_cong: "(\<And>x. a \<le> x \<Longrightarrow> x < a + n \<Longrightarrow> m x = m' x) \<Longrightarrow> read_bytes m a n = read_bytes m' a n"
  by (rule nth_equalityI) auto

section \<open>Little-endian words\<close>

fun le_bytes :: "nat \<Rightarrow> 'a::len word \<Rightarrow> u8 list" where
  "le_bytes 0 w = []"
| "le_bytes (Suc n) w = ucast w # le_bytes n (drop_bit 8 w)"

fun le_word :: "u8 list \<Rightarrow> 'a::len word" where
  "le_word [] = 0"
| "le_word (b # bs) = ucast b OR push_bit 8 (le_word bs)"

lemma length_le_bytes [simp]: "length (le_bytes n w) = n"
  by (induction n arbitrary: w) simp_all

lemma bit_ucast_u8: "bit (ucast (w :: 'a::len word) :: u8) n \<longleftrightarrow> n < 8 \<and> bit w n"
  by (auto simp: bit_simps dest: bit_imp_le_length)

lemma le_word_le_bytes: "le_word (le_bytes n w) = take_bit (8 * n) w"
proof (induction n arbitrary: w)
  case 0
  then show ?case by simp
next
  case (Suc n)
  show ?case
  proof (rule bit_word_eqI)
    fix k assume "k < LENGTH('a)"
    then show "bit (le_word (le_bytes (Suc n) w) :: 'a word) k = bit (take_bit (8 * Suc n) w) k"
      by (auto simp: Suc.IH bit_simps bit_ucast_u8 dest: bit_imp_le_length)
  qed
qed

section \<open>Keyed stores\<close>

text \<open>
  The contract of a component that keeps values under keys: \<open>get\<close> after \<open>put\<close> and after \<open>del\<close>,
  on states that satisfy \<open>ok\<close>, which both keep. \<open>merge\<close> is what \<open>put\<close> makes of its argument and
  the value that was there before.
\<close>

locale keyed_store =
  fixes ok :: "'s \<Rightarrow> bool"
    and get :: "'s \<Rightarrow> 'k \<Rightarrow> 'v option"
    and put :: "'k \<Rightarrow> 'a \<Rightarrow> 's \<Rightarrow> 's"
    and del :: "'k \<Rightarrow> 's \<Rightarrow> 's"
    and merge :: "'a \<Rightarrow> 'v option \<Rightarrow> 'v"
  assumes put_ok: "ok s \<Longrightarrow> ok (put k x s)"
    and del_ok: "ok s \<Longrightarrow> ok (del k s)"
    and get_put: "ok s \<Longrightarrow> get (put k x s) = (get s)(k \<mapsto> merge x (get s k))"
    and get_del: "ok s \<Longrightarrow> get (del k s) = (get s)(k := None)"
begin

text \<open>A call is \<open>Inl (k, x)\<close> for \<open>put k x\<close> and \<open>Inr k\<close> for \<open>del k\<close>.\<close>

lemma run_ok: "ok s \<Longrightarrow> ok (fold (\<lambda>c s. case c of Inl (k, x) \<Rightarrow> put k x s | Inr k \<Rightarrow> del k s) cs s)"
  by (induction cs arbitrary: s) (auto simp: put_ok del_ok split: sum.splits)

lemma run_get:
  "ok s \<Longrightarrow>
   get (fold (\<lambda>c s. case c of Inl (k, x) \<Rightarrow> put k x s | Inr k \<Rightarrow> del k s) cs s) =
   fold (\<lambda>c m. case c of Inl (k, x) \<Rightarrow> m(k \<mapsto> merge x (m k)) | Inr k \<Rightarrow> m(k := None)) cs (get s)"
  by (induction cs arbitrary: s) (auto simp: put_ok del_ok get_put get_del split: sum.splits)

lemma put_commute:
  assumes "ok s" "k \<noteq> k'"
  shows "get (put k x (put k' x' s)) = get (put k' x' (put k x s))"
  using assms by (auto simp: get_put put_ok fun_upd_twist)

lemma put_then_del: "ok s \<Longrightarrow> get (del k (put k x s)) = get (del k s)"
  by (simp add: get_put get_del put_ok)

end

end
