(* ===== verification/Range_Set.thy ===== *)
theory Range_Set
  imports Pmgd_Prelude
begin

text \<open>
  The pending-commit ranges of \<open>src/RangeSet.h\<close> and their two users in \<open>src/linux.cc\<close>.
  A \<open>std::set\<close> ordered by \<open>Range::operator<\<close> is its strictly increasing list of elements;
  an iterator is a position in that list. \<open>add\<close> returns \<open>None\<close> where the code
  dereferences or erases an iterator whose element has been erased (undefined behaviour).
\<close>

section \<open>Ranges and their order\<close>

datatype range = Range (r_start: nat) (r_end: nat)

text \<open>\<open>Range::operator<\<close>.\<close>

definition range_before :: "range \<Rightarrow> range \<Rightarrow> bool" where
  "range_before a b \<longleftrightarrow>
     r_start a < r_start b \<or> (r_start a = r_start b \<and> r_end a < r_end b)"

instantiation range :: linorder
begin

definition less_range :: "range \<Rightarrow> range \<Rightarrow> bool" where
  "less_range a b \<longleftrightarrow> range_before a b"

definition less_eq_range :: "range \<Rightarrow> range \<Rightarrow> bool" where
  "less_eq_range a b \<longleftrightarrow> a < b \<or> a = (b :: range)"

instance
proof
  fix x y z :: range
  show "x < y \<longleftrightarrow> x \<le> y \<and> \<not> y \<le> x" by (auto simp: less_range_def range_before_def less_eq_range_def)
  show "x \<le> x" by (simp add: less_eq_range_def)
  show "x \<le> y \<Longrightarrow> y \<le> z \<Longrightarrow> x \<le> z" by (auto simp: less_range_def range_before_def less_eq_range_def)
  show "x \<le> y \<Longrightarrow> y \<le> x \<Longrightarrow> x = y" by (auto simp: less_range_def range_before_def less_eq_range_def)
  show "x \<le> y \<or> y \<le> x"
    by (cases x; cases y) (auto simp: less_range_def range_before_def less_eq_range_def)
qed

end

lemma range_less_iff: "a < b \<longleftrightarrow> r_start a < r_start b \<or> (r_start a = r_start b \<and> r_end a < r_end b)"
  by (simp add: less_range_def range_before_def)

type_synonym range_set = "range list"

section \<open>The operations of std::set used by the code\<close>

definition set_insert :: "range \<Rightarrow> range_set \<Rightarrow> range_set" where
  "set_insert x xs = (if x \<in> set xs then xs else insort x xs)"

section \<open>RangeSet::add\<close>

text \<open>
  The forward loop: \<open>ls\<close> is the part of the set before the forward iterator, which holds
  the element \<open>it\<close> points to; \<open>fs\<close> is the part from the forward iterator on.
\<close>

fun merge_forward :: "range_set \<Rightarrow> range \<Rightarrow> range_set \<Rightarrow> range_set" where
  "merge_forward ls it [] = ls"
| "merge_forward ls it (f # fs) =
     (if r_start it = r_start f then remove1 it ls @ f # fs
      else if r_start f \<le> r_end it then
        (let it' = Range (r_start it) (max (r_end it) (r_end f))
         in merge_forward (set_insert it' (remove1 it ls)) it' fs)
      else ls @ f # fs)"

text \<open>
  \<open>back\<close> is the element before the new one. When the code merges with it, it erases the new
  element, inserts \<open>Range(back->start, end)\<close> (which returns \<open>back\<close> itself when that range
  is already there) and then erases \<open>back\<close>; in that case \<open>it\<close> dangles, and the forward
  loop reads it as soon as there is an element ahead.
\<close>

definition range_add :: "nat \<Rightarrow> nat \<Rightarrow> range_set \<Rightarrow> range_set option" where
  "range_add s e rs =
     (if s = e then Some rs
      else let it = Range s e in
      if it \<in> set rs then Some rs
      else let before = takeWhile (\<lambda>x. x < it) rs;
               after = dropWhile (\<lambda>x. x < it) rs in
      if before = [] then Some (merge_forward [it] it after)
      else let back = last before; rest = butlast before in
        if s = r_start back then Some (merge_forward (rest @ [it]) it after)
        else if s \<le> r_end back then
          (let it' = Range (r_start back) e in
           if it' = back then (if after = [] then Some rest else None)
           else Some (merge_forward (remove1 back (set_insert it' before)) it' after))
        else Some (merge_forward (before @ [it]) it after))"

section \<open>Flushing and committing pages (src/linux.cc)\<close>

definition page_size :: nat where "page_size = 4096"

definition os_flush :: "addr \<Rightarrow> range_set \<Rightarrow> range_set option" where
  "os_flush a pending =
     (let aligned = align_down page_size a in range_add aligned (aligned + page_size) pending)"

text \<open>\<open>os::commit\<close> calls \<open>msync\<close> on every range and clears the set.\<close>

definition os_commit :: "range_set \<Rightarrow> (addr \<times> nat) list \<times> range_set" where
  "os_commit pending = (map (\<lambda>r. (r_start r, r_end r - r_start r)) pending, [])"

fun os_flush_all :: "addr list \<Rightarrow> range_set \<Rightarrow> range_set option" where
  "os_flush_all [] rs = Some rs"
| "os_flush_all (a # as) rs =
     (case os_flush a rs of None \<Rightarrow> None | Some rs' \<Rightarrow> os_flush_all as rs')"

section \<open>What the set stands for\<close>

definition r_covers :: "range \<Rightarrow> nat set" where
  "r_covers r = {r_start r..<r_end r}"

definition covers :: "range_set \<Rightarrow> nat set" where
  "covers rs = (\<Union>r\<in>set rs. r_covers r)"

definition msynced :: "(addr \<times> nat) list \<Rightarrow> nat set" where
  "msynced cs = (\<Union>(a, n)\<in>set cs. {a..<a + n})"

text \<open>The invariant of the merged set: nonempty ranges, none touching the next.\<close>

fun separated :: "range_set \<Rightarrow> bool" where
  "separated [] = True"
| "separated (r # rs) =
     (r_start r < r_end r \<and> (\<forall>x\<in>set rs. r_end r < r_start x) \<and> separated rs)"

definition no_overhang :: "nat \<Rightarrow> nat \<Rightarrow> range_set \<Rightarrow> bool" where
  "no_overhang s e rs \<longleftrightarrow>
     (\<forall>r\<in>set rs. r_start r < s \<and> s \<le> r_end r \<longrightarrow> r_end r < e)"

section \<open>Correctness where no stored range overhangs the new one\<close>

lemma covers_simps [simp]:
  "covers [] = {}" "covers (r # rs) = r_covers r \<union> covers rs"
  "covers (xs @ ys) = covers xs \<union> covers ys"
  by (auto simp: covers_def)

lemma separated_append:
  "separated (xs @ ys) \<longleftrightarrow>
     separated xs \<and> separated ys \<and> (\<forall>x\<in>set xs. \<forall>y\<in>set ys. r_end x < r_start y)"
  by (induction xs) auto

lemma separated_nonempty: "separated rs \<Longrightarrow> r \<in> set rs \<Longrightarrow> r_start r < r_end r"
  by (induction rs) auto

lemma insort_last: "\<forall>y\<in>set xs. y < x \<Longrightarrow> insort x xs = xs @ [x :: range]"
  by (induction xs) auto

lemma set_insert_last: "\<forall>y\<in>set xs. y < x \<Longrightarrow> set_insert x xs = xs @ [x]"
  by (auto simp: set_insert_def insort_last)

lemma merge_forward_correct:
  assumes "separated (pre @ [it])" and "separated fs"
    and "\<forall>x\<in>set pre. \<forall>f\<in>set fs. r_end x < r_start f"
    and "\<forall>f\<in>set fs. r_start it < r_start f \<or> (r_start it = r_start f \<and> r_end it < r_end f)"
  shows "separated (merge_forward (pre @ [it]) it fs) \<and>
         covers (merge_forward (pre @ [it]) it fs) = covers pre \<union> r_covers it \<union> covers fs"
  using assms
proof (induction fs arbitrary: it)
  case Nil
  then show ?case by auto
next
  case (Cons f fs)
  from Cons.prems(1) have pre: "separated pre" "\<forall>x\<in>set pre. r_end x < r_start it"
    and ne: "r_start it < r_end it" by (auto simp: separated_append)
  have notin: "it \<notin> set pre" using pre ne separated_nonempty by fastforce
  then have rem: "remove1 it (pre @ [it]) = pre" by (simp add: remove1_append)
  consider (eq) "r_start it = r_start f"
    | (merge) "r_start it < r_start f" "r_start f \<le> r_end it"
    | (apart) "r_start it < r_start f" "r_end it < r_start f"
    using Cons.prems(4) by force
  then show ?case
  proof cases
    case eq
    with Cons.prems rem pre show ?thesis
      by (auto simp: separated_append r_covers_def)
  next
    case apart
    with Cons.prems pre ne show ?thesis
      by (fastforce simp: separated_append)
  next
    case merge
    define it' where "it' = Range (r_start it) (max (r_end it) (r_end f))"
    have lt: "\<forall>y\<in>set pre. y < it'"
      using pre separated_nonempty by (fastforce simp: it'_def range_less_iff)
    have sep: "separated (pre @ [it'])"
      using Cons.prems(1) by (auto simp: separated_append it'_def)
    have "\<forall>g\<in>set fs. r_start it' < r_start g"
      using Cons.prems(2,4) merge separated_nonempty by (fastforce simp: it'_def)
    then have IH: "separated (merge_forward (pre @ [it']) it' fs) \<and>
      covers (merge_forward (pre @ [it']) it' fs) = covers pre \<union> r_covers it' \<union> covers fs"
      using Cons.prems by (intro Cons.IH sep) auto
    have cov: "r_covers it' = r_covers it \<union> r_covers f"
      using merge ne Cons.prems(2) by (auto simp: it'_def r_covers_def)
    have "merge_forward (pre @ [it]) it (f # fs) = merge_forward (pre @ [it']) it' fs"
      using merge by (simp add: rem set_insert_last [OF lt] flip: it'_def)
    with IH cov show ?thesis by auto
  qed
qed

lemma separated_sorted: "separated rs \<Longrightarrow> sorted_wrt (<) rs"
  by (induction rs) (auto simp: range_less_iff dest: separated_nonempty less_trans)

lemma dropWhile_ge:
  "sorted_wrt (<) rs \<Longrightarrow> it \<notin> set rs \<Longrightarrow> f \<in> set (dropWhile (\<lambda>x. x < it) rs) \<Longrightarrow> it < (f :: range)"
  by (induction rs) (auto split: if_splits)

lemma range_add_correct:
  assumes sep: "separated rs" and lt: "s < e" and noh: "no_overhang s e rs"
  shows "\<exists>rs'. range_add s e rs = Some rs' \<and> separated rs' \<and> covers rs' = covers rs \<union> {s..<e}"
proof -
  define it where "it = Range s e"
  define before where "before = takeWhile (\<lambda>x. x < it) rs"
  define after where "after = dropWhile (\<lambda>x. x < it) rs"
  have rs: "rs = before @ after" by (simp add: before_def after_def)
  have itc: "r_covers it = {s..<e}" by (simp add: it_def r_covers_def)
  show ?thesis
  proof (cases "it \<in> set rs")
    case True
    then have "{s..<e} \<subseteq> covers rs" by (auto simp: covers_def simp flip: itc)
    with True sep lt show ?thesis by (auto simp: range_add_def simp flip: it_def)
  next
    case False
    have fwd: "\<forall>f\<in>set after. s < r_start f \<or> (s = r_start f \<and> e < r_end f)"
      using dropWhile_ge [OF separated_sorted [OF sep] False]
      by (auto simp: after_def range_less_iff it_def)
    have bwd: "\<forall>x\<in>set before. x < it" by (auto simp: before_def dest: set_takeWhileD)
    note split = sep [unfolded rs separated_append]
    have add: "range_add s e rs =
        (if before = [] then Some (merge_forward [it] it after)
         else let bk = last before; rest = butlast before in
           if s = r_start bk then Some (merge_forward (rest @ [it]) it after)
           else if s \<le> r_end bk then
             (let it' = Range (r_start bk) e in
              if it' = bk then (if after = [] then Some rest else None)
              else Some (merge_forward (remove1 bk (set_insert it' before)) it' after))
           else Some (merge_forward (before @ [it]) it after))"
      using lt False by (simp add: range_add_def before_def after_def Let_def flip: it_def)
    show ?thesis
    proof (cases before rule: rev_cases)
      case Nil
      then show ?thesis
        using merge_forward_correct [of "[]" it after] split fwd lt add rs
        by (auto simp: it_def r_covers_def)
    next
      case (snoc rest bk)
      have sb: "separated rest" "r_start bk < r_end bk" "\<forall>x\<in>set rest. r_end x < r_start bk"
        "separated after" "\<forall>x\<in>set rest. \<forall>f\<in>set after. r_end x < r_start f"
        "\<forall>f\<in>set after. r_end bk < r_start f"
        using split by (auto simp: snoc separated_append)
      have blt: "r_start bk < s \<or> (r_start bk = s \<and> r_end bk < e)"
        using bwd by (auto simp: snoc range_less_iff it_def)
      consider (same) "s = r_start bk" "r_end bk < e"
        | (touch) "r_start bk < s" "s \<le> r_end bk" "r_end bk < e"
        | (apart) "r_end bk < s"
        using blt noh by (force simp: no_overhang_def rs snoc)
      then show ?thesis
      proof cases
        case same
        have "separated (rest @ [it])" using sb same lt by (auto simp: separated_append it_def)
        with merge_forward_correct [of rest it after] sb fwd
        have "separated (merge_forward (rest @ [it]) it after)"
          "covers (merge_forward (rest @ [it]) it after) = covers rest \<union> r_covers it \<union> covers after"
          by (auto simp: it_def)
        moreover have "range_add s e rs = Some (merge_forward (rest @ [it]) it after)"
          unfolding add using same by (simp add: snoc)
        moreover have "r_covers bk \<subseteq> {s..<e}" using same by (auto simp: r_covers_def)
        ultimately show ?thesis by (auto simp add: rs snoc itc)
      next
        case touch
        define it' where "it' = Range (r_start bk) e"
        have "\<forall>y\<in>set before. y < it'"
          using touch sb separated_nonempty [OF sb(1)] by (fastforce simp: snoc it'_def range_less_iff)
        then have ins: "set_insert it' before = before @ [it']" by (rule set_insert_last)
        have "bk \<notin> set rest" using sb by fastforce
        then have rem: "remove1 bk (set_insert it' before) = rest @ [it']"
          unfolding ins by (simp add: snoc remove1_append)
        have "separated (rest @ [it'])" using sb touch by (auto simp: separated_append it'_def)
        moreover have "\<forall>f\<in>set after. r_start it' < r_start f" using sb by (force simp: it'_def)
        ultimately have "separated (merge_forward (rest @ [it']) it' after) \<and>
          covers (merge_forward (rest @ [it']) it' after) = covers rest \<union> r_covers it' \<union> covers after"
          using sb by (intro merge_forward_correct) auto
        then have "separated (merge_forward (rest @ [it']) it' after)"
          "covers (merge_forward (rest @ [it']) it' after) = covers rest \<union> r_covers it' \<union> covers after"
          by auto
        moreover have "range_add s e rs = Some (merge_forward (rest @ [it']) it' after)"
          using touch rem by (cases bk) (auto simp: add snoc it'_def Let_def)
        ultimately show ?thesis
          using touch sb by (auto simp: rs snoc r_covers_def it'_def)
      next
        case apart
        have "separated (before @ [it])"
          using sb apart lt split by (auto simp: separated_append it_def snoc)
        with merge_forward_correct [of before it after] split fwd
        have "separated (merge_forward (before @ [it]) it after)"
          "covers (merge_forward (before @ [it]) it after) = covers before \<union> r_covers it \<union> covers after"
          by (auto simp: it_def)
        moreover have "range_add s e rs = Some (merge_forward (before @ [it]) it after)"
          using apart sb by (auto simp: add snoc)
        ultimately show ?thesis
          by (auto simp: rs itc)
      qed
    qed
  qed
qed

section \<open>Where a stored range overhangs the new one\<close>

lemma range_add_inside:
  assumes "s0 < s" "s < e" "e \<le> e0"
  shows "range_add s e [Range s0 e0] = (if e = e0 then Some [] else Some [Range s0 e])"
  using assms
  by (auto simp: range_add_def range_less_iff less_eq_range_def set_insert_def Let_def)

lemma range_add_dangling:
  assumes "s0 < s" "s < e" "e < a" "a < b"
  shows "range_add s e [Range s0 e, Range a b] = None"
  using assms by (auto simp: range_add_def range_less_iff)

section \<open>Flushing pages\<close>

lemma os_flush_correct:
  assumes "separated rs"
    and "\<forall>r\<in>set rs. r_start r < align_down page_size a \<longrightarrow> r_end r < align_down page_size a + page_size"
  shows "\<exists>rs'. os_flush a rs = Some rs' \<and> separated rs' \<and>
           covers rs' = covers rs \<union> {align_down page_size a..<align_down page_size a + page_size}"
  using range_add_correct [OF assms(1), of "align_down page_size a" "align_down page_size a + page_size"] assms(2)
  by (auto simp: os_flush_def Let_def page_size_def no_overhang_def)

lemma msynced_os_commit: "separated rs \<Longrightarrow> msynced (fst (os_commit rs)) = covers rs"
  by (force simp: os_commit_def msynced_def covers_def r_covers_def dest: separated_nonempty)

lemma os_flush_one: "os_flush a [] = Some [Range (align_down page_size a) (align_down page_size a + page_size)]"
  by (simp add: os_flush_def range_add_def Let_def page_size_def)

lemma align_down_add: "0 < n \<Longrightarrow> align_down n (a + n) = align_down n a + n"
  by (simp add: align_down_def div_add_self2 algebra_simps)

lemma os_flush_next:
  "os_flush (a + page_size) [Range (align_down page_size a) (align_down page_size a + page_size)] =
     Some [Range (align_down page_size a) (align_down page_size a + 2 * page_size)]"
  by (simp add: os_flush_def range_add_def align_down_add page_size_def Let_def range_less_iff
      less_eq_range_def set_insert_def)

section \<open>Properties\<close>

text \<open>Adding a nonempty range to a set of separated ranges, none of which starts before the
  new range and reaches to its end or past it, succeeds; the set stays separated and stands for
  exactly the union of what it stood for and the new range.\<close>

theorem range_add_union:
  assumes "separated rs" and "s < e" and "no_overhang s e rs"
  shows "\<exists>rs'. range_add s e rs = Some rs' \<and> separated rs' \<and> covers rs' = covers rs \<union> {s..<e}"
  using assms by (rule range_add_correct)

theorem range_add_union_witness:
  "\<exists>rs'. range_add 8192 16384 [Range 0 8192, Range 12288 20480] = Some rs' \<and> separated rs' \<and>
     covers rs' = covers [Range 0 8192, Range 12288 20480] \<union> {8192..<16384}"
  by (rule range_add_union) (simp_all add: no_overhang_def)

text \<open>When the page flushed is the last page of a range already pending, the range is dropped:
  flushing a page, the next page, and the next page again leaves nothing for \<open>os::commit\<close> to
  pass to \<open>msync\<close>. (\<open>RangeSet::add\<close> inserts the merged range, gets the stored one back because it
  is equal, and erases it.)\<close>

theorem reflush_last_page_drops_range:
  "os_flush_all [a, a + page_size, a + page_size] [] = Some [] \<and> msynced (fst (os_commit [])) = {}"
proof -
  have "os_flush (a + page_size) [Range (align_down page_size a) (align_down page_size a + 2 * page_size)] = Some []"
    using range_add_inside [of "align_down page_size a" "align_down page_size a + page_size"
        "align_down page_size a + 2 * page_size" "align_down page_size a + 2 * page_size"]
    by (simp add: os_flush_def align_down_add page_size_def Let_def add.commute [of 8192])
  then show ?thesis
    by (simp add: os_flush_one os_flush_next os_commit_def msynced_def)
qed

end
