(* ===== verification/Pm_Journal.thy ===== *)
theory Pm_Journal
  imports Pmgd_Prelude
begin

text \<open>
  The undo journal of \<open>src/transaction.cc\<close> and \<open>src/TransactionImpl.h\<close>, and the transaction
  table of \<open>src/TransactionManager.cc\<close>, on a model of persistent memory (the \<open>PM\<close> build:
  \<open>clflush\<close> and \<open>persistent_barrier\<close> of \<open>src/arch.h\<close>). Every transaction works on one slot
  of the table: its header word and its journal extent, a list of 64-byte entries. Data memory is
  byte addressed; table and extents are regions of their own, as \<open>GraphConfig\<close> lays them out.

  Beside the coherent memory the state keeps the bytes whose last store is not yet durable
  (\<open>dirty\<close>) and, per slot, the bytes of lines its thread has flushed since (\<open>pend\<close>), which that
  thread's next fence makes durable. A crash keeps clean bytes and leaves dirty ones arbitrary.
  A journal entry fills one cache line and its \<open>tx_id\<close> is written last, so a torn entry still
  has its old id.
\<close>

section \<open>Journal entries and transaction handles\<close>

definition JE_MAX_LEN :: nat where "JE_MAX_LEN = 48"

record journal_entry =
  je_tx_id :: "56 word"
  je_len :: nat
  je_addr :: addr
  je_data :: "u8 list"

definition ACTIVE :: u64 where "ACTIVE = push_bit 63 1"

text \<open>\<open>th_index\<close> is \<open>None\<close> where the code has index -1, the handle of a read-only transaction.\<close>

record tx_handle =
  th_id :: u64
  th_index :: "nat option"

section \<open>Persistent memory\<close>

record slot =
  hdr :: u64
  hdr_dur :: u64
  hdr_pend :: bool
  ext :: "journal_entry list"
  ext_dur :: "journal_entry list"

record pm =
  cache :: mem
  dirty :: "addr set"
  pend :: "nat \<Rightarrow> addr set"
  slots :: "nat \<Rightarrow> slot"

definition upd_slot :: "nat \<Rightarrow> (slot \<Rightarrow> slot) \<Rightarrow> pm \<Rightarrow> pm" where
  "upd_slot i f s = s\<lparr>slots := (slots s)(i := f (slots s i))\<rparr>"

definition line_size :: nat where "line_size = 64"

definition line_of :: "addr \<Rightarrow> addr set" where
  "line_of a = {align_down line_size a..<align_down line_size a + line_size}"

definition store :: "addr \<Rightarrow> u8 list \<Rightarrow> pm \<Rightarrow> pm" where
  "store a bs s =
     s\<lparr>cache := write_bytes (cache s) a bs,
       dirty := dirty s \<union> {a..<a + length bs},
       pend := (\<lambda>i. pend s i - {a..<a + length bs})\<rparr>"

definition clflush :: "nat \<Rightarrow> addr \<Rightarrow> pm \<Rightarrow> pm" where
  "clflush i a s = s\<lparr>pend := (pend s)(i := pend s i \<union> line_of a)\<rparr>"

text \<open>
  The fence of slot \<open>i\<close>'s thread: the lines it has flushed are durable. The code flushes every
  journal entry right after writing it, with one \<open>clflush\<close>, so the slot's entries are durable too, and its
  header if it was flushed since its last store. This takes it that an entry, of 64 bytes, is one
  cache line, that is, that the journal extents start at a line.
\<close>

definition sfence :: "nat \<Rightarrow> pm \<Rightarrow> pm" where
  "sfence i s =
     upd_slot i (\<lambda>sl. sl\<lparr>ext_dur := ext sl,
         hdr_dur := (if hdr_pend sl then hdr sl else hdr_dur sl), hdr_pend := False\<rparr>)
       (s\<lparr>dirty := dirty s - pend s i, pend := (pend s)(i := {})\<rparr>)"

text \<open>What a crash can leave behind: data memory and, per slot, extent and header.\<close>

definition crash_slot :: "slot \<Rightarrow> journal_entry list \<Rightarrow> u64 \<Rightarrow> bool" where
  "crash_slot sl js' h' \<longleftrightarrow>
     length js' = length (ext sl) \<and>
     (\<forall>k<length (ext sl). js' ! k = ext sl ! k \<or>
        (ext_dur sl ! k \<noteq> ext sl ! k \<and> je_tx_id (js' ! k) = je_tx_id (ext_dur sl ! k))) \<and>
     (h' = hdr sl \<or> h' = hdr_dur sl)"

definition rebooted :: "journal_entry list \<Rightarrow> u64 \<Rightarrow> slot" where
  "rebooted js' h' = \<lparr>hdr = h', hdr_dur = h', hdr_pend = False, ext = js', ext_dur = js'\<rparr>"

text \<open>\<open>crash s r\<close>: after a power failure in state \<open>s\<close> the machine may come up in state \<open>r\<close>.\<close>

definition crash :: "pm \<Rightarrow> pm \<Rightarrow> bool" where
  "crash s r \<longleftrightarrow>
     (\<forall>a. a \<notin> dirty s \<longrightarrow> cache r a = cache s a) \<and> dirty r = {} \<and> pend r = (\<lambda>_. {}) \<and>
     (\<forall>i. \<exists>js' h'. slots r i = rebooted js' h' \<and> crash_slot (slots s i) js' h')"

section \<open>TransactionImpl: logging\<close>

record tx_impl =
  ti_rw :: bool
  ti_committed :: bool
  ti_handle :: tx_handle
  ti_jcur :: nat

definition make_entry :: "u64 \<Rightarrow> mem \<Rightarrow> addr \<Rightarrow> nat \<Rightarrow> journal_entry \<Rightarrow> journal_entry" where
  "make_entry tid m src n old =
     \<lparr>je_tx_id = ucast tid, je_len = n, je_addr = src,
      je_data = read_bytes m src n @ drop n (je_data old)\<rparr>"

text \<open>The slot a read-write transaction works on.\<close>

definition tx_slot :: "tx_impl \<Rightarrow> nat" where
  "tx_slot t = (case th_index (ti_handle t) of None \<Rightarrow> 0 | Some i \<Rightarrow> i)"

definition log_je :: "addr \<Rightarrow> nat \<Rightarrow> tx_impl \<times> pm \<Rightarrow> tx_impl \<times> pm" where
  "log_je src n ts =
     (case ts of (t, s) \<Rightarrow>
        (t\<lparr>ti_jcur := Suc (ti_jcur t)\<rparr>,
         upd_slot (tx_slot t) (\<lambda>sl. sl\<lparr>ext := (ext sl)[ti_jcur t :=
             make_entry (th_id (ti_handle t)) (cache s) src n (ext sl ! ti_jcur t)]\<rparr>) s))"

fun log_chunks :: "nat \<Rightarrow> addr \<Rightarrow> nat \<Rightarrow> tx_impl \<times> pm \<Rightarrow> tx_impl \<times> pm" where
  "log_chunks 0 ptr n ts = log_je ptr (n mod JE_MAX_LEN) ts"
| "log_chunks (Suc k) ptr n ts = log_chunks k (ptr + JE_MAX_LEN) n (log_je ptr JE_MAX_LEN ts)"

text \<open>
  \<open>TransactionImpl::log\<close>: \<open>je_entries\<close> entries, the last one with the remaining
  \<open>len % JE_MAX_LEN\<close> bytes (none, when \<open>len\<close> is a multiple of 48), then a fence. A read-only
  transaction has \<open>jbegin = jend\<close>, so it fails the space check.
\<close>

definition tx_jend :: "tx_impl \<Rightarrow> pm \<Rightarrow> nat" where
  "tx_jend t s =
     (case th_index (ti_handle t) of None \<Rightarrow> 0 | Some i \<Rightarrow> length (ext (slots s i)))"

definition tx_log :: "addr \<Rightarrow> nat \<Rightarrow> tx_impl \<times> pm \<Rightarrow> (tx_impl \<times> pm) result" where
  "tx_log ptr n ts =
     (case ts of (t, s) \<Rightarrow>
        let je_entries = (n + JE_MAX_LEN) div JE_MAX_LEN in
        if tx_jend t s \<le> ti_jcur t + je_entries
        then Inl (if ti_rw t then OutOfJournalSpace else ReadOnly)
        else (case log_chunks (je_entries - 1) ptr n (t, s) of (t', s') \<Rightarrow> Inr (t', sfence (tx_slot t) s')))"

definition tx_store :: "addr \<Rightarrow> u8 list \<Rightarrow> tx_impl \<times> pm \<Rightarrow> tx_impl \<times> pm" where
  "tx_store a bs ts = (case ts of (t, s) \<Rightarrow> (t, store a bs s))"

text \<open>\<open>write(T *ptr, T new_val)\<close>: log the old value and store the new one.\<close>

definition tx_write :: "addr \<Rightarrow> u8 list \<Rightarrow> tx_impl \<times> pm \<Rightarrow> (tx_impl \<times> pm) result" where
  "tx_write ptr new_val ts =
     rbind (tx_log ptr (length new_val) ts) (\<lambda>ts'. Inr (tx_store ptr new_val ts'))"

text \<open>\<open>write(void *dst, void *src, size_t len)\<close>: as in the source, it logs \<open>src\<close>.\<close>

definition tx_write_copy :: "addr \<Rightarrow> addr \<Rightarrow> nat \<Rightarrow> tx_impl \<times> pm \<Rightarrow> (tx_impl \<times> pm) result" where
  "tx_write_copy dst src n ts =
     rbind (tx_log src n ts)
       (\<lambda>ts'. Inr (tx_store dst (read_bytes (cache (snd ts')) src n) ts'))"

text \<open>\<open>flush_range\<close> flushes every line of the range, \<open>write_nolog\<close> stores and flushes.\<close>

fun flush_lines :: "nat \<Rightarrow> nat \<Rightarrow> addr \<Rightarrow> pm \<Rightarrow> pm" where
  "flush_lines i 0 a s = s"
| "flush_lines i (Suc k) a s = flush_lines i k (a + line_size) (clflush i a s)"

definition align_high :: "nat \<Rightarrow> nat \<Rightarrow> nat" where
  "align_high n sz = align_down sz (n + (sz - 1))"

definition flush_range :: "nat \<Rightarrow> addr \<Rightarrow> nat \<Rightarrow> pm \<Rightarrow> pm" where
  "flush_range i ptr n s =
     (let n' = align_high (n + ptr mod line_size) line_size in flush_lines i (n' div line_size) ptr s)"

definition tx_write_nolog :: "addr \<Rightarrow> u8 list \<Rightarrow> tx_impl \<times> pm \<Rightarrow> tx_impl \<times> pm" where
  "tx_write_nolog dst bs ts =
     (case ts of (t, s) \<Rightarrow> (t, flush_range (tx_slot t) dst (length bs) (store dst bs s)))"

section \<open>Rollback and recovery\<close>

text \<open>
  The scan stops at the first entry of another transaction (the 56-bit field is compared with the
  64-bit id); the entries before it are then undone in reverse order.
\<close>

definition valid_entries :: "u64 \<Rightarrow> journal_entry list \<Rightarrow> journal_entry list" where
  "valid_entries tid js = takeWhile (\<lambda>je. ucast (je_tx_id je) = tid) js"

definition undo_entry :: "nat \<Rightarrow> journal_entry \<Rightarrow> pm \<Rightarrow> pm" where
  "undo_entry i je s =
     clflush i (je_addr je) (store (je_addr je) (take (je_len je) (je_data je)) s)"

fun undo_all :: "nat \<Rightarrow> journal_entry list \<Rightarrow> pm \<Rightarrow> pm" where
  "undo_all i [] s = s"
| "undo_all i (je # js) s = undo_entry i je (undo_all i js s)"

definition rollback :: "tx_handle \<Rightarrow> nat \<Rightarrow> pm \<Rightarrow> pm" where
  "rollback h jend s =
     (let i = (case th_index h of None \<Rightarrow> 0 | Some i \<Rightarrow> i) in
      sfence i (undo_all i (valid_entries (th_id h) (take jend (ext (slots s i)))) s))"

text \<open>\<open>recover_tx\<close>: the same over the whole extent, for the transaction named in the header.\<close>

definition recover_tx :: "tx_handle \<Rightarrow> pm \<Rightarrow> pm" where
  "recover_tx h s =
     (let i = (case th_index h of None \<Rightarrow> 0 | Some i \<Rightarrow> i) in rollback h (length (ext (slots s i))) s)"

section \<open>TransactionManager: the table\<close>

record tx_manager =
  tm_cur_tx_id :: u64
  tm_max_transactions :: nat
  tm_journal_addr :: addr
  tm_extent_size :: nat
  tm_max_extents :: nat

definition tx_jbegin_addr :: "tx_manager \<Rightarrow> nat \<Rightarrow> addr" where
  "tx_jbegin_addr tm i = tm_journal_addr tm + i * tm_extent_size tm"

definition tx_jend_addr :: "tx_manager \<Rightarrow> nat \<Rightarrow> addr" where
  "tx_jend_addr tm i = tm_journal_addr tm + (i + 1) * tm_extent_size tm"

definition store_hdr :: "nat \<Rightarrow> u64 \<Rightarrow> pm \<Rightarrow> pm" where
  "store_hdr i w s = upd_slot i (\<lambda>sl. sl\<lparr>hdr := w, hdr_pend := True\<rparr>) s"

fun reset_table :: "nat \<Rightarrow> pm \<Rightarrow> pm" where
  "reset_table 0 s = s"
| "reset_table (Suc n) s = store_hdr n 0 (reset_table n s)"

text \<open>\<open>recover\<close>: the loop over the table from slot \<open>i\<close>, \<open>k\<close> slots to go.\<close>

fun recover_from :: "bool \<Rightarrow> nat \<Rightarrow> nat \<Rightarrow> u64 \<Rightarrow> pm \<Rightarrow> (u64 \<times> pm) result" where
  "recover_from read_only i 0 max_tx_id s = Inr (max_tx_id, s)"
| "recover_from read_only i (Suc k) max_tx_id s =
     (let tx_id = hdr (slots s i) in
      if tx_id AND ACTIVE \<noteq> 0 then
        if read_only then Inl ReadOnly
        else (let tid = tx_id AND NOT ACTIVE;
                  s' = store_hdr i tid (recover_tx \<lparr>th_id = tid, th_index = Some i\<rparr> s)
              in recover_from read_only (Suc i) k (if max_tx_id < tid then tid else max_tx_id) s')
      else recover_from read_only (Suc i) k (if max_tx_id < tx_id then tx_id else max_tx_id) s)"

definition recover :: "bool \<Rightarrow> tx_manager \<times> pm \<Rightarrow> (tx_manager \<times> pm) result" where
  "recover read_only ms =
     (case ms of (tm, s) \<Rightarrow>
        rbind (recover_from read_only 0 (tm_max_transactions tm) 0 s)
          (\<lambda>(m, s'). Inr (tm\<lparr>tm_cur_tx_id := m\<rparr>, s')))"

text \<open>
  The constructor: sizes, the configuration check, and reset or recovery. \<open>None\<close> is the trap of
  an integer division by zero in the initialiser list.
\<close>

definition transaction_manager ::
    "nat \<Rightarrow> addr \<Rightarrow> nat \<Rightarrow> bool \<Rightarrow> bool \<Rightarrow> pm \<Rightarrow> (tx_manager \<times> pm) result option" where
  "transaction_manager table_size journal_addr journal_size create read_only s =
     (let max_tx = table_size div 64 in
      if max_tx = 0 then None
      else let extent = journal_size div max_tx in
      if extent = 0 then None
      else let max_ext = journal_size div extent;
          tm = \<lparr>tm_cur_tx_id = 0, tm_max_transactions = max_tx, tm_journal_addr = journal_addr,
                tm_extent_size = extent, tm_max_extents = max_ext\<rparr>
      in Some (if max_ext < max_tx then Inl InvalidConfig
         else if create then Inr (tm, reset_table max_tx s)
         else recover read_only (tm, s)))"

text \<open>
  \<open>alloc_transaction\<close>: the id is drawn first and stays drawn when no slot is free. The
  \<open>cmpxchg\<close> succeeds when no other thread takes the slot between the read and the exchange.
\<close>

definition alloc_transaction ::
    "bool \<Rightarrow> tx_manager \<times> pm \<Rightarrow> tx_handle result \<times> (tx_manager \<times> pm)" where
  "alloc_transaction read_only ms =
     (case ms of (tm, s) \<Rightarrow>
        if read_only then (Inr \<lparr>th_id = - 1, th_index = None\<rparr>, (tm, s))
        else (let tx_id = tm_cur_tx_id tm + 1; tm' = tm\<lparr>tm_cur_tx_id := tx_id\<rparr> in
              case find (\<lambda>i. hdr (slots s i) AND ACTIVE = 0) [0..<tm_max_transactions tm] of
                None \<Rightarrow> (Inl OutOfTransactions, (tm', s))
              | Some i \<Rightarrow> (Inr \<lparr>th_id = tx_id, th_index = Some i\<rparr>,
                            (tm', store_hdr i (tx_id OR ACTIVE) s))))"

definition free_transaction :: "tx_handle \<Rightarrow> pm \<Rightarrow> pm" where
  "free_transaction h s =
     (case th_index h of None \<Rightarrow> s
      | Some i \<Rightarrow> sfence i (store_hdr i (hdr (slots s i) AND NOT ACTIVE) s))"

section \<open>TransactionImpl: construction, commit, destruction\<close>

text \<open>
  \<open>db_read_only\<close> is the outcome of \<open>GraphImpl::check_read_write\<close>, \<open>nested\<close> says that the
  thread already has a transaction.
\<close>

definition tx_new ::
    "bool \<Rightarrow> bool \<Rightarrow> bool \<Rightarrow> bool \<Rightarrow> tx_manager \<times> pm \<Rightarrow> tx_impl result \<times> (tx_manager \<times> pm)" where
  "tx_new db_read_only nested read_write independent ms =
     (if read_write \<and> db_read_only then (Inl ReadOnly, ms)
      else if nested \<and> read_write \<and> \<not> independent then (Inl NotImplemented, ms)
      else (case alloc_transaction (\<not> read_write) ms of
              (Inl e, ms') \<Rightarrow> (Inl e, ms')
            | (Inr h, ms') \<Rightarrow>
                (Inr \<lparr>ti_rw = read_write, ti_committed = False, ti_handle = h, ti_jcur = 0\<rparr>, ms')))"

fun flush_entries :: "nat \<Rightarrow> journal_entry list \<Rightarrow> pm \<Rightarrow> pm" where
  "flush_entries i [] s = s"
| "flush_entries i (je # js) s = flush_entries i js (clflush i (je_addr je) s)"

text \<open>
  \<open>finalize_commit\<close>: the commit callbacks run first (they may log and store, or throw), then
  the address of every journal entry is flushed, then a fence.
\<close>

definition finalize_commit ::
    "(tx_impl \<times> pm \<Rightarrow> (tx_impl \<times> pm) result) list \<Rightarrow> tx_impl \<times> pm \<Rightarrow> (tx_impl \<times> pm) result" where
  "finalize_commit callbacks ts =
     rbind (fold (\<lambda>f r. rbind r f) callbacks (Inr ts))
       (\<lambda>(t, s). let i = tx_slot t in
          Inr (t, sfence i (flush_entries i (take (ti_jcur t) (ext (slots s i))) s)))"

definition tx_commit ::
    "(tx_impl \<times> pm \<Rightarrow> (tx_impl \<times> pm) result) list \<Rightarrow> tx_impl \<times> pm \<Rightarrow> (tx_impl \<times> pm) result" where
  "tx_commit callbacks ts =
     rbind (if ti_rw (fst ts) then finalize_commit callbacks ts else Inr ts)
       (\<lambda>(t, s). Inr (t\<lparr>ti_committed := True\<rparr>, s))"

text \<open>
  The destructor. The abort and finalize callbacks change DRAM state only (allocator lists and
  locks), a value \<open>d\<close> of its own here; \<open>unlock_all\<close> releases the transaction's locks. The locks
  go before the slot is freed, as in the source.
\<close>

definition tx_release ::
    "('d \<Rightarrow> 'd) list \<Rightarrow> ('d \<Rightarrow> 'd) list \<Rightarrow> ('d \<Rightarrow> 'd) \<Rightarrow> (tx_impl \<times> pm) \<times> 'd \<Rightarrow> pm \<times> 'd" where
  "tx_release abort_callbacks finalize_callbacks unlock_all tsd =
     (case tsd of ((t, s), d) \<Rightarrow>
        let aborted = ti_rw t \<and> \<not> ti_committed t;
            s1 = (if aborted then rollback (ti_handle t) (ti_jcur t) s else s);
            d1 = (if aborted then fold (\<lambda>f. f) abort_callbacks d else d);
            d2 = (if ti_rw t then fold (\<lambda>f. f) finalize_callbacks d1 else d1)
        in (s1, unlock_all d2))"

definition tx_destroy ::
    "('d \<Rightarrow> 'd) list \<Rightarrow> ('d \<Rightarrow> 'd) list \<Rightarrow> ('d \<Rightarrow> 'd) \<Rightarrow> (tx_impl \<times> pm) \<times> 'd \<Rightarrow> pm \<times> 'd" where
  "tx_destroy abort_callbacks finalize_callbacks unlock_all tsd =
     (let t = fst (fst tsd); (s1, d1) = tx_release abort_callbacks finalize_callbacks unlock_all tsd
      in (if ti_rw t then free_transaction (ti_handle t) s1 else s1, d1))"

section \<open>A freshly formatted region\<close>

definition zero_entry :: journal_entry where
  "zero_entry = \<lparr>je_tx_id = 0, je_len = 0, je_addr = 0, je_data = replicate JE_MAX_LEN 0\<rparr>"

definition fresh_pm :: "nat \<Rightarrow> pm" where
  "fresh_pm k =
     \<lparr>cache = (\<lambda>_. 0), dirty = {}, pend = (\<lambda>_. {}),
      slots = (\<lambda>_. \<lparr>hdr = 0, hdr_dur = 0, hdr_pend = False,
                     ext = replicate k zero_entry, ext_dur = replicate k zero_entry\<rparr>)\<rparr>"

definition fresh_tm :: "nat \<Rightarrow> tx_manager" where
  "fresh_tm n =
     \<lparr>tm_cur_tx_id = 0, tm_max_transactions = n, tm_journal_addr = 0, tm_extent_size = 128,
      tm_max_extents = n\<rparr>"

end
