(* ===== verification/Crash_Recovery.thy ===== *)
theory Crash_Recovery
  imports Pm_Journal
begin

text \<open>
  Crash atomicity of the undo journal. Any number of transactions interleave their steps (begin,
  one journal entry, fence, store, flush, freeing the slot) over one persistent memory, as the
  threads of the program do. A ghost memory \<open>c_base\<close> holds the effects of exactly the transactions
  whose slot has been freed. The protocol the steps follow is the one the code is meant to follow:
  store only what a fenced journal entry covers, log only what no other open slot has logged (the
  locks), free the slot only when everything logged is durable. \<open>P\<close> is the protected memory;
  memory outside \<open>P\<close> (fresh allocations nobody can reach yet) may be stored without logging.
\<close>

section \<open>Simplification of the machine operations\<close>

lemma slots_upd_slot [mem_simps]: "slots (upd_slot i f s) k = (if k = i then f (slots s i) else slots s k)"
  by (simp add: upd_slot_def)

lemma upd_slot_frame [mem_simps]:
  "cache (upd_slot i f s) = cache s" "dirty (upd_slot i f s) = dirty s" "pend (upd_slot i f s) = pend s"
  by (simp_all add: upd_slot_def)

lemma clflush_frame [mem_simps]:
  "cache (clflush i a s) = cache s" "dirty (clflush i a s) = dirty s" "slots (clflush i a s) = slots s"
  by (simp_all add: clflush_def)

lemma store_frame [mem_simps]:
  "slots (store a bs s) = slots s" "cache (store a bs s) = write_bytes (cache s) a bs"
  "dirty (store a bs s) = dirty s \<union> {a..<a + length bs}"
  by (simp_all add: store_def)

lemma sfence_frame [mem_simps]:
  "cache (sfence i s) = cache s" "dirty (sfence i s) = dirty s - pend s i"
  "slots (sfence i s) k = (if k = i then (slots s i)\<lparr>ext_dur := ext (slots s i),
     hdr_dur := (if hdr_pend (slots s i) then hdr (slots s i) else hdr_dur (slots s i)),
     hdr_pend := False\<rparr> else slots s k)"
  by (simp_all add: sfence_def upd_slot_def)

lemma store_hdr_frame [mem_simps]:
  "cache (store_hdr i w s) = cache s" "dirty (store_hdr i w s) = dirty s" "pend (store_hdr i w s) = pend s"
  "slots (store_hdr i w s) k =
     (if k = i then (slots s i)\<lparr>hdr := w, hdr_pend := True\<rparr> else slots s k)"
  by (simp_all add: store_hdr_def upd_slot_def)

section \<open>The header word\<close>

lemma bit_ACTIVE: "bit ACTIVE n \<longleftrightarrow> n = 63"
  unfolding ACTIVE_def by (auto simp only: bit_push_bit_iff bit_1_iff) (simp_all add: bit_simps)

lemma active_or: "(w OR ACTIVE) AND ACTIVE \<noteq> 0"
proof -
  have "bit ((w OR ACTIVE) AND ACTIVE) 63" by (simp only: bit_and_iff bit_or_iff bit_ACTIVE) simp
  then show ?thesis by force
qed

lemma inactive_and_not: "(w AND NOT ACTIVE) AND ACTIVE = 0"
  by (rule bit_word_eqI) (simp add: bit_simps)

lemma and_not_active: "(w OR ACTIVE) AND NOT ACTIVE = w AND NOT ACTIVE"
  by (rule bit_word_eqI) (auto simp: bit_simps)

lemma small_no_bit:
  assumes "w < 2 ^ 56" "56 \<le> n"
  shows "\<not> bit (w :: u64) n"
proof -
  have "unat w < 2 ^ 56" using assms(1) by (simp add: word_less_nat_alt)
  also have "\<dots> \<le> 2 ^ n" using assms(2) by (intro power_increasing) auto
  finally have "unat w div 2 ^ n = 0" by simp
  then have "\<not> bit (unat w) n" by (simp add: bit_iff_odd)
  then show ?thesis by (auto simp: bit_unsigned_iff dest: bit_imp_le_length)
qed

lemma small_and_not_active: "w < 2 ^ 56 \<Longrightarrow> w AND NOT ACTIVE = (w :: u64)"
  by (rule bit_word_eqI) (auto simp: bit_and_iff bit_not_iff bit_ACTIVE small_no_bit)

lemma small_ucast:
  assumes "w < 2 ^ 56"
  shows "ucast (ucast w :: 56 word) = (w :: u64)"
proof (rule bit_word_eqI)
  fix n
  show "bit (ucast (ucast w :: 56 word) :: u64) n = bit w n" if "n < LENGTH(64)"
    using small_no_bit [OF assms, of n] that by (cases "n < 56") (simp_all add: bit_simps)
qed

section \<open>What an undo pass writes\<close>

definition je_covers :: "journal_entry \<Rightarrow> addr set" where
  "je_covers je = {je_addr je..<je_addr je + je_len je}"

definition logged :: "journal_entry list \<Rightarrow> addr set" where
  "logged js = (\<Union>je\<in>set js. je_covers je)"

definition je_wf :: "journal_entry \<Rightarrow> bool" where
  "je_wf je \<longleftrightarrow> je_len je \<le> length (je_data je)"

text \<open>The value the oldest entry that covers an address holds for it.\<close>

fun oldest :: "journal_entry list \<Rightarrow> addr \<Rightarrow> u8 option" where
  "oldest [] a = None"
| "oldest (je # js) a =
     (if a \<in> je_covers je then Some (je_data je ! (a - je_addr je)) else oldest js a)"

lemma oldest_None: "oldest js a = None \<longleftrightarrow> a \<notin> logged js"
  by (induction js) (auto simp: logged_def)

lemma oldest_append: "oldest (js @ ks) a = (case oldest js a of None \<Rightarrow> oldest ks a | Some v \<Rightarrow> Some v)"
  by (induction js) auto

lemma logged_simps [simp]:
  "logged [] = {}" "logged (je # js) = je_covers je \<union> logged js" "logged (js @ ks) = logged js \<union> logged ks"
  by (auto simp: logged_def)

lemma logged_take_mono: "i \<le> j \<Longrightarrow> logged (take i js) \<subseteq> logged (take j js)"
  unfolding logged_def by (intro UN_mono set_take_subset_set_take) auto

lemma cache_undo_all:
  "\<forall>je\<in>set js. je_wf je \<Longrightarrow>
   cache (undo_all i js s) a = (case oldest js a of None \<Rightarrow> cache s a | Some v \<Rightarrow> v)"
  by (induction js) (auto simp: undo_entry_def mem_simps write_bytes_def je_covers_def je_wf_def)

lemma undo_all_slots [mem_simps]: "slots (undo_all i js s) = slots s"
  by (induction js) (simp_all add: undo_entry_def mem_simps)

section \<open>Interleaved transactions\<close>

record cfg =
  c_pm :: pm
  c_base :: mem
  c_txs :: "nat \<Rightarrow> tx_impl option"

abbreviation slot_of :: "cfg \<Rightarrow> nat \<Rightarrow> slot" where
  "slot_of c i \<equiv> slots (c_pm c) i"

abbreviation tid_of :: "tx_impl \<Rightarrow> u64" where
  "tid_of t \<equiv> th_id (ti_handle t)"

definition own_log :: "cfg \<Rightarrow> nat \<Rightarrow> tx_impl \<Rightarrow> journal_entry list" where
  "own_log c i t = take (ti_jcur t) (ext (slot_of c i))"

definition durable_log :: "cfg \<Rightarrow> nat \<Rightarrow> tx_impl \<Rightarrow> journal_entry list" where
  "durable_log c i t = valid_entries (tid_of t) (ext_dur (slot_of c i))"

inductive cr_step :: "addr set \<Rightarrow> cfg \<Rightarrow> cfg \<Rightarrow> bool" for P :: "addr set" where
  cr_begin:
    "c_txs c i = None \<Longrightarrow> tid < 2 ^ 56 \<Longrightarrow> \<forall>je\<in>set (ext (slot_of c i)). je_tx_id je \<noteq> ucast tid \<Longrightarrow>
     cr_step P c (c\<lparr>c_pm := store_hdr i (tid OR ACTIVE) (c_pm c),
       c_txs := (c_txs c)(i \<mapsto> \<lparr>ti_rw = True, ti_committed = False,
         ti_handle = \<lparr>th_id = tid, th_index = Some i\<rparr>, ti_jcur = 0\<rparr>)\<rparr>)"
| cr_log:
    "c_txs c i = Some t \<Longrightarrow> ti_jcur t < length (ext (slot_of c i)) \<Longrightarrow>
     (\<And>k u. k \<noteq> i \<Longrightarrow> c_txs c k = Some u \<Longrightarrow> {src..<src + n} \<inter> P \<inter> logged (own_log c k u) = {}) \<Longrightarrow>
     log_je src n (t, c_pm c) = (t', s') \<Longrightarrow>
     cr_step P c (c\<lparr>c_pm := s', c_txs := (c_txs c)(i \<mapsto> t')\<rparr>)"
| cr_fence:
    "c_txs c i = Some t \<Longrightarrow> cr_step P c (c\<lparr>c_pm := sfence i (c_pm c)\<rparr>)"
| cr_store:
    "c_txs c i = Some t \<Longrightarrow> {a..<a + length bs} \<inter> P \<subseteq> logged (durable_log c i t) \<Longrightarrow>
     cr_step P c (c\<lparr>c_pm := store a bs (c_pm c)\<rparr>)"
| cr_flush:
    "cr_step P c (c\<lparr>c_pm := clflush i a (c_pm c)\<rparr>)"
| cr_commit:
    "c_txs c i = Some t \<Longrightarrow> P \<inter> logged (own_log c i t) \<inter> dirty (c_pm c) = {} \<Longrightarrow>
     cr_step P c (c\<lparr>c_pm := free_transaction (ti_handle t) (c_pm c),
       c_base := (\<lambda>a. if a \<in> logged (own_log c i t) then cache (c_pm c) a else c_base c a),
       c_txs := (c_txs c)(i := None)\<rparr>)"

inductive_cases cr_stepE: "cr_step P c c'"

text \<open>The start: every slot idle and durable, protected memory durable.\<close>

definition cr_init :: "addr set \<Rightarrow> cfg \<Rightarrow> bool" where
  "cr_init P c \<longleftrightarrow>
     c_txs c = (\<lambda>_. None) \<and> (\<forall>a\<in>P. cache (c_pm c) a = c_base c a \<and> a \<notin> dirty (c_pm c)) \<and>
     (\<forall>i. hdr (slot_of c i) AND ACTIVE = 0 \<and> hdr_dur (slot_of c i) = hdr (slot_of c i) \<and>
          \<not> hdr_pend (slot_of c i) \<and> ext_dur (slot_of c i) = ext (slot_of c i))"

inductive cr_reach :: "addr set \<Rightarrow> cfg \<Rightarrow> bool" for P :: "addr set" where
  cr_start: "cr_init P c \<Longrightarrow> cr_reach P c"
| cr_next: "cr_reach P c \<Longrightarrow> cr_step P c c' \<Longrightarrow> cr_reach P c'"

section \<open>The invariant\<close>

definition slot_idle :: "slot \<Rightarrow> bool" where
  "slot_idle sl \<longleftrightarrow>
     hdr sl AND ACTIVE = 0 \<and> hdr_dur sl = hdr sl \<and> \<not> hdr_pend sl \<and> ext_dur sl = ext sl"

text \<open>\<open>d\<close> entries of the open slot are known durable; until the first fence the header may not be.\<close>

definition slot_open :: "slot \<Rightarrow> nat \<Rightarrow> tx_impl \<Rightarrow> nat \<Rightarrow> bool" where
  "slot_open sl i t d \<longleftrightarrow>
     th_index (ti_handle t) = Some i \<and> tid_of t < 2 ^ 56 \<and>
     d \<le> ti_jcur t \<and> ti_jcur t \<le> length (ext sl) \<and> length (ext_dur sl) = length (ext sl) \<and>
     (\<forall>k<ti_jcur t. je_tx_id (ext sl ! k) = ucast (tid_of t) \<and> je_wf (ext sl ! k)) \<and>
     (\<forall>k. ti_jcur t \<le> k \<and> k < length (ext sl) \<longrightarrow> je_tx_id (ext sl ! k) \<noteq> ucast (tid_of t)) \<and>
     (\<forall>k<d. ext_dur sl ! k = ext sl ! k) \<and>
     (\<forall>k. d \<le> k \<and> k < length (ext sl) \<longrightarrow> je_tx_id (ext_dur sl ! k) \<noteq> ucast (tid_of t)) \<and>
     hdr sl = tid_of t OR ACTIVE \<and>
     (hdr_dur sl = hdr sl \<or> (d = 0 \<and> hdr_pend sl \<and> hdr_dur sl AND ACTIVE = 0))"

definition cr_inv :: "addr set \<Rightarrow> cfg \<Rightarrow> bool" where
  "cr_inv P c \<longleftrightarrow>
     (\<forall>i. c_txs c i = None \<longrightarrow> slot_idle (slot_of c i)) \<and>
     (\<forall>i t. c_txs c i = Some t \<longrightarrow> (\<exists>d. slot_open (slot_of c i) i t d)) \<and>
     (\<forall>i t. c_txs c i = Some t \<longrightarrow>
        (\<forall>a\<in>P. \<forall>v. oldest (own_log c i t) a = Some v \<longrightarrow> v = c_base c a)) \<and>
     (\<forall>a\<in>P. a \<in> dirty (c_pm c) \<or> cache (c_pm c) a \<noteq> c_base c a \<longrightarrow>
        (\<exists>i t. c_txs c i = Some t \<and> a \<in> logged (durable_log c i t))) \<and>
     (\<forall>i k t u. i \<noteq> k \<longrightarrow> c_txs c i = Some t \<longrightarrow> c_txs c k = Some u \<longrightarrow>
        P \<inter> logged (own_log c i t) \<inter> logged (own_log c k u) = {})"

lemma cr_invI:
  assumes "\<And>i. c_txs c i = None \<Longrightarrow> slot_idle (slot_of c i)"
    and "\<And>i t. c_txs c i = Some t \<Longrightarrow> \<exists>d. slot_open (slot_of c i) i t d"
    and "\<And>i t a v. c_txs c i = Some t \<Longrightarrow> a \<in> P \<Longrightarrow> oldest (own_log c i t) a = Some v \<Longrightarrow> v = c_base c a"
    and "\<And>a. a \<in> P \<Longrightarrow> a \<in> dirty (c_pm c) \<or> cache (c_pm c) a \<noteq> c_base c a \<Longrightarrow>
           \<exists>i t. c_txs c i = Some t \<and> a \<in> logged (durable_log c i t)"
    and "\<And>i k t u a. i \<noteq> k \<Longrightarrow> c_txs c i = Some t \<Longrightarrow> c_txs c k = Some u \<Longrightarrow>
           a \<in> P \<Longrightarrow> a \<in> logged (own_log c i t) \<Longrightarrow> a \<notin> logged (own_log c k u)"
  shows "cr_inv P c"
  unfolding cr_inv_def using assms by (intro conjI allI impI ballI) blast+

lemma cr_invD:
  assumes "cr_inv P c"
  shows "c_txs c i = None \<Longrightarrow> slot_idle (slot_of c i)"
    and "c_txs c i = Some t \<Longrightarrow> \<exists>d. slot_open (slot_of c i) i t d"
    and "c_txs c i = Some t \<Longrightarrow> a \<in> P \<Longrightarrow> oldest (own_log c i t) a = Some v \<Longrightarrow> v = c_base c a"
    and "a \<in> P \<Longrightarrow> a \<in> dirty (c_pm c) \<or> cache (c_pm c) a \<noteq> c_base c a \<Longrightarrow>
           \<exists>i t. c_txs c i = Some t \<and> a \<in> logged (durable_log c i t)"
    and "i \<noteq> k \<Longrightarrow> c_txs c i = Some t \<Longrightarrow> c_txs c k = Some u \<Longrightarrow>
           a \<in> P \<Longrightarrow> a \<in> logged (own_log c i t) \<Longrightarrow> a \<notin> logged (own_log c k u)"
  using assms unfolding cr_inv_def by blast+

lemma tid_match: "tid < 2 ^ 56 \<Longrightarrow> (ucast (x :: 56 word) = (tid :: u64)) = (x = ucast tid)"
proof
  assume tid: "tid < 2 ^ 56"
  have "ucast (ucast x :: u64) = x" by (rule bit_word_eqI) (simp add: bit_simps)
  then show "x = ucast tid" if "ucast x = tid" using that by auto
  show "ucast x = tid" if "x = ucast tid" using that small_ucast [OF tid] by simp
qed

lemma valid_entries_prefix:
  assumes "tid < 2 ^ 56" "d \<le> length js" "\<forall>k<d. je_tx_id (js ! k) = ucast tid"
    and "d < length js \<Longrightarrow> je_tx_id (js ! d) \<noteq> ucast tid"
  shows "valid_entries tid js = take d js"
  unfolding valid_entries_def tid_match [OF assms(1)]
  by (rule takeWhile_eq_take_P_nth) (use assms in auto)

lemma durable_log_open:
  assumes "slot_open (slot_of c i) i t d"
  shows "durable_log c i t = take d (ext (slot_of c i))"
proof -
  have "durable_log c i t = take d (ext_dur (slot_of c i))"
    unfolding durable_log_def using assms
    by (intro valid_entries_prefix) (auto simp: slot_open_def)
  also have "\<dots> = take d (ext (slot_of c i))"
    using assms by (intro nth_equalityI) (auto simp: slot_open_def)
  finally show ?thesis .
qed

lemma durable_sub_own:
  assumes "slot_open (slot_of c i) i t d"
  shows "logged (durable_log c i t) \<subseteq> logged (own_log c i t)"
  using assms unfolding durable_log_open [OF assms] own_log_def
  by (intro logged_take_mono) (simp add: slot_open_def)

lemma cr_init_inv: "cr_init P c \<Longrightarrow> cr_inv P c"
  by (rule cr_invI) (auto simp: cr_init_def slot_idle_def)

section \<open>Every step keeps the invariant\<close>

lemma inv_begin:
  assumes inv: "cr_inv P c" and none: "c_txs c i = None" and tid: "tid < 2 ^ 56"
    and fresh: "\<forall>je\<in>set (ext (slot_of c i)). je_tx_id je \<noteq> ucast tid"
  defines "t0 \<equiv> \<lparr>ti_rw = True, ti_committed = False,
       ti_handle = \<lparr>th_id = tid, th_index = Some i\<rparr>, ti_jcur = 0\<rparr>"
  shows "cr_inv P (c\<lparr>c_pm := store_hdr i (tid OR ACTIVE) (c_pm c), c_txs := (c_txs c)(i \<mapsto> t0)\<rparr>)"
    (is "cr_inv P ?c")
proof -
  have idle: "slot_idle (slot_of c i)" by (rule cr_invD(1) [OF inv none])
  have own: "own_log ?c k u = own_log c k u" for k u
    by (simp add: own_log_def mem_simps)
  have own_i: "own_log c i t0 = []"
    by (simp add: own_log_def t0_def)
  have dur: "durable_log ?c k u = durable_log c k u" for k u
    by (simp add: durable_log_def mem_simps)
  have open_i: "slot_open (slot_of ?c i) i t0 0"
    using idle tid fresh by (auto simp: slot_open_def slot_idle_def mem_simps t0_def)
  show ?thesis
  proof (rule cr_invI)
    fix k assume "c_txs ?c k = None"
    then show "slot_idle (slot_of ?c k)"
      using cr_invD(1) [OF inv, of k] by (auto simp: mem_simps split: if_splits)
  next
    fix k u assume k: "c_txs ?c k = Some u"
    show "\<exists>d. slot_open (slot_of ?c k) k u d"
    proof (cases "k = i")
      case True
      with open_i k show ?thesis by auto
    next
      case False
      with cr_invD(2) [OF inv, of k u] k show ?thesis by (simp add: mem_simps)
    qed
  next
    fix k u a v assume "c_txs ?c k = Some u" "a \<in> P" "oldest (own_log ?c k u) a = Some v"
    then show "v = c_base ?c a"
      using cr_invD(3) [OF inv, of k u a v] own_i unfolding own
      by (cases "k = i") auto
  next
    fix a assume "a \<in> P" "a \<in> dirty (c_pm ?c) \<or> cache (c_pm ?c) a \<noteq> c_base ?c a"
    then obtain k u where "c_txs c k = Some u" "a \<in> logged (durable_log c k u)"
      using cr_invD(4) [OF inv, of a] by (auto simp: mem_simps)
    with none show "\<exists>k u. c_txs ?c k = Some u \<and> a \<in> logged (durable_log ?c k u)"
      unfolding dur by (intro exI [of _ k] exI [of _ u]) auto
  next
    fix k l u w a
    assume "k \<noteq> l" "c_txs ?c k = Some u" "c_txs ?c l = Some w" "a \<in> P" "a \<in> logged (own_log ?c k u)"
    then show "a \<notin> logged (own_log ?c l w)"
      using cr_invD(5) [OF inv, of k l u w a] own_i unfolding own
      by (cases "k = i"; cases "l = i") auto
  qed
qed

lemma inv_log:
  assumes inv: "cr_inv P c" and t: "c_txs c i = Some t" and room: "ti_jcur t < length (ext (slot_of c i))"
    and excl: "\<And>k u. k \<noteq> i \<Longrightarrow> c_txs c k = Some u \<Longrightarrow> {src..<src + n} \<inter> P \<inter> logged (own_log c k u) = {}"
    and log: "log_je src n (t, c_pm c) = (t', s')"
  shows "cr_inv P (c\<lparr>c_pm := s', c_txs := (c_txs c)(i \<mapsto> t')\<rparr>)" (is "cr_inv P ?c")
proof -
  obtain d where d: "slot_open (slot_of c i) i t d" using cr_invD(2) [OF inv t] by blast
  define e where "e = make_entry (tid_of t) (cache (c_pm c)) src n (ext (slot_of c i) ! ti_jcur t)"
  have slot: "tx_slot t = i" using d by (simp add: slot_open_def tx_slot_def)
  have t': "t' = t\<lparr>ti_jcur := Suc (ti_jcur t)\<rparr>"
    and s': "s' = upd_slot i (\<lambda>sl. sl\<lparr>ext := (ext sl)[ti_jcur t := e]\<rparr>) (c_pm c)"
    using log slot by (simp_all add: log_je_def upd_slot_def e_def)
  have cov: "je_covers e = {src..<src + n}" and e_id: "je_tx_id e = ucast (tid_of t)" and e_wf: "je_wf e"
    by (simp_all add: e_def make_entry_def je_covers_def je_wf_def)
  have own_i: "own_log ?c i t' = own_log c i t @ [e]"
    using room by (simp add: own_log_def t' s' mem_simps take_Suc_conv_app_nth)
  have own: "own_log ?c k u = own_log c k u" if "k \<noteq> i" for k u
    using that by (simp add: own_log_def s' mem_simps)
  have dur: "durable_log ?c k u = durable_log c k u" for k u
    by (simp add: durable_log_def s' mem_simps)
  have open_i: "slot_open (slot_of ?c i) i t' d"
    using d room e_id e_wf
    by (auto simp: slot_open_def t' s' mem_simps nth_list_update less_Suc_eq)
  have clean: "cache (c_pm c) a = c_base c a" 
    if a: "a \<in> P" "a \<in> je_covers e" "a \<notin> logged (own_log c i t)" for a
  proof (rule ccontr)
    assume "cache (c_pm c) a \<noteq> c_base c a"
    then obtain k u where k: "c_txs c k = Some u" "a \<in> logged (durable_log c k u)"
      using cr_invD(4) [OF inv a(1)] by blast
    obtain d' where "slot_open (slot_of c k) k u d'" using cr_invD(2) [OF inv k(1)] by blast
    with k durable_sub_own have "a \<in> logged (own_log c k u)" by blast
    with a k t excl [of k u] cov show False by (cases "k = i") auto
  qed
  show ?thesis
  proof (rule cr_invI)
    fix k assume "c_txs ?c k = None"
    then show "slot_idle (slot_of ?c k)"
      using cr_invD(1) [OF inv, of k] by (auto simp: mem_simps s' split: if_splits)
  next
    fix k u assume k: "c_txs ?c k = Some u"
    show "\<exists>d. slot_open (slot_of ?c k) k u d"
    proof (cases "k = i")
      case True
      with open_i k show ?thesis by auto
    next
      case False
      with cr_invD(2) [OF inv, of k u] k show ?thesis by (simp add: mem_simps s')
    qed
  next
    fix k u a v assume k: "c_txs ?c k = Some u" "a \<in> P" "oldest (own_log ?c k u) a = Some v"
    show "v = c_base ?c a"
    proof (cases "k = i")
      case False
      with cr_invD(3) [OF inv, of k u a v] k show ?thesis by (simp add: own)
    next
      case True
      with k have u: "u = t'" by simp
      show ?thesis
      proof (cases "oldest (own_log c i t) a")
        case (Some w)
        with k True u own_i cr_invD(3) [OF inv t, of a w] show ?thesis by (simp add: oldest_append)
      next
        case None
        with k True u own_i have "a \<in> je_covers e" "v = je_data e ! (a - je_addr e)"
          by (auto simp: oldest_append split: if_splits)
        with None k clean [of a] show ?thesis
          by (auto simp: oldest_None e_def make_entry_def je_covers_def nth_append)
      qed
    qed
  next
    fix a assume "a \<in> P" "a \<in> dirty (c_pm ?c) \<or> cache (c_pm ?c) a \<noteq> c_base ?c a"
    then obtain k u where "c_txs c k = Some u" "a \<in> logged (durable_log c k u)"
      using cr_invD(4) [OF inv, of a] by (auto simp: mem_simps s')
    moreover have "durable_log c i t' = durable_log c i t" by (simp add: durable_log_def t')
    ultimately show "\<exists>k u. c_txs ?c k = Some u \<and> a \<in> logged (durable_log ?c k u)"
      unfolding dur using t
      by (intro exI [of _ k] exI [of _ "if k = i then t' else u"]) auto
  next
    fix k l u w a
    assume "k \<noteq> l" "c_txs ?c k = Some u" "c_txs ?c l = Some w" "a \<in> P" "a \<in> logged (own_log ?c k u)"
    then show "a \<notin> logged (own_log ?c l w)"
      using cr_invD(5) [OF inv, of k l] excl own own_i cov t
      by (cases "k = i"; cases "l = i") fastforce+
  qed
qed

lemma inv_fence:
  assumes inv: "cr_inv P c" and t: "c_txs c i = Some t"
  shows "cr_inv P (c\<lparr>c_pm := sfence i (c_pm c)\<rparr>)" (is "cr_inv P ?c")
proof -
  obtain d where d: "slot_open (slot_of c i) i t d" using cr_invD(2) [OF inv t] by blast
  have own: "own_log ?c k u = own_log c k u" for k u
    by (simp add: own_log_def mem_simps)
  have open_i: "slot_open (slot_of ?c i) i t (ti_jcur t)"
    using d by (auto simp: slot_open_def mem_simps)
  have dur_i: "durable_log ?c i t = own_log c i t"
    using durable_log_open [of ?c i t] open_i by (simp add: own_log_def mem_simps)
  have dur: "durable_log ?c k u = durable_log c k u" if "k \<noteq> i" for k u
    using that by (simp add: durable_log_def mem_simps)
  show ?thesis
  proof (rule cr_invI)
    fix k assume "c_txs ?c k = None"
    then show "slot_idle (slot_of ?c k)"
      using cr_invD(1) [OF inv, of k] t by (auto simp: mem_simps)
  next
    fix k u assume k: "c_txs ?c k = Some u"
    show "\<exists>d. slot_open (slot_of ?c k) k u d"
      using open_i k t cr_invD(2) [OF inv, of k u] by (cases "k = i") (auto simp: mem_simps)
  next
    fix k u a v assume "c_txs ?c k = Some u" "a \<in> P" "oldest (own_log ?c k u) a = Some v"
    then show "v = c_base ?c a" using cr_invD(3) [OF inv, of k u a v] by (simp add: own)
  next
    fix a assume "a \<in> P" "a \<in> dirty (c_pm ?c) \<or> cache (c_pm ?c) a \<noteq> c_base ?c a"
    then obtain k u where k: "c_txs c k = Some u" "a \<in> logged (durable_log c k u)"
      using cr_invD(4) [OF inv, of a] by (auto simp: mem_simps)
    have "a \<in> logged (durable_log ?c k u)"
      using k t dur_i dur [of k u] durable_sub_own [OF d] by (cases "k = i") auto
    with k show "\<exists>k u. c_txs ?c k = Some u \<and> a \<in> logged (durable_log ?c k u)" by auto
  next
    fix k l u w a
    assume "k \<noteq> l" "c_txs ?c k = Some u" "c_txs ?c l = Some w" "a \<in> P" "a \<in> logged (own_log ?c k u)"
    then show "a \<notin> logged (own_log ?c l w)"
      using cr_invD(5) [OF inv, of k l u w a] by (simp add: own)
  qed
qed

text \<open>Store and flush leave every slot alone.\<close>

lemma inv_data:
  assumes inv: "cr_inv P c" and slots: "slots s' = slots (c_pm c)"
    and data: "\<And>a. a \<in> P \<Longrightarrow> a \<in> dirty s' \<or> cache s' a \<noteq> c_base c a \<Longrightarrow>
      a \<in> dirty (c_pm c) \<or> cache (c_pm c) a \<noteq> c_base c a \<or>
      (\<exists>i t. c_txs c i = Some t \<and> a \<in> logged (durable_log c i t))"
  shows "cr_inv P (c\<lparr>c_pm := s'\<rparr>)"
proof -
  have own: "own_log (c\<lparr>c_pm := s'\<rparr>) k u = own_log c k u"
    and dur: "durable_log (c\<lparr>c_pm := s'\<rparr>) k u = durable_log c k u" for k u
    by (simp_all add: own_log_def durable_log_def slots)
  show ?thesis
  proof (rule cr_invI, goal_cases)
    case (1 i)
    then show ?case using cr_invD(1) [OF inv, of i] by (simp add: slots)
  next
    case (2 i t)
    then show ?case using cr_invD(2) [OF inv, of i t] by (simp add: slots)
  next
    case (3 i t a v)
    then show ?case using cr_invD(3) [OF inv, of i t a v] by (simp add: own)
  next
    case (4 a)
    then show ?case using data [of a] cr_invD(4) [OF inv, of a] by (auto simp: dur)
  next
    case (5 i k t u a)
    then show ?case using cr_invD(5) [OF inv, of i k t u a] by (simp add: own)
  qed
qed

lemma inv_store:
  assumes "cr_inv P c" "c_txs c i = Some t" "{a..<a + length bs} \<inter> P \<subseteq> logged (durable_log c i t)"
  shows "cr_inv P (c\<lparr>c_pm := store a bs (c_pm c)\<rparr>)"
proof (rule inv_data [OF assms(1)])
  show "slots (store a bs (c_pm c)) = slots (c_pm c)" by (simp add: mem_simps)
  fix x
  assume "x \<in> P" "x \<in> dirty (store a bs (c_pm c)) \<or> cache (store a bs (c_pm c)) x \<noteq> c_base c x"
  then show "x \<in> dirty (c_pm c) \<or> cache (c_pm c) x \<noteq> c_base c x \<or>
      (\<exists>i t. c_txs c i = Some t \<and> x \<in> logged (durable_log c i t))"
    using assms(2,3) by (cases "x \<in> {a..<a + length bs}") (auto simp: mem_simps)
qed

lemma inv_flush: "cr_inv P c \<Longrightarrow> cr_inv P (c\<lparr>c_pm := clflush i a (c_pm c)\<rparr>)"
  by (rule inv_data) (auto simp: mem_simps)

lemma free_transaction_open:
  assumes "slot_open (slots s i) i t d"
  shows "free_transaction (ti_handle t) s = sfence i (store_hdr i (tid_of t) s)"
  using assms small_and_not_active [of "tid_of t"]
  by (simp add: free_transaction_def slot_open_def and_not_active)

lemma inv_commit:
  assumes inv: "cr_inv P c" and t: "c_txs c i = Some t"
    and clean: "P \<inter> logged (own_log c i t) \<inter> dirty (c_pm c) = {}"
  shows "cr_inv P (c\<lparr>c_pm := free_transaction (ti_handle t) (c_pm c),
       c_base := (\<lambda>a. if a \<in> logged (own_log c i t) then cache (c_pm c) a else c_base c a),
       c_txs := (c_txs c)(i := None)\<rparr>)" (is "cr_inv P ?c")
proof -
  obtain d where d: "slot_open (slot_of c i) i t d" using cr_invD(2) [OF inv t] by blast
  have tid: "tid_of t AND ACTIVE = 0"
    using d inactive_and_not [of "tid_of t"] small_and_not_active [of "tid_of t"]
    by (simp add: slot_open_def)
  have free: "free_transaction (ti_handle t) (c_pm c) = sfence i (store_hdr i (tid_of t) (c_pm c))"
    by (rule free_transaction_open [OF d])
  have own: "own_log ?c k u = own_log c k u" and dur: "k \<noteq> i \<Longrightarrow> durable_log ?c k u = durable_log c k u" for k u
    by (simp_all add: own_log_def durable_log_def free mem_simps)
  show ?thesis
  proof (rule cr_invI)
    fix k assume "c_txs ?c k = None"
    then show "slot_idle (slot_of ?c k)"
      using cr_invD(1) [OF inv, of k] tid by (auto simp: free mem_simps slot_idle_def)
  next
    fix k u assume "c_txs ?c k = Some u"
    then show "\<exists>d. slot_open (slot_of ?c k) k u d"
      using cr_invD(2) [OF inv, of k u] by (auto simp: free mem_simps split: if_splits)
  next
    fix k u a v assume k: "c_txs ?c k = Some u" "a \<in> P" "oldest (own_log ?c k u) a = Some v"
    then have "a \<in> logged (own_log c k u)" using oldest_None [of "own_log c k u" a] by (auto simp: own)
    with k show "v = c_base ?c a"
      using cr_invD(3) [OF inv, of k u a v] cr_invD(5) [OF inv, of k i u t a] t
      by (auto simp: own split: if_splits)
  next
    fix a assume a: "a \<in> P" "a \<in> dirty (c_pm ?c) \<or> cache (c_pm ?c) a \<noteq> c_base ?c a"
    then have out: "a \<notin> logged (own_log c i t)"
      and old: "a \<in> dirty (c_pm c) \<or> cache (c_pm c) a \<noteq> c_base c a"
      using clean by (auto simp: free mem_simps split: if_splits)
    obtain k u where k: "c_txs c k = Some u" "a \<in> logged (durable_log c k u)"
      using cr_invD(4) [OF inv a(1) old] by blast
    then have "k \<noteq> i" using out durable_sub_own [OF d] t by auto
    with k show "\<exists>k u. c_txs ?c k = Some u \<and> a \<in> logged (durable_log ?c k u)"
      using dur by (intro exI [of _ k] exI [of _ u]) auto
  next
    fix k l u w a
    assume "k \<noteq> l" "c_txs ?c k = Some u" "c_txs ?c l = Some w" "a \<in> P" "a \<in> logged (own_log ?c k u)"
    then show "a \<notin> logged (own_log ?c l w)"
      using cr_invD(5) [OF inv, of k l u w a] unfolding own by (auto split: if_splits)
  qed
qed

lemma cr_step_inv: "cr_step P c c' \<Longrightarrow> cr_inv P c \<Longrightarrow> cr_inv P c'"
  by (induction rule: cr_step.induct)
    (blast intro: inv_begin inv_log inv_fence inv_store inv_flush inv_commit)+

lemma cr_reach_inv: "cr_reach P c \<Longrightarrow> cr_inv P c"
  by (induction rule: cr_reach.induct) (blast intro: cr_init_inv cr_step_inv)+

section \<open>Recovery after a crash\<close>

text \<open>What the crash leaves of an open slot's journal is a prefix of what the transaction wrote,
  at least as long as what it had fenced.\<close>

lemma crash_prefix:
  assumes op: "slot_open sl i t d" and cr: "crash_slot sl js' h'"
  shows "\<exists>e. d \<le> e \<and> e \<le> ti_jcur t \<and> valid_entries (tid_of t) js' = take e (ext sl)"
proof -
  define e where "e = length (valid_entries (tid_of t) js')"
  have len: "length js' = length (ext sl)" using cr by (simp add: crash_slot_def)
  have tid: "tid_of t < 2 ^ 56" using op by (simp add: slot_open_def)
  have ids: "ucast (je_tx_id je) = tid_of t \<longleftrightarrow> je_tx_id je = ucast (tid_of t)" for je :: journal_entry
    by (rule tid_match [OF tid])
  have le: "e \<le> length js'" unfolding e_def valid_entries_def by (rule length_takeWhile_le)
  have same: "js' ! k = ext sl ! k \<and> k < ti_jcur t" if "k < e" for k
  proof -
    have "ucast (je_tx_id (js' ! k)) = tid_of t"
      using that unfolding e_def valid_entries_def
      by (metis (mono_tags, lifting) nth_mem set_takeWhileD takeWhile_nth)
    then have id: "je_tx_id (js' ! k) = ucast (tid_of t)" using ids by blast
    have k: "k < length (ext sl)" using that le len by simp
    with cr consider "js' ! k = ext sl ! k"
      | "ext_dur sl ! k \<noteq> ext sl ! k" "je_tx_id (js' ! k) = je_tx_id (ext_dur sl ! k)"
      by (auto simp: crash_slot_def)
    then have eq: "js' ! k = ext sl ! k"
    proof cases
      case 2
      have "\<forall>k<d. ext_dur sl ! k = ext sl ! k"
        and "\<forall>k. d \<le> k \<and> k < length (ext sl) \<longrightarrow> je_tx_id (ext_dur sl ! k) \<noteq> ucast (tid_of t)"
        using op by (simp_all add: slot_open_def)
      with 2 id k have False by (metis not_less)
      then show ?thesis ..
    qed
    with id k op show ?thesis by (auto simp: slot_open_def not_less)
  qed
  have "d \<le> e"
  proof (rule ccontr)
    assume "\<not> d \<le> e"
    then have k: "e < length js'" and "ext_dur sl ! e = ext sl ! e" and j: "e < ti_jcur t"
      using op len by (auto simp: slot_open_def)
    then have "js' ! e = ext sl ! e"
      using cr len by (auto simp: crash_slot_def)
    with j have "ucast (je_tx_id (js' ! e)) = tid_of t" using op small_ucast [OF tid] by (simp add: slot_open_def)
    with nth_length_takeWhile [of "\<lambda>je. ucast (je_tx_id je) = tid_of t" js'] k show False
      by (simp add: e_def valid_entries_def)
  qed
  moreover have "e \<le> ti_jcur t" using same by (meson not_less order_refl)
  moreover have "valid_entries (tid_of t) js' = take e (ext sl)"
  proof (rule nth_equalityI)
    show "length (valid_entries (tid_of t) js') = length (take e (ext sl))"
      using le len by (simp add: e_def)
    fix k assume k: "k < length (valid_entries (tid_of t) js')"
    then have "valid_entries (tid_of t) js' ! k = js' ! k"
      unfolding valid_entries_def by (rule takeWhile_nth)
    with same [of k] k show "valid_entries (tid_of t) js' ! k = take e (ext sl) ! k"
      by (simp add: e_def)
  qed
  ultimately show ?thesis by blast
qed

text \<open>One pass of the recovery loop over slots \<open>i, \<dots>, i + k - 1\<close>.\<close>

abbreviation undo_list :: "pm \<Rightarrow> nat \<Rightarrow> journal_entry list" where
  "undo_list r k \<equiv> valid_entries (hdr (slots r k) AND NOT ACTIVE) (ext (slots r k))"

definition recoverable :: "addr set \<Rightarrow> mem \<Rightarrow> nat \<Rightarrow> nat \<Rightarrow> pm \<Rightarrow> bool" where
  "recoverable P b i n r \<longleftrightarrow>
     (\<forall>k. i \<le> k \<and> k < n \<and> hdr (slots r k) AND ACTIVE \<noteq> 0 \<longrightarrow>
        (\<forall>je\<in>set (undo_list r k). je_wf je) \<and>
        (\<forall>a\<in>P. \<forall>v. oldest (undo_list r k) a = Some v \<longrightarrow> v = b a)) \<and>
     (\<forall>a\<in>P. cache r a = b a \<or>
        (\<exists>k. i \<le> k \<and> k < n \<and> hdr (slots r k) AND ACTIVE \<noteq> 0 \<and> a \<in> logged (undo_list r k)))"

lemma recover_from_correct:
  assumes "recoverable P b i (i + k) r"
  shows "\<exists>m r'. recover_from False i k mx r = Inr (m, r') \<and> (\<forall>a\<in>P. cache r' a = b a) \<and>
           (\<forall>l. i \<le> l \<and> l < i + k \<longrightarrow> hdr (slots r' l) AND ACTIVE = 0) \<and>
           (\<forall>l. l < i \<or> i + k \<le> l \<longrightarrow> slots r' l = slots r l)"
  using assms
proof (induction k arbitrary: i mx r)
  case 0
  then show ?case by (auto simp: recoverable_def)
next
  case (Suc k)
  define tid where "tid = hdr (slots r i) AND NOT ACTIVE"
  define r1 where "r1 = (if hdr (slots r i) AND ACTIVE \<noteq> 0
    then store_hdr i tid (recover_tx \<lparr>th_id = tid, th_index = Some i\<rparr> r) else r)"
  have step: "\<exists>mx'. recover_from False i (Suc k) mx r = recover_from False (Suc i) k mx' r1"
    by (auto simp: r1_def tid_def Let_def)
  have other: "slots r1 l = slots r l" if "l \<noteq> i" for l
    using that by (simp add: r1_def recover_tx_def rollback_def mem_simps)
  have closed: "hdr (slots r1 i) AND ACTIVE = 0"
    by (simp add: r1_def tid_def mem_simps inactive_and_not)
  have cache: "cache r1 a = (if hdr (slots r i) AND ACTIVE \<noteq> 0
      then case oldest (undo_list r i) a of None \<Rightarrow> cache r a | Some v \<Rightarrow> v else cache r a)" for a
    using Suc.prems
    by (auto simp: r1_def recover_tx_def rollback_def mem_simps tid_def recoverable_def cache_undo_all)
  have "recoverable P b (Suc i) (Suc i + k) r1"
    unfolding recoverable_def
  proof (intro conjI allI impI ballI)
    fix l assume l: "Suc i \<le> l \<and> l < Suc i + k \<and> hdr (slots r1 l) AND ACTIVE \<noteq> 0"
    then have "l \<noteq> i" by simp
    moreover have "i \<le> l \<and> l < i + Suc k \<and> hdr (slots r l) AND ACTIVE \<noteq> 0 \<longrightarrow>
        (\<forall>je\<in>set (undo_list r l). je_wf je) \<and>
        (\<forall>a\<in>P. \<forall>v. oldest (undo_list r l) a = Some v \<longrightarrow> v = b a)"
      using Suc.prems unfolding recoverable_def by blast
    ultimately show "\<And>je. je \<in> set (undo_list r1 l) \<Longrightarrow> je_wf je"
      and "\<And>a v. a \<in> P \<Longrightarrow> oldest (undo_list r1 l) a = Some v \<Longrightarrow> v = b a"
      using l other [of l] by simp_all
  next
    fix a assume a: "a \<in> P"
    show "cache r1 a = b a \<or> (\<exists>k'. Suc i \<le> k' \<and> k' < Suc i + k \<and>
      hdr (slots r1 k') AND ACTIVE \<noteq> 0 \<and> a \<in> logged (undo_list r1 k'))"
    proof (cases "hdr (slots r i) AND ACTIVE \<noteq> 0 \<and> a \<in> logged (undo_list r i)")
      case True
      then obtain v where v: "oldest (undo_list r i) a = Some v"
        using oldest_None [of "undo_list r i" a] by auto
      with True a Suc.prems have "v = b a" by (auto simp: recoverable_def)
      with v True show ?thesis by (simp add: cache)
    next
      case False
      then have same: "cache r1 a = cache r a"
        using oldest_None [of "undo_list r i" a] by (auto simp: cache split: option.splits)
      from Suc.prems a consider "cache r a = b a"
        | l where "i \<le> l" "l < i + Suc k" "hdr (slots r l) AND ACTIVE \<noteq> 0" "a \<in> logged (undo_list r l)"
        by (auto simp: recoverable_def)
      then show ?thesis
      proof cases
        case (2 l)
        with False have "l \<noteq> i" by auto
        with 2 show ?thesis by (intro disjI2 exI [of _ l]) (auto simp: other)
      qed (simp add: same)
    qed
  qed
  then obtain mx' m r' where r': "recover_from False i (Suc k) mx r = Inr (m, r')"
    "\<forall>a\<in>P. cache r' a = b a" "\<forall>l. Suc i \<le> l \<and> l < Suc i + k \<longrightarrow> hdr (slots r' l) AND ACTIVE = 0"
    "\<forall>l. l < Suc i \<or> Suc i + k \<le> l \<longrightarrow> slots r' l = slots r1 l"
    using step Suc.IH [of "Suc i" r1] by (metis (no_types, lifting))
  show ?case
  proof (intro exI conjI)
    show "recover_from False i (Suc k) mx r = Inr (m, r')" by (rule r'(1))
    show "\<forall>l. i \<le> l \<and> l < i + Suc k \<longrightarrow> hdr (slots r' l) AND ACTIVE = 0"
    proof (intro allI impI)
      fix l assume "i \<le> l \<and> l < i + Suc k"
      then show "hdr (slots r' l) AND ACTIVE = 0" using r'(3,4) closed by (cases "l = i") auto
    qed
    show "\<forall>l. l < i \<or> i + Suc k \<le> l \<longrightarrow> slots r' l = slots r l" using r'(4) other by auto
  qed (use r'(2) in auto)
qed

lemma crash_recoverable:
  assumes inv: "cr_inv P c" and cr: "crash (c_pm c) r" and n: "\<forall>i\<ge>n. c_txs c i = None"
  shows "recoverable P (c_base c) 0 n r"
proof -
  have slot: "\<exists>js' h'. slots r i = rebooted js' h' \<and> crash_slot (slot_of c i) js' h'" for i
    using cr by (simp add: crash_def)
  have idle: "hdr (slots r i) AND ACTIVE = 0" if "c_txs c i = None" for i
    using slot [of i] cr_invD(1) [OF inv that] by (auto simp: slot_idle_def crash_slot_def rebooted_def)
  have undo: "\<exists>d e. slot_open (slot_of c i) i t d \<and> d \<le> e \<and> e \<le> ti_jcur t \<and>
      undo_list r i = take e (ext (slot_of c i))"
    if t: "c_txs c i = Some t" and act: "hdr (slots r i) AND ACTIVE \<noteq> 0" for i t
  proof -
    obtain d where d: "slot_open (slot_of c i) i t d" using cr_invD(2) [OF inv t] by blast
    obtain js' h' where s: "slots r i = rebooted js' h'" "crash_slot (slot_of c i) js' h'"
      using slot by blast
    obtain e where e: "d \<le> e" "e \<le> ti_jcur t" "valid_entries (tid_of t) js' = take e (ext (slot_of c i))"
      using crash_prefix [OF d s(2)] by blast
    have "h' = tid_of t OR ACTIVE"
      using d s act by (auto simp: slot_open_def crash_slot_def rebooted_def)
    then have "hdr (slots r i) AND NOT ACTIVE = tid_of t"
      using d s(1) small_and_not_active [of "tid_of t"]
      by (simp add: rebooted_def and_not_active slot_open_def)
    with d e s(1) show ?thesis by (auto simp: rebooted_def)
  qed
  show ?thesis
    unfolding recoverable_def
  proof (intro conjI allI impI ballI)
    fix i assume i: "0 \<le> i \<and> i < n \<and> hdr (slots r i) AND ACTIVE \<noteq> 0"
    then obtain t where t: "c_txs c i = Some t" using idle [of i] by (cases "c_txs c i") auto
    obtain d e where u: "slot_open (slot_of c i) i t d" "e \<le> ti_jcur t"
      "undo_list r i = take e (ext (slot_of c i))" using undo [OF t] i by blast
    show "je_wf je" if "je \<in> set (undo_list r i)" for je
      using that u by (auto simp: slot_open_def in_set_conv_nth)
    show "v = c_base c a" if "a \<in> P" "oldest (undo_list r i) a = Some v" for a v
    proof -
      have "own_log c i t = take e (ext (slot_of c i)) @ drop e (own_log c i t)"
        using u(2) by (metis append_take_drop_id min.absorb1 own_log_def take_take)
      then have "oldest (own_log c i t) a = Some v"
        using that(2) u(3) by (metis oldest_append option.simps(5))
      with cr_invD(3) [OF inv t that(1)] show ?thesis by blast
    qed
  next
    fix a assume a: "a \<in> P"
    show "cache r a = c_base c a \<or> (\<exists>k. 0 \<le> k \<and> k < n \<and> hdr (slots r k) AND ACTIVE \<noteq> 0 \<and>
      a \<in> logged (undo_list r k))"
    proof (cases "a \<in> dirty (c_pm c) \<or> cache (c_pm c) a \<noteq> c_base c a")
      case False
      with cr show ?thesis by (simp add: crash_def)
    next
      case True
      then obtain i t where t: "c_txs c i = Some t" "a \<in> logged (durable_log c i t)"
        using cr_invD(4) [OF inv a] by blast
      obtain d where d: "slot_open (slot_of c i) i t d" using cr_invD(2) [OF inv t(1)] by blast
      then have d0: "a \<in> logged (take d (ext (slot_of c i)))" using t(2) durable_log_open by simp
      then have "d \<noteq> 0" by (cases d) auto
      with d have "hdr_dur (slot_of c i) = hdr (slot_of c i)" and "hdr (slot_of c i) = tid_of t OR ACTIVE"
        by (auto simp: slot_open_def)
      then have act: "hdr (slots r i) AND ACTIVE \<noteq> 0"
        using slot [of i] active_or by (auto simp: crash_slot_def rebooted_def)
      obtain js' h' where s: "slots r i = rebooted js' h'" "crash_slot (slot_of c i) js' h'"
        using slot by blast
      obtain e where e: "d \<le> e" "valid_entries (tid_of t) js' = take e (ext (slot_of c i))"
        using crash_prefix [OF d s(2)] by blast
      have "hdr (slots r i) AND NOT ACTIVE = tid_of t"
        using s d \<open>hdr_dur (slot_of c i) = hdr (slot_of c i)\<close> small_and_not_active [of "tid_of t"]
        by (auto simp: rebooted_def crash_slot_def slot_open_def and_not_active)
      then have "undo_list r i = take e (ext (slot_of c i))" using e s(1) by (simp add: rebooted_def)
      with d0 logged_take_mono [OF e(1)] have "a \<in> logged (undo_list r i)" by auto
      moreover have "i < n" using n t(1) by (cases "i < n") auto
      ultimately show ?thesis using act by blast
    qed
  qed
qed

lemma crash_atomic:
  assumes "cr_reach P c" "crash (c_pm c) r" "\<forall>i\<ge>tm_max_transactions tm. c_txs c i = None"
  shows "\<exists>tm' r'. recover False (tm, r) = Inr (tm', r') \<and> (\<forall>a\<in>P. cache r' a = c_base c a) \<and>
           (\<forall>i<tm_max_transactions tm. hdr (slots r' i) AND ACTIVE = 0)"
  using recover_from_correct [of P "c_base c" 0 "tm_max_transactions tm" r 0]
    crash_recoverable [OF cr_reach_inv [OF assms(1)] assms(2,3)]
  by (fastforce simp: recover_def)

section \<open>Properties\<close>

text \<open>C1. Crash atomicity: whatever interleaving of transactions has run, and whatever the power
  failure leaves of the bytes, journal entries and headers that were not yet durable, opening the
  graph again recovers a protected memory with the effects of exactly the transactions whose slot
  had been freed, and no slot is left active.\<close>

theorem crash_atomicity:
  assumes "cr_reach P c" and "crash (c_pm c) r" and "\<forall>i\<ge>tm_max_transactions tm. c_txs c i = None"
  shows "\<exists>tm' r'. recover False (tm, r) = Inr (tm', r') \<and> (\<forall>a\<in>P. cache r' a = c_base c a) \<and>
           (\<forall>i<tm_max_transactions tm. hdr (slots r' i) AND ACTIVE = 0)"
  using assms by (rule crash_atomic)

lemma crash_demo:
  "\<exists>c r. cr_reach {0} c \<and> crash (c_pm c) r \<and> (\<forall>i\<ge>1. c_txs c i = None) \<and>
     c_base c 0 = 0 \<and> cache r 0 = 7 \<and> hdr (slots r 0) = 1 OR ACTIVE"
proof -
  define t0 where "t0 = \<lparr>ti_rw = True, ti_committed = False,
         ti_handle = \<lparr>th_id = 1, th_index = Some 0\<rparr>, ti_jcur = 0\<rparr>"
  define c0 where "c0 = \<lparr>c_pm = fresh_pm 2, c_base = (\<lambda>_. 0), c_txs = (\<lambda>_. None)\<rparr>"
  define c1 where "c1 = c0\<lparr>c_pm := store_hdr 0 (1 OR ACTIVE) (c_pm c0), c_txs := (c_txs c0)(0 \<mapsto> t0)\<rparr>"
  define ts where "ts = log_je 0 1 (t0, c_pm c1)"
  define c2 where "c2 = c1\<lparr>c_pm := snd ts, c_txs := (c_txs c1)(0 \<mapsto> fst ts)\<rparr>"
  define c3 where "c3 = c2\<lparr>c_pm := sfence 0 (c_pm c2)\<rparr>"
  define c4 where "c4 = c3\<lparr>c_pm := store 0 [7] (c_pm c3)\<rparr>"
  have "cr_init {0} c0" by (simp add: cr_init_def c0_def fresh_pm_def)
  then have r0: "cr_reach {0} c0" by (rule cr_start)
  have "cr_step {0} c0 c1"
    unfolding c1_def t0_def by (rule cr_begin) (simp_all add: c0_def fresh_pm_def zero_entry_def)
  with r0 have r1: "cr_reach {0} c1" by (rule cr_next)
  have "cr_step {0} c1 c2"
    unfolding c2_def ts_def
    by (rule cr_log [where t = t0]) (auto simp: c1_def c0_def fresh_pm_def t0_def mem_simps split: if_splits)
  with r1 have r2: "cr_reach {0} c2" by (rule cr_next)
  have tx: "c_txs c2 0 = Some (fst ts)" by (simp add: c2_def)
  have "cr_step {0} c2 c3" unfolding c3_def by (rule cr_fence [OF tx])
  with r2 have r3: "cr_reach {0} c3" by (rule cr_next)
  have log: "durable_log c3 0 (fst ts) = [make_entry 1 (\<lambda>_. 0) 0 1 zero_entry]"
    by (simp add: durable_log_def c3_def c2_def ts_def c1_def c0_def t0_def fresh_pm_def log_je_def
        tx_slot_def mem_simps valid_entries_def numeral_2_eq_2 make_entry_def) (simp add: zero_entry_def)
  have tx3: "c_txs c3 0 = Some (fst ts)" by (simp add: c3_def tx)
  have cov: "{0..<0 + length [7 :: u8]} \<inter> {0} \<subseteq> logged (durable_log c3 0 (fst ts))"
    unfolding log by (simp add: je_covers_def make_entry_def)
  have "cr_step {0} c3 c4"
    unfolding c4_def by (rule cr_store [OF tx3 cov])
  with r3 have r4: "cr_reach {0} c4" by (rule cr_next)
  define r where "r = \<lparr>cache = cache (c_pm c4), dirty = {}, pend = (\<lambda>_. {}),
    slots = (\<lambda>i. rebooted (ext (slot_of c4 i)) (hdr (slot_of c4 i)))\<rparr>"
  have cr: "crash (c_pm c4) r" unfolding crash_def r_def by (auto simp: crash_slot_def)
  have "hdr (slots r 0) = 1 OR ACTIVE" "cache r 0 = 7"
    by (simp_all add: r_def rebooted_def c4_def c3_def c2_def ts_def c1_def c0_def log_je_def
        tx_slot_def t0_def mem_simps)
  moreover have "c_base c4 0 = 0" "\<forall>i\<ge>1. c_txs c4 i = None"
    by (simp_all add: c4_def c3_def c2_def c1_def c0_def)
  ultimately show ?thesis using r4 cr by blast
qed

theorem crash_atomicity_witness:
  "\<exists>r tm' r'. cache r 0 = 7 \<and> recover False (fresh_tm 1, r) = Inr (tm', r') \<and> cache r' 0 = 0 \<and>
     hdr (slots r 0) = 1 OR ACTIVE \<and> hdr (slots r' 0) AND ACTIVE = 0"
proof -
  obtain c r where c: "cr_reach {0} c" "crash (c_pm c) r" "\<forall>i\<ge>1. c_txs c i = None"
    "c_base c 0 = 0" "cache r 0 = 7" "hdr (slots r 0) = 1 OR ACTIVE" using crash_demo by blast
  have "\<forall>i\<ge>tm_max_transactions (fresh_tm 1). c_txs c i = None" using c(3) by (simp add: fresh_tm_def)
  from crash_atomicity [OF c(1,2) this] c(4-6) show ?thesis by (fastforce simp: fresh_tm_def)
qed

end
