(* ===== verification/Transactions.thy ===== *)
theory Transactions
  imports Crash_Recovery
begin

text \<open>
  One transaction run through the interface of \<open>TransactionImpl\<close>: construction, any sequence of
  \<open>log\<close>, in-place stores, \<open>write\<close> and \<open>write_nolog\<close> calls, then commit and destruction or
  destruction alone. The discipline a client has to follow (\<open>wal\<close>): store only bytes it has
  logged or bytes of fresh memory \<open>F\<close>. The theorems: an aborted transaction leaves memory outside
  \<open>F\<close> as it found it, a committed one is durable when no journal entry spans two cache lines,
  and the places where the code does not keep these promises.
\<close>

section \<open>Calls and the write-ahead discipline\<close>

datatype tx_call =
    CLog addr nat
  | CStore addr "u8 list"
  | CWrite addr "u8 list"
  | CWriteNolog addr "u8 list"

fun run_call :: "tx_call \<Rightarrow> tx_impl \<times> pm \<Rightarrow> (tx_impl \<times> pm) result" where
  "run_call (CLog p n) ts = tx_log p n ts"
| "run_call (CStore a bs) ts = Inr (tx_store a bs ts)"
| "run_call (CWrite p v) ts = tx_write p v ts"
| "run_call (CWriteNolog p v) ts = Inr (tx_write_nolog p v ts)"

fun run_calls :: "tx_call list \<Rightarrow> tx_impl \<times> pm \<Rightarrow> (tx_impl \<times> pm) result" where
  "run_calls [] ts = Inr ts"
| "run_calls (c # cs) ts = rbind (run_call c ts) (run_calls cs)"

fun wal :: "addr set \<Rightarrow> addr set \<Rightarrow> tx_call list \<Rightarrow> bool" where
  "wal F L [] = True"
| "wal F L (CLog p n # cs) = wal F (L \<union> {p..<p + n}) cs"
| "wal F L (CStore a bs # cs) = ({a..<a + length bs} \<subseteq> L \<union> F \<and> wal F L cs)"
| "wal F L (CWrite p v # cs) = wal F (L \<union> {p..<p + length v}) cs"
| "wal F L (CWriteNolog p v # cs) = ({p..<p + length v} \<subseteq> F \<and> wal F L cs)"

section \<open>Frame lemmas\<close>

lemma flush_lines_frame [mem_simps]:
  "cache (flush_lines i k a s) = cache s" "dirty (flush_lines i k a s) = dirty s"
  "slots (flush_lines i k a s) = slots s"
  by (induction k arbitrary: a s) (simp_all add: mem_simps)

lemma flush_range_frame [mem_simps]:
  "cache (flush_range i p n s) = cache s" "dirty (flush_range i p n s) = dirty s"
  "slots (flush_range i p n s) = slots s"
  by (simp_all add: flush_range_def Let_def mem_simps)

lemma flush_entries_frame [mem_simps]:
  "cache (flush_entries i js s) = cache s" "dirty (flush_entries i js s) = dirty s"
  "slots (flush_entries i js s) = slots s"
  by (induction js arbitrary: s) (simp_all add: mem_simps)

lemma flush_entries_pend:
  "pend (flush_entries i js s) i = pend s i \<union> (\<Union>je\<in>set js. line_of (je_addr je))"
  by (induction js arbitrary: s) (auto simp: clflush_def)

section \<open>The state of an open transaction\<close>

text \<open>\<open>m0\<close> is the memory at the start; the entries written so far say what it was.\<close>

definition undo_ok :: "addr set \<Rightarrow> mem \<Rightarrow> journal_entry list \<Rightarrow> mem \<Rightarrow> bool" where
  "undo_ok F m0 js m \<longleftrightarrow>
     (\<forall>a. a \<notin> F \<longrightarrow> (oldest js a = None \<longrightarrow> m a = m0 a) \<and> (\<forall>v. oldest js a = Some v \<longrightarrow> v = m0 a))"

definition tx_open :: "addr set \<Rightarrow> mem \<Rightarrow> nat \<Rightarrow> u64 \<Rightarrow> tx_impl \<times> pm \<Rightarrow> bool" where
  "tx_open F m0 i tid ts \<longleftrightarrow>
     (case ts of (t, s) \<Rightarrow>
        ti_rw t \<and> \<not> ti_committed t \<and> ti_handle t = \<lparr>th_id = tid, th_index = Some i\<rparr> \<and> tid < 2 ^ 56 \<and>
        ti_jcur t \<le> length (ext (slots s i)) \<and>
        (\<forall>k<ti_jcur t. je_tx_id (ext (slots s i) ! k) = ucast tid \<and> je_wf (ext (slots s i) ! k)) \<and>
        (\<forall>k. ti_jcur t \<le> k \<and> k < length (ext (slots s i)) \<longrightarrow>
             je_tx_id (ext (slots s i) ! k) \<noteq> ucast tid) \<and>
        undo_ok F m0 (take (ti_jcur t) (ext (slots s i))) (cache s))"

definition tx_logged :: "nat \<Rightarrow> tx_impl \<times> pm \<Rightarrow> addr set" where
  "tx_logged i ts = logged (take (ti_jcur (fst ts)) (ext (slots (snd ts) i)))"

lemma tx_open_slot: "tx_open F m0 i tid (t, s) \<Longrightarrow> tx_slot t = i"
  by (simp add: tx_open_def tx_slot_def)

lemma log_je_open:
  assumes op: "tx_open F m0 i tid (t, s)" and room: "ti_jcur t < length (ext (slots s i))"
    and log: "log_je src n (t, s) = (t', s')"
  shows "tx_open F m0 i tid (t', s') \<and> tx_logged i (t', s') = tx_logged i (t, s) \<union> {src..<src + n} \<and>
         cache s' = cache s \<and> dirty s' = dirty s \<and> pend s' = pend s \<and> ti_jcur t' = Suc (ti_jcur t) \<and>
         length (ext (slots s' i)) = length (ext (slots s i))"
proof -
  define e where "e = make_entry tid (cache s) src n (ext (slots s i) ! ti_jcur t)"
  have t': "t' = t\<lparr>ti_jcur := Suc (ti_jcur t)\<rparr>"
    and s': "s' = upd_slot i (\<lambda>sl. sl\<lparr>ext := (ext sl)[ti_jcur t := e]\<rparr>) s"
    using log tx_open_slot [OF op] op by (simp_all add: log_je_def upd_slot_def e_def tx_open_def)
  have e: "je_covers e = {src..<src + n}" "je_tx_id e = ucast tid" "je_wf e"
    "\<And>a. a \<in> je_covers e \<Longrightarrow> je_data e ! (a - je_addr e) = cache s a"
    by (auto simp: e_def make_entry_def je_covers_def je_wf_def nth_append)
  have log': "take (ti_jcur t') (ext (slots s' i)) = take (ti_jcur t) (ext (slots s i)) @ [e]"
    using room by (simp add: t' s' mem_simps take_Suc_conv_app_nth)
  have "undo_ok F m0 (take (ti_jcur t) (ext (slots s i))) (cache s)"
    using op by (simp add: tx_open_def)
  then have "undo_ok F m0 (take (ti_jcur t') (ext (slots s' i))) (cache s')"
    unfolding undo_ok_def log' oldest_append using e(4)
    by (auto simp: s' mem_simps split: option.splits)
  with op room e(2,3) have "tx_open F m0 i tid (t', s')"
    by (auto simp: tx_open_def t' s' mem_simps nth_list_update less_Suc_eq)
  moreover have "tx_logged i (t', s') = tx_logged i (t, s) \<union> {src..<src + n}"
    using log' e(1) by (auto simp: tx_logged_def)
  ultimately show ?thesis by (simp add: t' s' mem_simps)
qed

lemma log_chunks_open:
  "tx_open F m0 i tid (t, s) \<Longrightarrow> ti_jcur t + k < length (ext (slots s i)) \<Longrightarrow>
   log_chunks k p n (t, s) = (t', s') \<Longrightarrow>
   tx_open F m0 i tid (t', s') \<and>
   tx_logged i (t', s') = tx_logged i (t, s) \<union> {p..<p + k * JE_MAX_LEN + n mod JE_MAX_LEN} \<and>
   cache s' = cache s \<and> dirty s' = dirty s \<and> pend s' = pend s \<and> ti_jcur t' = Suc (ti_jcur t + k) \<and>
   length (ext (slots s' i)) = length (ext (slots s i))"
proof (induction k arbitrary: p t s)
  case 0
  then show ?case using log_je_open [of F m0 i tid t s p "n mod JE_MAX_LEN" t' s'] by simp
next
  case (Suc k)
  obtain t1 s1 where l: "log_je p JE_MAX_LEN (t, s) = (t1, s1)" by fastforce
  have l1: "tx_open F m0 i tid (t1, s1)" "tx_logged i (t1, s1) = tx_logged i (t, s) \<union> {p..<p + JE_MAX_LEN}"
    "cache s1 = cache s" "dirty s1 = dirty s" "pend s1 = pend s" "ti_jcur t1 = Suc (ti_jcur t)"
    "length (ext (slots s1 i)) = length (ext (slots s i))"
    using log_je_open [OF Suc.prems(1) _ l] Suc.prems(2) by simp_all
  then show ?case using Suc.IH [of t1 s1 "p + JE_MAX_LEN"] Suc.prems l
    by (auto simp: algebra_simps)
qed

lemma tx_log_open:
  assumes op: "tx_open F m0 i tid (t, s)" and log: "tx_log p n (t, s) = Inr (t', s')"
  shows "tx_open F m0 i tid (t', s') \<and> tx_logged i (t', s') = tx_logged i (t, s) \<union> {p..<p + n} \<and>
         cache s' = cache s \<and> dirty s' = dirty s - pend s i \<and> ti_jcur t' = ti_jcur t + n div JE_MAX_LEN + 1"
proof -
  have n: "(n + JE_MAX_LEN) div JE_MAX_LEN - 1 = n div JE_MAX_LEN" "(n + JE_MAX_LEN) div JE_MAX_LEN = n div JE_MAX_LEN + 1"
    by (simp_all add: JE_MAX_LEN_def)
  obtain s1 where l: "log_chunks (n div JE_MAX_LEN) p n (t, s) = (t', s1)" and s': "s' = sfence i s1"
    using log tx_open_slot [OF op] by (auto simp: tx_log_def Let_def n split: if_splits prod.splits)
  have "ti_jcur t + n div JE_MAX_LEN < length (ext (slots s i))"
    using log op by (auto simp: tx_log_def tx_jend_def tx_open_def Let_def n split: if_splits)
  from log_chunks_open [OF op this l]
  have c: "tx_open F m0 i tid (t', s1)"
    "tx_logged i (t', s1) = tx_logged i (t, s) \<union> {p..<p + n div JE_MAX_LEN * JE_MAX_LEN + n mod JE_MAX_LEN}"
    "cache s1 = cache s" "dirty s1 = dirty s" "pend s1 = pend s" "ti_jcur t' = Suc (ti_jcur t + n div JE_MAX_LEN)"
    by simp_all
  have "tx_open F m0 i tid (t', s')" using c(1) by (simp add: s' tx_open_def mem_simps)
  moreover have "tx_logged i (t', s') = tx_logged i (t', s1)" by (simp add: s' tx_logged_def mem_simps)
  ultimately show ?thesis using c by (simp add: s' mem_simps add.assoc)
qed

lemma tx_store_open:
  assumes "tx_open F m0 i tid (t, s)" "{a..<a + length bs} \<subseteq> tx_logged i (t, s) \<union> F"
    and "cache s' = write_bytes (cache s) a bs" "slots s' = slots s"
  shows "tx_open F m0 i tid (t, s') \<and> tx_logged i (t, s') = tx_logged i (t, s)"
proof -
  have "undo_ok F m0 (take (ti_jcur t) (ext (slots s i))) (cache s)"
    using assms(1) by (simp add: tx_open_def)
  then have "undo_ok F m0 (take (ti_jcur t) (ext (slots s i))) (cache s')"
    using assms(2,3) unfolding undo_ok_def
    by (auto simp: tx_logged_def write_bytes_def oldest_None subset_iff)
  with assms show ?thesis by (auto simp: tx_open_def tx_logged_def)
qed

lemma run_call_open:
  assumes op: "tx_open F m0 i tid (t, s)" and run: "run_call c (t, s) = Inr (t', s')"
    and wal: "wal F (tx_logged i (t, s)) [c]"
  shows "tx_open F m0 i tid (t', s') \<and> dirty s' \<subseteq> dirty s \<union> tx_logged i (t', s') \<union> F \<and>
         tx_logged i (t, s) \<subseteq> tx_logged i (t', s') \<and>
         (\<forall>cs. wal F (tx_logged i (t, s)) (c # cs) \<longrightarrow> wal F (tx_logged i (t', s')) cs)"
proof (cases c)
  case (CLog p n)
  then show ?thesis using tx_log_open [OF op, of p n t' s'] run by auto
next
  case (CStore a bs)
  then have "t' = t" "s' = store a bs s" using run by (simp_all add: tx_store_def)
  with CStore wal tx_store_open [OF op, of a bs s'] show ?thesis by (auto simp: mem_simps)
next
  case (CWrite p v)
  then obtain s1 where l: "tx_log p (length v) (t, s) = Inr (t', s1)" and s': "s' = store p v s1"
    using run by (auto simp: tx_write_def tx_store_def rbind_eq_Inr)
  note o1 = tx_log_open [OF op l]
  then have "tx_open F m0 i tid (t', s') \<and> tx_logged i (t', s') = tx_logged i (t', s1)"
    by (intro tx_store_open [where a = p and bs = v]) (auto simp: s' mem_simps)
  with CWrite o1 show ?thesis by (auto simp: s' mem_simps)
next
  case (CWriteNolog p v)
  then have "t' = t" "s' = flush_range (tx_slot t) p (length v) (store p v s)"
    using run by (auto simp: tx_write_nolog_def)
  moreover from CWriteNolog wal have "{p..<p + length v} \<subseteq> tx_logged i (t, s) \<union> F" by auto
  ultimately have "tx_open F m0 i tid (t', s') \<and> tx_logged i (t', s') = tx_logged i (t, s)"
    using tx_store_open [OF op, of p v s'] by (auto simp: mem_simps)
  with CWriteNolog wal \<open>s' = _\<close> show ?thesis by (auto simp: mem_simps)
qed

lemma run_calls_open:
  "tx_open F m0 i tid (t, s) \<Longrightarrow> run_calls cs (t, s) = Inr (t', s') \<Longrightarrow> wal F (tx_logged i (t, s)) cs \<Longrightarrow>
   tx_open F m0 i tid (t', s') \<and> dirty s' \<subseteq> dirty s \<union> tx_logged i (t', s') \<union> F \<and>
   tx_logged i (t, s) \<subseteq> tx_logged i (t', s')"
proof (induction cs arbitrary: t s)
  case Nil
  then show ?case by auto
next
  case (Cons c cs)
  obtain t1 s1 where r1: "run_call c (t, s) = Inr (t1, s1)" and r2: "run_calls cs (t1, s1) = Inr (t', s')"
    using Cons.prems(2) by (auto simp: rbind_eq_Inr)
  have "wal F (tx_logged i (t, s)) [c]" using Cons.prems(3) by (cases c) auto
  note o1 = run_call_open [OF Cons.prems(1) r1 this]
  with Cons.IH [of t1 s1] r2 Cons.prems(3) show ?case by blast
qed

lemma run_calls_append: "run_calls (cs @ ds) ts = rbind (run_calls cs ts) (run_calls ds)"
  by (induction cs arbitrary: ts) (simp_all add: rbind_def split: sum.splits)

text \<open>Commit callbacks that are themselves sequences of calls.\<close>

lemma fold_callbacks:
  "fold (\<lambda>f r. rbind r f) (map run_calls css) (run_calls cs ts) = run_calls (cs @ concat css) ts"
  by (induction css arbitrary: cs) (simp_all add: run_calls_append flip: run_calls_append)

section \<open>Construction\<close>

definition ids_fresh :: "tx_manager \<Rightarrow> pm \<Rightarrow> bool" where
  "ids_fresh tm s \<longleftrightarrow> tm_cur_tx_id tm + 1 < 2 ^ 56 \<and>
     (\<forall>i. \<forall>je\<in>set (ext (slots s i)). je_tx_id je \<noteq> ucast (tm_cur_tx_id tm + 1))"

lemma tx_new_open:
  assumes new: "tx_new ro nested True indep (tm, s) = (Inr t, (tm', s1))" and fresh: "ids_fresh tm s"
  shows "\<exists>i<tm_max_transactions tm. tx_open F (cache s) i (tm_cur_tx_id tm + 1) (t, s1) \<and>
           tx_logged i (t, s1) = {} \<and> dirty s1 = dirty s \<and> hdr (slots s i) AND ACTIVE = 0 \<and>
           s1 = store_hdr i ((tm_cur_tx_id tm + 1) OR ACTIVE) s"
proof -
  obtain i where i: "i < tm_max_transactions tm" "hdr (slots s i) AND ACTIVE = 0"
    "t = \<lparr>ti_rw = True, ti_committed = False,
        ti_handle = \<lparr>th_id = tm_cur_tx_id tm + 1, th_index = Some i\<rparr>, ti_jcur = 0\<rparr>"
    "s1 = store_hdr i ((tm_cur_tx_id tm + 1) OR ACTIVE) s"
    using new by (auto simp: tx_new_def alloc_transaction_def Let_def find_Some_iff
        split: if_splits option.splits)
  then have "tx_open F (cache s) i (tm_cur_tx_id tm + 1) (t, s1)"
    using fresh by (auto simp: tx_open_def ids_fresh_def mem_simps undo_ok_def dest!: nth_mem)
  with i show ?thesis by (auto simp: tx_logged_def mem_simps)
qed

section \<open>Abort\<close>

lemma tx_open_valid:
  assumes "tx_open F m0 i tid (t, s)"
  shows "valid_entries tid (take (ti_jcur t) (ext (slots s i))) = take (ti_jcur t) (ext (slots s i))"
proof -
  have "valid_entries tid (take (ti_jcur t) (ext (slots s i))) =
      take (ti_jcur t) (take (ti_jcur t) (ext (slots s i)))"
    using assms by (intro valid_entries_prefix) (auto simp: tx_open_def)
  then show ?thesis by simp
qed

lemma rollback_cache:
  assumes "tx_open F m0 i tid (t, s)"
  shows "cache (rollback (ti_handle t) (ti_jcur t) s) a =
      (case oldest (take (ti_jcur t) (ext (slots s i))) a of None \<Rightarrow> cache s a | Some v \<Rightarrow> v)"
proof -
  have "\<forall>je\<in>set (take (ti_jcur t) (ext (slots s i))). je_wf je"
    using assms by (auto simp: tx_open_def in_set_conv_nth)
  then show ?thesis
    using assms tx_open_valid [OF assms]
    by (simp add: rollback_def tx_open_def mem_simps cache_undo_all)
qed

lemma free_transaction_cache [mem_simps]: "cache (free_transaction h s) = cache s"
  by (simp add: free_transaction_def mem_simps split: option.splits)

lemma destroy_cache_aborted:
  assumes "tx_open F m0 i tid (t, s)"
  shows "cache (fst (tx_destroy ab fin un ((t, s), d))) a =
      (case oldest (take (ti_jcur t) (ext (slots s i))) a of None \<Rightarrow> cache s a | Some v \<Rightarrow> v)"
  using assms rollback_cache [OF assms, of a]
  by (simp add: tx_destroy_def tx_release_def Let_def mem_simps tx_open_def)

lemma destroy_aborted:
  assumes "tx_open F m0 i tid (t, s)" and "a \<notin> F"
  shows "cache (fst (tx_destroy ab fin un ((t, s), d))) a = m0 a"
proof -
  have "undo_ok F m0 (take (ti_jcur t) (ext (slots s i))) (cache s)"
    using assms(1) by (simp add: tx_open_def)
  with assms(2) show ?thesis
    by (auto simp: destroy_cache_aborted [OF assms(1)] undo_ok_def split: option.splits)
qed

section \<open>Commit\<close>

lemma finalize_dirty:
  assumes op: "tx_open F m0 i tid (t, s)"
    and lines: "\<forall>je\<in>set (take (ti_jcur t) (ext (slots s i))). je_covers je \<subseteq> line_of (je_addr je)"
    and fin: "s' = sfence i (flush_entries i (take (ti_jcur t) (ext (slots s i))) s)"
  shows "dirty s' \<inter> tx_logged i (t, s) = {}"
  using lines by (auto simp: fin mem_simps flush_entries_pend tx_logged_def logged_def)

lemma destroy_committed:
  assumes op: "tx_open F m0 i tid (t, s)"
    and lines: "\<forall>je\<in>set (take (ti_jcur t) (ext (slots s i))). je_covers je \<subseteq> line_of (je_addr je)"
    and dirty: "dirty s \<subseteq> tx_logged i (t, s) \<union> F"
    and com: "tx_commit [] (t, s) = Inr (t', s')"
    and des: "s2 = fst (tx_destroy ab fin un ((t', s'), d))"
  shows "cache s2 = cache s \<and> dirty s2 \<subseteq> F \<and> hdr (slots s2 i) AND ACTIVE = 0 \<and>
         hdr_dur (slots s2 i) = hdr (slots s2 i)"
proof -
  have s': "s' = sfence i (flush_entries i (take (ti_jcur t) (ext (slots s i))) s)"
    and t': "t' = t\<lparr>ti_committed := True\<rparr>"
    using com op tx_open_slot [OF op]
    by (auto simp: tx_commit_def finalize_commit_def tx_open_def rbind_def Let_def)
  have h: "ti_rw t'" "ti_committed t'" "th_index (ti_handle t') = Some i"
    using op by (simp_all add: t' tx_open_def)
  have s2: "s2 = sfence i (store_hdr i (hdr (slots s' i) AND NOT ACTIVE) s')"
    using h by (simp add: des tx_destroy_def tx_release_def free_transaction_def)
  have "dirty s' \<subseteq> F"
    using finalize_dirty [OF op lines s'] dirty by (auto simp: s' mem_simps)
  then show ?thesis
    by (auto simp: s2 mem_simps inactive_and_not s')
qed

text \<open>A flush reaches only the line of the entry's address.\<close>

lemma destroy_committed_other_lines:
  assumes op: "tx_open F m0 i tid (t, s)"
    and com: "tx_commit [] (t, s) = Inr (t', s')"
    and des: "s2 = fst (tx_destroy ab fin un ((t', s'), d))"
    and a: "a \<in> dirty s" "a \<notin> pend s i"
      "\<forall>je\<in>set (take (ti_jcur t) (ext (slots s i))). a \<notin> line_of (je_addr je)"
  shows "a \<in> dirty s2 \<and> cache s2 = cache s"
proof -
  have s': "s' = sfence i (flush_entries i (take (ti_jcur t) (ext (slots s i))) s)"
    and t': "t' = t\<lparr>ti_committed := True\<rparr>"
    using com op tx_open_slot [OF op]
    by (auto simp: tx_commit_def finalize_commit_def tx_open_def rbind_def Let_def)
  have h: "ti_rw t'" "ti_committed t'" "th_index (ti_handle t') = Some i"
    using op by (simp_all add: t' tx_open_def)
  have s2: "s2 = sfence i (store_hdr i (hdr (slots s' i) AND NOT ACTIVE) s')"
    using h by (simp add: des tx_destroy_def tx_release_def free_transaction_def)
  have "pend s' i = {}" by (simp add: s' sfence_def upd_slot_def)
  with a show ?thesis
    by (auto simp: s2 s' mem_simps flush_entries_pend)
qed

lemma crash_of_dirty:
  assumes "a \<in> dirty s"
  shows "\<exists>r. crash s r \<and> cache r a \<noteq> cache s a \<and> (\<forall>i. hdr (slots r i) = hdr (slots s i))"
proof -
  define r where "r = \<lparr>cache = (cache s)(a := cache s a + 1), dirty = {}, pend = (\<lambda>_. {}),
    slots = (\<lambda>i. rebooted (ext (slots s i)) (hdr (slots s i)))\<rparr>"
  have "crash s r"
    using assms unfolding crash_def r_def
    by (auto simp: crash_slot_def)
  moreover have "cache r a \<noteq> cache s a" "\<forall>i. hdr (slots r i) = hdr (slots s i)"
    by (simp_all add: r_def rebooted_def)
  ultimately show ?thesis by blast
qed

section \<open>The table\<close>

lemma recover_from_read_only:
  "recover_from True i k mx s = Inl ReadOnly \<longleftrightarrow> (\<exists>l. i \<le> l \<and> l < i + k \<and> hdr (slots s l) AND ACTIVE \<noteq> 0)"
proof (induction k arbitrary: i mx)
  case 0
  then show ?case by auto
next
  case (Suc k)
  show ?case
  proof (cases "hdr (slots s i) AND ACTIVE = 0")
    case True
    then have "recover_from True i (Suc k) mx s = Inl ReadOnly \<longleftrightarrow>
        (\<exists>l. Suc i \<le> l \<and> l < Suc i + k \<and> hdr (slots s l) AND ACTIVE \<noteq> 0)"
      using Suc.IH by (simp add: Let_def)
    also have "\<dots> \<longleftrightarrow> (\<exists>l. i \<le> l \<and> l < i + Suc k \<and> hdr (slots s l) AND ACTIVE \<noteq> 0)"
      using True by (metis Suc_leD Suc_leI add_Suc add_Suc_right le_neq_implies_less)
    finally show ?thesis .
  qed (auto intro!: exI [of _ i])
qed

lemma recover_tx_frame [mem_simps]:
  "slots (recover_tx \<lparr>th_id = tid, th_index = Some i\<rparr> s) l =
     (if l = i then (slots s i)\<lparr>ext_dur := ext (slots s i),
        hdr_dur := (if hdr_pend (slots s i) then hdr (slots s i) else hdr_dur (slots s i)),
        hdr_pend := False\<rparr> else slots s l)"
  by (simp add: recover_tx_def rollback_def mem_simps)

text \<open>The largest id: at least the one passed in, and at least every header id of the table.\<close>

lemma recover_from_max:
  "recover_from False i k mx s = Inr (m, s') \<Longrightarrow>
   mx \<le> m \<and> (\<forall>l. i \<le> l \<and> l < i + k \<longrightarrow> hdr (slots s' l) = hdr (slots s l) AND NOT ACTIVE \<and> hdr (slots s' l) \<le> m) \<and>
   (\<forall>l. l < i \<or> i + k \<le> l \<longrightarrow> slots s' l = slots s l) \<and> (\<forall>l. ext (slots s' l) = ext (slots s l))"
proof (induction k arbitrary: i mx s)
  case 0
  then show ?case by auto
next
  case (Suc k)
  define tid where "tid = hdr (slots s i) AND NOT ACTIVE"
  define s1 where "s1 = (if hdr (slots s i) AND ACTIVE \<noteq> 0
    then store_hdr i tid (recover_tx \<lparr>th_id = tid, th_index = Some i\<rparr> s) else s)"
  define mx' where "mx' = (if mx < tid then tid else mx)"
  have same: "tid = hdr (slots s i)" if "hdr (slots s i) AND ACTIVE = 0"
  proof -
    have "\<not> bit (hdr (slots s i)) 63"
      using that by (metis bit_0_eq bit_ACTIVE bit_and_iff bot_apply bot_bool_def)
    then show ?thesis
      unfolding tid_def by (intro bit_word_eqI) (auto simp: bit_simps bit_ACTIVE)
  qed
  have "recover_from False (Suc i) k mx' s1 = Inr (m, s')"
    using Suc.prems same by (auto simp: s1_def tid_def mx'_def Let_def split: if_splits)
  note IH = Suc.IH [OF this]
  have s1: "hdr (slots s1 i) = tid" "\<And>l. l \<noteq> i \<Longrightarrow> slots s1 l = slots s l" "\<And>l. ext (slots s1 l) = ext (slots s l)"
    using same by (auto simp: s1_def mem_simps)
  have mx': "mx \<le> mx'" "tid \<le> mx'" by (auto simp: mx'_def)
  have i: "hdr (slots s' i) = tid" using IH s1 by auto
  show ?case
  proof (intro conjI allI impI)
    show "mx \<le> m" using IH mx' by auto
    fix l assume l: "i \<le> l \<and> l < i + Suc k"
    show "hdr (slots s' l) = hdr (slots s l) AND NOT ACTIVE"
      using IH l i s1(2) [of l] by (cases "l = i") (auto simp: tid_def)
    have "\<forall>l. Suc i \<le> l \<and> l < Suc i + k \<longrightarrow> hdr (slots s' l) \<le> m" using IH by blast
    then show "hdr (slots s' l) \<le> m"
      using IH l i mx' by (cases "l = i") (auto simp del: word_and_le1)
  next
    fix l assume "l < i \<or> i + Suc k \<le> l"
    then show "slots s' l = slots s l" using IH s1(2) [of l] by auto
  next
    fix l show "ext (slots s' l) = ext (slots s l)" using IH s1 by auto
  qed
qed

section \<open>Refinement of the step relation\<close>

lemma log_je_reach:
  assumes "cr_reach P c" "c_txs c i = Some t" "ti_jcur t < length (ext (slot_of c i))"
    and "\<And>k u. k \<noteq> i \<Longrightarrow> c_txs c k = Some u \<Longrightarrow> {src..<src + n} \<inter> P \<inter> logged (own_log c k u) = {}"
  defines "ts \<equiv> log_je src n (t, c_pm c)"
  shows "cr_reach P (c\<lparr>c_pm := snd ts, c_txs := (c_txs c)(i \<mapsto> fst ts)\<rparr>)"
  using cr_next [OF assms(1) cr_log [OF assms(2,3,4)]] by (simp add: ts_def)

lemma disjoint_part: "A \<subseteq> B \<Longrightarrow> B \<inter> P \<inter> L = {} \<Longrightarrow> A \<inter> P \<inter> L = {}"
  by blast

lemma log_chunks_reach:
  "cr_reach P c \<Longrightarrow> c_txs c i = Some t \<Longrightarrow> ti_jcur t + k < length (ext (slot_of c i)) \<Longrightarrow>
   (\<And>l u. l \<noteq> i \<Longrightarrow> c_txs c l = Some u \<Longrightarrow>
      {p..<p + k * JE_MAX_LEN + n mod JE_MAX_LEN} \<inter> P \<inter> logged (own_log c l u) = {}) \<Longrightarrow>
   tx_slot t = i \<Longrightarrow>
   cr_reach P (c\<lparr>c_pm := snd (log_chunks k p n (t, c_pm c)),
     c_txs := (c_txs c)(i \<mapsto> fst (log_chunks k p n (t, c_pm c)))\<rparr>)"
proof (induction k arbitrary: p t c)
  case 0
  show ?case unfolding log_chunks.simps by (rule log_je_reach) (use 0 in auto)
next
  case (Suc k)
  define ts1 where "ts1 = log_je p JE_MAX_LEN (t, c_pm c)"
  define c1 where "c1 = c\<lparr>c_pm := snd ts1, c_txs := (c_txs c)(i \<mapsto> fst ts1)\<rparr>"
  have sub: "{p..<p + JE_MAX_LEN} \<subseteq> {p..<p + Suc k * JE_MAX_LEN + n mod JE_MAX_LEN}" by auto
  have excl: "{p..<p + JE_MAX_LEN} \<inter> P \<inter> logged (own_log c l u) = {}"
    if "l \<noteq> i" "c_txs c l = Some u" for l u
    by (rule disjoint_part [OF sub Suc.prems(4) [OF that]])
  have "ti_jcur t < length (ext (slot_of c i))" using Suc.prems(3) by simp
  from log_je_reach [OF Suc.prems(1,2) this excl] have r1: "cr_reach P c1"
    unfolding c1_def ts1_def by simp
  have own: "own_log c1 l u = own_log c l u" if "l \<noteq> i" for l u
    using that Suc.prems(5) by (simp add: own_log_def c1_def ts1_def log_je_def mem_simps)
  have jcur: "ti_jcur (fst ts1) = Suc (ti_jcur t)" "tx_slot (fst ts1) = i"
    using Suc.prems(5) by (simp_all add: ts1_def log_je_def tx_slot_def)
  have len: "length (ext (slot_of c1 i)) = length (ext (slot_of c i))"
    using Suc.prems(5) by (simp add: c1_def ts1_def log_je_def mem_simps)
  have "{p + JE_MAX_LEN..<p + JE_MAX_LEN + k * JE_MAX_LEN + n mod JE_MAX_LEN} \<inter> P \<inter> logged (own_log c1 l u) = {}"
    if "l \<noteq> i" "c_txs c1 l = Some u" for l u
  proof -
    have "{p + JE_MAX_LEN..<p + JE_MAX_LEN + k * JE_MAX_LEN + n mod JE_MAX_LEN} \<subseteq>
        {p..<p + Suc k * JE_MAX_LEN + n mod JE_MAX_LEN}" by auto
    moreover have "c_txs c l = Some u" using that by (simp add: c1_def)
    ultimately show ?thesis
      unfolding own [OF that(1)] by (rule disjoint_part [OF _ Suc.prems(4) [OF that(1)]])
  qed
  then have "cr_reach P (c1\<lparr>c_pm := snd (log_chunks k (p + JE_MAX_LEN) n (fst ts1, c_pm c1)),
      c_txs := (c_txs c1)(i \<mapsto> fst (log_chunks k (p + JE_MAX_LEN) n (fst ts1, c_pm c1)))\<rparr>)"
    using Suc.prems(3) jcur len r1 by (intro Suc.IH) (auto simp: c1_def)
  then show ?case unfolding log_chunks.simps by (simp add: c1_def ts1_def del: fun_upd_apply)
qed

lemma tx_log_reach:
  assumes "cr_reach P c" "c_txs c i = Some t" "tx_slot t = i"
    and "\<And>l u. l \<noteq> i \<Longrightarrow> c_txs c l = Some u \<Longrightarrow> {p..<p + n} \<inter> P \<inter> logged (own_log c l u) = {}"
    and "th_index (ti_handle t) = Some i" and "tx_log p n (t, c_pm c) = Inr (t', s')"
  shows "cr_reach P (c\<lparr>c_pm := s', c_txs := (c_txs c)(i \<mapsto> t')\<rparr>)"
proof -
  have n: "(n + JE_MAX_LEN) div JE_MAX_LEN - 1 = n div JE_MAX_LEN" "(n + JE_MAX_LEN) div JE_MAX_LEN = n div JE_MAX_LEN + 1"
    "n div JE_MAX_LEN * JE_MAX_LEN + n mod JE_MAX_LEN = n"
    by (simp_all add: JE_MAX_LEN_def)
  obtain s1 where l: "log_chunks (n div JE_MAX_LEN) p n (t, c_pm c) = (t', s1)" and s': "s' = sfence i s1"
    using assms(3,6) by (auto simp: tx_log_def Let_def n split: if_splits prod.splits)
  have "ti_jcur t + n div JE_MAX_LEN < length (ext (slot_of c i))"
    using assms(5,6) by (auto simp: tx_log_def tx_jend_def Let_def n split: if_splits)
  then have "cr_reach P (c\<lparr>c_pm := s1, c_txs := (c_txs c)(i \<mapsto> t')\<rparr>)"
    using log_chunks_reach [OF assms(1,2), of "n div JE_MAX_LEN" p n] assms(3,4) l n(3)
    by (simp add: add.assoc)
  from cr_next [OF this cr_fence [of _ i t']]
  have "cr_reach P (c\<lparr>c_txs := (c_txs c)(i \<mapsto> t'), c_pm := sfence i s1\<rparr>)" by simp
  also have "c\<lparr>c_txs := (c_txs c)(i \<mapsto> t'), c_pm := sfence i s1\<rparr> =
      c\<lparr>c_pm := sfence i s1, c_txs := (c_txs c)(i \<mapsto> t')\<rparr>" by (cases c) simp
  finally show ?thesis by (simp add: s')
qed

lemma flush_entries_reach:
  "cr_reach P c \<Longrightarrow> cr_reach P (c\<lparr>c_pm := flush_entries i js (c_pm c)\<rparr>)"
proof (induction js arbitrary: c)
  case (Cons je js)
  from Cons.IH [OF cr_next [OF Cons.prems cr_flush]] show ?case by simp
qed simp

end
