(* ===== verification/Transaction_Properties.thy ===== *)
theory Transaction_Properties
  imports Transactions
begin

text \<open>
  What a client of \<open>TransactionImpl\<close> can rely on, from the constructor to the destructor: abort
  restores memory, commit makes it durable, logging stays inside the extent, the recovery of the
  table. And where the code does not keep the promise: \<open>write\<close> of a memory range logs its source
  instead of its destination, \<open>finalize_commit\<close> flushes only the line an entry starts in, and
  the destructor releases the locks before it frees the slot.
\<close>

section \<open>Which lines a commit flushes\<close>

definition tx_flushed :: "nat \<Rightarrow> tx_impl \<times> pm \<Rightarrow> addr set" where
  "tx_flushed i ts = (\<Union>je\<in>set (take (ti_jcur (fst ts)) (ext (slots (snd ts) i))). line_of (je_addr je))"

text \<open>The last chunk of a logged range ends in the line it starts in.\<close>

definition last_chunk_fits :: "addr \<Rightarrow> nat \<Rightarrow> bool" where
  "last_chunk_fits p n \<longleftrightarrow> (p + n div JE_MAX_LEN * JE_MAX_LEN) mod line_size + n mod JE_MAX_LEN \<le> line_size"

fun call_fits :: "tx_call \<Rightarrow> bool" where
  "call_fits (CLog p n) = last_chunk_fits p n"
| "call_fits (CStore a bs) = True"
| "call_fits (CWrite p v) = last_chunk_fits p (length v)"
| "call_fits (CWriteNolog p v) = True"

lemma line_of_iff: "x \<in> line_of a \<longleftrightarrow> x div line_size = a div line_size"
proof -
  have "x div 64 = a div 64 \<longleftrightarrow> a div 64 * 64 \<le> x \<and> x < a div 64 * 64 + 64" for x a :: nat by linarith
  then show ?thesis by (simp add: line_of_def align_down_def line_size_def)
qed

lemma log_je_flushed:
  assumes "tx_open F m0 i tid (t, s)" "ti_jcur t < length (ext (slots s i))"
  shows "tx_flushed i (log_je src n (t, s)) = tx_flushed i (t, s) \<union> line_of src"
proof -
  have "tx_slot t = i" using assms(1) by (rule tx_open_slot)
  then show ?thesis using assms(2)
    by (auto simp: tx_flushed_def log_je_def mem_simps take_Suc_conv_app_nth make_entry_def)
qed

lemma chunk_gap:
  assumes "p \<le> x" "x < p + JE_MAX_LEN"
  shows "x \<in> line_of p \<union> line_of (p + JE_MAX_LEN)"
proof -
  have "x div 64 = p div 64 \<or> x div 64 = (p + 48) div 64"
    if "p \<le> x" "x < p + 48" for p x :: nat using that by linarith
  with assms show ?thesis by (simp add: line_of_iff line_size_def JE_MAX_LEN_def)
qed

lemma last_chunk_line:
  assumes "q mod line_size + r \<le> line_size" "q \<le> x" "x < q + r"
  shows "x \<in> line_of q"
proof -
  have "x div 64 = q div 64" if "q mod 64 + r \<le> 64" "q \<le> x" "x < q + r" for q r x :: nat
  proof -
    have "x < q div 64 * 64 + 64" using that(1,3) div_mult_mod_eq [of q 64] by linarith
    then have "x < Suc (q div 64) * 64" by (simp only: mult_Suc add.commute)
    then have "x div 64 < Suc (q div 64)" by (rule less_mult_imp_div_less)
    moreover have "q div 64 \<le> x div 64" using that(2) by (rule div_le_mono)
    ultimately show ?thesis unfolding less_Suc_eq_le by (rule le_antisym)
  qed
  from this [of q r x] assms show ?thesis unfolding line_of_iff line_size_def by blast
qed

lemma log_chunks_flushed:
  "tx_open F m0 i tid (t, s) \<Longrightarrow> ti_jcur t + k < length (ext (slots s i)) \<Longrightarrow>
   (p + k * JE_MAX_LEN) mod line_size + n mod JE_MAX_LEN \<le> line_size \<Longrightarrow>
   tx_flushed i (t, s) \<union> line_of p \<union> {p..<p + k * JE_MAX_LEN + n mod JE_MAX_LEN} \<subseteq>
     tx_flushed i (log_chunks k p n (t, s))"
proof (induction k arbitrary: p t s)
  case 0
  have "{p..<p + n mod JE_MAX_LEN} \<subseteq> line_of p"
    using last_chunk_line [of p "n mod JE_MAX_LEN"] 0(3) by auto
  with log_je_flushed [OF 0(1), of p "n mod JE_MAX_LEN"] 0(2) show ?case by auto
next
  case (Suc k)
  obtain t1 s1 where l: "log_je p JE_MAX_LEN (t, s) = (t1, s1)" by fastforce
  have l1: "tx_open F m0 i tid (t1, s1)" "ti_jcur t1 = Suc (ti_jcur t)"
    "length (ext (slots s1 i)) = length (ext (slots s i))"
    using log_je_open [OF Suc.prems(1) _ l] Suc.prems(2) by simp_all
  have f1: "tx_flushed i (t1, s1) = tx_flushed i (t, s) \<union> line_of p"
    using log_je_flushed [OF Suc.prems(1), of p JE_MAX_LEN] Suc.prems(2) l by simp
  have "tx_flushed i (t1, s1) \<union> line_of (p + JE_MAX_LEN) \<union>
      {p + JE_MAX_LEN..<p + JE_MAX_LEN + k * JE_MAX_LEN + n mod JE_MAX_LEN} \<subseteq>
      tx_flushed i (log_chunks k (p + JE_MAX_LEN) n (t1, s1))"
    by (rule Suc.IH) (use Suc.prems l1 in \<open>simp_all add: algebra_simps\<close>)
  moreover have "{p..<p + Suc k * JE_MAX_LEN + n mod JE_MAX_LEN} \<subseteq>
      {p..<p + JE_MAX_LEN} \<union> {p + JE_MAX_LEN..<p + JE_MAX_LEN + k * JE_MAX_LEN + n mod JE_MAX_LEN}"
    by auto
  moreover have "{p..<p + JE_MAX_LEN} \<subseteq> line_of p \<union> line_of (p + JE_MAX_LEN)"
    using chunk_gap [of p] by (meson atLeastLessThan_iff subsetI)
  ultimately show ?case unfolding log_chunks.simps l f1 by blast
qed

lemma tx_log_flushed:
  assumes op: "tx_open F m0 i tid (t, s)" and log: "tx_log p n (t, s) = Inr (t', s')"
    and fits: "last_chunk_fits p n" and inv: "tx_logged i (t, s) \<subseteq> tx_flushed i (t, s)"
  shows "tx_logged i (t', s') \<subseteq> tx_flushed i (t', s')"
proof -
  have n: "(n + JE_MAX_LEN) div JE_MAX_LEN = n div JE_MAX_LEN + 1" by (simp add: JE_MAX_LEN_def)
  obtain s1 where l: "log_chunks (n div JE_MAX_LEN) p n (t, s) = (t', s1)" and s': "s' = sfence i s1"
    using log tx_open_slot [OF op] by (auto simp: tx_log_def Let_def n split: if_splits prod.splits)
  have "ti_jcur t + n div JE_MAX_LEN < length (ext (slots s i))"
    using log op by (auto simp: tx_log_def tx_jend_def tx_open_def Let_def n split: if_splits)
  from log_chunks_flushed [OF op this, of p n] fits l
  have "tx_flushed i (t, s) \<union> {p..<p + n} \<subseteq> tx_flushed i (t', s1)"
    by (simp add: last_chunk_fits_def add.assoc)
  moreover have "tx_flushed i (t', s') = tx_flushed i (t', s1)" by (simp add: tx_flushed_def s' mem_simps)
  ultimately show ?thesis using tx_log_open [OF op log] inv by auto
qed

lemma run_call_flushed:
  assumes "tx_open F m0 i tid (t, s)" "run_call c (t, s) = Inr (t', s')" "call_fits c"
    "tx_logged i (t, s) \<subseteq> tx_flushed i (t, s)"
  shows "tx_logged i (t', s') \<subseteq> tx_flushed i (t', s')"
proof (cases c)
  case (CLog p n)
  then show ?thesis using tx_log_flushed assms by auto
next
  case (CWrite p v)
  then obtain s1 where l: "tx_log p (length v) (t, s) = Inr (t', s1)" and s': "s' = store p v s1"
    using assms(2) by (auto simp: tx_write_def tx_store_def rbind_eq_Inr)
  from tx_log_flushed [OF assms(1) l] CWrite assms(3,4) show ?thesis
    by (simp add: s' tx_logged_def tx_flushed_def mem_simps)
next
  case (CStore a bs)
  then have "t' = t" "slots s' = slots s" using assms(2) by (auto simp: tx_store_def mem_simps)
  then show ?thesis using assms(4) by (simp add: tx_logged_def tx_flushed_def)
next
  case (CWriteNolog p v)
  then have "t' = t" "slots s' = slots s" using assms(2) by (auto simp: tx_write_nolog_def mem_simps)
  then show ?thesis using assms(4) by (simp add: tx_logged_def tx_flushed_def)
qed

lemma run_calls_flushed:
  "tx_open F m0 i tid (t, s) \<Longrightarrow> run_calls cs (t, s) = Inr (t', s') \<Longrightarrow> wal F (tx_logged i (t, s)) cs \<Longrightarrow>
   list_all call_fits cs \<Longrightarrow> tx_logged i (t, s) \<subseteq> tx_flushed i (t, s) \<Longrightarrow>
   tx_logged i (t', s') \<subseteq> tx_flushed i (t', s')"
proof (induction cs arbitrary: t s)
  case (Cons c cs)
  obtain t1 s1 where r1: "run_call c (t, s) = Inr (t1, s1)" and r2: "run_calls cs (t1, s1) = Inr (t', s')"
    using Cons.prems(2) by (auto simp: rbind_eq_Inr)
  have w: "wal F (tx_logged i (t, s)) [c]" using Cons.prems(3) by (cases c) auto
  note o1 = run_call_open [OF Cons.prems(1) r1 w]
  have "tx_logged i (t1, s1) \<subseteq> tx_flushed i (t1, s1)"
    using run_call_flushed [OF Cons.prems(1) r1 _ Cons.prems(5)] Cons.prems(4) by simp
  with Cons.IH [of t1 s1] o1 r2 Cons.prems(3,4) show ?case by auto
qed simp

section \<open>Opening a transaction and running calls\<close>

lemma wal_append: "wal F L (cs @ ds) \<Longrightarrow> wal F L cs"
  by (induction F L cs rule: wal.induct) auto

lemma session_open:
  assumes new: "tx_new ro nested True indep (tm, s) = (Inr t0, (tm', s0))" and "ids_fresh tm s"
    and "wal F {} cs" and "run_calls cs (t0, s0) = Inr (t, s1)"
  obtains i where "i < tm_max_transactions tm" "tx_open F (cache s) i (tm_cur_tx_id tm + 1) (t, s1)"
    "dirty s1 \<subseteq> dirty s \<union> tx_logged i (t, s1) \<union> F"
    "list_all call_fits cs \<Longrightarrow> tx_logged i (t, s1) \<subseteq> tx_flushed i (t, s1)"
proof -
  obtain i where i: "i < tm_max_transactions tm" "tx_open F (cache s) i (tm_cur_tx_id tm + 1) (t0, s0)"
    "tx_logged i (t0, s0) = {}" "dirty s0 = dirty s"
    using tx_new_open [OF new assms(2)] by blast
  have "wal F (tx_logged i (t0, s0)) cs" using assms(3) i(3) by simp
  note o1 = run_calls_open [OF i(2) assms(4) this]
  have "tx_logged i (t, s1) \<subseteq> tx_flushed i (t, s1)" if "list_all call_fits cs"
    by (rule run_calls_flushed [OF i(2) assms(4) _ that]) (use assms(3) i(3) in simp_all)
  with i o1 show ?thesis by (intro that) auto
qed

lemma destroy_committed_flushed:
  assumes op: "tx_open F m0 i tid (t, s)" and cov: "tx_logged i (t, s) \<subseteq> tx_flushed i (t, s)"
    and dirty: "dirty s \<subseteq> D \<union> tx_logged i (t, s) \<union> F"
    and com: "tx_commit [] (t, s) = Inr (t', s')"
    and des: "s2 = fst (tx_destroy ab fin un ((t', s'), d))"
  shows "cache s2 = cache s \<and> dirty s2 \<subseteq> D \<union> F \<and> hdr (slots s2 i) AND ACTIVE = 0 \<and>
         hdr_dur (slots s2 i) = hdr (slots s2 i)"
proof -
  have s': "s' = sfence i (flush_entries i (take (ti_jcur t) (ext (slots s i))) s)"
    and t': "t' = t\<lparr>ti_committed := True\<rparr>"
    using com op tx_open_slot [OF op]
    by (auto simp: tx_commit_def finalize_commit_def tx_open_def rbind_def Let_def)
  have h: "ti_rw t'" "ti_committed t'" "th_index (ti_handle t') = Some i"
    using op by (simp_all add: t' tx_open_def)
  have s2: "s2 = sfence i (store_hdr i (hdr (slots s' i) AND NOT ACTIVE) s')"
    using h by (simp add: des tx_destroy_def tx_release_def free_transaction_def)
  have "dirty s' = dirty s - (pend s i \<union> tx_flushed i (t, s))"
    by (simp add: s' mem_simps flush_entries_pend tx_flushed_def)
  then have "dirty s' \<subseteq> D \<union> F" using dirty cov by auto
  then show ?thesis by (auto simp: s2 mem_simps inactive_and_not s')
qed

lemma tx_commit_callbacks:
  assumes "ti_rw t0" and "tx_commit (map run_calls css) (t, s) = Inr (t', s')" and "ti_rw t"
  shows "\<exists>t1 s1. run_calls (concat css) (t, s) = Inr (t1, s1) \<and>
           (ti_rw t1 \<longrightarrow> tx_commit [] (t1, s1) = Inr (t', s'))"
proof -
  have f: "fold (\<lambda>f r. rbind r f) (map run_calls css) (Inr (t, s)) = run_calls (concat css) (t, s)"
    using fold_callbacks [of css "[]" "(t, s)"] by simp
  obtain t1 s1 where r: "run_calls (concat css) (t, s) = Inr (t1, s1)"
    using assms(2,3) unfolding tx_commit_def finalize_commit_def f by (auto simp: rbind_eq_Inr)
  then show ?thesis
    using assms(2,3) unfolding tx_commit_def finalize_commit_def f
    by (auto simp: rbind_def Let_def)
qed

lemma crash_clean: "crash s r \<Longrightarrow> a \<notin> dirty s \<Longrightarrow> cache r a = cache s a"
  by (simp add: crash_def)

lemma crash_hdr: "crash s r \<Longrightarrow> hdr_dur (slots s i) = hdr (slots s i) \<Longrightarrow> hdr (slots r i) = hdr (slots s i)"
  unfolding crash_def by (metis crash_slot_def rebooted_def select_convs(1) slot.select_convs(1))

section \<open>Abort and commit\<close>

text \<open>C2. Abort restores memory, for transactions that follow the write-ahead discipline \<open>wal\<close>:
  each call of \<open>log\<close>, \<open>write(dst, value)\<close>, \<open>write_nolog\<close> or plain store only stores to bytes that the
  transaction has logged before the store, by itself or within \<open>write\<close>, or to the fresh memory \<open>F\<close>.
  When the id of the transaction is on no journal entry yet, then after the constructor, such calls,
  and destruction without commit, every byte outside \<open>F\<close> has the value it had before the transaction
  started. \<open>write(dst, src, len)\<close> is not among the calls: it logs \<open>src\<close>, see \<open>write_copy_not_undone\<close>.\<close>

theorem tx_abort_restores:
  assumes "tx_new ro nested True indep (tm, s) = (Inr t0, (tm', s0))" and "ids_fresh tm s"
    and "wal F {} cs" and "run_calls cs (t0, s0) = Inr (t, s1)"
  shows "\<forall>a. a \<notin> F \<longrightarrow> cache (fst (tx_destroy ab fin un ((t, s1), d))) a = cache s a"
proof -
  obtain i where op: "tx_open F (cache s) i (tm_cur_tx_id tm + 1) (t, s1)"
    by (rule session_open [OF assms])
  then show ?thesis by (simp add: destroy_aborted)
qed

lemmas demo_defs = tx_new_def alloc_transaction_def fresh_tm_def fresh_pm_def tx_log_def
  tx_write_def tx_store_def tx_jend_def log_je_def tx_slot_def Let_def JE_MAX_LEN_def

definition demo_tx :: tx_impl where
  "demo_tx = \<lparr>ti_rw = True, ti_committed = False,
     ti_handle = \<lparr>th_id = 1, th_index = Some 0\<rparr>, ti_jcur = 0\<rparr>"

lemma demo_new:
  "tx_new False False True False (fresh_tm 2, fresh_pm 4) =
     (Inr demo_tx, (fresh_tm 2)\<lparr>tm_cur_tx_id := 1\<rparr>, store_hdr 0 (1 OR ACTIVE) (fresh_pm 4))"
  by (simp add: demo_defs demo_tx_def numeral_2_eq_2 upt_rec)

lemma demo_fresh: "ids_fresh (fresh_tm 2) (fresh_pm 4)"
  by (simp add: ids_fresh_def fresh_tm_def fresh_pm_def zero_entry_def)

lemma demo_write:
  "length v < 48 \<Longrightarrow> \<exists>t s1. run_calls [CWrite p v] (demo_tx, store_hdr 0 (1 OR ACTIVE) (fresh_pm 4)) = Inr (t, s1) \<and>
     (\<forall>k<length v. cache s1 (p + k) = v ! k)"
  by (auto simp: demo_defs demo_tx_def mem_simps)

theorem tx_abort_restores_witness:
  "\<exists>t s1. run_calls [CWrite 0 [7]] (demo_tx, store_hdr 0 (1 OR ACTIVE) (fresh_pm 4)) = Inr (t, s1) \<and>
     cache s1 0 = 7 \<and> cache (fst (tx_destroy [] [] id ((t, s1), ()))) 0 = 0"
proof -
  obtain t s1 where r: "run_calls [CWrite 0 [7]] (demo_tx, store_hdr 0 (1 OR ACTIVE) (fresh_pm 4)) = Inr (t, s1)"
    "cache s1 0 = 7" using demo_write [of "[7]" 0] by auto
  have "wal {} {} [CWrite 0 [7]]" by simp
  from tx_abort_restores [OF demo_new demo_fresh this r(1), of "[]" "[]" id "()"] r
  show ?thesis by (auto simp: fresh_pm_def)
qed

text \<open>C4. Commit is durable under conditions on the calls: they follow the write-ahead discipline of
  C2, and every logged range fits, that is, its last chunk ends in the cache line in which it starts
  (\<open>call_fits\<close>; \<open>commit_loses_second_line\<close> shows a range that does not). Then commit (with commit callbacks that are calls of the same kind) followed by
  destruction leaves a state in which a crash at any later time before other stores keeps every byte
  outside the fresh memory and the bytes that were dirty before, and the slot is free in
  every such crash state.\<close>

theorem tx_commit_durable:
  assumes "tx_new ro nested True indep (tm, s) = (Inr t0, (tm', s0))" and "ids_fresh tm s"
    and "wal F {} (cs @ concat css)" and "list_all call_fits (cs @ concat css)"
    and "run_calls cs (t0, s0) = Inr (t, s1)"
    and "tx_commit (map run_calls css) (t, s1) = Inr (t', s2)"
    and "s3 = fst (tx_destroy ab fin un ((t', s2), d))" and "crash s3 r"
  shows "(\<forall>a. a \<notin> F \<and> a \<notin> dirty s \<longrightarrow> cache r a = cache s2 a) \<and>
         (\<exists>i<tm_max_transactions tm. th_index (ti_handle t') = Some i \<and> hdr (slots r i) AND ACTIVE = 0)"
proof -
  have rw: "ti_rw t0" using assms(1)
    by (auto simp: tx_new_def split: if_splits prod.splits sum.splits)
  have w1: "wal F {} cs" using assms(3) by (rule wal_append)
  obtain j where "tx_open F (cache s) j (tm_cur_tx_id tm + 1) (t, s1)"
    by (rule session_open [OF assms(1,2) w1 assms(5)])
  then have "ti_rw t" by (simp add: tx_open_def)
  from tx_commit_callbacks [OF rw assms(6) this] obtain t1 u1 where
    cb: "run_calls (concat css) (t, s1) = Inr (t1, u1)" "ti_rw t1 \<longrightarrow> tx_commit [] (t1, u1) = Inr (t', s2)"
    by blast
  have run: "run_calls (cs @ concat css) (t0, s0) = Inr (t1, u1)"
    by (simp add: run_calls_append assms(5) cb(1))
  obtain i where i: "i < tm_max_transactions tm" "tx_open F (cache s) i (tm_cur_tx_id tm + 1) (t1, u1)"
    "dirty u1 \<subseteq> dirty s \<union> tx_logged i (t1, u1) \<union> F" "tx_logged i (t1, u1) \<subseteq> tx_flushed i (t1, u1)"
    by (rule session_open [OF assms(1,2,3) run]) (use assms(4) in blast)
  have com: "tx_commit [] (t1, u1) = Inr (t', s2)" using cb(2) i(2) by (simp add: tx_open_def)
  then have h: "th_index (ti_handle t') = Some i" "cache s2 = cache u1"
    using i(2) tx_open_slot [OF i(2)]
    by (auto simp: tx_commit_def finalize_commit_def tx_open_def rbind_def Let_def mem_simps)
  from destroy_committed_flushed [OF i(2,4,3) com assms(7)]
  have fin: "cache s3 = cache u1" "dirty s3 \<subseteq> dirty s \<union> F" "hdr (slots s3 i) AND ACTIVE = 0"
    "hdr_dur (slots s3 i) = hdr (slots s3 i)" by simp_all
  have "\<forall>a. a \<notin> F \<and> a \<notin> dirty s \<longrightarrow> cache r a = cache s2 a"
    using crash_clean [OF assms(8)] fin(1,2) h(2) by auto
  moreover have "hdr (slots r i) AND ACTIVE = 0"
    using crash_hdr [OF assms(8) fin(4)] fin(3) by simp
  ultimately show ?thesis using i(1) h(1) by blast
qed

theorem tx_commit_durable_witness:
  "\<exists>t s1 t' s2 s3 r. run_calls [CWrite 0 [7]] (demo_tx, store_hdr 0 (1 OR ACTIVE) (fresh_pm 4)) = Inr (t, s1) \<and>
     tx_commit (map run_calls []) (t, s1) = Inr (t', s2) \<and>
     s3 = fst (tx_destroy [] [] id ((t', s2), ())) \<and> crash s3 r \<and> cache r 0 = 7"
proof -
  obtain t s1 where r: "run_calls [CWrite 0 [7]] (demo_tx, store_hdr 0 (1 OR ACTIVE) (fresh_pm 4)) = Inr (t, s1)"
    "cache s1 0 = 7" using demo_write [of "[7]" 0] by auto
  obtain t' s2 where c: "tx_commit (map run_calls []) (t, s1) = Inr (t', s2)" "cache s2 = cache s1"
    by (cases "ti_rw t") (auto simp: tx_commit_def finalize_commit_def Let_def mem_simps)
  define s3 where "s3 = fst (tx_destroy [] [] id ((t', s2), ()))"
  have "crash s3 \<lparr>cache = cache s3, dirty = {}, pend = (\<lambda>_. {}),
      slots = (\<lambda>i. rebooted (ext (slots s3 i)) (hdr (slots s3 i)))\<rparr>" (is "crash s3 ?r")
    by (auto simp: crash_def crash_slot_def)
  have w: "wal {} {} ([CWrite 0 [7]] @ concat [])" "list_all call_fits ([CWrite 0 [7]] @ concat [])"
    by (simp_all add: last_chunk_fits_def JE_MAX_LEN_def line_size_def)
  have "cache ?r 0 = 7"
    using tx_commit_durable [OF demo_new demo_fresh w r(1) c(1) s3_def \<open>crash s3 ?r\<close>] c(2) r(2)
    by (simp add: fresh_pm_def)
  with r(1) c(1) s3_def \<open>crash s3 ?r\<close> show ?thesis by blast
qed

section \<open>Where the promises fail\<close>

text \<open>\<open>write(void *dst, void *src, size_t len)\<close> logs the source instead of the destination:
  after it, an abort leaves the new contents at \<open>dst\<close>.\<close>

theorem write_copy_not_undone:
  assumes "tx_new ro nested True indep (tm, s) = (Inr t0, (tm', s0))" and "ids_fresh tm s"
    and "tx_write_copy dst src n (t0, s0) = Inr (t, s1)" and "dst + n \<le> src \<or> src + n \<le> dst"
    and "k < n"
  shows "cache (fst (tx_destroy ab fin un ((t, s1), d))) (dst + k) = cache s (src + k)"
proof -
  obtain i where i: "tx_open {dst..<dst + n} (cache s) i (tm_cur_tx_id tm + 1) (t0, s0)"
    "tx_logged i (t0, s0) = {}" "s0 = store_hdr i ((tm_cur_tx_id tm + 1) OR ACTIVE) s"
    using tx_new_open [OF assms(1,2)] by blast
  obtain s' where l: "tx_log src n (t0, s0) = Inr (t, s')"
    and s1: "s1 = store dst (read_bytes (cache s') src n) s'"
    using assms(3) by (auto simp: tx_write_copy_def tx_store_def rbind_eq_Inr)
  note o1 = tx_log_open [OF i(1) l]
  have o2: "tx_open {dst..<dst + n} (cache s) i (tm_cur_tx_id tm + 1) (t, s1)"
    "tx_logged i (t, s1) = tx_logged i (t, s')"
    using tx_store_open [of _ _ _ _ t s' dst "read_bytes (cache s') src n" s1] o1
    by (auto simp: s1 mem_simps)
  have "oldest (take (ti_jcur t) (ext (slots s1 i))) (dst + k) = None"
    using o1 o2(2) i(2) assms(4,5) by (auto simp: oldest_None tx_logged_def)
  then have "cache (fst (tx_destroy ab fin un ((t, s1), d))) (dst + k) = cache s1 (dst + k)"
    by (simp add: destroy_cache_aborted [OF o2(1)])
  also have "\<dots> = cache s (src + k)"
    using o1 assms(5) by (simp add: s1 mem_simps i(3))
  finally show ?thesis .
qed

theorem write_copy_not_undone_witness:
  "\<exists>t0 s0 t s1 s. tx_new False False True False (fresh_tm 2, s) = (Inr t0, ((fresh_tm 2)\<lparr>tm_cur_tx_id := 1\<rparr>, s0)) \<and>
     tx_write_copy 0 64 1 (t0, s0) = Inr (t, s1) \<and> cache s 0 = 0 \<and>
     cache (fst (tx_destroy [] [] id ((t, s1), ()))) 0 = 9"
proof -
  define s where "s = (fresh_pm 4)\<lparr>cache := (\<lambda>_. 0)(64 := 9)\<rparr>"
  have new: "tx_new False False True False (fresh_tm 2, s) =
      (Inr demo_tx, (fresh_tm 2)\<lparr>tm_cur_tx_id := 1\<rparr>, store_hdr 0 (1 OR ACTIVE) s)"
    by (simp add: demo_defs demo_tx_def numeral_2_eq_2 upt_rec s_def)
  have fresh: "ids_fresh (fresh_tm 2) s"
    by (simp add: ids_fresh_def fresh_tm_def fresh_pm_def zero_entry_def s_def)
  obtain t s1 where w: "tx_write_copy 0 64 1 (demo_tx, store_hdr 0 (1 OR ACTIVE) s) = Inr (t, s1)"
    by (auto simp: demo_defs demo_tx_def mem_simps tx_write_copy_def s_def)
  have "cache (fst (tx_destroy [] [] id ((t, s1), ()))) (0 + 0) = cache s (64 + 0)"
    by (rule write_copy_not_undone [OF new fresh w]) simp_all
  with new w show ?thesis by (intro exI conjI) (auto simp: s_def)
qed

text \<open>A committed write that crosses a cache line is not durable: with a single journal entry
  for it, commit and destruction flush its first line only, and a crash can lose a byte of the
  second line although the slot is free and nothing will undo or redo the transaction.\<close>

theorem commit_loses_second_line:
  assumes "tx_new ro nested True indep (tm, s) = (Inr t0, (tm', s0))" and "ids_fresh tm s"
    and "tx_write p v (t0, s0) = Inr (t, s1)" and "length v < JE_MAX_LEN"
    and "line_size < p mod line_size + length v"
    and "tx_commit [] (t, s1) = Inr (t', s2)" and "s3 = fst (tx_destroy ab fin un ((t', s2), d))"
  shows "\<exists>r k. crash s3 r \<and> k < length v \<and> cache r (p + k) \<noteq> v ! k \<and>
           hdr (slots r (tx_slot t')) AND ACTIVE = 0"
proof -
  obtain i where op0: "tx_open {} (cache s) i (tm_cur_tx_id tm + 1) (t0, s0)"
    "tx_logged i (t0, s0) = {}" "tx_flushed i (t0, s0) = {}"
    using tx_new_open [OF assms(1,2), of "{}"] assms(1)
    by (auto simp: tx_flushed_def tx_new_def split: if_splits prod.splits sum.splits)
  define k where "k = line_size - p mod line_size"
  have k: "k < length v" "(p + k) div line_size \<noteq> p div line_size"
  proof -
    show "k < length v"
      using assms(5) mod_less_divisor [of line_size p] unfolding k_def line_size_def by linarith
    have "p mod line_size < line_size" by (simp add: line_size_def)
    moreover have "p + (n - r) = (q + 1) * n" if "r < n" "q * n + r = p" for q r n using that by auto
    ultimately have "p + k = (p div line_size + 1) * line_size"
      unfolding k_def using div_mult_mod_eq [of p line_size] by blast
    then show "(p + k) div line_size \<noteq> p div line_size" by (simp add: line_size_def)
  qed
  obtain s' where l: "tx_log p (length v) (t0, s0) = Inr (t, s')" and s1: "s1 = store p v s'"
    using assms(3) by (auto simp: tx_write_def tx_store_def rbind_eq_Inr)
  note o1 = tx_log_open [OF op0(1) l]
  have op: "tx_open {} (cache s) i (tm_cur_tx_id tm + 1) (t, s1)"
    using tx_store_open [of _ _ _ _ t s' p v s1] o1 by (auto simp: s1 mem_simps)
  have room: "ti_jcur t0 < length (ext (slots s0 i))"
    using l op0(1) assms(4) by (auto simp: tx_log_def tx_jend_def tx_open_def Let_def JE_MAX_LEN_def split: if_splits)
  have "(t, s') = (case log_je p (length v) (t0, s0) of (t, s) \<Rightarrow> (t, sfence i s))"
    using l assms(4) tx_open_slot [OF op0(1)]
    by (auto simp: tx_log_def Let_def JE_MAX_LEN_def split: if_splits prod.splits)
  then have "tx_flushed i (t, s1) = line_of p"
    using log_je_flushed [OF op0(1) room, of p "length v"] op0(3)
    by (auto simp: tx_flushed_def s1 mem_simps split: prod.splits)
  then have "\<forall>je\<in>set (take (ti_jcur t) (ext (slots s1 i))). p + k \<notin> line_of (je_addr je)"
    using k(2) line_of_iff [of "p + k" p] unfolding tx_flushed_def fst_conv snd_conv by blast
  moreover have "p + k \<in> dirty s1" "p + k \<notin> pend s1 i" using k(1) by (auto simp: s1 store_def)
  ultimately have d: "p + k \<in> dirty s3" "cache s3 = cache s1"
    using destroy_committed_other_lines [OF op assms(6,7)] by auto
  from crash_of_dirty [OF d(1)] obtain r where
    r: "crash s3 r" "cache r (p + k) \<noteq> cache s3 (p + k)" "hdr (slots r i) = hdr (slots s3 i)" by blast
  have t': "t' = t\<lparr>ti_committed := True\<rparr>"
    using assms(6) op by (auto simp: tx_commit_def finalize_commit_def tx_open_def Let_def)
  then have "hdr (slots s3 i) AND ACTIVE = 0"
    using op by (simp add: assms(7) tx_destroy_def tx_release_def free_transaction_def tx_open_def
        mem_simps inactive_and_not)
  moreover have "tx_slot t' = i" using tx_open_slot [OF op] by (simp add: t' tx_slot_def)
  moreover have "cache s3 (p + k) = v ! k" using k(1) by (simp add: d(2) s1 mem_simps)
  ultimately have "crash s3 r \<and> k < length v \<and> cache r (p + k) \<noteq> v ! k \<and> hdr (slots r (tx_slot t')) AND ACTIVE = 0"
    using r k(1) by simp
  then show ?thesis by blast
qed

theorem commit_loses_second_line_witness:
  "\<exists>t s1 t' s2 r k. tx_write 60 [1, 2, 3, 4, 5, 6, 7, 8] (demo_tx, store_hdr 0 (1 OR ACTIVE) (fresh_pm 4)) = Inr (t, s1) \<and>
     tx_commit [] (t, s1) = Inr (t', s2) \<and> crash (fst (tx_destroy [] [] id ((t', s2), ()))) r \<and>
     k < 8 \<and> cache r (60 + k) \<noteq> [1, 2, 3, 4, 5, 6, 7, 8] ! k"
proof -
  let ?v = "[1, 2, 3, 4, 5, 6, 7, 8] :: u8 list"
  obtain t s1 where w: "tx_write 60 ?v (demo_tx, store_hdr 0 (1 OR ACTIVE) (fresh_pm 4)) = Inr (t, s1)"
    using demo_write [of ?v 60] by (auto simp: rbind_eq_Inr)
  obtain t' s2 where c: "tx_commit [] (t, s1) = Inr (t', s2)"
    by (cases "ti_rw t") (auto simp: tx_commit_def finalize_commit_def Let_def)
  have len: "length ?v < JE_MAX_LEN" "line_size < 60 mod line_size + length ?v"
    by (simp_all add: JE_MAX_LEN_def line_size_def)
  obtain r k where "crash (fst (tx_destroy [] [] id ((t', s2), ()))) r" "k < length ?v"
    "cache r (60 + k) \<noteq> ?v ! k"
    using commit_loses_second_line [where ab = "[]" and fin = "[]" and un = id and d = "()",
      OF demo_new demo_fresh w len c refl] by blast
  with w c show ?thesis by (intro exI conjI) auto
qed

lemma tx_write_small:
  assumes "th_index (ti_handle t) = Some i" "length v < JE_MAX_LEN" "ti_jcur t + 1 < length (ext (slots s i))"
  shows "tx_write p v (t, s) = Inr (t\<lparr>ti_jcur := Suc (ti_jcur t)\<rparr>,
     store p v (sfence i (upd_slot i (\<lambda>sl. sl\<lparr>ext := (ext sl)[ti_jcur t :=
       make_entry (th_id (ti_handle t)) (cache s) p (length v) (ext sl ! ti_jcur t)]\<rparr>) s)))"
  using assms by (simp add: tx_write_def tx_log_def tx_jend_def tx_slot_def log_je_def tx_store_def Let_def JE_MAX_LEN_def)

lemma commit_no_callbacks:
  assumes "ti_rw t"
  obtains s' where "tx_commit [] (t, s) = Inr (t\<lparr>ti_committed := True\<rparr>, s')" "cache s' = cache s"
    "\<And>i. hdr (slots s' i) = hdr (slots s i)" "\<And>i. ext (slots s' i) = ext (slots s i)"
  using assms by (simp add: tx_commit_def finalize_commit_def Let_def mem_simps)

text \<open>The destructor releases the locks before it frees the slot. In this run the first
  transaction writes 1 to address 0, commits and releases its locks; the second takes over, writes 2,
  commits and is destroyed; then the power fails before the first slot is freed. Recovery undoes the
  first transaction and with it the committed write of the second.\<close>

theorem unlock_before_free_loses_commit:
  "\<exists>t1 u1 t1' v1 t2 tm2 u2 t3 u3 t3' v3 r tm' r'.
     tx_write 0 [1] (demo_tx, store_hdr 0 (1 OR ACTIVE) (fresh_pm 4)) = Inr (t1, u1) \<and>
     tx_commit [] (t1, u1) = Inr (t1', v1) \<and>
     tx_new False False True False
       ((fresh_tm 2)\<lparr>tm_cur_tx_id := 1\<rparr>, fst (tx_release [] [] id ((t1', v1), ()))) = (Inr t2, (tm2, u2)) \<and>
     tx_write 0 [2] (t2, u2) = Inr (t3, u3) \<and> tx_commit [] (t3, u3) = Inr (t3', v3) \<and>
     crash (fst (tx_destroy [] [] id ((t3', v3), ()))) r \<and> cache r 0 = 2 \<and>
     hdr (slots r (tx_slot t3')) AND ACTIVE = 0 \<and>
     recover False (tm2, r) = Inr (tm', r') \<and> cache r' 0 = 0"
proof -
  let ?w0 = "store_hdr 0 (1 OR ACTIVE) (fresh_pm 4)"
  define e1 where "e1 = make_entry 1 (\<lambda>_. 0) 0 1 zero_entry"
  obtain t1 u1 where w1: "tx_write 0 [1] (demo_tx, ?w0) = Inr (t1, u1)" and t1: "t1 = demo_tx\<lparr>ti_jcur := 1\<rparr>"
    and u1: "hdr (slots u1 0) = 1 OR ACTIVE" "hdr (slots u1 1) = 0"
      "ext (slots u1 0) = (replicate 4 zero_entry)[0 := e1]" "ext (slots u1 1) = replicate 4 zero_entry"
    using tx_write_small [of demo_tx 0 "[1]" ?w0 0]
    by (simp add: demo_tx_def JE_MAX_LEN_def mem_simps e1_def fresh_pm_def)
  have rw1: "ti_rw t1" by (simp add: t1 demo_tx_def)
  obtain v1 where c1: "tx_commit [] (t1, u1) = Inr (t1\<lparr>ti_committed := True\<rparr>, v1)"
    and v1: "\<And>i. hdr (slots v1 i) = hdr (slots u1 i)" "\<And>i. ext (slots v1 i) = ext (slots u1 i)"
    using commit_no_callbacks [OF rw1, of u1] by metis
  define z where "z = fst (tx_release [] [] id ((t1\<lparr>ti_committed := True\<rparr>, v1), ()))"
  have z: "z = v1" by (simp add: z_def tx_release_def Let_def t1 demo_tx_def)
  define t2 where "t2 = \<lparr>ti_rw = True, ti_committed = False,
     ti_handle = \<lparr>th_id = 2, th_index = Some 1\<rparr>, ti_jcur = 0\<rparr>"
  define u2 where "u2 = store_hdr 1 (2 OR ACTIVE) z"
  have n2: "tx_new False False True False ((fresh_tm 2)\<lparr>tm_cur_tx_id := 1\<rparr>, z) =
      (Inr t2, ((fresh_tm 2)\<lparr>tm_cur_tx_id := 2\<rparr>, u2))"
    using active_or [of 1]
    by (simp add: tx_new_def alloc_transaction_def Let_def fresh_tm_def z v1 u1 [simplified] t2_def u2_def upt_rec)
  obtain t3 u3 where w3: "tx_write 0 [2] (t2, u2) = Inr (t3, u3)" and t3: "t3 = t2\<lparr>ti_jcur := 1\<rparr>"
    and u3: "hdr (slots u3 0) = 1 OR ACTIVE" "ext (slots u3 0) = (replicate 4 zero_entry)[0 := e1]"
      "cache u3 0 = 2" "hdr (slots u3 1) = 2 OR ACTIVE"
    using tx_write_small [of t2 1 "[2]" u2 0]
    by (simp add: t2_def JE_MAX_LEN_def mem_simps u2_def z v1 u1 [simplified])
  have rw3: "ti_rw t3" by (simp add: t3 t2_def)
  obtain v3 where c3: "tx_commit [] (t3, u3) = Inr (t3\<lparr>ti_committed := True\<rparr>, v3)"
    and v3: "cache v3 = cache u3" "\<And>i. hdr (slots v3 i) = hdr (slots u3 i)" "\<And>i. ext (slots v3 i) = ext (slots u3 i)"
    using commit_no_callbacks [OF rw3, of u3] by metis
  define w where "w = fst (tx_destroy [] [] id ((t3\<lparr>ti_committed := True\<rparr>, v3), ()))"
  have w: "w = sfence 1 (store_hdr 1 (hdr (slots v3 1) AND NOT ACTIVE) v3)"
    by (simp add: w_def tx_destroy_def tx_release_def Let_def t3 t2_def free_transaction_def)
  define r where "r = \<lparr>cache = cache w, dirty = {}, pend = (\<lambda>_. {}),
    slots = (\<lambda>i. rebooted (ext (slots w i)) (hdr (slots w i)))\<rparr>"
  have cr: "crash w r" by (auto simp: crash_def crash_slot_def r_def)
  have r: "cache r 0 = 2" "hdr (slots r 0) = 1 OR ACTIVE" "hdr (slots r 1) AND ACTIVE = 0"
    "ext (slots r 0) = (replicate 4 zero_entry)[0 := e1]"
    by (simp_all add: r_def w rebooted_def mem_simps v3 u3 [simplified] inactive_and_not)
  have val: "valid_entries 1 ((replicate 4 zero_entry)[0 := e1]) = [e1]"
    by (simp add: valid_entries_def e1_def make_entry_def numeral_eq_Suc) (simp add: zero_entry_def)
  have one: "(1 OR ACTIVE) AND NOT ACTIVE = 1" by (simp add: and_not_active small_and_not_active)
  define q where "q = recover_tx \<lparr>th_id = 1, th_index = Some 0\<rparr> r"
  have q: "cache q 0 = 0" "hdr (slots q 1) = hdr (slots r 1)"
    by (simp_all add: q_def recover_tx_def rollback_def r(4) val undo_entry_def mem_simps)
      (simp add: e1_def make_entry_def mem_simps read_bytes_def)
  have "recover_from False 0 (Suc (Suc 0)) 0 r \<noteq> Inl e" for e
    by (simp add: Let_def)
  then obtain m r' where rec: "recover_from False 0 (Suc (Suc 0)) 0 r = Inr (m, r')"
    by (cases "recover_from False 0 (Suc (Suc 0)) 0 r") auto
  have "cache r' = cache q"
    using rec active_or [of 1] r(2,3) q(2)
    by (auto simp: Let_def one mem_simps simp flip: q_def)
  then have "cache r' 0 = 0" using q(1) by simp
  moreover have "recover False ((fresh_tm 2)\<lparr>tm_cur_tx_id := 2\<rparr>, r) =
      Inr ((fresh_tm 2)\<lparr>tm_cur_tx_id := m\<rparr>, r')"
    using rec by (simp add: recover_def fresh_tm_def numeral_2_eq_2)
  moreover have "tx_slot (t3\<lparr>ti_committed := True\<rparr>) = 1" by (simp add: tx_slot_def t3 t2_def)
  ultimately show ?thesis
    using w1 c1 n2 w3 c3 cr r(1,3) unfolding z_def w_def by (intro exI conjI) auto
qed

section \<open>The extent and the table\<close>

lemma log_chunks_frame:
  "tx_slot t = i \<Longrightarrow> ti_jcur t + k < length (ext (slots s i)) \<Longrightarrow>
   log_chunks k p n (t, s) = (t', s') \<Longrightarrow>
   ti_jcur t' = Suc (ti_jcur t + k) \<and> cache s' = cache s \<and> (\<forall>l. l \<noteq> i \<longrightarrow> slots s' l = slots s l) \<and>
   hdr (slots s' i) = hdr (slots s i) \<and> length (ext (slots s' i)) = length (ext (slots s i)) \<and>
   take (ti_jcur t) (ext (slots s' i)) = take (ti_jcur t) (ext (slots s i))"
proof (induction k arbitrary: p t s)
  case 0
  then show ?case by (auto simp: log_je_def mem_simps)
next
  case (Suc k)
  obtain t1 s1 where l: "log_je p JE_MAX_LEN (t, s) = (t1, s1)" by fastforce
  have l1: "tx_slot t1 = i" "ti_jcur t1 = Suc (ti_jcur t)" "cache s1 = cache s"
    "\<forall>l. l \<noteq> i \<longrightarrow> slots s1 l = slots s l" "hdr (slots s1 i) = hdr (slots s i)"
    "length (ext (slots s1 i)) = length (ext (slots s i))"
    "take (ti_jcur t) (ext (slots s1 i)) = take (ti_jcur t) (ext (slots s i))"
    using l Suc.prems(1) by (auto simp: log_je_def mem_simps tx_slot_def)
  have IH: "ti_jcur t' = Suc (ti_jcur t1 + k) \<and> cache s' = cache s1 \<and> (\<forall>l. l \<noteq> i \<longrightarrow> slots s' l = slots s1 l) \<and>
    hdr (slots s' i) = hdr (slots s1 i) \<and> length (ext (slots s' i)) = length (ext (slots s1 i)) \<and>
    take (ti_jcur t1) (ext (slots s' i)) = take (ti_jcur t1) (ext (slots s1 i))"
    by (rule Suc.IH [of t1 s1 "p + JE_MAX_LEN"]) (use Suc.prems l1 l in simp_all)
  have "take (ti_jcur t) (take (ti_jcur t1) (ext (slots s' i))) = take (ti_jcur t) (take (ti_jcur t1) (ext (slots s1 i)))"
    using IH by simp
  then have "take (ti_jcur t) (ext (slots s' i)) = take (ti_jcur t) (ext (slots s1 i))"
    by (simp add: l1(2))
  with IH l1 show ?case by simp
qed

text \<open>C11. \<open>log\<close> of \<open>n\<close> bytes needs room for \<open>n div 48 + 1\<close> entries and one to spare, else it
  throws and changes nothing; when it succeeds it keeps data memory, the other slots, its header
  and the entries already written, and what it wrote is durable.\<close>

theorem tx_log_confined:
  assumes "ti_rw t" and "th_index (ti_handle t) = Some i"
  shows "case tx_log p n (t, s) of
      Inl e \<Rightarrow> e = OutOfJournalSpace \<and> length (ext (slots s i)) \<le> ti_jcur t + n div JE_MAX_LEN + 1
    | Inr (t', s') \<Rightarrow> ti_jcur t' = ti_jcur t + n div JE_MAX_LEN + 1 \<and> ti_jcur t' < length (ext (slots s' i)) \<and>
        length (ext (slots s' i)) = length (ext (slots s i)) \<and>
        cache s' = cache s \<and> (\<forall>l. l \<noteq> i \<longrightarrow> slots s' l = slots s l) \<and> hdr (slots s' i) = hdr (slots s i) \<and>
        take (ti_jcur t) (ext (slots s' i)) = take (ti_jcur t) (ext (slots s i)) \<and>
        ext_dur (slots s' i) = ext (slots s' i)"
proof -
  have n: "(n + JE_MAX_LEN) div JE_MAX_LEN = n div JE_MAX_LEN + 1" by (simp add: JE_MAX_LEN_def)
  have i: "tx_slot t = i" using assms(2) by (simp add: tx_slot_def)
  show ?thesis
  proof (cases "length (ext (slots s i)) \<le> ti_jcur t + n div JE_MAX_LEN + 1")
    case True
    then show ?thesis using assms by (simp add: tx_log_def tx_jend_def n Let_def)
  next
    case False
    obtain t' s1 where l: "log_chunks (n div JE_MAX_LEN) p n (t, s) = (t', s1)" by fastforce
    from log_chunks_frame [OF i _ l] False show ?thesis
      using assms by (simp add: tx_log_def tx_jend_def n Let_def l i mem_simps)
  qed
qed

theorem tx_log_confined_witness:
  "(case tx_log 0 100 (demo_tx, fresh_pm 5) of Inl e \<Rightarrow> False | Inr (t', s') \<Rightarrow> ti_jcur t' = 3) \<and>
   (case tx_log 0 100 (demo_tx, fresh_pm 3) of Inl e \<Rightarrow> e = OutOfJournalSpace | Inr r \<Rightarrow> False)"
proof -
  have d: "ti_rw demo_tx" "th_index (ti_handle demo_tx) = Some 0" by (simp_all add: demo_tx_def)
  show ?thesis
    using tx_log_confined [OF d, where p = 0 and n = 100 and s = "fresh_pm 5"] tx_log_confined [OF d, where p = 0 and n = 100 and s = "fresh_pm 3"]
    by (auto simp: JE_MAX_LEN_def demo_tx_def fresh_pm_def split: sum.splits prod.splits)
qed

lemma recover_from_total: "\<exists>x. recover_from False i k mx s = Inr x"
  by (induction k arbitrary: i mx s) (simp_all add: Let_def)

text \<open>C9. Opening the table: a read-only open fails exactly when some slot is active. A read-write
  open always succeeds, clears every active flag, keeps every journal extent, and starts the id
  counter at or above every id of the table, so the next transaction's id is new.\<close>

theorem recover_table:
  "(recover True (tm, s) = Inl ReadOnly \<longleftrightarrow>
      (\<exists>l<tm_max_transactions tm. hdr (slots s l) AND ACTIVE \<noteq> 0)) \<and>
   (\<exists>tm' s'. recover False (tm, s) = Inr (tm', s') \<and> (\<forall>l. ext (slots s' l) = ext (slots s l)) \<and>
      (\<forall>l<tm_max_transactions tm. hdr (slots s' l) = hdr (slots s l) AND NOT ACTIVE \<and>
         hdr (slots s' l) \<le> tm_cur_tx_id tm'))"
proof -
  obtain m s' where r: "recover_from False 0 (tm_max_transactions tm) 0 s = Inr (m, s')"
    using recover_from_total [of 0 "tm_max_transactions tm" 0 s] by auto
  have "recover True (tm, s) = Inl ReadOnly \<longleftrightarrow> recover_from True 0 (tm_max_transactions tm) 0 s = Inl ReadOnly"
    by (auto simp: recover_def rbind_def split: sum.splits)
  then have "recover True (tm, s) = Inl ReadOnly \<longleftrightarrow>
      (\<exists>l<tm_max_transactions tm. hdr (slots s l) AND ACTIVE \<noteq> 0)"
    by (simp add: recover_from_read_only)
  moreover have "recover False (tm, s) = Inr (tm\<lparr>tm_cur_tx_id := m\<rparr>, s')"
    by (simp add: recover_def r)
  moreover have "\<forall>l. ext (slots s' l) = ext (slots s l)" using recover_from_max [OF r] by blast
  moreover have "\<forall>l<tm_max_transactions tm. hdr (slots s' l) = hdr (slots s l) AND NOT ACTIVE \<and>
       hdr (slots s' l) \<le> tm_cur_tx_id (tm\<lparr>tm_cur_tx_id := m\<rparr>)"
  proof (intro allI impI)
    fix l assume l: "l < tm_max_transactions tm"
    have "0 \<le> l \<and> l < 0 + tm_max_transactions tm \<longrightarrow>
        hdr (slots s' l) = hdr (slots s l) AND NOT ACTIVE \<and> hdr (slots s' l) \<le> m"
      using recover_from_max [OF r] by blast
    with l show "hdr (slots s' l) = hdr (slots s l) AND NOT ACTIVE \<and>
        hdr (slots s' l) \<le> tm_cur_tx_id (tm\<lparr>tm_cur_tx_id := m\<rparr>)" by (metis add_0 le0 tx_manager.select_convs(1) tx_manager.update_convs(1) tx_manager.surjective)
  qed
  ultimately show ?thesis by blast
qed

theorem recover_table_witness:
  "recover True (fresh_tm 1, store_hdr 0 (5 OR ACTIVE) (fresh_pm 2)) = Inl ReadOnly \<and>
   (\<exists>tm' s'. recover False (fresh_tm 1, store_hdr 0 (5 OR ACTIVE) (fresh_pm 2)) = Inr (tm', s') \<and>
      hdr (slots s' 0) = 5 \<and> 5 \<le> tm_cur_tx_id tm')"
proof -
  let ?s = "store_hdr 0 (5 OR ACTIVE) (fresh_pm 2)"
  have h: "hdr (slots ?s 0) = 5 OR ACTIVE" "(5 OR ACTIVE) AND NOT ACTIVE = 5"
    by (simp_all add: mem_simps and_not_active small_and_not_active)
  have m: "tm_max_transactions (fresh_tm 1) = 1" by (simp add: fresh_tm_def)
  from recover_table [of "fresh_tm 1" ?s] show ?thesis
    unfolding m using active_or [of 5] h by auto
qed

text \<open>The configuration check of the constructor is dead: with a journal smaller than the number
  of slots the constructor has already divided by zero, and never throws \<open>InvalidConfig\<close>. When it
  does return, the extents of different slots are disjoint and inside the journal region.\<close>

theorem transaction_manager_config:
  "(transaction_manager ts ja js create ro s = None \<longleftrightarrow> ts < 64 \<or> js < ts div 64) \<and>
   transaction_manager ts ja js create ro s \<noteq> Some (Inl InvalidConfig) \<and>
   (\<forall>tm s'. transaction_manager ts ja js create ro s = Some (Inr (tm, s')) \<longrightarrow>
      tm_max_transactions tm = ts div 64 \<and>
      (\<forall>i<tm_max_transactions tm. ja \<le> tx_jbegin_addr tm i \<and> tx_jbegin_addr tm i < tx_jend_addr tm i \<and>
         tx_jend_addr tm i \<le> ja + js \<and> (\<forall>j<i. tx_jend_addr tm j \<le> tx_jbegin_addr tm i)))"
proof -
  define T where "T = ts div 64"
  define E where "E = js div T"
  have ext: "T \<le> js div E" if "0 < E"
    using that by (simp add: E_def less_eq_div_iff_mult_less_eq mult.commute div_times_less_eq_dividend)
  have ni: "recover ro (tm, s) \<noteq> Inl InvalidConfig" for tm
  proof -
    have "recover_from ro i k mx s \<noteq> Inl InvalidConfig" for i k mx s
      by (induction k arbitrary: i mx s) (auto simp: Let_def)
    then show ?thesis by (auto simp: recover_def rbind_def split: sum.splits)
  qed
  have tm: "tm_max_transactions tm' = tm_max_transactions tm \<and> tm_extent_size tm' = tm_extent_size tm \<and>
      tm_journal_addr tm' = tm_journal_addr tm" if "recover ro (tm, s) = Inr (tm', s')" for tm tm' s'
    using that by (auto simp: recover_def rbind_eq_Inr)
  have lay: "ja \<le> tx_jbegin_addr tm i \<and> tx_jbegin_addr tm i < tx_jend_addr tm i \<and>
         tx_jend_addr tm i \<le> ja + js \<and> (\<forall>j<i. tx_jend_addr tm j \<le> tx_jbegin_addr tm i)"
    if "i < T" "tm_extent_size tm = E" "tm_journal_addr tm = ja" "0 < E" for tm i
  proof -
    have "Suc i * E \<le> T * E" using that(1) by (intro mult_le_mono1) simp
    also have "\<dots> \<le> js" by (simp add: E_def)
    finally have "Suc i * E \<le> js" .
    moreover have "Suc j * E \<le> i * E" if "j < i" for j using that by (intro mult_le_mono1) simp
    ultimately show ?thesis using that by (simp add: tx_jbegin_addr_def tx_jend_addr_def)
  qed
  have "transaction_manager ts ja js create ro s = None \<longleftrightarrow> T = 0 \<or> E = 0"
    by (simp add: transaction_manager_def Let_def T_def E_def)
  also have "\<dots> \<longleftrightarrow> ts < 64 \<or> js < ts div 64"
    by (auto simp: E_def T_def div_eq_0_iff)
  finally have 1: "transaction_manager ts ja js create ro s = None \<longleftrightarrow> ts < 64 \<or> js < ts div 64" .
  have 2: "transaction_manager ts ja js create ro s \<noteq> Some (Inl InvalidConfig)"
    using ext ni by (cases "E = 0") (simp_all add: transaction_manager_def Let_def flip: E_def T_def)
  have 3: "tm_max_transactions tm = T \<and> (\<forall>i<tm_max_transactions tm. ja \<le> tx_jbegin_addr tm i \<and>
      tx_jbegin_addr tm i < tx_jend_addr tm i \<and> tx_jend_addr tm i \<le> ja + js \<and>
      (\<forall>j<i. tx_jend_addr tm j \<le> tx_jbegin_addr tm i))"
    if "transaction_manager ts ja js create ro s = Some (Inr (tm, s'))" for tm s'
  proof -
    have "tm_max_transactions tm = T" "tm_extent_size tm = E" "tm_journal_addr tm = ja" "0 < E"
      using that tm
      by (auto simp: transaction_manager_def Let_def E_def [symmetric] T_def [symmetric] split: if_splits)
    then show ?thesis using lay by simp
  qed
  show ?thesis using 1 2 3 by (simp add: T_def)
qed

theorem transaction_manager_config_witness:
  "transaction_manager 128 0 1 True False (fresh_pm 2) = None \<and>
   (\<exists>tm s'. transaction_manager 128 0 256 True False (fresh_pm 2) = Some (Inr (tm, s')) \<and>
      tx_jend_addr tm 0 \<le> tx_jbegin_addr tm 1 \<and> tx_jend_addr tm 1 \<le> 256)"
proof -
  obtain tm s' where t: "transaction_manager 128 0 256 True False (fresh_pm 2) = Some (Inr (tm, s'))"
    by (simp add: transaction_manager_def Let_def)
  with transaction_manager_config [of 128 0 1 True False "fresh_pm 2"]
    transaction_manager_config [of 128 0 256 True False "fresh_pm 2"]
  show ?thesis by auto
qed

end
