(* ===== verification/Rw_Lock.thy ===== *)
theory Rw_Lock
  imports Pmgd_Prelude
begin

text \<open>
  The reader-writer lock of \<open>src/lock.h\<close>. A thread inside one of the lock functions is at one of the
  program points \<open>pc\<close>; \<open>exec\<close> is its next atomic access to the 16-bit lock word (\<open>xadd\<close>, \<open>bts\<close>,
  \<open>atomic_and\<close>, or a plain read of the word in a wait loop). The relation \<open>lk_step\<close> interleaves
  the accesses of all threads. Back-off only delays and is left out. Theorems: mutual exclusion for
  up to \<open>2 ^ 15 - 1\<close> threads, a word that is zero again when nobody holds or waits, and what
  each function does to the word when it runs alone.
\<close>

section \<open>The lock word\<close>

definition LOCK_READER_MASK :: u16 where "LOCK_READER_MASK = 0x7fff"
definition READER_INCR :: u16 where "READER_INCR = 1"
definition WRITER_LOCK_BIT :: nat where "WRITER_LOCK_BIT = 15"
definition WRITE_LOCK :: u16 where "WRITE_LOCK = push_bit WRITER_LOCK_BIT 1"
definition MAX_ATTEMPTS :: nat where "MAX_ATTEMPTS = 10"

definition is_write_locked :: "u16 \<Rightarrow> bool" where
  "is_write_locked w \<longleftrightarrow> w AND WRITE_LOCK \<noteq> 0"

definition reader_count :: "u16 \<Rightarrow> u16" where
  "reader_count w = w AND LOCK_READER_MASK"

section \<open>Program points\<close>

text \<open>
  \<open>Failed\<close> is the exit by \<open>LockTimeout\<close> of a thread that holds nothing, \<open>UFailed\<close> that of an
  upgrade, whose caller still holds its read lock. The number is the variable \<open>attempts\<close>.
\<close>

datatype pc =
    Idle | Failed
  | RTry nat | RUndo nat | RWait nat | RHeld
  | WTry nat | WDrain nat | WClear | WWait nat | WHeld
  | UTry nat | UDrain nat | UDec | UClear | UWait nat | UFailed

fun exec :: "pc \<Rightarrow> u16 \<Rightarrow> pc \<times> u16" where
  "exec (RTry a) w = (if \<not> is_write_locked w then RHeld else RUndo a, w + READER_INCR)"
| "exec (RUndo a) w = (RWait a, w - READER_INCR)"
| "exec (RWait a) w =
     (if is_write_locked w then (if a + 1 > MAX_ATTEMPTS then Failed else RWait (a + 1)) else RTry a, w)"
| "exec (WTry a) w = (if \<not> is_write_locked w then WDrain 0 else WWait a, w OR WRITE_LOCK)"
| "exec (WDrain a) w =
     (if reader_count w \<noteq> 0 then (if a + 1 > MAX_ATTEMPTS then WClear else WDrain (a + 1)) else WHeld, w)"
| "exec WClear w = (Failed, w AND LOCK_READER_MASK)"
| "exec (WWait a) w =
     (if is_write_locked w then (if a + 1 > MAX_ATTEMPTS then Failed else WWait (a + 1)) else WTry a, w)"
| "exec (UTry a) w = (if \<not> is_write_locked w then UDrain 0 else UWait a, w OR WRITE_LOCK)"
| "exec (UDrain a) w =
     (if reader_count w > 1 then (if a + 1 > MAX_ATTEMPTS then UClear else UDrain (a + 1)) else UDec, w)"
| "exec UDec w = (WHeld, w - READER_INCR)"
| "exec UClear w = (UFailed, w AND LOCK_READER_MASK)"
| "exec (UWait a) w =
     (if is_write_locked w then (if a > MAX_ATTEMPTS then UFailed else UWait (a + 1)) else UTry a, w)"
| "exec Idle w = (Idle, w)"
| "exec Failed w = (Failed, w)"
| "exec RHeld w = (RHeld, w)"
| "exec WHeld w = (WHeld, w)"
| "exec UFailed w = (UFailed, w)"

text \<open>\<open>read_unlock\<close> and \<open>write_unlock\<close>.\<close>

definition read_unlock :: "u16 \<Rightarrow> u16" where
  "read_unlock w = w - READER_INCR"

definition write_unlock :: "u16 \<Rightarrow> u16" where
  "write_unlock w = w AND LOCK_READER_MASK"

section \<open>Interleaving\<close>

record lk =
  lk_word :: u16
  lk_pc :: "nat \<Rightarrow> pc"

definition set_thread :: "nat \<Rightarrow> pc \<Rightarrow> u16 \<Rightarrow> lk \<Rightarrow> lk" where
  "set_thread t p w s = s\<lparr>lk_word := w, lk_pc := (lk_pc s)(t := p)\<rparr>"

inductive lk_step :: "nat \<Rightarrow> lk \<Rightarrow> lk \<Rightarrow> bool" for n where
  lk_call_read: "t < n \<Longrightarrow> lk_pc s t \<in> {Idle, Failed} \<Longrightarrow> lk_step n s (set_thread t (RTry 0) (lk_word s) s)"
| lk_call_write: "t < n \<Longrightarrow> lk_pc s t \<in> {Idle, Failed} \<Longrightarrow> lk_step n s (set_thread t (WTry 0) (lk_word s) s)"
| lk_call_upgrade: "t < n \<Longrightarrow> lk_pc s t \<in> {RHeld, UFailed} \<Longrightarrow> lk_step n s (set_thread t (UTry 0) (lk_word s) s)"
| lk_exec: "t < n \<Longrightarrow> exec (lk_pc s t) (lk_word s) = (p, w) \<Longrightarrow> lk_step n s (set_thread t p w s)"
| lk_read_unlock: "t < n \<Longrightarrow> lk_pc s t \<in> {RHeld, UFailed} \<Longrightarrow>
    lk_step n s (set_thread t Idle (read_unlock (lk_word s)) s)"
| lk_write_unlock: "t < n \<Longrightarrow> lk_pc s t = WHeld \<Longrightarrow>
    lk_step n s (set_thread t Idle (write_unlock (lk_word s)) s)"

inductive lk_reach :: "nat \<Rightarrow> lk \<Rightarrow> bool" for n where
  lk_init: "lk_reach n \<lparr>lk_word = 0, lk_pc = (\<lambda>_. Idle)\<rparr>"
| lk_next: "lk_reach n s \<Longrightarrow> lk_step n s s' \<Longrightarrow> lk_reach n s'"

section \<open>The word as count and flag\<close>

definition enc :: "nat \<Rightarrow> bool \<Rightarrow> u16" where
  "enc c b = word_of_nat c + (if b then 0x8000 else 0)"

lemma WRITE_LOCK_eq: "WRITE_LOCK = 0x8000"
  by (simp add: WRITE_LOCK_def WRITER_LOCK_BIT_def)

lemma unat_enc: "c < 0x8000 \<Longrightarrow> unat (enc c b) = c + (if b then 0x8000 else 0)"
  by (auto simp: enc_def unat_word_ariths unat_of_nat)

lemma unat_reader_count: "unat (reader_count w) = unat w mod 0x8000"
proof -
  have "reader_count w = take_bit 15 w"
    by (simp add: reader_count_def LOCK_READER_MASK_def take_bit_eq_mask mask_eq_exp_minus_1)
  then have "unat (reader_count w) = take_bit 15 (unat w)" by (simp only: unsigned_take_bit_eq)
  then show ?thesis by (simp add: take_bit_eq_mod)
qed

lemma enc_reader_count: "c < 0x8000 \<Longrightarrow> reader_count (enc c b) = word_of_nat c"
  unfolding word_unat_eq_iff by (auto simp: unat_reader_count unat_enc unat_of_nat)

lemma bit_WRITE_LOCK: "bit WRITE_LOCK n \<longleftrightarrow> n = 15"
  unfolding WRITE_LOCK_def WRITER_LOCK_BIT_def
  by (auto simp only: bit_push_bit_iff bit_1_iff) (simp_all add: bit_simps)

lemma is_write_locked_bit: "is_write_locked w \<longleftrightarrow> bit w 15"
proof
  assume "bit w 15"
  then have "bit (w AND WRITE_LOCK) 15" by (simp only: bit_and_iff bit_WRITE_LOCK)
  then show "is_write_locked w" unfolding is_write_locked_def by force
next
  assume "is_write_locked w"
  moreover have "w AND WRITE_LOCK = 0" if "\<not> bit w 15"
    using that by (intro bit_word_eqI) (auto simp: bit_and_iff bit_WRITE_LOCK)
  ultimately show "bit w 15" unfolding is_write_locked_def by blast
qed

lemma is_write_locked_unat: "is_write_locked w \<longleftrightarrow> 0x8000 \<le> unat w"
proof -
  have "is_write_locked w \<longleftrightarrow> bit w 15" by (rule is_write_locked_bit)
  also have "\<dots> \<longleftrightarrow> odd (unat w div 2 ^ 15)" by (subst bit_iff_odd [symmetric]) (simp add: bit_unsigned_iff)
  also have "\<dots> \<longleftrightarrow> 0x8000 \<le> unat w"
  proof -
    have "unat w < 2 ^ 16" using unsigned_less [of w] by simp
    then have "unat w div 2 ^ 15 < 2" by simp
    then show ?thesis by (cases "unat w div 2 ^ 15 = 0") (auto simp: div_eq_0_iff)
  qed
  finally show ?thesis .
qed

lemma enc_locked: "c < 0x8000 \<Longrightarrow> is_write_locked (enc c b) \<longleftrightarrow> b"
  by (simp add: is_write_locked_unat unat_enc)

lemma enc_or: "c < 0x8000 \<Longrightarrow> enc c b OR WRITE_LOCK = enc c True"
proof (cases b)
  case True
  assume "c < 0x8000"
  then have "bit (enc c True) 15" using enc_locked [of c True] by (simp add: is_write_locked_bit)
  then have "enc c True OR WRITE_LOCK = enc c True"
    by (intro bit_word_eqI) (auto simp only: bit_or_iff bit_WRITE_LOCK)
  with True show ?thesis by simp
next
  case False
  assume "c < 0x8000"
  then have "enc c False AND WRITE_LOCK = 0"
    using enc_locked [of c False] by (simp add: is_write_locked_def)
  then have "enc c False OR WRITE_LOCK = enc c False + WRITE_LOCK"
    using word_plus_and_or [of "enc c False" WRITE_LOCK] by simp
  with False show ?thesis by (simp add: enc_def WRITE_LOCK_eq)
qed

lemma enc_and: "c < 0x8000 \<Longrightarrow> enc c b AND LOCK_READER_MASK = enc c False"
  using enc_reader_count [of c b] by (simp add: reader_count_def enc_def)

lemma enc_inc: "enc c b + READER_INCR = enc (Suc c) b"
  by (simp add: enc_def READER_INCR_def)

lemma enc_dec: "enc (Suc c) b - READER_INCR = enc c b"
  by (simp add: enc_def READER_INCR_def)

section \<open>The invariant\<close>

text \<open>Who is counted as a reader, who owns the write bit, who relies on holding a read lock.\<close>

fun counted :: "pc \<Rightarrow> bool" where
  "counted (RUndo a) = True" | "counted RHeld = True" | "counted (UTry a) = True"
| "counted (UDrain a) = True" | "counted UDec = True" | "counted UClear = True"
| "counted (UWait a) = True" | "counted UFailed = True" | "counted p = False"

fun owner :: "pc \<Rightarrow> bool" where
  "owner (WDrain a) = True" | "owner WClear = True" | "owner WHeld = True"
| "owner (UDrain a) = True" | "owner UDec = True" | "owner UClear = True" | "owner p = False"

fun reading :: "pc \<Rightarrow> bool" where
  "reading RHeld = True" | "reading (UTry a) = True" | "reading (UDrain a) = True"
| "reading UClear = True" | "reading (UWait a) = True" | "reading UFailed = True" | "reading p = False"

fun exclusive :: "pc \<Rightarrow> bool" where
  "exclusive WHeld = True" | "exclusive UDec = True" | "exclusive p = False"

definition holders :: "nat \<Rightarrow> (nat \<Rightarrow> pc) \<Rightarrow> nat set" where
  "holders n f = {t. t < n \<and> counted (f t)}"

definition lk_inv :: "nat \<Rightarrow> lk \<Rightarrow> bool" where
  "lk_inv n s \<longleftrightarrow>
     lk_word s = enc (card (holders n (lk_pc s))) (\<exists>t. owner (lk_pc s t)) \<and>
     (\<forall>t u. owner (lk_pc s t) \<longrightarrow> owner (lk_pc s u) \<longrightarrow> t = u) \<and>
     (\<forall>t u. exclusive (lk_pc s t) \<longrightarrow> reading (lk_pc s u) \<longrightarrow> False) \<and>
     (\<forall>t\<ge>n. lk_pc s t = Idle)"

lemma finite_holders [simp]: "finite (holders n f)"
  by (simp add: holders_def)

lemma card_holders_le: "card (holders n f) \<le> n"
proof -
  have "holders n f \<subseteq> {..<n}" by (auto simp: holders_def)
  then show ?thesis using card_mono [of "{..<n}" "holders n f"] by simp
qed

lemma holders_upd:
  assumes "t < n"
  shows "holders n (f(t := p)) = (if counted p then insert t (holders n f) else holders n f - {t})"
  using assms by (auto simp: holders_def)

lemma exclusive_owner: "exclusive p \<Longrightarrow> owner p"
  by (cases p) auto

lemma exclusive_not_reading: "exclusive p \<Longrightarrow> \<not> reading p"
  by (cases p) auto

lemma reading_counted: "reading p \<Longrightarrow> counted p"
  by (cases p) auto

abbreviation locked :: "(nat \<Rightarrow> pc) \<Rightarrow> bool" where
  "locked f \<equiv> \<exists>u. owner (f u)"

lemma card_holders_upd:
  assumes "t < n"
  shows "counted (f t) = counted q \<Longrightarrow> card (holders n (f(t := q))) = card (holders n f)"
    and "\<not> counted (f t) \<Longrightarrow> counted q \<Longrightarrow> card (holders n (f(t := q))) = Suc (card (holders n f))"
    and "counted (f t) \<Longrightarrow> \<not> counted q \<Longrightarrow> card (holders n f) = Suc (card (holders n (f(t := q))))"
proof -
  have mem: "t \<in> holders n f \<longleftrightarrow> counted (f t)" using assms by (simp add: holders_def)
  show "counted (f t) = counted q \<Longrightarrow> card (holders n (f(t := q))) = card (holders n f)"
    using assms mem by (simp add: holders_upd insert_absorb del: fun_upd_apply)
  show "\<not> counted (f t) \<Longrightarrow> counted q \<Longrightarrow> card (holders n (f(t := q))) = Suc (card (holders n f))"
    using assms mem by (simp add: holders_upd del: fun_upd_apply)
  show "counted (f t) \<Longrightarrow> \<not> counted q \<Longrightarrow> card (holders n f) = Suc (card (holders n (f(t := q))))"
    using assms mem card_Suc_Diff1 [of "holders n f" t] by (simp add: holders_upd del: fun_upd_apply)
qed

text \<open>One thread moves to program point \<open>q\<close>: what is left to show.\<close>

lemma inv_move:
  assumes inv: "lk_inv n s" and t: "t < n"
    and w: "w = enc (card (holders n ((lk_pc s)(t := q)))) (locked ((lk_pc s)(t := q)))"
    and own: "owner q \<Longrightarrow> owner (lk_pc s t) \<or> \<not> locked (lk_pc s)"
    and rd: "reading q \<Longrightarrow> reading (lk_pc s t) \<or> \<not> locked (lk_pc s)"
    and ex: "exclusive q \<Longrightarrow> exclusive (lk_pc s t) \<or> (\<forall>u. u \<noteq> t \<longrightarrow> \<not> reading (lk_pc s u))"
  shows "lk_inv n (set_thread t q w s)"
proof -
  let ?f = "lk_pc s" and ?g = "(lk_pc s)(t := q)"
  have i: "\<And>t u. owner (?f t) \<Longrightarrow> owner (?f u) \<Longrightarrow> t = u"
    "\<And>t u. exclusive (?f t) \<Longrightarrow> reading (?f u) \<Longrightarrow> False" "\<And>t. n \<le> t \<Longrightarrow> ?f t = Idle"
    using inv by (auto simp: lk_inv_def)
  have A: "u = v" if "owner (?g u)" "owner (?g v)" for u v
  proof (cases "u = t \<or> v = t")
    case True
    then show ?thesis using that own i(1) [of u t] i(1) [of v t] by (auto split: if_splits)
  qed (use that i(1) in simp)
  have B: False if "exclusive (?g u)" "reading (?g v)" for u v
  proof (cases "u = t")
    case True
    then have "exclusive q" "v \<noteq> t" "reading (?f v)" using that exclusive_not_reading by (auto split: if_splits)
    with ex i(2) show False by blast
  next
    case False
    then have u: "exclusive (?f u)" using that(1) by simp
    show False
    proof (cases "v = t")
      case True
      then have "reading q" using that(2) by simp
      with rd u i(2) exclusive_owner show False by blast
    qed (use that(2) u i(2) in auto)
  qed
  have C: "\<forall>u\<ge>n. ?g u = Idle" using t i(3) by simp
  have pcs: "lk_pc (set_thread t q w s) = ?g" "lk_word (set_thread t q w s) = w"
    by (simp_all add: set_thread_def)
  show ?thesis unfolding lk_inv_def pcs using w A B C by (intro conjI) blast+
qed

lemma inv_word: "lk_inv n s \<Longrightarrow> lk_word s = enc (card (holders n (lk_pc s))) (locked (lk_pc s))"
  by (simp add: lk_inv_def)

lemma locked_upd: "locked (f(t := q)) \<longleftrightarrow> owner q \<or> (\<exists>u. u \<noteq> t \<and> owner (f u))"
  by auto

lemma inv_keep:
  assumes inv: "lk_inv n s" and t: "t < n" and w: "w = lk_word s"
    and same: "counted q = counted (lk_pc s t)" "owner q = owner (lk_pc s t)"
    and rd: "reading q \<Longrightarrow> reading (lk_pc s t) \<or> \<not> locked (lk_pc s)"
    and ex: "exclusive q \<Longrightarrow> exclusive (lk_pc s t) \<or> (\<forall>u. u \<noteq> t \<longrightarrow> \<not> reading (lk_pc s u))"
  shows "lk_inv n (set_thread t q w s)"
proof (rule inv_move [OF inv t _ _ rd ex])
  have "locked ((lk_pc s)(t := q)) \<longleftrightarrow> locked (lk_pc s)" using same(2) by (auto simp: locked_upd)
  with w inv_word [OF inv] card_holders_upd(1) [OF t, of "lk_pc s" q] same(1)
  show "w = enc (card (holders n ((lk_pc s)(t := q)))) (locked ((lk_pc s)(t := q)))"
    by simp
qed (use same in auto)

lemma owner_unique: "lk_inv n s \<Longrightarrow> owner (lk_pc s t) \<Longrightarrow> owner (lk_pc s u) \<Longrightarrow> u = t"
  unfolding lk_inv_def by blast

lemma idle_outside: "lk_inv n s \<Longrightarrow> n \<le> t \<Longrightarrow> lk_pc s t = Idle"
  unfolding lk_inv_def by blast

lemma holders_empty:
  assumes "lk_inv n s" "card (holders n (lk_pc s)) = 0"
  shows "\<not> reading (lk_pc s u)"
proof
  assume r: "reading (lk_pc s u)"
  then have "counted (lk_pc s u)" by (rule reading_counted)
  moreover have "u < n" using idle_outside [OF assms(1), of u] r by (cases "u < n") auto
  ultimately have "u \<in> holders n (lk_pc s)" by (simp add: holders_def)
  with assms(2) show False by simp
qed

lemma holders_single:
  assumes "lk_inv n s" "card (holders n (lk_pc s)) \<le> 1" "counted (lk_pc s t)" "t < n" "u \<noteq> t"
  shows "\<not> reading (lk_pc s u)"
proof
  assume r: "reading (lk_pc s u)"
  have "u < n" using idle_outside [OF assms(1), of u] r by (cases "u < n") auto
  then have "{t, u} \<subseteq> holders n (lk_pc s)" using assms r reading_counted by (auto simp: holders_def)
  then have "card {t, u} \<le> card (holders n (lk_pc s))" by (intro card_mono) auto
  with assms(2,5) show False by simp
qed

text \<open>The four kinds of move of the word: count up, count down, set the bit, clear the bit.\<close>

lemma inv_inc:
  assumes inv: "lk_inv n s" and t: "t < n" and w: "w = lk_word s + READER_INCR"
    and cu: "\<not> counted (lk_pc s t)" "counted q" "\<not> owner (lk_pc s t)" "\<not> owner q"
    and rd: "reading q \<Longrightarrow> \<not> locked (lk_pc s)" and ex: "\<not> exclusive q"
  shows "lk_inv n (set_thread t q w s)"
proof (rule inv_move [OF inv t])
  have "locked ((lk_pc s)(t := q)) \<longleftrightarrow> locked (lk_pc s)" using cu by (auto simp: locked_upd)
  with card_holders_upd(2) [OF t, of "lk_pc s" q] cu inv_word [OF inv] w
  show "w = enc (card (holders n ((lk_pc s)(t := q)))) (locked ((lk_pc s)(t := q)))"
    by (simp add: enc_inc)
qed (use cu rd ex in simp_all)

lemma inv_dec:
  assumes inv: "lk_inv n s" and t: "t < n" and w: "w = lk_word s - READER_INCR"
    and cu: "counted (lk_pc s t)" "\<not> counted q" "owner q = owner (lk_pc s t)"
    and ex: "exclusive q \<Longrightarrow> exclusive (lk_pc s t)"
  shows "lk_inv n (set_thread t q w s)"
proof (rule inv_move [OF inv t])
  have "locked ((lk_pc s)(t := q)) \<longleftrightarrow> locked (lk_pc s)" using cu by (auto simp: locked_upd)
  with card_holders_upd(3) [OF t, of "lk_pc s" q] cu inv_word [OF inv] w
  show "w = enc (card (holders n ((lk_pc s)(t := q)))) (locked ((lk_pc s)(t := q)))"
    by (simp add: enc_dec)
qed (use cu ex reading_counted in auto)

lemma inv_set:
  assumes inv: "lk_inv n s" and t: "t < n" and small: "n < 0x8000" and w: "w = lk_word s OR WRITE_LOCK"
    and cu: "counted q = counted (lk_pc s t)" "reading q = reading (lk_pc s t)" "\<not> exclusive q"
    and own: "\<not> owner (lk_pc s t)" "owner q \<longleftrightarrow> \<not> locked (lk_pc s)"
  shows "lk_inv n (set_thread t q w s)"
proof (rule inv_move [OF inv t])
  have "card (holders n (lk_pc s)) < 0x8000" using card_holders_le [of n "lk_pc s"] small by simp
  moreover have "locked ((lk_pc s)(t := q))" using own by (auto simp: locked_upd)
  ultimately show "w = enc (card (holders n ((lk_pc s)(t := q)))) (locked ((lk_pc s)(t := q)))"
    using card_holders_upd(1) [OF t, of "lk_pc s" q] cu inv_word [OF inv] w
    by (simp add: enc_or)
qed (use cu own(1) in simp, use own(2) in blast, use cu in simp_all)

lemma inv_clear:
  assumes inv: "lk_inv n s" and t: "t < n" and small: "n < 0x8000" and w: "w = lk_word s AND LOCK_READER_MASK"
    and cu: "counted q = counted (lk_pc s t)" "reading q = reading (lk_pc s t)" "\<not> exclusive q"
    and own: "owner (lk_pc s t)" "\<not> owner q"
  shows "lk_inv n (set_thread t q w s)"
proof (rule inv_move [OF inv t])
  have "card (holders n (lk_pc s)) < 0x8000" using card_holders_le [of n "lk_pc s"] small by simp
  moreover have "\<not> locked ((lk_pc s)(t := q))"
    unfolding locked_upd using own(2) owner_unique [OF inv own(1)] by blast
  ultimately show "w = enc (card (holders n ((lk_pc s)(t := q)))) (locked ((lk_pc s)(t := q)))"
    using card_holders_upd(1) [OF t, of "lk_pc s" q] cu inv_word [OF inv] w
    by (simp add: enc_and)
qed (use cu own in simp_all)

lemma reader_count_enc:
  assumes "lk_inv n s" "n < 0x8000"
  shows "unat (reader_count (lk_word s)) = card (holders n (lk_pc s))"
    and "is_write_locked (lk_word s) \<longleftrightarrow> locked (lk_pc s)"
proof -
  have c: "card (holders n (lk_pc s)) < 0x8000" using card_holders_le [of n "lk_pc s"] assms(2) by simp
  show "is_write_locked (lk_word s) \<longleftrightarrow> locked (lk_pc s)"
    using enc_locked [OF c] inv_word [OF assms(1)] by simp
  show "unat (reader_count (lk_word s)) = card (holders n (lk_pc s))"
    using enc_reader_count [OF c] inv_word [OF assms(1)] c by (simp add: unat_of_nat)
qed

lemma inv_exec:
  assumes inv: "lk_inv n s" and t: "t < n" and small: "n < 0x8000"
    and ex: "exec (lk_pc s t) (lk_word s) = (q, w)"
  shows "lk_inv n (set_thread t q w s)"
proof -
  note rc = reader_count_enc [OF inv small]
  have count0: "reader_count (lk_word s) = 0 \<longleftrightarrow> card (holders n (lk_pc s)) = 0"
    using rc(1) by (metis unat_eq_zero)
  have count1: "reader_count (lk_word s) > 1 \<longleftrightarrow> card (holders n (lk_pc s)) > 1"
    using rc(1) by (simp add: word_less_nat_alt)
  show ?thesis
  proof (cases "lk_pc s t")
    case (RTry a)
    show ?thesis by (rule inv_inc [OF inv t]) (use ex RTry rc in \<open>auto split: if_splits\<close>)
  next
    case (RUndo a)
    show ?thesis by (rule inv_dec [OF inv t]) (use ex RUndo in auto)
  next
    case (RWait a)
    show ?thesis by (rule inv_keep [OF inv t]) (use ex RWait in \<open>auto split: if_splits\<close>)
  next
    case (WTry a)
    show ?thesis by (rule inv_set [OF inv t small]) (use ex WTry rc in \<open>auto split: if_splits\<close>)
  next
    case (WDrain a)
    show ?thesis
      by (rule inv_keep [OF inv t])
        (use ex WDrain count0 holders_empty [OF inv] in \<open>auto split: if_splits\<close>)
  next
    case WClear
    show ?thesis by (rule inv_clear [OF inv t small]) (use ex WClear in auto)
  next
    case (WWait a)
    show ?thesis by (rule inv_keep [OF inv t]) (use ex WWait in \<open>auto split: if_splits\<close>)
  next
    case (UTry a)
    show ?thesis by (rule inv_set [OF inv t small]) (use ex UTry rc in \<open>auto split: if_splits\<close>)
  next
    case (UDrain a)
    show ?thesis
      by (rule inv_keep [OF inv t])
        (use ex UDrain count1 holders_single [OF inv _ _ t] in \<open>auto split: if_splits\<close>)
  next
    case UDec
    show ?thesis by (rule inv_dec [OF inv t]) (use ex UDec in auto)
  next
    case UClear
    show ?thesis by (rule inv_clear [OF inv t small]) (use ex UClear in auto)
  next
    case (UWait a)
    show ?thesis by (rule inv_keep [OF inv t]) (use ex UWait in \<open>auto split: if_splits\<close>)
  qed (rule inv_keep [OF inv t]; use ex in auto)+
qed

lemma inv_step:
  assumes "lk_step n s s'" "lk_inv n s" "n < 0x8000"
  shows "lk_inv n s'"
  using assms
proof (induction rule: lk_step.induct)
  case (lk_call_read t s)
  show ?case by (rule inv_keep) (use lk_call_read in auto)
next
  case (lk_call_write t s)
  show ?case by (rule inv_keep) (use lk_call_write in auto)
next
  case (lk_call_upgrade t s)
  show ?case by (rule inv_keep) (use lk_call_upgrade in auto)
next
  case (lk_exec t s p w)
  show ?case by (rule inv_exec [OF _ _ _ lk_exec(2)]) (use lk_exec in auto)
next
  case (lk_read_unlock t s)
  show ?case by (rule inv_dec) (use lk_read_unlock in \<open>auto simp: read_unlock_def\<close>)
next
  case (lk_write_unlock t s)
  show ?case by (rule inv_clear) (use lk_write_unlock in \<open>auto simp: write_unlock_def\<close>)
qed

lemma reach_inv: "lk_reach n s \<Longrightarrow> n < 0x8000 \<Longrightarrow> lk_inv n s"
proof (induction rule: lk_reach.induct)
  case lk_init
  then show ?case by (simp add: lk_inv_def holders_def enc_def)
next
  case (lk_next s s')
  then show ?case using inv_step by blast
qed

section \<open>Running alone\<close>

text \<open>A thread's accesses while no other thread runs.\<close>

fun solo :: "nat \<Rightarrow> pc \<times> u16 \<Rightarrow> pc \<times> u16" where
  "solo 0 pw = pw"
| "solo (Suc k) pw = solo k (exec (fst pw) (snd pw))"

text \<open>What the three functions do to the word as a whole: the value returned is the new word.\<close>

definition read_lock :: "u16 \<Rightarrow> u16 result" where
  "read_lock w = (if is_write_locked w then Inl LockTimeout else Inr (w + READER_INCR))"

definition write_lock :: "u16 \<Rightarrow> u16 result" where
  "write_lock w =
     (if is_write_locked w \<or> reader_count w \<noteq> 0 then Inl LockTimeout else Inr (w OR WRITE_LOCK))"

definition upgrade_write_lock :: "u16 \<Rightarrow> u16 result" where
  "upgrade_write_lock w =
     (if is_write_locked w \<or> 1 < reader_count w then Inl LockTimeout
      else Inr ((w OR WRITE_LOCK) - READER_INCR))"

lemma locked_inc:
  assumes "is_write_locked w" "reader_count w \<noteq> LOCK_READER_MASK"
  shows "is_write_locked (w + READER_INCR - READER_INCR)"
  using assms by simp

lemma locked_or: "is_write_locked (w OR WRITE_LOCK)"
  by (simp only: is_write_locked_bit bit_or_iff bit_WRITE_LOCK simp_thms)

lemma bit_MASK: "bit LOCK_READER_MASK n \<longleftrightarrow> n < 15"
proof -
  have m: "LOCK_READER_MASK = mask 15" by (simp add: LOCK_READER_MASK_def mask_eq_exp_minus_1)
  show ?thesis unfolding m bit_mask_iff by auto
qed

lemma or_and_mask: "\<not> is_write_locked w \<Longrightarrow> (w OR WRITE_LOCK) AND LOCK_READER_MASK = w"
  by (rule bit_word_eqI)
    (auto simp: is_write_locked_bit bit_and_iff bit_or_iff bit_WRITE_LOCK bit_MASK, metis less_antisym numeral_nat not_less_eq Suc_numeral)

lemma count_or: "reader_count (w OR WRITE_LOCK) = reader_count w"
  unfolding reader_count_def
  by (rule bit_word_eqI) (auto simp only: bit_and_iff bit_or_iff bit_WRITE_LOCK bit_MASK)

lemma solo_read_lock:
  "\<exists>k\<le>13. solo k (RTry 0, w) = (case read_lock w of Inl e \<Rightarrow> (Failed, w) | Inr w' \<Rightarrow> (RHeld, w'))"
proof (cases "is_write_locked w")
  case True
  then have "solo 13 (RTry 0, w) = (Failed, w)"
    by (simp add: numeral_eq_Suc MAX_ATTEMPTS_def)
  then show ?thesis using True by (auto simp: read_lock_def)
next
  case False
  then show ?thesis by (intro exI [of _ 1]) (simp add: read_lock_def)
qed

lemma solo_write_lock:
  "\<exists>k\<le>13. solo k (WTry 0, w) = (case write_lock w of Inl e \<Rightarrow> (Failed, w) | Inr w' \<Rightarrow> (WHeld, w'))"
proof (cases "is_write_locked w")
  case True
  have "w OR WRITE_LOCK = w" using True
    by (intro bit_word_eqI) (auto simp only: bit_or_iff bit_WRITE_LOCK is_write_locked_bit)
  then have "solo 12 (WTry 0, w) = (Failed, w)"
    using True by (simp add: numeral_eq_Suc MAX_ATTEMPTS_def)
  then show ?thesis using True by (auto simp: write_lock_def intro!: exI [of _ 12])
next
  case False
  then have "solo 13 (WTry 0, w) = (Failed, w)" if "reader_count w \<noteq> 0"
    using that by (simp add: numeral_eq_Suc MAX_ATTEMPTS_def count_or or_and_mask)
  moreover have "solo 2 (WTry 0, w) = (WHeld, w OR WRITE_LOCK)" if "reader_count w = 0"
    using that False by (simp add: numeral_eq_Suc count_or)
  ultimately show ?thesis using False
    by (cases "reader_count w = 0")
      (auto simp: write_lock_def intro!: exI [of _ "if reader_count w = 0 then 2 else 13"])
qed

lemma solo_upgrade:
  "\<exists>k\<le>13. solo k (UTry 0, w) =
     (case upgrade_write_lock w of Inl e \<Rightarrow> (UFailed, w) | Inr w' \<Rightarrow> (WHeld, w'))"
proof (cases "is_write_locked w")
  case True
  have "w OR WRITE_LOCK = w" using True
    by (intro bit_word_eqI) (auto simp only: bit_or_iff bit_WRITE_LOCK is_write_locked_bit)
  then have "solo 13 (UTry 0, w) = (UFailed, w)"
    using True by (simp add: numeral_eq_Suc MAX_ATTEMPTS_def)
  then show ?thesis using True by (auto simp: upgrade_write_lock_def)
next
  case False
  then have "solo 13 (UTry 0, w) = (UFailed, w)" if "1 < reader_count w"
    using that by (simp add: numeral_eq_Suc MAX_ATTEMPTS_def count_or or_and_mask)
  moreover have "solo 3 (UTry 0, w) = (WHeld, (w OR WRITE_LOCK) - READER_INCR)" if "\<not> 1 < reader_count w"
    using that False by (simp add: numeral_eq_Suc count_or)
  ultimately show ?thesis using False
    by (cases "1 < reader_count w")
      (auto simp: upgrade_write_lock_def intro!: exI [of _ "if 1 < reader_count w then 13 else 3"])
qed

section \<open>Properties\<close>

text \<open>C6. Mutual exclusion: with fewer than \<open>2 ^ 15\<close> threads, under every interleaving of their
  atomic accesses, with time-outs, retries and upgrades, while one thread holds the write lock no
  other thread holds it, and none holds or upgrades a read lock.\<close>

theorem rw_lock_exclusion:
  assumes "lk_reach n s" and "n < 0x8000" and "lk_pc s t = WHeld" and "u \<noteq> t"
  shows "lk_pc s u \<noteq> WHeld \<and> \<not> reading (lk_pc s u) \<and> is_write_locked (lk_word s)"
proof -
  note inv = reach_inv [OF assms(1,2)]
  have "exclusive (lk_pc s t)" "owner (lk_pc s t)" using assms(3) by simp_all
  then have "\<not> reading (lk_pc s u)" "lk_pc s u \<noteq> WHeld" "is_write_locked (lk_word s)"
    using inv assms(4) owner_unique [OF inv, of t u] reader_count_enc(2) [OF inv assms(2)]
    unfolding lk_inv_def by (blast, auto)
  then show ?thesis by blast
qed

lemma lock_demo: "\<exists>s. lk_reach 2 s \<and> lk_pc s 0 = WHeld \<and> lk_pc s 1 = RWait 0"
proof -
  let ?s0 = "\<lparr>lk_word = 0, lk_pc = (\<lambda>_. Idle)\<rparr>"
  define s1 where "s1 = set_thread 0 (WTry 0) 0 ?s0"
  define s2 where "s2 = set_thread 0 (WDrain 0) WRITE_LOCK s1"
  define s3 where "s3 = set_thread 0 WHeld WRITE_LOCK s2"
  define s4 where "s4 = set_thread 1 (RTry 0) WRITE_LOCK s3"
  define s5 where "s5 = set_thread 1 (RUndo 0) (WRITE_LOCK + READER_INCR) s4"
  define s6 where "s6 = set_thread 1 (RWait 0) WRITE_LOCK s5"
  note defs = s1_def s2_def s3_def s4_def s5_def s6_def set_thread_def
  have w: "\<not> is_write_locked 0" "reader_count WRITE_LOCK = 0" "is_write_locked WRITE_LOCK"
    by (simp_all add: is_write_locked_def reader_count_def WRITE_LOCK_eq LOCK_READER_MASK_def)
  have "lk_step 2 ?s0 s1" unfolding s1_def using lk_call_write [of 0 2 ?s0] by simp
  moreover have "lk_step 2 s1 s2" unfolding s2_def
    by (rule lk_exec) (simp_all add: s1_def set_thread_def w)
  moreover have "lk_step 2 s2 s3" unfolding s3_def
    by (rule lk_exec) (simp_all add: s2_def set_thread_def w)
  moreover have "lk_step 2 s3 s4" using lk_call_read [of 1 2 s3] by (simp add: defs)
  moreover have "lk_step 2 s4 s5" unfolding s5_def
    by (rule lk_exec) (simp_all add: s4_def set_thread_def w)
  moreover have "lk_step 2 s5 s6" unfolding s6_def
    by (rule lk_exec) (simp_all add: s5_def set_thread_def)
  ultimately have "lk_reach 2 s6" using lk_init lk_next by metis
  then show ?thesis by (intro exI [of _ s6]) (simp add: defs)
qed

theorem rw_lock_exclusion_witness:
  "\<exists>s. lk_reach 2 s \<and> lk_pc s 0 = WHeld \<and> lk_pc s 1 = RWait 0 \<and> is_write_locked (lk_word s)"
proof -
  obtain s where s: "lk_reach 2 s" "lk_pc s 0 = WHeld" "lk_pc s 1 = RWait 0" using lock_demo by blast
  with rw_lock_exclusion [OF s(1) _ s(2), of 1] show ?thesis by auto
qed

text \<open>What each function does alone: \<open>read_lock\<close> adds a reader unless a writer is there,
  \<open>write_lock\<close> sets the bit when the word has neither writer nor reader, \<open>upgrade_write_lock\<close>
  trades the caller's read lock for the bit when there is no other reader; otherwise they throw
  \<open>LockTimeout\<close> after a bounded number of attempts and leave the word as they found it.\<close>

theorem lock_functions_alone:
  "(\<exists>k\<le>13. solo k (RTry 0, w) = (case read_lock w of Inl e \<Rightarrow> (Failed, w) | Inr w' \<Rightarrow> (RHeld, w'))) \<and>
   (\<exists>k\<le>13. solo k (WTry 0, w) = (case write_lock w of Inl e \<Rightarrow> (Failed, w) | Inr w' \<Rightarrow> (WHeld, w'))) \<and>
   (\<exists>k\<le>13. solo k (UTry 0, w) = (case upgrade_write_lock w of Inl e \<Rightarrow> (UFailed, w) | Inr w' \<Rightarrow> (WHeld, w')))"
  by (intro conjI solo_read_lock solo_write_lock solo_upgrade)

text \<open>The word counts exactly the threads that have added themselves, and the bit is set exactly
  while some thread is draining, holding or clearing it; when every thread is back outside the lock
  functions and holds nothing, time-outs included, the word is 0.\<close>

theorem lock_word_meaning:
  assumes "lk_reach n s" and "n < 0x8000"
  shows "unat (reader_count (lk_word s)) = card {t. t < n \<and> counted (lk_pc s t)} \<and>
     is_write_locked (lk_word s) = (\<exists>t. owner (lk_pc s t)) \<and>
     ((\<forall>t. lk_pc s t \<in> {Idle, Failed}) \<longrightarrow> lk_word s = 0)"
proof -
  note inv = reach_inv [OF assms]
  have "lk_word s = 0" if "\<forall>t. lk_pc s t \<in> {Idle, Failed}"
  proof -
    have n: "\<not> counted (lk_pc s t)" "\<not> owner (lk_pc s t)" for t using that [rule_format, of t] by auto
    have "holders n (lk_pc s) = {}" using n(1) by (auto simp: holders_def)
    moreover have "\<not> (\<exists>t. owner (lk_pc s t))" using n(2) by blast
    ultimately show ?thesis using inv_word [OF inv] by (simp add: enc_def)
  qed
  with reader_count_enc [OF inv assms(2)] show ?thesis by (simp add: holders_def)
qed

theorem lock_word_meaning_witness:
  "\<exists>s. lk_reach 2 s \<and> lk_pc s 0 = WHeld \<and> unat (reader_count (lk_word s)) = card {t. t < 2 \<and> counted (lk_pc s t)}"
proof -
  obtain s where s: "lk_reach 2 s" "lk_pc s 0 = WHeld" "lk_pc s 1 = RWait 0" using lock_demo by blast
  with lock_word_meaning [OF s(1)] show ?thesis by auto
qed

end
