(* ===== verification/Tx_Locks.thy ===== *)
theory Tx_Locks
  imports Rw_Lock "HOL-Library.AList"
begin

text \<open>
  \<open>StripedLock\<close> (\<open>src/lock.h\<close>), which maps addresses to lock words, and \<open>TransactionImpl::Locks\<close>
  (\<open>src/transaction.cc\<close>), the table of stripes a transaction holds. A lock call is taken as a whole
  here (\<open>read_lock\<close>, \<open>write_lock\<close>, \<open>upgrade_write_lock\<close> of \<open>Rw_Lock\<close>), transactions interleave
  their calls. The contract of the lock word the table relies on is the locale \<open>lock_word\<close>, which the
  lock of \<open>Rw_Lock\<close> satisfies.
\<close>

section \<open>Striped locks\<close>

fun floor_log2 :: "nat \<Rightarrow> nat" where
  "floor_log2 n = (if n \<le> 1 then 0 else floor_log2 (n div 2) + 1)"

declare floor_log2.simps [simp del]

definition ceiling_log2 :: "u64 \<Rightarrow> nat" where
  "ceiling_log2 n =
     (if n AND (n - 1) = 0 then floor_log2 (unat n) else floor_log2 (unat (n - 1)) + 1)"

record striped_lock =
  sl_locks :: "u16 list"
  sl_maskbits :: u64
  sl_shift :: nat

definition new_striped_lock :: "nat \<Rightarrow> u64 \<Rightarrow> striped_lock" where
  "new_striped_lock tot_bytes stripe_width =
     \<lparr>sl_locks = replicate (tot_bytes div 2) 0,
      sl_maskbits = word_of_nat (tot_bytes div 2) - 1,
      sl_shift = ceiling_log2 stripe_width\<rparr>"

definition get_stripe_id :: "striped_lock \<Rightarrow> u64 \<Rightarrow> u64" where
  "get_stripe_id sl a = drop_bit (sl_shift sl) a AND sl_maskbits sl"

lemma floor_log2_bounds: "0 < n \<Longrightarrow> 2 ^ floor_log2 n \<le> n \<and> n < 2 ^ (floor_log2 n + 1)"
proof (induction n rule: floor_log2.induct)
  case (1 n)
  show ?case
  proof (cases "n \<le> 1")
    case True
    with 1(2) show ?thesis by (simp add: floor_log2.simps [of n])
  next
    case False
    then have "2 ^ floor_log2 (n div 2) \<le> n div 2 \<and> n div 2 < 2 ^ (floor_log2 (n div 2) + 1)"
      using 1(1) by simp
    moreover have "n div 2 * 2 \<le> n" "n < n div 2 * 2 + 2" by linarith+
    ultimately have "2 * 2 ^ floor_log2 (n div 2) \<le> n \<and> n < 4 * 2 ^ floor_log2 (n div 2)"
      by (simp, linarith)
    then show ?thesis using False by (simp add: floor_log2.simps [of n])
  qed
qed

lemma floor_log2_unique: "2 ^ k \<le> n \<Longrightarrow> n < 2 ^ (k + 1) \<Longrightarrow> floor_log2 n = k"
proof -
  assume a: "2 ^ k \<le> n" "n < 2 ^ (k + 1)"
  then have "0 < n" by (metis gr0I not_numeral_le_zero power_eq_0_iff le_zero_eq zero_neq_numeral)
  note b = floor_log2_bounds [OF this]
  have "(2::nat) ^ k < 2 ^ (floor_log2 n + 1)" "(2::nat) ^ floor_log2 n < 2 ^ (k + 1)"
    using a b by linarith+
  then have "k < floor_log2 n + 1" "floor_log2 n < k + 1"
    by (simp_all only: power_strict_increasing_iff one_less_numeral_iff semiring_norm)
  then show ?thesis by simp
qed

text \<open>\<open>n AND (n - 1)\<close> is zero exactly for powers of two (and 0).\<close>

lemma top_bit:
  fixes w :: u64
  assumes "2 ^ h \<le> unat w" "unat w < 2 ^ (h + 1)"
  shows "bit w h"
proof -
  have "unat w div 2 ^ h = 1"
    using assms by (intro div_nat_eqI) simp_all
  then have "bit (unat w) h" by (simp add: bit_iff_odd)
  then show ?thesis by (simp add: bit_unsigned_iff)
qed

lemma and_pred_zero:
  fixes n :: u64
  assumes "n \<noteq> 0"
  shows "n AND (n - 1) = 0 \<longleftrightarrow> unat n = 2 ^ floor_log2 (unat n)"
proof
  let ?h = "floor_log2 (unat n)"
  have "0 < unat n" using assms by (simp add: unat_gt_0)
  note b = floor_log2_bounds [OF this]
  have pred: "unat (n - 1) = unat n - 1" using assms by (metis unat_minus_one)
  show "unat n = 2 ^ ?h" if "n AND (n - 1) = 0"
  proof (rule ccontr)
    assume "unat n \<noteq> 2 ^ ?h"
    then have "bit (n - 1) ?h" using b pred by (intro top_bit) auto
    moreover have "bit n ?h" using b by (intro top_bit) auto
    ultimately have "bit (n AND (n - 1)) ?h" by (simp add: bit_and_iff)
    with that show False by simp
  qed
  show "n AND (n - 1) = 0" if h: "unat n = 2 ^ ?h"
  proof -
    have n: "n = 2 ^ ?h" using arg_cong [OF h, of "word_of_nat :: nat \<Rightarrow> u64"] by simp
    have "take_bit ?h (2 ^ ?h :: u64) = 0"
      by (rule bit_word_eqI) (auto simp: bit_take_bit_iff bit_exp_iff)
    then have "n AND mask ?h = 0" by (metis n take_bit_eq_mask)
    then show ?thesis using n by (metis mask_eq_exp_minus_1)
  qed
qed

lemma ceiling_log2_bounds:
  assumes "0 < n"
  shows "unat n \<le> 2 ^ ceiling_log2 n \<and> (1 < n \<longrightarrow> 2 ^ (ceiling_log2 n - 1) < unat n)"
proof -
  have n: "0 < unat n" "n \<noteq> 0" using assms by (auto simp: unat_gt_0)
  have pred: "unat (n - 1) = unat n - 1" using n(2) by (metis unat_minus_one)
  show ?thesis
  proof (cases "n AND (n - 1) = 0")
    case True
    then have c: "ceiling_log2 n = floor_log2 (unat n)" "unat n = 2 ^ floor_log2 (unat n)"
      using and_pred_zero [OF n(2)] by (simp_all add: ceiling_log2_def)
    have "2 ^ (floor_log2 (unat n) - 1) < unat n" if "1 < n"
    proof -
      have "1 < unat n" using that by (simp add: word_less_nat_alt)
      then have "floor_log2 (unat n) \<noteq> 0" using c(2) by (metis less_irrefl power_0)
      then have "(2::nat) ^ (floor_log2 (unat n) - 1) < 2 ^ floor_log2 (unat n)" by simp
      then show ?thesis using c(2) by simp
    qed
    with c show ?thesis by simp
  next
    case False
    then have "n \<noteq> 1" by auto
    then have "unat n \<noteq> 1" using word_unat_eq_iff [of n 1] by simp
    then have "0 < unat (n - 1)" using n(1) pred by simp
    note b = floor_log2_bounds [OF this]
    have c: "ceiling_log2 n = floor_log2 (unat (n - 1)) + 1" using False by (simp add: ceiling_log2_def)
    show ?thesis unfolding c using b pred n(1) by auto
  qed
qed

text \<open>A striped lock of \<open>2 ^ k\<close> bytes (\<open>k > 0\<close>) finds, for every address, an index inside its
  vector of locks; \<open>ceiling_log2\<close> rounds the stripe width up to the next power of two, and addresses
  in one block of that size share their lock.\<close>

theorem stripe_id_bounds:
  assumes "tot_bytes = 2 ^ k" and "0 < k" and "k \<le> 64" and "0 < width"
  defines "sl \<equiv> new_striped_lock tot_bytes width"
  shows "unat (get_stripe_id sl a) < length (sl_locks sl) \<and>
     unat width \<le> 2 ^ sl_shift sl \<and> (1 < width \<longrightarrow> 2 ^ (sl_shift sl - 1) < unat width) \<and>
     (unat a div 2 ^ sl_shift sl = unat b div 2 ^ sl_shift sl \<longrightarrow> get_stripe_id sl a = get_stripe_id sl b)"
proof -
  have len: "tot_bytes div 2 = 2 ^ (k - 1)" using assms(1,2) by (cases k) simp_all
  have mask: "sl_maskbits sl = mask (k - 1)"
    by (simp add: sl_def new_striped_lock_def len mask_eq_exp_minus_1)
  have id: "get_stripe_id sl a = take_bit (k - 1) (drop_bit (sl_shift sl) a)" for a
    by (simp add: get_stripe_id_def mask take_bit_eq_mask)
  have "unat (get_stripe_id sl a) < 2 ^ (k - 1)"
    unfolding id unsigned_take_bit_eq by simp
  moreover have "length (sl_locks sl) = 2 ^ (k - 1)" by (simp add: sl_def new_striped_lock_def len)
  moreover have "get_stripe_id sl a = get_stripe_id sl b"
    if "unat a div 2 ^ sl_shift sl = unat b div 2 ^ sl_shift sl"
  proof -
    have "unat (drop_bit (sl_shift sl) a) = unat (drop_bit (sl_shift sl) b)"
      using that unfolding unat_drop_bit_eq by (simp only: drop_bit_eq_div)
    then have "drop_bit (sl_shift sl) a = drop_bit (sl_shift sl) b" by (simp only: word_unat_eq_iff)
    then show ?thesis by (simp add: id)
  qed
  moreover have "unat width \<le> 2 ^ sl_shift sl \<and> (1 < width \<longrightarrow> 2 ^ (sl_shift sl - 1) < unat width)"
    using ceiling_log2_bounds [OF assms(4)] by (simp add: sl_def new_striped_lock_def)
  ultimately show ?thesis by simp
qed

theorem stripe_id_bounds_witness:
  "unat (get_stripe_id (new_striped_lock (2 ^ 10) 64) 0xdeadbeef) < 512"
  using stripe_id_bounds [of "2 ^ 10" 10 64 "0xdeadbeef" 0] by (simp add: new_striped_lock_def)

section \<open>The locks a transaction holds\<close>

text \<open>
  \<open>TransactionImpl::Locks\<close>: \<open>mylocks\<close> as an association list from stripe to state, \<open>words\<close> the
  vector of the main lock. The lock functions are arguments, so that the table can be
  reasoned about from their contract; \<open>tx_acquire_lock\<close> and \<open>tx_unlock_all\<close> are the code's.
\<close>

datatype lock_state = LockNotFound | ReadLock | WriteLock

type_synonym lock_map = "(u64 \<times> lock_state) list"

definition acquire_lock ::
    "('w \<Rightarrow> 'w result) \<Rightarrow> ('w \<Rightarrow> 'w result) \<Rightarrow> ('w \<Rightarrow> 'w result) \<Rightarrow> u64 \<Rightarrow> bool \<Rightarrow>
     lock_map \<times> (u64 \<Rightarrow> 'w) \<Rightarrow> lock_state result \<times> (lock_map \<times> (u64 \<Rightarrow> 'w))" where
  "acquire_lock rd wr upg stripeid write mw =
     (case mw of (my, words) \<Rightarrow>
       (case map_of my stripeid of
          Some st \<Rightarrow>
            if write \<and> st \<noteq> WriteLock then
              (case upg (words stripeid) of
                 Inl e \<Rightarrow> (Inl e, (my, words))
               | Inr w \<Rightarrow> (Inr ReadLock, (AList.update stripeid WriteLock my, words(stripeid := w))))
            else (Inr st, (my, words))
        | None \<Rightarrow>
            (let my' = AList.update stripeid LockNotFound my in
             case (if write then wr else rd) (words stripeid) of
               Inl e \<Rightarrow> (Inl e, (my', words))
             | Inr w \<Rightarrow> (Inr LockNotFound,
                 (AList.update stripeid (if write then WriteLock else ReadLock) my', words(stripeid := w))))))"

fun release_locks :: "('w \<Rightarrow> 'w) \<Rightarrow> ('w \<Rightarrow> 'w) \<Rightarrow> lock_map \<Rightarrow> (u64 \<Rightarrow> 'w) \<Rightarrow> u64 \<Rightarrow> 'w" where
  "release_locks ru wu [] words = words"
| "release_locks ru wu ((sid, st) # my) words =
     release_locks ru wu my
       (case st of WriteLock \<Rightarrow> words(sid := wu (words sid))
                 | ReadLock \<Rightarrow> words(sid := ru (words sid))
                 | LockNotFound \<Rightarrow> words)"

definition unlock_all :: "('w \<Rightarrow> 'w) \<Rightarrow> ('w \<Rightarrow> 'w) \<Rightarrow> lock_map \<times> (u64 \<Rightarrow> 'w) \<Rightarrow> lock_map \<times> (u64 \<Rightarrow> 'w)" where
  "unlock_all ru wu mw = (case mw of (my, words) \<Rightarrow> ([], release_locks ru wu my words))"

definition tx_acquire_lock ::
    "striped_lock \<Rightarrow> u64 \<Rightarrow> bool \<Rightarrow> lock_map \<times> (u64 \<Rightarrow> u16) \<Rightarrow> lock_state result \<times> (lock_map \<times> (u64 \<Rightarrow> u16))" where
  "tx_acquire_lock sl a write mw =
     acquire_lock read_lock write_lock upgrade_write_lock (get_stripe_id sl a) write mw"

definition tx_unlock_all :: "lock_map \<times> (u64 \<Rightarrow> u16) \<Rightarrow> lock_map \<times> (u64 \<Rightarrow> u16)" where
  "tx_unlock_all mw = unlock_all read_unlock write_unlock mw"

section \<open>Interleaved transactions on a lock table\<close>

record 'w lock_sys =
  ls_words :: "u64 \<Rightarrow> 'w"
  ls_my :: "nat \<Rightarrow> lock_map"

text \<open>
  One whole call of a transaction. A stripe whose last acquisition timed out (an entry
  \<open>LockNotFound\<close>) is not asked for again before \<open>unlock_all\<close>.
\<close>

inductive ls_step ::
    "('w \<Rightarrow> 'w result) \<Rightarrow> ('w \<Rightarrow> 'w result) \<Rightarrow> ('w \<Rightarrow> 'w result) \<Rightarrow> ('w \<Rightarrow> 'w) \<Rightarrow> ('w \<Rightarrow> 'w) \<Rightarrow>
     nat \<Rightarrow> 'w lock_sys \<Rightarrow> 'w lock_sys \<Rightarrow> bool" for rd wr upg ru wu n where
  ls_acquire: "t < n \<Longrightarrow> map_of (ls_my s t) sid \<noteq> Some LockNotFound \<Longrightarrow>
     acquire_lock rd wr upg sid wrt (ls_my s t, ls_words s) = (r, (my, words)) \<Longrightarrow>
     ls_step rd wr upg ru wu n s (s\<lparr>ls_words := words, ls_my := (ls_my s)(t := my)\<rparr>)"
| ls_release: "t < n \<Longrightarrow> unlock_all ru wu (ls_my s t, ls_words s) = (my, words) \<Longrightarrow>
     ls_step rd wr upg ru wu n s (s\<lparr>ls_words := words, ls_my := (ls_my s)(t := my)\<rparr>)"

inductive ls_reach ::
    "('w \<Rightarrow> 'w result) \<Rightarrow> ('w \<Rightarrow> 'w result) \<Rightarrow> ('w \<Rightarrow> 'w result) \<Rightarrow> ('w \<Rightarrow> 'w) \<Rightarrow> ('w \<Rightarrow> 'w) \<Rightarrow>
     'w \<Rightarrow> nat \<Rightarrow> 'w lock_sys \<Rightarrow> bool" for rd wr upg ru wu w0 n where
  ls_init: "ls_reach rd wr upg ru wu w0 n \<lparr>ls_words = (\<lambda>_. w0), ls_my = (\<lambda>_. [])\<rparr>"
| ls_next: "ls_reach rd wr upg ru wu w0 n s \<Longrightarrow> ls_step rd wr upg ru wu n s s' \<Longrightarrow>
     ls_reach rd wr upg ru wu w0 n s'"

definition ls_readers :: "nat \<Rightarrow> 'w lock_sys \<Rightarrow> u64 \<Rightarrow> nat set" where
  "ls_readers n s sid = {t. t < n \<and> map_of (ls_my s t) sid = Some ReadLock}"

definition ls_writers :: "nat \<Rightarrow> 'w lock_sys \<Rightarrow> u64 \<Rightarrow> nat set" where
  "ls_writers n s sid = {t. t < n \<and> map_of (ls_my s t) sid = Some WriteLock}"

lemma ls_sets_upd:
  assumes "t < n"
  shows "ls_readers n (s\<lparr>ls_words := ws, ls_my := (ls_my s)(t := my)\<rparr>) sid =
      (if map_of my sid = Some ReadLock then insert t (ls_readers n s sid) else ls_readers n s sid - {t})"
    and "ls_writers n (s\<lparr>ls_words := ws, ls_my := (ls_my s)(t := my)\<rparr>) sid =
      (if map_of my sid = Some WriteLock then insert t (ls_writers n s sid) else ls_writers n s sid - {t})"
  using assms by (auto simp: ls_readers_def ls_writers_def)

lemma ls_sets_mem:
  assumes "t < n"
  shows "t \<in> ls_readers n s sid \<longleftrightarrow> map_of (ls_my s t) sid = Some ReadLock"
    and "t \<in> ls_writers n s sid \<longleftrightarrow> map_of (ls_my s t) sid = Some WriteLock"
  using assms by (auto simp: ls_readers_def ls_writers_def)

lemma ls_sets_finite [simp]: "finite (ls_readers n s sid)" "finite (ls_writers n s sid)"
  by (simp_all add: ls_readers_def ls_writers_def)

lemma ls_readers_card: "card (ls_readers n s sid) \<le> n"
  using card_mono [of "{..<n}" "ls_readers n s sid"] by (auto simp: ls_readers_def)

lemma ls_readers_card_less: "t < n \<Longrightarrow> t \<notin> ls_readers n s sid \<Longrightarrow> card (ls_readers n s sid) < n"
  using psubset_card_mono [of "{..<n}" "ls_readers n s sid"] by (auto simp: ls_readers_def)

lemma release_locks_apply:
  "distinct (map fst my) \<Longrightarrow> release_locks ru wu my words sid =
     (case map_of my sid of Some WriteLock \<Rightarrow> wu (words sid) | Some ReadLock \<Rightarrow> ru (words sid) | _ \<Rightarrow> words sid)"
proof (induction my arbitrary: words)
  case (Cons kv my)
  obtain k st where kv: "kv = (k, st)" by fastforce
  have "map_of my k = None" using Cons.prems kv by (simp add: map_of_eq_None_iff)
  then show ?case using Cons
    by (cases "sid = k") (auto simp: kv split: lock_state.splits option.splits)
qed simp

section \<open>The contract of a lock word\<close>

text \<open>
  \<open>repr c b\<close> is the word with \<open>c\<close> readers and writer flag \<open>b\<close>, \<open>cap\<close> the number of readers it can
  hold.
\<close>

locale lock_word =
  fixes rd wr upg :: "'w \<Rightarrow> 'w result" and ru wu :: "'w \<Rightarrow> 'w"
    and repr :: "nat \<Rightarrow> bool \<Rightarrow> 'w" and cap :: nat
  assumes rd_law: "c < cap \<Longrightarrow> rd (repr c b) = (if b then Inl LockTimeout else Inr (repr (Suc c) False))"
    and wr_law: "c < cap \<Longrightarrow> wr (repr c b) = (if b \<or> c \<noteq> 0 then Inl LockTimeout else Inr (repr 0 True))"
    and upg_law: "c < cap \<Longrightarrow> upg (repr (Suc c) b) = (if b \<or> c \<noteq> 0 then Inl LockTimeout else Inr (repr 0 True))"
    and ru_law: "c < cap \<Longrightarrow> ru (repr (Suc c) b) = repr c b"
    and wu_law: "c < cap \<Longrightarrow> wu (repr c b) = repr c False"
begin

definition stripe_ok :: "'w \<Rightarrow> nat set \<Rightarrow> nat set \<Rightarrow> bool" where
  "stripe_ok w R W \<longleftrightarrow> w = repr (card R) (W \<noteq> {}) \<and> (W = {} \<or> (R = {} \<and> card W = 1))"

definition ls_inv :: "nat \<Rightarrow> 'w lock_sys \<Rightarrow> bool" where
  "ls_inv n s \<longleftrightarrow>
     (\<forall>sid. stripe_ok (ls_words s sid) (ls_readers n s sid) (ls_writers n s sid)) \<and>
     (\<forall>t. distinct (map fst (ls_my s t)))"

lemma ls_inv_move:
  assumes inv: "ls_inv n s" and t: "t < n" and d: "distinct (map fst my)"
    and rest: "\<And>k. k \<noteq> sid \<Longrightarrow> map_of my k = map_of (ls_my s t) k \<and> ws k = ls_words s k"
    and here: "stripe_ok (ws sid)
      (if map_of my sid = Some ReadLock then insert t (ls_readers n s sid) else ls_readers n s sid - {t})
      (if map_of my sid = Some WriteLock then insert t (ls_writers n s sid) else ls_writers n s sid - {t})"
  shows "ls_inv n (s\<lparr>ls_words := ws, ls_my := (ls_my s)(t := my)\<rparr>)" (is "ls_inv n ?s")
proof -
  have "stripe_ok (ls_words ?s k) (ls_readers n ?s k) (ls_writers n ?s k)" for k
  proof (cases "k = sid")
    case True
    have e: "ls_words ?s sid = ws sid" by simp
    show ?thesis unfolding True e ls_sets_upd [OF t] by (rule here)
  next
    case False
    have "ls_readers n ?s k = ls_readers n s k" "ls_writers n ?s k = ls_writers n s k"
      using rest [OF False] ls_sets_mem [OF t, of s k] unfolding ls_sets_upd [OF t] by auto
    moreover have "stripe_ok (ls_words s k) (ls_readers n s k) (ls_writers n s k)"
      using inv by (simp add: ls_inv_def)
    ultimately show ?thesis using rest [OF False] by simp
  qed
  moreover have "\<forall>u. distinct (map fst (ls_my ?s u))" using inv d by (simp add: ls_inv_def)
  ultimately show ?thesis by (simp add: ls_inv_def)
qed

lemma ls_inv_acquire:
  assumes inv: "ls_inv n s" and t: "t < n" and cap: "n \<le> cap"
    and nf: "map_of (ls_my s t) sid \<noteq> Some LockNotFound"
    and acq: "acquire_lock rd wr upg sid write (ls_my s t, ls_words s) = (r, (my, ws))"
  shows "ls_inv n (s\<lparr>ls_words := ws, ls_my := (ls_my s)(t := my)\<rparr>)"
proof -
  let ?R = "ls_readers n s sid" and ?W = "ls_writers n s sid"
  have ok: "stripe_ok (ls_words s sid) ?R ?W" and d: "distinct (map fst (ls_my s t))"
    using inv by (auto simp: ls_inv_def)
  note mem = ls_sets_mem [OF t, of s sid]
  show ?thesis
  proof (cases "map_of (ls_my s t) sid")
    case None
    then have nin: "t \<notin> ?R" "t \<notin> ?W" using mem by auto
    have c: "card ?R < cap" using ls_readers_card_less [OF t nin(1)] cap by simp
    define my0 where "my0 = AList.update sid LockNotFound (ls_my s t)"
    have d0: "distinct (map fst my0)" using d by (simp add: my0_def distinct_update)
    show ?thesis
    proof (cases "(if write then wr else rd) (ls_words s sid)")
      case (Inl e)
      then have "my = my0" "ws = ls_words s" using acq None by (auto simp: acquire_lock_def my0_def Let_def)
      moreover have "distinct (map fst my)" using d0 calculation(1) by simp
      ultimately show ?thesis
        using ok nin by (intro ls_inv_move [OF inv t, of my sid]) (auto simp: my0_def update_conv')
    next
      case (Inr w)
      then have my: "my = AList.update sid (if write then WriteLock else ReadLock) my0"
        and ws: "ws = (ls_words s)(sid := w)"
        using acq None by (auto simp: acquire_lock_def my0_def Let_def)
      have w: "\<not> write \<Longrightarrow> ?W = {} \<and> w = repr (Suc (card ?R)) False"
        "write \<Longrightarrow> ?R = {} \<and> ?W = {} \<and> w = repr 0 True"
        using Inr ok rd_law [OF c] wr_law [OF c] by (auto simp: stripe_ok_def split: if_splits)
      have "distinct (map fst my)" using d0 by (simp add: my distinct_update)
      then show ?thesis
        using w nin by (intro ls_inv_move [OF inv t, of my sid])
          (auto simp: my my0_def ws update_conv' stripe_ok_def)
    qed
  next
    case (Some st)
    show ?thesis
    proof (cases "write \<and> st = ReadLock")
      case True
      then have tin: "t \<in> ?R" using Some mem by simp
      then obtain c where c: "card ?R = Suc c" by (metis card_Suc_Diff1 ls_sets_finite(1))
      have cc: "c < cap" using ls_readers_card [of n s sid] c cap by simp
      have W: "?W = {}" using ok tin by (auto simp: stripe_ok_def)
      then have word: "ls_words s sid = repr (Suc c) False" using ok c by (simp add: stripe_ok_def)
      show ?thesis
      proof (cases "upg (ls_words s sid)")
        case (Inl e)
        then have "my = ls_my s t" "ws = ls_words s" using acq Some True by (auto simp: acquire_lock_def)
        then show ?thesis using inv by simp
      next
        case (Inr w)
        then have my: "my = AList.update sid WriteLock (ls_my s t)" and ws: "ws = (ls_words s)(sid := w)"
          using acq Some True by (auto simp: acquire_lock_def)
        have "c = 0" "w = repr 0 True" using Inr word upg_law [OF cc, of False] by (auto split: if_splits)
        have "card ?R = 1" using c \<open>c = 0\<close> by simp
        then have R: "?R = {t}" using tin by (metis card_1_singletonE singletonD)
        show ?thesis
          using R W \<open>w = _\<close> d by (intro ls_inv_move [OF inv t, of my sid])
            (auto simp: my ws update_conv' stripe_ok_def distinct_update)
      qed
    next
      case False
      then have "my = ls_my s t" "ws = ls_words s" using acq Some nf by (cases st; auto simp: acquire_lock_def)+
      then show ?thesis using inv by simp
    qed
  qed
qed

lemma ls_inv_release:
  assumes inv: "ls_inv n s" and t: "t < n" and cap: "n \<le> cap"
    and rel: "unlock_all ru wu (ls_my s t, ls_words s) = (my, ws)"
  shows "ls_inv n (s\<lparr>ls_words := ws, ls_my := (ls_my s)(t := my)\<rparr>)" (is "ls_inv n ?s")
proof -
  have d: "distinct (map fst (ls_my s t))" using inv by (simp add: ls_inv_def)
  have my: "my = []" and ws: "\<And>k. ws k = (case map_of (ls_my s t) k of Some WriteLock \<Rightarrow> wu (ls_words s k)
      | Some ReadLock \<Rightarrow> ru (ls_words s k) | _ \<Rightarrow> ls_words s k)"
    using rel release_locks_apply [OF d] by (auto simp: unlock_all_def)
  have "stripe_ok (ws k) (ls_readers n s k - {t}) (ls_writers n s k - {t})" for k
  proof -
    have ok: "stripe_ok (ls_words s k) (ls_readers n s k) (ls_writers n s k)" using inv by (simp add: ls_inv_def)
    note mem = ls_sets_mem [OF t, of s k]
    consider (w) "map_of (ls_my s t) k = Some WriteLock" | (r) "map_of (ls_my s t) k = Some ReadLock"
      | (n) "map_of (ls_my s t) k \<noteq> Some WriteLock" "map_of (ls_my s t) k \<noteq> Some ReadLock" by blast
    then show ?thesis
    proof cases
      case w
      then have "t \<in> ls_writers n s k" using mem by simp
      moreover have "is_singleton (ls_writers n s k)"
        using ok calculation by (auto simp: stripe_ok_def is_singleton_altdef)
      ultimately have "ls_writers n s k = {t}" "ls_readers n s k = {}"
        using ok by (auto simp: stripe_ok_def is_singleton_def)
      then show ?thesis using ok ws [of k] w wu_law [of 0 True] t cap by (simp add: stripe_ok_def)
    next
      case r
      then have tin: "t \<in> ls_readers n s k" using mem by simp
      then obtain c where c: "card (ls_readers n s k) = Suc c" by (metis card_Suc_Diff1 ls_sets_finite(1))
      then have "card (ls_readers n s k - {t}) = c" "c < cap" using tin ls_readers_card [of n s k] cap by simp_all
      then show ?thesis using ok ws [of k] r c tin ru_law [of c False] by (auto simp: stripe_ok_def)
    next
      case n
      then have "ws k = ls_words s k" using ws [of k] by (auto split: option.splits lock_state.splits)
      then show ?thesis using ok n mem by simp
    qed
  qed
  then show ?thesis using inv unfolding ls_inv_def ls_sets_upd [OF t] by (simp add: my)
qed

lemma ls_reach_inv: "ls_reach rd wr upg ru wu (repr 0 False) n s \<Longrightarrow> n \<le> cap \<Longrightarrow> ls_inv n s"
proof (induction rule: ls_reach.induct)
  case ls_init
  then show ?case by (simp add: ls_inv_def stripe_ok_def ls_readers_def ls_writers_def)
next
  case (ls_next s s')
  from ls_next(2) show ?case
  proof (cases rule: ls_step.cases)
    case (ls_acquire t sid wrt r my words)
    then show ?thesis using ls_inv_acquire ls_next by blast
  next
    case (ls_release t my words)
    then show ?thesis using ls_inv_release ls_next by blast
  qed
qed

end

section \<open>The contract holds\<close>

interpretation lw: lock_word read_lock write_lock upgrade_write_lock read_unlock write_unlock enc "0x7fff"
proof
  fix c :: nat and b assume c: "c < 0x7fff"
  have rc: "unat (reader_count (enc k b)) = k" if "k < 0x8000" for k
    using that by (simp add: unat_reader_count unat_enc)
  have small: "reader_count (enc c b) = 0 \<longleftrightarrow> c = 0" "reader_count (enc (Suc c) b) > 1 \<longleftrightarrow> c \<noteq> 0"
    using rc [of c] rc [of "Suc c"] c by (simp_all add: word_unat_eq_iff word_less_nat_alt)
  show "read_lock (enc c b) = (if b then Inl LockTimeout else Inr (enc (Suc c) False))"
    using c by (simp add: read_lock_def enc_locked enc_inc)
  show "write_lock (enc c b) = (if b \<or> c \<noteq> 0 then Inl LockTimeout else Inr (enc 0 True))"
    using c small(1) by (auto simp: write_lock_def enc_locked enc_or)
  show "upgrade_write_lock (enc (Suc c) b) = (if b \<or> c \<noteq> 0 then Inl LockTimeout else Inr (enc 0 True))"
    using c small(2) by (auto simp: upgrade_write_lock_def enc_locked enc_or enc_dec)
  show "read_unlock (enc (Suc c) b) = enc c b" by (simp add: read_unlock_def enc_dec)
  show "write_unlock (enc c b) = enc c False" using c by (simp add: write_unlock_def enc_and)
qed

section \<open>Properties\<close>

text \<open>C25. The lock table: for up to \<open>2 ^ 15 - 1\<close> transactions, in any order of their
  \<open>acquire_lock\<close> and \<open>unlock_all\<close> calls, where no transaction asks again for a stripe whose
  acquisition timed out (\<open>retry_after_timeout_breaks\<close> shows what happens then): a stripe that the table of
  one transaction says is write-locked is held by no other, and its lock word is \<open>WRITE_LOCK\<close>.\<close>

theorem lock_table_exclusion:
  assumes "ls_reach read_lock write_lock upgrade_write_lock read_unlock write_unlock 0 n s"
    and "n \<le> 0x7fff" and "t < n" and "u < n" and "u \<noteq> t" and "map_of (ls_my s t) sid = Some WriteLock"
  shows "map_of (ls_my s u) sid \<notin> {Some ReadLock, Some WriteLock} \<and> ls_words s sid = WRITE_LOCK"
proof -
  have "ls_reach read_lock write_lock upgrade_write_lock read_unlock write_unlock (enc 0 False) n s"
    using assms(1) by (simp add: enc_def)
  from lw.ls_reach_inv [OF this assms(2)]
  have ok: "lw.stripe_ok (ls_words s sid) (ls_readers n s sid) (ls_writers n s sid)"
    by (simp add: lw.ls_inv_def)
  have t: "t \<in> ls_writers n s sid" using ls_sets_mem(2) [OF assms(3), of s sid] assms(6) by simp
  then have R: "ls_readers n s sid = {}" and W: "card (ls_writers n s sid) = 1"
    using ok by (auto simp: lw.stripe_ok_def)
  have "u \<notin> ls_writers n s sid" using W t assms(5) by (metis card_1_singletonE singletonD)
  moreover have "u \<notin> ls_readers n s sid" using R by simp
  moreover have "ls_words s sid = WRITE_LOCK"
    using ok R t by (auto simp: lw.stripe_ok_def enc_def WRITE_LOCK_eq)
  ultimately show ?thesis using ls_sets_mem [OF assms(4), of s sid] by simp
qed

lemma ls_demo:
  "\<exists>s. ls_reach read_lock write_lock upgrade_write_lock read_unlock write_unlock 0 2 s \<and>
     ls_my s 0 = [(7, WriteLock)] \<and> ls_my s 1 = [(7, LockNotFound)]"
proof -
  let ?s0 = "\<lparr>ls_words = (\<lambda>_. 0), ls_my = (\<lambda>_. [])\<rparr> :: u16 lock_sys"
  define s1 where "s1 = ?s0\<lparr>ls_words := (\<lambda>_. 0)(7 := 0 OR WRITE_LOCK), ls_my := (ls_my ?s0)(0 := [(7, WriteLock)])\<rparr>"
  define s2 where "s2 = s1\<lparr>ls_words := ls_words s1, ls_my := (ls_my s1)(1 := [(7, LockNotFound)])\<rparr>"
  have w: "\<not> is_write_locked 0" "reader_count 0 = 0" by (simp_all add: is_write_locked_def reader_count_def)
  have "ls_step read_lock write_lock upgrade_write_lock read_unlock write_unlock 2 ?s0 s1"
    unfolding s1_def
    by (rule ls_acquire [where sid = 7 and wrt = True and r = "Inr LockNotFound"])
      (simp_all add: acquire_lock_def write_lock_def w)
  moreover have "ls_step read_lock write_lock upgrade_write_lock read_unlock write_unlock 2 s1 s2"
    unfolding s2_def
    by (rule ls_acquire [where sid = 7 and wrt = False and r = "Inl LockTimeout"])
      (simp_all add: acquire_lock_def read_lock_def s1_def locked_or [of 0, simplified])
  ultimately have "ls_reach read_lock write_lock upgrade_write_lock read_unlock write_unlock 0 2 s2"
    using ls_init ls_next by metis
  then show ?thesis by (intro exI [of _ s2]) (simp add: s2_def s1_def)
qed

theorem lock_table_exclusion_witness:
  "\<exists>s. ls_reach read_lock write_lock upgrade_write_lock read_unlock write_unlock 0 2 s \<and>
     map_of (ls_my s 0) 7 = Some WriteLock \<and> map_of (ls_my s 1) 7 \<noteq> Some ReadLock \<and> ls_words s 7 = WRITE_LOCK"
proof -
  obtain s where s: "ls_reach read_lock write_lock upgrade_write_lock read_unlock write_unlock 0 2 s"
    "ls_my s 0 = [(7, WriteLock)]" "ls_my s 1 = [(7, LockNotFound)]" using ls_demo by blast
  with lock_table_exclusion [OF s(1), of 0 1 7] show ?thesis by auto
qed

text \<open>Asking again after a time-out breaks mutual exclusion: a failed acquisition leaves an entry
  \<open>LockNotFound\<close> behind, so the next write request of the same transaction takes the upgrade path
  and succeeds while another transaction holds a read lock, whose count it has eaten; and the next read
  request returns without taking any lock.\<close>

theorem retry_after_timeout_breaks:
  "\<exists>my1 words1 my2 words2 my3 words3.
     acquire_lock read_lock write_lock upgrade_write_lock sid False ([], \<lambda>_. 0) = (Inr LockNotFound, (my1, words1)) \<and>
     acquire_lock read_lock write_lock upgrade_write_lock sid True ([], words1) = (Inl LockTimeout, (my2, words2)) \<and>
     acquire_lock read_lock write_lock upgrade_write_lock sid True (my2, words2) = (Inr ReadLock, (my3, words3)) \<and>
     acquire_lock read_lock write_lock upgrade_write_lock sid False (my2, words2) = (Inr LockNotFound, (my2, words2)) \<and>
     map_of my1 sid = Some ReadLock \<and> map_of my3 sid = Some WriteLock \<and> words3 sid = WRITE_LOCK"
proof -
  have w: "\<not> is_write_locked 0" "\<not> is_write_locked 1" "reader_count 1 = 1" "1 OR WRITE_LOCK = WRITE_LOCK + 1"
    by (simp_all add: is_write_locked_def reader_count_def WRITE_LOCK_eq LOCK_READER_MASK_def)
  show ?thesis
    by (simp add: acquire_lock_def read_lock_def write_lock_def upgrade_write_lock_def w READER_INCR_def
        update_conv')
qed

end
