(* ===== verification/String_Table.thy ===== *)
theory String_Table
  imports Transaction_Properties Tx_Locks "HOL-Library.Sublist"
begin

text \<open>
  The table of interned names (\<open>src/StringTable.cc\<close>, \<open>src/stringid.cc\<close>): an open-addressing hash
  table of fixed-size slots in persistent memory, with a 16-bit FNV-1a hash and linear probing. A name
  is the list of its bytes before the terminator. The probe loop does not end when the table is full,
  so it is a partial function whose value \<open>None\<close> is not returning. Theorems: an added name is found
  again under its id and read back, ids of other names stay; the probe ends exactly when some slot is
  empty or starts with the name; a name that starts another name can get that name's id.
\<close>

section \<open>The table\<close>

record string_table =
  st_max_len :: nat
  st_hash_bits :: nat
  st_base :: addr

definition bsr :: "nat \<Rightarrow> nat" where
  "bsr n = floor_log2 n"

definition string_table :: "addr \<Rightarrow> nat \<Rightarrow> nat \<Rightarrow> string_table" where
  "string_table region_addr len stringid_len =
     \<lparr>st_max_len = stringid_len, st_hash_bits = bsr (len div stringid_len), st_base = region_addr\<rparr>"

definition string_table_create :: "addr \<Rightarrow> nat \<Rightarrow> nat \<Rightarrow> pm \<Rightarrow> string_table \<times> pm" where
  "string_table_create region_addr len stringid_len s =
     (string_table region_addr len stringid_len,
      flush_range 0 region_addr len (store region_addr (replicate len 0) s))"

definition hash_mask :: "string_table \<Rightarrow> u32" where
  "hash_mask st = push_bit (st_hash_bits st) 1 - 1"

definition FNV_prime :: u32 where "FNV_prime = push_bit 24 1 + push_bit 8 1 + 0x93"
definition OFFSET_BASIS :: u32 where "OFFSET_BASIS = 2166136261"

fun fnv_loop :: "u8 list \<Rightarrow> u32 \<Rightarrow> u32" where
  "fnv_loop [] h = h"
| "fnv_loop (c # cs) h = fnv_loop cs ((h XOR ucast c) * FNV_prime)"

definition hash_fnv_1a :: "string_table \<Rightarrow> u8 list \<Rightarrow> u16 \<times> nat" where
  "hash_fnv_1a st name =
     (let h = fnv_loop name OFFSET_BASIS in
      (ucast ((drop_bit 16 h XOR h) AND hash_mask st), length name))"

definition slot_addr :: "string_table \<Rightarrow> u16 \<Rightarrow> addr" where
  "slot_addr st h = st_base st + unat h * st_max_len st"

text \<open>The comparison of four bytes at a time, then the remaining bytes; it reads \<open>length\<close> bytes.\<close>

definition name_match :: "mem \<Rightarrow> addr \<Rightarrow> u8 list \<Rightarrow> bool" where
  "name_match m dest name =
     (let l = length name mod 4; num_ints = length name div 4 in
      list_all (\<lambda>i. take 4 (drop (4 * i) name) = read_bytes m (dest + 4 * i) 4) [0..<num_ints] \<and>
      list_all (\<lambda>i. name ! (4 * num_ints + i) = m (dest + 4 * num_ints + i)) [0..<l])"

definition next_hash :: "string_table \<Rightarrow> u16 \<Rightarrow> u16" where
  "next_hash st h = ucast ((ucast h + 1) AND hash_mask st)"

partial_function (option) probe :: "string_table \<Rightarrow> mem \<Rightarrow> u8 list \<Rightarrow> u16 \<Rightarrow> (bool \<times> u16) option" where
  "probe st m name h =
     (let dest = slot_addr st h in
      if m dest = 0 then Some (False, h)
      else if name_match m dest name then Some (True, h)
      else probe st m name (next_hash st h))"

text \<open>\<open>get(name, id, add)\<close>: the outer \<open>None\<close> is a loop that does not end.\<close>

definition string_table_get ::
    "string_table \<Rightarrow> u8 list \<Rightarrow> bool \<Rightarrow> tx_impl \<times> pm \<Rightarrow> ((bool \<times> u16) result \<times> (tx_impl \<times> pm)) option" where
  "string_table_get st name add ts =
     (let (h, len) = hash_fnv_1a st name in
      if st_max_len st < len then Some (Inl InvalidID, ts)
      else case probe st (cache (snd ts)) name h of
          None \<Rightarrow> None
        | Some (True, i) \<Rightarrow> Some (Inr (True, i), ts)
        | Some (False, i) \<Rightarrow>
            if add then (if ti_rw (fst ts) then Some (Inr (False, i), tx_write_nolog (slot_addr st i) name ts)
                         else Some (Inl ReadOnly, ts))
            else Some (Inr (False, 0), ts))"

definition string_table_name :: "string_table \<Rightarrow> mem \<Rightarrow> u16 \<Rightarrow> u8 list" where
  "string_table_name st m i = takeWhile (\<lambda>b. b \<noteq> 0) (read_bytes m (slot_addr st i) (st_max_len st))"

text \<open>\<open>StringID::get\<close> and \<open>StringID::name\<close>; \<open>None\<close> for \<open>ts\<close> is a thread without a transaction.\<close>

definition stringid_get ::
    "string_table \<Rightarrow> u8 list \<Rightarrow> bool \<Rightarrow> (tx_impl \<times> pm) option \<Rightarrow>
     ((bool \<times> u16) result \<times> (tx_impl \<times> pm) option) option" where
  "stringid_get st s add tso =
     (if s = [] then Some (Inr (True, 0), tso)
      else case tso of None \<Rightarrow> Some (Inl NoTransaction, None)
        | Some ts \<Rightarrow> map_option (\<lambda>(r, ts'). (r, Some ts')) (string_table_get st s add ts))"

definition stringid_name :: "string_table \<Rightarrow> u16 \<Rightarrow> (tx_impl \<times> pm) option \<Rightarrow> u8 list result" where
  "stringid_name st i tso =
     (case tso of None \<Rightarrow> Inl NoTransaction | Some (t, s) \<Rightarrow> Inr (string_table_name st (cache s) i))"

section \<open>Hashes and slots\<close>

text \<open>A table of at most \<open>2 ^ 16\<close> slots whose region is zero-padded: what \<open>create\<close> and the asserts give.\<close>

definition st_ok :: "string_table \<Rightarrow> bool" where
  "st_ok st \<longleftrightarrow> st_hash_bits st \<le> 16 \<and> 0 < st_max_len st"

definition st_padded :: "string_table \<Rightarrow> mem \<Rightarrow> bool" where
  "st_padded st m \<longleftrightarrow> (\<forall>i. unat i < 2 ^ st_hash_bits st \<longrightarrow>
     (\<forall>k j. k \<le> j \<and> j < st_max_len st \<and> m (slot_addr st i + k) = 0 \<longrightarrow> m (slot_addr st i + j) = 0))"

definition name_ok :: "string_table \<Rightarrow> u8 list \<Rightarrow> bool" where
  "name_ok st name \<longleftrightarrow> name \<noteq> [] \<and> 0 \<notin> set name \<and> length name \<le> st_max_len st"

abbreviation hash_of :: "string_table \<Rightarrow> u8 list \<Rightarrow> u16" where
  "hash_of st name \<equiv> fst (hash_fnv_1a st name)"

definition stops :: "string_table \<Rightarrow> mem \<Rightarrow> u8 list \<Rightarrow> u16 \<Rightarrow> bool" where
  "stops st m name h \<longleftrightarrow> m (slot_addr st h) = 0 \<or> name_match m (slot_addr st h) name"

lemma split_range:
  "(a :: nat) \<le> n \<Longrightarrow> (\<forall>k<a. Q k) \<and> (\<forall>k. a \<le> k \<and> k < n \<longrightarrow> Q k) \<longleftrightarrow> (\<forall>k<n. Q k)"
  by (meson not_le less_le_trans)

lemma name_match_iff: "name_match m dest name \<longleftrightarrow> read_bytes m dest (length name) = name"
proof -
  define q where "q = length name div 4"
  define l where "l = length name mod 4"
  have len: "length name = 4 * q + l" "l < 4" by (simp_all add: q_def l_def)
  have "(\<forall>i<q. take 4 (drop (4 * i) name) = read_bytes m (dest + 4 * i) 4) \<longleftrightarrow>
      (\<forall>k<4 * q. name ! k = m (dest + k))" (is "?A \<longleftrightarrow> ?B")
  proof
    assume A: ?A
    show ?B
    proof (intro allI impI)
      fix k assume k: "k < 4 * q"
      then have i: "k div 4 < q" by linarith
      have "take 4 (drop (4 * (k div 4)) name) ! (k mod 4) = read_bytes m (dest + 4 * (k div 4)) 4 ! (k mod 4)"
        using A i by simp
      moreover have "4 * (k div 4) + k mod 4 = k" by simp
      moreover have "4 * (k div 4) + k mod 4 < length name" using len k by simp
      ultimately show "name ! k = m (dest + k)" by (simp add: add.assoc)
    qed
  next
    assume B: ?B
    show ?A
    proof (intro allI impI nth_equalityI)
      fix i assume i: "i < q"
      then show "length (take 4 (drop (4 * i) name)) = length (read_bytes m (dest + 4 * i) 4)"
        using len by simp
      fix k assume "k < length (take 4 (drop (4 * i) name))"
      then show "take 4 (drop (4 * i) name) ! k = read_bytes m (dest + 4 * i) 4 ! k"
        using B i len by (simp add: add.assoc)
    qed
  qed
  moreover have "(\<forall>i<l. name ! (4 * q + i) = m (dest + 4 * q + i)) \<longleftrightarrow>
      (\<forall>k. 4 * q \<le> k \<and> k < length name \<longrightarrow> name ! k = m (dest + k))"
    unfolding len(1) by (auto simp: le_iff_add add.assoc)
  moreover have "(\<forall>k<4 * q. name ! k = m (dest + k)) \<and>
      (\<forall>k. 4 * q \<le> k \<and> k < length name \<longrightarrow> name ! k = m (dest + k)) \<longleftrightarrow>
      (\<forall>k<length name. name ! k = m (dest + k))"
    by (rule split_range) (simp add: len(1))
  moreover have ball: "(\<forall>i\<in>set [0..<k]. P i) \<longleftrightarrow> (\<forall>i<k. P i)" for k and P :: "nat \<Rightarrow> bool" by auto
  have "name_match m dest name \<longleftrightarrow>
      (\<forall>i<q. take 4 (drop (4 * i) name) = read_bytes m (dest + 4 * i) 4) \<and>
      (\<forall>i<l. name ! (4 * q + i) = m (dest + 4 * q + i))"
    by (simp only: name_match_def Let_def list_all_iff q_def l_def ball)
  ultimately have "name_match m dest name \<longleftrightarrow> (\<forall>k<length name. name ! k = m (dest + k))"
    by (simp only:)
  also have "\<dots> \<longleftrightarrow> read_bytes m dest (length name) = name"
    by (auto simp: list_eq_iff_nth_eq)
  finally show ?thesis .
qed

section \<open>The probe loop\<close>

lemma probe_step:
  "probe st m name h =
     (if m (slot_addr st h) = 0 then Some (False, h)
      else if name_match m (slot_addr st h) name then Some (True, h)
      else probe st m name (next_hash st h))"
  by (subst probe.simps) (simp add: Let_def)

lemma unat_mask_u32: "n \<le> 16 \<Longrightarrow> push_bit n 1 - 1 = (mask n :: u32)"
  by (simp add: mask_eq_exp_minus_1)

lemma unat_next_hash:
  assumes "st_hash_bits st \<le> 16" "unat h < 2 ^ st_hash_bits st"
  shows "unat (next_hash st h) = (unat h + 1) mod 2 ^ st_hash_bits st"
proof -
  let ?b = "st_hash_bits st"
  have lt: "unat h < 2 ^ 16" using unsigned_less [of h] by simp
  then have h: "unat (ucast h :: u32) = unat h"
    by (simp add: unsigned_ucast_eq take_bit_nat_eq_self_iff)
  have "unat (ucast h + 1 :: u32) = unat h + 1"
    using lt h by (simp add: unat_word_ariths)
  then have "unat ((ucast h + 1 :: u32) AND hash_mask st) = (unat h + 1) mod 2 ^ ?b"
    unfolding hash_mask_def unat_mask_u32 [OF assms(1)] take_bit_eq_mask [symmetric]
    unfolding unsigned_take_bit_eq by (simp add: take_bit_eq_mod)
  moreover have "(unat h + 1) mod 2 ^ ?b < 2 ^ 16"
    using assms(1) by (metis less_le_trans mod_less_divisor zero_less_numeral power_increasing zero_less_power one_le_numeral)
  ultimately show ?thesis
    unfolding next_hash_def unsigned_ucast_eq by (simp add: take_bit_nat_eq_self_iff)
qed

lemma hash_bound: "st_hash_bits st \<le> 16 \<Longrightarrow> unat (hash_of st name) < 2 ^ st_hash_bits st"
proof -
  assume b: "st_hash_bits st \<le> 16"
  define x :: u32 where "x = (let h = fnv_loop name OFFSET_BASIS in drop_bit 16 h XOR h)"
  have "unat (x AND hash_mask st) = unat x mod 2 ^ st_hash_bits st"
    unfolding hash_mask_def unat_mask_u32 [OF b] take_bit_eq_mask [symmetric]
    unfolding unsigned_take_bit_eq by (simp add: take_bit_eq_mod)
  then have "unat (x AND hash_mask st) < 2 ^ st_hash_bits st" by simp
  moreover have "hash_of st name = ucast (x AND hash_mask st)"
    by (simp add: hash_fnv_1a_def x_def Let_def)
  moreover have "unat (ucast (x AND hash_mask st) :: u16) \<le> unat (x AND hash_mask st)"
    unfolding unsigned_ucast_eq by (rule take_bit_nat_less_eq_self)
  ultimately show ?thesis by simp
qed

text \<open>The slot \<open>d\<close> steps after \<open>h\<close>.\<close>

definition nth_slot :: "string_table \<Rightarrow> u16 \<Rightarrow> nat \<Rightarrow> u16" where
  "nth_slot st h d = (next_hash st ^^ d) h"

lemma unat_nth_slot:
  assumes "st_hash_bits st \<le> 16" "unat h < 2 ^ st_hash_bits st"
  shows "unat (nth_slot st h d) = (unat h + d) mod 2 ^ st_hash_bits st"
proof (induction d)
  case 0
  then show ?case using assms(2) by (simp add: nth_slot_def)
next
  case (Suc d)
  have "unat (nth_slot st h d) < 2 ^ st_hash_bits st" using Suc by simp
  from unat_next_hash [OF assms(1) this] Suc show ?case
    by (simp add: nth_slot_def mod_simps)
qed

lemma probe_skip:
  "\<forall>j<d. \<not> stops st m name (nth_slot st h j) \<Longrightarrow> probe st m name h = probe st m name (nth_slot st h d)"
proof (induction d)
  case 0
  then show ?case by (simp add: nth_slot_def)
next
  case (Suc d)
  then have "probe st m name h = probe st m name (nth_slot st h d)" by simp
  also have "\<dots> = probe st m name (next_hash st (nth_slot st h d))"
    using Suc.prems by (subst probe_step) (auto simp: stops_def)
  finally show ?case by (simp add: nth_slot_def)
qed

lemma probe_found:
  assumes "\<forall>j<d. \<not> stops st m name (nth_slot st h j)" "stops st m name (nth_slot st h d)"
  shows "probe st m name h = Some (m (slot_addr st (nth_slot st h d)) \<noteq> 0, nth_slot st h d)"
proof -
  have "probe st m name h = probe st m name (nth_slot st h d)" by (rule probe_skip [OF assms(1)])
  also have "\<dots> = Some (m (slot_addr st (nth_slot st h d)) \<noteq> 0, nth_slot st h d)"
    by (subst probe_step) (use assms(2) in \<open>auto simp: stops_def\<close>)
  finally show ?thesis .
qed

text \<open>When the loop ends, it ends at the first stop.\<close>

lemma nth_slot_Suc: "nth_slot st h (Suc d) = nth_slot st (next_hash st h) d"
  by (simp add: nth_slot_def funpow_swap1)

lemma probe_first_stop:
  assumes "probe st m name h = Some y"
  shows "\<exists>d. stops st m name (nth_slot st h d) \<and> (\<forall>j<d. \<not> stops st m name (nth_slot st h j)) \<and>
     y = (m (slot_addr st (nth_slot st h d)) \<noteq> 0, nth_slot st h d)"
proof (rule probe.raw_induct [OF _ assms])
  fix f :: "string_table \<Rightarrow> mem \<Rightarrow> u8 list \<Rightarrow> u16 \<Rightarrow> (bool \<times> u16) option" and st m name h y
  assume IH: "\<And>st m name h y. f st m name h = Some y \<Longrightarrow>
      \<exists>d. stops st m name (nth_slot st h d) \<and> (\<forall>j<d. \<not> stops st m name (nth_slot st h j)) \<and>
        y = (m (slot_addr st (nth_slot st h d)) \<noteq> 0, nth_slot st h d)"
    and body: "(let dest = slot_addr st h in
      if m dest = 0 then Some (False, h) else if name_match m dest name then Some (True, h)
      else f st m name (next_hash st h)) = Some y"
  show "\<exists>d. stops st m name (nth_slot st h d) \<and> (\<forall>j<d. \<not> stops st m name (nth_slot st h j)) \<and>
      y = (m (slot_addr st (nth_slot st h d)) \<noteq> 0, nth_slot st h d)"
  proof (cases "stops st m name h")
    case True
    then show ?thesis using body
      by (intro exI [of _ 0]) (auto simp: Let_def stops_def nth_slot_def split: if_splits)
  next
    case False
    then have "f st m name (next_hash st h) = Some y"
      using body by (auto simp: Let_def stops_def split: if_splits)
    from IH [OF this] obtain d where d: "stops st m name (nth_slot st h (Suc d))"
      "\<forall>j<d. \<not> stops st m name (nth_slot st h (Suc j))"
      "y = (m (slot_addr st (nth_slot st h (Suc d))) \<noteq> 0, nth_slot st h (Suc d))"
      by (auto simp: nth_slot_Suc)
    moreover have "nth_slot st h 0 = h" by (simp add: nth_slot_def)
    ultimately have "\<forall>j<Suc d. \<not> stops st m name (nth_slot st h j)"
      using False by (auto simp: less_Suc_eq_0_disj)
    with d show ?thesis by blast
  qed
qed

text \<open>The loop ends exactly when some slot of the table stops it.\<close>

lemma probe_ends_iff:
  assumes "st_hash_bits st \<le> 16" "unat h < 2 ^ st_hash_bits st"
  shows "probe st m name h \<noteq> None \<longleftrightarrow> (\<exists>k. unat k < 2 ^ st_hash_bits st \<and> stops st m name k)"
proof
  assume "probe st m name h \<noteq> None"
  then obtain y where "probe st m name h = Some y" by blast
  from probe_first_stop [OF this] unat_nth_slot [OF assms]
  show "\<exists>k. unat k < 2 ^ st_hash_bits st \<and> stops st m name k"
    by (metis mod_less_divisor zero_less_numeral zero_less_power)
next
  let ?n = "2 ^ st_hash_bits st"
  assume "\<exists>k. unat k < ?n \<and> stops st m name k"
  then obtain k where k: "unat k < ?n" "stops st m name k" by blast
  define d where "d = (unat k + ?n - unat h) mod ?n"
  have "unat (nth_slot st h d) = unat k"
  proof -
    have "(unat h + (unat k + ?n - unat h)) mod ?n = (unat k + ?n) mod ?n"
      using assms(2) by simp
    then show ?thesis using k(1) unat_nth_slot [OF assms, of d] by (simp add: d_def mod_simps)
  qed
  then have ex: "\<exists>d. stops st m name (nth_slot st h d)" using k(2) by (metis word_unat_eq_iff)
  define l where "l = (LEAST d. stops st m name (nth_slot st h d))"
  have "stops st m name (nth_slot st h l)" unfolding l_def by (rule LeastI_ex [OF ex])
  moreover have "\<forall>j<l. \<not> stops st m name (nth_slot st h j)"
    unfolding l_def using not_less_Least by blast
  ultimately show "probe st m name h \<noteq> None" using probe_found by blast
qed

section \<open>Writing a name\<close>

lemma slots_disjoint:
  assumes "unat i < 2 ^ st_hash_bits st" "unat k < 2 ^ st_hash_bits st" "i \<noteq> k"
    and "x < st_max_len st" "y < st_max_len st"
  shows "slot_addr st i + x \<noteq> slot_addr st k + y"
proof
  assume e: "slot_addr st i + x = slot_addr st k + y"
  let ?L = "st_max_len st"
  have "(unat i * ?L + x) div ?L = unat i" "(unat k * ?L + y) div ?L = unat k"
    using assms(4,5) by simp_all
  moreover have "unat i * ?L + x = unat k * ?L + y" using e by (simp add: slot_addr_def)
  ultimately have "unat i = unat k" by simp
  with assms(3) show False by (simp add: word_unat_eq_iff)
qed

lemma write_other_slot:
  assumes "unat i < 2 ^ st_hash_bits st" "unat k < 2 ^ st_hash_bits st" "i \<noteq> k"
    and "length name \<le> st_max_len st" "x < st_max_len st"
  shows "write_bytes m (slot_addr st i) name (slot_addr st k + x) = m (slot_addr st k + x)"
proof (rule write_bytes_out, rule ccontr)
  assume a: "\<not> (slot_addr st k + x < slot_addr st i \<or> slot_addr st i + length name \<le> slot_addr st k + x)"
  then obtain y where "slot_addr st k + x = slot_addr st i + y" "y < st_max_len st"
    using assms(4) by (metis add_less_cancel_left le_iff_add less_le_trans not_le)
  then show False using slots_disjoint [OF assms(1-3), of y x] assms(5) by simp
qed

lemma write_other_read:
  assumes "unat i < 2 ^ st_hash_bits st" "unat k < 2 ^ st_hash_bits st" "i \<noteq> k"
    and "length name \<le> st_max_len st" "n \<le> st_max_len st"
  shows "read_bytes (write_bytes m (slot_addr st i) name) (slot_addr st k) n = read_bytes m (slot_addr st k) n"
  by (rule nth_equalityI) (use write_other_slot [OF assms(1-4)] assms(5) in simp_all)

lemma stops_other:
  assumes "unat i < 2 ^ st_hash_bits st" "unat k < 2 ^ st_hash_bits st" "i \<noteq> k"
    and "length name \<le> st_max_len st" "name_ok st name'"
    and m'_def: "m' = write_bytes m (slot_addr st i) name"
  shows "stops st m' name' k \<longleftrightarrow> stops st m name' k" and "m' (slot_addr st k) = m (slot_addr st k)"
proof -
  have "0 < st_max_len st" "length name' \<le> st_max_len st"
    using assms(5) by (auto simp: name_ok_def intro: less_le_trans)
  then show "m' (slot_addr st k) = m (slot_addr st k)"
    using write_other_slot [OF assms(1-4), of 0] by (simp add: m'_def)
  then show "stops st m' name' k \<longleftrightarrow> stops st m name' k"
    using write_other_read [OF assms(1-4) \<open>length name' \<le> _\<close>]
    by (simp add: stops_def name_match_iff m'_def)
qed

lemma name_head: "name_ok st name \<Longrightarrow> name ! 0 \<noteq> 0"
  by (cases name) (auto simp: name_ok_def)

lemma takeWhile_append_zero: "0 \<notin> set xs \<Longrightarrow> takeWhile (\<lambda>b. b \<noteq> (0 :: u8)) (xs @ replicate n 0) = xs"
  by (subst takeWhile_append2) auto

lemma padded_empty:
  assumes "st_padded st m" "unat i < 2 ^ st_hash_bits st" "m (slot_addr st i) = 0" "j < st_max_len st"
  shows "m (slot_addr st i + j) = 0"
  using assms unfolding st_padded_def by (metis add_0_right le0)

lemma written_name:
  assumes "st_padded st m" "unat i < 2 ^ st_hash_bits st" "m (slot_addr st i) = 0" "name_ok st name"
  shows "read_bytes (write_bytes m (slot_addr st i) name) (slot_addr st i) (st_max_len st) =
     name @ replicate (st_max_len st - length name) 0"
proof (rule nth_equalityI)
  show "length (read_bytes (write_bytes m (slot_addr st i) name) (slot_addr st i) (st_max_len st)) =
      length (name @ replicate (st_max_len st - length name) 0)"
    using assms(4) by (simp add: name_ok_def)
  fix k assume "k < length (read_bytes (write_bytes m (slot_addr st i) name) (slot_addr st i) (st_max_len st))"
  then show "read_bytes (write_bytes m (slot_addr st i) name) (slot_addr st i) (st_max_len st) ! k =
      (name @ replicate (st_max_len st - length name) 0) ! k"
    using padded_empty [OF assms(1-3), of k] by (auto simp: write_bytes_def nth_append)
qed

lemma written_padded:
  assumes "st_padded st m" "unat i < 2 ^ st_hash_bits st" "m (slot_addr st i) = 0" "name_ok st name"
  shows "st_padded st (write_bytes m (slot_addr st i) name)" (is "st_padded st ?m")
  unfolding st_padded_def
proof (intro allI impI)
  fix k x y assume k: "unat k < 2 ^ st_hash_bits st"
    and xy: "x \<le> y \<and> y < st_max_len st \<and> ?m (slot_addr st k + x) = 0"
  have len: "length name \<le> st_max_len st" using assms(4) by (simp add: name_ok_def)
  show "?m (slot_addr st k + y) = 0"
  proof (cases "k = i")
    case True
    have r: "?m (slot_addr st i + z) = (name @ replicate (st_max_len st - length name) 0) ! z"
      if "z < st_max_len st" for z
      using that arg_cong [OF written_name [OF assms], of "\<lambda>xs. xs ! z"] by simp
    have "length name \<le> x"
    proof (rule ccontr)
      assume "\<not> length name \<le> x"
      then have "name ! x = 0" using r [of x] xy True by (simp add: nth_append)
      with \<open>\<not> length name \<le> x\<close> assms(4) show False by (auto simp: name_ok_def in_set_conv_nth)
    qed
    moreover have "y - length name < st_max_len st - length name" using xy calculation by linarith
    ultimately show ?thesis using xy r [of y] True by (simp add: nth_append)
  next
    case False
    with xy write_other_slot [OF assms(2) k _ len] have "m (slot_addr st k + x) = 0" by auto
    then have "m (slot_addr st k + y) = 0" using assms(1) k xy unfolding st_padded_def by blast
    with xy write_other_slot [OF assms(2) k _ len, of y] False show ?thesis by simp
  qed
qed

section \<open>Properties\<close>

lemma get_cases:
  assumes "string_table_get st name add (t, s) = Some (Inr (b, i), ts')" "name_ok st name"
  shows "\<exists>b' i'. probe st (cache s) name (hash_of st name) = Some (b', i') \<and> b = b' \<and>
     (b' \<or> add \<longrightarrow> i = i') \<and> (\<not> b' \<and> \<not> add \<longrightarrow> i = 0) \<and>
     ts' = (if \<not> b' \<and> add then tx_write_nolog (slot_addr st i) name (t, s) else (t, s))"
  using assms
  by (auto simp: string_table_get_def hash_fnv_1a_def Let_def split: option.splits bool.splits if_splits prod.splits)

text \<open>C31. Adding a name: in a zero-padded table, after \<open>get(name, id, true)\<close> has added the name under
  \<open>id\<close>, the table is still zero-padded, the name is read back from \<open>id\<close>, a later \<open>get\<close> finds it
  under the same \<open>id\<close>, the strings of all other ids are unchanged, and every name that was found
  before is found under the same id as before.\<close>

theorem string_table_add:
  assumes "st_ok st" and "st_padded st (cache s)" and "name_ok st name"
    and "string_table_get st name True (t, s) = Some (Inr (False, i), (t', s'))"
  shows "st_padded st (cache s') \<and> string_table_name st (cache s') i = name \<and>
     string_table_get st name add (t', s') = Some (Inr (True, i), (t', s')) \<and>
     (\<forall>k. unat k < 2 ^ st_hash_bits st \<and> k \<noteq> i \<longrightarrow>
        string_table_name st (cache s') k = string_table_name st (cache s) k) \<and>
     (\<forall>name' k. name_ok st name' \<and> string_table_get st name' False (t, s) = Some (Inr (True, k), (t, s)) \<longrightarrow>
        string_table_get st name' False (t', s') = Some (Inr (True, k), (t', s')))"
proof -
  let ?m = "cache s" and ?h = "hash_of st name"
  have bits: "st_hash_bits st \<le> 16" using assms(1) by (simp add: st_ok_def)
  have len: "length name \<le> st_max_len st" using assms(3) by (simp add: name_ok_def)
  have p: "probe st ?m name ?h = Some (False, i)" and ts': "(t', s') = tx_write_nolog (slot_addr st i) name (t, s)"
    using get_cases [OF assms(4,3)] by auto
  have m': "cache s' = write_bytes ?m (slot_addr st i) name"
    using ts' by (simp add: tx_write_nolog_def mem_simps)
  obtain d where d: "i = nth_slot st ?h d" "\<forall>j<d. \<not> stops st ?m name (nth_slot st ?h j)" "?m (slot_addr st i) = 0"
    using probe_first_stop [OF p] by auto
  have bound: "unat (nth_slot st h j) < 2 ^ st_hash_bits st" if "h = hash_of st n" for h n j
    using unat_nth_slot [OF bits hash_bound [OF bits], of n j] that by simp
  have i: "unat i < 2 ^ st_hash_bits st" using bound [OF refl] d(1) by simp
  have stop_i: "stops st ?m n i" for n using d(3) by (simp add: stops_def)
  have keep: "\<not> stops st (cache s') n k"
    if "\<not> stops st ?m n k" "unat k < 2 ^ st_hash_bits st" "name_ok st n" for n k
    using that stops_other(1) [OF i that(2) _ len that(3) m'] stop_i [of n] by (cases "k = i") auto
  have read_i: "read_bytes (cache s') (slot_addr st i) (st_max_len st) =
      name @ replicate (st_max_len st - length name) 0"
    using written_name [OF assms(2) i d(3) assms(3)] by (simp add: m')
  have name_i: "string_table_name st (cache s') i = name"
    unfolding string_table_name_def read_i by (rule takeWhile_append_zero) (use assms(3) in \<open>simp add: name_ok_def\<close>)
  have here: "cache s' (slot_addr st i) \<noteq> 0" "name_match (cache s') (slot_addr st i) name"
  proof -
    show "cache s' (slot_addr st i) \<noteq> 0"
      using name_head [OF assms(3)] assms(3) by (auto simp: m' write_bytes_def name_ok_def)
    show "name_match (cache s') (slot_addr st i) name" by (simp add: name_match_iff m')
  qed
  have "\<forall>j<d. \<not> stops st (cache s') name (nth_slot st ?h j)"
    using keep [OF _ bound [OF refl] assms(3)] d(2) by blast
  moreover have "stops st (cache s') name (nth_slot st ?h d)" using here(2) d(1) by (simp add: stops_def)
  ultimately have "probe st (cache s') name ?h = Some (True, i)"
    using probe_found here(1) d(1) by simp
  then have again: "string_table_get st name add (t', s') = Some (Inr (True, i), (t', s'))"
    using len by (simp add: string_table_get_def hash_fnv_1a_def Let_def)
  have others: "string_table_name st (cache s') k = string_table_name st ?m k"
    if "unat k < 2 ^ st_hash_bits st" "k \<noteq> i" for k
    using write_other_read [OF i that(1) _ len, of "st_max_len st" ?m] that(2)
    by (simp add: string_table_name_def m')
  have found: "string_table_get st n False (t', s') = Some (Inr (True, k), (t', s'))"
    if n: "name_ok st n" and g: "string_table_get st n False (t, s) = Some (Inr (True, k), (t, s))" for n k
  proof -
    have pn: "probe st ?m n (hash_of st n) = Some (True, k)" using get_cases [OF g n] by auto
    then obtain e where e: "k = nth_slot st (hash_of st n) e" "stops st ?m n k" "?m (slot_addr st k) \<noteq> 0"
      "\<forall>j<e. \<not> stops st ?m n (nth_slot st (hash_of st n) j)"
      using probe_first_stop [OF pn] by auto
    have k: "unat k < 2 ^ st_hash_bits st" "k \<noteq> i" using bound [OF refl] e(1,3) d(3) by auto
    have "stops st (cache s') n k" "cache s' (slot_addr st k) \<noteq> 0"
      using stops_other [OF i k(1) k(2) [symmetric] len n m'] e(2,3) by simp_all
    moreover have "\<forall>j<e. \<not> stops st (cache s') n (nth_slot st (hash_of st n) j)"
      using keep [OF _ bound [OF refl] n] e(4) by blast
    ultimately have "probe st (cache s') n (hash_of st n) = Some (True, k)"
      using probe_found e(1) by simp
    then show ?thesis
      using n by (simp add: string_table_get_def hash_fnv_1a_def Let_def name_ok_def)
  qed
  have "st_padded st (cache s')" using written_padded [OF assms(2) i d(3) assms(3)] by (simp add: m')
  with name_i again others found show ?thesis by blast
qed

definition default_table :: string_table where
  "default_table = string_table 0 65536 16"

lemma default_table_eq: "default_table = \<lparr>st_max_len = 16, st_hash_bits = 12, st_base = 0\<rparr>"
  using floor_log2_unique [of 12 4096] by (simp add: default_table_def string_table_def bsr_def)

lemma hash_samples:
  "hash_of default_table [108, 117, 109] = 2055" "hash_of default_table [108] = 2055"
  "hash_of default_table [103, 102] = 0"
  by (simp_all add: hash_fnv_1a_def default_table_eq hash_mask_def OFFSET_BASIS_def FNV_prime_def Let_def)

lemma default_ok: "st_ok default_table" "st_padded default_table (\<lambda>_. 0)"
  by (simp_all add: st_ok_def st_padded_def default_table_eq)

lemma demo_add:
  "string_table_get default_table [108, 117, 109] True (demo_tx, fresh_pm 4) =
     Some (Inr (False, 2055), tx_write_nolog (slot_addr default_table 2055) [108, 117, 109] (demo_tx, fresh_pm 4))"
  using hash_samples(1)
  by (simp add: string_table_get_def hash_fnv_1a_def Let_def probe_step fresh_pm_def demo_tx_def default_table_eq)

theorem string_table_add_witness:
  "\<exists>t' s'. string_table_get default_table [108, 117, 109] True (demo_tx, fresh_pm 4) = Some (Inr (False, 2055), (t', s')) \<and>
     string_table_name default_table (cache s') 2055 = [108, 117, 109] \<and>
     string_table_get default_table [108, 117, 109] False (t', s') = Some (Inr (True, 2055), (t', s'))"
proof -
  obtain t' s' where g: "string_table_get default_table [108, 117, 109] True (demo_tx, fresh_pm 4) =
      Some (Inr (False, 2055), (t', s'))"
    using demo_add by (metis surj_pair)
  have "st_padded default_table (cache (fresh_pm 4))" using default_ok(2) by (simp add: fresh_pm_def)
  moreover have "name_ok default_table [108, 117, 109]" by (simp add: name_ok_def default_table_eq)
  ultimately show ?thesis
    using string_table_add [OF default_ok(1) _ _ g, of False] g by blast
qed

lemma stops_iff_prefix:
  assumes "name_ok st name"
  shows "stops st m name k \<longleftrightarrow> string_table_name st m k = [] \<or> prefix name (string_table_name st m k)"
proof -
  let ?r = "read_bytes m (slot_addr st k) (st_max_len st)"
  have len: "length name \<le> st_max_len st" "0 < st_max_len st" and nz: "\<forall>b\<in>set name. b \<noteq> 0"
    using assms by (auto simp: name_ok_def intro: less_le_trans)
  have split: "?r = read_bytes m (slot_addr st k) (length name) @
      read_bytes m (slot_addr st k + length name) (st_max_len st - length name)"
    using read_bytes_append [of m "slot_addr st k" "length name" "st_max_len st - length name"] len(1) by simp
  have empty: "string_table_name st m k = [] \<longleftrightarrow> m (slot_addr st k) = 0"
  proof -
    have "?r \<noteq> []" "?r ! 0 = m (slot_addr st k)" using len(2) by (simp_all flip: length_greater_0_conv)
    then show ?thesis unfolding string_table_name_def by (cases ?r) auto
  qed
  have "prefix name (string_table_name st m k)" if "read_bytes m (slot_addr st k) (length name) = name"
    unfolding string_table_name_def split that using nz by (simp add: takeWhile_append)
  moreover have "read_bytes m (slot_addr st k) (length name) = name" if p: "prefix name (string_table_name st m k)"
  proof -
    have "prefix name ?r"
      using p takeWhile_is_prefix prefix_order.trans unfolding string_table_name_def by blast
    then have "take (length name) ?r = name" by (auto simp: prefix_def)
    then show ?thesis by (simp add: split)
  qed
  ultimately show ?thesis unfolding stops_def name_match_iff empty by blast
qed

text \<open>A lookup that finds the name changes nothing and returns the id of a string that starts with
  the name; it is the name itself when no string of the table properly extends it.\<close>

theorem string_table_found:
  assumes "st_ok st" and "name_ok st name"
    and "string_table_get st name add (t, s) = Some (Inr (True, i), ts')"
  shows "ts' = (t, s) \<and> prefix name (string_table_name st (cache s) i) \<and>
     ((\<forall>k. unat k < 2 ^ st_hash_bits st \<longrightarrow> \<not> strict_prefix name (string_table_name st (cache s) k)) \<longrightarrow>
        string_table_name st (cache s) i = name)"
proof -
  let ?h = "hash_of st name"
  have bits: "st_hash_bits st \<le> 16" using assms(1) by (simp add: st_ok_def)
  have p: "probe st (cache s) name ?h = Some (True, i)" and "ts' = (t, s)"
    using get_cases [OF assms(3,2)] by auto
  obtain d where d: "i = nth_slot st ?h d" "stops st (cache s) name i" "cache s (slot_addr st i) \<noteq> 0"
    using probe_first_stop [OF p] by auto
  have i: "unat i < 2 ^ st_hash_bits st"
    using unat_nth_slot [OF bits hash_bound [OF bits], of name d] by (simp add: d(1))
  have pre: "prefix name (string_table_name st (cache s) i)"
  proof -
    have "stops st ((cache s)) name i \<and> \<not> string_table_name st (cache s) i = []"
    proof -
      have "0 < st_max_len st" using assms(1) by (simp add: st_ok_def)
      then have "read_bytes (cache s) (slot_addr st i) (st_max_len st) ! 0 = cache s (slot_addr st i)"
        "read_bytes (cache s) (slot_addr st i) (st_max_len st) \<noteq> []"
        by (simp_all flip: length_greater_0_conv)
      then have "string_table_name st (cache s) i \<noteq> []"
        unfolding string_table_name_def using d(3)
        by (cases "read_bytes (cache s) (slot_addr st i) (st_max_len st)") auto
      with d(2) show ?thesis by blast
    qed
    then show ?thesis using stops_iff_prefix [OF assms(2)] by blast
  qed
  with \<open>ts' = (t, s)\<close> i show ?thesis by (auto simp: strict_prefix_def)
qed

text \<open>The probe ends exactly when some slot is empty or holds a string that starts with the name;
  on a full table without such a string \<open>get\<close> never returns. A name longer than the slot size is
  refused with \<open>InvalidID\<close>.\<close>

theorem string_table_get_returns:
  assumes "st_ok st" and "name \<noteq> []" and "0 \<notin> set name"
  shows "(string_table_get st name add (t, s) = None \<longleftrightarrow>
      length name \<le> st_max_len st \<and> (\<forall>k. unat k < 2 ^ st_hash_bits st \<longrightarrow>
        string_table_name st (cache s) k \<noteq> [] \<and> \<not> prefix name (string_table_name st (cache s) k))) \<and>
     (st_max_len st < length name \<longrightarrow> string_table_get st name add (t, s) = Some (Inl InvalidID, (t, s)))"
proof -
  have bits: "st_hash_bits st \<le> 16" using assms(1) by (simp add: st_ok_def)
  have long: "string_table_get st name add (t, s) = Some (Inl InvalidID, (t, s))" if "st_max_len st < length name"
    using that by (simp add: string_table_get_def hash_fnv_1a_def Let_def)
  have "string_table_get st name add (t, s) = None \<longleftrightarrow> probe st (cache s) name (hash_of st name) = None"
    if "length name \<le> st_max_len st"
    using that by (auto simp: string_table_get_def hash_fnv_1a_def Let_def split: option.splits bool.splits)
  moreover have "probe st (cache s) name (hash_of st name) = None \<longleftrightarrow> (\<forall>k. unat k < 2 ^ st_hash_bits st \<longrightarrow>
      string_table_name st (cache s) k \<noteq> [] \<and> \<not> prefix name (string_table_name st (cache s) k))"
    if "length name \<le> st_max_len st"
  proof -
    have "name_ok st name" using that assms by (simp add: name_ok_def)
    with probe_ends_iff [OF bits hash_bound [OF bits], of "cache s" name name] stops_iff_prefix
    show ?thesis by blast
  qed
  ultimately show ?thesis using long by (cases "length name \<le> st_max_len st") auto
qed

text \<open>Names are compared only over the length of the name asked for: in the default table, after
  \<open>lum\<close> has been added, adding \<open>l\<close> finds the slot of \<open>lum\<close> and returns its id, and \<open>gf\<close> gets the
  id 0 that also stands for no name and for not found.\<close>

theorem prefix_shares_id:
  "\<exists>t' s' t2 s2. string_table_get default_table [108, 117, 109] True (demo_tx, fresh_pm 4) = Some (Inr (False, 2055), (t', s')) \<and>
     string_table_get default_table [108] True (t', s') = Some (Inr (True, 2055), (t', s')) \<and>
     string_table_name default_table (cache s') 2055 = [108, 117, 109] \<and>
     string_table_get default_table [103, 102] True (t', s') = Some (Inr (False, 0), (t2, s2)) \<and>
     stringid_get default_table [] True (Some (t', s')) = Some (Inr (True, 0), Some (t', s'))"
proof -
  define m where "m = write_bytes (\<lambda>_. 0) (slot_addr default_table 2055) [108, 117, 109]"
  obtain t' s' where g: "string_table_get default_table [108, 117, 109] True (demo_tx, fresh_pm 4) =
      Some (Inr (False, 2055), (t', s'))" "cache s' = m" "ti_rw t'"
    using demo_add by (cases "tx_write_nolog (slot_addr default_table 2055) [108, 117, 109] (demo_tx, fresh_pm 4)")
      (auto simp: tx_write_nolog_def m_def mem_simps fresh_pm_def demo_tx_def)
  have pad: "st_padded default_table (cache (fresh_pm 4))" using default_ok(2) by (simp add: fresh_pm_def)
  have nm: "name_ok default_table [108, 117, 109]" by (simp add: name_ok_def default_table_eq)
  have slot: "slot_addr default_table 2055 = 32880" "slot_addr default_table 0 = 0"
    by (simp_all add: slot_addr_def default_table_eq)
  have "string_table_name default_table m 2055 = [108, 117, 109]"
    by (simp add: string_table_name_def default_table_eq slot_addr_def read_bytes_def m_def write_bytes_def upt_rec)
  moreover have "string_table_get default_table [108] True (t', s') = Some (Inr (True, 2055), (t', s'))"
    using hash_samples(2)
    by (simp add: string_table_get_def hash_fnv_1a_def Let_def probe_step g(2) m_def slot write_bytes_def
        name_match_iff read_bytes_def default_table_eq)
  moreover have "probe default_table m [103, 102] 0 = Some (False, 0)"
    by (subst probe_step) (simp add: m_def slot write_bytes_def)
  then have "\<exists>ts2. string_table_get default_table [103, 102] True (t', s') = Some (Inr (False, 0), ts2)"
    using hash_samples(3) g(3) by (simp add: string_table_get_def hash_fnv_1a_def Let_def g(2) default_table_eq)
  then obtain t2 s2 where "string_table_get default_table [103, 102] True (t', s') = Some (Inr (False, 0), (t2, s2))"
    by (metis surj_pair)
  moreover have "stringid_get default_table [] True (Some (t', s')) = Some (Inr (True, 0), Some (t', s'))"
    by (simp add: stringid_get_def)
  ultimately show ?thesis using g(1) unfolding g(2) [symmetric] by blast
qed

theorem string_table_found_witness:
  "\<exists>t' s'. string_table_get default_table [108] True (t', s') = Some (Inr (True, 2055), (t', s')) \<and>
     prefix [108] (string_table_name default_table (cache s') 2055)"
proof -
  define m where "m = write_bytes (\<lambda>_. 0) (slot_addr default_table 2055) [108, 117, 109]"
  define s where "s = (fresh_pm 4)\<lparr>cache := m\<rparr>"
  have slot: "slot_addr default_table 2055 = 32880" by (simp add: slot_addr_def default_table_eq)
  have "probe default_table m [108] 2055 = Some (True, 2055)"
    by (subst probe_step) (simp add: m_def slot write_bytes_def name_match_iff read_bytes_def)
  then have g: "string_table_get default_table [108] True (demo_tx, s) = Some (Inr (True, 2055), (demo_tx, s))"
    using hash_samples(2) by (simp add: string_table_get_def hash_fnv_1a_def Let_def s_def default_table_eq)
  have "name_ok default_table [108]" by (simp add: name_ok_def default_table_eq)
  from string_table_found [OF default_ok(1) this g] g show ?thesis by blast
qed

theorem string_table_get_returns_witness:
  "string_table_get default_table [108] True (demo_tx, (fresh_pm 4)\<lparr>cache := \<lambda>_. 1\<rparr>) \<noteq>
     string_table_get default_table (replicate 17 2) True (demo_tx, (fresh_pm 4)\<lparr>cache := \<lambda>_. 1\<rparr>) \<and>
   string_table_get default_table [108] True (demo_tx, (fresh_pm 4)\<lparr>cache := \<lambda>_. 1\<rparr>) = None"
proof -
  let ?s = "(fresh_pm 4)\<lparr>cache := \<lambda>_. 1\<rparr>"
  have n: "string_table_name default_table (\<lambda>_. 1) k = replicate 16 1" for k
    by (simp add: string_table_name_def read_bytes_def default_table_eq map_replicate_const takeWhile_eq_all_conv)
  have full: "replicate 16 (1 :: u8) \<noteq> []" "\<not> prefix [108] (replicate 16 (1 :: u8))"
    by (simp, auto dest!: set_mono_prefix)
  have c: "cache ?s = (\<lambda>_. 1)" "st_max_len default_table = 16" by (simp_all add: default_table_eq)
  have "string_table_get default_table [108] True (demo_tx, ?s) = None"
    using string_table_get_returns [OF default_ok(1), of "[108]" True demo_tx ?s]
    unfolding c n using full by simp
  moreover have "string_table_get default_table (replicate 17 2) True (demo_tx, ?s) = Some (Inl InvalidID, (demo_tx, ?s))"
    using string_table_get_returns [OF default_ok(1), of "replicate 17 2" True demo_tx ?s]
    by (simp add: default_table_eq)
  ultimately show ?thesis by simp
qed

end
