(* ===== verification/Avl_Locks.thy ===== *)
theory Avl_Locks
  imports Avl_Tree
begin

text \<open>
  \<open>add\<close> and \<open>remove\<close> of \<open>src/AvlTree.cc\<close> as they are called. Both first walk down the tree with
  read locks and estimate how far up the change will reach (\<open>get_locks_add\<close>, \<open>get_locks_remove\<close>);
  they write-lock the topmost node whose own address stays and run the recursion on that subtree
  only, in place: nothing above it is updated. Theorems: on a balanced tree the operations give the
  tree the recursion from the root gives, whatever locks the transaction holds; and a sequence of
  operations after which a stored height above the locked subtree is wrong. Here every lock is
  granted and the allocator returns the node of a new key; \<open>Index_Calls\<close> has the calls with locks that time
  out and allocations that throw, both before the tree changes.
\<close>

section \<open>Locks and estimates\<close>

datatype lock_item = IndexItself | NodeLock addr

type_synonym lock_call = "lock_item \<times> bool"

text \<open>\<open>LockInfo\<close>.\<close>

record lock_info =
  curr :: "addr option"
  myht :: int
  ht_change :: bool
  ptr_change :: bool
  ptr_change_for_parent :: bool

definition lock_info_new :: "addr option \<Rightarrow> int \<Rightarrow> bool \<Rightarrow> bool \<Rightarrow> bool \<Rightarrow> lock_info" where
  "lock_info_new c h hc pc pp =
     \<lparr>curr = c, myht = h, ht_change = hc, ptr_change = pc, ptr_change_for_parent = pp\<rparr>"

text \<open>A read lock on a child, if there is one.\<close>

definition read_lock :: "('k, 'v) avl \<Rightarrow> lock_call list" where
  "read_lock t = (case ptr t of None \<Rightarrow> [] | Some a \<Rightarrow> [(NodeLock a, False)])"

text \<open>The part of \<open>get_locks_add_recursive\<close> after the two heights are known.\<close>

definition add_level :: "int \<Rightarrow> int \<Rightarrow> int \<Rightarrow> lock_info list \<Rightarrow> nat \<Rightarrow> nat \<Rightarrow> int \<times> lock_info list \<times> nat" where
  "add_level h lefth righth ml r level =
     (let i0 = (ml ! level)\<lparr>myht := max lefth righth + 1\<rparr>;
          i1 = (if (lefth - righth) mod 4 = 2
                then i0\<lparr>myht := h, ptr_change := True, ptr_change_for_parent := True\<rparr>
                else if ptr_change_for_parent (ml ! Suc level) then i0\<lparr>ptr_change := True\<rparr>
                else i0);
          i2 = (if h \<noteq> myht i1 then i1\<lparr>ht_change := True\<rparr> else i1);
          r' = (if ht_change i2 \<or> ptr_change i2 then (if level = 0 then level else level - 1) else r)
      in (myht i2, ml[level := i2], r'))"

text \<open>
  \<open>get_locks_add_recursive\<close>: the estimated height of the new subtree or -1, the vector
  \<open>mylocks\<close>, \<open>r\<close>, and the locks acquired.
\<close>

fun get_locks_add_recursive ::
    "'k::linorder \<Rightarrow> ('k, 'v) avl \<Rightarrow> lock_info list \<Rightarrow> nat \<Rightarrow> nat \<Rightarrow>
     int \<times> lock_info list \<times> nat \<times> lock_call list" where
  "get_locks_add_recursive key Null ml r level = (0, ml @ [lock_info_new None 0 True True True], r, [])"
| "get_locks_add_recursive key (TreeNode a lc rc h k v) ml r level =
     (let ml1 = ml @ [lock_info_new (Some a) h False False False]
      in if key = k then (-1, ml1, level, [(NodeLock a, False)])
         else if key < k then
           (let (lefth, ml2, r2, lk) = get_locks_add_recursive key lc ml1 r (Suc level)
            in if lefth = -1 then (-1, ml2, r2, (NodeLock a, False) # lk)
               else (let (res, ml3, r3) = add_level h lefth (ht rc) ml2 r2 level
                     in (res, ml3, r3, (NodeLock a, False) # lk @ read_lock rc)))
         else
           (let (righth, ml2, r2, lk) = get_locks_add_recursive key rc ml1 r (Suc level)
            in if righth = -1 then (-1, ml2, r2, (NodeLock a, False) # lk)
               else (let (res, ml3, r3) = add_level h (ht lc) righth ml2 r2 level
                     in (res, ml3, r3, (NodeLock a, False) # lk @ read_lock lc))))"

text \<open>
  \<open>get_locks_add\<close>: the value returned, \<open>to_lock\<close>, and the locks acquired. \<open>wl\<close> tells which
  locks the transaction has write-locked already, so that \<open>acquire_lock\<close> returns \<open>WriteLock\<close>.
\<close>

definition get_locks_add ::
    "(lock_item \<Rightarrow> bool) \<Rightarrow> 'k::linorder \<Rightarrow> ('k, 'v) avl \<Rightarrow> int \<times> addr option \<times> lock_call list" where
  "get_locks_add wl key t =
     (if wl IndexItself then (1, None, [(IndexItself, False)])
      else case ptr t of
        None \<Rightarrow> (1, None, [(IndexItself, False), (IndexItself, True)])
      | Some root \<Rightarrow>
          if wl (NodeLock root)
          then (1, None, [(IndexItself, False), (NodeLock root, False), (IndexItself, True)])
          else
            (let (r, ml, rel_lvl, lk) = get_locks_add_recursive key t [] 0 0;
                 lk0 = [(IndexItself, False), (NodeLock root, False)] @ lk
             in if rel_lvl = 0 then (1, Some root, lk0 @ [(IndexItself, True)])
                else (let to_lock = curr (ml ! rel_lvl)
                      in (r, to_lock, lk0 @ (case to_lock of None \<Rightarrow> [] | Some n \<Rightarrow> [(NodeLock n, True)])))))"

section \<open>Changing a subtree in place\<close>

text \<open>
  \<open>to_lock = add_recursive (to_lock, ...)\<close> assigns a local variable: the node above still points
  to the old address. What it sees after the call is the subtree whose root has that address.
\<close>

fun subtree_at :: "addr \<Rightarrow> ('k, 'v) avl \<Rightarrow> ('k, 'v) avl" where
  "subtree_at a Null = Null"
| "subtree_at a (TreeNode b l r h k v) =
     (if a = b then TreeNode b l r h k v
      else if a \<in> addrs l then subtree_at a l else subtree_at a r)"

fun in_place :: "addr \<Rightarrow> (('k, 'v) avl \<Rightarrow> ('k, 'v) avl) \<Rightarrow> ('k, 'v) avl \<Rightarrow> ('k, 'v) avl" where
  "in_place a f Null = Null"
| "in_place a f (TreeNode b l r h k v) =
     (if a = b then subtree_at a (f (TreeNode b l r h k v))
      else TreeNode b (in_place a f l) (in_place a f r) h k v)"

section \<open>add\<close>

text \<open>\<open>add\<close>: the tree, the node whose value is returned, the memory events, \<open>rebalanced\<close>, the locks.\<close>

definition avl_add ::
    "(lock_item \<Rightarrow> bool) \<Rightarrow> 'k::linorder \<Rightarrow> 'v \<Rightarrow> addr \<Rightarrow> ('k, 'v) avl \<Rightarrow>
     ('k, 'v) avl \<times> addr option \<times> event list \<times> bool \<times> lock_call list" where
  "avl_add wl key v0 n t =
     (let (retval, to_lock, lk) = get_locks_add wl key t
      in if retval < 0 then (t, to_lock, [], False, lk)
         else if retval = 1 then
           (let (t', p, e, rb) = add_recursive key v0 n t
            in (t', Some p, LogRoot # e @ [StoreRoot], rb, lk))
         else case to_lock of
             None \<Rightarrow> (t, None, [NullDeref], False, lk)
           | Some a \<Rightarrow>
               (let (s', p, e, rb) = add_recursive key v0 n (subtree_at a t)
                in (in_place a (\<lambda>s. fst (add_recursive key v0 n s)) t, Some p, e, rb, lk)))"

section \<open>remove\<close>

text \<open>The read locks \<open>get_locks_find_max\<close> takes on the way down.\<close>

fun get_locks_find_max :: "('k, 'v) avl \<Rightarrow> ('k, 'v) avl \<times> lock_call list" where
  "get_locks_find_max Null = (Null, [])"
| "get_locks_find_max (TreeNode a l r h k v) =
     (if r = Null then (TreeNode a l r h k v, [])
      else (let (m, lk) = get_locks_find_max r in (m, read_lock r @ lk)))"

fun kids_equal :: "('k, 'v) avl \<Rightarrow> bool" where
  "kids_equal Null = True"
| "kids_equal (TreeNode a l r h k v) = (ht r = ht l)"

fun kids_locks :: "('k, 'v) avl \<Rightarrow> lock_call list" where
  "kids_locks Null = []"
| "kids_locks (TreeNode a l r h k v) = read_lock r @ read_lock l"

text \<open>
  The part of \<open>get_locks_remove_recursive\<close> after the recursive call: \<open>rot\<close> is whether the other
  child is too high, \<open>eq\<close> whether the heights of that child's own children are equal.
\<close>

definition remove_level ::
    "int \<Rightarrow> int \<Rightarrow> int \<Rightarrow> bool \<Rightarrow> bool \<Rightarrow> lock_info list \<Rightarrow> nat \<Rightarrow> lock_info list" where
  "remove_level h lefth righth rot eq ml level =
     (let i0 = (ml ! level)\<lparr>myht := max lefth righth + 1\<rparr>;
          i1 = (if ptr_change_for_parent (ml ! Suc level) then i0\<lparr>ptr_change := True\<rparr> else i0);
          i2 = (if rot
                then (if eq then i1\<lparr>myht := h\<rparr> else i1\<lparr>myht := h - 1, ht_change := True\<rparr>)
                       \<lparr>ptr_change_for_parent := True\<rparr>
                else i1);
          i3 = (if h \<noteq> myht i2 then i2\<lparr>ht_change := True\<rparr> else i2)
      in ml[level := i3])"

text \<open>
  \<open>get_locks_remove_recursive\<close>: the value returned, \<open>mylocks\<close>, \<open>to_delete\<close>, \<open>r\<close>, the locks.
\<close>

fun get_locks_remove_recursive ::
    "'k::linorder \<Rightarrow> ('k, 'v) avl \<Rightarrow> lock_info list \<Rightarrow> ('k, 'v) avl \<Rightarrow> nat \<Rightarrow> nat \<Rightarrow>
     int \<times> lock_info list \<times> ('k, 'v) avl \<times> nat \<times> lock_call list" where
  "get_locks_remove_recursive key Null ml td r level = (-1, ml, td, r, [])"
| "get_locks_remove_recursive key (TreeNode a lc rc h k v) ml td r level =
     (let lk0 = (NodeLock a, False) in
      if key > k then
        (let (res, ml2, td2, r2, lk) =
               get_locks_remove_recursive key rc (ml @ [lock_info_new (Some a) h False False False]) td r (Suc level)
         in if res < 0 then (-1, ml2, td2, r2, lk0 # lk)
            else (let righth = myht (ml2 ! Suc level); lefth = ht lc; rot = (lefth - righth = 2)
                  in (0, remove_level h lefth righth rot (kids_equal lc) ml2 level, td2, r2,
                      lk0 # lk @ read_lock lc @ (if rot then kids_locks lc else []))))
      else if key = k \<and> (lc = Null \<or> rc = Null) then
        (let temp = (if lc \<noteq> Null then lc else rc)
         in (0, ml @ [lock_info_new (Some a) (ht temp) True True True], td, level, lk0 # read_lock temp))
      else
        (let (res, ml2, td2, r2, lk) =
               (if key = k then
                  (let (to_replace, lkm) = get_locks_find_max lc in
                   (case to_replace of
                      Null \<Rightarrow> (0, ml @ [lock_info_new (Some a) h False True False], td, level, read_lock lc @ lkm)
                    | TreeNode pa pl pr ph pk pv \<Rightarrow>
                        (let (res', ml', td', r_discard, lk') =
                               get_locks_remove_recursive pk lc (ml @ [lock_info_new (Some a) h False True False])
                                 to_replace 0 (Suc level)
                         in (0, ml', td', level, read_lock lc @ lkm @ lk'))))
                else get_locks_remove_recursive key lc (ml @ [lock_info_new (Some a) h False False False]) td r (Suc level))
         in if res < 0 then (-1, ml2, td2, r2, lk0 # lk)
            else (let lefth = myht (ml2 ! Suc level); righth = ht rc; rot = (lefth - righth = -2)
                  in (0, remove_level h lefth righth rot (kids_equal rc) ml2 level, td2, r2,
                      lk0 # lk @ read_lock rc @ (if rot then kids_locks rc else [])))))"

definition flagged :: "lock_info \<Rightarrow> bool" where
  "flagged i \<longleftrightarrow> ht_change i \<or> ptr_change i"

text \<open>The loop over the vector: the first changed level, two levels above it, or the root.\<close>

fun first_flagged :: "lock_info list \<Rightarrow> nat option" where
  "first_flagged [] = None"
| "first_flagged (i # is) = (if flagged i then Some 0 else map_option Suc (first_flagged is))"

text \<open>
  \<open>get_locks_remove\<close>: the value returned, \<open>to_lock\<close>, \<open>to_delete\<close>, \<open>to_change\<close>, the locks.
\<close>

definition get_locks_remove ::
    "(lock_item \<Rightarrow> bool) \<Rightarrow> 'k::linorder \<Rightarrow> ('k, 'v) avl \<Rightarrow>
     int \<times> addr option \<times> ('k, 'v) avl \<times> addr option \<times> lock_call list" where
  "get_locks_remove wl key t =
     (if wl IndexItself then (if t = Null then -1 else 0, ptr t, Null, None, [(IndexItself, False)])
      else case ptr t of
        None \<Rightarrow> (-1, None, Null, None, [(IndexItself, False)])
      | Some root \<Rightarrow>
          if wl (NodeLock root)
          then (0, Some root, Null, None, [(IndexItself, False), (NodeLock root, False), (IndexItself, True)])
          else
            (let (res, ml, td, level, lk) = get_locks_remove_recursive key t [] Null 0 0;
                 lk0 = [(IndexItself, False), (NodeLock root, False)] @ lk
             in if res < 0 then (-1, None, td, None, lk0)
                else
                  (let to_change = (if td \<noteq> Null then curr (ml ! level) else None)
                   in case first_flagged ml of
                        None \<Rightarrow> (0, None, td, to_change, lk0)
                      | Some i \<Rightarrow>
                          if i \<le> 2
                          then (0, Some root, td, to_change, lk0 @ [(IndexItself, True), (NodeLock root, True)])
                          else (let c = curr (ml ! (i - 2))
                                in (0, c, td, to_change,
                                    lk0 @ (case c of None \<Rightarrow> [] | Some n \<Rightarrow> [(NodeLock n, True)]))))))"

text \<open>The key and value of \<open>to_delete\<close> moved into the locked node, and then its left subtree.\<close>

fun replace_entry :: "('k::linorder, 'v) avl \<Rightarrow> ('k, 'v) avl \<Rightarrow> ('k, 'v) avl \<times> event list \<times> bool" where
  "replace_entry (TreeNode da dl dr dh dk dv) (TreeNode a l r h k v) =
     (let (l', e, rb) = remove_recursive dk l
      in (TreeNode a l' r h dk dv,
          [Log a FLeft FValue, Store a FKey, Store a FValue, Log a FLeft FLeft] @ e @ [Store a FLeft], rb))"
| "replace_entry d s = (s, [NullDeref], False)"

text \<open>\<open>remove\<close>: the value returned, the tree, the memory events, \<open>rebalanced\<close>, the locks.\<close>

definition avl_remove ::
    "(lock_item \<Rightarrow> bool) \<Rightarrow> 'k::linorder \<Rightarrow> ('k, 'v) avl \<Rightarrow>
     int \<times> ('k, 'v) avl \<times> event list \<times> bool \<times> lock_call list" where
  "avl_remove wl key t =
     (let (res, to_lock, td, to_change, lk) = get_locks_remove wl key t
      in if res < 0 then (-1, t, [], False, lk)
         else if to_lock = ptr t then
           (let (t', e, rb) = remove_recursive key t in (0, t', LogRoot # e @ [StoreRoot], rb, lk))
         else case to_lock of
             None \<Rightarrow> (0, t, [NullDeref], False, lk)
           | Some a \<Rightarrow>
               if td \<noteq> Null \<and> to_change = to_lock then
                 (let (s', e, rb) = replace_entry td (subtree_at a t)
                  in (0, in_place a (\<lambda>s. fst (replace_entry td s)) t, e, rb, lk))
               else
                 (let (s', e, rb) = remove_recursive key (subtree_at a t)
                  in (0, in_place a (\<lambda>s. fst (remove_recursive key s)) t, e, rb, lk)))"

section \<open>Paths\<close>

fun path_at :: "'k::linorder \<Rightarrow> nat \<Rightarrow> ('k, 'v) avl \<Rightarrow> ('k, 'v) avl" where
  "path_at key 0 t = t"
| "path_at key (Suc j) Null = Null"
| "path_at key (Suc j) (TreeNode a l r h k v) = path_at key j (if key < k then l else r)"

fun mod_path :: "'k::linorder \<Rightarrow> nat \<Rightarrow> (('k, 'v) avl \<Rightarrow> ('k, 'v) avl) \<Rightarrow> ('k, 'v) avl \<Rightarrow> ('k, 'v) avl" where
  "mod_path key 0 f t = f t"
| "mod_path key (Suc j) f Null = Null"
| "mod_path key (Suc j) f (TreeNode a l r h k v) =
     (if key < k then TreeNode a (mod_path key j f l) r h k v else TreeNode a l (mod_path key j f r) h k v)"

fun addr_list :: "('k, 'v) avl \<Rightarrow> addr list" where
  "addr_list Null = []"
| "addr_list (TreeNode a l r h k v) = addr_list l @ a # addr_list r"

definition distinct_addrs :: "('k, 'v) avl \<Rightarrow> bool" where
  "distinct_addrs t \<longleftrightarrow> distinct (addr_list t)"

lemma set_addr_list [simp]: "set (addr_list t) = addrs t"
  by (induction t) auto

lemma distinct_addrs_simps [simp]:
  "distinct_addrs Null"
  "distinct_addrs (TreeNode a l r h k v) \<longleftrightarrow>
     distinct_addrs l \<and> distinct_addrs r \<and> a \<notin> addrs l \<and> a \<notin> addrs r \<and> addrs l \<inter> addrs r = {}"
  by (auto simp: distinct_addrs_def)

lemma in_place_out: "a \<notin> addrs t \<Longrightarrow> in_place a f t = t"
  by (induction t) auto

lemma subtree_at_ptr: "ptr t = Some a \<Longrightarrow> subtree_at a t = t"
  by (cases t) auto

lemma ptr_addrs: "ptr t = Some a \<Longrightarrow> a \<in> addrs t"
  by (cases t) auto

lemma path_at_addrs: "addrs (path_at key j t) \<subseteq> addrs t"
proof (induction key j t rule: path_at.induct)
  case (3 key j a l r h k v)
  then show ?case by (cases "key < k") auto
qed auto

lemma in_place_path:
  assumes "distinct_addrs t" "ptr (path_at key j t) = Some b" "ptr (f (path_at key j t)) = Some b"
  shows "in_place b f t = mod_path key j f t"
  using assms
proof (induction key j t rule: path_at.induct)
  case (1 key t)
  then show ?case by (cases t) (auto simp: subtree_at_ptr)
next
  case (3 key j a l r h k v)
  have b: "b \<in> addrs (path_at key j (if key < k then l else r))" using 3(3) by (simp add: ptr_addrs)
  have sub: "addrs (path_at key j (if key < k then l else r)) \<subseteq> addrs (if key < k then l else r)"
    by (rule path_at_addrs)
  show ?case
    using 3 b sub by (cases "key < k") (auto intro!: in_place_out)
qed simp

lemma subtree_at_path:
  assumes "distinct_addrs t" "ptr (path_at key j t) = Some b"
  shows "subtree_at b t = path_at key j t"
  using assms
proof (induction key j t rule: path_at.induct)
  case (1 key t)
  then show ?case by (simp add: subtree_at_ptr)
next
  case (3 key j a l r h k v)
  have b: "b \<in> addrs (path_at key j (if key < k then l else r))" using 3(3) by (simp add: ptr_addrs)
  have sub: "addrs (path_at key j (if key < k then l else r)) \<subseteq> addrs (if key < k then l else r)"
    by (rule path_at_addrs)
  show ?case
    using 3 b sub by (cases "key < k") auto
qed simp

section \<open>The estimate of add\<close>

abbreviation absent :: "'k::linorder \<Rightarrow> ('k, 'v) avl \<Rightarrow> bool" where
  "absent key t \<equiv> fst (get_locks_find key t) = None"

lemma absent_node: "absent key (TreeNode a l r h k v) \<longleftrightarrow> key \<noteq> k \<and> absent key (if key < k then l else r)"
  by (auto simp: case_prod_unfold Let_def)

lemma absent_path: "absent key t \<Longrightarrow> absent key (path_at key j t)"
proof (induction key j t rule: path_at.induct)
  case (3 key j a l r h k v)
  then show ?case by (simp add: absent_node del: get_locks_find.simps)
qed simp_all

lemma add_node: "absent key t \<Longrightarrow> fst (snd (add_recursive key v0 n t)) = n"
  by (induction t) (auto simp: case_prod_unfold Let_def)

lemma add_node_found: "fst (get_locks_find key t) = Some (a, v) \<Longrightarrow> fst (snd (add_recursive key v0 n t)) = a"
  by (induction t) (auto simp: case_prod_unfold Let_def split: if_splits)

lemma add_tree_found: "avl_ok t \<Longrightarrow> \<not> absent key t \<Longrightarrow> add_tree key v0 n t = t"
proof (induction t)
  case (TreeNode a l r h k v)
  then have bal: "\<bar>ht l - ht r\<bar> \<le> 1" "h = max (ht l) (ht r) + 1" by auto
  consider "key < k" | "key = k" | "k < key" by (rule linorder_cases)
  then show ?case
  proof cases
    case 1
    then have "\<not> absent key l" using TreeNode.prems(2) by (auto simp: absent_node simp del: get_locks_find.simps)
    then have "add_tree key v0 n l = l" using TreeNode by simp
    then show ?thesis using 1 bal by (auto simp: add_tree_simps(3) Let_def)
  next
    case 3
    then have "\<not> absent key r" using TreeNode.prems(2) 3 less_not_sym [OF 3] by (auto simp: absent_node simp del: get_locks_find.simps)
    then have "add_tree key v0 n r = r" using TreeNode by simp
    then show ?thesis using 3 bal by (auto simp: add_tree_simps(4) Let_def)
  qed (simp add: add_tree_simps(2))
qed simp

lemma add_tree_node: "add_tree key v0 n t \<noteq> Null"
proof -
  have "kv (add_tree key v0 n t) \<noteq> []"
  proof (cases t)
    case (TreeNode a l r h k v)
    then show ?thesis
      by (cases key k rule: linorder_cases) (simp_all add: add_tree_simps Let_def)
  qed (simp add: add_tree_simps(1))
  then show ?thesis by auto
qed

lemma add_tree_ht: "avl_ok t \<Longrightarrow> ht (add_tree key v0 n t) \<noteq> -1"
  using add_avl [of t key v0 n] ht_Null [of "add_tree key v0 n t"] add_tree_node [of key v0 n t]
  by (simp add: avl_ok_def)

lemma add_step_left:
  assumes "avl_ok (TreeNode a l r h k v)" "key < k" "l' = add_tree key v0 n l"
  shows "(ht l' - ht r) mod 4 = 2 \<longleftrightarrow> ht l' - ht r = 2"
    and "ht l' - ht r = 2 \<Longrightarrow> ht (add_tree key v0 n (TreeNode a l r h k v)) = h"
    and "ht l' - ht r \<noteq> 2 \<Longrightarrow> add_tree key v0 n (TreeNode a l r h k v) = TreeNode a l' r (max (ht l') (ht r) + 1) k v"
proof -
  have h: "h = max (ht l) (ht r) + 1" "abs (ht l - ht r) \<le> 1" "avl_ok l" "avl_ok r" using assms(1) by auto
  have IH: "avl_ok l'" "ht l' = ht l \<or> ht l' = ht l + 1 \<and> (l = Null \<or> grown key l')"
    using add_avl [OF h(3), of key v0 n] by (simp_all add: assms(3))
  have "-2 < ht l' - ht r" "ht l' - ht r \<le> 2" using IH(2) h(2) by linarith+
  then show "(ht l' - ht r) mod 4 = 2 \<longleftrightarrow> ht l' - ht r = 2" by presburger
  show "ht (add_tree key v0 n (TreeNode a l r h k v)) = h" if "ht l' - ht r = 2"
  proof -
    have taller: "ht l' = ht r + 2" "ht l = ht r + 1" using IH(2) h(2) that by linarith+
    then have "l \<noteq> Null" using avl_ok_min [OF h(4)] by auto
    then have "grown key l'" using IH(2) taller by auto
    from add_fix_left [OF IH(1) h(4) taller(1) this, of a h k v] show ?thesis
      using assms(2) that taller(2) h(1) by (simp add: add_tree_simps(3) Let_def flip: assms(3))
  qed
  show "add_tree key v0 n (TreeNode a l r h k v) = TreeNode a l' r (max (ht l') (ht r) + 1) k v"
    if "ht l' - ht r \<noteq> 2"
    using assms(2) that by (simp add: add_tree_simps(3) Let_def flip: assms(3))
qed

lemma add_step_right:
  assumes "avl_ok (TreeNode a l r h k v)" "k < key" "r' = add_tree key v0 n r"
  shows "(ht l - ht r') mod 4 = 2 \<longleftrightarrow> ht l - ht r' = -2"
    and "ht l - ht r' = -2 \<Longrightarrow> ht (add_tree key v0 n (TreeNode a l r h k v)) = h"
    and "ht l - ht r' \<noteq> -2 \<Longrightarrow> add_tree key v0 n (TreeNode a l r h k v) = TreeNode a l r' (max (ht l) (ht r') + 1) k v"
proof -
  have h: "h = max (ht l) (ht r) + 1" "abs (ht l - ht r) \<le> 1" "avl_ok l" "avl_ok r" using assms(1) by auto
  have IH: "avl_ok r'" "ht r' = ht r \<or> ht r' = ht r + 1 \<and> (r = Null \<or> grown key r')"
    using add_avl [OF h(4), of key v0 n] by (simp_all add: assms(3))
  have "ht l - ht r' < 2" "-2 \<le> ht l - ht r'" using IH(2) h(2) by linarith+
  then show "(ht l - ht r') mod 4 = 2 \<longleftrightarrow> ht l - ht r' = -2" by presburger
  show "ht (add_tree key v0 n (TreeNode a l r h k v)) = h" if "ht l - ht r' = -2"
  proof -
    have taller: "ht r' = ht l + 2" "ht r = ht l + 1" using IH(2) h(2) that by linarith+
    then have "r \<noteq> Null" using avl_ok_min [OF h(3)] by auto
    then have "grown key r'" using IH(2) taller by auto
    from add_fix_right [OF h(3) IH(1) taller(1) this, of a h k v] show ?thesis
      using assms(2) that taller(2) h(1) by (simp add: add_tree_simps(4) Let_def flip: assms(3))
  qed
  show "add_tree key v0 n (TreeNode a l r h k v) = TreeNode a l r' (max (ht l) (ht r') + 1) k v"
    if "ht l - ht r' \<noteq> -2"
    using assms(2) that by (simp add: add_tree_simps(4) Let_def flip: assms(3))
qed

lemma add_level_result:
  assumes "length ml = level" "ci \<noteq> []" "rot \<longleftrightarrow> (lh - rh) mod 4 = 2"
    "mh = (if rot then h else max lh rh + 1)"
  shows "add_level h lh rh ((ml @ [lock_info_new c h False False False]) @ ci) r level =
     (mh, ml @ lock_info_new c mh (h \<noteq> mh) (rot \<or> ptr_change_for_parent (ci ! 0)) rot # ci,
      if h \<noteq> mh \<or> rot \<or> ptr_change_for_parent (ci ! 0) then level - 1 else r)"
  using assms by (auto simp: add_level_def Let_def nth_append lock_info_new_def list_update_append)

text \<open>What the scan of a subtree without the key has found out.\<close>

definition add_scanned ::
    "'k::linorder \<Rightarrow> 'v \<Rightarrow> addr \<Rightarrow> ('k, 'v) avl \<Rightarrow> nat \<Rightarrow> lock_info list \<Rightarrow> nat \<Rightarrow> bool" where
  "add_scanned key v0 n t level infos r \<longleftrightarrow>
     infos \<noteq> [] \<and> curr (infos ! 0) = ptr t \<and>
     (\<not> ptr_change_for_parent (infos ! 0) \<longrightarrow> ptr (add_tree key v0 n t) = ptr t) \<and>
     (\<not> flagged (infos ! 0) \<longrightarrow>
        \<not> ptr_change_for_parent (infos ! 0) \<and> ht (add_tree key v0 n t) = ht t) \<and>
     (if t = Null then flagged (infos ! 0) \<and> ptr_change_for_parent (infos ! 0)
      else if flagged (infos ! 0) then r = level - 1
      else \<exists>j. r = level + j \<and> j < length infos \<and> curr (infos ! j) = ptr (path_at key j t) \<and>
             path_at key j t \<noteq> Null \<and> ptr (add_tree key v0 n (path_at key j t)) = ptr (path_at key j t) \<and>
             add_tree key v0 n t = mod_path key j (add_tree key v0 n) t)"

lemma flagged_new [simp]: "flagged (lock_info_new c m hc pc pp) \<longleftrightarrow> hc \<or> pc"
  by (simp add: flagged_def lock_info_new_def)

lemma lock_info_new_sel [simp]:
  "curr (lock_info_new c m hc pc pp) = c" "myht (lock_info_new c m hc pc pp) = m"
  "ptr_change (lock_info_new c m hc pc pp) = pc" "ht_change (lock_info_new c m hc pc pp) = hc"
  "ptr_change_for_parent (lock_info_new c m hc pc pp) = pp"
  by (simp_all add: lock_info_new_def)

lemma add_scanned_step:
  assumes child: "add_scanned key v0 n (if key < k then l else rt) (Suc level) ci r"
    and same: "\<not> rot \<Longrightarrow> add_tree key v0 n (TreeNode a l rt h k v) =
      (if key < k then TreeNode a (add_tree key v0 n l) rt mh k v else TreeNode a l (add_tree key v0 n rt) mh k v)"
    and mh: "ht (add_tree key v0 n (TreeNode a l rt h k v)) = mh"
  shows "add_scanned key v0 n (TreeNode a l rt h k v) level
      (lock_info_new (Some a) mh (h \<noteq> mh) (rot \<or> ptr_change_for_parent (ci ! 0)) rot # ci)
      (if h \<noteq> mh \<or> rot \<or> ptr_change_for_parent (ci ! 0) then level - 1 else r)"
proof (cases "h \<noteq> mh \<or> rot \<or> ptr_change_for_parent (ci ! 0)")
  case True
  then show ?thesis using same mh by (auto simp: add_scanned_def)
next
  case False
  then have F: "h = mh" "\<not> rot" "\<not> ptr_change_for_parent (ci ! 0)" by auto
  let ?c = "if key < k then l else rt" and ?t = "TreeNode a l rt h k v"
  have nn: "?c \<noteq> Null" using child F(3) by (auto simp: add_scanned_def split: if_splits)
  have "\<exists>j. r = level + j \<and> j < Suc (length ci) \<and>
      curr ((lock_info_new (Some a) mh (h \<noteq> mh) (rot \<or> ptr_change_for_parent (ci ! 0)) rot # ci) ! j) =
        ptr (path_at key j ?t) \<and>
      path_at key j ?t \<noteq> Null \<and> ptr (add_tree key v0 n (path_at key j ?t)) = ptr (path_at key j ?t) \<and>
      add_tree key v0 n ?t = mod_path key j (add_tree key v0 n) ?t"
  proof (cases "flagged (ci ! 0)")
    case True
    then have "r = level" using child nn unfolding add_scanned_def by (simp split: if_splits)
    then show ?thesis using same F by (intro exI [of _ 0]) simp
  next
    case False
    then obtain j where j: "r = Suc level + j" "j < length ci" "curr (ci ! j) = ptr (path_at key j ?c)"
      "path_at key j ?c \<noteq> Null" "ptr (add_tree key v0 n (path_at key j ?c)) = ptr (path_at key j ?c)"
      "add_tree key v0 n ?c = mod_path key j (add_tree key v0 n) ?c"
      using child nn unfolding add_scanned_def by (simp only: if_False) blast
    show ?thesis
      by (rule exI [of _ "Suc j"]) (use j same F in \<open>auto split: if_splits\<close>)
  qed
  then show ?thesis using F same mh by (simp add: add_scanned_def)
qed

lemma get_locks_add_absent:
  assumes "avl_ok t" "absent key t" "length ml = level"
  shows "\<exists>infos r' lk. get_locks_add_recursive key t ml r level = (ht (add_tree key v0 n t), ml @ infos, r', lk) \<and>
    add_scanned key v0 n t level infos r'"
  using assms
proof (induction t arbitrary: ml r level)
  case Null
  then show ?case by (auto simp: add_scanned_def add_tree_simps(1) flagged_def)
next
  case (TreeNode a l rt h k v)
  let ?t = "avl.TreeNode a l rt h k v"
  let ?i = "lock_info_new (Some a) h False False False"
  have ok: "avl_ok l" "avl_ok rt" using TreeNode.prems(1) by auto
  have ab: "key \<noteq> k" "absent key (if key < k then l else rt)"
    using absent_node [of key a l rt h k v] TreeNode.prems(2) by blast+
  have len: "length (ml @ [?i]) = Suc level" using TreeNode.prems(3) by simp
  show ?case
  proof (cases "key < k")
    case True
    then obtain ci rc lkc where c: "get_locks_add_recursive key l (ml @ [?i]) r (Suc level) =
        (ht (add_tree key v0 n l), (ml @ [?i]) @ ci, rc, lkc)" and sc: "add_scanned key v0 n l (Suc level) ci rc"
      using TreeNode.IH(1) [OF ok(1) _ len, of r] ab(2) by auto
    have nn: "ht (add_tree key v0 n l) \<noteq> -1" by (rule add_tree_ht [OF ok(1)])
    define rot where "rot \<longleftrightarrow> (ht (add_tree key v0 n l) - ht rt) mod 4 = 2"
    define mh where "mh = (if rot then h else max (ht (add_tree key v0 n l)) (ht rt) + 1)"
    note st = add_step_left [OF TreeNode.prems(1) True refl, of v0 n]
    have mh: "ht (add_tree key v0 n ?t) = mh"
      using st(2, 3) unfolding mh_def rot_def st(1) by auto
    have same: "add_tree key v0 n ?t = (if key < k then avl.TreeNode a (add_tree key v0 n l) rt mh k v
        else avl.TreeNode a l (add_tree key v0 n rt) mh k v)" if "\<not> rot"
      using that st(3) True unfolding mh_def rot_def st(1) by simp
    note lv = add_level_result [OF TreeNode.prems(3) _ rot_def mh_def, of ci "Some a" rc]
    have ne: "ci \<noteq> []" using sc by (simp add: add_scanned_def)
    show ?thesis
      using add_scanned_step [of key v0 n k l rt level ci rc rot a h v mh, OF _ same mh] sc True
      by (simp add: c nn ab(1) lv [OF ne] mh Let_def del: append_assoc)
  next
    case False
    then have gt: "k < key" using ab(1) by simp
    obtain ci rc lkc where c: "get_locks_add_recursive key rt (ml @ [?i]) r (Suc level) =
        (ht (add_tree key v0 n rt), (ml @ [?i]) @ ci, rc, lkc)" and sc: "add_scanned key v0 n rt (Suc level) ci rc"
      using TreeNode.IH(2) [OF ok(2) _ len, of r] ab(2) False by auto
    have nn: "ht (add_tree key v0 n rt) \<noteq> -1" by (rule add_tree_ht [OF ok(2)])
    define rot where "rot \<longleftrightarrow> (ht l - ht (add_tree key v0 n rt)) mod 4 = 2"
    define mh where "mh = (if rot then h else max (ht l) (ht (add_tree key v0 n rt)) + 1)"
    note st = add_step_right [OF TreeNode.prems(1) gt refl, of v0 n]
    have mh: "ht (add_tree key v0 n ?t) = mh"
      using st(2, 3) unfolding mh_def rot_def st(1) by auto
    have same: "add_tree key v0 n ?t = (if key < k then avl.TreeNode a (add_tree key v0 n l) rt mh k v
        else avl.TreeNode a l (add_tree key v0 n rt) mh k v)" if "\<not> rot"
      using that st(3) False unfolding mh_def rot_def st(1) by simp
    note lv = add_level_result [OF TreeNode.prems(3) _ rot_def mh_def, of ci "Some a" rc]
    have ne: "ci \<noteq> []" using sc by (simp add: add_scanned_def)
    show ?thesis
      using add_scanned_step [of key v0 n k l rt level ci rc rot a h v mh, OF _ same mh] sc False
      by (simp add: c nn ab(1) lv [OF ne] mh Let_def del: append_assoc)
  qed
qed

lemma get_locks_add_found:
  assumes "fst (get_locks_find key t) = Some (b, w)" "length ml = level"
  shows "\<exists>ext r' lk. get_locks_add_recursive key t ml r level = (-1, ml @ ext, r', lk) \<and>
    level \<le> r' \<and> r' < level + length ext \<and> curr ((ml @ ext) ! r') = Some b"
  using assms
proof (induction t arbitrary: ml r level)
  case (TreeNode a l rt h k v)
  let ?i = "lock_info_new (Some a) h False False False"
  have len: "length (ml @ [?i]) = Suc level" using TreeNode.prems(2) by simp
  show ?case
  proof (cases "key = k")
    case True
    then show ?thesis
      using TreeNode.prems by (auto intro!: exI [of _ "[?i]"] simp: nth_append)
  next
    case False
    then have "fst (get_locks_find key (if key < k then l else rt)) = Some (b, w)"
      using TreeNode.prems(1) by (simp add: case_prod_unfold Let_def)
    then obtain ext r' lk where c: "get_locks_add_recursive key (if key < k then l else rt) (ml @ [?i]) r (Suc level) =
        (-1, (ml @ [?i]) @ ext, r', lk)"
      "Suc level \<le> r'" "r' < Suc level + length ext" "curr (((ml @ [?i]) @ ext) ! r') = Some b"
      using TreeNode.IH(1) [OF _ len, of r] TreeNode.IH(2) [OF _ len, of r] by (cases "key < k") (simp_all, blast+)
    show ?thesis
      using c False by (cases "key < k") (auto intro!: exI [of _ "?i # ext"])
  qed
qed simp

section \<open>add from the root and add in place\<close>

lemma mod_path_nonneg: "path_at key j t \<noteq> Null \<Longrightarrow> \<exists>b. ptr (path_at key j t) = Some b"
  by (cases "path_at key j t") auto

lemma avl_add_root:
  assumes "avl_ok t" "distinct_addrs t"
  shows "fst (avl_add wl key v0 n t) = add_tree key v0 n t \<and>
    fst (snd (avl_add wl key v0 n t)) = Some (fst (snd (add_recursive key v0 n t)))"
proof (cases "wl IndexItself \<or> t = Null \<or> (\<exists>root. ptr t = Some root \<and> wl (NodeLock root))")
  case True
  then show ?thesis
    by (cases t) (auto simp: avl_add_def get_locks_add_def add_tree_def case_prod_unfold Let_def
        simp del: add_recursive.simps)
next
  case False
  then obtain root where rt: "ptr t = Some root" "\<not> wl IndexItself" "\<not> wl (NodeLock root)"
    by (cases t) auto
  show ?thesis
  proof (cases "absent key t")
    case True
    obtain infos r' lk where g: "get_locks_add_recursive key t [] 0 0 = (ht (add_tree key v0 n t), infos, r', lk)"
      and sc: "add_scanned key v0 n t 0 infos r'"
      using get_locks_add_absent [OF assms(1) True, of "[]" 0 0 v0 n] by auto
    have nonneg: "0 \<le> ht (add_tree key v0 n t)"
      using add_tree_ht [OF assms(1), of key v0 n] add_avl [OF assms(1), of key v0 n]
        avl_ok_min [of "add_tree key v0 n t"] by linarith
    show ?thesis
    proof (cases "r' = 0 \<or> ht (add_tree key v0 n t) = 1")
      case True
      then show ?thesis
        using rt nonneg by (auto simp: avl_add_def get_locks_add_def g add_tree_def case_prod_unfold Let_def)
    next
      case False
      have "t \<noteq> Null" using rt(1) by auto
      then have "\<not> flagged (infos ! 0)" using sc False by (auto simp: add_scanned_def)
      then obtain j where j: "curr (infos ! r') = ptr (path_at key j t)" "path_at key j t \<noteq> Null"
          "ptr (add_tree key v0 n (path_at key j t)) = ptr (path_at key j t)"
          "add_tree key v0 n t = mod_path key j (add_tree key v0 n) t"
        using sc \<open>t \<noteq> Null\<close> unfolding add_scanned_def by auto
      obtain b where b: "ptr (path_at key j t) = Some b" using mod_path_nonneg [OF j(2)] by blast
      have "in_place b (add_tree key v0 n) t = add_tree key v0 n t"
        using in_place_path [OF assms(2) b, of "add_tree key v0 n"] j(3, 4) b by simp
      then have tree: "in_place b (\<lambda>s. fst (add_recursive key v0 n s)) t = add_tree key v0 n t"
        by (simp add: add_tree_def [abs_def])
      have nodes: "fst (snd (add_recursive key v0 n (subtree_at b t))) = n" "fst (snd (add_recursive key v0 n t)) = n"
        using subtree_at_path [OF assms(2) b] absent_path [OF True] True by (simp_all add: add_node)
      show ?thesis
        using rt nonneg False tree nodes
        by (simp add: avl_add_def get_locks_add_def g j(1) b case_prod_unfold Let_def)
    qed
  next
    case present: False
    then obtain b w where f: "fst (get_locks_find key t) = Some (b, w)" by auto
    obtain ext r' lk where g: "get_locks_add_recursive key t [] 0 0 = (-1, ext, r', lk)" "curr (ext ! r') = Some b"
      using get_locks_add_found [OF f, of "[]" 0 0] by auto
    have eqs: "add_tree key v0 n t = t" "fst (snd (add_recursive key v0 n t)) = b"
      using add_tree_found [OF assms(1)] add_node_found [OF f] f by simp_all
    then have "fst (add_recursive key v0 n t) = t" by (simp add: add_tree_def)
    then show ?thesis
      using eqs rt by (simp add: avl_add_def get_locks_add_def g case_prod_unfold Let_def)
  qed
qed

section \<open>The estimate of remove\<close>

lemma fst_get_locks_find_max [simp]: "fst (get_locks_find_max t) = find_max t"
  by (induction t) (auto simp: case_prod_unfold Let_def)

lemma scan_right:
  "k < key \<Longrightarrow>
   get_locks_remove_recursive key rt (ml @ [lock_info_new (Some a) h False False False]) td r (Suc level) = (0, ml2, td2, r2, lk) \<Longrightarrow>
   \<exists>lk'. get_locks_remove_recursive key (TreeNode a l rt h k v) ml td r level =
     (0, remove_level h (ht l) (myht (ml2 ! Suc level)) (ht l - myht (ml2 ! Suc level) = 2) (kids_equal l) ml2 level, td2, r2, lk')"
  by (simp add: Let_def)

lemma scan_left:
  assumes "key < k"
   "get_locks_remove_recursive key l (ml @ [lock_info_new (Some a) h False False False]) td r (Suc level) = (0, ml2, td2, r2, lk)"
  shows "\<exists>lk'. get_locks_remove_recursive key (TreeNode a l rt h k v) ml td r level =
     (0, remove_level h (myht (ml2 ! Suc level)) (ht rt) (myht (ml2 ! Suc level) - ht rt = -2) (kids_equal rt) ml2 level, td2, r2, lk')"
proof -
  have "\<not> k < key" "key \<noteq> k" using assms(1) by auto
  then show ?thesis using assms(2) by (simp add: Let_def)
qed

lemma scan_leaf:
  "l = Null \<or> rt = Null \<Longrightarrow>
   \<exists>lk'. get_locks_remove_recursive key (TreeNode a l rt h key v) ml td r level =
     (0, ml @ [lock_info_new (Some a) (ht (if l \<noteq> Null then l else rt)) True True True], td, level, lk')"
  by (simp add: Let_def)

lemma scan_both:
  assumes "l \<noteq> Null" "rt \<noteq> Null" "find_max l = TreeNode pa pl pr ph pk pv"
   "get_locks_remove_recursive pk l (ml @ [lock_info_new (Some a) h False True False]) (find_max l) 0 (Suc level) = (res, ml2, td2, r2, lk)"
  shows "\<exists>lk'. get_locks_remove_recursive key (TreeNode a l rt h key v) ml td r level =
     (0, remove_level h (myht (ml2 ! Suc level)) (ht rt) (myht (ml2 ! Suc level) - ht rt = -2) (kids_equal rt) ml2 level, td2, level, lk')"
proof -
  obtain m lkm where m: "get_locks_find_max l = (m, lkm)" by fastforce
  then have "m = find_max l" by (metis fst_conv fst_get_locks_find_max)
  then show ?thesis using assms m by (simp add: Let_def)
qed

lemma scan_absent: "absent key t \<Longrightarrow> fst (get_locks_remove_recursive key t ml td r level) = -1"
proof (induction t arbitrary: ml td r level)
  case (TreeNode a l rt h k v)
  have ab: "key \<noteq> k" "absent key (if key < k then l else rt)"
    using absent_node [of key a l rt h k v] TreeNode.prems by blast+
  show ?case
  proof (cases "key < k")
    case True
    then have n: "\<not> k < key" by simp
    have "fst (get_locks_remove_recursive key l ml' td r lv) = -1" for ml' lv using TreeNode.IH(1) ab(2) True by simp
    then show ?thesis using True n ab(1) by (simp add: case_prod_unfold Let_def)
  next
    case False
    then have n: "k < key" using ab(1) by simp
    have "fst (get_locks_remove_recursive key rt ml' td r lv) = -1" for ml' lv using TreeNode.IH(2) ab(2) False by simp
    then show ?thesis using n by (simp add: case_prod_unfold Let_def)
  qed
qed simp

lemma remove_level_result:
  assumes "length ml = level" "ci \<noteq> []"
    "mh = (if rot then if eq then h else h - 1 else max lh rh + 1)"
  shows "remove_level h lh rh rot eq ((ml @ [lock_info_new c h False pc False]) @ ci) level =
     ml @ lock_info_new c mh (h \<noteq> mh) (pc \<or> ptr_change_for_parent (ci ! 0)) rot # ci"
  using assms by (auto simp: remove_level_def Let_def nth_append lock_info_new_def list_update_append)

text \<open>The height of the tree after \<open>remove\<close>.\<close>

lemma fix_left_ht:
  assumes "avl_ok l" "ht_ok r" "ht l = ht r + 2"
  shows "ht (fix_left (\<not> taller_left l) (TreeNode a l r h k v)) = (if kids_equal l then ht r + 3 else ht r + 2)"
proof -
  have r: "-1 \<le> ht r" by (rule ht_ok_min [OF assms(2)])
  obtain b bl br bk bv where l: "l = TreeNode b bl br (max (ht bl) (ht br) + 1) bk bv" "avl_ok bl" "avl_ok br"
    "abs (ht bl - ht br) \<le> 1"
    by (rule avl_ok_node [OF assms(1)]) (use assms(3) r in auto)
  show ?thesis
  proof (cases "ht bl > ht br")
    case True
    then show ?thesis using l assms(3) by (auto simp: fix_left_def rebalance_left_def Let_def max_def)
  next
    case False
    then have "0 \<le> ht br" using l assms(3) r by (auto simp: max_def split: if_splits)
    then obtain c cl cr ck cv where br: "br = TreeNode c cl cr (max (ht cl) (ht cr) + 1) ck cv" "abs (ht cl - ht cr) \<le> 1"
      by (rule avl_ok_node [OF l(3)]) auto
    show ?thesis using False l(1, 4) br assms(3)
      by (auto simp: fix_left_def rebalance_left_def Let_def max_def split: if_splits)
  qed
qed

lemma fix_right_ht:
  assumes "avl_ok r" "ht_ok l" "ht r = ht l + 2"
  shows "ht (fix_right (taller_left r) (TreeNode a l r h k v)) = (if kids_equal r then ht l + 3 else ht l + 2)"
proof -
  have l: "-1 \<le> ht l" by (rule ht_ok_min [OF assms(2)])
  obtain b bl br bk bv where r: "r = TreeNode b bl br (max (ht bl) (ht br) + 1) bk bv" "avl_ok bl" "avl_ok br"
    "abs (ht bl - ht br) \<le> 1"
    by (rule avl_ok_node [OF assms(1)]) (use assms(3) l in auto)
  show ?thesis
  proof (cases "ht bl > ht br")
    case False
    then show ?thesis using r assms(3) by (auto simp: fix_right_def rebalance_right_def Let_def max_def)
  next
    case True
    then have "0 \<le> ht bl" using r assms(3) l by (auto simp: max_def split: if_splits)
    then obtain c cl cr ck cv where bl: "bl = TreeNode c cl cr (max (ht cl) (ht cr) + 1) ck cv" "abs (ht cl - ht cr) \<le> 1"
      by (rule avl_ok_node [OF r(2)]) auto
    show ?thesis using True r(1, 4) bl assms(3)
      by (auto simp: fix_right_def rebalance_right_def Let_def max_def split: if_splits)
  qed
qed

lemma fixed_left:
  assumes "avl_ok l" "avl_ok r" "abs (ht l - ht r) \<le> 1" "h = max (ht l) (ht r) + 1" "ht_ok l'"
    "ht l' = ht l \<or> ht l' = ht l - 1"
    "t' = (if ht l' - ht r = -2 then fix_right (taller_left r) (TreeNode a l' r h k v)
           else fst (set_height (TreeNode a l' r h k v)))"
  shows "ht t' = (if ht l' - ht r = -2 then if kids_equal r then h else h - 1 else max (ht l') (ht r) + 1)"
    and "ht t' = h \<or> ht t' = h - 1"
proof -
  have "ht t' = (if kids_equal r then h else h - 1)" if "ht l' - ht r = -2"
  proof -
    have "ht r = ht l' + 2" "h = ht l' + 3" using that assms(3, 4, 6) by linarith+
    then show ?thesis using fix_right_ht [OF assms(2, 5), of a h k v] that assms(7) by simp
  qed
  moreover have "ht t' = max (ht l') (ht r) + 1" if "ht l' - ht r \<noteq> -2"
    using that assms(7) by (simp add: Let_def)
  ultimately show "ht t' = (if ht l' - ht r = -2 then if kids_equal r then h else h - 1 else max (ht l') (ht r) + 1)"
    by simp
  then show "ht t' = h \<or> ht t' = h - 1" using assms(3, 4, 6) by (auto split: if_splits)
qed

lemma fixed_right:
  assumes "avl_ok l" "avl_ok r" "abs (ht l - ht r) \<le> 1" "h = max (ht l) (ht r) + 1" "ht_ok r'"
    "ht r' = ht r \<or> ht r' = ht r - 1"
    "t' = (if ht l - ht r' = 2 then fix_left (\<not> taller_left l) (TreeNode a l r' h k v)
           else fst (set_height (TreeNode a l r' h k v)))"
  shows "ht t' = (if ht l - ht r' = 2 then if kids_equal l then h else h - 1 else max (ht l) (ht r') + 1)"
    and "ht t' = h \<or> ht t' = h - 1"
proof -
  have "ht t' = (if kids_equal l then h else h - 1)" if "ht l - ht r' = 2"
  proof -
    have "ht l = ht r' + 2" "h = ht r' + 3" using that assms(3, 4, 6) by linarith+
    then show ?thesis using fix_left_ht [OF assms(1, 5), of a h k v] that assms(7) by simp
  qed
  moreover have "ht t' = max (ht l) (ht r') + 1" if "ht l - ht r' \<noteq> 2"
    using that assms(7) by (simp add: Let_def)
  ultimately show "ht t' = (if ht l - ht r' = 2 then if kids_equal l then h else h - 1 else max (ht l) (ht r') + 1)"
    by simp
  then show "ht t' = h \<or> ht t' = h - 1" using assms(3, 4, 6) by (auto split: if_splits)
qed

text \<open>What the scan of a subtree with the key has found out.\<close>

definition remove_scanned ::
    "'k::linorder \<Rightarrow> ('k, 'v) avl \<Rightarrow> lock_info list \<Rightarrow> bool" where
  "remove_scanned key t infos \<longleftrightarrow>
     infos \<noteq> [] \<and> curr (infos ! 0) = ptr t \<and> myht (infos ! 0) = ht (remove_tree key t) \<and>
     (ht (remove_tree key t) = ht t \<or> ht (remove_tree key t) = ht t - 1) \<and>
     (\<not> flagged (infos ! 0) \<longrightarrow> ht (remove_tree key t) = ht t) \<and>
     (\<not> ptr_change_for_parent (infos ! 0) \<longrightarrow> ptr (remove_tree key t) = ptr t) \<and>
     (\<exists>i<length infos. flagged (infos ! i)) \<and>
     (\<forall>j. Suc j < length infos \<longrightarrow> (\<forall>p\<le>Suc j. \<not> flagged (infos ! p)) \<longrightarrow>
        path_at key j t \<noteq> Null \<and> curr (infos ! j) = ptr (path_at key j t) \<and>
        ptr (remove_tree key (path_at key j t)) = ptr (path_at key j t) \<and>
        remove_tree key t = mod_path key j (remove_tree key) t)"

text \<open>One level, the key being below it: \<open>rot\<close> says that this level rotates.\<close>

lemma remove_scanned_step:
  assumes child: "remove_scanned key (if key < k then l else rt) ci"
    and ne: "key \<noteq> k"
    and same: "\<not> rot \<Longrightarrow> remove_tree key (TreeNode a l rt h k v) =
      (if key < k then TreeNode a (remove_tree key l) rt mh k v else TreeNode a l (remove_tree key rt) mh k v)"
    and mh: "ht (remove_tree key (TreeNode a l rt h k v)) = mh" "mh = h \<or> mh = h - 1"
    and rot: "ht (remove_tree key (if key < k then l else rt)) = ht (if key < k then l else rt) \<Longrightarrow> \<not> rot"
  shows "remove_scanned key (TreeNode a l rt h k v)
      (lock_info_new (Some a) mh (h \<noteq> mh) (ptr_change_for_parent (ci ! 0)) rot # ci)"
proof -
  let ?t = "TreeNode a l rt h k v" and ?c = "if key < k then l else rt"
  let ?is = "lock_info_new (Some a) mh (h \<noteq> mh) (ptr_change_for_parent (ci ! 0)) rot # ci"
  have deep: "path_at key j ?t \<noteq> Null \<and> curr (?is ! j) = ptr (path_at key j ?t) \<and>
        ptr (remove_tree key (path_at key j ?t)) = ptr (path_at key j ?t) \<and>
        remove_tree key ?t = mod_path key j (remove_tree key) ?t"
    if len: "Suc j < length ?is" and un: "\<forall>p\<le>Suc j. \<not> flagged (?is ! p)" for j
  proof -
    have "\<not> flagged (ci ! 0)" using un [rule_format, of 1] by simp
    then have nr: "\<not> rot" using child rot by (simp add: remove_scanned_def)
    have eq: "h = mh" using un [rule_format, of 0] by simp
    show ?thesis
    proof (cases j)
      case 0
      then show ?thesis using same [OF nr] by simp
    next
      case (Suc i)
      have "\<forall>p\<le>Suc i. \<not> flagged (ci ! p)" using un Suc by (metis Suc_le_mono nth_Cons_Suc)
      then have "path_at key i ?c \<noteq> Null \<and> curr (ci ! i) = ptr (path_at key i ?c) \<and>
        ptr (remove_tree key (path_at key i ?c)) = ptr (path_at key i ?c) \<and>
        remove_tree key ?c = mod_path key i (remove_tree key) ?c"
        using child len Suc unfolding remove_scanned_def by simp
      then show ?thesis using Suc same [OF nr] eq by (simp split: if_splits)
    qed
  qed
  have ex: "\<exists>i<length ?is. flagged (?is ! i)"
    using child unfolding remove_scanned_def by (metis Suc_less_eq length_Cons nth_Cons_Suc)
  have p: "ptr (remove_tree key ?t) = ptr ?t" if "\<not> rot" using same [OF that] by simp
  show ?thesis
    unfolding remove_scanned_def using deep ex p mh by auto
qed

definition deleting :: "'k::linorder \<Rightarrow> ('k, 'v) avl \<Rightarrow> lock_info list \<Rightarrow> nat \<Rightarrow> bool" where
  "deleting key t infos q \<longleftrightarrow>
     q < length infos \<and> flagged (infos ! q) \<and> path_at key q t \<noteq> Null \<and> curr (infos ! q) = ptr (path_at key q t)"

lemma deleting_Suc:
  "deleting key (if key < k then l else r) infos q \<Longrightarrow> deleting key (TreeNode a l r h k v) (i # infos) (Suc q)"
  by (simp add: deleting_def)

lemma max_present:
  assumes "bst l" "find_max l = TreeNode pa pl pr ph pk pv"
  shows "\<not> absent pk l"
proof -
  obtain ps where ps: "kv l = ps @ [(pk, pv)]" using find_max_kv [OF assms(2)] by blast
  then have "map_of (kv l) pk \<noteq> None" by (simp add: map_of_eq_None_iff)
  then show ?thesis by (simp add: kv_find [OF assms(1)] avl_find_def)
qed

lemma scan_present_both:
  assumes ok: "avl_ok (TreeNode a l rt h key v)" and ne: "l \<noteq> Null" "rt \<noteq> Null"
    and m: "find_max l = TreeNode pa pl pr ph pk pv"
    and c: "get_locks_remove_recursive pk l (ml @ [lock_info_new (Some a) h False True False]) (find_max l) 0 (Suc level) =
      (0, (ml @ [lock_info_new (Some a) h False True False]) @ ci, td2, r2, lk2)"
    and sc: "remove_scanned pk l ci" and len: "length ml = level"
  shows "\<exists>infos lk. get_locks_remove_recursive key (TreeNode a l rt h key v) ml td r level = (0, ml @ infos, td2, level, lk) \<and>
    remove_scanned key (TreeNode a l rt h key v) infos \<and> deleting key (TreeNode a l rt h key v) infos 0"
proof -
  let ?t = "TreeNode a l rt h key v"
  have cs: "ci \<noteq> []" "myht (ci ! 0) = ht (remove_tree pk l)"
    "ht (remove_tree pk l) = ht l \<or> ht (remove_tree pk l) = ht l - 1"
    using sc by (simp_all add: remove_scanned_def)
  define rot where "rot \<longleftrightarrow> ht (remove_tree pk l) - ht rt = -2"
  define mh where "mh = (if rot then if kids_equal rt then h else h - 1 else max (ht (remove_tree pk l)) (ht rt) + 1)"
  have t': "remove_tree key ?t = (if ht (remove_tree pk l) - ht rt = -2
      then fix_right (taller_left rt) (TreeNode a (remove_tree pk l) rt h pk pv)
      else fst (set_height (TreeNode a (remove_tree pk l) rt h pk pv)))"
    by (simp only: remove_tree_simps(4) [OF ne m] Let_def)
  have node: "avl_ok l" "avl_ok rt" "abs (ht l - ht rt) \<le> 1" "h = max (ht l) (ht rt) + 1" using ok by auto
  have lok: "ht_ok (remove_tree pk l)" using node(1) by (simp add: avl_ok_def remove_ht_ok)
  have hts: "ht (remove_tree key ?t) = mh" "mh = h \<or> mh = h - 1"
    using fixed_left [OF node lok cs(3) t'] by (auto simp: mh_def rot_def)
  obtain lk where g: "get_locks_remove_recursive key ?t ml td r level =
      (0, remove_level h (myht (((ml @ [lock_info_new (Some a) h False True False]) @ ci) ! Suc level)) (ht rt)
        (myht (((ml @ [lock_info_new (Some a) h False True False]) @ ci) ! Suc level) - ht rt = -2) (kids_equal rt)
        ((ml @ [lock_info_new (Some a) h False True False]) @ ci) level, td2, level, lk)"
    using scan_both [OF ne m c, of key v td r] by blast
  have my: "myht (((ml @ [lock_info_new (Some a) h False True False]) @ ci) ! Suc level) = ht (remove_tree pk l)"
    using cs len by (simp add: nth_append)
  let ?is = "lock_info_new (Some a) mh (h \<noteq> mh) True rot # ci"
  have "get_locks_remove_recursive key ?t ml td r level = (0, ml @ ?is, td2, level, lk)"
    unfolding g my rot_def [symmetric] by (simp only: remove_level_result [OF len cs(1) mh_def]) simp
  moreover have "ptr (remove_tree key ?t) = ptr ?t" if "\<not> rot"
    using that t' by (simp add: rot_def Let_def)
  then have "remove_scanned key ?t ?is"
    unfolding remove_scanned_def using hts by (auto intro!: exI [of _ "0::nat"])
  moreover have "deleting key ?t ?is 0" by (simp add: deleting_def)
  ultimately show ?thesis by blast
qed

lemma scan_present:
  assumes "avl_ok t" "bst t" "\<not> absent key t" "length ml = level"
  shows "\<exists>infos td' r' lk. get_locks_remove_recursive key t ml td r level = (0, ml @ infos, td', r', lk) \<and>
    remove_scanned key t infos \<and> (td' = td \<or> (\<exists>q. r' = level + q \<and> deleting key t infos q))"
  using assms
proof (induction t arbitrary: key ml td r level)
  case (TreeNode a l rt h k v)
  let ?t = "avl.TreeNode a l rt h k v"
  let ?i = "lock_info_new (Some a) h False False False"
  note ok = TreeNode.prems(1)
  have node: "avl_ok l" "avl_ok rt" "abs (ht l - ht rt) \<le> 1" "h = max (ht l) (ht rt) + 1"
    and b: "bst l" "bst rt" using TreeNode.prems by auto
  have ab: "key = k \<or> \<not> absent key (if key < k then l else rt)"
    using TreeNode.prems(3) unfolding absent_node by simp
  have len: "length (ml @ [?i]) = Suc level" using TreeNode.prems(4) by simp
  consider (left) "key < k" | (here) "key = k" | (right) "k < key" by (rule linorder_cases)
  then show ?case
  proof cases
    case left
    then have ab': "\<not> absent key l" using ab by auto
    obtain ci tdc rc lkc where c: "get_locks_remove_recursive key l (ml @ [?i]) td r (Suc level) = (0, (ml @ [?i]) @ ci, tdc, rc, lkc)"
      and sc: "remove_scanned key l ci" and d: "tdc = td \<or> (\<exists>q. rc = Suc level + q \<and> deleting key l ci q)"
      using TreeNode.IH(1) [OF node(1) b(1) ab' len, of td r] by blast
    have cs: "ci \<noteq> []" "myht (ci ! 0) = ht (remove_tree key l)"
      "ht (remove_tree key l) = ht l \<or> ht (remove_tree key l) = ht l - 1"
      using sc by (simp_all add: remove_scanned_def)
    define rot where "rot \<longleftrightarrow> ht (remove_tree key l) - ht rt = -2"
    define mh where "mh = (if rot then if kids_equal rt then h else h - 1 else max (ht (remove_tree key l)) (ht rt) + 1)"
    have t': "remove_tree key ?t = (if ht (remove_tree key l) - ht rt = -2
        then fix_right (taller_left rt) (avl.TreeNode a (remove_tree key l) rt h k v)
        else fst (set_height (avl.TreeNode a (remove_tree key l) rt h k v)))"
      by (simp only: remove_tree_left [OF left] Let_def)
    have lok: "ht_ok (remove_tree key l)" using node(1) by (simp add: avl_ok_def remove_ht_ok)
    have hts: "ht (remove_tree key ?t) = mh" "mh = h \<or> mh = h - 1"
      using fixed_left [OF node lok cs(3) t'] by (auto simp: mh_def rot_def)
    have my: "myht (((ml @ [?i]) @ ci) ! Suc level) = ht (remove_tree key l)"
      using cs len by (simp add: nth_append)
    let ?is = "lock_info_new (Some a) mh (h \<noteq> mh) (ptr_change_for_parent (ci ! 0)) rot # ci"
    have "\<exists>lk. get_locks_remove_recursive key ?t ml td r level = (0, ml @ ?is, tdc, rc, lk)"
      using scan_left [OF left c, of rt v]
      unfolding my rot_def [symmetric] remove_level_result [OF TreeNode.prems(4) cs(1) mh_def] by simp
    moreover have "remove_scanned key ?t ?is"
    proof (rule remove_scanned_step [OF _ _ _ hts])
      show "remove_tree key ?t = (if key < k then avl.TreeNode a (remove_tree key l) rt mh k v
          else avl.TreeNode a l (remove_tree key rt) mh k v)" if "\<not> rot"
        using that t' left by (simp add: rot_def mh_def Let_def)
    qed (use sc left node(3) in \<open>auto simp: rot_def\<close>)
    moreover have "tdc = td \<or> (\<exists>q. rc = level + q \<and> deleting key ?t ?is q)"
      using d
    proof (elim disjE exE conjE)
      fix q assume q: "rc = Suc level + q" "deleting key l ci q"
      have "deleting key ?t ?is (Suc q)" by (rule deleting_Suc) (use q left in simp)
      then show ?thesis using q(1) by (intro disjI2 exI [of _ "Suc q"]) simp
    qed simp
    ultimately show ?thesis by blast
  next
    case right
    then have n: "\<not> key < k" "key \<noteq> k" by auto
    then have ab': "\<not> absent key rt" using ab by auto
    obtain ci tdc rc lkc where c: "get_locks_remove_recursive key rt (ml @ [?i]) td r (Suc level) = (0, (ml @ [?i]) @ ci, tdc, rc, lkc)"
      and sc: "remove_scanned key rt ci" and d: "tdc = td \<or> (\<exists>q. rc = Suc level + q \<and> deleting key rt ci q)"
      using TreeNode.IH(2) [OF node(2) b(2) ab' len, of td r] by blast
    have cs: "ci \<noteq> []" "myht (ci ! 0) = ht (remove_tree key rt)"
      "ht (remove_tree key rt) = ht rt \<or> ht (remove_tree key rt) = ht rt - 1"
      using sc by (simp_all add: remove_scanned_def)
    define rot where "rot \<longleftrightarrow> ht l - ht (remove_tree key rt) = 2"
    define mh where "mh = (if rot then if kids_equal l then h else h - 1 else max (ht l) (ht (remove_tree key rt)) + 1)"
    have t': "remove_tree key ?t = (if ht l - ht (remove_tree key rt) = 2
        then fix_left (\<not> taller_left l) (avl.TreeNode a l (remove_tree key rt) h k v)
        else fst (set_height (avl.TreeNode a l (remove_tree key rt) h k v)))"
      by (simp only: remove_tree_simps(2) [OF right] Let_def)
    have rok: "ht_ok (remove_tree key rt)" using node(2) by (simp add: avl_ok_def remove_ht_ok)
    have hts: "ht (remove_tree key ?t) = mh" "mh = h \<or> mh = h - 1"
      using fixed_right [OF node rok cs(3) t'] by (auto simp: mh_def rot_def)
    have my: "myht (((ml @ [?i]) @ ci) ! Suc level) = ht (remove_tree key rt)"
      using cs len by (simp add: nth_append)
    let ?is = "lock_info_new (Some a) mh (h \<noteq> mh) (ptr_change_for_parent (ci ! 0)) rot # ci"
    have "\<exists>lk. get_locks_remove_recursive key ?t ml td r level = (0, ml @ ?is, tdc, rc, lk)"
      using scan_right [OF right c, of l v]
      unfolding my rot_def [symmetric] remove_level_result [OF TreeNode.prems(4) cs(1) mh_def] by simp
    moreover have "remove_scanned key ?t ?is"
    proof (rule remove_scanned_step [OF _ n(2) _ hts])
      show "remove_tree key ?t = (if key < k then avl.TreeNode a (remove_tree key l) rt mh k v
          else avl.TreeNode a l (remove_tree key rt) mh k v)" if "\<not> rot"
        using that t' n by (simp add: rot_def mh_def Let_def)
    qed (use sc n node(3) in \<open>auto simp: rot_def\<close>)
    moreover have "tdc = td \<or> (\<exists>q. rc = level + q \<and> deleting key ?t ?is q)"
      using d
    proof (elim disjE exE conjE)
      fix q assume q: "rc = Suc level + q" "deleting key rt ci q"
      have "deleting key ?t ?is (Suc q)" by (rule deleting_Suc) (use q n(1) in simp)
      then show ?thesis using q(1) by (intro disjI2 exI [of _ "Suc q"]) simp
    qed simp
    ultimately show ?thesis by blast
  next
    case here
    show ?thesis
    proof (cases "l = Null \<or> rt = Null")
      case True
      let ?temp = "if l \<noteq> Null then l else rt"
      let ?is = "[lock_info_new (Some a) (ht ?temp) True True True]"
      have "ht ?temp = h - 1" using node(4) True avl_ok_min [OF node(1)] avl_ok_min [OF node(2)] by auto
      then have "remove_scanned key ?t ?is" "deleting key ?t ?is 0"
        unfolding remove_scanned_def deleting_def using True here by (auto simp: remove_tree_simps(3))
      then show ?thesis
        using scan_leaf [OF True, of key a h v ml td r level] here by (metis add_0_right)
    next
      case False
      then obtain pa pl pr ph pk pv where m: "find_max l = avl.TreeNode pa pl pr ph pk pv"
        using find_max_node [of l] by (cases "find_max l") auto
      have len': "length (ml @ [lock_info_new (Some a) h False True False]) = Suc level"
        using TreeNode.prems(4) by simp
      obtain ci tdc rc lkc where c: "get_locks_remove_recursive pk l (ml @ [lock_info_new (Some a) h False True False])
          (find_max l) 0 (Suc level) = (0, (ml @ [lock_info_new (Some a) h False True False]) @ ci, tdc, rc, lkc)"
        and sc: "remove_scanned pk l ci"
        using TreeNode.IH(1) [OF node(1) b(1) max_present [OF b(1) m] len', of "find_max l" 0] by blast
      have "avl_ok (avl.TreeNode a l rt h key v)" "l \<noteq> Null" "rt \<noteq> Null" using ok False here by simp_all
      from scan_present_both [OF this m c sc TreeNode.prems(4), of td r]
      obtain infos lk where "get_locks_remove_recursive key ?t ml td r level = (0, ml @ infos, tdc, level, lk)"
        "remove_scanned key ?t infos" "deleting key ?t infos 0"
        using here by blast
      then show ?thesis by (metis add_0_right)
    qed
  qed
qed simp

section \<open>remove from the root and remove in place\<close>

lemma first_flagged_Some:
  "first_flagged infos = Some i \<Longrightarrow> i < length infos \<and> flagged (infos ! i) \<and> (\<forall>p<i. \<not> flagged (infos ! p))"
  by (induction infos arbitrary: i) (auto split: if_splits simp: less_Suc_eq_0_disj)

lemma first_flagged_None: "first_flagged infos = None \<Longrightarrow> i < length infos \<Longrightarrow> \<not> flagged (infos ! i)"
  by (induction infos arbitrary: i) (auto split: if_splits simp: less_Suc_eq_0_disj)

lemma path_at_add: "path_at key (p + q) t = path_at key q (path_at key p t)"
proof (induction key p t rule: path_at.induct)
  case (2 key p)
  then show ?case by (cases q) simp_all
qed simp_all

lemma path_at_distinct: "distinct_addrs t \<Longrightarrow> distinct_addrs (path_at key p t)"
  by (induction key p t rule: path_at.induct) auto

lemma path_ptr_neq:
  assumes "distinct_addrs t" "p < q" "path_at key q t \<noteq> Null"
  shows "ptr (path_at key q t) \<noteq> ptr (path_at key p t)"
proof -
  obtain m where m: "q = p + Suc m" using assms(2) less_imp_Suc_add by auto
  show ?thesis
  proof (cases "path_at key p t")
    case Null
    then show ?thesis using assms(3) by (simp add: m path_at_add del: add_Suc_right)
  next
    case (TreeNode a l r h k v)
    then have "a \<notin> addrs l" "a \<notin> addrs r" using path_at_distinct [OF assms(1), of key p] by auto
    moreover have "addrs (path_at key q t) \<subseteq> addrs (if key < k then l else r)"
      using path_at_addrs [of key m "if key < k then l else r"] by (simp add: m path_at_add TreeNode del: add_Suc_right)
    ultimately show ?thesis using TreeNode ptr_addrs [of "path_at key q t" a] by (auto split: if_splits)
  qed
qed

lemma remove_absent: "avl_ok t \<Longrightarrow> absent key t \<Longrightarrow> remove_tree key t = t"
proof (induction t)
  case (TreeNode a l r h k v)
  have node: "abs (ht l - ht r) \<le> 1" "h = max (ht l) (ht r) + 1" "avl_ok l" "avl_ok r" using TreeNode.prems(1) by auto
  have ab: "key \<noteq> k" "absent key (if key < k then l else r)"
    using absent_node [of key a l r h k v] TreeNode.prems(2) by blast+
  show ?case
  proof (cases "key < k")
    case True
    then have "remove_tree key l = l" using TreeNode.IH(1) [OF node(3)] ab(2) by simp
    then show ?thesis using node True by (auto simp: remove_tree_left Let_def)
  next
    case False
    then have "remove_tree key r = r" "k < key" using TreeNode.IH(2) [OF node(4)] ab by auto
    then show ?thesis using node by (auto simp: remove_tree_simps(2) Let_def)
  qed
qed (simp add: remove_tree_simps)

lemma avl_remove_root:
  assumes "avl_ok t" "bst t" "distinct_addrs t"
  shows "fst (snd (avl_remove wl key t)) = remove_tree key t \<and>
    (\<not> absent key t \<longrightarrow> fst (avl_remove wl key t) = 0 \<and>
      (fst (snd (snd (snd (avl_remove wl key t)))) = snd (snd (remove_recursive key t)) \<or>
       (\<exists>b. ptr (subtree_at b t) = Some b \<and> ptr (remove_tree key (subtree_at b t)) = Some b \<and>
         in_place b (remove_tree key) t = remove_tree key t \<and>
         fst (snd (snd (snd (avl_remove wl key t)))) = snd (snd (remove_recursive key (subtree_at b t))))))"
proof (cases "wl IndexItself \<or> t = Null \<or> (\<exists>root. ptr t = Some root \<and> wl (NodeLock root))")
  case True
  show ?thesis
  proof (cases "t = Null")
    case True
    then have "fst (get_locks_remove wl key t) = -1" by (simp add: get_locks_remove_def)
    then show ?thesis using True by (simp add: avl_remove_def remove_tree_simps case_prod_unfold Let_def)
  next
    case False
    then obtain root where "ptr t = Some root" by (cases t) auto
    then have "fst (get_locks_remove wl key t) = 0" "fst (snd (get_locks_remove wl key t)) = ptr t"
      using True False by (auto simp: get_locks_remove_def)
    then show ?thesis by (simp add: avl_remove_def remove_tree_def case_prod_unfold Let_def)
  qed
next
  case False
  then obtain root where rt: "ptr t = Some root" "\<not> wl IndexItself" "\<not> wl (NodeLock root)"
    by (cases t) auto
  show ?thesis
  proof (cases "absent key t")
    case True
    then show ?thesis
      using rt scan_absent [OF True, of "[]" Null 0 0] remove_absent [OF assms(1) True]
      by (simp add: avl_remove_def get_locks_remove_def case_prod_unfold Let_def)
  next
    case present: False
    obtain infos td r' lk where g: "get_locks_remove_recursive key t [] Null 0 0 = (0, infos, td, r', lk)"
      and sc: "remove_scanned key t infos" and td: "td = Null \<or> deleting key t infos r'"
      using scan_present [OF assms(1, 2) present, of "[]" 0 Null 0] by auto
    obtain i where i: "first_flagged infos = Some i"
      using sc first_flagged_None unfolding remove_scanned_def by fastforce
    note f = first_flagged_Some [OF i]
    show ?thesis
    proof (cases "i \<le> 2")
      case True
      then show ?thesis
        using rt by (simp add: avl_remove_def get_locks_remove_def g i remove_tree_def case_prod_unfold Let_def)
    next
      case False
      define j where "j = i - 2"
      have ij: "i = j + 2" using False by (simp add: j_def)
      then have "Suc j < length infos" "\<forall>p\<le>Suc j. \<not> flagged (infos ! p)" using f by auto
      then have j: "path_at key j t \<noteq> Null" "curr (infos ! j) = ptr (path_at key j t)"
        "ptr (remove_tree key (path_at key j t)) = ptr (path_at key j t)"
        "remove_tree key t = mod_path key j (remove_tree key) t"
        using sc unfolding remove_scanned_def by blast+
      obtain b where b: "ptr (path_at key j t) = Some b" using mod_path_nonneg [OF j(1)] by blast
      have "in_place b (remove_tree key) t = remove_tree key t"
        using in_place_path [OF assms(3) b, of "remove_tree key"] j(3, 4) b by simp
      then have tree: "in_place b (\<lambda>s. fst (remove_recursive key s)) t = remove_tree key t"
        by (simp add: remove_tree_def [abs_def])
      have at_b: "subtree_at b t = path_at key j t" by (rule subtree_at_path [OF assms(3) b])
      then have place: "ptr (subtree_at b t) = Some b" "ptr (remove_tree key (subtree_at b t)) = Some b" using b j(3) by simp_all
      have dead: "curr (infos ! r') \<noteq> Some b" if "td \<noteq> Null"
      proof -
        have d: "deleting key t infos r'" using td that by simp
        then have "i \<le> r'" using f unfolding deleting_def by (metis not_le)
        then have "j < r'" using ij by simp
        from path_ptr_neq [OF assms(3) this, of key] d b show ?thesis by (auto simp: deleting_def)
      qed
      show ?thesis
      proof (cases "td = Null")
        case True
        then show ?thesis
          using rt tree False j(2) b place \<open>in_place b (remove_tree key) t = remove_tree key t\<close>
          by (auto simp: avl_remove_def get_locks_remove_def g i remove_tree_def case_prod_unfold Let_def simp flip: j_def)
      next
        case False
        then show ?thesis
          using rt tree \<open>\<not> i \<le> 2\<close> j(2) b dead [OF False] place \<open>in_place b (remove_tree key) t = remove_tree key t\<close>
          by (auto simp: avl_remove_def get_locks_remove_def g i remove_tree_def case_prod_unfold Let_def simp flip: j_def)
      qed
    qed
  qed
qed

section \<open>Nodes allocated and freed\<close>

fun allocs :: "event list \<Rightarrow> addr multiset" where
  "allocs [] = {#}"
| "allocs (e # es) = (case e of Alloc a \<Rightarrow> {#a#} | _ \<Rightarrow> {#}) + allocs es"

fun frees :: "event list \<Rightarrow> addr multiset" where
  "frees [] = {#}"
| "frees (e # es) = (case e of Free a \<Rightarrow> {#a#} | _ \<Rightarrow> {#}) + frees es"

lemma allocs_append [simp]: "allocs (es @ fs) = allocs es + allocs fs"
  by (induction es) auto

lemma frees_append [simp]: "frees (es @ fs) = frees es + frees fs"
  by (induction es) auto

abbreviation nodes :: "('k, 'v) avl \<Rightarrow> addr multiset" where
  "nodes t \<equiv> mset (addr_list t)"

text \<open>Rotations and height updates allocate and free nothing, and keep the nodes.\<close>

definition moves :: "('k, 'v) avl \<Rightarrow> ('k, 'v) avl \<times> event list \<Rightarrow> bool" where
  "moves t p \<longleftrightarrow> nodes (fst p) = nodes t \<and> allocs (snd p) = {#} \<and> frees (snd p) = {#}"

lemma moves_rotates: "moves t (left_rotate t)" "moves t (right_rotate t)"
  by (cases t rule: left_rotate.cases; simp add: moves_def Let_def)
    (cases t rule: right_rotate.cases; simp add: moves_def Let_def)

lemma moves_set_height: "moves t (set_height t)"
  by (cases t) (simp_all add: moves_def Let_def)

lemma moves_doubles: "moves t (leftright_rotate t)" "moves t (rightleft_rotate t)"
proof -
  show "moves t (leftright_rotate t)"
  proof (cases t)
    case (TreeNode a l r h k v)
    then show ?thesis
      using moves_rotates(2) [of r] moves_rotates(1) [of "TreeNode a l (fst (right_rotate r)) h k v"]
      by (simp add: moves_def case_prod_unfold Let_def)
  qed (simp add: moves_def)
  show "moves t (rightleft_rotate t)"
  proof (cases t)
    case (TreeNode a l r h k v)
    then show ?thesis
      using moves_rotates(1) [of l] moves_rotates(2) [of "TreeNode a (fst (left_rotate l)) r h k v"]
      by (simp add: moves_def case_prod_unfold Let_def)
  qed (simp add: moves_def)
qed

lemma moves_rebalance: "moves t (rebalance_left d t)" "moves t (rebalance_right d t)"
  by (simp_all add: rebalance_left_def rebalance_right_def moves_rotates moves_doubles)

lemmas moves_simps = moves_rebalance [unfolded moves_def] moves_set_height [unfolded moves_def]

lemma nodes_add:
  "nodes (fst (add_recursive key v0 n t)) = nodes t + allocs (fst (snd (snd (add_recursive key v0 n t)))) \<and>
   allocs (fst (snd (snd (add_recursive key v0 n t)))) = (if absent key t then {#n#} else {#}) \<and>
   frees (fst (snd (snd (add_recursive key v0 n t)))) = {#}"
proof (induction t)
  case (TreeNode a l r h k v)
  show ?case
    using TreeNode.IH by (simp add: moves_simps case_prod_unfold Let_def del: set_height.simps)
qed simp

lemma after_moves:
  "moves t (fst (after_left l r t rb), fst (snd (after_left l r t rb)))"
  "moves t (fst (after_right l r t rb), fst (snd (after_right l r t rb)))"
  by (simp_all add: moves_simps moves_def after_left_def after_right_def case_prod_unfold Let_def del: set_height.simps)

lemma nodes_remove:
  "nodes (fst (remove_recursive key t)) + frees (fst (snd (remove_recursive key t))) = nodes t \<and>
   allocs (fst (snd (remove_recursive key t))) = {#} \<and>
   (bst t \<longrightarrow> size (frees (fst (snd (remove_recursive key t)))) = (if absent key t then 0 else 1))"
proof (induction t arbitrary: key)
  case (TreeNode a l r h k v)
  note am = after_moves [unfolded moves_def fst_conv snd_conv]
  consider "k < key" | "key < k" "\<not> k < key" "key \<noteq> k" | "key = k" by fastforce
  then show ?case
  proof cases
    case 3
    show ?thesis
    proof (cases "l = Null \<or> r = Null")
      case False
      then obtain pa pl pr ph pk pv where m: "find_max l = avl.TreeNode pa pl pr ph pk pv"
        using find_max_node [of l] by (cases "find_max l") auto
      show ?thesis
        using 3 False m TreeNode.IH(1) [of pk] max_present [OF _ m]
        by (auto simp add: am case_prod_unfold Let_def)
    qed (use 3 in auto)
  next
    case 1
    then show ?thesis
      using TreeNode.IH(2) [of key] by (auto simp add: am case_prod_unfold Let_def)
  next
    case 2
    then show ?thesis
      using TreeNode.IH(1) [of key] by (auto simp add: am case_prod_unfold Let_def)
  qed
qed simp

section \<open>The node whose value add returns\<close>

fun ents :: "('k, 'v) avl \<Rightarrow> ('k \<times> addr \<times> 'v) list" where
  "ents Null = []"
| "ents (TreeNode a l r h k v) = ents l @ (k, a, v) # ents r"

lemma kv_ents: "kv t = map (\<lambda>(k, a, v). (k, v)) (ents t)"
  by (induction t) auto

lemma keys_ents: "map fst (kv t) = map fst (ents t)"
  by (simp add: kv_ents case_prod_unfold comp_def)

lemma ents_bst:
  "bst (TreeNode a l r h k v) \<Longrightarrow> (\<forall>x\<in>set (ents l). fst x < k) \<and> (\<forall>x\<in>set (ents r). k < fst x)"
  unfolding bst_def keys_ents by (auto simp: sorted_wrt_append)

lemma ents_rotates [simp]: "ents (fst (left_rotate t)) = ents t" "ents (fst (right_rotate t)) = ents t"
  by (cases t rule: left_rotate.cases; simp add: Let_def) (cases t rule: right_rotate.cases; simp add: Let_def)

lemma ents_fix [simp]:
  "ents (fst (set_height t)) = ents t" "ents (fix_left d t) = ents t" "ents (fix_right d t) = ents t"
proof -
  show sh: "ents (fst (set_height t)) = ents t" for t :: "('a, 'b) avl"
    by (cases t) (simp_all add: Let_def)
  have "ents (fst (leftright_rotate t)) = ents t"
    by (cases t) (simp_all only: leftright_tree ents_rotates ents.simps, simp)
  then show "ents (fix_right d t) = ents t" by (simp add: fix_right_def rebalance_right_def sh)
  have "ents (fst (rightleft_rotate t)) = ents t"
    by (cases t) (simp_all only: rightleft_tree ents_rotates ents.simps, simp)
  then show "ents (fix_left d t) = ents t" by (simp add: fix_left_def rebalance_left_def sh)
qed

lemma ents_add: "bst t \<Longrightarrow> ents (add_tree key v0 n t) = ins key (n, v0) (ents t)"
proof (induction t)
  case (TreeNode a l r h k v)
  note b = ents_bst [OF TreeNode.prems]
  consider "key < k" | "key = k" | "k < key" by (rule linorder_cases)
  then show ?case
  proof cases
    case 1
    moreover have "\<forall>p\<in>set ((k, a, v) # ents r). key < fst p" using 1 b by (auto intro: less_trans)
    ultimately show ?thesis
      using TreeNode ins_left [of "(k, a, v) # ents r" key "(n, v0)" "ents l"] by (simp add: add_tree_simps(3) Let_def)
  next
    case 2
    moreover have "\<forall>p\<in>set (ents l). fst p < key" using 2 b by auto
    ultimately show ?thesis
      using ins_right [of "ents l" key "(n, v0)" "(k, a, v) # ents r"] by (simp add: add_tree_simps(2))
  next
    case 3
    moreover have "\<forall>p\<in>set (ents l @ [(k, a, v)]). fst p < key" using 3 b by (auto intro: less_trans)
    ultimately show ?thesis
      using TreeNode ins_right [of "ents l @ [(k, a, v)]" key "(n, v0)" "ents r"] by (simp add: add_tree_simps(4) Let_def)
  qed
qed (simp add: add_tree_simps(1))

lemma find_ents: "bst t \<Longrightarrow> fst (get_locks_find key t) = map_of (ents t) key"
proof (induction t)
  case (TreeNode a l r h k v)
  note b = ents_bst [OF TreeNode.prems]
  have "map_of (ents l) key = None" if "\<not> key < k"
    using that b by (auto simp: map_of_eq_None_iff)
  moreover have "map_of (ents r) key = None" if "\<not> k < key"
    using that b by (auto simp: map_of_eq_None_iff)
  ultimately show ?case
    using TreeNode by (cases "key < k"; cases "key = k")
      (auto simp: map_add_def case_prod_unfold Let_def split: option.splits)
qed simp

lemma map_of_ins: "map_of (ins k x ps) = (map_of ps)(k \<mapsto> case map_of ps k of None \<Rightarrow> x | Some y \<Rightarrow> y)"
  if "sorted_wrt (<) (map fst ps)"
  using that
proof (induction ps)
  case (Cons p ps)
  have "map_of ps k = None" if "k < fst p"
    using Cons.prems that by (force simp: map_of_eq_None_iff)
  then show ?case using Cons by (auto simp: fun_eq_iff split: option.splits)
qed simp

lemma find_add:
  assumes "bst t"
  shows "fst (get_locks_find key' (add_tree key v0 n t)) =
    (if key' = key then Some (case fst (get_locks_find key t) of None \<Rightarrow> (n, v0) | Some p \<Rightarrow> p)
     else fst (get_locks_find key' t))"
proof -
  have "sorted_wrt (<) (map fst (ents t))" using assms by (simp add: bst_def keys_ents)
  from map_of_ins [OF this, of key "(n, v0)"] show ?thesis
    using assms bst_add [OF assms, of key v0 n] by (simp add: find_ents ents_add split: option.splits)
qed

lemma find_remove: "bst t \<Longrightarrow> avl_find key' (remove_tree key t) = (if key' = key then None else avl_find key' t)"
proof -
  assume b: "bst t"
  have f: "map_of (filter (\<lambda>p. fst p \<noteq> key) ps) = (map_of ps)(key := None)" for ps :: "('a \<times> 'b) list"
    by (induction ps) (auto simp: fun_eq_iff)
  show ?thesis
    using kv_find [OF bst_remove [OF b, of key], of key'] kv_find [OF b, of key'] kv_remove [OF b, of key] f [of "kv t"]
    by (simp add: fun_eq_iff split: if_splits)
qed

section \<open>The tree as a keyed store\<close>

interpretation avl_store:
  keyed_store "\<lambda>t. bst t \<and> ht_ok t" "\<lambda>t k. avl_find k t" "\<lambda>k x t. add_tree k (fst x) (snd x) t" remove_tree
    "\<lambda>x w. case w of None \<Rightarrow> fst x | Some u \<Rightarrow> u"
proof unfold_locales
  show "bst (add_tree k (fst x) (snd x) t) \<and> ht_ok (add_tree k (fst x) (snd x) t)"
    if "bst t \<and> ht_ok t" for t :: "('a, 'b) avl" and k x
    using that by (simp add: bst_add add_ht_ok)
  show "bst (remove_tree k t) \<and> ht_ok (remove_tree k t)" if "bst t \<and> ht_ok t" for t :: "('a, 'b) avl" and k
    using that by (simp add: bst_remove remove_ht_ok)
  show "(\<lambda>q. avl_find q (add_tree k (fst x) (snd x) t)) =
      (\<lambda>q. avl_find q t)(k \<mapsto> case avl_find k t of None \<Rightarrow> fst x | Some u \<Rightarrow> u)"
    if "bst t \<and> ht_ok t" for t :: "('a, 'b) avl" and k x
    using that by (auto simp: fun_eq_iff avl_find_def find_add split: option.splits)
  show "(\<lambda>q. avl_find q (remove_tree k t)) = (\<lambda>q. avl_find q t)(k := None)"
    if "bst t \<and> ht_ok t" for t :: "('a, 'b) avl" and k
    using that by (auto simp: fun_eq_iff find_remove)
qed

section \<open>Sequences of calls\<close>

text \<open>
  Calls on an \<open>AvlTree<int, int>\<close> by transactions that hold no lock: \<open>Inl k\<close> adds \<open>k\<close>, the new
  node at the next address; \<open>Inr k\<close> removes \<open>k\<close>.
\<close>

fun avl_run :: "(int + int) list \<Rightarrow> addr \<Rightarrow> (int, int) avl \<Rightarrow> (int, int) avl" where
  "avl_run [] n t = t"
| "avl_run (c # cs) n t =
     avl_run cs (Suc n)
       (case c of Inl k \<Rightarrow> fst (avl_add (\<lambda>_. False) k 0 n t)
        | Inr k \<Rightarrow> fst (snd (avl_remove (\<lambda>_. False) k t)))"

text \<open>Removing a key can leave the tree unbalanced: when the left subtree has become too high
  and its two subtrees are equally high, \<open>remove\<close> rotates twice where it has to rotate once.\<close>

theorem remove_loses_balance:
  "balanced (avl_run [Inl 5, Inl 2, Inl 6, Inl 1, Inl 3, Inl 7, Inl 0, Inl 4] 0 Null) \<and>
   \<not> balanced (avl_run [Inl 5, Inl 2, Inl 6, Inl 1, Inl 3, Inl 7, Inl 0, Inl 4, Inr 7] 0 Null)"
  by code_simp

text \<open>A lost balance is not only a matter of speed: after one \<open>remove\<close> in a tree of 35 keys and one
  more \<open>add\<close>, a height stored above the subtree that was changed in place is wrong.\<close>

theorem stale_height_after_remove:
  "ht_ok (avl_run [Inl 23, Inl 34, Inl 1, Inl 7, Inl 4, Inl 26, Inl 5, Inl 21, Inl 6, Inl 18, Inl 25, Inl 9, Inl 31,
      Inl 24, Inl 20, Inl 13, Inl 2, Inl 28, Inl 11, Inl 33, Inl 17, Inl 19, Inl 35, Inl 12, Inl 22, Inl
      27, Inl 29, Inl 30, Inl 14, Inl 0, Inl 15, Inl 3, Inl 32, Inl 16, Inl 10, Inr 20] 0 Null) \<and>
   \<not> ht_ok (avl_run [Inl 23, Inl 34, Inl 1, Inl 7, Inl 4, Inl 26, Inl 5, Inl 21, Inl 6, Inl 18, Inl 25, Inl 9, Inl 31,
      Inl 24, Inl 20, Inl 13, Inl 2, Inl 28, Inl 11, Inl 33, Inl 17, Inl 19, Inl 35, Inl 12, Inl 22, Inl
      27, Inl 29, Inl 30, Inl 14, Inl 0, Inl 15, Inl 3, Inl 32, Inl 16, Inl 10, Inr 20, Inl 8] 0 Null)"
  by (rule conjI; code_simp)

section \<open>Properties\<close>

lemma avl_add_tuple:
  assumes "avl_ok t" "distinct_addrs t" "avl_add wl key v0 n t = (t', p, es, rb, lk)"
  shows "t' = add_tree key v0 n t" "p = Some (fst (snd (add_recursive key v0 n t)))"
  using avl_add_root [OF assms(1, 2), of wl key v0 n] assms(3) by simp_all

lemma distinct_add:
  assumes "distinct_addrs t" "n \<notin> addrs t"
  shows "distinct_addrs (add_tree key v0 n t)"
proof -
  have "nodes (add_tree key v0 n t) = mset (if absent key t then n # addr_list t else addr_list t)"
    using nodes_add [of key v0 n t] by (simp add: add_tree_def)
  moreover have "distinct (if absent key t then n # addr_list t else addr_list t)"
    using assms by (simp add: distinct_addrs_def)
  ultimately show ?thesis unfolding distinct_addrs_def by (metis mset_eq_imp_distinct_iff)
qed

text \<open>C7. \<open>add\<close> on a balanced tree, whatever locks the transaction holds: the tree stays a balanced search
  tree with right heights and no shared nodes, the key is there with the value it had or the default
  value, every other key is as before, and the value returned is the one in the key's node.\<close>

theorem avl_add_correct:
  assumes "avl_ok t" "bst t" "distinct_addrs t" "n \<notin> addrs t" "avl_add wl key v0 n t = (t', p, es, rb, lk)"
  shows "avl_ok t' \<and> bst t' \<and> distinct_addrs t' \<and>
    avl_find key' t' = (if key' = key then Some (case avl_find key t of None \<Rightarrow> v0 | Some v \<Rightarrow> v) else avl_find key' t) \<and>
    (\<exists>a w. p = Some a \<and> fst (get_locks_find key t') = Some (a, w))"
proof -
  note t' = avl_add_tuple [OF assms(1, 3, 5)]
  have "fst (snd (add_recursive key v0 n t)) = (case fst (get_locks_find key t) of None \<Rightarrow> n | Some p \<Rightarrow> fst p)"
    using add_node [of key t v0 n] add_node_found [of key t] by (auto split: option.splits)
  then show ?thesis
    using add_avl [OF assms(1), of key v0 n] bst_add [OF assms(2), of key v0 n] distinct_add [OF assms(3, 4), of key v0]
    unfolding t' avl_find_def find_add [OF assms(2)] by (auto split: option.splits)
qed

lemma avl_add_correct_witness:
  "let t = TreeNode 0 (TreeNode 1 Null Null 0 2 0) (TreeNode 2 Null Null 0 6 0) 1 (5::int) (0::int);
       t' = fst (avl_add (\<lambda>_. False) 1 7 3 t)
   in avl_ok t' \<and> avl_find 1 t' = Some 7"
proof -
  let ?t = "TreeNode 0 (TreeNode 1 Null Null 0 2 0) (TreeNode 2 Null Null 0 6 0) 1 (5::int) (0::int)"
  have t: "avl_ok ?t" "bst ?t" "distinct_addrs ?t" "3 \<notin> addrs ?t" "avl_find 1 ?t = None"
    by (simp_all add: avl_find_def)
  obtain t' p es rb lk where a: "avl_add (\<lambda>_. False) 1 7 3 ?t = (t', p, es, rb, lk)" by (metis prod_cases5)
  show ?thesis using avl_add_correct [OF t(1-4) a, of 1] t(5) unfolding a Let_def by simp
qed

text \<open>\<open>add\<close> write-locks and changes only the subtree that its scan has found to be affected, and on a
  balanced tree this gives the tree that the recursion from the root gives.\<close>

theorem avl_add_as_from_root:
  assumes "avl_ok t" "distinct_addrs t"
  shows "fst (avl_add wl key v0 n t) = fst (add_recursive key v0 n t) \<and>
    fst (snd (avl_add wl key v0 n t)) = Some (fst (snd (add_recursive key v0 n t)))"
  using avl_add_root [OF assms] by (simp add: add_tree_def)

lemma avl_add_as_from_root_witness:
  "fst (avl_add (\<lambda>_. False) 4 9 3 (TreeNode 0 (TreeNode 1 Null Null 0 (2::int) (0::int)) Null 1 5 0)) =
   TreeNode 3 (TreeNode 1 Null Null 0 2 0) (TreeNode 0 Null Null 0 5 0) 1 4 9"
  using avl_add_as_from_root [of "TreeNode 0 (TreeNode 1 Null Null 0 (2::int) (0::int)) Null 1 5 0" "\<lambda>_. False" 4 9 3]
  by (simp add: rebalance_left_def Let_def)

text \<open>C10. \<open>remove\<close> on a balanced tree, whatever locks the transaction holds, gives the tree that the
  recursion from the root gives, and returns 0 when the key is there. (It is estimated which levels
  change; the node removed is never above the locked subtree or its root.)\<close>

theorem avl_remove_as_from_root:
  assumes "avl_ok t" "bst t" "distinct_addrs t"
  shows "fst (snd (avl_remove wl key t)) = fst (remove_recursive key t) \<and>
    (avl_find key t \<noteq> None \<longrightarrow> fst (avl_remove wl key t) = 0)"
  using avl_remove_root [OF assms, of wl key] by (auto simp: remove_tree_def avl_find_def)

lemma avl_remove_as_from_root_witness:
  "let t = TreeNode 0 (TreeNode 1 Null Null 0 (2::int) (0::int)) Null 1 5 0
   in fst (snd (avl_remove (\<lambda>_. False) 5 t)) = TreeNode 1 Null Null 0 2 0 \<and> fst (avl_remove (\<lambda>_. False) 5 t) = 0"
  using avl_remove_as_from_root [of "TreeNode 0 (TreeNode 1 Null Null 0 (2::int) (0::int)) Null 1 5 0" "\<lambda>_. False" 5]
  by (simp add: avl_find_def Let_def)

text \<open>The node that \<open>remove_recursive\<close> frees: that of the key, or if it has two children, that of the
  largest key to its left, whose entry moves into the key's node.\<close>

fun freed_node :: "'k::linorder \<Rightarrow> ('k, 'v) avl \<Rightarrow> addr option" where
  "freed_node key Null = None"
| "freed_node key (TreeNode a l r h k v) =
     (if key > k then freed_node key r
      else if key = k then (if l = Null \<or> r = Null then Some a else ptr (find_max l))
      else freed_node key l)"

lemma freed_node_max:
  "bst t \<Longrightarrow> find_max t = TreeNode a l r h k v \<Longrightarrow> freed_node k t = Some a"
proof (induction t)
  case (TreeNode b tl tr th tk tv)
  show ?case
  proof (cases "tr = Null")
    case False
    then have m: "find_max tr = TreeNode a l r h k v" using TreeNode.prems(2) by simp
    obtain ps where "kv tr = ps @ [(k, v)]" using find_max_kv [OF m] by blast
    then have "tk < k" using TreeNode.prems(1) by (auto simp: bst_def sorted_wrt_append)
    then show ?thesis using TreeNode.IH(2) m TreeNode.prems(1) by simp
  qed (use TreeNode.prems in auto)
qed simp

lemma frees_node:
  "bst t \<Longrightarrow> frees (fst (snd (remove_recursive key t))) = (case freed_node key t of None \<Rightarrow> {#} | Some a \<Rightarrow> {#a#})"
proof (induction t arbitrary: key)
  case (TreeNode a l r h k v)
  note am = after_moves [unfolded moves_def fst_conv snd_conv]
  have b: "bst l" "bst r" using TreeNode.prems by simp_all
  consider "k < key" | "key < k" "\<not> k < key" "key \<noteq> k" | "key = k" by fastforce
  then show ?case
  proof cases
    case 3
    show ?thesis
    proof (cases "l = Null \<or> r = Null")
      case False
      then obtain pa pl pr ph pk pv where m: "find_max l = avl.TreeNode pa pl pr ph pk pv"
        using find_max_node [of l] by (cases "find_max l") auto
      show ?thesis
        using 3 False m TreeNode.IH(1) [OF b(1), of pk] freed_node_max [OF b(1) m]
        by (auto simp add: am case_prod_unfold Let_def)
    qed (use 3 in auto)
  next
    case 1
    then show ?thesis using TreeNode.IH(2) [OF b(2), of key] by (auto simp add: am case_prod_unfold Let_def)
  next
    case 2
    then show ?thesis using TreeNode.IH(1) [OF b(1), of key] by (auto simp add: am case_prod_unfold Let_def)
  qed
qed simp

lemma freed_node_present: "bst t \<Longrightarrow> (freed_node key t = None) = (avl_find key t = None)"
proof -
  assume b: "bst t"
  have "size (frees (fst (snd (remove_recursive key t)))) = (if avl_find key t = None then 0 else 1)"
    using nodes_remove [where key = key and t = t] b by (simp add: avl_find_def)
  then show ?thesis using frees_node [OF b, of key] by (cases "freed_node key t") (auto split: if_splits)
qed

text \<open>C15. The recursion of \<open>remove\<close> from the root of a search tree with right heights, balanced or not: the
  tree is again one, the key is gone and every other key is as before, no null pointer is followed, and
  exactly one node is freed if the key was there, and none otherwise: the key's node, or when that has
  two children the node of the largest key to its left. What was a node and is not freed is one
  still. On a balanced tree this is the tree of \<open>remove\<close> itself, which runs the recursion lower down.\<close>

theorem avl_remove_correct:
  assumes "ht_ok t" "bst t" "remove_recursive key t = (t', es, rb)"
  shows "ht_ok t' \<and> bst t' \<and> avl_find key' t' = (if key' = key then None else avl_find key' t) \<and>
    NullDeref \<notin> set es \<and> mset (addr_list t') + frees es = mset (addr_list t) \<and>
    frees es = (case freed_node key t of None \<Rightarrow> {#} | Some a \<Rightarrow> {#a#}) \<and> (freed_node key t = None \<longleftrightarrow> avl_find key t = None) \<and>
    (avl_ok t \<and> distinct_addrs t \<longrightarrow> fst (snd (avl_remove wl key t)) = t')"
proof -
  have t': "t' = remove_tree key t" by (simp add: remove_tree_def assms(3))
  have "nodes t' + frees es = nodes t"
    using nodes_remove [where key = key and t = t] assms(2) by (simp add: assms(3))
  moreover have "NullDeref \<notin> set es" using remove_safe [OF assms(1), of key] by (simp add: assms(3))
  moreover have "frees es = (case freed_node key t of None \<Rightarrow> {#} | Some a \<Rightarrow> {#a#})"
    using frees_node [OF assms(2), of key] by (simp add: assms(3))
  moreover have "avl_ok t \<and> distinct_addrs t \<longrightarrow> fst (snd (avl_remove wl key t)) = t'"
    using avl_remove_root [OF _ assms(2), of wl key] by (simp add: t')
  ultimately show ?thesis
    unfolding t' using freed_node_present [OF assms(2), of key]
    by (simp add: remove_ht_ok [OF assms(1)] bst_remove [OF assms(2)] find_remove [OF assms(2)])
qed

lemma avl_remove_correct_witness:
  "let (t', es, rb) = remove_recursive 5 (TreeNode 0 (TreeNode 1 Null Null 0 (2::int) (7::int)) (TreeNode 2 Null Null 0 6 0) 1 5 0)
   in ht_ok t' \<and> avl_find 5 t' = None \<and> avl_find 2 t' = Some 7 \<and> frees es = {#1#}"
proof -
  let ?t = "TreeNode 0 (TreeNode 1 Null Null 0 (2::int) (7::int)) (TreeNode 2 Null Null 0 6 0) 1 5 0"
  have "ht_ok ?t" "bst ?t" by simp_all
  note c = avl_remove_correct [OF this, of 5]
  show ?thesis
    by (cases "remove_recursive 5 ?t") (use c [of _ _ _ 5] c [of _ _ _ 2] in \<open>simp add: avl_find_def Let_def\<close>)
qed


text \<open>A run of the two recursions, balanced or not, is the same run on a finite map.\<close>

lemma recursions_refine_map:
  "avl_find key (fold (\<lambda>c t. case c of Inl (k, x) \<Rightarrow> fst (add_recursive k (fst x) (snd x) t)
                                       | Inr k \<Rightarrow> fst (remove_recursive k t)) cs Null) =
   fold (\<lambda>c m. case c of Inl (k, x) \<Rightarrow> m(k \<mapsto> case m k of None \<Rightarrow> fst x | Some w \<Rightarrow> w) | Inr k \<Rightarrow> m(k := None))
     cs Map.empty key"
proof -
  show ?thesis
    using avl_store.run_get [of Null cs, THEN fun_cong, of key] unfolding add_tree_def remove_tree_def by (simp add: avl_find_def [of _ Null])
qed

section \<open>Runs\<close>

text \<open>A call of \<open>add\<close>, with the default value and what the allocator returns, or of \<open>remove\<close>; \<open>wl\<close> are the
  locks that the transaction has write-locked by then.\<close>

datatype ('k, 'v) tree_op = Call_add "lock_item \<Rightarrow> bool" 'k 'v addr | Call_remove "lock_item \<Rightarrow> bool" 'k

fun tree_call :: "('k::linorder, 'v) tree_op \<Rightarrow> ('k, 'v) avl \<Rightarrow> ('k, 'v) avl" where
  "tree_call (Call_add wl k v n) t = fst (avl_add wl k v n t)"
| "tree_call (Call_remove wl k) t = fst (snd (avl_remove wl k t))"

fun map_call :: "('k, 'v) tree_op \<Rightarrow> ('k \<rightharpoonup> 'v) \<Rightarrow> ('k \<rightharpoonup> 'v)" where
  "map_call (Call_add wl k v n) M = M(k \<mapsto> case M k of None \<Rightarrow> v | Some w \<Rightarrow> w)"
| "map_call (Call_remove wl k) M = M(k := None)"

text \<open>A run whose new nodes are new and in which no \<open>remove\<close> loses the balance.\<close>

fun balanced_run :: "('k::linorder, 'v) tree_op list \<Rightarrow> ('k, 'v) avl \<Rightarrow> bool" where
  "balanced_run [] t = True"
| "balanced_run (c # cs) t =
     ((case c of Call_add wl k v n \<Rightarrow> n \<notin> addrs t | Call_remove wl k \<Rightarrow> avl_ok (tree_call c t)) \<and> balanced_run cs (tree_call c t))"

lemma tree_call_ok:
  assumes t: "avl_ok t" "bst t" "distinct_addrs t" and c: "balanced_run [c] t"
  shows "avl_ok (tree_call c t)" "bst (tree_call c t)" "distinct_addrs (tree_call c t)"
    "(\<lambda>k. avl_find k (tree_call c t)) = map_call c (\<lambda>k. avl_find k t)"
proof -
  have "avl_ok (tree_call c t) \<and> bst (tree_call c t) \<and> distinct_addrs (tree_call c t) \<and>
    (\<lambda>k. avl_find k (tree_call c t)) = map_call c (\<lambda>k. avl_find k t)"
  proof (cases c)
    case (Call_add wl key v0 n)
    have n: "n \<notin> addrs t" using c by (simp add: Call_add)
    have e: "tree_call c t = add_tree key v0 n t" using avl_add_root [OF t(1, 3), of wl key v0 n] by (simp add: Call_add)
    show ?thesis
      unfolding e using add_avl [OF t(1), of key v0 n] bst_add [OF t(2), of key v0 n] distinct_add [OF t(3) n, of key v0]
      by (auto simp: Call_add avl_find_def find_add [OF t(2)] fun_eq_iff split: option.splits)
  next
    case (Call_remove wl key)
    have e: "tree_call c t = remove_tree key t" using avl_remove_root [OF t, of wl key] by (simp add: Call_remove)
    have "nodes (remove_tree key t) \<subseteq># nodes t"
      using nodes_remove [where key = key and t = t] by (metis mset_subset_eq_add_left remove_tree_def)
    then have "distinct_addrs (remove_tree key t)" using t(3) unfolding distinct_addrs_def
      by (metis distinct_append mset_append mset_eq_imp_distinct_iff ex_mset subset_mset.le_iff_add)
    moreover have "avl_ok (tree_call c t)" using c by (simp add: Call_remove)
    ultimately show ?thesis unfolding e by (simp add: Call_remove bst_remove [OF t(2)] find_remove [OF t(2)] fun_eq_iff)
  qed
  then show "avl_ok (tree_call c t)" "bst (tree_call c t)" "distinct_addrs (tree_call c t)"
    "(\<lambda>k. avl_find k (tree_call c t)) = map_call c (\<lambda>k. avl_find k t)" by simp_all
qed

lemma balanced_run_map:
  assumes "avl_ok t" "bst t" "distinct_addrs t" "balanced_run cs t"
  shows "(\<lambda>k. avl_find k (fold tree_call cs t)) = fold map_call cs (\<lambda>k. avl_find k t)"
  using assms
proof (induction cs arbitrary: t)
  case (Cons c cs)
  have "balanced_run [c] t" "balanced_run cs (tree_call c t)" using Cons.prems(4) by simp_all
  note ok = tree_call_ok [OF Cons.prems(1-3) this(1)] and rest = this(2)
  show ?case using Cons.IH [OF ok(1-3) rest] by (simp add: ok(4))
qed simp

text \<open>C13. From the empty tree, a run of \<open>add\<close> and \<open>remove\<close> in any order, with any locks held, is the same run
  on a finite map: \<open>add\<close> keeps a value that is there, \<open>remove\<close> deletes the key, and \<open>find\<close> looks it up. The
  run must not lose the balance at a \<open>remove\<close>; a run of \<open>add\<close>s never does. The locks of the run are granted.\<close>

theorem avl_refines_map:
  assumes "balanced_run cs Null"
  shows "avl_find key (fold tree_call cs Null) = fold map_call cs Map.empty key"
proof -
  have "avl_ok (Null :: ('a, 'b) avl)" "bst (Null :: ('a, 'b) avl)" "distinct_addrs (Null :: ('a, 'b) avl)" by (simp_all add: bst_def)
  from balanced_run_map [OF this assms] have "(\<lambda>k. avl_find k (fold tree_call cs Null)) = fold map_call cs Map.empty"
    by (simp add: avl_find_def)
  then show ?thesis by (rule fun_cong)
qed

lemma avl_refines_map_witness:
  "avl_find 3 (fold tree_call [Call_add (\<lambda>_. False) 5 50 1, Call_add (\<lambda>_. False) 3 30 2, Call_add (\<lambda>_. False) 4 40 3,
     Call_remove (\<lambda>_. False) (5::int), Call_add (\<lambda>_. False) 3 31 4] Null) = Some (30::int)"
proof -
  have "balanced_run [Call_add (\<lambda>_. False) 5 50 1, Call_add (\<lambda>_. False) 3 30 2, Call_add (\<lambda>_. False) 4 40 3,
     Call_remove (\<lambda>_. False) (5::int), Call_add (\<lambda>_. False) 3 (31::int) 4] Null" by code_simp
  from avl_refines_map [OF this, of 3] show ?thesis by simp
qed

end
