(* ===== verification/Property_List.thy ===== *)
theory Property_List
  imports String_Table
begin

text \<open>
  The property list of a node or an edge, \<open>src/PropertyList.cc\<close> with the inline members of
  \<open>PropertyRef\<close> in \<open>include/iterator.h\<close>. The chunks are bytes in memory, as in the code: the first
  byte of a chunk is its size less one; then come properties, each a byte with size and type, two
  bytes of id and the value; unused spaces; and \<open>p_end\<close> or a link to the next chunk. Functions
  return the changed state; the log, store, flush, allocator, index and iterator calls they make
  are listed in it in program order. The index manager is an argument \<open>ix\<close> that says whether an
  update throws, and the allocator is the list of the addresses it returns next.
\<close>

section \<open>Properties\<close>

type_synonym time = "72 word"

datatype property =
    NoValue
  | BoolV bool
  | IntV u64
  | StrV "u8 list"
  | FloatV u64
  | TimeV time
  | BlobV "u8 list"

text \<open>The enumeration in \<open>PropertyRef\<close>.\<close>

definition p_unused :: nat where "p_unused = 0"
definition p_end :: nat where "p_end = 1"
definition p_link :: nat where "p_link = 2"
definition p_novalue :: nat where "p_novalue = 3"
definition p_boolean_false :: nat where "p_boolean_false = 4"
definition p_boolean_true :: nat where "p_boolean_true = 5"
definition p_integer :: nat where "p_integer = 6"
definition p_float :: nat where "p_float = 7"
definition p_time :: nat where "p_time = 8"
definition p_string :: nat where "p_string = 9"
definition p_string_ptr :: nat where "p_string_ptr = 10"
definition p_blob :: nat where "p_blob = 11"

lemmas ptype_defs = p_unused_def p_end_def p_link_def p_novalue_def p_boolean_false_def p_boolean_true_def
  p_integer_def p_float_def p_time_def p_string_def p_string_ptr_def p_blob_def

section \<open>References into a chunk\<close>

type_synonym pref = "addr \<times> nat"

definition chunk_end :: "mem \<Rightarrow> pref \<Rightarrow> nat" where
  "chunk_end m p = unat (m (fst p))"

definition chunk_size :: "mem \<Rightarrow> pref \<Rightarrow> nat" where
  "chunk_size m p = chunk_end m p + 1"

definition type_size :: "mem \<Rightarrow> pref \<Rightarrow> u8" where
  "type_size m p = m (fst p + snd p)"

definition ptype :: "mem \<Rightarrow> pref \<Rightarrow> nat" where
  "ptype m p = unat (type_size m p AND 0xf)"

definition psize :: "mem \<Rightarrow> pref \<Rightarrow> nat" where
  "psize m p = unat (drop_bit 4 (type_size m p))"

definition val_addr :: "pref \<Rightarrow> addr" where
  "val_addr p = fst p + snd p + 3"

definition read64 :: "mem \<Rightarrow> addr \<Rightarrow> u64" where
  "read64 m a = le_word (read_bytes m a 8)"

definition link :: "mem \<Rightarrow> pref \<Rightarrow> addr" where
  "link m p = unat (read64 m (fst p + snd p + 1))"

definition get_id :: "mem \<Rightarrow> pref \<Rightarrow> u16" where
  "get_id m p = le_word (read_bytes m (fst p + snd p + 1) 2)"

definition skip :: "mem \<Rightarrow> pref \<Rightarrow> pref" where
  "skip m p = (fst p, snd p + psize m p + 1)"

definition not_done :: "mem \<Rightarrow> pref \<Rightarrow> bool" where
  "not_done m p \<longleftrightarrow> snd p \<le> chunk_end m p \<and> ptype m p \<noteq> p_end"

definition follow_link :: "mem \<Rightarrow> pref \<Rightarrow> pref" where
  "follow_link m p = (link m p, 1)"

text \<open>\<open>type_size() = uint8_t(size << 4 | type)\<close>.\<close>

definition type_size_byte :: "nat \<Rightarrow> nat \<Rightarrow> u8" where
  "type_size_byte sz t = push_bit 4 (of_nat sz) OR of_nat t"

text \<open>
  Offsets are at most 256 and grow by at least one in every step, so 256 steps are enough for
  each of the loops within a chunk.
\<close>

fun free_space_loop :: "nat \<Rightarrow> mem \<Rightarrow> pref \<Rightarrow> nat \<Rightarrow> nat" where
  "free_space_loop 0 m p e = e"
| "free_space_loop (Suc n) m p e =
     (if not_done m p then
        if ptype m p \<noteq> p_unused then snd p
        else free_space_loop n m (skip m p) e
      else e)"

definition free_space :: "mem \<Rightarrow> pref \<Rightarrow> nat" where
  "free_space m p = free_space_loop 256 m p (chunk_size m p) - snd p"

section \<open>Searching\<close>

text \<open>\<open>PropertySpace\<close>. \<open>size = 0\<close> means that no space has been found.\<close>

record pspace =
  sp_req :: nat
  sp_size :: nat
  sp_pos :: pref
  sp_new :: bool

definition new_space :: "nat \<Rightarrow> pspace" where
  "new_space r = \<lparr>sp_req = r, sp_size = 0, sp_pos = (0, 0), sp_new = False\<rparr>"

definition set_pos :: "pref \<Rightarrow> nat \<Rightarrow> pspace \<Rightarrow> pspace" where
  "set_pos p sz sp = sp\<lparr>sp_pos := p, sp_size := sz\<rparr>"

text \<open>
  \<open>find_property\<close>: \<open>look\<close> says that \<open>space\<close> is not (or no longer) null. The list of chunks may be
  cyclic in a corrupted database, and then the function does not return. The result: whether the
  id was found, the reference, the space.
\<close>

partial_function (option) find_loop ::
    "mem \<Rightarrow> u16 \<Rightarrow> bool \<Rightarrow> pspace \<Rightarrow> pref \<Rightarrow> (bool \<times> pref \<times> pspace) option" where
  "find_loop m i look sp p =
     (if not_done m p then
        if ptype m p = p_link then find_loop m i look sp (follow_link m p)
        else if ptype m p = p_unused then
          (let fs = free_space m p in
           if look \<and> sp_req sp \<le> fs \<and> (sp_size sp = 0 \<or> fs = sp_req sp)
           then find_loop m i (fs \<noteq> sp_req sp) (set_pos p fs sp) (skip m p)
           else find_loop m i look sp (skip m p))
        else if get_id m p = i then Some (True, p, sp)
        else find_loop m i look sp (skip m p)
      else Some (False, p, sp))"

definition find_property :: "mem \<Rightarrow> u16 \<Rightarrow> addr \<Rightarrow> pspace option \<Rightarrow> (bool \<times> pref \<times> pspace) option" where
  "find_property m i c space =
     (case space of None \<Rightarrow> find_loop m i False (new_space 0) (c, 1)
      | Some sp \<Rightarrow> find_loop m i True sp (c, 1))"

text \<open>\<open>find_space\<close>: whether there is space, where it is, and \<open>start\<close> afterwards.\<close>

partial_function (option) find_space :: "mem \<Rightarrow> pspace \<Rightarrow> pref \<Rightarrow> pref \<Rightarrow> (bool \<times> pspace \<times> pref) option" where
  "find_space m sp start p =
     (if not_done m p then
        if ptype m p = p_link then find_space m sp start (follow_link m p)
        else if ptype m p = p_unused \<and> sp_req sp \<le> free_space m p
          then Some (True, set_pos p (free_space m p) sp, start)
        else find_space m sp start (skip m p)
      else if sp_req sp \<le> free_space m p then Some (True, set_pos p (free_space m p) sp, start)
      else Some (False, sp, p))"

section \<open>Values\<close>

text \<open>\<open>get_int_len\<close>; \<open>-v - 1\<close> in 64 bits.\<close>

definition get_int_len :: "u64 \<Rightarrow> nat" where
  "get_int_len v =
     (let v' = (if sint v < 0 then - v - 1 else v)
      in if v' = 0 then 1 else (bsr (unat v') + 1) div 8 + 1)"

text \<open>\<open>get_space\<close>; a \<open>BlobRef\<close> has 12 bytes, a \<open>Time\<close> nine.\<close>

fun get_space :: "property \<Rightarrow> nat" where
  "get_space NoValue = 0"
| "get_space (BoolV b) = 0"
| "get_space (IntV v) = get_int_len v"
| "get_space (StrV s) = (if length s \<le> 13 then length s else 12)"
| "get_space (FloatV d) = 8"
| "get_space (TimeV t) = 9"
| "get_space (BlobV b) = 12"

definition int_value :: "mem \<Rightarrow> pref \<Rightarrow> u64 result" where
  "int_value m p =
     (if ptype m p = p_integer then
        (let sz = psize m p - 2; shift = 8 - sz; v = read64 m (val_addr p - shift)
         in Inr (if sz < 8 then signed_drop_bit (8 * shift) v else v))
      else Inl PropertyTypeMismatch)"

definition bool_value :: "mem \<Rightarrow> pref \<Rightarrow> bool result" where
  "bool_value m p =
     (if ptype m p = p_boolean_false then Inr False
      else if ptype m p = p_boolean_true then Inr True else Inl PropertyTypeMismatch)"

text \<open>The bytes a \<open>BlobRef\<close> at an address refers to.\<close>

definition blob_bytes :: "mem \<Rightarrow> addr \<Rightarrow> u8 list" where
  "blob_bytes m a = read_bytes m (unat (read64 m a)) (unat (le_word (read_bytes m (a + 8) 4) :: u32))"

definition string_value :: "mem \<Rightarrow> pref \<Rightarrow> u8 list result" where
  "string_value m p =
     (if ptype m p = p_string then
        (let sz = psize m p - 2 in Inr (if sz > 0 then read_bytes m (val_addr p) sz else []))
      else if ptype m p = p_string_ptr then Inr (blob_bytes m (val_addr p))
      else Inl PropertyTypeMismatch)"

definition float_value :: "mem \<Rightarrow> pref \<Rightarrow> u64 result" where
  "float_value m p = (if ptype m p = p_float then Inr (read64 m (val_addr p)) else Inl PropertyTypeMismatch)"

definition time_value :: "mem \<Rightarrow> pref \<Rightarrow> time result" where
  "time_value m p = (if ptype m p = p_time then Inr (le_word (read_bytes m (val_addr p) 9)) else Inl PropertyTypeMismatch)"

text \<open>\<open>blob_value\<close> returns pointer and size; here, the bytes it points to.\<close>

definition blob_value :: "mem \<Rightarrow> pref \<Rightarrow> u8 list result" where
  "blob_value m p = (if ptype m p = p_blob then Inr (blob_bytes m (val_addr p)) else Inl PropertyTypeMismatch)"

definition get_value :: "mem \<Rightarrow> pref \<Rightarrow> property result" where
  "get_value m p =
     (if ptype m p = p_novalue then Inr NoValue
      else if ptype m p = p_boolean_false then Inr (BoolV False)
      else if ptype m p = p_boolean_true then Inr (BoolV True)
      else if ptype m p = p_integer then rbind (int_value m p) (\<lambda>v. Inr (IntV v))
      else if ptype m p = p_string \<or> ptype m p = p_string_ptr then rbind (string_value m p) (\<lambda>s. Inr (StrV s))
      else if ptype m p = p_float then rbind (float_value m p) (\<lambda>v. Inr (FloatV v))
      else if ptype m p = p_time then rbind (time_value m p) (\<lambda>v. Inr (TimeV v))
      else if ptype m p = p_blob then rbind (blob_value m p) (\<lambda>v. Inr (BlobV v))
      else Inr NoValue)"

definition check_property :: "mem \<Rightarrow> u16 \<Rightarrow> addr \<Rightarrow> property result option option" where
  "check_property m i c =
     (case find_property m i c None of
        None \<Rightarrow> None
      | Some (found, p, _) \<Rightarrow> Some (if found then Some (get_value m p) else None))"

definition get_property :: "mem \<Rightarrow> u16 \<Rightarrow> addr \<Rightarrow> property result option" where
  "get_property m i c =
     (case find_property m i c None of
        None \<Rightarrow> None
      | Some (found, p, _) \<Rightarrow> Some (if found then get_value m p else Inl PropertyNotFound))"

section \<open>State and effects\<close>

datatype pl_event =
    EvLog addr nat
  | EvStore addr nat
  | EvFlush addr nat
  | EvAlloc addr nat
  | EvFree addr nat
  | EvIndex u16 "pref option" "property option"
  | EvNotify pref

record plst =
  pl_mem :: mem
  pl_events :: "pl_event list"
  pl_supply :: "addr list"

definition emit :: "pl_event \<Rightarrow> plst \<Rightarrow> plst" where
  "emit e s = s\<lparr>pl_events := pl_events s @ [e]\<rparr>"

definition store :: "addr \<Rightarrow> u8 list \<Rightarrow> plst \<Rightarrow> plst" where
  "store a bs s = emit (EvStore a (length bs)) (s\<lparr>pl_mem := write_bytes (pl_mem s) a bs\<rparr>)"

text \<open>\<open>tx->write\<close> of one byte.\<close>

definition tx_write8 :: "addr \<Rightarrow> u8 \<Rightarrow> plst \<Rightarrow> plst" where
  "tx_write8 a b s = store a [b] (emit (EvLog a 1) s)"

definition pl_alloc :: "nat \<Rightarrow> plst \<Rightarrow> addr result \<times> plst" where
  "pl_alloc n s =
     (case pl_supply s of [] \<Rightarrow> (Inl BadAlloc, s)
      | a # as \<Rightarrow> (Inr a, emit (EvAlloc a n) (s\<lparr>pl_supply := as\<rparr>)))"

definition set_type_size :: "pref \<Rightarrow> u8 \<Rightarrow> plst \<Rightarrow> plst" where
  "set_type_size p b s = store (fst p + snd p) [b] s"

section \<open>Changing a list\<close>

definition init_chunk :: "addr \<Rightarrow> nat \<Rightarrow> plst \<Rightarrow> plst" where
  "init_chunk c sz s = store (c + 1) [of_nat p_end] (store c [of_nat (sz - 1)] s)"

definition set_id :: "pref \<Rightarrow> u16 \<Rightarrow> plst \<Rightarrow> plst" where
  "set_id p i s = store (fst p + snd p + 1) (le_bytes 2 i) s"

text \<open>\<open>set_size\<close>: the loop adds up spaces until there is enough; it stops at the latest at the chunk end.\<close>

fun unused_loop :: "nat \<Rightarrow> mem \<Rightarrow> pref \<Rightarrow> nat \<Rightarrow> nat \<Rightarrow> nat" where
  "unused_loop 0 m p u new_size = u"
| "unused_loop (Suc n) m p u new_size =
     (let u' = u + psize m p + 1
      in if u' < new_size then unused_loop n m (skip m p) u' new_size else u')"

definition set_size :: "pref \<Rightarrow> nat \<Rightarrow> nat \<Rightarrow> plst \<Rightarrow> plst" where
  "set_size p old_size new_size s =
     (let next = (fst p, snd p + new_size) in
      if old_size = chunk_size (pl_mem s) p - snd p then set_type_size next (of_nat p_end) s
      else (let unused_size = unused_loop 256 (pl_mem s) p 0 new_size
            in if new_size < unused_size
               then set_type_size next (type_size_byte (unused_size - new_size - 1) p_unused) s
               else s))"

definition set_blob :: "pref \<Rightarrow> u8 list \<Rightarrow> plst \<Rightarrow> unit result \<times> plst" where
  "set_blob p value s =
     (if length value > 2 ^ 32 - 1 then (Inl NotImplemented, s)
      else case pl_alloc (length value) s of
        (Inl e, s1) \<Rightarrow> (Inl e, s1)
      | (Inr a, s1) \<Rightarrow>
          (let s2 = store a value s1;
               s3 = emit (EvFlush a (length value)) s2;
               s4 = store (val_addr p) (le_bytes 8 (of_nat a :: u64)) s3;
               s5 = store (val_addr p + 8) (le_bytes 4 (of_nat (length value) :: u32)) s4
           in (Inr (), s5)))"

definition finish_value :: "pref \<Rightarrow> nat \<Rightarrow> nat \<Rightarrow> unit result \<times> plst \<Rightarrow> unit result \<times> plst" where
  "finish_value p sz t r =
     (case r of (Inl e, s) \<Rightarrow> (Inl e, s) | (Inr u, s) \<Rightarrow> (Inr (), set_type_size p (type_size_byte (sz - 1) t) s))"

fun set_value :: "pref \<Rightarrow> property \<Rightarrow> nat \<Rightarrow> plst \<Rightarrow> unit result \<times> plst" where
  "set_value p NoValue sz s = finish_value p sz p_novalue (Inr (), s)"
| "set_value p (BoolV b) sz s = finish_value p sz (if b then p_boolean_true else p_boolean_false) (Inr (), s)"
| "set_value p (IntV v) sz s = finish_value p sz p_integer (Inr (), store (val_addr p) (le_bytes (sz - 3) v) s)"
| "set_value p (StrV bs) sz s =
     (if length bs \<le> 13
      then finish_value p sz p_string (Inr (), if length bs > 0 then store (val_addr p) bs s else s)
      else finish_value p sz p_string_ptr (set_blob p bs s))"
| "set_value p (FloatV d) sz s = finish_value p sz p_float (Inr (), store (val_addr p) (le_bytes 8 d) s)"
| "set_value p (TimeV t) sz s = finish_value p sz p_time (Inr (), store (val_addr p) (le_bytes 9 t) s)"
| "set_value p (BlobV bs) sz s = finish_value p sz p_blob (set_blob p bs s)"

text \<open>\<open>PropertySpace::set_property\<close>.\<close>

definition space_set_property :: "pspace \<Rightarrow> u16 \<Rightarrow> property \<Rightarrow> plst \<Rightarrow> unit result \<times> plst" where
  "space_set_property sp i v s =
     (let pos = sp_pos sp;
          log_size = (if sp_size sp > sp_req sp then sp_req sp + 1 else sp_req sp);
          s1 = (if sp_new sp then s else emit (EvLog (fst pos + snd pos) log_size) s);
          s2 = (if sp_size sp > sp_req sp then set_size pos (sp_size sp) (sp_req sp) s1 else s1)
      in case set_value pos v (sp_req sp) s2 of
           (Inl e, s3) \<Rightarrow> (Inl e, s3)
         | (Inr u, s3) \<Rightarrow>
             (let s4 = set_id pos i s3
              in (Inr (), if sp_new sp then emit (EvFlush (fst pos) (snd pos + log_size)) s4 else s4)))"

text \<open>\<open>PropertyRef::free\<close>.\<close>

definition free_blob :: "pref \<Rightarrow> plst \<Rightarrow> plst" where
  "free_blob p s =
     emit (EvFree (unat (read64 (pl_mem s) (val_addr p)))
             (unat (le_word (read_bytes (pl_mem s) (val_addr p + 8) 4) :: u32))) s"

definition pref_free :: "pref \<Rightarrow> plst \<Rightarrow> plst" where
  "pref_free p s =
     (let s1 = emit (EvNotify p) s;
          t = ptype (pl_mem s) p;
          s2 = (if t = p_string_ptr \<or> t = p_blob then free_blob p s1 else s1);
          sz = psize (pl_mem s) p;
          next = (fst p, snd p + sz + 1)
      in if \<not> not_done (pl_mem s) next then tx_write8 (fst p + snd p) (of_nat p_end) s2
         else tx_write8 (fst p + snd p) (type_size_byte sz p_unused) s2)"

text \<open>
  \<open>make_space\<close>. The result: the reference it is called on (moved to the first property that stands
  in the way of the link), \<open>q\<close> moved behind the copies, the state.
\<close>

fun move_start :: "nat \<Rightarrow> mem \<Rightarrow> pref \<Rightarrow> pref" where
  "move_start 0 m p = p"
| "move_start (Suc n) m p =
     (if snd p + psize m p < chunk_end m p - 8 then move_start n m (skip m p) else p)"

definition copy :: "pref \<Rightarrow> pref \<Rightarrow> plst \<Rightarrow> plst" where
  "copy q p s = store (fst q + snd q) (read_bytes (pl_mem s) (fst p + snd p) (psize (pl_mem s) p + 1)) s"

fun move_loop :: "nat \<Rightarrow> pref \<Rightarrow> pref \<Rightarrow> plst \<Rightarrow> pref \<times> plst" where
  "move_loop 0 p q s = (q, s)"
| "move_loop (Suc n) p q s =
     (if not_done (pl_mem s) p then
        (if ptype (pl_mem s) p \<noteq> p_unused then
           (let s1 = copy q p s
            in move_loop n (skip (pl_mem s1) p) (skip (pl_mem s1) q) s1)
         else move_loop n (skip (pl_mem s) p) q s)
      else (q, s))"

definition make_space :: "pref \<Rightarrow> pref \<Rightarrow> plst \<Rightarrow> pref \<times> pref \<times> plst" where
  "make_space p q s =
     (let p' = move_start 256 (pl_mem s) (fst p, 1);
          (q', s1) = move_loop 256 p' q s
      in (p', q', set_type_size q' (of_nat p_end) s1))"

text \<open>\<open>set_link\<close>.\<close>

definition set_link :: "pref \<Rightarrow> addr \<Rightarrow> plst \<Rightarrow> plst" where
  "set_link p c s =
     (let remaining = chunk_size (pl_mem s) p - snd p;
          unused_size = remaining - 9;
          s1 = emit (EvLog (fst p + snd p) remaining) s;
          (p', s2) = (if unused_size > 0
                      then ((fst p, snd p + unused_size), set_type_size p (type_size_byte (unused_size - 1) p_unused) s1)
                      else (p, s1));
          s3 = set_type_size p' (of_nat p_link) s2
      in store (fst p' + snd p' + 1) (le_bytes 8 (of_nat c :: u64)) s3)"

definition prop_chunk_size :: nat where
  "prop_chunk_size = 64"

definition add_chunk :: "pref \<Rightarrow> plst \<Rightarrow> pref result \<times> plst" where
  "add_chunk e s =
     (case pl_alloc prop_chunk_size s of
        (Inl x, s1) \<Rightarrow> (Inl x, s1)
      | (Inr c, s1) \<Rightarrow>
          (let s2 = init_chunk c prop_chunk_size s1;
               (p, q, s3) = (if free_space (pl_mem s2) e < 9 then make_space e (c, 1) s2 else (e, (c, 1), s2))
           in (Inr q, set_link p c s3)))"

text \<open>\<open>index_manager().update\<close>.\<close>

type_synonym index_fails = "u16 \<Rightarrow> pref option \<Rightarrow> property option \<Rightarrow> pmgd_error option"

definition index_update :: "index_fails \<Rightarrow> u16 \<Rightarrow> pref option \<Rightarrow> property option \<Rightarrow> plst \<Rightarrow> unit result \<times> plst" where
  "index_update ix i old new s =
     (let s1 = emit (EvIndex i old new) s
      in case ix i old new of Some e \<Rightarrow> (Inl e, s1) | None \<Rightarrow> (Inr (), s1))"

text \<open>\<open>set_property\<close>: the part after the old value has been removed, then the whole.\<close>

definition place_property :: "u16 \<Rightarrow> property \<Rightarrow> pspace \<Rightarrow> pref \<Rightarrow> plst \<Rightarrow> (unit result \<times> plst) option" where
  "place_property i v sp pos s =
     (if sp_size sp = 0 then
        (case find_space (pl_mem s) sp pos pos of
           None \<Rightarrow> None
         | Some (True, sp', _) \<Rightarrow> Some (space_set_property sp' i v s)
         | Some (False, _, e) \<Rightarrow>
             (case add_chunk e s of
                (Inl x, s1) \<Rightarrow> Some (Inl x, s1)
              | (Inr q, s1) \<Rightarrow>
                  Some (space_set_property ((set_pos q (free_space (pl_mem s1) q) sp)\<lparr>sp_new := True\<rparr>) i v s1)))
      else Some (space_set_property sp i v s))"

definition set_property :: "index_fails \<Rightarrow> u16 \<Rightarrow> property \<Rightarrow> addr \<Rightarrow> plst \<Rightarrow> (unit result \<times> plst) option" where
  "set_property ix i v c s =
     (case find_property (pl_mem s) i c (Some (new_space (get_space v + 3))) of
        None \<Rightarrow> None
      | Some (found, pos, sp) \<Rightarrow>
          (case index_update ix i (if found then Some pos else None) (Some v) s of
             (Inl e, s1) \<Rightarrow> Some (Inl e, s1)
           | (Inr u, s1) \<Rightarrow> place_property i v sp pos (if found then pref_free pos s1 else s1)))"

definition remove_property :: "index_fails \<Rightarrow> u16 \<Rightarrow> addr \<Rightarrow> plst \<Rightarrow> (unit result \<times> plst) option" where
  "remove_property ix i c s =
     (case find_property (pl_mem s) i c None of
        None \<Rightarrow> None
      | Some (False, _, _) \<Rightarrow> Some (Inr (), s)
      | Some (True, p, _) \<Rightarrow>
          (case index_update ix i (Some p) None s of
             (Inl e, s1) \<Rightarrow> Some (Inl e, s1)
           | (Inr u, s1) \<Rightarrow> Some (Inr (), pref_free p s1)))"

partial_function (option) remove_all_loop ::
    "index_fails \<Rightarrow> pref \<Rightarrow> bool \<Rightarrow> plst \<Rightarrow> ((pref \<times> bool) result \<times> plst) option" where
  "remove_all_loop ix p first s =
     (if not_done (pl_mem s) p then
        (let t = ptype (pl_mem s) p; p1 = skip (pl_mem s) p in
         if t = p_link then
           (let s1 = emit (EvNotify (fst p, 0)) s;
                s2 = (if first then s1 else emit (EvFree (fst p) prop_chunk_size) s1)
            in remove_all_loop ix (follow_link (pl_mem s) p) False s2)
         else if t = p_unused then remove_all_loop ix p1 first s
         else if t = p_blob then remove_all_loop ix p1 first (free_blob p s)
         else
           (case index_update ix (get_id (pl_mem s) p) (Some p) None s of
              (Inl e, s1) \<Rightarrow> Some (Inl e, s1)
            | (Inr u, s1) \<Rightarrow> remove_all_loop ix p1 first (if t = p_string_ptr then free_blob p s1 else s1)))
      else Some (Inr (p, first), s))"

definition remove_all_properties :: "index_fails \<Rightarrow> addr \<Rightarrow> plst \<Rightarrow> (unit result \<times> plst) option" where
  "remove_all_properties ix c s =
     (case remove_all_loop ix (c, 1) True s of
        None \<Rightarrow> None
      | Some (Inl e, s1) \<Rightarrow> Some (Inl e, s1)
      | Some (Inr (p, first), s1) \<Rightarrow>
          (let s2 = emit (EvNotify (fst p, 0)) s1;
               s3 = (if first then s2 else emit (EvFree (fst p) prop_chunk_size) s2)
           in Some (Inr (), tx_write8 (c + 1) (of_nat p_end) s3)))"

section \<open>Iteration\<close>

partial_function (option) skip_to_next :: "mem \<Rightarrow> pref \<Rightarrow> (bool \<times> pref) option" where
  "skip_to_next m p =
     (if not_done m p then
        if ptype m p = p_link then skip_to_next m (follow_link m p)
        else if ptype m p = p_unused then skip_to_next m (skip m p)
        else Some (True, p)
      else Some (False, p))"

definition pref_next :: "mem \<Rightarrow> pref \<Rightarrow> (bool \<times> pref) option" where
  "pref_next m p = skip_to_next m (skip m p)"

text \<open>\<open>PropertyListIteratorImpl\<close>; the null \<open>_cur._chunk\<close> is address 0.\<close>

record pl_iter =
  it_cur :: pref
  it_vacant :: bool

definition iter_new :: "mem \<Rightarrow> addr \<Rightarrow> pl_iter option" where
  "iter_new m c =
     (case skip_to_next m (c, 1) of None \<Rightarrow> None
      | Some (ok, p) \<Rightarrow> Some \<lparr>it_cur = (if ok then p else (0, snd p)), it_vacant = False\<rparr>)"

definition iter_valid :: "pl_iter \<Rightarrow> bool" where
  "iter_valid it \<longleftrightarrow> it_vacant it \<or> fst (it_cur it) \<noteq> 0"

definition iter_ref :: "pl_iter \<Rightarrow> pref result" where
  "iter_ref it = (if it_vacant it then Inl VacantIterator else Inr (it_cur it))"

definition iter_next :: "mem \<Rightarrow> pl_iter \<Rightarrow> (bool \<times> pl_iter) option" where
  "iter_next m it =
     (if it_vacant it then (let it' = it\<lparr>it_vacant := False\<rparr> in Some (iter_valid it', it'))
      else case pref_next m (it_cur it) of None \<Rightarrow> None
      | Some (ok, p) \<Rightarrow> Some (ok, it\<lparr>it_cur := (if ok then p else (0, snd p))\<rparr>))"

definition iter_notify :: "mem \<Rightarrow> pref \<Rightarrow> pl_iter \<Rightarrow> pl_iter option" where
  "iter_notify m p it =
     (if fst p = fst (it_cur it) then
        if snd p = 0 then Some (it\<lparr>it_cur := (0, snd (it_cur it)), it_vacant := True\<rparr>)
        else if snd p = snd (it_cur it) then
          (case pref_next m (it_cur it) of None \<Rightarrow> None
           | Some (ok, q) \<Rightarrow> Some (it\<lparr>it_cur := (if ok then q else (0, snd q)), it_vacant := True\<rparr>))
        else Some (it\<lparr>it_vacant := True\<rparr>)
      else Some it)"

end
