(* ===== verification/Property_Layout.thy ===== *)
theory Property_Layout
  imports Property_List
begin

text \<open>
  What the bytes of a property list stand for: a list of chunks, each with a list of items
  (properties and gaps) that ends with a link or with \<open>p_end\<close>. The searching functions of
  \<open>Property_List\<close> are shown to compute, on such bytes, the functions one expects on the items.
\<close>

section \<open>The byte of size and type\<close>

lemma type_size_byte_parts:
  assumes "n < 16" "t < 16"
  shows "unat (type_size_byte n t AND 0xf) = t" "unat (drop_bit 4 (type_size_byte n t)) = n"
proof -
  have small: "unat (of_nat k :: u8) = k" if "k < 16" for k
    using that by (simp add: unsigned_of_nat take_bit_nat_eq_self)
  have m15: "(0xf :: u8) = mask 4" by (simp add: mask_eq_exp_minus_1)
  have tt: "(of_nat t :: u8) = take_bit 4 (of_nat t)"
    using assms(2) by (simp add: take_bit_of_nat take_bit_nat_eq_self)
  have nn: "(of_nat n :: u8) = take_bit 4 (of_nat n)"
    using assms(1) by (simp add: take_bit_of_nat take_bit_nat_eq_self)
  have "type_size_byte n t AND 0xf = take_bit 4 (of_nat t)"
    unfolding type_size_byte_def m15 by (rule bit_word_eqI) (auto simp: bit_simps)
  then show "unat (type_size_byte n t AND 0xf) = t" using small [OF assms(2)] by (simp flip: tt)
  have "drop_bit 4 (type_size_byte n t) = take_bit 4 (of_nat n)"
    unfolding type_size_byte_def using tt by (intro bit_word_eqI) (auto simp: bit_simps bit_take_bit_iff dest: arg_cong [where f = "\<lambda>w. bit w _"])
  then show "unat (drop_bit 4 (type_size_byte n t)) = n" using small [OF assms(1)] by (simp flip: nn)
qed

section \<open>Items and chunks\<close>

datatype item = Gap nat | Prop u16 nat "u8 list"

fun ilen :: "item \<Rightarrow> nat" where
  "ilen (Gap n) = n + 1"
| "ilen (Prop i t bs) = length bs + 3"

fun is_gap :: "item \<Rightarrow> bool" where
  "is_gap (Gap n) = True"
| "is_gap (Prop i t bs) = False"

fun item_at :: "mem \<Rightarrow> addr \<Rightarrow> item \<Rightarrow> bool" where
  "item_at m a (Gap n) = (n < 16 \<and> m a = type_size_byte n p_unused)"
| "item_at m a (Prop i t bs) =
     (p_novalue \<le> t \<and> t \<le> p_blob \<and> length bs \<le> 13 \<and> m a = type_size_byte (length bs + 2) t \<and>
      le_word (read_bytes m (a + 1) 2) = i \<and> read_bytes m (a + 3) (length bs) = bs)"

definition tlen :: "item list \<Rightarrow> nat" where
  "tlen is = sum_list (map ilen is)"

lemma tlen_simps [simp]: "tlen [] = 0" "tlen (i # is) = ilen i + tlen is" "tlen (is @ js) = tlen is + tlen js"
  by (simp_all add: tlen_def)

lemma ilen_pos [simp]: "0 < ilen i" "ilen i \<noteq> 0"
  by (cases i; simp)+

lemma length_le_tlen: "length is \<le> tlen is"
proof (induction "is")
  case (Cons i "is")
  then show ?case using ilen_pos(1) [of i] by (simp del: ilen_pos)
qed simp

fun items_at :: "mem \<Rightarrow> addr \<Rightarrow> item list \<Rightarrow> bool" where
  "items_at m a [] = True"
| "items_at m a (i # is) = (item_at m a i \<and> items_at m (a + ilen i) is)"

lemma items_at_append [simp]: "items_at m a (is @ js) \<longleftrightarrow> items_at m a is \<and> items_at m (a + tlen is) js"
  by (induction "is" arbitrary: a) (auto simp: add.assoc)

text \<open>What stands at the end of the items: \<open>p_end\<close> or the end of the chunk, or a link.\<close>

definition chunk_rep :: "mem \<Rightarrow> addr \<Rightarrow> item list \<Rightarrow> addr option \<Rightarrow> bool" where
  "chunk_rep m c is nxt \<longleftrightarrow>
     items_at m (c + 1) is \<and> 9 \<le> unat (m c) \<and>
     (case nxt of
        None \<Rightarrow> tlen is \<le> unat (m c) \<and> (1 + tlen is \<le> unat (m c) \<longrightarrow> ptype m (c, 1 + tlen is) = p_end)
      | Some d \<Rightarrow> tlen is + 9 = unat (m c) \<and> ptype m (c, 1 + tlen is) = p_link \<and>
          link m (c, 1 + tlen is) = d)"

fun chunks_rep :: "mem \<Rightarrow> (addr \<times> item list) list \<Rightarrow> bool" where
  "chunks_rep m [] = False"
| "chunks_rep m [(c, is)] = chunk_rep m c is None"
| "chunks_rep m ((c, is) # (d, js) # r) = (chunk_rep m c is (Some d) \<and> chunks_rep m ((d, js) # r))"

definition next_chunk :: "(addr \<times> item list) list \<Rightarrow> addr option" where
  "next_chunk B = (case B of [] \<Rightarrow> None | x # _ \<Rightarrow> Some (fst x))"

lemma chunks_rep_Cons:
  "chunks_rep m ((c, is) # B) \<longleftrightarrow> chunk_rep m c is (next_chunk B) \<and> (B \<noteq> [] \<longrightarrow> chunks_rep m B)"
  by (cases B) (auto simp: next_chunk_def)

lemma next_chunk_append: "next_chunk (A @ (c, is) # B) = next_chunk (A @ [(c, [])])"
  by (cases A) (simp_all add: next_chunk_def)

lemma chunks_rep_append:
  "chunks_rep m (A @ (c, is) # B) \<longleftrightarrow>
     (\<forall>P d js S. A = P @ (d, js) # S \<longrightarrow> chunk_rep m d js (next_chunk (S @ [(c, [])]))) \<and> chunks_rep m ((c, is) # B)"
proof (induction A)
  case (Cons x A)
  obtain d js where x: "x = (d, js)" by fastforce
  show ?case
    unfolding append_Cons x chunks_rep_Cons
    by (auto simp: Cons.IH chunks_rep_Cons next_chunk_append [of A c "is"] Cons_eq_append_conv x)
qed simp

lemma chunks_rep_mid: "chunks_rep m (A @ (c, is) # B) \<Longrightarrow> chunk_rep m c is (next_chunk B)"
  by (simp add: chunks_rep_append chunks_rep_Cons)

section \<open>Reading one item\<close>

lemma item_at_gap:
  assumes "item_at m (c + off) (Gap n)"
  shows "ptype m (c, off) = p_unused" "psize m (c, off) = n" "skip m (c, off) = (c, off + ilen (Gap n))"
  using assms type_size_byte_parts [of n p_unused]
  by (simp_all add: ptype_def psize_def type_size_def skip_def p_unused_def)

lemma item_at_prop:
  assumes "item_at m (c + off) (Prop i t bs)"
  shows "ptype m (c, off) = t" "psize m (c, off) = length bs + 2" "get_id m (c, off) = i"
    "skip m (c, off) = (c, off + ilen (Prop i t bs))"
  using assms type_size_byte_parts [of "length bs + 2" t]
  by (simp_all add: ptype_def psize_def type_size_def skip_def get_id_def ptype_defs)

lemma not_done_item:
  assumes "item_at m (c + off) it" "off \<le> unat (m c)"
  shows "not_done m (c, off)" "skip m (c, off) = (c, off + ilen it)" "ptype m (c, off) = p_unused \<longleftrightarrow> is_gap it"
    "ptype m (c, off) \<noteq> p_link"
proof -
  have "not_done m (c, off) \<and> skip m (c, off) = (c, off + ilen it) \<and> (ptype m (c, off) = p_unused \<longleftrightarrow> is_gap it) \<and>
      ptype m (c, off) \<noteq> p_link"
  proof (cases it)
    case (Gap n)
    with assms show ?thesis
      using item_at_gap [of m c off n] by (simp add: not_done_def chunk_end_def p_unused_def p_end_def p_link_def)
  next
    case (Prop i t bs)
    then have "p_novalue \<le> t" using assms(1) by simp
    then show ?thesis
      using assms item_at_prop [of m c off i t bs] Prop by (simp add: not_done_def chunk_end_def ptype_defs)
  qed
  then show "not_done m (c, off)" "skip m (c, off) = (c, off + ilen it)" "ptype m (c, off) = p_unused \<longleftrightarrow> is_gap it"
    "ptype m (c, off) \<noteq> p_link" by auto
qed

section \<open>Free space\<close>

lemma free_space_loop_gaps:
  assumes "items_at m (c + off) gs" "\<forall>g\<in>set gs. is_gap g" "off + tlen gs \<le> unat (m c) + 1"
  shows "free_space_loop (length gs + k) m (c, off) e = free_space_loop k m (c, off + tlen gs) e"
  using assms
proof (induction gs arbitrary: off)
  case (Cons g gs)
  have it: "item_at m (c + off) g" "off \<le> unat (m c)" using Cons.prems ilen_pos(1) [of g] by (simp_all del: ilen_pos)
  note nd = not_done_item [OF it]
  have "free_space_loop (length gs + k) m (c, off + ilen g) e = free_space_loop k m (c, off + ilen g + tlen gs) e"
    by (rule Cons.IH) (use Cons.prems in \<open>auto simp: add.assoc\<close>)
  then show ?case using nd Cons.prems(2) by (simp add: add.assoc)
qed simp

lemma gaps_fuel:
  assumes "1 \<le> off" "off + tlen gs \<le> unat (m c :: u8) + 1"
  obtains k where "256 = length gs + Suc k"
proof -
  have "unat (m c) < 256" using unsigned_less [of "m c"] by simp
  then have "length gs < 256" using assms length_le_tlen [of gs] by linarith
  then show ?thesis using that [of "255 - length gs"] by simp
qed

text \<open>Gaps before a property or a link, and gaps before the end.\<close>

lemma free_space_bounded:
  assumes "items_at m (c + off) gs" "\<forall>g\<in>set gs. is_gap g" "1 \<le> off" "off + tlen gs \<le> unat (m c)"
    "not_done m (c, off + tlen gs)" "ptype m (c, off + tlen gs) \<noteq> p_unused"
  shows "free_space m (c, off) = tlen gs"
proof -
  obtain k where k: "256 = length gs + Suc k" by (rule gaps_fuel [OF assms(3), of gs m c]) (use assms(4) in simp)
  show ?thesis
    unfolding free_space_def k
    using free_space_loop_gaps [OF assms(1, 2), of "Suc k" "chunk_size m (c, off)"] assms(4-6) by simp
qed

lemma free_space_end:
  assumes "items_at m (c + off) gs" "\<forall>g\<in>set gs. is_gap g" "1 \<le> off" "off + tlen gs \<le> unat (m c) + 1"
    "\<not> not_done m (c, off + tlen gs)"
  shows "free_space m (c, off) = unat (m c) + 1 - off"
proof -
  obtain k where k: "256 = length gs + Suc k" by (rule gaps_fuel [OF assms(3), of gs m c]) (use assms(4) in simp)
  show ?thesis
    unfolding free_space_def k
    using free_space_loop_gaps [OF assms(1, 2, 4), of "Suc k" "chunk_size m (c, off)"] assms(5)
    by (simp add: chunk_size_def chunk_end_def)
qed

section \<open>Searching\<close>

fun props :: "item list \<Rightarrow> (u16 \<times> nat \<times> u8 list) list" where
  "props [] = []"
| "props (Gap n # is) = props is"
| "props (Prop i t bs # is) = (i, t, bs) # props is"

definition ids :: "item list \<Rightarrow> u16 set" where
  "ids is = fst ` set (props is)"

lemma props_append [simp]: "props (is @ js) = props is @ props js"
  by (induction "is" rule: props.induct) auto

lemma ids_simps [simp]:
  "ids [] = {}" "ids (Gap n # is) = ids is" "ids (Prop i t bs # is) = insert i (ids is)" "ids (is @ js) = ids is \<union> ids js"
  by (auto simp: ids_def)

lemma set_pos_twice [simp]: "set_pos q b (set_pos p a sp) = set_pos q b sp" "sp_req (set_pos p a sp) = sp_req sp"
  "sp_new (set_pos p a sp) = sp_new sp" "sp_size (set_pos p a sp) = a" "sp_pos (set_pos p a sp) = p"
  by (simp_all add: set_pos_def)

text \<open>The space found in a stretch of items is at one of its gaps and is large enough.\<close>

definition space_from :: "mem \<Rightarrow> addr \<Rightarrow> nat \<Rightarrow> item list \<Rightarrow> pspace \<Rightarrow> pspace \<Rightarrow> bool" where
  "space_from m c off is sp sp' \<longleftrightarrow> sp' = sp \<or>
     (\<exists>pre n post. is = pre @ Gap n # post \<and>
        sp' = set_pos (c, off + tlen pre) (free_space m (c, off + tlen pre)) sp \<and>
        sp_req sp \<le> free_space m (c, off + tlen pre))"

lemma space_from_Cons:
  "space_from m c (off + ilen it) is sp sp' \<Longrightarrow> space_from m c off (it # is) sp sp'"
  unfolding space_from_def by (metis append_Cons add.assoc tlen_simps(2))

lemma space_from_trans:
  "space_from m c off is sp sp1 \<Longrightarrow> space_from m c off is sp1 sp2 \<Longrightarrow> space_from m c off is sp sp2"
  unfolding space_from_def by fastforce

lemma find_loop_chunk:
  assumes "items_at m (c + off) is" "off + tlen is \<le> unat (m c) + 1" "i \<notin> ids is"
  shows "\<exists>look' sp'. find_loop m i look sp (c, off) = find_loop m i look' sp' (c, off + tlen is) \<and>
    space_from m c off is sp sp'"
  using assms
proof (induction "is" arbitrary: off look sp)
  case Nil
  then show ?case by (auto simp: space_from_def)
next
  case (Cons it "is")
  have at: "item_at m (c + off) it" "items_at m (c + (off + ilen it)) is" "off + ilen it + tlen is \<le> unat (m c) + 1"
    "off \<le> unat (m c)" using Cons.prems ilen_pos(1) [of it] by (simp_all add: add.assoc del: ilen_pos)
  note nd = not_done_item [OF at(1, 4)]
  have i: "i \<notin> ids is" using Cons.prems(3) by (cases it) auto
  have "\<exists>look1 sp1. find_loop m i look sp (c, off) = find_loop m i look1 sp1 (c, off + ilen it) \<and>
    space_from m c off (it # is) sp sp1"
  proof (cases it)
    case (Gap n)
    let ?fs = "free_space m (c, off)"
    show ?thesis
    proof (cases "look \<and> sp_req sp \<le> ?fs \<and> (sp_size sp = 0 \<or> ?fs = sp_req sp)")
      case True
      have "space_from m c off (it # is) sp (set_pos (c, off) ?fs sp)"
        unfolding space_from_def using True Gap by (intro disjI2 exI [of _ "[]"]) auto
      then show ?thesis
        using True nd Gap by (subst find_loop.simps) (auto simp: Let_def)
    next
      case False
      then show ?thesis
        using nd Gap by (subst find_loop.simps) (auto simp: Let_def space_from_def)
    qed
  next
    case (Prop j t bs)
    then have "get_id m (c, off) \<noteq> i" using item_at_prop(3) [of m c off j t bs] at(1) Cons.prems(3) by auto
    then show ?thesis
      using nd Prop by (subst find_loop.simps) (auto simp: space_from_def)
  qed
  then obtain look1 sp1 where s1: "find_loop m i look sp (c, off) = find_loop m i look1 sp1 (c, off + ilen it)"
    "space_from m c off (it # is) sp sp1" by blast
  obtain look2 sp2 where s2: "find_loop m i look1 sp1 (c, off + ilen it) = find_loop m i look2 sp2 (c, off + ilen it + tlen is)"
    "space_from m c (off + ilen it) is sp1 sp2"
    using Cons.IH [OF at(2, 3) i, of look1 sp1] by blast
  show ?case
    using s1 s2 space_from_trans [OF s1(2) space_from_Cons [OF s2(2)]] by (auto simp: add.assoc)
qed

lemma find_loop_hit:
  assumes "items_at m (c + off) (pre @ Prop i t bs # post)" "off + tlen (pre @ Prop i t bs # post) \<le> unat (m c) + 1"
    "i \<notin> ids pre"
  shows "\<exists>sp'. find_loop m i look sp (c, off) = Some (True, (c, off + tlen pre), sp') \<and> space_from m c off pre sp sp'"
proof -
  obtain look' sp' where a: "find_loop m i look sp (c, off) = find_loop m i look' sp' (c, off + tlen pre)"
    "space_from m c off pre sp sp'"
    using find_loop_chunk [of m c off pre i look sp] assms by auto
  have it: "item_at m (c + (off + tlen pre)) (Prop i t bs)" "off + tlen pre \<le> unat (m c)"
    using assms by (simp_all add: add.assoc)
  show ?thesis
    using a not_done_item [OF it] item_at_prop(3) [OF it(1)] by (subst (asm) (2) find_loop.simps) auto
qed

text \<open>The chunks of a list.\<close>

definition space_in :: "mem \<Rightarrow> (addr \<times> item list) list \<Rightarrow> pspace \<Rightarrow> pspace \<Rightarrow> bool" where
  "space_in m cs sp sp' \<longleftrightarrow> sp' = sp \<or>
     (\<exists>A c is B pre n post. cs = A @ (c, is) # B \<and> is = pre @ Gap n # post \<and>
        sp' = set_pos (c, 1 + tlen pre) (free_space m (c, 1 + tlen pre)) sp \<and>
        sp_req sp \<le> free_space m (c, 1 + tlen pre))"

lemma space_in_head: "space_from m c 1 is sp sp' \<Longrightarrow> space_in m ((c, is) # cs) sp sp'"
  unfolding space_from_def space_in_def by (metis append_Nil)

lemma space_in_Cons: "space_in m cs sp sp' \<Longrightarrow> space_in m (x # cs) sp sp'"
  unfolding space_in_def by (metis append_Cons)

lemma space_in_trans: "space_in m cs sp sp1 \<Longrightarrow> space_in m cs sp1 sp2 \<Longrightarrow> space_in m cs sp sp2"
  unfolding space_in_def by fastforce

lemma chunk_rep_link:
  assumes "chunk_rep m c is (Some d)"
  shows "items_at m (c + 1) is" "1 + tlen is \<le> unat (m c) + 1" "not_done m (c, 1 + tlen is)"
    "ptype m (c, 1 + tlen is) = p_link" "follow_link m (c, 1 + tlen is) = (d, 1)"
  using assms by (simp_all add: chunk_rep_def not_done_def chunk_end_def follow_link_def ptype_defs)

lemma chunk_rep_end:
  assumes "chunk_rep m c is None"
  shows "items_at m (c + 1) is" "1 + tlen is \<le> unat (m c) + 1" "\<not> not_done m (c, 1 + tlen is)"
  using assms by (auto simp: chunk_rep_def not_done_def chunk_end_def)

lemma find_loop_absent:
  assumes "chunks_rep m ((c, is) # cs)" "i \<notin> (\<Union>x\<in>set ((c, is) # cs). ids (snd x))"
  shows "\<exists>sp'. find_loop m i look sp (c, 1) =
      Some (False, (fst (last ((c, is) # cs)), 1 + tlen (snd (last ((c, is) # cs)))), sp') \<and>
    space_in m ((c, is) # cs) sp sp'"
  using assms
proof (induction cs arbitrary: c "is" look sp)
  case Nil
  then have r: "chunk_rep m c is None" by simp
  obtain look' sp' where "find_loop m i look sp (c, 1) = find_loop m i look' sp' (c, 1 + tlen is)"
    "space_from m c 1 is sp sp'"
    using find_loop_chunk [OF chunk_rep_end(1, 2) [OF r], of i look sp] Nil.prems(2) by auto
  then show ?case
    using chunk_rep_end(3) [OF r] space_in_head [of m c "is" sp sp' "[]"] by (subst (asm) (2) find_loop.simps) auto
next
  case (Cons x cs)
  obtain d js where x: "x = (d, js)" by fastforce
  then have r: "chunk_rep m c is (Some d)" "chunks_rep m ((d, js) # cs)" using Cons.prems(1) by simp_all
  obtain look' sp' where s1: "find_loop m i look sp (c, 1) = find_loop m i look' sp' (c, 1 + tlen is)"
    "space_from m c 1 is sp sp'"
    using find_loop_chunk [OF chunk_rep_link(1, 2) [OF r(1)], of i look sp] Cons.prems(2) by auto
  have s2: "find_loop m i look' sp' (c, 1 + tlen is) = find_loop m i look' sp' (d, 1)"
    using chunk_rep_link(3-5) [OF r(1)] by (subst find_loop.simps) auto
  obtain sp'' where s3: "find_loop m i look' sp' (d, 1) =
      Some (False, (fst (last ((d, js) # cs)), 1 + tlen (snd (last ((d, js) # cs)))), sp'')"
    "space_in m ((d, js) # cs) sp' sp''"
    using Cons.IH [OF r(2), of look' sp'] Cons.prems(2) x by auto
  show ?case
    using s1 s2 s3 space_in_trans [OF space_in_head [OF s1(2)] space_in_Cons [OF s3(2)]] by (auto simp: x)
qed

lemma find_loop_found:
  assumes "chunks_rep m ((c, is) # cs)" "(c, is) # cs = A @ (d, pre @ Prop i t bs # post) # B"
    "i \<notin> (\<Union>x\<in>set A. ids (snd x))" "i \<notin> ids pre"
  shows "\<exists>sp'. find_loop m i look sp (c, 1) = Some (True, (d, 1 + tlen pre), sp') \<and> space_in m (A @ [(d, pre)]) sp sp'"
  using assms
proof (induction A arbitrary: c "is" cs look sp)
  case Nil
  then have e: "c = d" "is = pre @ Prop i t bs # post" "cs = B" by auto
  have r: "chunk_rep m d (pre @ Prop i t bs # post) (next_chunk B)"
    using Nil.prems(1) e chunks_rep_mid [of m "[]"] by simp
  then have "items_at m (d + 1) (pre @ Prop i t bs # post)" "1 + tlen (pre @ Prop i t bs # post) \<le> unat (m d) + 1"
    by (cases "next_chunk B"; simp add: chunk_rep_def)+
  from find_loop_hit [OF this Nil.prems(4), of look sp] obtain sp' where
    "find_loop m i look sp (d, 1) = Some (True, (d, 1 + tlen pre), sp')" "space_from m d 1 pre sp sp'" by blast
  then show ?case using space_in_head [of m d pre sp sp' "[]"] e by auto
next
  case (Cons x A)
  have x: "x = (c, is)" and cs: "cs = A @ (d, pre @ Prop i t bs # post) # B" using Cons.prems(2) by auto
  obtain c' is' cs' where cs': "cs = (c', is') # cs'" using cs by (cases A) auto
  then have r: "chunk_rep m c is (Some c')" "chunks_rep m ((c', is') # cs')" using Cons.prems(1) by simp_all
  obtain look' sp' where s1: "find_loop m i look sp (c, 1) = find_loop m i look' sp' (c, 1 + tlen is)"
    "space_from m c 1 is sp sp'"
    using find_loop_chunk [OF chunk_rep_link(1, 2) [OF r(1)], of i look sp] Cons.prems(3) x by auto
  have s2: "find_loop m i look' sp' (c, 1 + tlen is) = find_loop m i look' sp' (c', 1)"
    using chunk_rep_link(3-5) [OF r(1)] by (subst find_loop.simps) auto
  obtain sp'' where s3: "find_loop m i look' sp' (c', 1) = Some (True, (d, 1 + tlen pre), sp'')"
    "space_in m (A @ [(d, pre)]) sp' sp''"
    using Cons.IH [OF r(2), of look' sp'] Cons.prems(3, 4) cs cs' by auto
  show ?case
    using s1 s2 s3 space_in_trans [OF space_in_head [OF s1(2), of "A @ [(d, pre)]"] space_in_Cons [OF s3(2)]] x by auto
qed

section \<open>Space that fits\<close>

text \<open>
  The space is in front of the end of a chunk's contents, a run of gaps (\<open>gap_fit\<close>), or it is all
  that is left in the last chunk (\<open>end_fit\<close>).
\<close>

definition gap_fit :: "mem \<Rightarrow> (addr \<times> item list) list \<Rightarrow> pspace \<Rightarrow> bool" where
  "gap_fit m cs sp \<longleftrightarrow>
     (\<exists>A c pre gs post B. cs = A @ (c, pre @ gs @ post) # B \<and> (\<forall>g\<in>set gs. is_gap g) \<and>
        sp_pos sp = (c, 1 + tlen pre) \<and> sp_size sp = tlen gs \<and> sp_req sp \<le> sp_size sp \<and>
        1 + tlen pre + tlen gs \<le> unat (m c))"

definition end_fit :: "mem \<Rightarrow> (addr \<times> item list) list \<Rightarrow> pspace \<Rightarrow> bool" where
  "end_fit m cs sp \<longleftrightarrow>
     (\<exists>A c pre gs. cs = A @ [(c, pre @ gs)] \<and> (\<forall>g\<in>set gs. is_gap g) \<and>
        sp_pos sp = (c, 1 + tlen pre) \<and> sp_size sp = unat (m c) - tlen pre \<and> sp_req sp \<le> sp_size sp)"

lemma gap_fitI:
  "cs = A @ (c, pre @ gs @ post) # B \<Longrightarrow> \<forall>g\<in>set gs. is_gap g \<Longrightarrow> sp_pos sp = (c, 1 + tlen pre) \<Longrightarrow>
   sp_size sp = tlen gs \<Longrightarrow> sp_req sp \<le> sp_size sp \<Longrightarrow> 1 + tlen pre + tlen gs \<le> unat (m c) \<Longrightarrow> gap_fit m cs sp"
  unfolding gap_fit_def by blast

lemma end_fitI:
  "cs = A @ [(c, pre @ gs)] \<Longrightarrow> \<forall>g\<in>set gs. is_gap g \<Longrightarrow> sp_pos sp = (c, 1 + tlen pre) \<Longrightarrow>
   sp_size sp = unat (m c) - tlen pre \<Longrightarrow> sp_req sp \<le> sp_size sp \<Longrightarrow> end_fit m cs sp"
  unfolding end_fit_def by blast

lemma fit_at:
  assumes r: "chunk_rep m c (pre @ post) (next_chunk B)"
    and p: "sp_pos sp = (c, 1 + tlen pre)" "sp_size sp = free_space m (c, 1 + tlen pre)" "sp_req sp \<le> sp_size sp"
  shows "gap_fit m (A @ (c, pre @ post) # B) sp \<or> B = [] \<and> end_fit m (A @ (c, pre @ post) # B) sp"
proof -
  obtain gs rest where post: "post = gs @ rest" and gaps: "\<forall>g\<in>set gs. is_gap g"
    and rest: "rest = [] \<or> \<not> is_gap (hd rest)"
  proof
    show "post = takeWhile is_gap post @ dropWhile is_gap post" by simp
    show "\<forall>g\<in>set (takeWhile is_gap post). is_gap g" by (auto dest: set_takeWhileD)
    show "dropWhile is_gap post = [] \<or> \<not> is_gap (hd (dropWhile is_gap post))" using hd_dropWhile [of is_gap post] by metis
  qed
  have at: "items_at m (c + (1 + tlen pre)) gs" "items_at m (c + (1 + tlen pre + tlen gs)) rest"
    using r by (simp_all add: chunk_rep_def add.assoc post)
  have tl: "tlen post = tlen gs + tlen rest" by (simp add: post)
  have len: "1 + tlen pre + tlen gs + tlen rest \<le> unat (m c) + 1"
    using r tl by (cases "next_chunk B") (simp_all add: chunk_rep_def)
  show ?thesis
  proof (cases rest)
    case (Cons it rest')
    then have ng: "\<not> is_gap it" using rest by simp
    have it: "item_at m (c + (1 + tlen pre + tlen gs)) it" "1 + tlen pre + tlen gs \<le> unat (m c)"
      using at(2) len Cons ilen_pos(1) [of it] by (simp_all del: ilen_pos)
    have "free_space m (c, 1 + tlen pre) = tlen gs"
      by (rule free_space_bounded [OF at(1) gaps]) (use it not_done_item [OF it] ng in auto)
    then have "gap_fit m (A @ (c, pre @ post) # B) sp"
      by (intro gap_fitI [of _ A c pre gs rest B]) (use gaps p it(2) post in simp_all)
    then show ?thesis ..
  next
    case Nil
    then have pg: "post = gs" using post by simp
    show ?thesis
    proof (cases "next_chunk B")
      case None
      then have B: "B = []" by (cases B) (simp_all add: next_chunk_def)
      have "\<not> not_done m (c, 1 + tlen pre + tlen gs)"
        using chunk_rep_end(3) [of m c "pre @ post"] r None pg by (simp add: add.assoc)
      then have "free_space m (c, 1 + tlen pre) = unat (m c) - tlen pre"
        using free_space_end [OF at(1) gaps] len Nil by simp
      then have "end_fit m (A @ (c, pre @ post) # B) sp"
        by (intro end_fitI [of _ A c pre gs]) (use gaps p pg B in simp_all)
      then show ?thesis using B by simp
    next
      case (Some d)
      have l: "not_done m (c, 1 + tlen pre + tlen gs)" "ptype m (c, 1 + tlen pre + tlen gs) = p_link"
        using chunk_rep_link [of m c "pre @ post" d] r Some pg by (simp_all add: add.assoc)
      moreover have "1 + tlen pre + tlen gs \<le> unat (m c)" using r Some pg tl Nil by (simp add: chunk_rep_def)
      ultimately have "free_space m (c, 1 + tlen pre) = tlen gs"
        using free_space_bounded [OF at(1) gaps] by (simp add: p_link_def p_unused_def)
      then have "gap_fit m (A @ (c, pre @ post) # B) sp"
        by (intro gap_fitI [of _ A c pre gs rest B]) (use gaps p \<open>1 + tlen pre + tlen gs \<le> unat (m c)\<close> post in simp_all)
      then show ?thesis ..
    qed
  qed
qed

lemma space_in_fits:
  assumes "chunks_rep m cs" "space_in m cs sp sp'" "sp' \<noteq> sp"
  shows "gap_fit m cs sp' \<or> end_fit m cs sp'"
proof -
  obtain A c B pre n post where s: "cs = A @ (c, pre @ Gap n # post) # B"
    "sp' = set_pos (c, 1 + tlen pre) (free_space m (c, 1 + tlen pre)) sp" "sp_req sp \<le> free_space m (c, 1 + tlen pre)"
    using assms(2, 3) unfolding space_in_def by auto
  have "chunk_rep m c (pre @ Gap n # post) (next_chunk B)" using assms(1) unfolding s(1) by (rule chunks_rep_mid)
  from fit_at [OF this, of sp' A] show ?thesis using s by auto
qed

lemma find_space_chunk:
  assumes "items_at m (c + off) is" "off + tlen is \<le> unat (m c) + 1"
  shows "(\<exists>pre n post. is = pre @ Gap n # post \<and> sp_req sp \<le> free_space m (c, off + tlen pre) \<and>
      find_space m sp st (c, off) = Some (True, set_pos (c, off + tlen pre) (free_space m (c, off + tlen pre)) sp, st)) \<or>
    find_space m sp st (c, off) = find_space m sp st (c, off + tlen is)"
  using assms
proof (induction "is" arbitrary: off)
  case (Cons it "is")
  have at: "item_at m (c + off) it" "items_at m (c + (off + ilen it)) is" "off + ilen it + tlen is \<le> unat (m c) + 1"
    "off \<le> unat (m c)" using Cons.prems ilen_pos(1) [of it] by (simp_all add: add.assoc del: ilen_pos)
  note nd = not_done_item [OF at(1, 4)]
  show ?case
  proof (cases "is_gap it \<and> sp_req sp \<le> free_space m (c, off)")
    case True
    then obtain n where "it = Gap n" by (cases it) auto
    then show ?thesis
      using True nd by (intro disjI1 exI [of _ "[]"]) (subst find_space.simps, auto)
  next
    case False
    then have st: "find_space m sp st (c, off) = find_space m sp st (c, off + ilen it)"
      using nd by (subst find_space.simps) auto
    show ?thesis
      using Cons.IH [OF at(2, 3)]
    proof (elim disjE exE conjE)
      fix pre n post
      assume a: "is = pre @ Gap n # post" "sp_req sp \<le> free_space m (c, off + ilen it + tlen pre)"
        "find_space m sp st (c, off + ilen it) =
          Some (True, set_pos (c, off + ilen it + tlen pre) (free_space m (c, off + ilen it + tlen pre)) sp, st)"
      show ?thesis
        by (intro disjI1 exI [of _ "it # pre"] exI [of _ n] exI [of _ post]) (use a st in \<open>simp add: add.assoc\<close>)
    qed (use st in \<open>simp add: add.assoc\<close>)
  qed
qed simp

text \<open>\<open>find_space\<close> from a position between two items.\<close>

lemma find_space_list:
  assumes "chunks_rep m cs" "cs = A @ (c, pre @ post) # B"
  shows "\<exists>sp' e. find_space m sp st (c, 1 + tlen pre) = Some (True, sp', e) \<and> sp_req sp' = sp_req sp \<and> sp_new sp' = sp_new sp \<and>
        (gap_fit m cs sp' \<or> end_fit m cs sp') \<or>
      find_space m sp st (c, 1 + tlen pre) = Some (False, sp, (fst (last cs), 1 + tlen (snd (last cs)))) \<and>
        free_space m (fst (last cs), 1 + tlen (snd (last cs))) < sp_req sp"
  using assms
proof (induction B arbitrary: A c pre post st)
  case Nil
  have r: "chunk_rep m c (pre @ post) (next_chunk [])"
    using Nil.prems(1) unfolding Nil.prems(2) by (rule chunks_rep_mid)
  then have r': "chunk_rep m c (pre @ post) None" by (simp add: next_chunk_def)
  have at: "items_at m (c + (1 + tlen pre)) post" "1 + tlen pre + tlen post \<le> unat (m c) + 1"
    using chunk_rep_end(1, 2) [OF r'] by (simp_all add: add.assoc)
  show ?case
    using find_space_chunk [OF at, of sp st]
  proof (elim disjE exE conjE)
    fix p1 n p2
    let ?q = "(c, 1 + tlen pre + tlen p1)"
    assume a: "post = p1 @ Gap n # p2" "sp_req sp \<le> free_space m ?q"
      "find_space m sp st (c, 1 + tlen pre) = Some (True, set_pos ?q (free_space m ?q) sp, st)"
    have "gap_fit m cs (set_pos ?q (free_space m ?q) sp) \<or> end_fit m cs (set_pos ?q (free_space m ?q) sp)"
      using fit_at [of m c "pre @ p1" "Gap n # p2" "[]" "set_pos ?q (free_space m ?q) sp" A] r a Nil.prems(2)
      by (auto simp: add.assoc)
    then show ?thesis using a(3) by auto
  next
    let ?q = "(c, 1 + tlen pre + tlen post)"
    assume a: "find_space m sp st (c, 1 + tlen pre) = find_space m sp st ?q"
    have nd: "\<not> not_done m ?q" using chunk_rep_end(3) [OF r'] by (simp add: add.assoc)
    show ?thesis
    proof (cases "sp_req sp \<le> free_space m ?q")
      case True
      have "gap_fit m cs (set_pos ?q (free_space m ?q) sp) \<or> end_fit m cs (set_pos ?q (free_space m ?q) sp)"
        using fit_at [of m c "pre @ post" "[]" "[]" "set_pos ?q (free_space m ?q) sp" A] r True Nil.prems(2)
        by (auto simp: add.assoc)
      then show ?thesis using a nd True by (subst (asm) (2) find_space.simps) auto
    next
      case False
      then show ?thesis using a nd Nil.prems(2) by (subst (asm) (2) find_space.simps) (auto simp: add.assoc)
    qed
  qed
next
  case (Cons x B)
  obtain d js where x: "x = (d, js)" by fastforce
  have r: "chunk_rep m c (pre @ post) (next_chunk (x # B))"
    using Cons.prems(1) unfolding Cons.prems(2) by (rule chunks_rep_mid)
  then have r': "chunk_rep m c (pre @ post) (Some d)" by (simp add: next_chunk_def x)
  have at: "items_at m (c + (1 + tlen pre)) post" "1 + tlen pre + tlen post \<le> unat (m c) + 1"
    using chunk_rep_link(1, 2) [OF r'] by (simp_all add: add.assoc)
  show ?case
    using find_space_chunk [OF at, of sp st]
  proof (elim disjE exE conjE)
    fix p1 n p2
    let ?q = "(c, 1 + tlen pre + tlen p1)"
    assume a: "post = p1 @ Gap n # p2" "sp_req sp \<le> free_space m ?q"
      "find_space m sp st (c, 1 + tlen pre) = Some (True, set_pos ?q (free_space m ?q) sp, st)"
    have "gap_fit m cs (set_pos ?q (free_space m ?q) sp) \<or> end_fit m cs (set_pos ?q (free_space m ?q) sp)"
      using fit_at [of m c "pre @ p1" "Gap n # p2" "x # B" "set_pos ?q (free_space m ?q) sp" A] r a Cons.prems(2)
      by (auto simp: add.assoc)
    then show ?thesis using a(3) by auto
  next
    let ?q = "(c, 1 + tlen pre + tlen post)"
    assume a: "find_space m sp st (c, 1 + tlen pre) = find_space m sp st ?q"
    have "find_space m sp st ?q = find_space m sp st (d, 1)"
      using chunk_rep_link(3-5) [OF r'] by (subst find_space.simps) (auto simp: add.assoc)
    then have "find_space m sp st (c, 1 + tlen pre) = find_space m sp st (d, 1 + tlen [])" using a by simp
    moreover have "cs = (A @ [(c, pre @ post)]) @ (d, [] @ js) # B" using Cons.prems(2) x by simp
    ultimately show ?thesis using Cons.IH [OF Cons.prems(1)] by metis
  qed
qed

end
