(* ===== verification/Property_Update.thy ===== *)
theory Property_Update
  imports Property_Layout
begin

text \<open>
  The changing functions of \<open>Property_List\<close> on the layout of \<open>Property_Layout\<close>: freeing a property,
  placing one into space, adding a chunk. Each lemma says what the items are afterwards and that no
  other byte has changed.
\<close>

section \<open>Bytes that matter\<close>

lemma item_at_cong: "item_at m a it \<Longrightarrow> (\<And>x. a \<le> x \<Longrightarrow> x < a + ilen it \<Longrightarrow> m' x = m x) \<Longrightarrow> item_at m' a it"
proof (cases it)
  case (Prop i t bs)
  assume a: "item_at m a it" and eq: "\<And>x. a \<le> x \<Longrightarrow> x < a + ilen it \<Longrightarrow> m' x = m x"
  have "read_bytes m' (a + 1) 2 = read_bytes m (a + 1) 2" "read_bytes m' (a + 3) (length bs) = read_bytes m (a + 3) (length bs)"
    by (rule read_bytes_cong; use eq Prop in simp)+
  then show ?thesis using a eq [of a] Prop by simp
qed simp

lemma items_at_cong:
  "items_at m a is \<Longrightarrow> (\<And>x. a \<le> x \<Longrightarrow> x < a + tlen is \<Longrightarrow> m' x = m x) \<Longrightarrow> items_at m' a is"
proof (induction "is" arbitrary: a)
  case (Cons it "is")
  have "item_at m' a it" by (rule item_at_cong [of m]) (use Cons.prems in auto)
  moreover have "items_at m' (a + ilen it) is" by (rule Cons.IH) (use Cons.prems in auto)
  ultimately show ?case by simp
qed simp

definition region :: "mem \<Rightarrow> addr \<Rightarrow> addr set" where
  "region m c = {c..c + unat (m c)}"

lemma chunk_rep_bound: "chunk_rep m c is nxt \<Longrightarrow> tlen is \<le> unat (m c)"
  by (cases nxt) (simp_all add: chunk_rep_def)

text \<open>A chunk whose items change, but not their length nor what comes after them.\<close>

lemma chunk_rep_items:
  assumes r: "chunk_rep m c is nxt" and its: "items_at m' (c + 1) is'" and tl: "tlen is' = tlen is"
    and mc: "m' c = m c" and same: "\<And>x. c + (1 + tlen is) \<le> x \<Longrightarrow> x \<in> region m c \<Longrightarrow> m' x = m x"
  shows "chunk_rep m' c is' nxt"
proof (cases nxt)
  case None
  have "ptype m' (c, 1 + tlen is) = ptype m (c, 1 + tlen is)" if "1 + tlen is \<le> unat (m c)"
    using same [of "c + (1 + tlen is)"] that by (simp add: ptype_def type_size_def region_def)
  then show ?thesis using r None its mc tl by (simp add: chunk_rep_def)
next
  case (Some d)
  have l: "tlen is + 9 = unat (m c)" using r Some by (simp add: chunk_rep_def)
  have "ptype m' (c, 1 + tlen is) = ptype m (c, 1 + tlen is)"
    using same [of "c + (1 + tlen is)"] l by (simp add: ptype_def type_size_def region_def)
  moreover have "link m' (c, 1 + tlen is) = link m (c, 1 + tlen is)"
    unfolding link_def read64_def
    by (rule arg_cong [where f = "\<lambda>bs. unat (le_word bs :: u64)"], rule read_bytes_cong)
      (use same l in \<open>auto simp: region_def\<close>)
  ultimately show ?thesis using r Some its mc tl by (simp add: chunk_rep_def)
qed

lemma chunk_rep_cong:
  assumes "chunk_rep m c is nxt" "\<And>x. x \<in> region m c \<Longrightarrow> m' x = m x"
  shows "chunk_rep m' c is nxt"
proof (rule chunk_rep_items [OF assms(1)])
  show "m' c = m c" using assms(2) [of c] by (simp add: region_def)
  show "items_at m' (c + 1) is"
    by (rule items_at_cong [of m]) (use assms chunk_rep_bound [OF assms(1)] in \<open>auto simp: chunk_rep_def region_def\<close>)
qed (use assms(2) in auto)

text \<open>No two chunks of the list overlap.\<close>

definition apart :: "mem \<Rightarrow> (addr \<times> item list) list \<Rightarrow> bool" where
  "apart m cs \<longleftrightarrow> distinct (map fst cs) \<and>
     (\<forall>c\<in>fst ` set cs. \<forall>d\<in>fst ` set cs. c \<noteq> d \<longrightarrow> region m c \<inter> region m d = {})"

definition all_regions :: "mem \<Rightarrow> (addr \<times> item list) list \<Rightarrow> addr set" where
  "all_regions m cs = (\<Union>c\<in>fst ` set cs. region m c)"

definition wf_list :: "mem \<Rightarrow> (addr \<times> item list) list \<Rightarrow> bool" where
  "wf_list m cs \<longleftrightarrow> chunks_rep m cs \<and> apart m cs"

text \<open>One chunk changes its items, the other chunks stay.\<close>

lemma chunks_rep_change:
  assumes "chunks_rep m (A @ (c, is) # B)" "chunk_rep m' c is' (next_chunk B)"
    "\<And>d js. (d, js) \<in> set A \<union> set B \<Longrightarrow> \<forall>x\<in>region m d. m' x = m x"
  shows "chunks_rep m' (A @ (c, is') # B)"
  using assms(1, 3)
proof (induction A)
  case Nil
  have "chunks_rep m' B" if "B \<noteq> []"
  proof -
    have "chunks_rep m B" using Nil.prems(1) that by (simp add: chunks_rep_Cons)
    then show ?thesis
      using that Nil.prems(2)
    proof (induction B)
      case (Cons y B)
      obtain d js where y: "y = (d, js)" by fastforce
      have "chunk_rep m' d js (next_chunk B)"
        by (rule chunk_rep_cong [of m]) (use Cons.prems y in \<open>auto simp: chunks_rep_Cons\<close>)
      moreover have "chunks_rep m' B" if "B \<noteq> []"
        by (rule Cons.IH) (use Cons.prems that y in \<open>auto simp: chunks_rep_Cons\<close>)
      ultimately show ?case by (simp add: y chunks_rep_Cons)
    qed simp
  qed
  then show ?case using assms(2) by (simp add: chunks_rep_Cons)
next
  case (Cons x A)
  obtain d js where x: "x = (d, js)" by fastforce
  have "chunk_rep m' d js (next_chunk (A @ (c, is') # B))"
  proof (rule chunk_rep_cong [of m])
    have "next_chunk (A @ (c, is') # B) = next_chunk (A @ (c, is) # B)" by (cases A) (simp_all add: next_chunk_def)
    then show "chunk_rep m d js (next_chunk (A @ (c, is') # B))"
      using Cons.prems(1) by (simp add: x chunks_rep_Cons)
    show "m' y = m y" if "y \<in> region m d" for y using Cons.prems(2) [of d js] that x by simp
  qed
  moreover have "chunks_rep m' (A @ (c, is') # B)"
    by (rule Cons.IH) (use Cons.prems x in \<open>auto simp: chunks_rep_Cons\<close>)
  ultimately show ?case by (simp add: x chunks_rep_Cons)
qed

lemma wf_list_change:
  assumes "wf_list m (A @ (c, is) # B)" "chunk_rep m' c is' (next_chunk B)" "m' c = m c"
    "\<And>x. x \<notin> region m c \<Longrightarrow> x \<in> all_regions m (A @ (c, is) # B) \<Longrightarrow> m' x = m x"
  shows "wf_list m' (A @ (c, is') # B)" "all_regions m' (A @ (c, is') # B) = all_regions m (A @ (c, is) # B)"
proof -
  let ?cs = "A @ (c, is) # B"
  have ap: "apart m ?cs" "chunks_rep m ?cs" using assms(1) by (simp_all add: wf_list_def)
  have other: "\<forall>x\<in>region m d. m' x = m x" if "(d, js) \<in> set A \<union> set B" for d js
  proof
    fix x assume x: "x \<in> region m d"
    have "d \<in> fst ` set A \<union> fst ` set B" using that by force
    then have "d \<in> fst ` set ?cs" "c \<in> fst ` set ?cs" "d \<noteq> c" using ap(1) by (auto simp: apart_def)
    then have "region m d \<inter> region m c = {}" using ap(1) unfolding apart_def by blast
    then have "x \<notin> region m c" using x by auto
    moreover have "x \<in> all_regions m ?cs" using x \<open>d \<in> fst ` set ?cs\<close> unfolding all_regions_def by blast
    ultimately show "m' x = m x" by (rule assms(4))
  qed
  have reg: "region m' d = region m d" if d: "d \<in> fst ` set ?cs" for d
  proof (cases "d = c")
    case False
    then have "\<exists>js. (d, js) \<in> set A \<union> set B" using d by auto
    then obtain js where "(d, js) \<in> set A \<union> set B" ..
    then have "m' d = m d" using other [of d js] by (simp add: region_def)
    then show ?thesis by (simp add: region_def)
  qed (simp add: region_def assms(3))
  have fsts: "fst ` set (A @ (c, is') # B) = fst ` set ?cs" "map fst (A @ (c, is') # B) = map fst ?cs" by simp_all
  have "apart m' (A @ (c, is') # B)"
    unfolding apart_def fsts
  proof (intro conjI ballI impI)
    show "distinct (map fst ?cs)" using ap(1) by (simp add: apart_def)
    fix x y assume xy: "x \<in> fst ` set ?cs" "y \<in> fst ` set ?cs" "x \<noteq> y"
    have "region m x \<inter> region m y = {}" using ap(1) xy unfolding apart_def by blast
    then show "region m' x \<inter> region m' y = {}" using reg [OF xy(1)] reg [OF xy(2)] by simp
  qed
  moreover have "chunks_rep m' (A @ (c, is') # B)"
    by (rule chunks_rep_change [OF ap(2) assms(2)]) (use other in blast)
  ultimately show "wf_list m' (A @ (c, is') # B)" by (simp add: wf_list_def)
  show "all_regions m' (A @ (c, is') # B) = all_regions m ?cs"
    unfolding all_regions_def fsts by (simp only: reg cong: SUP_cong)
qed

section \<open>Freeing\<close>

lemma p_end_byte: "ptype (m(c + off := of_nat p_end)) (c, off) = p_end"
  by (simp add: ptype_def type_size_def p_end_def)

definition freed :: "item list \<Rightarrow> item \<Rightarrow> item list \<Rightarrow> addr option \<Rightarrow> item list" where
  "freed pre it post nxt = (if post = [] \<and> nxt = None then pre else pre @ Gap (ilen it - 1) # post)"

lemma next_after:
  assumes "chunk_rep m c (pre @ it # post) nxt"
  shows "not_done m (c, 1 + tlen pre + ilen it) \<longleftrightarrow> \<not> (post = [] \<and> nxt = None)"
proof (cases post)
  case (Cons j post')
  have "item_at m (c + (1 + tlen pre + ilen it)) j" "1 + tlen pre + ilen it \<le> unat (m c)"
    using assms chunk_rep_bound [OF assms] ilen_pos(1) [of j] Cons
    by (simp_all add: chunk_rep_def add.assoc del: ilen_pos)
  from not_done_item(1) [OF this] show ?thesis using Cons by simp
next
  case Nil
  show ?thesis
  proof (cases nxt)
    case None
    then show ?thesis using chunk_rep_end(3) [of m c "pre @ [it]"] assms Nil by (simp add: add.assoc)
  next
    case (Some d)
    then show ?thesis using chunk_rep_link(3) [of m c "pre @ [it]" d] assms Nil by (simp add: add.assoc)
  qed
qed

lemma free_chunk:
  assumes r: "chunk_rep m c (pre @ it # post) nxt" and g: "\<not> is_gap it"
    and b: "b = (if post = [] \<and> nxt = None then of_nat p_end else type_size_byte (ilen it - 1) p_unused)"
  shows "chunk_rep (m(c + (1 + tlen pre) := b)) c (freed pre it post nxt) nxt"
proof -
  let ?m = "m(c + (1 + tlen pre) := b)"
  have bound: "tlen (pre @ it # post) \<le> unat (m c)" by (rule chunk_rep_bound [OF r])
  have pre: "items_at ?m (c + 1) pre"
    by (rule items_at_cong [of m]) (use r in \<open>auto simp: chunk_rep_def\<close>)
  have small: "ilen it - 1 < 16" using r g by (cases it) (auto simp: chunk_rep_def)
  have mc: "?m c = m c" by simp
  show ?thesis
  proof (cases "post = [] \<and> nxt = None")
    case True
    have "ptype ?m (c, 1 + tlen pre) = p_end" using p_end_byte [of m c "1 + tlen pre"] b True by simp
    then show ?thesis
      using True pre r bound by (simp add: freed_def chunk_rep_def)
  next
    case False
    have "items_at ?m (c + (1 + tlen pre + ilen it)) post"
      by (rule items_at_cong [of m]) (use r ilen_pos(1) [of it] in \<open>auto simp: chunk_rep_def add.assoc\<close>)
    moreover have "item_at ?m (c + (1 + tlen pre)) (Gap (ilen it - 1))" using small b False by simp
    ultimately have its: "items_at ?m (c + 1) (pre @ Gap (ilen it - 1) # post)"
      using pre ilen_pos(1) [of it] by (simp add: add.assoc del: ilen_pos)
    have tl: "tlen (pre @ Gap (ilen it - 1) # post) = tlen (pre @ it # post)"
      using ilen_pos(1) [of it] by simp
    have "chunk_rep ?m c (pre @ Gap (ilen it - 1) # post) nxt"
      by (rule chunk_rep_items [OF r its tl mc]) (use ilen_pos(1) [of it] in \<open>simp del: ilen_pos\<close>)
    then show ?thesis unfolding freed_def if_not_P [OF False] .
  qed
qed

section \<open>Placing a property into gaps\<close>

lemma unused_loop_gaps:
  assumes "items_at m (c + off) gs" "\<forall>g\<in>set gs. is_gap g" "off + tlen gs \<le> unat (m c) + 1"
    "u < new" "new \<le> u + tlen gs" "new \<le> n + u"
  shows "\<exists>g1 g2. gs = g1 @ g2 \<and> unused_loop n m (c, off) u new = u + tlen g1 \<and> new \<le> u + tlen g1 \<and>
    u + tlen g1 - new < 16"
  using assms
proof (induction gs arbitrary: off u n)
  case (Cons g gs)
  then obtain k where g: "g = Gap k" by (cases g) auto
  have at: "item_at m (c + off) (Gap k)" using Cons.prems(1) g by simp
  obtain n' where n: "n = Suc n'" using Cons.prems(4, 6) by (cases n) auto
  note it = item_at_gap [OF at]
  show ?case
  proof (cases "u + (k + 1) < new")
    case True
    obtain g1 g2 where gg: "gs = g1 @ g2"
      "unused_loop n' m (c, off + ilen g) (u + (k + 1)) new = u + (k + 1) + tlen g1" "new \<le> u + (k + 1) + tlen g1"
      "u + (k + 1) + tlen g1 - new < 16"
      using Cons.IH [of "off + ilen g" "u + (k + 1)" n'] Cons.prems True g n by (auto simp: add.assoc)
    have "unused_loop n m (c, off) u new = u + tlen (g # g1)"
      using gg(2) True n g it by (simp add: Let_def)
    then show ?thesis using gg g by (intro exI [of _ "g # g1"] exI [of _ g2]) simp
  next
    case False
    have "unused_loop n m (c, off) u new = u + tlen [g]" using False n g it by (simp add: Let_def)
    then show ?thesis using False g at Cons.prems(4) by (intro exI [of _ "[g]"] exI [of _ gs]) (simp, linarith)
  qed
qed simp

definition left_over :: "nat \<Rightarrow> item list" where
  "left_over k = (if 0 < k then [Gap (k - 1)] else [])"

lemma tlen_left_over [simp]: "tlen (left_over k) = k" "ids (left_over k) = {}" "props (left_over k) = []"
  by (simp_all add: left_over_def)

lemma gaps_no_props: "\<forall>g\<in>set gs. is_gap g \<Longrightarrow> props gs = []"
proof (induction gs)
  case (Cons g gs)
  then show ?case by (cases g) auto
qed simp

lemma pl_mem_store [simp]: "pl_mem (store a bs s) = write_bytes (pl_mem s) a bs"
  by (simp add: store_def emit_def)

lemma pl_mem_emit [simp]: "pl_mem (emit e s) = pl_mem s"
  by (simp add: emit_def)

lemma write_one: "write_bytes m a [b] = m(a := b)"
  by (auto simp: write_bytes_def fun_eq_iff)

lemma pl_mem_set_type_size [simp]: "pl_mem (set_type_size p b s) = (pl_mem s)(fst p + snd p := b)"
  by (simp add: set_type_size_def write_one)

text \<open>\<open>set_size\<close> in a run of gaps.\<close>

lemma set_size_gaps:
  assumes "items_at m (c + off) gs" "\<forall>g\<in>set gs. is_gap g" "off + tlen gs \<le> unat (m c)" "m = pl_mem s"
    "0 < req" "req \<le> 256" "req \<le> tlen gs"
  shows "\<exists>g1 g2. gs = g1 @ g2 \<and> req \<le> tlen g1 \<and> tlen g1 - req < 16 \<and>
    pl_mem (set_size (c, off) (tlen gs) req s) =
      (if req < tlen g1 then m(c + off + req := type_size_byte (tlen g1 - req - 1) p_unused) else m)"
proof -
  obtain g1 g2 where g: "gs = g1 @ g2" "unused_loop 256 m (c, off) 0 req = tlen g1" "req \<le> tlen g1" "tlen g1 - req < 16"
    using unused_loop_gaps [OF assms(1, 2), of 0 req 256] assms(3, 5-7) by auto
  have "tlen gs \<noteq> chunk_size m (c, off) - off" using assms(3) by (simp add: chunk_size_def chunk_end_def)
  then have "pl_mem (set_size (c, off) (tlen gs) req s) =
      (if req < tlen g1 then m(c + off + req := type_size_byte (tlen g1 - req - 1) p_unused) else m)"
    using g(2) by (simp add: set_size_def Let_def add.assoc flip: assms(4))
  then show ?thesis using g(1, 3, 4) by blast
qed

text \<open>
  The items after a property of length \<open>req\<close> has been written at the start of a run of gaps; \<open>m1\<close> is
  the memory after \<open>set_size\<close>, \<open>m'\<close> after the property has been written.
\<close>

lemma place_in_gaps:
  assumes r: "chunk_rep m c (pre @ gs @ post) nxt" and gaps: "\<forall>g\<in>set gs. is_gap g"
    and bound: "1 + tlen pre + tlen gs \<le> unat (m c)" and req: "ilen new = req" "req \<le> tlen gs" "req \<le> 256"
    and m1: "m1 = (if req < tlen gs then pl_mem (set_size (c, 1 + tlen pre) (tlen gs) req s) else m)" "m = pl_mem s"
    and new: "item_at m' (c + (1 + tlen pre)) new"
    and same: "\<And>x. x \<in> region m c \<Longrightarrow> x < c + (1 + tlen pre) \<or> c + (1 + tlen pre) + req \<le> x \<Longrightarrow> m' x = m1 x"
  shows "\<exists>gs'. (\<forall>g\<in>set gs'. is_gap g) \<and> chunk_rep m' c (pre @ new # gs' @ post) nxt"
proof -
  have len: "tlen (pre @ gs @ post) \<le> unat (m c)" by (rule chunk_rep_bound [OF r])
  have its: "items_at m (c + 1) pre" "items_at m (c + (1 + tlen pre)) gs" "items_at m (c + (1 + tlen pre + tlen gs)) post"
    using r by (simp_all add: chunk_rep_def add.assoc)
  have pos: "0 < req" using req(1) ilen_pos(1) [of new] by simp
  obtain g1 g2 where g: "gs = g1 @ g2" "req \<le> tlen g1" "tlen g1 - req < 16"
    "m1 = (if req < tlen g1 then m(c + (1 + tlen pre) + req := type_size_byte (tlen g1 - req - 1) p_unused) else m)"
  proof (cases "req < tlen gs")
    case True
    obtain g1 g2 where "gs = g1 @ g2" "req \<le> tlen g1" "tlen g1 - req < 16"
      "pl_mem (set_size (c, 1 + tlen pre) (tlen gs) req s) =
        (if req < tlen g1 then m(c + (1 + tlen pre) + req := type_size_byte (tlen g1 - req - 1) p_unused) else m)"
      using set_size_gaps [OF its(2) gaps bound m1(2) pos req(3, 2)] by blast
    then show ?thesis using m1(1) True that by simp
  next
    case False
    then have "tlen gs = req" using req(2) by simp
    then show ?thesis using m1(1) that [of gs "[]"] by simp
  qed
  have m'c: "m' c = m c" using same [of c] g(4) by (simp add: region_def)
  have m'eq: "m' x = m x"
    if "x \<in> region m c" "x < c + (1 + tlen pre) \<or> c + (1 + tlen pre) + tlen g1 \<le> x" for x
    using that same [of x] g(2, 4) by (cases "req < tlen g1") auto
  have pre': "items_at m' (c + 1) pre"
    by (rule items_at_cong [OF its(1)], rule m'eq) (use len in \<open>auto simp: region_def\<close>)
  have g2': "items_at m' (c + (1 + tlen pre + tlen g1)) (g2 @ post)"
    by (rule items_at_cong [of m], use its g(1) in \<open>simp add: add.assoc\<close>, rule m'eq)
      (use len g(1) in \<open>auto simp: region_def\<close>)
  have left': "items_at m' (c + (1 + tlen pre) + req) (left_over (tlen g1 - req))"
  proof (cases "req < tlen g1")
    case True
    have "c + (1 + tlen pre) + req \<in> region m c" using True g(1) len by (simp add: region_def)
    then have "m' (c + (1 + tlen pre) + req) = type_size_byte (tlen g1 - req - 1) p_unused"
      using same [of "c + (1 + tlen pre) + req"] g(4) True by simp
    then show ?thesis using g(3) True by (simp add: left_over_def)
  qed (simp add: left_over_def)
  let ?gs = "left_over (tlen g1 - req) @ g2"
  have "items_at m' (c + 1) (pre @ new # ?gs @ post)"
    using pre' new left' g2' req(1) g(2) by (simp add: add.assoc)
  moreover have "tlen (pre @ new # ?gs @ post) = tlen (pre @ gs @ post)" using g(1, 2) req(1) by simp
  moreover have "m' x = m x" if "c + (1 + tlen (pre @ gs @ post)) \<le> x" "x \<in> region m c" for x
    using m'eq [OF that(2)] that(1) g(1) by simp
  ultimately have "chunk_rep m' c (pre @ new # ?gs @ post) nxt"
    using chunk_rep_items [OF r] m'c by blast
  moreover have "\<forall>x\<in>set ?gs. is_gap x" using gaps g(1) by (auto simp: left_over_def)
  ultimately show ?thesis by blast
qed

text \<open>The same at the end of the list, where the rest of the chunk becomes \<open>p_end\<close>.\<close>

lemma place_at_end:
  assumes r: "chunk_rep m c (pre @ gs) None" and sz: "sz = unat (m c) - tlen pre"
    and req: "ilen new = req" "req \<le> sz"
    and m1: "m1 = (if req < sz then pl_mem (set_size (c, 1 + tlen pre) sz req s) else m)" "m = pl_mem s"
    and new: "item_at m' (c + (1 + tlen pre)) new"
    and same: "\<And>x. x \<in> region m c \<Longrightarrow> x < c + (1 + tlen pre) \<or> c + (1 + tlen pre) + req \<le> x \<Longrightarrow> m' x = m1 x"
  shows "chunk_rep m' c (pre @ [new]) None"
proof -
  have len: "tlen pre \<le> unat (m c)" "tlen pre + req \<le> unat (m c)"
    using chunk_rep_bound [OF r] req sz ilen_pos(1) [of new] by simp_all
  have m1': "m1 = (if req < sz then m(c + (1 + tlen pre) + req := of_nat p_end) else m)"
    using m1 len sz by (simp add: set_size_def Let_def chunk_size_def chunk_end_def add.assoc)
  have m'c: "m' c = m c" using same [of c] m1' by (simp add: region_def)
  have "items_at m' (c + 1) pre"
  proof (rule items_at_cong [of m])
    fix x assume "c + 1 \<le> x" "x < c + 1 + tlen pre"
    then show "m' x = m x" using same [of x] m1' len by (auto simp: region_def)
  qed (use r in \<open>simp add: chunk_rep_def\<close>)
  then have "items_at m' (c + 1) (pre @ [new])" using new by (simp add: add.assoc)
  moreover have "ptype m' (c, 1 + tlen (pre @ [new])) = p_end" if "1 + tlen (pre @ [new]) \<le> unat (m c)"
  proof -
    have "req < sz" using that req(1) sz by simp
    then have "m' (c + (1 + tlen (pre @ [new]))) = of_nat p_end"
      using same [of "c + (1 + tlen pre) + req"] m1' that req(1) by (simp add: region_def add.assoc)
    then show ?thesis by (simp add: ptype_def type_size_def p_end_def)
  qed
  ultimately show ?thesis using r m'c len req(1) by (simp add: chunk_rep_def)
qed

section \<open>Writing a value\<close>

text \<open>The value as it is stored in the list, a long string or a blob being at address \<open>a\<close>.\<close>

fun blob_of :: "property \<Rightarrow> u8 list option" where
  "blob_of (StrV bs) = (if length bs \<le> 13 then None else Some bs)"
| "blob_of (BlobV bs) = Some bs"
| "blob_of _ = None"

fun encode_value :: "property \<Rightarrow> addr \<Rightarrow> nat \<times> u8 list" where
  "encode_value NoValue a = (p_novalue, [])"
| "encode_value (BoolV b) a = (if b then p_boolean_true else p_boolean_false, [])"
| "encode_value (IntV v) a = (p_integer, le_bytes (get_int_len v) v)"
| "encode_value (StrV bs) a =
     (if length bs \<le> 13 then (p_string, bs)
      else (p_string_ptr, le_bytes 8 (of_nat a :: u64) @ le_bytes 4 (of_nat (length bs) :: u32)))"
| "encode_value (FloatV d) a = (p_float, le_bytes 8 d)"
| "encode_value (TimeV t) a = (p_time, le_bytes 9 t)"
| "encode_value (BlobV bs) a = (p_blob, le_bytes 8 (of_nat a :: u64) @ le_bytes 4 (of_nat (length bs) :: u32))"

lemma length_encode_value: "length (snd (encode_value v a)) = get_space v"
  by (cases v) auto

lemma sint_not: "sint (NOT v) = - sint v - 1" for v :: u64
proof -
  have "sint (NOT v) = NOT (sint v)"
    by (rule bit_eqI) (auto simp: bit_simps bit_sint_iff not_less min_def)
  then show ?thesis by (simp add: not_eq_complement)
qed

lemma uint_sint_pos: "0 \<le> sint v \<Longrightarrow> uint v = sint v" for v :: u64
  using sint_lt [of v] by (simp add: uint_sint take_bit_int_eq_self)

text \<open>The value fits into as many bytes as \<open>get_int_len\<close> says, and these are at most eight.\<close>

lemma get_int_len_ok:
  shows "1 \<le> get_int_len v" "get_int_len v \<le> 8"
    and "- (2 ^ (8 * get_int_len v - 1)) \<le> sint v" "sint v < 2 ^ (8 * get_int_len v - 1)"
proof -
  define v' where "v' = (if sint v < 0 then - v - 1 else v)"
  have v'_sint: "sint v' = (if sint v < 0 then - sint v - 1 else sint v)"
    using sint_not [of v] by (simp add: v'_def not_eq_complement)
  then have pos: "0 \<le> sint v'" by simp
  have uv: "int (unat v') = sint v'" using uint_sint_pos [OF pos] by simp
  have lt: "unat v' < 2 ^ 63"
  proof -
    have "int (unat v') < 2 ^ 63" using sint_lt [of v'] uv by simp
    then show ?thesis by (metis of_nat_less_iff of_nat_numeral of_nat_power)
  qed
  have len: "get_int_len v = (if v' = 0 then 1 else (floor_log2 (unat v') + 1) div 8 + 1)"
    by (simp add: get_int_len_def v'_def bsr_def Let_def)
  show "1 \<le> get_int_len v" by (simp add: len)
  have b: "2 ^ floor_log2 (unat v') \<le> unat v'" "unat v' < 2 ^ (floor_log2 (unat v') + 1)" if "v' \<noteq> 0"
    using floor_log2_bounds [of "unat v'"] that by (simp_all add: unat_gt_0)
  show "get_int_len v \<le> 8"
  proof (cases "v' = 0")
    case False
    have "2 ^ floor_log2 (unat v') < (2 :: nat) ^ 63" using b(1) [OF False] lt by linarith
    then have "floor_log2 (unat v') < 63" by (simp only: power_strict_increasing_iff)
    then have "(floor_log2 (unat v') + 1) div 8 \<le> 63 div 8" by (intro div_le_mono) simp
    then show ?thesis by (simp add: len)
  qed (simp add: len)
  have "sint v' < 2 ^ (8 * get_int_len v - 1)"
  proof (cases "v' = 0")
    case False
    have "floor_log2 (unat v') + 1 \<le> 8 * get_int_len v - 1" using False by (simp add: len)
    then have "(2 :: nat) ^ (floor_log2 (unat v') + 1) \<le> 2 ^ (8 * get_int_len v - 1)" by (rule power_increasing) simp
    then have "unat v' < 2 ^ (8 * get_int_len v - 1)" using b(2) [OF False] by linarith
    then have "int (unat v') < 2 ^ (8 * get_int_len v - 1)" by (metis of_nat_less_iff of_nat_numeral of_nat_power)
    then show ?thesis using uv by simp
  qed simp
  then show "- (2 ^ (8 * get_int_len v - 1)) \<le> sint v" "sint v < 2 ^ (8 * get_int_len v - 1)"
    using v'_sint by (auto split: if_splits)
qed

lemma get_space_le: "get_space v \<le> 13"
  by (cases v) (auto intro: le_trans [OF get_int_len_ok(2)])

lemma enc_type: "p_novalue \<le> fst (encode_value v a)" "fst (encode_value v a) \<le> p_blob"
  by (cases v; simp add: ptype_defs)+

section \<open>set_value and set_property\<close>

lemma write_bytes_append: "write_bytes (write_bytes m a xs) (a + length xs) ys = write_bytes m a (xs @ ys)"
  by (auto simp: write_bytes_def fun_eq_iff nth_append)

lemma write_bytes_append': "length xs = n \<Longrightarrow> write_bytes (write_bytes m a xs) (a + n) ys = write_bytes m a (xs @ ys)"
  using write_bytes_append by blast

text \<open>The memory with the string or blob of the value at the address the allocator gives.\<close>

definition with_blob :: "property \<Rightarrow> plst \<Rightarrow> mem" where
  "with_blob v s = (case blob_of v of None \<Rightarrow> pl_mem s | Some bs \<Rightarrow> write_bytes (pl_mem s) (hd (pl_supply s)) bs)"

definition can_store :: "property \<Rightarrow> plst \<Rightarrow> bool" where
  "can_store v s \<longleftrightarrow> (case blob_of v of None \<Rightarrow> True | Some bs \<Rightarrow> length bs \<le> 2 ^ 32 - 1 \<and> pl_supply s \<noteq> [])"

lemma set_blob_mem:
  assumes "length bs \<le> 2 ^ 32 - 1" "pl_supply s = a # as"
  shows "\<exists>s'. set_blob p bs s = (Inr (), s') \<and> pl_supply s' = as \<and>
    pl_mem s' = write_bytes (write_bytes (pl_mem s) a bs) (val_addr p)
      (le_bytes 8 (of_nat a :: u64) @ le_bytes 4 (of_nat (length bs) :: u32))"
  using assms by (simp add: set_blob_def pl_alloc_def Let_def write_bytes_append' store_def emit_def)

lemma finish_value_ok: "finish_value p sz t (Inr u, s) = (Inr (), set_type_size p (type_size_byte (sz - 1) t) s)"
  by (simp add: finish_value_def)

lemma pl_supply_simps [simp]: "pl_supply (emit e s) = pl_supply s" "pl_supply (store a bs s) = pl_supply s"
  "pl_supply (set_type_size p b s) = pl_supply s"
  by (simp_all add: emit_def store_def set_type_size_def)

lemma set_value_ok:
  assumes "can_store v s"
  shows "\<exists>s'. set_value p v (get_space v + 3) s = (Inr (), s') \<and>
    pl_supply s' = (case blob_of v of None \<Rightarrow> pl_supply s | Some bs \<Rightarrow> tl (pl_supply s)) \<and>
    pl_mem s' = (write_bytes (with_blob v s) (val_addr p) (snd (encode_value v (hd (pl_supply s)))))
      (fst p + snd p := type_size_byte (get_space v + 2) (fst (encode_value v (hd (pl_supply s)))))"
proof (cases "blob_of v")
  case None
  then show ?thesis
    by (cases v) (auto simp: finish_value_ok with_blob_def numeral_2_eq_2 split: if_splits)
next
  case (Some bs)
  then obtain a as where as: "pl_supply s = a # as" "length bs \<le> 2 ^ 32 - 1"
    using assms by (cases "pl_supply s") (auto simp: can_store_def)
  obtain s1 where s1: "set_blob p bs s = (Inr (), s1)" "pl_supply s1 = as"
    "pl_mem s1 = write_bytes (write_bytes (pl_mem s) a bs) (val_addr p)
      (le_bytes 8 (of_nat a :: u64) @ le_bytes 4 (of_nat (length bs) :: u32))"
    using set_blob_mem [OF as(2, 1), of p] by blast
  show ?thesis
    using Some as s1 by (cases v) (auto simp: finish_value_ok with_blob_def split: if_splits)
qed

lemma set_value_fails:
  assumes "\<not> can_store v s"
  shows "\<exists>e s'. set_value p v n s = (Inl e, s')"
  using assms by (cases v)
    (auto simp: can_store_def set_blob_def pl_alloc_def finish_value_def split: if_splits list.splits)

lemma set_size_supply [simp]: "pl_supply (set_size p a b s) = pl_supply s"
  by (simp add: set_size_def Let_def)

lemma set_size_emit [simp]: "pl_mem (set_size p a b (emit e s)) = pl_mem (set_size p a b s)"
  by (simp add: set_size_def Let_def)

text \<open>
  \<open>PropertySpace::set_property\<close>: the item written, the long value stored, and the bytes that are
  as \<open>set_size\<close> has left them.
\<close>

definition blob_region :: "property \<Rightarrow> addr \<Rightarrow> addr set" where
  "blob_region v a = (case blob_of v of None \<Rightarrow> {} | Some bs \<Rightarrow> {a..<a + length bs})"

lemma item_written:
  assumes "m' = (write_bytes m (p + 3) (snd e))(p := type_size_byte (length (snd e) + 2) (fst e))"
    "p_novalue \<le> fst e" "fst e \<le> p_blob" "length (snd e) \<le> 13"
  shows "item_at (write_bytes m' (p + 1) (le_bytes 2 i)) p (Prop i (fst e) (snd e))"
proof -
  let ?m = "write_bytes m' (p + 1) (le_bytes 2 i)"
  have "read_bytes ?m (p + 1) 2 = le_bytes 2 i" using read_write_same [of m' "p + 1" "le_bytes 2 i"] by simp
  moreover have "read_bytes ?m (p + 3) (length (snd e)) = snd e"
  proof (rule nth_equalityI)
    fix k assume "k < length (read_bytes ?m (p + 3) (length (snd e)))"
    then show "read_bytes ?m (p + 3) (length (snd e)) ! k = snd e ! k"
      by (simp add: write_bytes_def assms(1))
  qed simp
  moreover have "?m p = type_size_byte (length (snd e) + 2) (fst e)"
    by (simp add: write_bytes_def assms(1))
  ultimately show ?thesis using assms(2-4) by (simp add: le_word_le_bytes take_bit_word_eq_self)
qed

lemma space_set_property_ok:
  assumes can: "can_store v s" and req: "sp_req sp = get_space v + 3"
    and pos: "sp_pos sp = (c, off)" and a: "a = hd (pl_supply s)"
    and m1: "m1 = (if sp_req sp < sp_size sp then pl_mem (set_size (c, off) (sp_size sp) (sp_req sp) s) else pl_mem s)"
    and apart: "blob_region v a \<inter> {c + off..<c + off + sp_req sp} = {}"
  shows "\<exists>s'. space_set_property sp i v s = (Inr (), s') \<and>
    pl_supply s' = (case blob_of v of None \<Rightarrow> pl_supply s | Some bs \<Rightarrow> tl (pl_supply s)) \<and>
    item_at (pl_mem s') (c + off) (Prop i (fst (encode_value v a)) (snd (encode_value v a))) \<and>
    (\<forall>bs. blob_of v = Some bs \<longrightarrow> read_bytes (pl_mem s') a (length bs) = bs) \<and>
    (\<forall>x. x \<notin> blob_region v a \<longrightarrow> x \<notin> {c + off..<c + off + sp_req sp} \<longrightarrow> pl_mem s' x = m1 x)"
proof -
  define s2 where "s2 = (if sp_size sp > sp_req sp
      then set_size (c, off) (sp_size sp) (sp_req sp)
        (if sp_new sp then s else emit (EvLog (c + off) (if sp_size sp > sp_req sp then sp_req sp + 1 else sp_req sp)) s)
      else (if sp_new sp then s else emit (EvLog (c + off) (if sp_size sp > sp_req sp then sp_req sp + 1 else sp_req sp)) s))"
  have s2: "pl_mem s2 = m1" "pl_supply s2 = pl_supply s" by (auto simp: s2_def m1)
  have can2: "can_store v s2" using can unfolding can_store_def s2(2) .
  obtain s3 where s3: "set_value (c, off) v (get_space v + 3) s2 = (Inr (), s3)"
    "pl_supply s3 = (case blob_of v of None \<Rightarrow> pl_supply s | Some bs \<Rightarrow> tl (pl_supply s))"
    "pl_mem s3 = (write_bytes (with_blob v s2) (c + off + 3) (snd (encode_value v a)))
        (c + off := type_size_byte (get_space v + 2) (fst (encode_value v a)))"
    using set_value_ok [OF can2, of "(c, off)"] unfolding s2(2) val_addr_def a fst_conv snd_conv by blast
  define s5 where "s5 = (if sp_new sp then emit (EvFlush c (off + (if sp_size sp > sp_req sp then sp_req sp + 1 else sp_req sp)))
      (set_id (c, off) i s3) else set_id (c, off) i s3)"
  have run: "space_set_property sp i v s = (Inr (), s5)"
    using s3(1) unfolding space_set_property_def Let_def pos s2_def [symmetric] fst_conv snd_conv req [symmetric]
    by (simp add: s5_def req)
  have mem: "pl_mem s5 = write_bytes (pl_mem s3) (c + off + 1) (le_bytes 2 i)" "pl_supply s5 = pl_supply s3"
    by (simp_all add: s5_def set_id_def)
  have item: "item_at (pl_mem s5) (c + off) (Prop i (fst (encode_value v a)) (snd (encode_value v a)))"
    unfolding mem by (rule item_written [OF s3(3) [unfolded length_encode_value [of v a, symmetric]] enc_type])
      (use get_space_le [of v] in \<open>simp add: length_encode_value\<close>)
  have out: "pl_mem s5 x = with_blob v s2 x" if "x \<notin> {c + off..<c + off + sp_req sp}" for x
    using that by (auto simp: mem s3(3) write_bytes_def length_encode_value req)
  have "read_bytes (pl_mem s5) a (length bs) = bs" if "blob_of v = Some bs" for bs
  proof -
    have "read_bytes (pl_mem s5) a (length bs) = read_bytes (with_blob v s2) a (length bs)"
      by (rule read_bytes_cong, rule out) (use apart that in \<open>auto simp: blob_region_def\<close>)
    then show ?thesis using that by (simp add: with_blob_def s2(2) a)
  qed
  moreover have "with_blob v s2 x = m1 x" if "x \<notin> blob_region v a" for x
    using that by (auto simp: with_blob_def blob_region_def s2 a write_bytes_def split: option.splits)
  ultimately show ?thesis using run mem s3(2) item out by auto
qed

definition all_props :: "(addr \<times> item list) list \<Rightarrow> (u16 \<times> nat \<times> u8 list) list" where
  "all_props cs = concat (map (\<lambda>x. props (snd x)) cs)"

lemma all_props_simps [simp]:
  "all_props [] = []" "all_props (x # cs) = props (snd x) @ all_props cs" "all_props (A @ B) = all_props A @ all_props B"
  by (simp_all add: all_props_def)

text \<open>A property placed into space that fits: it joins the others, nothing else changes.\<close>

definition placed ::
    "(addr \<times> item list) list \<Rightarrow> mem \<Rightarrow> u16 \<Rightarrow> property \<Rightarrow> addr \<Rightarrow> mem \<Rightarrow> (addr \<times> item list) list \<Rightarrow> bool" where
  "placed cs m i v a m' cs' \<longleftrightarrow>
     wf_list m' cs' \<and> map fst cs' = map fst cs \<and> all_regions m' cs' = all_regions m cs \<and>
     (\<exists>P Q. all_props cs = P @ Q \<and> all_props cs' = P @ (i, encode_value v a) # Q) \<and>
     (\<forall>bs. blob_of v = Some bs \<longrightarrow> read_bytes m' a (length bs) = bs) \<and>
     (\<forall>x. x \<notin> all_regions m cs \<longrightarrow> x \<notin> blob_region v a \<longrightarrow> m' x = m x)"

lemma chunk_region_sub: "(c, is) \<in> set cs \<Longrightarrow> region m c \<subseteq> all_regions m cs"
  by (auto simp: all_regions_def)

lemma place_fit:
  assumes wf: "wf_list (pl_mem s) cs" and fit: "gap_fit (pl_mem s) cs sp \<or> end_fit (pl_mem s) cs sp"
    and req: "sp_req sp = get_space v + 3" and can: "can_store v s" and a: "a = hd (pl_supply s)"
    and apart: "blob_region v a \<inter> all_regions (pl_mem s) cs = {}"
  shows "\<exists>s' cs'. space_set_property sp i v s = (Inr (), s') \<and>
    pl_supply s' = (case blob_of v of None \<Rightarrow> pl_supply s | Some bs \<Rightarrow> tl (pl_supply s)) \<and>
    placed cs (pl_mem s) i v a (pl_mem s') cs'"
proof -
  define m where "m = pl_mem s"
  let ?new = "Prop i (fst (encode_value v a)) (snd (encode_value v a))"
  have ilen: "ilen ?new = sp_req sp" by (simp add: length_encode_value req)
  have pos: "0 < sp_req sp" "sp_req sp \<le> 256" using req get_space_le [of v] by simp_all
  obtain A c pre gs post B where cs: "cs = A @ (c, pre @ gs @ post) # B" and gaps: "\<forall>g\<in>set gs. is_gap g"
    and at: "sp_pos sp = (c, 1 + tlen pre)" and big: "sp_req sp \<le> sp_size sp"
    and kind: "sp_size sp = tlen gs \<and> 1 + tlen pre + tlen gs \<le> unat (m c) \<or>
      post = [] \<and> B = [] \<and> sp_size sp = unat (m c) - tlen pre"
    using fit unfolding gap_fit_def end_fit_def m_def [symmetric] by (metis append_Nil2)
  have r: "chunk_rep m c (pre @ gs @ post) (next_chunk B)"
    using wf unfolding wf_list_def cs m_def by (auto dest: chunks_rep_mid)
  have in_region: "{c + (1 + tlen pre)..<c + (1 + tlen pre) + sp_req sp} \<subseteq> region m c"
    using kind big pos(1) by (auto simp: region_def)
  have reg: "region m c \<subseteq> all_regions m cs" by (rule chunk_region_sub [of _ "pre @ gs @ post"]) (simp add: cs)
  define m1 where "m1 = (if sp_req sp < sp_size sp
      then pl_mem (set_size (c, 1 + tlen pre) (sp_size sp) (sp_req sp) s) else pl_mem s)"
  obtain s' where s': "space_set_property sp i v s = (Inr (), s')"
    "pl_supply s' = (case blob_of v of None \<Rightarrow> pl_supply s | Some bs \<Rightarrow> tl (pl_supply s))"
    "item_at (pl_mem s') (c + (1 + tlen pre)) ?new"
    "\<forall>bs. blob_of v = Some bs \<longrightarrow> read_bytes (pl_mem s') a (length bs) = bs"
    "\<forall>x. x \<notin> blob_region v a \<longrightarrow> x \<notin> {c + (1 + tlen pre)..<c + (1 + tlen pre) + sp_req sp} \<longrightarrow> pl_mem s' x = m1 x"
    using space_set_property_ok [OF can req at a m1_def] apart in_region reg unfolding m_def by blast
  have same: "pl_mem s' x = m1 x"
    if "x \<in> region m c" "x < c + (1 + tlen pre) \<or> c + (1 + tlen pre) + sp_req sp \<le> x" for x
  proof -
    have "x \<notin> blob_region v a" using that(1) reg apart unfolding m_def by blast
    moreover have "x \<notin> {c + (1 + tlen pre)..<c + (1 + tlen pre) + sp_req sp}" using that(2) by auto
    ultimately show ?thesis using s'(5) by blast
  qed
  have m1_out: "m1 x = m x" if "x \<notin> region m c \<or> x < c + (1 + tlen pre)" for x
    using that in_region pos big kind
    by (auto simp: m1_def m_def set_size_def Let_def region_def chunk_size_def chunk_end_def split: if_splits)
  obtain gs' post' where g': "\<forall>g\<in>set gs'. is_gap g" "props post' = props post"
    "chunk_rep (pl_mem s') c (pre @ ?new # gs' @ post') (next_chunk B)"
    using kind
  proof
    assume k: "sp_size sp = tlen gs \<and> 1 + tlen pre + tlen gs \<le> unat (m c)"
    then have "sp_req sp \<le> tlen gs" "m1 = (if sp_req sp < tlen gs then pl_mem (set_size (c, 1 + tlen pre) (tlen gs) (sp_req sp) s) else m)"
      using big by (simp_all add: m1_def m_def)
    from place_in_gaps [OF r gaps conjunct2 [OF k] ilen this(1) pos(2) this(2) m_def s'(3) same]
    show ?thesis using that by blast
  next
    assume k: "post = [] \<and> B = [] \<and> sp_size sp = unat (m c) - tlen pre"
    then have r': "chunk_rep m c (pre @ gs) None" using r by (simp add: next_chunk_def)
    have "chunk_rep (pl_mem s') c (pre @ [?new]) None"
      by (rule place_at_end [OF r' conjunct2 [OF conjunct2 [OF k]] ilen big _ m_def s'(3) same]) (simp add: m1_def m_def)
    then show ?thesis using that [of "[]" "[]"] k by (simp add: next_chunk_def)
  qed
  have mc: "pl_mem s' c = m c" using same [of c] m1_out [of c] by (simp add: region_def)
  have frame: "pl_mem s' x = m x" if "x \<notin> region m c" "x \<notin> blob_region v a" for x
    using s'(5) m1_out that in_region by (metis subsetD)
  define cs' where "cs' = A @ (c, pre @ ?new # gs' @ post') # B"
  have wf0: "wf_list m (A @ (c, pre @ gs @ post) # B)" using wf by (simp add: cs m_def)
  have "pl_mem s' x = m x" if "x \<notin> region m c" "x \<in> all_regions m (A @ (c, pre @ gs @ post) # B)" for x
    using that frame apart unfolding m_def cs by blast
  note wf' = wf_list_change [OF wf0 g'(3) mc this, folded cs'_def, folded cs]
  have "all_props cs = (all_props A @ props pre) @ (props post @ all_props B)"
    "all_props cs' = (all_props A @ props pre) @ (i, encode_value v a) # (props post @ all_props B)"
    using gaps_no_props [OF gaps] gaps_no_props [OF g'(1)] g'(2) by (simp_all add: cs cs'_def)
  then have "\<exists>P Q. all_props cs = P @ Q \<and> all_props cs' = P @ (i, encode_value v a) # Q" by blast
  moreover have "map fst cs' = map fst cs" by (simp add: cs'_def cs)
  moreover have "\<forall>x. x \<notin> all_regions m cs \<longrightarrow> x \<notin> blob_region v a \<longrightarrow> pl_mem s' x = m x" using frame reg by blast
  ultimately have "placed cs m i v a (pl_mem s') cs'" unfolding placed_def using wf' s'(4) by blast
  then show ?thesis using s'(1, 2) unfolding m_def by blast
qed

end
