(* ===== verification/Property_Grow.thy ===== *)
theory Property_Grow
  imports Property_Update
begin

text \<open>
  Adding a chunk to a property list: \<open>set_link\<close>, \<open>make_space\<close> and \<open>add_chunk\<close> of
  \<open>src/PropertyList.cc\<close>. The properties that have to make room for the link move to the new chunk in
  their order, so the list of all properties is the same, and the new chunk has room for any property.
\<close>

section \<open>The link\<close>

lemma set_link_ok:
  assumes m: "m = pl_mem s" and pre: "items_at m (c + 1) pre" and e: "9 \<le> unat (m c)"
    and room: "tlen pre + 9 \<le> unat (m c)" "unat (m c) - tlen pre - 9 \<le> 16" and d: "d < 2 ^ 64"
  shows "chunk_rep (pl_mem (set_link (c, 1 + tlen pre) d s)) c (pre @ left_over (unat (m c) - tlen pre - 9)) (Some d)"
    and "x < c + (1 + tlen pre) \<or> c + unat (m c) < x \<Longrightarrow> pl_mem (set_link (c, 1 + tlen pre) d s) x = m x"
    and "pl_supply (set_link (c, 1 + tlen pre) d s) = pl_supply s"
proof -
  define k where "k = unat (m c) - tlen pre - 9"
  define off where "off = 1 + tlen pre + k"
  let ?m = "pl_mem (set_link (c, 1 + tlen pre) d s)"
  have rem: "chunk_size m (c, 1 + tlen pre) - (1 + tlen pre) = k + 9"
    using room by (simp add: chunk_size_def chunk_end_def k_def)
  have off_e: "off + 8 = unat (m c)" using room by (simp add: off_def k_def)
  define m2 where "m2 = (if 0 < k then m(c + (1 + tlen pre) := type_size_byte (k - 1) p_unused) else m)"
  have mem: "?m = write_bytes (m2(c + off := of_nat p_link)) (c + off + 1) (le_bytes 8 (of_nat d :: u64))"
    unfolding set_link_def Let_def m [symmetric] snd_conv fst_conv rem
    by (simp add: off_def m2_def add.assoc flip: m)
  show out: "?m x = m x" if "x < c + (1 + tlen pre) \<or> c + unat (m c) < x" for x
    unfolding mem m2_def write_bytes_def using that off_e by (auto simp: off_def)
  show "pl_supply (set_link (c, 1 + tlen pre) d s) = pl_supply s"
    by (simp add: set_link_def Let_def)
  have mc: "?m c = m c" by (rule out) simp
  have its: "items_at ?m (c + 1) pre" by (rule items_at_cong [OF pre], rule out) simp
  have left: "items_at ?m (c + (1 + tlen pre)) (left_over k)"
  proof (cases "0 < k")
    case True
    have "?m (c + (1 + tlen pre)) = type_size_byte (k - 1) p_unused"
      unfolding mem m2_def write_bytes_def using True by (simp add: off_def)
    then show ?thesis using room(2) True by (simp add: left_over_def k_def)
  qed (simp add: left_over_def)
  have "?m (c + off) = of_nat p_link" unfolding mem write_bytes_def by simp
  then have pt: "ptype ?m (c, off) = p_link" by (simp add: ptype_def type_size_def p_link_def)
  have "read_bytes ?m (c + off + 1) 8 = le_bytes 8 (of_nat d :: u64)"
    unfolding mem using read_write_same [of _ _ "le_bytes 8 (of_nat d :: u64)"] by simp
  then have lk: "link ?m (c, off) = d"
    using d by (simp add: link_def read64_def le_word_le_bytes take_bit_word_eq_self unsigned_of_nat take_bit_nat_eq_self)
  have ue: "unat (?m c) = tlen pre + k + 9" unfolding mc k_def using room by simp
  have "items_at ?m (c + 1) (pre @ left_over k)" using its left by (simp add: add.assoc)
  then have "chunk_rep ?m c (pre @ left_over k) (Some d)"
    unfolding chunk_rep_def ue using pt lk by (simp add: off_def add.assoc)
  then show "chunk_rep ?m c (pre @ left_over (unat (m c) - tlen pre - 9)) (Some d)" by (simp add: k_def)
qed

section \<open>Moving properties\<close>

lemma item_at_copy:
  assumes "item_at m a it" "read_bytes m' b (ilen it) = read_bytes m a (ilen it)"
  shows "item_at m' b it"
proof -
  have eq: "m' (b + k) = m (a + k)" if "k < ilen it" for k
    using arg_cong [OF assms(2), of "\<lambda>bs. bs ! k"] that by simp
  show ?thesis
  proof (cases it)
    case (Gap n)
    then show ?thesis using assms(1) eq [of 0] by simp
  next
    case (Prop i t bs)
    have "read_bytes m' (b + 1) 2 = read_bytes m (a + 1) 2"
      by (rule nth_equalityI) (use eq [of "_ + 1"] Prop in \<open>auto simp: add.commute add.left_commute\<close>)
    moreover have "read_bytes m' (b + 3) (length bs) = read_bytes m (a + 3) (length bs)"
      by (rule nth_equalityI) (use eq [of "_ + 3"] Prop in \<open>auto simp: add.commute add.left_commute\<close>)
    ultimately show ?thesis using assms(1) eq [of 0] Prop by simp
  qed
qed

lemma psize_item: "item_at m (c + off) it \<Longrightarrow> psize m (c, off) + 1 = ilen it"
  using item_at_gap(2) [of m c off] item_at_prop(2) [of m c off] by (cases it) auto

text \<open>Where \<open>make_space\<close> starts to move: the first item that reaches into the place of the link.\<close>

lemma move_start_items:
  assumes "items_at m (c + off) is" "off + tlen is + 8 > unat (m c)" "off + tlen is \<le> unat (m c) + 1"
    "9 \<le> unat (m c)" "length is < n"
  shows "\<exists>pre rest. is = pre @ rest \<and> move_start n m (c, off) = (c, off + tlen pre) \<and>
    (pre = [] \<or> off + tlen pre + 8 \<le> unat (m c)) \<and>
    (rest = [] \<or> unat (m c) < off + tlen pre + ilen (hd rest) + 8)"
  using assms
proof (induction "is" arbitrary: off n)
  case Nil
  then obtain n' where "n = Suc n'" by (cases n) auto
  moreover have "\<not> off + psize m (c, off) < unat (m c) - 8" using Nil.prems(2) by simp
  ultimately show ?case by (simp add: chunk_end_def)
next
  case (Cons it "is")
  obtain n' where n: "n = Suc n'" using Cons.prems(5) by (cases n) auto
  have it: "item_at m (c + off) it" using Cons.prems(1) by simp
  note ps = psize_item [OF it]
  have sk: "skip m (c, off) = (c, off + ilen it)" using ps by (simp add: skip_def)
  show ?case
  proof (cases "off + psize m (c, off) < unat (m c) - 8")
    case True
    have "\<exists>pre rest. is = pre @ rest \<and> move_start n' m (c, off + ilen it) = (c, off + ilen it + tlen pre) \<and>
      (pre = [] \<or> off + ilen it + tlen pre + 8 \<le> unat (m c)) \<and>
      (rest = [] \<or> unat (m c) < off + ilen it + tlen pre + ilen (hd rest) + 8)"
      by (rule Cons.IH) (use Cons.prems n in \<open>auto simp: add.assoc\<close>)
    then obtain pre rest where p: "is = pre @ rest" "move_start n' m (c, off + ilen it) = (c, off + ilen it + tlen pre)"
      "pre = [] \<or> off + ilen it + tlen pre + 8 \<le> unat (m c)"
      "rest = [] \<or> unat (m c) < off + ilen it + tlen pre + ilen (hd rest) + 8" by blast
    show ?thesis
      by (intro exI [of _ "it # pre"] exI [of _ rest]) (use p n True sk ps Cons.prems(4) in \<open>auto simp: chunk_end_def\<close>)
  next
    case False
    then have "move_start n m (c, off) = (c, off)" by (simp add: n chunk_end_def)
    moreover have "unat (m c) < off + ilen it + 8" using False ps Cons.prems(4) by linarith
    ultimately show ?thesis by (intro exI [of _ "[]"] exI [of _ "it # is"]) simp
  qed
qed

text \<open>The moving loop.\<close>

lemma move_loop_items:
  assumes "items_at (pl_mem s) (c + off) rest" "off + tlen rest \<le> unat (pl_mem s c) + 1"
    "\<not> not_done (pl_mem s) (c, off + tlen rest)" "length rest < n"
    "{d + q..<d + q + tlen rest} \<inter> region (pl_mem s) c = {}"
  shows "\<exists>s'. move_loop n (c, off) (d, q) s = ((d, q + tlen (filter (\<lambda>i. \<not> is_gap i) rest)), s') \<and>
    pl_supply s' = pl_supply s \<and>
    items_at (pl_mem s') (d + q) (filter (\<lambda>i. \<not> is_gap i) rest) \<and>
    (\<forall>x. x \<notin> {d + q..<d + q + tlen rest} \<longrightarrow> pl_mem s' x = pl_mem s x)"
  using assms
proof (induction rest arbitrary: off q s n)
  case Nil
  then obtain n' where "n = Suc n'" by (cases n) auto
  then show ?case using Nil.prems by simp
next
  case (Cons it rest)
  obtain n' where n: "n = Suc n'" using Cons.prems(4) by (cases n) auto
  have it: "item_at (pl_mem s) (c + off) it" "off \<le> unat (pl_mem s c)"
    using Cons.prems(1, 2) ilen_pos(1) [of it] by (simp_all del: ilen_pos)
  note nd = not_done_item [OF it]
  show ?case
  proof (cases "is_gap it")
    case True
    have "\<exists>s'. move_loop n' (c, off + ilen it) (d, q) s = ((d, q + tlen (filter (\<lambda>i. \<not> is_gap i) rest)), s') \<and>
      pl_supply s' = pl_supply s \<and> items_at (pl_mem s') (d + q) (filter (\<lambda>i. \<not> is_gap i) rest) \<and>
      (\<forall>x. x \<notin> {d + q..<d + q + tlen rest} \<longrightarrow> pl_mem s' x = pl_mem s x)"
    proof (rule Cons.IH)
      have "{d + q..<d + q + tlen rest} \<subseteq> {d + q..<d + q + tlen (it # rest)}" by auto
      then show "{d + q..<d + q + tlen rest} \<inter> region (pl_mem s) c = {}" using Cons.prems(5) by blast
    qed (use Cons.prems n in \<open>auto simp: add.assoc\<close>)
    then show ?thesis using True nd n by auto
  next
    case False
    define s1 where "s1 = copy (d, q) (c, off) s"
    have m1: "pl_mem s1 = write_bytes (pl_mem s) (d + q) (read_bytes (pl_mem s) (c + off) (ilen it))"
      using psize_item [OF it(1)] by (simp add: s1_def copy_def)
    have out: "pl_mem s1 x = pl_mem s x" if "x \<notin> {d + q..<d + q + ilen it}" for x
      using that by (auto simp: m1 write_bytes_def)
    have reg: "pl_mem s1 x = pl_mem s x" if "x \<in> region (pl_mem s) c" for x
    proof (rule out)
      have "x \<notin> {d + q..<d + q + tlen (it # rest)}" using that Cons.prems(5) by blast
      then show "x \<notin> {d + q..<d + q + ilen it}" by auto
    qed
    have mc: "pl_mem s1 c = pl_mem s c" by (rule reg) (simp add: region_def)
    have same_region: "region (pl_mem s1) c = region (pl_mem s) c" by (simp add: region_def mc)
    have its: "items_at (pl_mem s1) (c + off) (it # rest)"
      by (rule items_at_cong [OF Cons.prems(1)], rule reg) (use Cons.prems(2) in \<open>auto simp: region_def\<close>)
    have here: "item_at (pl_mem s1) (d + q) it"
      by (rule item_at_copy [OF it(1)]) (use read_write_same [of "pl_mem s" "d + q" "read_bytes (pl_mem s) (c + off) (ilen it)"] in \<open>simp add: m1\<close>)
    have sk: "skip (pl_mem s1) (c, off) = (c, off + ilen it)" "skip (pl_mem s1) (d, q) = (d, q + ilen it)"
      using psize_item [of "pl_mem s1" c off it] its psize_item [OF here] by (simp_all add: skip_def)
    have nde: "\<not> not_done (pl_mem s1) (c, off + ilen it + tlen rest)"
    proof (cases "off + ilen it + tlen rest \<le> unat (pl_mem s c)")
      case True
      then have "pl_mem s1 (c + (off + ilen it + tlen rest)) = pl_mem s (c + (off + ilen it + tlen rest))"
        by (intro reg) (simp add: region_def)
      then show ?thesis using Cons.prems(3) mc by (simp add: not_done_def chunk_end_def ptype_def type_size_def add.assoc)
    next
      case False
      then show ?thesis using mc by (simp add: not_done_def chunk_end_def)
    qed
    have "\<exists>s'. move_loop n' (c, off + ilen it) (d, q + ilen it) s1 =
        ((d, q + ilen it + tlen (filter (\<lambda>i. \<not> is_gap i) rest)), s') \<and>
      pl_supply s' = pl_supply s1 \<and> items_at (pl_mem s') (d + (q + ilen it)) (filter (\<lambda>i. \<not> is_gap i) rest) \<and>
      (\<forall>x. x \<notin> {d + (q + ilen it)..<d + (q + ilen it) + tlen rest} \<longrightarrow> pl_mem s' x = pl_mem s1 x)"
    proof (rule Cons.IH)
      show "items_at (pl_mem s1) (c + (off + ilen it)) rest" using its by (simp add: add.assoc)
      show "off + ilen it + tlen rest \<le> unat (pl_mem s1 c) + 1" using Cons.prems(2) mc by simp
      show "\<not> not_done (pl_mem s1) (c, off + ilen it + tlen rest)" by (rule nde)
      show "length rest < n'" using Cons.prems(4) n by simp
      show "{d + (q + ilen it)..<d + (q + ilen it) + tlen rest} \<inter> region (pl_mem s1) c = {}"
      proof -
        have "{d + (q + ilen it)..<d + (q + ilen it) + tlen rest} \<subseteq> {d + q..<d + q + tlen (it # rest)}" by auto
        then show ?thesis using Cons.prems(5) unfolding same_region by blast
      qed
    qed
    then obtain s' where s': "move_loop n' (c, off + ilen it) (d, q + ilen it) s1 =
        ((d, q + ilen it + tlen (filter (\<lambda>i. \<not> is_gap i) rest)), s')" "pl_supply s' = pl_supply s1"
      "items_at (pl_mem s') (d + (q + ilen it)) (filter (\<lambda>i. \<not> is_gap i) rest)"
      "\<forall>x. x \<notin> {d + (q + ilen it)..<d + (q + ilen it) + tlen rest} \<longrightarrow> pl_mem s' x = pl_mem s1 x" by blast
    have "item_at (pl_mem s') (d + q) it"
      by (rule item_at_cong [OF here]) (use s'(4) in auto)
    moreover have "move_loop n (c, off) (d, q) s = ((d, q + tlen (filter (\<lambda>i. \<not> is_gap i) (it # rest))), s')"
      using s'(1) nd False sk n by (simp add: Let_def add.assoc flip: s1_def)
    moreover have "pl_supply s' = pl_supply s" using s'(2) by (simp add: s1_def copy_def)
    moreover have "pl_mem s' x = pl_mem s x" if "x \<notin> {d + q..<d + q + tlen (it # rest)}" for x
      using that s'(4) out by auto
    ultimately show ?thesis using s'(3) False by (auto simp: add.assoc)
  qed
qed

section \<open>A new chunk\<close>

lemma init_chunk_mem:
  "pl_mem (init_chunk d prop_chunk_size s) = (pl_mem s)(d := 63, d + 1 := of_nat p_end)"
  "pl_supply (init_chunk d prop_chunk_size s) = pl_supply s"
  by (simp_all add: init_chunk_def prop_chunk_size_def write_one)

lemma region_63: "m d = 63 \<Longrightarrow> region m d = {d..d + 63}"
  by (simp add: region_def)

lemma props_no_gaps: "props (filter (\<lambda>i. \<not> is_gap i) is) = props is"
  by (induction "is" rule: props.induct) auto

lemma tlen_filter: "tlen (filter P is) \<le> tlen is"
  by (induction "is") auto

text \<open>
  The part of \<open>add_chunk\<close> after the new chunk has been initialised: the end of the old chunk becomes
  a link, and what was in its place is in the new chunk.
\<close>

lemma link_chunk:
  assumes r: "chunk_rep m c is None" and m: "m = pl_mem s" and d: "d < 2 ^ 64"
    and fresh: "m d = 63" "m (d + 1) = of_nat p_end" "{d..d + 63} \<inter> region m c = {}"
    and small: "free_space m (c, 1 + tlen is) \<le> 25"
    and run: "(p, q, s1) = (if free_space m (c, 1 + tlen is) < 9 then make_space (c, 1 + tlen is) (d, 1) s
        else ((c, 1 + tlen is), (d, 1), s))"
  shows "\<exists>is' js. q = (d, 1 + tlen js) \<and> tlen js \<le> 24 \<and> props is = props is' @ props js \<and>
    chunk_rep (pl_mem (set_link p d s1)) c is' (Some d) \<and> chunk_rep (pl_mem (set_link p d s1)) d js None \<and>
    pl_mem (set_link p d s1) c = m c \<and> pl_mem (set_link p d s1) d = 63 \<and> pl_supply (set_link p d s1) = pl_supply s \<and>
    (\<forall>x. x \<notin> region m c \<longrightarrow> x \<notin> {d..d + 63} \<longrightarrow> pl_mem (set_link p d s1) x = m x)"
proof -
  have e: "9 \<le> unat (m c)" "tlen is \<le> unat (m c)" "items_at m (c + 1) is" using r by (simp_all add: chunk_rep_def)
  have nd: "\<not> not_done m (c, 1 + tlen is)" by (rule chunk_rep_end(3) [OF r])
  have fs: "free_space m (c, 1 + tlen is) = unat (m c) - tlen is"
    using free_space_end [of m c "1 + tlen is" "[]"] nd e(2) by simp
  have end_of: "chunk_rep m' d js None"
    if "m' d = 63" "items_at m' (d + 1) js" "tlen js \<le> 24" "m' (d + (1 + tlen js)) = of_nat p_end" for m' js
    using that by (simp add: chunk_rep_def ptype_def type_size_def p_end_def)
  show ?thesis
  proof (cases "free_space m (c, 1 + tlen is) < 9")
    case False
    then have p: "p = (c, 1 + tlen is)" "q = (d, 1)" "s1 = s" using run by simp_all
    have room: "tlen is + 9 \<le> unat (m c)" "unat (m c) - tlen is - 9 \<le> 16" using False fs small by simp_all
    note l = set_link_ok [OF m e(3, 1) room d]
    have out: "pl_mem (set_link p d s1) x = m x" if "x \<notin> region m c" for x
      unfolding p by (rule l(2)) (use that in \<open>auto simp: region_def\<close>)
    have "d \<in> {d..d + 63}" "d + 1 \<in> {d..d + 63}" by simp_all
    then have nd: "d \<notin> region m c" "d + 1 \<notin> region m c" using fresh(3) by blast+
    have "chunk_rep (pl_mem (set_link p d s1)) d [] None"
      by (rule end_of) (use out nd fresh in simp_all)
    moreover have "pl_mem (set_link p d s1) c = m c" unfolding p by (rule l(2)) simp
    ultimately show ?thesis
      using l(1, 3) out nd fresh(1) unfolding p(1, 3)
      by (intro exI [of _ "is @ left_over (unat (m c) - tlen is - 9)"] exI [of _ "[]"]) (simp add: p(2))
  next
    case True
    then have late: "1 + tlen is + 8 > unat (m c)" using fs by simp
    have "length is < 256"
      using length_le_tlen [of "is"] e(2) unsigned_less [of "m c", where 'a = nat] by simp
    then obtain pre rest where pr: "is = pre @ rest" "move_start 256 m (c, 1) = (c, 1 + tlen pre)"
      "pre = [] \<or> 1 + tlen pre + 8 \<le> unat (m c)" "rest = [] \<or> unat (m c) < 1 + tlen pre + ilen (hd rest) + 8"
      using move_start_items [OF e(3) _ _ e(1), of 256] late e(2) by (auto simp del: One_nat_def)
    have room1: "tlen pre + 9 \<le> unat (m c)" using pr(3) e(1) by auto
    then have "rest \<noteq> []" using pr(1) late by auto
    then obtain it rest' where rest: "rest = it # rest'" by (cases rest) auto
    have it: "item_at m (c + (1 + tlen pre)) it" using e(3) pr(1) rest by (simp add: add.assoc)
    have "ilen it \<le> 16" using it by (cases it) auto
    then have room2: "unat (m c) - tlen pre - 9 \<le> 16" "tlen rest \<le> 24"
      using pr(4) rest e(2) pr(1) by auto
    let ?js = "filter (\<lambda>i. \<not> is_gap i) rest"
    have js: "tlen ?js \<le> 24" using tlen_filter [of _ rest] room2(2) le_trans by blast
    have mv: "items_at (pl_mem s) (c + (1 + tlen pre)) rest" "1 + tlen pre + tlen rest \<le> unat (pl_mem s c) + 1"
      "\<not> not_done (pl_mem s) (c, 1 + tlen pre + tlen rest)" "length rest < 256"
      "{d + 1..<d + 1 + tlen rest} \<inter> region (pl_mem s) c = {}"
    proof -
      show "items_at (pl_mem s) (c + (1 + tlen pre)) rest" using e(3) pr(1) m by (simp add: add.assoc)
      show "1 + tlen pre + tlen rest \<le> unat (pl_mem s c) + 1" using e(2) pr(1) m by simp
      show "\<not> not_done (pl_mem s) (c, 1 + tlen pre + tlen rest)" using nd pr(1) m by (simp add: add.assoc)
      show "length rest < 256" using \<open>length is < 256\<close> pr(1) by simp
      have "{d + 1..<d + 1 + tlen rest} \<subseteq> {d..d + 63}" using room2(2) by auto
      then show "{d + 1..<d + 1 + tlen rest} \<inter> region (pl_mem s) c = {}" using fresh(3) m by blast
    qed
    obtain s0 where s0: "move_loop 256 (c, 1 + tlen pre) (d, 1) s = ((d, 1 + tlen ?js), s0)" "pl_supply s0 = pl_supply s"
      "items_at (pl_mem s0) (d + 1) ?js" "\<forall>x. x \<notin> {d + 1..<d + 1 + tlen rest} \<longrightarrow> pl_mem s0 x = pl_mem s x"
      using move_loop_items [OF mv] by blast
    have run': "p = (c, 1 + tlen pre)" "q = (d, 1 + tlen ?js)" "s1 = set_type_size (d, 1 + tlen ?js) (of_nat p_end) s0"
      using run True pr(2) s0(1) by (simp_all add: make_space_def Let_def flip: m)
    have s1_out: "pl_mem s1 x = m x" if "x \<notin> {d..d + 63} \<or> x = d" for x
    proof -
      have "x \<notin> {d + 1..<d + 1 + tlen rest}" "x \<noteq> d + (1 + tlen ?js)" using that room2(2) js by auto
      then show ?thesis using s0(4) by (simp add: run'(3) m)
    qed
    have c_out: "pl_mem s1 x = m x" if "x \<in> region m c" for x
      by (rule s1_out) (use that fresh(3) in blast)
    have s1c: "pl_mem s1 c = m c" by (rule c_out) (simp add: region_def)
    have pre1: "items_at (pl_mem s1) (c + 1) pre"
      by (rule items_at_cong [of m], use e(3) pr(1) in simp, rule c_out) (use room1 in \<open>auto simp: region_def\<close>)
    note l = set_link_ok [OF refl pre1, unfolded s1c, OF e(1) room1 room2(1) d]
    have l_out: "pl_mem (set_link p d s1) x = pl_mem s1 x" if "x \<notin> region m c" for x
      unfolding run' by (rule l(2) [unfolded run']) (use that in \<open>auto simp: region_def\<close>)
    have in_new: "x \<notin> region m c" if "x \<in> {d..d + 63}" for x using that fresh(3) by blast
    have "pl_mem (set_link p d s1) d = 63" using l_out [of d] in_new [of d] s1_out [of d] fresh(1) by simp
    moreover have "items_at (pl_mem (set_link p d s1)) (d + 1) ?js"
    proof (rule items_at_cong [of "pl_mem s0"])
      fix x assume "d + 1 \<le> x" "x < d + 1 + tlen ?js"
      then show "pl_mem (set_link p d s1) x = pl_mem s0 x"
        using l_out [of x] in_new [of x] js by (simp add: run'(3))
    qed (rule s0(3))
    moreover have "pl_mem (set_link p d s1) (d + (1 + tlen ?js)) = of_nat p_end"
      using l_out [of "d + (1 + tlen ?js)"] in_new [of "d + (1 + tlen ?js)"] js by (simp add: run'(3))
    ultimately have dr: "chunk_rep (pl_mem (set_link p d s1)) d ?js None" using end_of js by blast
    have cr: "chunk_rep (pl_mem (set_link p d s1)) c (pre @ left_over (unat (m c) - tlen pre - 9)) (Some d)"
      unfolding run'(1) by (rule l(1))
    have "pl_mem (set_link p d s1) c = m c" unfolding run'(1) using l(2) [of c] s1c by simp
    moreover have "pl_supply (set_link p d s1) = pl_supply s" unfolding run'(1) l(3) by (simp add: run'(3) s0(2))
    moreover have "\<forall>x. x \<notin> region m c \<longrightarrow> x \<notin> {d..d + 63} \<longrightarrow> pl_mem (set_link p d s1) x = m x"
      using l_out s1_out by simp
    moreover have "props is = props (pre @ left_over (unat (m c) - tlen pre - 9)) @ props ?js"
      by (simp add: pr(1) props_no_gaps)
    ultimately show ?thesis using run'(2) js cr dr \<open>pl_mem (set_link p d s1) d = 63\<close> by blast
  qed
qed

lemma wf_list_frame:
  assumes "wf_list m (A @ [(c, is)])" "\<And>x. x \<in> all_regions m (A @ [(c, is)]) \<Longrightarrow> m' x = m x"
  shows "wf_list m' (A @ [(c, is)])" "all_regions m' (A @ [(c, is)]) = all_regions m (A @ [(c, is)])"
proof -
  have sub: "region m c \<subseteq> all_regions m (A @ [(c, is)])" by (rule chunk_region_sub [of _ "is"]) simp
  have "c \<in> region m c" by (simp add: region_def)
  then have "m' c = m c" using assms(2) sub by blast
  moreover have "chunk_rep m c is (next_chunk [])" using assms(1) unfolding wf_list_def by (auto dest: chunks_rep_mid)
  then have "chunk_rep m' c is (next_chunk [])" by (rule chunk_rep_cong) (use assms(2) sub in blast)
  ultimately show "wf_list m' (A @ [(c, is)])" "all_regions m' (A @ [(c, is)]) = all_regions m (A @ [(c, is)])"
    using wf_list_change [OF assms(1), of m' "is"] assms(2) by blast+
qed

lemma wf_list_grow:
  assumes wf: "wf_list m (A @ [(c, is)])" and fresh: "{d..d + 63} \<inter> all_regions m (A @ [(c, is)]) = {}"
    and cr: "chunk_rep m' c is' (Some d)" and dr: "chunk_rep m' d js None" and cd: "m' c = m c" "m' d = 63"
    and same: "\<And>x. x \<notin> region m c \<Longrightarrow> x \<notin> {d..d + 63} \<Longrightarrow> m' x = m x"
  shows "wf_list m' (A @ [(c, is'), (d, js)])"
    and "all_regions m' (A @ [(c, is'), (d, js)]) = all_regions m (A @ [(c, is)]) \<union> {d..d + 63}"
proof -
  let ?cs = "A @ [(c, is)]"
  have ap: "apart m ?cs" "chunks_rep m ?cs" using wf by (simp_all add: wf_list_def)
  have other: "m' x = m x" if "x \<in> region m e" "e \<in> fst ` set A" for e x
  proof (rule same)
    have "e \<noteq> c" "e \<in> fst ` set ?cs" "c \<in> fst ` set ?cs" using that(2) ap(1) by (auto simp: apart_def)
    then have "region m e \<inter> region m c = {}" using ap(1) unfolding apart_def by blast
    then show "x \<notin> region m c" using that(1) by blast
    have "x \<in> all_regions m ?cs" using that \<open>e \<in> fst ` set ?cs\<close> unfolding all_regions_def by blast
    then show "x \<notin> {d..d + 63}" using fresh by blast
  qed
  have reg: "region m' e = region m e" if "e \<in> fst ` set ?cs" for e
  proof (cases "e = c")
    case False
    then have "m' e = m e" by (intro other [of e e]) (use that in \<open>auto simp: region_def\<close>)
    then show ?thesis by (simp add: region_def)
  qed (simp add: region_def cd)
  have d_out: "d \<notin> fst ` set ?cs"
  proof
    assume "d \<in> fst ` set ?cs"
    then have "d \<in> all_regions m ?cs" by (force simp: all_regions_def region_def)
    moreover have "d \<in> {d..d + 63}" by simp
    ultimately show False using fresh by blast
  qed
  have fsts: "fst ` set (A @ [(c, is'), (d, js)]) = insert d (fst ` set ?cs)" by auto
  have dreg: "region m' d = {d..d + 63}" by (rule region_63 [of m' d, OF cd(2)])
  show "all_regions m' (A @ [(c, is'), (d, js)]) = all_regions m ?cs \<union> {d..d + 63}"
    unfolding all_regions_def fsts using reg dreg by auto
  have "apart m' (A @ [(c, is'), (d, js)])"
    unfolding apart_def fsts
  proof (intro conjI ballI impI)
    show "distinct (map fst (A @ [(c, is'), (d, js)]))" using ap(1) d_out by (auto simp: apart_def)
    fix x y assume xy: "x \<in> insert d (fst ` set ?cs)" "y \<in> insert d (fst ` set ?cs)" "x \<noteq> y"
    have dj: "region m z \<inter> {d..d + 63} = {}" if "z \<in> fst ` set ?cs" for z
      using fresh that unfolding all_regions_def by blast
    have old: "region m x \<inter> region m y = {}" if "x \<in> fst ` set ?cs" "y \<in> fst ` set ?cs"
      using ap(1) that xy(3) unfolding apart_def by blast
    show "region m' x \<inter> region m' y = {}"
      using xy dj [of x] dj [of y] old dreg reg [of x] reg [of y] by blast
  qed
  moreover have "chunks_rep m' (A @ (c, is') # [(d, js)])"
    unfolding chunks_rep_append [of m' A c is']
  proof (intro conjI allI impI)
    show "chunks_rep m' [(c, is'), (d, js)]" using cr dr by simp
    fix P e ks S assume A: "A = P @ (e, ks) # S"
    have "chunk_rep m e ks (next_chunk (S @ [(c, [])]))"
      using ap(2) A unfolding chunks_rep_append [of m A c "is"] by blast
    then show "chunk_rep m' e ks (next_chunk (S @ [(c, [])]))"
      by (rule chunk_rep_cong) (rule other, use A in auto)
  qed
  ultimately show "wf_list m' (A @ [(c, is'), (d, js)])" by (simp add: wf_list_def)
qed

lemma add_chunk_ok:
  assumes wf: "wf_list m (A @ [(c, is)])" and m: "m = pl_mem s" and sup: "pl_supply s = d # ds" and d: "d < 2 ^ 64"
    and fresh: "{d..d + 63} \<inter> all_regions m (A @ [(c, is)]) = {}"
    and small: "free_space m (c, 1 + tlen is) \<le> 25"
  shows "\<exists>s' is' js. add_chunk (c, 1 + tlen is) s = (Inr (d, 1 + tlen js), s') \<and> pl_supply s' = ds \<and>
    wf_list (pl_mem s') (A @ [(c, is'), (d, js)]) \<and> props is = props is' @ props js \<and> tlen js \<le> 24 \<and>
    pl_mem s' d = 63 \<and> all_regions (pl_mem s') (A @ [(c, is'), (d, js)]) = all_regions m (A @ [(c, is)]) \<union> {d..d + 63} \<and>
    (\<forall>x. x \<notin> all_regions m (A @ [(c, is)]) \<longrightarrow> x \<notin> {d..d + 63} \<longrightarrow> pl_mem s' x = m x)"
proof -
  let ?cs = "A @ [(c, is)]"
  define s2 where "s2 = init_chunk d prop_chunk_size (emit (EvAlloc d prop_chunk_size) (s\<lparr>pl_supply := ds\<rparr>))"
  have m2: "pl_mem s2 = m(d := 63, d + 1 := of_nat p_end)" "pl_supply s2 = ds"
    by (simp_all add: s2_def init_chunk_mem m emit_def)
  have m2_out: "pl_mem s2 x = m x" if "x \<notin> {d..d + 63}" for x using that by (auto simp: m2)
  have m2_all: "pl_mem s2 x = m x" if "x \<in> all_regions m ?cs" for x
    by (rule m2_out) (use that fresh in blast)
  note wf2 = wf_list_frame [OF wf m2_all]
  have sub: "region (pl_mem s2) c \<subseteq> all_regions (pl_mem s2) ?cs" by (rule chunk_region_sub [of _ "is"]) simp
  have r2: "chunk_rep (pl_mem s2) c is None"
    using wf2(1) chunks_rep_mid [of "pl_mem s2" A c "is" "[]"] by (simp add: wf_list_def next_chunk_def)
  have "chunk_rep m c is None"
    using wf chunks_rep_mid [of m A c "is" "[]"] by (simp add: wf_list_def next_chunk_def)
  have fs: "free_space (pl_mem s2) (c, 1 + tlen is) = free_space m (c, 1 + tlen is)"
  proof -
    have "free_space m' (c, 1 + tlen is) = unat (m' c) - tlen is" if "chunk_rep m' c is None" for m'
      using free_space_end [of m' c "1 + tlen is" "[]"] chunk_rep_end [OF that] by simp
    moreover have "c \<in> all_regions m ?cs" by (force simp: all_regions_def region_def)
    ultimately show ?thesis using r2 \<open>chunk_rep m c is None\<close> m2_all by simp
  qed
  obtain p q s3 where run: "(p, q, s3) = (if free_space (pl_mem s2) (c, 1 + tlen is) < 9
      then make_space (c, 1 + tlen is) (d, 1) s2 else ((c, 1 + tlen is), (d, 1), s2))"
    by (metis prod_cases3)
  have fresh2: "pl_mem s2 d = 63" "pl_mem s2 (d + 1) = of_nat p_end" "{d..d + 63} \<inter> region (pl_mem s2) c = {}"
    using m2 fresh wf2(2) sub by (simp, simp, blast)
  obtain is' js where l: "q = (d, 1 + tlen js)" "tlen js \<le> 24" "props is = props is' @ props js"
    "chunk_rep (pl_mem (set_link p d s3)) c is' (Some d)" "chunk_rep (pl_mem (set_link p d s3)) d js None"
    "pl_mem (set_link p d s3) c = pl_mem s2 c" "pl_mem (set_link p d s3) d = 63"
    "pl_supply (set_link p d s3) = pl_supply s2"
    "\<forall>x. x \<notin> region (pl_mem s2) c \<longrightarrow> x \<notin> {d..d + 63} \<longrightarrow> pl_mem (set_link p d s3) x = pl_mem s2 x"
    using link_chunk [OF r2 refl d fresh2 _ run] small fs by auto
  have fresh3: "{d..d + 63} \<inter> all_regions (pl_mem s2) ?cs = {}" using fresh wf2(2) by simp
  have "add_chunk (c, 1 + tlen is) s = (Inr q, set_link p d s3)"
    unfolding add_chunk_def pl_alloc_def sup list.case prod.case sum.case Let_def s2_def [symmetric] run [symmetric] ..
  moreover have "\<forall>x. x \<notin> all_regions m ?cs \<longrightarrow> x \<notin> {d..d + 63} \<longrightarrow> pl_mem (set_link p d s3) x = m x"
    using l(9) m2_out sub wf2(2) by (metis subsetD)
  ultimately show ?thesis
    using l m2(2) wf_list_grow [OF wf2(1) fresh3 l(4-7)] wf2(2) by auto
qed

end
