(* ===== verification/Property_Map.thy ===== *)
theory Property_Map
  imports Property_Grow
begin

text \<open>
  The property list as a finite map from ids to values. \<open>pl_state\<close> ties the bytes of the chunks and
  of the strings and blobs they point to, to the map; \<open>get_property\<close> is lookup, \<open>set_property\<close> is
  update and \<open>remove_property\<close> deletion. An iterator is confused by the removal of another property.
\<close>

section \<open>Reading a value back\<close>

lemma bit_le_word_append:
  "bit (le_word (xs @ ys) :: 'a::len word) n \<longleftrightarrow>
     n < LENGTH('a) \<and> (if n < 8 * length xs then bit (le_word xs :: 'a word) n else bit (le_word ys :: 'a word) (n - 8 * length xs))"
proof (induction xs arbitrary: n)
  case (Cons x xs)
  show ?case
    by (auto simp: bit_or_iff bit_push_bit_iff Cons bit_ucast_iff dest: bit_imp_le_length)
qed (auto dest: bit_imp_le_length)

lemma int_from_top_bytes:
  assumes "k = get_int_len v" "length xs = 8 - k"
  shows "signed_drop_bit (8 * (8 - k)) (le_word (xs @ le_bytes k v) :: u64) = v"
proof (rule bit_word_eqI)
  fix n assume "n < LENGTH(64)"
  then have n: "n < 64" by simp
  have k: "1 \<le> k" "k \<le> 8" using get_int_len_ok(1, 2) [of v] assms(1) by simp_all
  define j where "j = (if n + 8 * (8 - k) < 63 then n + 8 * (8 - k) else 63)"
  have j: "8 * (8 - k) \<le> j" "j < 64" "j - 8 * (8 - k) = (if n < 8 * k - 1 then n else 8 * k - 1)"
    using n k by (auto simp: j_def)
  have "(if 64 - 8 * (8 - k) \<le> n \<and> n < 64 then 63 else 8 * (8 - k) + n) = j"
    using n k by (auto simp: j_def)
  then have "bit (signed_drop_bit (8 * (8 - k)) (le_word (xs @ le_bytes k v) :: u64)) n =
      bit (le_word (xs @ le_bytes k v) :: u64) j"
    by (auto simp: bit_signed_drop_bit_iff split: if_splits)
  also have "\<dots> = bit (le_word (le_bytes k v) :: u64) (j - 8 * (8 - k))"
    using j by (simp add: bit_le_word_append assms(2))
  also have "\<dots> = bit v (if n < 8 * k - 1 then n else 8 * k - 1)"
    unfolding j(3) using k n by (auto simp: le_word_le_bytes bit_take_bit_iff)
  also have "\<dots> = bit v n"
  proof (cases "n < 8 * k - 1")
    case False
    have "signed_take_bit (8 * k - 1) (sint v) = sint v"
      using get_int_len_ok(3, 4) [of v] assms(1) by (simp add: signed_take_bit_int_eq_self)
    then have "bit (sint v) n = bit (signed_take_bit (8 * k - 1) (sint v)) n" by simp
    also have "\<dots> = bit (sint v) (8 * k - 1)" using False by (simp add: bit_signed_take_bit_iff min_def)
    finally have "bit (sint v) n = bit (sint v) (8 * k - 1)" .
    then show ?thesis using False n k by (simp add: bit_sint_iff)
  qed simp
  finally show "bit (signed_drop_bit (8 * (8 - k)) (le_word (xs @ le_bytes k v) :: u64)) n = bit v n" .
qed

definition blob_stored :: "mem \<Rightarrow> property \<Rightarrow> addr \<Rightarrow> bool" where
  "blob_stored m v a \<longleftrightarrow>
     (\<forall>bs. blob_of v = Some bs \<longrightarrow> read_bytes m a (length bs) = bs \<and> length bs < 2 ^ 32 \<and> a < 2 ^ 64)"

lemma blob_bytes_stored:
  assumes "read_bytes m p 12 = le_bytes 8 (of_nat a :: u64) @ le_bytes 4 (of_nat n :: u32)" "n < 2 ^ 32" "a < 2 ^ 64"
  shows "blob_bytes m p = read_bytes m a n"
proof -
  have "read_bytes m p (8 + 4) = read_bytes m p 8 @ read_bytes m (p + 8) 4" by (rule read_bytes_append)
  then have "read_bytes m p 8 = le_bytes 8 (of_nat a :: u64)" "read_bytes m (p + 8) 4 = le_bytes 4 (of_nat n :: u32)"
    using assms(1) by simp_all
  then show ?thesis
    using assms(2, 3)
    by (simp add: blob_bytes_def read64_def le_word_le_bytes take_bit_word_eq_self unsigned_of_nat take_bit_nat_eq_self)
qed

lemma get_value_encoded:
  assumes at: "item_at m (c + off) (Prop i (fst (encode_value v a)) (snd (encode_value v a)))"
    and blob: "blob_stored m v a" and low: "8 \<le> c + off + 3"
  shows "get_value m (c, off) = Inr v"
proof -
  note it = item_at_prop(1, 2) [OF at]
  have val: "read_bytes m (c + off + 3) (length (snd (encode_value v a))) = snd (encode_value v a)" using at by simp
  have blobs: "get_value m (c, off) = Inr v" if b: "blob_of v = Some bs" for bs
  proof -
    have e: "snd (encode_value v a) = le_bytes 8 (of_nat a :: u64) @ le_bytes 4 (of_nat (length bs) :: u32)"
      using b by (cases v) (auto split: if_splits)
    have "read_bytes m (c + off + 3) 12 = le_bytes 8 (of_nat a :: u64) @ le_bytes 4 (of_nat (length bs) :: u32)"
      using val unfolding e by simp
    from blob_bytes_stored [OF this] have "blob_bytes m (c + off + 3) = bs"
      using blob b by (simp add: blob_stored_def)
    then show ?thesis
      using b it by (cases v)
        (auto simp: get_value_def string_value_def blob_value_def val_addr_def ptype_defs split: if_splits)
  qed
  show ?thesis
  proof (cases v)
    case (IntV w)
    define k where "k = get_int_len w"
    have k: "1 \<le> k" "k \<le> 8" using get_int_len_ok(1, 2) [of w] by (simp_all add: k_def)
    have e: "encode_value v a = (p_integer, le_bytes k w)" by (simp add: IntV k_def)
    have pt: "ptype m (c, off) = p_integer" "psize m (c, off) = k + 2" using it by (simp_all add: e)
    have split: "read_bytes m (c + off + 3 - (8 - k)) 8 =
        read_bytes m (c + off + 3 - (8 - k)) (8 - k) @ read_bytes m (c + off + 3) k"
    proof -
      have "c + off + 3 - (8 - k) + (8 - k) = c + off + 3" "8 - k + k = 8" using low k by simp_all
      then show ?thesis using read_bytes_append [of m "c + off + 3 - (8 - k)" "8 - k" k] by (simp only:)
    qed
    then have "read64 m (c + off + 3 - (8 - k)) =
        le_word (read_bytes m (c + off + 3 - (8 - k)) (8 - k) @ le_bytes k w)"
      using val by (simp add: read64_def e)
    then have "signed_drop_bit (8 * (8 - k)) (read64 m (c + off + 3 - (8 - k))) = w"
      using int_from_top_bytes [OF k_def, of "read_bytes m (c + off + 3 - (8 - k)) (8 - k)"] by simp
    moreover have "read64 m (c + off + 3 - (8 - k)) = w" if "k = 8"
      using that calculation by simp
    ultimately show ?thesis
      using pt k by (cases "k = 8") (simp_all add: get_value_def int_value_def val_addr_def IntV ptype_defs Let_def)
  next
    case (StrV bs)
    show ?thesis
    proof (cases "length bs \<le> 13")
      case True
      then show ?thesis
        using it val StrV by (auto simp: get_value_def string_value_def val_addr_def ptype_defs Let_def)
    qed (use blobs StrV in simp)
  next
    case (FloatV d)
    then show ?thesis
      using it val by (simp add: get_value_def float_value_def val_addr_def ptype_defs read64_def le_word_le_bytes take_bit_word_eq_self)
  next
    case (TimeV t)
    then show ?thesis
      using it val by (simp add: get_value_def time_value_def val_addr_def ptype_defs le_word_le_bytes take_bit_word_eq_self)
  qed (use it blobs in \<open>auto simp: get_value_def bool_value_def ptype_defs split: if_splits\<close>)
qed

section \<open>The list as a map\<close>

text \<open>
  \<open>U\<close> is a set of addresses in use: it contains the chunks and, apart from them, the strings and
  blobs that the list points to.
\<close>

definition entry_ok :: "addr set \<Rightarrow> mem \<Rightarrow> (addr \<times> item list) list \<Rightarrow> (u16 \<Rightarrow> property option) \<Rightarrow> u16 \<times> nat \<times> u8 list \<Rightarrow> bool" where
  "entry_ok U m cs M e \<longleftrightarrow>
     (\<exists>v a. M (fst e) = Some v \<and> snd e = encode_value v a \<and> blob_stored m v a \<and> blob_region v a \<subseteq> U - all_regions m cs)"

definition pl_state :: "addr set \<Rightarrow> mem \<Rightarrow> (addr \<times> item list) list \<Rightarrow> (u16 \<Rightarrow> property option) \<Rightarrow> bool" where
  "pl_state U m cs M \<longleftrightarrow>
     wf_list m cs \<and> (\<forall>x\<in>set cs. 8 \<le> fst x) \<and> all_regions m cs \<subseteq> U \<and> distinct (map fst (all_props cs)) \<and>
     dom M = fst ` set (all_props cs) \<and> (\<forall>e\<in>set (all_props cs). entry_ok U m cs M e)"

lemma props_first: "i \<in> ids is \<Longrightarrow> \<exists>pre t bs post. is = pre @ Prop i t bs # post \<and> i \<notin> ids pre"
proof (induction "is")
  case (Cons it "is")
  show ?case
  proof (cases "\<exists>t bs. it = Prop i t bs")
    case True
    then obtain t bs where "it = Prop i t bs" by blast
    then show ?thesis by (intro exI [of _ "[]"]) simp
  next
    case False
    then have "i \<in> ids is" "i \<notin> ids [it]" using Cons.prems by (cases it; auto)+
    then obtain pre t bs post where "is = pre @ Prop i t bs # post" "i \<notin> ids pre" using Cons.IH by blast
    then show ?thesis using \<open>i \<notin> ids [it]\<close> ids_simps(4) [of "[it]" pre]
      by (intro exI [of _ "it # pre"]) auto
  qed
qed simp

lemma all_props_first:
  "i \<in> fst ` set (all_props cs) \<Longrightarrow>
   \<exists>A d pre t bs post B. cs = A @ (d, pre @ Prop i t bs # post) # B \<and> i \<notin> (\<Union>x\<in>set A. ids (snd x)) \<and> i \<notin> ids pre"
proof (induction cs)
  case (Cons x cs)
  obtain d js where x: "x = (d, js)" by fastforce
  show ?case
  proof (cases "i \<in> ids js")
    case True
    from props_first [OF this] obtain pre t bs post where "js = pre @ Prop i t bs # post" "i \<notin> ids pre" by blast
    moreover from this(1) have "x # cs = [] @ (d, pre @ Prop i t bs # post) # cs" using x by simp
    moreover have "i \<notin> (\<Union>x\<in>set []. ids (snd x))" by simp
    ultimately show ?thesis by blast
  next
    case False
    then have "i \<in> fst ` set (all_props cs)" using Cons.prems x by (simp add: ids_def image_Un)
    from Cons.IH [OF this] obtain A d' pre t bs post B where
      "cs = A @ (d', pre @ Prop i t bs # post) # B" "i \<notin> (\<Union>x\<in>set A. ids (snd x))" "i \<notin> ids pre" by (elim exE conjE) (rule that)
    then have "x # cs = (x # A) @ (d', pre @ Prop i t bs # post) # B" "i \<notin> (\<Union>x\<in>set (x # A). ids (snd x))"
      "i \<notin> ids pre" using False x by simp_all
    then show ?thesis by (intro exI conjI)
  qed
qed simp

lemma all_props_ids: "fst ` set (all_props cs) = (\<Union>x\<in>set cs. ids (snd x))"
  by (induction cs) (auto simp: ids_def image_Un)

text \<open>What the search finds.\<close>

lemma find_in_state:
  assumes st: "pl_state U m cs M" and c: "c = fst (hd cs)"
  obtains (found) A d pre t bs post B sp' where
      "find_loop m i look sp (c, 1) = Some (True, (d, 1 + tlen pre), sp')" "cs = A @ (d, pre @ Prop i t bs # post) # B"
      "space_in m (A @ [(d, pre)]) sp sp'"
  | (absent) sp' where "find_loop m i look sp (c, 1) = Some (False, (fst (last cs), 1 + tlen (snd (last cs))), sp')"
      "M i = None" "space_in m cs sp sp'"
proof -
  have wf: "chunks_rep m cs" "dom M = fst ` set (all_props cs)" using st by (simp_all add: pl_state_def wf_list_def)
  obtain "is" B0 where cs: "cs = (c, is) # B0" using wf(1) c by (cases cs) (auto simp: prod_eq_iff)
  show ?thesis
  proof (cases "i \<in> fst ` set (all_props cs)")
    case True
    from all_props_first [OF this] obtain A d pre t bs post B where f: "cs = A @ (d, pre @ Prop i t bs # post) # B"
      "i \<notin> (\<Union>x\<in>set A. ids (snd x))" "i \<notin> ids pre" by (elim exE conjE) (rule that)
    from find_loop_found [OF wf(1) [unfolded cs] f(1) [unfolded cs] f(2, 3), of look sp]
    obtain sp' where "find_loop m i look sp (c, 1) = Some (True, (d, 1 + tlen pre), sp')"
      "space_in m (A @ [(d, pre)]) sp sp'" by blast
    then show ?thesis using f(1) by (intro found)
  next
    case False
    then have "M i = None" using wf(2) by auto
    moreover have "i \<notin> (\<Union>x\<in>set ((c, is) # B0). ids (snd x))" using False cs by (simp only: all_props_ids not_False_eq_True)
    from find_loop_absent [OF wf(1) [unfolded cs] this, of look sp]
    obtain sp' where "find_loop m i look sp (c, 1) = Some (False, (fst (last cs), 1 + tlen (snd (last cs))), sp')"
      "space_in m cs sp sp'" unfolding cs by blast
    ultimately show ?thesis by (intro absent)
  qed
qed

lemma chunk_of_state:
  assumes "pl_state U m (A @ (d, pre @ it # post) # B) M"
  shows "chunk_rep m d (pre @ it # post) (next_chunk B)" "item_at m (d + (1 + tlen pre)) it" "8 \<le> d"
proof -
  show r: "chunk_rep m d (pre @ it # post) (next_chunk B)"
    using assms chunks_rep_mid by (auto simp: pl_state_def wf_list_def)
  show "item_at m (d + (1 + tlen pre)) it" using r by (simp add: chunk_rep_def add.assoc)
  show "8 \<le> d" using assms by (simp add: pl_state_def)
qed

text \<open>\<open>get_property\<close> is lookup.\<close>

lemma get_in_state:
  assumes st: "pl_state U m cs M" and c: "c = fst (hd cs)"
  shows "get_property m i c = Some (case M i of None \<Rightarrow> Inl PropertyNotFound | Some v \<Rightarrow> Inr v)"
proof (cases rule: find_in_state [OF assms, of i False "new_space 0", case_names found absent])
  case (found A d pre t bs post B sp')
  note ch = chunk_of_state [OF st [unfolded found(2)]]
  have "entry_ok U m cs M (i, t, bs)" using st by (simp add: pl_state_def found(2))
  then obtain v a where v: "M i = Some v" "(t, bs) = encode_value v a" "blob_stored m v a"
    by (auto simp: entry_ok_def)
  have "t = fst (encode_value v a)" "bs = snd (encode_value v a)" using v(2) by (metis fst_conv snd_conv)+
  then have "get_value m (d, 1 + tlen pre) = Inr v"
    using get_value_encoded [of m d "1 + tlen pre" i v a] ch(2, 3) v(3) by simp
  then show ?thesis using found(1) v(1) by (simp add: get_property_def find_property_def)
qed (simp add: get_property_def find_property_def)

section \<open>Changes of the list as changes of the map\<close>

lemma blob_stored_frame:
  "blob_stored m v a \<Longrightarrow> (\<And>x. x \<in> blob_region v a \<Longrightarrow> m' x = m x) \<Longrightarrow> blob_stored m' v a"
  unfolding blob_stored_def
proof (intro allI impI)
  fix bs assume st: "\<forall>bs. blob_of v = Some bs \<longrightarrow> read_bytes m a (length bs) = bs \<and> length bs < 2 ^ 32 \<and> a < 2 ^ 64"
    and eq: "\<And>x. x \<in> blob_region v a \<Longrightarrow> m' x = m x" and bs: "blob_of v = Some bs"
  have "read_bytes m' a (length bs) = read_bytes m a (length bs)"
    by (rule read_bytes_cong, rule eq) (simp add: blob_region_def bs)
  then show "read_bytes m' a (length bs) = bs \<and> length bs < 2 ^ 32 \<and> a < 2 ^ 64" using st bs by simp
qed

lemma pl_state_change:
  assumes st: "pl_state U m cs M" and wf: "wf_list m' cs'" "\<forall>x\<in>set cs'. 8 \<le> fst x"
    and U: "U \<subseteq> U'" "all_regions m' cs' \<subseteq> U'" "all_regions m' cs' \<inter> (U - all_regions m cs) = {}"
    and same: "\<And>x. x \<in> U - all_regions m cs \<Longrightarrow> m' x = m x"
    and dist: "distinct (map fst (all_props cs'))" and dom: "dom M' = fst ` set (all_props cs')"
    and new: "\<And>e. e \<in> set (all_props cs') \<Longrightarrow> e \<in> set (all_props cs) \<and> M' (fst e) = M (fst e) \<or> entry_ok U' m' cs' M' e"
  shows "pl_state U' m' cs' M'"
  unfolding pl_state_def
proof (intro conjI ballI)
  fix e assume e: "e \<in> set (all_props cs')"
  show "entry_ok U' m' cs' M' e"
    using new [OF e]
  proof
    assume old: "e \<in> set (all_props cs) \<and> M' (fst e) = M (fst e)"
    then have "entry_ok U m cs M e" using st by (simp add: pl_state_def)
    then obtain v a where v: "M (fst e) = Some v" "snd e = encode_value v a" "blob_stored m v a"
      "blob_region v a \<subseteq> U - all_regions m cs" by (auto simp: entry_ok_def)
    have "blob_stored m' v a" by (rule blob_stored_frame [OF v(3)], rule same) (use v(4) in blast)
    moreover have "blob_region v a \<subseteq> U' - all_regions m' cs'" using v(4) U by blast
    ultimately show ?thesis unfolding entry_ok_def using v old by auto
  qed
qed (fact wf(1), use wf(2) in simp, fact U(2), fact dist, fact dom)

text \<open>\<open>PropertyRef::free\<close> removes a property from the map.\<close>

lemma pref_free_mem:
  assumes "chunk_rep m d (pre @ Prop i t bs # post) nxt" "m = pl_mem s"
  shows "pl_mem (pref_free (d, 1 + tlen pre) s) = m(d + (1 + tlen pre) :=
      (if post = [] \<and> nxt = None then of_nat p_end else type_size_byte (ilen (Prop i t bs) - 1) p_unused))"
    and "pl_supply (pref_free (d, 1 + tlen pre) s) = pl_supply s"
proof -
  define off k where "off = 1 + tlen pre" and "k = length bs + 2"
  have at: "item_at m (d + off) (Prop i t bs)" using assms(1) by (simp add: chunk_rep_def add.assoc off_def)
  have sz: "psize m (d, off) = k" using item_at_prop(2) [OF at] by (simp add: k_def)
  have "off + k + 1 = 1 + tlen pre + ilen (Prop i t bs)" "ilen (Prop i t bs) - 1 = k" by (simp_all add: off_def k_def)
  then have nd: "not_done m (d, off + k + 1) \<longleftrightarrow> \<not> (post = [] \<and> nxt = None)" "ilen (Prop i t bs) - 1 = k"
    using next_after [OF assms(1)] by (simp_all only: off_def)
  show "pl_mem (pref_free (d, 1 + tlen pre) s) = m(d + (1 + tlen pre) :=
      (if post = [] \<and> nxt = None then of_nat p_end else type_size_byte (ilen (Prop i t bs) - 1) p_unused))"
    unfolding pref_free_def Let_def assms(2) [symmetric] fst_conv snd_conv off_def [symmetric] sz nd
    by (simp add: tx_write8_def write_one free_blob_def flip: assms(2))
  show "pl_supply (pref_free (d, 1 + tlen pre) s) = pl_supply s"
    by (simp add: pref_free_def Let_def tx_write8_def free_blob_def)
qed

lemma pref_free_state:
  assumes st: "pl_state U (pl_mem s) cs M" and cs: "cs = A @ (d, pre @ Prop i t bs # post) # B"
    and s': "s' = pref_free (d, 1 + tlen pre) s"
    and cs': "cs' = A @ (d, freed pre (Prop i t bs) post (next_chunk B)) # B"
  shows "pl_state U (pl_mem s') cs' (M(i := None))" "pl_supply s' = pl_supply s" "map fst cs' = map fst cs"
    "x \<notin> U \<Longrightarrow> pl_mem s' x = pl_mem s x" "c \<in> fst ` set cs \<Longrightarrow> pl_mem s' c = pl_mem s c"
proof -
  let ?m = "pl_mem s"
  have r: "chunk_rep ?m d (pre @ Prop i t bs # post) (next_chunk B)" using chunk_of_state(1) [OF st [unfolded cs]] .
  have m': "pl_mem s' = ?m(d + (1 + tlen pre) :=
      (if post = [] \<and> next_chunk B = None then of_nat p_end else type_size_byte (ilen (Prop i t bs) - 1) p_unused))"
    unfolding s' by (rule pref_free_mem(1) [OF r refl])
  show "pl_supply s' = pl_supply s" unfolding s' by (rule pref_free_mem(2) [OF r refl])
  show "map fst cs' = map fst cs" by (simp add: cs cs')
  have wf: "wf_list ?m cs" using st by (simp add: pl_state_def)
  have at: "d + (1 + tlen pre) \<in> region ?m d" using chunk_rep_bound [OF r] by (simp add: region_def)
  have reg: "region ?m d \<subseteq> all_regions ?m cs" by (rule chunk_region_sub [of _ "pre @ Prop i t bs # post"]) (simp add: cs)
  have sub: "all_regions ?m cs \<subseteq> U" using st by (simp add: pl_state_def)
  have c: "chunk_rep (pl_mem s') d (freed pre (Prop i t bs) post (next_chunk B)) (next_chunk B)"
    unfolding m' by (rule free_chunk [OF r]) simp_all
  have md: "pl_mem s' d = ?m d" by (simp add: m')
  have out: "pl_mem s' x = ?m x" if "x \<notin> region ?m d" for x using that at by (auto simp: m')
  then show "pl_mem s' x = ?m x" if "x \<notin> U" using that reg sub by blast
  show "pl_mem s' c = ?m c" if "c \<in> fst ` set cs"
  proof (cases "c = d")
    case False
    have "d \<in> fst ` set cs" by (simp add: cs)
    then have "region ?m c \<inter> region ?m d = {}" using wf that False unfolding wf_list_def apart_def by blast
    moreover have "c \<in> region ?m c" by (simp add: region_def)
    ultimately show ?thesis using out by blast
  qed (simp add: md)
  note w = wf_list_change [OF wf [unfolded cs] c md, folded cs' cs]
  have wf': "wf_list (pl_mem s') cs'" "all_regions (pl_mem s') cs' = all_regions ?m cs"
    by (rule w, use out in blast)+
  have ps: "all_props cs = (all_props A @ props pre) @ (i, t, bs) # (props post @ all_props B)"
    "all_props cs' = (all_props A @ props pre) @ (props post @ all_props B)" by (simp_all add: cs cs' freed_def)
  have dist: "distinct (map fst (all_props cs))" and dom: "dom M = fst ` set (all_props cs)"
    and low: "\<forall>x\<in>set cs. 8 \<le> fst x" using st by (simp_all add: pl_state_def)
  have ni: "i \<notin> fst ` set (all_props cs')" using dist unfolding ps by auto
  show "pl_state U (pl_mem s') cs' (M(i := None))"
  proof (rule pl_state_change [OF st wf'(1)])
    show "\<forall>x\<in>set cs'. 8 \<le> fst x" using low by (simp add: cs cs')
    show "distinct (map fst (all_props cs'))" using dist unfolding ps by auto
    show "dom (M(i := None)) = fst ` set (all_props cs')" using dom ni unfolding ps by auto
    show "pl_mem s' x = ?m x" if "x \<in> U - all_regions ?m cs" for x using that out reg by blast
    show "e \<in> set (all_props cs) \<and> (M(i := None)) (fst e) = M (fst e) \<or> entry_ok U (pl_mem s') cs' (M(i := None)) e"
      if "e \<in> set (all_props cs')" for e using that ni unfolding ps by auto
  qed (use sub wf'(2) in auto)
qed

text \<open>Space found before a property is still there when the property has been freed.\<close>

lemma gap_run:
  assumes r: "chunk_rep m c (pre @ post) nxt" and more: "nxt \<noteq> None \<or> \<not> (\<forall>it\<in>set post. is_gap it)"
  obtains gs rest where "post = gs @ rest" "\<forall>g\<in>set gs. is_gap g" "free_space m (c, 1 + tlen pre) = tlen gs"
    "1 + tlen pre + tlen gs \<le> unat (m c)"
proof -
  define gs rest where "gs = takeWhile is_gap post" and "rest = dropWhile is_gap post"
  have e: "post = gs @ rest" by (simp add: gs_def rest_def)
  have gaps: "\<forall>g\<in>set gs. is_gap g" by (auto simp: gs_def dest: set_takeWhileD)
  have its: "items_at m (c + 1) (pre @ gs @ rest)" using r by (simp add: chunk_rep_def e)
  then have at: "items_at m (c + (1 + tlen pre)) gs" "items_at m (c + (1 + tlen pre + tlen gs)) rest"
    by (simp_all add: add.assoc)
  have len: "tlen pre + tlen gs + tlen rest \<le> unat (m c)"
    using chunk_rep_bound [OF r] by (simp add: e)
  have "1 + tlen pre + tlen gs \<le> unat (m c) \<and> not_done m (c, 1 + tlen pre + tlen gs) \<and>
    ptype m (c, 1 + tlen pre + tlen gs) \<noteq> p_unused"
  proof (cases rest)
    case Nil
    then have pg: "gs = post" using e by simp
    then obtain d where "nxt = Some d" using more gaps by auto
    then show ?thesis
      using chunk_rep_link [of m c "pre @ post" d] r unfolding pg
      by (simp add: add.assoc chunk_rep_def p_link_def p_unused_def)
  next
    case (Cons it rest')
    have it: "item_at m (c + (1 + tlen pre + tlen gs)) it" "1 + tlen pre + tlen gs \<le> unat (m c)"
      using at(2) len Cons ilen_pos(1) [of it] by (simp_all del: ilen_pos)
    moreover have "\<not> is_gap it" using hd_dropWhile [of is_gap post] Cons unfolding rest_def by (metis list.distinct(1) list.sel(1))
    ultimately show ?thesis using not_done_item [OF it] by simp
  qed
  then have nd: "1 + tlen pre + tlen gs \<le> unat (m c)" "not_done m (c, 1 + tlen pre + tlen gs)"
    "ptype m (c, 1 + tlen pre + tlen gs) \<noteq> p_unused" by blast+
  have "free_space m (c, 1 + tlen pre) = tlen gs"
    by (rule free_space_bounded [OF at(1) gaps _ nd]) simp
  then show ?thesis using that [OF e gaps _ nd(1)] by simp
qed

lemma freed_prefix:
  obtains tl where "freed pre it post nxt = pre @ tl"
proof (cases "post = [] \<and> nxt = None")
  case True
  then show ?thesis using that [of "[]"] by (simp add: freed_def)
next
  case False
  then show ?thesis using that [of "Gap (ilen it - 1) # post"] unfolding freed_def by simp
qed

lemma space_after_free:
  assumes ch: "chunks_rep m cs" "cs = A @ (d, pre @ Prop i t bs # post) # B"
    and sp: "space_in m (A @ [(d, pre)]) sp sp'" "sp' \<noteq> sp"
    and m': "\<And>c. c \<in> fst ` set cs \<Longrightarrow> m' c = m c"
    and cs': "cs' = A @ (d, freed pre (Prop i t bs) post (next_chunk B)) # B"
  shows "gap_fit m' cs' sp'"
proof -
  obtain A1 c "is" B1 p1 n p2 where f: "A @ [(d, pre)] = A1 @ (c, is) # B1" "is = p1 @ Gap n # p2"
    "sp' = set_pos (c, 1 + tlen p1) (free_space m (c, 1 + tlen p1)) sp" "sp_req sp \<le> free_space m (c, 1 + tlen p1)"
    using sp unfolding space_in_def by auto
  show ?thesis
  proof (cases B1 rule: rev_cases)
    case Nil
    then have e: "A1 = A" "c = d" "pre = p1 @ Gap n # p2" using f(1, 2) by simp_all
    have "chunk_rep m d (pre @ Prop i t bs # post) (next_chunk B)" using ch(1) unfolding ch(2) by (rule chunks_rep_mid)
    then have "chunk_rep m d (p1 @ (Gap n # p2 @ Prop i t bs # post)) (next_chunk B)" by (simp add: e(3))
    from gap_run [OF this] obtain gs rest where g: "Gap n # p2 @ Prop i t bs # post = gs @ rest" "\<forall>g\<in>set gs. is_gap g"
      "free_space m (d, 1 + tlen p1) = tlen gs" "1 + tlen p1 + tlen gs \<le> unat (m d)" by auto
    have "\<exists>us. Gap n # p2 = gs @ us"
      using g(1, 2) append_eq_append_conv2 [of "Gap n # p2" "Prop i t bs # post" gs rest]
      by (auto simp: Cons_eq_append_conv)
    then obtain us where us: "Gap n # p2 = gs @ us" ..
    obtain tl where "freed pre (Prop i t bs) post (next_chunk B) = pre @ tl" by (rule freed_prefix)
    then have "cs' = A @ (d, p1 @ gs @ (us @ tl)) # B" unfolding cs' e(3) us by simp
    then show ?thesis
      by (rule gap_fitI [OF _ g(2)]) (use f g e m' [of d] ch(2) in simp_all)
  next
    case (snoc B2 x)
    then have A: "A = A1 @ (c, is) # B2" using f(1) by simp
    define B3 where "B3 = B2 @ (d, pre @ Prop i t bs # post) # B"
    have cs: "cs = A1 @ (c, is) # B3" unfolding ch(2) A B3_def by simp
    have r: "chunk_rep m c (p1 @ (Gap n # p2)) (next_chunk B3)" using ch(1) unfolding cs f(2) by (rule chunks_rep_mid)
    have "next_chunk B3 \<noteq> None" by (cases B2) (simp_all add: B3_def next_chunk_def)
    then obtain gs rest where g: "Gap n # p2 = gs @ rest" "\<forall>g\<in>set gs. is_gap g"
      "free_space m (c, 1 + tlen p1) = tlen gs" "1 + tlen p1 + tlen gs \<le> unat (m c)"
      using gap_run [OF r] by blast
    have "cs' = A1 @ (c, p1 @ gs @ rest) # B2 @ (d, freed pre (Prop i t bs) post (next_chunk B)) # B"
      unfolding cs' A f(2) g(1) by simp
    then show ?thesis
      by (rule gap_fitI [OF _ g(2)]) (use f g m' [of c] cs in simp_all)
  qed
qed

text \<open>Placing a property adds it to the map; a new chunk does not change the map.\<close>

lemma pl_state_placed:
  assumes st: "pl_state U m cs M" and i: "M i = None" and pl: "placed cs m i v a m' cs'"
    and blob: "blob_region v a \<inter> U = {}" "\<forall>bs. blob_of v = Some bs \<longrightarrow> length bs < 2 ^ 32" "a < 2 ^ 64"
  shows "pl_state (U \<union> blob_region v a) m' cs' (M(i \<mapsto> v))"
proof -
  have sub: "all_regions m cs \<subseteq> U" and dist: "distinct (map fst (all_props cs))" and dom: "dom M = fst ` set (all_props cs)"
    and low: "\<forall>x\<in>set cs. 8 \<le> fst x" using st by (simp_all add: pl_state_def)
  have p: "wf_list m' cs'" "map fst cs' = map fst cs" "all_regions m' cs' = all_regions m cs"
    "\<forall>bs. blob_of v = Some bs \<longrightarrow> read_bytes m' a (length bs) = bs"
    "\<forall>x. x \<notin> all_regions m cs \<longrightarrow> x \<notin> blob_region v a \<longrightarrow> m' x = m x"
    using pl by (simp_all add: placed_def)
  obtain P Q where pq: "all_props cs = P @ Q" "all_props cs' = P @ (i, encode_value v a) # Q"
    using pl unfolding placed_def by blast
  have ni: "i \<notin> fst ` set (all_props cs)" using i dom by (metis domIff)
  have "fst ` set cs' = fst ` set cs" using p(2) by (metis list.set_map)
  then have low': "\<forall>x\<in>set cs'. 8 \<le> fst x" using low by (metis (no_types) image_iff)
  show ?thesis
  proof (rule pl_state_change [OF st p(1) low'])
    show "distinct (map fst (all_props cs'))" using dist ni unfolding pq by auto
    show "dom (M(i \<mapsto> v)) = fst ` set (all_props cs')" using dom unfolding pq by auto
    show "m' x = m x" if "x \<in> U - all_regions m cs" for x using that p(5) blob(1) by blast
    fix e assume e: "e \<in> set (all_props cs')"
    show "e \<in> set (all_props cs) \<and> (M(i \<mapsto> v)) (fst e) = M (fst e) \<or> entry_ok (U \<union> blob_region v a) m' cs' (M(i \<mapsto> v)) e"
    proof (cases "e = (i, encode_value v a)")
      case True
      have "blob_stored m' v a" using p(4) blob(2, 3) by (simp add: blob_stored_def)
      moreover have "blob_region v a \<subseteq> (U \<union> blob_region v a) - all_regions m' cs'" using sub blob(1) unfolding p(3) by blast
      ultimately show ?thesis using True by (auto simp: entry_ok_def)
    next
      case False
      then have "e \<in> set (all_props cs)" using e unfolding pq by auto
      then show ?thesis using ni by auto
    qed
  qed (use sub p(3) in auto)
qed

lemma pl_state_grown:
  assumes st: "pl_state U m (A @ [(c, is)]) M" and d: "{d..d + 63} \<inter> U = {}" "8 \<le> d"
    and wf: "wf_list m' (A @ [(c, is'), (d, js)])" and ps: "props is = props is' @ props js"
    and reg: "all_regions m' (A @ [(c, is'), (d, js)]) = all_regions m (A @ [(c, is)]) \<union> {d..d + 63}"
    and same: "\<forall>x. x \<notin> all_regions m (A @ [(c, is)]) \<longrightarrow> x \<notin> {d..d + 63} \<longrightarrow> m' x = m x"
  shows "pl_state (U \<union> {d..d + 63}) m' (A @ [(c, is'), (d, js)]) M"
proof -
  let ?cs = "A @ [(c, is)]" and ?cs' = "A @ [(c, is'), (d, js)]"
  have sub: "all_regions m ?cs \<subseteq> U" and dist: "distinct (map fst (all_props ?cs))"
    and dom: "dom M = fst ` set (all_props ?cs)" and low: "\<forall>x\<in>set ?cs. 8 \<le> fst x"
    using st by (simp_all add: pl_state_def)
  have ap: "all_props ?cs' = all_props ?cs" by (simp add: ps)
  have low': "\<forall>x\<in>set ?cs'. 8 \<le> fst x" using low d(2) by simp
  show ?thesis
  proof (rule pl_state_change [OF st wf low'])
    show "distinct (map fst (all_props ?cs'))" "dom M = fst ` set (all_props ?cs')" unfolding ap by (fact dist, fact dom)
    show "all_regions m' ?cs' \<inter> (U - all_regions m ?cs) = {}" unfolding reg using d(1) by blast
    show "m' x = m x" if "x \<in> U - all_regions m ?cs" for x using that same d(1) by blast
    show "e \<in> set (all_props ?cs) \<and> M (fst e) = M (fst e) \<or> entry_ok (U \<union> {d..d + 63}) m' ?cs' M e"
      if "e \<in> set (all_props ?cs')" for e using that unfolding ap by simp
  qed (use sub reg in auto)
qed

section \<open>set_property\<close>

text \<open>
  The next two addresses the allocator gives: two blocks of \<open>n\<close> bytes outside \<open>U\<close>, apart from each other.
\<close>

definition supply_ok :: "addr set \<Rightarrow> nat \<Rightarrow> addr list \<Rightarrow> bool" where
  "supply_ok U n as \<longleftrightarrow>
     (case as of a # b # _ \<Rightarrow>
        8 \<le> a \<and> 8 \<le> b \<and> a + n \<le> 2 ^ 64 \<and> b + n \<le> 2 ^ 64 \<and> {a..<a + n} \<inter> U = {} \<and> {b..<b + n} \<inter> U = {} \<and>
        {a..<a + n} \<inter> {b..<b + n} = {}
      | _ \<Rightarrow> False)"

definition blob_len :: "property \<Rightarrow> nat" where
  "blob_len v = (case blob_of v of None \<Rightarrow> 0 | Some bs \<Rightarrow> length bs)"

lemma blob_region_le: "blob_len v \<le> n \<Longrightarrow> blob_region v a \<subseteq> {a..<a + n}"
  by (auto simp: blob_region_def blob_len_def split: option.splits)

definition stored ::
    "addr set \<Rightarrow> plst \<Rightarrow> addr \<Rightarrow> (u16 \<Rightarrow> property option) \<Rightarrow> (unit result \<times> plst) option \<Rightarrow> bool" where
  "stored U s c M r \<longleftrightarrow>
     (\<exists>s' cs' U'. r = Some (Inr (), s') \<and> pl_state U' (pl_mem s') cs' M \<and> fst (hd cs') = c \<and> U \<subseteq> U' \<and>
        (\<forall>x. x \<notin> U' \<longrightarrow> pl_mem s' x = pl_mem s x))"

lemma place_fit_state:
  assumes st: "pl_state U (pl_mem s) cs M" and i: "M i = None"
    and fit: "gap_fit (pl_mem s) cs sp \<or> end_fit (pl_mem s) cs sp" and req: "sp_req sp = get_space v + 3"
    and blob: "blob_len v < 2 ^ 32" "pl_supply s = a # as" "{a..<a + blob_len v} \<inter> U = {}" "a < 2 ^ 64"
  shows "\<exists>s' cs'. space_set_property sp i v s = (Inr (), s') \<and> map fst cs' = map fst cs \<and>
    pl_state (U \<union> blob_region v a) (pl_mem s') cs' (M(i \<mapsto> v)) \<and>
    (\<forall>x. x \<notin> U \<union> blob_region v a \<longrightarrow> pl_mem s' x = pl_mem s x)"
proof -
  have can: "can_store v s" using blob(1, 2) by (auto simp: can_store_def blob_len_def split: option.splits)
  have br: "blob_region v a \<inter> U = {}" using blob_region_le [of v "blob_len v" a] blob(3) by blast
  have sub: "all_regions (pl_mem s) cs \<subseteq> U" "wf_list (pl_mem s) cs" using st by (simp_all add: pl_state_def)
  have "blob_region v a \<inter> all_regions (pl_mem s) cs = {}" using br sub by blast
  from place_fit [OF sub(2) fit req can _ this, of i] blob(2) obtain s' cs' where
    s': "space_set_property sp i v s = (Inr (), s')" "placed cs (pl_mem s) i v a (pl_mem s') cs'" by auto
  have "\<forall>bs. blob_of v = Some bs \<longrightarrow> length bs < 2 ^ 32" using blob(1) by (auto simp: blob_len_def)
  from pl_state_placed [OF st i s'(2) br this blob(4)] have
    "pl_state (U \<union> blob_region v a) (pl_mem s') cs' (M(i \<mapsto> v))" .
  moreover have "map fst cs' = map fst cs" using s'(2) by (simp add: placed_def)
  moreover have "pl_mem s' x = pl_mem s x" if "x \<notin> U \<union> blob_region v a" for x
    using s'(2) that sub(1) unfolding placed_def by blast
  ultimately show ?thesis using s'(1) by blast
qed

lemma fst_hd_map: "map fst xs = map fst ys \<Longrightarrow> ys \<noteq> [] \<Longrightarrow> fst (hd xs) = fst (hd ys)"
  by (cases xs; cases ys) auto

lemma place_property_ok:
  assumes st: "pl_state U (pl_mem s) cs M" and i: "M i = None" and c: "c = fst (hd cs)"
    and sp: "sp = new_space (get_space v + 3) \<or>
      sp_size sp \<noteq> 0 \<and> sp_req sp = get_space v + 3 \<and> (gap_fit (pl_mem s) cs sp \<or> end_fit (pl_mem s) cs sp)"
    and cs: "cs = A @ (d, pre @ post) # B"
    and sup: "supply_ok U (max 64 (blob_len v)) (pl_supply s)" and len: "blob_len v < 2 ^ 32"
  shows "stored U s c (M(i \<mapsto> v)) (place_property i v sp (d, 1 + tlen pre) s)"
proof -
  define n where "n = max 64 (blob_len v)"
  obtain a b as where as: "pl_supply s = a # b # as" "8 \<le> a" "{a..<a + n} \<inter> U = {}" "{b..<b + n} \<inter> U = {}"
    "{a..<a + n} \<inter> {b..<b + n} = {}" "a + n \<le> 2 ^ 64" "b + n \<le> 2 ^ 64"
    using sup unfolding supply_ok_def n_def by (auto split: list.splits)
  have n: "64 \<le> n" "blob_len v \<le> n" by (simp_all add: n_def)
  have lim: "a < 2 ^ 64" "b < 2 ^ 64" using as(6, 7) n(1) by linarith+
  have room: "{a..<a + blob_len v} \<subseteq> {a..<a + n}" "{b..<b + blob_len v} \<subseteq> {b..<b + n}" "{a..a + 63} \<subseteq> {a..<a + n}"
    using n by auto
  have ne: "cs \<noteq> []" by (simp add: cs)
  have ch: "chunks_rep (pl_mem s) cs" using st by (simp add: pl_state_def wf_list_def)
  have fits: "stored U s c (M(i \<mapsto> v)) (Some (space_set_property sp' i v s))"
    if "gap_fit (pl_mem s) cs sp' \<or> end_fit (pl_mem s) cs sp'" "sp_req sp' = get_space v + 3" for sp'
  proof -
    have "{a..<a + blob_len v} \<inter> U = {}" using room(1) as(3) by blast
    from place_fit_state [OF st i that len as(1) this lim(1)] obtain s' cs' where
      "space_set_property sp' i v s = (Inr (), s')" "map fst cs' = map fst cs"
      "pl_state (U \<union> blob_region v a) (pl_mem s') cs' (M(i \<mapsto> v))"
      "\<forall>x. x \<notin> U \<union> blob_region v a \<longrightarrow> pl_mem s' x = pl_mem s x" by (elim exE conjE) (rule that)
    moreover have "fst (hd cs') = c" using fst_hd_map [OF calculation(2) ne] by (simp add: c)
    moreover have "U \<subseteq> U \<union> blob_region v a" by blast
    ultimately show ?thesis unfolding stored_def by blast
  qed
  show ?thesis
  proof (cases "sp_size sp = 0")
    case False
    then have "gap_fit (pl_mem s) cs sp \<or> end_fit (pl_mem s) cs sp" "sp_req sp = get_space v + 3"
      using sp by (auto simp: new_space_def)
    from fits [OF this] show ?thesis using False by (simp add: place_property_def)
  next
    case True
    then have spe: "sp = new_space (get_space v + 3)" using sp by auto
    then have req: "sp_req sp = get_space v + 3" by (simp add: new_space_def)
    show ?thesis
      using find_space_list [OF ch cs, of sp "(d, 1 + tlen pre)"]
    proof (elim disjE exE)
      fix sp' e
      assume f: "find_space (pl_mem s) sp (d, 1 + tlen pre) (d, 1 + tlen pre) = Some (True, sp', e) \<and>
        sp_req sp' = sp_req sp \<and> sp_new sp' = sp_new sp \<and> (gap_fit (pl_mem s) cs sp' \<or> end_fit (pl_mem s) cs sp')"
      then have "stored U s c (M(i \<mapsto> v)) (Some (space_set_property sp' i v s))" by (intro fits) (auto simp: req)
      then show ?thesis using f True by (simp add: place_property_def)
    next
      assume f: "find_space (pl_mem s) sp (d, 1 + tlen pre) (d, 1 + tlen pre) =
          Some (False, sp, (fst (last cs), 1 + tlen (snd (last cs)))) \<and>
        free_space (pl_mem s) (fst (last cs), 1 + tlen (snd (last cs))) < sp_req sp"
      obtain C e "is" where ce: "cs = C @ [(e, is)]" using ne by (metis append_butlast_last_id surj_pair)
      have wf: "wf_list (pl_mem s) (C @ [(e, is)])" and sub: "all_regions (pl_mem s) cs \<subseteq> U"
        using st by (simp_all add: pl_state_def ce)
      have fresh: "{a..a + 63} \<inter> U = {}" using room(3) as(3) by blast
      then have ap: "{a..a + 63} \<inter> all_regions (pl_mem s) (C @ [(e, is)]) = {}" using sub unfolding ce by blast
      have "free_space (pl_mem s) (e, 1 + tlen is) \<le> 25" using f req get_space_le [of v] by (simp add: ce)
      from add_chunk_ok [OF wf refl as(1) lim(1) ap this] obtain s1 is' js where g: "add_chunk (e, 1 + tlen is) s = (Inr (a, 1 + tlen js), s1)" "pl_supply s1 = b # as"
        "wf_list (pl_mem s1) (C @ [(e, is'), (a, js)])" "props is = props is' @ props js" "tlen js \<le> 24"
        "pl_mem s1 a = 63"
        "all_regions (pl_mem s1) (C @ [(e, is'), (a, js)]) = all_regions (pl_mem s) (C @ [(e, is)]) \<union> {a..a + 63}"
        "\<forall>x. x \<notin> all_regions (pl_mem s) (C @ [(e, is)]) \<longrightarrow> x \<notin> {a..a + 63} \<longrightarrow> pl_mem s1 x = pl_mem s x"
        by (elim exE conjE) (rule that)
      let ?U = "U \<union> {a..a + 63}" and ?cs = "C @ [(e, is'), (a, js)]"
      let ?sp = "(set_pos (a, 1 + tlen js) (free_space (pl_mem s1) (a, 1 + tlen js)) sp)\<lparr>sp_new := True\<rparr>"
      have st1: "pl_state ?U (pl_mem s1) ?cs M"
        by (rule pl_state_grown [OF st [unfolded ce] fresh as(2) g(3, 4, 7, 8)])
      have "chunk_rep (pl_mem s1) a js None"
        using g(3) chunks_rep_mid [of "pl_mem s1" "C @ [(e, is')]" a js "[]"] by (simp add: wf_list_def next_chunk_def)
      from free_space_end [of "pl_mem s1" a "1 + tlen js" "[]"] chunk_rep_end [OF this]
      have fs: "free_space (pl_mem s1) (a, 1 + tlen js) = 63 - tlen js" using g(5, 6) by simp
      have fit: "end_fit (pl_mem s1) ?cs ?sp"
        by (rule end_fitI [of _ "C @ [(e, is')]" a js "[]"])
          (use fs g(5, 6) req get_space_le [of v] in \<open>simp_all add: set_pos_def\<close>)
      have rq: "sp_req ?sp = get_space v + 3" by (simp add: req)
      have dis: "{b..<b + blob_len v} \<inter> ?U = {}" using room as(4, 5) by blast
      from place_fit_state [OF st1 i disjI2 [OF fit] rq len g(2) dis lim(2)] obtain s' cs' where s': "space_set_property ?sp i v s1 = (Inr (), s')" "map fst cs' = map fst ?cs"
        "pl_state (?U \<union> blob_region v b) (pl_mem s') cs' (M(i \<mapsto> v))"
        "\<forall>x. x \<notin> ?U \<union> blob_region v b \<longrightarrow> pl_mem s' x = pl_mem s1 x"
        by (elim exE conjE) (rule that)
      have "place_property i v sp (d, 1 + tlen pre) s = Some (Inr (), s')"
        using f g(1) True s'(1) by (simp add: place_property_def ce)
      moreover have "fst (hd cs') = c" using fst_hd_map [OF s'(2)] unfolding c ce by (cases C) simp_all
      moreover have "pl_mem s' x = pl_mem s x" if x: "x \<notin> ?U \<union> blob_region v b" for x
      proof -
        have "x \<notin> all_regions (pl_mem s) (C @ [(e, is)])" using x sub unfolding ce by blast
        then show ?thesis using s'(4) g(8) x by simp
      qed
      moreover have "U \<subseteq> ?U \<union> blob_region v b" by blast
      ultimately show ?thesis unfolding stored_def using s'(3)
        by (intro exI [of _ s'] exI [of _ cs'] exI [of _ "?U \<union> blob_region v b"]) simp
    qed
  qed
qed

lemma stored_from:
  assumes "stored U s2 c M r" "\<And>x. x \<notin> U \<Longrightarrow> pl_mem s2 x = pl_mem s x"
  shows "stored U s c M r"
  using assms unfolding stored_def by (metis subsetD)

lemma space_in_new:
  "space_in m cs (new_space r) sp \<Longrightarrow> 0 < r \<Longrightarrow> sp = new_space r \<or> sp_size sp \<noteq> 0 \<and> sp_req sp = r \<and> sp \<noteq> new_space r"
  by (auto simp: space_in_def new_space_def set_pos_def)

lemma set_property_ok:
  assumes st: "pl_state U (pl_mem s) cs M" and c: "c = fst (hd cs)" and ix: "\<forall>p. ix i p (Some v) = None"
    and sup: "supply_ok U (max 64 (blob_len v)) (pl_supply s)" and len: "blob_len v < 2 ^ 32"
  shows "stored U s c (M(i \<mapsto> v)) (set_property ix i v c s)"
proof -
  let ?sp = "new_space (get_space v + 3)"
  have ch: "chunks_rep (pl_mem s) cs" using st by (simp add: pl_state_def wf_list_def)
  have upd: "index_update ix i p (Some v) s = (Inr (), emit (EvIndex i p (Some v)) s)" for p
    using ix by (simp add: index_update_def Let_def)
  show ?thesis
  proof (cases rule: find_in_state [OF st c, of i True ?sp, case_names found absent])
    case (found A d pre t bs post B sp)
    let ?s1 = "emit (EvIndex i (Some (d, 1 + tlen pre)) (Some v)) s"
    define s2 where "s2 = pref_free (d, 1 + tlen pre) ?s1"
    define cs2 where "cs2 = A @ (d, freed pre (Prop i t bs) post (next_chunk B)) # B"
    have "pl_state U (pl_mem ?s1) cs M" using st by simp
    note fr = pref_free_state [OF this found(2) s2_def cs2_def, unfolded pl_mem_emit pl_supply_simps]
    obtain tl where "freed pre (Prop i t bs) post (next_chunk B) = pre @ tl" by (rule freed_prefix)
    then have cs2: "cs2 = A @ (d, pre @ tl) # B" by (simp add: cs2_def)
    have sp: "sp = ?sp \<or> sp_size sp \<noteq> 0 \<and> sp_req sp = get_space v + 3 \<and>
        (gap_fit (pl_mem s2) cs2 sp \<or> end_fit (pl_mem s2) cs2 sp)"
      using space_in_new [OF found(3)] space_after_free [OF ch found(2, 3) _ fr(5) cs2_def] by auto
    have "(M(i := None)) i = None" by simp
    moreover have "c = fst (hd cs2)" using fst_hd_map [OF fr(3)] found(2) c by simp
    moreover have "supply_ok U (max 64 (blob_len v)) (pl_supply s2)" using sup fr(2) by simp
    ultimately have "stored U s2 c ((M(i := None))(i \<mapsto> v)) (place_property i v sp (d, 1 + tlen pre) s2)"
      using place_property_ok [OF fr(1) _ _ sp cs2 _ len] by blast
    then have "stored U s c (M(i \<mapsto> v)) (place_property i v sp (d, 1 + tlen pre) s2)"
      using stored_from [OF _ fr(4)] by simp
    then show ?thesis using found(1) by (simp add: set_property_def find_property_def upd s2_def)
  next
    case (absent sp)
    obtain C e "is" where ce: "cs = C @ [(e, is)]"
      using ch by (metis append_butlast_last_id chunks_rep.simps(1) surj_pair)
    let ?s1 = "emit (EvIndex i None (Some v)) s"
    have st1: "pl_state U (pl_mem ?s1) cs M" using st by simp
    have sp: "sp = ?sp \<or> sp_size sp \<noteq> 0 \<and> sp_req sp = get_space v + 3 \<and>
        (gap_fit (pl_mem ?s1) cs sp \<or> end_fit (pl_mem ?s1) cs sp)"
      using space_in_new [OF absent(3)] space_in_fits [OF ch absent(3)] by auto
    have "stored U ?s1 c (M(i \<mapsto> v)) (place_property i v sp (e, 1 + tlen is) ?s1)"
      by (rule place_property_ok [OF st1 absent(2) c sp, of C e "is" "[]" "[]"]) (use sup len ce in simp_all)
    then have "stored U s c (M(i \<mapsto> v)) (place_property i v sp (e, 1 + tlen is) ?s1)"
      by (rule stored_from) simp
    then show ?thesis using absent(1) by (simp add: set_property_def find_property_def upd ce)
  qed
qed

end
