(* ===== verification/Property_Log.thy ===== *)
theory Property_Log
  imports Property_Map
begin

text \<open>
  The undo discipline of the property list: every byte that \<open>PropertyList.cc\<close> overwrites has been
  logged before in the same transaction, or lies in a block allocated in it. The rollback proved
  for the journal then restores a property list.
\<close>

section \<open>Events\<close>

text \<open>\<open>covered L es\<close>: each store in \<open>es\<close> goes to \<open>L\<close> or to what an earlier event has logged or allocated.\<close>

fun logged :: "pl_event list \<Rightarrow> addr set" where
  "logged [] = {}"
| "logged (EvLog a n # es) = {a..<a + n} \<union> logged es"
| "logged (EvAlloc a n # es) = {a..<a + n} \<union> logged es"
| "logged (_ # es) = logged es"

fun covered :: "addr set \<Rightarrow> pl_event list \<Rightarrow> bool" where
  "covered L [] = True"
| "covered L (e # es) =
     ((case e of EvStore a n \<Rightarrow> {a..<a + n} \<subseteq> L | _ \<Rightarrow> True) \<and> covered (L \<union> logged [e]) es)"

lemma logged_append [simp]: "logged (es @ fs) = logged es \<union> logged fs"
  by (induction es rule: logged.induct) auto

lemma covered_append [simp]: "covered L (es @ fs) \<longleftrightarrow> covered L es \<and> covered (L \<union> logged es) fs"
proof (induction es arbitrary: L)
  case (Cons e es)
  have "logged (e # es) = logged [e] \<union> logged es" using logged_append [of "[e]" es] by simp
  then show ?case by (simp only: append_Cons covered.simps Cons Un_assoc conj_assoc)
qed simp

lemma covered_mono: "covered L es \<Longrightarrow> L \<subseteq> L' \<Longrightarrow> covered L' es"
proof (induction es arbitrary: L L')
  case (Cons e es)
  then have "covered (L' \<union> logged [e]) es" by (auto intro: Cons.IH [of "L \<union> logged [e]"])
  then show ?case using Cons.prems by (auto split: pl_event.splits)
qed simp

text \<open>From \<open>s\<close> to \<open>s'\<close> only covered stores, and \<open>K\<close> is in the log or new afterwards.\<close>

definition logs :: "addr set \<Rightarrow> plst \<Rightarrow> addr set \<Rightarrow> plst \<Rightarrow> bool" where
  "logs L s K s' \<longleftrightarrow> (\<exists>es. pl_events s' = pl_events s @ es \<and> covered L es \<and> K \<subseteq> L \<union> logged es)"

lemma logs_refl [simp]: "logs L s L s"
  by (simp add: logs_def)

lemma logs_trans: "logs L s K s1 \<Longrightarrow> logs K s1 J s2 \<Longrightarrow> logs L s J s2"
proof -
  assume "logs L s K s1" "logs K s1 J s2"
  then obtain es fs where e: "pl_events s1 = pl_events s @ es" "covered L es" "K \<subseteq> L \<union> logged es"
    "pl_events s2 = pl_events s1 @ fs" "covered K fs" "J \<subseteq> K \<union> logged fs" unfolding logs_def by blast
  have "covered (L \<union> logged es) fs" using covered_mono [OF e(5, 3)] .
  then show ?thesis unfolding logs_def using e by (intro exI [of _ "es @ fs"]) auto
qed

lemma logs_store: "{a..<a + length bs} \<subseteq> L \<Longrightarrow> logs L s L (store a bs s)"
  by (simp add: logs_def store_def emit_def)

lemma logs_emit:
  "logs L s (L \<union> {a..<a + n}) (emit (EvLog a n) s)" "logs L s L (emit (EvFlush a n) s)" "logs L s L (emit (EvFree a n) s)"
  "logs L s L (emit (EvIndex i p v) s)" "logs L s L (emit (EvNotify q) s)"
  by (simp_all add: logs_def emit_def)

lemma logs_alloc: "pl_alloc n s = (Inr a, s') \<Longrightarrow> logs L s (L \<union> {a..<a + n}) s'"
  by (auto simp: pl_alloc_def logs_def emit_def split: list.splits)

lemma pl_alloc_fails: "pl_alloc n s = (Inl e, s') \<Longrightarrow> s' = s"
  by (auto simp: pl_alloc_def split: list.splits)

lemma logs_weaken: "logs L s K s' \<Longrightarrow> J \<subseteq> K \<Longrightarrow> logs L s J s'"
  unfolding logs_def by blast

lemma logs_set_type_size: "fst p + snd p \<in> L \<Longrightarrow> logs L s L (set_type_size p b s)"
  unfolding set_type_size_def by (rule logs_store) simp

section \<open>Writing a property\<close>

lemma logs_set_size:
  assumes "fst p + snd p + new_size \<in> L"
  shows "logs L s L (set_size p old_size new_size s)"
  using assms logs_set_type_size [of "(fst p, snd p + new_size)" L]
  by (auto simp: set_size_def Let_def add.assoc)

lemma logs_set_blob:
  assumes "{val_addr p..<val_addr p + 12} \<subseteq> L"
  shows "logs L s L (snd (set_blob p bs s))"
proof (cases "length bs > 2 ^ 32 - 1")
  case False
  show ?thesis
  proof (cases "pl_alloc (length bs) s")
    case (Pair r s1)
    show ?thesis
    proof (cases r)
      case (Inr a)
      define s2 where "s2 = store a bs s1"
      define s3 where "s3 = emit (EvFlush a (length bs)) s2"
      define s4 where "s4 = store (val_addr p) (le_bytes 8 (of_nat a :: u64)) s3"
      let ?K = "L \<union> {a..<a + length bs}"
      have "logs L s ?K s1" using Pair Inr logs_alloc by blast
      moreover have "logs ?K s1 ?K s2" unfolding s2_def by (rule logs_store) simp
      moreover have "logs ?K s2 ?K s3" unfolding s3_def by (rule logs_emit)
      moreover have "logs ?K s3 ?K s4" unfolding s4_def by (rule logs_store) (use assms in auto)
      moreover have "logs ?K s4 ?K (store (val_addr p + 8) (le_bytes 4 (of_nat (length bs) :: u32)) s4)"
        by (rule logs_store) (use assms in auto)
      ultimately have "logs L s ?K (store (val_addr p + 8) (le_bytes 4 (of_nat (length bs) :: u32)) s4)"
        by (blast intro: logs_trans)
      then have "logs L s L (store (val_addr p + 8) (le_bytes 4 (of_nat (length bs) :: u32)) s4)"
        by (rule logs_weaken) simp
      then show ?thesis using Pair Inr False by (simp add: set_blob_def Let_def s2_def s3_def s4_def)
    next
      case (Inl e)
      then show ?thesis using Pair False pl_alloc_fails [of "length bs" s e s1] by (simp add: set_blob_def)
    qed
  qed
qed (simp add: set_blob_def)

lemma logs_finish_value:
  assumes "fst p + snd p \<in> L" "logs L s L (snd r)"
  shows "logs L s L (snd (finish_value p sz t r))"
  using assms logs_trans [OF assms(2) logs_set_type_size [OF assms(1)]]
  by (auto simp: finish_value_def split: prod.splits sum.splits)

lemma logs_set_value:
  assumes "{fst p + snd p..<fst p + snd p + get_space v + 3} \<subseteq> L"
  shows "logs L s L (snd (set_value p v (get_space v + 3) s))"
proof -
  have at: "fst p + snd p \<in> L" using assms by auto
  have val: "{val_addr p..<val_addr p + get_space v} \<subseteq> L" using assms by (auto simp: val_addr_def)
  show ?thesis
  proof (cases v)
    case (StrV bs)
    then show ?thesis
      using val at by (auto intro!: logs_finish_value logs_store logs_set_blob)
  qed (use val at in \<open>simp_all add: logs_finish_value logs_store logs_set_blob\<close>)
qed

text \<open>A new chunk need not be logged: it is in \<open>L\<close> already.\<close>

lemma logs_space_set_property:
  assumes req: "sp_req sp = get_space v + 3" and pos: "sp_pos sp = (c, off)"
    and new: "sp_new sp \<longrightarrow> {c + off..<c + off + sp_req sp + 1} \<subseteq> L"
  shows "logs L s L (snd (space_set_property sp i v s))"
proof -
  let ?n = "if sp_size sp > sp_req sp then sp_req sp + 1 else sp_req sp"
  let ?K = "L \<union> {c + off..<c + off + ?n}"
  define s1 where "s1 = (if sp_new sp then s else emit (EvLog (c + off) ?n) s)"
  define s2 where "s2 = (if sp_size sp > sp_req sp then set_size (c, off) (sp_size sp) (sp_req sp) s1 else s1)"
  have "{c + off..<c + off + ?n} \<subseteq> {c + off..<c + off + sp_req sp + 1}" by auto
  then have K: "sp_new sp \<Longrightarrow> ?K = L" using new by blast
  have "logs L s ?K s1" using K logs_emit(1) [of L s "c + off" ?n] by (auto simp: s1_def)
  moreover have "logs ?K s1 ?K s2" unfolding s2_def by (auto intro!: logs_set_size)
  ultimately have L2: "logs L s ?K s2" by (rule logs_trans)
  have "logs ?K s2 ?K (snd (set_value (c, off) v (get_space v + 3) s2))"
    by (rule logs_set_value) (auto simp: req)
  then have L3: "logs L s ?K (snd (set_value (c, off) v (get_space v + 3) s2))" by (rule logs_trans [OF L2])
  have "logs ?K s3 ?K (set_id (c, off) i s3)" for s3
    unfolding set_id_def by (rule logs_store) (auto simp: req)
  then have L4: "logs L s ?K (set_id (c, off) i (snd (set_value (c, off) v (get_space v + 3) s2)))"
    by (rule logs_trans [OF L3])
  then have L5: "logs L s ?K (emit (EvFlush a n) (set_id (c, off) i (snd (set_value (c, off) v (get_space v + 3) s2))))" for a n
    by (rule logs_trans) (rule logs_emit)
  have "space_set_property sp i v s =
      (case set_value (c, off) v (sp_req sp) s2 of
         (Inl e, s3) \<Rightarrow> (Inl e, s3)
       | (Inr u, s3) \<Rightarrow> (Inr (), if sp_new sp then emit (EvFlush c (off + ?n)) (set_id (c, off) i s3) else set_id (c, off) i s3))"
    unfolding space_set_property_def Let_def pos s1_def s2_def fst_conv snd_conv ..
  then have "logs L s ?K (snd (space_set_property sp i v s))"
    using L3 L4 L5 unfolding req by (auto split: prod.splits sum.splits)
  then show ?thesis by (rule logs_weaken) simp
qed

section \<open>A new chunk\<close>

lemma psize_copy: "psize (pl_mem (copy (d, q) p s)) (d, q) = psize (pl_mem s) p"
proof -
  have "pl_mem (copy (d, q) p s) (d + q) = pl_mem s (fst p + snd p)"
    by (simp add: copy_def write_bytes_def)
  then show ?thesis by (simp add: psize_def type_size_def)
qed

lemma logs_move_loop:
  "move_loop n p (d, q) s = ((d', q'), s') \<Longrightarrow>
   d' = d \<and> q \<le> q' \<and> ({d + q..<d + q'} \<subseteq> L \<longrightarrow> logs L s L s') \<and> (\<forall>x. x \<notin> {d + q..<d + q'} \<longrightarrow> pl_mem s' x = pl_mem s x)"
proof (induction n arbitrary: p q s)
  case (Suc n)
  show ?case
  proof (cases "not_done (pl_mem s) p")
    case nd: True
    show ?thesis
    proof (cases "ptype (pl_mem s) p = p_unused")
      case True
      then show ?thesis using Suc nd by simp
    next
      case False
      define s1 where "s1 = copy (d, q) p s"
      let ?n = "psize (pl_mem s) p + 1"
      have "skip (pl_mem s1) (d, q) = (d, q + ?n)" by (simp add: skip_def s1_def psize_copy)
      then have "move_loop n (skip (pl_mem s1) p) (d, q + ?n) s1 = ((d', q'), s')"
        using Suc.prems nd False by (simp add: Let_def s1_def)
      from Suc.IH [OF this] have ih: "d' = d" "q + ?n \<le> q'" "{d + (q + ?n)..<d + q'} \<subseteq> L \<Longrightarrow> logs L s1 L s'"
        "\<forall>x. x \<notin> {d + (q + ?n)..<d + q'} \<longrightarrow> pl_mem s' x = pl_mem s1 x" by auto
      have "logs L s L s1" if "{d + q..<d + q'} \<subseteq> L"
        unfolding s1_def copy_def
      proof (rule logs_store)
        have "{d + q..<d + q + ?n} \<subseteq> {d + q..<d + q'}" using ih(2) by auto
        then show "{fst (d, q) + snd (d, q)..<fst (d, q) + snd (d, q) + length (read_bytes (pl_mem s) (fst p + snd p) (psize (pl_mem s) p + 1))} \<subseteq> L"
          using that unfolding length_read_bytes fst_conv snd_conv by (rule subset_trans)
      qed
      moreover have "{d + (q + ?n)..<d + q'} \<subseteq> {d + q..<d + q'}" by auto
      ultimately have "{d + q..<d + q'} \<subseteq> L \<longrightarrow> logs L s L s'" using ih(3) logs_trans by blast
      moreover have "pl_mem s' x = pl_mem s x" if "x \<notin> {d + q..<d + q'}" for x
        using that ih(2, 4) by (auto simp: s1_def copy_def write_bytes_def)
      ultimately show ?thesis using ih(1, 2) by simp
    qed
  qed (use Suc.prems in simp)
qed simp

lemma logs_set_link:
  assumes "snd p + 9 \<le> chunk_size (pl_mem s) p"
  shows "logs L s L (set_link p d s)"
proof -
  define r where "r = chunk_size (pl_mem s) p - snd p"
  let ?K = "L \<union> {fst p + snd p..<fst p + snd p + r}"
  have r: "9 \<le> r" using assms by (simp add: r_def)
  define s1 where "s1 = emit (EvLog (fst p + snd p) r) s"
  define s2 where "s2 = (if r - 9 > 0 then set_type_size p (type_size_byte (r - 9 - 1) p_unused) s1 else s1)"
  let ?p = "(fst p, snd p + (r - 9))"
  have "logs L s ?K s1" unfolding s1_def by (rule logs_emit)
  moreover have "logs ?K s1 ?K s2" unfolding s2_def using r by (auto intro!: logs_set_type_size)
  moreover have "logs ?K s2 ?K (set_type_size ?p (of_nat p_link) s2)" using r by (auto intro!: logs_set_type_size)
  moreover have "logs ?K s3 ?K (store (fst ?p + snd ?p + 1) (le_bytes 8 (of_nat d :: u64)) s3)" for s3
    using r by (intro logs_store) auto
  ultimately have "logs L s ?K (store (fst ?p + snd ?p + 1) (le_bytes 8 (of_nat d :: u64)) (set_type_size ?p (of_nat p_link) s2))"
    by (blast intro: logs_trans)
  then have "logs L s L (store (fst ?p + snd ?p + 1) (le_bytes 8 (of_nat d :: u64)) (set_type_size ?p (of_nat p_link) s2))"
    by (rule logs_weaken) simp
  moreover have "set_link p d s = store (fst ?p + snd ?p + 1) (le_bytes 8 (of_nat d :: u64)) (set_type_size ?p (of_nat p_link) s2)"
    by (cases "r - 9 > 0") (simp_all add: set_link_def Let_def r_def [symmetric] s1_def [symmetric] s2_def)
  ultimately show ?thesis by simp
qed

lemma logs_add_chunk:
  assumes wf: "wf_list m (A @ [(c, is)])" and m: "m = pl_mem s" and sup: "pl_supply s = d # ds" and d: "d < 2 ^ 64"
    and fresh: "{d..d + 63} \<inter> all_regions m (A @ [(c, is)]) = {}"
    and small: "free_space m (c, 1 + tlen is) \<le> 25"
  shows "logs L s (L \<union> {d..<d + 64}) (snd (add_chunk (c, 1 + tlen is) s))"
proof -
  let ?cs = "A @ [(c, is)]" and ?K = "L \<union> {d..<d + 64}"
  define s1 where "s1 = emit (EvAlloc d prop_chunk_size) (s\<lparr>pl_supply := ds\<rparr>)"
  define s2 where "s2 = init_chunk d prop_chunk_size s1"
  have "logs L s ?K s1" unfolding s1_def by (rule logs_alloc [of 64]) (simp add: pl_alloc_def sup prop_chunk_size_def)
  moreover have "logs ?K s1 ?K s2"
    unfolding s2_def init_chunk_def by (rule logs_trans; rule logs_store) auto
  ultimately have L2: "logs L s ?K s2" by (rule logs_trans)
  have m2: "pl_mem s2 = m(d := 63, d + 1 := of_nat p_end)"
    by (simp add: s2_def s1_def init_chunk_mem m emit_def)
  have m2_all: "pl_mem s2 x = m x" if "x \<in> all_regions m ?cs" for x
  proof -
    have "x \<notin> {d..d + 63}" using that fresh by blast
    then show ?thesis by (auto simp: m2)
  qed
  note wf2 = wf_list_frame [OF wf m2_all]
  have r2: "chunk_rep (pl_mem s2) c is None"
    using wf2(1) chunks_rep_mid [of "pl_mem s2" A c "is" "[]"] by (simp add: wf_list_def next_chunk_def)
  have e: "9 \<le> unat (pl_mem s2 c)" "tlen is \<le> unat (pl_mem s2 c)" "items_at (pl_mem s2) (c + 1) is"
    using r2 by (simp_all add: chunk_rep_def)
  have fs: "free_space (pl_mem s2) (c, 1 + tlen is) = unat (pl_mem s2 c) - tlen is"
    using free_space_end [of "pl_mem s2" c "1 + tlen is" "[]"] chunk_rep_end(3) [OF r2] e(2) by simp
  obtain p q s3 where run: "(p, q, s3) = (if free_space (pl_mem s2) (c, 1 + tlen is) < 9
      then make_space (c, 1 + tlen is) (d, 1) s2 else ((c, 1 + tlen is), (d, 1), s2))"
    by (metis prod_cases3)
  have add: "add_chunk (c, 1 + tlen is) s = (Inr q, set_link p d s3)"
    unfolding add_chunk_def pl_alloc_def sup list.case prod.case sum.case Let_def s1_def [symmetric] s2_def [symmetric]
      run [symmetric] ..
  obtain s' js where "add_chunk (c, 1 + tlen is) s = (Inr (d, 1 + tlen js), s')" "tlen js \<le> 24"
    using add_chunk_ok [OF wf m sup d fresh small] by blast
  then have q: "fst q = d" "snd q \<le> 25" using add by auto
  have "logs ?K s2 ?K s3 \<and> snd p + 9 \<le> chunk_size (pl_mem s3) p"
  proof (cases "free_space (pl_mem s2) (c, 1 + tlen is) < 9")
    case False
    then have "p = (c, 1 + tlen is)" "s3 = s2" using run by simp_all
    then show ?thesis using False fs e(2) by (simp add: chunk_size_def chunk_end_def)
  next
    case True
    have "length is < 256" using length_le_tlen [of "is"] e(2) unsigned_less [of "pl_mem s2 c", where 'a = nat] by simp
    moreover have "1 + tlen is + 8 > unat (pl_mem s2 c)" "1 + tlen is \<le> unat (pl_mem s2 c) + 1" using True fs e(2) by simp_all
    ultimately obtain pre where pre: "move_start 256 (pl_mem s2) (c, 1) = (c, 1 + tlen pre)"
      "pre = [] \<or> 1 + tlen pre + 8 \<le> unat (pl_mem s2 c)"
      using move_start_items [OF e(3) _ _ e(1), of 256] by blast
    obtain q0 s0 where mv: "move_loop 256 (c, 1 + tlen pre) (d, 1) s2 = (q0, s0)" by fastforce
    have run': "p = (c, 1 + tlen pre)" "q = q0" "s3 = set_type_size q (of_nat p_end) s0"
      using run True pre(1) mv by (simp_all add: make_space_def Let_def)
    note ml = logs_move_loop [of 256 "(c, 1 + tlen pre)" d 1 s2 d "snd q" s0 ?K]
    have q0: "q0 = (d, snd q)" using q(1) run'(2) by (metis prod.collapse)
    then have ml': "1 \<le> snd q" "{d + 1..<d + snd q} \<subseteq> ?K \<longrightarrow> logs ?K s2 ?K s0"
      "\<forall>x. x \<notin> {d + 1..<d + snd q} \<longrightarrow> pl_mem s0 x = pl_mem s2 x" using ml mv by auto
    have "logs ?K s2 ?K s0" using ml'(2) q(2) by auto
    moreover have "logs ?K s0 ?K s3" unfolding run'(3) by (rule logs_set_type_size) (use q in auto)
    moreover have "pl_mem s3 c = pl_mem s2 c"
    proof -
      have "c \<in> all_regions m ?cs" by (force simp: all_regions_def region_def)
      then have "c \<notin> {d..d + 63}" using fresh by blast
      then show ?thesis using ml'(3) q unfolding run'(3) by auto
    qed
    ultimately show ?thesis using pre(2) e(1) logs_trans run'(1) by (auto simp: chunk_size_def chunk_end_def)
  qed
  then have "logs ?K s2 ?K s3" "logs ?K s3 ?K (set_link p d s3)" using logs_set_link by blast+
  then have "logs L s ?K (set_link p d s3)" using L2 logs_trans by metis
  then show ?thesis unfolding add by simp
qed

section \<open>The operations\<close>

lemma logs_pref_free: "logs L s L (pref_free p s)"
proof -
  let ?K = "L \<union> {fst p + snd p..<fst p + snd p + 1}"
  define s1 where "s1 = emit (EvNotify p) s"
  define s2 where "s2 = (if ptype (pl_mem s) p = p_string_ptr \<or> ptype (pl_mem s) p = p_blob then free_blob p s1 else s1)"
  have "logs L s L s1" unfolding s1_def by (rule logs_emit)
  moreover have "logs L s1 L s2" by (simp add: s2_def free_blob_def logs_emit)
  ultimately have L2: "logs L s L s2" by (rule logs_trans)
  have tx: "logs L s2 L (tx_write8 (fst p + snd p) b s2)" for b
  proof -
    have "logs L s2 ?K (emit (EvLog (fst p + snd p) 1) s2)" by (rule logs_emit)
    moreover have "logs ?K s3 ?K (store (fst p + snd p) [b] s3)" for s3 by (rule logs_store) simp
    ultimately have "logs L s2 ?K (tx_write8 (fst p + snd p) b s2)" unfolding tx_write8_def by (rule logs_trans)
    then show ?thesis by (rule logs_weaken) auto
  qed
  show ?thesis
    using logs_trans [OF L2 tx] by (simp add: pref_free_def Let_def s1_def [symmetric] s2_def [symmetric])
qed

text \<open>The first block the allocator can give does not overlap the list.\<close>

definition fresh_block :: "addr set \<Rightarrow> addr list \<Rightarrow> bool" where
  "fresh_block U as \<longleftrightarrow> (case as of [] \<Rightarrow> True | d # _ \<Rightarrow> d < 2 ^ 64 \<and> {d..d + 63} \<inter> U = {})"

lemma logs_place_property:
  assumes st: "pl_state U (pl_mem s) cs M" and cs: "cs = A @ (d, pre @ post) # B"
    and req: "sp_req sp = get_space v + 3" "\<not> sp_new sp" and fresh: "fresh_block U (pl_supply s)"
    and run: "place_property i v sp (d, 1 + tlen pre) s = Some (r, s')"
  shows "logs L s L s'"
proof -
  have old: "logs L s L (snd (space_set_property sp' i v s))" if "sp_req sp' = get_space v + 3" "\<not> sp_new sp'" for sp'
    using logs_space_set_property [of sp' v "fst (sp_pos sp')" "snd (sp_pos sp')"] that by simp
  have ch: "chunks_rep (pl_mem s) cs" using st by (simp add: pl_state_def wf_list_def)
  show ?thesis
  proof (cases "sp_size sp = 0")
    case False
    then have "s' = snd (space_set_property sp i v s)" using run by (auto simp: place_property_def)
    then show ?thesis using old [OF req] by simp
  next
    case True
    show ?thesis
      using find_space_list [OF ch cs, of sp "(d, 1 + tlen pre)"]
    proof (elim disjE exE)
      fix sp' e
      assume "find_space (pl_mem s) sp (d, 1 + tlen pre) (d, 1 + tlen pre) = Some (True, sp', e) \<and>
        sp_req sp' = sp_req sp \<and> sp_new sp' = sp_new sp \<and> (gap_fit (pl_mem s) cs sp' \<or> end_fit (pl_mem s) cs sp')"
      then show ?thesis using True run old [of sp'] req by (auto simp: place_property_def)
    next
      assume f: "find_space (pl_mem s) sp (d, 1 + tlen pre) (d, 1 + tlen pre) =
          Some (False, sp, (fst (last cs), 1 + tlen (snd (last cs)))) \<and>
        free_space (pl_mem s) (fst (last cs), 1 + tlen (snd (last cs))) < sp_req sp"
      have "cs \<noteq> []" by (simp add: cs)
      then obtain C e "is" where ce: "cs = C @ [(e, is)]" by (metis append_butlast_last_id surj_pair)
      show ?thesis
      proof (cases "pl_supply s")
        case Nil
        then have "add_chunk (e, 1 + tlen is) s = (Inl BadAlloc, s)" by (simp add: add_chunk_def pl_alloc_def)
        then show ?thesis using f run True ce by (simp add: place_property_def)
      next
        case (Cons a as)
        have lim: "a < 2 ^ 64" "{a..a + 63} \<inter> U = {}" using fresh Cons by (simp_all add: fresh_block_def)
        have wf: "wf_list (pl_mem s) (C @ [(e, is)])" and sub: "all_regions (pl_mem s) (C @ [(e, is)]) \<subseteq> U"
          using st by (simp_all add: pl_state_def ce)
        have ap: "{a..a + 63} \<inter> all_regions (pl_mem s) (C @ [(e, is)]) = {}" using lim(2) sub by blast
        have small: "free_space (pl_mem s) (e, 1 + tlen is) \<le> 25" using f req get_space_le [of v] by (simp add: ce)
        obtain s1 js where g: "add_chunk (e, 1 + tlen is) s = (Inr (a, 1 + tlen js), s1)" "tlen js \<le> 24"
          using add_chunk_ok [OF wf refl Cons lim(1) ap small] by blast
        let ?sp = "(set_pos (a, 1 + tlen js) (free_space (pl_mem s1) (a, 1 + tlen js)) sp)\<lparr>sp_new := True\<rparr>"
        let ?K = "L \<union> {a..<a + 64}"
        have "logs L s ?K s1" using logs_add_chunk [OF wf refl Cons lim(1) ap small, of L] unfolding g(1) by simp
        moreover have "logs ?K s1 ?K (snd (space_set_property ?sp i v s1))"
          by (rule logs_space_set_property [of _ v a "1 + tlen js"])
            (use req g(2) get_space_le [of v] in \<open>auto simp: set_pos_def\<close>)
        ultimately have "logs L s ?K (snd (space_set_property ?sp i v s1))" by (rule logs_trans)
        then have "logs L s L (snd (space_set_property ?sp i v s1))" by (rule logs_weaken) simp
        then show ?thesis using f run True g(1) ce by (auto simp: place_property_def)
      qed
    qed
  qed
qed

lemma space_in_req: "space_in m cs sp sp' \<Longrightarrow> sp_req sp' = sp_req sp \<and> sp_new sp' = sp_new sp"
  by (auto simp: space_in_def)

lemma logs_set_property:
  assumes st: "pl_state U (pl_mem s) cs M" and c: "c = fst (hd cs)" and fresh: "fresh_block U (pl_supply s)"
    and run: "set_property ix i v c s = Some (r, s')"
  shows "logs L s L s'"
proof (cases rule: find_in_state [OF st c, of i True "new_space (get_space v + 3)", case_names found absent])
  case (found A d pre t bs post B sp)
  let ?s1 = "emit (EvIndex i (Some (d, 1 + tlen pre)) (Some v)) s"
  have L1: "logs L s L ?s1" by (rule logs_emit)
  have "pl_state U (pl_mem ?s1) cs M" using st by simp
  note fr = pref_free_state [OF this found(2) refl refl, unfolded pl_supply_simps]
  have L2: "logs L s L (pref_free (d, 1 + tlen pre) ?s1)" by (rule logs_trans [OF L1 logs_pref_free])
  obtain tl where tl: "freed pre (Prop i t bs) post (next_chunk B) = pre @ tl" by (rule freed_prefix)
  have sp: "sp_req sp = get_space v + 3" "\<not> sp_new sp" using space_in_req [OF found(3)] by (simp_all add: new_space_def)
  show ?thesis
  proof (cases "ix i (Some (d, 1 + tlen pre)) (Some v)")
    case None
    then have run': "place_property i v sp (d, 1 + tlen pre) (pref_free (d, 1 + tlen pre) ?s1) = Some (r, s')"
      using run found(1) by (simp add: set_property_def find_property_def index_update_def Let_def)
    have "logs L (pref_free (d, 1 + tlen pre) ?s1) L s'"
      by (rule logs_place_property [OF fr(1) _ sp _ run']) (use tl fr(2) fresh in simp_all)
    then show ?thesis by (rule logs_trans [OF L2])
  next
    case (Some e)
    then have "s' = ?s1" using run found(1) by (simp add: set_property_def find_property_def index_update_def Let_def)
    then show ?thesis using L1 by simp
  qed
next
  case (absent sp)
  let ?s1 = "emit (EvIndex i None (Some v)) s"
  have L1: "logs L s L ?s1" by (rule logs_emit)
  have st1: "pl_state U (pl_mem ?s1) cs M" using st by simp
  have "chunks_rep (pl_mem s) cs" using st by (simp add: pl_state_def wf_list_def)
  then obtain C e "is" where ce: "cs = C @ [(e, is)]"
    by (metis append_butlast_last_id chunks_rep.simps(1) surj_pair)
  have sp: "sp_req sp = get_space v + 3" "\<not> sp_new sp" using space_in_req [OF absent(3)] by (simp_all add: new_space_def)
  show ?thesis
  proof (cases "ix i None (Some v)")
    case None
    then have run': "place_property i v sp (e, 1 + tlen is) ?s1 = Some (r, s')"
      using run absent(1) ce by (simp add: set_property_def find_property_def index_update_def Let_def)
    have "logs L ?s1 L s'"
      by (rule logs_place_property [OF st1 _ sp _ run', of C "[]" "[]"]) (use ce fresh in simp_all)
    then show ?thesis by (rule logs_trans [OF L1])
  next
    case (Some e)
    then have "s' = ?s1" using run absent(1) by (simp add: set_property_def find_property_def index_update_def Let_def)
    then show ?thesis using L1 by simp
  qed
qed

end
