(* ===== verification/Property_Laws.thy ===== *)
theory Property_Laws
  imports Property_Log
begin

text \<open>
  What a property list promises: setting, getting and removing are operations on a finite map, every
  operation returns, a value has the type it was stored with and takes as few bytes as possible,
  every byte that is overwritten has been logged before. An iterator is confused by the removal of
  another property.
\<close>

section \<open>Removing\<close>

lemma remove_property_ok:
  assumes st: "pl_state U (pl_mem s) cs M" and c: "c = fst (hd cs)" and ix: "\<forall>p. ix i p None = None"
  shows "\<exists>s' cs'. remove_property ix i c s = Some (Inr (), s') \<and> pl_state U (pl_mem s') cs' (M(i := None)) \<and>
    fst (hd cs') = c \<and> pl_supply s' = pl_supply s \<and> (\<forall>x. x \<notin> U \<longrightarrow> pl_mem s' x = pl_mem s x)"
proof (cases rule: find_in_state [OF st c, of i False "new_space 0", case_names found absent])
  case (found A d pre t bs post B sp)
  let ?s1 = "emit (EvIndex i (Some (d, 1 + tlen pre)) None) s"
  have "pl_state U (pl_mem ?s1) cs M" using st by simp
  note fr = pref_free_state [OF this found(2) refl refl, unfolded pl_mem_emit pl_supply_simps]
  have "remove_property ix i c s = Some (Inr (), pref_free (d, 1 + tlen pre) ?s1)"
    using found(1) ix by (simp add: remove_property_def find_property_def index_update_def Let_def)
  moreover have "fst (hd (A @ (d, freed pre (Prop i t bs) post (next_chunk B)) # B)) = c"
    using fst_hd_map [OF fr(3)] found(2) c by simp
  ultimately show ?thesis using fr(1, 2, 4) by blast
next
  case (absent sp)
  have "remove_property ix i c s = Some (Inr (), s)"
    using absent(1) by (simp add: remove_property_def find_property_def)
  moreover have "M(i := None) = M" using absent(2) by auto
  ultimately show ?thesis using st c by metis
qed

section \<open>Types\<close>

lemma accessors_of_value:
  assumes "get_value m p = Inr v" "ptype m p = fst (encode_value v a)"
  shows "bool_value m p = (case v of BoolV b \<Rightarrow> Inr b | _ \<Rightarrow> Inl PropertyTypeMismatch)"
    and "int_value m p = (case v of IntV w \<Rightarrow> Inr w | _ \<Rightarrow> Inl PropertyTypeMismatch)"
    and "string_value m p = (case v of StrV bs \<Rightarrow> Inr bs | _ \<Rightarrow> Inl PropertyTypeMismatch)"
    and "float_value m p = (case v of FloatV d \<Rightarrow> Inr d | _ \<Rightarrow> Inl PropertyTypeMismatch)"
    and "time_value m p = (case v of TimeV t \<Rightarrow> Inr t | _ \<Rightarrow> Inl PropertyTypeMismatch)"
    and "blob_value m p = (case v of BlobV bs \<Rightarrow> Inr bs | _ \<Rightarrow> Inl PropertyTypeMismatch)"
  using assms
  by (cases v; auto simp: get_value_def bool_value_def int_value_def string_value_def float_value_def time_value_def
      blob_value_def ptype_defs Let_def split: if_splits sum.splits)+

lemma find_value:
  assumes st: "pl_state U m cs M" and c: "c = fst (hd cs)" and v: "M i = Some v"
  shows "\<exists>p sp a. find_property m i c None = Some (True, p, sp) \<and> get_value m p = Inr v \<and> ptype m p = fst (encode_value v a)"
proof (cases rule: find_in_state [OF st c, of i False "new_space 0", case_names found absent])
  case (found A d pre t bs post B sp')
  note ch = chunk_of_state [OF st [unfolded found(2)]]
  have "entry_ok U m cs M (i, t, bs)" using st by (simp add: pl_state_def found(2))
  then obtain a where e: "(t, bs) = encode_value v a" "blob_stored m v a"
    using v by (auto simp: entry_ok_def)
  have tb: "t = fst (encode_value v a)" "bs = snd (encode_value v a)" using e(1) by (metis fst_conv snd_conv)+
  have "get_value m (d, 1 + tlen pre) = Inr v"
    using get_value_encoded [of m d "1 + tlen pre" i v a] ch(2, 3) e(2) tb by simp
  moreover have "ptype m (d, 1 + tlen pre) = fst (encode_value v a)" using item_at_prop(1) [OF ch(2)] tb(1) by simp
  ultimately show ?thesis using found(1) by (auto simp: find_property_def)
qed (use v in simp)

section \<open>The length of an integer\<close>

lemma get_int_len_minimal:
  assumes "1 \<le> k" "- (2 ^ (8 * k - 1)) \<le> sint v" "sint v < 2 ^ (8 * k - 1)"
  shows "get_int_len v \<le> k"
proof -
  define v' where "v' = (if sint v < 0 then - v - 1 else v)"
  have s: "sint v' = (if sint v < 0 then - sint v - 1 else sint v)"
    using sint_not [of v] by (simp add: v'_def not_eq_complement)
  then have pos: "0 \<le> sint v'" by simp
  have "int (unat v') = sint v'" using uint_sint_pos [OF pos] by simp
  also have "\<dots> < 2 ^ (8 * k - 1)" using s assms(2, 3) by (auto split: if_splits)
  finally have lt: "unat v' < 2 ^ (8 * k - 1)" by (metis of_nat_less_iff of_nat_numeral of_nat_power)
  have len: "get_int_len v = (if v' = 0 then 1 else (floor_log2 (unat v') + 1) div 8 + 1)"
    by (simp add: get_int_len_def v'_def bsr_def Let_def)
  show ?thesis
  proof (cases "v' = 0")
    case False
    then have "2 ^ floor_log2 (unat v') \<le> unat v'" using floor_log2_bounds [of "unat v'"] by (simp add: unat_gt_0)
    then have "2 ^ floor_log2 (unat v') < (2 :: nat) ^ (8 * k - 1)" using lt by linarith
    then have "floor_log2 (unat v') < 8 * k - 1" by (simp only: power_strict_increasing_iff)
    then have "floor_log2 (unat v') + 1 < 8 * k" using assms(1) by linarith
    then have "(floor_log2 (unat v') + 1) div 8 < k" by (simp add: less_mult_imp_div_less mult.commute)
    then show ?thesis by (simp add: len False)
  qed (use assms(1) in \<open>simp add: len\<close>)
qed

section \<open>Every operation returns\<close>

lemma skip_to_next_chunk:
  assumes "items_at m (c + off) is" "off + tlen is \<le> unat (m c) + 1"
  shows "(\<exists>pre i t bs post. is = pre @ Prop i t bs # post \<and> (\<forall>g\<in>set pre. is_gap g) \<and>
      skip_to_next m (c, off) = Some (True, (c, off + tlen pre))) \<or>
    (\<forall>g\<in>set is. is_gap g) \<and> skip_to_next m (c, off) = skip_to_next m (c, off + tlen is)"
  using assms
proof (induction "is" arbitrary: off)
  case (Cons it "is")
  have at: "item_at m (c + off) it" "items_at m (c + (off + ilen it)) is" "off + ilen it + tlen is \<le> unat (m c) + 1"
    "off \<le> unat (m c)" using Cons.prems ilen_pos(1) [of it] by (simp_all add: add.assoc del: ilen_pos)
  note nd = not_done_item [OF at(1, 4)]
  show ?case
  proof (cases it)
    case (Gap n)
    then have st: "skip_to_next m (c, off) = skip_to_next m (c, off + ilen it)"
      using nd by (subst skip_to_next.simps) auto
    show ?thesis
      using Cons.IH [OF at(2, 3)]
    proof (elim disjE exE conjE)
      fix pre i t bs post
      assume "is = pre @ Prop i t bs # post" "\<forall>g\<in>set pre. is_gap g"
        "skip_to_next m (c, off + ilen it) = Some (True, (c, off + ilen it + tlen pre))"
      then show ?thesis
        by (intro disjI1 exI [of _ "it # pre"] exI [of _ i] exI [of _ t] exI [of _ bs] exI [of _ post])
          (use st Gap in \<open>simp add: add.assoc\<close>)
    qed (use st Gap in \<open>simp add: add.assoc\<close>)
  next
    case (Prop i t bs)
    then have "skip_to_next m (c, off) = Some (True, (c, off))" using nd by (subst skip_to_next.simps) auto
    then show ?thesis using Prop by (intro disjI1 exI [of _ "[]"]) auto
  qed
qed simp

lemma skip_to_next_returns:
  assumes "chunks_rep m cs" "cs = A @ (c, pre @ post) # B"
  shows "skip_to_next m (c, 1 + tlen pre) \<noteq> None"
  using assms
proof (induction B arbitrary: A c pre post)
  case Nil
  have r: "chunk_rep m c (pre @ post) None"
    using Nil.prems chunks_rep_mid [of m A c "pre @ post" "[]"] by (simp add: next_chunk_def)
  have at: "items_at m (c + (1 + tlen pre)) post" "1 + tlen pre + tlen post \<le> unat (m c) + 1"
    using chunk_rep_end(1, 2) [OF r] by (simp_all add: add.assoc)
  have "skip_to_next m (c, 1 + tlen pre + tlen post) = Some (False, (c, 1 + tlen pre + tlen post))"
    using chunk_rep_end(3) [OF r] by (subst skip_to_next.simps) (simp add: add.assoc)
  then show ?case using skip_to_next_chunk [OF at] by auto
next
  case (Cons x B)
  obtain d js where x: "x = (d, js)" by fastforce
  have "chunk_rep m c (pre @ post) (next_chunk (x # B))"
    using Cons.prems(1) unfolding Cons.prems(2) by (rule chunks_rep_mid)
  then have r: "chunk_rep m c (pre @ post) (Some d)" by (simp add: next_chunk_def x)
  have at: "items_at m (c + (1 + tlen pre)) post" "1 + tlen pre + tlen post \<le> unat (m c) + 1"
    using chunk_rep_link(1, 2) [OF r] by (simp_all add: add.assoc)
  have "skip_to_next m (c, 1 + tlen pre + tlen post) = skip_to_next m (d, 1)"
    using chunk_rep_link(3-5) [OF r] by (subst skip_to_next.simps) (auto simp: add.assoc)
  moreover have "cs = (A @ [(c, pre @ post)]) @ (d, [] @ js) # B" using Cons.prems(2) x by simp
  from Cons.IH [OF Cons.prems(1) this] have "skip_to_next m (d, 1) \<noteq> None" by simp
  ultimately show ?case using skip_to_next_chunk [OF at] by auto
qed

lemma place_property_returns:
  assumes "chunks_rep (pl_mem s) cs" "cs = A @ (d, pre @ post) # B"
  shows "place_property i v sp (d, 1 + tlen pre) s \<noteq> None"
  using find_space_list [OF assms, of sp "(d, 1 + tlen pre)"]
  by (auto simp: place_property_def split: sum.splits prod.splits)

lemma set_property_returns:
  assumes st: "pl_state U (pl_mem s) cs M" and c: "c = fst (hd cs)"
  shows "set_property ix i v c s \<noteq> None"
proof (cases rule: find_in_state [OF st c, of i True "new_space (get_space v + 3)", case_names found absent])
  case (found A d pre t bs post B sp)
  let ?s1 = "emit (EvIndex i (Some (d, 1 + tlen pre)) (Some v)) s"
  have "pl_state U (pl_mem ?s1) cs M" using st by simp
  note fr = pref_free_state [OF this found(2) refl refl]
  obtain tl where "freed pre (Prop i t bs) post (next_chunk B) = pre @ tl" by (rule freed_prefix)
  then have ch: "chunks_rep (pl_mem (pref_free (d, 1 + tlen pre) ?s1)) (A @ (d, pre @ tl) # B)"
    using fr(1) unfolding pl_state_def wf_list_def by simp
  have "place_property i v sp (d, 1 + tlen pre) (pref_free (d, 1 + tlen pre) ?s1) \<noteq> None"
    by (rule place_property_returns [OF ch refl])
  then show ?thesis
    using found(1) by (simp add: set_property_def find_property_def index_update_def Let_def split: option.splits)
next
  case (absent sp)
  have ch: "chunks_rep (pl_mem s) cs" using st by (simp add: pl_state_def wf_list_def)
  then obtain C e "is" where ce: "cs = C @ [(e, is)]"
    by (metis append_butlast_last_id chunks_rep.simps(1) surj_pair)
  have "place_property i v sp (e, 1 + tlen is) (emit (EvIndex i None (Some v)) s) \<noteq> None"
    by (rule place_property_returns [of _ _ C e "is" "[]" "[]"]) (use ch ce in simp_all)
  then show ?thesis
    using absent(1) ce by (simp add: set_property_def find_property_def index_update_def Let_def split: option.splits)
qed

section \<open>Removing everything\<close>

text \<open>
  \<open>remove_all_properties\<close> gives back the block of every long string and blob and every chunk but the
  first, each once and in the order of the list.
\<close>

fun given_back :: "pl_event list \<Rightarrow> (addr \<times> nat) list" where
  "given_back [] = []"
| "given_back (EvFree a n # es) = (a, n) # given_back es"
| "given_back (_ # es) = given_back es"

lemma given_back_append [simp]: "given_back (es @ fs) = given_back es @ given_back fs"
  by (induction es rule: given_back.induct) auto

definition block_at :: "mem \<Rightarrow> addr \<Rightarrow> addr \<times> nat" where
  "block_at m a = (unat (read64 m a), unat (le_word (read_bytes m (a + 8) 4) :: u32))"

fun item_frees :: "mem \<Rightarrow> addr \<Rightarrow> item list \<Rightarrow> (addr \<times> nat) list" where
  "item_frees m a [] = []"
| "item_frees m a (Gap n # is) = item_frees m (a + ilen (Gap n)) is"
| "item_frees m a (Prop i t bs # is) =
     (if t = p_string_ptr \<or> t = p_blob then [block_at m (a + 3)] else []) @ item_frees m (a + ilen (Prop i t bs)) is"

fun list_frees :: "mem \<Rightarrow> bool \<Rightarrow> (addr \<times> item list) list \<Rightarrow> (addr \<times> nat) list" where
  "list_frees m first [] = []"
| "list_frees m first ((c, is) # cs) =
     item_frees m (c + 1) is @ (if first then [] else [(c, prop_chunk_size)]) @ list_frees m False cs"

lemma pl_events_emit [simp]: "pl_events (emit e s) = pl_events s @ [e]"
  by (simp add: emit_def)

lemma remove_all_items:
  assumes "items_at (pl_mem s) (c + off) is" "off + tlen is \<le> unat (pl_mem s c) + 1" and ix: "\<forall>i p. ix i p None = None"
  shows "\<exists>s'. remove_all_loop ix (c, off) first s = remove_all_loop ix (c, off + tlen is) first s' \<and> pl_mem s' = pl_mem s \<and>
    pl_supply s' = pl_supply s \<and> given_back (pl_events s') = given_back (pl_events s) @ item_frees (pl_mem s) (c + off) is"
  using assms(1, 2)
proof (induction "is" arbitrary: off s)
  case Nil
  then show ?case by auto
next
  case (Cons it "is")
  have at: "item_at (pl_mem s) (c + off) it" "items_at (pl_mem s) (c + (off + ilen it)) is"
    "off + ilen it + tlen is \<le> unat (pl_mem s c) + 1" "off \<le> unat (pl_mem s c)"
    using Cons.prems ilen_pos(1) [of it] by (simp_all add: add.assoc del: ilen_pos)
  note nd = not_done_item [OF at(1, 4)]
  have "\<exists>s1. remove_all_loop ix (c, off) first s = remove_all_loop ix (c, off + ilen it) first s1 \<and> pl_mem s1 = pl_mem s \<and>
      pl_supply s1 = pl_supply s \<and> given_back (pl_events s1) @ item_frees (pl_mem s) (c + (off + ilen it)) is =
        given_back (pl_events s) @ item_frees (pl_mem s) (c + off) (it # is)"
  proof (cases it)
    case (Gap n)
    then have "remove_all_loop ix (c, off) first s = remove_all_loop ix (c, off + ilen it) first s"
      using nd by (subst remove_all_loop.simps) (simp add: Let_def p_unused_def p_link_def)
    then show ?thesis using Gap by (auto simp: add.assoc)
  next
    case (Prop i t bs)
    then have t: "ptype (pl_mem s) (c, off) = t" "t \<noteq> p_unused" "t \<noteq> p_link"
      using item_at_prop(1) at(1) nd(3, 4) by auto
    define s1 where "s1 = (if t = p_blob then free_blob (c, off) s
      else let s0 = emit (EvIndex (get_id (pl_mem s) (c, off)) (Some (c, off)) None) s
           in if t = p_string_ptr then free_blob (c, off) s0 else s0)"
    have "remove_all_loop ix (c, off) first s = remove_all_loop ix (c, off + ilen it) first s1"
      using nd(1, 2) t ix by (subst remove_all_loop.simps) (simp add: Let_def index_update_def s1_def p_blob_def p_string_ptr_def)
    moreover have "pl_mem s1 = pl_mem s" "pl_supply s1 = pl_supply s" by (simp_all add: s1_def Let_def free_blob_def)
    moreover have "given_back (pl_events s1) @ item_frees (pl_mem s) (c + (off + ilen it)) is =
        given_back (pl_events s) @ item_frees (pl_mem s) (c + off) (it # is)"
      using Prop by (simp add: s1_def Let_def free_blob_def block_at_def val_addr_def add.assoc)
    ultimately show ?thesis by blast
  qed
  then obtain s1 where s1: "remove_all_loop ix (c, off) first s = remove_all_loop ix (c, off + ilen it) first s1"
    "pl_mem s1 = pl_mem s" "pl_supply s1 = pl_supply s" "given_back (pl_events s1) @ item_frees (pl_mem s) (c + (off + ilen it)) is =
        given_back (pl_events s) @ item_frees (pl_mem s) (c + off) (it # is)" by blast
  obtain s2 where "remove_all_loop ix (c, off + ilen it) first s1 = remove_all_loop ix (c, off + ilen it + tlen is) first s2"
    "pl_mem s2 = pl_mem s1" "pl_supply s2 = pl_supply s1"
    "given_back (pl_events s2) = given_back (pl_events s1) @ item_frees (pl_mem s1) (c + (off + ilen it)) is"
    using Cons.IH [of s1 "off + ilen it"] at(2, 3) s1(2) by auto
  then show ?case using s1 by (auto simp: add.assoc)
qed

lemma remove_all_list:
  assumes "chunks_rep (pl_mem s) ((c, is) # cs)" and ix: "\<forall>i p. ix i p None = None"
  shows "\<exists>p first' s'. remove_all_loop ix (c, 1) first s = Some (Inr (p, first'), s') \<and> pl_mem s' = pl_mem s \<and>
    pl_supply s' = pl_supply s \<and>
    given_back (pl_events s') @ (if first' then [] else [(fst p, prop_chunk_size)]) =
      given_back (pl_events s) @ list_frees (pl_mem s) first ((c, is) # cs)"
  using assms(1)
proof (induction cs arbitrary: c "is" first s)
  case Nil
  then have r: "chunk_rep (pl_mem s) c is None" by simp
  obtain s1 where s1: "remove_all_loop ix (c, 1) first s = remove_all_loop ix (c, 1 + tlen is) first s1" "pl_mem s1 = pl_mem s"
    "pl_supply s1 = pl_supply s" "given_back (pl_events s1) = given_back (pl_events s) @ item_frees (pl_mem s) (c + 1) is"
    using remove_all_items [where ix = ix, OF chunk_rep_end(1, 2) [OF r] ix, where first = first] by blast
  have "remove_all_loop ix (c, 1 + tlen is) first s1 = Some (Inr ((c, 1 + tlen is), first), s1)"
    using chunk_rep_end(3) [OF r] s1(2) by (subst remove_all_loop.simps) simp
  then show ?case using s1 by auto
next
  case (Cons x cs)
  obtain d js where x: "x = (d, js)" by fastforce
  then have r: "chunk_rep (pl_mem s) c is (Some d)" "chunks_rep (pl_mem s) ((d, js) # cs)" using Cons.prems by simp_all
  obtain s1 where s1: "remove_all_loop ix (c, 1) first s = remove_all_loop ix (c, 1 + tlen is) first s1" "pl_mem s1 = pl_mem s"
    "pl_supply s1 = pl_supply s" "given_back (pl_events s1) = given_back (pl_events s) @ item_frees (pl_mem s) (c + 1) is"
    using remove_all_items [where ix = ix, OF chunk_rep_link(1, 2) [OF r(1)] ix, where first = first] by blast
  define s2 where "s2 = (if first then emit (EvNotify (c, 0)) s1 else emit (EvFree c prop_chunk_size) (emit (EvNotify (c, 0)) s1))"
  have "remove_all_loop ix (c, 1 + tlen is) first s1 = remove_all_loop ix (d, 1) False s2"
    using chunk_rep_link(3-5) [OF r(1)] s1(2) by (subst remove_all_loop.simps) (simp add: Let_def s2_def)
  moreover have s2: "pl_mem s2 = pl_mem s" "pl_supply s2 = pl_supply s"
    "given_back (pl_events s2) = given_back (pl_events s) @ item_frees (pl_mem s) (c + 1) is @ (if first then [] else [(c, prop_chunk_size)])"
    using s1 by (simp_all add: s2_def)
  moreover obtain p first' s' where "remove_all_loop ix (d, 1) False s2 = Some (Inr (p, first'), s')" "pl_mem s' = pl_mem s2"
    "pl_supply s' = pl_supply s2" "given_back (pl_events s') @ (if first' then [] else [(fst p, prop_chunk_size)]) =
      given_back (pl_events s2) @ list_frees (pl_mem s2) False ((d, js) # cs)"
    using Cons.IH [of s2 d js False] r(2) s2(1) by auto
  ultimately show ?case using s1(1) x by (auto split: if_splits)
qed

lemma remove_all_properties_ok:
  assumes st: "pl_state U (pl_mem s) cs M" and c: "c = fst (hd cs)" and ix: "\<forall>i p. ix i p None = None"
  shows "\<exists>s'. remove_all_properties ix c s = Some (Inr (), s') \<and> pl_state U (pl_mem s') [(c, [])] Map.empty \<and>
    given_back (pl_events s') = given_back (pl_events s) @ list_frees (pl_mem s) True cs"
proof -
  have ch: "chunks_rep (pl_mem s) cs" using st by (simp add: pl_state_def wf_list_def)
  then obtain "is" cs' where cs: "cs = (c, is) # cs'" using c by (cases cs) (auto simp: prod_eq_iff)
  obtain p first s1 where l: "remove_all_loop ix (c, 1) True s = Some (Inr (p, first), s1)" "pl_mem s1 = pl_mem s"
    "pl_supply s1 = pl_supply s"
    "given_back (pl_events s1) @ (if first then [] else [(fst p, prop_chunk_size)]) = given_back (pl_events s) @ list_frees (pl_mem s) True cs"
    using remove_all_list [where ix = ix, OF ch [unfolded cs] ix, where first = True] unfolding cs by blast
  define s2 where "s2 = (if first then emit (EvNotify (fst p, 0)) s1
    else emit (EvFree (fst p) prop_chunk_size) (emit (EvNotify (fst p, 0)) s1))"
  let ?s = "tx_write8 (c + 1) (of_nat p_end) s2"
  have run: "remove_all_properties ix c s = Some (Inr (), ?s)"
    using l(1) by (simp add: remove_all_properties_def Let_def s2_def)
  have m: "pl_mem ?s = (pl_mem s)(c + 1 := of_nat p_end)"
    using l(2) by (simp add: tx_write8_def write_one s2_def)
  have e: "given_back (pl_events ?s) = given_back (pl_events s) @ list_frees (pl_mem s) True cs"
    using l(4) by (auto simp: tx_write8_def store_def s2_def split: if_splits)
  have "chunk_rep (pl_mem s) c is (next_chunk cs')" using ch chunks_rep_mid [of _ "[]"] unfolding cs by simp
  then have "9 \<le> unat (pl_mem s c)" by (simp add: chunk_rep_def)
  then have "chunk_rep (pl_mem ?s) c [] None" using p_end_byte [of "pl_mem s" c 1] unfolding m by (simp add: chunk_rep_def)
  moreover have "region (pl_mem ?s) c \<subseteq> all_regions (pl_mem s) cs"
    unfolding m by (auto simp: region_def all_regions_def cs)
  then have "region (pl_mem ?s) c \<subseteq> U" using st unfolding pl_state_def by blast
  moreover have "8 \<le> c" using st by (simp add: pl_state_def cs)
  ultimately have "pl_state U (pl_mem ?s) [(c, [])] Map.empty"
    by (simp add: pl_state_def wf_list_def apart_def all_regions_def)
  then show ?thesis using run e by blast
qed

section \<open>The properties\<close>

text \<open>A list in one chunk at address 100 with no properties, and an index that accepts everything.\<close>

definition ex_mem :: mem where
  "ex_mem = (\<lambda>_. 0)(100 := 63, 101 := of_nat p_end)"

definition ex_plst :: plst where
  "ex_plst = \<lparr>pl_mem = ex_mem, pl_events = [], pl_supply = [1000, 2000]\<rparr>"

definition no_index :: index_fails where
  "no_index i p v = None"

lemma ex_state: "pl_state {100..163} (pl_mem ex_plst) [(100, [])] Map.empty"
  by (auto simp: pl_state_def wf_list_def apart_def all_regions_def region_def chunk_rep_def ptype_def type_size_def
      ex_plst_def ex_mem_def p_end_def)

text \<open>
  C3. After \<open>set_property\<close> the list holds the new value under the id and is otherwise the map it was:
  every value can be stored and read back, whatever its type, whether it replaces another, fits
  into a gap or needs a new chunk, and no byte outside the list and the new blocks changes.
\<close>

theorem set_property_correct:
  assumes "pl_state U (pl_mem s) cs M" "fst (hd cs) = c" "\<forall>p. ix i p (Some v) = None"
    "supply_ok U (max 64 (blob_len v)) (pl_supply s)" "blob_len v < 2 ^ 32"
  shows "stored U s c (M(i \<mapsto> v)) (set_property ix i v c s) \<and>
    (\<exists>s'. set_property ix i v c s = Some (Inr (), s') \<and> get_property (pl_mem s') i c = Some (Inr v) \<and>
      (\<forall>j. j \<noteq> i \<longrightarrow> get_property (pl_mem s') j c = get_property (pl_mem s) j c))"
proof -
  have st: "stored U s c (M(i \<mapsto> v)) (set_property ix i v c s)" using set_property_ok assms by blast
  then obtain s' cs' U' where s': "set_property ix i v c s = Some (Inr (), s')" "pl_state U' (pl_mem s') cs' (M(i \<mapsto> v))"
    "c = fst (hd cs')" unfolding stored_def by blast
  note old = get_in_state [OF assms(1) assms(2) [symmetric]] and new = get_in_state [OF s'(2, 3)]
  show ?thesis using st s'(1) old new by simp
qed

lemma set_property_correct_witness:
  "stored {100..163} ex_plst 100 (Map.empty(7 \<mapsto> StrV (replicate 20 65)))
     (set_property no_index 7 (StrV (replicate 20 65)) 100 ex_plst) \<and>
   (\<exists>s'. set_property no_index 7 (StrV (replicate 20 65)) 100 ex_plst = Some (Inr (), s') \<and>
     get_property (pl_mem s') 7 100 = Some (Inr (StrV (replicate 20 65))) \<and>
     (\<forall>j. j \<noteq> 7 \<longrightarrow> get_property (pl_mem s') j 100 = get_property (pl_mem ex_plst) j 100))"
  by (rule set_property_correct [OF ex_state])
    (auto simp: no_index_def supply_ok_def blob_len_def ex_plst_def)

text \<open>
  C12. On a well-formed list, and with an index that accepts the removal, \<open>remove_property\<close> returns,
  deletes the id from the map of the list, or does nothing if it is not there, and keeps every other
  property; nothing is allocated and no byte outside the list changes.
\<close>

theorem remove_property_correct:
  assumes "pl_state U (pl_mem s) cs M" "fst (hd cs) = c" "\<forall>p. ix i p None = None"
  shows "\<exists>s' cs'. remove_property ix i c s = Some (Inr (), s') \<and> pl_state U (pl_mem s') cs' (M(i := None)) \<and>
    fst (hd cs') = c \<and> pl_supply s' = pl_supply s \<and> (\<forall>x. x \<notin> U \<longrightarrow> pl_mem s' x = pl_mem s x) \<and>
    get_property (pl_mem s') i c = Some (Inl PropertyNotFound)"
proof -
  obtain s' cs' where s': "remove_property ix i c s = Some (Inr (), s')" "pl_state U (pl_mem s') cs' (M(i := None))"
    "fst (hd cs') = c" "pl_supply s' = pl_supply s" "\<forall>x. x \<notin> U \<longrightarrow> pl_mem s' x = pl_mem s x"
    using remove_property_ok [OF assms(1) assms(2) [symmetric], of ix i] assms(3) by blast
  then show ?thesis using get_in_state [OF s'(2) s'(3) [symmetric], of i] by auto
qed

lemma remove_property_correct_witness:
  "\<exists>s' cs'. remove_property no_index 7 100 ex_plst = Some (Inr (), s') \<and> pl_state {100..163} (pl_mem s') cs' (Map.empty(7 := None)) \<and>
    fst (hd cs') = 100 \<and> pl_supply s' = pl_supply ex_plst \<and> (\<forall>x. x \<notin> {100..163} \<longrightarrow> pl_mem s' x = pl_mem ex_plst x) \<and>
    get_property (pl_mem s') 7 100 = Some (Inl PropertyNotFound)"
  by (rule remove_property_correct [OF ex_state]) (simp_all add: no_index_def)

text \<open>
  The operations below return on every well-formed list, whatever the index does and however little
  memory there is.
\<close>

theorem property_operations_return:
  assumes "pl_state U (pl_mem s) cs M" "fst (hd cs) = c"
  shows "set_property ix i v c s \<noteq> None \<and> remove_property ix i c s \<noteq> None \<and> check_property (pl_mem s) i c \<noteq> None \<and>
    get_property (pl_mem s) i c \<noteq> None \<and> iter_new (pl_mem s) c \<noteq> None"
proof -
  note st = assms(1) and c = assms(2) [symmetric]
  have f: "find_property (pl_mem s) i c None \<noteq> None"
    by (rule find_in_state [OF st c, of i False "new_space 0"]) (simp_all add: find_property_def)
  have ch: "chunks_rep (pl_mem s) cs" using st by (simp add: pl_state_def wf_list_def)
  then obtain "is" cs' where "cs = [] @ (c, [] @ is) # cs'" using c by (cases cs) (auto simp: prod_eq_iff)
  from skip_to_next_returns [OF ch this] have "skip_to_next (pl_mem s) (c, 1) \<noteq> None" by simp
  then show ?thesis
    using f set_property_returns [OF st c]
    by (auto simp: remove_property_def check_property_def get_property_def iter_new_def index_update_def Let_def
        split: option.splits bool.splits sum.splits)
qed

lemma property_operations_return_witness:
  "set_property (\<lambda>i p v. Some BadAlloc) 7 NoValue 100 ex_plst \<noteq> None \<and> remove_property (\<lambda>i p v. Some BadAlloc) 7 100 ex_plst \<noteq> None \<and>
    check_property (pl_mem ex_plst) 7 100 \<noteq> None \<and> get_property (pl_mem ex_plst) 7 100 \<noteq> None \<and> iter_new (pl_mem ex_plst) 100 \<noteq> None"
  by (rule property_operations_return [OF ex_state]) simp

text \<open>
  C19. A stored value is of the type it was stored with: the accessor of that type returns it, each
  of the others throws \<open>PropertyTypeMismatch\<close>.
\<close>

theorem stored_value_types:
  assumes "pl_state U m cs M" "fst (hd cs) = c" "M i = Some v"
  shows "\<exists>p sp. find_property m i c None = Some (True, p, sp) \<and>
    bool_value m p = (case v of BoolV b \<Rightarrow> Inr b | _ \<Rightarrow> Inl PropertyTypeMismatch) \<and>
    int_value m p = (case v of IntV w \<Rightarrow> Inr w | _ \<Rightarrow> Inl PropertyTypeMismatch) \<and>
    string_value m p = (case v of StrV bs \<Rightarrow> Inr bs | _ \<Rightarrow> Inl PropertyTypeMismatch) \<and>
    float_value m p = (case v of FloatV d \<Rightarrow> Inr d | _ \<Rightarrow> Inl PropertyTypeMismatch) \<and>
    time_value m p = (case v of TimeV t \<Rightarrow> Inr t | _ \<Rightarrow> Inl PropertyTypeMismatch) \<and>
    blob_value m p = (case v of BlobV bs \<Rightarrow> Inr bs | _ \<Rightarrow> Inl PropertyTypeMismatch)"
proof -
  obtain p sp a where p: "find_property m i c None = Some (True, p, sp)" "get_value m p = Inr v"
    "ptype m p = fst (encode_value v a)" using find_value [OF assms(1) assms(2) [symmetric] assms(3)] by blast
  show ?thesis using p(1) accessors_of_value [OF p(2, 3)] by blast
qed

text \<open>The same list with the property 7 set to \<open>true\<close>.\<close>

definition ex_mem_true :: mem where
  "ex_mem_true = (\<lambda>_. 0)(100 := 63, 101 := 0x25, 102 := 7, 104 := of_nat p_end)"

lemma ex_true_state:
  "pl_state {100..163} ex_mem_true [(100, [Prop 7 p_boolean_true []])] (Map.empty(7 \<mapsto> BoolV True))"
proof -
  have "item_at ex_mem_true (100 + 1) (Prop 7 p_boolean_true [])" "ptype ex_mem_true (100, 1 + 3) = p_end"
    and e: "unat (ex_mem_true 100) = 63" by code_simp+
  then have "chunk_rep ex_mem_true 100 [Prop 7 p_boolean_true []] None"
    unfolding chunk_rep_def by (simp del: item_at.simps)
  moreover have "entry_ok {100..163} ex_mem_true [(100, [Prop 7 p_boolean_true []])] (Map.empty(7 \<mapsto> BoolV True)) (7, p_boolean_true, [])"
    unfolding entry_ok_def by (intro exI [of _ "BoolV True"] exI [of _ 0]) (simp add: blob_stored_def blob_region_def)
  ultimately show ?thesis
    using e by (simp add: pl_state_def wf_list_def apart_def all_regions_def region_def)
qed

lemma stored_value_types_witness:
  "\<exists>p sp. find_property ex_mem_true 7 100 None = Some (True, p, sp) \<and>
    bool_value ex_mem_true p = (case BoolV True of BoolV b \<Rightarrow> Inr b | _ \<Rightarrow> Inl PropertyTypeMismatch) \<and>
    int_value ex_mem_true p = (case BoolV True of IntV w \<Rightarrow> Inr w | _ \<Rightarrow> Inl PropertyTypeMismatch) \<and>
    string_value ex_mem_true p = (case BoolV True of StrV bs \<Rightarrow> Inr bs | _ \<Rightarrow> Inl PropertyTypeMismatch) \<and>
    float_value ex_mem_true p = (case BoolV True of FloatV d \<Rightarrow> Inr d | _ \<Rightarrow> Inl PropertyTypeMismatch) \<and>
    time_value ex_mem_true p = (case BoolV True of TimeV t \<Rightarrow> Inr t | _ \<Rightarrow> Inl PropertyTypeMismatch) \<and>
    blob_value ex_mem_true p = (case BoolV True of BlobV bs \<Rightarrow> Inr bs | _ \<Rightarrow> Inl PropertyTypeMismatch)"
  by (rule stored_value_types [OF ex_true_state]) simp_all

text \<open>
  \<open>get_int_len\<close> is the least number of bytes that holds the integer in two's complement, and at
  most eight, for every 64-bit value, the most negative one included.
\<close>

theorem int_len_least:
  shows "get_int_len v = (LEAST k. 1 \<le> k \<and> - (2 ^ (8 * k - 1)) \<le> sint v \<and> sint v < 2 ^ (8 * k - 1)) \<and> get_int_len v \<le> 8"
proof -
  have "(LEAST k. 1 \<le> k \<and> - (2 ^ (8 * k - 1)) \<le> sint v \<and> sint v < 2 ^ (8 * k - 1)) = get_int_len v"
    by (rule Least_equality) (use get_int_len_ok [of v] get_int_len_minimal in blast)+
  then show ?thesis using get_int_len_ok(2) [of v] by simp
qed

text \<open>
  C5. \<open>set_property\<close> stores only to bytes that it has logged before or that it has just allocated, in
  every case, the failing ones included: aborting the transaction restores the list.
\<close>

theorem set_property_logged:
  assumes "pl_state U (pl_mem s) cs M" "fst (hd cs) = c" "fresh_block U (pl_supply s)"
    "set_property ix i v c s = Some (r, s')"
  shows "\<exists>es. pl_events s' = pl_events s @ es \<and> covered {} es"
proof -
  have "logs {} s {} s'" by (rule logs_set_property [OF assms(1) assms(2) [symmetric] assms(3, 4)])
  then show ?thesis unfolding logs_def by blast
qed

lemma set_property_logged_witness:
  "\<exists>r s' es. set_property no_index 7 (IntV 5) 100 ex_plst = Some (r, s') \<and> pl_events s' = pl_events ex_plst @ es \<and> covered {} es"
proof -
  obtain r s' where run: "set_property no_index 7 (IntV 5) 100 ex_plst = Some (r, s')"
    using set_property_returns [OF ex_state, of 100 no_index 7 "IntV 5"] by auto
  have "\<exists>es. pl_events s' = pl_events ex_plst @ es \<and> covered {} es"
    by (rule set_property_logged [OF ex_state _ _ run]) (simp_all add: fresh_block_def ex_plst_def)
  then show ?thesis using run by blast
qed

text \<open>
  C22. On a well-formed list, and with an index that accepts every removal, \<open>remove_all_properties\<close>
  returns, leaves an empty list in the first chunk, and gives back the block of each long string and
  blob and each further chunk exactly once, in the order of the list.
\<close>

theorem remove_all_properties_correct:
  assumes "pl_state U (pl_mem s) cs M" "fst (hd cs) = c" "\<forall>i p. ix i p None = None"
  shows "\<exists>s'. remove_all_properties ix c s = Some (Inr (), s') \<and> pl_state U (pl_mem s') [(c, [])] Map.empty \<and>
    given_back (pl_events s') = given_back (pl_events s) @ list_frees (pl_mem s) True cs"
  by (rule remove_all_properties_ok [where ix = ix, OF assms(1) assms(2) [symmetric] assms(3)])

lemma remove_all_properties_correct_witness:
  "\<exists>s'. remove_all_properties no_index 100 ex_plst = Some (Inr (), s') \<and> pl_state {100..163} (pl_mem s') [(100, [])] Map.empty \<and>
    given_back (pl_events s') = given_back (pl_events ex_plst) @ list_frees (pl_mem ex_plst) True [(100, [])]"
  by (rule remove_all_properties_correct [OF ex_state]) (simp_all add: no_index_def)

text \<open>
  Removing a property makes an iterator that stands at another property of the same chunk
  unusable: its reference throws \<open>VacantIterator\<close> although its property is still there, and \<open>next\<close>
  returns that same property once more instead of the one after it.
\<close>

theorem notify_confuses_iterator:
  assumes "fst p = fst (it_cur it)" "snd p \<noteq> 0" "snd p \<noteq> snd (it_cur it)" "fst (it_cur it) \<noteq> 0"
  shows "\<exists>it' it''. iter_notify m p it = Some it' \<and> iter_valid it' \<and> iter_ref it' = Inl VacantIterator \<and>
    iter_next m it' = Some (True, it'') \<and> it_cur it'' = it_cur it \<and> iter_ref it'' = Inr (it_cur it)"
  using assms by (simp add: iter_notify_def iter_ref_def iter_next_def iter_valid_def)

lemma notify_confuses_iterator_witness:
  "\<exists>it' it''. iter_notify ex_mem_true (100, 4) \<lparr>it_cur = (100, 1), it_vacant = False\<rparr> = Some it' \<and> iter_valid it' \<and>
    iter_ref it' = Inl VacantIterator \<and> iter_next ex_mem_true it' = Some (True, it'') \<and>
    it_cur it'' = it_cur \<lparr>it_cur = (100, 1), it_vacant = False\<rparr> \<and> iter_ref it'' = Inr (it_cur \<lparr>it_cur = (100, 1), it_vacant = False\<rparr>)"
  by (rule notify_confuses_iterator) simp_all

end
