(* ===== verification/Block_Store.thy ===== *)
theory Block_Store
  imports Pmgd_Prelude
begin

text \<open>
  The interface of the allocators: \<open>FixedAllocator\<close> and the chunks of \<open>FixSizeAllocator\<close> and
  \<open>VariableAllocator\<close> provide it, the graph's data structures rely on it.
\<close>

text \<open>
  What the clients of an allocator rely on. \<open>live\<close> are the blocks that are allocated, \<open>extent\<close> the
  addresses of a block, and a request \<open>r\<close> is answered with a block or refused. A new block overlaps
  no live one, and a freed block is the only one that ceases to live.
\<close>

locale block_store =
  fixes ok :: "'s \<Rightarrow> bool"
    and live :: "'s \<Rightarrow> 'b set"
    and extent :: "'b \<Rightarrow> nat set"
    and alloc :: "'r \<Rightarrow> 's \<Rightarrow> 'b option \<times> 's"
    and release :: "'b \<Rightarrow> 's \<Rightarrow> 's"
  assumes alloc_Some: "ok s \<Longrightarrow> alloc r s = (Some a, s') \<Longrightarrow>
      ok s' \<and> live s' = insert a (live s) \<and> extent a \<noteq> {} \<and> (\<forall>x\<in>live s. extent a \<inter> extent x = {})"
    and alloc_None: "ok s \<Longrightarrow> alloc r s = (None, s') \<Longrightarrow> ok s' \<and> live s' = live s"
    and release_live: "ok s \<Longrightarrow> a \<in> live s \<Longrightarrow> ok (release a s) \<and> live (release a s) = live s - {a}"
begin

definition apart_blocks :: "'s \<Rightarrow> bool" where
  "apart_blocks s \<longleftrightarrow> (\<forall>x\<in>live s. \<forall>y\<in>live s. x \<noteq> y \<longrightarrow> extent x \<inter> extent y = {})"

lemma alloc_new: "ok s \<Longrightarrow> alloc r s = (Some a, s') \<Longrightarrow> a \<notin> live s"
  using alloc_Some [of s r a s'] by blast

text \<open>One call: a request, or the release of a block if it is live.\<close>

definition call :: "'r + 'b \<Rightarrow> 's \<Rightarrow> 's" where
  "call c s = (case c of Inl r \<Rightarrow> snd (alloc r s) | Inr a \<Rightarrow> if a \<in> live s then release a s else s)"

lemma call_ok: "ok s \<Longrightarrow> apart_blocks s \<Longrightarrow> ok (call c s) \<and> apart_blocks (call c s)"
proof (cases c)
  case (Inl r)
  assume s: "ok s" "apart_blocks s"
  obtain b s' where a: "alloc r s = (b, s')" by fastforce
  show ?thesis
  proof (cases b)
    case None
    then show ?thesis using alloc_None [OF s(1)] a s(2) Inl by (simp add: call_def apart_blocks_def)
  next
    case (Some x)
    note new = alloc_Some [OF s(1) a [unfolded Some]]
    have "apart_blocks s'"
      unfolding apart_blocks_def
    proof (intro ballI impI)
      fix y z assume yz: "y \<in> live s'" "z \<in> live s'" "y \<noteq> z"
      then have "(y = x \<and> z \<in> live s) \<or> (z = x \<and> y \<in> live s) \<or> (y \<in> live s \<and> z \<in> live s)" using new by auto
      then show "extent y \<inter> extent z = {}" using new s(2) yz(3) unfolding apart_blocks_def by blast
    qed
    then show ?thesis using new Inl a by (simp add: call_def)
  qed
next
  case (Inr a)
  assume "ok s" "apart_blocks s"
  then show ?thesis using release_live Inr by (auto simp: call_def apart_blocks_def)
qed

lemma run_ok: "ok s \<Longrightarrow> apart_blocks s \<Longrightarrow> ok (fold call cs s) \<and> apart_blocks (fold call cs s)"
proof (induction cs arbitrary: s)
  case (Cons c cs)
  then show ?case using call_ok [of s c] by simp
qed simp

text \<open>A block stays live, and so keeps its addresses to itself, until it is released.\<close>

lemma run_live: "ok s \<Longrightarrow> apart_blocks s \<Longrightarrow> x \<in> live s \<Longrightarrow> Inr x \<notin> set cs \<Longrightarrow> x \<in> live (fold call cs s)"
proof (induction cs arbitrary: s)
  case (Cons c cs)
  have "x \<in> live (call c s)"
  proof (cases c)
    case (Inl r)
    obtain b s' where a: "alloc r s = (b, s')" by fastforce
    show ?thesis
      using alloc_None [OF Cons.prems(1)] alloc_Some [OF Cons.prems(1)] a Inl Cons.prems(3)
      by (cases b) (auto simp: call_def)
  next
    case (Inr a)
    then show ?thesis using release_live [OF Cons.prems(1)] Cons.prems(3, 4) by (auto simp: call_def)
  qed
  then show ?case using Cons.IH [of "call c s"] call_ok Cons.prems by simp
qed simp

end

end
