(* ===== verification/Fix_Size_Allocator.thy ===== *)
theory Fix_Size_Allocator
  imports Block_Store
begin

text \<open>
  \<open>src/FixSizeAllocator.cc\<close>: blocks of one of six sizes in 4 KB chunks. A chunk has a bitmap of its
  spots (\<open>FixedChunk\<close>); the allocator keeps the chunks in a list in persistent memory and the set of
  those with free spots in DRAM. The 4 KB chunks come from \<open>FlexFixedAllocator\<close>: the addresses that
  it returns next are a list in the state. Which element \<open>begin()\<close> of the unordered set is, is an
  argument \<open>pick\<close>.
\<close>

section \<open>Layout of a chunk\<close>

definition SMALL_CHUNK_SIZE :: nat where
  "SMALL_CHUNK_SIZE = 4096"

definition fixed_sizes :: "nat list" where
  "fixed_sizes = [16, 24, 32, 40, 48, 64]"

text \<open>\<open>ALLOC_OFFSET\<close>: the header of 24 bytes and the bitmap; the mask is meant for powers of two.\<close>

definition fs_offset :: "nat \<Rightarrow> nat \<Rightarrow> nat" where
  "fs_offset ints sz = unat ((word_of_nat (24 + ints * 4 + sz - 1) :: u64) AND ucast (NOT (word_of_nat (sz - 1) :: u32)))"

definition bitmap_ints :: "nat \<Rightarrow> nat" where
  "bitmap_ints sz = (let bits = sz * 32 in (SMALL_CHUNK_SIZE + bits - 1) div bits)"

definition max_spots :: "nat \<Rightarrow> nat" where
  "max_spots sz = (SMALL_CHUNK_SIZE - fs_offset (bitmap_ints sz) sz) div sz"

text \<open>
  For each of the six sizes, the spots lie between the bitmap and the end of the chunk, and the bitmap
  has a bit behind the last spot.
\<close>

lemma fixed_layout:
  assumes "sz \<in> set fixed_sizes"
  shows "max_spots sz < 32 * bitmap_ints sz" "20 + 4 * bitmap_ints sz \<le> fs_offset (bitmap_ints sz) sz"
    "fs_offset (bitmap_ints sz) sz + max_spots sz * sz \<le> SMALL_CHUNK_SIZE" "0 < sz" "0 < max_spots sz" "max_spots sz < 2 ^ 32"
proof -
  have "\<forall>sz\<in>set fixed_sizes. max_spots sz < 32 * bitmap_ints sz \<and>
      20 + 4 * bitmap_ints sz \<le> fs_offset (bitmap_ints sz) sz \<and>
      fs_offset (bitmap_ints sz) sz + max_spots sz * sz \<le> SMALL_CHUNK_SIZE \<and> 0 < sz \<and> 0 < max_spots sz \<and> max_spots sz < 2 ^ 32"
    by (simp add: fixed_sizes_def max_spots_def bitmap_ints_def fs_offset_def SMALL_CHUNK_SIZE_def)
  then show "max_spots sz < 32 * bitmap_ints sz" "20 + 4 * bitmap_ints sz \<le> fs_offset (bitmap_ints sz) sz"
    "fs_offset (bitmap_ints sz) sz + max_spots sz * sz \<le> SMALL_CHUNK_SIZE" "0 < sz" "0 < max_spots sz" "max_spots sz < 2 ^ 32"
    using assms by blast+
qed

section \<open>FixedChunk\<close>

record fchunk =
  fc_next :: addr
  fc_id :: u32
  fc_free :: u32
  fc_index :: u32
  fc_bits :: "u32 list"

definition spot_mask :: "nat \<Rightarrow> u32" where
  "spot_mask i = push_bit (i mod 32) 1"

definition taken :: "u32 list \<Rightarrow> nat \<Rightarrow> bool" where
  "taken bits i \<longleftrightarrow> bits ! (i div 32) AND spot_mask i \<noteq> 0"

definition new_fchunk :: "u32 \<Rightarrow> nat \<Rightarrow> nat \<Rightarrow> fchunk" where
  "new_fchunk alloc_id ints spots =
     (let bits = replicate ints 0; m = spots div 32
      in \<lparr>fc_next = 0, fc_id = alloc_id, fc_free = word_of_nat spots, fc_index = 0,
          fc_bits = bits[m := bits ! m OR NOT (push_bit (spots mod 32) 1 - 1)]\<rparr>)"

text \<open>
  \<open>FixedChunk::alloc\<close>: the search from \<open>next_index\<close> to \<open>max_spots\<close>, then the restart at the beginning;
  \<open>None\<close> is the assertion that a spot is found. The result is the index of the spot.
\<close>

definition find_spot :: "nat \<Rightarrow> fchunk \<Rightarrow> nat option" where
  "find_spot sz c =
     (case find (\<lambda>i. \<not> taken (fc_bits c) i) [unat (fc_index c)..<max_spots sz + 1] of
        Some i \<Rightarrow> Some i
      | None \<Rightarrow> find (\<lambda>i. \<not> taken (fc_bits c) i) [0..<bitmap_ints sz * 32])"

datatype fs_event =
    FsLogHeader addr
  | FsLogBits addr nat
  | FsInnerWrite addr
  | FsWrite addr
  | FsLogNext addr
  | FsFreeChunk addr

definition fchunk_alloc :: "nat \<Rightarrow> fchunk \<Rightarrow> (nat \<times> fchunk) option" where
  "fchunk_alloc sz c =
     (case find_spot sz c of None \<Rightarrow> None
      | Some i \<Rightarrow>
          Some (i, c\<lparr>fc_free := fc_free c - 1,
                     fc_bits := (fc_bits c)[i div 32 := fc_bits c ! (i div 32) OR spot_mask i],
                     fc_index := word_of_nat (i + 1)\<rparr>))"

definition spot_addr :: "nat \<Rightarrow> addr \<Rightarrow> nat \<Rightarrow> addr" where
  "spot_addr sz c i = c + fs_offset (bitmap_ints sz) sz + sz * i"

definition spot_of :: "nat \<Rightarrow> addr \<Rightarrow> nat" where
  "spot_of sz a = (a - (align_down SMALL_CHUNK_SIZE a + fs_offset (bitmap_ints sz) sz)) div sz"

definition fchunk_free :: "nat \<Rightarrow> nat \<Rightarrow> fchunk \<Rightarrow> fchunk" where
  "fchunk_free sz i c =
     c\<lparr>fc_bits := (fc_bits c)[i div 32 := fc_bits c ! (i div 32) AND NOT (spot_mask i)],
       fc_index := (if fc_free c = 0 then word_of_nat i else fc_index c),
       fc_free := fc_free c + 1\<rparr>"

section \<open>A chunk as a block store\<close>

definition spots :: "nat \<Rightarrow> fchunk \<Rightarrow> nat set" where
  "spots sz c = {i. i < max_spots sz \<and> taken (fc_bits c) i}"

definition fchunk_ok :: "nat \<Rightarrow> fchunk \<Rightarrow> bool" where
  "fchunk_ok sz c \<longleftrightarrow>
     sz \<in> set fixed_sizes \<and> length (fc_bits c) = bitmap_ints sz \<and>
     (\<forall>i. max_spots sz \<le> i \<longrightarrow> i < bitmap_ints sz * 32 \<longrightarrow> taken (fc_bits c) i) \<and>
     unat (fc_free c) + card (spots sz c) = max_spots sz"

lemma finite_spots [simp]: "finite (spots sz c)"
  by (simp add: spots_def)

lemma taken_iff: "taken bits i \<longleftrightarrow> bit (bits ! (i div 32)) (i mod 32)"
proof -
  have "bits ! (i div 32) AND push_bit (i mod 32) 1 \<noteq> 0 \<longleftrightarrow> bit (bits ! (i div 32)) (i mod 32)"
    by (auto simp: and_exp_eq_0_iff_not_bit push_bit_of_1)
  then show ?thesis by (simp add: taken_def spot_mask_def)
qed

lemma bit_spot_mask: "k < 32 \<Longrightarrow> bit (spot_mask i) k \<longleftrightarrow> k = i mod 32"
  by (auto simp: spot_mask_def bit_push_bit_iff bit_1_iff push_bit_of_1 bit_exp_iff)

lemma find_SomeD: "find P xs = Some x \<Longrightarrow> x \<in> set xs \<and> P x"
  by (auto simp: find_Some_iff)

lemma div_mod_32: "i div 32 = j div 32 \<Longrightarrow> i mod 32 = j mod 32 \<Longrightarrow> i = (j :: nat)"
  by (metis div_mult_mod_eq)

lemma taken_set:
  assumes "i div 32 < length bits" "j div 32 < length bits"
  shows "taken (bits[i div 32 := bits ! (i div 32) OR spot_mask i]) j \<longleftrightarrow> j = i \<or> taken bits j"
    and "taken (bits[i div 32 := bits ! (i div 32) AND NOT (spot_mask i)]) j \<longleftrightarrow> j \<noteq> i \<and> taken bits j"
proof -
  have j: "j mod 32 < 32" by simp
  have eq: "i = j \<longleftrightarrow> i div 32 = j div 32 \<and> i mod 32 = j mod 32" using div_mod_32 by blast
  show "taken (bits[i div 32 := bits ! (i div 32) OR spot_mask i]) j \<longleftrightarrow> j = i \<or> taken bits j"
    using assms eq bit_spot_mask [OF j, of i] by (auto simp: taken_iff nth_list_update bit_or_iff)
  show "taken (bits[i div 32 := bits ! (i div 32) AND NOT (spot_mask i)]) j \<longleftrightarrow> j \<noteq> i \<and> taken bits j"
    using assms eq bit_spot_mask [OF j, of i] by (auto simp: taken_iff nth_list_update bit_and_iff bit_not_iff)
qed

lemma spot_div: "sz \<in> set fixed_sizes \<Longrightarrow> length bits = bitmap_ints sz \<Longrightarrow> i \<le> max_spots sz \<Longrightarrow> i div 32 < length bits"
  using fixed_layout(1) [of sz] by (auto simp: div_less_iff_less_mult)

lemma find_spot_ok:
  assumes ok: "fchunk_ok sz c" and free: "fc_free c \<noteq> 0"
  obtains i where "find_spot sz c = Some i" "i < max_spots sz" "\<not> taken (fc_bits c) i"
proof -
  have sz: "sz \<in> set fixed_sizes" using ok by (simp add: fchunk_ok_def)
  note lay = fixed_layout [OF sz]
  have last: "taken (fc_bits c) i" if "max_spots sz \<le> i" "i < bitmap_ints sz * 32" for i
    using ok that by (simp add: fchunk_ok_def)
  have first: "i < max_spots sz" if "\<not> taken (fc_bits c) i" "i < max_spots sz + 1" for i
    using last [of i] lay(1) that by (cases "i = max_spots sz") auto
  show ?thesis
  proof (cases "find (\<lambda>i. \<not> taken (fc_bits c) i) [unat (fc_index c)..<max_spots sz + 1]")
    case (Some i)
    from find_SomeD [OF this] have "\<not> taken (fc_bits c) i" "i < max_spots sz + 1" by (auto simp del: upt_Suc)
    then show ?thesis using that [of i] first Some by (simp add: find_spot_def)
  next
    case None
    have "0 < unat (fc_free c)" using free by (simp add: unat_gt_0)
    then have "card (spots sz c) < card {..<max_spots sz}" using ok by (simp add: fchunk_ok_def)
    then have "\<not> {..<max_spots sz} \<subseteq> spots sz c" using card_mono [OF finite_spots] by (meson linorder_not_less)
    then obtain j where "j < max_spots sz" "\<not> taken (fc_bits c) j" unfolding spots_def by blast
    then have j: "j \<in> set [0..<bitmap_ints sz * 32]" "\<not> taken (fc_bits c) j" using lay(1) by auto
    then have "find (\<lambda>i. \<not> taken (fc_bits c) i) [0..<bitmap_ints sz * 32] \<noteq> None" unfolding find_None_iff by blast
    then obtain i where f: "find (\<lambda>i. \<not> taken (fc_bits c) i) [0..<bitmap_ints sz * 32] = Some i" by blast
    from find_SomeD [OF f] have "\<not> taken (fc_bits c) i" "i < bitmap_ints sz * 32" by auto
    then show ?thesis using that [of i] last [of i] None f by (simp add: find_spot_def) (meson linorder_not_less)
  qed
qed

lemma fchunk_alloc_ok:
  assumes ok: "fchunk_ok sz c" and free: "fc_free c \<noteq> 0"
  obtains i c' where "fchunk_alloc sz c = Some (i, c')" "i < max_spots sz" "i \<notin> spots sz c" "fchunk_ok sz c'"
    "spots sz c' = insert i (spots sz c)" "fc_next c' = fc_next c" "fc_id c' = fc_id c" "fc_free c' = fc_free c - 1"
proof -
  have sz: "sz \<in> set fixed_sizes" and len: "length (fc_bits c) = bitmap_ints sz"
    and cnt: "unat (fc_free c) + card (spots sz c) = max_spots sz" using ok by (simp_all add: fchunk_ok_def)
  obtain i where i: "find_spot sz c = Some i" "i < max_spots sz" "\<not> taken (fc_bits c) i" using find_spot_ok [OF ok free] .
  define c' where "c' = c\<lparr>fc_free := fc_free c - 1,
      fc_bits := (fc_bits c)[i div 32 := fc_bits c ! (i div 32) OR spot_mask i], fc_index := word_of_nat (i + 1)\<rparr>"
  have t: "taken (fc_bits c') j \<longleftrightarrow> j = i \<or> taken (fc_bits c) j" if "j < bitmap_ints sz * 32" for j
    using taken_set(1) [of i "fc_bits c" j] that i(2) spot_div [OF sz len, of i] len
    by (simp add: c'_def less_mult_imp_div_less)
  have lim: "j < bitmap_ints sz * 32" if "j < max_spots sz" for j using fixed_layout(1) [OF sz] that by simp
  have sp: "spots sz c' = insert i (spots sz c)" using t lim i(2) by (auto simp: spots_def)
  have "i \<notin> spots sz c" using i(3) by (simp add: spots_def)
  have f: "unat (fc_free c') + 1 = unat (fc_free c)"
    using free by (simp add: c'_def unat_sub word_le_nat_alt unat_gt_0 Suc_leI)
  have "fchunk_ok sz c'"
    unfolding fchunk_ok_def
  proof (intro conjI allI impI)
    show "taken (fc_bits c') j" if "max_spots sz \<le> j" "j < bitmap_ints sz * 32" for j
      using ok that t [OF that(2)] by (simp add: fchunk_ok_def)
    show "unat (fc_free c') + card (spots sz c') = max_spots sz"
      using f cnt \<open>i \<notin> spots sz c\<close> by (simp add: sp)
  qed (use sz len in \<open>simp_all add: c'_def\<close>)
  then show ?thesis
    using that [of i c'] i(1, 2) \<open>i \<notin> spots sz c\<close> sp by (simp add: fchunk_alloc_def c'_def)
qed

lemma fchunk_free_ok:
  assumes ok: "fchunk_ok sz c" and i: "i \<in> spots sz c"
  shows "fchunk_ok sz (fchunk_free sz i c)" "spots sz (fchunk_free sz i c) = spots sz c - {i}"
    "unat (fc_free (fchunk_free sz i c)) = unat (fc_free c) + 1"
proof -
  have sz: "sz \<in> set fixed_sizes" and len: "length (fc_bits c) = bitmap_ints sz"
    and cnt: "unat (fc_free c) + card (spots sz c) = max_spots sz" using ok by (simp_all add: fchunk_ok_def)
  have im: "i < max_spots sz" using i by (simp add: spots_def)
  let ?c = "fchunk_free sz i c"
  have t: "taken (fc_bits ?c) j \<longleftrightarrow> j \<noteq> i \<and> taken (fc_bits c) j" if "j < bitmap_ints sz * 32" for j
    using taken_set(2) [of i "fc_bits c" j] that im spot_div [OF sz len, of i] len
    by (simp add: fchunk_free_def less_mult_imp_div_less)
  have lim: "j < bitmap_ints sz * 32" if "j < max_spots sz" for j using fixed_layout(1) [OF sz] that by simp
  show sp: "spots sz ?c = spots sz c - {i}" using t lim by (auto simp: spots_def)
  have pos: "0 < card (spots sz c)" using i by (auto simp: card_gt_0_iff)
  have "unat (fc_free c) + 1 < 2 ^ 32" using cnt pos fixed_layout(6) [OF sz] by linarith
  then show f: "unat (fc_free ?c) = unat (fc_free c) + 1"
    by (simp add: fchunk_free_def unat_word_ariths)
  show "fchunk_ok sz ?c"
    unfolding fchunk_ok_def
  proof (intro conjI allI impI)
    show "taken (fc_bits ?c) j" if "max_spots sz \<le> j" "j < bitmap_ints sz * 32" for j
      using ok that t [OF that(2)] im by (simp add: fchunk_ok_def)
    show "unat (fc_free ?c) + card (spots sz ?c) = max_spots sz"
      using f cnt i pos by (simp add: sp)
  qed (use sz len in \<open>simp_all add: fchunk_free_def\<close>)
qed

text \<open>The address and the index of a spot determine each other.\<close>

lemma spot_of_addr:
  assumes "sz \<in> set fixed_sizes" "i < max_spots sz" "SMALL_CHUNK_SIZE dvd c"
  shows "spot_of sz (spot_addr sz c i) = i" "align_down SMALL_CHUNK_SIZE (spot_addr sz c i) = c"
    "{spot_addr sz c i..<spot_addr sz c i + sz} \<subseteq> {c + 20 + 4 * bitmap_ints sz..<c + SMALL_CHUNK_SIZE}"
proof -
  note lay = fixed_layout [OF assms(1)]
  have "Suc i * sz \<le> max_spots sz * sz" using assms(2) by (intro mult_le_mono1) simp
  then have top: "fs_offset (bitmap_ints sz) sz + sz * i + sz \<le> SMALL_CHUNK_SIZE" using lay(3) by (simp add: mult.commute)
  then have lt: "fs_offset (bitmap_ints sz) sz + sz * i < SMALL_CHUNK_SIZE" using lay(4) by linarith
  obtain k where k: "c = SMALL_CHUNK_SIZE * k" using assms(3) by blast
  show al: "align_down SMALL_CHUNK_SIZE (spot_addr sz c i) = c"
    using lt by (simp add: align_down_def spot_addr_def k add.assoc SMALL_CHUNK_SIZE_def)
  show "spot_of sz (spot_addr sz c i) = i" unfolding spot_of_def al using lay(4) by (simp add: spot_addr_def)
  show "{spot_addr sz c i..<spot_addr sz c i + sz} \<subseteq> {c + 20 + 4 * bitmap_ints sz..<c + SMALL_CHUNK_SIZE}"
    using top lay(2) by (auto simp: spot_addr_def)
qed

lemma spots_apart: "i \<noteq> j \<Longrightarrow> {spot_addr sz c i..<spot_addr sz c i + sz} \<inter> {spot_addr sz c j..<spot_addr sz c j + sz} = {}"
proof -
  assume "i \<noteq> j"
  then consider "Suc i \<le> j" | "Suc j \<le> i" by linarith
  then have "spot_addr sz c i + sz \<le> spot_addr sz c j \<or> spot_addr sz c j + sz \<le> spot_addr sz c i"
  proof cases
    case 1
    then have "sz * Suc i \<le> sz * j" by (rule mult_le_mono2)
    then show ?thesis by (simp add: spot_addr_def)
  next
    case 2
    then have "sz * Suc j \<le> sz * i" by (rule mult_le_mono2)
    then show ?thesis by (simp add: spot_addr_def)
  qed
  then show ?thesis by auto
qed

definition fchunk_request :: "nat \<Rightarrow> unit \<Rightarrow> fchunk \<Rightarrow> nat option \<times> fchunk" where
  "fchunk_request sz r c =
     (if fc_free c = 0 then (None, c)
      else case fchunk_alloc sz c of None \<Rightarrow> (None, c) | Some (i, c') \<Rightarrow> (Some i, c'))"

interpretation fixed_chunk: block_store "fchunk_ok sz" "spots sz" "\<lambda>i. {spot_addr sz c i..<spot_addr sz c i + sz}"
    "fchunk_request sz" "fchunk_free sz"
  for sz c
proof
  fix s r i s'
  assume a: "fchunk_ok sz s" "fchunk_request sz r s = (Some i, s')"
  then have f: "fc_free s \<noteq> 0" by (auto simp: fchunk_request_def split: if_splits)
  have "sz \<in> set fixed_sizes" using a(1) by (simp add: fchunk_ok_def)
  then have "0 < sz" by (rule fixed_layout(4))
  obtain j c' where j: "fchunk_alloc sz s = Some (j, c')" "j \<notin> spots sz s" "fchunk_ok sz c'" "spots sz c' = insert j (spots sz s)"
    using fchunk_alloc_ok [OF a(1) f] by metis
  then have "j = i" "c' = s'" using a(2) f by (simp_all add: fchunk_request_def)
  moreover have "{spot_addr sz c j..<spot_addr sz c j + sz} \<inter> {spot_addr sz c x..<spot_addr sz c x + sz} = {}" if "x \<in> spots sz s" for x
    using spots_apart [of j x sz c] j(2) that by blast
  ultimately show "fchunk_ok sz s' \<and> spots sz s' = insert i (spots sz s) \<and> {spot_addr sz c i..<spot_addr sz c i + sz} \<noteq> {} \<and>
      (\<forall>x\<in>spots sz s. {spot_addr sz c i..<spot_addr sz c i + sz} \<inter> {spot_addr sz c x..<spot_addr sz c x + sz} = {})"
    using j \<open>0 < sz\<close> by simp
next
  fix s r s'
  assume a: "fchunk_ok sz s" "fchunk_request sz r s = (None, s')"
  then show "fchunk_ok sz s' \<and> spots sz s' = spots sz s"
    by (auto simp: fchunk_request_def split: if_splits option.splits)
next
  fix s i
  assume "fchunk_ok sz s" "i \<in> spots sz s"
  then show "fchunk_ok sz (fchunk_free sz i s) \<and> spots sz (fchunk_free sz i s) = spots sz s - {i}"
    by (simp add: fchunk_free_ok)
qed

text \<open>The constructor marks exactly the bits behind the last spot.\<close>

lemma last_word: "sz \<in> set fixed_sizes \<Longrightarrow> Suc (max_spots sz div 32) = bitmap_ints sz"
proof -
  have "\<forall>sz\<in>set fixed_sizes. Suc (max_spots sz div 32) = bitmap_ints sz"
    by (simp add: fixed_sizes_def max_spots_def bitmap_ints_def fs_offset_def SMALL_CHUNK_SIZE_def)
  then show "sz \<in> set fixed_sizes \<Longrightarrow> Suc (max_spots sz div 32) = bitmap_ints sz" by blast
qed

lemma new_fchunk_ok:
  assumes sz: "sz \<in> set fixed_sizes"
  shows "fchunk_ok sz (new_fchunk i (bitmap_ints sz) (max_spots sz))" "spots sz (new_fchunk i (bitmap_ints sz) (max_spots sz)) = {}"
proof -
  let ?c = "new_fchunk i (bitmap_ints sz) (max_spots sz)" and ?m = "max_spots sz div 32"
  note ints = last_word [OF sz]
  have m: "?m < bitmap_ints sz" using ints by simp
  have bits: "fc_bits ?c = (replicate (bitmap_ints sz) 0)[?m := NOT (push_bit (max_spots sz mod 32) 1 - 1)]"
    using m by (simp add: new_fchunk_def Let_def)
  have t: "taken (fc_bits ?c) j \<longleftrightarrow> max_spots sz \<le> j" if j: "j < bitmap_ints sz * 32" for j
  proof -
    have jm: "j div 32 \<le> ?m" using less_mult_imp_div_less [OF j] ints by linarith
    have b: "bit (NOT (push_bit (max_spots sz mod 32) 1 - 1 :: u32)) (j mod 32) \<longleftrightarrow> max_spots sz mod 32 \<le> j mod 32"
      unfolding push_bit_of_1 mask_eq_exp_minus_1 [symmetric] by (simp add: bit_not_iff bit_mask_iff linorder_not_less)
    show ?thesis
    proof (cases "j div 32 = ?m")
      case True
      then have "max_spots sz \<le> j \<longleftrightarrow> max_spots sz mod 32 \<le> j mod 32"
        using div_mult_mod_eq [of j 32] div_mult_mod_eq [of "max_spots sz" 32] by linarith
      then show ?thesis unfolding taken_iff bits using True b m by simp
    next
      case False
      then have "j div 32 < ?m" using jm by simp
      then have "j < max_spots sz" by (metis div_le_mono linorder_not_less)
      then show ?thesis unfolding taken_iff bits using False jm m by simp
    qed
  qed
  have lim: "j < bitmap_ints sz * 32" if "j < max_spots sz" for j using fixed_layout(1) [OF sz] that by simp
  show e: "spots sz ?c = {}" using t lim by (auto simp: spots_def)
  have "unat (word_of_nat (max_spots sz) :: u32) = max_spots sz"
    using fixed_layout(6) [OF sz] by (simp add: unsigned_of_nat take_bit_nat_eq_self)
  then show "fchunk_ok sz ?c" using sz t e by (simp add: fchunk_ok_def) (simp add: new_fchunk_def Let_def)
qed

text \<open>
  C16. A chunk of a fixed-size allocator is a set of spots: a new one is empty, a chunk with a free spot
  always gives one that was not in use, whatever \<open>next_index\<close> is, a full one has all its spots in use,
  and freeing a spot removes exactly it. The spots lie between the bitmap and the end of the chunk
  without overlap, and the address of a spot gives back the chunk and the index.
\<close>

theorem fixed_chunk_refines_set:
  assumes sz: "sz \<in> set fixed_sizes" and ok: "fchunk_ok sz c"
  shows "fchunk_ok sz (new_fchunk k (bitmap_ints sz) (max_spots sz)) \<and>
    spots sz (new_fchunk k (bitmap_ints sz) (max_spots sz)) = {} \<and>
    (fc_free c = 0 \<longleftrightarrow> spots sz c = {..<max_spots sz}) \<and>
    (fc_free c \<noteq> 0 \<longrightarrow> (\<exists>i c'. fchunk_alloc sz c = Some (i, c') \<and> i < max_spots sz \<and> i \<notin> spots sz c \<and>
       fchunk_ok sz c' \<and> spots sz c' = insert i (spots sz c))) \<and>
    (\<forall>i\<in>spots sz c. fchunk_ok sz (fchunk_free sz i c) \<and> spots sz (fchunk_free sz i c) = spots sz c - {i}) \<and>
    (\<forall>a i. SMALL_CHUNK_SIZE dvd a \<longrightarrow> i < max_spots sz \<longrightarrow>
       spot_of sz (spot_addr sz a i) = i \<and> align_down SMALL_CHUNK_SIZE (spot_addr sz a i) = a \<and>
       {spot_addr sz a i..<spot_addr sz a i + sz} \<subseteq> {a + 20 + 4 * bitmap_ints sz..<a + SMALL_CHUNK_SIZE} \<and>
       (\<forall>j. j \<noteq> i \<longrightarrow> {spot_addr sz a i..<spot_addr sz a i + sz} \<inter> {spot_addr sz a j..<spot_addr sz a j + sz} = {}))"
proof (intro conjI impI)
  have sub: "spots sz c \<subseteq> {..<max_spots sz}" by (auto simp: spots_def)
  have cnt: "unat (fc_free c) + card (spots sz c) = max_spots sz" using ok by (simp add: fchunk_ok_def)
  show "fc_free c = 0 \<longleftrightarrow> spots sz c = {..<max_spots sz}"
  proof
    assume "fc_free c = 0"
    then have "card (spots sz c) = card {..<max_spots sz}" using cnt by simp
    then show "spots sz c = {..<max_spots sz}" using sub card_subset_eq by blast
  next
    assume "spots sz c = {..<max_spots sz}"
    then have "unat (fc_free c) = 0" using cnt by simp
    then show "fc_free c = 0" by (simp add: unat_eq_0)
  qed
  show "\<exists>i c'. fchunk_alloc sz c = Some (i, c') \<and> i < max_spots sz \<and> i \<notin> spots sz c \<and>
       fchunk_ok sz c' \<and> spots sz c' = insert i (spots sz c)" if "fc_free c \<noteq> 0"
    using fchunk_alloc_ok [OF ok that] by metis
  show "\<forall>i\<in>spots sz c. fchunk_ok sz (fchunk_free sz i c) \<and> spots sz (fchunk_free sz i c) = spots sz c - {i}"
    using fchunk_free_ok(1, 2) [OF ok] by simp
  show "\<forall>a i. SMALL_CHUNK_SIZE dvd a \<longrightarrow> i < max_spots sz \<longrightarrow>
       spot_of sz (spot_addr sz a i) = i \<and> align_down SMALL_CHUNK_SIZE (spot_addr sz a i) = a \<and>
       {spot_addr sz a i..<spot_addr sz a i + sz} \<subseteq> {a + 20 + 4 * bitmap_ints sz..<a + SMALL_CHUNK_SIZE} \<and>
       (\<forall>j. j \<noteq> i \<longrightarrow> {spot_addr sz a i..<spot_addr sz a i + sz} \<inter> {spot_addr sz a j..<spot_addr sz a j + sz} = {})"
  proof (intro allI impI conjI)
    fix a i j assume a: "SMALL_CHUNK_SIZE dvd a" "i < max_spots sz"
    show "spot_of sz (spot_addr sz a i) = i" "align_down SMALL_CHUNK_SIZE (spot_addr sz a i) = a"
      "{spot_addr sz a i..<spot_addr sz a i + sz} \<subseteq> {a + 20 + 4 * bitmap_ints sz..<a + SMALL_CHUNK_SIZE}"
      by (rule spot_of_addr [OF sz a(2, 1)])+
    assume j: "j \<noteq> i"
    show "{spot_addr sz a i..<spot_addr sz a i + sz} \<inter> {spot_addr sz a j..<spot_addr sz a j + sz} = {}"
      by (rule spots_apart) (use j in simp)
  qed
qed (rule new_fchunk_ok [OF sz])+

lemma fixed_chunk_refines_set_witness:
  "\<exists>i c'. fchunk_alloc 16 (new_fchunk 0 (bitmap_ints 16) (max_spots 16)) = Some (i, c') \<and> spots 16 c' = {i}"
proof -
  have sz: "16 \<in> set fixed_sizes" by (simp add: fixed_sizes_def)
  let ?c = "new_fchunk 0 (bitmap_ints 16) (max_spots 16)"
  note all = fixed_chunk_refines_set [OF sz new_fchunk_ok(1) [OF sz, of 0], of 0]
  have "spots 16 ?c \<noteq> {..<max_spots 16}" using new_fchunk_ok(2) [OF sz, of 0] fixed_layout(5) [OF sz] by auto
  then show ?thesis using all new_fchunk_ok(2) [OF sz, of 0] by auto
qed

section \<open>FixSizeAllocator\<close>

text \<open>
  \<open>fs_chunks\<close> is persistent memory; \<open>fs_set\<close>, \<open>fs_scan\<close> and \<open>fs_last\<close> are \<open>_free_chunks\<close>, \<open>_chunk_to_scan\<close>
  and \<open>_last_chunk_scanned\<close>; \<open>fs_fix\<close> is the map of the transaction's \<open>AllocatorAbortCallback\<close>. The null
  pointer is 0.
\<close>

record fsa =
  fs_start :: addr
  fs_chunks :: "addr \<Rightarrow> fchunk"
  fs_set :: "addr set"
  fs_scan :: addr
  fs_last :: addr
  fs_supply :: "addr list"
  fs_fix :: "addr \<Rightarrow> bool option"
  fs_events :: "fs_event list"

definition fs_emit :: "fs_event list \<Rightarrow> fsa \<Rightarrow> fsa" where
  "fs_emit es s = s\<lparr>fs_events := fs_events s @ es\<rparr>"

definition set_chunk :: "addr \<Rightarrow> fchunk \<Rightarrow> fsa \<Rightarrow> fsa" where
  "set_chunk a c s = s\<lparr>fs_chunks := (fs_chunks s)(a := c)\<rparr>"

definition fs_open :: "bool \<Rightarrow> fsa \<Rightarrow> fsa" where
  "fs_open create s =
     (let s1 = (if create then s\<lparr>fs_start := 0\<rparr> else s)
      in s1\<lparr>fs_scan := fs_start s1, fs_last := 0, fs_set := {}\<rparr>)"

text \<open>\<open>AllocatorAbortCallback::restore_dram_state\<close>: the first entry for a chunk stays.\<close>

definition restore_dram_state :: "addr \<Rightarrow> bool \<Rightarrow> fsa \<Rightarrow> fsa" where
  "restore_dram_state a remove s =
     (if fs_fix s a = None then s\<lparr>fs_fix := (fs_fix s)(a \<mapsto> remove)\<rparr> else s)"

text \<open>\<open>FixedChunk::alloc\<close> in its place in memory.\<close>

definition chunk_alloc :: "nat \<Rightarrow> addr \<Rightarrow> fsa \<Rightarrow> (addr \<times> fsa) option" where
  "chunk_alloc sz a s =
     (case fchunk_alloc sz (fs_chunks s a) of None \<Rightarrow> None
      | Some (i, c) \<Rightarrow> Some (spot_addr sz a i, set_chunk a c (fs_emit [FsLogHeader a, FsLogBits a (i div 32)] s)))"

text \<open>The scan of the chunks that have not been looked at since the start.\<close>

partial_function (option) scan_loop :: "nat \<Rightarrow> fsa \<Rightarrow> (addr option \<times> fsa) option" where
  "scan_loop sz s =
     (if fs_scan s = 0 then Some (None, s)
      else
        (let a = fs_scan s;
             s1 = s\<lparr>fs_last := a, fs_scan := fc_next (fs_chunks s a)\<rparr>
         in if fc_free (fs_chunks s1 a) > 0 then
              (case chunk_alloc sz a s1 of None \<Rightarrow> None
               | Some (p, s2) \<Rightarrow>
                   Some (Some p, if fc_free (fs_chunks s2 a) > 0 then s2\<lparr>fs_set := insert a (fs_set s2)\<rparr>
                                 else restore_dram_state a False s2))
            else scan_loop sz s1))"

definition add_fchunk :: "nat \<Rightarrow> u32 \<Rightarrow> addr \<Rightarrow> addr list \<Rightarrow> fsa \<Rightarrow> (addr result \<times> fsa) option" where
  "add_fchunk sz my_id d ds s =
     (let s1 = set_chunk d (new_fchunk my_id (bitmap_ints sz) (max_spots sz)) (s\<lparr>fs_supply := ds\<rparr>) in
      if fs_start s1 \<noteq> 0 \<and> fs_last s1 = 0 then None
      else
        (let s2 = (if fs_start s1 = 0 then fs_emit [FsInnerWrite 0] (s1\<lparr>fs_start := d\<rparr>)
                   else fs_emit [FsInnerWrite (fs_last s1)]
                          (set_chunk (fs_last s1) ((fs_chunks s1 (fs_last s1))\<lparr>fc_next := d\<rparr>) s1));
             s3 = s2\<lparr>fs_last := d\<rparr>
         in case chunk_alloc sz d s3 of None \<Rightarrow> None
            | Some (p, s4) \<Rightarrow> Some (Inr p, s4\<lparr>fs_set := insert d (fs_set s4)\<rparr>)))"

definition fs_alloc :: "(addr set \<Rightarrow> addr) \<Rightarrow> nat \<Rightarrow> u32 \<Rightarrow> fsa \<Rightarrow> (addr result \<times> fsa) option" where
  "fs_alloc pick sz my_id s =
     (if fs_set s \<noteq> {} then
        (let a = pick (fs_set s) in
         case chunk_alloc sz a s of None \<Rightarrow> None
         | Some (p, s1) \<Rightarrow>
             Some (Inr p, if fc_free (fs_chunks s1 a) = 0
                          then (restore_dram_state a False s1)\<lparr>fs_set := fs_set s1 - {a}\<rparr> else s1))
      else
        (case scan_loop sz s of None \<Rightarrow> None
         | Some (Some p, s1) \<Rightarrow> Some (Inr p, s1)
         | Some (None, s1) \<Rightarrow>
             (case fs_supply s1 of [] \<Rightarrow> Some (Inl BadAlloc, s1) | d # ds \<Rightarrow> add_fchunk sz my_id d ds s1)))"

text \<open>The search for a chunk in the list: whether it is there, and the chunk before it (or the last).\<close>

partial_function (option) find_prev :: "(addr \<Rightarrow> fchunk) \<Rightarrow> addr \<Rightarrow> addr \<Rightarrow> addr \<Rightarrow> (bool \<times> addr) option" where
  "find_prev m a temp prev =
     (if temp = 0 then Some (False, prev)
      else if temp = a then Some (True, prev)
      else find_prev m a (fc_next (m temp)) temp)"

definition unlink_chunk :: "addr \<Rightarrow> fsa \<Rightarrow> fsa option" where
  "unlink_chunk a s =
     (let next = fc_next (fs_chunks s a) in
      case (if fs_start s = a then Some (True, 0) else find_prev (fs_chunks s) a (fs_start s) 0) of None \<Rightarrow> None
      | Some (found, prev) \<Rightarrow>
          (let s1 = (if fs_start s = a then fs_emit [FsWrite 0] (s\<lparr>fs_start := next\<rparr>)
                     else if found then fs_emit [FsWrite prev] (set_chunk prev ((fs_chunks s prev)\<lparr>fc_next := next\<rparr>) s)
                     else s);
               s2 = (if fs_last s1 = a then s1\<lparr>fs_last := prev\<rparr> else s1)
           in Some (if fs_scan s2 = a then s2\<lparr>fs_scan := next\<rparr> else s2)))"

text \<open>The assertions of the two \<open>free\<close> functions: the address is that of a spot, and the chunk is not all free.\<close>

definition spot_valid :: "nat \<Rightarrow> addr \<Rightarrow> bool" where
  "spot_valid sz p \<longleftrightarrow>
     (let b = align_down SMALL_CHUNK_SIZE p + fs_offset (bitmap_ints sz) sz in b \<le> p \<and> (p - b) mod sz = 0)"

definition fs_free :: "nat \<Rightarrow> addr \<Rightarrow> fsa \<Rightarrow> fsa option" where
  "fs_free sz p s =
     (let a = align_down SMALL_CHUNK_SIZE p;
          space = fc_free (fs_chunks s a);
          i = spot_of sz p;
          s1 = set_chunk a (fchunk_free sz i (fs_chunks s a)) (fs_emit [FsLogHeader a, FsLogBits a (i div 32)] s)
      in if \<not> spot_valid sz p \<or> max_spots sz \<le> unat space then None
         else if unat (fc_free (fs_chunks s1 a)) = max_spots sz then
           (let s2 = (restore_dram_state a False s1)\<lparr>fs_set := fs_set s1 - {a}\<rparr>
            in map_option (fs_emit [FsLogNext a, FsFreeChunk a]) (unlink_chunk a s2))
         else if space = 0 then
           Some ((restore_dram_state a True s1)\<lparr>fs_set := insert a (fs_set s1)\<rparr>)
         else Some s1)"

text \<open>The two actions of the abort callback, after the persistent memory has been rolled back.\<close>

definition restore_dram_chunk :: "addr \<Rightarrow> fsa \<Rightarrow> fsa option" where
  "restore_dram_chunk a s =
     (let r = (if fs_start s \<noteq> 0 \<and> fs_last s = 0
               then map_option (\<lambda>x. s\<lparr>fs_last := snd x\<rparr>)
                      (find_prev (fs_chunks s) a (fc_next (fs_chunks s (fs_start s))) (fs_start s))
               else Some s)
      in map_option (\<lambda>s1. if fc_free (fs_chunks s1 a) > 0 then s1\<lparr>fs_set := insert a (fs_set s1)\<rparr> else s1) r)"

definition remove_dram_chunk :: "addr \<Rightarrow> fsa \<Rightarrow> fsa" where
  "remove_dram_chunk a s = (if fc_free (fs_chunks s a) = 0 then s\<lparr>fs_set := fs_set s - {a}\<rparr> else s)"

definition abort_step :: "addr \<times> bool \<Rightarrow> fsa option \<Rightarrow> fsa option" where
  "abort_step e r =
     (case r of None \<Rightarrow> None
      | Some s \<Rightarrow> if snd e then Some (remove_dram_chunk (fst e) s) else restore_dram_chunk (fst e) s)"

text \<open>\<open>used_bytes\<close>: the loop adds up the free spots and counts the chunks.\<close>

partial_function (option) used_loop :: "(addr \<Rightarrow> fchunk) \<Rightarrow> addr \<Rightarrow> nat \<Rightarrow> nat \<Rightarrow> (nat \<times> nat) option" where
  "used_loop m cur free n =
     (if cur = 0 then Some (free, n) else used_loop m (fc_next (m cur)) (free + unat (fc_free (m cur))) (n + 1))"

definition fs_used_bytes :: "nat \<Rightarrow> fsa \<Rightarrow> u64 option" where
  "fs_used_bytes sz s =
     map_option (\<lambda>(free, n). word_of_nat (n * SMALL_CHUNK_SIZE) - word_of_nat (free * sz)) (used_loop (fs_chunks s) (fs_start s) 0 0)"

definition fs_get_alloc_id :: "addr \<Rightarrow> fsa \<Rightarrow> u32" where
  "fs_get_alloc_id p s = fc_id (fs_chunks s (align_down SMALL_CHUNK_SIZE p))"

end
