(* ===== verification/Variable_Allocator.thy ===== *)
theory Variable_Allocator
  imports Block_Store
begin

text \<open>
  \<open>src/VariableAllocator.cc\<close>: blocks of any size in 2 MB chunks. A chunk (\<open>FreeFormChunk\<close>) chains its
  free spots through offsets; the allocator keeps the chunks as \<open>FixSizeAllocator\<close> does. Offsets and
  sizes within a chunk are naturals, \<open>free_space\<close> is a word, since it is the one field that the code
  changes without a log entry and that need not fit the others.
\<close>

section \<open>FreeFormChunk\<close>

definition CHUNK_SIZE :: nat where
  "CHUNK_SIZE = 0x200000"

definition HEADER_SIZE :: nat where
  "HEADER_SIZE = 24"

definition MIN_ALLOC_BYTES :: nat where
  "MIN_ALLOC_BYTES = 8"

record free_spot =
  sp_next :: nat
  sp_bytes :: nat

record ffchunk =
  ff_next :: addr
  ff_space :: u32
  ff_list :: nat
  ff_max :: nat
  ff_id :: u32
  ff_spots :: "nat \<Rightarrow> free_spot"

datatype ff_field = FSpace | FList | FMax | FNext | FSpot nat

datatype ff_event = FfLog addr "ff_field list" | FfStore addr ff_field | FfFlush addr

definition has_space :: "ffchunk \<Rightarrow> bool" where
  "has_space c \<longleftrightarrow> ff_max c \<ge> MIN_ALLOC_BYTES"

text \<open>The constructor; \<open>used\<close> bytes at the end of the chunk belong to a large block.\<close>

definition new_ffchunk :: "u32 \<Rightarrow> nat \<Rightarrow> ffchunk" where
  "new_ffchunk alloc_id used =
     (let space = CHUNK_SIZE - HEADER_SIZE - used
      in \<lparr>ff_next = 0, ff_space = word_of_nat space, ff_list = HEADER_SIZE, ff_max = space, ff_id = alloc_id,
          ff_spots = (\<lambda>_. \<lparr>sp_next = 0, sp_bytes = 0\<rparr>)(HEADER_SIZE := \<lparr>sp_next = 0, sp_bytes = space\<rparr>)\<rparr>)"

text \<open>The search: the spot before (\<open>None\<close>, the head of the list) and the spot. Offset 0 is the assertion.\<close>

partial_function (option) spot_search ::
    "(nat \<Rightarrow> free_spot) \<Rightarrow> nat \<Rightarrow> nat option \<Rightarrow> nat \<Rightarrow> (nat option \<times> nat) option" where
  "spot_search m sz prev off =
     (if off = 0 then None
      else if sp_bytes (m off) \<ge> sz then Some (prev, off)
      else spot_search m sz (Some off) (sp_next (m off)))"

partial_function (option) max_loop :: "(nat \<Rightarrow> free_spot) \<Rightarrow> nat \<Rightarrow> nat \<Rightarrow> nat option" where
  "max_loop m off space =
     (if off = 0 then Some space else max_loop m (sp_next (m off)) (max space (sp_bytes (m off))))"

definition find_max_cont_space :: "addr \<Rightarrow> ffchunk \<Rightarrow> (ffchunk \<times> ff_event list) option" where
  "find_max_cont_space a c =
     (case max_loop (ff_spots c) (ff_list c) 0 of None \<Rightarrow> None
      | Some space \<Rightarrow>
          Some (if ff_max c \<noteq> space then (c\<lparr>ff_max := space\<rparr>, [FfLog a [FMax], FfStore a FMax]) else (c, [])))"

text \<open>
  \<open>FreeFormChunk::alloc\<close>: the offset of the block or \<open>None\<close> for \<open>NULL\<close>; all is \<open>None\<close> when the search fails.
\<close>

definition set_next :: "nat option \<Rightarrow> nat \<Rightarrow> ffchunk \<Rightarrow> ffchunk" where
  "set_next prev n c =
     (case prev of None \<Rightarrow> c\<lparr>ff_list := n\<rparr>
      | Some p \<Rightarrow> c\<lparr>ff_spots := (ff_spots c)(p := (ff_spots c p)\<lparr>sp_next := n\<rparr>)\<rparr>)"

definition prev_field :: "nat option \<Rightarrow> ff_field" where
  "prev_field prev = (case prev of None \<Rightarrow> FList | Some p \<Rightarrow> FSpot p)"

definition ff_alloc :: "nat \<Rightarrow> addr \<Rightarrow> ffchunk \<Rightarrow> (nat option \<times> ffchunk \<times> ff_event list) option" where
  "ff_alloc sz a c =
     (if sz > ff_max c then Some (None, c, [])
      else case spot_search (ff_spots c) sz None (ff_list c) of
        None \<Rightarrow> None
      | Some (prev, off) \<Rightarrow>
          (let sz_free = sp_bytes (ff_spots c off);
               (p, c1, e1) =
                 (if sz_free - sz \<ge> MIN_ALLOC_BYTES
                  then (off + (sz_free - sz),
                        c\<lparr>ff_spots := (ff_spots c)(off := (ff_spots c off)\<lparr>sp_bytes := sz_free - sz\<rparr>)\<rparr>,
                        [FfLog a [FSpot off], FfStore a (FSpot off)])
                  else (off, set_next prev (sp_next (ff_spots c off)) c,
                        [FfLog a [prev_field prev], FfStore a (prev_field prev), FfLog a [FSpot off]]));
               c2 = c1\<lparr>ff_space := ff_space c1 - word_of_nat sz\<rparr>;
               e2 = e1 @ [FfStore a FSpace]
           in if sz_free = ff_max c2
              then map_option (\<lambda>(c3, e3). (Some p, c3, e2 @ e3)) (find_max_cont_space a c2)
              else Some (Some p, c2, e2)))"

definition ff_free :: "nat \<Rightarrow> nat \<Rightarrow> addr \<Rightarrow> ffchunk \<Rightarrow> ffchunk \<times> ff_event list" where
  "ff_free off sz a c =
     (let e0 = [FfLog a [FSpace, FList, FMax]];
          (c1, e1) =
            (if ff_list c = 0 then
               (c\<lparr>ff_list := off, ff_spots := (ff_spots c)(off := \<lparr>sp_next = 0, sp_bytes = sz\<rparr>), ff_max := sz\<rparr>,
                [FfStore a FList, FfLog a [FSpot off], FfStore a (FSpot off), FfStore a FMax])
             else if off + sz = ff_list c then
               (let n = sp_next (ff_spots c (ff_list c)); new_size = sp_bytes (ff_spots c (ff_list c)) + sz
                in (c\<lparr>ff_list := off, ff_spots := (ff_spots c)(off := \<lparr>sp_next = n, sp_bytes = new_size\<rparr>),
                      ff_max := (if new_size > ff_max c then new_size else ff_max c)\<rparr>,
                    [FfStore a FList, FfLog a [FSpot off], FfStore a (FSpot off)] @
                      (if new_size > ff_max c then [FfStore a FMax] else [])))
             else
               (c\<lparr>ff_spots := (ff_spots c)(off := \<lparr>sp_next = ff_list c, sp_bytes = sz\<rparr>), ff_list := off,
                  ff_max := (if sz > ff_max c then sz else ff_max c)\<rparr>,
                [FfLog a [FSpot off], FfStore a (FSpot off), FfStore a FList] @
                  (if sz > ff_max c then [FfStore a FMax] else [])))
      in (c1\<lparr>ff_space := ff_space c1 + word_of_nat sz\<rparr>, e0 @ e1 @ [FfStore a FSpace]))"

section \<open>The free list\<close>

text \<open>Free spots and blocks are pairs of offset and size. The code does not record the blocks.\<close>

type_synonym block = "nat \<times> nat"

fun spot_chain :: "(nat \<Rightarrow> free_spot) \<Rightarrow> nat \<Rightarrow> block list \<Rightarrow> bool" where
  "spot_chain m off [] = (off = 0)"
| "spot_chain m off ((o1, n) # fl) = (off = o1 \<and> o1 \<noteq> 0 \<and> sp_bytes (m o1) = n \<and> spot_chain m (sp_next (m o1)) fl)"

definition block_bytes :: "block \<Rightarrow> nat set" where
  "block_bytes b = {fst b..<fst b + snd b}"

definition disjoint_blocks :: "block set \<Rightarrow> bool" where
  "disjoint_blocks B \<longleftrightarrow> (\<forall>x\<in>B. \<forall>y\<in>B. x \<noteq> y \<longrightarrow> block_bytes x \<inter> block_bytes y = {})"

definition largest :: "block list \<Rightarrow> nat" where
  "largest fl = foldr max (map snd fl) 0"

definition good_block :: "block \<Rightarrow> bool" where
  "good_block b \<longleftrightarrow> HEADER_SIZE \<le> fst b \<and> MIN_ALLOC_BYTES \<le> snd b \<and> fst b + snd b \<le> CHUNK_SIZE"

definition tiles :: "block list \<Rightarrow> block set \<Rightarrow> bool" where
  "tiles fl L \<longleftrightarrow> distinct fl \<and> finite L \<and> set fl \<inter> L = {} \<and> (\<forall>b\<in>set fl \<union> L. good_block b) \<and> disjoint_blocks (set fl \<union> L)"

text \<open>The chain is \<open>fl\<close>, the blocks are \<open>L\<close>, and the two totals of the header agree with them.\<close>

definition ff_rep :: "ffchunk \<Rightarrow> block list \<Rightarrow> block set \<Rightarrow> bool" where
  "ff_rep c fl L \<longleftrightarrow>
     spot_chain (ff_spots c) (ff_list c) fl \<and> tiles fl L \<and> ff_max c = largest fl \<and>
     ff_space c = word_of_nat (CHUNK_SIZE - HEADER_SIZE) - word_of_nat (sum snd L)"

lemma spot_chain_cong: "spot_chain m off fl \<Longrightarrow> \<forall>o1\<in>fst ` set fl. m' o1 = m o1 \<Longrightarrow> spot_chain m' off fl"
proof (induction fl arbitrary: off)
  case (Cons b fl)
  then show ?case by (cases b) simp
qed simp

lemma chain_upd: "spot_chain m off fl \<Longrightarrow> o1 \<notin> fst ` set fl \<Longrightarrow> spot_chain (m(o1 := s)) off fl"
  by (erule spot_chain_cong) auto

lemma chain_if [simp]:
  "spot_chain m off fl \<Longrightarrow> o1 \<notin> fst ` set fl \<Longrightarrow> spot_chain (\<lambda>a. if a = o1 then s else m a) off fl"
  using chain_upd [of m off fl o1 s] by (simp add: fun_upd_def)

lemma largest_simps [simp]: "largest [] = 0" "largest (b # fl) = max (snd b) (largest fl)"
  by (simp_all add: largest_def)

lemma largest_append: "largest (A @ B) = max (largest A) (largest B)"
  by (induction A) auto

lemma largest_ge: "b \<in> set fl \<Longrightarrow> snd b \<le> largest fl"
  by (induction fl) auto

lemma largest_mem: "0 < largest fl \<Longrightarrow> \<exists>b\<in>set fl. snd b = largest fl"
  by (induction fl) (auto simp: max_def split: if_splits)

lemma max_loop_chain: "spot_chain m off fl \<Longrightarrow> max_loop m off k = Some (max k (largest fl))"
proof (induction fl arbitrary: off k)
  case Nil
  then show ?case by (subst max_loop.simps) simp
next
  case (Cons b fl)
  then show ?case by (cases b) (subst max_loop.simps, simp add: max.assoc)
qed

lemma spot_chain_mem: "spot_chain m off fl \<Longrightarrow> (o1, n) \<in> set fl \<Longrightarrow> sp_bytes (m o1) = n"
proof (induction fl arbitrary: off)
  case (Cons b fl)
  then show ?case by (cases b) auto
qed simp

text \<open>The search finds the first spot that is large enough.\<close>

lemma spot_search_chain:
  "spot_chain m off fl \<Longrightarrow> sz \<le> largest fl \<Longrightarrow> 0 < sz \<Longrightarrow>
   \<exists>A o1 n B. fl = A @ (o1, n) # B \<and> sz \<le> n \<and> (\<forall>b\<in>set A. snd b < sz) \<and>
     spot_search m sz prev off = Some (if A = [] then prev else Some (fst (last A)), o1)"
proof (induction fl arbitrary: off prev)
  case (Cons b fl)
  obtain o1 n where b: "b = (o1, n)" by fastforce
  have off: "off = o1" "o1 \<noteq> 0" "sp_bytes (m o1) = n" "spot_chain m (sp_next (m o1)) fl" using Cons.prems(1) b by auto
  show ?case
  proof (cases "sz \<le> n")
    case True
    then have "spot_search m sz prev off = Some (prev, o1)" using off by (subst spot_search.simps) simp
    then show ?thesis using True b by (intro exI [of _ "[]"]) auto
  next
    case False
    then have "sz \<le> largest fl" using Cons.prems(2) b by simp
    from Cons.IH [OF off(4) this Cons.prems(3), of "Some o1"]
    obtain A o2 n2 B where ih: "fl = A @ (o2, n2) # B" "sz \<le> n2" "\<forall>b\<in>set A. snd b < sz"
      "spot_search m sz (Some o1) (sp_next (m o1)) = Some (if A = [] then Some o1 else Some (fst (last A)), o2)" by blast
    have "spot_search m sz prev off = spot_search m sz (Some o1) (sp_next (m o1))"
      using off False by (subst spot_search.simps) simp
    then show ?thesis using ih b False by (intro exI [of _ "b # A"] exI [of _ o2] exI [of _ n2] exI [of _ B]) auto
  qed
qed simp

text \<open>Replacing and removing one spot of the chain.\<close>

lemma chain_resize:
  "spot_chain m off (A @ (o1, n) # B) \<Longrightarrow> distinct (map fst (A @ (o1, n) # B)) \<Longrightarrow>
   spot_chain (m(o1 := (m o1)\<lparr>sp_bytes := k\<rparr>)) off (A @ (o1, k) # B)"
proof (induction A arbitrary: off)
  case Nil
  then show ?case by simp
next
  case (Cons a A)
  then show ?case by (cases a) auto
qed

lemma chain_remove:
  "spot_chain m off (A @ (o1, n) # B) \<Longrightarrow> distinct (map fst (A @ (o1, n) # B)) \<Longrightarrow> A \<noteq> [] \<Longrightarrow>
   spot_chain (m(fst (last A) := (m (fst (last A)))\<lparr>sp_next := sp_next (m o1)\<rparr>)) off (A @ B)"
proof (induction A arbitrary: off)
  case (Cons a A)
  obtain o2 n2 where a: "a = (o2, n2)" by fastforce
  show ?case
  proof (cases "A = []")
    case True
    then show ?thesis using Cons.prems a by simp
  next
    case False
    then have "fst (last A) \<noteq> o2" using Cons.prems(2) a by (auto simp: image_iff dest: last_in_set)
    then show ?thesis using Cons a False by auto
  qed
qed simp

lemma good_bytes: "good_block b \<Longrightarrow> fst b \<in> block_bytes b" "good_block b \<Longrightarrow> 0 < fst b" "good_block b \<Longrightarrow> 0 < snd b"
  by (auto simp: good_block_def block_bytes_def MIN_ALLOC_BYTES_def HEADER_SIZE_def)

lemma tiles_apart:
  "tiles fl L \<Longrightarrow> x \<in> set fl \<union> L \<Longrightarrow> y \<in> set fl \<union> L \<Longrightarrow> x \<noteq> y \<Longrightarrow> block_bytes x \<inter> block_bytes y = {}"
  unfolding tiles_def disjoint_blocks_def by blast

lemma tiles_offsets: "tiles fl L \<Longrightarrow> distinct (map fst fl)"
  unfolding distinct_map
proof
  assume t: "tiles fl L"
  then show "distinct fl" by (simp add: tiles_def)
  show "inj_on fst (set fl)"
  proof (rule inj_onI, rule ccontr)
    fix x y assume xy: "x \<in> set fl" "y \<in> set fl" "fst x = fst y" "x \<noteq> y"
    then have "good_block x" "good_block y" using t by (auto simp: tiles_def)
    then have "fst x \<in> block_bytes x" "fst y \<in> block_bytes y" by (simp_all add: good_bytes)
    then show False using tiles_apart [OF t, of x y] xy by auto
  qed
qed

text \<open>A part of a free spot overlaps none of the other spots and blocks.\<close>

lemma carve:
  assumes t: "tiles (A @ x # B) L" and z: "z \<in> set A \<union> set B \<union> L" and y: "block_bytes y \<subseteq> block_bytes x" "good_block y"
  shows "block_bytes z \<inter> block_bytes y = {}" "z \<noteq> y"
proof -
  have "z \<noteq> x" using t z by (auto simp: tiles_def)
  then have "block_bytes z \<inter> block_bytes x = {}" using tiles_apart [OF t, of z x] z by auto
  then show d: "block_bytes z \<inter> block_bytes y = {}" using y(1) by blast
  then show "z \<noteq> y" using good_bytes(1) [OF y(2)] by auto
qed

lemma disjoint_insert:
  "disjoint_blocks (insert y S) \<longleftrightarrow> disjoint_blocks S \<and> (\<forall>z\<in>S. z \<noteq> y \<longrightarrow> block_bytes z \<inter> block_bytes y = {})"
  (is "?l \<longleftrightarrow> ?r")
proof
  show "?l \<Longrightarrow> ?r" unfolding disjoint_blocks_def by blast
  assume r: ?r
  show ?l
    unfolding disjoint_blocks_def
  proof (intro ballI impI)
    fix a b assume "a \<in> insert y S" "b \<in> insert y S" "a \<noteq> b"
    then consider "a = y" "b \<in> S" | "b = y" "a \<in> S" | "a \<in> S" "b \<in> S" by blast
    then show "block_bytes a \<inter> block_bytes b = {}"
      using r \<open>a \<noteq> b\<close> by cases (auto simp: disjoint_blocks_def)
  qed
qed

lemma disjoint_subset: "disjoint_blocks S \<Longrightarrow> T \<subseteq> S \<Longrightarrow> disjoint_blocks T"
  unfolding disjoint_blocks_def by blast

lemma tiles_whole:
  assumes t: "tiles (A @ (o1, n) # B) L" and sz: "MIN_ALLOC_BYTES \<le> sz" "sz \<le> n"
  shows "tiles (A @ B) (insert (o1, sz) L)" "(o1, sz) \<notin> L"
proof -
  have "good_block (o1, n)" using t by (auto simp: tiles_def)
  then have g: "good_block (o1, sz)" using sz by (auto simp: good_block_def)
  have sub: "block_bytes (o1, sz) \<subseteq> block_bytes (o1, n)" using sz by (auto simp: block_bytes_def)
  note c = carve [OF t _ sub g]
  have "disjoint_blocks (set (A @ B) \<union> L)" using t by (auto simp: tiles_def intro: disjoint_subset)
  then have "disjoint_blocks (insert (o1, sz) (set (A @ B) \<union> L))" unfolding disjoint_insert using c(1) by auto
  then show "tiles (A @ B) (insert (o1, sz) L)" using t g c(2) [of "(o1, sz)"] by (auto simp: tiles_def)
  show "(o1, sz) \<notin> L" using c(2) [of "(o1, sz)"] by auto
qed

lemma tiles_split:
  assumes t: "tiles (A @ (o1, n) # B) L" and sz: "MIN_ALLOC_BYTES \<le> sz" "sz \<le> n" "MIN_ALLOC_BYTES \<le> n - sz"
  shows "tiles (A @ (o1, n - sz) # B) (insert (o1 + (n - sz), sz) L)" "(o1 + (n - sz), sz) \<notin> L"
proof -
  have "good_block (o1, n)" using t by (auto simp: tiles_def)
  then have g: "good_block (o1, n - sz)" "good_block (o1 + (n - sz), sz)" using sz by (auto simp: good_block_def)
  have sub: "block_bytes (o1, n - sz) \<subseteq> block_bytes (o1, n)" "block_bytes (o1 + (n - sz), sz) \<subseteq> block_bytes (o1, n)"
    using sz by (auto simp: block_bytes_def)
  have both: "block_bytes (o1, n - sz) \<inter> block_bytes (o1 + (n - sz), sz) = {}" by (auto simp: block_bytes_def)
  then have ne: "(o1, n - sz) \<noteq> (o1 + (n - sz), sz)" using good_bytes(1) [OF g(1)] by auto
  note c = carve [OF t _ sub(1) g(1)] and d = carve [OF t _ sub(2) g(2)]
  have "disjoint_blocks (set (A @ B) \<union> L)" using t by (auto simp: tiles_def intro: disjoint_subset)
  then have "disjoint_blocks (insert (o1, n - sz) (set (A @ B) \<union> L))" unfolding disjoint_insert using c(1) by auto
  then have "disjoint_blocks (insert (o1 + (n - sz), sz) (insert (o1, n - sz) (set (A @ B) \<union> L)))"
    unfolding disjoint_insert [of "(o1 + (n - sz), sz)"] using d(1) both by auto
  then show "tiles (A @ (o1, n - sz) # B) (insert (o1 + (n - sz), sz) L)"
    using t g ne c(2) [of "(o1, n - sz)"] d(2) [of "(o1 + (n - sz), sz)"] unfolding tiles_def
    by (auto simp: insert_commute)
  show "(o1 + (n - sz), sz) \<notin> L" using d(2) [of "(o1 + (n - sz), sz)"] by auto
qed

lemma tiles_free: "tiles fl L \<Longrightarrow> b \<in> L \<Longrightarrow> tiles (b # fl) (L - {b})"
  unfolding tiles_def by (auto elim: disjoint_subset simp: insert_absorb)

lemma tiles_merge:
  assumes t: "tiles ((o1, sz) # (o1 + sz, n) # fl) L"
  shows "tiles ((o1, sz + n) # fl) L"
proof -
  have g: "good_block (o1, sz)" "good_block (o1 + sz, n)" using t by (auto simp: tiles_def)
  then have g3: "good_block (o1, sz + n)" by (auto simp: good_block_def)
  have bytes: "block_bytes (o1, sz + n) = block_bytes (o1, sz) \<union> block_bytes (o1 + sz, n)" by (auto simp: block_bytes_def)
  have ap: "block_bytes z \<inter> block_bytes (o1, sz + n) = {}" "z \<noteq> (o1, sz + n)" if z: "z \<in> set fl \<union> L" for z
  proof -
    have "z \<noteq> (o1, sz)" "z \<noteq> (o1 + sz, n)" using t z by (auto simp: tiles_def)
    then show "block_bytes z \<inter> block_bytes (o1, sz + n) = {}"
      using tiles_apart [OF t, of z "(o1, sz)"] tiles_apart [OF t, of z "(o1 + sz, n)"] z unfolding bytes by auto
    then show "z \<noteq> (o1, sz + n)" using good_bytes(1) [OF g3] by auto
  qed
  have "disjoint_blocks (set fl \<union> L)" using t by (auto simp: tiles_def intro: disjoint_subset)
  then have "disjoint_blocks (insert (o1, sz + n) (set fl \<union> L))" unfolding disjoint_insert using ap(1) by auto
  then show ?thesis using t g3 ap(2) [of "(o1, sz + n)"] by (auto simp: tiles_def)
qed

text \<open>The blocks of a chunk fit in it, so no block is left when \<open>free_space\<close> is back at its first value.\<close>

lemma blocks_fit:
  assumes "tiles fl L"
  shows "sum snd L \<le> CHUNK_SIZE - HEADER_SIZE"
proof -
  have fin: "finite L" and good: "\<forall>b\<in>L. good_block b" using assms by (auto simp: tiles_def)
  have "sum snd L = (\<Sum>b\<in>L. card (block_bytes b))" by (simp add: block_bytes_def)
  also have "\<dots> = card (\<Union>b\<in>L. block_bytes b)"
    using fin tiles_apart [OF assms] by (intro card_UN_disjoint [symmetric]) (auto simp: block_bytes_def)
  also have "\<dots> \<le> card {HEADER_SIZE..<CHUNK_SIZE}"
  proof (rule card_mono)
    show "(\<Union>b\<in>L. block_bytes b) \<subseteq> {HEADER_SIZE..<CHUNK_SIZE}"
      using good by (fastforce simp: good_block_def block_bytes_def)
  qed simp
  finally show ?thesis by simp
qed

lemma space_full:
  assumes "ff_rep c fl L"
  shows "ff_space c = word_of_nat (CHUNK_SIZE - HEADER_SIZE) \<longleftrightarrow> L = {}"
proof -
  have t: "tiles fl L" and sp: "ff_space c = word_of_nat (CHUNK_SIZE - HEADER_SIZE) - word_of_nat (sum snd L)"
    using assms by (simp_all add: ff_rep_def)
  have zero: "(word_of_nat k :: u32) = 0 \<longleftrightarrow> k = 0" if "k < 2 ^ 32" for k
    using that by (auto simp: word_of_nat_eq_0_iff dest: dvd_imp_le)
  have "sum snd L < 2 ^ 32" using blocks_fit [OF t] by (simp add: CHUNK_SIZE_def HEADER_SIZE_def)
  note z = zero [OF this]
  have "ff_space c = word_of_nat (CHUNK_SIZE - HEADER_SIZE) \<longleftrightarrow> (word_of_nat (sum snd L) :: u32) = 0"
    unfolding sp by (simp del: of_nat_sum)
  also have "\<dots> \<longleftrightarrow> (\<forall>b\<in>L. snd b = 0)" unfolding z using t by (simp add: tiles_def)
  also have "\<dots> \<longleftrightarrow> L = {}" using t good_bytes(3) by (fastforce simp: tiles_def)
  finally show ?thesis .
qed

section \<open>Allocation and free\<close>

lemma find_max_ok:
  assumes "spot_chain (ff_spots c) (ff_list c) fl"
  shows "\<exists>es. find_max_cont_space a c = Some (c\<lparr>ff_max := largest fl\<rparr>, es)"
  using max_loop_chain [OF assms, of 0] by (simp add: find_max_cont_space_def)

text \<open>The end of \<open>FreeFormChunk::alloc\<close>: \<open>max_cont_space\<close> is computed again when the largest spot was used.\<close>

lemma alloc_tail:
  assumes "spot_chain (ff_spots c) (ff_list c) fl" "n \<noteq> ff_max c \<longrightarrow> ff_max c = largest fl"
  shows "\<exists>es. (if n = ff_max c then map_option (\<lambda>(c3, e3). (Some p, c3, e2 @ e3)) (find_max_cont_space a c)
      else Some (Some p, c, e2)) = Some (Some p, c\<lparr>ff_max := largest fl\<rparr>, es)"
  using find_max_ok [OF assms(1), of a] assms(2) by auto

lemma largest_replace:
  "n \<noteq> largest (A @ (o1, n) # B) \<Longrightarrow> largest (A @ B) = largest (A @ (o1, n) # B)"
  "n \<noteq> largest (A @ (o1, n) # B) \<Longrightarrow> k \<le> n \<Longrightarrow> largest (A @ (o1, k) # B) = largest (A @ (o1, n) # B)"
  by (auto simp: largest_append max_def split: if_splits)

lemma space_sub:
  "finite L \<Longrightarrow> b \<notin> L \<Longrightarrow> w = k - word_of_nat (sum snd L) \<Longrightarrow>
   w - word_of_nat (snd b) = (k :: u32) - word_of_nat (sum snd (insert b L))"
  by (simp add: algebra_simps)

lemma space_add:
  "finite L \<Longrightarrow> b \<in> L \<Longrightarrow> w = k - word_of_nat (sum snd L) \<Longrightarrow>
   w + word_of_nat (snd b) = (k :: u32) - word_of_nat (sum snd (L - {b}))"
  by (simp add: sum.remove [of L b] algebra_simps del: of_nat_sum)

text \<open>
  The two ways to take a block: the end of a spot that stays, or a whole spot that leaves the chain.
\<close>

lemma ff_alloc_ok:
  assumes rep: "ff_rep c fl L" and sz: "MIN_ALLOC_BYTES \<le> sz" "sz \<le> ff_max c"
  obtains p c' es fl' where "ff_alloc sz a c = Some (Some p, c', es)" "ff_rep c' fl' (insert (p, sz) L)" "(p, sz) \<notin> L"
    "ff_next c' = ff_next c" "ff_id c' = ff_id c"
proof -
  have ch: "spot_chain (ff_spots c) (ff_list c) fl" and t: "tiles fl L" and mx: "ff_max c = largest fl"
    and sp: "ff_space c = word_of_nat (CHUNK_SIZE - HEADER_SIZE) - word_of_nat (sum snd L)"
    using rep by (simp_all add: ff_rep_def)
  have fin: "finite L" using t by (simp add: tiles_def)
  have "0 < sz" using sz by (simp add: MIN_ALLOC_BYTES_def)
  then obtain A o1 n B where fl: "fl = A @ (o1, n) # B" "sz \<le> n"
    and s: "spot_search (ff_spots c) sz None (ff_list c) = Some (if A = [] then None else Some (fst (last A)), o1)"
    using spot_search_chain [OF ch, of sz None] sz mx by auto
  have d: "distinct (map fst (A @ (o1, n) # B))" using tiles_offsets [OF t] fl by simp
  have n: "sp_bytes (ff_spots c o1) = n" using spot_chain_mem [OF ch, of o1 n] fl by simp
  have nmax: "n \<le> ff_max c" using largest_ge [of "(o1, n)" fl] fl mx by simp
  show ?thesis
  proof (cases "MIN_ALLOC_BYTES \<le> n - sz")
    case True
    let ?c = "c\<lparr>ff_spots := (ff_spots c)(o1 := (ff_spots c o1)\<lparr>sp_bytes := n - sz\<rparr>), ff_space := ff_space c - word_of_nat sz\<rparr>"
    let ?fl = "A @ (o1, n - sz) # B"
    note T = tiles_split [OF t [unfolded fl(1)] sz(1) fl(2) True]
    have chain: "spot_chain (ff_spots ?c) (ff_list ?c) ?fl" using chain_resize [of "ff_spots c" "ff_list c" A o1 n B] ch fl d by simp
    have lm: "n \<noteq> ff_max ?c \<longrightarrow> ff_max ?c = largest ?fl" using largest_replace(2) [of n A o1 B "n - sz"] mx fl by simp
    obtain es where "ff_alloc sz a c = Some (Some (o1 + (n - sz)), ?c\<lparr>ff_max := largest ?fl\<rparr>, es)"
      using alloc_tail [OF chain lm, of "o1 + (n - sz)" _ a] sz s n True by (fastforce simp: ff_alloc_def Let_def)
    moreover have "ff_rep (?c\<lparr>ff_max := largest ?fl\<rparr>) ?fl (insert (o1 + (n - sz), sz) L)"
      using chain T(1) space_sub [OF fin T(2) sp] by (simp add: ff_rep_def del: of_nat_sum sum.insert)
    ultimately show ?thesis using that [of "o1 + (n - sz)" "?c\<lparr>ff_max := largest ?fl\<rparr>" es ?fl] T(2) by simp
  next
    case False
    let ?prev = "if A = [] then None else Some (fst (last A))"
    let ?n = "set_next ?prev (sp_next (ff_spots c o1)) c"
    let ?c = "?n\<lparr>ff_space := ff_space ?n - word_of_nat sz\<rparr>"
    let ?e = "[FfLog a [prev_field ?prev], FfStore a (prev_field ?prev), FfLog a [FSpot o1]] @ [FfStore a FSpace]"
    note T = tiles_whole [OF t [unfolded fl(1)] sz(1) fl(2)]
    have chain: "spot_chain (ff_spots ?c) (ff_list ?c) (A @ B)"
      using chain_remove [of "ff_spots c" "ff_list c" A o1 n B] ch fl d by (auto simp: set_next_def)
    have same: "ff_max ?c = ff_max c" "ff_next ?c = ff_next c" "ff_id ?c = ff_id c" by (simp_all add: set_next_def)
    have lm: "n \<noteq> ff_max ?c \<longrightarrow> ff_max ?c = largest (A @ B)" using largest_replace(1) [of n A o1 B] mx fl same by simp
    have sps: "ff_space ?n = ff_space c" by (simp add: set_next_def)
    have "ff_alloc sz a c = (if n = ff_max ?c then map_option (\<lambda>(c3, e3). (Some o1, c3, ?e @ e3)) (find_max_cont_space a ?c)
        else Some (Some o1, ?c, ?e))"
      using False sz(2) unfolding ff_alloc_def s Let_def by (simp only: option.case prod.case n linorder_not_less [symmetric] if_False)
    then obtain es where "ff_alloc sz a c = Some (Some o1, ?c\<lparr>ff_max := largest (A @ B)\<rparr>, es)"
      using alloc_tail [OF chain lm, of o1 ?e a] by auto
    moreover have "ff_rep (?c\<lparr>ff_max := largest (A @ B)\<rparr>) (A @ B) (insert (o1, sz) L)"
      using chain T(1) space_sub [OF fin T(2) sp] sps by (simp add: ff_rep_def del: of_nat_sum sum.insert)
    ultimately show ?thesis using that [of o1 "?c\<lparr>ff_max := largest (A @ B)\<rparr>" es "A @ B"] T(2) same by simp
  qed
qed

text \<open>The spot that \<open>free\<close> makes: alone, together with the first spot when that follows it, or before the first.\<close>

definition free_chain :: "block \<Rightarrow> block list \<Rightarrow> block list" where
  "free_chain b fl =
     (case fl of [] \<Rightarrow> [b]
      | (o1, n) # B \<Rightarrow> if fst b + snd b = o1 then (fst b, snd b + n) # B else b # (o1, n) # B)"

lemma ff_free_ok:
  assumes rep: "ff_rep c fl L" and b: "(off, sz) \<in> L"
  shows "ff_rep (fst (ff_free off sz a c)) (free_chain (off, sz) fl) (L - {(off, sz)})"
    and "ff_next (fst (ff_free off sz a c)) = ff_next c" "ff_id (fst (ff_free off sz a c)) = ff_id c"
proof -
  have ch: "spot_chain (ff_spots c) (ff_list c) fl" and t: "tiles fl L" and mx: "ff_max c = largest fl"
    and sp: "ff_space c = word_of_nat (CHUNK_SIZE - HEADER_SIZE) - word_of_nat (sum snd L)"
    using rep by (simp_all add: ff_rep_def)
  have fin: "finite L" using t by (simp add: tiles_def)
  have pos: "0 < off" using t b good_bytes(2) [of "(off, sz)"] by (auto simp: tiles_def)
  note tf = tiles_free [OF t b]
  have d: "off \<notin> fst ` set fl" using tiles_offsets [OF tf] by simp
  let ?c = "fst (ff_free off sz a c)" and ?fl = "free_chain (off, sz) fl"
  show "ff_next ?c = ff_next c" "ff_id ?c = ff_id c" by (simp_all add: ff_free_def Let_def)
  have space: "ff_space ?c = word_of_nat (CHUNK_SIZE - HEADER_SIZE) - word_of_nat (sum snd (L - {(off, sz)}))"
    using space_add [OF fin b sp] by (simp add: ff_free_def Let_def del: of_nat_sum)
  have "spot_chain (ff_spots ?c) (ff_list ?c) ?fl \<and> tiles ?fl (L - {(off, sz)}) \<and> ff_max ?c = largest ?fl"
  proof (cases fl)
    case Nil
    then show ?thesis using ch tf pos by (simp add: ff_free_def Let_def free_chain_def)
  next
    case (Cons f B)
    obtain o1 n where f: "f = (o1, n)" by fastforce
    have o1: "ff_list c = o1" "o1 \<noteq> 0" "sp_bytes (ff_spots c o1) = n" "spot_chain (ff_spots c) (sp_next (ff_spots c o1)) B"
      using ch Cons f by auto
    have nB: "off \<noteq> o1" "off \<notin> fst ` set B" using d Cons f by auto
    show ?thesis
    proof (cases "off + sz = o1")
      case True
      have "tiles ((off, sz + n) # B) (L - {(off, sz)})" using tf Cons f True by (intro tiles_merge) simp
      then show ?thesis using True o1 nB pos mx Cons f by (simp add: ff_free_def Let_def free_chain_def max_def ac_simps chain_upd)
    next
      case False
      then show ?thesis using tf o1 nB pos mx Cons f by (simp add: ff_free_def Let_def free_chain_def max_def chain_upd)
    qed
  qed
  then show "ff_rep ?c ?fl (L - {(off, sz)})" using space by (simp add: ff_rep_def)
qed

lemma new_ffchunk_ok:
  assumes "used = 0 \<or> MIN_ALLOC_BYTES \<le> used" "used + HEADER_SIZE + MIN_ALLOC_BYTES \<le> CHUNK_SIZE"
  shows "ff_rep (new_ffchunk i used) [(HEADER_SIZE, CHUNK_SIZE - HEADER_SIZE - used)]
      (if used = 0 then {} else {(CHUNK_SIZE - used, used)})"
  using assms
  by (auto simp: new_ffchunk_def ff_rep_def tiles_def Let_def good_block_def disjoint_blocks_def block_bytes_def HEADER_SIZE_def
      MIN_ALLOC_BYTES_def)

section \<open>A chunk as a block store\<close>

text \<open>
  The state is the chunk with the blocks that are allocated in it. A request is raised to 8 bytes, as
  \<open>AllocatorUnit::alloc\<close> does.
\<close>

definition ffc_ok :: "ffchunk \<times> block set \<Rightarrow> bool" where
  "ffc_ok s \<longleftrightarrow> (\<exists>fl. ff_rep (fst s) fl (snd s))"

definition ffc_alloc :: "nat \<Rightarrow> ffchunk \<times> block set \<Rightarrow> block option \<times> ffchunk \<times> block set" where
  "ffc_alloc r s =
     (let sz = max r MIN_ALLOC_BYTES in
      case ff_alloc sz 0 (fst s) of
        Some (Some p, c, es) \<Rightarrow> (Some (p, sz), c, insert (p, sz) (snd s))
      | _ \<Rightarrow> (None, s))"

definition ffc_release :: "block \<Rightarrow> ffchunk \<times> block set \<Rightarrow> ffchunk \<times> block set" where
  "ffc_release b s = (fst (ff_free (fst b) (snd b) 0 (fst s)), snd s - {b})"

interpretation free_form: block_store ffc_ok snd block_bytes ffc_alloc ffc_release
proof
  fix s :: "ffchunk \<times> block set" and r b s'
  assume a: "ffc_ok s" "ffc_alloc r s = (Some b, s')"
  obtain c L where s: "s = (c, L)" by fastforce
  obtain fl where rep: "ff_rep c fl L" using a(1) s by (auto simp: ffc_ok_def)
  define sz where "sz = max r MIN_ALLOC_BYTES"
  have le: "sz \<le> ff_max c"
    using a(2) s by (rule_tac ccontr) (simp add: ffc_alloc_def ff_alloc_def sz_def [symmetric])
  have min: "MIN_ALLOC_BYTES \<le> sz" by (simp add: sz_def)
  obtain p c' es fl' where al: "ff_alloc sz 0 c = Some (Some p, c', es)" "ff_rep c' fl' (insert (p, sz) L)" "(p, sz) \<notin> L"
    using ff_alloc_ok [OF rep min le] by metis
  then have b: "b = (p, sz)" "s' = (c', insert (p, sz) L)" using a(2) s by (auto simp: ffc_alloc_def sz_def [symmetric])
  have t: "tiles fl' (insert b L)" using al(2) b by (simp add: ff_rep_def)
  then have "block_bytes b \<noteq> {}" using good_bytes(1) [of b] by (auto simp: tiles_def)
  moreover have "block_bytes b \<inter> block_bytes x = {}" if x: "x \<in> L" for x
    using tiles_apart [OF t, of b x] x al(3) b(1) by blast
  ultimately show "ffc_ok s' \<and> snd s' = insert b (snd s) \<and> block_bytes b \<noteq> {} \<and> (\<forall>x\<in>snd s. block_bytes b \<inter> block_bytes x = {})"
    using b s al(2) by (auto simp: ffc_ok_def)
next
  fix s :: "ffchunk \<times> block set" and r s'
  assume "ffc_ok s" "ffc_alloc r s = (None, s')"
  then show "ffc_ok s' \<and> snd s' = snd s" by (auto simp: ffc_alloc_def Let_def split: option.splits)
next
  fix s :: "ffchunk \<times> block set" and b
  assume "ffc_ok s" "b \<in> snd s"
  then show "ffc_ok (ffc_release b s) \<and> snd (ffc_release b s) = snd s - {b}"
    using ff_free_ok(1) [of "fst s" _ "snd s" "fst b" "snd b" 0] by (fastforce simp: ffc_ok_def ffc_release_def)
qed

end
