(* ===== verification/Variable_Lists.thy ===== *)
theory Variable_Lists
  imports Variable_Allocator
begin

text \<open>
  \<open>src/VariableAllocator.cc\<close>, the allocator above its chunks: the list of the chunks in persistent
  memory, the set of those with free space in DRAM, the scan of the list after a restart, blocks of
  more than 2 MB and the repair of the DRAM state after an abort. Chunks come from
  \<open>Allocator::alloc_chunk\<close>: the addresses it returns next are a list in the state, an empty list is
  \<open>BadAlloc\<close>. The order in which the code walks the unordered set is an argument.
\<close>

section \<open>State\<close>

datatype va_event =
    VaChunk ff_event
  | VaInnerWrite addr
  | VaWrite addr
  | VaLogNext addr
  | VaFlushChunk addr
  | VaFreeChunks addr nat

text \<open>
  \<open>va_chunks\<close> and \<open>va_start\<close> are persistent memory; \<open>va_set\<close>, \<open>va_scan\<close> and \<open>va_last\<close> are \<open>_free_chunks\<close>,
  \<open>_chunk_to_scan\<close> and \<open>_last_chunk_scanned\<close>; \<open>va_fix\<close> is the map of the transaction's
  \<open>AllocatorAbortCallback\<close>. The null pointer is 0.
\<close>

record va =
  va_start :: addr
  va_chunks :: "addr \<Rightarrow> ffchunk"
  va_set :: "addr set"
  va_scan :: addr
  va_last :: addr
  va_id :: u32
  va_supply :: "addr list"
  va_fix :: "addr \<Rightarrow> bool option"
  va_events :: "va_event list"

definition va_emit :: "va_event list \<Rightarrow> va \<Rightarrow> va" where
  "va_emit es s = s\<lparr>va_events := va_events s @ es\<rparr>"

definition put_chunk :: "addr \<Rightarrow> ffchunk \<Rightarrow> va \<Rightarrow> va" where
  "put_chunk a c s = s\<lparr>va_chunks := (va_chunks s)(a := c)\<rparr>"

definition va_has_space :: "addr \<Rightarrow> va \<Rightarrow> bool" where
  "va_has_space a s \<longleftrightarrow> has_space (va_chunks s a)"

definition va_insert :: "addr \<Rightarrow> va \<Rightarrow> va" where
  "va_insert a s = s\<lparr>va_set := insert a (va_set s)\<rparr>"

definition va_erase :: "addr \<Rightarrow> va \<Rightarrow> va" where
  "va_erase a s = s\<lparr>va_set := va_set s - {a}\<rparr>"

text \<open>The constructor.\<close>

definition va_open :: "u32 \<Rightarrow> bool \<Rightarrow> va \<Rightarrow> va" where
  "va_open alloc_id create s =
     (let s1 = (if create then s\<lparr>va_start := 0\<rparr> else s)
      in s1\<lparr>va_scan := va_start s1, va_last := 0, va_id := alloc_id, va_set := {}\<rparr>)"

text \<open>\<open>AllocatorAbortCallback::restore_dram_state\<close>: the first entry for a chunk stays.\<close>

definition va_restore :: "addr \<Rightarrow> bool \<Rightarrow> va \<Rightarrow> va" where
  "va_restore a remove s = (if va_fix s a = None then s\<lparr>va_fix := (va_fix s)(a \<mapsto> remove)\<rparr> else s)"

section \<open>Allocation\<close>

text \<open>\<open>chunk->alloc(sz)\<close> in place; the outer \<open>None\<close> is the assertion in the chunk.\<close>

definition va_chunk_alloc :: "nat \<Rightarrow> addr \<Rightarrow> va \<Rightarrow> (addr option \<times> va) option" where
  "va_chunk_alloc sz a s =
     (case ff_alloc sz a (va_chunks s a) of None \<Rightarrow> None
      | Some (r, c, es) \<Rightarrow> Some (map_option (\<lambda>off. a + off) r, put_chunk a c (va_emit (map VaChunk es) s)))"

text \<open>
  \<open>alloc_chunk\<close>: the inner transaction commits the new chunk and the pointer to it. Following a null
  \<open>_last_chunk_scanned\<close> is \<open>None\<close>.
\<close>

definition link_chunk :: "(addr \<Rightarrow> va_event) \<Rightarrow> addr \<Rightarrow> va \<Rightarrow> va option" where
  "link_chunk ev d s =
     (if va_start s = 0 then Some (va_emit [ev 0] (s\<lparr>va_start := d, va_last := d\<rparr>))
      else if va_last s = 0 then None
      else Some (va_emit [ev (va_last s)]
             (put_chunk (va_last s) ((va_chunks s (va_last s))\<lparr>ff_next := d\<rparr>) s\<lparr>va_last := d\<rparr>)))"

definition va_alloc_chunk :: "va \<Rightarrow> (addr result \<times> va) option" where
  "va_alloc_chunk s =
     (case va_supply s of [] \<Rightarrow> Some (Inl BadAlloc, s)
      | d # ds \<Rightarrow>
          (let s1 = va_emit [VaFlushChunk d] (put_chunk d (new_ffchunk (va_id s) 0) (s\<lparr>va_supply := ds\<rparr>))
           in map_option (\<lambda>s2. (Inr d, s2)) (link_chunk VaInnerWrite d s1)))"

text \<open>The scan to the end of the list in \<open>alloc_chunks\<close>.\<close>

partial_function (option) scan_rest :: "va \<Rightarrow> va option" where
  "scan_rest s =
     (if va_scan s = 0 then Some s
      else
        (let a = va_scan s;
             s1 = (if va_has_space a s then va_insert a s else s)
         in scan_rest (s1\<lparr>va_last := a, va_scan := ff_next (va_chunks s1 a)\<rparr>)))"

definition va_alloc_chunks :: "nat \<Rightarrow> va \<Rightarrow> (addr result \<times> va) option" where
  "va_alloc_chunks used s =
     (case va_supply s of [] \<Rightarrow> Some (Inl BadAlloc, s)
      | d # ds \<Rightarrow>
          (let s1 = va_emit [VaFlushChunk d] (put_chunk d (new_ffchunk (va_id s) used) (s\<lparr>va_supply := ds\<rparr>))
           in case scan_rest s1 of None \<Rightarrow> None
              | Some s2 \<Rightarrow> map_option (\<lambda>s3. (Inr d, s3)) (link_chunk VaWrite d s2)))"

text \<open>Sizes of large blocks: the chunks, and the bytes of the block in the first of them.\<close>

definition num_chunks :: "nat \<Rightarrow> nat" where
  "num_chunks sz = align_down CHUNK_SIZE (sz + CHUNK_SIZE - 1) div CHUNK_SIZE"

definition large_used :: "nat \<Rightarrow> nat" where
  "large_used sz = sz - (num_chunks sz - 1) * CHUNK_SIZE"

definition va_alloc_large :: "nat \<Rightarrow> va \<Rightarrow> (addr result \<times> va) option" where
  "va_alloc_large sz s =
     (case va_alloc_chunks (large_used sz) s of None \<Rightarrow> None
      | Some (Inl e, s1) \<Rightarrow> Some (Inl e, s1)
      | Some (Inr d, s1) \<Rightarrow> Some (Inr (d + (CHUNK_SIZE - large_used sz)), va_restore d True (va_insert d s1)))"

text \<open>The chunks of the DRAM set, in the order of the set's iterator.\<close>

fun va_try :: "nat \<Rightarrow> addr list \<Rightarrow> va \<Rightarrow> (addr option \<times> va) option" where
  "va_try sz [] s = Some (None, s)"
| "va_try sz (a # as) s =
     (case va_chunk_alloc sz a s of None \<Rightarrow> None
      | Some (None, s1) \<Rightarrow> va_try sz as s1
      | Some (Some p, s1) \<Rightarrow>
          Some (Some p, if \<not> va_has_space a s1 then va_erase a (va_restore a False s1) else s1))"

partial_function (option) va_scan_loop :: "nat \<Rightarrow> va \<Rightarrow> (addr option \<times> va) option" where
  "va_scan_loop sz s =
     (if va_scan s = 0 then Some (None, s)
      else
        (let a = va_scan s;
             s1 = (if va_has_space a s then va_restore a False s else s)
         in case va_chunk_alloc sz a s1 of None \<Rightarrow> None
            | Some (r, s2) \<Rightarrow>
                (let s3 = (if va_has_space a s2 then va_insert a s2 else s2);
                     s4 = s3\<lparr>va_last := a, va_scan := ff_next (va_chunks s3 a)\<rparr>
                 in if r \<noteq> None then Some (r, s4) else va_scan_loop sz s4)))"

text \<open>The last step of \<open>alloc\<close>, and \<open>alloc\<close>; a null address at the end is the assertion.\<close>

definition va_from_new :: "nat \<Rightarrow> va \<Rightarrow> (addr result \<times> va) option" where
  "va_from_new sz s =
     (case va_alloc_chunk s of None \<Rightarrow> None
      | Some (Inl e, s1) \<Rightarrow> Some (Inl e, s1)
      | Some (Inr d, s1) \<Rightarrow>
          (case va_chunk_alloc sz d (va_restore d False s1) of
             Some (Some p, s2) \<Rightarrow> Some (Inr p, if va_has_space d s2 then va_insert d s2 else s2)
           | _ \<Rightarrow> None))"

definition va_alloc :: "(addr set \<Rightarrow> addr list) \<Rightarrow> nat \<Rightarrow> va \<Rightarrow> (addr result \<times> va) option" where
  "va_alloc order sz s =
     (if sz > CHUNK_SIZE then va_alloc_large sz s
      else case va_try sz (order (va_set s)) s of None \<Rightarrow> None
      | Some (Some p, s1) \<Rightarrow> Some (Inr p, s1)
      | Some (None, s1) \<Rightarrow>
          (case va_scan_loop sz s1 of None \<Rightarrow> None
           | Some (Some p, s2) \<Rightarrow> Some (Inr p, s2)
           | Some (None, s2) \<Rightarrow> va_from_new sz s2))"

section \<open>Free\<close>

text \<open>The search for a chunk in the list: whether it is there, and the chunk before it (or the last).\<close>

partial_function (option) va_find_prev :: "(addr \<Rightarrow> ffchunk) \<Rightarrow> addr \<Rightarrow> addr \<Rightarrow> addr \<Rightarrow> (bool \<times> addr) option" where
  "va_find_prev m a temp prev =
     (if temp = 0 then Some (False, prev)
      else if temp = a then Some (True, prev)
      else va_find_prev m a (ff_next (m temp)) temp)"

definition va_unlink :: "addr \<Rightarrow> va \<Rightarrow> va option" where
  "va_unlink a s =
     (let nxt = ff_next (va_chunks s a) in
      case (if va_start s = a then Some (True, 0) else va_find_prev (va_chunks s) a (va_start s) 0) of None \<Rightarrow> None
      | Some (found, prev) \<Rightarrow>
          (let s1 = (if va_start s = a then va_emit [VaWrite 0] (s\<lparr>va_start := nxt\<rparr>)
                     else if found then va_emit [VaWrite prev] (put_chunk prev ((va_chunks s prev)\<lparr>ff_next := nxt\<rparr>) s)
                     else s);
               s2 = (if va_last s1 = a then s1\<lparr>va_last := prev\<rparr> else s1)
           in Some (if va_scan s2 = a then s2\<lparr>va_scan := nxt\<rparr> else s2)))"

definition va_free_large :: "nat \<Rightarrow> addr \<Rightarrow> va \<Rightarrow> nat \<times> va" where
  "va_free_large sz base s =
     (if sz > CHUNK_SIZE
      then (sz - (num_chunks sz - 1) * CHUNK_SIZE, va_emit [VaFreeChunks (base + CHUNK_SIZE) (num_chunks sz - 1)] s)
      else (sz, s))"

definition va_free :: "addr \<Rightarrow> nat \<Rightarrow> va \<Rightarrow> va option" where
  "va_free p sz0 s0 =
     (let a = align_down CHUNK_SIZE p;
          (sz, s) = va_free_large sz0 a s0;
          space = ff_list (va_chunks s a);
          (c, es) = ff_free (p - a) sz a (va_chunks s a);
          s1 = put_chunk a c (va_emit (map VaChunk es) s)
      in if ff_space c = word_of_nat (CHUNK_SIZE - HEADER_SIZE) then
           map_option (va_emit [VaLogNext a, VaFreeChunks a 1]) (va_unlink a (va_erase a (va_restore a False s1)))
         else if space = 0 then Some (va_insert a (va_restore a True s1))
         else Some s1)"

section \<open>After an abort, and statistics\<close>

definition va_restore_dram_chunk :: "addr \<Rightarrow> va \<Rightarrow> va option" where
  "va_restore_dram_chunk a s =
     (let r = (if va_start s \<noteq> 0 \<and> va_last s = 0
               then map_option (\<lambda>x. s\<lparr>va_last := snd x\<rparr>)
                      (va_find_prev (va_chunks s) a (ff_next (va_chunks s (va_start s))) (va_start s))
               else Some s)
      in map_option (\<lambda>s1. if va_has_space a s1 then va_insert a s1 else s1) r)"

definition va_remove_dram_chunk :: "addr \<Rightarrow> va \<Rightarrow> va option" where
  "va_remove_dram_chunk a s =
     (let r = (if va_last s = a
               then map_option (\<lambda>x. s\<lparr>va_last := snd x\<rparr>) (va_find_prev (va_chunks s) a (va_start s) (va_start s))
               else Some s)
      in map_option (va_erase a) r)"

text \<open>\<open>used_bytes\<close> and \<open>reserved_bytes\<close>: the loop adds up the free bytes and counts the chunks.\<close>

partial_function (option) va_bytes_loop :: "(addr \<Rightarrow> ffchunk) \<Rightarrow> addr \<Rightarrow> nat \<Rightarrow> nat \<Rightarrow> (nat \<times> nat) option" where
  "va_bytes_loop m cur free n =
     (if cur = 0 then Some (free, n)
      else va_bytes_loop m (ff_next (m cur)) (free + unat (ff_space (m cur))) (n + 1))"

definition va_used_bytes :: "va \<Rightarrow> u64 option" where
  "va_used_bytes s = map_option (\<lambda>(free, n). word_of_nat (n * CHUNK_SIZE) - word_of_nat free) (va_bytes_loop (va_chunks s) (va_start s) 0 0)"

definition va_reserved_bytes :: "va \<Rightarrow> u64 option" where
  "va_reserved_bytes s = map_option (\<lambda>(free, n). word_of_nat (n * CHUNK_SIZE)) (va_bytes_loop (va_chunks s) (va_start s) 0 0)"

definition va_get_alloc_id :: "addr \<Rightarrow> va \<Rightarrow> u32" where
  "va_get_alloc_id p s = ff_id (va_chunks s (align_down CHUNK_SIZE p))"

end
