(* ===== verification/Fixed_Allocator.thy ===== *)
theory Fixed_Allocator
  imports Block_Store
begin

text \<open>
  \<open>src/FixedAllocator.cc\<close>: objects of one size in a region. Objects above \<open>tail_ptr\<close> have never been
  used, freed ones are chained through their first eight bytes, with the lowest bit set. Addresses
  and sizes are words of the code's widths. The memory is the first eight bytes of every object;
  log and store calls are listed in program order.
\<close>

section \<open>State\<close>

datatype fa_loc = HTail | HFree | HNum | Word u64

datatype fa_event = FaLog "fa_loc list" | FaStore fa_loc | FaFlushHeader

record fa_state =
  fa_tail :: u64
  fa_free :: u64
  fa_num :: u64
  fa_max :: u64
  fa_size :: u32
  fa_words :: "u64 \<Rightarrow> u64"
  fa_events :: "fa_event list"

definition fa_log :: "fa_loc list \<Rightarrow> fa_state \<Rightarrow> fa_state" where
  "fa_log ls s = s\<lparr>fa_events := fa_events s @ [FaLog ls]\<rparr>"

definition fa_stored :: "fa_loc \<Rightarrow> fa_state \<Rightarrow> fa_state" where
  "fa_stored l s = s\<lparr>fa_events := fa_events s @ [FaStore l]\<rparr>"

definition set_tail :: "u64 \<Rightarrow> fa_state \<Rightarrow> fa_state" where
  "set_tail v s = fa_stored HTail (s\<lparr>fa_tail := v\<rparr>)"

definition set_free :: "u64 \<Rightarrow> fa_state \<Rightarrow> fa_state" where
  "set_free v s = fa_stored HFree (s\<lparr>fa_free := v\<rparr>)"

definition set_num :: "u64 \<Rightarrow> fa_state \<Rightarrow> fa_state" where
  "set_num v s = fa_stored HNum (s\<lparr>fa_num := v\<rparr>)"

definition set_word :: "u64 \<Rightarrow> u64 \<Rightarrow> fa_state \<Rightarrow> fa_state" where
  "set_word p v s = fa_stored (Word p) (s\<lparr>fa_words := (fa_words s)(p := v)\<rparr>)"

definition FREE_BIT :: u64 where
  "FREE_BIT = 1"

section \<open>Operations\<close>

text \<open>
  \<open>ALLOC_OFFSET\<close>: the header of 40 bytes rounded up to a multiple of the size, which is a power of
  two; the complement is taken in 32 bits. The header may stand elsewhere than in the region.
\<close>

definition fa_alloc_offset :: "u32 \<Rightarrow> u32" where
  "fa_alloc_offset sz = ucast ((40 + (ucast sz :: u64) - 1) AND ucast (NOT (sz - 1)))"

definition fa_offset :: "u64 \<Rightarrow> u64 \<Rightarrow> bool \<Rightarrow> u32 \<Rightarrow> fa_state \<Rightarrow> u32" where
  "fa_offset pool hdr create object_size s =
     (if hdr = pool then fa_alloc_offset (if create then object_size else fa_size s) else 0)"

definition fa_create :: "u64 \<Rightarrow> u64 \<Rightarrow> u32 \<Rightarrow> u64 \<Rightarrow> fa_state \<Rightarrow> fa_state" where
  "fa_create pool hdr object_size pool_size s =
     s\<lparr>fa_tail := pool + ucast (fa_offset pool hdr True object_size s), fa_free := 0, fa_num := 0,
       fa_max := pool + pool_size, fa_size := object_size, fa_events := fa_events s @ [FaFlushHeader]\<rparr>"

definition fa_alloc :: "fa_state \<Rightarrow> u64 result \<times> fa_state" where
  "fa_alloc s =
     (let s1 = fa_log [HTail, HFree, HNum] s in
      if fa_free s1 \<noteq> 0 then
        (let p = fa_free s1;
             s2 = fa_log [Word p] s1;
             s3 = set_word p (fa_words s2 p AND NOT FREE_BIT) s2;
             s4 = set_free (fa_words s3 (fa_free s3)) s3
         in (Inr p, set_num (fa_num s4 + 1) s4))
      else if fa_tail s1 + ucast (fa_size s1) > fa_max s1 then (Inl BadAlloc, s1)
      else
        (let p = fa_tail s1;
             s2 = set_tail (fa_tail s1 + ucast (fa_size s1)) s1
         in (Inr p, set_num (fa_num s2 + 1) s2)))"

text \<open>\<open>num * _pm->size\<close> is a product of two 32-bit values.\<close>

definition fa_alloc_num :: "u32 \<Rightarrow> fa_state \<Rightarrow> u64 result \<times> fa_state" where
  "fa_alloc_num num s =
     (if num = 1 then fa_alloc s
      else if fa_tail s + ucast (num * fa_size s) > fa_max s then (Inl BadAlloc, s)
      else
        (let p = fa_tail s;
             s1 = set_tail (fa_tail s + ucast (num * fa_size s)) (fa_log [HTail] s);
             s2 = set_num (fa_num s1 + ucast num) (fa_log [HNum] s1)
         in (Inr p, s2)))"

text \<open>\<open>clean_free_list\<close>; the loop carries \<open>free_ptr\<close> and \<open>num_allocated\<close>.\<close>

definition clean_step :: "u64 \<Rightarrow> u64 \<times> u64 \<times> fa_state \<Rightarrow> u64 \<times> u64 \<times> fa_state" where
  "clean_step p a = (case a of (free_ptr, num, s) \<Rightarrow> (p, num - 1, set_word p (free_ptr OR FREE_BIT) s))"

definition fa_clean_free_list :: "u64 list \<Rightarrow> fa_state \<Rightarrow> fa_state" where
  "fa_clean_free_list ps s =
     (let s1 = fa_log [HFree, HNum] s;
          (free_ptr, num, s2) = fold clean_step ps (fa_free s1, fa_num s1, s1)
      in set_num num (set_free free_ptr s2))"

text \<open>\<open>free(p, num)\<close>; the loop carries \<open>free_ptr\<close> and \<open>p\<close>.\<close>

fun free_loop :: "nat \<Rightarrow> u64 \<Rightarrow> u64 \<Rightarrow> fa_state \<Rightarrow> u64 \<times> fa_state" where
  "free_loop 0 free_ptr p s = (free_ptr, s)"
| "free_loop (Suc n) free_ptr p s = free_loop n p (p + ucast (fa_size s)) (set_word p (free_ptr OR FREE_BIT) s)"

definition fa_free_num :: "u64 \<Rightarrow> u32 \<Rightarrow> fa_state \<Rightarrow> fa_state" where
  "fa_free_num p num s =
     (if p + ucast (fa_size s * num) = fa_tail s then
        (let s1 = set_tail p (fa_log [HTail] s)
         in set_num (fa_num s1 - ucast num) (fa_log [HNum] s1))
      else
        (let s1 = fa_log [HFree, HNum] s;
             (free_ptr, s2) = free_loop (unat num) (fa_free s1) p s1;
             s3 = set_free free_ptr s2
         in set_num (fa_num s3 - ucast num) s3))"

text \<open>
  \<open>free(p)\<close> and \<open>AllocatorCallback\<close>: the object joins the front of a list that the commit callback
  of the transaction hands to \<open>clean_free_list\<close>; \<open>None\<close> when no callback is registered.
\<close>

definition delayed_free :: "u64 \<Rightarrow> u64 list option \<Rightarrow> u64 list option" where
  "delayed_free p cb = (case cb of None \<Rightarrow> Some [p] | Some ps \<Rightarrow> Some (p # ps))"

definition free_callback :: "u64 list option \<Rightarrow> fa_state \<Rightarrow> fa_state" where
  "free_callback cb s = (case cb of None \<Rightarrow> s | Some ps \<Rightarrow> fa_clean_free_list ps s)"

section \<open>Iteration and statistics\<close>

definition fa_begin :: "u64 \<Rightarrow> u32 \<Rightarrow> u64" where
  "fa_begin pool offset = pool + ucast offset"

definition fa_next :: "u64 \<Rightarrow> fa_state \<Rightarrow> u64" where
  "fa_next p s = p + ucast (fa_size s)"

definition is_free :: "u64 \<Rightarrow> fa_state \<Rightarrow> bool" where
  "is_free p s \<longleftrightarrow> fa_words s p AND FREE_BIT \<noteq> 0"

definition fa_get_id :: "u64 \<Rightarrow> u64 \<Rightarrow> fa_state \<Rightarrow> u64" where
  "fa_get_id b p s = (p - b) div ucast (fa_size s) + 1"

definition fa_used_bytes :: "fa_state \<Rightarrow> u64" where
  "fa_used_bytes s = ucast (fa_size s) * fa_num s"

definition fa_region_size :: "u64 \<Rightarrow> fa_state \<Rightarrow> u64" where
  "fa_region_size pool s = fa_max s - pool"

definition fa_occupancy :: "u64 \<Rightarrow> fa_state \<Rightarrow> u32" where
  "fa_occupancy pool s =
     (if fa_region_size pool s = 0 then 100 else ucast (100 * fa_used_bytes s div fa_region_size pool s))"

definition fa_health :: "u64 \<Rightarrow> u32 \<Rightarrow> fa_state \<Rightarrow> u32" where
  "fa_health pool offset s =
     (let total = fa_tail s - pool - ucast offset
      in if total = 0 then 100 else ucast (100 * fa_used_bytes s div total))"

section \<open>The invariant\<close>

text \<open>The first \<open>n\<close> objects of a region, and the free list as a chain through memory.\<close>

definition obj :: "u64 \<Rightarrow> u32 \<Rightarrow> nat \<Rightarrow> u64" where
  "obj b sz k = word_of_nat (unat b + k * unat sz)"

definition objs :: "u64 \<Rightarrow> u32 \<Rightarrow> nat \<Rightarrow> u64 set" where
  "objs b sz n = obj b sz ` {..<n}"

fun chain :: "(u64 \<Rightarrow> u64) \<Rightarrow> u64 \<Rightarrow> u64 list \<Rightarrow> bool" where
  "chain w p [] = (p = 0)"
| "chain w p (q # qs) = (p = q \<and> q \<noteq> 0 \<and> bit (w q) 0 \<and> chain w (w q AND NOT FREE_BIT) qs)"

fun chain_list :: "nat \<Rightarrow> (u64 \<Rightarrow> u64) \<Rightarrow> u64 \<Rightarrow> u64 list" where
  "chain_list 0 w p = []"
| "chain_list (Suc n) w p = (if p = 0 then [] else p # chain_list n w (w p AND NOT FREE_BIT))"

definition n_objs :: "u64 \<Rightarrow> fa_state \<Rightarrow> nat" where
  "n_objs b s = (unat (fa_tail s) - unat b) div unat (fa_size s)"

definition free_list :: "u64 \<Rightarrow> fa_state \<Rightarrow> u64 list" where
  "free_list b s = chain_list (n_objs b s) (fa_words s) (fa_free s)"

definition fa_live :: "u64 \<Rightarrow> fa_state \<Rightarrow> u64 set" where
  "fa_live b s = objs b (fa_size s) (n_objs b s) - set (free_list b s)"

definition fa_ok :: "u64 \<Rightarrow> u32 \<Rightarrow> fa_state \<Rightarrow> bool" where
  "fa_ok b sz s \<longleftrightarrow>
     fa_size s = sz \<and> 8 \<le> unat sz \<and> even (unat sz) \<and> even (unat b) \<and> 0 < unat b \<and>
     unat (fa_max s) + unat sz < 2 ^ 64 \<and> unat b \<le> unat (fa_tail s) \<and> unat (fa_tail s) \<le> unat (fa_max s) \<and>
     unat sz dvd unat (fa_tail s) - unat b \<and>
     chain (fa_words s) (fa_free s) (free_list b s) \<and> distinct (free_list b s) \<and>
     set (free_list b s) \<subseteq> objs b sz (n_objs b s) \<and> fa_num s = word_of_nat (n_objs b s - length (free_list b s))"

lemma chain_list_chain: "chain w p qs \<Longrightarrow> length qs \<le> n \<Longrightarrow> chain_list n w p = qs"
proof (induction qs arbitrary: p n)
  case Nil
  then show ?case by (cases n) auto
next
  case (Cons q qs)
  then show ?case by (cases n) auto
qed

lemma chain_cong: "chain w p qs \<Longrightarrow> (\<And>q. q \<in> set qs \<Longrightarrow> w' q = w q) \<Longrightarrow> chain w' p qs"
  by (induction qs arbitrary: p) auto

lemma unat_obj: "unat b + k * unat sz < 2 ^ 64 \<Longrightarrow> unat (obj b sz k) = unat b + k * unat sz"
  unfolding obj_def unsigned_of_nat by (simp add: take_bit_nat_eq_self)

lemma objs_Suc: "objs b sz (Suc n) = insert (obj b sz n) (objs b sz n)"
  by (simp add: objs_def lessThan_Suc)

lemma in_objs:
  assumes "x \<in> objs b sz n" "unat b + n * unat sz < 2 ^ 64"
  obtains k where "k < n" "unat x = unat b + k * unat sz"
proof -
  obtain k where k: "k < n" "x = obj b sz k" using assms(1) by (auto simp: objs_def)
  have "k * unat sz \<le> n * unat sz" using k(1) by simp
  then have "unat b + k * unat sz < 2 ^ 64" using assms(2) by linarith
  then show ?thesis using that [OF k(1)] unat_obj k(2) by blast
qed

lemma obj_inj: "obj b sz j = obj b sz k \<Longrightarrow> unat b + j * unat sz < 2 ^ 64 \<Longrightarrow> unat b + k * unat sz < 2 ^ 64 \<Longrightarrow> 0 < unat sz \<Longrightarrow> j = k"
proof -
  assume a: "obj b sz j = obj b sz k" "unat b + j * unat sz < 2 ^ 64" "unat b + k * unat sz < 2 ^ 64" "0 < unat sz"
  have "unat b + j * unat sz = unat b + k * unat sz" using unat_obj [OF a(2)] unat_obj [OF a(3)] a(1) by metis
  then show "j = k" using a(4) by (metis add_left_cancel less_numeral_extra(3) mult_right_cancel)
qed

lemma card_objs: "0 < unat sz \<Longrightarrow> unat b + n * unat sz < 2 ^ 64 \<Longrightarrow> card (objs b sz n) = n"
proof -
  assume a: "0 < unat sz" "unat b + n * unat sz < 2 ^ 64"
  have "inj_on (obj b sz) {..<n}"
  proof (rule inj_onI)
    fix j k assume jk: "j \<in> {..<n}" "k \<in> {..<n}" "obj b sz j = obj b sz k"
    have "j * unat sz \<le> n * unat sz" "k * unat sz \<le> n * unat sz" using jk(1, 2) by simp_all
    then show "j = k" using obj_inj [OF jk(3) _ _ a(1)] a(2) by linarith
  qed
  then show ?thesis by (simp add: objs_def card_image)
qed

text \<open>The invariant and the live objects from the number of objects and the free list.\<close>

lemma fa_okI:
  assumes "fa_size s = sz" "8 \<le> unat sz" "even (unat sz)" "even (unat b)" "0 < unat b" "unat (fa_max s) + unat sz < 2 ^ 64"
    and tl: "unat (fa_tail s) = unat b + n * unat sz" "unat (fa_tail s) \<le> unat (fa_max s)"
    and fl: "chain (fa_words s) (fa_free s) fl" "distinct fl" "set fl \<subseteq> objs b sz n" "fa_num s = word_of_nat (n - length fl)"
  shows "fa_ok b sz s" "fa_live b s = objs b sz n - set fl" "free_list b s = fl" "n_objs b s = n" "length fl \<le> n"
proof -
  show n: "n_objs b s = n" using assms(1, 2) tl(1) by (simp add: n_objs_def)
  have "unat b + n * unat sz < 2 ^ 64" using tl assms(6) by linarith
  then have "card (objs b sz n) = n" using card_objs assms(2) by simp
  moreover have "card (set fl) \<le> card (objs b sz n)" by (rule card_mono) (use fl(3) in \<open>simp_all add: objs_def\<close>)
  ultimately show len: "length fl \<le> n" using distinct_card [OF fl(2)] by simp
  show f: "free_list b s = fl" unfolding free_list_def n by (rule chain_list_chain [OF fl(1) len])
  show "fa_live b s = objs b sz n - set fl" by (simp add: fa_live_def n f assms(1))
  show "fa_ok b sz s" unfolding fa_ok_def n f using assms by simp
qed

lemma fa_okD:
  assumes "fa_ok b sz s"
  shows "fa_size s = sz" "8 \<le> unat sz" "even (unat sz)" "even (unat b)" "0 < unat b" "unat (fa_max s) + unat sz < 2 ^ 64"
    and "unat (fa_tail s) = unat b + n_objs b s * unat sz" "unat (fa_tail s) \<le> unat (fa_max s)"
    and "chain (fa_words s) (fa_free s) (free_list b s)" "distinct (free_list b s)"
    and "set (free_list b s) \<subseteq> objs b sz (n_objs b s)" "fa_num s = word_of_nat (n_objs b s - length (free_list b s))"
    and "fa_live b s = objs b sz (n_objs b s) - set (free_list b s)" "length (free_list b s) \<le> n_objs b s"
proof -
  note ok = assms [unfolded fa_ok_def]
  show "fa_size s = sz" "8 \<le> unat sz" "even (unat sz)" "even (unat b)" "0 < unat b" "unat (fa_max s) + unat sz < 2 ^ 64"
    "unat (fa_tail s) \<le> unat (fa_max s)" "chain (fa_words s) (fa_free s) (free_list b s)" "distinct (free_list b s)"
    "set (free_list b s) \<subseteq> objs b sz (n_objs b s)" "fa_num s = word_of_nat (n_objs b s - length (free_list b s))"
    using ok by simp_all
  show tl: "unat (fa_tail s) = unat b + n_objs b s * unat sz" using ok by (simp add: n_objs_def)
  show "fa_live b s = objs b sz (n_objs b s) - set (free_list b s)" using ok by (simp add: fa_live_def)
  show "length (free_list b s) \<le> n_objs b s"
    by (rule fa_okI(5) [where s = s and sz = sz and b = b]) (use ok tl in auto)
qed

section \<open>Allocation\<close>

lemma fa_setters [simp]:
  "fa_tail (set_tail v s) = v" "fa_free (set_tail v s) = fa_free s" "fa_num (set_tail v s) = fa_num s"
  "fa_max (set_tail v s) = fa_max s" "fa_size (set_tail v s) = fa_size s" "fa_words (set_tail v s) = fa_words s"
  "fa_tail (set_free v s) = fa_tail s" "fa_free (set_free v s) = v" "fa_num (set_free v s) = fa_num s"
  "fa_max (set_free v s) = fa_max s" "fa_size (set_free v s) = fa_size s" "fa_words (set_free v s) = fa_words s"
  "fa_tail (set_num v s) = fa_tail s" "fa_free (set_num v s) = fa_free s" "fa_num (set_num v s) = v"
  "fa_max (set_num v s) = fa_max s" "fa_size (set_num v s) = fa_size s" "fa_words (set_num v s) = fa_words s"
  "fa_tail (set_word p v s) = fa_tail s" "fa_free (set_word p v s) = fa_free s" "fa_num (set_word p v s) = fa_num s"
  "fa_max (set_word p v s) = fa_max s" "fa_size (set_word p v s) = fa_size s"
  "fa_words (set_word p v s) = (fa_words s)(p := v)"
  "fa_tail (fa_log ls s) = fa_tail s" "fa_free (fa_log ls s) = fa_free s" "fa_num (fa_log ls s) = fa_num s"
  "fa_max (fa_log ls s) = fa_max s" "fa_size (fa_log ls s) = fa_size s" "fa_words (fa_log ls s) = fa_words s"
  by (simp_all add: set_tail_def set_free_def set_num_def set_word_def fa_stored_def fa_log_def)

text \<open>The invariant does not depend on the events.\<close>

lemma fa_ok_log [simp]: "fa_ok b sz (fa_log ls s) = fa_ok b sz s" "fa_live b (fa_log ls s) = fa_live b s"
  by (simp_all add: fa_ok_def fa_live_def free_list_def n_objs_def)

lemma unat_fa_sum:
  assumes "unat (fa_max s) + unat (fa_size s) < 2 ^ 64" "unat (fa_tail s) \<le> unat (fa_max s)"
  shows "unat (fa_tail s + ucast (fa_size s)) = unat (fa_tail s) + unat (fa_size s)"
proof -
  have "unat (ucast (fa_size s) :: u64) = unat (fa_size s)"
    by (simp add: unsigned_ucast_eq take_bit_nat_eq_self unsigned_less order_less_trans [OF unsigned_less])
  moreover have "unat (fa_tail s) + unat (fa_size s) < 2 ^ 64" using assms by linarith
  ultimately show ?thesis by (simp add: unat_word_ariths)
qed

lemma fa_alloc_ok:
  assumes ok: "fa_ok b sz s"
  shows "case fa_alloc s of
      (Inr p, s') \<Rightarrow> fa_ok b sz s' \<and> p \<in> objs b sz (n_objs b s') \<and> p \<notin> fa_live b s \<and> fa_live b s' = insert p (fa_live b s) \<and>
        (\<forall>q. q \<noteq> p \<longrightarrow> fa_words s' q = fa_words s q)
    | (Inl e, s') \<Rightarrow> e = BadAlloc \<and> fa_ok b sz s' \<and> fa_live b s' = fa_live b s \<and> fa_words s' = fa_words s \<and>
        free_list b s = [] \<and> unat (fa_max s) < unat (fa_tail s) + unat sz"
proof -
  note d = fa_okD [OF ok]
  let ?n = "n_objs b s" and ?fl = "free_list b s"
  show ?thesis
  proof (cases ?fl)
    case (Cons p fl)
    have c: "fa_free s = p" "p \<noteq> 0" "bit (fa_words s p) 0" "chain (fa_words s) (fa_words s p AND NOT FREE_BIT) fl" "p \<notin> set fl"
      "distinct fl" "p \<in> objs b sz ?n" "set fl \<subseteq> objs b sz ?n"
      using d(9-11) Cons by auto
    let ?w = "fa_words s p AND NOT FREE_BIT"
    obtain s' where s': "fa_alloc s = (Inr p, s')" "fa_words s' = (fa_words s)(p := ?w)" "fa_free s' = ?w"
      "fa_num s' = fa_num s + 1" "fa_tail s' = fa_tail s" "fa_max s' = fa_max s" "fa_size s' = fa_size s"
      using c(1, 2) by (simp add: fa_alloc_def Let_def)
    have ch: "chain (fa_words s') (fa_free s') fl"
      unfolding s'(2, 3) by (rule chain_cong [OF c(4)]) (use c(5) in auto)
    have "length fl < ?n" using d(14) Cons by simp
    then have "?n - length fl = Suc (?n - length ?fl)" using Cons by simp
    then have "fa_num s' = word_of_nat (?n - length fl)" unfolding s'(4) d(12) by (simp only: of_nat_Suc add.commute)
    from fa_okI [OF _ d(2-5) _ _ _ ch c(6, 8) this] have
      "fa_ok b sz s'" "fa_live b s' = objs b sz ?n - set fl" "n_objs b s' = ?n" using s'(5-7) d by simp_all
    then show ?thesis using s'(1, 2) c(5, 7) d(13) Cons by auto
  next
    case Nil
    then have f0: "fa_free s = 0" using d(9) by simp
    have sum: "unat (fa_tail s + ucast (fa_size s)) = unat (fa_tail s) + unat (fa_size s)"
      by (rule unat_fa_sum) (use d in simp_all)
    show ?thesis
    proof (cases "fa_tail s + ucast (fa_size s) > fa_max s")
      case True
      then have "fa_alloc s = (Inl BadAlloc, fa_log [HTail, HFree, HNum] s)" using f0 by (simp add: fa_alloc_def Let_def)
      moreover have "unat (fa_max s) < unat (fa_tail s) + unat sz" using True sum d(1) by (simp add: word_less_nat_alt)
      ultimately show ?thesis using ok Nil by simp
    next
      case False
      let ?p = "fa_tail s"
      obtain s' where s': "fa_alloc s = (Inr ?p, s')" "fa_words s' = fa_words s" "fa_free s' = 0"
        "fa_num s' = fa_num s + 1" "fa_tail s' = ?p + ucast (fa_size s)" "fa_max s' = fa_max s" "fa_size s' = fa_size s"
        using f0 False by (simp add: fa_alloc_def Let_def)
      have p: "?p = obj b sz ?n" unfolding obj_def d(7) [symmetric] by simp
      have tl: "unat (fa_tail s') = unat b + Suc ?n * unat sz" using sum d(1, 7) s'(5) by simp
      have le: "unat (fa_tail s') \<le> unat (fa_max s')" using False s'(5, 6) by (simp add: word_le_nat_alt not_less)
      have "fa_num s' = word_of_nat (Suc ?n - length [])" unfolding s'(4) d(12) Nil by simp
      from fa_okI [OF _ d(2-5) _ tl le _ _ _ this] have
        "fa_ok b sz s'" "fa_live b s' = objs b sz (Suc ?n) - {}" "n_objs b s' = Suc ?n" using s'(3, 6, 7) d by simp_all
      moreover have "?p \<notin> objs b sz ?n"
      proof
        assume "?p \<in> objs b sz ?n"
        then obtain k where "k < ?n" "unat ?p = unat b + k * unat sz"
          by (rule in_objs) (use d(6-8) in linarith)
        then show False using d(2, 7) by simp
      qed
      ultimately show ?thesis using s'(1, 2) p d(13) Nil by (auto simp: objs_Suc)
    qed
  qed
qed

section \<open>Release\<close>

lemma bit0_unat: "bit w 0 \<longleftrightarrow> odd (unat w)" for w :: u64
  by (metis bit_0 bit_unsigned_iff possible_bit_def len_gt_0 possible_bit_0)

lemma free_bit_words:
  "\<not> bit f 0 \<Longrightarrow> bit (f OR FREE_BIT) 0 \<and> (f OR FREE_BIT) AND NOT FREE_BIT = f" for f :: u64
proof -
  assume f: "\<not> bit f 0"
  have "(f OR FREE_BIT) AND NOT FREE_BIT = f"
  proof (rule bit_word_eqI)
    fix n
    show "bit ((f OR FREE_BIT) AND NOT FREE_BIT) n = bit f n" if "n < LENGTH(64)"
      using f that by (cases "n = 0") (auto simp: bit_simps FREE_BIT_def bit_1_iff)
  qed
  then show ?thesis by (simp add: bit_simps FREE_BIT_def)
qed

lemma clean_steps:
  "fold clean_step ps (f, num, s) = (f', num', s') \<Longrightarrow> chain (fa_words s) f fl \<Longrightarrow> \<not> bit f 0 \<Longrightarrow> distinct ps \<Longrightarrow>
   set ps \<inter> set fl = {} \<Longrightarrow> \<forall>p\<in>set ps. p \<noteq> 0 \<and> \<not> bit p 0 \<Longrightarrow>
   chain (fa_words s') f' (rev ps @ fl) \<and> num' = num - word_of_nat (length ps) \<and> fa_tail s' = fa_tail s \<and>
   fa_max s' = fa_max s \<and> fa_size s' = fa_size s \<and> (\<forall>q. q \<notin> set ps \<longrightarrow> fa_words s' q = fa_words s q)"
proof (induction ps arbitrary: f num s fl)
  case (Cons p ps)
  let ?s = "set_word p (f OR FREE_BIT) s"
  have "clean_step p (f, num, s) = (p, num - 1, ?s)" by (simp add: clean_step_def)
  then have step: "fold clean_step ps (p, num - 1, ?s) = (f', num', s')" using Cons.prems(1) by simp
  have "chain (fa_words ?s) f fl" by (rule chain_cong [OF Cons.prems(2)]) (use Cons.prems(5) in auto)
  then have ch: "chain (fa_words ?s) p (p # fl)" using free_bit_words [OF Cons.prems(3)] Cons.prems(6) by simp
  from Cons.IH [OF step ch] Cons.prems show ?case by auto
qed auto

lemma fa_clean_ok:
  assumes ok: "fa_ok b sz s" and ps: "set ps \<subseteq> fa_live b s" "distinct ps"
  shows "fa_ok b sz (fa_clean_free_list ps s)" "fa_live b (fa_clean_free_list ps s) = fa_live b s - set ps"
    "free_list b (fa_clean_free_list ps s) = rev ps @ free_list b s"
proof -
  note d = fa_okD [OF ok]
  let ?n = "n_objs b s" and ?fl = "free_list b s"
  have lim: "unat b + ?n * unat sz < 2 ^ 64" using d(6-8) by linarith
  have even: "p \<noteq> 0 \<and> \<not> bit p 0" if p: "p \<in> objs b sz ?n" for p
  proof -
    obtain k where "k < ?n" "unat p = unat b + k * unat sz" using p lim by (rule in_objs)
    then have "0 < unat p" "even (unat p)" using d(3-5) by simp_all
    then show ?thesis by (auto simp: bit0_unat)
  qed
  have ins: "set ps \<subseteq> objs b sz ?n" "set ps \<inter> set ?fl = {}" using ps(1) d(13) by auto
  have f0: "\<not> bit (fa_free s) 0"
  proof (cases ?fl)
    case (Cons p fl)
    then show ?thesis using d(9, 11) even by auto
  qed (use d(9) in simp)
  let ?s1 = "fa_log [HFree, HNum] s"
  obtain f' num' s2 where fold: "fold clean_step ps (fa_free ?s1, fa_num ?s1, ?s1) = (f', num', s2)" by (metis prod_cases3)
  have "chain (fa_words ?s1) (fa_free ?s1) ?fl" using d(9) by simp
  from clean_steps [OF fold this] f0 ps(2) ins even
  have c: "chain (fa_words s2) f' (rev ps @ ?fl)" "num' = fa_num s - word_of_nat (length ps)" "fa_tail s2 = fa_tail s"
    "fa_max s2 = fa_max s" "fa_size s2 = fa_size s" by auto
  define s' where "s' = set_num num' (set_free f' s2)"
  have s': "fa_clean_free_list ps s = s'" using fold by (simp add: fa_clean_free_list_def Let_def s'_def)
  have "distinct (rev ps @ ?fl)" "set (rev ps @ ?fl) \<subseteq> objs b sz ?n" using ps(2) d(10, 11) ins by auto
  moreover have "length (rev ps @ ?fl) \<le> ?n"
  proof -
    have "card (set (rev ps @ ?fl)) \<le> card (objs b sz ?n)" by (rule card_mono) (use calculation(2) in \<open>simp_all add: objs_def\<close>)
    then show ?thesis using distinct_card [OF calculation(1)] card_objs [of sz b ?n] d(2) lim by simp
  qed
  moreover have "fa_num s' = word_of_nat (?n - length (rev ps @ ?fl))"
    using calculation(3) d(14) by (simp add: s'_def c(2) d(12) of_nat_diff)
  ultimately have "fa_ok b sz s'" "fa_live b s' = objs b sz ?n - set (rev ps @ ?fl)" "free_list b s' = rev ps @ ?fl"
    using fa_okI [of s' sz b ?n "rev ps @ ?fl"] c d by (auto simp: s'_def)
  then show "fa_ok b sz (fa_clean_free_list ps s)" "fa_live b (fa_clean_free_list ps s) = fa_live b s - set ps"
    "free_list b (fa_clean_free_list ps s) = rev ps @ free_list b s" using s' d(13) by auto
qed

section \<open>Contiguous objects\<close>

text \<open>Several objects at once come from above \<open>tail_ptr\<close>; the product must fit into 32 bits.\<close>

lemma unat_prod_u32: "unat x * unat y < 2 ^ 32 \<Longrightarrow> unat (ucast (x * y) :: u64) = unat x * unat y" for x y :: u32
proof -
  assume a: "unat x * unat y < 2 ^ 32"
  then have p: "unat (x * y) = unat x * unat y" by (simp add: unat_word_ariths)
  have "unat (ucast (x * y) :: u64) = unat (x * y)"
    by (simp add: unsigned_ucast_eq take_bit_nat_eq_self order_less_trans [OF unsigned_less])
  then show ?thesis using p by simp
qed

lemma fa_alloc_num_ok:
  assumes ok: "fa_ok b sz s" and num: "num \<noteq> 1" "unat num * unat sz < 2 ^ 32" and max: "unat (fa_max s) + 2 ^ 32 \<le> 2 ^ 64"
  shows "case fa_alloc_num num s of
      (Inr p, s') \<Rightarrow> fa_ok b sz s' \<and> p = obj b sz (n_objs b s) \<and> n_objs b s' = n_objs b s + unat num \<and>
        free_list b s' = free_list b s \<and> fa_live b s' = fa_live b s \<union> obj b sz ` {n_objs b s..<n_objs b s + unat num} \<and>
        fa_words s' = fa_words s
    | (Inl e, s') \<Rightarrow> e = BadAlloc \<and> s' = s \<and> unat (fa_max s) < unat (fa_tail s) + unat num * unat sz"
proof -
  note d = fa_okD [OF ok]
  let ?n = "n_objs b s" and ?fl = "free_list b s"
  have "unat (fa_tail s) + unat num * unat sz < 2 ^ 64" using d(8) num(2) max by linarith
  then have sum: "unat (fa_tail s + ucast (num * fa_size s)) = unat (fa_tail s) + unat num * unat sz"
    using unat_prod_u32 [of num sz] num(2) d(1) by (simp add: unat_word_ariths)
  show ?thesis
  proof (cases "fa_tail s + ucast (num * fa_size s) > fa_max s")
    case True
    then show ?thesis using num(1) sum by (simp add: fa_alloc_num_def word_less_nat_alt)
  next
    case False
    obtain s' where s': "fa_alloc_num num s = (Inr (fa_tail s), s')" "fa_words s' = fa_words s" "fa_free s' = fa_free s"
      "fa_num s' = fa_num s + ucast num" "fa_tail s' = fa_tail s + ucast (num * fa_size s)" "fa_max s' = fa_max s"
      "fa_size s' = fa_size s"
      using num(1) False by (simp add: fa_alloc_num_def Let_def)
    have tl: "unat (fa_tail s') = unat b + (?n + unat num) * unat sz" using sum d(7) s'(5) by (simp add: algebra_simps)
    have le: "unat (fa_tail s') \<le> unat (fa_max s')" using False s'(5, 6) by (simp add: word_le_nat_alt not_less)
    have "(ucast num :: u64) = word_of_nat (unat num)" by simp
    then have nm: "fa_num s' = word_of_nat (?n + unat num - length ?fl)"
      using d(12, 14) s'(4) by (simp add: of_nat_diff)
    have "{..<?n + unat num} = {..<?n} \<union> {?n..<?n + unat num}" by auto
    then have objs: "objs b sz (?n + unat num) = objs b sz ?n \<union> obj b sz ` {?n..<?n + unat num}"
      by (simp only: objs_def image_Un)
    then have sub: "set ?fl \<subseteq> objs b sz (?n + unat num)" using d(11) by blast
    have ch: "chain (fa_words s') (fa_free s') ?fl" using d(9) s'(2, 3) by simp
    have "fa_size s' = sz" "unat (fa_max s') + unat sz < 2 ^ 64" using s'(6, 7) d(1, 6) by simp_all
    note r = fa_okI [OF this(1) d(2-5) this(2) tl le ch d(10) sub nm]
    have "obj b sz ` {?n..<?n + unat num} \<inter> objs b sz ?n = {}"
    proof -
      have "obj b sz k \<notin> objs b sz ?n" if k: "k \<in> {?n..<?n + unat num}" for k
      proof
        assume "obj b sz k \<in> objs b sz ?n"
        then obtain j where j: "j < ?n" "obj b sz k = obj b sz j" by (auto simp: objs_def)
        have "k * unat sz \<le> (?n + unat num) * unat sz" "j * unat sz \<le> (?n + unat num) * unat sz" using k j(1) by simp_all
        then have "unat b + k * unat sz < 2 ^ 64" "unat b + j * unat sz < 2 ^ 64"
          using tl le \<open>unat (fa_max s') + unat sz < 2 ^ 64\<close> by linarith+
        then have "k = j" using obj_inj [OF j(2)] d(2) by simp
        then show False using k j(1) by simp
      qed
      then show ?thesis by blast
    qed
    then have "fa_live b s' = fa_live b s \<union> obj b sz ` {?n..<?n + unat num}"
      unfolding r(2) d(13) objs using d(11) by blast
    moreover have "fa_tail s = obj b sz ?n" unfolding obj_def d(7) [symmetric] by simp
    ultimately show ?thesis using s'(1, 2) r by simp
  qed
qed

section \<open>As a block store\<close>

text \<open>The freed objects of a transaction go to \<open>clean_free_list\<close> when it commits; here, one by one.\<close>

definition fa_block :: "u32 \<Rightarrow> u64 \<Rightarrow> nat set" where
  "fa_block sz p = {unat p..<unat p + unat sz}"

definition fa_request :: "unit \<Rightarrow> fa_state \<Rightarrow> u64 option \<times> fa_state" where
  "fa_request r s = (case fa_alloc s of (Inl e, s') \<Rightarrow> (None, s') | (Inr p, s') \<Rightarrow> (Some p, s'))"

lemma objs_apart:
  assumes "x \<in> objs b sz n" "y \<in> objs b sz n" "x \<noteq> y" "unat b + n * unat sz < 2 ^ 64"
  shows "fa_block sz x \<inter> fa_block sz y = {}"
proof -
  obtain j where j: "unat x = unat b + j * unat sz" using assms(1, 4) by (rule in_objs)
  obtain k where k: "unat y = unat b + k * unat sz" using assms(2, 4) by (rule in_objs)
  have "j \<noteq> k" using assms(3) j k by (metis unsigned_word_eqI)
  then consider "Suc j \<le> k" | "Suc k \<le> j" by linarith
  then have "unat x + unat sz \<le> unat y \<or> unat y + unat sz \<le> unat x"
  proof cases
    case 1
    then have "Suc j * unat sz \<le> k * unat sz" by (rule mult_le_mono1)
    then show ?thesis using j k by simp
  next
    case 2
    then have "Suc k * unat sz \<le> j * unat sz" by (rule mult_le_mono1)
    then show ?thesis using j k by simp
  qed
  then show ?thesis by (auto simp: fa_block_def)
qed

lemma fa_alloc_apart:
  assumes ok: "fa_ok b sz s" and a: "fa_alloc s = (Inr p, s')"
  shows "fa_ok b sz s' \<and> fa_live b s' = insert p (fa_live b s) \<and> fa_block sz p \<noteq> {} \<and>
    (\<forall>x\<in>fa_live b s. fa_block sz p \<inter> fa_block sz x = {})"
proof -
  have r: "fa_ok b sz s'" "p \<in> objs b sz (n_objs b s')" "p \<notin> fa_live b s" "fa_live b s' = insert p (fa_live b s)"
    using fa_alloc_ok [OF ok] a by simp_all
  note d = fa_okD [OF r(1)]
  have lim: "unat b + n_objs b s' * unat sz < 2 ^ 64" using d(6-8) by linarith
  have "fa_block sz p \<inter> fa_block sz x = {}" if x: "x \<in> fa_live b s" for x
  proof (rule objs_apart [OF r(2) _ _ lim])
    show "x \<in> objs b sz (n_objs b s')" using d(13) r(4) x by auto
    show "p \<noteq> x" using r(3) x by auto
  qed
  moreover have "fa_block sz p \<noteq> {}" using d(2) by (simp add: fa_block_def)
  ultimately show ?thesis using r by blast
qed

interpretation fixed_alloc: block_store "fa_ok b sz" "fa_live b" "fa_block sz" fa_request "\<lambda>p. fa_clean_free_list [p]"
  for b sz
proof
  fix s r a s'
  assume "fa_ok b sz s" "fa_request r s = (Some a, s')"
  then show "fa_ok b sz s' \<and> fa_live b s' = insert a (fa_live b s) \<and> fa_block sz a \<noteq> {} \<and>
      (\<forall>x\<in>fa_live b s. fa_block sz a \<inter> fa_block sz x = {})"
    by (intro fa_alloc_apart) (auto simp: fa_request_def split: prod.splits sum.splits)
next
  fix s r s'
  assume a: "fa_ok b sz s" "fa_request r s = (None, s')"
  then show "fa_ok b sz s' \<and> fa_live b s' = fa_live b s"
    using fa_alloc_ok [OF a(1)] by (auto simp: fa_request_def split: prod.splits sum.splits)
next
  fix s a
  assume "fa_ok b sz s" "a \<in> fa_live b s"
  then show "fa_ok b sz (fa_clean_free_list [a] s) \<and> fa_live b (fa_clean_free_list [a] s) = fa_live b s - {a}"
    using fa_clean_ok [of b sz s "[a]"] by simp
qed

section \<open>Properties\<close>

lemma fa_num_live: "fa_ok b sz s \<Longrightarrow> fa_num s = word_of_nat (card (fa_live b s))"
proof -
  assume ok: "fa_ok b sz s"
  note d = fa_okD [OF ok]
  have lim: "unat b + n_objs b s * unat sz < 2 ^ 64" using d(6-8) by linarith
  have "card (fa_live b s) = card (objs b sz (n_objs b s)) - card (set (free_list b s))"
    unfolding d(13) by (rule card_Diff_subset) (use d(11) in simp_all)
  then show ?thesis using d(2, 12) card_objs [OF _ lim] distinct_card [OF d(10)] by simp
qed

text \<open>A region of eight-byte objects at address 4096 with room for two.\<close>

definition ex_fa :: fa_state where
  "ex_fa = \<lparr>fa_tail = 4096, fa_free = 0, fa_num = 0, fa_max = 4112, fa_size = 8, fa_words = (\<lambda>_. 7), fa_events = []\<rparr>"

lemma ex_fa_ok: "fa_ok 4096 8 ex_fa" "fa_live 4096 ex_fa = {}"
  using fa_okI [of ex_fa 8 4096 0 "[]"] by (simp_all add: ex_fa_def objs_def)

text \<open>
  C14. The allocator is a set of live objects: \<open>alloc\<close> adds an object that was not live and overlaps no
  live one, and throws only when every object of the region is live; freeing objects deletes
  exactly these; \<open>num_allocated\<close> is the number of live objects.
\<close>

theorem fixed_allocator_refines_set:
  assumes "fa_ok b sz s"
  shows "fa_num s = word_of_nat (card (fa_live b s)) \<and>
    (case fa_alloc s of
       (Inr p, s') \<Rightarrow> fa_ok b sz s' \<and> p \<notin> fa_live b s \<and> fa_live b s' = insert p (fa_live b s) \<and>
         (\<forall>x\<in>fa_live b s. fa_block sz p \<inter> fa_block sz x = {})
     | (Inl e, s') \<Rightarrow> e = BadAlloc \<and> fa_ok b sz s' \<and> fa_live b s' = fa_live b s \<and>
         fa_live b s = objs b sz (n_objs b s) \<and> unat (fa_max s) < unat (fa_tail s) + unat sz) \<and>
    (\<forall>ps. distinct ps \<and> set ps \<subseteq> fa_live b s \<longrightarrow>
       fa_ok b sz (fa_clean_free_list ps s) \<and> fa_live b (fa_clean_free_list ps s) = fa_live b s - set ps)"
  using fa_num_live [OF assms] fa_alloc_ok [OF assms] fa_alloc_apart [OF assms] fa_clean_ok [OF assms] fa_okD(13) [OF assms]
  by (auto split: prod.splits sum.splits)

lemma fixed_allocator_refines_set_witness:
  "\<exists>p s'. fa_alloc ex_fa = (Inr p, s') \<and> fa_ok 4096 8 s' \<and> p \<notin> fa_live 4096 ex_fa \<and>
     fa_live 4096 s' = insert p (fa_live 4096 ex_fa)"
proof -
  obtain p s' where a: "fa_alloc ex_fa = (Inr p, s')"
    by (simp add: fa_alloc_def ex_fa_def fa_log_def Let_def)
  show ?thesis using fixed_allocator_refines_set [OF ex_fa_ok(1)] a by simp
qed

text \<open>
  The size of a contiguous allocation is a 32-bit product: for 2048 chunks of 2 MB, the rounded
  size of any request just below 4 GB, it is 0. The allocator hands out the region above \<open>tail_ptr\<close>
  without reserving it, and hands it out again to the next request.
\<close>

theorem contiguous_size_overflow:
  assumes "fa_size s = 0x200000" "fa_tail s \<le> fa_max s"
  shows "\<exists>s' s''. fa_alloc_num 2048 s = (Inr (fa_tail s), s') \<and> fa_tail s' = fa_tail s \<and>
    fa_alloc_num 2048 s' = (Inr (fa_tail s), s'')"
proof -
  have z: "(2048 :: u32) * 0x200000 = 0" by simp
  show ?thesis using assms by (simp add: fa_alloc_num_def z Let_def)
qed

lemma contiguous_size_overflow_witness:
  "\<exists>s' s''. fa_alloc_num 2048 (ex_fa\<lparr>fa_size := 0x200000\<rparr>) = (Inr (fa_tail (ex_fa\<lparr>fa_size := 0x200000\<rparr>)), s') \<and>
    fa_tail s' = fa_tail (ex_fa\<lparr>fa_size := 0x200000\<rparr>) \<and>
    fa_alloc_num 2048 s' = (Inr (fa_tail (ex_fa\<lparr>fa_size := 0x200000\<rparr>)), s'')"
  by (rule contiguous_size_overflow) (simp_all add: ex_fa_def)

end
