(* ===== verification/Flex_Allocator.thy ===== *)
theory Flex_Allocator
  imports Fixed_Allocator "HOL-Library.AList"
begin

text \<open>
  \<open>src/FlexFixedAllocator.cc\<close>: objects of one size (4 KB chunks) in pools of 2 MB, each managed by a
  \<open>FixedAllocator\<close> whose header lies outside its pool. The headers form a list in persistent memory;
  a map in DRAM holds the pools known to have free objects. The headers and pools of
  \<open>alloc_free_form\<close> and \<open>alloc_chunk\<close> are a list of pairs in the state. Which element \<open>begin()\<close> of
  the unordered map is, is an argument.
\<close>

section \<open>State\<close>

record fx_hdr =
  fx_base :: u64
  fx_next :: u64
  fx_fa :: fa_state

record fx_info =
  fi_hdr :: u64
  fi_prev :: u64
  fi_num :: u64

datatype fx_event = FxWriteNext u64 | FxFreePool u64 | FxFreeHeader u64

record flex =
  fx_pm :: u64
  fx_size :: u32
  fx_pool_size :: u64
  fx_hdrs :: "u64 \<Rightarrow> fx_hdr"
  fx_pools :: "(u64 \<times> fx_info) list"
  fx_last :: u64
  fx_supply :: "(u64 \<times> u64) list"
  fx_fix :: "u64 list"
  fx_events :: "fx_event list"

definition fx_max :: "flex \<Rightarrow> u64" where
  "fx_max s = fx_pool_size s div ucast (fx_size s)"

definition fx_num :: "u64 \<Rightarrow> flex \<Rightarrow> u64" where
  "fx_num h s = fa_num (fx_fa (fx_hdrs s h))"

definition put_hdr :: "u64 \<Rightarrow> fx_hdr \<Rightarrow> flex \<Rightarrow> flex" where
  "put_hdr h v s = s\<lparr>fx_hdrs := (fx_hdrs s)(h := v)\<rparr>"

definition fx_emit :: "fx_event list \<Rightarrow> flex \<Rightarrow> flex" where
  "fx_emit es s = s\<lparr>fx_events := fx_events s @ es\<rparr>"

definition put_pool :: "u64 \<Rightarrow> fx_info \<Rightarrow> flex \<Rightarrow> flex" where
  "put_pool b i s = s\<lparr>fx_pools := AList.update b i (fx_pools s)\<rparr>"

definition drop_pool :: "u64 \<Rightarrow> flex \<Rightarrow> flex" where
  "drop_pool b s = s\<lparr>fx_pools := AList.delete b (fx_pools s)\<rparr>"

text \<open>The constructor; \<open>fa_create\<close> sets up the first pool.\<close>

definition fx_open :: "bool \<Rightarrow> u64 \<Rightarrow> flex \<Rightarrow> flex" where
  "fx_open create pool s =
     (let h = fx_pm s;
          s1 = (if create then put_hdr h ((fx_hdrs s h)\<lparr>fx_base := pool, fx_next := 0\<rparr>) s else s);
          n = (if create then 0 else fx_num h s1);
          s2 = s1\<lparr>fx_last := h, fx_pools := []\<rparr>
      in if n < fx_max s2 then
           (let v = fx_hdrs s2 h;
                f = (if create then fa_create pool h (fx_size s2) (fx_pool_size s2) (fx_fa v) else fx_fa v)
            in put_pool pool \<lparr>fi_hdr = h, fi_prev = 0, fi_num = fa_num f\<rparr> (put_hdr h (v\<lparr>fx_fa := f\<rparr>) s2))
         else s2)"

section \<open>Allocation\<close>

text \<open>\<open>fa->alloc()\<close> on the header at \<open>h\<close>.\<close>

definition hdr_alloc :: "u64 \<Rightarrow> flex \<Rightarrow> u64 result \<times> flex" where
  "hdr_alloc h s =
     (let (r, f) = fa_alloc (fx_fa (fx_hdrs s h)) in (r, put_hdr h ((fx_hdrs s h)\<lparr>fx_fa := f\<rparr>) s))"

definition pool_alloc :: "u64 \<Rightarrow> fx_info \<Rightarrow> flex \<Rightarrow> u64 result \<times> flex" where
  "pool_alloc b i s =
     (case hdr_alloc (fi_hdr i) s of
        (Inl e, s1) \<Rightarrow> (Inl e, s1)
      | (Inr p, s1) \<Rightarrow>
          (let n = fx_num (fi_hdr i) s1
           in (Inr p, if n = fx_max s1 then drop_pool b s1 else put_pool b (i\<lparr>fi_num := n\<rparr>) s1)))"

text \<open>The walk over the headers that have not been looked at; \<open>None\<close> inside: the end of the list.\<close>

partial_function (option) fx_scan :: "flex \<Rightarrow> (u64 result option \<times> flex) option" where
  "fx_scan s =
     (let prev = fx_last s; h = fx_next (fx_hdrs s prev) in
      if h = 0 then Some (None, s)
      else
        (let s1 = s\<lparr>fx_last := h\<rparr> in
         if fx_num h s1 < fx_max s1 then
           (case hdr_alloc h s1 of
              (Inl e, s2) \<Rightarrow> Some (Some (Inl e), s2)
            | (Inr p, s2) \<Rightarrow>
                (let n = fx_num h s2
                 in Some (Some (Inr p),
                      if n < fx_max s2
                      then put_pool (fx_base (fx_hdrs s2 h)) \<lparr>fi_hdr = h, fi_prev = prev, fi_num = n\<rparr> s2
                      else s2)))
         else fx_scan s1))"

definition add_new_pool :: "flex \<Rightarrow> (u64 \<times> fx_info) result \<times> flex" where
  "add_new_pool s =
     (case fx_supply s of [] \<Rightarrow> (Inl BadAlloc, s)
      | (h, pool) # rest \<Rightarrow>
          (let prev = fx_last s;
               s0 = s\<lparr>fx_supply := rest\<rparr>;
               f = fa_create pool h (fx_size s) (fx_pool_size s) (fx_fa (fx_hdrs s0 h));
               s1 = put_hdr h \<lparr>fx_base = pool, fx_next = 0, fx_fa = f\<rparr> s0;
               s2 = fx_emit [FxWriteNext prev] (put_hdr prev ((fx_hdrs s1 prev)\<lparr>fx_next := h\<rparr>) s1);
               i = \<lparr>fi_hdr = h, fi_prev = prev, fi_num = 0\<rparr>
           in (Inr (pool, i), (put_pool pool i s2)\<lparr>fx_last := h\<rparr>)))"

definition fx_alloc :: "((u64 \<times> fx_info) list \<Rightarrow> u64 \<times> fx_info) \<Rightarrow> flex \<Rightarrow> (u64 result \<times> flex) option" where
  "fx_alloc pick s =
     (if fx_pools s \<noteq> [] then (let (b, i) = pick (fx_pools s) in Some (pool_alloc b i s))
      else case fx_scan s of None \<Rightarrow> None
      | Some (Some r, s1) \<Rightarrow> Some (r, s1)
      | Some (None, s1) \<Rightarrow>
          (case add_new_pool s1 of
             (Inl e, s2) \<Rightarrow> Some (Inl e, s2)
           | (Inr (b, i), s2) \<Rightarrow>
               (case hdr_alloc (fi_hdr i) s2 of
                  (Inl e, s3) \<Rightarrow> Some (Inl e, s3)
                | (Inr p, s3) \<Rightarrow> Some (Inr p, put_pool b (i\<lparr>fi_num := fx_num (fi_hdr i) s3\<rparr>) s3))))"

section \<open>Free\<close>

text \<open>The search for the header of a pool; \<open>None\<close>: the assertion that it is there.\<close>

partial_function (option) find_hdr :: "(u64 \<Rightarrow> fx_hdr) \<Rightarrow> u64 \<Rightarrow> u64 \<Rightarrow> u64 \<Rightarrow> (u64 \<times> u64) option" where
  "find_hdr m b h prev =
     (if h = 0 then None
      else if fx_base (m h) = b then Some (h, prev)
      else find_hdr m b (fx_next (m h)) h)"

definition pool_base_of :: "u64 \<Rightarrow> u64" where
  "pool_base_of p = p AND NOT 0x1FFFFF"

definition free_pool :: "u64 \<Rightarrow> u64 \<Rightarrow> u64 \<Rightarrow> flex \<Rightarrow> flex" where
  "free_pool b h prev s =
     (let nxt = fx_next (fx_hdrs s h);
          s1 = fx_emit [FxWriteNext prev] (put_hdr prev ((fx_hdrs s prev)\<lparr>fx_next := nxt\<rparr>) s);
          s2 = (if nxt \<noteq> 0 then
                  (case map_of (fx_pools s1) (fx_base (fx_hdrs s1 nxt)) of
                     None \<Rightarrow> s1
                   | Some i \<Rightarrow> put_pool (fx_base (fx_hdrs s1 nxt)) (i\<lparr>fi_prev := prev\<rparr>) s1)
                else s1);
          s3 = (if fx_last s2 = h then s2\<lparr>fx_last := prev\<rparr> else s2)
      in drop_pool b (fx_emit [FxFreePool b, FxFreeHeader h] s3))"

definition free_object :: "u64 \<Rightarrow> u64 \<Rightarrow> u64 \<Rightarrow> u64 \<Rightarrow> bool \<Rightarrow> flex \<Rightarrow> flex" where
  "free_object p b h prev known s =
     (let v = fx_hdrs s h;
          s1 = put_hdr h (v\<lparr>fx_fa := fa_free_num p 1 (fx_fa v)\<rparr>) s
      in if known then s1
         else put_pool b \<lparr>fi_hdr = h, fi_prev = prev, fi_num = fx_num h s1\<rparr> (s1\<lparr>fx_fix := b # fx_fix s1\<rparr>))"

definition fx_free :: "u64 \<Rightarrow> flex \<Rightarrow> flex option" where
  "fx_free p s =
     (let b = pool_base_of p; known = map_of (fx_pools s) b in
      case (case known of Some i \<Rightarrow> Some (fi_hdr i, fi_prev i) | None \<Rightarrow> find_hdr (fx_hdrs s) b (fx_pm s) 0) of
        None \<Rightarrow> None
      | Some (h, prev) \<Rightarrow>
          Some (if fx_num h s - 1 = 0 \<and> h \<noteq> fx_pm s then free_pool b h prev s
                else free_object p b h prev (known \<noteq> None) s))"

definition fx_remove_dram_chunk :: "u64 \<Rightarrow> flex \<Rightarrow> flex" where
  "fx_remove_dram_chunk b s = drop_pool b s"

text \<open>\<open>num_allocated\<close> and \<open>reserved_bytes\<close>.\<close>

partial_function (option) count_pools :: "(u64 \<Rightarrow> fx_hdr) \<Rightarrow> u64 \<Rightarrow> nat \<Rightarrow> nat option" where
  "count_pools m cur n = (if cur = 0 then Some n else count_pools m (fx_next (m cur)) (n + 1))"

definition fx_num_allocated :: "flex \<Rightarrow> nat option" where
  "fx_num_allocated s = count_pools (fx_hdrs s) (fx_pm s) 0"

definition fx_reserved_bytes :: "flex \<Rightarrow> u64 option" where
  "fx_reserved_bytes s = map_option (\<lambda>n. word_of_nat n * ucast (fx_size s)) (fx_num_allocated s)"

end
