(* ===== verification/Allocator_Unit.thy ===== *)
theory Allocator_Unit
  imports Fix_Size_Allocator Variable_Lists Flex_Allocator
begin

text \<open>
  \<open>src/AllocatorUnit.cc\<close> and \<open>src/ChunkAllocator.cc\<close>: a request goes by its size to one of six
  \<open>FixSizeAllocator\<close>s, to the main allocator of 2 MB chunks when it fills whole chunks so nearly that
  no header fits, or to the \<open>VariableAllocator\<close>.
\<close>

section \<open>ChunkAllocator\<close>

definition THRESHOLD :: nat where
  "THRESHOLD = CHUNK_SIZE - (HEADER_SIZE + MIN_ALLOC_BYTES)"

definition is_borderline :: "nat \<Rightarrow> bool" where
  "is_borderline sz = (let m = sz mod CHUNK_SIZE in m = 0 \<or> m > THRESHOLD)"

section \<open>State\<close>

text \<open>
  \<open>un_supply\<close> are the answers of the main allocator to the requests of \<open>ChunkAllocator\<close>, with the
  number of chunks it is asked for recorded in \<open>un_calls\<close> as \<open>Inl\<close>, chunks given back as \<open>Inr\<close>.
\<close>

record unit_state =
  un_id :: u32
  un_base :: u64
  un_var :: va
  un_small :: flex
  un_fixed :: "fsa list"
  un_supply :: "addr list"
  un_calls :: "(nat + addr \<times> nat) list"

definition unit_open :: "bool \<Rightarrow> u32 \<Rightarrow> u64 \<Rightarrow> unit_state \<Rightarrow> unit_state option" where
  "unit_open create alloc_id pool u =
     (let u1 = u\<lparr>un_var := va_open alloc_id create (un_var u), un_small := fx_open create pool (un_small u)\<rparr>;
          u2 = (if create then u1\<lparr>un_id := alloc_id, un_base := pool\<rparr> else u1)
      in if un_id u2 = alloc_id then Some (u2\<lparr>un_fixed := map (fs_open create) (un_fixed u2)\<rparr>) else None)"

definition is_fixed :: "nat \<Rightarrow> nat" where
  "is_fixed sz =
     (case find (\<lambda>i. sz = fixed_sizes ! i) [0..<length fixed_sizes] of Some i \<Rightarrow> i | None \<Rightarrow> length fixed_sizes)"

definition chunk_allocate :: "nat \<Rightarrow> unit_state \<Rightarrow> addr result \<times> unit_state" where
  "chunk_allocate sz u =
     (case un_supply u of [] \<Rightarrow> (Inl BadAlloc, u)
      | d # ds \<Rightarrow> (Inr d, u\<lparr>un_supply := ds, un_calls := un_calls u @ [Inl (num_chunks sz)]\<rparr>))"

text \<open>\<open>None\<close> is the assertion on the address.\<close>

definition chunk_release :: "addr \<Rightarrow> nat \<Rightarrow> unit_state \<Rightarrow> unit_state option" where
  "chunk_release p sz u =
     (if p mod CHUNK_SIZE = 0 then Some (u\<lparr>un_calls := un_calls u @ [Inr (p, num_chunks sz)]\<rparr>) else None)"

section \<open>Operations\<close>

definition unit_alloc ::
    "(addr set \<Rightarrow> addr) \<Rightarrow> (addr set \<Rightarrow> addr list) \<Rightarrow> nat \<Rightarrow> unit_state \<Rightarrow> (addr result \<times> unit_state) option" where
  "unit_alloc pick order sz0 u =
     (let sz = (if sz0 < MIN_ALLOC_BYTES then MIN_ALLOC_BYTES else sz0); i = is_fixed sz
      in if i < length fixed_sizes then
           map_option (\<lambda>(r, f). (r, u\<lparr>un_fixed := (un_fixed u)[i := f]\<rparr>))
             (fs_alloc pick (fixed_sizes ! i) (un_id u) (un_fixed u ! i))
         else if is_borderline sz then Some (chunk_allocate sz u)
         else map_option (\<lambda>(r, v). (r, u\<lparr>un_var := v\<rparr>)) (va_alloc order sz (un_var u)))"

text \<open>Which unit a block came from: the id in the header of its chunk, or -1 for whole chunks.\<close>

definition unit_get_alloc_id :: "addr \<Rightarrow> nat \<Rightarrow> unit_state \<Rightarrow> int" where
  "unit_get_alloc_id p sz u =
     (let i = is_fixed sz
      in if i < length fixed_sizes then sint (fs_get_alloc_id p (un_fixed u ! i))
         else if is_borderline sz then - 1
         else sint (va_get_alloc_id p (un_var u)))"

text \<open>
  \<open>free_chunk\<close>: pages go back to the main allocator. The variable allocator and the allocator of the
  4 KB chunks give back pages from within their \<open>free\<close>: these are the events that the call has
  added.
\<close>

definition give_back :: "(addr \<times> nat) list \<Rightarrow> unit_state \<Rightarrow> unit_state" where
  "give_back ps u = u\<lparr>un_calls := un_calls u @ map Inr ps\<rparr>"

fun va_pages :: "va_event \<Rightarrow> (addr \<times> nat) list" where
  "va_pages (VaFreeChunks p n) = [(p, n)]"
| "va_pages _ = []"

definition new_events :: "'e list \<Rightarrow> 'e list \<Rightarrow> 'e list" where
  "new_events old new = drop (length old) new"

definition free_form_free :: "addr \<Rightarrow> nat \<Rightarrow> unit_state \<Rightarrow> unit_state option" where
  "free_form_free p sz u =
     map_option (\<lambda>v. give_back (concat (map va_pages (new_events (va_events (un_var u)) (va_events v)))) (u\<lparr>un_var := v\<rparr>))
       (va_free p sz (un_var u))"

text \<open>The size of \<open>FlexFixedAllocator::RegionHeader\<close>, and what \<open>FlexFixedAllocator::free\<close> hands to its unit.\<close>

definition FLEX_HEADER_SIZE :: nat where
  "FLEX_HEADER_SIZE = 56"

fun fx_hand_back :: "fx_event \<Rightarrow> unit_state \<Rightarrow> unit_state option" where
  "fx_hand_back (FxFreePool b) u = Some (give_back [(unat b, 1)] u)"
| "fx_hand_back (FxFreeHeader h) u = free_form_free (unat h) FLEX_HEADER_SIZE u"
| "fx_hand_back (FxWriteNext _) u = Some u"

definition run_events :: "('e \<Rightarrow> unit_state \<Rightarrow> unit_state option) \<Rightarrow> 'e list \<Rightarrow> unit_state \<Rightarrow> unit_state option" where
  "run_events f es u = fold (\<lambda>e r. Option.bind r (f e)) es (Some u)"

definition small_chunk_free :: "addr \<Rightarrow> unit_state \<Rightarrow> unit_state option" where
  "small_chunk_free a u =
     Option.bind (fx_free (word_of_nat a) (un_small u))
       (\<lambda>f. run_events fx_hand_back (new_events (fx_events (un_small u)) (fx_events f)) (u\<lparr>un_small := f\<rparr>))"

fun fs_hand_back :: "fs_event \<Rightarrow> unit_state \<Rightarrow> unit_state option" where
  "fs_hand_back (FsFreeChunk a) u = small_chunk_free a u"
| "fs_hand_back _ u = Some u"

definition fixed_free :: "nat \<Rightarrow> addr \<Rightarrow> unit_state \<Rightarrow> unit_state option" where
  "fixed_free i p u =
     Option.bind (fs_free (fixed_sizes ! i) p (un_fixed u ! i))
       (\<lambda>f. run_events fs_hand_back (new_events (fs_events (un_fixed u ! i)) (fs_events f))
              (u\<lparr>un_fixed := (un_fixed u)[i := f]\<rparr>))"

definition unit_free :: "addr \<times> nat \<Rightarrow> unit_state \<Rightarrow> unit_state option" where
  "unit_free b u =
     (let p = fst b; sz = snd b; i = is_fixed sz
      in if i < length fixed_sizes then fixed_free i p u
         else if is_borderline sz then chunk_release p sz u
         else free_form_free p (if sz < MIN_ALLOC_BYTES then MIN_ALLOC_BYTES else sz) u)"

definition unit_clean_free_list :: "(addr \<times> nat) list \<Rightarrow> unit_state \<Rightarrow> unit_state option" where
  "unit_clean_free_list bs u = run_events unit_free bs u"

text \<open>The pages that the unit has given back between two of its states.\<close>

definition pages_freed :: "unit_state \<Rightarrow> unit_state \<Rightarrow> (addr \<times> nat) list" where
  "pages_freed u u' = concat (map (case_sum (\<lambda>_. []) (\<lambda>pn. [pn])) (new_events (un_calls u) (un_calls u')))"

section \<open>Statistics\<close>

definition sum_options :: "u64 option list \<Rightarrow> u64 option" where
  "sum_options xs = fold (\<lambda>x r. Option.bind r (\<lambda>a. map_option ((+) a) x)) xs (Some 0)"

definition fixed_used_bytes :: "unit_state \<Rightarrow> u64 option list" where
  "fixed_used_bytes u = map (\<lambda>i. fs_used_bytes (fixed_sizes ! i) (un_fixed u ! i)) [0..<length fixed_sizes]"

definition unit_used_bytes :: "unit_state \<Rightarrow> u64 option" where
  "unit_used_bytes u =
     sum_options (fixed_used_bytes u @
       [va_used_bytes (un_var u), va_reserved_bytes (un_var u), fx_reserved_bytes (un_small u)])"

definition unit_health :: "unit_state \<Rightarrow> u32 option" where
  "unit_health u =
     (case (sum_options (fixed_used_bytes u @ [va_used_bytes (un_var u)]),
            sum_options [fx_reserved_bytes (un_small u), va_reserved_bytes (un_var u)]) of
        (Some used, Some all) \<Rightarrow> Some (if all = 0 then 100 else ucast (100 * used div all))
      | _ \<Rightarrow> None)"

end
