(* ===== verification/Main_Allocator.thy ===== *)
theory Main_Allocator
  imports Allocator_Unit
begin

text \<open>
  \<open>src/Allocator.cc\<close>: the allocator of the graph. A transaction takes one \<open>AllocatorUnit\<close> for its
  requests and keeps it locked to its end; blocks that it frees are put on a list per unit, and the
  commit callback takes the locks of all these units and frees the blocks. Transactions are numbers.
\<close>

section \<open>AllocatorLock\<close>

text \<open>
  The owners of the unit locks by index. A thread that finds a lock taken sleeps between two attempts;
  \<open>env\<close> gives the owners that it finds after each sleep.
\<close>

type_synonym owners = "nat \<Rightarrow> nat option"

definition NUM_ATTEMPTS :: nat where
  "NUM_ATTEMPTS = 3"

text \<open>\<open>try_lock\<close>: whether it succeeded, whether it registered an unlock callback, the owners.\<close>

definition try_lock :: "nat \<Rightarrow> nat \<Rightarrow> owners \<Rightarrow> bool \<times> bool \<times> owners" where
  "try_lock tx l w =
     (if w l = Some tx then (True, False, w)
      else if w l = None then (True, True, w(l \<mapsto> tx))
      else (False, False, w))"

fun lock_attempts :: "nat \<Rightarrow> (nat \<Rightarrow> owners \<Rightarrow> owners) \<Rightarrow> nat \<Rightarrow> nat \<Rightarrow> owners \<Rightarrow> bool result \<times> owners" where
  "lock_attempts 0 env tx l w = (Inl LockTimeout, w)"
| "lock_attempts (Suc n) env tx l w =
     (case try_lock tx l w of
        (True, new, w') \<Rightarrow> (Inr new, w')
      | (False, _, w') \<Rightarrow> lock_attempts n env tx l (env n w'))"

definition alloc_lock :: "(nat \<Rightarrow> owners \<Rightarrow> owners) \<Rightarrow> nat \<Rightarrow> nat \<Rightarrow> owners \<Rightarrow> bool result \<times> owners" where
  "alloc_lock env tx l w = lock_attempts NUM_ATTEMPTS env tx l w"

text \<open>\<open>None\<close> is the assertion that the transaction owns the lock.\<close>

definition lock_release :: "nat \<Rightarrow> nat \<Rightarrow> owners \<Rightarrow> owners option" where
  "lock_release tx l w = (if w l = Some tx then Some (w(l := None)) else None)"

section \<open>State\<close>

text \<open>
  Lock \<open>i\<close> is that of unit \<open>i\<close>, lock \<open>length (al_units s)\<close> that of the chunks. \<open>al_tx\<close> is the unit of a
  transaction, \<open>al_unlock\<close> the locks that its finalize callbacks release, \<open>al_free\<close> the list of its
  \<open>MultiAllocatorFreeCallback\<close>, by ascending unit as in the ordered map.
\<close>

type_synonym free_lists = "(int \<times> (addr \<times> nat) list) list"

record alloc_state =
  al_units :: "unit_state list"
  al_chunks :: fa_state
  al_owners :: owners
  al_tx :: "nat \<Rightarrow> nat option"
  al_unlock :: "nat \<Rightarrow> nat list"
  al_free :: "nat \<Rightarrow> free_lists option"

definition chunks_lock :: "alloc_state \<Rightarrow> nat" where
  "chunks_lock s = length (al_units s)"

definition note_lock :: "nat \<Rightarrow> nat \<Rightarrow> bool \<Rightarrow> alloc_state \<Rightarrow> alloc_state" where
  "note_lock tx l new s = (if new then s\<lparr>al_unlock := (al_unlock s)(tx := al_unlock s tx @ [l])\<rparr> else s)"

definition take_lock :: "(nat \<Rightarrow> owners \<Rightarrow> owners) \<Rightarrow> nat \<Rightarrow> nat \<Rightarrow> alloc_state \<Rightarrow> unit result \<times> alloc_state" where
  "take_lock env tx l s =
     (case alloc_lock env tx l (al_owners s) of
        (Inl e, w) \<Rightarrow> (Inl e, s\<lparr>al_owners := w\<rparr>)
      | (Inr new, w) \<Rightarrow> (Inr (), note_lock tx l new (s\<lparr>al_owners := w\<rparr>)))"

section \<open>Allocation\<close>

text \<open>One round over the units, and \<open>get_allocator\<close>.\<close>

fun try_units :: "nat \<Rightarrow> nat list \<Rightarrow> owners \<Rightarrow> (nat \<times> bool) option \<times> owners" where
  "try_units tx [] w = (None, w)"
| "try_units tx (i # is) w =
     (case try_lock tx i w of (True, new, w') \<Rightarrow> (Some (i, new), w') | (False, _, w') \<Rightarrow> try_units tx is w')"

fun unit_attempts :: "nat \<Rightarrow> (nat \<Rightarrow> owners \<Rightarrow> owners) \<Rightarrow> nat \<Rightarrow> nat \<Rightarrow> owners \<Rightarrow> (nat \<times> bool) result \<times> owners" where
  "unit_attempts 0 env tx n w = (Inl LockTimeout, w)"
| "unit_attempts (Suc k) env tx n w =
     (case try_units tx [0..<n] w of
        (Some r, w') \<Rightarrow> (Inr r, w')
      | (None, w') \<Rightarrow> unit_attempts k env tx n (env k w'))"

definition get_allocator :: "(nat \<Rightarrow> owners \<Rightarrow> owners) \<Rightarrow> nat \<Rightarrow> alloc_state \<Rightarrow> nat result \<times> alloc_state" where
  "get_allocator env tx s =
     (case unit_attempts NUM_ATTEMPTS env tx (length (al_units s)) (al_owners s) of
        (Inl e, w) \<Rightarrow> (Inl e, s\<lparr>al_owners := w\<rparr>)
      | (Inr (i, new), w) \<Rightarrow> (Inr i, note_lock tx i new (s\<lparr>al_owners := w\<rparr>)))"

definition alloc_in_unit ::
    "(addr set \<Rightarrow> addr) \<Rightarrow> (addr set \<Rightarrow> addr list) \<Rightarrow> nat \<Rightarrow> nat \<Rightarrow> alloc_state \<Rightarrow> (addr result \<times> alloc_state) option" where
  "alloc_in_unit pick order sz i s =
     map_option (\<lambda>(r, u). (r, s\<lparr>al_units := (al_units s)[i := u]\<rparr>)) (unit_alloc pick order sz (al_units s ! i))"

definition main_alloc ::
    "(nat \<Rightarrow> owners \<Rightarrow> owners) \<Rightarrow> (addr set \<Rightarrow> addr) \<Rightarrow> (addr set \<Rightarrow> addr list) \<Rightarrow> nat \<Rightarrow> nat \<Rightarrow> alloc_state \<Rightarrow>
     (addr result \<times> alloc_state) option" where
  "main_alloc env pick order tx sz s =
     (case al_tx s tx of
        Some i \<Rightarrow> alloc_in_unit pick order sz i s
      | None \<Rightarrow>
          (case get_allocator env tx s of
             (Inl e, s1) \<Rightarrow> Some (Inl e, s1)
           | (Inr i, s1) \<Rightarrow> alloc_in_unit pick order sz i (s1\<lparr>al_tx := (al_tx s1)(tx \<mapsto> i)\<rparr>)))"

definition main_alloc_chunk :: "(nat \<Rightarrow> owners \<Rightarrow> owners) \<Rightarrow> nat \<Rightarrow> u32 \<Rightarrow> alloc_state \<Rightarrow> u64 result \<times> alloc_state" where
  "main_alloc_chunk env tx num s =
     (case take_lock env tx (chunks_lock s) s of
        (Inl e, s1) \<Rightarrow> (Inl e, s1)
      | (Inr _, s1) \<Rightarrow> (let (r, c) = fa_alloc_num num (al_chunks s1) in (r, s1\<lparr>al_chunks := c\<rparr>)))"

definition main_free_chunk :: "u64 \<Rightarrow> u32 \<Rightarrow> alloc_state \<Rightarrow> alloc_state" where
  "main_free_chunk base num s = s\<lparr>al_chunks := fa_free_num base num (al_chunks s)\<rparr>"

section \<open>Free\<close>

text \<open>\<open>MultiAllocatorFreeCallback::add\<close>; \<open>insert_free\<close> is \<open>_free_list[id].push_back(s)\<close>.\<close>

fun insert_free :: "int \<Rightarrow> addr \<times> nat \<Rightarrow> free_lists \<Rightarrow> free_lists" where
  "insert_free i b [] = [(i, [b])]"
| "insert_free i b ((j, bs) # fl) =
     (if i < j then (i, [b]) # (j, bs) # fl
      else if i = j then (j, bs @ [b]) # fl
      else (j, bs) # insert_free i b fl)"

definition free_list_add :: "int \<Rightarrow> addr \<times> nat \<Rightarrow> free_lists \<Rightarrow> free_lists" where
  "free_list_add alloc_id b fl =
     (let i = (if alloc_id < 0 then (case fl of [] \<Rightarrow> 0 | (j, _) # _ \<Rightarrow> j) else alloc_id)
      in insert_free i b fl)"

definition free_delayed :: "nat \<Rightarrow> int \<Rightarrow> addr \<times> nat \<Rightarrow> alloc_state \<Rightarrow> alloc_state" where
  "free_delayed tx alloc_id b s =
     (let fl = (case al_free s tx of None \<Rightarrow> [] | Some fl \<Rightarrow> fl)
      in s\<lparr>al_free := (al_free s)(tx \<mapsto> free_list_add alloc_id b fl)\<rparr>)"

text \<open>
  \<open>Allocator::free\<close>. Any unit can read the id in a chunk's header: it is read through a view \<open>u\<close> of
  persistent memory.
\<close>

definition main_free :: "unit_state \<Rightarrow> nat \<Rightarrow> addr \<Rightarrow> nat \<Rightarrow> alloc_state \<Rightarrow> alloc_state" where
  "main_free u tx p sz s = (if p = 0 \<or> sz = 0 then s else free_delayed tx (unit_get_alloc_id p sz u) (p, sz) s)"

fun lock_allocators :: "(nat \<Rightarrow> owners \<Rightarrow> owners) \<Rightarrow> nat \<Rightarrow> nat list \<Rightarrow> alloc_state \<Rightarrow> unit result \<times> alloc_state" where
  "lock_allocators env tx [] s = (Inr (), s)"
| "lock_allocators env tx (i # is) s =
     (case take_lock env tx i s of (Inl e, s1) \<Rightarrow> (Inl e, s1) | (Inr _, s1) \<Rightarrow> lock_allocators env tx is s1)"

text \<open>
  One unit of the list; \<open>free_pages\<close> are its calls of \<open>free_chunk\<close>, which only change the allocator of
  the pages.
\<close>

definition free_pages :: "(addr \<times> nat) list \<Rightarrow> fa_state \<Rightarrow> fa_state" where
  "free_pages ps c = fold (\<lambda>(p, n). fa_free_num (word_of_nat p) (word_of_nat n)) ps c"

definition clean_unit :: "int \<times> (addr \<times> nat) list \<Rightarrow> alloc_state \<Rightarrow> alloc_state option" where
  "clean_unit x s =
     (let u = al_units s ! nat (fst x)
      in map_option (\<lambda>u'. s\<lparr>al_units := (al_units s)[nat (fst x) := u'], al_chunks := free_pages (pages_freed u u') (al_chunks s)\<rparr>)
           (unit_clean_free_list (snd x) u))"

fun clean_units :: "free_lists \<Rightarrow> alloc_state \<Rightarrow> alloc_state option" where
  "clean_units [] s = Some s"
| "clean_units (x # fl) s = Option.bind (clean_unit x s) (clean_units fl)"

definition main_clean_free_list ::
    "(nat \<Rightarrow> owners \<Rightarrow> owners) \<Rightarrow> nat \<Rightarrow> free_lists \<Rightarrow> alloc_state \<Rightarrow> (unit result \<times> alloc_state) option" where
  "main_clean_free_list env tx fl s =
     (if fl = [] then Some (Inr (), s)
      else case take_lock env tx (chunks_lock s) s of
        (Inl e, s1) \<Rightarrow> Some (Inl e, s1)
      | (Inr _, s1) \<Rightarrow>
          (case lock_allocators env tx (map (nat \<circ> fst) fl) s1 of
             (Inl e, s2) \<Rightarrow> Some (Inl e, s2)
           | (Inr _, s2) \<Rightarrow> map_option (\<lambda>s3. (Inr (), s3)) (clean_units fl s2)))"

section \<open>Statistics\<close>

definition main_used_bytes :: "alloc_state \<Rightarrow> u64 option" where
  "main_used_bytes s = sum_options (map unit_used_bytes (al_units s) @ [Some (fa_used_bytes (al_chunks s))])"

definition main_region_size :: "u64 \<Rightarrow> alloc_state \<Rightarrow> u64" where
  "main_region_size pool s = fa_region_size pool (al_chunks s) + word_of_nat CHUNK_SIZE"

definition main_occupancy :: "u64 \<Rightarrow> alloc_state \<Rightarrow> u32" where
  "main_occupancy pool s =
     ucast (100 * (fa_used_bytes (al_chunks s) + word_of_nat CHUNK_SIZE) div main_region_size pool s)"

definition main_health :: "alloc_state \<Rightarrow> u32 option" where
  "main_health s =
     map_option (\<lambda>h. h div word_of_nat (length (al_units s)))
       (fold (\<lambda>u r. Option.bind r (\<lambda>a. map_option ((+) a) (unit_health u))) (al_units s) (Some 0))"

end
