(* ===== verification/Variable_Laws.thy ===== *)
theory Variable_Laws
  imports Variable_Lists
begin

text \<open>
  The invariant of \<open>VariableAllocator\<close> and what \<open>alloc\<close> and \<open>free\<close> do to the blocks in use: the list of
  chunks is split where the scan stands, \<open>B\<close> gives the blocks of each chunk.
\<close>

section \<open>The invariant\<close>

fun va_path :: "(addr \<Rightarrow> ffchunk) \<Rightarrow> addr \<Rightarrow> addr list \<Rightarrow> bool" where
  "va_path m p [] = (p = 0)"
| "va_path m p (a # as) = (p = a \<and> a \<noteq> 0 \<and> va_path m (ff_next (m a)) as)"

definition first :: "addr list \<Rightarrow> addr" where
  "first as = (case as of [] \<Rightarrow> 0 | a # _ \<Rightarrow> a)"

definition final :: "addr list \<Rightarrow> addr" where
  "final as = (if as = [] then 0 else last as)"

definition va_inv :: "va \<Rightarrow> (addr \<Rightarrow> block set) \<Rightarrow> addr list \<Rightarrow> addr list \<Rightarrow> bool" where
  "va_inv s B xs ys \<longleftrightarrow>
     va_path (va_chunks s) (va_start s) (xs @ ys) \<and> distinct (xs @ ys) \<and>
     va_scan s = first ys \<and> va_last s = final xs \<and> va_set s \<subseteq> set (xs @ ys) \<and>
     (\<forall>a\<in>set (xs @ ys). CHUNK_SIZE dvd a \<and> (\<exists>fl. ff_rep (va_chunks s a) fl (B a))) \<and>
     (\<forall>a. a \<notin> set (xs @ ys) \<longrightarrow> B a = {}) \<and>
     distinct (va_supply s) \<and> (\<forall>d\<in>set (va_supply s). d \<noteq> 0 \<and> CHUNK_SIZE dvd d \<and> d \<notin> set (xs @ ys))"

definition va_ok :: "va \<Rightarrow> (addr \<Rightarrow> block set) \<Rightarrow> bool" where
  "va_ok s B \<longleftrightarrow> (\<exists>xs ys. va_inv s B xs ys)"

text \<open>The blocks by their addresses, and a block that has been added.\<close>

definition va_live :: "(addr \<Rightarrow> block set) \<Rightarrow> block set" where
  "va_live B = {(a + off, n) |a off n. (off, n) \<in> B a}"

definition va_got :: "(addr \<Rightarrow> block set) \<Rightarrow> nat \<Rightarrow> addr \<Rightarrow> (addr \<Rightarrow> block set) \<Rightarrow> bool" where
  "va_got B sz p B' \<longleftrightarrow> (\<exists>a off. p = a + off \<and> (off, sz) \<notin> B a \<and> B' = B(a := insert (off, sz) (B a)))"

lemma first_simps [simp]: "first [] = 0" "first (a # as) = a"
  by (simp_all add: first_def)

lemma final_simps [simp]: "final [] = 0" "final (as @ [a]) = a" "as \<noteq> [] \<Longrightarrow> final as = last as"
  by (simp_all add: final_def)

lemma path_cong: "va_path m p as \<Longrightarrow> \<forall>a\<in>set as. ff_next (m' a) = ff_next (m a) \<Longrightarrow> va_path m' p as"
  by (induction as arbitrary: p) auto

lemma path_first: "va_path m p as \<Longrightarrow> p = first as"
  by (cases as) auto

lemma path_append: "va_path m p (as @ b # bs) \<Longrightarrow> b \<noteq> 0 \<and> va_path m b (b # bs) \<and> ff_next (m b) = first bs"
  by (induction as arbitrary: p) (auto dest: path_first)

lemma path_nonzero: "va_path m p as \<Longrightarrow> a \<in> set as \<Longrightarrow> a \<noteq> 0"
  by (induction as arbitrary: p) auto

text \<open>What only concerns events and the callback keeps the invariant, and so do set changes within the list.\<close>

lemma va_inv_simps [simp]:
  "va_inv (va_emit es s) B xs ys = va_inv s B xs ys"
  "va_inv (va_restore a r s) B xs ys = va_inv s B xs ys"
  by (simp_all add: va_inv_def va_emit_def va_restore_def)

lemma va_inv_insert: "va_inv s B xs ys \<Longrightarrow> a \<in> set (xs @ ys) \<Longrightarrow> va_inv (va_insert a s) B xs ys"
  by (simp add: va_inv_def va_insert_def)

lemma va_inv_erase: "va_inv s B xs ys \<Longrightarrow> va_inv (va_erase a s) B xs ys"
  by (auto simp: va_inv_def va_erase_def)

lemma va_fields [simp]:
  "va_chunks (va_emit es s) = va_chunks s" "va_scan (va_emit es s) = va_scan s" "va_set (va_emit es s) = va_set s"
  "va_start (va_emit es s) = va_start s" "va_last (va_emit es s) = va_last s" "va_supply (va_emit es s) = va_supply s"
  "va_chunks (va_restore a r s) = va_chunks s" "va_scan (va_restore a r s) = va_scan s" "va_supply (va_restore a r s) = va_supply s"
  "va_start (va_restore a r s) = va_start s" "va_last (va_restore a r s) = va_last s" "va_set (va_restore a r s) = va_set s"
  "va_chunks (va_insert a s) = va_chunks s" "va_scan (va_insert a s) = va_scan s" "va_supply (va_insert a s) = va_supply s"
  "va_chunks (va_erase a s) = va_chunks s" "va_start (va_erase a s) = va_start s" "va_last (va_erase a s) = va_last s"
  "va_scan (va_erase a s) = va_scan s" "va_supply (va_erase a s) = va_supply s" "va_set (va_erase a s) = va_set s - {a}"
  "va_supply (put_chunk a c s) = va_supply s" "va_scan (put_chunk a c s) = va_scan s"
  "va_start (put_chunk a c s) = va_start s" "va_last (put_chunk a c s) = va_last s" "va_set (put_chunk a c s) = va_set s"
  "va_chunks (put_chunk a c s) = (va_chunks s)(a := c)"
  by (simp_all add: va_emit_def va_restore_def va_insert_def va_erase_def put_chunk_def)

lemma va_inv_put:
  assumes inv: "va_inv s B xs ys" and a: "a \<in> set (xs @ ys)" and c: "ff_next c = ff_next (va_chunks s a)" "ff_rep c fl L"
  shows "va_inv (put_chunk a c s) (B(a := L)) xs ys"
proof -
  have "va_path ((va_chunks s)(a := c)) (va_start s) (xs @ ys)"
    by (rule path_cong [of "va_chunks s"]) (use inv c in \<open>auto simp: va_inv_def\<close>)
  then show ?thesis using inv a c(2) by (auto simp: va_inv_def)
qed

section \<open>Allocation\<close>

lemma va_chunk_alloc_ok:
  assumes inv: "va_inv s B xs ys" and a: "a \<in> set (xs @ ys)" and sz: "MIN_ALLOC_BYTES \<le> sz"
  shows "(va_chunk_alloc sz a s = Some (None, s) \<and> ff_max (va_chunks s a) < sz) \<or>
    (\<exists>p s' B'. va_chunk_alloc sz a s = Some (Some p, s') \<and> va_inv s' B' xs ys \<and> va_got B sz p B' \<and> va_scan s' = va_scan s \<and>
      va_supply s' = va_supply s \<and> ff_next (va_chunks s' a) = ff_next (va_chunks s a))"
proof (cases "sz \<le> ff_max (va_chunks s a)")
  case True
  obtain fl where rep: "ff_rep (va_chunks s a) fl (B a)" using inv a unfolding va_inv_def by blast
  obtain off c' es fl' where al: "ff_alloc sz a (va_chunks s a) = Some (Some off, c', es)"
      "ff_rep c' fl' (insert (off, sz) (B a))" "(off, sz) \<notin> B a" "ff_next c' = ff_next (va_chunks s a)"
    using ff_alloc_ok [OF rep sz True] by metis
  let ?s = "put_chunk a c' (va_emit (map VaChunk es) s)"
  have "va_inv ?s (B(a := insert (off, sz) (B a))) xs ys" using va_inv_put [of "va_emit (map VaChunk es) s"] inv a al by simp
  moreover have "va_got B sz (a + off) (B(a := insert (off, sz) (B a)))" using al(3) by (auto simp: va_got_def)
  moreover have "va_chunk_alloc sz a s = Some (Some (a + off), ?s)" using al(1) by (simp add: va_chunk_alloc_def)
  moreover have "va_scan ?s = va_scan s \<and> va_supply ?s = va_supply s \<and> ff_next (va_chunks ?s a) = ff_next (va_chunks s a)"
    using al(4) by simp
  ultimately show ?thesis by blast
next
  case False
  then show ?thesis by (simp add: va_chunk_alloc_def ff_alloc_def put_chunk_def va_emit_def)
qed

text \<open>The chunks of the DRAM set.\<close>

lemma va_try_ok:
  "va_inv s B xs ys \<Longrightarrow> set as \<subseteq> set (xs @ ys) \<Longrightarrow> MIN_ALLOC_BYTES \<le> sz \<Longrightarrow>
   va_try sz as s = Some (None, s) \<or> (\<exists>p s' B'. va_try sz as s = Some (Some p, s') \<and> va_inv s' B' xs ys \<and> va_got B sz p B')"
proof (induction as)
  case (Cons a as)
  from va_chunk_alloc_ok [OF Cons.prems(1) _ Cons.prems(3), of a] Cons.prems(2)
  consider "va_chunk_alloc sz a s = Some (None, s)"
    | p s' B' where "va_chunk_alloc sz a s = Some (Some p, s')" "va_inv s' B' xs ys" "va_got B sz p B'" by auto
  then show ?case
  proof cases
    case 1
    then show ?thesis using Cons by simp
  next
    case 2
    then show ?thesis using va_inv_erase [of "va_restore a False s'" B' xs ys a] by auto
  qed
qed simp

text \<open>The scan moves the first chunk of \<open>ys\<close> to the end of \<open>xs\<close>.\<close>

lemma va_inv_step:
  assumes "va_inv s B xs (a # ys)"
  shows "va_inv (s\<lparr>va_last := a, va_scan := ff_next (va_chunks s a)\<rparr>) B (xs @ [a]) ys"
proof -
  have "va_path (va_chunks s) (va_start s) (xs @ a # ys)" using assms by (simp add: va_inv_def)
  then have "ff_next (va_chunks s a) = first ys" using path_append by blast
  then show ?thesis using assms by (auto simp: va_inv_def)
qed

lemma va_scan_loop_ok:
  "va_inv s B xs ys \<Longrightarrow> MIN_ALLOC_BYTES \<le> sz \<Longrightarrow>
   (\<exists>s'. va_scan_loop sz s = Some (None, s') \<and> va_inv s' B (xs @ ys) [] \<and> va_supply s' = va_supply s) \<or>
   (\<exists>p s' B'. va_scan_loop sz s = Some (Some p, s') \<and> va_ok s' B' \<and> va_got B sz p B')"
proof (induction ys arbitrary: s xs)
  case Nil
  then show ?case by (subst (1 2) va_scan_loop.simps) (simp add: va_inv_def)
next
  case (Cons a ys)
  have scan: "va_scan s = a" "a \<noteq> 0" using Cons.prems(1) path_nonzero by (auto simp: va_inv_def)
  define s1 where "s1 = (if va_has_space a s then va_restore a False s else s)"
  have i1: "va_inv s1 B xs (a # ys)" "va_supply s1 = va_supply s" using Cons.prems(1) by (simp_all add: s1_def)
  define fin where "fin s2 = (let s3 = (if va_has_space a s2 then va_insert a s2 else s2)
      in s3\<lparr>va_last := a, va_scan := ff_next (va_chunks s3 a)\<rparr>)" for s2
  have fin: "va_inv (fin s2) B2 (xs @ [a]) ys" "va_supply (fin s2) = va_supply s2" if "va_inv s2 B2 xs (a # ys)" for s2 B2
    using va_inv_step [of "if va_has_space a s2 then va_insert a s2 else s2" B2 xs a ys] va_inv_insert [OF that, of a] that
    by (auto simp: fin_def Let_def)
  have eq: "va_scan_loop sz s = (case va_chunk_alloc sz a s1 of None \<Rightarrow> None
      | Some (r, s2) \<Rightarrow> if r \<noteq> None then Some (r, fin s2) else va_scan_loop sz (fin s2))"
    by (subst va_scan_loop.simps) (simp only: scan s1_def fin_def Let_def if_False)
  from va_chunk_alloc_ok [OF i1(1) _ Cons.prems(2), of a]
  consider "va_chunk_alloc sz a s1 = Some (None, s1)"
    | p s' B' where "va_chunk_alloc sz a s1 = Some (Some p, s')" "va_inv s' B' xs (a # ys)" "va_got B sz p B'" by auto
  then show ?case
  proof cases
    case 1
    then have e: "va_scan_loop sz s = va_scan_loop sz (fin s1)" by (simp add: eq)
    show ?thesis using Cons.IH [OF fin(1) [OF i1(1)] Cons.prems(2)] fin(2) [OF i1(1)] i1(2) by (simp add: e)
  next
    case 2
    then have "va_scan_loop sz s = Some (Some p, fin s')" by (simp add: eq)
    moreover have "va_ok (fin s') B'" using fin(1) [OF 2(2)] by (auto simp: va_ok_def)
    ultimately show ?thesis using 2(3) by blast
  qed
qed

section \<open>New chunks\<close>

lemma path_link:
  "va_path m p as \<Longrightarrow> as \<noteq> [] \<Longrightarrow> distinct as \<Longrightarrow> d \<noteq> 0 \<Longrightarrow> d \<notin> set as \<Longrightarrow> ff_next (m d) = 0 \<Longrightarrow>
   va_path (m(last as := (m (last as))\<lparr>ff_next := d\<rparr>)) p (as @ [d])"
proof (induction as arbitrary: p)
  case (Cons a as)
  show ?case
  proof (cases "as = []")
    case False
    then have "last as \<noteq> a" using Cons.prems(3) last_in_set by fastforce
    then show ?thesis using Cons False by simp
  qed (use Cons.prems in auto)
qed simp

lemma ff_rep_next: "ff_rep (c\<lparr>ff_next := n\<rparr>) fl L = ff_rep c fl L"
  by (simp add: ff_rep_def)

text \<open>A chunk with representation \<open>L\<close> joins the list when all chunks have been scanned.\<close>

lemma link_chunk_ok:
  assumes inv: "va_inv s B xs []" and d: "d \<noteq> 0" "CHUNK_SIZE dvd d" "d \<notin> set xs" "d \<notin> set ds" "va_supply s = d # ds"
    and c: "ff_rep c fl L" "ff_next c = 0"
  shows "\<exists>s'. link_chunk ev d (va_emit es (put_chunk d c (s\<lparr>va_supply := ds\<rparr>))) = Some s' \<and> va_inv s' (B(d := L)) (xs @ [d]) [] \<and>
    va_chunks s' d = c"
proof (cases "xs = []")
  case True
  then have "va_start s = 0" using inv by (simp add: va_inv_def)
  then show ?thesis using inv d c True by (auto simp: link_chunk_def va_inv_def)
next
  case False
  let ?m = "(va_chunks s)(d := c)"
  have path: "va_path (va_chunks s) (va_start s) xs" and dist: "distinct xs" and l: "va_last s = last xs"
    using inv False by (simp_all add: va_inv_def)
  have lx: "last xs \<in> set xs" "last xs \<noteq> 0" "last xs \<noteq> d"
    using False path_nonzero [OF path] d(3) last_in_set [OF False] by metis+
  have st: "va_start s \<noteq> 0" using path False by (cases xs) auto
  have "va_path ?m (va_start s) xs" by (rule path_cong [OF path]) (use d(3) in auto)
  then have "va_path (?m(last xs := (?m (last xs))\<lparr>ff_next := d\<rparr>)) (va_start s) (xs @ [d])"
    using path_link [of ?m "va_start s" xs d] False dist d c(2) by simp
  then show ?thesis
    using inv d c lx st l dist by (auto simp: link_chunk_def va_inv_def ff_rep_next)
qed

lemma va_from_new_ok:
  assumes inv: "va_inv s B xs []" and sz: "MIN_ALLOC_BYTES \<le> sz" "sz \<le> CHUNK_SIZE - HEADER_SIZE"
  shows "(va_from_new sz s = Some (Inl BadAlloc, s) \<and> va_supply s = []) \<or>
    (\<exists>p s' B'. va_from_new sz s = Some (Inr p, s') \<and> va_ok s' B' \<and> va_got B sz p B')"
proof (cases "va_supply s")
  case Nil
  then show ?thesis by (simp add: va_from_new_def va_alloc_chunk_def)
next
  case (Cons d ds)
  have d: "d \<noteq> 0" "CHUNK_SIZE dvd d" "d \<notin> set xs" "d \<notin> set ds" using inv Cons by (auto simp: va_inv_def)
  let ?c = "new_ffchunk (va_id s) 0"
  have c: "ff_rep ?c [(HEADER_SIZE, CHUNK_SIZE - HEADER_SIZE)] {}"
    using new_ffchunk_ok [of 0 "va_id s"] by (simp add: HEADER_SIZE_def MIN_ALLOC_BYTES_def CHUNK_SIZE_def)
  have n: "ff_next ?c = 0" "ff_max ?c = CHUNK_SIZE - HEADER_SIZE" by (simp_all add: new_ffchunk_def Let_def)
  have B: "B d = {}" using inv d(3) by (simp add: va_inv_def)
  obtain s1 where s1: "va_alloc_chunk s = Some (Inr d, s1)" "va_inv s1 (B(d := {})) (xs @ [d]) []" "va_chunks s1 d = ?c"
    using link_chunk_ok [OF inv d Cons c n(1), of VaInnerWrite "[VaFlushChunk d]"] Cons
    by (auto simp: va_alloc_chunk_def Let_def)
  have "B(d := {}) = B" using B by (simp add: fun_upd_idem)
  then have inv1: "va_inv (va_restore d False s1) B (xs @ [d]) []" using s1(2) by simp
  from va_chunk_alloc_ok [OF inv1 _ sz(1), of d] n(2) sz(2) s1(3)
  obtain p s2 B' where "va_chunk_alloc sz d (va_restore d False s1) = Some (Some p, s2)"
      "va_inv s2 B' (xs @ [d]) []" "va_got B sz p B'" by auto
  then show ?thesis using s1(1) va_inv_insert [of s2 B' "xs @ [d]" "[]" d] by (auto simp: va_from_new_def va_ok_def)
qed

text \<open>\<open>alloc\<close> up to the size that fits in a chunk, whatever the order of the set is.\<close>

lemma va_alloc_ok:
  assumes ok: "va_ok s B" and sz: "MIN_ALLOC_BYTES \<le> sz" "sz \<le> CHUNK_SIZE - HEADER_SIZE"
    and order: "set (order (va_set s)) \<subseteq> va_set s"
  shows "\<exists>r s'. va_alloc order sz s = Some (r, s') \<and>
    (case r of Inl e \<Rightarrow> e = BadAlloc \<and> va_supply s = [] \<and> va_ok s' B | Inr p \<Rightarrow> \<exists>B'. va_ok s' B' \<and> va_got B sz p B')"
proof -
  obtain xs ys where inv: "va_inv s B xs ys" using ok by (auto simp: va_ok_def)
  have small: "\<not> CHUNK_SIZE < sz" using sz(2) by (simp add: CHUNK_SIZE_def HEADER_SIZE_def)
  have "set (order (va_set s)) \<subseteq> set (xs @ ys)" using order inv by (auto simp: va_inv_def)
  from va_try_ok [OF inv this sz(1)]
  consider "va_try sz (order (va_set s)) s = Some (None, s)"
    | p s' B' where "va_try sz (order (va_set s)) s = Some (Some p, s')" "va_inv s' B' xs ys" "va_got B sz p B'" by blast
  then show ?thesis
  proof cases
    case 1
    from va_scan_loop_ok [OF inv sz(1)]
    consider s1 where "va_scan_loop sz s = Some (None, s1)" "va_inv s1 B (xs @ ys) []" "va_supply s1 = va_supply s"
      | p s' B' where "va_scan_loop sz s = Some (Some p, s')" "va_ok s' B'" "va_got B sz p B'" by blast
    then show ?thesis
    proof cases
      case s1: 1
      then have "va_alloc order sz s = va_from_new sz s1" using 1 small by (simp add: va_alloc_def)
      moreover have "va_ok s1 B" using s1(2) by (auto simp: va_ok_def)
      ultimately show ?thesis using va_from_new_ok [OF s1(2) sz] s1(3) by auto
    next
      case 2
      then show ?thesis using 1 small by (auto simp: va_alloc_def)
    qed
  next
    case 2
    then show ?thesis using small by (auto simp: va_alloc_def va_ok_def)
  qed
qed

section \<open>Free\<close>

lemma find_prev_ok:
  "va_path m p (us @ a # vs) \<Longrightarrow> a \<notin> set us \<Longrightarrow>
   va_find_prev m a p prev = Some (True, if us = [] then prev else last us)"
proof (induction us arbitrary: p prev)
  case Nil
  then show ?case by (subst va_find_prev.simps) simp
next
  case (Cons u us)
  then show ?case by (subst va_find_prev.simps) auto
qed

lemma path_unlink:
  "va_path m p (us @ a # vs) \<Longrightarrow> us \<noteq> [] \<Longrightarrow> distinct (us @ a # vs) \<Longrightarrow>
   va_path (m(last us := (m (last us))\<lparr>ff_next := ff_next (m a)\<rparr>)) p (us @ vs)"
proof (induction us arbitrary: p)
  case (Cons u us)
  show ?case
  proof (cases "us = []")
    case True
    have "va_path m (ff_next (m a)) vs" using Cons.prems(1) True by simp
    then have "va_path (m(u := (m u)\<lparr>ff_next := ff_next (m a)\<rparr>)) (ff_next (m a)) vs"
      by (rule path_cong) (use Cons.prems(3) in auto)
    then show ?thesis using Cons.prems True by (simp add: fun_upd_def)
  next
    case False
    then have "last us \<noteq> u" using Cons.prems(3) last_in_set by fastforce
    then show ?thesis using Cons False by simp
  qed
qed simp

lemma first_append: "first (us @ vs) = (if us = [] then first vs else first us)"
  by (cases us) auto

lemma final_append: "final (us @ vs) = (if vs = [] then final us else final vs)"
  by (simp add: final_def)

text \<open>The list without \<open>a\<close>: what \<open>_last_chunk_scanned\<close> and \<open>_chunk_to_scan\<close> become.\<close>

lemma split_remove:
  assumes "xs @ ys = us @ a # vs" "distinct (xs @ ys)" "a \<noteq> 0" "0 \<notin> set (xs @ ys)"
  shows "remove1 a xs @ remove1 a ys = us @ vs"
    "final (remove1 a xs) = (if final xs = a then (if us = [] then 0 else last us) else final xs)"
    "first (remove1 a ys) = (if first ys = a then first vs else first ys)"
proof -
  have nd: "a \<notin> set us" "a \<notin> set vs" using assms(1, 2) by auto
  consider k where "us = xs @ k" "ys = k @ a # vs" | k where "xs = us @ a # k" "vs = k @ ys"
  proof -
    from assms(1) consider k where "xs = us @ k" "k @ ys = a # vs" | k where "xs @ k = us" "ys = k @ a # vs"
      by (auto simp: append_eq_append_conv2)
    then show thesis
    proof cases
      case 1
      then show ?thesis using that by (cases k) auto
    qed (use that in blast)
  qed
  then have "remove1 a xs @ remove1 a ys = us @ vs \<and>
    final (remove1 a xs) = (if final xs = a then (if us = [] then 0 else last us) else final xs) \<and>
    first (remove1 a ys) = (if first ys = a then first vs else first ys)"
  proof cases
    case 1
    have "a \<notin> set xs" "a \<notin> set k" using nd 1 by auto
    moreover have "final xs \<noteq> a" using \<open>a \<notin> set xs\<close> assms(3) by (auto simp: final_def)
    moreover have "first ys = a \<longleftrightarrow> k = []" using 1 \<open>a \<notin> set k\<close> by (cases k) auto
    ultimately show ?thesis using 1 by (auto simp: remove1_append remove1_idem first_append)
  next
    case 2
    have "a \<notin> set ys" "a \<notin> set k" using nd 2 by auto
    moreover have "first ys \<noteq> a" using \<open>a \<notin> set ys\<close> assms(3) by (cases ys) auto
    moreover have "final xs = a \<longleftrightarrow> k = []" using 2 \<open>a \<notin> set k\<close> by (auto simp: final_def)
    ultimately show ?thesis using 2 nd by (auto simp: remove1_append remove1_idem final_append final_def)
  qed
  then show "remove1 a xs @ remove1 a ys = us @ vs"
    "final (remove1 a xs) = (if final xs = a then (if us = [] then 0 else last us) else final xs)"
    "first (remove1 a ys) = (if first ys = a then first vs else first ys)" by simp_all
qed

lemma va_unlink_ok:
  assumes inv: "va_inv s B xs ys" and a: "a \<in> set (xs @ ys)" "B a = {}" "a \<notin> va_set s"
  shows "\<exists>s'. va_unlink a s = Some s' \<and> va_inv s' B (remove1 a xs) (remove1 a ys)"
proof -
  obtain us vs where uv: "xs @ ys = us @ a # vs" using split_list [OF a(1)] by blast
  have path: "va_path (va_chunks s) (va_start s) (us @ a # vs)" and dist: "distinct (xs @ ys)" using inv uv by (simp_all add: va_inv_def)
  have nz: "0 \<notin> set (xs @ ys)" "a \<noteq> 0" using path_nonzero [OF path] uv a(1) by auto
  note R = split_remove [OF uv dist nz(2) nz(1)]
  have d: "a \<notin> set us" "a \<notin> set vs" "distinct (us @ a # vs)" using dist uv by auto
  have nxt: "ff_next (va_chunks s a) = first vs" using path_append [OF path] by simp
  have start: "va_start s = a \<longleftrightarrow> us = []" using path_first [OF path] d(1) by (cases us) auto
  have find: "va_find_prev (va_chunks s) a (va_start s) 0 = Some (True, if us = [] then 0 else last us)"
    using find_prev_ok [OF path d(1)] .
  let ?prev = "if us = [] then 0 else last us"
  let ?m = "if us = [] then va_chunks s else (va_chunks s)(last us := (va_chunks s (last us))\<lparr>ff_next := first vs\<rparr>)"
  let ?st = "if us = [] then first vs else va_start s"
  define s2 where "s2 = (if us = [] then va_emit [VaWrite 0] (s\<lparr>va_start := first vs\<rparr>)
      else va_emit [VaWrite ?prev] (put_chunk ?prev ((va_chunks s ?prev)\<lparr>ff_next := first vs\<rparr>) s))"
  define s' where "s' = (let t = (if va_last s2 = a then s2\<lparr>va_last := ?prev\<rparr> else s2)
      in if va_scan t = a then t\<lparr>va_scan := first vs\<rparr> else t)"
  have eq: "va_unlink a s = Some s'"
    using find by (simp add: va_unlink_def nxt start s'_def s2_def Let_def)
  have f: "va_chunks s' = ?m" "va_start s' = ?st" "va_set s' = va_set s" "va_supply s' = va_supply s"
    "va_last s' = final (remove1 a xs)" "va_scan s' = first (remove1 a ys)"
    using inv unfolding R by (simp_all add: s'_def s2_def Let_def va_inv_def)
  have "va_path ?m ?st (us @ vs)"
  proof (cases "us = []")
    case True
    then show ?thesis using path nxt by simp
  next
    case False
    then show ?thesis using path_unlink [OF path False d(3)] nxt by simp
  qed
  moreover have sets: "set (us @ vs) = set (xs @ ys) - {a}" using d uv by auto
  moreover have "\<exists>fl. ff_rep (?m x) fl (B x)" if "x \<in> set (xs @ ys)" for x
    using inv that by (auto simp: va_inv_def ff_rep_next)
  moreover have "distinct (us @ vs)" using d(3) by simp
  ultimately have "va_inv s' B (remove1 a xs) (remove1 a ys)"
    unfolding va_inv_def R(1) f using inv a(2, 3) by (auto simp: va_inv_def)
  then show ?thesis using eq by blast
qed

text \<open>\<open>free\<close> of a block in use; the chunk leaves the list when it was the last one.\<close>

lemma chunk_of_block:
  assumes "ff_rep c fl L" "(off, sz) \<in> L" "CHUNK_SIZE dvd a"
  shows "align_down CHUNK_SIZE (a + off) = a" "off + sz \<le> CHUNK_SIZE"
proof -
  have g: "good_block (off, sz)" using assms(1, 2) by (auto simp: ff_rep_def tiles_def)
  then have "off < CHUNK_SIZE" by (simp add: good_block_def MIN_ALLOC_BYTES_def)
  moreover obtain k where "a = CHUNK_SIZE * k" using assms(3) by blast
  ultimately show "align_down CHUNK_SIZE (a + off) = a" by (simp add: align_down_def)
  show "off + sz \<le> CHUNK_SIZE" using g by (simp add: good_block_def)
qed

lemma va_free_ok:
  assumes ok: "va_ok s B" and b: "(off, sz) \<in> B a"
  shows "\<exists>s'. va_free (a + off) sz s = Some s' \<and> va_ok s' (B(a := B a - {(off, sz)}))"
proof -
  obtain xs ys where inv: "va_inv s B xs ys" using ok by (auto simp: va_ok_def)
  have a: "a \<in> set (xs @ ys)" using inv b by (auto simp: va_inv_def)
  obtain fl where rep: "ff_rep (va_chunks s a) fl (B a)" and dv: "CHUNK_SIZE dvd a" using inv a unfolding va_inv_def by blast
  note chunk = chunk_of_block [OF rep b dv]
  obtain c es where c: "ff_free off sz a (va_chunks s a) = (c, es)" by fastforce
  let ?L = "B a - {(off, sz)}" and ?B = "B(a := B a - {(off, sz)})"
  have c': "ff_rep c (free_chain (off, sz) fl) ?L" "ff_next c = ff_next (va_chunks s a)"
    using ff_free_ok [OF rep b, of a] c by simp_all
  define s1 where "s1 = put_chunk a c (va_emit (map VaChunk es) s)"
  have i1: "va_inv s1 ?B xs ys" using va_inv_put [of "va_emit (map VaChunk es) s"] inv a c' by (simp add: s1_def)
  have large: "va_free_large sz a s = (sz, s)" using chunk(2) by (simp add: va_free_large_def)
  note full = space_full [OF c'(1)]
  have eq: "va_free (a + off) sz s =
      (if ?L = {} then map_option (va_emit [VaLogNext a, VaFreeChunks a 1]) (va_unlink a (va_erase a (va_restore a False s1)))
       else if ff_list (va_chunks s a) = 0 then Some (va_insert a (va_restore a True s1)) else Some s1)"
    unfolding full [symmetric] by (simp add: va_free_def chunk large c s1_def Let_def)
  show ?thesis
  proof (cases "?L = {}")
    case True
    have "va_inv (va_erase a (va_restore a False s1)) ?B xs ys" using i1 va_inv_erase by simp
    from va_unlink_ok [OF this a] True obtain s2 where s2:
      "va_unlink a (va_erase a (va_restore a False s1)) = Some s2" "va_inv s2 ?B (remove1 a xs) (remove1 a ys)" by auto
    define s3 where "s3 = va_emit [VaLogNext a, VaFreeChunks a 1] s2"
    have "va_free (a + off) sz s = Some s3" using True s2(1) by (simp add: eq s3_def)
    moreover have "va_ok s3 ?B" using s2(2) by (auto simp: va_ok_def s3_def simp del: fun_upd_apply)
    ultimately show ?thesis by blast
  next
    case False
    then show ?thesis using i1 va_inv_insert [OF _ a, of "va_restore a True s1" ?B] by (auto simp: eq va_ok_def)
  qed
qed

lemma block_bytes_shift: "block_bytes (a + off, n) = (+) a ` block_bytes (off, n)"
  by (simp add: block_bytes_def ac_simps)

text \<open>Blocks in use do not overlap, in one chunk or in different ones.\<close>

lemma va_live_apart:
  assumes ok: "va_ok s B" and b: "x \<in> va_live B" "y \<in> va_live B" "x \<noteq> y"
  shows "block_bytes x \<inter> block_bytes y = {}"
proof -
  obtain xs ys where inv: "va_inv s B xs ys" using ok by (auto simp: va_ok_def)
  obtain a o1 n where x: "x = (a + o1, n)" "(o1, n) \<in> B a" using b(1) by (auto simp: va_live_def)
  obtain a' o2 k where y: "y = (a' + o2, k)" "(o2, k) \<in> B a'" using b(2) by (auto simp: va_live_def)
  have "a \<in> set (xs @ ys)" "a' \<in> set (xs @ ys)" using inv x(2) y(2) by (auto simp: va_inv_def)
  moreover have "CHUNK_SIZE dvd c \<and> (\<exists>fl. ff_rep (va_chunks s c) fl (B c))" if "c \<in> set (xs @ ys)" for c
    using inv that unfolding va_inv_def by blast
  ultimately obtain f1 f2 where r: "ff_rep (va_chunks s a) f1 (B a)" "CHUNK_SIZE dvd a"
      "ff_rep (va_chunks s a') f2 (B a')" "CHUNK_SIZE dvd a'" by metis
  show ?thesis
  proof (cases "a = a'")
    case True
    have t: "tiles f1 (B a)" using r(1) by (simp add: ff_rep_def)
    have "(o1, n) \<noteq> (o2, k)" using x(1) y(1) b(3) True by auto
    then have "block_bytes (o1, n) \<inter> block_bytes (o2, k) = {}"
      using tiles_apart [OF t, of "(o1, n)" "(o2, k)"] x(2) y(2) True by simp
    then have "(+) a ` block_bytes (o1, n) \<inter> (+) a ` block_bytes (o2, k) = (+) a ` {}"
      using image_Int [of "(+) a" "block_bytes (o1, n)" "block_bytes (o2, k)"] by simp
    then show ?thesis using x(1) y(1) True by (simp add: block_bytes_shift)
  next
    case False
    obtain i j where ij: "a = CHUNK_SIZE * i" "a' = CHUNK_SIZE * j" using r(2, 4) by blast
    then consider "Suc i \<le> j" | "Suc j \<le> i" using False by (metis linorder_neqE_nat Suc_leI)
    then have "a + CHUNK_SIZE \<le> a' \<or> a' + CHUNK_SIZE \<le> a"
    proof cases
      case 1
      then have "CHUNK_SIZE * Suc i \<le> CHUNK_SIZE * j" by (rule mult_le_mono2)
      then show ?thesis using ij by simp
    next
      case 2
      then have "CHUNK_SIZE * Suc j \<le> CHUNK_SIZE * i" by (rule mult_le_mono2)
      then show ?thesis using ij by simp
    qed
    then show ?thesis
      using chunk_of_block(2) [OF r(1) x(2) r(2)] chunk_of_block(2) [OF r(3) y(2) r(4)] x(1) y(1) by (auto simp: block_bytes_def)
  qed
qed

lemma live_chunk:
  assumes ok: "va_ok s B" and b: "(off, n) \<in> B a"
  shows "align_down CHUNK_SIZE (a + off) = a"
proof -
  obtain xs ys where inv: "va_inv s B xs ys" using ok by (auto simp: va_ok_def)
  then have "a \<in> set (xs @ ys)" using b by (auto simp: va_inv_def)
  then obtain fl where "ff_rep (va_chunks s a) fl (B a)" "CHUNK_SIZE dvd a" using inv unfolding va_inv_def by blast
  then show ?thesis using chunk_of_block(1) b by blast
qed

lemma va_liveI: "(off, n) \<in> B a \<Longrightarrow> (a + off, n) \<in> va_live B"
  by (auto simp: va_live_def)

lemma va_got_live:
  assumes ok: "va_ok s' B'" and got: "va_got B sz p B'"
  shows "(p, sz) \<notin> va_live B" "va_live B' = insert (p, sz) (va_live B)"
proof -
  obtain a off where g: "p = a + off" "(off, sz) \<notin> B a" "B' = B(a := insert (off, sz) (B a))" using got by (auto simp: va_got_def)
  have sub: "B c \<subseteq> B' c" for c using g(3) by auto
  show "(p, sz) \<notin> va_live B"
  proof
    assume "(p, sz) \<in> va_live B"
    then obtain c k where c: "p = c + k" "(k, sz) \<in> B c" by (auto simp: va_live_def)
    have "(off, sz) \<in> B' a" "(k, sz) \<in> B' c" using g(3) c(2) sub by auto
    then have "a = c" using live_chunk [OF ok, of off sz a] live_chunk [OF ok, of k sz c] c(1) g(1) by simp
    then show False using c g by simp
  qed
  have "va_live B' \<subseteq> insert (p, sz) (va_live B)"
  proof
    fix x assume "x \<in> va_live B'"
    then obtain c k n where x: "x = (c + k, n)" "(k, n) \<in> B' c" by (auto simp: va_live_def)
    then have "(c = a \<and> k = off \<and> n = sz) \<or> (k, n) \<in> B c" using g(3) by (auto split: if_splits)
    then show "x \<in> insert (p, sz) (va_live B)" using x(1) g(1) va_liveI by auto
  qed
  moreover have "va_live B \<subseteq> va_live B'" using sub by (force simp: va_live_def)
  moreover have "(p, sz) \<in> va_live B'" unfolding g(1) by (rule va_liveI) (simp add: g(3))
  ultimately show "va_live B' = insert (p, sz) (va_live B)" by blast
qed

lemma va_free_live:
  assumes ok: "va_ok s B" and b: "(off, sz) \<in> B a"
  shows "va_live (B(a := B a - {(off, sz)})) = va_live B - {(a + off, sz)}"
proof -
  have "a + off \<noteq> c + k" if "(k, sz) \<in> B c" "(c, k) \<noteq> (a, off)" for c k
    using live_chunk [OF ok b] live_chunk [OF ok that(1)] that(2) by auto
  then show ?thesis using b by (fastforce simp: va_live_def split: if_splits)
qed

lemma va_open_ok:
  "distinct (va_supply s) \<Longrightarrow> \<forall>d\<in>set (va_supply s). d \<noteq> 0 \<and> CHUNK_SIZE dvd d \<Longrightarrow> va_ok (va_open i True s) (\<lambda>_. {})"
  unfolding va_ok_def by (rule exI [of _ "[]"], rule exI [of _ "[]"]) (simp add: va_inv_def va_open_def Let_def)

section \<open>The allocator as a block store\<close>

text \<open>
  The state is the allocator with the blocks in use. Requests are those that \<open>AllocatorUnit\<close> hands on
  for a single chunk; the set is walked in any order.
\<close>

definition va_store_ok :: "va \<times> block set \<Rightarrow> bool" where
  "va_store_ok t \<longleftrightarrow> (\<exists>B. va_ok (fst t) B \<and> snd t = va_live B)"

definition va_request :: "(addr set \<Rightarrow> addr list) \<Rightarrow> nat \<Rightarrow> va \<times> block set \<Rightarrow> block option \<times> va \<times> block set" where
  "va_request order r t =
     (let sz = max r MIN_ALLOC_BYTES in
      if sz > CHUNK_SIZE - HEADER_SIZE then (None, t)
      else case va_alloc (\<lambda>S. filter (\<lambda>a. a \<in> S) (order S)) sz (fst t) of
        None \<Rightarrow> (None, t)
      | Some (Inl e, s) \<Rightarrow> (None, s, snd t)
      | Some (Inr p, s) \<Rightarrow> (Some (p, sz), s, insert (p, sz) (snd t)))"

definition va_release :: "block \<Rightarrow> va \<times> block set \<Rightarrow> va \<times> block set" where
  "va_release b t = (case va_free (fst b) (snd b) (fst t) of None \<Rightarrow> t | Some s \<Rightarrow> (s, snd t - {b}))"

lemma va_request_cases:
  assumes ok: "va_store_ok t"
  shows "(\<exists>s. va_request order r t = (None, s, snd t) \<and> va_store_ok (s, snd t)) \<or>
    (\<exists>s B b. va_request order r t = (Some b, s, insert b (snd t)) \<and> va_ok s B \<and> va_live B = insert b (snd t) \<and> b \<notin> snd t)"
proof -
  define sz where "sz = max r MIN_ALLOC_BYTES"
  obtain B where B: "va_ok (fst t) B" "snd t = va_live B" using ok by (auto simp: va_store_ok_def)
  show ?thesis
  proof (cases "sz > CHUNK_SIZE - HEADER_SIZE")
    case True
    then have "va_request order r t = (None, fst t, snd t)" by (simp add: va_request_def sz_def)
    then show ?thesis using ok by (metis prod.collapse)
  next
    case False
    let ?o = "\<lambda>S. filter (\<lambda>a. a \<in> S) (order S)"
    have sz: "MIN_ALLOC_BYTES \<le> sz" "sz \<le> CHUNK_SIZE - HEADER_SIZE" "set (?o (va_set (fst t))) \<subseteq> va_set (fst t)"
      using False by (auto simp: sz_def)
    obtain r' s where al: "va_alloc ?o sz (fst t) = Some (r', s)"
      "case r' of Inl e \<Rightarrow> e = BadAlloc \<and> va_supply (fst t) = [] \<and> va_ok s B | Inr p \<Rightarrow> \<exists>B'. va_ok s B' \<and> va_got B sz p B'"
      using va_alloc_ok [where order = ?o, OF B(1) sz] by blast
    show ?thesis
    proof (cases r')
      case (Inl e)
      then have "va_request order r t = (None, s, snd t)" using al(1) False by (simp add: va_request_def sz_def [symmetric])
      then show ?thesis using al(2) Inl B(2) by (auto simp: va_store_ok_def)
    next
      case (Inr p)
      then obtain B' where B': "va_ok s B'" "va_got B sz p B'" using al(2) by auto
      have "va_request order r t = (Some (p, sz), s, insert (p, sz) (snd t))"
        using al(1) False Inr by (simp add: va_request_def sz_def [symmetric])
      then show ?thesis using B' va_got_live [OF B'] B(2) by auto
    qed
  qed
qed

interpretation variable_store: block_store va_store_ok snd block_bytes "va_request order" va_release for order
proof
  fix t :: "va \<times> block set" and r b t'
  assume a: "va_store_ok t" "va_request order r t = (Some b, t')"
  then obtain s B where B: "t' = (s, insert b (snd t))" "va_ok s B" "va_live B = insert b (snd t)" "b \<notin> snd t"
    using va_request_cases [OF a(1), of order r] by auto
  have "block_bytes b \<inter> block_bytes x = {}" if "x \<in> snd t" for x
    using va_live_apart [OF B(2), of b x] B(3, 4) that by auto
  moreover have "snd b \<noteq> 0" using a(2) by (auto simp: va_request_def MIN_ALLOC_BYTES_def Let_def split: if_splits option.splits sum.splits)
  then have "block_bytes b \<noteq> {}" by (simp add: block_bytes_def)
  ultimately show "va_store_ok t' \<and> snd t' = insert b (snd t) \<and> block_bytes b \<noteq> {} \<and> (\<forall>x\<in>snd t. block_bytes b \<inter> block_bytes x = {})"
    using B by (auto simp: va_store_ok_def)
next
  fix t :: "va \<times> block set" and r t'
  assume "va_store_ok t" "va_request order r t = (None, t')"
  then show "va_store_ok t' \<and> snd t' = snd t" using va_request_cases [of t order r] by auto
next
  fix t :: "va \<times> block set" and b
  assume a: "va_store_ok t" "b \<in> snd t"
  then obtain B where B: "va_ok (fst t) B" "snd t = va_live B" by (auto simp: va_store_ok_def)
  then obtain c off n where c: "b = (c + off, n)" "(off, n) \<in> B c" using a(2) by (auto simp: va_live_def)
  obtain s where "va_free (c + off) n (fst t) = Some s" "va_ok s (B(c := B c - {(off, n)}))" using va_free_ok [OF B(1) c(2)] by blast
  then show "va_store_ok (va_release b t) \<and> snd (va_release b t) = snd t - {b}"
    using va_free_live [OF B(1) c(2)] B(2) c(1) by (auto simp: va_store_ok_def va_release_def)
qed

section \<open>Properties\<close>

lemma variable_step_correct:
  assumes "va_ok s B" "set (order (va_set s)) \<subseteq> va_set s"
  shows "(\<forall>sz. MIN_ALLOC_BYTES \<le> sz \<and> sz \<le> CHUNK_SIZE - HEADER_SIZE \<longrightarrow>
      (\<exists>r s'. va_alloc order sz s = Some (r, s') \<and>
        (case r of
           Inl e \<Rightarrow> e = BadAlloc \<and> va_supply s = [] \<and> va_ok s' B
         | Inr p \<Rightarrow> \<exists>B'. va_ok s' B' \<and> (p, sz) \<notin> va_live B \<and> va_live B' = insert (p, sz) (va_live B) \<and>
             (\<forall>x\<in>va_live B. block_bytes (p, sz) \<inter> block_bytes x = {})))) \<and>
    (\<forall>p n. (p, n) \<in> va_live B \<longrightarrow>
      (\<exists>s' B'. va_free p n s = Some s' \<and> va_ok s' B' \<and> va_live B' = va_live B - {(p, n)}))"
proof (intro conjI allI impI)
  fix sz assume sz: "MIN_ALLOC_BYTES \<le> sz \<and> sz \<le> CHUNK_SIZE - HEADER_SIZE"
  obtain r s' where al: "va_alloc order sz s = Some (r, s')"
    "case r of Inl e \<Rightarrow> e = BadAlloc \<and> va_supply s = [] \<and> va_ok s' B | Inr p \<Rightarrow> \<exists>B'. va_ok s' B' \<and> va_got B sz p B'"
    using va_alloc_ok [where order = order, OF assms(1) conjunct1 [OF sz] conjunct2 [OF sz] assms(2)] by blast
  have "\<exists>B'. va_ok s' B' \<and> (p, sz) \<notin> va_live B \<and> va_live B' = insert (p, sz) (va_live B) \<and>
      (\<forall>x\<in>va_live B. block_bytes (p, sz) \<inter> block_bytes x = {})" if r: "r = Inr p" for p
  proof -
    obtain B' where B': "va_ok s' B'" "va_got B sz p B'" using al(2) r by auto
    note live = va_got_live [OF B']
    then have "block_bytes (p, sz) \<inter> block_bytes x = {}" if "x \<in> va_live B" for x
      using va_live_apart [OF B'(1), of "(p, sz)" x] that by auto
    then show ?thesis using B'(1) live by blast
  qed
  then show "\<exists>r s'. va_alloc order sz s = Some (r, s') \<and> (case r of
           Inl e \<Rightarrow> e = BadAlloc \<and> va_supply s = [] \<and> va_ok s' B
         | Inr p \<Rightarrow> \<exists>B'. va_ok s' B' \<and> (p, sz) \<notin> va_live B \<and> va_live B' = insert (p, sz) (va_live B) \<and>
             (\<forall>x\<in>va_live B. block_bytes (p, sz) \<inter> block_bytes x = {}))" using al by (cases r) auto
next
  fix p n assume "(p, n) \<in> va_live B"
  then obtain a off where a: "p = a + off" "(off, n) \<in> B a" by (auto simp: va_live_def)
  then show "\<exists>s' B'. va_free p n s = Some s' \<and> va_ok s' B' \<and> va_live B' = va_live B - {(p, n)}"
    using va_free_ok [OF assms(1) a(2)] va_free_live [OF assms(1) a(2)] by metis
qed

text \<open>
  The states of an allocator, each with the blocks that it has handed out: it is created with a supply
  of pages, serves requests that fit in a page behind the header, with \<open>AllocatorUnit\<close> raising them to
  the minimum, and frees of blocks in use, each in a transaction that commits, and it may be opened
  again while its pages are intact. The order of the unordered set may be another in each call.
\<close>

inductive va_reach :: "va \<Rightarrow> block set \<Rightarrow> bool" where
  reach_create: "distinct (va_supply s) \<Longrightarrow> \<forall>d\<in>set (va_supply s). d \<noteq> 0 \<and> CHUNK_SIZE dvd d \<Longrightarrow> va_reach (va_open i True s) {}"
| reach_open: "va_reach s L \<Longrightarrow> va_reach (va_open i False s) L"
| reach_alloc: "va_reach s L \<Longrightarrow> MIN_ALLOC_BYTES \<le> sz \<Longrightarrow> sz \<le> CHUNK_SIZE - HEADER_SIZE \<Longrightarrow>
    set (order (va_set s)) \<subseteq> va_set s \<Longrightarrow> va_alloc order sz s = Some (Inr p, s') \<Longrightarrow> va_reach s' (insert (p, sz) L)"
| reach_no_alloc: "va_reach s L \<Longrightarrow> MIN_ALLOC_BYTES \<le> sz \<Longrightarrow> sz \<le> CHUNK_SIZE - HEADER_SIZE \<Longrightarrow>
    set (order (va_set s)) \<subseteq> va_set s \<Longrightarrow> va_alloc order sz s = Some (Inl e, s') \<Longrightarrow> va_reach s' L"
| reach_free: "va_reach s L \<Longrightarrow> (p, n) \<in> L \<Longrightarrow> va_free p n s = Some s' \<Longrightarrow> va_reach s' (L - {(p, n)})"

lemma va_reopen_ok: "va_ok s B \<Longrightarrow> va_ok (va_open i False s) B"
proof -
  assume "va_ok s B"
  then obtain xs ys where "va_inv s B xs ys" by (auto simp: va_ok_def)
  then have "va_inv (va_open i False s) B [] (xs @ ys)"
    using path_first [of "va_chunks s" "va_start s" "xs @ ys"] by (simp add: va_inv_def va_open_def Let_def)
  then show ?thesis unfolding va_ok_def by blast
qed

lemma va_reach_ok: "va_reach s L \<Longrightarrow> \<exists>B. va_ok s B \<and> L = va_live B"
proof (induction rule: va_reach.induct)
  case (reach_create s i)
  then show ?case using va_open_ok [OF reach_create] by (force simp: va_live_def)
next
  case (reach_open s L i)
  then show ?case using va_reopen_ok by blast
next
  case (reach_alloc s L sz order p s')
  then obtain B where B: "va_ok s B" "L = va_live B" by blast
  have "\<exists>B'. va_ok s' B' \<and> va_got B sz p B'"
    using va_alloc_ok [where order = order, OF B(1) reach_alloc(2) reach_alloc(3) reach_alloc(4)] reach_alloc(5) by auto
  then obtain B' where B': "va_ok s' B'" "va_got B sz p B'" by blast
  show ?case using va_got_live [OF B'] B'(1) B(2) by auto
next
  case (reach_no_alloc s L sz order e s')
  then obtain B where B: "va_ok s B" "L = va_live B" by blast
  have "va_ok s' B"
    using va_alloc_ok [where order = order, OF B(1) reach_no_alloc(2) reach_no_alloc(3) reach_no_alloc(4)] reach_no_alloc(5) by auto
  then show ?case using B(2) by blast
next
  case (reach_free s L p n s')
  then obtain B where B: "va_ok s B" "L = va_live B" by blast
  obtain s1 B1 where s1: "va_free p n s = Some s1" "va_ok s1 B1" "va_live B1 = va_live B - {(p, n)}"
    using conjunct2 [OF variable_step_correct [where order = "\<lambda>_. []", OF B(1)]] reach_free(2) unfolding B(2) by force
  then show ?case using reach_free(3) B(2) by auto
qed

text \<open>
  C8. In every state that a fresh variable allocator gets into by requests that fit in a page, frees of
  blocks in use, and being opened again, all in transactions that commit: the blocks in use do not
  overlap; such a request either returns a block apart from them, or throws \<open>BadAlloc\<close>, and this only
  when the main allocator has no page left; \<open>free\<close> of a block in use returns and ends the use of
  exactly this block. No assertion fails and no null pointer is followed. The order of the unordered
  set is arbitrary. Requests of more than a page and aborted transactions are not among the calls.
\<close>

theorem variable_allocator_correct:
  assumes "va_reach s L" "set (order (va_set s)) \<subseteq> va_set s"
  shows "(\<forall>x\<in>L. \<forall>y\<in>L. x \<noteq> y \<longrightarrow> block_bytes x \<inter> block_bytes y = {}) \<and>
    (\<forall>sz. MIN_ALLOC_BYTES \<le> sz \<and> sz \<le> CHUNK_SIZE - HEADER_SIZE \<longrightarrow>
      (\<exists>r s'. va_alloc order sz s = Some (r, s') \<and>
        (case r of
           Inl e \<Rightarrow> e = BadAlloc \<and> va_supply s = [] \<and> va_reach s' L
         | Inr p \<Rightarrow> va_reach s' (insert (p, sz) L) \<and> (p, sz) \<notin> L \<and> (\<forall>x\<in>L. block_bytes (p, sz) \<inter> block_bytes x = {})))) \<and>
    (\<forall>p n. (p, n) \<in> L \<longrightarrow> (\<exists>s'. va_free p n s = Some s' \<and> va_reach s' (L - {(p, n)})))"
proof -
  obtain B where B: "va_ok s B" "L = va_live B" using va_reach_ok [OF assms(1)] by blast
  note step = variable_step_correct [where order = order, OF B(1) assms(2)]
  have apart: "\<forall>x\<in>L. \<forall>y\<in>L. x \<noteq> y \<longrightarrow> block_bytes x \<inter> block_bytes y = {}" using va_live_apart [OF B(1)] B(2) by blast
  have alloc: "\<exists>r s'. va_alloc order sz s = Some (r, s') \<and>
        (case r of
           Inl e \<Rightarrow> e = BadAlloc \<and> va_supply s = [] \<and> va_reach s' L
         | Inr p \<Rightarrow> va_reach s' (insert (p, sz) L) \<and> (p, sz) \<notin> L \<and> (\<forall>x\<in>L. block_bytes (p, sz) \<inter> block_bytes x = {}))"
    if sz: "MIN_ALLOC_BYTES \<le> sz \<and> sz \<le> CHUNK_SIZE - HEADER_SIZE" for sz
  proof -
    obtain r s' where r: "va_alloc order sz s = Some (r, s')"
      "case r of Inl e \<Rightarrow> e = BadAlloc \<and> va_supply s = [] \<and> va_ok s' B
         | Inr p \<Rightarrow> \<exists>B'. va_ok s' B' \<and> (p, sz) \<notin> va_live B \<and> va_live B' = insert (p, sz) (va_live B) \<and>
             (\<forall>x\<in>va_live B. block_bytes (p, sz) \<inter> block_bytes x = {})" using conjunct1 [OF step] sz by blast
    show ?thesis
    proof (cases r)
      case (Inl e)
      then show ?thesis using r reach_no_alloc [where order = order, OF assms(1) _ _ assms(2)] sz by auto
    next
      case (Inr p)
      then show ?thesis using r reach_alloc [where order = order, OF assms(1) _ _ assms(2)] sz B(2) by auto
    qed
  qed
  have free: "\<exists>s'. va_free p n s = Some s' \<and> va_reach s' (L - {(p, n)})" if "(p, n) \<in> L" for p n
    using conjunct2 [OF step] that B(2) reach_free [OF assms(1) that] by blast
  show ?thesis using apart alloc free by blast
qed

definition ex_va :: va where
  "ex_va = va_open 0 True \<lparr>va_start = 0, va_chunks = (\<lambda>_. new_ffchunk 0 0), va_set = {}, va_scan = 0, va_last = 0, va_id = 0,
     va_supply = [CHUNK_SIZE], va_fix = (\<lambda>_. None), va_events = []\<rparr>"

lemma variable_allocator_correct_witness:
  "\<exists>p s'. va_alloc (\<lambda>S. []) 100 ex_va = Some (Inr p, s') \<and> va_reach s' {(p, 100)} \<and>
     (\<exists>s2. va_free p 100 s' = Some s2 \<and> va_reach s2 {})"
proof -
  have reach: "va_reach ex_va {}" unfolding ex_va_def by (rule reach_create) (simp_all add: CHUNK_SIZE_def)
  have sup: "va_supply ex_va \<noteq> []" by (simp add: ex_va_def va_open_def Let_def)
  have sz: "MIN_ALLOC_BYTES \<le> 100 \<and> 100 \<le> CHUNK_SIZE - HEADER_SIZE"
    by (simp add: MIN_ALLOC_BYTES_def CHUNK_SIZE_def HEADER_SIZE_def)
  obtain r s' where r: "va_alloc (\<lambda>S. []) 100 ex_va = Some (r, s')"
    "case r of Inl e \<Rightarrow> e = BadAlloc \<and> va_supply ex_va = [] \<and> va_reach s' {}
     | Inr p \<Rightarrow> va_reach s' {(p, 100)} \<and> (p, 100 :: nat) \<notin> {} \<and> (\<forall>x\<in>{}. block_bytes (p, 100) \<inter> block_bytes x = {})"
    using conjunct1 [OF conjunct2 [OF variable_allocator_correct [OF reach, of "\<lambda>S. []"]], rule_format, OF _ sz] by auto
  then obtain p where p: "r = Inr p" using sup by (cases r) auto
  then have "va_reach s' {(p, 100)}" using r by simp
  from conjunct2 [OF conjunct2 [OF variable_allocator_correct [OF this, of "\<lambda>S. []"]], rule_format, of p 100]
  have "\<exists>s2. va_free p 100 s' = Some s2 \<and> va_reach s2 {}" by auto
  then show ?thesis using r p by auto
qed

end
