(* ===== verification/Allocator_Laws.thy ===== *)
theory Allocator_Laws
  imports Main_Allocator Variable_Laws "HOL-Library.Multiset"
begin

text \<open>
  Properties of the allocator of the graph: the dispatch by size, the block whose free spot does not
  fit in its chunk, and the lists and locks of the delayed free.
\<close>

section \<open>Dispatch\<close>

lemma is_fixed_less: "is_fixed sz < length fixed_sizes \<longleftrightarrow> sz \<in> set fixed_sizes"
proof -
  let ?f = "find (\<lambda>i. sz = fixed_sizes ! i) [0..<length fixed_sizes]"
  have none: "?f = None \<longleftrightarrow> sz \<notin> set fixed_sizes" by (auto simp: find_None_iff in_set_conv_nth)
  show ?thesis
  proof (cases ?f)
    case None
    then show ?thesis using none by (simp add: is_fixed_def)
  next
    case (Some i)
    then have "i < length fixed_sizes" by (auto simp: find_Some_iff)
    moreover have "sz \<in> set fixed_sizes" using none Some by auto
    ultimately show ?thesis using Some by (simp add: is_fixed_def)
  qed
qed

lemma align_down_base: "off < n \<Longrightarrow> n dvd d \<Longrightarrow> align_down n (d + off) = d"
  by (auto simp: align_down_def elim!: dvdE)

lemma num_chunks_eq: "k * CHUNK_SIZE < sz \<Longrightarrow> sz \<le> Suc k * CHUNK_SIZE \<Longrightarrow> num_chunks sz = Suc k"
proof -
  assume a: "k * CHUNK_SIZE < sz" "sz \<le> Suc k * CHUNK_SIZE"
  have p: "0 < CHUNK_SIZE" by (simp add: CHUNK_SIZE_def)
  have "(sz + CHUNK_SIZE - 1) div CHUNK_SIZE = Suc k"
    using a p by (intro div_nat_eqI) (simp_all add: algebra_simps)
  then show ?thesis using p by (simp add: num_chunks_def align_down_def)
qed

text \<open>
  A block is freed where it was allocated: although \<open>alloc\<close> raises small sizes and \<open>free\<close> looks at
  the size as given, both choose the same allocator for every positive size. A request that reaches
  the variable allocator fits behind the header of a chunk, and the first chunk of a larger one keeps
  room for its header and a free spot.
\<close>

theorem dispatch_consistent:
  assumes "0 < sz" and "sz' = (if sz < MIN_ALLOC_BYTES then MIN_ALLOC_BYTES else sz)"
  shows "(is_fixed sz' < length fixed_sizes \<longleftrightarrow> is_fixed sz < length fixed_sizes) \<and>
    (is_borderline sz' \<longleftrightarrow> is_borderline sz) \<and>
    (\<not> is_borderline sz' \<longrightarrow> sz' \<le> CHUNK_SIZE \<longrightarrow> sz' \<le> CHUNK_SIZE - HEADER_SIZE) \<and>
    (\<not> is_borderline sz' \<longrightarrow> CHUNK_SIZE < sz' \<longrightarrow>
       1 < num_chunks sz' \<and> 0 < large_used sz' \<and> large_used sz' + HEADER_SIZE + MIN_ALLOC_BYTES \<le> CHUNK_SIZE)"
proof (intro conjI impI)
  show "is_fixed sz' < length fixed_sizes \<longleftrightarrow> is_fixed sz < length fixed_sizes"
    unfolding is_fixed_less using assms(2) by (auto simp: fixed_sizes_def MIN_ALLOC_BYTES_def)
  show "is_borderline sz' \<longleftrightarrow> is_borderline sz"
    using assms by (auto simp: is_borderline_def THRESHOLD_def CHUNK_SIZE_def MIN_ALLOC_BYTES_def HEADER_SIZE_def Let_def)
next
  assume b: "\<not> is_borderline sz'" "sz' \<le> CHUNK_SIZE"
  then have "sz' mod CHUNK_SIZE = sz'" by (cases "sz' = CHUNK_SIZE") (auto simp: is_borderline_def)
  then show "sz' \<le> CHUNK_SIZE - HEADER_SIZE" using b(1) by (simp add: is_borderline_def THRESHOLD_def HEADER_SIZE_def MIN_ALLOC_BYTES_def CHUNK_SIZE_def Let_def)
next
  assume b: "\<not> is_borderline sz'" "CHUNK_SIZE < sz'"
  define k where "k = sz' div CHUNK_SIZE"
  define r where "r = sz' mod CHUNK_SIZE"
  have r: "0 < r" "r \<le> THRESHOLD" using b(1) by (auto simp: is_borderline_def r_def Let_def)
  have sz: "sz' = k * CHUNK_SIZE + r" by (simp add: k_def r_def)
  have p: "r < CHUNK_SIZE" by (simp add: r_def CHUNK_SIZE_def)
  have n: "num_chunks sz' = Suc k" by (rule num_chunks_eq) (use sz r(1) p in simp_all)
  have "0 < k" using b(2) sz p by (cases k) auto
  then show "1 < num_chunks sz'" by (simp add: n)
  have u: "large_used sz' = r" unfolding large_used_def n using sz by simp
  show "0 < large_used sz'" using r(1) u by simp
  show "large_used sz' + HEADER_SIZE + MIN_ALLOC_BYTES \<le> CHUNK_SIZE"
    using r(2) unfolding u by (simp add: THRESHOLD_def CHUNK_SIZE_def HEADER_SIZE_def MIN_ALLOC_BYTES_def)
qed

lemma dispatch_consistent_witness:
  "large_used 0x500000 + HEADER_SIZE + MIN_ALLOC_BYTES \<le> CHUNK_SIZE"
proof -
  have "\<not> is_borderline 0x500000" "CHUNK_SIZE < 0x500000"
    by (simp_all add: is_borderline_def THRESHOLD_def CHUNK_SIZE_def HEADER_SIZE_def MIN_ALLOC_BYTES_def)
  then show ?thesis using dispatch_consistent [of 5242880 5242880] by (simp add: MIN_ALLOC_BYTES_def)
qed

section \<open>A free spot beyond the end of the chunk\<close>

text \<open>
  A block of 1 to 7 bytes more than a multiple of 2 MB starts in the last bytes of its first chunk.
  Freeing it stores a free spot of 8 bytes there, which reaches into the next chunk, after that chunk
  has been given back to the main allocator, whose free list is kept in these bytes.
\<close>

theorem large_tail_overruns_chunk:
  assumes "0 < k" "0 < r" "r < 8"
    and u: "va_start (un_var u) = 0" "va_scan (un_var u) = 0" "va_supply (un_var u) = d # ds"
    and d: "d \<noteq> 0" "CHUNK_SIZE dvd d"
  shows "\<exists>u1 u2. unit_alloc pick order (k * CHUNK_SIZE + r) u = Some (Inr (d + (CHUNK_SIZE - r)), u1) \<and>
    unit_free (d + (CHUNK_SIZE - r), k * CHUNK_SIZE + r) u1 = Some u2 \<and>
    (\<exists>e1 e2. va_events (un_var u2) = e1 @ [VaFreeChunks (d + CHUNK_SIZE) k] @ e2 \<and>
      VaChunk (FfStore d (FSpot (CHUNK_SIZE - r))) \<in> set e2 \<and> CHUNK_SIZE < CHUNK_SIZE - r + 8)"
proof -
  let ?sz = "k * CHUNK_SIZE + r"
  have r: "r < CHUNK_SIZE" using assms(3) by (simp add: CHUNK_SIZE_def)
  have n: "num_chunks ?sz = Suc k" by (rule num_chunks_eq) (use assms(2) r in simp_all)
  have used: "large_used ?sz = r" by (simp add: large_used_def n)
  have big: "CHUNK_SIZE < ?sz" using assms(1, 2) by (cases k) auto
  have nf: "\<not> is_fixed ?sz < length fixed_sizes"
    unfolding is_fixed_less using big by (auto simp: fixed_sizes_def CHUNK_SIZE_def)
  have nb: "\<not> is_borderline ?sz"
    using assms(2, 3) r by (simp add: is_borderline_def THRESHOLD_def CHUNK_SIZE_def HEADER_SIZE_def MIN_ALLOC_BYTES_def Let_def)
  have min: "\<not> ?sz < MIN_ALLOC_BYTES" using big by (simp add: MIN_ALLOC_BYTES_def CHUNK_SIZE_def)
  define c where "c = new_ffchunk (va_id (un_var u)) r"
  have cf: "ff_list c = HEADER_SIZE" "ff_space c = word_of_nat (CHUNK_SIZE - HEADER_SIZE - r)" by (simp_all add: c_def new_ffchunk_def Let_def)
  define v1 where "v1 = va_restore d True (va_insert d (va_emit [VaWrite 0]
      ((va_emit [VaFlushChunk d] (put_chunk d c (un_var u\<lparr>va_supply := ds\<rparr>)))\<lparr>va_start := d, va_last := d\<rparr>)))"
  have al: "va_alloc order ?sz (un_var u) = Some (Inr (d + (CHUNK_SIZE - r)), v1)"
  proof -
    have "scan_rest s = Some s" if "va_scan s = 0" for s using that by (subst scan_rest.simps) simp
    then show ?thesis
      using big u by (simp add: va_alloc_def va_alloc_large_def used va_alloc_chunks_def link_chunk_def v1_def c_def Let_def)
  qed
  have chunk: "align_down CHUNK_SIZE (d + (CHUNK_SIZE - r)) = d" by (rule align_down_base [OF _ d(2)]) (use assms(2) r in simp)
  have large: "va_free_large ?sz d v1 = (r, va_emit [VaFreeChunks (d + CHUNK_SIZE) k] v1)"
    using big n by (simp add: va_free_large_def)
  obtain c' es where free: "ff_free (CHUNK_SIZE - r) r d c = (c', es)" by fastforce
  have ne: "CHUNK_SIZE - r + r \<noteq> HEADER_SIZE" using r by (simp add: CHUNK_SIZE_def HEADER_SIZE_def)
  have es: "FfStore d (FSpot (CHUNK_SIZE - r)) \<in> set es" "ff_space c' = word_of_nat (CHUNK_SIZE - HEADER_SIZE)"
    using free cf ne assms(3) by (auto simp: ff_free_def Let_def HEADER_SIZE_def CHUNK_SIZE_def of_nat_diff)
  have v1: "va_chunks v1 d = c" "va_start v1 = d" by (simp_all add: v1_def va_insert_def)
  define v2 where "v2 = va_erase d (va_restore d False (put_chunk d c'
      (va_emit (map VaChunk es) (va_emit [VaFreeChunks (d + CHUNK_SIZE) k] v1))))"
  obtain v3 where v3: "va_unlink d v2 = Some v3" "va_events v3 = va_events v2 @ [VaWrite 0]"
    by (simp add: va_unlink_def v2_def v1 Let_def va_emit_def)
  have fr: "va_free (d + (CHUNK_SIZE - r)) ?sz v1 = Some (va_emit [VaLogNext d, VaFreeChunks d 1] v3)"
    using v3(1) es(2) by (simp add: va_free_def chunk large free v1 v2_def Let_def)
  have ev: "va_events v2 = va_events v1 @ [VaFreeChunks (d + CHUNK_SIZE) k] @ map VaChunk es"
    by (simp add: v2_def va_emit_def va_erase_def va_restore_def put_chunk_def)
  have "unit_alloc pick order ?sz u = Some (Inr (d + (CHUNK_SIZE - r)), u\<lparr>un_var := v1\<rparr>)"
    using al nf nb min by (simp add: unit_alloc_def Let_def)
  moreover obtain ps where "unit_free (d + (CHUNK_SIZE - r), ?sz) (u\<lparr>un_var := v1\<rparr>) =
      Some (give_back ps (u\<lparr>un_var := va_emit [VaLogNext d, VaFreeChunks d 1] v3\<rparr>))"
    using fr nf nb min by (simp add: unit_free_def free_form_free_def Let_def)
  moreover have "un_var (give_back ps w) = un_var w" for ps w by (simp add: give_back_def)
  moreover have "va_events (va_emit [VaLogNext d, VaFreeChunks d 1] v3) = va_events v1 @ [VaFreeChunks (d + CHUNK_SIZE) k] @
      (map VaChunk es @ [VaWrite 0, VaLogNext d, VaFreeChunks d 1])" using v3(2) ev by (simp add: va_emit_def)
  moreover have "CHUNK_SIZE < CHUNK_SIZE - r + 8" using assms(3) r by linarith
  ultimately show ?thesis using es(1) by (intro exI conjI) (assumption | simp)+
qed

definition ex_flex :: flex where
  "ex_flex = \<lparr>fx_pm = 64, fx_size = 4096, fx_pool_size = 0x200000, fx_hdrs = (\<lambda>_. \<lparr>fx_base = 0, fx_next = 0, fx_fa = ex_fa\<rparr>),
     fx_pools = [], fx_last = 64, fx_supply = [], fx_fix = [], fx_events = []\<rparr>"

definition ex_unit :: unit_state where
  "ex_unit = \<lparr>un_id = 0, un_base = 0x200000, un_var = ex_va, un_small = ex_flex, un_fixed = [], un_supply = [], un_calls = []\<rparr>"

lemma large_tail_overruns_chunk_witness:
  "\<exists>u1 u2. unit_alloc (\<lambda>S. 0) (\<lambda>S. []) (1 * CHUNK_SIZE + 1) ex_unit = Some (Inr (CHUNK_SIZE + (CHUNK_SIZE - 1)), u1) \<and>
    unit_free (CHUNK_SIZE + (CHUNK_SIZE - 1), 1 * CHUNK_SIZE + 1) u1 = Some u2 \<and>
    (\<exists>e1 e2. va_events (un_var u2) = e1 @ [VaFreeChunks (CHUNK_SIZE + CHUNK_SIZE) 1] @ e2 \<and>
      VaChunk (FfStore CHUNK_SIZE (FSpot (CHUNK_SIZE - 1))) \<in> set e2 \<and> CHUNK_SIZE < CHUNK_SIZE - 1 + 8)"
proof (rule large_tail_overruns_chunk)
  show "va_start (un_var ex_unit) = 0" "va_scan (un_var ex_unit) = 0" "va_supply (un_var ex_unit) = CHUNK_SIZE # []"
    by (simp_all add: ex_unit_def ex_va_def va_open_def Let_def)
qed (simp_all add: CHUNK_SIZE_def)

section \<open>Delayed free\<close>

















text \<open>The lists by unit.\<close>

lemma insert_free_keys: "set (map fst (insert_free i b fl)) = insert i (set (map fst fl))"
  by (induction i b fl rule: insert_free.induct) auto

lemma insert_free_sorted: "sorted_wrt (<) (map fst fl) \<Longrightarrow> sorted_wrt (<) (map fst (insert_free i b fl))"
proof (induction i b fl rule: insert_free.induct)
  case (2 i b j bs fl)
  then show ?case using insert_free_keys [of i b fl] by fastforce
qed simp

lemma insert_free_mset: "mset (concat (map snd (insert_free i b fl))) = add_mset b (mset (concat (map snd fl)))"
  by (induction i b fl rule: insert_free.induct) auto

lemma insert_free_map_of:
  "sorted_wrt (<) (map fst fl) \<Longrightarrow> map_of (insert_free i b fl) k =
     (if k = i then Some ((case map_of fl i of None \<Rightarrow> [] | Some bs \<Rightarrow> bs) @ [b]) else map_of fl k)"
proof (induction i b fl rule: insert_free.induct)
  case (2 i b j bs fl)
  show ?case
  proof (cases "i < j")
    case True
    then have "i \<notin> fst ` set fl" using 2(2) by auto
    then have "map_of fl i = None" by (simp add: map_of_eq_None_iff)
    then show ?thesis using True by auto
  qed (use 2 in auto)
qed simp

definition add_all :: "(int \<times> addr \<times> nat) list \<Rightarrow> free_lists \<Rightarrow> free_lists" where
  "add_all adds fl = fold (\<lambda>(i, b). free_list_add i b) adds fl"

text \<open>
  However blocks are added, the list of the units is in ascending order, so that all transactions
  take the unit locks in the same order; every block is on the list once, those of a unit in the order
  in which they were freed, and blocks without a unit only go to a unit that exists.
\<close>

theorem free_lists_correct:
  "sorted_wrt (<) (map fst (add_all adds [])) \<and>
   mset (concat (map snd (add_all adds []))) = mset (map snd adds) \<and>
   ((\<forall>a\<in>set adds. 0 \<le> fst a) \<longrightarrow>
     (\<forall>i. map_of (add_all adds []) i = (if i \<in> fst ` set adds then Some (map snd (filter (\<lambda>a. fst a = i) adds)) else None))) \<and>
   (\<forall>i\<in>set (map fst (add_all adds [])). i = 0 \<or> i \<in> fst ` set adds \<and> 0 \<le> i)"
proof (induction adds rule: rev_induct)
  case Nil
  then show ?case by (simp add: add_all_def)
next
  case (snoc a adds)
  obtain i b where a: "a = (i, b)" by (rule prod.exhaust)
  let ?fl = "add_all adds []"
  define k where "k = (if i < 0 then (case ?fl of [] \<Rightarrow> 0 | (j, _) # _ \<Rightarrow> j) else i)"
  have eq: "add_all (adds @ [a]) [] = insert_free k b ?fl" by (simp add: add_all_def free_list_add_def a k_def)
  have sorted: "sorted_wrt (<) (map fst ?fl)" using snoc by blast
  have k: "k = 0 \<or> k \<in> set (map fst ?fl) \<or> (k = i \<and> 0 \<le> i)" by (auto simp: k_def split: list.splits)
  have keys: "j = 0 \<or> j \<in> fst ` set (adds @ [a]) \<and> 0 \<le> j" if j: "j \<in> set (map fst (insert_free k b ?fl))" for j
  proof -
    have "j = k \<or> j \<in> set (map fst ?fl)" using j unfolding insert_free_keys by blast
    then show ?thesis using snoc k a by auto
  qed
  have mp: "map_of (insert_free k b ?fl) j =
      (if j \<in> fst ` set (adds @ [a]) then Some (map snd (filter (\<lambda>a. fst a = j) (adds @ [a]))) else None)"
    if nn: "\<forall>a\<in>set (adds @ [a]). 0 \<le> fst a" for j
  proof -
    have "k = i" using nn a by (simp add: k_def)
    moreover have "map_of ?fl l = (if l \<in> fst ` set adds then Some (map snd (filter (\<lambda>a. fst a = l) adds)) else None)" for l
      using snoc nn by auto
    moreover have "filter (\<lambda>a. fst a = i) adds = []" if "i \<notin> fst ` set adds" using that by (auto simp: filter_empty_conv)
    ultimately show ?thesis unfolding insert_free_map_of [OF sorted] using a by auto
  qed
  show ?case unfolding eq using insert_free_sorted [OF sorted] insert_free_mset [of k b ?fl] snoc a keys mp by auto
qed

lemma free_lists_correct_witness:
  "map_of (add_all [(1, 4096, 16), (0, 8192, 24), (1, 12288, 16)] []) 1 = Some [(4096, 16), (12288, 16)]"
  using free_lists_correct [of "[(1, 4096, 16), (0, 8192, 24), (1, 12288, 16)]"] by simp

end
