(* ===== verification/Chunk_List.thy ===== *)
theory Chunk_List
  imports Pmgd_Prelude
begin

text \<open>
  \<open>src/ChunkList.h\<close>: an unordered map in a linked list of chunks. A chunk has room for \<open>mx\<close> entries
  (\<open>MAX_PER_CHUNK\<close>, at most 16), a bitmap of its slots and the number of entries. A new chunk is raw
  memory: its bitmap is whatever the allocator's memory holds, with bit 0 set. The allocator is the list
  of blocks that it returns next, with their contents; an empty list is \<open>BadAlloc\<close>.
\<close>

section \<open>State\<close>

record ('k, 'v) cl_chunk =
  cc_next :: addr
  cc_occ :: u16
  cc_num :: u8
  cc_data :: "nat \<Rightarrow> 'k \<times> 'v"

datatype cl_event =
    ClLock addr bool
  | ClLog addr
  | ClFlushHeader addr
  | ClFlushEntry addr nat
  | ClWriteHead
  | ClWriteNext addr
  | ClWriteNum
  | ClFree addr

text \<open>The null pointer is 0. The address of the list itself, which is the one that is locked, is \<open>cl_this\<close>.\<close>

record ('k, 'v) cl_state =
  cl_this :: addr
  cl_head :: addr
  cl_num :: u64
  cl_chunks :: "addr \<Rightarrow> ('k, 'v) cl_chunk"
  cl_supply :: "(addr \<times> ('k, 'v) cl_chunk) list"
  cl_events :: "cl_event list"

definition cl_emit :: "cl_event list \<Rightarrow> ('k, 'v) cl_state \<Rightarrow> ('k, 'v) cl_state" where
  "cl_emit es s = s\<lparr>cl_events := cl_events s @ es\<rparr>"

definition cl_put :: "addr \<Rightarrow> ('k, 'v) cl_chunk \<Rightarrow> ('k, 'v) cl_state \<Rightarrow> ('k, 'v) cl_state" where
  "cl_put a c s = s\<lparr>cl_chunks := (cl_chunks s)(a := c)\<rparr>"

definition cl_init :: "('k, 'v) cl_state \<Rightarrow> ('k, 'v) cl_state" where
  "cl_init s = cl_emit [ClFlushHeader (cl_this s)] (s\<lparr>cl_head := 0, cl_num := 0\<rparr>)"

section \<open>Search\<close>

text \<open>
  The loop over the slots of a chunk; \<open>hole\<close> is the first empty slot. After slot 15 the mask
  \<open>bit_pos\<close> is 0 and the loop does not end: \<open>None\<close>. The result is the slot of the key, if any, the
  hole, and the last values of \<open>elems\<close> and \<open>curr_slot\<close>.
\<close>

definition slot_bit :: "u16 \<Rightarrow> nat \<Rightarrow> bool" where
  "slot_bit occ i \<longleftrightarrow> occ AND push_bit i 1 \<noteq> 0"

function scan_slots ::
    "addr \<Rightarrow> 'k \<Rightarrow> ('k, 'v) cl_chunk \<Rightarrow> nat \<Rightarrow> nat \<Rightarrow> (addr \<times> nat) option \<Rightarrow>
     (nat option \<times> (addr \<times> nat) option \<times> nat \<times> nat) option" where
  "scan_slots a k c elems i hole =
     (if elems \<ge> unat (cc_num c) then Some (None, hole, elems, i)
      else if i \<ge> 16 then None
      else if slot_bit (cc_occ c) i then
        (if k = fst (cc_data c i) then Some (Some i, hole, elems, i) else scan_slots a k c (elems + 1) (i + 1) hole)
      else scan_slots a k c elems (i + 1) (case hole of None \<Rightarrow> Some (a, i) | Some h \<Rightarrow> Some h))"
  by pat_completeness auto
termination by (relation "measure (\<lambda>(a, k, c, elems, i, hole). 16 - i)") auto

declare scan_slots.simps [simp del]

text \<open>\<open>find\<close>: the chunk and the slot of the key.\<close>

partial_function (option) find_chunks ::
    "'k \<Rightarrow> addr \<Rightarrow> ('k, 'v) cl_state \<Rightarrow> ((addr \<times> nat) option \<times> ('k, 'v) cl_state) option" where
  "find_chunks k cur s =
     (if cur = 0 then Some (None, s)
      else
        (let s1 = cl_emit [ClLock cur False] s in
         case scan_slots cur k (cl_chunks s cur) 0 0 None of None \<Rightarrow> None
         | Some (Some i, _) \<Rightarrow> Some (Some (cur, i), s1)
         | Some (None, _) \<Rightarrow> find_chunks k (cc_next (cl_chunks s cur)) s1))"

definition cl_find :: "'k \<Rightarrow> ('k, 'v) cl_state \<Rightarrow> ((addr \<times> nat) option \<times> ('k, 'v) cl_state) option" where
  "cl_find k s = find_chunks k (cl_head s) (cl_emit [ClLock (cl_this s) False] s)"

section \<open>Insertion\<close>

text \<open>The loop over the chunks in \<open>add\<close>: the place of the key, or the first empty slot and the last chunk.\<close>

partial_function (option) add_chunks ::
    "nat \<Rightarrow> 'k \<Rightarrow> addr \<Rightarrow> addr \<Rightarrow> (addr \<times> nat) option \<Rightarrow> ('k, 'v) cl_state \<Rightarrow>
     ((addr \<times> nat) option \<times> (addr \<times> nat) option \<times> addr \<times> ('k, 'v) cl_state) option" where
  "add_chunks mx k prev cur hole s =
     (if cur = 0 then Some (None, hole, prev, s)
      else
        (let s1 = cl_emit [ClLock cur False] s in
         case scan_slots cur k (cl_chunks s cur) 0 0 hole of None \<Rightarrow> None
         | Some (Some i, h, _) \<Rightarrow> Some (Some (cur, i), h, prev, s1)
         | Some (None, h, elems, i) \<Rightarrow>
             add_chunks mx k cur (cc_next (cl_chunks s cur)) (if elems < mx \<and> h = None then Some (cur, i) else h) s1))"

definition fill_slot :: "nat \<Rightarrow> ('k, 'v) cl_chunk \<Rightarrow> ('k, 'v) cl_chunk" where
  "fill_slot i c = c\<lparr>cc_num := cc_num c + 1, cc_occ := cc_occ c OR push_bit i 1\<rparr>"

definition new_chunk :: "('k, 'v) cl_chunk \<Rightarrow> ('k, 'v) cl_chunk" where
  "new_chunk raw = raw\<lparr>cc_num := 1, cc_occ := cc_occ raw OR 1, cc_next := 0\<rparr>"

text \<open>The chunk that receives the entry, and the slot.\<close>

definition add_place :: "(addr \<times> nat) option \<Rightarrow> addr \<Rightarrow> ('k, 'v) cl_state \<Rightarrow> (addr \<times> nat) result \<times> ('k, 'v) cl_state" where
  "add_place hole prev s =
     (case hole of
        Some (a, i) \<Rightarrow>
          (Inr (a, i), cl_put a (fill_slot i (cl_chunks s a)) (cl_emit [ClLock a True, ClLog a] s))
      | None \<Rightarrow>
          (case cl_supply s of [] \<Rightarrow> (Inl BadAlloc, s)
           | (a, raw) # rest \<Rightarrow>
               (let s1 = cl_emit [ClFlushHeader a] (cl_put a (new_chunk raw) (s\<lparr>cl_supply := rest\<rparr>))
                in (Inr (a, 0),
                    if prev = 0 then cl_emit [ClWriteHead] (s1\<lparr>cl_head := a\<rparr>)
                    else cl_emit [ClLock prev True, ClWriteNext prev]
                           (cl_put prev ((cl_chunks s1 prev)\<lparr>cc_next := a\<rparr>) s1)))))"

definition set_entry :: "'k \<Rightarrow> 'v \<Rightarrow> addr \<Rightarrow> nat \<Rightarrow> ('k, 'v) cl_state \<Rightarrow> ('k, 'v) cl_state" where
  "set_entry k v a i s =
     cl_put a ((cl_chunks s a)\<lparr>cc_data := (cc_data (cl_chunks s a))(i := (k, v))\<rparr>)
       (cl_emit [ClWriteNum, ClFlushEntry a i] (s\<lparr>cl_num := cl_num s + 1\<rparr>))"

text \<open>\<open>v\<close> is the value that the constructor of the value type makes; the result is the place of the value.\<close>

definition cl_add :: "nat \<Rightarrow> 'v \<Rightarrow> 'k \<Rightarrow> ('k, 'v) cl_state \<Rightarrow> ((addr \<times> nat) result \<times> ('k, 'v) cl_state) option" where
  "cl_add mx v k s =
     (case add_chunks mx k 0 (cl_head s) None (cl_emit [ClLock (cl_this s) False] s) of None \<Rightarrow> None
      | Some (Some p, _, _, s1) \<Rightarrow> Some (Inr p, s1)
      | Some (None, hole, prev, s1) \<Rightarrow>
          (case add_place hole prev (cl_emit [ClLock (cl_this s) True] s1) of
             (Inl e, s2) \<Rightarrow> Some (Inl e, s2)
           | (Inr (a, i), s2) \<Rightarrow> Some (Inr (a, i), set_entry k v a i s2)))"

section \<open>Removal\<close>

definition clear_slot :: "nat \<Rightarrow> ('k, 'v) cl_chunk \<Rightarrow> ('k, 'v) cl_chunk" where
  "clear_slot i c = c\<lparr>cc_num := cc_num c - 1, cc_occ := cc_occ c AND NOT (push_bit i 1)\<rparr>"

definition remove_slot :: "addr \<Rightarrow> addr \<Rightarrow> nat \<Rightarrow> ('k, 'v) cl_state \<Rightarrow> ('k, 'v) cl_state" where
  "remove_slot prev a i s =
     (let s1 = cl_put a (clear_slot i (cl_chunks s a)) (cl_emit [ClLock (cl_this s) True, ClLock a True, ClLog a, ClWriteNum] s);
          s2 = s1\<lparr>cl_num := cl_num s1 - 1\<rparr>;
          nxt = cc_next (cl_chunks s2 a)
      in if cc_num (cl_chunks s2 a) = 0 then
           cl_emit [ClFree a]
             (if prev = 0 then cl_emit [ClWriteHead] (s2\<lparr>cl_head := nxt\<rparr>)
              else cl_emit [ClLock prev True, ClWriteNext prev] (cl_put prev ((cl_chunks s2 prev)\<lparr>cc_next := nxt\<rparr>) s2))
         else s2)"

partial_function (option) remove_chunks :: "'k \<Rightarrow> addr \<Rightarrow> addr \<Rightarrow> ('k, 'v) cl_state \<Rightarrow> ('k, 'v) cl_state option" where
  "remove_chunks k prev cur s =
     (if cur = 0 then Some s
      else
        (let s1 = cl_emit [ClLock cur False] s in
         case scan_slots cur k (cl_chunks s cur) 0 0 None of None \<Rightarrow> None
         | Some (Some i, _) \<Rightarrow> Some (remove_slot prev cur i s1)
         | Some (None, _) \<Rightarrow> remove_chunks k cur (cc_next (cl_chunks s cur)) s1))"

definition cl_remove :: "'k \<Rightarrow> ('k, 'v) cl_state \<Rightarrow> ('k, 'v) cl_state option" where
  "cl_remove k s = remove_chunks k 0 (cl_head s) (cl_emit [ClLock (cl_this s) False] s)"

section \<open>Statistics\<close>

partial_function (option) count_chunks :: "(addr \<Rightarrow> ('k, 'v) cl_chunk) \<Rightarrow> addr \<Rightarrow> nat \<Rightarrow> nat option" where
  "count_chunks m cur n = (if cur = 0 then Some n else count_chunks m (cc_next (m cur)) (n + 1))"

definition cl_total_chunks :: "('k, 'v) cl_state \<Rightarrow> nat option" where
  "cl_total_chunks s = count_chunks (cl_chunks s) (cl_head s) 0"

definition cl_health :: "nat \<Rightarrow> ('k, 'v) cl_state \<Rightarrow> u64 option" where
  "cl_health mx s =
     map_option (\<lambda>n. if n = 0 then 100 else 100 * cl_num s div word_of_nat (n * mx)) (cl_total_chunks s)"

text \<open>\<open>get_key_values\<close>: the places of all entries.\<close>

function slot_list :: "('k, 'v) cl_chunk \<Rightarrow> nat \<Rightarrow> nat \<Rightarrow> nat list option" where
  "slot_list c elems i =
     (if elems \<ge> unat (cc_num c) then Some []
      else if i \<ge> 16 then None
      else if slot_bit (cc_occ c) i then map_option ((#) i) (slot_list c (elems + 1) (i + 1))
      else slot_list c elems (i + 1))"
  by pat_completeness auto
termination by (relation "measure (\<lambda>(c, elems, i). 16 - i)") auto

declare slot_list.simps [simp del]

partial_function (option) all_slots :: "(addr \<Rightarrow> ('k, 'v) cl_chunk) \<Rightarrow> addr \<Rightarrow> (addr \<times> nat) list option" where
  "all_slots m cur =
     (if cur = 0 then Some []
      else case slot_list (m cur) 0 0 of None \<Rightarrow> None
      | Some is \<Rightarrow> Option.bind (all_slots m (cc_next (m cur))) (\<lambda>ps. Some (map (Pair cur) is @ ps)))"

definition cl_get_key_values :: "('k, 'v) cl_state \<Rightarrow> (addr \<times> nat) list option" where
  "cl_get_key_values s = all_slots (cl_chunks s) (cl_head s)"

section \<open>The invariant\<close>

text \<open>
  The slots of a chunk below a mark \<open>h\<close> are described by its bitmap; bits above the mark may be left
  from the memory's earlier use. The map is the union of the entries in these slots.
\<close>

definition used_slots :: "('k, 'v) cl_chunk \<Rightarrow> nat \<Rightarrow> nat set" where
  "used_slots c h = {i. i < h \<and> slot_bit (cc_occ c) i}"

definition chunk_ok :: "nat \<Rightarrow> ('k, 'v) cl_chunk \<Rightarrow> nat \<Rightarrow> bool" where
  "chunk_ok mx c h \<longleftrightarrow> h \<le> mx \<and> unat (cc_num c) = card (used_slots c h) \<and> used_slots c h \<noteq> {}"

fun cl_path :: "(addr \<Rightarrow> ('k, 'v) cl_chunk) \<Rightarrow> addr \<Rightarrow> addr list \<Rightarrow> bool" where
  "cl_path m p [] = (p = 0)"
| "cl_path m p (a # as) = (p = a \<and> a \<noteq> 0 \<and> cl_path m (cc_next (m a)) as)"

definition cl_places :: "(addr \<Rightarrow> ('k, 'v) cl_chunk) \<Rightarrow> addr set \<Rightarrow> (addr \<Rightarrow> nat) \<Rightarrow> (addr \<times> nat) set" where
  "cl_places m A h = {(a, i). a \<in> A \<and> i \<in> used_slots (m a) (h a)}"

definition entry :: "(addr \<Rightarrow> ('k, 'v) cl_chunk) \<Rightarrow> addr \<times> nat \<Rightarrow> 'k \<times> 'v" where
  "entry m p = cc_data (m (fst p)) (snd p)"

definition cl_inv :: "nat \<Rightarrow> ('k, 'v) cl_state \<Rightarrow> addr list \<Rightarrow> (addr \<Rightarrow> nat) \<Rightarrow> bool" where
  "cl_inv mx s as h \<longleftrightarrow>
     0 < mx \<and> mx \<le> 16 \<and> cl_path (cl_chunks s) (cl_head s) as \<and> distinct as \<and>
     (\<forall>a\<in>set as. chunk_ok mx (cl_chunks s a) (h a)) \<and>
     inj_on (fst \<circ> entry (cl_chunks s)) (cl_places (cl_chunks s) (set as) h) \<and>
     cl_num s = word_of_nat (card (cl_places (cl_chunks s) (set as) h)) \<and>
     distinct (map fst (cl_supply s)) \<and> (\<forall>a\<in>fst ` set (cl_supply s). a \<noteq> 0 \<and> a \<notin> set as)"

definition cl_rel :: "('k, 'v) cl_state \<Rightarrow> addr list \<Rightarrow> (addr \<Rightarrow> nat) \<Rightarrow> ('k \<times> 'v) set" where
  "cl_rel s as h = entry (cl_chunks s) ` cl_places (cl_chunks s) (set as) h"

section \<open>Bitmaps\<close>

lemma slot_bit_iff: "i < 16 \<Longrightarrow> slot_bit occ i \<longleftrightarrow> bit occ i"
  by (auto simp: slot_bit_def push_bit_of_1 and_exp_eq_0_iff_not_bit)

lemma used_slots_finite [simp]: "finite (used_slots c h)"
  by (simp add: used_slots_def)

lemma used_slots_step: "used_slots c (Suc i) = (if slot_bit (cc_occ c) i then insert i (used_slots c i) else used_slots c i)"
  by (auto simp: used_slots_def less_Suc_eq)

lemma card_used_mono: "i \<le> h \<Longrightarrow> card (used_slots c i) \<le> card (used_slots c h)"
  by (rule card_mono) (auto simp: used_slots_def)

lemma all_used:
  assumes "i \<le> h" "card (used_slots c h) \<le> card (used_slots c i)"
  shows "used_slots c h = used_slots c i"
proof -
  have "used_slots c i \<subseteq> used_slots c h" using assms(1) by (auto simp: used_slots_def)
  then show ?thesis using card_seteq [OF used_slots_finite _ assms(2)] by simp
qed

text \<open>
  The scan of a chunk. It ends at the key, or behind the last used slot; it meets bits above the mark
  only when all entries have been seen.
\<close>

definition scan_post ::
    "addr \<Rightarrow> 'k \<Rightarrow> ('k, 'v) cl_chunk \<Rightarrow> nat \<Rightarrow> nat \<Rightarrow> (addr \<times> nat) option \<Rightarrow>
     (nat option \<times> (addr \<times> nat) option \<times> nat \<times> nat) option \<Rightarrow> bool" where
  "scan_post a k c h i hole r \<longleftrightarrow>
    (\<exists>j hole' e. j \<in> used_slots c h \<and> fst (cc_data c j) = k \<and> r = Some (Some j, hole', e)) \<or>
    (\<exists>hole' l. r = Some (None, hole', card (used_slots c h), l) \<and> i \<le> l \<and> l \<le> h \<and>
      used_slots c h = used_slots c l \<and> (\<forall>j\<in>used_slots c h. fst (cc_data c j) \<noteq> k) \<and>
      (hole' = hole \<and> (hole = None \<longrightarrow> (\<forall>j. i \<le> j \<longrightarrow> j < l \<longrightarrow> j \<in> used_slots c h)) \<or>
       hole = None \<and> (\<exists>j. i \<le> j \<and> j < l \<and> j \<notin> used_slots c h \<and> hole' = Some (a, j))))"

lemma scan_post_used:
  assumes u: "i \<in> used_slots c h" and r: "scan_post a k c h (Suc i) hole r"
  shows "scan_post a k c h i hole r"
proof -
  have ext: "\<forall>j. i \<le> j \<longrightarrow> j < l \<longrightarrow> j \<in> used_slots c h" if "\<forall>j. Suc i \<le> j \<longrightarrow> j < l \<longrightarrow> j \<in> used_slots c h" for l
    using that u by (metis Suc_leI le_neq_implies_less)
  from r consider (found) "\<exists>j hole' e. j \<in> used_slots c h \<and> fst (cc_data c j) = k \<and> r = Some (Some j, hole', e)"
    | (none) hole' l where "r = Some (None, hole', card (used_slots c h), l)" "Suc i \<le> l" "l \<le> h" "used_slots c h = used_slots c l"
      "\<forall>j\<in>used_slots c h. fst (cc_data c j) \<noteq> k"
      "hole' = hole \<and> (hole = None \<longrightarrow> (\<forall>j. Suc i \<le> j \<longrightarrow> j < l \<longrightarrow> j \<in> used_slots c h)) \<or>
       hole = None \<and> (\<exists>j. Suc i \<le> j \<and> j < l \<and> j \<notin> used_slots c h \<and> hole' = Some (a, j))"
    unfolding scan_post_def by blast
  then show ?thesis
  proof cases
    case found
    then show ?thesis unfolding scan_post_def by blast
  next
    case none
    have "hole' = hole \<and> (hole = None \<longrightarrow> (\<forall>j. i \<le> j \<longrightarrow> j < l \<longrightarrow> j \<in> used_slots c h)) \<or>
       hole = None \<and> (\<exists>j. i \<le> j \<and> j < l \<and> j \<notin> used_slots c h \<and> hole' = Some (a, j))"
      using none(6) ext [of l] Suc_leD by blast
    then show ?thesis unfolding scan_post_def using none(1-5)
      by - (rule disjI2, rule exI [of _ hole'], rule exI [of _ l], intro conjI, simp_all)
  qed
qed

lemma scan_post_unused:
  assumes nu: "i \<notin> used_slots c h" and r: "scan_post a k c h (Suc i) (case hole of None \<Rightarrow> Some (a, i) | Some p \<Rightarrow> Some p) r"
  shows "scan_post a k c h i hole r"
proof -
  let ?hole = "case hole of None \<Rightarrow> Some (a, i) | Some p \<Rightarrow> Some p"
  have nn: "?hole \<noteq> None" by (cases hole) auto
  from r consider (found) "\<exists>j hole' e. j \<in> used_slots c h \<and> fst (cc_data c j) = k \<and> r = Some (Some j, hole', e)"
    | (none) l where "r = Some (None, ?hole, card (used_slots c h), l)" "Suc i \<le> l" "l \<le> h" "used_slots c h = used_slots c l"
      "\<forall>j\<in>used_slots c h. fst (cc_data c j) \<noteq> k"
    unfolding scan_post_def using nn by auto
  then show ?thesis
  proof cases
    case found
    then show ?thesis unfolding scan_post_def by blast
  next
    case none
    show ?thesis
      unfolding scan_post_def
    proof (rule disjI2, rule exI [of _ ?hole], rule exI [of _ l], intro conjI)
      show "?hole = hole \<and> (hole = None \<longrightarrow> (\<forall>j. i \<le> j \<longrightarrow> j < l \<longrightarrow> j \<in> used_slots c h)) \<or>
        hole = None \<and> (\<exists>j. i \<le> j \<and> j < l \<and> j \<notin> used_slots c h \<and> ?hole = Some (a, j))"
        using nu none(2) by (cases hole) auto
    qed (use none in auto)
  qed
qed

lemma scan_slots_ok:
  assumes "h \<le> 16" "unat (cc_num c) = card (used_slots c h)"
  shows "i \<le> h \<Longrightarrow> elems = card (used_slots c i) \<Longrightarrow> \<forall>j\<in>used_slots c i. fst (cc_data c j) \<noteq> k \<Longrightarrow>
    scan_post a k c h i hole (scan_slots a k c elems i hole)"
proof (induction "16 - i" arbitrary: i elems hole rule: less_induct)
  case less
  show ?case
  proof (cases "card (used_slots c h) \<le> elems")
    case True
    then have "used_slots c h = used_slots c i" using all_used less.prems by simp
    moreover have "scan_slots a k c elems i hole = Some (None, hole, elems, i)"
      using True assms(2) by (subst scan_slots.simps) simp
    ultimately show ?thesis using less.prems by (auto simp: scan_post_def)
  next
    case False
    then have "i \<noteq> h" using less.prems(2) by auto
    then have ih: "Suc i \<le> h" "i < 16" "16 - Suc i < 16 - i" using less.prems(1) assms(1) by auto
    have run: "scan_slots a k c elems i hole =
        (if slot_bit (cc_occ c) i then if k = fst (cc_data c i) then Some (Some i, hole, elems, i)
           else scan_slots a k c (Suc elems) (Suc i) hole
         else scan_slots a k c elems (Suc i) (case hole of None \<Rightarrow> Some (a, i) | Some p \<Rightarrow> Some p))"
      using False ih(2) assms(2) by (subst scan_slots.simps) simp
    show ?thesis
    proof (cases "slot_bit (cc_occ c) i")
      case bit: True
      then have u: "i \<in> used_slots c h" using ih(1) by (simp add: used_slots_def)
      show ?thesis
      proof (cases "k = fst (cc_data c i)")
        case True
        then show ?thesis using run bit u unfolding scan_post_def by auto
      next
        case ne: False
        have "i \<notin> used_slots c i" by (simp add: used_slots_def)
        then have "Suc elems = card (used_slots c (Suc i))" "\<forall>j\<in>used_slots c (Suc i). fst (cc_data c j) \<noteq> k"
          using bit less.prems(2, 3) ne by (auto simp: used_slots_step)
        from scan_post_used [OF u less.hyps [OF ih(3, 1) this, of hole]] show ?thesis using run bit ne by simp
      qed
    next
      case nb: False
      then have nu: "i \<notin> used_slots c h" by (simp add: used_slots_def)
      have "elems = card (used_slots c (Suc i))" "\<forall>j\<in>used_slots c (Suc i). fst (cc_data c j) \<noteq> k"
        using nb less.prems(2, 3) by (auto simp: used_slots_step)
      from scan_post_unused [OF nu less.hyps [OF ih(3, 1) this]] show ?thesis using run nb by simp
    qed
  qed
qed

end
