(* ===== verification/Chunk_List_Laws.thy ===== *)
theory Chunk_List_Laws
  imports Chunk_List
begin

text \<open>The operations of \<open>ChunkList\<close> on the map that it stands for.\<close>

section \<open>Search\<close>

lemma cl_emit_fields [simp]:
  "cl_chunks (cl_emit es s) = cl_chunks s" "cl_head (cl_emit es s) = cl_head s" "cl_num (cl_emit es s) = cl_num s"
  "cl_supply (cl_emit es s) = cl_supply s" "cl_emit ds (cl_emit es s) = cl_emit (es @ ds) s"
  by (simp_all add: cl_emit_def)

lemma cl_put_fields [simp]:
  "cl_chunks (cl_put a c s) = (cl_chunks s)(a := c)" "cl_head (cl_put a c s) = cl_head s" "cl_num (cl_put a c s) = cl_num s"
  "cl_supply (cl_put a c s) = cl_supply s"
  by (simp_all add: cl_put_def)

lemma cl_inv_emit [simp]: "cl_inv mx (cl_emit es s) as h = cl_inv mx s as h" "cl_rel (cl_emit es s) as h = cl_rel s as h"
  by (simp_all add: cl_inv_def cl_rel_def)

definition no_key :: "'k \<Rightarrow> (addr \<Rightarrow> ('k, 'v) cl_chunk) \<Rightarrow> addr set \<Rightarrow> (addr \<Rightarrow> nat) \<Rightarrow> bool" where
  "no_key k m A h \<longleftrightarrow> (\<forall>p\<in>cl_places m A h. fst (entry m p) \<noteq> k)"

lemma no_key_insert: "no_key k m (insert a A) h \<longleftrightarrow> (\<forall>i\<in>used_slots (m a) (h a). fst (cc_data (m a) i) \<noteq> k) \<and> no_key k m A h"
  by (auto simp: no_key_def cl_places_def entry_def)

lemma scan_chunk:
  assumes "chunk_ok mx c h" "mx \<le> 16"
  shows "scan_post a k c h 0 hole (scan_slots a k c 0 0 hole)"
proof (rule scan_slots_ok)
  show "h \<le> 16" "unat (cc_num c) = card (used_slots c h)" using assms by (simp_all add: chunk_ok_def)
qed (simp_all add: used_slots_def)

lemma scan_chunk_cases:
  assumes "chunk_ok mx c h" "mx \<le> 16"
  obtains (found) i hole' e where "scan_slots a k c 0 0 hole = Some (Some i, hole', e)" "i \<in> used_slots c h" "fst (cc_data c i) = k"
  | (absent) hole' l where "scan_slots a k c 0 0 hole = Some (None, hole', card (used_slots c h), l)"
      "\<forall>i\<in>used_slots c h. fst (cc_data c i) \<noteq> k" "l \<le> h" "used_slots c h \<subseteq> {..<l}"
      "hole' = hole \<and> (hole = None \<longrightarrow> {..<l} \<subseteq> used_slots c h) \<or>
       hole = None \<and> (\<exists>j. j < l \<and> j \<notin> used_slots c h \<and> hole' = Some (a, j))"
proof -
  from scan_chunk [OF assms, of a k hole]
  consider "\<exists>j hole' e. j \<in> used_slots c h \<and> fst (cc_data c j) = k \<and> scan_slots a k c 0 0 hole = Some (Some j, hole', e)"
    | hole' l where "scan_slots a k c 0 0 hole = Some (None, hole', card (used_slots c h), l)" "l \<le> h" "used_slots c h = used_slots c l"
      "\<forall>j\<in>used_slots c h. fst (cc_data c j) \<noteq> k"
      "hole' = hole \<and> (hole = None \<longrightarrow> (\<forall>j. 0 \<le> j \<longrightarrow> j < l \<longrightarrow> j \<in> used_slots c h)) \<or>
       hole = None \<and> (\<exists>j. 0 \<le> j \<and> j < l \<and> j \<notin> used_slots c h \<and> hole' = Some (a, j))"
    unfolding scan_post_def by blast
  then show ?thesis
  proof cases
    case 1
    then show ?thesis using found by blast
  next
    case 2
    have "used_slots c h \<subseteq> {..<l}" unfolding 2(3) by (auto simp: used_slots_def)
    moreover have "hole' = hole \<and> (hole = None \<longrightarrow> {..<l} \<subseteq> used_slots c h) \<or>
       hole = None \<and> (\<exists>j. j < l \<and> j \<notin> used_slots c h \<and> hole' = Some (a, j))" using 2(5) by auto
    ultimately show ?thesis using absent 2(1, 2, 4) by blast
  qed
qed

text \<open>What a search yields: the place of the key, or that there is none.\<close>

definition found_post :: "(addr \<Rightarrow> ('k, 'v) cl_chunk) \<Rightarrow> addr set \<Rightarrow> (addr \<Rightarrow> nat) \<Rightarrow> 'k \<Rightarrow> (addr \<times> nat) option \<Rightarrow> bool" where
  "found_post m A h k r \<longleftrightarrow>
     (case r of None \<Rightarrow> no_key k m A h | Some p \<Rightarrow> p \<in> cl_places m A h \<and> fst (entry m p) = k)"

lemma found_here: "i \<in> used_slots (m a) (h a) \<Longrightarrow> fst (cc_data (m a) i) = k \<Longrightarrow> found_post m (set (a # as)) h k (Some (a, i))"
  by (simp add: found_post_def cl_places_def entry_def)

lemma found_later:
  "\<forall>i\<in>used_slots (m a) (h a). fst (cc_data (m a) i) \<noteq> k \<Longrightarrow> found_post m (set as) h k r \<Longrightarrow> found_post m (set (a # as)) h k r"
  by (cases r) (auto simp: found_post_def no_key_insert cl_places_def)

lemma find_chunks_ok:
  assumes "mx \<le> 16"
  shows "cl_path (cl_chunks s) cur as \<Longrightarrow> \<forall>a\<in>set as. chunk_ok mx (cl_chunks s a) (h a) \<Longrightarrow>
    \<exists>r es. find_chunks k cur s = Some (r, cl_emit es s) \<and> found_post (cl_chunks s) (set as) h k r"
proof (induction as arbitrary: cur s)
  case Nil
  then have "find_chunks k cur s = Some (None, cl_emit [] s)" by (subst find_chunks.simps) (simp add: cl_emit_def)
  then show ?case by (auto simp: found_post_def no_key_def cl_places_def)
next
  case (Cons a as)
  have c: "cur = a" "a \<noteq> 0" "cl_path (cl_chunks s) (cc_next (cl_chunks s a)) as" "chunk_ok mx (cl_chunks s a) (h a)"
    using Cons.prems by auto
  let ?s = "cl_emit [ClLock a False] s"
  show ?case
  proof (rule scan_chunk_cases [OF c(4) assms, of a k None])
    fix i hole' e assume f: "scan_slots a k (cl_chunks s a) 0 0 None = Some (Some i, hole', e)"
      "i \<in> used_slots (cl_chunks s a) (h a)" "fst (cc_data (cl_chunks s a) i) = k"
    then have "find_chunks k cur s = Some (Some (a, i), ?s)" using c by (subst find_chunks.simps) simp
    then show ?thesis using found_here [where m = "cl_chunks s" and h = h, OF f(2, 3)] by blast
  next
    fix hole' l assume f: "scan_slots a k (cl_chunks s a) 0 0 None = Some (None, hole', card (used_slots (cl_chunks s a) (h a)), l)"
      "\<forall>i\<in>used_slots (cl_chunks s a) (h a). fst (cc_data (cl_chunks s a) i) \<noteq> k"
    have e: "find_chunks k cur s = find_chunks k (cc_next (cl_chunks s a)) ?s" using f c by (subst find_chunks.simps) simp
    obtain r es where "find_chunks k (cc_next (cl_chunks s a)) ?s = Some (r, cl_emit es ?s)" "found_post (cl_chunks s) (set as) h k r"
      using Cons.IH [of ?s "cc_next (cl_chunks s a)"] Cons.prems(2) c(3) by auto
    then show ?thesis using e found_later [where m = "cl_chunks s" and h = h, OF f(2)] by auto
  qed
qed

text \<open>A place for a new entry: an unused slot that is not behind the slot above the mark.\<close>

definition good_hole :: "nat \<Rightarrow> (addr \<Rightarrow> ('k, 'v) cl_chunk) \<Rightarrow> addr set \<Rightarrow> (addr \<Rightarrow> nat) \<Rightarrow> (addr \<times> nat) option \<Rightarrow> bool" where
  "good_hole mx m A h hole \<longleftrightarrow>
     (case hole of None \<Rightarrow> True | Some (a, i) \<Rightarrow> a \<in> A \<and> i < mx \<and> i \<le> h a \<and> i \<notin> used_slots (m a) (h a))"

lemma good_hole_scan:
  assumes "chunk_ok mx c h" "l \<le> h" "used_slots c h \<subseteq> {..<l}" "c = m a" "h = hf a" "a \<in> A"
    and hole: "good_hole mx m A hf hole"
    and res: "hole' = hole \<and> (hole = None \<longrightarrow> {..<l} \<subseteq> used_slots c h) \<or>
       hole = None \<and> (\<exists>j. j < l \<and> j \<notin> used_slots c h \<and> hole' = Some (a, j))"
  shows "good_hole mx m A hf (if card (used_slots c h) < mx \<and> hole' = None then Some (a, l) else hole')"
proof (cases "card (used_slots c h) < mx \<and> hole' = None")
  case True
  then have "{..<l} = used_slots c h" using res assms(3) by auto
  then have "card (used_slots c h) = l" by (metis card_lessThan)
  then show ?thesis using True assms by (auto simp: good_hole_def)
next
  case False
  have "h \<le> mx" using assms(1) by (simp add: chunk_ok_def)
  then show ?thesis using False res hole assms by (auto simp: good_hole_def)
qed

lemma add_chunks_ok:
  assumes "mx \<le> 16"
  shows "cl_path (cl_chunks s) cur as \<Longrightarrow> \<forall>a\<in>set as. chunk_ok mx (cl_chunks s a) (h a) \<Longrightarrow> set as \<subseteq> A \<Longrightarrow>
    good_hole mx (cl_chunks s) A h hole \<Longrightarrow>
    \<exists>r hole' q es. add_chunks mx k prev cur hole s = Some (r, hole', q, cl_emit es s) \<and> found_post (cl_chunks s) (set as) h k r \<and>
      (r = None \<longrightarrow> good_hole mx (cl_chunks s) A h hole' \<and> q = (if as = [] then prev else last as))"
proof (induction as arbitrary: cur prev hole s)
  case Nil
  then have "add_chunks mx k prev cur hole s = Some (None, hole, prev, cl_emit [] s)"
    by (subst add_chunks.simps) (simp add: cl_emit_def)
  then show ?case using Nil.prems(4) by (auto simp: found_post_def no_key_def cl_places_def)
next
  case (Cons a as)
  have c: "cur = a" "a \<noteq> 0" "cl_path (cl_chunks s) (cc_next (cl_chunks s a)) as" "chunk_ok mx (cl_chunks s a) (h a)" "a \<in> A" "set as \<subseteq> A"
    using Cons.prems by auto
  let ?s = "cl_emit [ClLock a False] s"
  show ?case
  proof (rule scan_chunk_cases [OF c(4) assms, of a k hole])
    fix i hole' e assume f: "scan_slots a k (cl_chunks s a) 0 0 hole = Some (Some i, hole', e)"
      "i \<in> used_slots (cl_chunks s a) (h a)" "fst (cc_data (cl_chunks s a) i) = k"
    then have "add_chunks mx k prev cur hole s = Some (Some (a, i), hole', prev, ?s)"
      using c by (subst add_chunks.simps) (cases e, simp)
    then show ?thesis using found_here [where m = "cl_chunks s" and h = h, OF f(2, 3)] by blast
  next
    fix hole' l assume f: "scan_slots a k (cl_chunks s a) 0 0 hole = Some (None, hole', card (used_slots (cl_chunks s a) (h a)), l)"
      "\<forall>i\<in>used_slots (cl_chunks s a) (h a). fst (cc_data (cl_chunks s a) i) \<noteq> k" "l \<le> h a" "used_slots (cl_chunks s a) (h a) \<subseteq> {..<l}"
      "hole' = hole \<and> (hole = None \<longrightarrow> {..<l} \<subseteq> used_slots (cl_chunks s a) (h a)) \<or>
       hole = None \<and> (\<exists>j. j < l \<and> j \<notin> used_slots (cl_chunks s a) (h a) \<and> hole' = Some (a, j))"
    let ?hole = "if card (used_slots (cl_chunks s a) (h a)) < mx \<and> hole' = None then Some (a, l) else hole'"
    have g: "good_hole mx (cl_chunks s) A h ?hole"
      by (rule good_hole_scan [OF c(4) f(3, 4) refl refl c(5) Cons.prems(4) f(5)])
    have e: "add_chunks mx k prev cur hole s = add_chunks mx k a (cc_next (cl_chunks s a)) ?hole ?s"
      using f(1) c by (subst add_chunks.simps) simp
    obtain r hole2 q es where r: "add_chunks mx k a (cc_next (cl_chunks s a)) ?hole ?s = Some (r, hole2, q, cl_emit es ?s)"
      "found_post (cl_chunks s) (set as) h k r"
      "r = None \<longrightarrow> good_hole mx (cl_chunks s) A h hole2 \<and> q = (if as = [] then a else last as)"
      using Cons.IH [of ?s "cc_next (cl_chunks s a)" ?hole a] Cons.prems(2) c(3, 6) g by auto
    then show ?thesis unfolding e using found_later [where m = "cl_chunks s" and h = h, OF f(2) r(2)] by auto
  qed
qed

lemma remove_chunks_ok:
  assumes "mx \<le> 16"
  shows "cl_path (cl_chunks s) cur as \<Longrightarrow> \<forall>a\<in>set as. chunk_ok mx (cl_chunks s a) (h a) \<Longrightarrow>
    (\<exists>es. remove_chunks k prev cur s = Some (cl_emit es s) \<and> no_key k (cl_chunks s) (set as) h) \<or>
    (\<exists>us a vs i es. as = us @ a # vs \<and> i \<in> used_slots (cl_chunks s a) (h a) \<and> fst (cc_data (cl_chunks s a) i) = k \<and>
      remove_chunks k prev cur s = Some (remove_slot (if us = [] then prev else last us) a i (cl_emit es s)))"
proof (induction as arbitrary: cur prev s)
  case Nil
  then have "remove_chunks k prev cur s = Some (cl_emit [] s)" by (subst remove_chunks.simps) (simp add: cl_emit_def)
  then show ?case by (auto simp: no_key_def cl_places_def)
next
  case (Cons a as)
  have c: "cur = a" "a \<noteq> 0" "cl_path (cl_chunks s) (cc_next (cl_chunks s a)) as" "chunk_ok mx (cl_chunks s a) (h a)"
    using Cons.prems by auto
  let ?s = "cl_emit [ClLock a False] s"
  show ?case
  proof (rule scan_chunk_cases [OF c(4) assms, of a k None])
    fix i hole' e assume f: "scan_slots a k (cl_chunks s a) 0 0 None = Some (Some i, hole', e)"
      "i \<in> used_slots (cl_chunks s a) (h a)" "fst (cc_data (cl_chunks s a) i) = k"
    then have "remove_chunks k prev cur s = Some (remove_slot prev a i ?s)" using c by (subst remove_chunks.simps) simp
    then show ?thesis using f(2, 3)
      by - (rule disjI2, rule exI [of _ "[]"], rule exI [of _ a], rule exI [of _ as], rule exI [of _ i], rule exI [of _ "[ClLock a False]"], simp)
  next
    fix hole' l assume f: "scan_slots a k (cl_chunks s a) 0 0 None = Some (None, hole', card (used_slots (cl_chunks s a) (h a)), l)"
      "\<forall>i\<in>used_slots (cl_chunks s a) (h a). fst (cc_data (cl_chunks s a) i) \<noteq> k"
    have e: "remove_chunks k prev cur s = remove_chunks k a (cc_next (cl_chunks s a)) ?s" using f c by (subst remove_chunks.simps) simp
    from Cons.IH [of ?s "cc_next (cl_chunks s a)" a] Cons.prems(2) c(3)
    consider (absent) es where "remove_chunks k a (cc_next (cl_chunks s a)) ?s = Some (cl_emit es ?s)" "no_key k (cl_chunks s) (set as) h"
      | (found) us b vs i es where "as = us @ b # vs" "i \<in> used_slots (cl_chunks s b) (h b)" "fst (cc_data (cl_chunks s b) i) = k"
        "remove_chunks k a (cc_next (cl_chunks s a)) ?s = Some (remove_slot (if us = [] then a else last us) b i (cl_emit es ?s))" by auto
    then show ?thesis
    proof cases
      case absent
      then show ?thesis unfolding e using f(2) by (intro disjI1) (auto simp: no_key_insert)
    next
      case found
      then show ?thesis unfolding e
        by - (rule disjI2, rule exI [of _ "a # us"], rule exI [of _ b], rule exI [of _ vs], rule exI [of _ i],
            rule exI [of _ "ClLock a False # es"], simp)
    qed
  qed
qed

section \<open>Entries\<close>

lemma slot_bit_push: "i < 16 \<Longrightarrow> j < 16 \<Longrightarrow> slot_bit (occ OR push_bit i 1) j \<longleftrightarrow> j = i \<or> slot_bit occ j"
  "i < 16 \<Longrightarrow> j < 16 \<Longrightarrow> slot_bit (occ AND NOT (push_bit i 1)) j \<longleftrightarrow> j \<noteq> i \<and> slot_bit occ j"
  by (auto simp: slot_bit_iff bit_or_iff bit_and_iff bit_not_iff push_bit_of_1 bit_exp_iff)

lemma used_fill:
  "i \<le> h \<Longrightarrow> i < 16 \<Longrightarrow> h \<le> 16 \<Longrightarrow> used_slots (fill_slot i c) (max h (Suc i)) = insert i (used_slots c h)"
  by (auto simp: used_slots_def fill_slot_def slot_bit_push slot_bit_push [unfolded push_bit_of_1] less_max_iff_disj less_Suc_eq)

lemma used_clear: "i < 16 \<Longrightarrow> h \<le> 16 \<Longrightarrow> used_slots (clear_slot i c) h = used_slots c h - {i}"
  by (auto simp: used_slots_def clear_slot_def slot_bit_push slot_bit_push [unfolded push_bit_of_1])

lemma used_new: "used_slots (new_chunk raw) (Suc 0) = {0}"
  using slot_bit_push(1) [of 0 0 "cc_occ raw"] by (auto simp: used_slots_def new_chunk_def)

lemma used_cong [simp]:
  "used_slots (c\<lparr>cc_data := d\<rparr>) h = used_slots c h" "used_slots (c\<lparr>cc_next := n\<rparr>) h = used_slots c h"
  by (simp_all add: used_slots_def)

lemma chunk_ok_cong [simp]:
  "chunk_ok mx (c\<lparr>cc_data := d\<rparr>) h = chunk_ok mx c h" "chunk_ok mx (c\<lparr>cc_next := n\<rparr>) h = chunk_ok mx c h"
  by (simp_all add: chunk_ok_def)

lemma places_finite [simp]: "finite A \<Longrightarrow> finite (cl_places m A h)"
proof -
  assume "finite A"
  moreover have "cl_places m A h = Sigma A (\<lambda>a. used_slots (m a) (h a))" by (auto simp: cl_places_def)
  ultimately show ?thesis by simp
qed

lemma card_used_le: "card (used_slots c h) \<le> h"
proof -
  have "card (used_slots c h) \<le> card {..<h}" by (rule card_mono) (auto simp: used_slots_def)
  then show ?thesis by simp
qed

lemma chunk_ok_fill:
  assumes "chunk_ok mx c h" "mx \<le> 16" "i < mx" "i \<le> h" "i \<notin> used_slots c h"
  shows "chunk_ok mx (fill_slot i c) (max h (Suc i))"
proof -
  have h: "h \<le> 16" "i < 16" using assms by (auto simp: chunk_ok_def)
  have u: "used_slots (fill_slot i c) (max h (Suc i)) = insert i (used_slots c h)" using used_fill [OF assms(4) h(2, 1)] .
  have "unat (cc_num c) \<le> 16" using assms(1) h(1) card_used_le [of c h] by (simp add: chunk_ok_def)
  then have "unat (cc_num c + 1) = unat (cc_num c) + 1" by (simp add: unat_word_ariths)
  then show ?thesis using assms u by (simp add: chunk_ok_def) (simp add: fill_slot_def)
qed

lemma chunk_ok_clear:
  assumes "chunk_ok mx c h" "mx \<le> 16" "i \<in> used_slots c h"
  shows "unat (cc_num (clear_slot i c)) = card (used_slots c h - {i})"
    "used_slots c h - {i} \<noteq> {} \<Longrightarrow> chunk_ok mx (clear_slot i c) h"
proof -
  have h: "h \<le> 16" "i < 16" using assms by (auto simp: chunk_ok_def used_slots_def)
  have "card (used_slots c h) \<noteq> 0" using assms(3) by auto
  then have "cc_num c \<noteq> 0" using assms(1) by (auto simp: chunk_ok_def)
  then have "unat (cc_num c - 1) = unat (cc_num c) - 1" by (simp add: unat_minus_one)
  then show n: "unat (cc_num (clear_slot i c)) = card (used_slots c h - {i})"
    using assms by (simp add: chunk_ok_def) (simp add: clear_slot_def)
  show "chunk_ok mx (clear_slot i c) h" if "used_slots c h - {i} \<noteq> {}"
    using that n assms(1) used_clear [OF h(2, 1), of c] by (simp add: chunk_ok_def)
qed

text \<open>One place more or less in the set of places.\<close>

lemma entries_add:
  assumes "inj_on (fst \<circ> entry m) P" "\<forall>p\<in>P. fst (entry m p) \<noteq> k" "\<forall>p\<in>P. entry m' p = entry m p" "entry m' q = (k, v)"
  shows "inj_on (fst \<circ> entry m') (insert q P)" "entry m' ` insert q P = insert (k, v) (entry m ` P)"
proof -
  have "inj_on (fst \<circ> entry m') P" using assms(1, 3) by (auto simp: inj_on_def)
  moreover have "(fst \<circ> entry m') q \<notin> (fst \<circ> entry m') ` (P - {q})" using assms(2, 3, 4) by (auto simp: image_iff)
  ultimately show "inj_on (fst \<circ> entry m') (insert q P)" by (simp add: inj_on_insert)
  show "entry m' ` insert q P = insert (k, v) (entry m ` P)" using assms(3, 4) by (force simp: image_iff)
qed

lemma entries_remove:
  assumes "inj_on (fst \<circ> entry m) P" "q \<in> P" "\<forall>p\<in>P. entry m' p = entry m p"
  shows "inj_on (fst \<circ> entry m') (P - {q})" "entry m' ` (P - {q}) = entry m ` P - {e. fst e = fst (entry m q)}"
proof -
  show "inj_on (fst \<circ> entry m') (P - {q})" using assms(1, 3) by (auto simp: inj_on_def)
  show "entry m' ` (P - {q}) = entry m ` P - {e. fst e = fst (entry m q)}"
    using assms unfolding inj_on_def by (auto simp: image_iff)
qed

section \<open>The list of chunks\<close>

lemma cl_path_cong: "cl_path m p as \<Longrightarrow> \<forall>a\<in>set as. cc_next (m' a) = cc_next (m a) \<Longrightarrow> cl_path m' p as"
  by (induction as arbitrary: p) auto

lemma cl_path_nonzero: "cl_path m p as \<Longrightarrow> a \<in> set as \<Longrightarrow> a \<noteq> 0"
  by (induction as arbitrary: p) auto

lemma cl_path_link:
  "cl_path m p as \<Longrightarrow> as \<noteq> [] \<Longrightarrow> distinct as \<Longrightarrow> d \<noteq> 0 \<Longrightarrow> d \<notin> set as \<Longrightarrow> cc_next (m d) = 0 \<Longrightarrow>
   cl_path (m(last as := (m (last as))\<lparr>cc_next := d\<rparr>)) p (as @ [d])"
proof (induction as arbitrary: p)
  case (Cons a as)
  show ?case
  proof (cases "as = []")
    case False
    then have "last as \<noteq> a" using Cons.prems(3) last_in_set by fastforce
    then show ?thesis using Cons False by simp
  qed (use Cons.prems in auto)
qed simp

lemma cl_path_unlink:
  "cl_path m p (us @ a # vs) \<Longrightarrow> us \<noteq> [] \<Longrightarrow> distinct (us @ a # vs) \<Longrightarrow>
   cl_path (m(last us := (m (last us))\<lparr>cc_next := cc_next (m a)\<rparr>)) p (us @ vs)"
proof (induction us arbitrary: p)
  case (Cons u us)
  show ?case
  proof (cases "us = []")
    case True
    have "cl_path m (cc_next (m a)) vs" using Cons.prems(1) True by simp
    then have "cl_path (m(u := (m u)\<lparr>cc_next := cc_next (m a)\<rparr>)) (cc_next (m a)) vs"
      by (rule cl_path_cong) (use Cons.prems(3) in auto)
    then show ?thesis using Cons.prems True by (simp add: fun_upd_def)
  next
    case False
    then have "last us \<noteq> u" using Cons.prems(3) last_in_set by fastforce
    then show ?thesis using Cons False by simp
  qed
qed simp

lemma cl_path_head: "cl_path m p (us @ vs) \<Longrightarrow> us = [] \<Longrightarrow> cl_path m p vs"
  by simp

section \<open>The operations\<close>

text \<open>The list stands for the map \<open>M\<close>.\<close>

definition cl_ok :: "nat \<Rightarrow> ('k, 'v) cl_state \<Rightarrow> ('k \<rightharpoonup> 'v) \<Rightarrow> bool" where
  "cl_ok mx s M \<longleftrightarrow> (\<exists>as h. cl_inv mx s as h \<and> cl_rel s as h = {(k, v). M k = Some v})"

lemma no_key_None: "cl_rel s as h = {(k, v). M k = Some v} \<Longrightarrow> no_key k (cl_chunks s) (set as) h \<Longrightarrow> M k = None"
proof (rule ccontr)
  assume a: "cl_rel s as h = {(k, v). M k = Some v}" "no_key k (cl_chunks s) (set as) h" "M k \<noteq> None"
  then obtain v where "(k, v) \<in> cl_rel s as h" by auto
  then obtain p where "p \<in> cl_places (cl_chunks s) (set as) h" "entry (cl_chunks s) p = (k, v)"
    unfolding cl_rel_def by (metis imageE)
  then show False using a(2) unfolding no_key_def by fastforce
qed

lemma key_Some:
  "cl_rel s as h = {(k, v). M k = Some v} \<Longrightarrow> p \<in> cl_places (cl_chunks s) (set as) h \<Longrightarrow> fst (entry (cl_chunks s) p) = k \<Longrightarrow>
   M k = Some (snd (entry (cl_chunks s) p))"
  unfolding cl_rel_def by (metis (mono_tags, lifting) case_prodE imageI mem_Collect_eq prod.sel)

lemma cl_find_ok:
  assumes inv: "cl_inv mx s as h" and rel: "cl_rel s as h = {(k, v). M k = Some v}"
  shows "\<exists>r es. cl_find k s = Some (r, cl_emit es s) \<and> map_option (\<lambda>p. snd (entry (cl_chunks s) p)) r = M k"
proof -
  let ?s = "cl_emit [ClLock (cl_this s) False] s"
  have "mx \<le> 16" using inv by (simp add: cl_inv_def)
  then obtain r es where r: "find_chunks k (cl_head s) ?s = Some (r, cl_emit es ?s)" "found_post (cl_chunks s) (set as) h k r"
    using find_chunks_ok [of mx ?s "cl_head s" as h k] inv by (auto simp: cl_inv_def)
  have "map_option (\<lambda>p. snd (entry (cl_chunks s) p)) r = M k"
    using r(2) no_key_None [OF rel] key_Some [OF rel] by (cases r) (auto simp: found_post_def)
  then show ?thesis using r(1) by (auto simp: cl_find_def)
qed

text \<open>After an entry has been stored at a new place.\<close>

lemma cl_inv_added:
  assumes inv: "cl_inv mx s as h" and nk: "no_key k (cl_chunks s) (set as) h"
    and path: "cl_path (cl_chunks s') (cl_head s') as'" "distinct as'" "\<forall>a\<in>set as'. chunk_ok mx (cl_chunks s' a) (h' a)"
    and places: "cl_places (cl_chunks s') (set as') h' = insert q (cl_places (cl_chunks s) (set as) h)"
      "q \<notin> cl_places (cl_chunks s) (set as) h"
      "\<forall>p\<in>cl_places (cl_chunks s) (set as) h. entry (cl_chunks s') p = entry (cl_chunks s) p" "entry (cl_chunks s') q = (k, v)"
    and rest: "cl_num s' = cl_num s + 1" "distinct (map fst (cl_supply s'))" "\<forall>a\<in>fst ` set (cl_supply s'). a \<noteq> 0 \<and> a \<notin> set as'"
  shows "cl_inv mx s' as' h'" "cl_rel s' as' h' = insert (k, v) (cl_rel s as h)"
proof -
  have i: "inj_on (fst \<circ> entry (cl_chunks s)) (cl_places (cl_chunks s) (set as) h)" using inv by (simp add: cl_inv_def)
  note E = entries_add [OF i nk [unfolded no_key_def] places(3, 4)]
  show "cl_rel s' as' h' = insert (k, v) (cl_rel s as h)" unfolding cl_rel_def places(1) by (rule E(2))
  show "cl_inv mx s' as' h'"
    unfolding cl_inv_def places(1)
    using inv path rest E(1) places(2) by (simp add: cl_inv_def card_insert_if)
qed

lemma rel_insert:
  "cl_rel s as h = {(k, v). M k = Some v} \<Longrightarrow> M k = None \<Longrightarrow> insert (k, v) (cl_rel s as h) = {(k', v'). (M(k \<mapsto> v)) k' = Some v'}"
  by (auto split: if_splits)

lemma add_in_hole:
  assumes inv: "cl_inv mx s as h" and nk: "no_key k (cl_chunks s) (set as) h" and hole: "good_hole mx (cl_chunks s) (set as) h (Some (a, i))"
    and s'_def: "s' = set_entry k v a i (cl_put a (fill_slot i (cl_chunks s a)) (cl_emit es s))"
    and h'_def: "h' = h(a := max (h a) (Suc i))"
  shows "cl_inv mx s' as h'" "cl_rel s' as h' = insert (k, v) (cl_rel s as h)" "entry (cl_chunks s') (a, i) = (k, v)"
proof -
  let ?c = "cl_chunks s a"
  have g: "a \<in> set as" "i < mx" "i \<le> h a" "i \<notin> used_slots ?c (h a)" using hole by (simp_all add: good_hole_def)
  have ok: "chunk_ok mx ?c (h a)" "mx \<le> 16" using inv g(1) by (simp_all add: cl_inv_def)
  have lim: "i < 16" "h a \<le> 16" using g(2) ok by (auto simp: chunk_ok_def)
  have m: "cl_chunks s' = (cl_chunks s)(a := (fill_slot i ?c)\<lparr>cc_data := (cc_data ?c)(i := (k, v))\<rparr>)"
    by (simp add: s'_def set_entry_def fill_slot_def)
  have other: "cl_head s' = cl_head s" "cl_num s' = cl_num s + 1" "cl_supply s' = cl_supply s"
    by (simp_all add: s'_def set_entry_def)
  have nxt: "cc_next (cl_chunks s' b) = cc_next (cl_chunks s b)" for b by (simp add: m fill_slot_def)
  have path: "cl_path (cl_chunks s') (cl_head s') as"
    using inv nxt cl_path_cong [of "cl_chunks s" "cl_head s" as "cl_chunks s'"] by (simp add: cl_inv_def other)
  have chunks: "\<forall>b\<in>set as. chunk_ok mx (cl_chunks s' b) (h' b)"
    using inv chunk_ok_fill [OF ok g(2-4)] by (simp add: cl_inv_def m h'_def)
  have places: "cl_places (cl_chunks s') (set as) h' = insert (a, i) (cl_places (cl_chunks s) (set as) h)"
    using g(1) used_fill [OF g(3) lim, of ?c] unfolding cl_places_def m h'_def by (auto split: if_splits)
  have new: "(a, i) \<notin> cl_places (cl_chunks s) (set as) h" using g(4) by (simp add: cl_places_def)
  have same: "\<forall>p\<in>cl_places (cl_chunks s) (set as) h. entry (cl_chunks s') p = entry (cl_chunks s) p"
    using new by (auto simp: entry_def m cl_places_def)
  show e: "entry (cl_chunks s') (a, i) = (k, v)" by (simp add: entry_def m)
  have d: "distinct as" "distinct (map fst (cl_supply s'))" "\<forall>a\<in>fst ` set (cl_supply s'). a \<noteq> 0 \<and> a \<notin> set as"
    using inv by (simp_all add: cl_inv_def other)
  note A = cl_inv_added [OF inv nk path d(1) chunks places new same e other(2) d(2, 3)]
  show "cl_inv mx s' as h'" "cl_rel s' as h' = insert (k, v) (cl_rel s as h)" by (rule A)+
qed

lemma add_in_new:
  assumes inv: "cl_inv mx s as h" and nk: "no_key k (cl_chunks s) (set as) h" and sup: "cl_supply s = (a, raw) # rest"
  obtains s2 where "add_place None (if as = [] then 0 else last as) (cl_emit es s) = (Inr (a, 0), s2)"
    "cl_inv mx (set_entry k v a 0 s2) (as @ [a]) (h(a := 1))"
    "cl_rel (set_entry k v a 0 s2) (as @ [a]) (h(a := 1)) = insert (k, v) (cl_rel s as h)"
    "entry (cl_chunks (set_entry k v a 0 s2)) (a, 0) = (k, v)"
proof -
  have a: "a \<noteq> 0" "a \<notin> set as" "a \<notin> fst ` set rest" "distinct (map fst rest)" "\<forall>b\<in>fst ` set rest. b \<noteq> 0 \<and> b \<notin> set as"
    using inv sup by (auto simp: cl_inv_def)
  have inv': "cl_path (cl_chunks s) (cl_head s) as" "distinct as" "0 < mx" "mx \<le> 16" using inv by (simp_all add: cl_inv_def)
  have last: "as \<noteq> [] \<Longrightarrow> last as \<noteq> 0" "as \<noteq> [] \<Longrightarrow> last as \<noteq> a" "as \<noteq> [] \<Longrightarrow> last as \<in> set as"
    using cl_path_nonzero [OF inv'(1)] a(2) last_in_set by fastforce+
  let ?prev = "if as = [] then 0 else last as"
  let ?s1 = "cl_emit [ClFlushHeader a] (cl_put a (new_chunk raw) ((cl_emit es s)\<lparr>cl_supply := rest\<rparr>))"
  define s2 where "s2 = (if as = [] then cl_emit [ClWriteHead] (?s1\<lparr>cl_head := a\<rparr>)
      else cl_emit [ClLock (last as) True, ClWriteNext (last as)] (cl_put (last as) ((cl_chunks ?s1 (last as))\<lparr>cc_next := a\<rparr>) ?s1))"
  have s2: "add_place None ?prev (cl_emit es s) = (Inr (a, 0), s2)"
    using last(1) by (cases "as = []") (simp_all add: add_place_def sup Let_def s2_def)
  define s' where "s' = set_entry k v a 0 s2"
  let ?d = "(new_chunk raw)\<lparr>cc_data := (cc_data raw)(0 := (k, v))\<rparr>"
  let ?m1 = "(cl_chunks s)(a := ?d)"
  have pt: "cl_chunks s' b = (if b = a then ?d else if as \<noteq> [] \<and> b = last as then (cl_chunks s b)\<lparr>cc_next := a\<rparr> else cl_chunks s b)" for b
    using last(2) by (simp add: s'_def set_entry_def s2_def new_chunk_def)
  have m: "cl_chunks s' = (if as = [] then ?m1 else ?m1(last as := (?m1 (last as))\<lparr>cc_next := a\<rparr>))"
    by (rule ext) (use pt last(2) in auto)
  have head: "cl_head s' = (if as = [] then a else cl_head s)" by (simp add: s'_def set_entry_def s2_def)
  have other: "cl_num s' = cl_num s + 1" "cl_supply s' = rest" by (simp_all add: s'_def set_entry_def s2_def)
  have dn: "cc_next ?d = 0" by (simp add: new_chunk_def)
  have "cl_path ?m1 (cl_head s) as" by (rule cl_path_cong [OF inv'(1)]) (use a(2) in auto)
  then have path: "cl_path (cl_chunks s') (cl_head s') (as @ [a])"
    using cl_path_link [of ?m1 "cl_head s" as a] inv'(2) a(1, 2) dn by (cases "as = []") (simp_all add: m head)
  have num1: "unat (cc_num ?d) = 1" by (simp add: new_chunk_def)
  have used: "used_slots (cl_chunks s' b) ((h(a := 1)) b) = (if b = a then {0} else used_slots (cl_chunks s b) (h b))" for b
    using used_new [of raw] by (simp add: pt)
  have okd: "chunk_ok mx ?d 1" using num1 used_new [of raw] inv'(3) by (simp add: chunk_ok_def)
  have chunks: "\<forall>b\<in>set (as @ [a]). chunk_ok mx (cl_chunks s' b) ((h(a := 1)) b)"
    using inv okd a(2) by (auto simp: cl_inv_def pt)
  have places: "cl_places (cl_chunks s') (set (as @ [a])) (h(a := 1)) = insert (a, 0) (cl_places (cl_chunks s) (set as) h)"
    using a(2) used by (auto simp: cl_places_def split: if_splits)
  have new: "(a, 0) \<notin> cl_places (cl_chunks s) (set as) h" using a(2) by (simp add: cl_places_def)
  have same: "\<forall>p\<in>cl_places (cl_chunks s) (set as) h. entry (cl_chunks s') p = entry (cl_chunks s) p"
    using a(2) by (auto simp: entry_def pt cl_places_def)
  have e: "entry (cl_chunks s') (a, 0) = (k, v)" by (simp add: entry_def pt)
  have d: "distinct (as @ [a])" "distinct (map fst (cl_supply s'))" "\<forall>b\<in>fst ` set (cl_supply s'). b \<noteq> 0 \<and> b \<notin> set (as @ [a])"
    using a inv'(2) by (auto simp: other)
  note A = cl_inv_added [OF inv nk path d(1) chunks places new same e other(1) d(2, 3)]
  show ?thesis by (rule that [OF s2]) (use A e in \<open>simp_all only: s'_def\<close>)
qed

lemma cl_add_ok:
  assumes inv: "cl_inv mx s as h" and rel: "cl_rel s as h = {(k, v). M k = Some v}"
  shows "\<exists>r s'. cl_add mx v k s = Some (r, s') \<and>
    (case r of
       Inl e \<Rightarrow> e = BadAlloc \<and> M k = None \<and> cl_supply s = [] \<and> cl_ok mx s' M
     | Inr p \<Rightarrow> cl_ok mx s' (if M k = None then M(k \<mapsto> v) else M) \<and>
         entry (cl_chunks s') p = (k, case M k of None \<Rightarrow> v | Some w \<Rightarrow> w))"
proof -
  let ?s = "cl_emit [ClLock (cl_this s) False] s"
  have mx: "mx \<le> 16" "cl_path (cl_chunks ?s) (cl_head s) as" "\<forall>a\<in>set as. chunk_ok mx (cl_chunks ?s a) (h a)"
    using inv by (simp_all add: cl_inv_def)
  have "good_hole mx (cl_chunks ?s) (set as) h None" by (simp add: good_hole_def)
  from add_chunks_ok [OF mx subset_refl this, of k 0]
  obtain r hole q es where r: "add_chunks mx k 0 (cl_head s) None ?s = Some (r, hole, q, cl_emit es ?s)"
    "found_post (cl_chunks s) (set as) h k r"
    "r = None \<longrightarrow> good_hole mx (cl_chunks s) (set as) h hole \<and> q = (if as = [] then 0 else last as)" by auto
  show ?thesis
  proof (cases r)
    case (Some p)
    then have "M k = Some (snd (entry (cl_chunks s) p))" "fst (entry (cl_chunks s) p) = k"
      using r(2) key_Some [OF rel, of p k] by (simp_all add: found_post_def)
    moreover have "cl_add mx v k s = Some (Inr p, cl_emit es ?s)" using r(1) Some by (simp add: cl_add_def)
    moreover have "cl_ok mx (cl_emit es ?s) M" using inv rel by (auto simp: cl_ok_def)
    ultimately show ?thesis by (cases "entry (cl_chunks s) p") auto
  next
    case None
    then have nk: "no_key k (cl_chunks s) (set as) h" using r(2) by (simp add: found_post_def)
    have Mk: "M k = None" using no_key_None [OF rel nk] .
    have g: "good_hole mx (cl_chunks s) (set as) h hole" "q = (if as = [] then 0 else last as)" using r(3) None by auto
    define es' where "es' = [ClLock (cl_this s) False] @ es @ [ClLock (cl_this (cl_emit es ?s)) True]"
    have add: "cl_add mx v k s = (case add_place hole q (cl_emit es' s) of
        (Inl e, s2) \<Rightarrow> Some (Inl e, s2) | (Inr (a, i), s2) \<Rightarrow> Some (Inr (a, i), set_entry k v a i s2))"
      using r(1) None by (simp add: cl_add_def es'_def cl_emit_def)
    have done_ok: "cl_ok mx s' (M(k \<mapsto> v))" if "cl_inv mx s' as' h'" "cl_rel s' as' h' = insert (k, v) (cl_rel s as h)" for s' as' h'
      using that rel_insert [OF rel Mk, of v] unfolding cl_ok_def by blast
    show ?thesis
    proof (cases hole)
      case (Some ai)
      obtain a i where ai: "ai = (a, i)" by fastforce
      let ?s' = "set_entry k v a i (cl_put a (fill_slot i (cl_chunks s a)) (cl_emit (es' @ [ClLock a True, ClLog a]) s))"
      note H = add_in_hole [OF inv nk g(1) [unfolded Some ai] refl refl, of v "es' @ [ClLock a True, ClLog a]"]
      have "cl_add mx v k s = Some (Inr (a, i), ?s')" unfolding add by (simp add: Some ai add_place_def)
      then show ?thesis using done_ok [OF H(1, 2)] H(3) Mk by simp
    next
      case None
      show ?thesis
      proof (cases "cl_supply s")
        case Nil
        then have "cl_add mx v k s = Some (Inl BadAlloc, cl_emit es' s)" unfolding add by (simp add: None add_place_def)
        moreover have "cl_ok mx (cl_emit es' s) M" using inv rel by (auto simp: cl_ok_def)
        ultimately show ?thesis using Mk Nil by simp
      next
        case (Cons ar rest)
        obtain a raw where "ar = (a, raw)" by fastforce
        then have sup: "cl_supply s = (a, raw) # rest" using Cons by simp
        obtain s2 where s2: "add_place None q (cl_emit es' s) = (Inr (a, 0), s2)"
          "cl_inv mx (set_entry k v a 0 s2) (as @ [a]) (h(a := 1))"
          "cl_rel (set_entry k v a 0 s2) (as @ [a]) (h(a := 1)) = insert (k, v) (cl_rel s as h)"
          "entry (cl_chunks (set_entry k v a 0 s2)) (a, 0) = (k, v)"
          unfolding g(2) using add_in_new [OF inv nk sup] .
        have "cl_add mx v k s = Some (Inr (a, 0), set_entry k v a 0 s2)" unfolding add by (simp add: None s2(1))
        then show ?thesis using done_ok [OF s2(2, 3)] s2(4) Mk by simp
      qed
    qed
  qed
qed

lemma rel_remove:
  "cl_rel s as h = {(k, v). M k = Some v} \<Longrightarrow> cl_rel s as h - {e. fst e = k} = {(k', v'). (M(k := None)) k' = Some v'}"
  by (auto split: if_splits)

lemma cl_inv_removed:
  assumes inv: "cl_inv mx s as h" and q: "q \<in> cl_places (cl_chunks s) (set as) h"
    and path: "cl_path (cl_chunks s') (cl_head s') as'" "distinct as'" "\<forall>a\<in>set as'. chunk_ok mx (cl_chunks s' a) (h a)"
    and sub: "set as' \<subseteq> set as"
    and places: "cl_places (cl_chunks s') (set as') h = cl_places (cl_chunks s) (set as) h - {q}"
      "\<forall>p. entry (cl_chunks s') p = entry (cl_chunks s) p"
    and rest: "cl_num s' = cl_num s - 1" "cl_supply s' = cl_supply s"
  shows "cl_inv mx s' as' h" "cl_rel s' as' h = cl_rel s as h - {e. fst e = fst (entry (cl_chunks s) q)}"
proof -
  have i: "inj_on (fst \<circ> entry (cl_chunks s)) (cl_places (cl_chunks s) (set as) h)" using inv by (simp add: cl_inv_def)
  note E = entries_remove [OF i q, of "cl_chunks s'"]
  show "cl_rel s' as' h = cl_rel s as h - {e. fst e = fst (entry (cl_chunks s) q)}"
    unfolding cl_rel_def places(1) by (rule E(2)) (use places(2) in blast)
  have fin: "finite (cl_places (cl_chunks s) (set as) h)" by simp
  have "card (cl_places (cl_chunks s) (set as) h) = Suc (card (cl_places (cl_chunks s) (set as) h - {q}))"
    using card.remove [OF fin q] .
  then have n: "cl_num s' = word_of_nat (card (cl_places (cl_chunks s) (set as) h - {q}))"
    using inv rest(1) by (simp add: cl_inv_def)
  show "cl_inv mx s' as' h"
    unfolding cl_inv_def places(1) using inv path sub rest(2) E(1) places(2) n by (auto simp: cl_inv_def)
qed

lemma remove_slot_ok:
  assumes inv: "cl_inv mx s as h" and as: "as = us @ a # vs" and i: "i \<in> used_slots (cl_chunks s a) (h a)"
  shows "\<exists>as'. cl_inv mx (remove_slot (if us = [] then 0 else last us) a i (cl_emit es s)) as' h \<and>
    cl_rel (remove_slot (if us = [] then 0 else last us) a i (cl_emit es s)) as' h =
      cl_rel s as h - {e. fst e = fst (cc_data (cl_chunks s a) i)}"
proof -
  let ?prev = "if us = [] then 0 else last us" and ?c = "cl_chunks s a"
  let ?d = "clear_slot i ?c"
  have path: "cl_path (cl_chunks s) (cl_head s) (us @ a # vs)" and dist: "distinct (us @ a # vs)" and mx: "mx \<le> 16"
    and oks: "\<forall>b\<in>set as. chunk_ok mx (cl_chunks s b) (h b)"
    using inv as by (simp_all add: cl_inv_def)
  have ok: "chunk_ok mx ?c (h a)" using oks as by simp
  have lim: "i < 16" "h a \<le> 16" using i ok mx by (auto simp: used_slots_def chunk_ok_def)
  note C = chunk_ok_clear [OF ok mx i] and U = used_clear [OF lim, of ?c]
  have q: "(a, i) \<in> cl_places (cl_chunks s) (set as) h" using i as by (simp add: cl_places_def)
  have nd: "a \<notin> set us" "a \<notin> set vs" "us \<noteq> [] \<Longrightarrow> last us \<noteq> a" "us \<noteq> [] \<Longrightarrow> last us \<noteq> 0"
    using dist last_in_set [of us] cl_path_nonzero [OF path, of "last us"] by auto
  define s' where "s' = remove_slot ?prev a i (cl_emit es s)"
  have fst_q: "fst (entry (cl_chunks s) (a, i)) = fst (cc_data ?c i)" by (simp add: entry_def)
  show ?thesis
  proof (cases "used_slots ?c (h a) - {i} = {}")
    case True
    have "unat (cc_num ?d) = 0" unfolding C(1) True by simp
    then have "cc_num ?d = 0" by (simp add: unat_eq_0)
    then have zero: "cc_num ?c - 1 = 0" by (simp add: clear_slot_def)
    have f: "cl_num s' = cl_num s - 1" "cl_supply s' = cl_supply s"
      "cl_head s' = (if us = [] then cc_next ?c else cl_head s)"
      using nd(3, 4) zero by (cases "us = []"; simp add: s'_def remove_slot_def Let_def clear_slot_def)+
    have pt: "cl_chunks s' b = (if us \<noteq> [] \<and> b = last us then (cl_chunks s b)\<lparr>cc_next := cc_next ?c\<rparr>
        else if b = a then ?d else cl_chunks s b)" for b
      using nd(3, 4) zero by (cases "us = []") (simp_all add: s'_def remove_slot_def Let_def clear_slot_def)
    have path_left: "cl_path (cl_chunks s') (cl_head s') (us @ vs)"
    proof (cases "us = []")
      case u: True
      have "cl_path (cl_chunks s) (cc_next ?c) vs" using path u by simp
      then show ?thesis using u nd(2) pt cl_path_cong [of "cl_chunks s" "cc_next ?c" vs "cl_chunks s'"] by (auto simp: f)
    next
      case u: False
      have "cl_path ((cl_chunks s)(last us := (cl_chunks s (last us))\<lparr>cc_next := cc_next ?c\<rparr>)) (cl_head s) (us @ vs)"
        using cl_path_unlink [OF path u dist] .
      then show ?thesis using u nd(1, 2) pt by (auto simp: f elim!: cl_path_cong)
    qed
    have left_ok: "\<forall>b\<in>set (us @ vs). chunk_ok mx (cl_chunks s' b) (h b)" using oks nd(1, 2) as by (auto simp: pt)
    have places_left: "cl_places (cl_chunks s') (set (us @ vs)) h = cl_places (cl_chunks s) (set as) h - {(a, i)}"
      using True nd(1, 2) i as by (auto simp: cl_places_def pt split: if_splits)
    have same: "\<forall>p. entry (cl_chunks s') p = entry (cl_chunks s) p" by (simp add: entry_def pt clear_slot_def)
    have dist_left: "distinct (us @ vs)" and sub: "set (us @ vs) \<subseteq> set as" using dist as by auto
    note R = cl_inv_removed [OF inv q path_left dist_left left_ok sub places_left same f(1, 2)]
    show ?thesis unfolding s'_def [symmetric] fst_q [symmetric]
      by (rule exI [of _ "us @ vs"], rule conjI, rule R(1), rule R(2))
  next
    case False
    then have "cc_num ?d \<noteq> 0" using C(1) by (auto simp: card_eq_0_iff)
    then have nz: "cc_num ?c - 1 \<noteq> 0" by (simp add: clear_slot_def)
    have f: "cl_num s' = cl_num s - 1" "cl_supply s' = cl_supply s" "cl_head s' = cl_head s"
      "cl_chunks s' = (cl_chunks s)(a := ?d)"
      using nz by (simp_all add: s'_def remove_slot_def Let_def clear_slot_def)
    have path_left: "cl_path (cl_chunks s') (cl_head s') as"
      unfolding f as by (rule cl_path_cong [OF path]) (simp add: clear_slot_def)
    have left_ok: "\<forall>b\<in>set as. chunk_ok mx (cl_chunks s' b) (h b)" using oks C(2) [OF False] by (simp add: f)
    have places_left: "cl_places (cl_chunks s') (set as) h = cl_places (cl_chunks s) (set as) h - {(a, i)}"
    proof -
      have "used_slots (cl_chunks s' b) (h b) = used_slots (cl_chunks s b) (h b) - (if b = a then {i} else {})" for b
        using U by (simp add: f(4))
      then show ?thesis unfolding cl_places_def by (auto split: if_split_asm)
    qed
    have same: "\<forall>p. entry (cl_chunks s') p = entry (cl_chunks s) p" by (simp add: entry_def f clear_slot_def)
    have dist_left: "distinct as" using dist as by simp
    note R = cl_inv_removed [OF inv q path_left dist_left left_ok subset_refl places_left same f(1, 2)]
    show ?thesis unfolding s'_def [symmetric] fst_q [symmetric]
      by (rule exI [of _ as], rule conjI, rule R(1), rule R(2))
  qed
qed

lemma cl_remove_ok:
  assumes inv: "cl_inv mx s as h" and rel: "cl_rel s as h = {(k, v). M k = Some v}"
  shows "\<exists>s'. cl_remove k s = Some s' \<and> cl_ok mx s' (M(k := None))"
proof -
  let ?s = "cl_emit [ClLock (cl_this s) False] s"
  have mx: "mx \<le> 16" "cl_path (cl_chunks ?s) (cl_head s) as" "\<forall>a\<in>set as. chunk_ok mx (cl_chunks ?s a) (h a)"
    using inv by (simp_all add: cl_inv_def)
  from remove_chunks_ok [OF mx, of k 0]
  consider (absent) es where "remove_chunks k 0 (cl_head s) ?s = Some (cl_emit es ?s)" "no_key k (cl_chunks s) (set as) h"
    | (found) us a vs i es where "as = us @ a # vs" "i \<in> used_slots (cl_chunks s a) (h a)" "fst (cc_data (cl_chunks s a) i) = k"
      "remove_chunks k 0 (cl_head s) ?s = Some (remove_slot (if us = [] then 0 else last us) a i (cl_emit es ?s))" by auto
  then show ?thesis
  proof cases
    case absent
    have "M k = None" using no_key_None [OF rel absent(2)] .
    then have "M(k := None) = M" by (simp add: fun_upd_idem)
    moreover have "cl_ok mx (cl_emit es ?s) M" using inv rel by (auto simp: cl_ok_def)
    ultimately show ?thesis using absent(1) by (simp add: cl_remove_def)
  next
    case found
    from remove_slot_ok [OF inv found(1, 2), of "[ClLock (cl_this s) False] @ es"]
    obtain as' where as': "cl_inv mx (remove_slot (if us = [] then 0 else last us) a i (cl_emit es ?s)) as' h"
      "cl_rel (remove_slot (if us = [] then 0 else last us) a i (cl_emit es ?s)) as' h = cl_rel s as h - {e. fst e = k}"
      using found(3) by auto
    then have "cl_ok mx (remove_slot (if us = [] then 0 else last us) a i (cl_emit es ?s)) (M(k := None))"
      using rel_remove [OF rel, of k] unfolding cl_ok_def by blast
    then show ?thesis using found(4) by (auto simp: cl_remove_def)
  qed
qed

text \<open>
  C27. \<open>ChunkList\<close> is a finite map, whatever the bitmap of a new chunk contains: \<open>find\<close> yields the
  value of a key, \<open>add\<close> the place of the value, after entering the key with a fresh value if it is new,
  or \<open>BadAlloc\<close> with the map unchanged, and \<open>remove\<close> deletes the key. All loops end, no null pointer is
  followed, and a list that is emptied and filled in any order keeps its count.
\<close>

theorem chunk_list_refines_map:
  assumes "cl_ok mx s M"
  shows "(\<exists>r s'. cl_find k s = Some (r, s') \<and> cl_ok mx s' M \<and> map_option (\<lambda>p. snd (entry (cl_chunks s') p)) r = M k) \<and>
    (\<exists>r s'. cl_add mx v k s = Some (r, s') \<and>
      (case r of
         Inl e \<Rightarrow> e = BadAlloc \<and> M k = None \<and> cl_supply s = [] \<and> cl_ok mx s' M
       | Inr p \<Rightarrow> cl_ok mx s' (if M k = None then M(k \<mapsto> v) else M) \<and>
           entry (cl_chunks s') p = (k, case M k of None \<Rightarrow> v | Some w \<Rightarrow> w))) \<and>
    (\<exists>s'. cl_remove k s = Some s' \<and> cl_ok mx s' (M(k := None)))"
proof -
  obtain as h where a: "cl_inv mx s as h" "cl_rel s as h = {(k, v). M k = Some v}" using assms by (auto simp: cl_ok_def)
  obtain r es where f: "cl_find k s = Some (r, cl_emit es s)" "map_option (\<lambda>p. snd (entry (cl_chunks s) p)) r = M k"
    using cl_find_ok [OF a] by blast
  have "cl_ok mx (cl_emit es s) M" using a by (auto simp: cl_ok_def)
  then show ?thesis using f cl_add_ok [OF a, of v k] cl_remove_ok [OF a, of k] by auto
qed

definition ex_chunk_list :: "(nat, nat) cl_state" where
  "ex_chunk_list = \<lparr>cl_this = 64, cl_head = 0, cl_num = 0, cl_chunks = (\<lambda>_. \<lparr>cc_next = 0, cc_occ = 0, cc_num = 0, cc_data = (\<lambda>_. (0, 0))\<rparr>),
     cl_supply = [(4096, \<lparr>cc_next = 7, cc_occ = 0xbeef, cc_num = 9, cc_data = (\<lambda>_. (5, 5))\<rparr>)], cl_events = []\<rparr>"

lemma chunk_list_refines_map_witness:
  "\<exists>r s'. cl_find 5 ex_chunk_list = Some (r, s') \<and> cl_ok 6 s' Map.empty \<and> r = None"
proof -
  have "cl_inv 6 ex_chunk_list [] (\<lambda>_. 0)" by (simp add: cl_inv_def ex_chunk_list_def cl_places_def)
  moreover have "cl_rel ex_chunk_list [] (\<lambda>_. 0) = {(k, v). Map.empty k = Some v}" by (simp add: cl_rel_def cl_places_def)
  ultimately have ok: "cl_ok 6 ex_chunk_list Map.empty" unfolding cl_ok_def by blast
  show ?thesis using conjunct1 [OF chunk_list_refines_map [OF ok, of 5 0]] by auto
qed

section \<open>What an abort restores\<close>

text \<open>
  \<open>remove\<close> and \<open>add\<close> log the bitmap and the count of a chunk, the next pointer of a chunk and the fields
  of the list; the entries are only flushed. Undoing the journal of a transaction that started in \<open>s0\<close>
  restores what is logged and leaves the entries as they are in \<open>s\<close>.
\<close>

definition cl_rollback :: "('k, 'v) cl_state \<Rightarrow> ('k, 'v) cl_state \<Rightarrow> ('k, 'v) cl_state" where
  "cl_rollback s0 s = s0\<lparr>cl_chunks := (\<lambda>a. (cl_chunks s0 a)\<lparr>cc_data := cc_data (cl_chunks s a)\<rparr>)\<rparr>"

text \<open>
  A transaction that removes one of two keys of a chunk and adds a third puts it into the slot that
  became free. After an abort the slot counts as used again but holds the third key: the removed key is
  lost and the added one is in the list.
\<close>

theorem abort_after_slot_reuse:
  assumes "a \<noteq> 0" "cl_head s = a" "cl_chunks s a = \<lparr>cc_next = 0, cc_occ = 3, cc_num = 2, cc_data = d\<rparr>"
    and "d 0 = (k1, v1)" "d 1 = (k2, v2)" "k1 \<noteq> k2" "k3 \<noteq> k1" "k3 \<noteq> k2" "0 < mx"
  shows "map_option fst (cl_find k1 s) = Some (Some (a, 0)) \<and>
    (\<exists>s1 s2. cl_remove k1 s = Some s1 \<and> cl_add mx v3 k3 s1 = Some (Inr (a, 0), s2) \<and>
      map_option fst (cl_find k1 (cl_rollback s s2)) = Some None \<and>
      map_option fst (cl_find k3 (cl_rollback s s2)) = Some (Some (a, 0)))"
proof -
  have b: "slot_bit 3 0" "slot_bit 3 1" "\<not> slot_bit 2 0" "slot_bit 2 1" by (simp_all add: slot_bit_def)
  have d: "d (Suc 0) = (k2, v2)" using assms(5) by simp
  note facts = assms(1-4) d assms(6-9) b
  note scan = scan_slots.simps [of a _ _ 0] scan_slots.simps [of a _ _ "Suc 0"] scan_slots.simps [of a _ _ "Suc (Suc 0)"]
  have f1: "map_option fst (cl_find k1 s) = Some (Some (a, 0))"
    using facts by (simp add: cl_find_def find_chunks.simps [of _ a] scan cl_emit_def Let_def)
  define s1 where "s1 = remove_slot 0 a 0 (cl_emit [ClLock (cl_this s) False, ClLock a False] s)"
  have r: "cl_remove k1 s = Some s1"
    using facts by (simp add: cl_remove_def remove_chunks.simps [of _ _ a] scan cl_emit_def Let_def s1_def)
  have c1: "cl_head s1 = a" "cl_chunks s1 a = \<lparr>cc_next = 0, cc_occ = 2, cc_num = 1, cc_data = d\<rparr>"
    using facts by (simp_all add: s1_def remove_slot_def cl_emit_def cl_put_def clear_slot_def Let_def)
  let ?s3 = "cl_emit [ClLock a True, ClLog a] (cl_emit [ClLock (cl_this s1) True] (cl_emit [ClLock a False] (cl_emit [ClLock (cl_this s1) False] s1)))"
  define s2 where "s2 = set_entry k3 v3 a 0 (cl_put a (fill_slot 0 (cl_chunks s1 a)) ?s3)"
  have n: "add_chunks mx k3 a 0 h s' = Some (None, h, a, s')" for h s' by (simp add: add_chunks.simps)
  have i: "cl_add mx v3 k3 s1 = Some (Inr (a, 0), s2)"
    using facts c1 by (simp add: cl_add_def add_chunks.simps [of _ _ _ a] n scan add_place_def cl_emit_def Let_def s2_def)
  have c2: "cl_chunks (cl_rollback s s2) a = \<lparr>cc_next = 0, cc_occ = 3, cc_num = 2, cc_data = d(0 := (k3, v3))\<rparr>"
      "cl_head (cl_rollback s s2) = a"
    using assms(2, 3) c1 by (simp_all add: cl_rollback_def s2_def set_entry_def cl_put_def fill_slot_def cl_emit_def)
  have f3: "map_option fst (cl_find k1 (cl_rollback s s2)) = Some None"
    using facts c2 by (simp add: cl_find_def find_chunks.simps [of _ a] find_chunks.simps [of _ 0] scan cl_emit_def Let_def)
  have f4: "map_option fst (cl_find k3 (cl_rollback s s2)) = Some (Some (a, 0))"
    using facts c2 by (simp add: cl_find_def find_chunks.simps [of _ a] scan cl_emit_def Let_def)
  show ?thesis using f1 r i f3 f4 by blast
qed

lemma abort_after_slot_reuse_witness:
  "\<exists>s1 s2 :: (nat, nat) cl_state. map_option fst (cl_find 5 s1) = Some (Some (4096, 0)) \<and>
     map_option fst (cl_find 5 (cl_rollback s1 s2)) = Some None"
  using abort_after_slot_reuse [of 4096 "ex_chunk_list\<lparr>cl_head := 4096, cl_num := 2,
      cl_chunks := (\<lambda>_. \<lparr>cc_next = 0, cc_occ = 3, cc_num = 2, cc_data = (\<lambda>i. (5 + i, 9))\<rparr>)\<rparr>" "\<lambda>i. (5 + i, 9)" 5 9 6 9 7 6 8]
  by auto

end
