(* ===== verification/Pm_List.thy ===== *)
theory Pm_List
  imports Pmgd_Prelude
begin

text \<open>
  \<open>src/List.h\<close>: the singly linked list in persistent memory. The header holds the first cell and the
  number of elements; the cells are a heap that all lists of one element type share. New cells come from
  the allocator, which is the list of addresses that it returns next; an empty list is \<open>BadAlloc\<close>.
  Elements are compared with the \<open>==\<close> of their type, a parameter. Loops over the cells are partial:
  \<open>None\<close> is a chain that does not end. A list is related to the addresses of its cells and to its contents.
\<close>

section \<open>Header and cells\<close>

record 'a cell =
  cell_value :: 'a
  cell_next :: addr

record list_hdr =
  l_head :: addr
  l_num :: u64

record 'a list_heap =
  lh_cells :: "addr \<Rightarrow> 'a cell"
  lh_supply :: "addr list"

datatype list_event =
    CellFlush addr
  | HeaderLog
  | NextLog addr
  | NumLog
  | RemoveNotify addr
  | CellFree addr

definition list_init :: list_hdr where
  "list_init = \<lparr>l_head = 0, l_num = 0\<rparr>"

section \<open>Operations\<close>

definition list_add ::
    "'a \<Rightarrow> list_hdr \<Rightarrow> 'a list_heap \<Rightarrow> addr result \<times> list_hdr \<times> 'a list_heap \<times> list_event list" where
  "list_add v h H =
     (case lh_supply H of
        [] \<Rightarrow> (Inl BadAlloc, h, H, [])
      | n # rest \<Rightarrow>
          (Inr n, \<lparr>l_head = n, l_num = l_num h + 1\<rparr>,
           \<lparr>lh_cells = (lh_cells H)(n := \<lparr>cell_value = v, cell_next = l_head h\<rparr>), lh_supply = rest\<rparr>,
           [CellFlush n, HeaderLog]))"

text \<open>\<open>find\<close>: the address of the value, 0 for \<open>NULL\<close>.\<close>

partial_function (option) find_cell :: "('a \<Rightarrow> bool) \<Rightarrow> (addr \<Rightarrow> 'a cell) \<Rightarrow> addr \<Rightarrow> addr option" where
  "find_cell P m p = (if p = 0 then Some 0 else if P (cell_value (m p)) then Some p else find_cell P m (cell_next (m p)))"

definition list_find :: "('a \<Rightarrow> 'a \<Rightarrow> bool) \<Rightarrow> 'a \<Rightarrow> list_hdr \<Rightarrow> 'a list_heap \<Rightarrow> addr option" where
  "list_find eq v h H = find_cell (eq v) (lh_cells H) (l_head h)"

text \<open>\<open>remove\<close>: the iterators are told of the cell before it is unlinked.\<close>

definition unlink :: "addr \<Rightarrow> addr \<Rightarrow> list_hdr \<Rightarrow> 'a list_heap \<Rightarrow> list_hdr \<times> 'a list_heap \<times> list_event list" where
  "unlink prev p h H =
     (let nxt = cell_next (lh_cells H p)
      in if prev = 0
         then (\<lparr>l_head = nxt, l_num = l_num h - 1\<rparr>, H, [RemoveNotify p, HeaderLog, CellFree p])
         else (h\<lparr>l_num := l_num h - 1\<rparr>,
               H\<lparr>lh_cells := (lh_cells H)(prev := (lh_cells H prev)\<lparr>cell_next := nxt\<rparr>)\<rparr>,
               [RemoveNotify p, NextLog prev, NumLog, CellFree p]))"

partial_function (option) remove_loop ::
    "('a \<Rightarrow> bool) \<Rightarrow> addr \<Rightarrow> addr \<Rightarrow> list_hdr \<Rightarrow> 'a list_heap \<Rightarrow> (list_hdr \<times> 'a list_heap \<times> list_event list) option" where
  "remove_loop P prev p h H =
     (if p = 0 then Some (h, H, [])
      else if P (cell_value (lh_cells H p)) then Some (unlink prev p h H)
      else remove_loop P p (cell_next (lh_cells H p)) h H)"

definition list_remove ::
    "('a \<Rightarrow> 'a \<Rightarrow> bool) \<Rightarrow> 'a \<Rightarrow> list_hdr \<Rightarrow> 'a list_heap \<Rightarrow> (list_hdr \<times> 'a list_heap \<times> list_event list) option" where
  "list_remove eq v h H = remove_loop (eq v) 0 (l_head h) h H"

section \<open>Traversal\<close>

text \<open>\<open>ListTraverser\<close>: its state is the address of a cell.\<close>

definition trav_set :: "list_hdr option \<Rightarrow> addr" where
  "trav_set l = (case l of None \<Rightarrow> 0 | Some h \<Rightarrow> l_head h)"

text \<open>\<open>next\<close> and \<open>ref\<close> follow the pointer without a test; at \<open>NULL\<close> the value is \<open>None\<close>.\<close>

definition trav_next :: "(addr \<Rightarrow> 'a cell) \<Rightarrow> addr \<Rightarrow> addr option" where
  "trav_next m p = (if p = 0 then None else Some (cell_next (m p)))"

definition trav_ref :: "(addr \<Rightarrow> 'a cell) \<Rightarrow> addr \<Rightarrow> 'a option" where
  "trav_ref m p = (if p = 0 then None else Some (cell_value (m p)))"

section \<open>Chains of cells\<close>

fun links :: "(addr \<Rightarrow> 'a cell) \<Rightarrow> addr \<Rightarrow> addr list \<Rightarrow> bool" where
  "links m p [] = (p = 0)"
| "links m p (a # as) = (p = a \<and> a \<noteq> 0 \<and> links m (cell_next (m a)) as)"

definition list_at :: "(addr \<Rightarrow> 'a cell) \<Rightarrow> list_hdr \<Rightarrow> addr list \<Rightarrow> bool" where
  "list_at m h as \<longleftrightarrow> links m (l_head h) as \<and> l_num h = word_of_nat (length as)"

definition cell_contents :: "(addr \<Rightarrow> 'a cell) \<Rightarrow> addr list \<Rightarrow> 'a list" where
  "cell_contents m as = map (\<lambda>a. cell_value (m a)) as"

fun del_first :: "('a \<Rightarrow> bool) \<Rightarrow> 'a list \<Rightarrow> 'a list" where
  "del_first P [] = []"
| "del_first P (x # xs) = (if P x then xs else x # del_first P xs)"

lemma cell_contents_simps [simp]:
  "cell_contents m [] = []" "cell_contents m (a # as) = cell_value (m a) # cell_contents m as"
  "cell_contents m (as @ bs) = cell_contents m as @ cell_contents m bs"
  by (simp_all add: cell_contents_def)

lemma cell_contents_cong: "(\<And>a. a \<in> set as \<Longrightarrow> m' a = m a) \<Longrightarrow> cell_contents m' as = cell_contents m as"
  by (simp add: cell_contents_def)

lemma links_cong: "links m p as \<Longrightarrow> (\<And>a. a \<in> set as \<Longrightarrow> cell_next (m' a) = cell_next (m a)) \<Longrightarrow> links m' p as"
  by (induction as arbitrary: p) auto

lemma links_nonzero: "links m p as \<Longrightarrow> a \<in> set as \<Longrightarrow> a \<noteq> 0"
  by (induction as arbitrary: p) auto

lemma links_append: "links m p (us @ a # vs) \<Longrightarrow> links m a (a # vs)"
  by (induction us arbitrary: p) auto

lemma links_unique: "links m p as \<Longrightarrow> links m p bs \<Longrightarrow> as = bs"
proof (induction as arbitrary: p bs)
  case Nil
  then show ?case by (cases bs) auto
next
  case (Cons a as)
  then show ?case by (cases bs) auto
qed

lemma links_distinct: "links m p as \<Longrightarrow> distinct as"
proof (induction as arbitrary: p)
  case (Cons a as)
  have "a \<notin> set as"
  proof
    assume "a \<in> set as"
    then obtain us vs where as: "as = us @ a # vs" by (auto dest: split_list)
    have "links m a (a # as)" "links m a (a # vs)"
      using Cons.prems links_append [of m p "a # us" a vs] as by auto
    then have "as = vs" using links_unique by blast
    then show False using as by (metis append_Cons append_is_Nil_conv length_append_singleton
        less_not_refl add_diff_cancel_right' append.assoc append_self_conv2 length_Cons list.distinct(1) same_append_eq self_append_conv2)
  qed
  then show ?case using Cons by auto
qed simp

lemma list_at_cong: "list_at m h as \<Longrightarrow> (\<And>a. a \<in> set as \<Longrightarrow> cell_next (m' a) = cell_next (m a)) \<Longrightarrow> list_at m' h as"
  by (auto simp: list_at_def intro: links_cong)

lemma list_at_init [simp]: "list_at m list_init []"
  by (simp add: list_at_def list_init_def)

lemma list_at_nil: "list_at m h [] \<longleftrightarrow> h = list_init"
  by (cases h) (auto simp: list_at_def list_init_def)

lemma list_at_distinct: "list_at m h as \<Longrightarrow> distinct as"
  by (auto simp: list_at_def dest: links_distinct)

text \<open>The counter of a list in a 64-bit address space does not wrap.\<close>

lemma length_cells:
  assumes "list_at m h as" "set as \<subseteq> {0<..<2 ^ 64}"
  shows "l_num h = 0 \<longleftrightarrow> as = []"
proof -
  have "length as = card (set as)" using list_at_distinct [OF assms(1)] by (simp add: distinct_card)
  also have "\<dots> \<le> card {0<..<2 ^ 64 :: nat}" using assms(2) by (intro card_mono) auto
  finally have "length as < 2 ^ 64" by simp
  then have "unat (word_of_nat (length as) :: u64) = length as" by (simp add: unat_of_nat take_bit_nat_eq_self)
  then have "word_of_nat (length as) = (0 :: u64) \<longleftrightarrow> length as = 0" by (metis unat_0 unat_eq_zero)
  then show ?thesis using assms(1) by (simp add: list_at_def)
qed

section \<open>What the operations do\<close>

lemma list_add_ok:
  assumes l: "list_at (lh_cells H) h as" and s: "lh_supply H = n # rest" "n \<noteq> 0" "n \<notin> set as"
  obtains h' H' es where "list_add v h H = (Inr n, h', H', es)" "list_at (lh_cells H') h' (n # as)"
    "cell_contents (lh_cells H') (n # as) = v # cell_contents (lh_cells H) as" "lh_supply H' = rest"
    "\<And>a. a \<noteq> n \<Longrightarrow> lh_cells H' a = lh_cells H a"
proof -
  let ?m = "(lh_cells H)(n := \<lparr>cell_value = v, cell_next = l_head h\<rparr>)"
  have "links ?m (l_head h) as" using l s by (auto simp: list_at_def intro: links_cong)
  then have "list_at ?m \<lparr>l_head = n, l_num = l_num h + 1\<rparr> (n # as)" using l s by (simp add: list_at_def)
  moreover have "cell_contents ?m as = cell_contents (lh_cells H) as" using s by (auto intro: cell_contents_cong)
  ultimately show ?thesis
    using that [of "\<lparr>l_head = n, l_num = l_num h + 1\<rparr>" "\<lparr>lh_cells = ?m, lh_supply = rest\<rparr>" "[CellFlush n, HeaderLog]"]
    by (simp add: list_add_def s)
qed

lemma find_cell_ok:
  "links m p as \<Longrightarrow> find_cell P m p = Some (case List.find (\<lambda>a. P (cell_value (m a))) as of None \<Rightarrow> 0 | Some a \<Rightarrow> a)"
proof (induction as arbitrary: p)
  case Nil
  then show ?case by (simp add: find_cell.simps)
next
  case (Cons a as)
  then have p: "p = a" "a \<noteq> 0" "links m (cell_next (m a)) as" by simp_all
  show ?case using Cons.IH [OF p(3)] p(2) unfolding p(1) by (simp add: find_cell.simps [of P m a])
qed

lemma list_find_ok:
  assumes "list_at (lh_cells H) h as"
  shows "list_find eq v h H = Some (case List.find (\<lambda>a. eq v (cell_value (lh_cells H a))) as of None \<Rightarrow> 0 | Some a \<Rightarrow> a)"
  using find_cell_ok [where P = "eq v", of "lh_cells H" "l_head h" as] assms
  by (simp add: list_find_def list_at_def)

lemma remove_loop_run:
  "links (lh_cells H) p as \<Longrightarrow>
   (\<forall>a\<in>set as. \<not> P (cell_value (lh_cells H a))) \<and> remove_loop P prev p h H = Some (h, H, []) \<or>
   (\<exists>us a vs. as = us @ a # vs \<and> P (cell_value (lh_cells H a)) \<and> (\<forall>b\<in>set us. \<not> P (cell_value (lh_cells H b))) \<and>
     remove_loop P prev p h H = Some (unlink (if us = [] then prev else last us) a h H))"
proof (induction as arbitrary: p prev)
  case Nil
  then show ?case by (simp add: remove_loop.simps)
next
  case (Cons a as)
  show ?case
  proof (cases "P (cell_value (lh_cells H a))")
    case True
    then have "remove_loop P prev p h H = Some (unlink prev a h H)" using Cons.prems by (simp add: remove_loop.simps [of P prev a])
    then show ?thesis using True by (intro disjI2 exI [of _ "[]"] exI [of _ a] exI [of _ as]) simp
  next
    case False
    then have r: "remove_loop P prev p h H = remove_loop P a (cell_next (lh_cells H a)) h H"
      using Cons.prems by (simp add: remove_loop.simps [of P prev a])
    from Cons.IH [of "cell_next (lh_cells H a)" a] Cons.prems
    consider (none) "\<forall>b\<in>set as. \<not> P (cell_value (lh_cells H b))" "remove_loop P a (cell_next (lh_cells H a)) h H = Some (h, H, [])"
      | (some) us b vs where "as = us @ b # vs" "P (cell_value (lh_cells H b))" "\<forall>c\<in>set us. \<not> P (cell_value (lh_cells H c))"
        "remove_loop P a (cell_next (lh_cells H a)) h H = Some (unlink (if us = [] then a else last us) b h H)" by auto
    then show ?thesis
    proof cases
      case none
      then show ?thesis using r False by simp
    next
      case some
      then have "a # as = (a # us) @ b # vs" "remove_loop P prev p h H = Some (unlink (last (a # us)) b h H)" using r by simp_all
      then show ?thesis using some False by (intro disjI2 exI [of _ "a # us"] exI [of _ b] exI [of _ vs]) simp
    qed
  qed
qed

lemma links_skip:
  assumes "links m p (us @ a # vs)"
  shows "if us = [] then links m (cell_next (m a)) vs
    else links (m(last us := (m (last us))\<lparr>cell_next := cell_next (m a)\<rparr>)) p (us @ vs)"
proof (cases "us = []")
  case False
  have d: "distinct (us @ a # vs)" using links_distinct [OF assms] .
  have "links (m(last us := (m (last us))\<lparr>cell_next := cell_next (m a)\<rparr>)) p (us @ vs)"
    using assms False d
  proof (induction us arbitrary: p)
    case (Cons u us)
    show ?case
    proof (cases "us = []")
      case True
      have "links m (cell_next (m a)) vs" using Cons.prems True by simp
      then show ?thesis using Cons.prems True by (auto intro: links_cong)
    next
      case False
      then have "u \<noteq> last us" using Cons.prems(3) last_in_set [of us] by auto
      then show ?thesis using Cons False by simp
    qed
  qed simp
  then show ?thesis using False by simp
qed (use assms in simp)

lemma del_first_split: "P x \<Longrightarrow> (\<forall>y\<in>set us. \<not> P y) \<Longrightarrow> del_first P (us @ x # vs) = us @ vs"
  by (induction us) auto

lemma del_first_none: "(\<forall>y\<in>set us. \<not> P y) \<Longrightarrow> del_first P us = us"
  by (induction us) auto

lemma del_first_subset: "set (del_first P xs) \<subseteq> set xs"
  by (induction xs) auto

lemma set_del_first:
  "distinct xs \<Longrightarrow> x \<in> set xs \<Longrightarrow> (\<forall>y\<in>set xs. P y \<longleftrightarrow> y = x) \<Longrightarrow> set (del_first P xs) = set xs - {x}"
  by (induction xs) auto

text \<open>The cells of the list after \<open>remove\<close>, its contents, and what is not touched.\<close>

lemma list_remove_ok:
  assumes l: "list_at (lh_cells H) h as"
  obtains h' H' es as' where "list_remove eq v h H = Some (h', H', es)" "list_at (lh_cells H') h' as'"
    "cell_contents (lh_cells H') as' = del_first (eq v) (cell_contents (lh_cells H) as)"
    "as' = del_first (\<lambda>a. eq v (cell_value (lh_cells H a))) as"
    "lh_supply H' = lh_supply H" "\<And>a. a \<notin> set as \<Longrightarrow> lh_cells H' a = lh_cells H a"
    "\<And>a. cell_value (lh_cells H' a) = cell_value (lh_cells H a)"
proof -
  have ln: "links (lh_cells H) (l_head h) as" "l_num h = word_of_nat (length as)" using l by (simp_all add: list_at_def)
  from remove_loop_run [OF ln(1), of "eq v" 0 h]
  consider (none) "\<forall>a\<in>set as. \<not> eq v (cell_value (lh_cells H a))" "list_remove eq v h H = Some (h, H, [])"
    | (some) us a vs where "as = us @ a # vs" "eq v (cell_value (lh_cells H a))" "\<forall>b\<in>set us. \<not> eq v (cell_value (lh_cells H b))"
      "list_remove eq v h H = Some (unlink (if us = [] then 0 else last us) a h H)"
    unfolding list_remove_def by auto
  then show ?thesis
  proof cases
    case none
    have "del_first (eq v) (cell_contents (lh_cells H) as) = cell_contents (lh_cells H) as"
      by (rule del_first_none) (use none(1) in \<open>auto simp: cell_contents_def\<close>)
    moreover have "as = del_first (\<lambda>a. eq v (cell_value (lh_cells H a))) as"
      using del_first_none [where P = "\<lambda>a. eq v (cell_value (lh_cells H a))", of as] none(1) by simp
    ultimately show ?thesis using that [of h H "[]" as] none l by simp
  next
    case some
    obtain h' H' es where u: "unlink (if us = [] then 0 else last us) a h H = (h', H', es)" by (cases "unlink (if us = [] then 0 else last us) a h H")
    have skip: "if us = [] then links (lh_cells H) (cell_next (lh_cells H a)) vs
      else links ((lh_cells H)(last us := (lh_cells H (last us))\<lparr>cell_next := cell_next (lh_cells H a)\<rparr>)) (l_head h) (us @ vs)"
      using links_skip [of "lh_cells H" "l_head h" us a vs] ln(1) some(1) by simp
    have nz: "us \<noteq> [] \<Longrightarrow> last us \<noteq> 0" "us \<noteq> [] \<Longrightarrow> last us \<in> set us"
      using links_nonzero [OF ln(1), of "last us"] some(1) by auto
    have num: "l_num h - 1 = word_of_nat (length (us @ vs))" using ln(2) some(1) by simp
    have at: "list_at (lh_cells H') h' (us @ vs)"
      using u skip nz num by (cases "us = []") (auto simp: unlink_def Let_def list_at_def)
    have val: "cell_value (lh_cells H' b) = cell_value (lh_cells H b)" for b
      using u nz by (cases "us = []") (auto simp: unlink_def Let_def)
    have "cell_contents (lh_cells H') (us @ vs) = cell_contents (lh_cells H) (us @ vs)" by (simp add: cell_contents_def val)
    then have c: "cell_contents (lh_cells H') (us @ vs) = del_first (eq v) (cell_contents (lh_cells H) as)"
      using some del_first_split [where P = "eq v", of "cell_value (lh_cells H a)" "cell_contents (lh_cells H) us" "cell_contents (lh_cells H) vs"]
      by (simp add: cell_contents_def)
    have out: "lh_cells H' b = lh_cells H b" if "b \<notin> set as" for b
      using u nz that some(1) by (cases "us = []") (auto simp: unlink_def Let_def)
    have rest: "lh_supply H' = lh_supply H" using u nz by (cases "us = []") (auto simp: unlink_def Let_def)
    have "us @ vs = del_first (\<lambda>a. eq v (cell_value (lh_cells H a))) as"
      unfolding some(1) by (rule del_first_split [symmetric]) (use some(2, 3) in auto)
    then show ?thesis using that [OF _ at c _ rest out val] some u by simp
  qed
qed

end
