(* ===== verification/Edge_Index.thy ===== *)
theory Edge_Index
  imports Pm_List
begin

text \<open>
  \<open>src/EdgeIndex.cc\<close>: the edges of a node by tag. A list of keys, each with the list of its pairs of an
  edge and the node at its other end. Keys compare by their tag, pairs by their edge only. A tag whose last
  edge is removed is removed. The property: the index is a finite map from tags to non-empty sequences of
  pairs, newest first.
\<close>

section \<open>State\<close>

record edge_key =
  ek_key :: u16
  ek_list :: list_hdr

type_synonym edge_pair = "addr \<times> addr"

record edge_index =
  ei_list :: list_hdr
  ei_keys :: "edge_key list_heap"
  ei_pairs :: "edge_pair list_heap"

definition eq_key :: "edge_key \<Rightarrow> edge_key \<Rightarrow> bool" where
  "eq_key a b \<longleftrightarrow> ek_key a = ek_key b"

definition eq_pair :: "edge_pair \<Rightarrow> edge_pair \<Rightarrow> bool" where
  "eq_pair a b \<longleftrightarrow> fst a = fst b"

definition edge_key_new :: "u16 \<Rightarrow> edge_key" where
  "edge_key_new k = \<lparr>ek_key = k, ek_list = list_init\<rparr>"

definition ei_init :: "edge_index \<Rightarrow> edge_index" where
  "ei_init s = s\<lparr>ei_list := list_init\<rparr>"

text \<open>The list header inside a cell of the key list.\<close>

definition bucket :: "edge_index \<Rightarrow> addr \<Rightarrow> list_hdr" where
  "bucket s p = ek_list (cell_value (lh_cells (ei_keys s) p))"

definition put_bucket :: "addr \<Rightarrow> list_hdr \<Rightarrow> edge_index \<Rightarrow> edge_index" where
  "put_bucket p h s =
     (let K = ei_keys s; c = lh_cells K p
      in s\<lparr>ei_keys := K\<lparr>lh_cells := (lh_cells K)(p := c\<lparr>cell_value := (cell_value c)\<lparr>ek_list := h\<rparr>\<rparr>)\<rparr>\<rparr>)"

section \<open>Operations\<close>

definition add_pair :: "addr \<Rightarrow> edge_pair \<Rightarrow> edge_index \<Rightarrow> unit result \<times> edge_index" where
  "add_pair p x s =
     (case list_add x (bucket s p) (ei_pairs s) of
        (Inl e, _) \<Rightarrow> (Inl e, s)
      | (Inr _, h, P, _) \<Rightarrow> (Inr (), put_bucket p h (s\<lparr>ei_pairs := P\<rparr>)))"

definition ei_add :: "u16 \<Rightarrow> addr \<Rightarrow> addr \<Rightarrow> edge_index \<Rightarrow> (unit result \<times> edge_index) option" where
  "ei_add k edge node s =
     (case list_find eq_key (edge_key_new k) (ei_list s) (ei_keys s) of
        None \<Rightarrow> None
      | Some p \<Rightarrow>
          Some (if p \<noteq> 0 then add_pair p (edge, node) s
            else case list_add (edge_key_new k) (ei_list s) (ei_keys s) of
                (Inl e, _) \<Rightarrow> (Inl e, s)
              | (Inr q, h, K, _) \<Rightarrow> add_pair q (edge, node) (s\<lparr>ei_list := h, ei_keys := K\<rparr>)))"

text \<open>\<open>get_first (key)\<close>: the first cell of the key's list, 0 for \<open>NULL\<close>.\<close>

definition ei_get_first :: "u16 \<Rightarrow> edge_index \<Rightarrow> addr option" where
  "ei_get_first k s =
     map_option (\<lambda>p. if p \<noteq> 0 then l_head (bucket s p) else 0)
       (list_find eq_key (edge_key_new k) (ei_list s) (ei_keys s))"

definition remove_key :: "u16 \<Rightarrow> edge_index \<Rightarrow> edge_index option" where
  "remove_key k s =
     map_option (\<lambda>(h, K, _). s\<lparr>ei_list := h, ei_keys := K\<rparr>) (list_remove eq_key (edge_key_new k) (ei_list s) (ei_keys s))"

definition ei_remove :: "u16 \<Rightarrow> addr \<Rightarrow> edge_index \<Rightarrow> edge_index option" where
  "ei_remove k edge s =
     (case list_find eq_key (edge_key_new k) (ei_list s) (ei_keys s) of
        None \<Rightarrow> None
      | Some p \<Rightarrow>
          if p \<noteq> 0 then
            (case list_remove eq_pair (edge, 0) (bucket s p) (ei_pairs s) of
               None \<Rightarrow> None
             | Some (h, P, _) \<Rightarrow>
                 (let s1 = put_bucket p h (s\<lparr>ei_pairs := P\<rparr>)
                  in if l_num (bucket s1 p) = 0 then remove_key k s1 else Some s1))
          else Some s)"

section \<open>The map an index stands for\<close>

text \<open>\<open>ks\<close> are the cells of the key list, \<open>bs p\<close> those of the list in the key cell \<open>p\<close>.\<close>

abbreviation key_at :: "edge_index \<Rightarrow> addr \<Rightarrow> u16" where
  "key_at s p \<equiv> ek_key (cell_value (lh_cells (ei_keys s) p))"

abbreviation pairs_at :: "edge_index \<Rightarrow> addr list \<Rightarrow> edge_pair list" where
  "pairs_at s as \<equiv> cell_contents (lh_cells (ei_pairs s)) as"

definition ei_rel :: "edge_index \<Rightarrow> addr list \<Rightarrow> (addr \<Rightarrow> addr list) \<Rightarrow> bool" where
  "ei_rel s ks bs \<longleftrightarrow>
     list_at (lh_cells (ei_keys s)) (ei_list s) ks \<and> inj_on (key_at s) (set ks) \<and>
     (\<forall>p\<in>set ks. list_at (lh_cells (ei_pairs s)) (bucket s p) (bs p) \<and> set (bs p) \<subseteq> {0<..<2 ^ 64}) \<and>
     (\<forall>p\<in>set ks. \<forall>q\<in>set ks. p \<noteq> q \<longrightarrow> set (bs p) \<inter> set (bs q) = {}) \<and>
     distinct (lh_supply (ei_keys s)) \<and> 0 \<notin> set (lh_supply (ei_keys s)) \<and> set (lh_supply (ei_keys s)) \<inter> set ks = {} \<and>
     distinct (lh_supply (ei_pairs s)) \<and> set (lh_supply (ei_pairs s)) \<subseteq> {0<..<2 ^ 64} \<and>
     (\<forall>p\<in>set ks. set (lh_supply (ei_pairs s)) \<inter> set (bs p) = {})"

definition ei_map :: "edge_index \<Rightarrow> addr list \<Rightarrow> (addr \<Rightarrow> addr list) \<Rightarrow> u16 \<Rightarrow> edge_pair list option" where
  "ei_map s ks bs k = map_option (\<lambda>p. pairs_at s (bs p)) (List.find (\<lambda>p. key_at s p = k) ks)"

definition ei_ok :: "edge_index \<Rightarrow> (u16 \<Rightarrow> edge_pair list option) \<Rightarrow> bool" where
  "ei_ok s M \<longleftrightarrow> (\<exists>ks bs. ei_rel s ks bs \<and> (\<forall>p\<in>set ks. bs p \<noteq> []) \<and> M = ei_map s ks bs)"

lemma find_key:
  assumes "inj_on f (set ks)" "p \<in> set ks"
  shows "List.find (\<lambda>q. f q = f p) ks = Some p"
  using assms by (induction ks) (auto simp: inj_on_def)

lemma find_key_None: "List.find (\<lambda>q. f q = k) ks = None \<longleftrightarrow> k \<notin> f ` set ks"
  by (auto simp: find_None_iff)

lemma ei_map_at: "inj_on (key_at s) (set ks) \<Longrightarrow> p \<in> set ks \<Longrightarrow> ei_map s ks bs (key_at s p) = Some (pairs_at s (bs p))"
  using find_key [where f = "key_at s"] by (simp add: ei_map_def)

lemma ei_map_none: "k \<notin> key_at s ` set ks \<Longrightarrow> ei_map s ks bs k = None"
  by (simp add: ei_map_def find_key_None)

text \<open>Two descriptions with the same entries are the same map.\<close>

lemma ei_map_eqI:
  assumes i: "inj_on (key_at s) (set ks)"
    and e: "\<And>p. p \<in> set ks \<Longrightarrow> M (key_at s p) = Some (pairs_at s (bs p))"
    and n: "\<And>k. k \<notin> key_at s ` set ks \<Longrightarrow> M k = None"
  shows "ei_map s ks bs = M"
proof (rule ext)
  fix k
  show "ei_map s ks bs k = M k"
  proof (cases "k \<in> key_at s ` set ks")
    case True
    then obtain p where p: "p \<in> set ks" "k = key_at s p" by blast
    show ?thesis using ei_map_at [OF i p(1), of bs] e [OF p(1)] p(2) by simp
  qed (simp add: ei_map_none n)
qed

lemma find_key_cell:
  assumes "ei_rel s ks bs"
  shows "list_find eq_key (edge_key_new k) (ei_list s) (ei_keys s) =
    Some (case List.find (\<lambda>p. key_at s p = k) ks of None \<Rightarrow> 0 | Some p \<Rightarrow> p)"
proof -
  have l: "list_at (lh_cells (ei_keys s)) (ei_list s) ks" using assms by (simp add: ei_rel_def)
  have "(\<lambda>p. eq_key (edge_key_new k) (cell_value (lh_cells (ei_keys s) p))) = (\<lambda>p. key_at s p = k)"
    by (auto simp: eq_key_def edge_key_new_def fun_eq_iff)
  then show ?thesis using list_find_ok [OF l, of eq_key "edge_key_new k"] by simp
qed

lemma key_cell_nonzero: "ei_rel s ks bs \<Longrightarrow> p \<in> set ks \<Longrightarrow> p \<noteq> 0"
  by (auto simp: ei_rel_def list_at_def dest: links_nonzero)

lemma put_bucket_sel [simp]:
  "ei_list (put_bucket p h s) = ei_list s" "ei_pairs (put_bucket p h s) = ei_pairs s"
  "lh_supply (ei_keys (put_bucket p h s)) = lh_supply (ei_keys s)"
  "key_at (put_bucket p h s) q = key_at s q"
  "cell_next (lh_cells (ei_keys (put_bucket p h s)) q) = cell_next (lh_cells (ei_keys s) q)"
  "bucket (put_bucket p h s) q = (if q = p then h else bucket s q)"
  by (simp_all add: put_bucket_def bucket_def Let_def)

lemma bucket_pairs [simp]: "bucket (s\<lparr>ei_pairs := P\<rparr>) q = bucket s q"
  by (simp add: bucket_def)

section \<open>The operations on the map\<close>

text \<open>A change of one bucket and of its cells: the other buckets keep theirs.\<close>

lemma ei_rel_bucket:
  assumes r: "ei_rel s ks bs" and p: "p \<in> set ks"
    and at: "list_at (lh_cells P) h as" "set as \<subseteq> {0<..<2 ^ 64}"
    and new: "set as \<subseteq> set (bs p) \<union> set (lh_supply (ei_pairs s)) - set (lh_supply P)"
    and sup: "distinct (lh_supply P)" "set (lh_supply P) \<subseteq> set (lh_supply (ei_pairs s))"
    and same: "\<And>a. a \<notin> set (bs p) \<Longrightarrow> a \<notin> set as \<Longrightarrow> lh_cells P a = lh_cells (ei_pairs s) a"
  shows "ei_rel (put_bucket p h (s\<lparr>ei_pairs := P\<rparr>)) ks (bs(p := as))"
    "ei_map (put_bucket p h (s\<lparr>ei_pairs := P\<rparr>)) ks (bs(p := as)) = (ei_map s ks bs)(key_at s p \<mapsto> cell_contents (lh_cells P) as)"
proof -
  let ?s = "put_bucket p h (s\<lparr>ei_pairs := P\<rparr>)"
  have inj: "inj_on (key_at s) (set ks)" using r by (simp add: ei_rel_def)
  have apart: "set (bs q) \<inter> set (bs p) = {}" "set (bs q) \<inter> set as = {}" if "q \<in> set ks" "q \<noteq> p" for q
  proof -
    show 1: "set (bs q) \<inter> set (bs p) = {}" using r p that by (auto simp: ei_rel_def)
    have "set (lh_supply (ei_pairs s)) \<inter> set (bs q) = {}" using r that by (simp add: ei_rel_def)
    then show "set (bs q) \<inter> set as = {}" using 1 new by blast
  qed
  have cells: "lh_cells P a = lh_cells (ei_pairs s) a" if "a \<in> set (bs q)" "q \<in> set ks" "q \<noteq> p" for a q
    using apart [OF that(2, 3)] that(1) same [of a] by blast
  have keys: "list_at (lh_cells (ei_keys ?s)) (ei_list ?s) ks"
    using r by (auto simp: ei_rel_def intro: list_at_cong)
  have others: "list_at (lh_cells P) (bucket s q) (bs q)" if "q \<in> set ks" "q \<noteq> p" for q
    using r that cells [OF _ that] by (auto simp: ei_rel_def intro: list_at_cong)
  have sups: "set (lh_supply P) \<inter> set (bs q) = {}" if "q \<in> set ks" for q
  proof -
    have "set (lh_supply (ei_pairs s)) \<inter> set (bs q) = {}" using r that by (simp add: ei_rel_def)
    then show ?thesis using sup(2) by blast
  qed
  show "ei_rel ?s ks (bs(p := as))"
    unfolding ei_rel_def
  proof (intro conjI)
    show "\<forall>q\<in>set ks. list_at (lh_cells (ei_pairs ?s)) (bucket ?s q) ((bs(p := as)) q) \<and> set ((bs(p := as)) q) \<subseteq> {0<..<2 ^ 64}"
      using others at r by (auto simp: ei_rel_def)
    show "\<forall>q\<in>set ks. \<forall>q'\<in>set ks. q \<noteq> q' \<longrightarrow> set ((bs(p := as)) q) \<inter> set ((bs(p := as)) q') = {}"
      using apart r by (auto simp: ei_rel_def)
    show "\<forall>q\<in>set ks. set (lh_supply (ei_pairs ?s)) \<inter> set ((bs(p := as)) q) = {}"
      using sups new by auto
    show "set (lh_supply (ei_pairs ?s)) \<subseteq> {0<..<2 ^ 64}"
      using r sup by (auto simp: ei_rel_def)
  qed (use keys inj r sup in \<open>simp_all add: ei_rel_def\<close>)
  show "ei_map ?s ks (bs(p := as)) = (ei_map s ks bs)(key_at s p \<mapsto> cell_contents (lh_cells P) as)"
  proof (rule ei_map_eqI)
    show "inj_on (key_at ?s) (set ks)" using inj by simp
    fix q assume q: "q \<in> set ks"
    show "((ei_map s ks bs)(key_at s p \<mapsto> cell_contents (lh_cells P) as)) (key_at ?s q) = Some (pairs_at ?s ((bs(p := as)) q))"
    proof (cases "q = p")
      case False
      have "cell_contents (lh_cells P) (bs q) = pairs_at s (bs q)" using cells [OF _ q False] by (auto intro: cell_contents_cong)
      moreover have "key_at s q \<noteq> key_at s p" using inj p q False by (auto dest: inj_onD)
      ultimately show ?thesis using False ei_map_at [OF inj q] by simp
    qed simp
  next
    fix k assume "k \<notin> key_at ?s ` set ks"
    then show "((ei_map s ks bs)(key_at s p \<mapsto> cell_contents (lh_cells P) as)) k = None" using p by (auto simp: ei_map_none)
  qed
qed

lemma add_pair_ok:
  assumes r: "ei_rel s ks bs" and p: "p \<in> set ks" and sup: "lh_supply (ei_pairs s) = n # rest"
  obtains s' where "add_pair p x s = (Inr (), s')" "ei_rel s' ks (bs(p := n # bs p))"
    "ei_map s' ks (bs(p := n # bs p)) = (ei_map s ks bs)(key_at s p \<mapsto> x # pairs_at s (bs p))"
proof -
  have at: "list_at (lh_cells (ei_pairs s)) (bucket s p) (bs p)" "set (bs p) \<subseteq> {0<..<2 ^ 64}"
    and n: "n \<noteq> 0" "n \<notin> set (bs p)" "n < 2 ^ 64" "n \<notin> set rest" "distinct rest"
    using r p sup by (auto simp: ei_rel_def)
  obtain h P es where a: "list_add x (bucket s p) (ei_pairs s) = (Inr n, h, P, es)" "list_at (lh_cells P) h (n # bs p)"
    "cell_contents (lh_cells P) (n # bs p) = x # pairs_at s (bs p)" "lh_supply P = rest"
    "\<And>a. a \<noteq> n \<Longrightarrow> lh_cells P a = lh_cells (ei_pairs s) a"
    using list_add_ok [OF at(1) sup n(1, 2)] by metis
  have dis: "set (lh_supply (ei_pairs s)) \<inter> set (bs p) = {}" using r p by (simp add: ei_rel_def)
  have new: "set (n # bs p) \<subseteq> set (bs p) \<union> set (lh_supply (ei_pairs s)) - set (lh_supply P)"
    using dis n sup unfolding a(4) by auto
  have same: "lh_cells P b = lh_cells (ei_pairs s) b" if "b \<notin> set (bs p)" "b \<notin> set (n # bs p)" for b
    using a(5) that by simp
  have rng: "set (n # bs p) \<subseteq> {0<..<2 ^ 64}" using at(2) n by simp
  have ds: "distinct (lh_supply P)" "set (lh_supply P) \<subseteq> set (lh_supply (ei_pairs s))" using n sup a(4) by auto
  note R = ei_rel_bucket [OF r p a(2) rng new ds same]
  show ?thesis by (rule that [of "put_bucket p h (s\<lparr>ei_pairs := P\<rparr>)"]) (use a(1, 3) R in \<open>simp_all add: add_pair_def\<close>)
qed

lemma remove_pair_ok:
  assumes r: "ei_rel s ks bs" and p: "p \<in> set ks"
  obtains h P es as where "list_remove eq_pair (edge, 0) (bucket s p) (ei_pairs s) = Some (h, P, es)"
    "ei_rel (put_bucket p h (s\<lparr>ei_pairs := P\<rparr>)) ks (bs(p := as))"
    "ei_map (put_bucket p h (s\<lparr>ei_pairs := P\<rparr>)) ks (bs(p := as)) =
      (ei_map s ks bs)(key_at s p \<mapsto> del_first (\<lambda>x. fst x = edge) (pairs_at s (bs p)))"
    "l_num h = 0 \<longleftrightarrow> as = []" "as = [] \<longleftrightarrow> del_first (\<lambda>x. fst x = edge) (pairs_at s (bs p)) = []"
proof -
  have at: "list_at (lh_cells (ei_pairs s)) (bucket s p) (bs p)" "set (bs p) \<subseteq> {0<..<2 ^ 64}"
    using r p by (auto simp: ei_rel_def)
  have eq: "eq_pair (edge, 0) = (\<lambda>x. fst x = edge)" by (auto simp: eq_pair_def fun_eq_iff)
  obtain h P es as where a: "list_remove eq_pair (edge, 0) (bucket s p) (ei_pairs s) = Some (h, P, es)" "list_at (lh_cells P) h as"
    "cell_contents (lh_cells P) as = del_first (\<lambda>x. fst x = edge) (pairs_at s (bs p))"
    "as = del_first (\<lambda>a. eq_pair (edge, 0) (cell_value (lh_cells (ei_pairs s) a))) (bs p)" "lh_supply P = lh_supply (ei_pairs s)"
    "\<And>a. a \<notin> set (bs p) \<Longrightarrow> lh_cells P a = lh_cells (ei_pairs s) a"
    by (rule list_remove_ok [OF at(1), of eq_pair "(edge, 0)", unfolded eq]) (auto simp: eq)
  have sub: "set as \<subseteq> set (bs p)" unfolding a(4) by (rule del_first_subset)
  have dis: "set (lh_supply (ei_pairs s)) \<inter> set (bs p) = {}" "distinct (lh_supply (ei_pairs s))" using r p by (auto simp: ei_rel_def)
  have new: "set as \<subseteq> set (bs p) \<union> set (lh_supply (ei_pairs s)) - set (lh_supply P)" using sub dis a(5) by auto
  have rng: "set as \<subseteq> {0<..<2 ^ 64}" using sub at(2) by blast
  have ds: "distinct (lh_supply P)" "set (lh_supply P) \<subseteq> set (lh_supply (ei_pairs s))" using dis a(5) by auto
  have same: "lh_cells P b = lh_cells (ei_pairs s) b" if "b \<notin> set (bs p)" "b \<notin> set as" for b using a(6) [OF that(1)] .
  note R = ei_rel_bucket [OF r p a(2) rng new ds same]
  have len: "l_num h = 0 \<longleftrightarrow> as = []" using length_cells [OF a(2) rng] .
  have emp: "as = [] \<longleftrightarrow> del_first (\<lambda>x. fst x = edge) (pairs_at s (bs p)) = []"
    unfolding a(3) [symmetric] by (simp add: cell_contents_def)
  show ?thesis by (rule that [OF a(1) R(1) R(2) [unfolded a(3)] len emp])
qed

lemma add_key_ok:
  assumes r: "ei_rel s ks bs" and k: "k \<notin> key_at s ` set ks" and sup: "lh_supply (ei_keys s) = n # rest"
  obtains h K es where "list_add (edge_key_new k) (ei_list s) (ei_keys s) = (Inr n, h, K, es)"
    "ei_rel (s\<lparr>ei_list := h, ei_keys := K\<rparr>) (n # ks) (bs(n := []))"
    "ei_map (s\<lparr>ei_list := h, ei_keys := K\<rparr>) (n # ks) (bs(n := [])) = (ei_map s ks bs)(k \<mapsto> [])"
    "key_at (s\<lparr>ei_list := h, ei_keys := K\<rparr>) n = k"
proof -
  have at: "list_at (lh_cells (ei_keys s)) (ei_list s) ks" and n: "n \<noteq> 0" "n \<notin> set ks" "distinct (n # rest)" "0 \<notin> set rest"
      "set rest \<inter> set ks = {}" and inj: "inj_on (key_at s) (set ks)"
    using r sup by (auto simp: ei_rel_def)
  obtain h K es where a: "list_add (edge_key_new k) (ei_list s) (ei_keys s) = (Inr n, h, K, es)"
    "list_at (lh_cells K) h (n # ks)" "cell_contents (lh_cells K) (n # ks) = edge_key_new k # cell_contents (lh_cells (ei_keys s)) ks"
    "lh_supply K = rest" "\<And>a. a \<noteq> n \<Longrightarrow> lh_cells K a = lh_cells (ei_keys s) a"
    using list_add_ok [OF at sup n(1, 2)] by metis
  let ?s = "s\<lparr>ei_list := h, ei_keys := K\<rparr>"
  have val: "cell_value (lh_cells K n) = edge_key_new k" using a(3) by simp
  have keyn: "key_at ?s n = k" "bucket ?s n = list_init" using val by (simp_all add: edge_key_new_def bucket_def)
  have old: "key_at ?s q = key_at s q" "bucket ?s q = bucket s q" "q \<noteq> n" if "q \<in> set ks" for q
  proof -
    show "q \<noteq> n" using that n(2) by blast
    then show "key_at ?s q = key_at s q" "bucket ?s q = bucket s q" using a(5) [of q] by (simp_all add: bucket_def)
  qed
  have inj': "inj_on (key_at ?s) (set (n # ks))"
  proof -
    have "inj_on (key_at ?s) (set ks)" using inj inj_on_cong [of "set ks" "key_at ?s" "key_at s", OF old(1)] by blast
    moreover have "key_at ?s ` set ks = key_at s ` set ks" using old(1) by (rule image_cong [OF refl])
    ultimately show ?thesis using k keyn(1) n(2) by simp
  qed
  have "ei_rel ?s (n # ks) (bs(n := []))"
    unfolding ei_rel_def
  proof (intro conjI)
    show "\<forall>p\<in>set (n # ks). list_at (lh_cells (ei_pairs ?s)) (bucket ?s p) ((bs(n := [])) p) \<and> set ((bs(n := [])) p) \<subseteq> {0<..<2 ^ 64}"
      using r old keyn(2) n(2) by (auto simp: ei_rel_def)
    show "\<forall>p\<in>set (n # ks). \<forall>q\<in>set (n # ks). p \<noteq> q \<longrightarrow> set ((bs(n := [])) p) \<inter> set ((bs(n := [])) q) = {}"
      using r n(2) by (auto simp: ei_rel_def)
    show "\<forall>p\<in>set (n # ks). set (lh_supply (ei_pairs ?s)) \<inter> set ((bs(n := [])) p) = {}"
      using r n(2) by (auto simp: ei_rel_def)
  qed (use a(2, 4) inj' n r in \<open>auto simp: ei_rel_def\<close>)
  moreover have "ei_map ?s (n # ks) (bs(n := [])) = (ei_map s ks bs)(k \<mapsto> [])"
  proof (rule ei_map_eqI [OF inj'])
    fix q assume q: "q \<in> set (n # ks)"
    show "((ei_map s ks bs)(k \<mapsto> [])) (key_at ?s q) = Some (pairs_at ?s ((bs(n := [])) q))"
    proof (cases "q = n")
      case True
      then show ?thesis using keyn by simp
    next
      case False
      then have qk: "q \<in> set ks" using q by simp
      have "key_at s q \<noteq> k" using k qk by blast
      then show ?thesis using ei_map_at [OF inj qk, of bs] old [OF qk] False by simp
    qed
  next
    fix k' assume "k' \<notin> key_at ?s ` set (n # ks)"
    then have "k' \<noteq> k" "k' \<notin> key_at s ` set ks" using keyn(1) old(1) by auto
    then show "((ei_map s ks bs)(k \<mapsto> [])) k' = None" by (simp add: ei_map_none)
  qed
  ultimately show ?thesis using that a(1) keyn(1) by blast
qed

lemma remove_key_ok:
  assumes r: "ei_rel s ks bs" and p: "p \<in> set ks"
  obtains s' ks' where "remove_key (key_at s p) s = Some s'" "ei_rel s' ks' bs" "set ks' = set ks - {p}"
    "ei_map s' ks' bs = (ei_map s ks bs)(key_at s p := None)"
proof -
  let ?k = "key_at s p"
  have at: "list_at (lh_cells (ei_keys s)) (ei_list s) ks" and inj: "inj_on (key_at s) (set ks)"
    using r by (auto simp: ei_rel_def)
  obtain h K es ks' where a: "list_remove eq_key (edge_key_new ?k) (ei_list s) (ei_keys s) = Some (h, K, es)" "list_at (lh_cells K) h ks'"
    "ks' = del_first (\<lambda>a. eq_key (edge_key_new ?k) (cell_value (lh_cells (ei_keys s) a))) ks" "lh_supply K = lh_supply (ei_keys s)"
    "\<And>a. cell_value (lh_cells K a) = cell_value (lh_cells (ei_keys s) a)"
    by (rule list_remove_ok [OF at, of eq_key "edge_key_new ?k"]) auto
  let ?s = "s\<lparr>ei_list := h, ei_keys := K\<rparr>"
  have sub: "set ks' = set ks - {p}"
    unfolding a(3)
    by (rule set_del_first) (use list_at_distinct [OF at] p inj in \<open>auto simp: eq_key_def edge_key_new_def dest: inj_onD\<close>)
  have same: "key_at ?s q = key_at s q" "bucket ?s q = bucket s q" for q by (simp_all add: a(5) bucket_def)
  have inj': "inj_on (key_at ?s) (set ks')" unfolding sub same by (rule inj_on_diff [OF inj])
  have "set (lh_supply (ei_keys s)) \<inter> (set ks - {p}) = {}" using r by (auto simp: ei_rel_def)
  then have "ei_rel ?s ks' bs" using r a(2, 4) inj' unfolding ei_rel_def same sub by simp
  moreover have "ei_map ?s ks' bs = (ei_map s ks bs)(?k := None)"
  proof (rule ei_map_eqI [OF inj'])
    fix q assume q: "q \<in> set ks'"
    then have "key_at s q \<noteq> ?k" "q \<in> set ks" using inj p sub by (auto dest: inj_onD)
    then show "((ei_map s ks bs)(?k := None)) (key_at ?s q) = Some (pairs_at ?s (bs q))"
      using ei_map_at [OF inj, of q bs] by (simp add: a(5))
  next
    fix k' assume "k' \<notin> key_at ?s ` set ks'"
    then have "k' = ?k \<or> k' \<notin> key_at s ` set ks" unfolding sub same by auto
    then show "((ei_map s ks bs)(?k := None)) k' = None" by (auto simp: ei_map_none)
  qed
  ultimately show ?thesis using that [of ?s ks'] a(1) sub by (simp add: remove_key_def)
qed

lemma key_cases:
  assumes "ei_rel s ks bs" "M = ei_map s ks bs"
  obtains (found) p where "p \<in> set ks" "p \<noteq> 0" "key_at s p = k" "M k = Some (pairs_at s (bs p))"
      "list_find eq_key (edge_key_new k) (ei_list s) (ei_keys s) = Some p"
  | (missing) "k \<notin> key_at s ` set ks" "M k = None" "list_find eq_key (edge_key_new k) (ei_list s) (ei_keys s) = Some 0"
proof (cases "k \<in> key_at s ` set ks")
  case True
  then obtain p where p: "p \<in> set ks" "k = key_at s p" by blast
  have inj: "inj_on (key_at s) (set ks)" using assms(1) by (simp add: ei_rel_def)
  show ?thesis
    using found [of p] p key_cell_nonzero [OF assms(1) p(1)] ei_map_at [OF inj p(1), of bs] assms(2)
      find_key_cell [OF assms(1), of k] find_key [where f = "key_at s", OF inj p(1)] by simp
next
  case False
  then show ?thesis
    using missing assms(2) ei_map_none [OF False] find_key_cell [OF assms(1), of k] find_key_None [of "key_at s" k ks] by simp
qed

lemma ei_add_ok:
  assumes "ei_ok s M"
  shows "\<exists>r s'. ei_add k e n s = Some (r, s') \<and>
    (case r of
       Inl err \<Rightarrow> err = BadAlloc \<and> (lh_supply (ei_pairs s) = [] \<or> M k = None \<and> lh_supply (ei_keys s) = [])
     | Inr _ \<Rightarrow> ei_ok s' (M(k \<mapsto> (e, n) # (case M k of None \<Rightarrow> [] | Some xs \<Rightarrow> xs))))"
proof -
  obtain ks bs where r: "ei_rel s ks bs" and ne: "\<forall>p\<in>set ks. bs p \<noteq> []" and M: "M = ei_map s ks bs"
    using assms by (auto simp: ei_ok_def)
  from r M show ?thesis
  proof (cases rule: key_cases [where k = k])
    case (found p)
    show ?thesis
    proof (cases "lh_supply (ei_pairs s)")
      case Nil
      then show ?thesis using found by (simp add: ei_add_def add_pair_def list_add_def)
    next
      case (Cons a rest)
      obtain s' where s': "add_pair p (e, n) s = (Inr (), s')" "ei_rel s' ks (bs(p := a # bs p))"
        "ei_map s' ks (bs(p := a # bs p)) = (ei_map s ks bs)(key_at s p \<mapsto> (e, n) # pairs_at s (bs p))"
        using add_pair_ok [OF r found(1) Cons] by metis
      have "\<forall>q\<in>set ks. (bs(p := a # bs p)) q \<noteq> []" using ne by simp
      then have "ei_ok s' (M(k \<mapsto> (e, n) # pairs_at s (bs p)))" using s'(2, 3) found(3) M unfolding ei_ok_def by metis
      then show ?thesis using found s'(1) by (simp add: ei_add_def)
    qed
  next
    case missing
    show ?thesis
    proof (cases "lh_supply (ei_keys s)")
      case Nil
      then show ?thesis using missing by (simp add: ei_add_def list_add_def)
    next
      case (Cons q rest)
      obtain h K es where a: "list_add (edge_key_new k) (ei_list s) (ei_keys s) = (Inr q, h, K, es)"
        "ei_rel (s\<lparr>ei_list := h, ei_keys := K\<rparr>) (q # ks) (bs(q := []))"
        "ei_map (s\<lparr>ei_list := h, ei_keys := K\<rparr>) (q # ks) (bs(q := [])) = (ei_map s ks bs)(k \<mapsto> [])"
        "key_at (s\<lparr>ei_list := h, ei_keys := K\<rparr>) q = k"
        using add_key_ok [OF r missing(1) Cons] by metis
      let ?s = "s\<lparr>ei_list := h, ei_keys := K\<rparr>"
      have add: "ei_add k e n s = Some (add_pair q (e, n) ?s)" using missing a(1) by (simp add: ei_add_def)
      show ?thesis
      proof (cases "lh_supply (ei_pairs s)")
        case Nil
        then show ?thesis using add by (simp add: add_pair_def list_add_def)
      next
        case (Cons b rest')
        then have sup: "lh_supply (ei_pairs ?s) = b # rest'" by simp
        have q: "q \<in> set (q # ks)" by simp
        have emp: "(bs(q := [])) q = []" by simp
        obtain s' where s': "add_pair q (e, n) ?s = (Inr (), s')" "ei_rel s' (q # ks) (bs(q := [], q := [b]))"
          "ei_map s' (q # ks) (bs(q := [], q := [b])) = (ei_map ?s (q # ks) (bs(q := [])))(key_at ?s q \<mapsto> (e, n) # pairs_at ?s [])"
          using add_pair_ok [OF a(2) q sup, of "(e, n)", unfolded emp] by metis
        have "q \<notin> set ks" using r \<open>lh_supply (ei_keys s) = q # rest\<close> by (auto simp: ei_rel_def)
        then have "\<forall>p\<in>set (q # ks). (bs(q := [], q := [b])) p \<noteq> []" using ne by simp
        moreover have "ei_map s' (q # ks) (bs(q := [], q := [b])) = M(k \<mapsto> [(e, n)])" using s'(3) a(3, 4) M by simp
        ultimately have "ei_ok s' (M(k \<mapsto> [(e, n)]))" using s'(2) unfolding ei_ok_def by metis
        then show ?thesis using add s'(1) missing(2) by simp
      qed
    qed
  qed
qed

lemma ei_remove_ok:
  assumes "ei_ok s M"
  shows "\<exists>s'. ei_remove k e s = Some s' \<and>
    ei_ok s' (M(k := case M k of None \<Rightarrow> None
      | Some xs \<Rightarrow> if del_first (\<lambda>x. fst x = e) xs = [] then None else Some (del_first (\<lambda>x. fst x = e) xs)))"
proof -
  obtain ks bs where r: "ei_rel s ks bs" and ne: "\<forall>p\<in>set ks. bs p \<noteq> []" and M: "M = ei_map s ks bs"
    using assms by (auto simp: ei_ok_def)
  from r M show ?thesis
  proof (cases rule: key_cases [where k = k])
    case (found p)
    let ?ys = "del_first (\<lambda>x. fst x = e) (pairs_at s (bs p))"
    obtain h P es as where u: "list_remove eq_pair (e, 0) (bucket s p) (ei_pairs s) = Some (h, P, es)"
      "ei_rel (put_bucket p h (s\<lparr>ei_pairs := P\<rparr>)) ks (bs(p := as))"
      "ei_map (put_bucket p h (s\<lparr>ei_pairs := P\<rparr>)) ks (bs(p := as)) = (ei_map s ks bs)(key_at s p \<mapsto> ?ys)"
      "l_num h = 0 \<longleftrightarrow> as = []" "as = [] \<longleftrightarrow> ?ys = []"
      using remove_pair_ok [OF r found(1)] by metis
    let ?s1 = "put_bucket p h (s\<lparr>ei_pairs := P\<rparr>)"
    have rm: "ei_remove k e s = (if as = [] then remove_key k ?s1 else Some ?s1)"
      using found u(1, 4) by (simp add: ei_remove_def Let_def)
    show ?thesis
    proof (cases "as = []")
      case False
      then have "\<forall>q\<in>set ks. (bs(p := as)) q \<noteq> []" using ne by simp
      then have "ei_ok ?s1 (M(k \<mapsto> ?ys))" using u(2, 3) found(3) M unfolding ei_ok_def by metis
      then show ?thesis using rm False found(4) u(5) by simp
    next
      case True
      obtain s' ks' where s': "remove_key (key_at ?s1 p) ?s1 = Some s'" "ei_rel s' ks' (bs(p := as))" "set ks' = set ks - {p}"
        "ei_map s' ks' (bs(p := as)) = (ei_map ?s1 ks (bs(p := as)))(key_at ?s1 p := None)"
        using remove_key_ok [OF u(2) found(1)] by metis
      have "\<forall>q\<in>set ks'. (bs(p := as)) q \<noteq> []" using ne s'(3) by simp
      moreover have "ei_map s' ks' (bs(p := as)) = M(k := None)" using s'(4) u(3) found(3) M by simp
      ultimately have "ei_ok s' (M(k := None))" using s'(2) unfolding ei_ok_def by metis
      then show ?thesis using rm True s'(1) found(3, 4) u(5) by simp
    qed
  next
    case missing
    then have "M(k := None) = M" by (simp add: fun_upd_idem)
    then show ?thesis using missing assms by (simp add: ei_remove_def)
  qed
qed

lemma ei_get_first_ok:
  assumes "ei_ok s M"
  shows "\<exists>p as. ei_get_first k s = Some p \<and> links (lh_cells (ei_pairs s)) p as \<and>
    M k = (if as = [] then None else Some (pairs_at s as))"
proof -
  obtain ks bs where r: "ei_rel s ks bs" and ne: "\<forall>p\<in>set ks. bs p \<noteq> []" and M: "M = ei_map s ks bs"
    using assms by (auto simp: ei_ok_def)
  from r M show ?thesis
  proof (cases rule: key_cases [where k = k])
    case (found p)
    have "links (lh_cells (ei_pairs s)) (l_head (bucket s p)) (bs p)" using r found(1) by (simp add: ei_rel_def list_at_def)
    then show ?thesis using found ne by (intro exI [of _ "l_head (bucket s p)"] exI [of _ "bs p"]) (simp add: ei_get_first_def)
  next
    case missing
    then show ?thesis by (intro exI [of _ 0] exI [of _ "[]"]) (simp add: ei_get_first_def)
  qed
qed

text \<open>
  C36. The edge index of a node is a finite map from tags to non-empty sequences of edges with their
  nodes: \<open>get_first\<close> yields the chain of a tag, \<open>add\<close> puts a pair in front, creating the tag's list if needed,
  \<open>remove\<close> deletes the first pair with the edge and a tag that has no pair left. The loops end.
\<close>

theorem edge_index_refines_map:
  assumes "ei_ok s M"
  shows "(\<exists>p as. ei_get_first k s = Some p \<and> links (lh_cells (ei_pairs s)) p as \<and>
      M k = (if as = [] then None else Some (cell_contents (lh_cells (ei_pairs s)) as))) \<and>
    (\<exists>r s'. ei_add k e n s = Some (r, s') \<and>
      (case r of
         Inl err \<Rightarrow> err = BadAlloc \<and> (lh_supply (ei_pairs s) = [] \<or> M k = None \<and> lh_supply (ei_keys s) = [])
       | Inr _ \<Rightarrow> ei_ok s' (M(k \<mapsto> (e, n) # (case M k of None \<Rightarrow> [] | Some xs \<Rightarrow> xs))))) \<and>
    (\<exists>s'. ei_remove k e s = Some s' \<and>
      ei_ok s' (M(k := case M k of None \<Rightarrow> None
        | Some xs \<Rightarrow> if del_first (\<lambda>x. fst x = e) xs = [] then None else Some (del_first (\<lambda>x. fst x = e) xs))))"
  using ei_get_first_ok [OF assms] ei_add_ok [OF assms] ei_remove_ok [OF assms] by blast

definition ex_edge_index :: edge_index where
  "ex_edge_index = \<lparr>ei_list = list_init,
     ei_keys = \<lparr>lh_cells = (\<lambda>_. \<lparr>cell_value = edge_key_new 0, cell_next = 0\<rparr>), lh_supply = [64, 96]\<rparr>,
     ei_pairs = \<lparr>lh_cells = (\<lambda>_. \<lparr>cell_value = (0, 0), cell_next = 0\<rparr>), lh_supply = [128, 160]\<rparr>\<rparr>"

lemma edge_index_refines_map_witness:
  "\<exists>s'. ei_remove 7 4096 ex_edge_index = Some s' \<and> ei_ok s' Map.empty"
proof -
  have "ei_rel ex_edge_index [] (\<lambda>_. [])" by (simp add: ei_rel_def ex_edge_index_def)
  moreover have "ei_map ex_edge_index [] (\<lambda>_. []) = Map.empty" by (simp add: ei_map_def fun_eq_iff)
  ultimately have "ei_ok ex_edge_index Map.empty"
    unfolding ei_ok_def by (intro exI [of _ "[]"] exI [of _ "\<lambda>_. []"]) simp
  from edge_index_refines_map [OF this, of 7 4096 0] show ?thesis by (simp add: fun_upd_idem)
qed

end
