(* ===== verification/Index_String.thy ===== *)
theory Index_String
  imports Pmgd_Prelude "HOL-Library.List_Lexorder"
begin

text \<open>
  \<open>src/IndexString.cc\<close>: the string keys of indices. Eight bytes are inline, padded with zeros; the rest, if
  there is one, is in separate memory, whose contents are part of the value here. The bytes are those of
  \<open>std::collate::transform\<close>. Properties: \<open>compare\<close> is the lexicographic order of the byte strings, zero
  bytes included, as long as lengths differ by less than \<open>2 ^ 31\<close>; copies and assignments stand for the
  source's string.
\<close>

section \<open>The representation\<close>

abbreviation PREFIX_LEN :: nat where
  "PREFIX_LEN \<equiv> 8"

record index_string =
  is_prefix :: "u8 list"
  is_remainder :: "u8 list option"
  is_len :: u32

text \<open>
  What the constructors and the assignment do with the memory of a remainder; \<open>RemLogged n\<close> is the
  \<open>tx->write (dst, src, len)\<close>, the other writes are not logged.
\<close>

datatype rem_event =
    RemAlloc u32
  | RemFree u32
  | RemWrite u32
  | RemLogged u32

text \<open>\<open>TransientIndexString\<close>, from the transformed string.\<close>

definition transient_string :: "u8 list \<Rightarrow> index_string" where
  "transient_string tstr =
     (let len = word_of_nat (length tstr)
      in if (len :: u32) > word_of_nat PREFIX_LEN
         then \<lparr>is_prefix = take PREFIX_LEN tstr, is_remainder = Some (take (unat (len - word_of_nat PREFIX_LEN)) (drop PREFIX_LEN tstr)),
               is_len = len\<rparr>
         else \<lparr>is_prefix = take (unat len) tstr @ replicate (PREFIX_LEN - unat len) 0, is_remainder = None, is_len = len\<rparr>)"

text \<open>\<open>IndexString (const IndexString &)\<close>.\<close>

definition remainder_bytes :: "index_string \<Rightarrow> nat \<Rightarrow> u8 list" where
  "remainder_bytes s n = (case is_remainder s of None \<Rightarrow> [] | Some bs \<Rightarrow> take n bs)"

definition copy_string :: "index_string \<Rightarrow> index_string \<times> rem_event list" where
  "copy_string src =
     (if is_len src > word_of_nat PREFIX_LEN then
        (let remaining = is_len src - word_of_nat PREFIX_LEN
         in (\<lparr>is_prefix = is_prefix src, is_remainder = Some (remainder_bytes src (unat remaining)), is_len = is_len src\<rparr>,
             [RemAlloc remaining, RemWrite remaining]))
      else (\<lparr>is_prefix = is_prefix src, is_remainder = None, is_len = is_len src\<rparr>, []))"

definition assign_string :: "index_string \<Rightarrow> index_string \<Rightarrow> index_string \<times> rem_event list" where
  "assign_string dst src =
     (let old = is_len dst - word_of_nat PREFIX_LEN
      in if is_remainder dst \<noteq> None \<and> is_len dst = is_len src
         then (dst\<lparr>is_prefix := is_prefix src, is_remainder := Some (remainder_bytes src (unat old))\<rparr>, [RemLogged old])
         else (let freed = (if is_remainder dst \<noteq> None then [RemFree old] else []);
                   remaining = is_len src - word_of_nat PREFIX_LEN
               in if is_len src > word_of_nat PREFIX_LEN
                  then (\<lparr>is_prefix = is_prefix src, is_remainder = Some (remainder_bytes src (unat remaining)), is_len = is_len src\<rparr>,
                        freed @ [RemAlloc remaining, RemWrite remaining])
                  else (\<lparr>is_prefix = is_prefix src, is_remainder = None, is_len = is_len src\<rparr>, freed)))"

definition destroy_string :: "index_string \<Rightarrow> rem_event list" where
  "destroy_string s = (if is_remainder s \<noteq> None then [RemFree (is_len s - word_of_nat PREFIX_LEN)] else [])"

definition remainder_size :: "index_string \<Rightarrow> nat" where
  "remainder_size s = (if is_len s > word_of_nat PREFIX_LEN then unat (is_len s - word_of_nat PREFIX_LEN) else 0)"

section \<open>compare\<close>

fun memcmp :: "u8 list \<Rightarrow> u8 list \<Rightarrow> int" where
  "memcmp (x # xs) (y # ys) = (if x = y then memcmp xs ys else if x < y then -1 else 1)"
| "memcmp xs ys = 0"

text \<open>The difference of the lengths is 64 bits wide and is converted to the \<open>int\<close> that is returned.\<close>

definition compare_string :: "index_string \<Rightarrow> index_string \<Rightarrow> int" where
  "compare_string a b =
     (let r = memcmp (is_prefix a) (is_prefix b);
          shorter = (if is_len a > is_len b then is_len b else is_len a);
          len = unat (shorter - word_of_nat PREFIX_LEN);
          r2 = (if shorter > word_of_nat PREFIX_LEN then memcmp (remainder_bytes a len) (remainder_bytes b len) else 0)
      in if r \<noteq> 0 then r else if r2 \<noteq> 0 then r2
         else sint (word_of_int (int (unat (is_len a)) - int (unat (is_len b))) :: u32))"

section \<open>The string that is represented\<close>

fun pad :: "nat \<Rightarrow> u8 list \<Rightarrow> u8 list" where
  "pad 0 xs = []"
| "pad (Suc n) [] = 0 # pad n []"
| "pad (Suc n) (x # xs) = x # pad n xs"

lemma pad_bytes: "pad n xs = take n xs @ replicate (n - length xs) 0"
  by (induction n xs rule: pad.induct) simp_all

lemma length_pad [simp]: "length (pad n xs) = n"
  by (induction n xs rule: pad.induct) simp_all

definition stands_for :: "index_string \<Rightarrow> u8 list \<Rightarrow> bool" where
  "stands_for s bs \<longleftrightarrow>
     length bs < 2 ^ 32 \<and> is_len s = word_of_nat (length bs) \<and> is_prefix s = pad PREFIX_LEN bs \<and>
     is_remainder s = (if length bs > PREFIX_LEN then Some (drop PREFIX_LEN bs) else None)"

lemma len_unat: "length bs < 2 ^ 32 \<Longrightarrow> unat (word_of_nat (length bs) :: u32) = length bs"
  by (simp add: unat_of_nat take_bit_nat_eq_self)

lemma len_compare:
  assumes "length bs < 2 ^ 32"
  shows "8 < (word_of_nat (length bs) :: u32) \<longleftrightarrow> 8 < length bs"
    "8 < length bs \<Longrightarrow> unat ((word_of_nat (length bs) :: u32) - 8) = length bs - 8"
  using len_unat [OF assms] by (simp_all add: word_less_nat_alt unat_sub_if' word_le_nat_alt)

section \<open>Construction\<close>

lemma transient_stands_for: "length bs < 2 ^ 32 \<Longrightarrow> stands_for (transient_string bs) bs"
  by (auto simp: transient_string_def stands_for_def len_compare len_unat pad_bytes Let_def)

lemma remainder_of: "stands_for s bs \<Longrightarrow> PREFIX_LEN < length bs \<Longrightarrow> remainder_bytes s n = take n (drop PREFIX_LEN bs)"
  by (simp add: stands_for_def remainder_bytes_def)

lemma copy_stands_for: "stands_for src bs \<Longrightarrow> stands_for (fst (copy_string src)) bs"
  using remainder_of [of src bs "length bs - PREFIX_LEN"]
  by (auto simp: copy_string_def stands_for_def len_compare Let_def)

lemma stands_len: "stands_for s bs \<Longrightarrow> unat (is_len s) = length bs"
  by (simp add: stands_for_def len_unat)

lemma assign_stands_for:
  assumes d: "stands_for dst cs" and s: "stands_for src bs"
  shows "stands_for (fst (assign_string dst src)) bs"
proof (cases "is_remainder dst \<noteq> None \<and> is_len dst = is_len src")
  case True
  then have l: "length cs = length bs" using stands_len [OF d] stands_len [OF s] by simp
  have long: "8 < length bs" using True d l by (simp add: stands_for_def split: if_splits)
  have b: "length bs < 2 ^ 32" "is_len dst = word_of_nat (length bs)" using s d l by (simp_all add: stands_for_def)
  have "unat (is_len dst - 8) = length bs - 8" unfolding b(2) using len_compare(2) [OF b(1) long] .
  then have "remainder_bytes src (unat (is_len dst - 8)) = drop 8 bs" using remainder_of [OF s long] by simp
  then show ?thesis using True long s by (simp add: assign_string_def stands_for_def Let_def)
next
  case False
  then have "fst (assign_string dst src) = fst (copy_string src)" by (auto simp: assign_string_def copy_string_def Let_def)
  then show ?thesis using copy_stands_for [OF s] by simp
qed

section \<open>Order\<close>

lemma memcmp_lex: "length xs = length ys \<Longrightarrow> (memcmp xs ys < 0 \<longleftrightarrow> xs < ys) \<and> (memcmp xs ys = 0 \<longleftrightarrow> xs = ys)"
  by (induction xs ys rule: memcmp.induct) auto

lemma memcmp_same: "memcmp xs xs = 0"
  by (induction xs) simp_all

lemma pad_less: "pad n xs < pad n ys \<Longrightarrow> xs < ys"
proof (induction n arbitrary: xs ys)
  case (Suc n)
  have "\<not> pad n us < pad n []" for us using Suc.IH [of us "[]"] by auto
  then show ?case using Suc by (cases xs; cases ys) auto
qed simp

lemma pad_eq_prefix:
  assumes "pad n xs = pad n ys" "m \<le> n" "m \<le> length xs" "m \<le> length ys"
  shows "take m xs = take m ys"
proof -
  have "take m (pad n xs) = take m (pad n ys)" using assms(1) by simp
  then show ?thesis using assms(2-4) by (simp add: pad_bytes)
qed

lemma take_less: "take n xs < take n ys \<Longrightarrow> xs < ys"
proof (induction n arbitrary: xs ys)
  case (Suc n)
  then show ?case by (cases xs; cases ys) auto
qed simp

lemma prefix_less:
  fixes xs ys :: "'a::linorder list"
  shows "take (min (length xs) (length ys)) xs = take (min (length xs) (length ys)) ys \<Longrightarrow>
    (xs < ys \<longleftrightarrow> length xs < length ys) \<and> (xs = ys \<longleftrightarrow> length xs = length ys)"
proof (induction xs arbitrary: ys)
  case (Cons x xs)
  then show ?case by (cases ys) auto
qed (case_tac ys; simp)

lemma append_less:
  fixes us :: "'a::linorder list"
  shows "us @ xs < us @ ys \<longleftrightarrow> xs < ys"
  by (induction us) auto

text \<open>The order of strings, given by a comparison that agrees with it where it is not 0.\<close>

lemma sign_order:
  fixes xs ys :: "'a::linorder list"
  assumes "r \<noteq> 0" "r < 0 \<longleftrightarrow> us < vs" "us < vs \<Longrightarrow> xs < ys" "vs < us \<Longrightarrow> ys < xs" "us \<noteq> (vs :: 'a list)"
  shows "(r < (0 :: int) \<longleftrightarrow> xs < ys) \<and> (r = 0 \<longleftrightarrow> xs = ys)"
  using assms by (cases us vs rule: linorder_cases) auto

lemma int_of_difference:
  assumes "n < 2 ^ 31" "m < 2 ^ 31"
  shows "sint (word_of_int (int n - int m) :: u32) = int n - int m"
proof -
  have "- (2 ^ 31) \<le> int n - int m" "int n - int m < 2 ^ 31" using assms by simp_all
  then show ?thesis by (simp add: signed_of_int signed_take_bit_int_eq_self del: of_int_diff of_int_of_nat_eq)
qed

text \<open>
  C37. \<open>IndexString::compare\<close> orders strings like the byte strings they stand for, lexicographically with
  unsigned bytes, and yields 0 for equal strings only; the padding of short strings, embedded zero
  bytes and the split after eight bytes do not show. Strings are shorter than 2 GB.
\<close>

theorem compare_is_lexicographic:
  assumes a: "stands_for a bs" and b: "stands_for b cs" and len: "length bs < 2 ^ 31" "length cs < 2 ^ 31"
  shows "(compare_string a b < 0 \<longleftrightarrow> bs < cs) \<and> (compare_string a b = 0 \<longleftrightarrow> bs = cs)"
proof -
  let ?n = "min (length bs) (length cs)"
  let ?shorter = "if is_len a > is_len b then is_len b else is_len a"
  have la: "unat (is_len a) = length bs" "unat (is_len b) = length cs" using a b by (simp_all add: stands_len)
  then have sh: "unat ?shorter = ?n" by (simp add: word_less_nat_alt)
  have long: "?shorter > 8 \<longleftrightarrow> 8 < ?n" using sh by (simp add: word_less_nat_alt)
  have r: "memcmp (is_prefix a) (is_prefix b) = memcmp (pad 8 bs) (pad 8 cs)" using a b by (simp add: stands_for_def)
  have m: "memcmp (pad 8 bs) (pad 8 cs) < 0 \<longleftrightarrow> pad 8 bs < pad 8 cs" "memcmp (pad 8 bs) (pad 8 cs) = 0 \<longleftrightarrow> pad 8 bs = pad 8 cs"
    using memcmp_lex [of "pad 8 bs" "pad 8 cs"] by simp_all
  show ?thesis
  proof (cases "pad 8 bs = pad 8 cs")
    case False
    then have "compare_string a b = memcmp (pad 8 bs) (pad 8 cs)" using m(2) by (simp add: compare_string_def r Let_def)
    then show ?thesis using sign_order [OF _ m(1) pad_less pad_less] False m(2) by simp
  next
    case True
    show ?thesis
    proof (cases "8 < ?n \<and> take (?n - 8) (drop 8 bs) \<noteq> take (?n - 8) (drop 8 cs)")
      case differ: True
      let ?us = "take (?n - 8) (drop 8 bs)" and ?vs = "take (?n - 8) (drop 8 cs)"
      have k: "memcmp ?us ?vs < 0 \<longleftrightarrow> ?us < ?vs" "memcmp ?us ?vs = 0 \<longleftrightarrow> ?us = ?vs"
        using memcmp_lex [of ?us ?vs] by simp_all
      have "unat (?shorter - 8) = ?n - 8" using sh differ by (simp add: unat_sub_if' word_le_nat_alt)
      then have "compare_string a b = memcmp ?us ?vs"
        using m(2) True differ long k(2) remainder_of [OF a, of "?n - 8"] remainder_of [OF b, of "?n - 8"]
        by (simp add: compare_string_def r Let_def)
      moreover have split: "bs = take 8 bs @ drop 8 bs" "cs = take 8 bs @ drop 8 cs"
      proof -
        have "take 8 bs = take 8 cs" using pad_eq_prefix [OF True order_refl] differ by simp
        then show "bs = take 8 bs @ drop 8 bs" "cs = take 8 bs @ drop 8 cs" by (metis append_take_drop_id)+
      qed
      moreover have app: "drop 8 bs < drop 8 cs \<Longrightarrow> bs < cs" "drop 8 cs < drop 8 bs \<Longrightarrow> cs < bs"
        using append_less [of "take 8 bs" "drop 8 bs" "drop 8 cs"] append_less [of "take 8 bs" "drop 8 cs" "drop 8 bs"] split by auto
      ultimately show ?thesis
        using sign_order [OF _ k(1)] differ k(2) take_less [of "?n - 8" "drop 8 bs" "drop 8 cs"]
          take_less [of "?n - 8" "drop 8 cs" "drop 8 bs"] by simp
    next
      case same: False
      have "take ?n bs = take ?n cs"
      proof (cases "8 < ?n")
        case True
        then have "take 8 bs = take 8 cs" using pad_eq_prefix [OF \<open>pad 8 bs = pad 8 cs\<close> order_refl] by simp
        moreover have "take ?n xs = take 8 xs @ take (?n - 8) (drop 8 xs)" for xs :: "u8 list"
          using True take_add [of 8 "?n - 8" xs] by simp
        ultimately show ?thesis using same True by simp
      next
        case False
        then show ?thesis using pad_eq_prefix [OF True, of ?n] by (metis linorder_not_less min.cobounded1 min.cobounded2)
      qed
      from prefix_less [OF this]
      have p: "bs < cs \<longleftrightarrow> length bs < length cs" "bs = cs \<longleftrightarrow> length bs = length cs" by simp_all
      have "unat (?shorter - 8) = ?n - 8" if "8 < ?n" using sh that by (simp add: unat_sub_if' word_le_nat_alt)
      then have "(if ?shorter > 8 then memcmp (remainder_bytes a (unat (?shorter - 8))) (remainder_bytes b (unat (?shorter - 8))) else 0) = 0"
        using same long remainder_of [OF a, of "?n - 8"] remainder_of [OF b, of "?n - 8"]
          memcmp_same by simp
      then have "compare_string a b = sint (word_of_int (int (length bs) - int (length cs)) :: u32)"
        using m(2) True by (simp add: compare_string_def r la Let_def)
      then have "compare_string a b = int (length bs) - int (length cs)" unfolding int_of_difference [OF len] .
      then show ?thesis using p by simp
    qed
  qed
qed

lemma compare_is_lexicographic_witness:
  "compare_string (transient_string [97, 0, 98]) (transient_string [97, 0, 98, 0]) < 0 \<and>
   ([97, 0, 98] :: u8 list) < [97, 0, 98, 0]"
  using compare_is_lexicographic [OF transient_stands_for transient_stands_for, of "[97, 0, 98]" "[97, 0, 98, 0]"] by simp

text \<open>The bound is needed: the difference of the lengths is cut to 32 bits.\<close>

lemma compare_length_wraps:
  assumes "stands_for a (replicate (2 ^ 31) 0)" "stands_for b []"
  shows "compare_string a b < 0"
proof -
  have la: "unat (is_len a) = 2 ^ 31" "unat (is_len b) = 0" using stands_len [OF assms(1)] stands_len [OF assms(2)] by simp_all
  then have z: "is_len b = 0" by (simp add: unat_eq_0)
  have "pad 8 (replicate (2 ^ 31) 0) = pad 8 []" by (simp add: pad_bytes)
  then have "is_prefix a = is_prefix b" using assms by (simp add: stands_for_def)
  moreover have "is_len a > 0" using la(1) z by (simp add: word_less_nat_alt)
  ultimately show ?thesis using la z by (simp add: compare_string_def memcmp_same Let_def)
qed

text \<open>\<open>operator=\<close> between strings of one length overwrites the remainder after logging the source.\<close>

lemma assign_logs_source:
  assumes "stands_for dst cs" "stands_for src bs" "length cs = length bs" "8 < length bs"
  shows "snd (assign_string dst src) = [RemLogged (word_of_nat (length bs) - 8)]"
  using assms by (simp add: assign_string_def stands_for_def Let_def)

end
