(* ===== verification/Index_Iterator.thy ===== *)
theory Index_Iterator
  imports Avl_Locks Pm_List
begin

text \<open>
  The iterators of \<open>src/AvlTreeIndex.cc\<close>. An index is an AVL tree whose values are headers of lists; an
  iterator has the current node, the current cell of its list, and the path, a stack of the nodes that it
  returns to. Nodes are addresses, looked up in the tree as it is at the time of the call; a pointer that is
  null or points to no node of the tree is \<open>None\<close>. The functions that fill the path take it with the
  read locks they acquire. The path is a list with its top first.
\<close>

section \<open>Compare\<close>

datatype 'k compare = Compare (cmp_val: 'k) (cmp_equal: bool)

definition c_equals :: "'k::linorder compare \<Rightarrow> 'k \<Rightarrow> bool" where
  "c_equals c k \<longleftrightarrow> cmp_val c = k \<and> cmp_equal c"

definition c_lessthan :: "'k::linorder compare \<Rightarrow> 'k \<Rightarrow> bool" where
  "c_lessthan c k \<longleftrightarrow> cmp_val c < k"

definition c_lessthanequal :: "'k::linorder compare \<Rightarrow> 'k \<Rightarrow> bool" where
  "c_lessthanequal c k \<longleftrightarrow> cmp_val c < k \<or> c_equals c k"

definition c_greaterthan :: "'k::linorder compare \<Rightarrow> 'k \<Rightarrow> bool" where
  "c_greaterthan c k \<longleftrightarrow> cmp_val c > k"

definition c_greaterthanequal :: "'k::linorder compare \<Rightarrow> 'k \<Rightarrow> bool" where
  "c_greaterthanequal c k \<longleftrightarrow> cmp_val c > k \<or> c_equals c k"

section \<open>Filling the path\<close>

type_synonym scan = "addr list \<times> lock_item list"

definition visit :: "addr \<Rightarrow> scan \<Rightarrow> scan" where
  "visit a s = (fst s, snd s @ [NodeLock a])"

definition push :: "addr \<Rightarrow> scan \<Rightarrow> scan" where
  "push a s = (a # fst s, snd s)"

fun find_start :: "('k::linorder, 'v) avl \<Rightarrow> 'k compare \<Rightarrow> 'k compare \<Rightarrow> scan \<Rightarrow> scan" where
  "find_start Null cmin cmax s = s"
| "find_start (TreeNode a l r h k v) cmin cmax s =
     (if c_lessthan cmin k
      then find_start l cmin cmax (if c_greaterthanequal cmax k then push a (visit a s) else visit a s)
      else if c_equals cmin k then push a (visit a s)
      else find_start r cmin cmax (visit a s))"

fun add_right_tree :: "('k::linorder, 'v) avl \<Rightarrow> 'k compare \<Rightarrow> scan \<Rightarrow> scan" where
  "add_right_tree Null cmax s = s"
| "add_right_tree (TreeNode a l r h k v) cmax s =
     add_right_tree l cmax (if c_greaterthanequal cmax k then push a (visit a s) else visit a s)"

fun find_start_min :: "('k::linorder, 'v) avl \<Rightarrow> 'k compare \<Rightarrow> scan \<Rightarrow> scan" where
  "find_start_min Null cmax s = s"
| "find_start_min (TreeNode a l r h k v) cmax s =
     find_start_min l cmax (if c_greaterthanequal cmax k then push a (visit a s) else visit a s)"

fun find_start_max :: "('k::linorder, 'v) avl \<Rightarrow> 'k compare \<Rightarrow> scan \<Rightarrow> scan" where
  "find_start_max Null cmin s = s"
| "find_start_max (TreeNode a l r h k v) cmin s =
     (if c_lessthan cmin k then find_start_max l cmin (push a (visit a s))
      else if c_equals cmin k then push a (visit a s)
      else find_start_max r cmin (visit a s))"

fun add_full_right_tree :: "('k, 'v) avl \<Rightarrow> scan \<Rightarrow> scan" where
  "add_full_right_tree Null s = s"
| "add_full_right_tree (TreeNode a l r h k v) s = add_full_right_tree l (push a (visit a s))"

fun find_start_all :: "('k, 'v) avl \<Rightarrow> scan \<Rightarrow> scan" where
  "find_start_all Null s = s"
| "find_start_all (TreeNode a l r h k v) s = find_start_all l (push a (visit a s))"

text \<open>A child that is pushed on its own, with its lock.\<close>

fun push_child :: "('k, 'v) avl \<Rightarrow> scan \<Rightarrow> scan" where
  "push_child Null s = s"
| "push_child (TreeNode a l r h k v) s = push a (visit a s)"

fun add_nodes_neq :: "('k::linorder, 'v) avl \<Rightarrow> 'k \<Rightarrow> scan \<Rightarrow> scan" where
  "add_nodes_neq Null neq s = s"
| "add_nodes_neq (TreeNode a l r h k v) neq s =
     add_nodes_neq l neq (if neq \<noteq> k then push a (visit a s) else push_child r (visit a s))"

fun find_node_neq :: "('k::linorder, 'v) avl \<Rightarrow> 'k compare \<Rightarrow> 'k \<Rightarrow> scan \<Rightarrow> scan" where
  "find_node_neq Null cur neq s = s"
| "find_node_neq (TreeNode a l r h k v) cur neq s =
     (if neq = k then
        (if c_lessthan cur k then find_start_max l cur (visit a s)
         else if c_equals cur k then find_start_all r (visit a s)
         else find_start_max r cur (visit a s))
      else if c_lessthan cur k then find_node_neq l cur neq (push a (visit a s))
      else if c_greaterthan cur k then find_node_neq r cur neq (push a (visit a s))
      else push a (visit a s))"

subsection \<open>In reverse\<close>

fun find_start_reverse :: "('k::linorder, 'v) avl \<Rightarrow> 'k compare \<Rightarrow> 'k compare \<Rightarrow> scan \<Rightarrow> scan" where
  "find_start_reverse Null cmin cmax s = s"
| "find_start_reverse (TreeNode a l r h k v) cmin cmax s =
     (if c_greaterthan cmax k
      then find_start_reverse r cmin cmax (if c_lessthanequal cmin k then push a (visit a s) else visit a s)
      else if c_equals cmax k then push a (visit a s)
      else find_start_reverse l cmin cmax (visit a s))"

fun find_start_max_reverse :: "('k::linorder, 'v) avl \<Rightarrow> 'k compare \<Rightarrow> scan \<Rightarrow> scan" where
  "find_start_max_reverse Null cmin s = s"
| "find_start_max_reverse (TreeNode a l r h k v) cmin s =
     find_start_max_reverse r cmin (if c_lessthanequal cmin k then push a (visit a s) else visit a s)"

fun add_left_tree :: "('k::linorder, 'v) avl \<Rightarrow> 'k compare \<Rightarrow> scan \<Rightarrow> scan" where
  "add_left_tree Null cmin s = s"
| "add_left_tree (TreeNode a l r h k v) cmin s =
     add_left_tree r cmin (if c_lessthanequal cmin k then push a (visit a s) else visit a s)"

fun find_start_min_reverse :: "('k::linorder, 'v) avl \<Rightarrow> 'k compare \<Rightarrow> scan \<Rightarrow> scan" where
  "find_start_min_reverse Null cmax s = s"
| "find_start_min_reverse (TreeNode a l r h k v) cmax s =
     (if c_greaterthan cmax k then find_start_min_reverse r cmax (push a (visit a s))
      else if c_equals cmax k then push a (visit a s)
      else find_start_min_reverse l cmax (visit a s))"

fun find_start_all_reverse :: "('k, 'v) avl \<Rightarrow> scan \<Rightarrow> scan" where
  "find_start_all_reverse Null s = s"
| "find_start_all_reverse (TreeNode a l r h k v) s = find_start_all_reverse r (push a (visit a s))"

fun add_full_left_tree :: "('k, 'v) avl \<Rightarrow> scan \<Rightarrow> scan" where
  "add_full_left_tree Null s = s"
| "add_full_left_tree (TreeNode a l r h k v) s = add_full_left_tree r (push a (visit a s))"

fun add_nodes_neq_reverse :: "('k::linorder, 'v) avl \<Rightarrow> 'k \<Rightarrow> scan \<Rightarrow> scan" where
  "add_nodes_neq_reverse Null neq s = s"
| "add_nodes_neq_reverse (TreeNode a l r h k v) neq s =
     add_nodes_neq_reverse r neq (if neq \<noteq> k then push a (visit a s) else push_child l (visit a s))"

fun find_node_neq_reverse :: "('k::linorder, 'v) avl \<Rightarrow> 'k compare \<Rightarrow> 'k \<Rightarrow> scan \<Rightarrow> scan" where
  "find_node_neq_reverse Null cur neq s = s"
| "find_node_neq_reverse (TreeNode a l r h k v) cur neq s =
     (if neq = k then
        (if c_greaterthan cur k then find_start_min_reverse r cur (visit a s)
         else if c_equals cur k then find_start_all_reverse l (visit a s)
         else find_start_min_reverse l cur (visit a s))
      else if c_greaterthan cur k then find_node_neq_reverse r cur neq (push a (visit a s))
      else if c_lessthan cur k then find_node_neq_reverse l cur neq (push a (visit a s))
      else push a (visit a s))"

section \<open>The iterator\<close>

text \<open>The seven classes derived from \<open>Index_IteratorImplBase\<close>, with the key that each keeps.\<close>

datatype 'k it_class =
    IndexEq
  | IndexRange "'k compare"
  | IndexRangeNomax
  | IndexRangeNeq 'k
  | IndexRangeReverse "'k compare"
  | IndexRangeNomin
  | IndexRangeNeqReverse 'k

record 'k index_iterator =
  it_class :: "'k it_class"
  it_curr :: "addr option"
  it_path :: "addr list"
  it_list :: addr
  it_vacant :: bool
  it_locks :: "lock_item list"

type_synonym 'k index_tree = "('k, list_hdr) avl"

fun node_list :: "'k index_tree \<Rightarrow> list_hdr option" where
  "node_list Null = None"
| "node_list (TreeNode a l r h k v) = Some v"

text \<open>\<open>_curr = _path.top (); _path.pop (); _list_it.set (&_curr->value)\<close>.\<close>

definition take_top :: "'k index_tree \<Rightarrow> addr \<Rightarrow> addr list \<Rightarrow> 'k index_iterator \<Rightarrow> 'k index_iterator option" where
  "take_top t a p it =
     map_option (\<lambda>h. it\<lparr>it_curr := Some a, it_path := p, it_list := trav_set (Some h)\<rparr>) (node_list (subtree_at a t))"

definition finish_init :: "'k index_tree \<Rightarrow> 'k index_iterator \<Rightarrow> 'k index_iterator option" where
  "finish_init t it = (case it_path it of [] \<Rightarrow> Some it | a # p \<Rightarrow> take_top t a p it)"

text \<open>\<open>_next\<close>: a null \<open>_curr\<close> is dereferenced by every class but \<open>IndexEq\<close>.\<close>

fun children :: "('k, 'v) avl \<Rightarrow> (('k, 'v) avl \<times> ('k, 'v) avl) option" where
  "children Null = None"
| "children (TreeNode a l r h k v) = Some (l, r)"

definition deref :: "('k, 'v) avl \<Rightarrow> addr option \<Rightarrow> ('k, 'v) avl" where
  "deref t c = (case c of None \<Rightarrow> Null | Some a \<Rightarrow> subtree_at a t)"

definition next_nodes :: "('k::linorder, 'v) avl \<Rightarrow> 'k it_class \<Rightarrow> addr option \<Rightarrow> scan \<Rightarrow> scan option" where
  "next_nodes t c cur s =
     (if c = IndexEq then Some s
      else map_option (\<lambda>(l, r).
        case c of
          IndexEq \<Rightarrow> s
        | IndexRange cmax \<Rightarrow> add_right_tree r cmax s
        | IndexRangeNomax \<Rightarrow> add_full_right_tree r s
        | IndexRangeNeq neq \<Rightarrow> add_nodes_neq r neq s
        | IndexRangeReverse cmin \<Rightarrow> add_left_tree l cmin s
        | IndexRangeNomin \<Rightarrow> add_full_left_tree l s
        | IndexRangeNeqReverse neq \<Rightarrow> add_nodes_neq_reverse l neq s) (children (deref t cur)))"

text \<open>\<open>find_node\<close>: the path to the key \<open>cur\<close>.\<close>

definition find_node :: "('k::linorder, 'v) avl \<Rightarrow> 'k it_class \<Rightarrow> 'k compare \<Rightarrow> scan \<Rightarrow> scan" where
  "find_node t c cur s =
     (case c of
        IndexEq \<Rightarrow> s
      | IndexRange cmax \<Rightarrow> find_start t cur cmax s
      | IndexRangeNomax \<Rightarrow> find_start_max t cur s
      | IndexRangeNeq neq \<Rightarrow> find_node_neq t cur neq s
      | IndexRangeReverse cmin \<Rightarrow> find_start_reverse t cmin cur s
      | IndexRangeNomin \<Rightarrow> find_start_min_reverse t cur s
      | IndexRangeNeqReverse neq \<Rightarrow> find_node_neq_reverse t cur neq s)"

definition it_bool :: "'k index_iterator \<Rightarrow> bool" where
  "it_bool it \<longleftrightarrow> it_vacant it \<or> it_list it \<noteq> 0"

text \<open>The part of \<open>next\<close> after the test of \<open>_vacant_flag\<close>.\<close>

definition advance ::
    "'k::linorder index_tree \<Rightarrow> (addr \<Rightarrow> 'e cell) \<Rightarrow> 'k index_iterator \<Rightarrow> (bool \<times> 'k index_iterator) option" where
  "advance t m it =
     (case trav_next m (it_list it) of None \<Rightarrow> None
      | Some p \<Rightarrow>
          (let it1 = it\<lparr>it_list := p\<rparr>
           in if p \<noteq> 0 then Some (True, it1)
              else case next_nodes t (it_class it) (it_curr it) (it_path it, it_locks it) of None \<Rightarrow> None
                | Some (path, locks) \<Rightarrow>
                    (case path of
                       [] \<Rightarrow> Some (False, it1\<lparr>it_path := [], it_locks := locks\<rparr>)
                     | a # q \<Rightarrow> map_option (Pair True) (take_top t a q (it1\<lparr>it_locks := locks\<rparr>)))))"

definition it_next ::
    "'k::linorder index_tree \<Rightarrow> (addr \<Rightarrow> 'e cell) \<Rightarrow> 'k index_iterator \<Rightarrow> (bool \<times> 'k index_iterator) option" where
  "it_next t m it =
     (if it_vacant it then (let it1 = it\<lparr>it_vacant := False\<rparr> in Some (it_bool it1, it1))
      else advance t m it)"

text \<open>\<open>ref\<close>: the element; the lock on it is taken by the caller's kind of index.\<close>

definition it_ref :: "(addr \<Rightarrow> 'e cell) \<Rightarrow> 'k index_iterator \<Rightarrow> 'e result option" where
  "it_ref m it = (if it_vacant it then Some (Inl VacantIterator) else map_option Inr (trav_ref m (it_list it)))"

definition remove_notify ::
    "'k::linorder index_tree \<Rightarrow> (addr \<Rightarrow> 'e cell) \<Rightarrow> addr \<Rightarrow> 'k index_iterator \<Rightarrow> 'k index_iterator option" where
  "remove_notify t m list_node it =
     (if list_node = it_list it
      then map_option (\<lambda>(b, it1). it1\<lparr>it_vacant := True\<rparr>) (it_next t m (it\<lparr>it_vacant := False\<rparr>))
      else Some it)"

text \<open>\<open>rebalance_notify\<close>, for the tree that the iterator is on; an empty path is the failed assertion.\<close>

definition rebalance_notify :: "'k::linorder index_tree \<Rightarrow> 'k index_iterator \<Rightarrow> 'k index_iterator option" where
  "rebalance_notify t it =
     (if it_curr it \<noteq> None \<and> it_list it \<noteq> 0 then
        (case root_key (deref t (it_curr it)) of None \<Rightarrow> None
         | Some k \<Rightarrow>
             (case find_node t (it_class it) (Compare k True) ([], it_locks it) of
                ([], locks) \<Rightarrow> None
              | (a # q, locks) \<Rightarrow> Some (it\<lparr>it_curr := Some a, it_path := q, it_locks := locks\<rparr>)))
      else Some it)"

section \<open>Construction\<close>

definition new_iterator :: "'k index_tree \<Rightarrow> 'k it_class \<Rightarrow> scan \<Rightarrow> 'k index_iterator option" where
  "new_iterator t c s =
     finish_init t \<lparr>it_class = c, it_curr = None, it_path = fst s, it_list = 0, it_vacant = False, it_locks = snd s\<rparr>"

definition index_lock :: scan where
  "index_lock = ([], [IndexItself])"

text \<open>\<open>PropertyPredicate::Op\<close>.\<close>

datatype op = DontCare | Eq | Ne | Gt | Ge | Lt | Le | GeLe | GeLt | GtLe | GtLt

definition get_iterator_all :: "'k::linorder index_tree \<Rightarrow> bool \<Rightarrow> 'k index_iterator option" where
  "get_iterator_all t reverse =
     (if \<not> reverse then new_iterator t IndexRangeNomax (find_start_all t index_lock)
      else new_iterator t IndexRangeNomin (find_start_all_reverse t index_lock))"

text \<open>\<open>IndexEq\<close>: the path stays empty and the list is that of the key, if there is one.\<close>

definition new_eq_iterator :: "'k::linorder index_tree \<Rightarrow> 'k \<Rightarrow> 'k index_iterator" where
  "new_eq_iterator t key =
     (let (found, locks) = get_locks_find key t
      in \<lparr>it_class = IndexEq, it_curr = None, it_path = [], it_list = trav_set (map_option snd found), it_vacant = False,
          it_locks = IndexItself # IndexItself # map NodeLock locks\<rparr>)"

text \<open>Other operators are excluded by the caller: the assertion.\<close>

definition get_iterator_op :: "'k::linorder index_tree \<Rightarrow> 'k \<Rightarrow> op \<Rightarrow> bool \<Rightarrow> 'k index_iterator option" where
  "get_iterator_op t key oper reverse =
     (case oper of
        Eq \<Rightarrow> Some (new_eq_iterator t key)
      | Ne \<Rightarrow>
          if \<not> reverse then new_iterator t (IndexRangeNeq key) (add_nodes_neq t key index_lock)
          else new_iterator t (IndexRangeNeqReverse key) (add_nodes_neq_reverse t key index_lock)
      | Lt \<Rightarrow>
          if \<not> reverse then new_iterator t (IndexRange (Compare key False)) (find_start_min t (Compare key False) index_lock)
          else new_iterator t IndexRangeNomin (find_start_min_reverse t (Compare key False) index_lock)
      | Le \<Rightarrow>
          if \<not> reverse then new_iterator t (IndexRange (Compare key True)) (find_start_min t (Compare key True) index_lock)
          else new_iterator t IndexRangeNomin (find_start_min_reverse t (Compare key True) index_lock)
      | Gt \<Rightarrow>
          if \<not> reverse then new_iterator t IndexRangeNomax (find_start_max t (Compare key False) index_lock)
          else new_iterator t (IndexRangeReverse (Compare key False)) (find_start_max_reverse t (Compare key False) index_lock)
      | Ge \<Rightarrow>
          if \<not> reverse then new_iterator t IndexRangeNomax (find_start_max t (Compare key True) index_lock)
          else new_iterator t (IndexRangeReverse (Compare key True)) (find_start_max_reverse t (Compare key True) index_lock)
      | _ \<Rightarrow> None)"

definition get_iterator_range :: "'k::linorder index_tree \<Rightarrow> 'k \<Rightarrow> 'k \<Rightarrow> op \<Rightarrow> bool \<Rightarrow> 'k index_iterator option" where
  "get_iterator_range t kmin kmax oper reverse =
     (let cmin = Compare kmin (oper \<noteq> GtLt \<and> oper \<noteq> GtLe);
          cmax = Compare kmax (oper \<noteq> GtLt \<and> oper \<noteq> GeLt)
      in if \<not> reverse then new_iterator t (IndexRange cmax) (find_start t cmin cmax index_lock)
         else new_iterator t (IndexRangeReverse cmin) (find_start_reverse t cmin cmax index_lock))"

text \<open>What a loop over the iterator sees: the element, then \<open>next\<close> until there is none.\<close>

partial_function (option) elements ::
    "'k::linorder index_tree \<Rightarrow> (addr \<Rightarrow> 'e cell) \<Rightarrow> 'k index_iterator \<Rightarrow> 'e list option" where
  "elements t m it =
     (if \<not> it_bool it then Some []
      else case it_ref m it of
          Some (Inr x) \<Rightarrow>
            Option.bind (it_next t m it) (\<lambda>(b, it1). Option.bind (elements t m it1) (\<lambda>xs. Some (x # xs)))
        | _ \<Rightarrow> Option.bind (it_next t m it) (\<lambda>(b, it1). elements t m it1))"

end
