(* ===== verification/Index_Scan.thy ===== *)
theory Index_Scan
  imports Index_Iterator
begin

text \<open>
  What the path of an iterator stands for. Both directions are treated at once: \<open>d\<close> is reverse, and
  \<open>dents d\<close> are the entries of a tree in the iterator's order. \<open>spine\<close> and \<open>seek\<close> are the stacks that the
  functions of \<open>Index_Iterator\<close> push, \<open>pending\<close> the entries that a stack still yields: each node, and behind
  it those of its second subtree that are in range.
\<close>

section \<open>Entries in the iterator's order\<close>

definition first :: "bool \<Rightarrow> 'a \<Rightarrow> 'a \<Rightarrow> 'a" where
  "first d l r = (if d then r else l)"

definition second :: "bool \<Rightarrow> 'a \<Rightarrow> 'a \<Rightarrow> 'a" where
  "second d l r = (if d then l else r)"

definition before :: "bool \<Rightarrow> 'k::linorder \<Rightarrow> 'k \<Rightarrow> bool" where
  "before d k k' \<longleftrightarrow> (if d then k' < k else k < k')"

definition dents :: "bool \<Rightarrow> ('k, 'v) avl \<Rightarrow> ('k \<times> addr \<times> 'v) list" where
  "dents d t = (if d then rev (ents t) else ents t)"

lemma dents_simps [simp]:
  "dents d Null = []"
  "dents d (TreeNode a l r h k v) = dents d (first d l r) @ (k, a, v) # dents d (second d l r)"
  by (simp_all add: dents_def first_def second_def)

lemma set_dents [simp]: "set (dents d t) = set (ents t)"
  by (simp add: dents_def)

lemma before_linear: "k = k' \<or> before d k k' \<or> before d k' k"
  by (auto simp: before_def)

lemma before_irrefl [simp]: "\<not> before d k k"
  by (simp add: before_def)

lemma before_trans: "before d j k \<Longrightarrow> before d k m \<Longrightarrow> before d j m"
  by (auto simp: before_def split: if_splits)

lemma before_asym: "before d j k \<Longrightarrow> \<not> before d k j"
  by (auto simp: before_def split: if_splits)

lemma bst_children:
  assumes "bst (TreeNode a l r h k v)"
  shows "bst (first d l r)" "bst (second d l r)"
    "e \<in> set (ents (first d l r)) \<Longrightarrow> before d (fst e) k" "e \<in> set (ents (second d l r)) \<Longrightarrow> before d k (fst e)"
  using assms ents_bst [OF assms] by (auto simp: first_def second_def before_def)

lemma distinct_children:
  assumes "distinct_addrs (TreeNode a l r h k v)"
  shows "distinct_addrs (first d l r)" "distinct_addrs (second d l r)"
    "a \<notin> addrs (first d l r)" "a \<notin> addrs (second d l r)" "addrs (first d l r) \<inter> addrs (second d l r) = {}"
  using assms by (auto simp: first_def second_def)

lemma addrs_children: "addrs (TreeNode a l r h k v) = insert a (addrs (first d l r) \<union> addrs (second d l r))"
  by (auto simp: first_def second_def)

lemma addrs_ents: "addrs t = (\<lambda>e. fst (snd e)) ` set (ents t)"
  by (induction t) auto

section \<open>Subtrees\<close>

lemma subtree_at_child:
  assumes "distinct_addrs (TreeNode a l r h k v)"
  shows "b \<in> addrs (first d l r) \<Longrightarrow> subtree_at b (TreeNode a l r h k v) = subtree_at b (first d l r)"
    "b \<in> addrs (second d l r) \<Longrightarrow> subtree_at b (TreeNode a l r h k v) = subtree_at b (second d l r)"
  using assms by (cases d; auto simp: first_def second_def disjoint_iff)+

lemma subtree_at_out: "b \<notin> addrs t \<Longrightarrow> subtree_at b t = Null"
  by (induction t) auto

lemma subtree_at_node:
  "b \<in> addrs t \<Longrightarrow> \<exists>l r h k v. subtree_at b t = TreeNode b l r h k v \<and> (k, b, v) \<in> set (ents t)"
  by (induction t) auto

lemma subtree_at_props:
  "distinct_addrs t \<Longrightarrow> bst t \<Longrightarrow> distinct_addrs (subtree_at b t) \<and> bst (subtree_at b t) \<and> set (ents (subtree_at b t)) \<subseteq> set (ents t)"
  by (induction t) auto

lemma subtree_at_trans:
  "distinct_addrs t \<Longrightarrow> a \<in> addrs (subtree_at b t) \<Longrightarrow> subtree_at a t = subtree_at a (subtree_at b t)"
proof (induction t)
  case (TreeNode c l r h k v)
  have sub: "addrs (subtree_at b s) \<subseteq> addrs s" for s :: "('a, 'b) avl" by (induction s) auto
  show ?case
  proof (cases "b = c")
    case False
    then show ?thesis using TreeNode sub [of l] sub [of r] by (cases "b \<in> addrs l") auto
  qed simp
qed simp

text \<open>\<open>s\<close> is a part of \<open>t\<close>: its nodes are found in \<open>t\<close>.\<close>

definition part_of :: "('k, 'v) avl \<Rightarrow> ('k, 'v) avl \<Rightarrow> bool" where
  "part_of s t \<longleftrightarrow> distinct_addrs s \<and> (\<forall>a\<in>addrs s. subtree_at a t = subtree_at a s)"

lemma part_of_refl: "distinct_addrs t \<Longrightarrow> part_of t t"
  by (simp add: part_of_def)

lemma part_of_children:
  assumes "part_of (TreeNode a l r h k v) t"
  shows "part_of (first d l r) t" "part_of (second d l r) t"
  using assms subtree_at_child [of a l r h k v _ d] distinct_children [of a l r h k v d]
  unfolding part_of_def addrs_children [of a l r h k v d] by auto

lemma part_of_at: "distinct_addrs t \<Longrightarrow> bst t \<Longrightarrow> part_of (subtree_at b t) t"
  using subtree_at_props subtree_at_trans unfolding part_of_def by blast

section \<open>Stacks\<close>

fun spine :: "bool \<Rightarrow> ('k \<Rightarrow> bool) \<Rightarrow> ('k, 'v) avl \<Rightarrow> addr list" where
  "spine d R Null = []"
| "spine d R (TreeNode a l r h k v) = (if d then spine d R r else spine d R l) @ (if R k then [a] else [])"

fun seek :: "bool \<Rightarrow> ('k \<Rightarrow> bool) \<Rightarrow> ('k \<Rightarrow> bool) \<Rightarrow> ('k \<Rightarrow> bool) \<Rightarrow> ('k, 'v) avl \<Rightarrow> addr list" where
  "seek d lt eq R Null = []"
| "seek d lt eq R (TreeNode a l r h k v) =
     (if lt k then (if d then seek d lt eq R r else seek d lt eq R l) @ (if R k then [a] else [])
      else if eq k then [a]
      else if d then seek d lt eq R l else seek d lt eq R r)"

lemma spine_node: "spine d R (TreeNode a l r h k v) = spine d R (first d l r) @ (if R k then [a] else [])"
  by (simp add: first_def)

lemma seek_node:
  "seek d lt eq R (TreeNode a l r h k v) =
     (if lt k then seek d lt eq R (first d l r) @ (if R k then [a] else [])
      else if eq k then [a]
      else seek d lt eq R (second d l r))"
  by (simp add: first_def second_def)

lemma path_add_right_tree: "fst (add_right_tree t c s) = spine False (c_greaterthanequal c) t @ fst s"
  by (induction t arbitrary: s) (simp_all add: push_def visit_def)

lemma path_find_start_min: "fst (find_start_min t c s) = spine False (c_greaterthanequal c) t @ fst s"
  by (induction t arbitrary: s) (simp_all add: push_def visit_def)

lemma path_add_full_right_tree: "fst (add_full_right_tree t s) = spine False (\<lambda>_. True) t @ fst s"
  by (induction t arbitrary: s) (simp_all add: push_def visit_def)

lemma path_find_start_all: "fst (find_start_all t s) = spine False (\<lambda>_. True) t @ fst s"
  by (induction t arbitrary: s) (simp_all add: push_def visit_def)

lemma path_add_left_tree: "fst (add_left_tree t c s) = spine True (c_lessthanequal c) t @ fst s"
  by (induction t arbitrary: s) (simp_all add: push_def visit_def)

lemma path_find_start_max_reverse: "fst (find_start_max_reverse t c s) = spine True (c_lessthanequal c) t @ fst s"
  by (induction t arbitrary: s) (simp_all add: push_def visit_def)

lemma path_add_full_left_tree: "fst (add_full_left_tree t s) = spine True (\<lambda>_. True) t @ fst s"
  by (induction t arbitrary: s) (simp_all add: push_def visit_def)

lemma path_find_start_all_reverse: "fst (find_start_all_reverse t s) = spine True (\<lambda>_. True) t @ fst s"
  by (induction t arbitrary: s) (simp_all add: push_def visit_def)

lemma path_find_start:
  "fst (find_start t cmin cmax s) = seek False (c_lessthan cmin) (c_equals cmin) (c_greaterthanequal cmax) t @ fst s"
  by (induction t arbitrary: s) (simp_all add: push_def visit_def)

lemma path_find_start_max:
  "fst (find_start_max t cmin s) = seek False (c_lessthan cmin) (c_equals cmin) (\<lambda>_. True) t @ fst s"
  by (induction t arbitrary: s) (simp_all add: push_def visit_def)

lemma path_find_start_reverse:
  "fst (find_start_reverse t cmin cmax s) = seek True (c_greaterthan cmax) (c_equals cmax) (c_lessthanequal cmin) t @ fst s"
  by (induction t arbitrary: s) (simp_all add: push_def visit_def)

lemma path_find_start_min_reverse:
  "fst (find_start_min_reverse t cmax s) = seek True (c_greaterthan cmax) (c_equals cmax) (\<lambda>_. True) t @ fst s"
  by (induction t arbitrary: s) (simp_all add: push_def visit_def)

lemmas path_simps =
  path_add_right_tree path_find_start_min path_add_full_right_tree path_find_start_all path_add_left_tree
  path_find_start_max_reverse path_add_full_left_tree path_find_start_all_reverse path_find_start path_find_start_max
  path_find_start_reverse path_find_start_min_reverse

declare spine.simps(2) [simp del] seek.simps(2) [simp del]

section \<open>Pending entries\<close>

fun node_pending :: "bool \<Rightarrow> ('k \<Rightarrow> bool) \<Rightarrow> ('k, 'v) avl \<Rightarrow> ('k \<times> addr \<times> 'v) list" where
  "node_pending d R Null = []"
| "node_pending d R (TreeNode a l r h k v) = (k, a, v) # filter (\<lambda>e. R (fst e)) (dents d (second d l r))"

definition pending :: "bool \<Rightarrow> ('k \<Rightarrow> bool) \<Rightarrow> ('k, 'v) avl \<Rightarrow> addr list \<Rightarrow> ('k \<times> addr \<times> 'v) list" where
  "pending d R t as = concat (map (\<lambda>a. node_pending d R (subtree_at a t)) as)"

lemma pending_simps [simp]:
  "pending d R t [] = []"
  "pending d R t (a # as) = node_pending d R (subtree_at a t) @ pending d R t as"
  "pending d R t (as @ bs) = pending d R t as @ pending d R t bs"
  by (simp_all add: pending_def)

text \<open>The far end of the range: whatever comes before an entry in the range is not beyond it.\<close>

definition downward :: "bool \<Rightarrow> ('k::linorder \<Rightarrow> bool) \<Rightarrow> bool" where
  "downward d R \<longleftrightarrow> (\<forall>k k'. before d k k' \<and> R k' \<longrightarrow> R k)"

definition seeks :: "bool \<Rightarrow> ('k::linorder \<Rightarrow> bool) \<Rightarrow> ('k \<Rightarrow> bool) \<Rightarrow> bool" where
  "seeks d lt eq \<longleftrightarrow>
     (\<forall>k k'. before d k k' \<and> (lt k \<or> eq k) \<longrightarrow> lt k') \<and>
     (\<forall>k k'. before d k' k \<and> \<not> lt k \<longrightarrow> \<not> lt k' \<and> \<not> eq k')"

lemma beyond:
  assumes "bst (TreeNode a l r h k v)" "downward d R" "\<not> R k"
  shows "filter (\<lambda>e. R (fst e)) (dents d (second d l r)) = []"
proof -
  have "\<not> R (fst e)" if "e \<in> set (ents (second d l r))" for e
    using bst_children(4) [OF assms(1) that] assms(2, 3) unfolding downward_def by blast
  then show ?thesis by (simp add: filter_empty_conv)
qed

lemma spine_pending:
  assumes "part_of s t" "bst s" "downward d R"
  shows "pending d R t (spine d R s) = filter (\<lambda>e. R (fst e)) (dents d s)"
  using assms(1, 2)
proof (induction s rule: measure_induct_rule [where f = size])
  case (less s)
  show ?case
  proof (cases s)
    case (TreeNode a l r h k v)
    have "size (first d l r) < size s" by (simp add: first_def TreeNode)
    then have ih: "pending d R t (spine d R (first d l r)) = filter (\<lambda>e. R (fst e)) (dents d (first d l r))"
      using less part_of_children(1) [of a l r h k v t d] bst_children(1) [of a l r h k v d] by (simp add: TreeNode spine_node seek_node)
    have at: "subtree_at a t = s" using less.prems(1) by (simp add: part_of_def TreeNode)
    show ?thesis
    proof (cases "R k")
      case True
      then show ?thesis using ih at by (simp add: TreeNode spine_node seek_node)
    next
      case False
      then show ?thesis using ih beyond [of a l r h k v d R] less.prems(2) assms(3) by (simp add: TreeNode spine_node seek_node)
    qed
  qed simp
qed

lemma seek_pending:
  assumes "part_of s t" "bst s" "downward d R" "seeks d lt eq" "\<forall>k. eq k \<longrightarrow> R k"
  shows "pending d R t (seek d lt eq R s) = filter (\<lambda>e. (lt (fst e) \<or> eq (fst e)) \<and> R (fst e)) (dents d s)"
  using assms(1, 2)
proof (induction s rule: measure_induct_rule [where f = size])
  case (less s)
  let ?Q = "\<lambda>e. (lt (fst e) \<or> eq (fst e)) \<and> R (fst e)"
  show ?case
  proof (cases s)
    case (TreeNode a l r h k v)
    have sizes: "size (first d l r) < size s" "size (second d l r) < size s" by (simp_all add: first_def second_def TreeNode)
    have b: "bst (TreeNode a l r h k v)" using less.prems(2) by (simp add: TreeNode spine_node seek_node)
    have ih: "pending d R t (seek d lt eq R (first d l r)) = filter ?Q (dents d (first d l r))"
      "pending d R t (seek d lt eq R (second d l r)) = filter ?Q (dents d (second d l r))"
      using less sizes part_of_children [of a l r h k v t d] bst_children(1, 2) [OF b, of d] by (simp_all add: TreeNode spine_node seek_node)
    have at: "subtree_at a t = s" using less.prems(1) by (simp add: part_of_def TreeNode)
    have late: "filter ?Q (dents d (second d l r)) = filter (\<lambda>e. R (fst e)) (dents d (second d l r))" if "lt k \<or> eq k"
    proof (rule filter_cong [OF refl])
      fix e assume "e \<in> set (dents d (second d l r))"
      then have "before d k (fst e)" using bst_children(4) [OF b, of e d] by simp
      then have "lt (fst e)" using that assms(4) unfolding seeks_def by blast
      then show "?Q e = R (fst e)" by simp
    qed
    have early: "filter ?Q (dents d (first d l r)) = []" if "\<not> lt k"
    proof -
      have "\<not> lt (fst e) \<and> \<not> eq (fst e)" if "e \<in> set (ents (first d l r))" for e
        using bst_children(3) [OF b that] \<open>\<not> lt k\<close> assms(4) unfolding seeks_def by blast
      then show ?thesis by (simp add: filter_empty_conv)
    qed
    consider "lt k" "R k" | "lt k" "\<not> R k" | "\<not> lt k" "eq k" | "\<not> lt k" "\<not> eq k" by blast
    then show ?thesis
    proof cases
      case 1
      then show ?thesis using ih(1) at late by (simp add: TreeNode spine_node seek_node)
    next
      case 2
      then show ?thesis using ih(1) late beyond [OF b assms(3)] by (simp add: TreeNode spine_node seek_node)
    next
      case 3
      then show ?thesis using at late early assms(5) by (simp add: TreeNode spine_node seek_node)
    next
      case 4
      then show ?thesis using ih(2) early by (simp add: TreeNode spine_node seek_node)
    qed
  qed simp
qed

end
