(* ===== verification/Index_Range_Laws.thy ===== *)
theory Index_Range_Laws
  imports Index_Scan
begin

text \<open>
  What a loop over an iterator sees: the elements of the lists of exactly the entries in the range, in key
  order or in reverse, each once, and the loop ends. This holds for all classes but those for \<open>Ne\<close>, which
  skip entries, and for ranges that are not empty by their bounds.
\<close>

section \<open>The classes with a range\<close>

fun class_dir :: "'k it_class \<Rightarrow> bool" where
  "class_dir (IndexRangeReverse c) = True"
| "class_dir IndexRangeNomin = True"
| "class_dir (IndexRangeNeqReverse neq) = True"
| "class_dir c = False"

fun class_range :: "'k::linorder it_class \<Rightarrow> 'k \<Rightarrow> bool" where
  "class_range (IndexRange cmax) k = c_greaterthanequal cmax k"
| "class_range (IndexRangeReverse cmin) k = c_lessthanequal cmin k"
| "class_range c k = True"

fun ranged :: "'k it_class \<Rightarrow> bool" where
  "ranged (IndexRange c) = True"
| "ranged IndexRangeNomax = True"
| "ranged (IndexRangeReverse c) = True"
| "ranged IndexRangeNomin = True"
| "ranged c = False"

lemma downward_ge: "downward False (c_greaterthanequal c)"
  by (auto simp: downward_def before_def c_greaterthanequal_def c_equals_def)

lemma downward_le: "downward True (c_lessthanequal c)"
  by (auto simp: downward_def before_def c_lessthanequal_def c_equals_def)

lemma downward_all: "downward d (\<lambda>_. True)"
  by (simp add: downward_def)

lemma class_range_eqs:
  "class_range (IndexRange c) = c_greaterthanequal c" "class_range (IndexRangeReverse c) = c_lessthanequal c"
  "class_range IndexRangeNomax = (\<lambda>_. True)" "class_range IndexRangeNomin = (\<lambda>_. True)"
  by (simp_all add: fun_eq_iff)

lemma downward_class: "ranged c \<Longrightarrow> downward (class_dir c) (class_range c)"
  by (cases c) (simp_all add: class_range_eqs downward_ge downward_le downward_all)

lemma next_nodes_path:
  assumes "ranged c" "subtree_at a t = TreeNode a l r h k v"
  obtains lk' where "next_nodes t c (Some a) (p, lk) = Some (spine (class_dir c) (class_range c) (second (class_dir c) l r) @ p, lk')"
proof -
  have "\<exists>s. next_nodes t c (Some a) (p, lk) = Some s \<and> fst s = spine (class_dir c) (class_range c) (second (class_dir c) l r) @ p"
    using assms by (cases c) (simp_all add: next_nodes_def deref_def second_def class_range_eqs path_simps)
  then show ?thesis using that by force
qed

section \<open>The loop\<close>

text \<open>\<open>cs k\<close> are the cells of the list of key \<open>k\<close>.\<close>

definition lists_ok :: "'k index_tree \<Rightarrow> (addr \<Rightarrow> 'e cell) \<Rightarrow> ('k \<Rightarrow> addr list) \<Rightarrow> bool" where
  "lists_ok t m cs \<longleftrightarrow> (\<forall>e\<in>set (ents t). links m (l_head (snd (snd e))) (cs (fst e)) \<and> cs (fst e) \<noteq> [])"

definition entry_elements :: "(addr \<Rightarrow> 'e cell) \<Rightarrow> ('k \<Rightarrow> addr list) \<Rightarrow> ('k \<times> addr \<times> list_hdr) list \<Rightarrow> 'e list" where
  "entry_elements m cs es = concat (map (\<lambda>e. cell_contents m (cs (fst e))) es)"

lemma entry_elements_simps [simp]:
  "entry_elements m cs [] = []" "entry_elements m cs (e # es) = cell_contents m (cs (fst e)) @ entry_elements m cs es"
  by (simp_all add: entry_elements_def)

lemma spine_addrs: "set (spine d R t) \<subseteq> addrs t"
  by (induction t) (auto simp: spine_node first_def)

lemma seek_addrs: "set (seek d lt eq R t) \<subseteq> addrs t"
  by (induction t) (auto simp: seek_node first_def second_def)

lemma addrs_subtree: "addrs (subtree_at b t) \<subseteq> addrs t"
  by (induction t) auto

lemma part_of_second:
  assumes "distinct_addrs t" "bst t" "subtree_at a t = TreeNode a l r h k v"
  shows "part_of (second d l r) t" "bst (second d l r)" "addrs (second d l r) \<subseteq> addrs t"
proof -
  have p: "part_of (TreeNode a l r h k v) t" "bst (TreeNode a l r h k v)"
    using part_of_at [OF assms(1, 2), of a] subtree_at_props [OF assms(1, 2), of a] unfolding assms(3) by blast+
  show "part_of (second d l r) t" "bst (second d l r)" using part_of_children(2) [OF p(1)] bst_children(2) [OF p(2)] by blast+
  show "addrs (second d l r) \<subseteq> addrs t" using addrs_subtree [of a t] unfolding assms(3) by (auto simp: second_def)
qed

lemma take_top_ok:
  assumes "b \<in> addrs t" "lists_ok t m cs"
  obtains l r h k v where "subtree_at b t = TreeNode b l r h k v" "links m (l_head v) (cs k)" "cs k \<noteq> []"
    "take_top t b q it = Some (it\<lparr>it_curr := Some b, it_path := q, it_list := l_head v\<rparr>)"
proof -
  obtain l r h k v where n: "subtree_at b t = TreeNode b l r h k v" "(k, b, v) \<in> set (ents t)"
    using subtree_at_node [OF assms(1)] by blast
  moreover have "links m (l_head v) (cs k)" "cs k \<noteq> []" using n(2) assms(2) by (force simp: lists_ok_def)+
  ultimately show ?thesis using that by (simp add: take_top_def trav_set_def)
qed

text \<open>
  The loop, for any class: \<open>nx a\<close> is what \<open>_next\<close> pushes at the node \<open>a\<close>, \<open>pend\<close> the entries a stack yields.
\<close>

definition scans ::
    "'k::linorder index_tree \<Rightarrow> 'k it_class \<Rightarrow> (addr \<Rightarrow> addr list) \<Rightarrow> (addr list \<Rightarrow> ('k \<times> addr \<times> list_hdr) list) \<Rightarrow> bool" where
  "scans t c nx pend \<longleftrightarrow> pend [] = [] \<and>
     (\<forall>a\<in>addrs t. set (nx a) \<subseteq> addrs t \<and> (\<forall>p lk. \<exists>lk'. next_nodes t c (Some a) (p, lk) = Some (nx a @ p, lk')) \<and>
       (\<forall>l r h k v q. subtree_at a t = TreeNode a l r h k v \<longrightarrow> pend (a # q) = (k, a, v) # pend (nx a @ q)))"

lemma elements_from:
  assumes sc: "scans t c nx pend" and ls: "lists_ok t m cs"
  shows "it_class it = c \<Longrightarrow> \<not> it_vacant it \<Longrightarrow> it_curr it = Some a \<Longrightarrow> a \<in> addrs t \<Longrightarrow>
    set (it_path it) \<subseteq> addrs t \<Longrightarrow> links m (it_list it) as \<Longrightarrow> as \<noteq> [] \<Longrightarrow> es = pend (nx a @ it_path it) \<Longrightarrow>
    elements t m it = Some (cell_contents m as @ entry_elements m cs es)"
proof (induction es arbitrary: it a as rule: measure_induct_rule [where f = length])
  case (less es)
  note outer = less.IH
  show ?case
    using less.prems
  proof (induction as arbitrary: it)
    case (Cons x as)
    have p: "it_list it = x" "x \<noteq> 0" "links m (cell_next (m x)) as" using Cons.prems(6) by auto
    have step: "elements t m it =
      Option.bind (it_next t m it) (\<lambda>(b, it1). Option.bind (elements t m it1) (\<lambda>xs. Some (cell_value (m x) # xs)))"
      using p Cons.prems(2) by (subst elements.simps) (simp add: it_bool_def it_ref_def trav_ref_def)
    have nx: "it_next t m it = advance t m it" using Cons.prems(2) by (simp add: it_next_def)
    show ?case
    proof (cases "as = []")
      case False
      then have nz: "cell_next (m x) \<noteq> 0" using p(3) by (cases as) auto
      let ?it = "it\<lparr>it_list := cell_next (m x)\<rparr>"
      have "it_next t m it = Some (True, ?it)" using nz p by (simp add: nx advance_def trav_next_def)
      moreover have "elements t m ?it = Some (cell_contents m as @ entry_elements m cs es)"
        by (rule Cons.IH) (use Cons.prems p(3) False in simp_all)
      ultimately show ?thesis using step by simp
    next
      case True
      then have z: "cell_next (m x) = 0" using p(3) by simp
      obtain lk' where nn: "next_nodes t c (Some a) (it_path it, it_locks it) = Some (nx a @ it_path it, lk')"
        using sc Cons.prems(4) unfolding scans_def by blast
      have sub: "set (nx a @ it_path it) \<subseteq> addrs t" using sc Cons.prems(4, 5) by (simp add: scans_def)
      show ?thesis
      proof (cases "nx a @ it_path it")
        case Nil
        then have "it_next t m it = Some (False, it\<lparr>it_list := 0, it_path := [], it_locks := lk'\<rparr>)"
          using nn p z Cons.prems(1, 3) by (simp add: nx advance_def trav_next_def)
        moreover have "elements t m (it\<lparr>it_list := 0, it_path := [], it_locks := lk'\<rparr>) = Some []"
          using Cons.prems(2) by (subst elements.simps) (simp add: it_bool_def)
        moreover have "es = []" using Cons.prems(8) Nil sc by (simp add: scans_def)
        ultimately show ?thesis using step True by simp
      next
        case (Cons b q)
        let ?it1 = "it\<lparr>it_list := 0, it_locks := lk'\<rparr>"
        have b: "b \<in> addrs t" "set q \<subseteq> addrs t" using sub unfolding Cons by auto
        obtain l' r' h' k' v' where tt: "subtree_at b t = TreeNode b l' r' h' k' v'" "links m (l_head v') (cs k')" "cs k' \<noteq> []"
          "take_top t b q ?it1 = Some (?it1\<lparr>it_curr := Some b, it_path := q, it_list := l_head v'\<rparr>)"
          by (rule take_top_ok [OF b(1) ls, of q ?it1]) blast
        let ?it2 = "?it1\<lparr>it_curr := Some b, it_path := q, it_list := l_head v'\<rparr>"
        have next1: "it_next t m it = Some (True, ?it2)"
          using nn p z Cons tt(4) Cons.prems(1, 3) by (simp add: nx advance_def trav_next_def)
        have es: "es = (k', b, v') # pend (nx b @ q)" using Cons.prems(8) sc b(1) tt(1) unfolding Cons scans_def by blast
        have "elements t m ?it2 = Some (cell_contents m (cs k') @ entry_elements m cs (pend (nx b @ q)))"
          by (rule outer [of "pend (nx b @ q)" ?it2 b "cs k'"]) (use es Cons.prems b tt in simp_all)
        then show ?thesis using step next1 True es by simp
      qed
    qed
  qed simp
qed

lemma elements_new:
  assumes sc: "scans t c nx pend" and ls: "lists_ok t m cs" and s: "set (fst s) \<subseteq> addrs t"
  shows "Option.bind (new_iterator t c s) (elements t m) = Some (entry_elements m cs (pend (fst s)))"
proof (cases "fst s")
  case Nil
  then show ?thesis using sc by (simp add: new_iterator_def finish_init_def elements.simps it_bool_def scans_def)
next
  case (Cons b q)
  let ?it = "\<lparr>it_class = c, it_curr = None, it_path = b # q, it_list = 0, it_vacant = False, it_locks = snd s\<rparr>"
  have b: "b \<in> addrs t" "set q \<subseteq> addrs t" using s Cons by auto
  obtain l r h k v where tt: "subtree_at b t = TreeNode b l r h k v" "links m (l_head v) (cs k)" "cs k \<noteq> []"
    "take_top t b q ?it = Some (?it\<lparr>it_curr := Some b, it_path := q, it_list := l_head v\<rparr>)"
    by (rule take_top_ok [OF b(1) ls, of q ?it]) blast
  have "elements t m (?it\<lparr>it_curr := Some b, it_path := q, it_list := l_head v\<rparr>) =
      Some (cell_contents m (cs k) @ entry_elements m cs (pend (nx b @ q)))"
    by (rule elements_from [OF sc ls]) (use tt b in simp_all)
  moreover have "pend (b # q) = (k, b, v) # pend (nx b @ q)" using sc b(1) tt(1) unfolding scans_def by blast
  ultimately show ?thesis using Cons tt(4) by (simp add: new_iterator_def finish_init_def)
qed

text \<open>What the classes with a range push and yield.\<close>

fun class_next :: "'k::linorder it_class \<Rightarrow> ('k, 'v) avl \<Rightarrow> addr list" where
  "class_next c Null = []"
| "class_next c (TreeNode a l r h k v) = spine (class_dir c) (class_range c) (second (class_dir c) l r)"

lemma scans_ranged:
  assumes t: "distinct_addrs t" "bst t" and c: "ranged c"
  shows "scans t c (\<lambda>a. class_next c (subtree_at a t)) (pending (class_dir c) (class_range c) t)"
  unfolding scans_def
proof (intro conjI ballI)
  fix a assume a: "a \<in> addrs t"
  obtain l r h k v where n: "subtree_at a t = TreeNode a l r h k v" using subtree_at_node [OF a] by blast
  note ps = part_of_second [OF t n, of "class_dir c"]
  show "set (class_next c (subtree_at a t)) \<subseteq> addrs t"
    using spine_addrs [of "class_dir c" "class_range c" "second (class_dir c) l r"] ps(3) n by auto
  show "\<forall>p lk. \<exists>lk'. next_nodes t c (Some a) (p, lk) = Some (class_next c (subtree_at a t) @ p, lk')"
  proof (intro allI)
    fix p lk
    show "\<exists>lk'. next_nodes t c (Some a) (p, lk) = Some (class_next c (subtree_at a t) @ p, lk')"
      by (rule next_nodes_path [OF c n, of p lk]) (auto simp: n)
  qed
  show "\<forall>l r h k v q. subtree_at a t = TreeNode a l r h k v \<longrightarrow>
      pending (class_dir c) (class_range c) t (a # q) =
      (k, a, v) # pending (class_dir c) (class_range c) t (class_next c (subtree_at a t) @ q)"
    using spine_pending [OF ps(1, 2) downward_class [OF c]] by (auto simp: n)
qed simp

section \<open>The iterators of each operator\<close>

fun in_op :: "op \<Rightarrow> 'k::linorder \<Rightarrow> 'k \<Rightarrow> bool" where
  "in_op Eq key k = (k = key)"
| "in_op Ne key k = (k \<noteq> key)"
| "in_op Lt key k = (k < key)"
| "in_op Le key k = (k \<le> key)"
| "in_op Gt key k = (k > key)"
| "in_op Ge key k = (k \<ge> key)"
| "in_op oper key k = True"

definition in_range :: "op \<Rightarrow> 'k::linorder \<Rightarrow> 'k \<Rightarrow> 'k \<Rightarrow> bool" where
  "in_range oper lo hi k \<longleftrightarrow>
     (if oper = GtLt \<or> oper = GtLe then lo < k else lo \<le> k) \<and> (if oper = GtLt \<or> oper = GeLt then k < hi else k \<le> hi)"

lemma compare_simps [simp]:
  "c_equals (Compare x b) k \<longleftrightarrow> x = k \<and> b" "c_lessthan (Compare x b) k \<longleftrightarrow> x < k" "c_greaterthan (Compare x b) k \<longleftrightarrow> k < x"
  "c_lessthanequal (Compare x b) k \<longleftrightarrow> x < k \<or> x = k \<and> b" "c_greaterthanequal (Compare x b) k \<longleftrightarrow> k < x \<or> x = k \<and> b"
  by (auto simp: c_equals_def c_lessthan_def c_greaterthan_def c_lessthanequal_def c_greaterthanequal_def)

lemma seeks_up: "seeks False (c_lessthan c) (c_equals c)"
  by (cases c) (auto simp: seeks_def before_def)

lemma seeks_down: "seeks True (c_greaterthan c) (c_equals c)"
  by (cases c) (auto simp: seeks_def before_def)

text \<open>The entries of the tree from which the search starts, by the two shapes of the path.\<close>

lemma spine_entries:
  assumes "distinct_addrs t" "bst t" "ranged c" "fst s = spine (class_dir c) (class_range c) t" "lists_ok t m cs"
  shows "Option.bind (new_iterator t c s) (elements t m) =
    Some (entry_elements m cs (filter (\<lambda>e. class_range c (fst e)) (dents (class_dir c) t)))"
  using elements_new [OF scans_ranged [OF assms(1-3)] assms(5), of s] spine_addrs [of "class_dir c" "class_range c" t] assms(4)
    spine_pending [OF part_of_refl [OF assms(1)] assms(2) downward_class [OF assms(3)]] by simp

lemma seek_entries:
  assumes "distinct_addrs t" "bst t" "ranged c" "fst s = seek (class_dir c) lt eq (class_range c) t" "lists_ok t m cs"
    and "seeks (class_dir c) lt eq" "\<forall>k. eq k \<longrightarrow> class_range c k"
  shows "Option.bind (new_iterator t c s) (elements t m) =
    Some (entry_elements m cs (filter (\<lambda>e. (lt (fst e) \<or> eq (fst e)) \<and> class_range c (fst e)) (dents (class_dir c) t)))"
  using elements_new [OF scans_ranged [OF assms(1-3)] assms(5), of s] seek_addrs [of "class_dir c" lt eq "class_range c" t] assms(4)
    seek_pending [OF part_of_refl [OF assms(1)] assms(2) downward_class [OF assms(3)] assms(6, 7)] by simp

lemma fst_index_lock [simp]: "fst index_lock = []"
  by (simp add: index_lock_def)

lemma range_elements:
  assumes t: "distinct_addrs t" "bst t" and ls: "lists_ok t m cs" and b: "lo < hi \<or> lo = hi \<and> oper \<notin> {GeLt, GtLe, GtLt}"
  shows "Option.bind (get_iterator_range t lo hi oper reverse) (elements t m) =
    Some (entry_elements m cs (filter (\<lambda>e. in_range oper lo hi (fst e)) (if reverse then rev (ents t) else ents t)))"
proof -
  define cmin where "cmin = Compare lo (oper \<noteq> GtLt \<and> oper \<noteq> GtLe)"
  define cmax where "cmax = Compare hi (oper \<noteq> GtLt \<and> oper \<noteq> GeLt)"
  have eqs: "\<forall>k. c_equals cmin k \<longrightarrow> c_greaterthanequal cmax k" "\<forall>k. c_equals cmax k \<longrightarrow> c_lessthanequal cmin k"
    using b by (auto simp: cmin_def cmax_def)
  have mem: "(c_lessthan cmin k \<or> c_equals cmin k) \<and> c_greaterthanequal cmax k \<longleftrightarrow> in_range oper lo hi k"
    "(c_greaterthan cmax k \<or> c_equals cmax k) \<and> c_lessthanequal cmin k \<longleftrightarrow> in_range oper lo hi k" for k
    by (auto simp: cmin_def cmax_def in_range_def)
  show ?thesis
  proof (cases reverse)
    case False
    then show ?thesis
      using seek_entries [OF t, of "IndexRange cmax" "find_start t cmin cmax index_lock" "c_lessthan cmin" "c_equals cmin", OF _ _ ls]
        seeks_up [of cmin] eqs(1)
      by (simp add: get_iterator_range_def path_find_start class_range_eqs mem(1) dents_def flip: cmin_def cmax_def)
  next
    case True
    then show ?thesis
      using seek_entries [OF t, of "IndexRangeReverse cmin" "find_start_reverse t cmin cmax index_lock" "c_greaterthan cmax" "c_equals cmax", OF _ _ ls]
        seeks_down [of cmax] eqs(2)
      by (simp add: get_iterator_range_def path_find_start_reverse class_range_eqs mem(2) dents_def flip: cmin_def cmax_def)
  qed
qed

definition ex_index :: "int index_tree" where
  "ex_index = TreeNode 64 (TreeNode 128 Null Null 0 1 \<lparr>l_head = 4096, l_num = 1\<rparr>) (TreeNode 192 Null Null 0 3 \<lparr>l_head = 8192, l_num = 1\<rparr>)
     1 2 \<lparr>l_head = 12288, l_num = 1\<rparr>"

definition ex_cells :: "addr \<Rightarrow> addr cell" where
  "ex_cells p = \<lparr>cell_value = p + 7, cell_next = 0\<rparr>"

definition ex_lists :: "int \<Rightarrow> addr list" where
  "ex_lists k = [if k = 1 then 4096 else if k = 2 then 12288 else 8192]"

lemma ex_index_ok: "distinct_addrs ex_index" "bst ex_index" "lists_ok ex_index ex_cells ex_lists"
  by (auto simp: ex_index_def lists_ok_def ex_lists_def ex_cells_def)

text \<open>
  C23. The iterator of a range with a lower and an upper bound yields exactly the elements of the lists of the
  keys in the range, in key order or in reverse, each once, and ends, whatever the shape of the tree; the
  bounds must leave room for a key.
\<close>

theorem range_iterator_correct:
  assumes t: "distinct_addrs t" "bst t" and ls: "lists_ok t m cs" and b: "lo < hi \<or> lo = hi \<and> oper \<notin> {GeLt, GtLe, GtLt}"
  shows "Option.bind (get_iterator_range t lo hi oper reverse) (elements t m) =
    Some (entry_elements m cs (filter (\<lambda>e. in_range oper lo hi (fst e)) (if reverse then rev (ents t) else ents t)))"
  by (rule range_elements [OF assms])

lemma range_iterator_correct_witness:
  "Option.bind (get_iterator_range ex_index 2 7 GeLt True) (elements ex_index ex_cells) = Some [8199, 12295]"
  by (subst range_iterator_correct [OF ex_index_ok])
    (simp_all add: ex_index_def ex_lists_def ex_cells_def in_range_def entry_elements_def)

text \<open>The loop over one list only.\<close>

lemma elements_eq:
  assumes "it_class it = IndexEq" "\<not> it_vacant it" "it_path it = []" "links m (it_list it) as"
  shows "elements t m it = Some (cell_contents m as)"
  using assms
proof (induction as arbitrary: it)
  case Nil
  then show ?case by (subst elements.simps) (simp add: it_bool_def)
next
  case (Cons c as)
  have p: "it_list it = c" "c \<noteq> 0" "links m (cell_next (m c)) as" using Cons.prems(4) by auto
  have step: "elements t m it =
    Option.bind (it_next t m it) (\<lambda>(b, it1). Option.bind (elements t m it1) (\<lambda>xs. Some (cell_value (m c) # xs)))"
    using p Cons.prems(2) by (subst elements.simps) (simp add: it_bool_def it_ref_def trav_ref_def)
  obtain b it1 where n: "it_next t m it = Some (b, it1)" "it_class it1 = IndexEq" "\<not> it_vacant it1" "it_path it1 = []"
    "it_list it1 = cell_next (m c)"
    using Cons.prems p by (cases "cell_next (m c) = 0") (simp_all add: it_next_def advance_def trav_next_def next_nodes_def)
  have "elements t m it1 = Some (cell_contents m as)" by (rule Cons.IH) (use n p in simp_all)
  then show ?case using step n(1) by simp
qed

lemma filter_key:
  "distinct (map fst xs) \<Longrightarrow> filter (\<lambda>e. fst e = k) xs = (case map_of xs k of None \<Rightarrow> [] | Some x \<Rightarrow> [(k, x)])"
proof (induction xs)
  case (Cons e xs)
  have "filter (\<lambda>e. fst e = k) xs = []" if "k \<notin> fst ` set xs" using that by (auto simp: filter_empty_conv)
  then show ?case using Cons by (cases e) auto
qed simp

lemma eq_iterator:
  assumes t: "bst t" and ls: "lists_ok t m cs"
  shows "elements t m (new_eq_iterator t key) = Some (entry_elements m cs (filter (\<lambda>e. fst e = key) (ents t)))"
proof -
  have d: "distinct (map fst (ents t))" using t by (auto simp: bst_def keys_ents strict_sorted_iff)
  have f: "fst (get_locks_find key t) = map_of (ents t) key" using find_ents [OF t] .
  have it: "it_class (new_eq_iterator t key) = IndexEq" "\<not> it_vacant (new_eq_iterator t key)" "it_path (new_eq_iterator t key) = []"
    "it_list (new_eq_iterator t key) = trav_set (map_option snd (map_of (ents t) key))"
    by (simp_all add: new_eq_iterator_def case_prod_unfold f Let_def)
  show ?thesis
  proof (cases "map_of (ents t) key")
    case None
    then have "links m (it_list (new_eq_iterator t key)) []" by (simp add: it(4) trav_set_def)
    from elements_eq [OF it(1-3) this] show ?thesis using None by (simp add: filter_key [OF d])
  next
    case (Some x)
    then have "(key, x) \<in> set (ents t)" by (rule map_of_SomeD)
    then have "links m (it_list (new_eq_iterator t key)) (cs key)" using ls Some by (force simp: lists_ok_def it(4) trav_set_def)
    from elements_eq [OF it(1-3) this] show ?thesis using Some by (simp add: filter_key [OF d])
  qed
qed

lemma operator_elements:
  assumes t: "distinct_addrs t" "bst t" and ls: "lists_ok t m cs" and o: "oper \<in> {DontCare, Eq, Lt, Le, Gt, Ge}"
  shows "Option.bind (if oper = DontCare then get_iterator_all t reverse else get_iterator_op t key oper reverse) (elements t m) =
    Some (entry_elements m cs (filter (\<lambda>e. in_op oper key (fst e)) (if reverse then rev (ents t) else ents t)))"
proof -
  note up = spine_entries [OF t, of "IndexRange (Compare key b)" "find_start_min t (Compare key b) index_lock" for b, OF _ _ ls]
  note down = spine_entries [OF t, of "IndexRangeReverse (Compare key b)" "find_start_max_reverse t (Compare key b) index_lock" for b, OF _ _ ls]
  note all = spine_entries [OF t, of IndexRangeNomax "find_start_all t index_lock", OF _ _ ls]
    spine_entries [OF t, of IndexRangeNomin "find_start_all_reverse t index_lock", OF _ _ ls]
  note from_min = seek_entries [OF t, of IndexRangeNomax "find_start_max t (Compare key b) index_lock"
      "c_lessthan (Compare key b)" "c_equals (Compare key b)" for b, OF _ _ ls]
  note from_max = seek_entries [OF t, of IndexRangeNomin "find_start_min_reverse t (Compare key b) index_lock"
      "c_greaterthan (Compare key b)" "c_equals (Compare key b)" for b, OF _ _ ls]
  note simps = get_iterator_all_def get_iterator_op_def path_simps class_range_eqs seeks_up seeks_down dents_def
  have le: "key < k \<or> key = k \<longleftrightarrow> key \<le> k" "k < key \<or> key = k \<longleftrightarrow> k \<le> key" for k by auto
  have one: "rev (filter (\<lambda>e. fst e = key) (ents t)) = filter (\<lambda>e. fst e = key) (ents t)"
  proof -
    have "distinct (map fst (ents t))" using t by (auto simp: bst_def keys_ents strict_sorted_iff)
    from filter_key [OF this] show ?thesis by (simp split: option.splits)
  qed
  consider "oper = DontCare" | "oper = Eq" | "oper = Lt" | "oper = Le" | "oper = Gt" | "oper = Ge" using o by auto
  then show ?thesis
  proof cases
    case 1
    then show ?thesis using all by (cases reverse) (simp_all add: simps)
  next
    case 2
    then show ?thesis using eq_iterator [OF t(2) ls, of key] one by (cases reverse) (simp_all add: simps rev_filter)
  next
    case 3
    then show ?thesis using up [of False] from_max [of False] by (cases reverse) (simp_all add: simps)
  next
    case 4
    then show ?thesis using up [of True] from_max [of True] by (cases reverse) (simp_all add: simps le)
  next
    case 5
    then show ?thesis using down [of False] from_min [of False] by (cases reverse) (simp_all add: simps)
  next
    case 6
    then show ?thesis using down [of True] from_min [of True] by (cases reverse) (simp_all add: simps le)
  qed
qed

text \<open>
  The iterators for one bound, for one key and for the whole index yield exactly the elements whose key
  satisfies the operator, in key order or in reverse, each once, and end.
\<close>

theorem operator_iterator_correct:
  assumes t: "distinct_addrs t" "bst t" and ls: "lists_ok t m cs" and o: "oper \<in> {DontCare, Eq, Lt, Le, Gt, Ge}"
  shows "Option.bind (if oper = DontCare then get_iterator_all t reverse else get_iterator_op t key oper reverse) (elements t m) =
    Some (entry_elements m cs (filter (\<lambda>e. in_op oper key (fst e)) (if reverse then rev (ents t) else ents t)))"
  by (rule operator_elements [OF assms])

lemma operator_iterator_correct_witness:
  "Option.bind (get_iterator_op ex_index 2 Ge False) (elements ex_index ex_cells) = Some [12295, 8199]"
  using operator_iterator_correct [OF ex_index_ok, of Ge False 2]
  by (simp add: ex_index_def ex_lists_def ex_cells_def entry_elements_def)

section \<open>Bounds without room\<close>

lemma find_start_alone:
  assumes "bst t" "(lo, a, v) \<in> set (ents t)" "\<not> lo < hi" "cmax = Compare hi b" "lo = hi \<longrightarrow> \<not> b"
  shows "seek False (c_lessthan (Compare lo True)) (c_equals (Compare lo True)) (c_greaterthanequal cmax) t = [a]"
  using assms(1, 2)
proof (induction t)
  case (TreeNode c l r h k w)
  note e = ents_bst [OF TreeNode.prems(1)]
  consider "lo < k" | "lo = k" | "k < lo" by (rule linorder_cases)
  then show ?case
  proof cases
    case 1
    then have "(lo, a, v) \<in> set (ents l)" using TreeNode.prems(2) e by auto
    moreover have "\<not> c_greaterthanequal cmax k" using 1 assms(3, 4) by auto
    ultimately show ?thesis using TreeNode 1 by (simp add: seek_node first_def)
  next
    case 2
    then have "a = c" using TreeNode.prems(2) e by auto
    then show ?thesis using 2 by (simp add: seek_node)
  next
    case 3
    then have "(lo, a, v) \<in> set (ents r)" using TreeNode.prems(2) e by auto
    then show ?thesis using TreeNode 3 by (auto simp: seek_node second_def)
  qed
qed simp

text \<open>
  A range that no key can be in, \<open>[lo, hi)\<close> or \<open>[lo, hi]\<close> with \<open>hi\<close> below \<open>lo\<close> or equal to it where the
  bound is exclusive, still yields the elements of the key \<open>lo\<close>: the lower bound's node is pushed without
  a look at the upper bound.
\<close>

theorem empty_range_yields_min:
  assumes t: "distinct_addrs t" "bst t" and ls: "lists_ok t m cs" and lo: "(lo, a, v) \<in> set (ents t)"
    and b: "oper = GeLe \<and> hi < lo \<or> oper = GeLt \<and> hi \<le> lo"
  shows "(\<nexists>k. in_range oper lo hi k) \<and>
    Option.bind (get_iterator_range t lo hi oper False) (elements t m) = Some (cell_contents m (cs lo))"
proof -
  define cmax where "cmax = Compare hi (oper \<noteq> GtLt \<and> oper \<noteq> GeLt)"
  have cmin: "Compare lo (oper \<noteq> GtLt \<and> oper \<noteq> GtLe) = Compare lo True" using b by auto
  have path: "fst (find_start t (Compare lo True) cmax index_lock) = [a]"
    using find_start_alone [OF t(2) lo, of hi cmax "oper \<noteq> GtLt \<and> oper \<noteq> GeLt"] b by (auto simp: path_find_start cmax_def)
  have a: "a \<in> addrs t" using lo by (force simp: addrs_ents)
  obtain l r h k w where n: "subtree_at a t = TreeNode a l r h k w" "(k, a, w) \<in> set (ents t)" using subtree_at_node [OF a] by blast
  have kv: "k = lo" "w = v"
  proof -
    have "distinct (map (\<lambda>e. fst (snd e)) (ents t))"
    proof -
      have "map (\<lambda>e. fst (snd e)) (ents t) = addr_list t" by (induction t) simp_all
      then show ?thesis using t(1) by (simp add: distinct_addrs_def)
    qed
    then have "(k, a, w) = (lo, a, v)" using n(2) lo unfolding distinct_map by (auto dest: inj_onD [where x = "(k, a, w)" and y = "(lo, a, v)"])
    then show "k = lo" "w = v" by simp_all
  qed
  have "\<not> c_greaterthanequal cmax (fst e)" if "e \<in> set (ents r)" for e
  proof -
    have "bst (TreeNode a l r h k w)" using subtree_at_props [OF t, of a] n(1) by simp
    from ents_bst [OF this] have "k < fst e" using that by simp
    then have "lo < fst e" using kv(1) by simp
    then show ?thesis using b by (auto simp: cmax_def)
  qed
  then have "pending False (c_greaterthanequal cmax) t [a] = [(lo, a, v)]" using n kv by (simp add: second_def dents_def filter_empty_conv)
  then have "Option.bind (new_iterator t (IndexRange cmax) (find_start t (Compare lo True) cmax index_lock)) (elements t m) =
      Some (cell_contents m (cs lo))"
    using elements_new [OF scans_ranged [OF t, of "IndexRange cmax"] ls, of "find_start t (Compare lo True) cmax index_lock"] path a
    by (simp add: class_range_eqs)
  moreover have "\<nexists>k. in_range oper lo hi k" using b by (auto simp: in_range_def)
  ultimately show ?thesis by (simp add: get_iterator_range_def cmin flip: cmax_def)
qed

lemma empty_range_yields_min_witness:
  "Option.bind (get_iterator_range ex_index 2 1 GeLe False) (elements ex_index ex_cells) = Some [12295]"
  using empty_range_yields_min [OF ex_index_ok, of 2 64 "\<lparr>l_head = 12288, l_num = 1\<rparr>" GeLe 1]
  by (simp add: ex_index_def ex_lists_def ex_cells_def)

end
