(* ===== verification/Index_Neq.thy ===== *)
theory Index_Neq
  imports Index_Range_Laws
begin

text \<open>
  The iterators for \<open>Ne\<close>. When the excluded key is met, its further child is put on the path alone, without
  the nodes before it, so the entries in that child's nearer subtree are never visited. The property says
  exactly which entries are yielded. After a rebalancing of the tree, \<open>find_node_neq\<close> also puts nodes on the
  path that the iterator has passed.
\<close>

fun child_path :: "('k, 'v) avl \<Rightarrow> addr list" where
  "child_path Null = []"
| "child_path (TreeNode a l r h k v) = [a]"

fun neq_spine :: "bool \<Rightarrow> 'k \<Rightarrow> ('k, 'v) avl \<Rightarrow> addr list" where
  "neq_spine d q Null = []"
| "neq_spine d q (TreeNode a l r h k v) =
     (if d then neq_spine d q r else neq_spine d q l) @ (if q \<noteq> k then [a] else child_path (second d l r))"

lemma neq_spine_node:
  "neq_spine d q (TreeNode a l r h k v) = neq_spine d q (first d l r) @ (if q \<noteq> k then [a] else child_path (second d l r))"
  by (simp add: first_def)

declare neq_spine.simps(2) [simp del]

lemma push_child_path: "fst (push_child t s) = child_path t @ fst s"
  by (cases t) (simp_all add: push_def visit_def)

lemma path_add_nodes_neq: "fst (add_nodes_neq t q s) = neq_spine False q t @ fst s"
  by (induction t arbitrary: s) (auto simp: neq_spine_node first_def second_def push_def push_child_path, simp_all add: visit_def)

lemma path_add_nodes_neq_reverse: "fst (add_nodes_neq_reverse t q s) = neq_spine True q t @ fst s"
  by (induction t arbitrary: s) (auto simp: neq_spine_node first_def second_def push_def push_child_path, simp_all add: visit_def)

section \<open>The entries that are visited\<close>

fun neq_ents :: "bool \<Rightarrow> 'k \<Rightarrow> ('k, 'v) avl \<Rightarrow> ('k \<times> addr \<times> 'v) list"
and neq_child :: "bool \<Rightarrow> 'k \<Rightarrow> ('k, 'v) avl \<Rightarrow> ('k \<times> addr \<times> 'v) list" where
  "neq_ents d q Null = []"
| "neq_ents d q (TreeNode a l r h k v) =
     (if d then neq_ents d q r else neq_ents d q l) @
     (if q \<noteq> k then (k, a, v) # (if d then neq_ents d q l else neq_ents d q r)
      else if d then neq_child d q l else neq_child d q r)"
| "neq_child d q Null = []"
| "neq_child d q (TreeNode a l r h k v) = (k, a, v) # (if d then neq_ents d q l else neq_ents d q r)"

lemma neq_ents_node:
  "neq_ents d q (TreeNode a l r h k v) = neq_ents d q (first d l r) @
     (if q \<noteq> k then (k, a, v) # neq_ents d q (second d l r) else neq_child d q (second d l r))"
  "neq_child d q (TreeNode a l r h k v) = (k, a, v) # neq_ents d q (second d l r)"
  by (simp_all add: first_def second_def)

declare neq_ents.simps [simp del] neq_child.simps [simp del]

lemma neq_Null [simp]: "neq_ents d q Null = []" "neq_child d q Null = []"
  by (simp_all add: neq_ents.simps neq_child.simps)

definition neq_pending :: "bool \<Rightarrow> 'k \<Rightarrow> ('k, 'v) avl \<Rightarrow> addr list \<Rightarrow> ('k \<times> addr \<times> 'v) list" where
  "neq_pending d q t as = concat (map (\<lambda>a. neq_child d q (subtree_at a t)) as)"

lemma neq_pending_simps [simp]:
  "neq_pending d q t [] = []"
  "neq_pending d q t (a # as) = neq_child d q (subtree_at a t) @ neq_pending d q t as"
  "neq_pending d q t (as @ bs) = neq_pending d q t as @ neq_pending d q t bs"
  by (simp_all add: neq_pending_def)

lemma child_pending: "part_of s t \<Longrightarrow> neq_pending d q t (child_path s) = neq_child d q s"
  by (cases s) (simp_all add: part_of_def)

lemma neq_spine_pending:
  assumes "part_of s t"
  shows "neq_pending d q t (neq_spine d q s) = neq_ents d q s"
  using assms
proof (induction s rule: measure_induct_rule [where f = size])
  case (less s)
  show ?case
  proof (cases s)
    case (TreeNode a l r h k v)
    have "size (first d l r) < size s" by (simp add: first_def TreeNode)
    moreover have p: "part_of (first d l r) t" "part_of (second d l r) t" using part_of_children [of a l r h k v t d] less.prems by (simp_all add: TreeNode)
    moreover have "subtree_at a t = s" using less.prems by (simp add: part_of_def TreeNode)
    ultimately show ?thesis using less.IH [of "first d l r"] child_pending [OF p(2)] by (simp add: TreeNode neq_spine_node neq_ents_node)
  qed simp
qed

text \<open>\<open>neq_skipped\<close>: what lies before the further child of the excluded key's node.\<close>

fun near_ents :: "bool \<Rightarrow> ('k, 'v) avl \<Rightarrow> ('k \<times> addr \<times> 'v) set" where
  "near_ents d Null = {}"
| "near_ents d (TreeNode a l r h k v) = set (ents (first d l r))"

fun neq_skipped :: "bool \<Rightarrow> 'k::linorder \<Rightarrow> ('k, 'v) avl \<Rightarrow> ('k \<times> addr \<times> 'v) set" where
  "neq_skipped d q Null = {}"
| "neq_skipped d q (TreeNode a l r h k v) =
     (if q = k then near_ents d (second d l r) else if q < k then neq_skipped d q l else neq_skipped d q r)"

lemma near_sub: "near_ents d t \<subseteq> set (ents t)"
  by (cases t) (auto simp: first_def)

lemma neq_skipped_sub: "neq_skipped d q t \<subseteq> set (ents t)"
proof (induction t)
  case (TreeNode a l r h k v)
  have "near_ents d (second d l r) \<subseteq> set (ents l) \<union> set (ents r)"
    using near_sub [of d "second d l r"] by (auto simp: second_def split: if_splits)
  then show ?case using TreeNode by auto
qed simp

lemma neq_ents_absent: "q \<notin> fst ` set (ents t) \<Longrightarrow> neq_ents d q t = dents d t"
proof (induction t rule: measure_induct_rule [where f = size])
  case (less t)
  show ?case
  proof (cases t)
    case (TreeNode a l r h k v)
    have "size (first d l r) < size t" "size (second d l r) < size t" by (simp_all add: first_def second_def TreeNode)
    moreover have "q \<notin> fst ` set (ents (first d l r))" "q \<notin> fst ` set (ents (second d l r))" "q \<noteq> k"
      using less.prems by (auto simp: TreeNode first_def second_def)
    ultimately show ?thesis using less.IH by (simp add: TreeNode neq_ents_node)
  qed simp
qed

lemma neq_ents_visited:
  assumes "bst t"
  shows "neq_ents d q t = filter (\<lambda>e. fst e \<noteq> q \<and> e \<notin> neq_skipped d q t) (dents d t)"
  using assms
proof (induction t rule: measure_induct_rule [where f = size])
  case (less t)
  show ?case
  proof (cases t)
    case (TreeNode a l r h k v)
    let ?f = "first d l r" and ?s = "second d l r"
    have b: "bst (TreeNode a l r h k v)" using less.prems by (simp add: TreeNode)
    have fk: "\<And>e. e \<in> set (ents ?f) \<Longrightarrow> before d (fst e) k" and sk: "\<And>e. e \<in> set (ents ?s) \<Longrightarrow> before d k (fst e)"
      using bst_children(3, 4) [OF b, of _ d] by blast+
    have all: "filter (\<lambda>e. fst e \<noteq> q \<and> e \<notin> S) (dents d u) = dents d u" if "q \<notin> fst ` set (ents u)" "S \<inter> set (ents u) = {}" for S u
      using that by (auto simp: filter_id_conv)
    show ?thesis
    proof (cases "q = k")
      case True
      have qf: "q \<notin> fst ` set (ents ?f)" "q \<notin> fst ` set (ents ?s)" using fk sk True by fastforce+
      have skip: "neq_skipped d q t = near_ents d ?s" using True by (simp add: TreeNode)
      have dis: "near_ents d ?s \<inter> set (ents ?f) = {}" using near_sub [of d ?s] fk sk before_asym by fastforce
      have "neq_child d q ?s = filter (\<lambda>e. fst e \<noteq> q \<and> e \<notin> near_ents d ?s) (dents d ?s)"
      proof (cases ?s)
        case s: (TreeNode c cl cr ch ck cv)
        have bs: "bst (TreeNode c cl cr ch ck cv)" using bst_children(2) [OF b, of d] s by simp
        have near: "near_ents d ?s = set (ents (first d cl cr))" by (simp add: s)
        have q2: "q \<notin> fst ` set (ents (second d cl cr))" "q \<noteq> ck" 
        proof -
          have "set (ents ?s) = insert (ck, c, cv) (set (ents cl) \<union> set (ents cr))" by (simp add: s)
          then show "q \<notin> fst ` set (ents (second d cl cr))" "q \<noteq> ck" using qf(2) by (auto simp: second_def [of d cl cr])
        qed
        have "set (ents (first d cl cr)) \<inter> set (ents (second d cl cr)) = {}" "(ck, c, cv) \<notin> set (ents (first d cl cr))"
          using bst_children(3, 4) [OF bs, of _ d] before_asym by fastforce+
        then show ?thesis using q2 neq_ents_absent [OF q2(1), of d] all [OF q2(1), of "set (ents (first d cl cr))"]
          by (simp add: near) (simp add: s neq_ents_node filter_empty_conv)
      qed simp
      then show ?thesis using True neq_ents_absent [OF qf(1), of d] all [OF qf(1) dis] skip
        by (simp add: TreeNode neq_ents_node)
    next
      case False
      have sizes: "size ?f < size t" "size ?s < size t" by (simp_all add: first_def second_def TreeNode)
      have skip: "neq_skipped d q t = (if before d q k then neq_skipped d q ?f else neq_skipped d q ?s)"
        using False by (auto simp: TreeNode before_def first_def second_def)
      have "(k, a, v) \<notin> set (ents ?f)" "(k, a, v) \<notin> set (ents ?s)" using fk [of "(k, a, v)"] sk [of "(k, a, v)"] by auto
      then have nk: "(k, a, v) \<notin> neq_skipped d q t"
        using neq_skipped_sub [of d q ?f] neq_skipped_sub [of d q ?s] unfolding skip by (auto split: if_splits)
      have apart: "set (ents ?f) \<inter> set (ents ?s) = {}" using fk sk before_asym by fastforce
      show ?thesis
      proof (cases "before d q k")
        case True
        then have "q \<notin> fst ` set (ents ?s)" using sk before_asym by fastforce
        moreover have "neq_skipped d q t \<inter> set (ents ?s) = {}" using neq_skipped_sub [of d q ?f] apart True skip by auto
        moreover have "neq_ents d q ?f = filter (\<lambda>e. fst e \<noteq> q \<and> e \<notin> neq_skipped d q t) (dents d ?f)"
          using less.IH [OF sizes(1) bst_children(1) [OF b]] skip True by simp
        ultimately show ?thesis using False nk neq_ents_absent [of q ?s d] all [of ?s "neq_skipped d q t"] by (simp add: TreeNode neq_ents_node)
      next
        case no: False
        then have "before d k q" using False before_linear by metis
        then have "q \<notin> fst ` set (ents ?f)" using fk before_asym by fastforce
        moreover have "neq_skipped d q t \<inter> set (ents ?f) = {}" using neq_skipped_sub [of d q ?s] apart no skip by auto
        moreover have "neq_ents d q ?s = filter (\<lambda>e. fst e \<noteq> q \<and> e \<notin> neq_skipped d q t) (dents d ?s)"
          using less.IH [OF sizes(2) bst_children(2) [OF b]] skip no by simp
        ultimately show ?thesis using False nk neq_ents_absent [of q ?f d] all [of ?f "neq_skipped d q t"] by (simp add: TreeNode neq_ents_node)
      qed
    qed
  qed simp
qed

section \<open>The property\<close>

fun neq_next :: "bool \<Rightarrow> 'k \<Rightarrow> ('k, 'v) avl \<Rightarrow> addr list" where
  "neq_next d q Null = []"
| "neq_next d q (TreeNode a l r h k v) = neq_spine d q (second d l r)"

lemma neq_spine_addrs: "set (neq_spine d q t) \<subseteq> addrs t"
proof (induction t)
  case (TreeNode a l r h k v)
  have "set (child_path (second d l r)) \<subseteq> addrs l \<union> addrs r" by (cases "second d l r") (auto simp: second_def split: if_splits)
  then show ?case using TreeNode by (auto simp: neq_spine_node first_def)
qed simp

lemma scans_neq:
  assumes t: "distinct_addrs t" "bst t" and c: "c = (if d then IndexRangeNeqReverse q else IndexRangeNeq q)"
  shows "scans t c (\<lambda>a. neq_next d q (subtree_at a t)) (neq_pending d q t)"
  unfolding scans_def
proof (intro conjI ballI)
  fix a assume a: "a \<in> addrs t"
  obtain l r h k v where n: "subtree_at a t = TreeNode a l r h k v" using subtree_at_node [OF a] by blast
  note ps = part_of_second [OF t n, of d]
  show "set (neq_next d q (subtree_at a t)) \<subseteq> addrs t"
    using neq_spine_addrs [of d q "second d l r"] ps(3) n by auto
  show "\<forall>p lk. \<exists>lk'. next_nodes t c (Some a) (p, lk) = Some (neq_next d q (subtree_at a t) @ p, lk')"
  proof (intro allI)
    fix p lk
    have "\<exists>s. next_nodes t c (Some a) (p, lk) = Some s \<and> fst s = neq_next d q (subtree_at a t) @ p"
      using c by (cases d) (simp_all add: n next_nodes_def deref_def second_def path_add_nodes_neq path_add_nodes_neq_reverse)
    then show "\<exists>lk'. next_nodes t c (Some a) (p, lk) = Some (neq_next d q (subtree_at a t) @ p, lk')" by force
  qed
  show "\<forall>l r h k v as. subtree_at a t = TreeNode a l r h k v \<longrightarrow>
      neq_pending d q t (a # as) = (k, a, v) # neq_pending d q t (neq_next d q (subtree_at a t) @ as)"
    using neq_spine_pending [OF ps(1)] by (auto simp: n neq_ents_node(2))
qed simp

text \<open>
  C40. The iterator for \<open>Ne\<close> does not yield all elements with another key: it skips those whose keys lie between
  the excluded key and its further child, the left subtree of its right child, or in reverse the right
  subtree of its left child. All others come in order, once, and the loop ends.
\<close>

theorem neq_iterator_skips:
  assumes t: "distinct_addrs t" "bst t" and ls: "lists_ok t m cs"
  shows "Option.bind (get_iterator_op t key Ne reverse) (elements t m) =
    Some (entry_elements m cs (filter (\<lambda>e. fst e \<noteq> key \<and> e \<notin> neq_skipped reverse key t) (if reverse then rev (ents t) else ents t)))"
proof -
  let ?c = "if reverse then IndexRangeNeqReverse key else IndexRangeNeq key"
  let ?s = "if reverse then add_nodes_neq_reverse t key index_lock else add_nodes_neq t key index_lock"
  have path: "fst ?s = neq_spine reverse key t" by (simp add: path_add_nodes_neq path_add_nodes_neq_reverse)
  have sub: "set (fst ?s) \<subseteq> addrs t" unfolding path by (rule neq_spine_addrs)
  have "Option.bind (new_iterator t ?c ?s) (elements t m) = Some (entry_elements m cs (neq_pending reverse key t (neq_spine reverse key t)))"
    using elements_new [OF scans_neq [OF t refl] ls sub] path by simp
  moreover have "get_iterator_op t key Ne reverse = new_iterator t ?c ?s" by (simp add: get_iterator_op_def)
  ultimately show ?thesis
    using neq_spine_pending [OF part_of_refl [OF t(1)], of reverse key] neq_ents_visited [OF t(2), of reverse key]
    by (simp add: dents_def)
qed

definition ex_neq :: "int index_tree" where
  "ex_neq = TreeNode 64 (TreeNode 128 Null Null 0 1 \<lparr>l_head = 4096, l_num = 1\<rparr>)
     (TreeNode 192 (TreeNode 256 Null Null 0 3 \<lparr>l_head = 8192, l_num = 1\<rparr>) Null 1 4 \<lparr>l_head = 12288, l_num = 1\<rparr>)
     2 2 \<lparr>l_head = 16384, l_num = 1\<rparr>"

lemma neq_iterator_skips_witness:
  "avl_ok ex_neq \<and> map fst (ents ex_neq) = [1, 2, 3, 4] \<and>
   Option.bind (get_iterator_op ex_neq 2 Ne False) (elements ex_neq (\<lambda>p. \<lparr>cell_value = p, cell_next = 0\<rparr>)) = Some [4096, 12288]"
proof -
  let ?m = "\<lambda>p. \<lparr>cell_value = p, cell_next = 0\<rparr>"
  let ?cs = "\<lambda>k. [if k = 1 then 4096 else if k = 2 then 16384 else if k = 3 then 8192 else 12288]"
  have "distinct_addrs ex_neq" "bst ex_neq" "lists_ok ex_neq ?m ?cs" by (auto simp: ex_neq_def lists_ok_def)
  from neq_iterator_skips [OF this, of 2 False] show ?thesis
    by (simp add: ex_neq_def entry_elements_def second_def first_def)
qed

text \<open>After a rebalancing the path of an iterator for \<open>Ne\<close> at the last key leads back to the first.\<close>

lemma neq_rebalance_repeats:
  assumes "x < y" "neq \<noteq> x" "neq \<noteq> (y :: 'k::linorder)"
  shows "fst (find_node_neq (TreeNode a Null (TreeNode b Null Null 0 y w) 1 x v) (Compare y True) neq ([], lk)) = [b, a]"
  using assms by (auto simp: push_def visit_def)

end
