(* ===== verification/Index_Stats.thy ===== *)
theory Index_Stats
  imports Index_Range_Laws
begin

text \<open>
  The statistics of an index, \<open>index_stats_info\<close> of \<open>src/AvlTreeIndex.cc\<close>: numbers of keys and elements, bytes,
  and a health from 0 to 100 that falls when a few keys have most of the elements. All numbers are \<open>size_t\<close>.
  The sizes of the structures are parameters; \<open>ns\<close> is the size of a node by its key. A division by zero
  is \<open>None\<close>.
\<close>

section \<open>The code\<close>

record index_stats =
  st_unique :: u64
  st_entry_size :: u64
  st_elements :: u64
  st_bytes :: u64
  st_health :: u64

definition treenode_size :: "u64 \<Rightarrow> ('k \<Rightarrow> u64) \<Rightarrow> 'k \<Rightarrow> u64" where
  "treenode_size sizeof_node remainder k = sizeof_node + remainder k"

fun stats_recursive :: "('k \<Rightarrow> u64) \<Rightarrow> u64 \<Rightarrow> 'k index_tree \<Rightarrow> index_stats \<Rightarrow> index_stats" where
  "stats_recursive ns cell Null s = s"
| "stats_recursive ns cell (TreeNode a l r h k v) s =
     (let n = l_num v;
          s1 = s\<lparr>st_elements := st_elements s + n\<rparr>;
          s2 = s1\<lparr>st_bytes := st_bytes s1 + ns k\<rparr>;
          s3 = s2\<lparr>st_bytes := st_bytes s2 + n * cell\<rparr>
      in stats_recursive ns cell r (stats_recursive ns cell l s3))"

fun stats_health_recursive :: "u64 \<Rightarrow> 'k index_tree \<Rightarrow> index_stats \<Rightarrow> index_stats option" where
  "stats_health_recursive avg Null s = Some s"
| "stats_health_recursive avg (TreeNode a l r h k v) s =
     (let n = l_num v
      in if n > avg \<and> st_elements s = 0 then None
         else Option.bind
           (stats_health_recursive avg l
             (if n > avg then s\<lparr>st_health := st_health s - 100 * n div st_elements s\<rparr> else s))
           (stats_health_recursive avg r))"

definition index_stats_info :: "('k \<Rightarrow> u64) \<Rightarrow> u64 \<Rightarrow> u64 \<Rightarrow> u64 \<Rightarrow> 'k index_tree \<Rightarrow> index_stats option" where
  "index_stats_info ns cell sizeof_node sizeof_this t =
     (let s = \<lparr>st_unique = word_of_nat (num_elems t), st_entry_size = sizeof_node, st_elements = 0,
               st_bytes = sizeof_this, st_health = 100\<rparr>
      in if st_unique s = 0 then Some s
         else (let s1 = stats_recursive ns cell t s;
                   avg = st_elements s1 div st_unique s1
               in stats_health_recursive avg t s1))"

section \<open>Sums over the nodes\<close>

abbreviation nums :: "'k index_tree \<Rightarrow> u64 list" where
  "nums t \<equiv> map (\<lambda>e. l_num (snd e)) (kv t)"

lemma stats_recursive_sum:
  "stats_recursive ns cell t s =
     s\<lparr>st_elements := st_elements s + sum_list (nums t),
       st_bytes := st_bytes s + (\<Sum>(k, v)\<leftarrow>kv t. ns k + l_num v * cell)\<rparr>"
  by (induction t arbitrary: s) (simp_all add: Let_def algebra_simps)

lemma stats_health_sum:
  "st_elements s \<noteq> 0 \<Longrightarrow> stats_health_recursive avg t s =
     Some (s\<lparr>st_health := st_health s - (\<Sum>n\<leftarrow>filter (\<lambda>n. n > avg) (nums t). 100 * n div st_elements s)\<rparr>)"
  by (induction t arbitrary: s) (simp_all add: Let_def algebra_simps)

lemma unat_sum_list: "sum_list (map unat ws) < 2 ^ 64 \<Longrightarrow> unat (sum_list ws :: u64) = sum_list (map unat ws)"
proof (induction ws)
  case (Cons w ws)
  then have "unat w + unat (sum_list ws) < 2 ^ 64" by simp
  then show ?case using Cons by (simp add: unat_word_ariths)
qed simp

lemma length_kv: "length (kv t) = num_elems t"
  by (induction t) simp_all

lemma sum_floors: "0 < n \<Longrightarrow> (\<Sum>x\<leftarrow>xs. 100 * x div n) \<le> 100 * sum_list xs div (n :: nat)"
proof (induction xs)
  case (Cons x xs)
  have "100 * x div n + 100 * sum_list xs div n \<le> (100 * x + 100 * sum_list xs) div n"
    using Cons(2) by (metis div_add1_eq le_add1)
  then show ?case using Cons by simp
qed simp

lemma sum_filter_le: "sum_list (filter Q xs) \<le> sum_list (xs :: nat list)"
  by (induction xs) auto

section \<open>The property\<close>

text \<open>The numbers of elements of the keys, and what the health loses for them.\<close>

definition key_sizes :: "'k index_tree \<Rightarrow> nat list" where
  "key_sizes t = map unat (nums t)"

definition excess :: "nat list \<Rightarrow> nat" where
  "excess ns = (\<Sum>n\<leftarrow>filter (\<lambda>n. n > sum_list ns div length ns) ns. 100 * n div sum_list ns)"

lemma excess_le: "0 < sum_list ns \<Longrightarrow> excess ns \<le> 100"
proof -
  assume pos: "0 < sum_list ns"
  let ?big = "filter (\<lambda>n. n > sum_list ns div length ns) ns"
  have "excess ns \<le> 100 * sum_list ?big div sum_list ns" unfolding excess_def by (rule sum_floors [OF pos])
  also have "\<dots> \<le> 100 * sum_list ns div sum_list ns" by (intro div_le_mono mult_le_mono2 sum_filter_le)
  finally show ?thesis using pos by simp
qed

text \<open>
  As long as the counts fit in \<open>size_t\<close>, \<open>index_stats_info\<close> divides by no zero and reports the number of
  keys, of elements, the bytes of header, nodes and cells, and a health between 0 and 100: 100 less, for each
  key with more than the average number of elements, its percentage of them; the subtraction never wraps.
\<close>

theorem index_stats_correct:
  assumes fit: "100 * sum_list (key_sizes t) < 2 ^ 64" "num_elems t < 2 ^ 64" and used: "t \<noteq> Null \<longrightarrow> 0 < sum_list (key_sizes t)"
  shows "\<exists>s. index_stats_info ns cell sizeof_node sizeof_this t = Some s \<and>
    unat (st_unique s) = length (kv t) \<and> unat (st_elements s) = sum_list (key_sizes t) \<and>
    st_bytes s = sizeof_this + (\<Sum>(k, v)\<leftarrow>kv t. ns k + l_num v * cell) \<and>
    unat (st_health s) + excess (key_sizes t) = 100"
proof (cases "t = Null")
  case True
  then show ?thesis by (simp add: index_stats_info_def key_sizes_def excess_def)
next
  case False
  let ?w = "word_of_nat (num_elems t) :: u64" and ?S = "sum_list (nums t)" and ?n = "sum_list (key_sizes t)"
  let ?avg = "?S div ?w"
  have uw: "unat ?w = num_elems t" using fit(2) by (simp add: unat_of_nat)
  have us: "unat ?S = ?n" unfolding key_sizes_def by (rule unat_sum_list) (use fit(1) in \<open>simp add: key_sizes_def\<close>)
  have nz: "?w \<noteq> 0" using False uw by (cases t) (auto simp: unat_eq_0 [symmetric])
  have sz: "?S \<noteq> 0" using used False us by (metis less_irrefl unat_0)
  have avg: "unat ?avg = ?n div length (key_sizes t)" by (simp add: unat_div us uw key_sizes_def length_kv)
  have each: "unat (100 * n div ?S) = 100 * unat n div ?n" if "n \<in> set (nums t)" for n
  proof -
    have "unat n \<le> ?n" unfolding key_sizes_def using that by (intro member_le_sum_list) auto
    then have "100 * unat n < 2 ^ 64" using fit(1) by linarith
    then show ?thesis by (simp add: unat_div us unat_word_ariths)
  qed
  have loss: "sum_list (map unat (map (\<lambda>n. 100 * n div ?S) (filter (\<lambda>n. n > ?avg) (nums t)))) = excess (key_sizes t)"
  proof -
    have "map unat (map (\<lambda>n. 100 * n div ?S) (filter (\<lambda>n. n > ?avg) (nums t))) =
        map (\<lambda>n. 100 * unat n div ?n) (filter (\<lambda>n. n > ?avg) (nums t))"
      using each by (auto simp only: map_map o_def intro!: map_cong) auto
    also have "\<dots> = map (\<lambda>n. 100 * n div ?n) (filter (\<lambda>n. n > ?n div length (key_sizes t)) (key_sizes t))"
      by (simp add: key_sizes_def filter_map o_def word_less_nat_alt avg [unfolded key_sizes_def])
    finally show ?thesis by (simp only: excess_def)
  qed
  have le: "excess (key_sizes t) \<le> 100" using excess_le used False by blast
  then have ul: "unat (\<Sum>n\<leftarrow>filter (\<lambda>n. n > ?avg) (nums t). 100 * n div ?S) = excess (key_sizes t)"
    using unat_sum_list [of "map (\<lambda>n. 100 * n div ?S) (filter (\<lambda>n. n > ?avg) (nums t))"] unfolding loss by simp
  then have "unat (100 - (\<Sum>n\<leftarrow>filter (\<lambda>n. n > ?avg) (nums t). 100 * n div ?S)) + excess (key_sizes t) = 100"
    using le by (simp add: unat_sub word_le_nat_alt)
  then show ?thesis
    using nz sz us uw by (simp add: index_stats_info_def Let_def stats_recursive_sum stats_health_sum length_kv)
qed

text \<open>Ten elements at one key and two at another: the first has 83 percent of them.\<close>

definition ex_stats_tree :: "nat index_tree" where
  "ex_stats_tree = TreeNode 64 (TreeNode 128 Null Null 1 3 \<lparr>l_head = 900, l_num = 10\<rparr>) Null 2 5 \<lparr>l_head = 800, l_num = 2\<rparr>"

lemma ex_stats_sizes: "key_sizes ex_stats_tree = [10, 2]" "num_elems ex_stats_tree = 2"
  by (simp_all add: key_sizes_def ex_stats_tree_def)

lemma index_stats_correct_witness:
  "\<exists>s. index_stats_info (\<lambda>_. 56) 16 56 40 ex_stats_tree = Some s \<and> unat (st_elements s) = 12 \<and> unat (st_health s) = 17"
proof -
  have "excess [10, 2] = 83" by (simp add: excess_def numeral_2_eq_2 [symmetric])
  then show ?thesis
    using index_stats_correct [of ex_stats_tree "\<lambda>_. 56" 16 56 40] by (auto simp: ex_stats_sizes)
qed

end
