(* ===== verification/Property_Index.thy ===== *)
theory Property_Index
  imports Index_Range_Laws
begin

text \<open>
  \<open>add\<close> and \<open>remove\<close> of \<open>src/Index.cc\<close> for one type of keys: a tree whose values are headers of lists of
  objects, and the cells of these lists. \<open>add\<close> makes the key's node if needed and puts the object in front of
  its list; \<open>remove\<close> deletes the object from the list and the key when its list is empty. The property: an
  index is a finite map from keys to non-empty sequences of objects.
\<close>

section \<open>State and operations\<close>

record 'k value_index =
  vi_tree :: "'k index_tree"
  vi_lists :: "addr list_heap"

text \<open>A store through the pointer to the value of node \<open>b\<close>.\<close>

fun set_value :: "addr \<Rightarrow> 'v \<Rightarrow> ('k, 'v) avl \<Rightarrow> ('k, 'v) avl" where
  "set_value b w Null = Null"
| "set_value b w (TreeNode a l r h k v) = TreeNode a (set_value b w l) (set_value b w r) h k (if a = b then w else v)"

text \<open>
  The result with \<open>rebalanced\<close>; a null pointer is \<open>None\<close>. The node \<open>n\<close> is what the allocator returns if the tree
  needs one.
\<close>

definition vi_add ::
    "(lock_item \<Rightarrow> bool) \<Rightarrow> 'k::linorder \<Rightarrow> addr \<Rightarrow> addr \<Rightarrow> 'k value_index \<Rightarrow> (unit result \<times> bool \<times> 'k value_index) option" where
  "vi_add wl key obj n s =
     (let (t', p, es, rb, lk) = avl_add wl key list_init n (vi_tree s)
      in case p of None \<Rightarrow> None
        | Some a \<Rightarrow>
            (case node_list (subtree_at a t') of None \<Rightarrow> None
             | Some h \<Rightarrow>
                 (case list_add obj h (vi_lists s) of
                    (Inl e, _) \<Rightarrow> Some (Inl e, rb, s\<lparr>vi_tree := t'\<rparr>)
                  | (Inr _, h', H', _) \<Rightarrow> Some (Inr (), rb, \<lparr>vi_tree = set_value a h' t', vi_lists = H'\<rparr>))))"

text \<open>The events of the list, \<open>rebalanced\<close>, and the state.\<close>

definition vi_remove ::
    "(lock_item \<Rightarrow> bool) \<Rightarrow> 'k::linorder \<Rightarrow> addr \<Rightarrow> 'k value_index \<Rightarrow> (list_event list \<times> bool \<times> 'k value_index) option" where
  "vi_remove wl key obj s =
     (case fst (get_locks_find key (vi_tree s)) of
        None \<Rightarrow> Some ([], False, s)
      | Some (a, h) \<Rightarrow>
          map_option (\<lambda>(h', H', les).
            let t1 = set_value a h' (vi_tree s)
            in if l_num h' = 0
               then (let (res, t2, es, rb, lk) = avl_remove wl key t1 in (les, rb, \<lparr>vi_tree = t2, vi_lists = H'\<rparr>))
               else (les, False, \<lparr>vi_tree = t1, vi_lists = H'\<rparr>))
            (list_remove (=) obj h (vi_lists s)))"

section \<open>Storing a value\<close>

lemma ht_set_value [simp]: "ht (set_value b w t) = ht t"
  by (cases t) simp_all

lemma set_value_shape [simp]:
  "addr_list (set_value b w t) = addr_list t" "addrs (set_value b w t) = addrs t"
  "avl_ok (set_value b w t) = avl_ok t" "ht_ok (set_value b w t) = ht_ok t"
  "map fst (ents (set_value b w t)) = map fst (ents t)"
  by (induction t) simp_all

lemma distinct_set_value [simp]: "distinct_addrs (set_value b w t) = distinct_addrs t"
  by (simp add: distinct_addrs_def)

lemma ents_set_value: "ents (set_value b w t) = map (\<lambda>(k, a, v). (k, a, if a = b then w else v)) (ents t)"
  by (induction t) simp_all

lemma bst_set_value [simp]: "bst (set_value b w t) = bst t"
  by (simp add: bst_def keys_ents)

lemma find_set_value:
  "fst (get_locks_find key (set_value b w t)) = map_option (\<lambda>(a, v). (a, if a = b then w else v)) (fst (get_locks_find key t))"
  by (induction t) (simp_all add: case_prod_unfold Let_def)

lemma find_node_of:
  assumes "distinct_addrs t" "bst t" "fst (get_locks_find key t) = Some (a, v)"
  shows "a \<in> addrs t" "node_list (subtree_at a t) = Some v"
    "key' \<noteq> key \<Longrightarrow> fst (get_locks_find key' t) = Some (b, u) \<Longrightarrow> b \<noteq> a"
proof -
  have e: "(key, a, v) \<in> set (ents t)" using assms by (auto simp: find_ents dest: map_of_SomeD)
  then show "a \<in> addrs t" by (force simp: addrs_ents)
  have one: "k' = key \<and> v' = v" if "(k', a, v') \<in> set (ents t)" for k' v'
  proof -
    have "map (\<lambda>e. fst (snd e)) (ents t) = addr_list t" by (induction t) simp_all
    then have "distinct (map (\<lambda>e. fst (snd e)) (ents t))" using assms(1) by (simp add: distinct_addrs_def)
    then show ?thesis using that e unfolding distinct_map by (auto dest: inj_onD [where x = "(k', a, v')" and y = "(key, a, v)"])
  qed
  show "node_list (subtree_at a t) = Some v"
  proof -
    obtain l r h k' v' where n: "subtree_at a t = TreeNode a l r h k' v'" "(k', a, v') \<in> set (ents t)"
      using subtree_at_node \<open>a \<in> addrs t\<close> by blast
    then show ?thesis using one by simp
  qed
  show "b \<noteq> a" if "key' \<noteq> key" "fst (get_locks_find key' t) = Some (b, u)"
    using that one assms(2) by (auto simp: find_ents dest: map_of_SomeD)
qed

lemma avl_find_set_value:
  fixes t :: "'k::linorder index_tree"
  assumes "distinct_addrs t" "bst t" "fst (get_locks_find key t) = Some (a, v)"
  shows "avl_find k (set_value a w t) = (if k = key then Some w else avl_find k t)"
  using assms(3) find_node_of(3) [OF assms, of k]
  by (cases "fst (get_locks_find k t)") (auto simp: avl_find_def find_set_value)

section \<open>The map an index stands for\<close>

text \<open>\<open>cs k\<close> are the cells of the list of key \<open>k\<close>.\<close>

definition vi_rel :: "'k::linorder value_index \<Rightarrow> ('k \<Rightarrow> addr list) \<Rightarrow> bool" where
  "vi_rel s cs \<longleftrightarrow> bst (vi_tree s) \<and> distinct_addrs (vi_tree s) \<and>
     (\<forall>k h. avl_find k (vi_tree s) = Some h \<longrightarrow> list_at (lh_cells (vi_lists s)) h (cs k)) \<and>
     (\<forall>k. set (cs k) \<subseteq> {0<..<2 ^ 64} \<and> set (lh_supply (vi_lists s)) \<inter> set (cs k) = {}) \<and>
     (\<forall>k k'. k \<noteq> k' \<longrightarrow> set (cs k) \<inter> set (cs k') = {}) \<and>
     (\<forall>k. cs k = [] \<longleftrightarrow> avl_find k (vi_tree s) = None) \<and>
     distinct (lh_supply (vi_lists s)) \<and> set (lh_supply (vi_lists s)) \<subseteq> {0<..<2 ^ 64}"

definition vi_map :: "'k::linorder value_index \<Rightarrow> ('k \<Rightarrow> addr list) \<Rightarrow> 'k \<Rightarrow> addr list option" where
  "vi_map s cs k = (if cs k = [] then None else Some (cell_contents (lh_cells (vi_lists s)) (cs k)))"

definition vi_ok :: "'k::linorder value_index \<Rightarrow> ('k \<Rightarrow> addr list option) \<Rightarrow> bool" where
  "vi_ok s M \<longleftrightarrow> (\<exists>cs. vi_rel s cs \<and> M = vi_map s cs)"

text \<open>One key's list changes, and with it whether the key is there.\<close>

lemma vi_rel_key:
  assumes r: "vi_rel s cs" and t: "bst t'" "distinct_addrs t'"
    and f: "\<And>k. k \<noteq> key \<Longrightarrow> avl_find k t' = avl_find k (vi_tree s)"
    and key: "as = [] \<longleftrightarrow> avl_find key t' = None" "\<And>h. avl_find key t' = Some h \<Longrightarrow> list_at (lh_cells H) h as"
    and sub: "set as \<subseteq> {0<..<2 ^ 64}" "set as \<subseteq> set (cs key) \<union> set (lh_supply (vi_lists s)) - set (lh_supply H)"
    and sup: "distinct (lh_supply H)" "set (lh_supply H) \<subseteq> set (lh_supply (vi_lists s))"
    and same: "\<And>a. a \<notin> set (cs key) \<Longrightarrow> a \<notin> set as \<Longrightarrow> lh_cells H a = lh_cells (vi_lists s) a"
  shows "vi_rel \<lparr>vi_tree = t', vi_lists = H\<rparr> (cs(key := as))"
    "vi_map \<lparr>vi_tree = t', vi_lists = H\<rparr> (cs(key := as)) =
       (vi_map s cs)(key := if as = [] then None else Some (cell_contents (lh_cells H) as))"
proof -
  have apart: "set (cs k) \<inter> set (cs key) = {}" "set (cs k) \<inter> set as = {}" if "k \<noteq> key" for k
  proof -
    show 1: "set (cs k) \<inter> set (cs key) = {}" using r that by (simp add: vi_rel_def)
    have "set (lh_supply (vi_lists s)) \<inter> set (cs k) = {}" using r by (simp add: vi_rel_def)
    then show "set (cs k) \<inter> set as = {}" using 1 sub(2) by blast
  qed
  have cells: "lh_cells H a = lh_cells (vi_lists s) a" if "a \<in> set (cs k)" "k \<noteq> key" for a k
    using apart [OF that(2)] that(1) same [of a] by blast
  have others: "list_at (lh_cells H) h (cs k)" if "avl_find k t' = Some h" "k \<noteq> key" for k h
  proof -
    have "list_at (lh_cells (vi_lists s)) h (cs k)" using r that f [OF that(2)] by (simp add: vi_rel_def)
    then show ?thesis by (rule list_at_cong) (simp add: cells [OF _ that(2)])
  qed
  have sups: "set (lh_supply H) \<inter> set ((cs(key := as)) k) = {}" for k
  proof -
    have "set (lh_supply (vi_lists s)) \<inter> set (cs k) = {}" using r by (simp add: vi_rel_def)
    then show ?thesis using sup(2) sub(2) by auto
  qed
  show "vi_rel \<lparr>vi_tree = t', vi_lists = H\<rparr> (cs(key := as))"
    unfolding vi_rel_def value_index.select_convs
  proof (intro conjI)
    show "\<forall>k h. avl_find k t' = Some h \<longrightarrow> list_at (lh_cells H) h ((cs(key := as)) k)" using others key(2) by auto
    show "\<forall>k. set ((cs(key := as)) k) \<subseteq> {0<..<2 ^ 64} \<and> set (lh_supply H) \<inter> set ((cs(key := as)) k) = {}"
      using r sub(1) sups by (auto simp: vi_rel_def)
    show "\<forall>k k'. k \<noteq> k' \<longrightarrow> set ((cs(key := as)) k) \<inter> set ((cs(key := as)) k') = {}"
    proof (intro allI impI)
      fix k k' :: 'a
      assume "k \<noteq> k'"
      then show "set ((cs(key := as)) k) \<inter> set ((cs(key := as)) k') = {}"
        using r apart(2) [of k] apart(2) [of k'] by (auto simp: vi_rel_def Int_commute)
    qed
    show "\<forall>k. (cs(key := as)) k = [] \<longleftrightarrow> avl_find k t' = None" using r key(1) f by (auto simp: vi_rel_def)
    show "set (lh_supply H) \<subseteq> {0<..<2 ^ 64}" using r sup(2) by (auto simp: vi_rel_def)
  qed (use t sup in simp_all)
  have "cell_contents (lh_cells H) (cs k) = cell_contents (lh_cells (vi_lists s)) (cs k)" if "k \<noteq> key" for k
    by (rule cell_contents_cong) (rule cells [OF _ that])
  then show "vi_map \<lparr>vi_tree = t', vi_lists = H\<rparr> (cs(key := as)) =
       (vi_map s cs)(key := if as = [] then None else Some (cell_contents (lh_cells H) as))"
    by (auto simp: vi_map_def fun_eq_iff)
qed

section \<open>The operations on the map\<close>

lemma added_node:
  assumes t: "avl_ok t" "bst t" "distinct_addrs t" "n \<notin> addrs t" and add: "avl_add wl key v0 n t = (t', p, es, rb, lk)"
  obtains a where "p = Some a" "t' = add_tree key v0 n t"
    "fst (get_locks_find key t') = Some (a, case avl_find key t of None \<Rightarrow> v0 | Some v \<Rightarrow> v)"
    "avl_ok t'" "bst t'" "distinct_addrs t'" "\<And>k. k \<noteq> key \<Longrightarrow> avl_find k t' = avl_find k t"
proof -
  note t' = avl_add_tuple [OF t(1, 3) add]
  have "fst (get_locks_find key t') = Some (fst (snd (add_recursive key v0 n t)), case avl_find key t of None \<Rightarrow> v0 | Some v \<Rightarrow> v)"
    using add_node [of key t v0 n] add_node_found [of key t] unfolding t'(1) find_add [OF t(2)]
    by (auto simp: avl_find_def split: option.splits)
  moreover have "avl_find k t' = avl_find k t" if "k \<noteq> key" for k
    using that unfolding t'(1) avl_find_def find_add [OF t(2)] by simp
  ultimately show ?thesis
    using that t' add_avl [OF t(1), of key v0 n] bst_add [OF t(2), of key v0 n] distinct_add [OF t(3, 4), of key v0] by blast
qed

lemma vi_add_ok:
  assumes ok: "vi_ok s M" and t: "avl_ok (vi_tree s)" "n \<notin> addrs (vi_tree s)"
  shows "\<exists>r rb s'. vi_add wl key obj n s = Some (r, rb, s') \<and>
    (case r of
       Inl err \<Rightarrow> err = BadAlloc \<and> lh_supply (vi_lists s) = []
     | Inr _ \<Rightarrow> avl_ok (vi_tree s') \<and> vi_ok s' (M(key \<mapsto> obj # (case M key of None \<Rightarrow> [] | Some xs \<Rightarrow> xs))))"
proof -
  obtain cs where r: "vi_rel s cs" and M: "M = vi_map s cs" using ok by (auto simp: vi_ok_def)
  have b: "bst (vi_tree s)" "distinct_addrs (vi_tree s)" using r by (simp_all add: vi_rel_def)
  obtain t' p es rb lk where add: "avl_add wl key list_init n (vi_tree s) = (t', p, es, rb, lk)" by (metis prod_cases5)
  define h where "h = (case avl_find key (vi_tree s) of None \<Rightarrow> list_init | Some v \<Rightarrow> v)"
  obtain a where a: "p = Some a" "fst (get_locks_find key t') = Some (a, h)"
    "avl_ok t'" "bst t'" "distinct_addrs t'" "\<And>k. k \<noteq> key \<Longrightarrow> avl_find k t' = avl_find k (vi_tree s)"
    using added_node [OF t(1) b t(2) add] unfolding h_def by metis
  note nd = find_node_of(2) [OF a(5, 4, 2)]
  show ?thesis
  proof (cases "lh_supply (vi_lists s)")
    case Nil
    then have "list_add obj h (vi_lists s) = (Inl BadAlloc, h, vi_lists s, [])" by (simp add: list_add_def)
    then show ?thesis using Nil by (simp add: vi_add_def add a(1) nd)
  next
    case (Cons c rest)
    have at: "list_at (lh_cells (vi_lists s)) h (cs key)"
    proof (cases "avl_find key (vi_tree s)")
      case None
      then have "cs key = []" using r by (simp add: vi_rel_def)
      then show ?thesis using None by (simp add: h_def)
    qed (use r in \<open>simp add: h_def vi_rel_def\<close>)
    have c: "c \<noteq> 0" "c \<notin> set (cs key)" "c < 2 ^ 64" "c \<notin> set rest" "distinct rest" "set (cs key) \<subseteq> {0<..<2 ^ 64}"
        "set rest \<inter> set (cs key) = {}"
      using r Cons by (auto simp: vi_rel_def)
    obtain h' H' les where l: "list_add obj h (vi_lists s) = (Inr c, h', H', les)" "list_at (lh_cells H') h' (c # cs key)"
      "cell_contents (lh_cells H') (c # cs key) = obj # cell_contents (lh_cells (vi_lists s)) (cs key)" "lh_supply H' = rest"
      "\<And>x. x \<noteq> c \<Longrightarrow> lh_cells H' x = lh_cells (vi_lists s) x"
      using list_add_ok [OF at Cons c(1, 2)] by metis
    let ?T = "set_value a h' t'"
    note F = avl_find_set_value [OF a(5, 4, 2)]
    have rel: "vi_rel \<lparr>vi_tree = ?T, vi_lists = H'\<rparr> (cs(key := c # cs key))"
      "vi_map \<lparr>vi_tree = ?T, vi_lists = H'\<rparr> (cs(key := c # cs key)) =
         (vi_map s cs)(key := if c # cs key = [] then None else Some (cell_contents (lh_cells H') (c # cs key)))"
      by (rule vi_rel_key [OF r]; use a l c Cons F in auto)+
    have "(case M key of None \<Rightarrow> [] | Some xs \<Rightarrow> xs) = cell_contents (lh_cells (vi_lists s)) (cs key)"
      by (simp add: M vi_map_def)
    then have "vi_ok \<lparr>vi_tree = ?T, vi_lists = H'\<rparr> (M(key \<mapsto> obj # (case M key of None \<Rightarrow> [] | Some xs \<Rightarrow> xs)))"
      using rel l(3) unfolding vi_ok_def M by auto
    then show ?thesis using a(3) by (simp add: vi_add_def add a(1) nd l(1))
  qed
qed

lemma vi_add_returns:
  assumes "vi_ok s M" "avl_ok (vi_tree s)" "n \<notin> addrs (vi_tree s)" "lh_supply (vi_lists s) \<noteq> []"
  shows "\<exists>rb s'. vi_add wl key obj n s = Some (Inr (), rb, s')"
proof -
  obtain r :: "unit result" and rb s' where r: "vi_add wl key obj n s = Some (r, rb, s') \<and>
      (case r of Inl err \<Rightarrow> err = BadAlloc \<and> lh_supply (vi_lists s) = []
       | Inr _ \<Rightarrow> avl_ok (vi_tree s') \<and> vi_ok s' (M(key \<mapsto> obj # (case M key of None \<Rightarrow> [] | Some xs \<Rightarrow> xs))))"
    using vi_add_ok [OF assms(1-3), of wl key obj] by (elim exE) (rule that)
  then show ?thesis using assms(4) by (cases r) auto
qed

lemma distinct_remove:
  assumes "bst t" "distinct_addrs t"
  shows "distinct_addrs (remove_tree key t)"
proof -
  have "nodes (remove_tree key t) + frees (fst (snd (remove_recursive key t))) = nodes t"
    using nodes_remove [where key = key and t = t] assms(1) by (simp add: remove_tree_def)
  moreover have "distinct (addr_list t)" using assms(2) by (simp add: distinct_addrs_def)
  ultimately show ?thesis
    unfolding distinct_addrs_def by (metis distinct_append mset_append mset_eq_imp_distinct_iff ex_mset)
qed

lemma vi_remove_ok:
  assumes ok: "vi_ok s M" and t: "avl_ok (vi_tree s)"
  shows "\<exists>es rb s'. vi_remove wl key obj s = Some (es, rb, s') \<and>
    vi_ok s' (M(key := case M key of None \<Rightarrow> None
      | Some xs \<Rightarrow> if del_first ((=) obj) xs = [] then None else Some (del_first ((=) obj) xs)))"
proof -
  obtain cs where r: "vi_rel s cs" and M: "M = vi_map s cs" using ok by (auto simp: vi_ok_def)
  have b: "bst (vi_tree s)" "distinct_addrs (vi_tree s)" using r by (simp_all add: vi_rel_def)
  show ?thesis
  proof (cases "fst (get_locks_find key (vi_tree s))")
    case None
    then have "M key = None" using r by (simp add: M vi_map_def vi_rel_def avl_find_def)
    then have "M(key := None) = M" by auto
    then show ?thesis
      using None ok \<open>M key = None\<close> by (intro exI [of _ "[]"] exI [of _ False] exI [of _ s]) (simp add: vi_remove_def)
  next
    case (Some p)
    obtain a h where f: "fst (get_locks_find key (vi_tree s)) = Some (a, h)" using Some by (cases p) auto
    then have fk: "avl_find key (vi_tree s) = Some h" by (simp add: avl_find_def)
    then have at: "list_at (lh_cells (vi_lists s)) h (cs key)" and ne: "cs key \<noteq> []" and c: "set (cs key) \<subseteq> {0<..<2 ^ 64}"
      using r by (auto simp: vi_rel_def)
    obtain h' H' les as where l: "list_remove (=) obj h (vi_lists s) = Some (h', H', les)" "list_at (lh_cells H') h' as"
      "cell_contents (lh_cells H') as = del_first ((=) obj) (cell_contents (lh_cells (vi_lists s)) (cs key))"
      "as = del_first (\<lambda>a. obj = cell_value (lh_cells (vi_lists s) a)) (cs key)" "lh_supply H' = lh_supply (vi_lists s)"
      "\<And>a. a \<notin> set (cs key) \<Longrightarrow> lh_cells H' a = lh_cells (vi_lists s) a"
      by (rule list_remove_ok [OF at, of "(=)" obj]) auto
    have sub: "set as \<subseteq> set (cs key)" unfolding l(4) by (rule del_first_subset)
    have rng: "set as \<subseteq> {0<..<2 ^ 64}" "set as \<subseteq> set (cs key) \<union> set (lh_supply (vi_lists s)) - set (lh_supply H')"
    proof -
      show "set as \<subseteq> {0<..<2 ^ 64}" using sub c by (rule subset_trans)
      have "set (lh_supply (vi_lists s)) \<inter> set (cs key) = {}" using r by (simp add: vi_rel_def)
      then show "set as \<subseteq> set (cs key) \<union> set (lh_supply (vi_lists s)) - set (lh_supply H')" using sub unfolding l(5) by blast
    qed
    have sup: "distinct (lh_supply H')" "set (lh_supply H') \<subseteq> set (lh_supply (vi_lists s))" using r by (simp_all add: l(5) vi_rel_def)
    have len: "l_num h' = 0 \<longleftrightarrow> as = []" by (rule length_cells [OF l(2) rng(1)])
    define t1 where "t1 = set_value a h' (vi_tree s)"
    have t1: "avl_ok t1" "bst t1" "distinct_addrs t1" using t b by (simp_all add: t1_def)
    note F = avl_find_set_value [OF b(2, 1) f, of _ h', folded t1_def]
    define T where "T = (if as = [] then remove_tree key t1 else t1)"
    have T: "bst T" "distinct_addrs T" using t1 distinct_remove [OF t1(2, 3)] by (simp_all add: T_def bst_remove)
    have FT: "avl_find k T = (if k = key then if as = [] then None else Some h' else avl_find k (vi_tree s))" for k
      using F by (simp add: T_def find_remove [OF t1(2)])
    have rel: "vi_rel \<lparr>vi_tree = T, vi_lists = H'\<rparr> (cs(key := as))"
      "vi_map \<lparr>vi_tree = T, vi_lists = H'\<rparr> (cs(key := as)) =
         (vi_map s cs)(key := if as = [] then None else Some (cell_contents (lh_cells H') as))"
      by (rule vi_rel_key [OF r T _ _ _ rng sup l(6)]; use l(2) FT in \<open>simp split: if_splits\<close>)+
    have Mk: "M key = Some (cell_contents (lh_cells (vi_lists s)) (cs key))" using ne by (simp add: M vi_map_def)
    have emp: "as = [] \<longleftrightarrow> del_first ((=) obj) (cell_contents (lh_cells (vi_lists s)) (cs key)) = []"
      unfolding l(3) [symmetric] by (simp add: cell_contents_def)
    have ok': "vi_ok \<lparr>vi_tree = T, vi_lists = H'\<rparr> (M(key := case M key of None \<Rightarrow> None
      | Some xs \<Rightarrow> if del_first ((=) obj) xs = [] then None else Some (del_first ((=) obj) xs)))"
      using rel emp l(3) unfolding vi_ok_def Mk unfolding M by auto
    obtain res t2 es rb lk where rem: "avl_remove wl key t1 = (res, t2, es, rb, lk)" by (metis prod_cases5)
    have t2: "t2 = remove_tree key t1" using avl_remove_root [OF t1, of wl key] rem by simp
    have "\<exists>es rb. vi_remove wl key obj s = Some (es, rb, \<lparr>vi_tree = T, vi_lists = H'\<rparr>)"
    proof (cases "as = []")
      case True
      then show ?thesis using rem t2 len by (simp add: vi_remove_def f l(1) Let_def T_def flip: t1_def)
    next
      case False
      then have "vi_remove wl key obj s = Some (les, False, \<lparr>vi_tree = T, vi_lists = H'\<rparr>)"
        using len by (simp add: vi_remove_def f l(1) Let_def T_def flip: t1_def)
      then show ?thesis by blast
    qed
    then show ?thesis using ok' by blast
  qed
qed

text \<open>
  An index is a finite map from keys to non-empty sequences of objects. On a balanced tree \<open>add\<close> puts the
  object in front of the key's sequence, making the key if needed, keeps the balance, and fails only when
  the allocator of cells does; \<open>remove\<close> deletes the object's first occurrence, and the key when nothing is
  left; both leave every other key alone. No null pointer is followed and the loops end.
\<close>

theorem index_refines_map:
  assumes "vi_ok s M" "avl_ok (vi_tree s)" "n \<notin> addrs (vi_tree s)"
  shows "(\<exists>r rb s'. vi_add wl key obj n s = Some (r, rb, s') \<and>
      (case r of
         Inl err \<Rightarrow> err = BadAlloc \<and> lh_supply (vi_lists s) = []
       | Inr _ \<Rightarrow> avl_ok (vi_tree s') \<and> vi_ok s' (M(key \<mapsto> obj # (case M key of None \<Rightarrow> [] | Some xs \<Rightarrow> xs))))) \<and>
    (\<exists>es rb s'. vi_remove wl key obj s = Some (es, rb, s') \<and>
      vi_ok s' (M(key := case M key of None \<Rightarrow> None
        | Some xs \<Rightarrow> if del_first ((=) obj) xs = [] then None else Some (del_first ((=) obj) xs))))"
  using vi_add_ok [OF assms, of wl key obj] vi_remove_ok [OF assms(1, 2), of wl key obj] by blast

text \<open>Two keys; 3 has the objects 31 and 32, 5 has 51.\<close>

definition ex_values :: "int value_index" where
  "ex_values =
     \<lparr>vi_tree = TreeNode 64 (TreeNode 128 Null Null 0 3 \<lparr>l_head = 900, l_num = 2\<rparr>) Null 1 5 \<lparr>l_head = 800, l_num = 1\<rparr>,
      vi_lists = \<lparr>lh_cells = (\<lambda>_. \<lparr>cell_value = 0, cell_next = 0\<rparr>)
          (800 := \<lparr>cell_value = 51, cell_next = 0\<rparr>, 900 := \<lparr>cell_value = 31, cell_next = 916\<rparr>,
           916 := \<lparr>cell_value = 32, cell_next = 0\<rparr>), lh_supply = [1000]\<rparr>\<rparr>"

lemma ex_values_ok: "vi_ok ex_values [3 \<mapsto> [31, 32], 5 \<mapsto> [51]]"
proof -
  let ?cs = "\<lambda>k. if k = 3 then [900, 916] else if k = 5 then [800] else []"
  have f: "avl_find k (vi_tree ex_values) =
      (if k = 5 then Some \<lparr>l_head = 800, l_num = 1\<rparr> else if k = 3 then Some \<lparr>l_head = 900, l_num = 2\<rparr> else None)" for k
    by (simp add: ex_values_def avl_find_def Let_def)
  have "vi_rel ex_values ?cs"
    unfolding vi_rel_def
  proof (intro conjI)
    show "\<forall>k h. avl_find k (vi_tree ex_values) = Some h \<longrightarrow> list_at (lh_cells (vi_lists ex_values)) h (?cs k)"
      unfolding f by (simp add: list_at_def ex_values_def split: if_splits)
    show "\<forall>k. ?cs k = [] \<longleftrightarrow> avl_find k (vi_tree ex_values) = None" unfolding f by simp
  qed (auto simp: ex_values_def)
  moreover have "vi_map ex_values ?cs = [3 \<mapsto> [31, 32], 5 \<mapsto> [51]]"
  proof
    fix k :: int
    consider "k = 3" | "k = 5" | "k \<noteq> 3" "k \<noteq> 5" by blast
    then show "vi_map ex_values ?cs k = [3 \<mapsto> [31, 32], 5 \<mapsto> [51]] k" by cases (simp_all add: vi_map_def ex_values_def)
  qed
  ultimately show ?thesis unfolding vi_ok_def by (intro exI conjI) (assumption, rule sym)
qed

lemma index_refines_map_witness:
  "\<exists>es rb s'. vi_remove (\<lambda>_. False) 3 31 ex_values = Some (es, rb, s') \<and> vi_ok s' [3 \<mapsto> [32], 5 \<mapsto> [51]]"
proof -
  have "[3 \<mapsto> [31, 32], 5 \<mapsto> [51]](3 := Some [32]) = [3 \<mapsto> [32::nat], 5::int \<mapsto> [51]]" by (simp add: fun_eq_iff)
  moreover have "avl_ok (vi_tree ex_values)" "192 \<notin> addrs (vi_tree ex_values)" by (simp_all add: ex_values_def)
  ultimately show ?thesis
    using index_refines_map [OF ex_values_ok, of 192 "\<lambda>_. False" 3 31] by simp
qed

end
