(* ===== verification/Index_Position.thy ===== *)
theory Index_Position
  imports Index_Range_Laws
begin

text \<open>
  An iterator while the index changes. At key \<open>k\<close>, the current node and the path are what \<open>find_node\<close> finds
  for \<open>k\<close>; \<open>next\<close> keeps this, and so do insertions, with the notification when the tree was rebalanced, and
  removals of keys that a forward iterator has passed. So an iterator goes on with exactly the entries of the
  changed tree that come after its key.
\<close>

section \<open>The path to a key\<close>

definition pos_stack :: "bool \<Rightarrow> ('k::linorder \<Rightarrow> bool) \<Rightarrow> 'k \<Rightarrow> ('k, 'v) avl \<Rightarrow> addr list" where
  "pos_stack d R k t = seek d (before d k) ((=) k) R t"

lemma pos_stack_simps:
  "pos_stack d R k Null = []"
  "pos_stack d R k (TreeNode a l r h k0 v) =
     (if before d k k0 then pos_stack d R k (first d l r) @ (if R k0 then [a] else [])
      else if k = k0 then [a]
      else pos_stack d R k (second d l r))"
  by (simp_all add: pos_stack_def seek_node)

lemma seeks_before: "seeks d (before d k) ((=) k)"
  using before_trans before_asym before_linear unfolding seeks_def by metis

lemma pos_pending:
  assumes "distinct_addrs t" "bst t" "downward d R" "R k"
  shows "pending d R t (pos_stack d R k t) = filter (\<lambda>e. (before d k (fst e) \<or> k = fst e) \<and> R (fst e)) (dents d t)"
  unfolding pos_stack_def
  by (rule seek_pending [OF part_of_refl [OF assms(1)] assms(2, 3) seeks_before]) (use assms(4) in blast)

text \<open>Where a key is, seen from a node.\<close>

lemma key_side:
  assumes "bst (TreeNode a l r h k0 v)" "(k, b, w) \<in> set (ents (TreeNode a l r h k0 v))"
  shows "before d k k0 \<Longrightarrow> (k, b, w) \<in> set (ents (first d l r))" "before d k0 k \<Longrightarrow> (k, b, w) \<in> set (ents (second d l r))"
    "k = k0 \<Longrightarrow> b = a \<and> w = v"
proof -
  have m: "(k, b, w) = (k0, a, v) \<or> (k, b, w) \<in> set (ents (first d l r)) \<or> (k, b, w) \<in> set (ents (second d l r))"
    using assms(2) by (auto simp: first_def second_def)
  have f: "(k, b, w) \<in> set (ents (first d l r)) \<Longrightarrow> before d k k0" and s: "(k, b, w) \<in> set (ents (second d l r)) \<Longrightarrow> before d k0 k"
    using bst_children(3, 4) [OF assms(1), of "(k, b, w)" d] by auto
  show "before d k k0 \<Longrightarrow> (k, b, w) \<in> set (ents (first d l r))" using m s before_asym by fastforce
  show "before d k0 k \<Longrightarrow> (k, b, w) \<in> set (ents (second d l r))" using m f before_asym by fastforce
  show "k = k0 \<Longrightarrow> b = a \<and> w = v" using m f s by auto
qed

lemma pos_top:
  assumes "bst t" "(k, a, v) \<in> set (ents t)"
  shows "\<exists>q. pos_stack d R k t = a # q"
  using assms
proof (induction t rule: measure_induct_rule [where f = size])
  case (less t)
  show ?case
  proof (cases t)
    case Null
    then show ?thesis using less.prems by simp
  next
    case (TreeNode b l r h k0 w)
    have sizes: "size (first d l r) < size t" "size (second d l r) < size t" by (simp_all add: first_def second_def TreeNode)
    have b: "bst (TreeNode b l r h k0 w)" using less.prems by (simp add: TreeNode)
    note sides = key_side(1, 2) [OF b less.prems(2) [unfolded TreeNode], of d] key_side(3) [OF b less.prems(2) [unfolded TreeNode]]
    consider "before d k k0" | "k = k0" | "before d k0 k" using before_linear by blast
    then show ?thesis
    proof cases
      case 1
      then show ?thesis using less.IH [OF sizes(1) bst_children(1) [OF b] sides(1)] by (auto simp: TreeNode pos_stack_simps)
    next
      case 2
      then show ?thesis using sides(3) by (simp add: TreeNode pos_stack_simps)
    next
      case 3
      then have "\<not> before d k k0" "k \<noteq> k0" using before_asym by auto
      then show ?thesis using less.IH [OF sizes(2) bst_children(2) [OF b] sides(2) [OF 3]] by (simp add: TreeNode pos_stack_simps)
    qed
  qed
qed

section \<open>next\<close>

lemma spine_empty: "\<forall>e\<in>set (ents t). \<not> R (fst e) \<Longrightarrow> spine d R t = []"
  by (induction t) (auto simp: spine_node first_def)

lemma spine_first:
  assumes "bst t" "downward d R" "filter (\<lambda>e. R (fst e)) (dents d t) = (k, a, v) # es"
  shows "spine d R t = pos_stack d R k t"
  using assms(1, 3)
proof (induction t arbitrary: es rule: measure_induct_rule [where f = size])
  case (less t)
  show ?case
  proof (cases t)
    case Null
    then show ?thesis by (simp add: pos_stack_simps)
  next
    case (TreeNode b l r h k0 w)
    have sizes: "size (first d l r) < size t" by (simp add: first_def TreeNode)
    have b: "bst (TreeNode b l r h k0 w)" using less.prems by (simp add: TreeNode)
    show ?thesis
    proof (cases "filter (\<lambda>e. R (fst e)) (dents d (first d l r))")
      case Nil
      have "R k0"
      proof (rule ccontr)
        assume "\<not> R k0"
        then show False using less.prems(2) Nil beyond [OF b assms(2)] by (simp add: TreeNode)
      qed
      then have "k = k0" using less.prems(2) Nil by (simp add: TreeNode)
      moreover have "spine d R (first d l r) = []"
        by (rule spine_empty) (use Nil in \<open>simp add: filter_empty_conv\<close>)
      ultimately show ?thesis using \<open>R k0\<close> by (simp add: TreeNode spine_node pos_stack_simps)
    next
      case (Cons e es')
      then have e: "e = (k, a, v)" using less.prems(2) by (simp add: TreeNode)
      then have "e \<in> set (ents (first d l r))" using Cons by (metis filter_eq_ConsD in_set_conv_decomp set_dents)
      then have "before d k k0" using bst_children(3) [OF b, of e d] e by simp
      moreover have "spine d R (first d l r) = pos_stack d R k (first d l r)"
        using less.IH [OF sizes bst_children(1) [OF b], of es'] Cons e by simp
      ultimately show ?thesis by (simp add: TreeNode spine_node pos_stack_simps)
    qed
  qed
qed

text \<open>
  The path after \<open>next\<close> at key \<open>k\<close>: the spine of the second subtree of its node on the rest of the path is
  the path to the following key in the range, or empty if there is none.
\<close>

lemma pos_next:
  assumes "bst t" "downward d R" "(k, a, v) \<in> set (ents t)" "pos_stack d R k t = a # q" "part_of t u"
    and "subtree_at a u = TreeNode a l r h k v"
  shows "spine d R (second d l r) @ q =
    (case filter (\<lambda>e. before d k (fst e) \<and> R (fst e)) (dents d t) of [] \<Rightarrow> [] | e # es \<Rightarrow> pos_stack d R (fst e) t)"
  using assms(1, 3, 4, 5)
proof (induction t arbitrary: q rule: measure_induct_rule [where f = size])
  case (less t)
  let ?Q = "\<lambda>e. before d k (fst e) \<and> R (fst e)"
  show ?case
  proof (cases t)
    case Null
    then show ?thesis using less.prems by simp
  next
    case (TreeNode b tl tr th k0 w)
    let ?f = "first d tl tr" and ?s = "second d tl tr"
    have sizes: "size ?f < size t" "size ?s < size t" by (simp_all add: first_def second_def TreeNode)
    have b: "bst (TreeNode b tl tr th k0 w)" using less.prems by (simp add: TreeNode)
    have parts: "part_of ?f u" "part_of ?s u" using part_of_children [of b tl tr th k0 w u d] less.prems(4) by (simp_all add: TreeNode)
    note sides = key_side(1, 2) [OF b less.prems(2) [unfolded TreeNode], of d] key_side(3) [OF b less.prems(2) [unfolded TreeNode]]
    have fk: "\<And>e. e \<in> set (ents ?f) \<Longrightarrow> before d (fst e) k0" and sk: "\<And>e. e \<in> set (ents ?s) \<Longrightarrow> before d k0 (fst e)"
      using bst_children(3, 4) [OF b, of _ d] by blast+
    consider "before d k k0" | "k = k0" | "before d k0 k" using before_linear by blast
    then show ?thesis
    proof cases
      case 1
      obtain q' where q': "pos_stack d R k ?f = a # q'" using pos_top [OF bst_children(1) [OF b] sides(1) [OF 1]] by blast
      have q: "q = q' @ (if R k0 then [b] else [])" using less.prems(3) q' 1 by (simp add: TreeNode pos_stack_simps)
      have ih: "spine d R (second d l r) @ q' = (case filter ?Q (dents d ?f) of [] \<Rightarrow> [] | e # es \<Rightarrow> pos_stack d R (fst e) ?f)"
        by (rule less.IH [OF sizes(1) bst_children(1) [OF b] sides(1) [OF 1] q' parts(1)])
      show ?thesis
      proof (cases "filter ?Q (dents d ?f)")
        case Nil
        then have s: "spine d R (second d l r) @ q' = []" using ih by simp
        show ?thesis
        proof (cases "R k0")
          case True
          then have "filter ?Q (dents d t) = (k0, b, w) # filter ?Q (dents d ?s)" using Nil 1 by (simp add: TreeNode)
          then show ?thesis using s q True by (simp add: TreeNode pos_stack_simps)
        next
          case False
          then have "filter (\<lambda>e. R (fst e)) (dents d ?s) = []" using beyond [OF b assms(2)] by blast
          then have "filter ?Q (dents d ?s) = []" by (auto simp: filter_empty_conv)
          then have "filter ?Q (dents d t) = []" using Nil False by (simp add: TreeNode)
          then show ?thesis using s q False by simp
        qed
      next
        case (Cons e es)
        then have "e \<in> set (ents ?f)" by (metis filter_eq_ConsD in_set_conv_decomp set_dents)
        then have "before d (fst e) k0" using fk by blast
        then show ?thesis using ih q Cons by (simp add: TreeNode pos_stack_simps)
      qed
    next
      case 2
      then have ab: "b = a" "w = v" using sides(3) by simp_all
      have "subtree_at a u = t" using less.prems(4) ab by (simp add: TreeNode part_of_def)
      then have same: "tl = l" "tr = r" using assms(6) by (simp_all add: TreeNode)
      have q: "q = []" using less.prems(3) 2 by (simp add: TreeNode pos_stack_simps)
      have f0: "filter ?Q (dents d ?f) = []" using fk 2 before_asym by (fastforce simp: filter_empty_conv)
      have s0: "filter ?Q (dents d ?s) = filter (\<lambda>e. R (fst e)) (dents d ?s)" using sk 2 by (intro filter_cong) auto
      have all: "filter ?Q (dents d t) = filter (\<lambda>e. R (fst e)) (dents d ?s)" using f0 s0 2 by (simp add: TreeNode)
      show ?thesis
      proof (cases "filter (\<lambda>e. R (fst e)) (dents d ?s)")
        case Nil
        have "spine d R ?s = []" by (rule spine_empty) (use Nil in \<open>simp add: filter_empty_conv\<close>)
        then show ?thesis using all Nil q same by simp
      next
        case (Cons e es)
        then have "e \<in> set (ents ?s)" by (metis filter_eq_ConsD in_set_conv_decomp set_dents)
        then have "before d k0 (fst e)" using sk by blast
        then have nb: "\<not> before d (fst e) k0" "fst e \<noteq> k0" using before_asym by auto
        have "spine d R ?s = pos_stack d R (fst e) ?s"
          using spine_first [OF bst_children(2) [OF b] assms(2), where k = "fst e" and a = "fst (snd e)" and v = "snd (snd e)" and es = es] Cons by simp
        then show ?thesis using all Cons q same nb by (simp add: TreeNode pos_stack_simps)
      qed
    next
      case 3
      then have n3: "\<not> before d k k0" "k \<noteq> k0" using before_asym by auto
      obtain q' where q': "pos_stack d R k ?s = a # q'" using pos_top [OF bst_children(2) [OF b] sides(2) [OF 3]] by blast
      have q: "q = q'" using less.prems(3) q' n3 by (simp add: TreeNode pos_stack_simps)
      have ih: "spine d R (second d l r) @ q' = (case filter ?Q (dents d ?s) of [] \<Rightarrow> [] | e # es \<Rightarrow> pos_stack d R (fst e) ?s)"
        by (rule less.IH [OF sizes(2) bst_children(2) [OF b] sides(2) [OF 3] q' parts(2)])
      have f0: "filter ?Q (dents d ?f) = []" using fk 3 before_asym before_trans by (fastforce simp: filter_empty_conv)
      have all: "filter ?Q (dents d t) = filter ?Q (dents d ?s)" using f0 n3 by (simp add: TreeNode)
      show ?thesis
      proof (cases "filter ?Q (dents d ?s)")
        case Nil
        then show ?thesis using ih q all by simp
      next
        case (Cons e es)
        then have "e \<in> set (ents ?s)" by (metis filter_eq_ConsD in_set_conv_decomp set_dents)
        then have "before d k0 (fst e)" using sk by blast
        then have "\<not> before d (fst e) k0" "fst e \<noteq> k0" using before_asym by auto
        then show ?thesis using ih q all Cons by (simp add: TreeNode pos_stack_simps)
      qed
    qed
  qed
qed

section \<open>An iterator at a key\<close>

definition it_at :: "('k::linorder, list_hdr) avl \<Rightarrow> 'k index_iterator \<Rightarrow> 'k \<Rightarrow> bool" where
  "it_at t it k \<longleftrightarrow> ranged (it_class it) \<and> class_range (it_class it) k \<and> k \<in> fst ` set (ents t) \<and>
     (\<exists>a. it_curr it = Some a \<and> a # it_path it = pos_stack (class_dir (it_class it)) (class_range (it_class it)) k t)"

text \<open>The entries that come after \<open>k\<close>, in the iterator's order.\<close>

definition rest_after :: "('k::linorder, list_hdr) avl \<Rightarrow> 'k it_class \<Rightarrow> 'k \<Rightarrow> ('k \<times> addr \<times> list_hdr) list" where
  "rest_after t c k = filter (\<lambda>e. before (class_dir c) k (fst e) \<and> class_range c (fst e)) (dents (class_dir c) t)"

lemma it_at_node:
  assumes "bst t" "it_at t it k"
  obtains a v where "(k, a, v) \<in> set (ents t)" "it_curr it = Some a"
    "pos_stack (class_dir (it_class it)) (class_range (it_class it)) k t = a # it_path it"
proof -
  obtain a v where e: "(k, a, v) \<in> set (ents t)" using assms(2) by (force simp: it_at_def)
  obtain q where "pos_stack (class_dir (it_class it)) (class_range (it_class it)) k t = a # q" using pos_top [OF assms(1) e] by blast
  then show ?thesis using that e assms(2) by (auto simp: it_at_def)
qed

lemma pos_addrs: "set (pos_stack d R k t) \<subseteq> addrs t"
  unfolding pos_stack_def by (rule seek_addrs)

lemma node_key:
  assumes "distinct_addrs t" "(k, a, v) \<in> set (ents t)"
  obtains l r h where "subtree_at a t = TreeNode a l r h k v"
proof -
  have "a \<in> addrs t" using assms(2) by (force simp: addrs_ents)
  then obtain l r h k' v' where n: "subtree_at a t = TreeNode a l r h k' v'" "(k', a, v') \<in> set (ents t)" using subtree_at_node by blast
  have "map (\<lambda>e. fst (snd e)) (ents t) = addr_list t" by (induction t) simp_all
  then have "distinct (map (\<lambda>e. fst (snd e)) (ents t))" using assms(1) by (simp add: distinct_addrs_def)
  then have "(k', a, v') = (k, a, v)" using n(2) assms(2) unfolding distinct_map by (auto dest: inj_onD [where x = "(k', a, v')" and y = "(k, a, v)"])
  then show ?thesis using that n(1) by simp
qed

lemma before_fun: "before True = (\<lambda>x y. y < x)" "before False = (<)"
  by (simp_all add: fun_eq_iff before_def)

text \<open>The first entry after \<open>k\<close> splits the others into those before and those after it.\<close>

lemma rest_split:
  assumes b: "bst t" and c: "rest_after t c k = e # es"
  shows "\<exists>us vs. dents (class_dir c) t = us @ e # vs \<and>
    es = filter (\<lambda>x. before (class_dir c) k (fst x) \<and> class_range c (fst x)) vs \<and>
    before (class_dir c) k (fst e) \<and> class_range c (fst e) \<and>
    (\<forall>u\<in>set us. before (class_dir c) (fst u) (fst e)) \<and> (\<forall>u\<in>set vs. before (class_dir c) (fst e) (fst u))"
proof -
  let ?d = "class_dir c"
  have "sorted_wrt (<) (map fst (ents t))" using b by (simp add: bst_def keys_ents)
  then have srt: "sorted_wrt (before ?d) (map fst (dents ?d t))"
    by (cases ?d) (simp_all add: before_fun dents_def sorted_wrt_rev rev_map [symmetric])
  have f: "filter (\<lambda>x. before ?d k (fst x) \<and> class_range c (fst x)) (dents ?d t) = e # es" using c by (simp add: rest_after_def)
  from filter_eq_ConsD [OF f] obtain us vs where uv: "dents ?d t = us @ e # vs"
    "es = filter (\<lambda>x. before ?d k (fst x) \<and> class_range c (fst x)) vs" "before ?d k (fst e)" "class_range c (fst e)" by blast
  moreover have "\<forall>u\<in>set us. before ?d (fst u) (fst e)" "\<forall>u\<in>set vs. before ?d (fst e) (fst u)"
    using srt unfolding uv(1) by (auto simp: sorted_wrt_append)
  ultimately show ?thesis by blast
qed

lemma rest_step:
  assumes b: "bst t" and c: "rest_after t c k = e # es"
  shows "es = rest_after t c (fst e)"
proof -
  let ?d = "class_dir c"
  obtain us vs where uv: "dents ?d t = us @ e # vs" "es = filter (\<lambda>x. before ?d k (fst x) \<and> class_range c (fst x)) vs"
    "before ?d k (fst e)" "\<forall>u\<in>set us. before ?d (fst u) (fst e)" "\<forall>u\<in>set vs. before ?d (fst e) (fst u)"
    using rest_split [OF assms] by blast
  have "filter (\<lambda>x. before ?d (fst e) (fst x) \<and> class_range c (fst x)) us = []"
    using uv(4) before_asym by (fastforce simp: filter_empty_conv)
  moreover have "filter (\<lambda>x. before ?d (fst e) (fst x) \<and> class_range c (fst x)) vs = es"
    unfolding uv(2)
  proof (rule filter_cong [OF refl])
    fix u
    assume "u \<in> set vs"
    then have "before ?d (fst e) (fst u)" using uv(5) by blast
    then show "(before ?d (fst e) (fst u) \<and> class_range c (fst u)) = (before ?d k (fst u) \<and> class_range c (fst u))"
      using before_trans [OF uv(3)] by blast
  qed
  ultimately show ?thesis by (simp add: rest_after_def uv(1))
qed

text \<open>What is left of the path yields the entries after the key.\<close>

lemma at_pending:
  assumes t: "distinct_addrs t" "bst t" and at: "it_at t it k"
  shows "\<exists>a. it_curr it = Some a \<and>
    pending (class_dir (it_class it)) (class_range (it_class it)) t (class_next (it_class it) (subtree_at a t) @ it_path it) =
    rest_after t (it_class it) k"
proof -
  let ?c = "it_class it" let ?d = "class_dir ?c" let ?R = "class_range ?c"
  have c: "ranged ?c" "?R k" using at by (simp_all add: it_at_def)
  obtain a v where e: "(k, a, v) \<in> set (ents t)" "it_curr it = Some a" "pos_stack ?d ?R k t = a # it_path it"
    using it_at_node [OF t(2) at] by metis
  obtain l r h where n: "subtree_at a t = TreeNode a l r h k v" using node_key [OF t(1) e(1)] by blast
  have nx: "class_next ?c (subtree_at a t) = spine ?d ?R (second ?d l r)" by (simp add: n)
  have q: "spine ?d ?R (second ?d l r) @ it_path it = (case rest_after t ?c k of [] \<Rightarrow> [] | e # es \<Rightarrow> pos_stack ?d ?R (fst e) t)"
    unfolding rest_after_def
    by (rule pos_next [OF t(2) downward_class [OF c(1)] e(1, 3) part_of_refl [OF t(1)] n])
  show ?thesis
  proof (cases "rest_after t ?c k")
    case Nil
    then show ?thesis using q nx e(2) by simp
  next
    case (Cons e' es)
    note sp = rest_split [OF t(2) Cons]
    obtain us vs where uv: "dents ?d t = us @ e' # vs" "es = filter (\<lambda>e. before ?d k (fst e) \<and> ?R (fst e)) vs"
      "before ?d k (fst e')" "?R (fst e')" "\<forall>u\<in>set us. before ?d (fst u) (fst e')" "\<forall>u\<in>set vs. before ?d (fst e') (fst u)"
      using sp by blast
    have "pending ?d ?R t (pos_stack ?d ?R (fst e') t) = filter (\<lambda>e. (before ?d (fst e') (fst e) \<or> fst e' = fst e) \<and> ?R (fst e)) (dents ?d t)"
      by (rule pos_pending [OF t downward_class [OF c(1)] uv(4)])
    also have "\<dots> = e' # rest_after t ?c (fst e')"
    proof -
      have "filter (\<lambda>e. (before ?d (fst e') (fst e) \<or> fst e' = fst e) \<and> ?R (fst e)) us = []"
        "filter (\<lambda>e. before ?d (fst e') (fst e) \<and> ?R (fst e)) us = []"
        using uv(5) before_asym by (fastforce simp: filter_empty_conv)+
      moreover have "filter (\<lambda>e. (before ?d (fst e') (fst e) \<or> fst e' = fst e) \<and> ?R (fst e)) vs =
          filter (\<lambda>e. before ?d (fst e') (fst e) \<and> ?R (fst e)) vs"
        using uv(6) by (intro filter_cong) auto
      ultimately show ?thesis using uv(4) by (simp add: rest_after_def uv(1))
    qed
    also have "\<dots> = rest_after t ?c k" using rest_step [OF t(2) Cons] Cons by simp
    finally show ?thesis using q [symmetric] nx e(2) Cons by simp
  qed
qed

lemma at_elements:
  assumes t: "distinct_addrs t" "bst t" and at: "it_at t it k" and v: "\<not> it_vacant it"
    and ls: "lists_ok t m cs" and l: "links m (it_list it) as" "as \<noteq> []"
  shows "elements t m it = Some (cell_contents m as @ entry_elements m cs (rest_after t (it_class it) k))"
proof -
  obtain a where a: "it_curr it = Some a"
      "pending (class_dir (it_class it)) (class_range (it_class it)) t (class_next (it_class it) (subtree_at a t) @ it_path it) =
       rest_after t (it_class it) k"
    using at_pending [OF t at] by blast
  have c: "ranged (it_class it)" using at by (simp add: it_at_def)
  have "set (a # it_path it) \<subseteq> addrs t"
  proof -
    have "a # it_path it = pos_stack (class_dir (it_class it)) (class_range (it_class it)) k t"
      using at a(1) by (auto simp: it_at_def)
    then show ?thesis by (simp only: pos_addrs)
  qed
  then have sub: "a \<in> addrs t" "set (it_path it) \<subseteq> addrs t" by auto
  show ?thesis
    by (rule elements_from [OF scans_ranged [OF t c] ls refl v a(1) sub l]) (simp add: a(2) [symmetric])
qed

end
