(* ===== verification/Index_Changes.thy ===== *)
theory Index_Changes
  imports Property_Index Index_Position
begin

text \<open>
  Iterators over an index that changes under them. \<open>add\<close> and \<open>remove\<close> notify the iterators of the
  transaction: of a cell before it is unlinked, and after the tree was rebalanced. Properties: an iterator
  goes on correctly after any \<open>add\<close>, and a forward iterator after the removal of its current element; a
  reverse iterator can be left on a freed node.
\<close>

section \<open>Notifications\<close>

fun notify_cells ::
    "'k::linorder index_tree \<Rightarrow> (addr \<Rightarrow> 'e cell) \<Rightarrow> list_event list \<Rightarrow> 'k index_iterator \<Rightarrow> 'k index_iterator option" where
  "notify_cells t m [] it = Some it"
| "notify_cells t m (e # es) it =
     (case e of RemoveNotify p \<Rightarrow> Option.bind (remove_notify t m p it) (notify_cells t m es)
      | _ \<Rightarrow> notify_cells t m es it)"

definition notify_rebalanced :: "bool \<Rightarrow> 'k::linorder index_tree \<Rightarrow> 'k index_iterator \<Rightarrow> 'k index_iterator option" where
  "notify_rebalanced rb t it = (if rb then rebalance_notify t it else Some it)"

text \<open>The two operations with one registered iterator; \<open>None\<close> is a null or freed pointer or a failed assertion.\<close>

definition add_under ::
    "(lock_item \<Rightarrow> bool) \<Rightarrow> 'k::linorder \<Rightarrow> addr \<Rightarrow> addr \<Rightarrow> 'k value_index \<Rightarrow> 'k index_iterator \<Rightarrow>
     (unit result \<times> 'k value_index \<times> 'k index_iterator) option" where
  "add_under wl key obj n s it =
     (case vi_add wl key obj n s of None \<Rightarrow> None
      | Some (r, rb, s') \<Rightarrow> map_option (\<lambda>it'. (r, s', it')) (notify_rebalanced rb (vi_tree s') it))"

definition remove_under ::
    "(lock_item \<Rightarrow> bool) \<Rightarrow> 'k::linorder \<Rightarrow> addr \<Rightarrow> 'k value_index \<Rightarrow> 'k index_iterator \<Rightarrow>
     ('k value_index \<times> 'k index_iterator) option" where
  "remove_under wl key obj s it =
     (case vi_remove wl key obj s of None \<Rightarrow> None
      | Some (les, rb, s') \<Rightarrow>
          map_option (Pair s')
            (Option.bind (notify_cells (vi_tree s) (lh_cells (vi_lists s)) les it) (notify_rebalanced rb (vi_tree s'))))"

section \<open>Paths in the changed tree\<close>

lemma pos_set_value [simp]: "pos_stack d R k (set_value b w t) = pos_stack d R k t"
  unfolding pos_stack_def by (cases d; induction t; simp add: seek.simps(2))

text \<open>A change within one subtree.\<close>

lemma pos_in_place:
  assumes "distinct_addrs t" "bst t" "k \<in> fst ` set (ents t)"
    and "ptr (subtree_at b t) = Some b" "ptr (f (subtree_at b t)) = Some b"
    and "k \<in> fst ` set (ents (subtree_at b t)) \<Longrightarrow> pos_stack d R k (f (subtree_at b t)) = pos_stack d R k (subtree_at b t)"
  shows "pos_stack d R k (in_place b f t) = pos_stack d R k t"
  using assms
proof (induction t)
  case (TreeNode a l r h k0 v)
  note bo = ents_bst [OF TreeNode.prems(2)]
  show ?case
  proof (cases "b = a")
    case True
    then show ?thesis using TreeNode.prems by (simp add: subtree_at_ptr)
  next
    case False
    have l: "pos_stack d R k (in_place b f l) = pos_stack d R k l" if "k \<in> fst ` set (ents l)"
    proof (cases "b \<in> addrs l")
      case True
      then show ?thesis using TreeNode.IH(1) [OF _ _ that] TreeNode.prems False by simp
    qed (simp add: in_place_out)
    have r: "pos_stack d R k (in_place b f r) = pos_stack d R k r" if "k \<in> fst ` set (ents r)"
    proof (cases "b \<in> addrs r")
      case True
      then have "b \<notin> addrs l" using TreeNode.prems(1) by auto
      then show ?thesis using TreeNode.IH(2) [OF _ _ that] TreeNode.prems False by simp
    qed (simp add: in_place_out)
    have kl: "k \<in> fst ` set (ents l)" if "k < k0" using TreeNode.prems(3) bo that by (auto simp: image_iff)
    have kr: "k \<in> fst ` set (ents r)" if "k0 < k" using TreeNode.prems(3) bo that by (auto simp: image_iff)
    show ?thesis using l [OF kl] r [OF kr] False
      by (cases d; cases "k < k0"; cases "k = k0") (auto simp: pos_stack_simps first_def second_def before_def)
  qed
qed simp

lemma set_height_shape:
  "pos_stack d R k (fst (set_height t)) = pos_stack d R k t" "ptr (fst (set_height t)) = ptr t"
  by (cases t; auto simp: Let_def pos_stack_simps)+

declare set_height.simps [simp del]

text \<open>Without a rotation, \<open>add\<close> keeps the paths to the keys that are there, and the root.\<close>

abbreviation add_rb :: "'k::linorder \<Rightarrow> 'v \<Rightarrow> addr \<Rightarrow> ('k, 'v) avl \<Rightarrow> bool" where
  "add_rb key v0 n t \<equiv> snd (snd (snd (add_recursive key v0 n t)))"

lemma add_steps:
  assumes "\<not> add_rb key v0 n (TreeNode a l r h k v)" "key \<noteq> k"
  shows "key < k \<Longrightarrow> add_tree key v0 n (TreeNode a l r h k v) = fst (set_height (TreeNode a (add_tree key v0 n l) r h k v)) \<and> \<not> add_rb key v0 n l"
    "k < key \<Longrightarrow> add_tree key v0 n (TreeNode a l r h k v) = fst (set_height (TreeNode a l (add_tree key v0 n r) h k v)) \<and> \<not> add_rb key v0 n r"
  using assms by (auto simp: add_tree_def case_prod_unfold Let_def split: if_splits)

lemma pos_add:
  assumes "bst t" "k \<in> fst ` set (ents t)" "\<not> add_rb key v0 n t"
  shows "pos_stack d R k (add_tree key v0 n t) = pos_stack d R k t \<and> ptr (add_tree key v0 n t) = ptr t"
  using assms
proof (induction t)
  case (TreeNode a l r h k0 v)
  note b = ents_bst [OF TreeNode.prems(1)]
  have bs: "bst l" "bst r" using TreeNode.prems(1) by simp_all
  show ?case
  proof (cases "key = k0")
    case True
    then show ?thesis by (simp add: add_tree_def)
  next
    case False
    note st = add_steps [OF TreeNode.prems(3) False]
    have kl: "k \<in> fst ` set (ents l)" if "k < k0" using TreeNode.prems(2) b that by (auto simp: image_iff)
    have kr: "k \<in> fst ` set (ents r)" if "k0 < k" using TreeNode.prems(2) b that by (auto simp: image_iff)
    show ?thesis
    proof (cases "key < k0")
      case True
      then have "k < k0 \<Longrightarrow> pos_stack d R k (add_tree key v0 n l) = pos_stack d R k l" using TreeNode.IH(1) [OF bs(1)] kl st(1) by blast
      then show ?thesis
        using st(1) True by (cases d; cases "k < k0"; cases "k = k0")
          (auto simp: set_height_shape pos_stack_simps first_def second_def before_def)
    next
      case gt: False
      then have "k0 < k \<Longrightarrow> pos_stack d R k (add_tree key v0 n r) = pos_stack d R k r" using TreeNode.IH(2) [OF bs(2)] kr st(2) False by (auto simp: not_less_iff_gr_or_eq)
      then show ?thesis
        using st(2) gt False by (cases d; cases "k0 < k"; cases "k = k0")
          (auto simp: set_height_shape pos_stack_simps first_def second_def before_def)
    qed
  qed
qed simp

lemma subtree_root: "subtree_at b t \<noteq> Null \<Longrightarrow> ptr (subtree_at b t) = Some b"
  by (induction t) auto

lemma subtree_addrs: "subtree_at b t = Null \<Longrightarrow> b \<notin> addrs t"
  by (induction t) (auto split: if_splits)

lemma pos_avl_add:
  assumes t: "bst t" "distinct_addrs t" and k: "k \<in> fst ` set (ents t)" and add: "avl_add wl key v0 n t = (t', p, es, False, lk)"
  shows "pos_stack d R k t' = pos_stack d R k t"
proof -
  obtain retval to_lock lk' where g: "get_locks_add wl key t = (retval, to_lock, lk')" by (metis prod_cases3)
  consider "t' = t" | "t' = add_tree key v0 n t" "\<not> add_rb key v0 n t"
    | b where "t' = in_place b (add_tree key v0 n) t" "\<not> add_rb key v0 n (subtree_at b t)"
    using add by (auto simp: avl_add_def g add_tree_def [abs_def] case_prod_unfold Let_def split: if_splits option.splits)
  then show ?thesis
  proof cases
    case 2
    then show ?thesis using pos_add [OF t(1) k] by simp
  next
    case (3 b)
    show ?thesis
    proof (cases "subtree_at b t = Null")
      case True
      then show ?thesis using 3(1) in_place_out [OF subtree_addrs [OF True]] by simp
    next
      case False
      have s: "bst (subtree_at b t)" using subtree_at_props [OF t(2, 1)] by blast
      obtain a l r h k0 v where n: "subtree_at b t = TreeNode a l r h k0 v" using False by (cases "subtree_at b t") auto
      have "k0 \<in> fst ` set (ents (subtree_at b t))" by (simp add: n)
      then have root: "ptr (add_tree key v0 n (subtree_at b t)) = Some b"
        using pos_add [OF s _ 3(2)] subtree_root [OF False] by metis
      show ?thesis
        unfolding 3(1)
        by (rule pos_in_place [where f = "add_tree key v0 n", OF t(2, 1) k subtree_root [OF False] root]) (use pos_add [OF s _ 3(2)] in blast)
    qed
  qed simp
qed

text \<open>Without a rotation, \<open>remove\<close> keeps the forward paths to the keys after the removed one.\<close>

abbreviation remove_rb :: "'k::linorder \<Rightarrow> ('k, 'v) avl \<Rightarrow> bool" where
  "remove_rb key t \<equiv> snd (snd (remove_recursive key t))"

lemma remove_steps:
  assumes "\<not> remove_rb key (TreeNode a l r h k v)"
  shows "k < key \<Longrightarrow> remove_tree key (TreeNode a l r h k v) = fst (set_height (TreeNode a l (remove_tree key r) h k v)) \<and> \<not> remove_rb key r"
    "key < k \<Longrightarrow> remove_tree key (TreeNode a l r h k v) = fst (set_height (TreeNode a (remove_tree key l) r h k v)) \<and> \<not> remove_rb key l"
    "key = k \<Longrightarrow> l \<noteq> Null \<Longrightarrow> r \<noteq> Null \<Longrightarrow> find_max l = TreeNode pa pl pr ph pk pv \<Longrightarrow>
      remove_tree key (TreeNode a l r h k v) = fst (set_height (TreeNode a (remove_tree pk l) r h pk pv))"
proof -
  show "k < key \<Longrightarrow> remove_tree key (TreeNode a l r h k v) = fst (set_height (TreeNode a l (remove_tree key r) h k v)) \<and> \<not> remove_rb key r"
    using assms by (auto simp: remove_tree_def after_right_def case_prod_unfold Let_def split: if_splits)
  show "key < k \<Longrightarrow> remove_tree key (TreeNode a l r h k v) = fst (set_height (TreeNode a (remove_tree key l) r h k v)) \<and> \<not> remove_rb key l"
    using assms by (auto simp: remove_tree_def after_left_def case_prod_unfold Let_def split: if_splits)
  show "key = k \<Longrightarrow> l \<noteq> Null \<Longrightarrow> r \<noteq> Null \<Longrightarrow> find_max l = TreeNode pa pl pr ph pk pv \<Longrightarrow>
      remove_tree key (TreeNode a l r h k v) = fst (set_height (TreeNode a (remove_tree pk l) r h pk pv))"
    using assms by (auto simp: remove_tree_def after_left_def case_prod_unfold Let_def split: if_splits)
qed

lemma pos_all_before: "\<forall>e\<in>set (ents t). fst e < k \<Longrightarrow> pos_stack False R k t = []"
  by (induction t) (auto simp: pos_stack_simps first_def second_def before_def)

lemma max_key:
  assumes "find_max t = TreeNode pa pl pr ph pk pv"
  shows "pk \<in> fst ` set (ents t)"
proof -
  obtain ps where "kv t = ps @ [(pk, pv)]" using find_max_kv [OF assms] by blast
  then have "pk \<in> set (map fst (kv t))" by simp
  then show ?thesis unfolding keys_ents by simp
qed

lemma pos_remove:
  assumes "bst t" "key < k" "\<not> remove_rb key t"
  shows "pos_stack False R k (remove_tree key t) = pos_stack False R k t"
  using assms
proof (induction t)
  case (TreeNode a l r h k0 v)
  note b = ents_bst [OF TreeNode.prems(1)] and st = remove_steps [OF TreeNode.prems(3)]
  have bs: "bst l" "bst r" using TreeNode.prems(1) by simp_all
  note simps = set_height_shape pos_stack_simps first_def second_def before_def
  consider "k0 < key" | "key < k0" | "key = k0" by (rule linorder_cases)
  then show ?case
  proof cases
    case 1
    then have "pos_stack False R k (remove_tree key r) = pos_stack False R k r" using TreeNode.IH(2) [OF bs(2)] TreeNode.prems(2) st(1) by blast
    then show ?thesis using 1 st(1) TreeNode.prems(2) by (auto simp: simps)
  next
    case 2
    then have "pos_stack False R k (remove_tree key l) = pos_stack False R k l" using TreeNode.IH(1) [OF bs(1)] TreeNode.prems(2) st(2) by blast
    then show ?thesis using 2 st(2) by (simp add: simps)
  next
    case 3
    have at: "pos_stack False R k (TreeNode a l r h k0 v) = pos_stack False R k r" using 3 TreeNode.prems(2) by (auto simp: simps)
    show ?thesis
    proof (cases "l = Null \<or> r = Null")
      case True
      have "pos_stack False R k l = []" by (rule pos_all_before) (use b 3 TreeNode.prems(2) in \<open>auto dest: less_trans\<close>)
      then show ?thesis using True at 3 by (cases "l = Null") (auto simp: remove_tree_simps(3) pos_stack_simps)
    next
      case False
      then obtain pa pl pr ph pk pv where m: "find_max l = TreeNode pa pl pr ph pk pv"
        using find_max_node [of l] by (cases "find_max l") auto
      have "pk < k0" using max_key [OF m] b by auto
      then have "pk < k" using 3 TreeNode.prems(2) by simp
      then show ?thesis using st(3) [OF 3 _ _ m] False at by (auto simp: simps)
    qed
  qed
qed (simp add: remove_tree_simps)

lemma pos_avl_remove:
  assumes t: "avl_ok t" "bst t" "distinct_addrs t" and k: "k \<in> fst ` set (ents t)" "key < k" and key: "\<not> absent key t"
    and rem: "avl_remove wl key t = (res, t', es, False, lk)"
  shows "pos_stack False R k t' = pos_stack False R k t"
proof -
  note a = avl_remove_root [OF t, of wl key]
  have t': "t' = remove_tree key t" using a rem by simp
  from a rem key consider "\<not> remove_rb key t"
    | b where "ptr (subtree_at b t) = Some b" "ptr (remove_tree key (subtree_at b t)) = Some b"
      "in_place b (remove_tree key) t = remove_tree key t" "\<not> remove_rb key (subtree_at b t)" by auto
  then show ?thesis
  proof cases
    case 1
    then show ?thesis unfolding t' by (rule pos_remove [OF t(2) k(2)])
  next
    case (2 b)
    have s: "bst (subtree_at b t)" using subtree_at_props [OF t(3, 2)] by blast
    show ?thesis
      unfolding t' 2(3) [symmetric]
      by (rule pos_in_place [where f = "remove_tree key", OF t(3, 2) k(1) 2(1, 2)]) (rule pos_remove [OF s k(2) 2(4)])
  qed
qed

text \<open>\<open>remove\<close> leaves the later keys on their nodes, rotations or not.\<close>

lemma later_ents:
  assumes "bst t"
  shows "filter (\<lambda>e. key < fst e) (ents (remove_tree key t)) = filter (\<lambda>e. key < fst e) (ents t)"
  using assms
proof (induction t)
  case (TreeNode a l r h k v)
  note b = ents_bst [OF TreeNode.prems]
  have bs: "bst l" "bst r" using TreeNode.prems by simp_all
  have keys: "fst ` set (ents (remove_tree q l)) \<subseteq> fst ` set (ents l)" for q
  proof -
    have "set (map fst (ents (remove_tree q l))) \<subseteq> set (map fst (ents l))"
      unfolding keys_ents [symmetric] kv_remove [OF bs(1)] by auto
    then show ?thesis by simp
  qed
  have early: "filter (\<lambda>e. key < fst e) (ents l) = []" "filter (\<lambda>e. key < fst e) (ents (remove_tree q l)) = []" if "k \<le> key" for q
  proof -
    show "filter (\<lambda>e. key < fst e) (ents l) = []" using b that by (force simp: filter_empty_conv)
    have "fst e < k" if "e \<in> set (ents (remove_tree q l))" for e
    proof -
      have "fst e \<in> fst ` set (ents l)" using keys that by blast
      then show ?thesis using b by auto
    qed
    then show "filter (\<lambda>e. key < fst e) (ents (remove_tree q l)) = []" using that by (force simp: filter_empty_conv)
  qed
  consider "key < k" | "key = k" | "k < key" by (rule linorder_cases)
  then show ?case
  proof cases
    case 1
    then show ?thesis using TreeNode.IH(1) [OF bs(1)] by (simp add: remove_tree_left Let_def)
  next
    case 2
    show ?thesis
    proof (cases "l = Null \<or> r = Null")
      case True
      then show ?thesis using 2 early by (auto simp: remove_tree_simps(3))
    next
      case False
      then obtain pa pl pr ph pk pv where m: "find_max l = TreeNode pa pl pr ph pk pv"
        using find_max_node [of l] by (cases "find_max l") auto
      have "pk < k" using max_key [OF m] b by auto
      then show ?thesis using False m 2 early by (simp add: remove_tree_simps(4) Let_def)
    qed
  next
    case 3
    then show ?thesis using TreeNode.IH(2) [OF bs(2)] early(1) by (auto simp: remove_tree_simps(2) Let_def)
  qed
qed (simp add: remove_tree_simps)

section \<open>An iterator keeps its place\<close>

lemma find_node_pos:
  assumes "ranged c"
  shows "fst (find_node t c (Compare k True) ([], lk)) = pos_stack (class_dir c) (class_range c) k t"
proof -
  have "c_lessthan (Compare k True) = before False k" "c_greaterthan (Compare k True) = before True k"
    "c_equals (Compare k True) = (=) k" for k :: 'a
    by (auto simp: fun_eq_iff before_def c_lessthan_def c_greaterthan_def c_equals_def)
  then show ?thesis using assms by (cases c) (simp_all add: find_node_def path_simps pos_stack_def class_range_eqs)
qed

lemma stays_at:
  assumes t: "bst t" and t': "bst t'" "distinct_addrs t'" and at: "it_at t it k" and l: "it_list it \<noteq> 0"
    and keep: "\<And>a v. (k, a, v) \<in> set (ents t) \<Longrightarrow> \<exists>v'. (k, a, v') \<in> set (ents t')"
    and path: "\<not> rb \<Longrightarrow> pos_stack (class_dir (it_class it)) (class_range (it_class it)) k t' =
      pos_stack (class_dir (it_class it)) (class_range (it_class it)) k t"
  obtains it' where "notify_rebalanced rb t' it = Some it'" "it_at t' it' k" "it_list it' = it_list it"
    "it_class it' = it_class it" "it_vacant it' = it_vacant it"
proof -
  let ?c = "it_class it" let ?ps = "pos_stack (class_dir ?c) (class_range ?c) k"
  have c: "ranged ?c" "class_range ?c k" using at by (simp_all add: it_at_def)
  obtain a v where a: "(k, a, v) \<in> set (ents t)" "it_curr it = Some a" "?ps t = a # it_path it"
    using it_at_node [OF t at] by metis
  obtain v' where e: "(k, a, v') \<in> set (ents t')" using keep [OF a(1)] by blast
  then have k: "k \<in> fst ` set (ents t')" by force
  show ?thesis
  proof (cases rb)
    case False
    then have "it_at t' it k" using path a c k by (auto simp: it_at_def)
    then show ?thesis using that [of it] False by (simp add: notify_rebalanced_def)
  next
    case True
    obtain l r h where n: "subtree_at a t' = TreeNode a l r h k v'" using node_key [OF t'(2) e] by blast
    obtain q where q: "?ps t' = a # q" using pos_top [OF t'(1) e] by blast
    obtain lk where f: "find_node t' ?c (Compare k True) ([], it_locks it) = (a # q, lk)"
      using find_node_pos [OF c(1), of t' k "it_locks it"] q by (metis prod.collapse)
    let ?it = "it\<lparr>it_curr := Some a, it_path := q, it_locks := lk\<rparr>"
    have "notify_rebalanced rb t' it = Some ?it"
      using True l a(2) n f by (simp add: notify_rebalanced_def rebalance_notify_def deref_def)
    moreover have "it_at t' ?it k" using q c k by (simp add: it_at_def)
    ultimately show ?thesis using that by simp
  qed
qed

end
