(* ===== verification/Index_Iteration.thy ===== *)
theory Index_Iteration
  imports Index_Changes
begin

text \<open>
  Iterating over an index while it changes, in terms of the map that the index stands for: what an
  iterator at a key still yields, before and after an \<open>add\<close> or the removal of its current element.
\<close>

section \<open>What an iterator still yields\<close>

text \<open>The keys in the range after \<open>k\<close>, and their objects in the iterator's order.\<close>

definition ahead :: "'k::linorder it_class \<Rightarrow> 'k \<Rightarrow> ('k \<Rightarrow> 'e list option) \<Rightarrow> 'k set" where
  "ahead c k M = {k'. M k' \<noteq> None \<and> before (class_dir c) k k' \<and> class_range c k'}"

definition scan_map :: "bool \<Rightarrow> ('k::linorder \<Rightarrow> 'e list option) \<Rightarrow> 'k set \<Rightarrow> 'e list" where
  "scan_map d M S = concat (map (\<lambda>k. the (M k)) (if d then rev (sorted_list_of_set S) else sorted_list_of_set S))"

text \<open>The current cell is in the list of the current key.\<close>

definition it_on :: "'k::linorder value_index \<Rightarrow> 'k index_iterator \<Rightarrow> 'k \<Rightarrow> bool" where
  "it_on s it k \<longleftrightarrow> it_at (vi_tree s) it k \<and> \<not> it_vacant it \<and>
     (\<exists>h us as. avl_find k (vi_tree s) = Some h \<and> links (lh_cells (vi_lists s)) (l_head h) (us @ it_list it # as))"

lemma sorted_keys:
  assumes "bst t"
  shows "map fst (filter (\<lambda>e. Q (fst e)) (dents d t)) =
    (let ks = sorted_list_of_set {k \<in> fst ` set (ents t). Q k} in if d then rev ks else ks)"
proof -
  have "sorted_wrt (<) (map fst (ents t))" using assms by (simp add: bst_def keys_ents)
  then have "sorted_wrt (<) (filter Q (map fst (ents t)))" by (rule sorted_wrt_filter)
  then have "sorted_list_of_set (set (filter Q (map fst (ents t)))) = filter Q (map fst (ents t))"
    by (intro sorted_list_of_set.idem_if_sorted_distinct) (auto simp: strict_sorted_iff)
  moreover have "set (filter Q (map fst (ents t))) = {k \<in> fst ` set (ents t). Q k}" by auto
  moreover have "filter Q (map fst (ents t)) = map fst (filter (\<lambda>e. Q (fst e)) (ents t))" by (simp add: filter_map o_def)
  ultimately show ?thesis by (simp add: dents_def rev_map rev_filter [symmetric])
qed

lemma find_entry: "bst t \<Longrightarrow> (k, a, h) \<in> set (ents t) \<Longrightarrow> avl_find k t = Some h"
proof -
  assume b: "bst t" and e: "(k, a, h) \<in> set (ents t)"
  have "sorted_wrt (<) (map fst (ents t))" using b by (simp add: bst_def keys_ents)
  then have "distinct (map fst (ents t))" by (simp add: strict_sorted_iff)
  then have "map_of (ents t) k = Some (a, h)" using e by simp
  then show ?thesis using find_ents [OF b, of k] by (simp add: avl_find_def)
qed

lemma find_keys: "bst t \<Longrightarrow> avl_find k t = None \<longleftrightarrow> k \<notin> fst ` set (ents t)"
  by (simp add: avl_find_def find_ents map_of_eq_None_iff)

lemma rel_lists_ok: "vi_rel s cs \<Longrightarrow> lists_ok (vi_tree s) (lh_cells (vi_lists s)) cs"
  unfolding lists_ok_def vi_rel_def list_at_def by (metis find_entry option.distinct(1) prod.collapse)

lemma rest_scan:
  assumes r: "vi_rel s cs"
  shows "entry_elements (lh_cells (vi_lists s)) cs (rest_after (vi_tree s) c k) =
    scan_map (class_dir c) (vi_map s cs) (ahead c k (vi_map s cs))"
proof -
  let ?t = "vi_tree s" and ?M = "vi_map s cs" and ?Q = "\<lambda>k'. before (class_dir c) k k' \<and> class_range c k'"
  have b: "bst ?t" using r by (simp add: vi_rel_def)
  have present: "?M k' \<noteq> None \<longleftrightarrow> k' \<in> fst ` set (ents ?t)" for k'
    using r find_keys [OF b, of k'] by (simp add: vi_map_def vi_rel_def)
  have S: "ahead c k ?M = {k' \<in> fst ` set (ents ?t). ?Q k'}" unfolding ahead_def present by blast
  have "cell_contents (lh_cells (vi_lists s)) (cs (fst e)) = the (?M (fst e))" if "e \<in> set (ents ?t)" for e
    using present [of "fst e"] that by (auto simp: vi_map_def split: if_splits)
  then have "entry_elements (lh_cells (vi_lists s)) cs (rest_after ?t c k) =
      concat (map (\<lambda>k'. the (?M k')) (map fst (filter (\<lambda>e. ?Q (fst e)) (dents (class_dir c) ?t))))"
    unfolding entry_elements_def rest_after_def map_map by (intro arg_cong [where f = concat] map_cong) auto
  then show ?thesis unfolding sorted_keys [OF b, of ?Q] scan_map_def S by (simp add: Let_def)
qed

lemma on_elements:
  assumes r: "vi_rel s cs" and on: "it_on s it k"
  obtains us as where "cs k = us @ it_list it # as" "links (lh_cells (vi_lists s)) (it_list it) (it_list it # as)"
    "elements (vi_tree s) (lh_cells (vi_lists s)) it =
      Some (cell_contents (lh_cells (vi_lists s)) (it_list it # as) @
        scan_map (class_dir (it_class it)) (vi_map s cs) (ahead (it_class it) k (vi_map s cs)))"
proof -
  have b: "bst (vi_tree s)" "distinct_addrs (vi_tree s)" using r by (simp_all add: vi_rel_def)
  obtain h us as where h: "avl_find k (vi_tree s) = Some h" "links (lh_cells (vi_lists s)) (l_head h) (us @ it_list it # as)"
    and at: "it_at (vi_tree s) it k" and v: "\<not> it_vacant it"
    using on by (auto simp: it_on_def)
  have "links (lh_cells (vi_lists s)) (l_head h) (cs k)" using r h(1) by (auto simp: vi_rel_def list_at_def)
  then have c: "cs k = us @ it_list it # as" using h(2) links_unique by blast
  have l: "links (lh_cells (vi_lists s)) (it_list it) (it_list it # as)" using h(2) by (rule links_append)
  show ?thesis
    using that [OF c l] at_elements [OF b(2, 1) at v rel_lists_ok [OF r] l] rest_scan [OF r] by simp
qed

section \<open>add\<close>

lemma ents_ins: "e \<in> set ps \<Longrightarrow> e \<in> set (ins key x ps)"
  by (induction ps) auto

lemma keep_set_value:
  assumes "(k, a, v) \<in> set (ents t)"
  shows "\<exists>v'. (k, a, v') \<in> set (ents (set_value b w t))"
  using assms by (force simp: ents_set_value image_iff)

lemma vi_add_parts:
  assumes t: "avl_ok (vi_tree s)" "bst (vi_tree s)" "distinct_addrs (vi_tree s)" "n \<notin> addrs (vi_tree s)"
    and add: "vi_add wl key obj n s = Some (Inr (), rb, s')"
  obtains a h c rest where "lh_supply (vi_lists s) = c # rest"
    "h = (case avl_find key (vi_tree s) of None \<Rightarrow> list_init | Some v \<Rightarrow> v)"
    "vi_tree s' = set_value a \<lparr>l_head = c, l_num = l_num h + 1\<rparr> (add_tree key list_init n (vi_tree s))"
    "vi_lists s' = \<lparr>lh_cells = (lh_cells (vi_lists s))(c := \<lparr>cell_value = obj, cell_next = l_head h\<rparr>), lh_supply = rest\<rparr>"
    "\<And>k. avl_find k (vi_tree s') = (if k = key then Some \<lparr>l_head = c, l_num = l_num h + 1\<rparr> else avl_find k (vi_tree s))"
    "\<And>d R k. \<not> rb \<Longrightarrow> k \<in> fst ` set (ents (vi_tree s)) \<Longrightarrow> pos_stack d R k (vi_tree s') = pos_stack d R k (vi_tree s)"
    "bst (vi_tree s')" "distinct_addrs (vi_tree s')"
proof -
  obtain t' p es rb' lk where a: "avl_add wl key list_init n (vi_tree s) = (t', p, es, rb', lk)" by (metis prod_cases5)
  define h where "h = (case avl_find key (vi_tree s) of None \<Rightarrow> list_init | Some v \<Rightarrow> v)"
  obtain a' where a': "p = Some a'" "t' = add_tree key list_init n (vi_tree s)" "fst (get_locks_find key t') = Some (a', h)"
    "bst t'" "distinct_addrs t'" "\<And>k. k \<noteq> key \<Longrightarrow> avl_find k t' = avl_find k (vi_tree s)"
    using added_node [OF t a] unfolding h_def by metis
  note nd = find_node_of(2) [OF a'(5, 4, 3)]
  obtain c rest where c: "lh_supply (vi_lists s) = c # rest" and rb: "rb' = rb"
    and s': "s' = \<lparr>vi_tree = set_value a' \<lparr>l_head = c, l_num = l_num h + 1\<rparr> t',
      vi_lists = \<lparr>lh_cells = (lh_cells (vi_lists s))(c := \<lparr>cell_value = obj, cell_next = l_head h\<rparr>), lh_supply = rest\<rparr>\<rparr>"
    using add by (cases "lh_supply (vi_lists s)") (auto simp: vi_add_def a a'(1) nd list_add_def)
  note F = avl_find_set_value [OF a'(5, 4, 3), of _ "\<lparr>l_head = c, l_num = l_num h + 1\<rparr>"]
  have pos: "pos_stack d R k (vi_tree s') = pos_stack d R k (vi_tree s)" if "\<not> rb" "k \<in> fst ` set (ents (vi_tree s))" for d R k
    using pos_avl_add [OF t(2, 3) that(2)] a rb that(1) by (simp add: s')
  show ?thesis
    by (rule that [OF c h_def]) (use F a' pos in \<open>simp_all add: s'\<close>)
qed

text \<open>
  C28. An iterator over a range, in either direction, that is on an element (\<open>it_on\<close>: its class is neither that
  of \<open>=\<close> nor that of \<open>!=\<close>), survives every successful \<open>add\<close> to its index when the tree is balanced, with rotations
  or without: with what
  is left of its current list it goes on to yield exactly the objects of the changed map at the keys
  ahead of it, each once and in order. No freed node is used and the assertion of \<open>rebalance_notify\<close> holds.
\<close>

theorem iterator_survives_add:
  assumes ok: "vi_ok s M" and t: "avl_ok (vi_tree s)" "n \<notin> addrs (vi_tree s)" and on: "it_on s it k"
    and add: "vi_add wl key obj n s = Some (Inr (), rb, s')"
  shows "\<exists>it' M' us. add_under wl key obj n s it = Some (Inr (), s', it') \<and> it_on s' it' k \<and>
    M' = M(key \<mapsto> obj # (case M key of None \<Rightarrow> [] | Some xs \<Rightarrow> xs)) \<and>
    elements (vi_tree s) (lh_cells (vi_lists s)) it = Some (us @ scan_map (class_dir (it_class it)) M (ahead (it_class it) k M)) \<and>
    elements (vi_tree s') (lh_cells (vi_lists s')) it' = Some (us @ scan_map (class_dir (it_class it)) M' (ahead (it_class it) k M'))"
proof -
  let ?M' = "M(key \<mapsto> obj # (case M key of None \<Rightarrow> [] | Some xs \<Rightarrow> xs))"
  obtain cs where r: "vi_rel s cs" and M: "M = vi_map s cs" using ok by (auto simp: vi_ok_def)
  have b: "bst (vi_tree s)" "distinct_addrs (vi_tree s)" using r by (simp_all add: vi_rel_def)
  obtain cs' where r': "vi_rel s' cs'" and M': "?M' = vi_map s' cs'"
    using vi_add_ok [OF ok t, of wl key obj] add by (auto simp: vi_ok_def)
  obtain a h c rest where p: "lh_supply (vi_lists s) = c # rest"
    "h = (case avl_find key (vi_tree s) of None \<Rightarrow> list_init | Some v \<Rightarrow> v)"
    "vi_tree s' = set_value a \<lparr>l_head = c, l_num = l_num h + 1\<rparr> (add_tree key list_init n (vi_tree s))"
    "vi_lists s' = \<lparr>lh_cells = (lh_cells (vi_lists s))(c := \<lparr>cell_value = obj, cell_next = l_head h\<rparr>), lh_supply = rest\<rparr>"
    "\<And>k. avl_find k (vi_tree s') = (if k = key then Some \<lparr>l_head = c, l_num = l_num h + 1\<rparr> else avl_find k (vi_tree s))"
    "\<And>d R k. \<not> rb \<Longrightarrow> k \<in> fst ` set (ents (vi_tree s)) \<Longrightarrow> pos_stack d R k (vi_tree s') = pos_stack d R k (vi_tree s)"
    "bst (vi_tree s')" "distinct_addrs (vi_tree s')"
    using vi_add_parts [OF t(1) b t(2) add] by metis
  obtain us as where e: "cs k = us @ it_list it # as" "links (lh_cells (vi_lists s)) (it_list it) (it_list it # as)"
    "elements (vi_tree s) (lh_cells (vi_lists s)) it = Some (cell_contents (lh_cells (vi_lists s)) (it_list it # as) @
      scan_map (class_dir (it_class it)) M (ahead (it_class it) k M))"
    using on_elements [OF r on] unfolding M by metis
  have at: "it_at (vi_tree s) it k" and v: "\<not> it_vacant it" using on by (simp_all add: it_on_def)
  have new: "c \<notin> set (cs k)" "c \<noteq> 0" using r p(1) by (auto simp: vi_rel_def)
  have keep: "\<exists>v'. (k, a', v') \<in> set (ents (vi_tree s'))" if "(k, a', v) \<in> set (ents (vi_tree s))" for a' v
  proof -
    have "(k, a', v) \<in> set (ents (add_tree key list_init n (vi_tree s)))"
      using ents_ins [OF that, of key "(n, list_init)"] by (simp add: ents_add [OF b(1)])
    then show ?thesis unfolding p(3) by (rule keep_set_value)
  qed
  have here: "k \<in> fst ` set (ents (vi_tree s))" "it_list it \<noteq> 0" using at e(2) by (simp_all add: it_at_def)
  obtain it' where it': "notify_rebalanced rb (vi_tree s') it = Some it'" "it_at (vi_tree s') it' k" "it_list it' = it_list it"
    "it_class it' = it_class it" "it_vacant it' = it_vacant it"
    by (rule stays_at [OF b(1) p(7, 8) at here(2), of rb]) (rule keep, assumption, rule p(6) [OF _ here(1)], assumption, blast)
  have same: "lh_cells (vi_lists s') x = lh_cells (vi_lists s) x" if "x \<in> set (cs k)" for x
    using that new by (auto simp: p(4))
  obtain h0 where f0: "avl_find k (vi_tree s) = Some h0" using on by (auto simp: it_on_def)
  then have h0: "avl_find k (vi_tree s) = Some h0" "links (lh_cells (vi_lists s)) (l_head h0) (cs k)"
    using r by (simp_all add: vi_rel_def list_at_def)
  have old: "links (lh_cells (vi_lists s')) (l_head h0) (us @ it_list it # as)"
    using h0(2) same unfolding e(1) [symmetric] by (auto intro: links_cong)
  have on': "it_on s' it' k"
  proof (cases "k = key")
    case True
    then have "links (lh_cells (vi_lists s')) c (c # us @ it_list it # as)" using old new h0(1) p(2) by (simp add: p(4))
    then have "links (lh_cells (vi_lists s')) (l_head \<lparr>l_head = c, l_num = l_num h + 1\<rparr>) ((c # us) @ it_list it # as)" by simp
    then show ?thesis using it' v True p(5) [of k] unfolding it_on_def by metis
  next
    case False
    then show ?thesis using it' v old h0(1) p(5) [of k] unfolding it_on_def by metis
  qed
  obtain us' as' where e': "cs' k = us' @ it_list it' # as'" "links (lh_cells (vi_lists s')) (it_list it') (it_list it' # as')"
    "elements (vi_tree s') (lh_cells (vi_lists s')) it' = Some (cell_contents (lh_cells (vi_lists s')) (it_list it' # as') @
      scan_map (class_dir (it_class it')) ?M' (ahead (it_class it') k ?M'))"
    using on_elements [OF r' on'] unfolding M' by metis
  have "as' = as" using links_unique [OF e'(2), of "it_list it # as"] links_append [OF old] it'(3) by simp
  moreover have "cell_contents (lh_cells (vi_lists s')) (it_list it # as) = cell_contents (lh_cells (vi_lists s)) (it_list it # as)"
    by (rule cell_contents_cong) (use same e(1) in auto)
  ultimately have "elements (vi_tree s') (lh_cells (vi_lists s')) it' = Some (cell_contents (lh_cells (vi_lists s)) (it_list it # as) @
      scan_map (class_dir (it_class it)) ?M' (ahead (it_class it) k ?M'))"
    using e'(3) it'(3, 4) by simp
  moreover have "add_under wl key obj n s it = Some (Inr (), s', it')" by (simp add: add_under_def add it'(1))
  ultimately show ?thesis using e(3) on' by blast
qed

section \<open>remove\<close>

text \<open>\<open>remove\<close> of the object in the cell \<open>p\<close>: what becomes of the cells, of the tree, and of later keys.\<close>

lemma list_remove_cell:
  assumes l: "list_at (lh_cells H) h (us @ p # as)" and v: "cell_value (lh_cells H p) = v" "\<forall>b\<in>set us. cell_value (lh_cells H b) \<noteq> v"
  obtains h' H' es where "list_remove (=) v h H = Some (h', H', es)" "list_at (lh_cells H') h' (us @ as)"
    "\<And>x. x \<notin> set (us @ p # as) \<Longrightarrow> lh_cells H' x = lh_cells H x" "\<And>x. cell_value (lh_cells H' x) = cell_value (lh_cells H x)"
    "\<And>t m it. notify_cells t m es it = remove_notify t m p it"
proof -
  have eq: "del_first (\<lambda>a. v = cell_value (lh_cells H a)) (us @ p # as) = us @ as"
    by (rule del_first_split) (use v in auto)
  obtain h' H' es where r: "list_remove (=) v h H = Some (h', H', es)" "list_at (lh_cells H') h' (us @ as)"
    "\<And>x. x \<notin> set (us @ p # as) \<Longrightarrow> lh_cells H' x = lh_cells H x" "\<And>x. cell_value (lh_cells H' x) = cell_value (lh_cells H x)"
    by (rule list_remove_ok [OF l, of "(=)" v]) (unfold eq, blast)
  have ln: "links (lh_cells H) (l_head h) (us @ p # as)" using l by (simp add: list_at_def)
  from remove_loop_run [OF ln, of "(=) v" 0 h] v
  obtain us' a' vs' where u: "us @ p # as = us' @ a' # vs'" "v = cell_value (lh_cells H a')" "\<forall>b\<in>set us'. v \<noteq> cell_value (lh_cells H b)"
    "remove_loop ((=) v) 0 (l_head h) h H = Some (unlink (if us' = [] then 0 else last us') a' h H)" by auto
  have "del_first (\<lambda>a. v = cell_value (lh_cells H a)) (us' @ a' # vs') = us' @ vs'"
    by (rule del_first_split) (use u in auto)
  then have same: "us @ as = us' @ vs'" using eq u(1) by simp
  have d: "distinct (us @ p # as)" using links_distinct [OF ln] .
  have "a' \<notin> set (us' @ vs')" using d unfolding u(1) by auto
  moreover have "a' \<in> set (us @ p # as)" unfolding u(1) by simp
  ultimately have "a' = p" unfolding same [symmetric] by auto
  then have "es = snd (snd (unlink (if us' = [] then 0 else last us') p h H))" using r(1) u(4) by (simp add: list_remove_def)
  then have "notify_cells t m es it = remove_notify t m p it" for t m it
    by (cases "remove_notify t m p it") (auto simp: unlink_def Let_def)
  then show ?thesis using that r by blast
qed

lemma scan_other_key:
  assumes "\<not> before (class_dir c) k key"
  shows "scan_map d (M(key := x)) (ahead c k (M(key := x))) = scan_map d M (ahead c k M)"
proof -
  have S: "ahead c k (M(key := x)) = ahead c k M" using assms by (auto simp: ahead_def)
  have "set (sorted_list_of_set (ahead c k M)) \<subseteq> ahead c k M"
    by (cases "finite (ahead c k M)") simp_all
  moreover have "key \<notin> ahead c k M" using assms by (simp add: ahead_def)
  ultimately have "(M(key := x)) k' = M k'" if "k' \<in> set (sorted_list_of_set (ahead c k M))" for k' using that by auto
  then show ?thesis unfolding scan_map_def S by (auto intro!: arg_cong [where f = concat] map_cong)
qed

lemma vi_remove_parts:
  fixes s :: "'k::linorder value_index"
  assumes r: "vi_rel s cs" and t: "avl_ok (vi_tree s)" and c: "cs key = us @ p # as"
    and v: "cell_value (lh_cells (vi_lists s) p) = obj" "\<forall>b\<in>set us. cell_value (lh_cells (vi_lists s) b) \<noteq> obj"
    and rem: "vi_remove wl key obj s = Some (les, rb, s')"
  obtains h' where "\<And>(t :: 'k index_tree) (m :: addr \<Rightarrow> addr cell) it. notify_cells t m les it = remove_notify t m p it"
    "\<And>x. x \<notin> set (cs key) \<Longrightarrow> lh_cells (vi_lists s') x = lh_cells (vi_lists s) x"
    "\<And>x. cell_value (lh_cells (vi_lists s') x) = cell_value (lh_cells (vi_lists s) x)"
    "list_at (lh_cells (vi_lists s')) h' (us @ as)" "bst (vi_tree s')" "distinct_addrs (vi_tree s')"
    "\<And>k. avl_find k (vi_tree s') = (if k = key then if us @ as = [] then None else Some h' else avl_find k (vi_tree s))"
    "us @ as \<noteq> [] \<Longrightarrow> \<not> rb \<and> (\<exists>a. vi_tree s' = set_value a h' (vi_tree s))"
    "\<And>R k. \<not> rb \<Longrightarrow> key < k \<Longrightarrow> k \<in> fst ` set (ents (vi_tree s)) \<Longrightarrow>
      pos_stack False R k (vi_tree s') = pos_stack False R k (vi_tree s)"
    "\<And>k a w. key < k \<Longrightarrow> (k, a, w) \<in> set (ents (vi_tree s)) \<Longrightarrow> \<exists>w'. (k, a, w') \<in> set (ents (vi_tree s'))"
proof -
  let ?t = "vi_tree s"
  have b: "bst ?t" "distinct_addrs ?t" using r by (simp_all add: vi_rel_def)
  have "avl_find key ?t \<noteq> None" using r c by (metis Nil_is_append_conv list.distinct(1) vi_rel_def)
  then obtain a h where f: "fst (get_locks_find key ?t) = Some (a, h)" by (auto simp: avl_find_def)
  then have fk: "avl_find key ?t = Some h" by (simp add: avl_find_def)
  then have at: "list_at (lh_cells (vi_lists s)) h (us @ p # as)" using r c by (metis vi_rel_def)
  obtain h' H' es where l: "list_remove (=) obj h (vi_lists s) = Some (h', H', es)" "list_at (lh_cells H') h' (us @ as)"
    "\<And>x. x \<notin> set (us @ p # as) \<Longrightarrow> lh_cells H' x = lh_cells (vi_lists s) x"
    "\<And>x. cell_value (lh_cells H' x) = cell_value (lh_cells (vi_lists s) x)" "\<And>(t :: 'k index_tree) (m :: addr \<Rightarrow> addr cell) it. notify_cells t m es it = remove_notify t m p it"
    by (rule list_remove_cell [OF at v]) (rule that)
  have "set (cs key) \<subseteq> {0<..<2 ^ 64}" using r by (simp add: vi_rel_def)
  moreover have "set (us @ as) \<subseteq> set (cs key)" unfolding c by auto
  ultimately have len: "l_num h' = 0 \<longleftrightarrow> us @ as = []" using length_cells [OF l(2)] by blast
  define t1 where "t1 = set_value a h' ?t"
  have t1: "avl_ok t1" "bst t1" "distinct_addrs t1" using t b by (simp_all add: t1_def)
  have present: "\<not> absent key t1" using f by (simp add: t1_def find_set_value)
  have F: "avl_find k t1 = (if k = key then Some h' else avl_find k ?t)" for k
    using avl_find_set_value [OF b(2, 1) f] by (simp add: t1_def)
  obtain res t2 es2 rb2 lk where a: "avl_remove wl key t1 = (res, t2, es2, rb2, lk)" by (metis prod_cases5)
  have t2: "t2 = remove_tree key t1" using avl_remove_root [OF t1, of wl key] a by simp
  have s': "les = es" "rb = (if us @ as = [] then rb2 else False)" "vi_lists s' = H'"
    "vi_tree s' = (if us @ as = [] then remove_tree key t1 else t1)"
    using rem len a t2 by (auto simp: vi_remove_def f l(1) Let_def simp flip: t1_def split: if_splits)
  have entry: "\<exists>w'. (k, a', w') \<in> set (ents (vi_tree s'))" if lt: "key < k" and e: "(k, a', w) \<in> set (ents ?t)" for k a' w
  proof -
    obtain w' where "(k, a', w') \<in> set (ents t1)" using keep_set_value [OF e] unfolding t1_def by blast
    then have "(k, a', w') \<in> set (filter (\<lambda>e. key < fst e) (ents t1))" using lt by simp
    then have "(k, a', w') \<in> set (ents (remove_tree key t1))" unfolding later_ents [OF t1(2), symmetric] by simp
    then show ?thesis using \<open>(k, a', w') \<in> set (ents t1)\<close> unfolding s'(4) by auto
  qed
  have keys1: "fst ` set (ents t1) = fst ` set (ents ?t)"
    using set_value_shape(5) [of a h' ?t] by (metis list.set_map t1_def)
  have pos: "pos_stack False R k (vi_tree s') = pos_stack False R k ?t"
    if "\<not> rb" "key < k" "k \<in> fst ` set (ents ?t)" for R k
  proof (cases "us @ as = []")
    case True
    then have "\<not> rb2" using that(1) s'(2) by simp
    then have "pos_stack False R k t2 = pos_stack False R k t1"
      using pos_avl_remove [OF t1 _ that(2) present, of wl res t2 es2 lk R] a that(3) unfolding keys1 by simp
    then show ?thesis using True unfolding s'(4) t2 by (simp add: t1_def)
  qed (auto simp: s'(4) t1_def)
  show ?thesis
  proof (rule that [of h'])
    show "bst (vi_tree s')" "distinct_addrs (vi_tree s')" using t1 bst_remove distinct_remove [OF t1(2, 3)] unfolding s'(4) by auto
    show "avl_find k (vi_tree s') = (if k = key then if us @ as = [] then None else Some h' else avl_find k ?t)" for k
      using F unfolding s'(4) by (simp add: find_remove [OF t1(2)])
    show "us @ as \<noteq> [] \<Longrightarrow> \<not> rb \<and> (\<exists>a. vi_tree s' = set_value a h' ?t)" using s'(2, 4) t1_def by auto
  qed (use l entry pos c in \<open>simp_all add: s'(1, 3)\<close>)
qed

section \<open>Moving on\<close>

lemma elements_vacant: "it_vacant it \<Longrightarrow> elements t m it = elements t m (it\<lparr>it_vacant := False\<rparr>)"
  by (subst elements.simps) (simp add: it_bool_def it_ref_def it_next_def Let_def)

lemma elements_end: "\<not> it_vacant it \<Longrightarrow> it_list it = 0 \<Longrightarrow> elements t m it = Some []"
  by (subst elements.simps) (simp add: it_bool_def)

text \<open>The last cell of a key: \<open>next\<close> goes to the first cell of the following key in the range, or ends.\<close>

lemma advance_at:
  assumes r: "vi_rel s cs" and at: "it_at (vi_tree s) it k"
    and l: "it_list it \<noteq> 0" "cell_next (lh_cells (vi_lists s) (it_list it)) = 0"
  obtains (last) b it1 where "advance (vi_tree s) (lh_cells (vi_lists s)) it = Some (b, it1)" "it_list it1 = 0"
      "rest_after (vi_tree s) (it_class it) k = []"
  | (more) it1 k' a h where "advance (vi_tree s) (lh_cells (vi_lists s)) it = Some (True, it1)" "it_at (vi_tree s) it1 k'"
      "it_list it1 = l_head h" "it_class it1 = it_class it" "avl_find k' (vi_tree s) = Some h" "before (class_dir (it_class it)) k k'"
      "rest_after (vi_tree s) (it_class it) k = (k', a, h) # rest_after (vi_tree s) (it_class it) k'"
proof -
  let ?t = "vi_tree s" and ?c = "it_class it"
  have b: "bst ?t" "distinct_addrs ?t" using r by (simp_all add: vi_rel_def)
  have c: "ranged ?c" using at by (simp add: it_at_def)
  obtain a v where a: "(k, a, v) \<in> set (ents ?t)" "it_curr it = Some a"
    "pos_stack (class_dir ?c) (class_range ?c) k ?t = a # it_path it"
    using it_at_node [OF b(1) at] by metis
  obtain l' r' h' where n: "subtree_at a ?t = TreeNode a l' r' h' k v" using node_key [OF b(2) a(1)] by blast
  obtain lk where nx: "next_nodes ?t ?c (it_curr it) (it_path it, it_locks it) =
      Some (spine (class_dir ?c) (class_range ?c) (second (class_dir ?c) l' r') @ it_path it, lk)"
    using next_nodes_path [OF c n] a(2) by metis
  note nxt = pos_next [OF b(1) downward_class [OF c] a(1, 3) part_of_refl [OF b(2)] n]
  have tr: "trav_next (lh_cells (vi_lists s)) (it_list it) = Some 0" using l by (simp add: trav_next_def)
  show ?thesis
  proof (cases "rest_after ?t ?c k")
    case Nil
    then have "next_nodes ?t ?c (it_curr it) (it_path it, it_locks it) = Some ([], lk)"
      using nx nxt by (simp add: rest_after_def)
    then show ?thesis using last [of False] tr Nil by (simp add: advance_def Let_def)
  next
    case (Cons e es)
    obtain k' a' h where e: "e = (k', a', h)" by (cases e) auto
    have "e \<in> set (rest_after ?t ?c k)" using Cons by simp
    then have e': "(k', a', h) \<in> set (ents ?t)" "before (class_dir ?c) k k'" "class_range ?c k'" by (auto simp: rest_after_def e)
    then obtain q where q: "pos_stack (class_dir ?c) (class_range ?c) k' ?t = a' # q" using pos_top [OF b(1)] by blast
    have path: "next_nodes ?t ?c (it_curr it) (it_path it, it_locks it) = Some (a' # q, lk)"
      using nx nxt Cons q by (simp add: rest_after_def e)
    obtain l2 r2 h2 where n2: "subtree_at a' ?t = TreeNode a' l2 r2 h2 k' h" using node_key [OF b(2) e'(1)] by blast
    let ?it = "it\<lparr>it_list := l_head h, it_curr := Some a', it_path := q, it_locks := lk\<rparr>"
    have adv: "advance ?t (lh_cells (vi_lists s)) it = Some (True, ?it)"
      using tr path n2 by (simp add: advance_def Let_def take_top_def trav_set_def)
    have at': "it_at ?t ?it k'" using q e' c by (force simp: it_at_def)
    show ?thesis
      by (rule more [OF adv at' _ _ find_entry [OF b(1) e'(1)] e'(2)])
        (use rest_step [OF b(1)] Cons e in auto)
  qed
qed

section \<open>Removing the current element\<close>

lemma remove_notify_here: "\<not> it_vacant it \<Longrightarrow> remove_notify t m (it_list it) it = map_option (\<lambda>(b, it1). it1\<lparr>it_vacant := True\<rparr>) (advance t m it)"
  by (cases it) (simp add: remove_notify_def it_next_def)

lemma it_at_vacant [simp]: "it_at t (it\<lparr>it_vacant := b\<rparr>) k = it_at t it k"
  by (simp add: it_at_def)

lemma it_at_list [simp]: "it_at t (it\<lparr>it_list := p\<rparr>) k = it_at t it k"
  by (simp add: it_at_def)

lemma it_at_set_value [simp]: "it_at (set_value a w t) it k = it_at t it k"
proof -
  have "fst ` set (ents (set_value a w t)) = fst ` set (ents t)" using set_value_shape(5) [of a w t] by (metis list.set_map)
  then show ?thesis by (simp add: it_at_def)
qed

text \<open>There are more cells in the key's list.\<close>

lemma remove_within:
  assumes r': "vi_rel s' cs'" and M': "M(k := x) = vi_map s' cs'" and at: "it_at (vi_tree s) it k" and v: "\<not> it_vacant it"
    and l: "links (lh_cells (vi_lists s)) (it_list it) (it_list it # as)" "as \<noteq> []"
    and vals: "\<And>x. cell_value (lh_cells (vi_lists s') x) = cell_value (lh_cells (vi_lists s) x)"
    and h': "list_at (lh_cells (vi_lists s')) h' (us @ as)" "avl_find k (vi_tree s') = Some h'" "vi_tree s' = set_value a h' (vi_tree s)"
  obtains it1 where "advance (vi_tree s) (lh_cells (vi_lists s)) it = Some (True, it1)"
    "elements (vi_tree s') (lh_cells (vi_lists s')) (it1\<lparr>it_vacant := True\<rparr>) =
      Some (cell_contents (lh_cells (vi_lists s)) as @ scan_map (class_dir (it_class it)) M (ahead (it_class it) k M))"
proof -
  obtain c as2 where as: "as = c # as2" using l(2) by (cases as) auto
  let ?it = "it\<lparr>it_list := c\<rparr>"
  have nx: "advance (vi_tree s) (lh_cells (vi_lists s)) it = Some (True, ?it)"
    using l as by (simp add: advance_def trav_next_def Let_def)
  have chain: "links (lh_cells (vi_lists s')) (l_head h') (us @ c # as2)" using h'(1) as by (simp add: list_at_def)
  then have on: "it_on s' ?it k" using at v h'(2, 3) by (auto simp: it_on_def)
  obtain us' as' where e: "links (lh_cells (vi_lists s')) c (c # as')"
    "elements (vi_tree s') (lh_cells (vi_lists s')) ?it =
      Some (cell_contents (lh_cells (vi_lists s')) (c # as') @
        scan_map (class_dir (it_class it)) (M(k := x)) (ahead (it_class it) k (M(k := x))))"
    using on_elements [OF r' on] unfolding M' by auto
  have "as' = as2" using links_unique [OF e(1) links_append [OF chain]] by simp
  moreover have "cell_contents (lh_cells (vi_lists s')) as = cell_contents (lh_cells (vi_lists s)) as"
    by (simp add: cell_contents_def vals)
  moreover have "elements (vi_tree s') (lh_cells (vi_lists s')) (?it\<lparr>it_vacant := True\<rparr>) = elements (vi_tree s') (lh_cells (vi_lists s')) ?it"
    using v elements_vacant [of "?it\<lparr>it_vacant := True\<rparr>"] by (cases it) simp
  ultimately show ?thesis
    using that [OF nx] e(2) as scan_other_key [of "it_class it" k k "class_dir (it_class it)" M x] by simp
qed

text \<open>The cell was the last one of the key's list.\<close>

lemma remove_at_end:
  assumes r: "vi_rel s cs" and M: "M = vi_map s cs" and r': "vi_rel s' cs'" and M': "M(k := x) = vi_map s' cs'"
    and at: "it_at (vi_tree s) it k" and fwd: "\<not> class_dir (it_class it)"
    and l: "it_list it \<noteq> 0" "cell_next (lh_cells (vi_lists s) (it_list it)) = 0"
    and find: "\<And>k'. k' \<noteq> k \<Longrightarrow> avl_find k' (vi_tree s') = avl_find k' (vi_tree s)"
    and path: "\<And>R k'. \<not> rb \<Longrightarrow> k < k' \<Longrightarrow> k' \<in> fst ` set (ents (vi_tree s)) \<Longrightarrow>
      pos_stack False R k' (vi_tree s') = pos_stack False R k' (vi_tree s)"
    and keep: "\<And>k' a w. k < k' \<Longrightarrow> (k', a, w) \<in> set (ents (vi_tree s)) \<Longrightarrow> \<exists>w'. (k', a, w') \<in> set (ents (vi_tree s'))"
  obtains b it1 it' where "advance (vi_tree s) (lh_cells (vi_lists s)) it = Some (b, it1)"
    "notify_rebalanced rb (vi_tree s') (it1\<lparr>it_vacant := True\<rparr>) = Some it'" "it_vacant it'"
    "elements (vi_tree s') (lh_cells (vi_lists s')) it' =
      Some (scan_map (class_dir (it_class it)) M (ahead (it_class it) k M))"
  using r at l
proof (cases rule: advance_at)
  case (last b it1)
  have "notify_rebalanced rb (vi_tree s') (it1\<lparr>it_vacant := True\<rparr>) = Some (it1\<lparr>it_vacant := True\<rparr>)"
    using last(2) by (simp add: notify_rebalanced_def rebalance_notify_def)
  moreover have "elements (vi_tree s') (lh_cells (vi_lists s')) (it1\<lparr>it_vacant := True\<rparr>) = Some []"
    using last(2) elements_vacant [of "it1\<lparr>it_vacant := True\<rparr>"] by (simp add: elements_end)
  moreover have "scan_map (class_dir (it_class it)) M (ahead (it_class it) k M) = []"
    using rest_scan [OF r, of "it_class it" k] last(3) by (simp add: M)
  ultimately show ?thesis using that [OF last(1)] by simp
next
  case (more it1 k' a h)
  let ?d = "class_dir (it_class it)" and ?it = "it1\<lparr>it_vacant := True\<rparr>"
  have b: "bst (vi_tree s)" "bst (vi_tree s')" "distinct_addrs (vi_tree s')" using r r' by (simp_all add: vi_rel_def)
  have k': "k < k'" using more(6) fwd by (simp add: before_def)
  have at1: "it_at (vi_tree s) ?it k'" "class_dir (it_class ?it) = False" using more(2, 4) fwd by simp_all
  have in_t: "k' \<in> fst ` set (ents (vi_tree s))" using more(2) by (simp add: it_at_def)
  have f': "avl_find k' (vi_tree s') = Some h" using find [of k'] k' more(5) by simp
  have ne: "cs' k' \<noteq> []" "links (lh_cells (vi_lists s')) (l_head h) (cs' k')" using r' f' by (auto simp: vi_rel_def list_at_def)
  have lz: "it_list ?it \<noteq> 0"
  proof -
    have "cs k' \<noteq> []" "links (lh_cells (vi_lists s)) (l_head h) (cs k')" using r more(5) by (auto simp: vi_rel_def list_at_def)
    then show ?thesis using more(3) by (cases "cs k'") auto
  qed
  obtain it' where it': "notify_rebalanced rb (vi_tree s') ?it = Some it'" "it_at (vi_tree s') it' k'" "it_list it' = it_list ?it"
    "it_class it' = it_class ?it" "it_vacant it' = it_vacant ?it"
  proof (rule stays_at [OF b at1(1) lz, of rb])
    show "\<exists>v'. (k', a, v') \<in> set (ents (vi_tree s'))" if "(k', a, v) \<in> set (ents (vi_tree s))" for a v
      using keep [OF k' that] .
    show "pos_stack (class_dir (it_class ?it)) (class_range (it_class ?it)) k' (vi_tree s') =
        pos_stack (class_dir (it_class ?it)) (class_range (it_class ?it)) k' (vi_tree s)" if "\<not> rb"
      unfolding at1(2) by (rule path [OF that k' in_t])
  qed (rule that)
  let ?it2 = "it'\<lparr>it_vacant := False\<rparr>"
  obtain as' where c': "cs' k' = it_list ?it2 # as'" using ne it'(3) more(3) by (cases "cs' k'") auto
  have "links (lh_cells (vi_lists s')) (l_head h) ([] @ it_list ?it2 # as')" using ne(2) c' by simp
  then have on: "it_on s' ?it2 k'"
    unfolding it_on_def using it'(2) f' by (intro conjI exI [of _ h] exI [of _ "[]"] exI [of _ as']) simp_all
  obtain us2 as2 where e: "cs' k' = us2 @ it_list ?it2 # as2" "elements (vi_tree s') (lh_cells (vi_lists s')) ?it2 =
      Some (cell_contents (lh_cells (vi_lists s')) (it_list ?it2 # as2) @
        scan_map (class_dir (it_class ?it2)) (M(k := x)) (ahead (it_class ?it2) k' (M(k := x))))"
    using on_elements [OF r' on] unfolding M' by metis
  have "us2 = []"
  proof (rule ccontr)
    assume "us2 \<noteq> []"
    then have "\<not> distinct (cs' k')" using e(1) c' by (cases us2) auto
    then show False using links_distinct [OF ne(2)] by simp
  qed
  then have head: "cell_contents (lh_cells (vi_lists s')) (it_list ?it2 # as2) = the (M k')"
  proof -
    have "M k' = vi_map s' cs' k'" using M' k' by (metis fun_upd_apply less_irrefl)
    then show ?thesis using e(1) \<open>us2 = []\<close> by (simp add: vi_map_def)
  qed
  have cls: "it_class ?it2 = it_class it" using it'(4) more(4) by simp
  have tail: "scan_map ?d (M(k := x)) (ahead (it_class it) k' (M(k := x))) = scan_map ?d M (ahead (it_class it) k' M)"
    by (rule scan_other_key) (use k' fwd in \<open>simp add: before_def\<close>)
  have "scan_map ?d M (ahead (it_class it) k M) = the (M k') @ scan_map ?d M (ahead (it_class it) k' M)"
  proof -
    have "cell_contents (lh_cells (vi_lists s)) (cs k') = the (M k')" using r more(5) by (auto simp: M vi_map_def vi_rel_def)
    then show ?thesis
      using rest_scan [OF r, of "it_class it" k] rest_scan [OF r, of "it_class it" k'] more(7) by (simp add: M)
  qed
  then have "elements (vi_tree s') (lh_cells (vi_lists s')) it' = Some (scan_map ?d M (ahead (it_class it) k M))"
    using e(2) elements_vacant [of it' "vi_tree s'" "lh_cells (vi_lists s')"] it'(5) tail by (simp add: cls flip: head)
  then show ?thesis using that [OF more(1) it'(1)] it'(5) by simp
qed

text \<open>
  C32. A forward iteration over a range (neither \<open>=\<close> nor \<open>!=\<close>), on a balanced tree and with the object once in
  the list of its key, may remove the element that the iterator is on, once its locks are granted: the
  iterator becomes vacant, and the loop then sees exactly the elements that it would have seen after it, whether the key's list goes on,
  ends there, or disappears with its tree node and rotations. The tree may not be balanced after it, so
  this is about one removal.
\<close>

theorem remove_current_forward:
  assumes ok: "vi_ok s M" and t: "avl_ok (vi_tree s)" and on: "it_on s it k" and fwd: "\<not> class_dir (it_class it)"
    and obj: "it_ref (lh_cells (vi_lists s)) it = Some (Inr obj)" and once: "M k = Some xs" "distinct xs"
  shows "\<exists>s' it' ys. remove_under wl k obj s it = Some (s', it') \<and> it_vacant it' \<and>
    elements (vi_tree s) (lh_cells (vi_lists s)) it = Some (obj # ys) \<and>
    elements (vi_tree s') (lh_cells (vi_lists s')) it' = Some ys"
proof -
  obtain cs where r: "vi_rel s cs" and M: "M = vi_map s cs" using ok by (auto simp: vi_ok_def)
  have at: "it_at (vi_tree s) it k" and v: "\<not> it_vacant it" using on by (simp_all add: it_on_def)
  obtain us as where e: "cs k = us @ it_list it # as" "links (lh_cells (vi_lists s)) (it_list it) (it_list it # as)"
    "elements (vi_tree s) (lh_cells (vi_lists s)) it = Some (cell_contents (lh_cells (vi_lists s)) (it_list it # as) @
      scan_map (class_dir (it_class it)) M (ahead (it_class it) k M))"
    using on_elements [OF r on] unfolding M by metis
  have val: "cell_value (lh_cells (vi_lists s) (it_list it)) = obj" using obj v by (auto simp: it_ref_def trav_ref_def split: if_splits)
  have "xs = cell_contents (lh_cells (vi_lists s)) (cs k)" using once(1) e(1) by (simp add: M vi_map_def)
  then have "obj \<notin> (\<lambda>b. cell_value (lh_cells (vi_lists s) b)) ` set us" using once(2) val unfolding e(1) cell_contents_def by auto
  then have first: "\<forall>b\<in>set us. cell_value (lh_cells (vi_lists s) b) \<noteq> obj" by blast
  obtain les rb s' x where rem: "vi_remove wl k obj s = Some (les, rb, s')" and ok': "vi_ok s' (M(k := x))"
    using vi_remove_ok [OF ok t, of wl k obj] by blast
  obtain cs' where r': "vi_rel s' cs'" and M': "M(k := x) = vi_map s' cs'" using ok' by (auto simp: vi_ok_def)
  obtain h' where p: "notify_cells (vi_tree s) (lh_cells (vi_lists s)) les it = remove_notify (vi_tree s) (lh_cells (vi_lists s)) (it_list it) it"
    "\<And>x. cell_value (lh_cells (vi_lists s') x) = cell_value (lh_cells (vi_lists s) x)"
    "list_at (lh_cells (vi_lists s')) h' (us @ as)"
    "\<And>k'. avl_find k' (vi_tree s') = (if k' = k then if us @ as = [] then None else Some h' else avl_find k' (vi_tree s))"
    "us @ as \<noteq> [] \<Longrightarrow> \<not> rb \<and> (\<exists>a. vi_tree s' = set_value a h' (vi_tree s))"
    "\<And>R k'. \<not> rb \<Longrightarrow> k < k' \<Longrightarrow> k' \<in> fst ` set (ents (vi_tree s)) \<Longrightarrow>
      pos_stack False R k' (vi_tree s') = pos_stack False R k' (vi_tree s)"
    "\<And>k' a w. k < k' \<Longrightarrow> (k', a, w) \<in> set (ents (vi_tree s)) \<Longrightarrow> \<exists>w'. (k', a, w') \<in> set (ents (vi_tree s'))"
    by (rule vi_remove_parts [OF r t e(1) val first rem]) (rule that)
  note nt = p(1) [unfolded remove_notify_here [OF v]]
  show ?thesis
  proof (cases "as = []")
    case False
    then obtain a where a: "\<not> rb" "vi_tree s' = set_value a h' (vi_tree s)" using p(5) by auto
    have f: "avl_find k (vi_tree s') = Some h'" using p(4) [of k] False by simp
    obtain it1 where it1: "advance (vi_tree s) (lh_cells (vi_lists s)) it = Some (True, it1)"
      "elements (vi_tree s') (lh_cells (vi_lists s')) (it1\<lparr>it_vacant := True\<rparr>) =
        Some (cell_contents (lh_cells (vi_lists s)) as @ scan_map (class_dir (it_class it)) M (ahead (it_class it) k M))"
      by (rule remove_within [OF r' M' at v e(2) False p(2, 3) f a(2)]) (rule that)
    have "remove_under wl k obj s it = Some (s', it1\<lparr>it_vacant := True\<rparr>)"
      using nt it1(1) a(1) by (simp add: remove_under_def rem notify_rebalanced_def)
    then show ?thesis using e(3) it1(2) val by simp
  next
    case True
    have z: "it_list it \<noteq> 0" "cell_next (lh_cells (vi_lists s) (it_list it)) = 0" using e(2) True by simp_all
    obtain b it1 it' where it': "advance (vi_tree s) (lh_cells (vi_lists s)) it = Some (b, it1)"
      "notify_rebalanced rb (vi_tree s') (it1\<lparr>it_vacant := True\<rparr>) = Some it'" "it_vacant it'"
      "elements (vi_tree s') (lh_cells (vi_lists s')) it' = Some (scan_map (class_dir (it_class it)) M (ahead (it_class it) k M))"
    proof (rule remove_at_end [OF r M r' M' at fwd z, of rb])
      show "avl_find k' (vi_tree s') = avl_find k' (vi_tree s)" if "k' \<noteq> k" for k' using p(4) that by simp
      show "pos_stack False R k' (vi_tree s') = pos_stack False R k' (vi_tree s)"
        if "\<not> rb" "k < k'" "k' \<in> fst ` set (ents (vi_tree s))" for R k' by (rule p(6) [OF that])
      show "\<exists>w'. (k', a, w') \<in> set (ents (vi_tree s'))" if "k < k'" "(k', a, w) \<in> set (ents (vi_tree s))" for k' a w
        by (rule p(7) [OF that])
    qed (rule that)
    have "remove_under wl k obj s it = Some (s', it')"
      using nt it'(1, 2) by (simp add: remove_under_def rem)
    then show ?thesis using e(3) it'(3, 4) val True by simp
  qed
qed

text \<open>The iterator over all of \<open>ex_values\<close>, at its first key; key 4 is added, with a double rotation.\<close>

definition ex_iter :: "int index_iterator" where
  "ex_iter = \<lparr>it_class = IndexRangeNomax, it_curr = Some 128, it_path = [64], it_list = 900, it_vacant = False, it_locks = []\<rparr>"

lemma ex_iter_on: "it_on ex_values ex_iter 3"
proof -
  have "links (lh_cells (vi_lists ex_values)) 900 ([] @ 900 # [916])" by (simp add: ex_values_def)
  moreover have "avl_find 3 (vi_tree ex_values) = Some \<lparr>l_head = 900, l_num = 2\<rparr>" by (simp add: ex_values_def avl_find_def Let_def)
  moreover have "it_at (vi_tree ex_values) ex_iter 3"
    by (simp add: it_at_def ex_iter_def ex_values_def pos_stack_simps first_def before_def)
  ultimately show ?thesis unfolding it_on_def
    by (intro conjI exI [of _ "\<lparr>l_head = 900, l_num = 2\<rparr>"] exI [of _ "[]"] exI [of _ "[916]"]) (simp_all add: ex_iter_def)
qed

lemma ex_values_avl: "avl_ok (vi_tree ex_values)" "192 \<notin> addrs (vi_tree ex_values)" "lh_supply (vi_lists ex_values) = [1000]"
  by (simp_all add: ex_values_def)

lemma iterator_survives_add_witness:
  "\<exists>s' it' us. add_under (\<lambda>_. False) 4 41 192 ex_values ex_iter = Some (Inr (), s', it') \<and>
     elements (vi_tree ex_values) (lh_cells (vi_lists ex_values)) ex_iter = Some (us @ [51]) \<and>
     elements (vi_tree s') (lh_cells (vi_lists s')) it' = Some (us @ [41, 51])"
proof -
  let ?M = "[3 \<mapsto> [31, 32], 5 \<mapsto> [51]] :: int \<rightharpoonup> nat list"
  obtain rb s' where add: "vi_add (\<lambda>_. False) 4 41 192 ex_values = Some (Inr (), rb, s')"
    using vi_add_returns [OF ex_values_ok ex_values_avl(1, 2), of "\<lambda>_. False" 4 41] ex_values_avl(3) by auto
  have a: "ahead IndexRangeNomax 3 ?M = {5}" "ahead IndexRangeNomax 3 (?M(4 \<mapsto> [41])) = {4, 5}"
    by (auto simp: ahead_def before_def split: if_splits)
  then have "scan_map False ?M (ahead IndexRangeNomax 3 ?M) = [51]"
    "scan_map False (?M(4 \<mapsto> [41])) (ahead IndexRangeNomax 3 (?M(4 \<mapsto> [41]))) = [41, 51]"
    unfolding a by (simp_all add: scan_map_def)
  then show ?thesis
    using iterator_survives_add [OF ex_values_ok ex_values_avl(1, 2) ex_iter_on add] by (simp add: ex_iter_def) blast
qed

text \<open>The iterator at object 31, the first of its key.\<close>

lemma remove_current_forward_witness:
  "\<exists>s' it' ys. remove_under (\<lambda>_. False) 3 31 ex_values ex_iter = Some (s', it') \<and> it_vacant it' \<and>
     elements (vi_tree ex_values) (lh_cells (vi_lists ex_values)) ex_iter = Some (31 # ys) \<and>
     elements (vi_tree s') (lh_cells (vi_lists s')) it' = Some ys"
proof -
  have "it_ref (lh_cells (vi_lists ex_values)) ex_iter = Some (Inr 31)" by (simp add: it_ref_def trav_ref_def ex_iter_def ex_values_def)
  moreover have "\<not> class_dir (it_class ex_iter)" by (simp add: ex_iter_def)
  ultimately show ?thesis
    using remove_current_forward [OF ex_values_ok ex_values_avl(1) ex_iter_on, of 31 "[31, 32]" "\<lambda>_. False"] by simp
qed

section \<open>Reverse iterators\<close>

text \<open>
  Three keys; the reverse iterator is at the root, key 5, whose node has two children. Its only object is
  removed: the iterator goes on to key 3, then the root takes over key 3 and the node of key 3 is freed.
\<close>

definition ex_three :: "int value_index" where
  "ex_three =
     \<lparr>vi_tree = TreeNode 64 (TreeNode 128 Null Null 0 3 \<lparr>l_head = 900, l_num = 1\<rparr>)
          (TreeNode 192 Null Null 0 7 \<lparr>l_head = 700, l_num = 1\<rparr>) 1 5 \<lparr>l_head = 800, l_num = 1\<rparr>,
      vi_lists = \<lparr>lh_cells = (\<lambda>_. \<lparr>cell_value = 0, cell_next = 0\<rparr>)
          (700 := \<lparr>cell_value = 71, cell_next = 0\<rparr>, 800 := \<lparr>cell_value = 51, cell_next = 0\<rparr>,
           900 := \<lparr>cell_value = 31, cell_next = 0\<rparr>), lh_supply = []\<rparr>\<rparr>"

definition ex_reverse :: "int index_iterator" where
  "ex_reverse = \<lparr>it_class = IndexRangeNomin, it_curr = Some 64, it_path = [], it_list = 800, it_vacant = False, it_locks = []\<rparr>"

text \<open>
  A reverse iteration that removes its current element can be left outside the tree: when the key's node
  has two children, \<open>remove\<close> moves the preceding key into it and frees the node of that key, to which the iterator
  has just moved, and without a rotation nobody tells the iterator. The freed node keeps its contents until the
  commit, but it is no longer updated: the list of the preceding key is now the one in the other node, and keys
  added below it are not under the iterator.
\<close>

theorem reverse_remove_dangles:
  "\<exists>s' it'. remove_under (\<lambda>_. False) 5 51 ex_three ex_reverse = Some (s', it') \<and>
     it_curr it' = Some 128 \<and> fst (get_locks_find 3 (vi_tree ex_three)) = Some (128, \<lparr>l_head = 900, l_num = 1\<rparr>) \<and>
     128 \<notin> addrs (vi_tree s') \<and> fst (get_locks_find 3 (vi_tree s')) = Some (64, \<lparr>l_head = 900, l_num = 1\<rparr>)"
proof -
  let ?s = "\<lparr>vi_tree = TreeNode 64 Null (TreeNode 192 Null Null 0 7 \<lparr>l_head = 700, l_num = 1\<rparr>) 1 3 \<lparr>l_head = 900, l_num = 1\<rparr>,
    vi_lists = vi_lists ex_three\<rparr>"
  let ?it = "ex_reverse\<lparr>it_curr := Some 128, it_list := 900, it_vacant := True, it_locks := [NodeLock 128]\<rparr>"
  have rem: "vi_remove (\<lambda>_. False) 5 51 ex_three = Some ([RemoveNotify 800, HeaderLog, CellFree 800], False, ?s)"
    by (simp add: vi_remove_def ex_three_def list_remove_def remove_loop.simps unlink_def Let_def avl_remove_def
        get_locks_remove_def set_height.simps flagged_def remove_level_def read_lock_def lock_info_new_def after_left_def)
  have moved: "notify_cells (vi_tree ex_three) (lh_cells (vi_lists ex_three)) [RemoveNotify 800, HeaderLog, CellFree 800] ex_reverse = Some ?it"
    by (simp add: remove_notify_def it_next_def advance_def trav_next_def next_nodes_def deref_def push_def visit_def
        take_top_def trav_set_def ex_three_def ex_reverse_def Let_def)
  have "remove_under (\<lambda>_. False) 5 51 ex_three ex_reverse = Some (?s, ?it)"
    using moved by (simp add: remove_under_def rem notify_rebalanced_def del: notify_cells.simps)
  then show ?thesis by (intro exI [of _ ?s] exI [of _ ?it]) (simp add: ex_three_def Let_def)
qed

end
