(* ===== verification/Node_Edges.thy ===== *)
theory Node_Edges
  imports Edge_Index
begin

text \<open>
  The edge iterator of \<open>src/node.cc\<close>: it goes over the edges of a node, incoming ones before outgoing ones,
  of one tag or of all tags, and moves on when the edge that it is on is removed. Properties: it yields
  exactly the edges of the two edge indices; removing a node whose only edges are loops follows a null
  pointer.
\<close>

section \<open>State\<close>

datatype direction = Any | Outgoing | Incoming

text \<open>\<open>ne_out\<close> is \<open>_out_idx != NULL\<close>; 0 stands for null positions. The indices are those of incoming and of outgoing edges.\<close>

record node_edge_it =
  ne_dir :: direction
  ne_out :: bool
  ne_key :: addr
  ne_tag :: u16
  ne_pos :: addr
  ne_vacant :: bool

text \<open>The index that the positions are in.\<close>

definition here :: "edge_index \<Rightarrow> edge_index \<Rightarrow> node_edge_it \<Rightarrow> edge_index" where
  "here i out it = (if ne_dir it = Outgoing then out else i)"

section \<open>Moving\<close>

definition switch_direction :: "bool \<Rightarrow> edge_index \<Rightarrow> node_edge_it \<Rightarrow> node_edge_it option" where
  "switch_direction no_tag out it =
     (if ne_out it then
        if no_tag then
          (let k = l_head (ei_list out)
           in if k = 0 then None
              else Some (it\<lparr>ne_dir := Outgoing, ne_key := k, ne_tag := key_at out k, ne_pos := l_head (bucket out k), ne_out := False\<rparr>))
        else map_option (\<lambda>p. it\<lparr>ne_dir := Outgoing, ne_pos := p, ne_out := False\<rparr>) (ei_get_first (ne_tag it) out)
      else Some it)"

text \<open>\<open>_next\<close>.\<close>

definition key_next :: "edge_index \<Rightarrow> edge_index \<Rightarrow> node_edge_it \<Rightarrow> node_edge_it option" where
  "key_next i out it =
     (if ne_key it \<noteq> 0 then
        (let s = here i out it; k = cell_next (lh_cells (ei_keys s) (ne_key it))
         in if k \<noteq> 0 then Some (it\<lparr>ne_key := k, ne_tag := key_at s k, ne_pos := l_head (bucket s k)\<rparr>)
            else switch_direction True out (it\<lparr>ne_key := 0\<rparr>))
      else switch_direction False out it)"

definition ne_bool :: "node_edge_it \<Rightarrow> bool" where
  "ne_bool it \<longleftrightarrow> ne_vacant it \<or> ne_pos it \<noteq> 0"

definition ne_next :: "edge_index \<Rightarrow> edge_index \<Rightarrow> node_edge_it \<Rightarrow> (bool \<times> node_edge_it) option" where
  "ne_next i out it =
     (if ne_vacant it then (let it1 = it\<lparr>ne_vacant := False\<rparr> in Some (ne_bool it1, it1))
      else
        (let it1 = (if ne_pos it \<noteq> 0 then it\<lparr>ne_pos := cell_next (lh_cells (ei_pairs (here i out it)) (ne_pos it))\<rparr> else it)
         in map_option (\<lambda>it2. (ne_pos it2 \<noteq> 0, it2)) (if ne_pos it1 = 0 then key_next i out it1 else Some it1)))"

definition ne_remove_notify :: "edge_index \<Rightarrow> edge_index \<Rightarrow> addr \<Rightarrow> node_edge_it \<Rightarrow> node_edge_it option" where
  "ne_remove_notify i out p it =
     (if p = ne_pos it then map_option (\<lambda>(b, it1). it1\<lparr>ne_vacant := True\<rparr>) (ne_next i out (it\<lparr>ne_vacant := False\<rparr>))
      else Some it)"

text \<open>
  What the reference of the iterator gives: edge, source, destination, tag. \<open>ref\<close> throws for a vacant
  iterator; a null position is \<open>None\<close>.
\<close>

type_synonym edge_view = "addr \<times> addr \<times> addr \<times> u16"

definition view_of :: "addr \<Rightarrow> direction \<Rightarrow> u16 \<Rightarrow> edge_pair \<Rightarrow> edge_view" where
  "view_of n1 d k x = (fst x, if d = Incoming then snd x else n1, if d = Outgoing then snd x else n1, k)"

definition ne_ref :: "addr \<Rightarrow> edge_index \<Rightarrow> edge_index \<Rightarrow> node_edge_it \<Rightarrow> edge_view result option" where
  "ne_ref n1 i out it =
     (if ne_vacant it then Some (Inl VacantIterator)
      else if ne_pos it = 0 then None
      else Some (Inr (view_of n1 (ne_dir it) (ne_tag it) (cell_value (lh_cells (ei_pairs (here i out it)) (ne_pos it))))))"

section \<open>get_edges\<close>

text \<open>The constructors; \<open>None\<close> is a null key position that is read.\<close>

definition it_tag :: "edge_index \<Rightarrow> direction \<Rightarrow> u16 \<Rightarrow> node_edge_it option" where
  "it_tag s d tag =
     map_option (\<lambda>p. \<lparr>ne_dir = d, ne_out = False, ne_key = 0, ne_tag = tag, ne_pos = p, ne_vacant = False\<rparr>) (ei_get_first tag s)"

definition it_keys :: "edge_index \<Rightarrow> direction \<Rightarrow> bool \<Rightarrow> node_edge_it option" where
  "it_keys s d other =
     (let k = l_head (ei_list s)
      in if k = 0 then None
         else Some \<lparr>ne_dir = d, ne_out = other, ne_key = k, ne_tag = key_at s k, ne_pos = l_head (bucket s k), ne_vacant = False\<rparr>)"

definition skip_empty :: "edge_index \<Rightarrow> edge_index \<Rightarrow> node_edge_it \<Rightarrow> node_edge_it option" where
  "skip_empty i out it = (if ne_pos it = 0 then key_next i out it else Some it)"

definition it_both_tag :: "edge_index \<Rightarrow> edge_index \<Rightarrow> u16 \<Rightarrow> node_edge_it option" where
  "it_both_tag i out tag =
     Option.bind (it_tag i Incoming tag) (\<lambda>it. skip_empty i out (it\<lparr>ne_out := l_num (ei_list out) > 0\<rparr>))"

definition it_both :: "edge_index \<Rightarrow> edge_index \<Rightarrow> node_edge_it option" where
  "it_both i out = Option.bind (it_keys i Incoming (l_num (ei_list out) > 0)) (skip_empty i out)"

text \<open>The four functions; \<open>Some None\<close> is the empty iterator.\<close>

definition get_edges_all :: "edge_index \<Rightarrow> edge_index \<Rightarrow> node_edge_it option option" where
  "get_edges_all i out =
     (if l_num (ei_list i) \<le> 0 \<and> l_num (ei_list out) \<le> 0 then Some None
      else if l_num (ei_list i) \<le> 0 then map_option Some (it_keys out Outgoing False)
      else map_option Some (it_both i out))"

definition get_edges_tag :: "edge_index \<Rightarrow> edge_index \<Rightarrow> u16 \<Rightarrow> node_edge_it option option" where
  "get_edges_tag i out tag =
     (if tag = 0 then get_edges_all i out
      else if l_num (ei_list i) \<le> 0 \<and> l_num (ei_list out) \<le> 0 then Some None
      else if l_num (ei_list i) \<le> 0 then map_option Some (it_tag out Outgoing tag)
      else map_option Some (it_both_tag i out tag))"

definition get_edges_dir :: "edge_index \<Rightarrow> edge_index \<Rightarrow> direction \<Rightarrow> node_edge_it option option" where
  "get_edges_dir i out d =
     (if d = Any then get_edges_all i out
      else
        (let s = (if d = Outgoing then out else i)
         in if l_num (ei_list s) \<le> 0 then Some None else map_option Some (it_keys s d False)))"

definition get_edges :: "edge_index \<Rightarrow> edge_index \<Rightarrow> direction \<Rightarrow> u16 \<Rightarrow> node_edge_it option option" where
  "get_edges i out d tag =
     (if d = Any then get_edges_tag i out tag
      else if tag = 0 then get_edges_dir i out d
      else map_option Some (it_tag (if d = Outgoing then out else i) d tag))"

text \<open>\<open>get_neighbor\<close>: the node at the other end of the first edge; the lock on it is its caller's.\<close>

definition get_neighbor :: "edge_index \<Rightarrow> edge_index \<Rightarrow> direction \<Rightarrow> u16 \<Rightarrow> addr result option" where
  "get_neighbor i out d tag =
     Option.bind (if d = Outgoing \<or> d = Any then ei_get_first tag out else Some 0) (\<lambda>p.
       if p \<noteq> 0 then Some (Inr (snd (cell_value (lh_cells (ei_pairs out) p))))
       else Option.bind (if d = Incoming \<or> d = Any then ei_get_first tag i else Some 0) (\<lambda>q.
         Some (if q \<noteq> 0 then Inr (snd (cell_value (lh_cells (ei_pairs i) q))) else Inl NullIterator)))"

text \<open>The loop of \<open>Iterator::process\<close>, as the list of what it sees.\<close>

partial_function (option) edges_seen :: "addr \<Rightarrow> edge_index \<Rightarrow> edge_index \<Rightarrow> node_edge_it \<Rightarrow> edge_view list option" where
  "edges_seen n1 i out it =
     (if \<not> ne_bool it then Some []
      else Option.bind (ne_ref n1 i out it) (\<lambda>r.
        case r of Inl e \<Rightarrow> None
        | Inr x \<Rightarrow> Option.bind (ne_next i out it) (\<lambda>(b, it1).
            if b then Option.bind (edges_seen n1 i out it1) (\<lambda>xs. Some (x # xs)) else Some [x])))"


section \<open>What is seen\<close>

definition views :: "addr \<Rightarrow> direction \<Rightarrow> (u16 \<Rightarrow> edge_pair list option) \<Rightarrow> u16 list \<Rightarrow> edge_view list" where
  "views n1 d M ks = concat (map (\<lambda>k. map (view_of n1 d k) (case M k of None \<Rightarrow> [] | Some xs \<Rightarrow> xs)) ks)"

lemma views_simps [simp]: "views n1 d M [] = []"
  "views n1 d M (k # ks) = map (view_of n1 d k) (case M k of None \<Rightarrow> [] | Some xs \<Rightarrow> xs) @ views n1 d M ks"
  by (simp_all add: views_def)

lemma here_sel [simp]: "here i out (it\<lparr>ne_pos := p\<rparr>) = here i out it" "here i out (it\<lparr>ne_vacant := v\<rparr>) = here i out it"
  "here i out (it\<lparr>ne_key := k\<rparr>) = here i out it"
  by (simp_all add: here_def)

lemma seen_end: "\<not> ne_vacant it \<Longrightarrow> ne_pos it = 0 \<Longrightarrow> edges_seen n1 i out it = Some []"
  by (subst edges_seen.simps) (simp add: ne_bool_def)

lemma vacant_key_next: "key_next i out it = Some it' \<Longrightarrow> ne_vacant it' = ne_vacant it"
  by (auto simp: key_next_def switch_direction_def Let_def split: if_splits)

text \<open>Along the chain of one tag, and then on with \<open>_next\<close>.\<close>

lemma seen_chain:
  assumes "links (lh_cells (ei_pairs (here i out it))) (ne_pos it) (a # as)" "\<not> ne_vacant it"
    and "key_next i out (it\<lparr>ne_pos := 0\<rparr>) = Some it'" "edges_seen n1 i out it' = Some ys"
  shows "edges_seen n1 i out it =
    Some (map (view_of n1 (ne_dir it) (ne_tag it)) (pairs_at (here i out it) (a # as)) @ ys)"
  using assms
proof (induction as arbitrary: it a)
  case Nil
  then have v: "ne_vacant it' = False" "ne_pos it = a" "a \<noteq> 0" using vacant_key_next by auto
  have "ne_next i out it = Some (ne_pos it' \<noteq> 0, it')" using Nil v by (simp add: ne_next_def Let_def)
  moreover have "ys = [] \<longleftrightarrow> ne_pos it' = 0"
  proof
    assume "ys = []"
    then show "ne_pos it' = 0" using Nil(4) v(1) seen_end [of it' n1 i out]
      by (subst (asm) edges_seen.simps)
        (auto simp: ne_bool_def ne_ref_def bind_eq_Some_conv split: if_splits)
  qed (use Nil(4) v(1) seen_end [of it' n1 i out] in simp)
  ultimately show ?case
    using Nil v by (subst edges_seen.simps) (auto simp: ne_bool_def ne_ref_def)
next
  case (Cons b as)
  let ?m = "lh_cells (ei_pairs (here i out it))"
  have c: "ne_pos it = a" "a \<noteq> 0" "b \<noteq> 0" "cell_next (?m a) = b" using Cons.prems(1) by simp_all
  let ?it = "it\<lparr>ne_pos := b\<rparr>"
  have "edges_seen n1 i out ?it = Some (map (view_of n1 (ne_dir it) (ne_tag it)) (pairs_at (here i out it) (b # as)) @ ys)"
    using Cons.IH [of ?it b] Cons.prems by simp
  moreover have "ne_next i out it = Some (True, ?it)" using c Cons.prems(2) by (simp add: ne_next_def Let_def)
  ultimately show ?case using c Cons.prems(2) by (subst edges_seen.simps) (simp add: ne_bool_def ne_ref_def)
qed

text \<open>Along the list of tags from the key cell \<open>p\<close>, and then on with \<open>switch_direction\<close>.\<close>

lemma seen_keys:
  assumes r: "ei_rel s ks bs" "\<forall>p\<in>set ks. bs p \<noteq> []"
    and "links (lh_cells (ei_keys s)) (ne_key it) (p # ps)" "set (p # ps) \<subseteq> set ks"
    and "here i out it = s" "ne_tag it = key_at s p" "ne_pos it = l_head (bucket s p)" "\<not> ne_vacant it"
    and "\<And>k. \<exists>it'. switch_direction True out (it\<lparr>ne_pos := 0, ne_key := 0, ne_tag := k\<rparr>) = Some it' \<and>
      edges_seen n1 i out it' = Some ys"
  shows "edges_seen n1 i out it = Some (views n1 (ne_dir it) (ei_map s ks bs) (map (key_at s) (p # ps)) @ ys)"
  using assms(3-)
proof (induction ps arbitrary: it p)
  case Nil
  have p: "p \<in> set ks" "ne_key it = p" "p \<noteq> 0" "cell_next (lh_cells (ei_keys s) p) = 0" using Nil.prems(1, 2) by simp_all
  obtain a as where a: "bs p = a # as" using r(2) p(1) by (cases "bs p") auto
  have ch: "links (lh_cells (ei_pairs (here i out it))) (ne_pos it) (a # as)"
    using r(1) p(1) Nil.prems(3, 5) a by (auto simp: ei_rel_def list_at_def)
  have m: "ei_map s ks bs (key_at s p) = Some (pairs_at s (bs p))"
    using ei_map_at [of s ks p bs] r(1) p(1) by (simp add: ei_rel_def)
  obtain it' where it': "switch_direction True out (it\<lparr>ne_pos := 0, ne_key := 0, ne_tag := ne_tag it\<rparr>) = Some it'"
    "edges_seen n1 i out it' = Some ys" using Nil.prems(7) by blast
  have "key_next i out (it\<lparr>ne_pos := 0\<rparr>) = Some it'" using it'(1) p Nil.prems(3) by (simp add: key_next_def Let_def)
  from seen_chain [OF ch Nil.prems(6) this it'(2)] show ?case using Nil.prems(3, 4) m a by simp
next
  case (Cons q ps)
  have p: "p \<in> set ks" "ne_key it = p" "p \<noteq> 0" "cell_next (lh_cells (ei_keys s) p) = q" "q \<noteq> 0" using Cons.prems(1, 2) by simp_all
  obtain a as where a: "bs p = a # as" using r(2) p(1) by (cases "bs p") auto
  have ch: "links (lh_cells (ei_pairs (here i out it))) (ne_pos it) (a # as)"
    using r(1) p(1) Cons.prems(3, 5) a by (auto simp: ei_rel_def list_at_def)
  have m: "ei_map s ks bs (key_at s p) = Some (pairs_at s (bs p))"
    using ei_map_at [of s ks p bs] r(1) p(1) by (simp add: ei_rel_def)
  let ?it = "it\<lparr>ne_key := q, ne_tag := key_at s q, ne_pos := l_head (bucket s q)\<rparr>"
  have step: "key_next i out (it\<lparr>ne_pos := 0\<rparr>) = Some ?it" using p Cons.prems(3) by (simp add: key_next_def Let_def)
  have "edges_seen n1 i out ?it = Some (views n1 (ne_dir ?it) (ei_map s ks bs) (map (key_at s) (q # ps)) @ ys)"
  proof (rule Cons.IH)
    show "links (lh_cells (ei_keys s)) (ne_key ?it) (q # ps)" using Cons.prems(1) p by simp
    show "here i out ?it = s" using Cons.prems(3) by (simp add: here_def)
    show "\<exists>it'. switch_direction True out (?it\<lparr>ne_pos := 0, ne_key := 0, ne_tag := k\<rparr>) = Some it' \<and>
      edges_seen n1 i out it' = Some ys" for k
    proof -
      have "?it\<lparr>ne_pos := 0, ne_key := 0, ne_tag := k\<rparr> = it\<lparr>ne_pos := 0, ne_key := 0, ne_tag := k\<rparr>" by (cases it) simp
      then show ?thesis using Cons.prems(7) [of k] by simp
    qed
  qed (use Cons.prems in simp_all)
  from seen_chain [OF ch Cons.prems(6) step this] show ?case using Cons.prems(3, 4) m a by simp
qed

text \<open>The iterators that \<open>get_edges\<close> makes of one index.\<close>

lemma key_cells:
  assumes "ei_rel s ks bs"
  shows "links (lh_cells (ei_keys s)) (l_head (ei_list s)) ks" "l_num (ei_list s) = 0 \<longleftrightarrow> ks = []" "distinct (map (key_at s) ks)"
    "set (map (key_at s) ks) = dom (ei_map s ks bs)"
proof -
  have l: "links (lh_cells (ei_keys s)) (l_head (ei_list s)) ks" "l_num (ei_list s) = word_of_nat (length ks)" "inj_on (key_at s) (set ks)"
    using assms by (simp_all add: ei_rel_def list_at_def)
  show "links (lh_cells (ei_keys s)) (l_head (ei_list s)) ks" by fact
  have d: "distinct (map (key_at s) ks)" using links_distinct [OF l(1)] l(3) by (simp add: distinct_map)
  have "length ks = card (set (map (key_at s) ks))" using distinct_card [OF d] by simp
  also have "\<dots> \<le> card (UNIV :: u16 set)" by (rule card_mono) simp_all
  finally have "length ks < 2 ^ 64" by (simp add: card_word)
  then have "\<not> 2 ^ 64 dvd length ks" if "ks \<noteq> []" using that nat_dvd_not_less [of "length ks" "2 ^ 64"] by simp
  then show "l_num (ei_list s) = 0 \<longleftrightarrow> ks = []" using l(2) by (auto simp: word_of_nat_eq_0_iff)
  show "distinct (map (key_at s) ks)" by fact
  show "set (map (key_at s) ks) = dom (ei_map s ks bs)"
  proof (rule set_eqI)
    fix k
    show "k \<in> set (map (key_at s) ks) \<longleftrightarrow> k \<in> dom (ei_map s ks bs)"
    proof (cases "k \<in> key_at s ` set ks")
      case True
      then obtain p where "p \<in> set ks" "k = key_at s p" by blast
      then show ?thesis using ei_map_at [OF l(3), of p bs] by (simp add: domI)
    qed (simp add: ei_map_none dom_def)
  qed
qed

lemma seen_first_key:
  assumes r: "ei_rel s ks bs" "\<forall>p\<in>set ks. bs p \<noteq> []" and ks: "ks \<noteq> []"
    and it: "here i out it = s" "ne_key it = l_head (ei_list s)" "ne_tag it = key_at s (l_head (ei_list s))"
      "ne_pos it = l_head (bucket s (l_head (ei_list s)))" "\<not> ne_vacant it"
    and sw: "\<And>k. \<exists>it'. switch_direction True out (it\<lparr>ne_pos := 0, ne_key := 0, ne_tag := k\<rparr>) = Some it' \<and>
      edges_seen n1 i out it' = Some ys"
  shows "l_head (ei_list s) \<noteq> 0" "ne_pos it \<noteq> 0"
    "edges_seen n1 i out it = Some (views n1 (ne_dir it) (ei_map s ks bs) (map (key_at s) ks) @ ys)"
proof -
  obtain p ps where p: "ks = p # ps" using ks by (cases ks) auto
  have l: "links (lh_cells (ei_keys s)) (l_head (ei_list s)) (p # ps)" using key_cells(1) [OF r(1)] p by simp
  then have h: "l_head (ei_list s) = p" "p \<noteq> 0" by simp_all
  then show "l_head (ei_list s) \<noteq> 0" by simp
  have "bs p \<noteq> []" "links (lh_cells (ei_pairs s)) (l_head (bucket s p)) (bs p)" using r p by (auto simp: ei_rel_def list_at_def)
  then show "ne_pos it \<noteq> 0" using it(4) h by (cases "bs p") auto
  show "edges_seen n1 i out it = Some (views n1 (ne_dir it) (ei_map s ks bs) (map (key_at s) ks) @ ys)"
  proof -
    have "edges_seen n1 i out it = Some (views n1 (ne_dir it) (ei_map s ks bs) (map (key_at s) (p # ps)) @ ys)"
      by (rule seen_keys [OF r _ _ it(1) _ _ it(5) sw]) (use l h it p in simp_all)
    then show ?thesis unfolding p [symmetric] .
  qed
qed

lemma seen_tag:
  assumes ok: "ei_ok s M" and it: "here i out it = s" "ei_get_first (ne_tag it) s = Some (ne_pos it)" "\<not> ne_vacant it"
    and nx: "key_next i out (it\<lparr>ne_pos := 0\<rparr>) = Some it'" "edges_seen n1 i out it' = Some ys"
  shows "\<exists>it1. skip_empty i out it = Some it1 \<and> edges_seen n1 i out it1 = Some (views n1 (ne_dir it) M [ne_tag it] @ ys)"
proof -
  obtain as where as: "links (lh_cells (ei_pairs s)) (ne_pos it) as"
    "M (ne_tag it) = (if as = [] then None else Some (pairs_at s as))"
    using ei_get_first_ok [OF ok, of "ne_tag it"] it(2) by auto
  show ?thesis
  proof (cases as)
    case Nil
    then have "it\<lparr>ne_pos := 0\<rparr> = it" using as(1) by simp
    then show ?thesis using Nil as nx by (simp add: skip_empty_def)
  next
    case (Cons a as')
    have "links (lh_cells (ei_pairs (here i out it))) (ne_pos it) (a # as')" using as(1) it(1) Cons by simp
    from seen_chain [OF this it(3) nx] show ?thesis using as Cons it(1) by (simp add: skip_empty_def)
  qed
qed

section \<open>The edges of a node\<close>

lemma tag_alone:
  assumes ok: "ei_ok s M" and s: "s = (if d = Outgoing then out else i)"
  shows "\<exists>it. it_tag s d tag = Some it \<and> edges_seen n1 i out it = Some (views n1 d M [tag])"
proof -
  obtain p where p: "ei_get_first tag s = Some p" using ei_get_first_ok [OF ok, of tag] by blast
  let ?it = "\<lparr>ne_dir = d, ne_out = False, ne_key = 0, ne_tag = tag, ne_pos = p, ne_vacant = False\<rparr>"
  have "key_next i out (?it\<lparr>ne_pos := 0\<rparr>) = Some (?it\<lparr>ne_pos := 0\<rparr>)" by (simp add: key_next_def switch_direction_def)
  from seen_tag [OF ok _ _ _ this seen_end] have "\<exists>it1. skip_empty i out ?it = Some it1 \<and>
      edges_seen n1 i out it1 = Some (views n1 d M [tag])" using p s by (simp add: here_def)
  moreover have "skip_empty i out ?it = Some ?it" by (simp add: skip_empty_def key_next_def switch_direction_def)
  ultimately show ?thesis using p by (simp add: it_tag_def)
qed

lemma keys_alone:
  assumes r: "ei_rel s ks bs" "\<forall>p\<in>set ks. bs p \<noteq> []" "ks \<noteq> []" and s: "s = (if d = Outgoing then out else i)"
  shows "\<exists>it. it_keys s d False = Some it \<and> edges_seen n1 i out it = Some (views n1 d (ei_map s ks bs) (map (key_at s) ks))"
proof -
  let ?k = "l_head (ei_list s)"
  let ?it = "\<lparr>ne_dir = d, ne_out = False, ne_key = ?k, ne_tag = key_at s ?k, ne_pos = l_head (bucket s ?k), ne_vacant = False\<rparr>"
  have "\<exists>it'. switch_direction True out (?it\<lparr>ne_pos := 0, ne_key := 0, ne_tag := k\<rparr>) = Some it' \<and> edges_seen n1 i out it' = Some []" for k
    by (simp add: switch_direction_def seen_end)
  note f = seen_first_key [OF r _ _ _ _ _ this]
  have "?k \<noteq> 0" "edges_seen n1 i out ?it = Some (views n1 d (ei_map s ks bs) (map (key_at s) ks))"
    using f(1) f(3) s by (simp_all add: here_def)
  then show ?thesis by (simp add: it_keys_def Let_def)
qed

lemma both_keys:
  assumes i: "ei_rel i ki bi" "\<forall>p\<in>set ki. bi p \<noteq> []" "ki \<noteq> []" and o: "ei_rel out ko bo" "\<forall>p\<in>set ko. bo p \<noteq> []"
  shows "\<exists>it. it_both i out = Some it \<and> edges_seen n1 i out it =
    Some (views n1 Incoming (ei_map i ki bi) (map (key_at i) ki) @ views n1 Outgoing (ei_map out ko bo) (map (key_at out) ko))"
proof -
  let ?ys = "views n1 Outgoing (ei_map out ko bo) (map (key_at out) ko)" and ?k = "l_head (ei_list i)"
  let ?it = "\<lparr>ne_dir = Incoming, ne_out = l_num (ei_list out) > 0, ne_key = ?k, ne_tag = key_at i ?k,
    ne_pos = l_head (bucket i ?k), ne_vacant = False\<rparr>"
  have "\<exists>it'. switch_direction True out (?it\<lparr>ne_pos := 0, ne_key := 0, ne_tag := k\<rparr>) = Some it' \<and> edges_seen n1 i out it' = Some ?ys" for k
  proof (cases "ko = []")
    case True
    then show ?thesis using key_cells(2) [OF o(1)] by (simp add: switch_direction_def seen_end)
  next
    case False
    then have "l_num (ei_list out) > 0" using key_cells(2) [OF o(1)] by (simp add: word_neq_0_conv)
    moreover obtain it2 where "it_keys out Outgoing False = Some it2" "edges_seen n1 i out it2 = Some ?ys"
      using keys_alone [OF o False, of Outgoing out i n1] by auto
    ultimately show ?thesis by (auto simp: it_keys_def switch_direction_def Let_def split: if_splits)
  qed
  note f = seen_first_key [OF i _ _ _ _ _ this]
  have "?k \<noteq> 0" "ne_pos ?it \<noteq> 0"
    "edges_seen n1 i out ?it = Some (views n1 Incoming (ei_map i ki bi) (map (key_at i) ki) @ ?ys)"
    using f(1) f(2) f(3) by (simp_all add: here_def)
  then show ?thesis by (simp add: it_both_def it_keys_def skip_empty_def Let_def)
qed

lemma both_tag:
  assumes i: "ei_ok i Mi" and o: "ei_rel out ko bo" "\<forall>p\<in>set ko. bo p \<noteq> []" "Mo = ei_map out ko bo"
  shows "\<exists>it. it_both_tag i out tag = Some it \<and> edges_seen n1 i out it = Some (views n1 Incoming Mi [tag] @ views n1 Outgoing Mo [tag])"
proof -
  have ok: "ei_ok out Mo" using o unfolding ei_ok_def by blast
  obtain p where p: "ei_get_first tag i = Some p" using ei_get_first_ok [OF i, of tag] by blast
  let ?it = "\<lparr>ne_dir = Incoming, ne_out = l_num (ei_list out) > 0, ne_key = 0, ne_tag = tag, ne_pos = p, ne_vacant = False\<rparr>"
  obtain it' where it': "key_next i out (?it\<lparr>ne_pos := 0\<rparr>) = Some it'" "edges_seen n1 i out it' = Some (views n1 Outgoing Mo [tag])"
  proof (cases "ko = []")
    case True
    have "Mo tag = None" unfolding o(3) by (rule ei_map_none) (simp add: True)
    then show ?thesis using that [of "?it\<lparr>ne_pos := 0\<rparr>"] True key_cells(2) [OF o(1)]
      by (simp add: key_next_def switch_direction_def seen_end)
  next
    case False
    then have n: "l_num (ei_list out) > 0" using key_cells(2) [OF o(1)] by (simp add: word_neq_0_conv)
    obtain it2 where "it_tag out Outgoing tag = Some it2" "edges_seen n1 i out it2 = Some (views n1 Outgoing Mo [tag])"
      using tag_alone [OF ok, of Outgoing out i tag n1] by auto
    then show ?thesis using that [of it2] n by (auto simp: it_tag_def key_next_def switch_direction_def)
  qed
  have "\<exists>it1. skip_empty i out ?it = Some it1 \<and> edges_seen n1 i out it1 = Some (views n1 Incoming Mi [tag] @ views n1 Outgoing Mo [tag])"
    using seen_tag [OF i _ _ _ it'] p by (simp add: here_def)
  then show ?thesis using p by (simp add: it_both_tag_def it_tag_def)
qed

text \<open>What a node's iterator sees: the incoming part and the outgoing part, each for one tag or for all.\<close>

definition edges_spec ::
    "addr \<Rightarrow> direction \<Rightarrow> u16 \<Rightarrow> (u16 \<Rightarrow> edge_pair list option) \<Rightarrow> u16 list \<Rightarrow> (u16 \<Rightarrow> edge_pair list option) \<Rightarrow> u16 list \<Rightarrow> edge_view list" where
  "edges_spec n1 d tag Mi ki Mo ko =
     (if d = Outgoing then [] else views n1 Incoming Mi (if tag = 0 then ki else [tag])) @
     (if d = Incoming then [] else views n1 Outgoing Mo (if tag = 0 then ko else [tag]))"

text \<open>
  C30. \<open>get_edges\<close> of a node, for a direction or both and for a tag or all tags, yields an iterator that goes
  over exactly the edges that the edge indices hold for them, each once, incoming before outgoing; with
  source and destination in the right order; and the loop ends.
\<close>

theorem node_edges_correct:
  assumes "ei_ok i Mi" "ei_ok out Mo"
  shows "\<exists>ki ko r. distinct ki \<and> set ki = dom Mi \<and> distinct ko \<and> set ko = dom Mo \<and> get_edges i out d tag = Some r \<and>
    (case r of None \<Rightarrow> Some [] | Some it \<Rightarrow> edges_seen n1 i out it) = Some (edges_spec n1 d tag Mi ki Mo ko)"
proof -
  obtain ki bi where i: "ei_rel i ki bi" "\<forall>p\<in>set ki. bi p \<noteq> []" "Mi = ei_map i ki bi" using assms(1) by (auto simp: ei_ok_def)
  obtain ko bo where o: "ei_rel out ko bo" "\<forall>p\<in>set ko. bo p \<noteq> []" "Mo = ei_map out ko bo" using assms(2) by (auto simp: ei_ok_def)
  note ci = key_cells [OF i(1)] and co = key_cells [OF o(1)]
  have none: "views n1 d' M [tag] = []" if "dom M = {}" for d' and M :: "u16 \<Rightarrow> edge_pair list option" using that by simp
  have di: "dom Mi = {}" if "ki = []" using that unfolding i(3) ci(4) [symmetric] by simp
  have do': "dom Mo = {}" if "ko = []" using that unfolding o(3) co(4) [symmetric] by simp
  have all: "\<exists>r. get_edges_all i out = Some r \<and> (case r of None \<Rightarrow> Some [] | Some it \<Rightarrow> edges_seen n1 i out it) =
      Some (edges_spec n1 Any 0 Mi (map (key_at i) ki) Mo (map (key_at out) ko))"
    using ci(2) co(2) keys_alone [OF o(1, 2), of Outgoing out i n1] both_keys [OF i(1, 2) _ o(1, 2), of n1] i(3) o(3)
    by (cases "ki = []"; cases "ko = []") (auto simp: get_edges_all_def edges_spec_def)
  have tagged: "\<exists>r. get_edges_tag i out tag = Some r \<and> (case r of None \<Rightarrow> Some [] | Some it \<Rightarrow> edges_seen n1 i out it) =
      Some (edges_spec n1 Any tag Mi (map (key_at i) ki) Mo (map (key_at out) ko))" if t: "tag \<noteq> 0"
  proof (cases "ki = []")
    case True
    then show ?thesis
      using ci(2) co(2) t none [OF di] none [OF do'] tag_alone [OF assms(2), of Outgoing out i tag n1]
      by (cases "ko = []") (auto simp: get_edges_tag_def edges_spec_def)
  next
    case False
    then show ?thesis using ci(2) t both_tag [OF assms(1) o, of tag n1] by (auto simp: get_edges_tag_def edges_spec_def)
  qed
  have dir: "\<exists>r. get_edges_dir i out d = Some r \<and> (case r of None \<Rightarrow> Some [] | Some it \<Rightarrow> edges_seen n1 i out it) =
      Some (edges_spec n1 d 0 Mi (map (key_at i) ki) Mo (map (key_at out) ko))"
    using ci(2) co(2) keys_alone [OF o(1, 2), of Outgoing out i n1] keys_alone [OF i(1, 2), of Incoming out i n1] i(3) o(3) all
    by (cases d; cases "ki = []"; cases "ko = []") (auto simp: get_edges_dir_def edges_spec_def)
  have "\<exists>r. get_edges i out d tag = Some r \<and> (case r of None \<Rightarrow> Some [] | Some it \<Rightarrow> edges_seen n1 i out it) =
      Some (edges_spec n1 d tag Mi (map (key_at i) ki) Mo (map (key_at out) ko))"
    using dir tagged tag_alone [OF assms(2), of Outgoing out i tag n1] tag_alone [OF assms(1), of Incoming out i tag n1] all
    by (cases d; cases "tag = 0") (auto simp: get_edges_def edges_spec_def get_edges_tag_def)
  then show ?thesis using ci(3, 4) co(3, 4) i(3) o(3) by blast
qed

text \<open>A node with one edge of tag 7 in an index.\<close>

definition ex_one_edge :: "addr \<Rightarrow> addr \<Rightarrow> edge_index" where
  "ex_one_edge e n = \<lparr>ei_list = \<lparr>l_head = 64, l_num = 1\<rparr>,
     ei_keys = \<lparr>lh_cells = (\<lambda>_. \<lparr>cell_value = \<lparr>ek_key = 7, ek_list = \<lparr>l_head = 128, l_num = 1\<rparr>\<rparr>, cell_next = 0\<rparr>), lh_supply = []\<rparr>,
     ei_pairs = \<lparr>lh_cells = (\<lambda>_. \<lparr>cell_value = (e, n), cell_next = 0\<rparr>), lh_supply = []\<rparr>\<rparr>"

lemma ex_one_edge_ok: "ei_ok (ex_one_edge e n) [7 \<mapsto> [(e, n)]]"
proof -
  have "ei_rel (ex_one_edge e n) [64] (\<lambda>_. [128])"
    by (simp add: ei_rel_def ex_one_edge_def list_at_def bucket_def)
  moreover have "ei_map (ex_one_edge e n) [64] (\<lambda>_. [128]) = [7 \<mapsto> [(e, n)]]"
    by (auto simp: ei_map_def ex_one_edge_def fun_eq_iff)
  ultimately show ?thesis unfolding ei_ok_def by (intro exI [of _ "[64]"] exI [of _ "\<lambda>_. [128]"]) simp
qed

lemma one_key: "distinct ks \<Longrightarrow> set ks = {k} \<Longrightarrow> ks = [k]"
proof -
  assume d: "distinct ks" "set ks = {k}"
  then have "length ks = 1" using distinct_card [of ks] by simp
  then show ?thesis using d(2) by (cases ks) auto
qed

lemma node_edges_correct_witness:
  "\<exists>it. get_edges (ex_one_edge 4096 500) (ex_one_edge 4128 600) Any 0 = Some (Some it) \<and>
     edges_seen 400 (ex_one_edge 4096 500) (ex_one_edge 4128 600) it = Some [(4096, 500, 400, 7), (4128, 400, 600, 7)]"
proof -
  obtain ki ko r where "distinct ki" "set ki = dom [7 :: u16 \<mapsto> [(4096 :: addr, 500 :: addr)]]" "distinct ko"
    "set ko = dom [7 :: u16 \<mapsto> [(4128 :: addr, 600 :: addr)]]"
    "get_edges (ex_one_edge 4096 500) (ex_one_edge 4128 600) Any 0 = Some r"
    "(case r of None \<Rightarrow> Some [] | Some it \<Rightarrow> edges_seen 400 (ex_one_edge 4096 500) (ex_one_edge 4128 600) it) =
      Some (edges_spec 400 Any 0 [7 \<mapsto> [(4096, 500)]] ki [7 \<mapsto> [(4128, 600)]] ko)"
    using node_edges_correct [OF ex_one_edge_ok ex_one_edge_ok, of 4096 500 4128 600 Any 0 400] by blast
  moreover from this have "ki = [7]" "ko = [7]" using one_key by simp_all
  ultimately show ?thesis by (cases r) (simp_all add: edges_spec_def view_of_def)
qed

end
