(* ===== verification/Node_Removal.thy ===== *)
theory Node_Removal
  imports Node_Edges
begin

text \<open>
  The loop of \<open>Graph::remove (Node &)\<close> in \<open>src/graph.cc\<close>: it goes over the edges of the node and removes each
  from the edge indices, which notify the iterator of the loop. Only the indices of the node itself are
  here. Properties: the loop removes every edge of a node without loops, once; for a node whose only edge is
  a loop it reads a null pointer.
\<close>

section \<open>Removal under an iterator\<close>

fun edge_notify :: "edge_index \<Rightarrow> edge_index \<Rightarrow> list_event list \<Rightarrow> node_edge_it \<Rightarrow> node_edge_it option" where
  "edge_notify i out [] it = Some it"
| "edge_notify i out (ev # es) it =
     (case ev of RemoveNotify p \<Rightarrow> Option.bind (ne_remove_notify i out p it) (edge_notify i out es)
      | _ \<Rightarrow> edge_notify i out es it)"

text \<open>
  \<open>Node::remove_edge\<close> with a registered iterator. The cells of the two indices and those of the tags are
  different memory, so only a pair of the index that the iterator is in can be its position.
\<close>

definition remove_edge_under ::
    "direction \<Rightarrow> u16 \<Rightarrow> addr \<Rightarrow> edge_index \<times> edge_index \<times> node_edge_it \<Rightarrow> (edge_index \<times> edge_index \<times> node_edge_it) option" where
  "remove_edge_under d tag e st =
     (let (i, out, it) = st; s = (if d = Outgoing then out else i)
      in Option.bind (list_find eq_key (edge_key_new tag) (ei_list s) (ei_keys s)) (\<lambda>p.
           Option.bind
             (if p = 0 \<or> ne_dir it \<noteq> d then Some it
              else Option.bind (list_remove eq_pair (e, 0) (bucket s p) (ei_pairs s)) (\<lambda>(h, P, les). edge_notify i out les it))
             (\<lambda>it1. map_option (\<lambda>s'. if d = Outgoing then (i, s', it1) else (s', out, it1)) (ei_remove tag e s))))"

text \<open>\<open>Graph::remove (Edge &)\<close>, as far as it is about the indices of the node \<open>n1\<close>.\<close>

definition remove_edge ::
    "addr \<Rightarrow> edge_view \<Rightarrow> edge_index \<times> edge_index \<times> node_edge_it \<Rightarrow> (edge_index \<times> edge_index \<times> node_edge_it) option" where
  "remove_edge n1 x st =
     (let (e, src, dst, tag) = x
      in Option.bind (if src = n1 then remove_edge_under Outgoing tag e st else Some st)
           (\<lambda>st1. if dst = n1 then remove_edge_under Incoming tag e st1 else Some st1))"

text \<open>The loop; the edges removed, and the two indices at its end.\<close>

partial_function (option) remove_all_edges ::
    "addr \<Rightarrow> edge_index \<Rightarrow> edge_index \<Rightarrow> node_edge_it \<Rightarrow> (edge_view list \<times> edge_index \<times> edge_index) option" where
  "remove_all_edges n1 i out it =
     (if \<not> ne_bool it then Some ([], i, out)
      else Option.bind (ne_ref n1 i out it) (\<lambda>r.
        case r of Inl e \<Rightarrow> None
        | Inr x \<Rightarrow> Option.bind (remove_edge n1 x (i, out, it)) (\<lambda>(i1, out1, it1).
            Option.bind (ne_next i1 out1 it1) (\<lambda>(b, it2).
              if b then Option.bind (remove_all_edges n1 i1 out1 it2) (\<lambda>(xs, i2, out2). Some (x # xs, i2, out2))
              else Some ([x], i1, out1)))))"

definition remove_node_edges :: "addr \<Rightarrow> edge_index \<Rightarrow> edge_index \<Rightarrow> (edge_view list \<times> edge_index \<times> edge_index) option" where
  "remove_node_edges n1 i out =
     Option.bind (get_edges_all i out) (\<lambda>r. case r of None \<Rightarrow> Some ([], i, out) | Some it \<Rightarrow> remove_all_edges n1 i out it)"

section \<open>Removing the first pair of the first tag\<close>

lemma remove_first:
  assumes r: "ei_rel s (p # ps) bs" "bs p = a # as"
  obtains s' h where
    "list_find eq_key (edge_key_new (key_at s p)) (ei_list s) (ei_keys s) = Some p"
    "list_remove eq_pair (fst (cell_value (lh_cells (ei_pairs s) a)), 0) (bucket s p) (ei_pairs s) =
      Some (h, ei_pairs s, [RemoveNotify a, HeaderLog, CellFree a])"
    "ei_remove (key_at s p) (fst (cell_value (lh_cells (ei_pairs s) a))) s = Some s'"
    "ei_pairs s' = ei_pairs s" "\<And>q. key_at s' q = key_at s q" "\<And>q. q \<noteq> p \<Longrightarrow> bucket s' q = bucket s q"
    "ei_rel s' (if as = [] then ps else p # ps) (bs(p := as))"
    "as \<noteq> [] \<Longrightarrow> l_head (bucket s' p) = hd as" "l_num (ei_list s') = (if as = [] then l_num (ei_list s) - 1 else l_num (ei_list s))"
proof -
  let ?x = "cell_value (lh_cells (ei_pairs s) a)"
  let ?h = "\<lparr>l_head = cell_next (lh_cells (ei_pairs s) a), l_num = l_num (bucket s p) - 1\<rparr>"
  have p: "list_at (lh_cells (ei_pairs s)) (bucket s p) (a # as)" "set (a # as) \<subseteq> {0<..<2 ^ 64}" "p \<noteq> 0" "l_head (ei_list s) = p"
    using r by (auto simp: ei_rel_def list_at_def)
  have find: "list_find eq_key (edge_key_new (key_at s p)) (ei_list s) (ei_keys s) = Some p"
    using find_key_cell [OF r(1), of "key_at s p"] by simp
  have hd: "l_head (bucket s p) = a" "a \<noteq> 0" using p(1) by (simp_all add: list_at_def)
  have rm: "list_remove eq_pair (fst ?x, 0) (bucket s p) (ei_pairs s) = Some (?h, ei_pairs s, [RemoveNotify a, HeaderLog, CellFree a])"
    unfolding list_remove_def hd(1) by (subst remove_loop.simps) (use hd in \<open>simp add: eq_pair_def unlink_def Let_def\<close>)
  have at: "list_at (lh_cells (ei_pairs s)) ?h as" using p(1) by (simp add: list_at_def)
  let ?s1 = "put_bucket p ?h s"
  have s1: "s\<lparr>ei_pairs := ei_pairs s\<rparr> = s" by simp
  have pin: "p \<in> set (p # ps)" by simp
  have dis: "set (lh_supply (ei_pairs s)) \<inter> set (bs p) = {}" "distinct (lh_supply (ei_pairs s))" using r by (auto simp: ei_rel_def)
  have new: "set as \<subseteq> set (bs p) \<union> set (lh_supply (ei_pairs s)) - set (lh_supply (ei_pairs s))" using dis r(2) by auto
  have R: "ei_rel ?s1 (p # ps) (bs(p := as))"
    using ei_rel_bucket(1) [OF r(1) pin at _ new dis(2)] p(2) s1 by simp
  have len: "l_num ?h = 0 \<longleftrightarrow> as = []" by (rule length_cells [OF at]) (use p(2) in simp)
  show ?thesis
  proof (cases "as = []")
    case False
    have "ei_remove (key_at s p) (fst ?x) s = Some ?s1" using find rm len False p(3) by (simp add: ei_remove_def Let_def)
    moreover have "l_head ?h = hd as" using at False by (cases as) (simp_all add: list_at_def)
    ultimately show ?thesis using that [OF find rm, of ?s1] R False by simp
  next
    case True
    obtain s' ks' where s': "remove_key (key_at ?s1 p) ?s1 = Some s'" "ei_rel s' ks' (bs(p := as))" "set ks' = set (p # ps) - {p}"
      using remove_key_ok [OF R pin] by metis
    have eqk: "eq_key (edge_key_new (key_at ?s1 p)) (cell_value (lh_cells (ei_keys ?s1) p))" by (simp add: eq_key_def edge_key_new_def)
    have K: "list_remove eq_key (edge_key_new (key_at ?s1 p)) (ei_list ?s1) (ei_keys ?s1) =
      Some (\<lparr>l_head = cell_next (lh_cells (ei_keys s) p), l_num = l_num (ei_list s) - 1\<rparr>, ei_keys ?s1, [RemoveNotify p, HeaderLog, CellFree p])"
      unfolding list_remove_def by (subst remove_loop.simps) (use p(3, 4) eqk in \<open>simp add: unlink_def Let_def\<close>)
    have e: "s' = ?s1\<lparr>ei_list := \<lparr>l_head = cell_next (lh_cells (ei_keys s) p), l_num = l_num (ei_list s) - 1\<rparr>\<rparr>"
      using s'(1) K by (simp add: remove_key_def)
    have "links (lh_cells (ei_keys s')) (l_head (ei_list s')) ks'" using s'(2) by (simp add: ei_rel_def list_at_def)
    moreover have "links (lh_cells (ei_keys s')) (l_head (ei_list s')) ps"
    proof -
      have "links (lh_cells (ei_keys s)) (l_head (ei_list s)) (p # ps)" using r(1) by (simp add: ei_rel_def list_at_def)
      then show ?thesis unfolding e by (auto intro: links_cong)
    qed
    ultimately have ks': "ks' = ps" by (rule links_unique)
    have "ei_remove (key_at s p) (fst ?x) s = Some s'" using find rm len True p(3) s'(1) by (simp add: ei_remove_def Let_def)
    moreover have "bucket s' q = bucket s q" if "q \<noteq> p" for q using that unfolding e by (simp add: bucket_def put_bucket_def Let_def)
    ultimately show ?thesis using that [OF find rm, of s'] s'(2) ks' True unfolding e by simp
  qed
qed

section \<open>One step of the loop\<close>

definition first_pos :: "edge_index \<Rightarrow> node_edge_it \<Rightarrow> bool" where
  "first_pos s it \<longleftrightarrow> \<not> ne_vacant it \<and> ne_key it = l_head (ei_list s) \<and> ne_tag it = key_at s (l_head (ei_list s)) \<and>
     ne_pos it = l_head (bucket s (l_head (ei_list s)))"

definition listed :: "edge_index \<Rightarrow> addr list \<Rightarrow> (addr \<Rightarrow> addr list) \<Rightarrow> bool" where
  "listed s ks bs \<longleftrightarrow> ei_rel s ks bs \<and> (\<forall>p\<in>set ks. bs p \<noteq> [])"

lemma not_vacant: "\<not> ne_vacant it \<Longrightarrow> it\<lparr>ne_vacant := False\<rparr> = it"
  by (cases it) simp

lemma first_pos_cells:
  assumes "listed s (p # ps) bs" "bs p = a # as" "first_pos s it"
  shows "ne_key it = p" "ne_tag it = key_at s p" "ne_pos it = a" "a \<noteq> 0" "p \<noteq> 0"
    "links (lh_cells (ei_pairs s)) a (a # as)" "links (lh_cells (ei_keys s)) p (p # ps)"
proof -
  have "links (lh_cells (ei_keys s)) (l_head (ei_list s)) (p # ps)" "links (lh_cells (ei_pairs s)) (l_head (bucket s p)) (a # as)"
    using assms(1, 2) by (auto simp: listed_def ei_rel_def list_at_def)
  then show "ne_key it = p" "ne_tag it = key_at s p" "ne_pos it = a" "a \<noteq> 0" "p \<noteq> 0"
    "links (lh_cells (ei_pairs s)) a (a # as)" "links (lh_cells (ei_keys s)) p (p # ps)"
    using assms(3) by (auto simp: first_pos_def)
qed

text \<open>Where the iterator goes from the first pair.\<close>

lemma next_first:
  assumes l: "listed s (p # ps) bs" and b: "bs p = a # as" and it: "first_pos s it" "here i out it = s"
  shows "as \<noteq> [] \<Longrightarrow> ne_next i out it = Some (True, it\<lparr>ne_pos := hd as\<rparr>)"
    "as = [] \<Longrightarrow> ps = q # ps' \<Longrightarrow>
      ne_next i out it = Some (True, it\<lparr>ne_pos := l_head (bucket s q), ne_key := q, ne_tag := key_at s q\<rparr>)"
    "as = [] \<Longrightarrow> ps = [] \<Longrightarrow> ne_next i out it =
      map_option (\<lambda>it2. (ne_pos it2 \<noteq> 0, it2)) (switch_direction True out (it\<lparr>ne_pos := 0, ne_key := 0\<rparr>))"
proof -
  note c = first_pos_cells [OF l b it(1)]
  have v: "\<not> ne_vacant it" using it(1) by (simp add: first_pos_def)
  show "ne_next i out it = Some (True, it\<lparr>ne_pos := hd as\<rparr>)" if "as \<noteq> []"
    using that v c it(2) by (cases as) (auto simp: ne_next_def Let_def)
  have nx: "ne_next i out it = map_option (\<lambda>it2. (ne_pos it2 \<noteq> 0, it2)) (key_next i out (it\<lparr>ne_pos := 0\<rparr>))" if "as = []"
    using that v c it(2) by (simp add: ne_next_def Let_def)
  show "ne_next i out it = Some (True, it\<lparr>ne_pos := l_head (bucket s q), ne_key := q, ne_tag := key_at s q\<rparr>)"
    if e: "as = []" "ps = q # ps'"
  proof -
    have q: "cell_next (lh_cells (ei_keys s) p) = q" "q \<noteq> 0" using c(7) e(2) by simp_all
    have "bs q \<noteq> []" "links (lh_cells (ei_pairs s)) (l_head (bucket s q)) (bs q)"
      using l e(2) by (auto simp: listed_def ei_rel_def list_at_def)
    then have "l_head (bucket s q) \<noteq> 0" by (cases "bs q") auto
    moreover have "it\<lparr>ne_pos := 0, ne_key := q, ne_tag := key_at s q, ne_pos := l_head (bucket s q)\<rparr> =
        it\<lparr>ne_pos := l_head (bucket s q), ne_key := q, ne_tag := key_at s q\<rparr>" by (cases it) simp
    ultimately show ?thesis using nx [OF e(1)] q c it(2) by (simp add: key_next_def Let_def)
  qed
  show "ne_next i out it = map_option (\<lambda>it2. (ne_pos it2 \<noteq> 0, it2)) (switch_direction True out (it\<lparr>ne_pos := 0, ne_key := 0\<rparr>))"
    if e: "as = []" "ps = []"
    using nx [OF e(1)] c e(2) it(2) by (simp add: key_next_def Let_def)
qed

lemma remove_under_first:
  assumes l: "listed s (p # ps) bs" and b: "bs p = a # as" and it: "first_pos s it" "ne_dir it = d"
    and d: "d \<noteq> Any" "s = (if d = Outgoing then out else i)"
  obtains s' where "listed s' (if as = [] then ps else p # ps) (bs(p := as))" "ei_pairs s' = ei_pairs s" "\<And>q. key_at s' q = key_at s q"
    "\<And>q. q \<noteq> p \<Longrightarrow> bucket s' q = bucket s q" "as \<noteq> [] \<Longrightarrow> l_head (bucket s' p) = hd as"
    "\<And>i' out'. (if d = Outgoing then out' = out else i' = i) \<Longrightarrow>
      remove_edge_under d (key_at s p) (fst (cell_value (lh_cells (ei_pairs s) a))) (i', out', it) =
      map_option (\<lambda>(b, it1). if d = Outgoing then (i', s', it1\<lparr>ne_vacant := True\<rparr>) else (s', out', it1\<lparr>ne_vacant := True\<rparr>)) (ne_next i' out' it)"
proof -
  let ?e = "fst (cell_value (lh_cells (ei_pairs s) a))"
  have r: "ei_rel s (p # ps) bs" using l by (simp add: listed_def)
  note c = first_pos_cells [OF l b it(1)]
  have v: "it\<lparr>ne_vacant := False\<rparr> = it" using it(1) by (simp add: first_pos_def not_vacant)
  obtain s' h where s': "list_find eq_key (edge_key_new (key_at s p)) (ei_list s) (ei_keys s) = Some p"
    "list_remove eq_pair (?e, 0) (bucket s p) (ei_pairs s) = Some (h, ei_pairs s, [RemoveNotify a, HeaderLog, CellFree a])"
    "ei_remove (key_at s p) ?e s = Some s'" "ei_pairs s' = ei_pairs s" "\<And>q. key_at s' q = key_at s q" "\<And>q. q \<noteq> p \<Longrightarrow> bucket s' q = bucket s q"
    "ei_rel s' (if as = [] then ps else p # ps) (bs(p := as))" "as \<noteq> [] \<Longrightarrow> l_head (bucket s' p) = hd as"
    by (rule remove_first [OF r b]) (rule that)
  have "p \<notin> set ps" using links_distinct [OF c(7)] by simp
  then have ls: "listed s' (if as = [] then ps else p # ps) (bs(p := as))" using s'(7) l by (auto simp: listed_def)
  show ?thesis
  proof (rule that [OF ls s'(4, 5, 6, 8)])
    fix i' out' assume e: "if d = Outgoing then out' = out else i' = i"
    then have here: "s = (if d = Outgoing then out' else i')" using d by auto
    show "remove_edge_under d (key_at s p) ?e (i', out', it) =
      map_option (\<lambda>(b, it1). if d = Outgoing then (i', s', it1\<lparr>ne_vacant := True\<rparr>) else (s', out', it1\<lparr>ne_vacant := True\<rparr>)) (ne_next i' out' it)"
      unfolding remove_edge_under_def here [symmetric]
      using s'(1-3) c(3, 5) it(2) v by (cases "ne_next i' out' it") (auto simp: Let_def here [symmetric] ne_remove_notify_def)
  qed
qed

lemma loop_step:
  assumes "\<not> ne_vacant it" "ne_pos it \<noteq> 0" "ne_ref n1 i out it = Some (Inr x)"
    and "remove_edge n1 x (i, out, it) = Some (i1, out1, it2\<lparr>ne_vacant := True\<rparr>)" "\<not> ne_vacant it2"
  shows "remove_all_edges n1 i out it =
    Option.bind (remove_all_edges n1 i1 out1 it2) (\<lambda>(xs, i2, o2). Some (x # xs, i2, o2))"
proof -
  have "ne_next i1 out1 (it2\<lparr>ne_vacant := True\<rparr>) = Some (ne_pos it2 \<noteq> 0, it2)"
    using assms(5) not_vacant [OF assms(5)] by (simp add: ne_next_def ne_bool_def Let_def)
  moreover have "ne_pos it2 = 0 \<Longrightarrow> remove_all_edges n1 i1 out1 it2 = Some ([], i1, out1)"
    using assms(5) by (subst remove_all_edges.simps) (simp add: ne_bool_def)
  ultimately show ?thesis
    using assms by (subst remove_all_edges.simps) (simp add: ne_bool_def)
qed

section \<open>The whole loop\<close>

definition cells_of :: "addr list \<Rightarrow> (addr \<Rightarrow> addr list) \<Rightarrow> addr list" where
  "cells_of ks bs = concat (map bs ks)"

lemma cells_of_Cons: "cells_of (p # ps) bs = bs p @ cells_of ps bs"
  by (simp add: cells_of_def)

definition seen_of :: "addr \<Rightarrow> direction \<Rightarrow> edge_index \<Rightarrow> addr list \<Rightarrow> (addr \<Rightarrow> addr list) \<Rightarrow> edge_view list" where
  "seen_of n1 d s ks bs = concat (map (\<lambda>p. map (view_of n1 d (key_at s p)) (pairs_at s (bs p))) ks)"

definition no_loop :: "addr \<Rightarrow> edge_index \<Rightarrow> addr list \<Rightarrow> (addr \<Rightarrow> addr list) \<Rightarrow> bool" where
  "no_loop n1 s ks bs \<longleftrightarrow> (\<forall>a\<in>set (cells_of ks bs). snd (cell_value (lh_cells (ei_pairs s) a)) \<noteq> n1)"

lemma seen_views:
  assumes "ei_rel s ks bs"
  shows "seen_of n1 d s ks bs = views n1 d (ei_map s ks bs) (map (key_at s) ks)"
proof -
  have "ei_map s ks bs (key_at s p) = Some (pairs_at s (bs p))" if "p \<in> set ks" for p
    using ei_map_at [of s ks p bs] assms that by (simp add: ei_rel_def)
  then show ?thesis by (simp add: seen_of_def views_def comp_def cong: map_cong)
qed

text \<open>The first pair is removed: what is left to be seen.\<close>

lemma seen_rest:
  assumes b: "bs p = a # as" "p \<notin> set ps" and s': "ei_pairs s' = ei_pairs s" "\<And>q. key_at s' q = key_at s q"
    and ks': "ks' = (if as = [] then ps else p # ps)"
  shows "seen_of n1 d s (p # ps) bs = view_of n1 d (key_at s p) (cell_value (lh_cells (ei_pairs s) a)) # seen_of n1 d s' ks' (bs(p := as))"
    "no_loop n1 s (p # ps) bs \<Longrightarrow> no_loop n1 s' ks' (bs(p := as))"
    "length (cells_of ks' (bs(p := as))) < length (cells_of (p # ps) bs)"
proof -
  have c: "cells_of ps (bs(p := as)) = cells_of ps bs"
    unfolding cells_of_def by (intro arg_cong [where f = concat] map_cong refl) (use b(2) in auto)
  have "seen_of n1 d s' ps (bs(p := as)) = seen_of n1 d s ps bs"
    unfolding seen_of_def by (intro arg_cong [where f = concat] map_cong refl) (use b(2) s' in auto)
  then have "seen_of n1 d s' ks' (bs(p := as)) = map (view_of n1 d (key_at s p)) (pairs_at s as) @ seen_of n1 d s ps bs"
    using ks' s' by (cases "as = []") (simp_all add: seen_of_def)
  then show "seen_of n1 d s (p # ps) bs = view_of n1 d (key_at s p) (cell_value (lh_cells (ei_pairs s) a)) # seen_of n1 d s' ks' (bs(p := as))"
    using b(1) by (simp add: seen_of_def)
  have e: "cells_of ks' (bs(p := as)) = as @ cells_of ps bs" using ks' c by (cases "as = []") (simp_all add: cells_of_Cons)
  then show "no_loop n1 s (p # ps) bs \<Longrightarrow> no_loop n1 s' ks' (bs(p := as))"
    "length (cells_of ks' (bs(p := as))) < length (cells_of (p # ps) bs)"
    using b(1) s'(1) by (auto simp: no_loop_def cells_of_Cons)
qed

lemma head_tag:
  assumes "listed s (q # qs) bs"
  shows "l_head (ei_list s) = q"
  using assms by (auto simp: listed_def ei_rel_def list_at_def)

text \<open>The iterator after the first pair was removed is on the first pair again.\<close>

lemma next_first_pos:
  assumes l: "listed s (p # ps) bs" and b: "bs p = a # as" and it: "first_pos s it" "here i out it = s"
    and l': "listed s' (if as = [] then ps else p # ps) (bs(p := as))"
    and s': "\<And>q. key_at s' q = key_at s q" "\<And>q. q \<noteq> p \<Longrightarrow> bucket s' q = bucket s q" "as \<noteq> [] \<Longrightarrow> l_head (bucket s' p) = hd as"
    and more: "\<not> (as = [] \<and> ps = [])"
  obtains it2 where "ne_next i out it = Some (True, it2)" "first_pos s' it2" "ne_dir it2 = ne_dir it" "ne_out it2 = ne_out it"
proof (cases "as = []")
  case False
  have "l_head (ei_list s') = p" using head_tag [of s' p ps] l' False by simp
  moreover have "ne_key it = p" "ne_tag it = key_at s p" using first_pos_cells [OF l b it(1)] by simp_all
  ultimately show ?thesis
    using that [OF next_first(1) [OF l b it False]] it(1) s' False by (simp add: first_pos_def)
next
  case True
  then obtain q ps' where q: "ps = q # ps'" using more by (cases ps) auto
  have "l_head (ei_list s') = q" using head_tag [of s' q ps'] l' True q by simp
  moreover have "q \<noteq> p" using links_distinct [OF first_pos_cells(7) [OF l b it(1)]] q by simp
  ultimately show ?thesis
    using that [OF next_first(2) [OF l b it True q]] it(1) s' by (simp add: first_pos_def)
qed

lemma first_ref:
  assumes l: "listed s (p # ps) bs" and b: "bs p = a # as" and it: "first_pos s it" "here i out it = s" "ne_dir it = d"
  shows "\<not> ne_vacant it" "ne_pos it \<noteq> 0"
    "ne_ref n1 i out it = Some (Inr (view_of n1 d (key_at s p) (cell_value (lh_cells (ei_pairs s) a))))"
proof -
  note c = first_pos_cells [OF l b it(1)]
  show "\<not> ne_vacant it" using it(1) by (simp add: first_pos_def)
  then show "ne_pos it \<noteq> 0" "ne_ref n1 i out it = Some (Inr (view_of n1 d (key_at s p) (cell_value (lh_cells (ei_pairs s) a))))"
    using c it by (simp_all add: ne_ref_def)
qed

text \<open>The outgoing edges.\<close>

lemma remove_outgoing:
  assumes "listed out ks bs" "ks \<noteq> []" "first_pos out it" "ne_dir it = Outgoing" "\<not> ne_out it" "no_loop n1 out ks bs"
  shows "\<exists>out' bs'. remove_all_edges n1 i out it = Some (seen_of n1 Outgoing out ks bs, i, out') \<and> listed out' [] bs'"
  using assms
proof (induction "length (cells_of ks bs)" arbitrary: out ks bs it rule: less_induct)
  case less
  obtain p ps where ks: "ks = p # ps" using less.prems(2) by (cases ks) auto
  have l: "listed out (p # ps) bs" using less.prems(1) ks by simp
  then obtain a as where b: "bs p = a # as" by (cases "bs p") (auto simp: listed_def)
  let ?y = "cell_value (lh_cells (ei_pairs out) a)"
  have h: "here i out it = out" using less.prems(4) by (simp add: here_def)
  note ref = first_ref(1, 2) [OF l b less.prems(3) h less.prems(4)] first_ref(3) [OF l b less.prems(3) h less.prems(4), of n1]
  have nl: "snd ?y \<noteq> n1" using less.prems(6) b ks by (simp add: no_loop_def cells_of_def)
  have np: "p \<notin> set ps" using links_distinct [OF first_pos_cells(7) [OF l b less.prems(3)]] by simp
  obtain s' where s': "listed s' (if as = [] then ps else p # ps) (bs(p := as))" "ei_pairs s' = ei_pairs out" "\<And>q. key_at s' q = key_at out q"
    "\<And>q. q \<noteq> p \<Longrightarrow> bucket s' q = bucket out q" "as \<noteq> [] \<Longrightarrow> l_head (bucket s' p) = hd as"
    "\<And>i' out'. out' = out \<Longrightarrow> remove_edge_under Outgoing (key_at out p) (fst ?y) (i', out', it) =
      map_option (\<lambda>(b, it1). (i', s', it1\<lparr>ne_vacant := True\<rparr>)) (ne_next i' out' it)"
    by (rule remove_under_first [OF l b less.prems(3, 4)]) (auto intro: that)
  have rm: "remove_edge n1 (view_of n1 Outgoing (key_at out p) ?y) (i, out, it) =
      map_option (\<lambda>(b, it1). (i, s', it1\<lparr>ne_vacant := True\<rparr>)) (ne_next i out it)"
    using s'(6) [of out i] nl by (cases "ne_next i out it") (auto simp: remove_edge_def view_of_def)
  note rest = seen_rest [where bs = bs and p = p, OF b np s'(2, 3) refl]
  show ?case
  proof (cases "as = [] \<and> ps = []")
    case True
    let ?it2 = "it\<lparr>ne_pos := 0, ne_key := 0\<rparr>"
    have "ne_next i out it = Some (False, ?it2)"
      using next_first(3) [OF l b less.prems(3) h] True less.prems(5) by (simp add: switch_direction_def)
    then have rm2: "remove_edge n1 (view_of n1 Outgoing (key_at out p) ?y) (i, out, it) = Some (i, s', ?it2\<lparr>ne_vacant := True\<rparr>)" using rm by simp
    have v: "\<not> ne_vacant ?it2" using ref(1) by simp
    then have "remove_all_edges n1 i s' ?it2 = Some ([], i, s')"
      by (subst remove_all_edges.simps) (simp add: ne_bool_def)
    then have "remove_all_edges n1 i out it = Some ([view_of n1 Outgoing (key_at out p) ?y], i, s')"
      using loop_step [OF ref rm2 v] by simp
    moreover have "seen_of n1 Outgoing out (p # ps) bs = [view_of n1 Outgoing (key_at out p) ?y]"
      using rest(1) [of n1 Outgoing] True by (simp add: seen_of_def)
    ultimately show ?thesis using s'(1) True ks by auto
  next
    case False
    obtain it2 where it2: "ne_next i out it = Some (True, it2)" "first_pos s' it2" "ne_dir it2 = Outgoing" "\<not> ne_out it2"
      using next_first_pos [OF l b less.prems(3) h s'(1) s'(3-5) False] less.prems(4, 5) by metis
    have rm2: "remove_edge n1 (view_of n1 Outgoing (key_at out p) ?y) (i, out, it) = Some (i, s', it2\<lparr>ne_vacant := True\<rparr>)"
      using rm it2(1) by simp
    have ne: "(if as = [] then ps else p # ps) \<noteq> []" using False by simp
    obtain out' bs' where "remove_all_edges n1 i s' it2 = Some (seen_of n1 Outgoing s' (if as = [] then ps else p # ps) (bs(p := as)), i, out')"
      "listed out' [] bs'"
      using less.hyps [OF _ s'(1) ne it2(2-4) rest(2)] rest(3) less.prems(6) ks by blast
    moreover have "\<not> ne_vacant it2" using it2(2) by (simp add: first_pos_def)
    ultimately show ?thesis using loop_step [OF ref rm2] rest(1) [of n1 Outgoing] ks by auto
  qed
qed

text \<open>The incoming edges, then the outgoing ones.\<close>

lemma remove_incoming:
  assumes "listed i ks bs" "ks \<noteq> []" "first_pos i it" "ne_dir it = Incoming" "ne_out it \<longleftrightarrow> l_num (ei_list out) > 0" "no_loop n1 i ks bs"
    and out: "listed out ko bo" "no_loop n1 out ko bo"
  shows "\<exists>i' bi out' bo'. remove_all_edges n1 i out it = Some (seen_of n1 Incoming i ks bs @ seen_of n1 Outgoing out ko bo, i', out') \<and>
    listed i' [] bi \<and> listed out' [] bo'"
  using assms(1-6)
proof (induction "length (cells_of ks bs)" arbitrary: i ks bs it rule: less_induct)
  case less
  obtain p ps where ks: "ks = p # ps" using less.prems(2) by (cases ks) auto
  have l: "listed i (p # ps) bs" using less.prems(1) ks by simp
  then obtain a as where b: "bs p = a # as" by (cases "bs p") (auto simp: listed_def)
  let ?y = "cell_value (lh_cells (ei_pairs i) a)"
  have h: "here i out it = i" using less.prems(4) by (simp add: here_def)
  note ref = first_ref(1, 2) [OF l b less.prems(3) h less.prems(4)] first_ref(3) [OF l b less.prems(3) h less.prems(4), of n1]
  have nl: "snd ?y \<noteq> n1" using less.prems(6) b ks by (simp add: no_loop_def cells_of_def)
  have np: "p \<notin> set ps" using links_distinct [OF first_pos_cells(7) [OF l b less.prems(3)]] by simp
  obtain s' where s': "listed s' (if as = [] then ps else p # ps) (bs(p := as))" "ei_pairs s' = ei_pairs i" "\<And>q. key_at s' q = key_at i q"
    "\<And>q. q \<noteq> p \<Longrightarrow> bucket s' q = bucket i q" "as \<noteq> [] \<Longrightarrow> l_head (bucket s' p) = hd as"
    "\<And>i' out'. i' = i \<Longrightarrow> remove_edge_under Incoming (key_at i p) (fst ?y) (i', out', it) =
      map_option (\<lambda>(b, it1). (s', out', it1\<lparr>ne_vacant := True\<rparr>)) (ne_next i' out' it)"
    by (rule remove_under_first [OF l b less.prems(3, 4)]) (auto intro: that)
  have rm: "remove_edge n1 (view_of n1 Incoming (key_at i p) ?y) (i, out, it) =
      map_option (\<lambda>(b, it1). (s', out, it1\<lparr>ne_vacant := True\<rparr>)) (ne_next i out it)"
    using s'(6) [of i out] nl by (simp add: remove_edge_def view_of_def)
  note rest = seen_rest [where bs = bs and p = p, OF b np s'(2, 3) refl]
  show ?case
  proof (cases "as = [] \<and> ps = []")
    case True
    have one: "seen_of n1 Incoming i ks bs = [view_of n1 Incoming (key_at i p) ?y]"
      using rest(1) [of n1 Incoming] True ks by (simp add: seen_of_def)
    obtain it2 where it2: "switch_direction True out (it\<lparr>ne_pos := 0, ne_key := 0\<rparr>) = Some it2" "\<not> ne_vacant it2"
      "\<exists>out' bo'. remove_all_edges n1 s' out it2 = Some (seen_of n1 Outgoing out ko bo, s', out') \<and> listed out' [] bo'"
    proof (cases "ko = []")
      case True
      let ?it2 = "it\<lparr>ne_pos := 0, ne_key := 0\<rparr>"
      have "\<not> ne_out it" using less.prems(5) key_cells(2) [of out ko bo] out(1) True by (simp add: listed_def)
      moreover have "remove_all_edges n1 s' out ?it2 = Some ([], s', out)"
        using ref(1) by (subst remove_all_edges.simps) (simp add: ne_bool_def)
      ultimately show ?thesis using that [of ?it2] ref(1) out(1) True by (auto simp: switch_direction_def seen_of_def)
    next
      case False
      let ?k = "l_head (ei_list out)"
      let ?it2 = "it\<lparr>ne_pos := l_head (bucket out ?k), ne_key := ?k, ne_dir := Outgoing, ne_tag := key_at out ?k, ne_out := False\<rparr>"
      have o: "ne_out it" using less.prems(5) key_cells(2) [of out ko bo] out(1) False by (simp add: listed_def word_neq_0_conv)
      obtain q qs where q: "ko = q # qs" using False by (cases ko) auto
      then have "?k \<noteq> 0" using out(1) by (auto simp: listed_def ei_rel_def list_at_def)
      moreover have "it\<lparr>ne_pos := 0, ne_key := 0, ne_dir := Outgoing, ne_key := ?k, ne_tag := key_at out ?k, ne_pos := l_head (bucket out ?k),
          ne_out := False\<rparr> = ?it2" by (cases it) simp
      ultimately have sw: "switch_direction True out (it\<lparr>ne_pos := 0, ne_key := 0\<rparr>) = Some ?it2"
        using o by (simp add: switch_direction_def Let_def)
      have f: "first_pos out ?it2" "ne_dir ?it2 = Outgoing" "\<not> ne_out ?it2" "\<not> ne_vacant ?it2" using ref(1) by (simp_all add: first_pos_def)
      show ?thesis using that [OF sw f(4)] remove_outgoing [OF out(1) False f(1-3) out(2), of s'] by blast
    qed
    have "ne_next i out it = Some (ne_pos it2 \<noteq> 0, it2)" using next_first(3) [OF l b less.prems(3) h] True it2(1) by simp
    then have rm2: "remove_edge n1 (view_of n1 Incoming (key_at i p) ?y) (i, out, it) = Some (s', out, it2\<lparr>ne_vacant := True\<rparr>)" using rm by simp
    show ?thesis using loop_step [OF ref rm2 it2(2)] it2(3) one s'(1) True by auto
  next
    case False
    obtain it2 where it2: "ne_next i out it = Some (True, it2)" "first_pos s' it2" "ne_dir it2 = Incoming"
      "ne_out it2 \<longleftrightarrow> l_num (ei_list out) > 0"
      using next_first_pos [OF l b less.prems(3) h s'(1) s'(3-5) False] less.prems(4, 5) by metis
    have rm2: "remove_edge n1 (view_of n1 Incoming (key_at i p) ?y) (i, out, it) = Some (s', out, it2\<lparr>ne_vacant := True\<rparr>)"
      using rm it2(1) by simp
    have ne: "(if as = [] then ps else p # ps) \<noteq> []" using False by simp
    obtain i' bi out' bo' where "remove_all_edges n1 s' out it2 =
        Some (seen_of n1 Incoming s' (if as = [] then ps else p # ps) (bs(p := as)) @ seen_of n1 Outgoing out ko bo, i', out')"
      "listed i' [] bi" "listed out' [] bo'"
      using less.hyps [OF _ s'(1) ne it2(2-4) rest(2)] rest(3) less.prems(6) ks by blast
    moreover have "\<not> ne_vacant it2" using it2(2) by (simp add: first_pos_def)
    ultimately show ?thesis using loop_step [OF ref rm2] rest(1) [of n1 Incoming] ks by auto
  qed
qed

lemma first_both:
  assumes "listed i ks bs" "ks \<noteq> []"
  obtains it where "it_both i out = Some it" "first_pos i it" "ne_dir it = Incoming" "ne_out it \<longleftrightarrow> l_num (ei_list out) > 0"
proof -
  obtain p ps where ks: "ks = p # ps" using assms(2) by (cases ks) auto
  then have "bs p \<noteq> []" "links (lh_cells (ei_pairs i)) (l_head (bucket i p)) (bs p)" "l_head (ei_list i) = p" "p \<noteq> 0"
    using assms(1) by (auto simp: listed_def ei_rel_def list_at_def)
  then have nz: "l_head (bucket i p) \<noteq> 0" "l_head (ei_list i) = p" "p \<noteq> 0" by (cases "bs p"; auto)+
  let ?it = "\<lparr>ne_dir = Incoming, ne_out = l_num (ei_list out) > 0, ne_key = p, ne_tag = key_at i p,
      ne_pos = l_head (bucket i p), ne_vacant = False\<rparr>"
  have "it_both i out = Some ?it" using nz by (simp add: it_both_def it_keys_def skip_empty_def Let_def)
  moreover have "first_pos i ?it" using nz by (simp add: first_pos_def)
  ultimately show ?thesis by (rule that) simp_all
qed

lemma no_loop_map:
  assumes "ei_rel s ks bs" "M = ei_map s ks bs" "\<forall>k xs. M k = Some xs \<longrightarrow> n1 \<notin> snd ` set xs"
  shows "no_loop n1 s ks bs"
proof -
  have "n1 \<notin> snd ` set (pairs_at s (bs p))" if "p \<in> set ks" for p
    using ei_map_at [of s ks p bs] assms that by (simp add: ei_rel_def)
  then show ?thesis by (auto simp: no_loop_def cells_of_def cell_contents_def image_iff)
qed

lemma empty_index: "listed s [] bs \<Longrightarrow> ei_ok s Map.empty"
  unfolding ei_ok_def listed_def by (intro exI [of _ "[]"] exI [of _ bs]) (auto simp: ei_map_def)

text \<open>
  C24. The loop of \<open>Graph::remove\<close> over the edges of a node that has no edge to itself ends, sees every edge of
  the node once, in the order of the iterator, although each removal changes the list that the iterator is
  on, and leaves both edge indices empty.
\<close>

theorem remove_node_edges_correct:
  assumes "ei_ok i Mi" "ei_ok out Mo"
    and "\<forall>k xs. Mi k = Some xs \<longrightarrow> n1 \<notin> snd ` set xs" "\<forall>k xs. Mo k = Some xs \<longrightarrow> n1 \<notin> snd ` set xs"
  shows "\<exists>ki ko i' out'. distinct ki \<and> set ki = dom Mi \<and> distinct ko \<and> set ko = dom Mo \<and>
    remove_node_edges n1 i out = Some (edges_spec n1 Any 0 Mi ki Mo ko, i', out') \<and> ei_ok i' Map.empty \<and> ei_ok out' Map.empty"
proof -
  obtain ki bi where i: "listed i ki bi" "Mi = ei_map i ki bi" using assms(1) by (auto simp: ei_ok_def listed_def)
  obtain ko bo where o: "listed out ko bo" "Mo = ei_map out ko bo" using assms(2) by (auto simp: ei_ok_def listed_def)
  have ri: "ei_rel i ki bi" and ro: "ei_rel out ko bo" using i o by (simp_all add: listed_def)
  note ci = key_cells [OF ri] and co = key_cells [OF ro]
  have nl: "no_loop n1 i ki bi" "no_loop n1 out ko bo" using no_loop_map [OF ri i(2) assms(3)] no_loop_map [OF ro o(2) assms(4)] .
  have spec: "edges_spec n1 Any 0 Mi (map (key_at i) ki) Mo (map (key_at out) ko) = seen_of n1 Incoming i ki bi @ seen_of n1 Outgoing out ko bo"
    by (simp add: edges_spec_def seen_views [OF ri] seen_views [OF ro] i(2) o(2))
  have "\<exists>i' out'. remove_node_edges n1 i out = Some (seen_of n1 Incoming i ki bi @ seen_of n1 Outgoing out ko bo, i', out') \<and>
      ei_ok i' Map.empty \<and> ei_ok out' Map.empty"
  proof (cases "ki = []")
    case True
    have ei: "ei_ok i Map.empty" using i(1) True by (auto intro: empty_index)
    show ?thesis
    proof (cases "ko = []")
      case True
      then show ?thesis using \<open>ki = []\<close> ci(2) co(2) ei o(1) empty_index [of out bo]
        by (auto simp: remove_node_edges_def get_edges_all_def seen_of_def)
    next
      case False
      let ?k = "l_head (ei_list out)"
      let ?it = "\<lparr>ne_dir = Outgoing, ne_out = False, ne_key = ?k, ne_tag = key_at out ?k, ne_pos = l_head (bucket out ?k), ne_vacant = False\<rparr>"
      have "?k \<noteq> 0" using co(1) False links_nonzero [OF co(1)] by (cases ko) auto
      then have g: "get_edges_all i out = Some (Some ?it)" using True False ci(2) co(2) by (simp add: get_edges_all_def it_keys_def Let_def)
      have f: "first_pos out ?it" "ne_dir ?it = Outgoing" "\<not> ne_out ?it" by (simp_all add: first_pos_def)
      obtain out' bs' where "remove_all_edges n1 i out ?it = Some (seen_of n1 Outgoing out ko bo, i, out')" "listed out' [] bs'"
        using remove_outgoing [OF o(1) False f nl(2), of i] by blast
      then show ?thesis using g ei True empty_index [of out' bs'] by (auto simp: remove_node_edges_def seen_of_def)
    qed
  next
    case False
    obtain it where it: "it_both i out = Some it" "first_pos i it" "ne_dir it = Incoming" "ne_out it \<longleftrightarrow> l_num (ei_list out) > 0"
      by (rule first_both [OF i(1) False]) (rule that)
    obtain i' bi' out' bo' where "remove_all_edges n1 i out it = Some (seen_of n1 Incoming i ki bi @ seen_of n1 Outgoing out ko bo, i', out')"
      "listed i' [] bi'" "listed out' [] bo'"
      using remove_incoming [OF i(1) False it(2-4) nl(1) o(1) nl(2)] by blast
    moreover have "get_edges_all i out = Some (Some it)" using False ci(2) it(1) by (simp add: get_edges_all_def)
    ultimately show ?thesis using empty_index by (auto simp: remove_node_edges_def)
  qed
  then show ?thesis using ci(3, 4) co(3, 4) i(2) o(2) spec by metis
qed

lemma remove_node_edges_correct_witness:
  "\<exists>i' out'. remove_node_edges 400 (ex_one_edge 4096 500) (ex_one_edge 4128 600) =
     Some ([(4096, 500, 400, 7), (4128, 400, 600, 7)], i', out') \<and> ei_ok i' Map.empty \<and> ei_ok out' Map.empty"
proof -
  have n: "\<forall>k xs. [7 :: u16 \<mapsto> [(4096 :: addr, 500 :: addr)]] k = Some xs \<longrightarrow> 400 \<notin> snd ` set xs" "\<forall>k xs. [7 :: u16 \<mapsto> [(4128 :: addr, 600 :: addr)]] k = Some xs \<longrightarrow> 400 \<notin> snd ` set xs"
    by (auto split: if_splits)
  obtain ki ko i' out' where "distinct ki" "set ki = dom [7 :: u16 \<mapsto> [(4096 :: addr, 500 :: addr)]]" "distinct ko"
    "set ko = dom [7 :: u16 \<mapsto> [(4128 :: addr, 600 :: addr)]]"
    "remove_node_edges 400 (ex_one_edge 4096 500) (ex_one_edge 4128 600) =
      Some (edges_spec 400 Any 0 [7 \<mapsto> [(4096, 500)]] ki [7 \<mapsto> [(4128, 600)]] ko, i', out')"
    "ei_ok i' Map.empty" "ei_ok out' Map.empty"
    using remove_node_edges_correct [OF ex_one_edge_ok ex_one_edge_ok n] by blast
  moreover from this have "ki = [7]" "ko = [7]" using one_key by simp_all
  ultimately show ?thesis by (simp add: edges_spec_def view_of_def)
qed

section \<open>Loops\<close>

lemma single_edge:
  assumes "ei_ok s [k \<mapsto> [x]]"
  obtains p a bs where "listed s [p] bs" "bs p = [a]" "key_at s p = k" "cell_value (lh_cells (ei_pairs s) a) = x"
proof -
  obtain ks bs where l: "listed s ks bs" "[k \<mapsto> [x]] = ei_map s ks bs" using assms by (auto simp: ei_ok_def listed_def)
  then have r: "ei_rel s ks bs" by (simp add: listed_def)
  note c = key_cells [OF r]
  have "set (map (key_at s) ks) = {k}" unfolding c(4) l(2) [symmetric] by simp
  then have "card (set (map (key_at s) ks)) = 1" by simp
  then have "length ks = 1" using distinct_card [OF c(3)] by simp
  then obtain p where p: "ks = [p]" by (cases ks) auto
  then have k: "key_at s p = k" using \<open>set (map (key_at s) ks) = {k}\<close> by simp
  have "ei_map s ks bs (key_at s p) = Some (pairs_at s (bs p))" using ei_map_at [of s ks p bs] r p by (simp add: ei_rel_def)
  then have "pairs_at s (bs p) = [x]" using l(2) k by (metis fun_upd_same option.inject)
  then obtain a where "bs p = [a]" "cell_value (lh_cells (ei_pairs s) a) = x" by (cases "bs p") (auto simp: cell_contents_def)
  then show ?thesis using that [of p bs a] l(1) p k by simp
qed

text \<open>
  C39. The removal of a node whose only edge is a loop reads a null pointer: the loop's entry in the list of
  outgoing edges is removed first, which empties that index; then the iterator, told that its incoming
  entry goes away, switches to the outgoing edges, whose emptiness was tested only when it was made, and
  reads the tag of the first key, which is null.
\<close>

theorem remove_loop_reads_null:
  assumes "ei_ok i [k \<mapsto> [(e, n1)]]" "ei_ok out [k \<mapsto> [(e, n1)]]"
  shows "\<exists>it out'. get_edges_all i out = Some (Some it) \<and> ne_ref n1 i out it = Some (Inr (e, n1, n1, k)) \<and>
    remove_edge_under Outgoing k e (i, out, it) = Some (i, out', it) \<and> l_head (ei_list out') = 0 \<and>
    ne_remove_notify i out' (ne_pos it) it = None \<and> remove_node_edges n1 i out = None"
proof -
  obtain p a bi where i: "listed i [p] bi" "bi p = [a]" "key_at i p = k" "cell_value (lh_cells (ei_pairs i) a) = (e, n1)"
    by (rule single_edge [OF assms(1)])
  obtain q b bo where o: "listed out [q] bo" "bo q = [b]" "key_at out q = k" "cell_value (lh_cells (ei_pairs out) b) = (e, n1)"
    by (rule single_edge [OF assms(2)])
  have ri: "ei_rel i [p] bi" and ro: "ei_rel out [q] bo" using i o by (simp_all add: listed_def)
  obtain it where it: "it_both i out = Some it" "first_pos i it" "ne_dir it = Incoming" "ne_out it \<longleftrightarrow> l_num (ei_list out) > 0"
    by (rule first_both [OF i(1)]) (simp, rule that)
  have g: "get_edges_all i out = Some (Some it)" using key_cells(2) [OF ri] it(1) by (simp add: get_edges_all_def)
  have ne: "ne_out it" using it(4) key_cells(2) [OF ro] by (simp add: word_neq_0_conv)
  have h: "here i x it = i" for x using it(3) by (simp add: here_def)
  have ref: "ne_ref n1 i out it = Some (Inr (e, n1, n1, k))" "\<not> ne_vacant it" "ne_pos it \<noteq> 0"
    using first_ref [OF i(1, 2) it(2) h it(3)] i(3, 4) by (simp_all add: view_of_def)
  obtain out' hd' where out': "list_find eq_key (edge_key_new k) (ei_list out) (ei_keys out) = Some q" "ei_remove k e out = Some out'"
    "ei_rel out' [] (bo(q := []))"
    using remove_first [OF ro o(2)] o(3, 4) by simp metis
  have z: "l_head (ei_list out') = 0" using out'(3) by (simp add: ei_rel_def list_at_def)
  have q: "q \<noteq> 0" using o(1) by (auto simp: listed_def ei_rel_def list_at_def)
  have un: "remove_edge_under Outgoing k e (i, out, it) = Some (i, out', it)"
    using out'(1, 2) it(3) q by (simp add: remove_edge_under_def Let_def)
  have nx: "ne_next i out' it = None" using next_first(3) [OF i(1, 2) it(2) h] ne z by (simp add: switch_direction_def)
  have v: "it\<lparr>ne_vacant := False\<rparr> = it" using ref(2) by (rule not_vacant)
  have rin: "remove_edge_under Incoming k e (i, out', it) = None"
  proof -
    obtain s' where "\<And>i' out'. i' = i \<Longrightarrow> remove_edge_under Incoming (key_at i p) (fst (cell_value (lh_cells (ei_pairs i) a))) (i', out', it) =
        map_option (\<lambda>(b, it1). (s', out', it1\<lparr>ne_vacant := True\<rparr>)) (ne_next i' out' it)"
      by (rule remove_under_first [OF i(1, 2) it(2, 3)]) (auto intro: that)
    from this [of i out'] show ?thesis using i(3, 4) nx by simp
  qed
  have "remove_edge n1 (e, n1, n1, k) (i, out, it) = None" using un rin by (simp add: remove_edge_def)
  then have "remove_all_edges n1 i out it = None"
    using ref by (subst remove_all_edges.simps) (simp add: ne_bool_def)
  then have "remove_node_edges n1 i out = None" using g by (simp add: remove_node_edges_def)
  moreover have "ne_remove_notify i out' (ne_pos it) it = None" using nx v by (simp add: ne_remove_notify_def)
  ultimately show ?thesis using g ref(1) un z by blast
qed

lemma remove_loop_reads_null_witness:
  "remove_node_edges 400 (ex_one_edge 4096 400) (ex_one_edge 4096 400) = None"
  using remove_loop_reads_null [OF ex_one_edge_ok ex_one_edge_ok, of 4096 400] by blast

end
