(* ===== verification/Index_Calls.thy ===== *)
theory Index_Calls
  imports Property_Index
begin

text \<open>
  \<open>add\<close> and \<open>remove\<close> of \<open>src/Index.cc\<close> for one type of keys with what can go wrong on the way: the tree takes all
  its locks before it changes, and each may time out; the allocator may throw for the node of a new key, before
  the tree has changed, or for the cell of the list, after that. An environment says which locks time out and
  what the allocator does. The exhaustion of the journal by \<open>log\<close> is left out.
\<close>

section \<open>The environment\<close>

text \<open>
  \<open>ie_wl\<close> are the locks that the transaction has write-locked already, \<open>ie_timeout\<close> the calls of \<open>acquire_lock\<close>
  that throw; \<open>ie_node\<close> is what the allocator returns or throws for a node and its key, \<open>ie_cell\<close> what it throws
  for a cell, if anything.
\<close>

record index_env =
  ie_wl :: "lock_item \<Rightarrow> bool"
  ie_timeout :: "lock_call \<Rightarrow> bool"
  ie_node :: "addr result"
  ie_cell :: "pmgd_error option"

definition denied :: "index_env \<Rightarrow> lock_call list \<Rightarrow> bool" where
  "denied ie lk = list_ex (ie_timeout ie) lk"

text \<open>The locks of \<open>find (key, true)\<close>.\<close>

definition find_locks :: "'k::linorder \<Rightarrow> ('k, 'v) avl \<Rightarrow> lock_call list" where
  "find_locks key t =
     (let (f, as) = get_locks_find key t
      in (IndexItself, False) # map (\<lambda>a. (NodeLock a, False)) as @ (case f of None \<Rightarrow> [] | Some (a, v) \<Rightarrow> [(NodeLock a, True)]))"

definition add_locks :: "index_env \<Rightarrow> 'k::linorder \<Rightarrow> ('k, 'v) avl \<Rightarrow> lock_call list" where
  "add_locks ie key t = snd (snd (get_locks_add (ie_wl ie) key t))"

definition remove_locks :: "index_env \<Rightarrow> 'k::linorder \<Rightarrow> ('k, 'v) avl \<Rightarrow> lock_call list" where
  "remove_locks ie key t = snd (snd (snd (snd (get_locks_remove (ie_wl ie) key t))))"

section \<open>add and remove\<close>

text \<open>The cell for the object, once the tree has the node of the key; \<open>n\<close> is the node if the key is new.\<close>

definition add_cell :: "index_env \<Rightarrow> 'k::linorder \<Rightarrow> addr \<Rightarrow> addr \<Rightarrow> 'k value_index \<Rightarrow> (unit result \<times> 'k value_index) option" where
  "add_cell ie key obj n s =
     (case ie_cell ie of
        Some e \<Rightarrow> Some (Inl e, s\<lparr>vi_tree := fst (avl_add (ie_wl ie) key list_init n (vi_tree s))\<rparr>)
      | None \<Rightarrow> map_option (\<lambda>(r, rb, s'). (r, s')) (vi_add (ie_wl ie) key obj n s))"

definition vi_add_call :: "index_env \<Rightarrow> 'k::linorder \<Rightarrow> addr \<Rightarrow> 'k value_index \<Rightarrow> (unit result \<times> 'k value_index) option" where
  "vi_add_call ie key obj s =
     (if denied ie (add_locks ie key (vi_tree s)) then Some (Inl LockTimeout, s)
      else case fst (get_locks_find key (vi_tree s)) of
          Some _ \<Rightarrow> add_cell ie key obj 0 s
        | None \<Rightarrow> (case ie_node ie of Inl e \<Rightarrow> Some (Inl e, s) | Inr n \<Rightarrow> add_cell ie key obj n s))"

text \<open>The list is changed under the locks of \<open>find\<close>, the locks of the tree's \<open>remove\<close> come after that.\<close>

definition vi_remove_call :: "index_env \<Rightarrow> 'k::linorder \<Rightarrow> addr \<Rightarrow> 'k value_index \<Rightarrow> (unit result \<times> 'k value_index) option" where
  "vi_remove_call ie key obj s =
     (if denied ie (find_locks key (vi_tree s)) then Some (Inl LockTimeout, s)
      else case fst (get_locks_find key (vi_tree s)) of
          None \<Rightarrow> Some (Inr (), s)
        | Some (a, h) \<Rightarrow>
            (case list_remove (=) obj h (vi_lists s) of
               None \<Rightarrow> None
             | Some (h', H', es) \<Rightarrow>
                 (let t1 = set_value a h' (vi_tree s)
                  in if l_num h' = 0 \<and> denied ie (remove_locks ie key t1)
                     then Some (Inl LockTimeout, \<lparr>vi_tree = t1, vi_lists = H'\<rparr>)
                     else map_option (\<lambda>(es, rb, s'). (Inr (), s')) (vi_remove (ie_wl ie) key obj s))))"

section \<open>Their results\<close>

text \<open>The environment throws \<open>e\<close> somewhere; it throws nothing and its node is new to the index.\<close>

definition lock_timeout :: "index_env \<Rightarrow> bool" where
  "lock_timeout ie \<longleftrightarrow> (\<exists>c. ie_timeout ie c)"

definition quiet :: "index_env \<Rightarrow> bool" where
  "quiet ie \<longleftrightarrow> \<not> lock_timeout ie \<and> ie_cell ie = None \<and> (\<exists>n. ie_node ie = Inr n)"

definition node_fresh :: "index_env \<Rightarrow> addr set \<Rightarrow> bool" where
  "node_fresh ie as \<longleftrightarrow> 0 \<notin> as \<and> (case ie_node ie of Inl e \<Rightarrow> True | Inr n \<Rightarrow> n \<notin> as)"

lemma denied_timeout: "denied ie lk \<Longrightarrow> lock_timeout ie"
  by (auto simp: denied_def lock_timeout_def list_ex_iff)

lemma add_cell_ok:
  assumes ok: "vi_ok s M" and t: "avl_ok (vi_tree s)" "n \<notin> addrs (vi_tree s)"
  shows "\<exists>r s'. add_cell ie key obj n s = Some (r, s') \<and>
    (case r of
       Inl e \<Rightarrow> ie_cell ie = Some e \<or> e = BadAlloc \<and> lh_supply (vi_lists s) = []
     | Inr _ \<Rightarrow> avl_ok (vi_tree s') \<and> vi_ok s' (M(key \<mapsto> obj # (case M key of None \<Rightarrow> [] | Some xs \<Rightarrow> xs))))"
proof (cases "ie_cell ie")
  case None
  obtain r :: "unit result" and rb s' where "vi_add (ie_wl ie) key obj n s = Some (r, rb, s') \<and>
      (case r of Inl err \<Rightarrow> err = BadAlloc \<and> lh_supply (vi_lists s) = []
       | Inr _ \<Rightarrow> avl_ok (vi_tree s') \<and> vi_ok s' (M(key \<mapsto> obj # (case M key of None \<Rightarrow> [] | Some xs \<Rightarrow> xs))))"
    using vi_add_ok [OF ok t, of "ie_wl ie" key obj] by (elim exE) (rule that)
  then show ?thesis using None by (cases r) (auto simp: add_cell_def)
qed (simp add: add_cell_def)

lemma map_key: "vi_ok s M \<Longrightarrow> M key = None \<longleftrightarrow> fst (get_locks_find key (vi_tree s)) = None"
  by (auto simp: vi_ok_def vi_rel_def vi_map_def avl_find_def)

lemma vi_add_call_ok:
  assumes ok: "vi_ok s M" and t: "avl_ok (vi_tree s)" and n: "node_fresh ie (addrs (vi_tree s))"
  shows "\<exists>r s'. vi_add_call ie key obj s = Some (r, s') \<and>
    (case r of
       Inl e \<Rightarrow> e = LockTimeout \<and> lock_timeout ie \<and> s' = s \<or> ie_node ie = Inl e \<and> M key = None \<and> s' = s \<or>
         ie_cell ie = Some e \<or> e = BadAlloc \<and> lh_supply (vi_lists s) = []
     | Inr _ \<Rightarrow> avl_ok (vi_tree s') \<and> vi_ok s' (M(key \<mapsto> obj # (case M key of None \<Rightarrow> [] | Some xs \<Rightarrow> xs))))"
proof (cases "denied ie (add_locks ie key (vi_tree s))")
  case True
  then show ?thesis using denied_timeout by (fastforce simp: vi_add_call_def)
next
  case False
  have cell: "\<exists>r s'. add_cell ie key obj m s = Some (r, s') \<and>
    (case r of
       Inl e \<Rightarrow> e = LockTimeout \<and> lock_timeout ie \<and> s' = s \<or> ie_node ie = Inl e \<and> M key = None \<and> s' = s \<or>
         ie_cell ie = Some e \<or> e = BadAlloc \<and> lh_supply (vi_lists s) = []
     | Inr _ \<Rightarrow> avl_ok (vi_tree s') \<and> vi_ok s' (M(key \<mapsto> obj # (case M key of None \<Rightarrow> [] | Some xs \<Rightarrow> xs))))"
    if m: "m \<notin> addrs (vi_tree s)" for m
  proof -
    obtain r :: "unit result" and s' where "add_cell ie key obj m s = Some (r, s')" "case r of
         Inl e \<Rightarrow> ie_cell ie = Some e \<or> e = BadAlloc \<and> lh_supply (vi_lists s) = []
       | Inr _ \<Rightarrow> avl_ok (vi_tree s') \<and> vi_ok s' (M(key \<mapsto> obj # (case M key of None \<Rightarrow> [] | Some xs \<Rightarrow> xs)))"
      using add_cell_ok [where n = m and ie = ie and key = key and obj = obj, OF ok t m] by (elim exE conjE) (rule that)
    then show ?thesis by (cases r) auto
  qed
  show ?thesis
  proof (cases "fst (get_locks_find key (vi_tree s))")
    case (Some x)
    then show ?thesis using False cell [of 0] n by (simp add: vi_add_call_def node_fresh_def)
  next
    case None
    then show ?thesis using False cell n map_key [OF ok, of key] by (cases "ie_node ie") (simp_all add: vi_add_call_def node_fresh_def)
  qed
qed

lemma vi_remove_call_ok:
  assumes ok: "vi_ok s M" and t: "avl_ok (vi_tree s)"
  shows "\<exists>r s'. vi_remove_call ie key obj s = Some (r, s') \<and>
    (case r of
       Inl e \<Rightarrow> e = LockTimeout \<and> lock_timeout ie \<and> (s' = s \<or> (\<exists>xs. M key = Some xs \<and> del_first ((=) obj) xs = []))
     | Inr _ \<Rightarrow> vi_ok s' (M(key := case M key of None \<Rightarrow> None
         | Some xs \<Rightarrow> if del_first ((=) obj) xs = [] then None else Some (del_first ((=) obj) xs))))"
proof -
  obtain es rb s1 where r: "vi_remove (ie_wl ie) key obj s = Some (es, rb, s1)"
    "vi_ok s1 (M(key := case M key of None \<Rightarrow> None
      | Some xs \<Rightarrow> if del_first ((=) obj) xs = [] then None else Some (del_first ((=) obj) xs)))"
    using vi_remove_ok [OF ok t, of "ie_wl ie" key obj] by blast
  show ?thesis
  proof (cases "denied ie (find_locks key (vi_tree s))")
    case True
    then show ?thesis using denied_timeout by (fastforce simp: vi_remove_call_def)
  next
    case False
    show ?thesis
    proof (cases "fst (get_locks_find key (vi_tree s))")
      case None
      then have "s1 = s" using r(1) by (simp add: vi_remove_def)
      then show ?thesis using None False r(2) by (simp add: vi_remove_call_def)
    next
      case (Some x)
      then obtain a h where x: "fst (get_locks_find key (vi_tree s)) = Some (a, h)" by (cases x) auto
      obtain cs where cs: "vi_rel s cs" "M = vi_map s cs" using ok by (auto simp: vi_ok_def)
      have at: "list_at (lh_cells (vi_lists s)) h (cs key)" using cs(1) x by (simp add: vi_rel_def avl_find_def)
      obtain h' H' les as' where l: "list_remove (=) obj h (vi_lists s) = Some (h', H', les)" "list_at (lh_cells H') h' as'"
        "cell_contents (lh_cells H') as' = del_first ((=) obj) (cell_contents (lh_cells (vi_lists s)) (cs key))"
        "as' = del_first (\<lambda>a. obj = cell_value (lh_cells (vi_lists s) a)) (cs key)"
        by (rule list_remove_ok [OF at, of "(=)" obj]) auto
      have none: "\<exists>xs. M key = Some xs \<and> del_first ((=) obj) xs = []" if "l_num h' = 0"
      proof -
        have "set as' \<subseteq> set (cs key)" unfolding l(4) by (rule del_first_subset)
        moreover have "set (cs key) \<subseteq> {0<..<2 ^ 64}" using cs(1) by (simp add: vi_rel_def)
        ultimately have "as' = []" using length_cells [OF l(2)] that by blast
        moreover have "cs key \<noteq> []" using cs(1) x by (simp add: vi_rel_def avl_find_def)
        ultimately show ?thesis using l(3) cs(2) by (simp add: vi_map_def cell_contents_def)
      qed
      show ?thesis
      proof (cases "l_num h' = 0 \<and> denied ie (remove_locks ie key (set_value a h' (vi_tree s)))")
        case True
        then show ?thesis using False x l(1) none denied_timeout [OF conjunct2 [OF True]] by (simp add: vi_remove_call_def Let_def)
      next
        case no: False
        then have "vi_remove_call ie key obj s = Some (Inr (), s1)"
          using False x l(1) r(1) by (auto simp: vi_remove_call_def Let_def)
        then show ?thesis using r(2) by simp
      qed
    qed
  qed
qed

end
