(* ===== verification/Calendar.thy ===== *)
theory Calendar
  imports Pmgd_Prelude "HOL-Library.List_Lexorder"
begin

text \<open>
  The calendar arithmetic of the C library that \<open>src/property.cc\<close> relies on: \<open>struct tm\<close> without the day of the
  week, and \<open>timegm\<close>, which normalizes it and returns the seconds. Years are full years here, months start
  from 0 as in C. The lemmas: \<open>timegm\<close> keeps normalized times, and seconds order them.
\<close>

section \<open>Definitions\<close>

record tm =
  tm_sec :: int
  tm_min :: int
  tm_hour :: int
  tm_mday :: int
  tm_mon :: int
  tm_year :: int

definition leap :: "int \<Rightarrow> bool" where
  "leap y \<longleftrightarrow> 4 dvd y \<and> (\<not> 100 dvd y \<or> 400 dvd y)"

definition months :: "bool \<Rightarrow> int list" where
  "months l = [31, if l then 29 else 28, 31, 30, 31, 30, 31, 31, 30, 31, 30, 31]"

text \<open>The number of the first day of a year, from some fixed day.\<close>

definition days_to_year :: "int \<Rightarrow> int" where
  "days_to_year y = 365 * y + (y - 1) div 4 - (y - 1) div 100 + (y - 1) div 400"

definition day_number :: "int \<Rightarrow> int \<Rightarrow> int \<Rightarrow> int" where
  "day_number y m d =
     (let y' = y + m div 12; m' = nat (m mod 12)
      in days_to_year y' + sum_list (take m' (months (leap y'))) + d - 1)"

definition seconds :: "tm \<Rightarrow> int" where
  "seconds t = ((day_number (tm_year t) (tm_mon t) (tm_mday t) * 24 + tm_hour t) * 60 + tm_min t) * 60 + tm_sec t"

definition year_of_day :: "int \<Rightarrow> int" where
  "year_of_day n =
     (let y = 400 * n div 146097
      in if n < days_to_year y then y - 1 else if days_to_year (y + 1) \<le> n then y + 1 else y)"

fun month_of_day :: "int list \<Rightarrow> int \<Rightarrow> nat \<times> int" where
  "month_of_day [] d = (0, d)"
| "month_of_day (n # ns) d = (if d < n then (0, d) else let (m, e) = month_of_day ns (d - n) in (Suc m, e))"

definition broken_down :: "int \<Rightarrow> tm" where
  "broken_down s =
     (let n = s div 86400; r = s mod 86400; y = year_of_day n; (m, d) = month_of_day (months (leap y)) (n - days_to_year y)
      in \<lparr>tm_sec = r mod 60, tm_min = r div 60 mod 60, tm_hour = r div 3600, tm_mday = d + 1, tm_mon = int m, tm_year = y\<rparr>)"

text \<open>What \<open>timegm\<close> returns, with 0 for the start of 1970, and what it leaves in its argument.\<close>

definition timegm :: "tm \<Rightarrow> int \<times> tm" where
  "timegm t = (seconds t - 86400 * days_to_year 1970, broken_down (seconds t))"

definition valid_tm :: "tm \<Rightarrow> bool" where
  "valid_tm t \<longleftrightarrow> 0 \<le> tm_sec t \<and> tm_sec t < 60 \<and> 0 \<le> tm_min t \<and> tm_min t < 60 \<and> 0 \<le> tm_hour t \<and> tm_hour t < 24 \<and>
     0 \<le> tm_mon t \<and> tm_mon t < 12 \<and> 1 \<le> tm_mday t \<and> tm_mday t \<le> months (leap (tm_year t)) ! nat (tm_mon t)"

section \<open>Years\<close>

lemma div_step: "0 < n \<Longrightarrow> (y :: int) div n = (y - 1) div n + (if n dvd y then 1 else 0)"
proof -
  assume n: "0 < n"
  let ?q = "(y - 1) div n" and ?r = "(y - 1) mod n"
  have e: "y = n * ?q + (?r + 1)" using mult_div_mod_eq [of n "y - 1"] by simp
  have r: "0 \<le> ?r" "?r < n" using n by simp_all
  show ?thesis
  proof (cases "?r + 1 = n")
    case True
    then have y: "y = n * (?q + 1)" using e by (simp add: algebra_simps)
    then have "n dvd y" "y div n = ?q + 1" using n by (metis dvd_triv_left, metis nonzero_mult_div_cancel_left less_irrefl)
    then show ?thesis by simp
  next
    case False
    then have "y div n = ?q \<and> y mod n = ?r + 1" using e r by (intro conjI int_div_pos_eq [of y n ?q "?r + 1"] int_mod_pos_eq [of y n ?q "?r + 1"]) auto
    then show ?thesis using r(1) by (simp add: dvd_eq_mod_eq_0)
  qed
qed

lemma steps: "a = b + x \<Longrightarrow> c = d + y \<Longrightarrow> e = f + z \<Longrightarrow> 365 + (a - b) - (c - d) + (e - f) = 365 + x - y + (z :: int)"
  by simp

lemma year_step: "days_to_year (y + 1) = days_to_year y + (if leap y then 366 else 365)"
proof -
  have d: "100 dvd y \<Longrightarrow> 4 dvd y" "400 dvd y \<Longrightarrow> 100 dvd y"
    using dvd_trans [of 4 100 y] dvd_trans [of 100 400 y] by simp_all
  have "days_to_year (y + 1) - days_to_year y =
      365 + (y div 4 - (y - 1) div 4) - (y div 100 - (y - 1) div 100) + (y div 400 - (y - 1) div 400)"
    by (simp add: days_to_year_def)
  also have "\<dots> = 365 + (if 4 dvd y then 1 else 0) - (if 100 dvd y then 1 else 0) + (if 400 dvd y then 1 else 0)"
    by (rule steps) (rule div_step, simp)+
  also have "\<dots> = (if leap y then 366 else 365)"
    unfolding leap_def by (cases "4 dvd y"; cases "100 dvd y"; cases "400 dvd y") (use d in auto)
  finally show ?thesis by linarith
qed

lemma year_length: "sum_list (months l) = (if l then 366 else 365)" "length (months l) = 12"
  by (simp_all add: months_def)

lemma years_mono: "y < z \<Longrightarrow> days_to_year y + 365 \<le> days_to_year z"
proof (induction z rule: int_gr_induct)
  case base
  then show ?case using year_step [of y] by simp
next
  case (step i)
  then show ?case using year_step [of i] by (simp split: if_splits)
qed

lemma year_of_day: "days_to_year (year_of_day n) \<le> n \<and> n < days_to_year (year_of_day n + 1)"
proof -
  let ?q = "400 * n div 146097"
  have q: "146097 * ?q \<le> 400 * n" "400 * n < 146097 * ?q + 146097"
    using pos_mod_bound [of 146097 "400 * n"] pos_mod_sign [of 146097 "400 * n"] mult_div_mod_eq [of 146097 "400 * n"] by linarith+
  have close: "400 * days_to_year y \<le> 146097 * y + 299" "146097 * y - 796 \<le> 400 * days_to_year y" for y
  proof -
    have "k * ((y - 1) div k) \<le> y - 1" "y - 1 < k * ((y - 1) div k) + k" if "0 < k" for k :: int
      using pos_mod_bound [OF that, of "y - 1"] pos_mod_sign [OF that, of "y - 1"] mult_div_mod_eq [of k "y - 1"] by linarith+
    from this [of 4] this [of 100] this [of 400]
    show "400 * days_to_year y \<le> 146097 * y + 299" "146097 * y - 796 \<le> 400 * days_to_year y"
      unfolding days_to_year_def by simp_all
  qed
  have "days_to_year (?q - 1) \<le> n" using close(1) [of "?q - 1"] q by (simp add: algebra_simps)
  moreover have "n < days_to_year (?q + 1 + 1)" using close(2) [of "?q + 2"] q by (simp add: algebra_simps)
  ultimately show ?thesis by (auto simp: year_of_day_def Let_def)
qed

lemma year_of_day_unique: "days_to_year y \<le> n \<Longrightarrow> n < days_to_year (y + 1) \<Longrightarrow> year_of_day n = y"
proof -
  assume n: "days_to_year y \<le> n" "n < days_to_year (y + 1)"
  note m = year_of_day [of n]
  have "\<not> year_of_day n < y" using years_mono [of "year_of_day n + 1" y] m n(1) by (cases "year_of_day n + 1 = y") auto
  moreover have "\<not> y < year_of_day n" using years_mono [of "y + 1" "year_of_day n"] m n(2) by (cases "year_of_day n = y + 1") auto
  ultimately show ?thesis by simp
qed

section \<open>Months\<close>

lemma month_of_day_ok:
  "0 \<le> d \<Longrightarrow> d < sum_list ns \<Longrightarrow> month_of_day ns d = (m, e) \<Longrightarrow>
    m < length ns \<and> 0 \<le> e \<and> e < ns ! m \<and> d = sum_list (take m ns) + e"
proof (induction ns arbitrary: d m)
  case (Cons n ns)
  show ?case
  proof (cases "d < n")
    case False
    obtain i where i: "month_of_day ns (d - n) = (i, e)" "m = Suc i" using Cons.prems(3) False by (auto split: prod.splits)
    then show ?thesis using Cons.IH [of "d - n" i] Cons.prems False by auto
  qed (use Cons.prems in auto)
qed simp

lemma take_sum_mono: "\<forall>n\<in>set ns. 0 < n \<Longrightarrow> m < m' \<Longrightarrow> m' \<le> length ns \<Longrightarrow> sum_list (take m ns) + ns ! m \<le> (sum_list (take m' ns) :: int)"
proof (induction ns arbitrary: m m')
  case (Cons n ns)
  obtain j where j: "m' = Suc j" using Cons.prems(2) by (cases m') auto
  have p: "0 \<le> sum_list (take j ns)" by (rule sum_list_nonneg) (use Cons.prems(1) in \<open>auto dest!: in_set_takeD simp: less_imp_le\<close>)
  show ?case
  proof (cases m)
    case (Suc i)
    then show ?thesis using Cons.IH [of i j] Cons.prems j by simp
  qed (use p j in simp)
qed simp

lemma month_of_day_eq:
  "\<forall>n\<in>set ns. 0 < n \<Longrightarrow> m < length ns \<Longrightarrow> 0 \<le> e \<Longrightarrow> e < ns ! m \<Longrightarrow> month_of_day ns (sum_list (take m ns) + e) = (m, e)"
proof (induction ns arbitrary: m)
  case (Cons n ns)
  show ?case
  proof (cases m)
    case (Suc i)
    have "0 \<le> sum_list (take i ns)" by (rule sum_list_nonneg) (use Cons.prems(1) in \<open>auto dest!: in_set_takeD simp: less_imp_le\<close>)
    moreover have "month_of_day ns (sum_list (take i ns) + e) = (i, e)" using Cons Suc by simp
    ultimately show ?thesis using Suc Cons.prems(3) by (simp add: add.assoc)
  qed (use Cons.prems in simp)
qed simp

lemma months_pos: "\<forall>n\<in>set (months l). 0 < n"
  by (simp add: months_def)

section \<open>Normalized times\<close>

definition day_of_year :: "tm \<Rightarrow> int" where
  "day_of_year t = sum_list (take (nat (tm_mon t)) (months (leap (tm_year t)))) + tm_mday t - 1"

definition second_of_day :: "tm \<Rightarrow> int" where
  "second_of_day t = (tm_hour t * 60 + tm_min t) * 60 + tm_sec t"

lemma valid_day:
  assumes "valid_tm t"
  shows "day_number (tm_year t) (tm_mon t) (tm_mday t) = days_to_year (tm_year t) + day_of_year t"
    "0 \<le> day_of_year t" "day_of_year t < sum_list (months (leap (tm_year t)))"
    "month_of_day (months (leap (tm_year t))) (day_of_year t) = (nat (tm_mon t), tm_mday t - 1)"
proof -
  let ?ms = "months (leap (tm_year t))" and ?m = "nat (tm_mon t)"
  have m: "?m < length ?ms" "1 \<le> tm_mday t" "tm_mday t \<le> ?ms ! ?m" and z: "tm_mon t div 12 = 0" "tm_mon t mod 12 = tm_mon t"
    using assms by (auto simp: valid_tm_def year_length)
  show "day_number (tm_year t) (tm_mon t) (tm_mday t) = days_to_year (tm_year t) + day_of_year t"
    using z by (simp add: day_number_def day_of_year_def Let_def)
  have "0 \<le> sum_list (take ?m ?ms)" by (rule sum_list_nonneg) (use months_pos in \<open>auto dest!: in_set_takeD simp: less_imp_le\<close>)
  then show "0 \<le> day_of_year t" using m by (simp add: day_of_year_def)
  have "sum_list (take ?m ?ms) + ?ms ! ?m \<le> sum_list (take 12 ?ms)"
    by (rule take_sum_mono [OF months_pos]) (use m in \<open>simp_all add: year_length\<close>)
  then show "day_of_year t < sum_list ?ms" using m by (simp add: day_of_year_def year_length)
  show "month_of_day ?ms (day_of_year t) = (?m, tm_mday t - 1)"
    using month_of_day_eq [OF months_pos m(1), of "tm_mday t - 1"] m by (simp add: day_of_year_def add_diff_eq)
qed

lemma valid_seconds:
  assumes "valid_tm t"
  shows "seconds t = 86400 * (days_to_year (tm_year t) + day_of_year t) + second_of_day t"
    "0 \<le> second_of_day t" "second_of_day t < 86400"
  using assms valid_day(1) [OF assms] by (simp_all add: seconds_def second_of_day_def valid_tm_def)

lemma valid_year:
  assumes "valid_tm t"
  shows "year_of_day (days_to_year (tm_year t) + day_of_year t) = tm_year t"
  using year_of_day_unique valid_day(2, 3) [OF assms] year_step [of "tm_year t"] by (simp add: year_length)

lemma broken_down_seconds:
  assumes "valid_tm t"
  shows "broken_down (seconds t) = t"
proof -
  note v = valid_seconds [OF assms]
  let ?n = "days_to_year (tm_year t) + day_of_year t"
  have n: "seconds t div 86400 = ?n" "seconds t mod 86400 = second_of_day t"
    using v int_div_pos_eq [of "seconds t" 86400 ?n "second_of_day t"] int_mod_pos_eq [of "seconds t" 86400 ?n "second_of_day t"] by simp_all
  have r: "0 \<le> tm_sec t" "tm_sec t < 60" "0 \<le> tm_min t" "tm_min t < 60" using assms by (simp_all add: valid_tm_def)
  have s: "second_of_day t mod 60 = tm_sec t" "second_of_day t div 60 = tm_hour t * 60 + tm_min t"
    using r int_mod_pos_eq [of "second_of_day t" 60 "tm_hour t * 60 + tm_min t" "tm_sec t"]
      int_div_pos_eq [of "second_of_day t" 60 "tm_hour t * 60 + tm_min t" "tm_sec t"]
    by (simp_all add: second_of_day_def)
  have "second_of_day t div 3600 = second_of_day t div 60 div 60" by (simp add: zdiv_zmult2_eq [symmetric])
  then have h: "second_of_day t div 3600 = tm_hour t" "second_of_day t div 60 mod 60 = tm_min t" unfolding s(2) using r by simp_all
  show ?thesis
    unfolding broken_down_def Let_def n using valid_year [OF assms] valid_day(4) [OF assms] s(1) h assms
    by (simp add: valid_tm_def)
qed

lemma seconds_broken_down: "valid_tm (broken_down s)" "seconds (broken_down s) = s"
proof -
  let ?n = "s div 86400" and ?r = "s mod 86400"
  let ?y = "year_of_day ?n"
  let ?ms = "months (leap ?y)"
  obtain m d where md: "month_of_day ?ms (?n - days_to_year ?y) = (m, d)" by fastforce
  have "0 \<le> ?n - days_to_year ?y" "?n - days_to_year ?y < sum_list ?ms"
    using year_of_day [of ?n] year_step [of ?y] by (simp_all add: year_length)
  from month_of_day_ok [OF this md] have m: "m < 12" "0 \<le> d" "d < ?ms ! m" "?n = days_to_year ?y + (sum_list (take m ?ms) + d)"
    by (simp_all add: year_length)
  have b: "broken_down s = \<lparr>tm_sec = ?r mod 60, tm_min = ?r div 60 mod 60, tm_hour = ?r div 3600, tm_mday = d + 1, tm_mon = int m, tm_year = ?y\<rparr>"
    by (simp add: broken_down_def Let_def md)
  have r: "0 \<le> ?r" "?r < 86400" by simp_all
  have q: "?r div 3600 = ?r div 60 div 60" by (simp add: zdiv_zmult2_eq [symmetric])
  have "0 \<le> ?r div 3600" "?r div 3600 < 24"
    using r pos_mod_bound [of 3600 ?r] pos_mod_sign [of 3600 ?r] mult_div_mod_eq [of 3600 ?r] by linarith+
  then show v: "valid_tm (broken_down s)" unfolding b valid_tm_def using m by simp
  have "second_of_day (broken_down s) = ?r"
    unfolding b second_of_day_def by (simp add: q)
  moreover have "days_to_year (tm_year (broken_down s)) + day_of_year (broken_down s) = ?n"
    unfolding b day_of_year_def using m(4) by simp
  ultimately show "seconds (broken_down s) = s" using valid_seconds(1) [OF v] by simp
qed

section \<open>Order\<close>

definition tm_fields :: "tm \<Rightarrow> int list" where
  "tm_fields t = [tm_year t, tm_mon t, tm_mday t, tm_hour t, tm_min t, tm_sec t]"

lemma fields_less_seconds:
  assumes a: "valid_tm a" and b: "valid_tm b" and l: "tm_fields a < tm_fields b"
  shows "seconds a < seconds b"
proof -
  note va = valid_seconds [OF a] and vb = valid_seconds [OF b]
  have ya: "days_to_year (tm_year a) + day_of_year a < days_to_year (tm_year a + 1)"
    using valid_day(3) [OF a] year_step [of "tm_year a"] by (simp add: year_length)
  have days: ?thesis if d: "days_to_year (tm_year a) + day_of_year a < days_to_year (tm_year b) + day_of_year b"
  proof -
    have "86400 * (days_to_year (tm_year a) + day_of_year a) + 86400 \<le> 86400 * (days_to_year (tm_year b) + day_of_year b)"
      using d by simp
    then show ?thesis using va vb by (simp only: )
  qed
  have "tm_year a \<le> tm_year b" using l by (auto simp: tm_fields_def)
  then consider (year) "tm_year a < tm_year b" | (same) "tm_year a = tm_year b" by linarith
  then show ?thesis
  proof cases
    case year
    then have "days_to_year (tm_year a + 1) \<le> days_to_year (tm_year b)" using years_mono [of "tm_year a + 1" "tm_year b"] by (cases "tm_year a + 1 = tm_year b") auto
    then show ?thesis using days ya valid_day(2) [OF b] by linarith
  next
    case same
    let ?ms = "months (leap (tm_year b))"
    have ra: "nat (tm_mon a) < 12" "tm_mday a \<le> ?ms ! nat (tm_mon a)" "0 \<le> tm_mon a" using a same by (auto simp: valid_tm_def)
    have rb: "nat (tm_mon b) < 12" "1 \<le> tm_mday b" "0 \<le> tm_mon b" using b by (auto simp: valid_tm_def)
    consider (mon) "tm_mon a < tm_mon b" | (day) "tm_mon a = tm_mon b" "tm_mday a < tm_mday b"
      | (time) "tm_mon a = tm_mon b" "tm_mday a = tm_mday b" "[tm_hour a, tm_min a, tm_sec a] < [tm_hour b, tm_min b, tm_sec b]"
      using l same by (auto simp: tm_fields_def)
    then show ?thesis
    proof cases
      case mon
      have "sum_list (take (nat (tm_mon a)) ?ms) + ?ms ! nat (tm_mon a) \<le> sum_list (take (nat (tm_mon b)) ?ms)"
        by (rule take_sum_mono [OF months_pos]) (use mon ra rb in \<open>simp_all add: year_length\<close>)
      then have "day_of_year a < day_of_year b" using ra rb same by (simp add: day_of_year_def)
      then show ?thesis using days same by simp
    next
      case day
      then show ?thesis using days same by (simp add: day_of_year_def)
    next
      case time
      have "0 \<le> tm_min b" "tm_min a < 60" "0 \<le> tm_sec b" "tm_sec a < 60" using a b by (simp_all add: valid_tm_def)
      then have "second_of_day a < second_of_day b" using time(3) by (auto simp: second_of_day_def)
      moreover have "day_of_year a = day_of_year b" using time(1, 2) same by (simp add: day_of_year_def)
      ultimately show ?thesis using va(1) vb(1) same by simp
    qed
  qed
qed

lemma seconds_order:
  assumes "valid_tm a" "valid_tm b"
  shows "seconds a < seconds b \<longleftrightarrow> tm_fields a < tm_fields b" "seconds a = seconds b \<longleftrightarrow> tm_fields a = tm_fields b"
proof -
  have e: "tm_fields a = tm_fields b \<Longrightarrow> seconds a = seconds b" by (simp add: tm_fields_def seconds_def)
  note l = fields_less_seconds [OF assms] fields_less_seconds [OF assms(2, 1)]
  consider (less) "tm_fields a < tm_fields b" | (eq) "tm_fields a = tm_fields b" | (more) "tm_fields b < tm_fields a" by (rule linorder_cases)
  then have "(seconds a < seconds b \<longleftrightarrow> tm_fields a < tm_fields b) \<and> (seconds a = seconds b \<longleftrightarrow> tm_fields a = tm_fields b)"
  proof cases
    case less
    then show ?thesis using l(1) less_imp_neq by auto
  next
    case eq
    then show ?thesis using e by simp
  next
    case more
    then show ?thesis using l(2) less_not_sym [OF more] less_imp_neq [OF more] by auto
  qed
  then show "seconds a < seconds b \<longleftrightarrow> tm_fields a < tm_fields b" "seconds a = seconds b \<longleftrightarrow> tm_fields a = tm_fields b" by simp_all
qed

end
