(* ===== verification/Property_Time.thy ===== *)
theory Property_Time
  imports Calendar "HOL-Library.Signed_Division"
begin

text \<open>
  \<open>Time\<close> of \<open>src/property.cc\<close>, \<open>include/property.h\<close>: a point in time as bit fields of a signed 64-bit number,
  in UTC, with the zone of the user beside it. Properties: comparing the numbers compares the points in
  time; a time comes back in its zone as it was given.
\<close>

section \<open>Bit fields\<close>

text \<open>Fields from the lowest bit on, with their widths; the last field takes the rest.\<close>

fun pack :: "(nat \<times> int) list \<Rightarrow> int \<Rightarrow> int" where
  "pack [] y = y"
| "pack ((w, x) # fs) y = concat_bit w x (pack fs y)"

fun unpack :: "nat list \<Rightarrow> int \<Rightarrow> int list \<times> int" where
  "unpack [] v = ([], v)"
| "unpack (w # ws) v = (let (xs, y) = unpack ws (drop_bit w v) in (take_bit w v # xs, y))"

definition time_widths :: "nat list" where
  "time_widths = [4, 20, 6, 6, 5, 5, 4]"

record ptime =
  pt_val :: u64
  pt_tz_min :: "2 word"
  pt_tz_hour :: "5 word"

text \<open>\<open>unused, usec, sec, min, hour, day, mon\<close>, and \<open>year\<close>, which is signed.\<close>

definition time_fields :: "u64 \<Rightarrow> int list \<times> int" where
  "time_fields v = unpack time_widths (sint v)"

section \<open>Operations\<close>

definition time_new :: "tm \<Rightarrow> int \<Rightarrow> int \<Rightarrow> int \<Rightarrow> ptime" where
  "time_new t us hr mi =
     (let u = snd (timegm (t\<lparr>tm_hour := tm_hour t - hr, tm_min := tm_min t - mi * (if hr \<ge> 0 then 1 else -1)\<rparr>))
      in \<lparr>pt_val = word_of_int (pack (zip time_widths [0, us, tm_sec u, tm_min u, tm_hour u, tm_mday u, tm_mon u + 1]) (tm_year u)),
          pt_tz_min = word_of_int (mi sdiv 15), pt_tz_hour = word_of_int hr\<rparr>)"

definition fill_tm_utc :: "ptime \<Rightarrow> tm" where
  "fill_tm_utc p =
     (let (fs, y) = time_fields (pt_val p)
      in \<lparr>tm_sec = fs ! 2, tm_min = fs ! 3, tm_hour = fs ! 4, tm_mday = fs ! 5, tm_mon = fs ! 6 - 1, tm_year = y\<rparr>)"

definition get_utc :: "ptime \<Rightarrow> tm" where
  "get_utc p = snd (timegm (fill_tm_utc p))"

definition get_tm :: "ptime \<Rightarrow> tm" where
  "get_tm p =
     (let t = fill_tm_utc p; h = sint (pt_tz_hour p)
      in snd (timegm (t\<lparr>tm_hour := tm_hour t + h, tm_min := tm_min t + uint (pt_tz_min p) * (if h \<ge> 0 then 1 else -1) * 15\<rparr>)))"

definition get_time :: "ptime \<Rightarrow> int" where
  "get_time p = fst (timegm (get_utc p))"

definition get_time_in_usec :: "ptime \<Rightarrow> u64" where
  "get_time_in_usec p = word_of_int (get_time p) * 1000000 + word_of_int (fst (time_fields (pt_val p)) ! 1)"

definition get_time_in_msec :: "ptime \<Rightarrow> u64" where
  "get_time_in_msec p = get_time_in_usec p div 1000"

definition time_less :: "ptime \<Rightarrow> ptime \<Rightarrow> bool" where
  "time_less a b \<longleftrightarrow> sint (pt_val a) < sint (pt_val b)"

definition time_eq :: "ptime \<Rightarrow> ptime \<Rightarrow> bool" where
  "time_eq a b \<longleftrightarrow> pt_val a = pt_val b"

section \<open>Packing\<close>

lemma concat_bit_parts: "take_bit w (concat_bit w x k) = take_bit w x" "drop_bit w (concat_bit w x k) = k"
  by (rule bit_eqI; auto simp: bit_simps)+

lemma concat_bit_less:
  "concat_bit w x k < concat_bit w y l \<longleftrightarrow> k < l \<or> k = l \<and> take_bit w x < take_bit w y"
  "concat_bit w x k = concat_bit w y l \<longleftrightarrow> k = l \<and> take_bit w x = take_bit w y"
proof -
  have b: "0 \<le> take_bit w z" "take_bit w z < 2 ^ w" for z :: int by simp_all
  have less: "a + 2 ^ w * k < a' + 2 ^ w * l" if "k < l" "0 \<le> a'" "a < 2 ^ w" for a a' k l :: int
  proof -
    have "2 ^ w * (k + 1) \<le> 2 ^ w * l" using that(1) by simp
    then show ?thesis using that(2, 3) by (simp add: algebra_simps)
  qed
  have e: "concat_bit w z m = take_bit w z + 2 ^ w * m" for z m by (simp add: concat_bit_eq push_bit_eq_mult mult.commute)
  consider "k < l" | "k = l" | "l < k" by linarith
  then show "concat_bit w x k < concat_bit w y l \<longleftrightarrow> k < l \<or> k = l \<and> take_bit w x < take_bit w y"
    "concat_bit w x k = concat_bit w y l \<longleftrightarrow> k = l \<and> take_bit w x = take_bit w y"
    unfolding e using less [of k l "take_bit w y" "take_bit w x"] less [of l k "take_bit w x" "take_bit w y"] b by (cases, force+)+
qed

abbreviation cut :: "(nat \<times> int) list \<Rightarrow> int list" where
  "cut fs \<equiv> map (\<lambda>(w, x). take_bit w x) fs"

lemma unpack_pack: "unpack (map fst fs) (pack fs y) = (cut fs, y)"
  by (induction fs) (auto simp: concat_bit_parts)

lemma snoc_less: "length xs = length ys \<Longrightarrow> xs @ [x] < ys @ [y] \<longleftrightarrow> xs < ys \<or> xs = ys \<and> x < (y :: 'a :: linorder)"
  by (induction xs ys rule: list_induct2) auto

lemma pack_less:
  "map fst fs = map fst gs \<Longrightarrow> pack fs y < pack gs z \<longleftrightarrow> y # rev (cut fs) < z # rev (cut gs)"
  "map fst fs = map fst gs \<Longrightarrow> pack fs y = pack gs z \<longleftrightarrow> y # rev (cut fs) = z # rev (cut gs)"
proof (induction fs arbitrary: gs)
  case (Cons f fs)
  case 1
  obtain w x x' gs' where g: "f = (w, x)" "gs = (w, x') # gs'" "map fst fs = map fst gs'"
    using 1 by (cases f; cases gs) auto
  then have "length fs = length gs'" by (metis length_map)
  then show ?case
    using Cons.IH [OF g(3)] snoc_less [of "y # rev (cut fs)" "z # rev (cut gs')" "take_bit w x" "take_bit w x'"]
    unfolding g by (simp add: concat_bit_less)
next
  case (Cons f fs)
  case 2
  obtain w x x' gs' where g: "f = (w, x)" "gs = (w, x') # gs'" "map fst fs = map fst gs'"
    using 2 by (cases f; cases gs) auto
  then show ?case using Cons.IH(2) [OF g(3)] unfolding g by (auto simp: concat_bit_less)
qed simp_all

lemma pack_bounds: "2 ^ sum_list (map fst fs) * y \<le> pack fs y \<and> pack fs y < 2 ^ sum_list (map fst fs) * (y + 1)"
proof (induction fs)
  case (Cons f fs)
  obtain w x where f: "f = (w, x)" by fastforce
  let ?n = "sum_list (map fst fs)"
  have e: "pack (f # fs) y = take_bit w x + 2 ^ w * pack fs y" by (simp add: f concat_bit_eq push_bit_eq_mult mult.commute)
  have b: "0 \<le> take_bit w x" "take_bit w x < 2 ^ w" by simp_all
  have "2 ^ w * (2 ^ ?n * y) \<le> 2 ^ w * pack fs y" using Cons.IH by simp
  moreover have "2 ^ w * (pack fs y + 1) \<le> 2 ^ w * (2 ^ ?n * (y + 1))" using Cons.IH by simp
  moreover have p: "2 ^ sum_list (map fst (f # fs)) * z = 2 ^ w * (2 ^ ?n * z)" for z :: int by (simp add: f power_add)
  moreover have "2 ^ w * (pack fs y + 1) = 2 ^ w * pack fs y + 2 ^ w" by (simp add: algebra_simps)
  ultimately show ?case unfolding e using b p [of y] p [of "y + 1"] by (intro conjI) linarith+
qed simp

section \<open>Times\<close>

text \<open>The point in time that is given, in seconds, and the year that it has in UTC; the offsets of real time zones.\<close>

definition instant :: "tm \<Rightarrow> int \<Rightarrow> int \<Rightarrow> int" where
  "instant t hr mi = seconds t - 3600 * hr - 60 * mi * (if hr \<ge> 0 then 1 else -1)"

definition time_given :: "tm \<Rightarrow> int \<Rightarrow> int \<Rightarrow> int \<Rightarrow> bool" where
  "time_given t us hr mi \<longleftrightarrow> 0 \<le> us \<and> us < 1000000 \<and> -16 \<le> hr \<and> hr < 16 \<and> mi \<in> {0, 15, 30, 45} \<and>
     -8192 \<le> tm_year (broken_down (instant t hr mi)) \<and> tm_year (broken_down (instant t hr mi)) < 8192"

definition packed :: "tm \<Rightarrow> int \<Rightarrow> int" where
  "packed u us = pack (zip time_widths [0, us, tm_sec u, tm_min u, tm_hour u, tm_mday u, tm_mon u + 1]) (tm_year u)"

lemma seconds_shift:
  "seconds (t\<lparr>tm_hour := tm_hour t + a, tm_min := tm_min t + b\<rparr>) = seconds t + 3600 * a + 60 * b"
  by (simp add: seconds_def)

lemma time_new_fields:
  "pt_val (time_new t us hr mi) = word_of_int (packed (broken_down (instant t hr mi)) us)"
  "pt_tz_min (time_new t us hr mi) = word_of_int (mi sdiv 15)" "pt_tz_hour (time_new t us hr mi) = word_of_int hr"
  using seconds_shift [where t = t and a = "- hr" and b = "- (mi * (if hr \<ge> 0 then 1 else -1))"]
  by (simp_all add: time_new_def timegm_def packed_def instant_def Let_def)

text \<open>The fields of a normalized time fit.\<close>

lemma packed_cut:
  assumes "valid_tm u" "0 \<le> us" "us < 1000000"
  shows "cut (zip time_widths [0, us, tm_sec u, tm_min u, tm_hour u, tm_mday u, tm_mon u + 1]) =
    [0, us, tm_sec u, tm_min u, tm_hour u, tm_mday u, tm_mon u + 1]"
proof -
  have d: "tm_mday u < 32"
  proof -
    have "\<forall>n\<in>set (months (leap (tm_year u))). n < 32" by (simp add: months_def)
    moreover have "months (leap (tm_year u)) ! nat (tm_mon u) \<in> set (months (leap (tm_year u)))"
      by (rule nth_mem) (use assms(1) in \<open>auto simp: valid_tm_def year_length\<close>)
    ultimately show ?thesis using assms(1) by (auto simp: valid_tm_def)
  qed
  have fit: "take_bit w x = x" if "0 \<le> x" "x < 2 ^ w" for w and x :: int using that by (simp add: take_bit_int_eq_self)
  show ?thesis
    using assms d by (simp add: time_widths_def valid_tm_def fit)
qed

lemma sint_packed:
  assumes "-8192 \<le> tm_year u" "tm_year u < 8192"
  shows "sint (word_of_int (packed u us) :: u64) = packed u us"
proof -
  have "2 ^ 50 * tm_year u \<le> packed u us" "packed u us < 2 ^ 50 * (tm_year u + 1)"
    using pack_bounds [of "zip time_widths [0, us, tm_sec u, tm_min u, tm_hour u, tm_mday u, tm_mon u + 1]" "tm_year u"]
    by (simp_all add: packed_def time_widths_def)
  then have "- (2 ^ 63) \<le> packed u us" "packed u us < 2 ^ 63" using assms by simp_all
  then show ?thesis by (simp add: signed_of_int signed_take_bit_int_eq_self)
qed

lemma time_fields_new:
  assumes "time_given t us hr mi"
  defines "u \<equiv> broken_down (instant t hr mi)"
  shows "time_fields (pt_val (time_new t us hr mi)) = ([0, us, tm_sec u, tm_min u, tm_hour u, tm_mday u, tm_mon u + 1], tm_year u)"
proof -
  let ?fs = "zip time_widths [0, us, tm_sec u, tm_min u, tm_hour u, tm_mday u, tm_mon u + 1]"
  have v: "valid_tm u" unfolding u_def by (rule seconds_broken_down)
  have "map fst ?fs = time_widths" by (simp add: time_widths_def)
  then have "unpack time_widths (packed u us) = (cut ?fs, tm_year u)" using unpack_pack [of ?fs "tm_year u"] by (simp add: packed_def)
  then show ?thesis
    using packed_cut [OF v, of us] sint_packed [of u us] assms(1)
    by (simp add: time_fields_def time_new_fields u_def [symmetric] time_given_def)
qed

lemma fill_new:
  assumes "time_given t us hr mi"
  shows "fill_tm_utc (time_new t us hr mi) = broken_down (instant t hr mi)"
  by (simp add: fill_tm_utc_def time_fields_new [OF assms])

lemma zone_new:
  assumes "time_given t us hr mi"
  shows "sint (pt_tz_hour (time_new t us hr mi)) = hr" "uint (pt_tz_min (time_new t us hr mi)) * 15 = mi"
proof -
  have h: "-16 \<le> hr" "hr < 16" and m: "mi \<in> {0, 15, 30, 45}" using assms by (simp_all add: time_given_def)
  show "sint (pt_tz_hour (time_new t us hr mi)) = hr"
    using h by (simp add: time_new_fields signed_of_int signed_take_bit_int_eq_self)
  show "uint (pt_tz_min (time_new t us hr mi)) * 15 = mi" using m by (auto simp: time_new_fields)
qed

section \<open>Round trip and order\<close>

lemma utc_new:
  assumes "time_given t us hr mi"
  shows "get_utc (time_new t us hr mi) = broken_down (instant t hr mi)"
    "get_time (time_new t us hr mi) = instant t hr mi - 86400 * days_to_year 1970"
proof -
  note v = seconds_broken_down [of "instant t hr mi"]
  show u: "get_utc (time_new t us hr mi) = broken_down (instant t hr mi)"
    by (simp add: get_utc_def timegm_def fill_new [OF assms] v)
  show "get_time (time_new t us hr mi) = instant t hr mi - 86400 * days_to_year 1970"
    by (simp add: get_time_def u timegm_def v)
qed

lemma tm_new:
  assumes "time_given t us hr mi"
  shows "get_tm (time_new t us hr mi) = broken_down (seconds t)"
proof -
  let ?u = "broken_down (instant t hr mi)"
  have "seconds (?u\<lparr>tm_hour := tm_hour ?u + hr, tm_min := tm_min ?u + mi * (if hr \<ge> 0 then 1 else -1)\<rparr>) = seconds t"
    unfolding seconds_shift seconds_broken_down(2) by (simp add: instant_def)
  moreover have "uint (pt_tz_min (time_new t us hr mi)) * s * 15 = mi * s" for s
    using zone_new(2) [OF assms] by (metis mult.assoc mult.commute)
  ultimately show ?thesis
    by (simp only: get_tm_def Let_def fill_new [OF assms] zone_new(1) [OF assms] timegm_def snd_conv)
qed

text \<open>
  C34. A time that is made of a normalized broken-down time in a time zone comes back from \<open>get_tm\<close> as it was
  given, from \<open>get_utc\<close> as the same point in UTC, and from \<open>get_time_in_usec\<close> as the microseconds since 1970,
  modulo \<open>2 ^ 64\<close>.
\<close>

theorem time_roundtrip:
  assumes "valid_tm t" "time_given t us hr mi"
  shows "get_tm (time_new t us hr mi) = t \<and> get_utc (time_new t us hr mi) = broken_down (instant t hr mi) \<and>
    get_time_in_usec (time_new t us hr mi) = word_of_int ((instant t hr mi - 86400 * days_to_year 1970) * 1000000 + us)"
proof (intro conjI)
  show "get_tm (time_new t us hr mi) = t" using tm_new [OF assms(2)] broken_down_seconds [OF assms(1)] by simp
  show "get_utc (time_new t us hr mi) = broken_down (instant t hr mi)" by (rule utc_new [OF assms(2)])
  show "get_time_in_usec (time_new t us hr mi) = word_of_int ((instant t hr mi - 86400 * days_to_year 1970) * 1000000 + us)"
    by (simp add: get_time_in_usec_def utc_new(2) [OF assms(2)] time_fields_new [OF assms(2)] wi_hom_syms)
qed

text \<open>
  C33. Comparing two times, which is comparing the signed numbers of their bit fields, compares the points in
  time that they were made of, whatever their zones, down to the microsecond.
\<close>

theorem time_order:
  assumes "time_given t us hr mi" "time_given t' us' hr' mi'"
  shows "(time_less (time_new t us hr mi) (time_new t' us' hr' mi') \<longleftrightarrow> [instant t hr mi, us] < [instant t' hr' mi', us']) \<and>
    (time_eq (time_new t us hr mi) (time_new t' us' hr' mi') \<longleftrightarrow> [instant t hr mi, us] = [instant t' hr' mi', us'])"
proof -
  let ?u = "broken_down (instant t hr mi)" and ?u' = "broken_down (instant t' hr' mi')"
  have v: "valid_tm ?u" "valid_tm ?u'" by (rule seconds_broken_down)+
  have us: "0 \<le> us" "us < 1000000" "0 \<le> us'" "us' < 1000000" using assms by (simp_all add: time_given_def)
  have si: "sint (pt_val (time_new t us hr mi)) = packed ?u us" "sint (pt_val (time_new t' us' hr' mi')) = packed ?u' us'"
    unfolding time_new_fields using assms by (simp_all add: sint_packed time_given_def)
  note cut = packed_cut [OF v(1) us(1, 2)] packed_cut [OF v(2) us(3, 4)]
  have w: "map fst (zip time_widths [0, a, b, c, d, e, f]) = time_widths" for a b c d e f :: int by (simp add: time_widths_def)
  have cmp: "packed ?u us < packed ?u' us' \<longleftrightarrow> tm_fields ?u @ [us, 0] < tm_fields ?u' @ [us', 0]"
    "packed ?u us = packed ?u' us' \<longleftrightarrow> tm_fields ?u @ [us, 0] = tm_fields ?u' @ [us', 0]"
    unfolding packed_def pack_less [OF trans [OF w w [symmetric]]] cut by (auto simp: tm_fields_def)
  have sec: "tm_fields ?u < tm_fields ?u' \<longleftrightarrow> instant t hr mi < instant t' hr' mi'" "tm_fields ?u = tm_fields ?u' \<longleftrightarrow> instant t hr mi = instant t' hr' mi'"
    using seconds_order [OF v] by (simp_all add: seconds_broken_down(2))
  have ap: "tm_fields ?u @ [us, 0] < tm_fields ?u' @ [us', 0] \<longleftrightarrow> tm_fields ?u < tm_fields ?u' \<or> tm_fields ?u = tm_fields ?u' \<and> us < us'"
    by (auto simp: tm_fields_def)
  have less: "time_less (time_new t us hr mi) (time_new t' us' hr' mi') \<longleftrightarrow> [instant t hr mi, us] < [instant t' hr' mi', us']"
    unfolding time_less_def si cmp ap sec by simp
  have "pt_val (time_new t us hr mi) = pt_val (time_new t' us' hr' mi') \<longleftrightarrow> packed ?u us = packed ?u' us'"
    unfolding si [symmetric] by (auto intro: signed_word_eqI)
  then have "time_eq (time_new t us hr mi) (time_new t' us' hr' mi') \<longleftrightarrow> [instant t hr mi, us] = [instant t' hr' mi', us']"
    unfolding time_eq_def cmp using sec(2) by (auto simp: tm_fields_def)
  with less show ?thesis by (rule conjI)
qed

text \<open>Noon of 29 February 2024 in a zone 5:30 ahead, and the same point in time 3:30 behind UTC.\<close>

definition ex_noon :: tm where
  "ex_noon = \<lparr>tm_sec = 0, tm_min = 0, tm_hour = 12, tm_mday = 29, tm_mon = 1, tm_year = 2024\<rparr>"

definition ex_early :: tm where
  "ex_early = \<lparr>tm_sec = 0, tm_min = 0, tm_hour = 3, tm_mday = 29, tm_mon = 1, tm_year = 2024\<rparr>"

lemma ex_year: "tm_year (broken_down (instant ex_noon 5 30)) = 2024" "tm_year (broken_down (instant ex_early (-3) 30)) = 2024"
  by code_simp+

lemma ex_given: "time_given ex_noon 7 5 30" "time_given ex_early 9 (-3) 30"
  by (simp_all add: time_given_def ex_year)

lemma time_roundtrip_witness:
  "get_tm (time_new ex_noon 7 5 30) = ex_noon \<and>
   get_time_in_usec (time_new ex_noon 7 5 30) = word_of_int ((instant ex_noon 5 30 - 86400 * days_to_year 1970) * 1000000 + 7)"
proof -
  have "valid_tm ex_noon" by code_simp
  from time_roundtrip [OF this ex_given(1)] show ?thesis by simp
qed

lemma time_order_witness:
  "time_less (time_new ex_noon 7 5 30) (time_new ex_early 9 (-3) 30) \<and> instant ex_noon 5 30 = instant ex_early (-3) 30"
proof -
  have "instant ex_noon 5 30 = instant ex_early (-3) 30" by code_simp
  then show ?thesis using time_order [OF ex_given] by simp
qed

end
