(* ===== verification/Property_Filter.thy ===== *)
theory Property_Filter
  imports Property_Time Index_Iterator
begin

text \<open>
  Property values and their comparison (\<open>src/property.cc\<close>), predicates and the filtering iterator
  (\<open>include/filter.h\<close>). Floating point numbers are a parameter with their \<open><\<close>. Properties: the filtering
  iterator sees what filtering the list of the base iterator gives, up to the first stop; what a predicate
  lets pass; comparison throws exactly for values of different types.
\<close>

section \<open>Values\<close>

datatype property_type = NoValue | Boolean | Integer | String | Float | TimeType | Blob

datatype 'f property =
    PNone
  | PBool bool
  | PInt int
  | PString "u8 list"
  | PFloat 'f
  | PTime ptime
  | PBlob "u8 list"

fun type_of :: "'f property \<Rightarrow> property_type" where
  "type_of PNone = NoValue"
| "type_of (PBool b) = Boolean"
| "type_of (PInt i) = Integer"
| "type_of (PString s) = String"
| "type_of (PFloat x) = Float"
| "type_of (PTime t) = TimeType"
| "type_of (PBlob b) = Blob"

text \<open>\<open>operator<\<close>; strings compare byte by byte.\<close>

fun same_type_less :: "('f \<Rightarrow> 'f \<Rightarrow> bool) \<Rightarrow> 'f property \<Rightarrow> 'f property \<Rightarrow> bool" where
  "same_type_less lf (PBool a) (PBool b) = (a < b)"
| "same_type_less lf (PInt a) (PInt b) = (a < b)"
| "same_type_less lf (PString a) (PString b) = (a < b)"
| "same_type_less lf (PFloat a) (PFloat b) = lf a b"
| "same_type_less lf (PTime a) (PTime b) = time_less a b"
| "same_type_less lf a b = False"

definition prop_less :: "('f \<Rightarrow> 'f \<Rightarrow> bool) \<Rightarrow> 'f property \<Rightarrow> 'f property \<Rightarrow> bool result" where
  "prop_less lf a b = (if type_of a \<noteq> type_of b then Inl PropertyTypeMismatch else Inr (same_type_less lf a b))"

text \<open>The second operand of \<open>&&\<close> is evaluated only if the first one is true.\<close>

definition res_and :: "bool result \<Rightarrow> bool result \<Rightarrow> bool result" where
  "res_and p q = rbind p (\<lambda>b. if b then q else Inr False)"

definition res_not :: "bool result \<Rightarrow> bool result" where
  "res_not p = rbind p (\<lambda>b. Inr (\<not> b))"

definition prop_eq :: "('f \<Rightarrow> 'f \<Rightarrow> bool) \<Rightarrow> 'f property \<Rightarrow> 'f property \<Rightarrow> bool result" where
  "prop_eq lf a b = res_and (res_not (prop_less lf a b)) (res_not (prop_less lf b a))"

definition prop_ne :: "('f \<Rightarrow> 'f \<Rightarrow> bool) \<Rightarrow> 'f property \<Rightarrow> 'f property \<Rightarrow> bool result" where
  "prop_ne lf a b = res_not (prop_eq lf a b)"

definition prop_gt :: "('f \<Rightarrow> 'f \<Rightarrow> bool) \<Rightarrow> 'f property \<Rightarrow> 'f property \<Rightarrow> bool result" where
  "prop_gt lf a b = prop_less lf b a"

definition prop_le :: "('f \<Rightarrow> 'f \<Rightarrow> bool) \<Rightarrow> 'f property \<Rightarrow> 'f property \<Rightarrow> bool result" where
  "prop_le lf a b = res_not (prop_gt lf a b)"

definition prop_ge :: "('f \<Rightarrow> 'f \<Rightarrow> bool) \<Rightarrow> 'f property \<Rightarrow> 'f property \<Rightarrow> bool result" where
  "prop_ge lf a b = res_not (prop_less lf a b)"

section \<open>Predicates\<close>

record 'f predicate =
  pp_id :: u16
  pp_op :: op
  pp_v1 :: "'f property"
  pp_v2 :: "'f property"

datatype disposition = DontPass | Pass | Stop | PassStop | Prune | PassPrune

text \<open>\<open>PropertyFilter\<close>, on the properties of the node or edge.\<close>

definition predicate_holds :: "('f \<Rightarrow> 'f \<Rightarrow> bool) \<Rightarrow> 'f predicate \<Rightarrow> 'f property \<Rightarrow> bool result" where
  "predicate_holds lf pp v =
     (let a = pp_v1 pp; b = pp_v2 pp
      in case pp_op pp of
           DontCare \<Rightarrow> Inr True
         | Eq \<Rightarrow> prop_eq lf v a
         | Ne \<Rightarrow> prop_ne lf v a
         | Gt \<Rightarrow> prop_gt lf v a
         | Ge \<Rightarrow> prop_ge lf v a
         | Lt \<Rightarrow> prop_less lf v a
         | Le \<Rightarrow> prop_le lf v a
         | GeLe \<Rightarrow> res_and (prop_ge lf v a) (prop_le lf v b)
         | GeLt \<Rightarrow> res_and (prop_ge lf v a) (prop_less lf v b)
         | GtLe \<Rightarrow> res_and (prop_gt lf v a) (prop_le lf v b)
         | GtLt \<Rightarrow> res_and (prop_gt lf v a) (prop_less lf v b))"

definition property_filter :: "('f \<Rightarrow> 'f \<Rightarrow> bool) \<Rightarrow> 'f predicate \<Rightarrow> (u16 \<Rightarrow> 'f property option) \<Rightarrow> disposition result" where
  "property_filter lf pp props =
     (case props (pp_id pp) of
        None \<Rightarrow> Inr DontPass
      | Some v \<Rightarrow> rbind (predicate_holds lf pp v) (\<lambda>r. Inr (if r then Pass else DontPass)))"

section \<open>The filtering iterator\<close>

text \<open>
  A base iterator has three operations, \<open>bool\<close>, \<open>ref\<close> and \<open>next\<close>. \<open>fi_base\<close> is \<open>_base_impl\<close>, \<open>None\<close> after it was
  deleted. The scan returns what \<open>_next\<close> returns with the new state.
\<close>

record 's filter_it =
  fi_base :: "'s option"
  fi_done :: bool

partial_function (option) filter_scan ::
    "('s \<Rightarrow> bool) \<Rightarrow> ('s \<Rightarrow> 'a) \<Rightarrow> ('s \<Rightarrow> 's) \<Rightarrow> ('a \<Rightarrow> disposition result) \<Rightarrow> 's \<Rightarrow> (bool \<times> 's filter_it) result option" where
  "filter_scan alive see step f b =
     (if \<not> alive b then Some (Inr (False, \<lparr>fi_base = Some b, fi_done = False\<rparr>))
      else case f (see b) of
          Inl e \<Rightarrow> Some (Inl e)
        | Inr d \<Rightarrow>
            (if d = DontPass then filter_scan alive see step f (step b)
             else Some (if d = Pass then Inr (True, \<lparr>fi_base = Some b, fi_done = False\<rparr>)
               else if d = Stop then Inr (False, \<lparr>fi_base = None, fi_done = False\<rparr>)
               else if d = PassStop then Inr (True, \<lparr>fi_base = Some b, fi_done = True\<rparr>)
               else Inl NotImplemented)))"

definition filter_bool :: "('s \<Rightarrow> bool) \<Rightarrow> 's filter_it \<Rightarrow> bool" where
  "filter_bool alive it = (case fi_base it of None \<Rightarrow> False | Some b \<Rightarrow> alive b)"

definition filter_ref :: "('s \<Rightarrow> 'a) \<Rightarrow> 's filter_it \<Rightarrow> 'a result" where
  "filter_ref see it = (case fi_base it of None \<Rightarrow> Inl NullIterator | Some b \<Rightarrow> Inr (see b))"

text \<open>\<open>None\<close> is a deleted base iterator that is used, or a scan that does not end.\<close>

definition filter_next ::
    "('s \<Rightarrow> bool) \<Rightarrow> ('s \<Rightarrow> 'a) \<Rightarrow> ('s \<Rightarrow> 's) \<Rightarrow> ('a \<Rightarrow> disposition result) \<Rightarrow> 's filter_it \<Rightarrow> (bool \<times> 's filter_it) result option" where
  "filter_next alive see step f it =
     (if fi_done it then Some (Inr (False, it\<lparr>fi_base := None\<rparr>))
      else case fi_base it of None \<Rightarrow> None | Some b \<Rightarrow> filter_scan alive see step f (step b))"

text \<open>The loop over a filtering iterator: what it sees, or the exception that ends it.\<close>

partial_function (option) filter_seen ::
    "('s \<Rightarrow> bool) \<Rightarrow> ('s \<Rightarrow> 'a) \<Rightarrow> ('s \<Rightarrow> 's) \<Rightarrow> ('a \<Rightarrow> disposition result) \<Rightarrow> 's filter_it \<Rightarrow> ('a list \<times> pmgd_error option) option" where
  "filter_seen alive see step f it =
     (if \<not> filter_bool alive it then Some ([], None)
      else case filter_ref see it of
          Inl e \<Rightarrow> Some ([], Some e)
        | Inr x \<Rightarrow> Option.bind (filter_next alive see step f it) (\<lambda>r.
            case r of Inl e \<Rightarrow> Some ([x], Some e)
            | Inr (b, it1) \<Rightarrow>
                if b then Option.bind (filter_seen alive see step f it1) (\<lambda>(xs, e). Some (x # xs, e)) else Some ([x], None)))"

definition filter_all ::
    "('s \<Rightarrow> bool) \<Rightarrow> ('s \<Rightarrow> 'a) \<Rightarrow> ('s \<Rightarrow> 's) \<Rightarrow> ('a \<Rightarrow> disposition result) \<Rightarrow> 's \<Rightarrow> ('a list \<times> pmgd_error option) option" where
  "filter_all alive see step f b =
     Option.bind (filter_scan alive see step f b) (\<lambda>r.
       case r of Inl e \<Rightarrow> Some ([], Some e) | Inr (_, it) \<Rightarrow> filter_seen alive see step f it)"

section \<open>Filtering a list\<close>

fun filtered :: "('a \<Rightarrow> disposition result) \<Rightarrow> 'a list \<Rightarrow> 'a list \<times> pmgd_error option" where
  "filtered f [] = ([], None)"
| "filtered f (x # xs) =
     (case f x of
        Inl e \<Rightarrow> ([], Some e)
      | Inr DontPass \<Rightarrow> filtered f xs
      | Inr Pass \<Rightarrow> (let (ys, e) = filtered f xs in (x # ys, e))
      | Inr Stop \<Rightarrow> ([], None)
      | Inr PassStop \<Rightarrow> ([x], None)
      | Inr _ \<Rightarrow> ([], Some NotImplemented))"

text \<open>The list that a base iterator goes over.\<close>

fun goes_over :: "('s \<Rightarrow> bool) \<Rightarrow> ('s \<Rightarrow> 'a) \<Rightarrow> ('s \<Rightarrow> 's) \<Rightarrow> 's \<Rightarrow> 'a list \<Rightarrow> bool" where
  "goes_over alive see step b [] \<longleftrightarrow> \<not> alive b"
| "goes_over alive see step b (x # xs) \<longleftrightarrow> alive b \<and> see b = x \<and> goes_over alive see step (step b) xs"

lemma scan_then_seen:
  assumes "goes_over alive see step b xs"
  shows "\<exists>r. filter_scan alive see step f b = Some r \<and>
    (case r of
       Inl e \<Rightarrow> filtered f xs = ([], Some e)
     | Inr (c, it) \<Rightarrow> filter_seen alive see step f it = Some (filtered f xs) \<and> c = filter_bool alive it)"
  using assms
proof (induction xs arbitrary: b)
  case Nil
  then show ?case
    by (subst filter_scan.simps) (auto simp: filter_bool_def filter_seen.simps [of _ _ _ _ "\<lparr>fi_base = Some b, fi_done = False\<rparr>"])
next
  case (Cons x xs)
  then have b: "alive b" "see b = x" "goes_over alive see step (step b) xs" by simp_all
  show ?case
  proof (cases "f x")
    case (Inl e)
    then show ?thesis using b by (subst filter_scan.simps) simp
  next
    case (Inr d)
    show ?thesis
    proof (cases d)
      case DontPass
      then have sc: "filter_scan alive see step f b = filter_scan alive see step f (step b)" using b Inr by (subst filter_scan.simps) simp
      have fl: "filtered f (x # xs) = filtered f xs" using Inr DontPass by simp
      show ?thesis unfolding sc fl by (rule Cons.IH [OF b(3)])
    next
      case Pass
      let ?it = "\<lparr>fi_base = Some b, fi_done = False\<rparr>"
      have sc: "filter_scan alive see step f b = Some (Inr (True, ?it))" using b Inr Pass by (subst filter_scan.simps) simp
      obtain r where r: "filter_scan alive see step f (step b) = Some r"
        "case r of Inl e \<Rightarrow> filtered f xs = ([], Some e)
         | Inr (c, it) \<Rightarrow> filter_seen alive see step f it = Some (filtered f xs) \<and> c = filter_bool alive it"
        using Cons.IH [OF b(3)] by blast
      have "filter_seen alive see step f ?it = Some (filtered f (x # xs))"
      proof (cases r)
        case (Inl e)
        then show ?thesis using r b Inr Pass
          by (subst filter_seen.simps) (simp add: filter_bool_def filter_ref_def filter_next_def)
      next
        case R: (Inr p)
        obtain c it where p: "p = (c, it)" by fastforce
        have s: "filter_seen alive see step f it = Some (filtered f xs)" "c = filter_bool alive it" using r R p by simp_all
        have e: "\<not> filter_bool alive it \<Longrightarrow> filtered f xs = ([], None)" using s by (subst (asm) filter_seen.simps) simp
        show ?thesis
          by (subst filter_seen.simps)
            (use r(1) R p s e b Inr Pass in \<open>auto simp: filter_bool_def filter_ref_def filter_next_def split: prod.splits\<close>)
      qed
      then show ?thesis using sc b by (simp add: filter_bool_def)
    next
      case Stop
      then show ?thesis using b Inr
        by (subst filter_scan.simps) (simp add: filter_bool_def filter_seen.simps [of _ _ _ _ "\<lparr>fi_base = None, fi_done = False\<rparr>"])
    next
      case PassStop
      then show ?thesis using b Inr
        by (subst filter_scan.simps) (simp add: filter_bool_def filter_ref_def filter_next_def
            filter_seen.simps [of _ _ _ _ "\<lparr>fi_base = Some b, fi_done = True\<rparr>"])
    qed (use b Inr in \<open>subst filter_scan.simps, simp\<close>)+
  qed
qed

lemma all_filtered:
  assumes "goes_over alive see step b xs"
  shows "filter_all alive see step f b = Some (filtered f xs)"
proof -
  obtain r where r: "filter_scan alive see step f b = Some r"
    "case r of Inl e \<Rightarrow> filtered f xs = ([], Some e)
     | Inr (c, it) \<Rightarrow> filter_seen alive see step f it = Some (filtered f xs) \<and> c = filter_bool alive it"
    using scan_then_seen [OF assms, of f] by blast
  then show ?thesis by (cases r) (auto simp: filter_all_def)
qed

text \<open>
  A filtering iterator over a base iterator that goes over a list ends, and sees what the function lets
  pass of the list, in order: up to the element at which the function says stop, which is still seen if it
  says to pass it as well, or up to the exception that the function throws.
\<close>

theorem filter_sees_filtered:
  assumes "goes_over alive see step b xs"
  shows "filter_all alive see step f b = Some (filtered f xs)"
  by (rule all_filtered [OF assms])

text \<open>A chain of list cells is such a base iterator.\<close>

lemma chain_goes_over:
  "links m p as \<Longrightarrow> goes_over (\<lambda>p. p \<noteq> 0) (\<lambda>p. cell_value (m p)) (\<lambda>p. cell_next (m p)) p (cell_contents m as)"
  by (induction as arbitrary: p) auto

definition ex_chain :: "addr \<Rightarrow> int cell" where
  "ex_chain = (\<lambda>p. if p = 64 then \<lparr>cell_value = 5, cell_next = 96\<rparr> else if p = 96 then \<lparr>cell_value = 8, cell_next = 128\<rparr>
     else \<lparr>cell_value = 9, cell_next = 0\<rparr>)"

lemma filter_sees_filtered_witness:
  "filter_all (\<lambda>p. p \<noteq> 0) (\<lambda>p. cell_value (ex_chain p)) (\<lambda>p. cell_next (ex_chain p))
     (\<lambda>i. Inr (if i = 8 then PassStop else if i < 6 then DontPass else Pass)) 64 = Some ([8], None)"
proof -
  have "links ex_chain 64 [64, 96, 128]" by (simp add: ex_chain_def)
  from filter_sees_filtered [OF chain_goes_over [OF this], of "\<lambda>i. Inr (if i = 8 then PassStop else if i < 6 then DontPass else Pass)"]
  show ?thesis by (simp add: ex_chain_def)
qed

section \<open>What predicates let pass\<close>

fun satisfies :: "('v \<Rightarrow> 'v \<Rightarrow> bool) \<Rightarrow> op \<Rightarrow> 'v \<Rightarrow> 'v \<Rightarrow> 'v \<Rightarrow> bool" where
  "satisfies lt DontCare v a b = True"
| "satisfies lt Eq v a b = (\<not> lt v a \<and> \<not> lt a v)"
| "satisfies lt Ne v a b = (lt v a \<or> lt a v)"
| "satisfies lt Gt v a b = lt a v"
| "satisfies lt Ge v a b = (\<not> lt v a)"
| "satisfies lt Lt v a b = lt v a"
| "satisfies lt Le v a b = (\<not> lt a v)"
| "satisfies lt GeLe v a b = (\<not> lt v a \<and> \<not> lt b v)"
| "satisfies lt GeLt v a b = (\<not> lt v a \<and> lt v b)"
| "satisfies lt GtLe v a b = (lt a v \<and> \<not> lt b v)"
| "satisfies lt GtLt v a b = (lt a v \<and> lt v b)"

lemma predicate_holds_ok:
  assumes "type_of v = type_of (pp_v1 pp)" "type_of v = type_of (pp_v2 pp)"
  shows "predicate_holds lf pp v = Inr (satisfies (same_type_less lf) (pp_op pp) v (pp_v1 pp) (pp_v2 pp))"
  using assms
  by (cases "pp_op pp")
    (auto simp: predicate_holds_def prop_eq_def prop_ne_def prop_gt_def prop_le_def prop_ge_def prop_less_def res_and_def res_not_def Let_def)

lemma predicate_mismatch:
  assumes "type_of v \<noteq> type_of (pp_v1 pp)" "pp_op pp \<noteq> DontCare"
  shows "predicate_holds lf pp v = Inl PropertyTypeMismatch"
  using assms
  by (cases "pp_op pp")
    (auto simp: predicate_holds_def prop_eq_def prop_ne_def prop_gt_def prop_le_def prop_ge_def prop_less_def res_and_def res_not_def Let_def)

lemma filtered_pass:
  assumes "\<And>x. x \<in> set xs \<Longrightarrow> f x = Inr (if Q x then Pass else DontPass)"
  shows "filtered f (xs @ ys) = (let (zs, e) = filtered f ys in (filter Q xs @ zs, e))"
  using assms by (induction xs) (auto simp: split_beta Let_def)

definition selects :: "('f \<Rightarrow> 'f \<Rightarrow> bool) \<Rightarrow> 'f predicate \<Rightarrow> (u16 \<Rightarrow> 'f property option) \<Rightarrow> bool" where
  "selects lf pp props =
     (case props (pp_id pp) of None \<Rightarrow> False
      | Some v \<Rightarrow> satisfies (same_type_less lf) (pp_op pp) v (pp_v1 pp) (pp_v2 pp))"

definition comparable :: "'f predicate \<Rightarrow> (u16 \<Rightarrow> 'f property option) \<Rightarrow> bool" where
  "comparable pp props =
     (case props (pp_id pp) of None \<Rightarrow> True | Some v \<Rightarrow> type_of v = type_of (pp_v1 pp) \<and> type_of v = type_of (pp_v2 pp))"

text \<open>
  Filtering the nodes or edges of an iterator by a predicate selects exactly those that have the property
  with a value in the relation or the range, in order; at the first value of another type than that of the
  predicate the iteration ends with the exception for it.
\<close>

theorem predicate_filter_selects:
  assumes "goes_over alive see step b (us @ vs)" "\<forall>x\<in>set us. comparable pp (props x)"
    and "\<forall>x ws. vs = x # ws \<longrightarrow> (\<exists>v. props x (pp_id pp) = Some v \<and> type_of v \<noteq> type_of (pp_v1 pp)) \<and> pp_op pp \<noteq> DontCare"
  shows "filter_all alive see step (\<lambda>x. property_filter lf pp (props x)) b =
    Some (filter (\<lambda>x. selects lf pp (props x)) us, if vs = [] then None else Some PropertyTypeMismatch)"
proof -
  let ?f = "\<lambda>x. property_filter lf pp (props x)"
  have p: "?f x = Inr (if selects lf pp (props x) then Pass else DontPass)" if "x \<in> set us" for x
    using assms(2) that
    by (auto simp: property_filter_def selects_def comparable_def predicate_holds_ok split: option.splits)
  have e: "filtered ?f vs = ([], if vs = [] then None else Some PropertyTypeMismatch)"
  proof (cases vs)
    case (Cons x ws)
    then obtain v where "props x (pp_id pp) = Some v" "type_of v \<noteq> type_of (pp_v1 pp)" "pp_op pp \<noteq> DontCare" using assms(3) by blast
    then show ?thesis using Cons predicate_mismatch [of v pp lf] by (simp add: property_filter_def)
  qed simp
  have "filter_all alive see step ?f b = Some (filtered ?f (us @ vs))"
    by (rule all_filtered [OF assms(1)])
  then show ?thesis using filtered_pass [of us ?f "\<lambda>x. selects lf pp (props x)" vs, OF p] e by simp
qed

definition ex_predicate :: "int predicate" where
  "ex_predicate = \<lparr>pp_id = 3, pp_op = GeLt, pp_v1 = PInt 6, pp_v2 = PInt 9\<rparr>"

lemma predicate_filter_selects_witness:
  "filter_all (\<lambda>p. p \<noteq> 0) (\<lambda>p. cell_value (ex_chain p)) (\<lambda>p. cell_next (ex_chain p))
     (\<lambda>i. property_filter (<) ex_predicate [3 \<mapsto> if i = 9 then PBool True else PInt i]) 64 = Some ([8], Some PropertyTypeMismatch)"
proof -
  have "links ex_chain 64 [64, 96, 128]" by (simp add: ex_chain_def)
  from chain_goes_over [OF this]
  have g: "goes_over (\<lambda>p. p \<noteq> 0) (\<lambda>p. cell_value (ex_chain p)) (\<lambda>p. cell_next (ex_chain p)) 64 ([5, 8] @ [9])"
    by (simp add: ex_chain_def)
  show ?thesis
    by (subst predicate_filter_selects [OF g]) (simp_all add: comparable_def selects_def ex_predicate_def)
qed

end
