(* ===== verification/Typed_Index.thy ===== *)
theory Typed_Index
  imports Index_Calls Property_Filter
begin

text \<open>
  \<open>src/Index.cc\<close>: the index of a property, whose type chooses the tree, and the type errors. Floating point keys
  are a parameter, ordered linearly (no value of it is a NaN). Each call has an environment, which says which of its
  locks time out and what the allocator returns or throws. Strings are keyed by their bytes under
  \<open>std::collate::transform\<close>, a parameter, times by their number. An index stands for a map from keys to
  sequences of objects, for all types at once.
\<close>

section \<open>The typed index\<close>

text \<open>\<open>BaseIndex\<close> is an \<open>Index\<close> with a type that has no tree.\<close>

datatype 'f index =
    IntIndex "int value_index"
  | FloatIndex "'f value_index"
  | BoolIndex "bool value_index"
  | TimeIndex "int value_index"
  | StringIndex "u8 list value_index"
  | BaseIndex property_type

fun index_ptype :: "'f index \<Rightarrow> property_type" where
  "index_ptype (IntIndex s) = Integer"
| "index_ptype (FloatIndex s) = Float"
| "index_ptype (BoolIndex s) = Boolean"
| "index_ptype (TimeIndex s) = TimeType"
| "index_ptype (StringIndex s) = String"
| "index_ptype (BaseIndex t) = t"

definition time_key :: "ptime \<Rightarrow> int" where
  "time_key t = sint (pt_val t)"

definition no_tree :: "property_type \<Rightarrow> pmgd_error" where
  "no_tree t = (if t = NoValue then NotImplemented else PropertyTypeInvalid)"

text \<open>The result of an operation on the tree, in the index again.\<close>

definition typed :: "('s \<Rightarrow> 'f index) \<Rightarrow> (unit result \<times> 's) option \<Rightarrow> (unit result \<times> 'f index) option" where
  "typed C = map_option (\<lambda>(r, s). (r, C s))"

definition index_add ::
    "index_env \<Rightarrow> (u8 list \<Rightarrow> u8 list) \<Rightarrow> 'f::linorder property \<Rightarrow> addr \<Rightarrow> 'f index \<Rightarrow> (unit result \<times> 'f index) option" where
  "index_add ie coll p obj idx =
     (if index_ptype idx \<noteq> type_of p then Some (Inl PropertyTypeMismatch, idx)
      else case (idx, p) of
          (IntIndex s, PInt i) \<Rightarrow> typed IntIndex (vi_add_call ie i obj s)
        | (FloatIndex s, PFloat x) \<Rightarrow> typed FloatIndex (vi_add_call ie x obj s)
        | (BoolIndex s, PBool b) \<Rightarrow> typed BoolIndex (vi_add_call ie b obj s)
        | (TimeIndex s, PTime t) \<Rightarrow> typed TimeIndex (vi_add_call ie (time_key t) obj s)
        | (StringIndex s, PString str) \<Rightarrow> typed StringIndex (vi_add_call ie (coll str) obj s)
        | _ \<Rightarrow> Some (Inl (no_tree (index_ptype idx)), idx))"

definition index_remove ::
    "index_env \<Rightarrow> (u8 list \<Rightarrow> u8 list) \<Rightarrow> 'f::linorder property \<Rightarrow> addr \<Rightarrow> 'f index \<Rightarrow> (unit result \<times> 'f index) option" where
  "index_remove ie coll p obj idx =
     (if index_ptype idx \<noteq> type_of p then Some (Inl PropertyTypeMismatch, idx)
      else case (idx, p) of
          (IntIndex s, PInt i) \<Rightarrow> typed IntIndex (vi_remove_call ie i obj s)
        | (FloatIndex s, PFloat x) \<Rightarrow> typed FloatIndex (vi_remove_call ie x obj s)
        | (BoolIndex s, PBool b) \<Rightarrow> typed BoolIndex (vi_remove_call ie b obj s)
        | (TimeIndex s, PTime t) \<Rightarrow> typed TimeIndex (vi_remove_call ie (time_key t) obj s)
        | (StringIndex s, PString str) \<Rightarrow> typed StringIndex (vi_remove_call ie (coll str) obj s)
        | _ \<Rightarrow> Some (Inl (no_tree (index_ptype idx)), idx))"

definition check_type :: "property_type \<Rightarrow> 'f index \<Rightarrow> unit result" where
  "check_type t idx = (if index_ptype idx \<noteq> t then Inl PropertyTypeMismatch else Inr ())"

section \<open>The map an index stands for\<close>

datatype 'f key = KInt int | KFloat 'f | KBool bool | KTime int | KString "u8 list"

fun key_of :: "(u8 list \<Rightarrow> u8 list) \<Rightarrow> 'f property \<Rightarrow> 'f key option" where
  "key_of coll (PInt i) = Some (KInt i)"
| "key_of coll (PFloat x) = Some (KFloat x)"
| "key_of coll (PBool b) = Some (KBool b)"
| "key_of coll (PTime t) = Some (KTime (time_key t))"
| "key_of coll (PString s) = Some (KString (coll s))"
| "key_of coll _ = None"

definition tree_ok :: "('k::linorder \<Rightarrow> 'f key) \<Rightarrow> 'k value_index \<Rightarrow> ('f key \<rightharpoonup> addr list) \<Rightarrow> bool" where
  "tree_ok mk s M \<longleftrightarrow> vi_ok s (\<lambda>k. M (mk k)) \<and> dom M \<subseteq> range mk"

fun index_ok :: "'f::linorder index \<Rightarrow> ('f key \<rightharpoonup> addr list) \<Rightarrow> bool" where
  "index_ok (IntIndex s) M = tree_ok KInt s M"
| "index_ok (FloatIndex s) M = tree_ok KFloat s M"
| "index_ok (BoolIndex s) M = tree_ok KBool s M"
| "index_ok (TimeIndex s) M = tree_ok KTime s M"
| "index_ok (StringIndex s) M = tree_ok KString s M"
| "index_ok (BaseIndex t) M = (M = Map.empty \<and> t \<in> {NoValue, Blob})"

text \<open>\<open>remove\<close> can leave a stale height, so balance is not part of what is kept.\<close>

fun index_balanced :: "'f::linorder index \<Rightarrow> bool" where
  "index_balanced (IntIndex s) = avl_ok (vi_tree s)"
| "index_balanced (FloatIndex s) = avl_ok (vi_tree s)"
| "index_balanced (BoolIndex s) = avl_ok (vi_tree s)"
| "index_balanced (TimeIndex s) = avl_ok (vi_tree s)"
| "index_balanced (StringIndex s) = avl_ok (vi_tree s)"
| "index_balanced (BaseIndex t) = True"

fun index_nodes :: "'f index \<Rightarrow> addr set" where
  "index_nodes (IntIndex s) = addrs (vi_tree s)"
| "index_nodes (FloatIndex s) = addrs (vi_tree s)"
| "index_nodes (BoolIndex s) = addrs (vi_tree s)"
| "index_nodes (TimeIndex s) = addrs (vi_tree s)"
| "index_nodes (StringIndex s) = addrs (vi_tree s)"
| "index_nodes (BaseIndex t) = {}"

fun index_room :: "'f index \<Rightarrow> addr list" where
  "index_room (IntIndex s) = lh_supply (vi_lists s)"
| "index_room (FloatIndex s) = lh_supply (vi_lists s)"
| "index_room (BoolIndex s) = lh_supply (vi_lists s)"
| "index_room (TimeIndex s) = lh_supply (vi_lists s)"
| "index_room (StringIndex s) = lh_supply (vi_lists s)"
| "index_room (BaseIndex t) = []"

definition map_add_obj :: "'k \<Rightarrow> addr \<Rightarrow> ('k \<rightharpoonup> addr list) \<Rightarrow> ('k \<rightharpoonup> addr list)" where
  "map_add_obj k obj M = M(k \<mapsto> obj # (case M k of None \<Rightarrow> [] | Some xs \<Rightarrow> xs))"

definition map_remove_obj :: "'k \<Rightarrow> addr \<Rightarrow> ('k \<rightharpoonup> addr list) \<Rightarrow> ('k \<rightharpoonup> addr list)" where
  "map_remove_obj k obj M =
     M(k := case M k of None \<Rightarrow> None
       | Some xs \<Rightarrow> if del_first ((=) obj) xs = [] then None else Some (del_first ((=) obj) xs))"

lemma map_obj_inj:
  assumes "inj mk"
  shows "(\<lambda>x. map_add_obj (mk k) obj M (mk x)) = map_add_obj k obj (\<lambda>x. M (mk x))"
    "(\<lambda>x. map_remove_obj (mk k) obj M (mk x)) = map_remove_obj k obj (\<lambda>x. M (mk x))"
  using assms by (auto simp: map_add_obj_def map_remove_obj_def fun_eq_iff inj_eq)

lemma map_obj_dom:
  "dom M \<subseteq> range mk \<Longrightarrow> dom (map_add_obj (mk k) obj M) \<subseteq> range mk" "dom M \<subseteq> range mk \<Longrightarrow> dom (map_remove_obj (mk k) obj M) \<subseteq> range mk"
  by (auto simp: map_add_obj_def map_remove_obj_def dom_def split: if_splits)

text \<open>What a failed call may have thrown, and what it leaves.\<close>

definition add_failed :: "index_env \<Rightarrow> bool \<Rightarrow> bool \<Rightarrow> bool \<Rightarrow> pmgd_error \<Rightarrow> bool" where
  "add_failed ie new no_cell same e \<longleftrightarrow>
     e = LockTimeout \<and> lock_timeout ie \<and> same \<or> ie_node ie = Inl e \<and> new \<and> same \<or> ie_cell ie = Some e \<or> e = BadAlloc \<and> no_cell"

definition remove_failed :: "index_env \<Rightarrow> bool \<Rightarrow> bool \<Rightarrow> pmgd_error \<Rightarrow> bool" where
  "remove_failed ie emptied same e \<longleftrightarrow> e = LockTimeout \<and> lock_timeout ie \<and> (same \<or> emptied)"

lemma tree_add:
  assumes "tree_ok mk s M" "inj mk" "avl_ok (vi_tree s)" "node_fresh ie (addrs (vi_tree s))"
  shows "\<exists>r s'. typed C (vi_add_call ie k obj s) = Some (r, C s') \<and>
    (case r of Inl e \<Rightarrow> add_failed ie (M (mk k) = None) (lh_supply (vi_lists s) = []) (s' = s) e
     | Inr _ \<Rightarrow> avl_ok (vi_tree s') \<and> tree_ok mk s' (map_add_obj (mk k) obj M))"
proof -
  have ok: "vi_ok s (\<lambda>x. M (mk x))" and d: "dom M \<subseteq> range mk" using assms(1) by (simp_all add: tree_ok_def)
  obtain r :: "unit result" and s' where r: "vi_add_call ie k obj s = Some (r, s')" "case r of
       Inl e \<Rightarrow> e = LockTimeout \<and> lock_timeout ie \<and> s' = s \<or> ie_node ie = Inl e \<and> M (mk k) = None \<and> s' = s \<or>
         ie_cell ie = Some e \<or> e = BadAlloc \<and> lh_supply (vi_lists s) = []
     | Inr _ \<Rightarrow> avl_ok (vi_tree s') \<and> vi_ok s' ((\<lambda>x. M (mk x))(k \<mapsto> obj # (case M (mk k) of None \<Rightarrow> [] | Some xs \<Rightarrow> xs)))"
    using vi_add_call_ok [OF ok assms(3, 4), of k obj] by (elim exE conjE) (rule that)
  have "(\<lambda>x. M (mk x))(k \<mapsto> obj # (case M (mk k) of None \<Rightarrow> [] | Some xs \<Rightarrow> xs)) = (\<lambda>x. map_add_obj (mk k) obj M (mk x))"
    unfolding map_obj_inj [OF assms(2)] by (simp add: map_add_obj_def)
  then show ?thesis using r map_obj_dom(1) [OF d] by (cases r) (auto simp: typed_def tree_ok_def add_failed_def)
qed

lemma tree_remove:
  assumes "tree_ok mk s M" "inj mk" "avl_ok (vi_tree s)"
  shows "\<exists>r s'. typed C (vi_remove_call ie k obj s) = Some (r, C s') \<and>
    (case r of Inl e \<Rightarrow> remove_failed ie (map_remove_obj (mk k) obj M (mk k) = None) (s' = s) e
     | Inr _ \<Rightarrow> tree_ok mk s' (map_remove_obj (mk k) obj M))"
proof -
  have ok: "vi_ok s (\<lambda>x. M (mk x))" and d: "dom M \<subseteq> range mk" using assms(1) by (simp_all add: tree_ok_def)
  obtain r :: "unit result" and s' where r: "vi_remove_call ie k obj s = Some (r, s')" "case r of
       Inl e \<Rightarrow> e = LockTimeout \<and> lock_timeout ie \<and> (s' = s \<or> (\<exists>xs. M (mk k) = Some xs \<and> del_first ((=) obj) xs = []))
     | Inr _ \<Rightarrow> vi_ok s' ((\<lambda>x. M (mk x))(k := case M (mk k) of None \<Rightarrow> None
         | Some xs \<Rightarrow> if del_first ((=) obj) xs = [] then None else Some (del_first ((=) obj) xs)))"
    using vi_remove_call_ok [OF ok assms(3), of ie k obj] by (elim exE conjE) (rule that)
  have "(\<lambda>x. M (mk x))(k := case M (mk k) of None \<Rightarrow> None
      | Some xs \<Rightarrow> if del_first ((=) obj) xs = [] then None else Some (del_first ((=) obj) xs)) = (\<lambda>x. map_remove_obj (mk k) obj M (mk x))"
    unfolding map_obj_inj [OF assms(2)] by (simp add: map_remove_obj_def)
  then show ?thesis using r map_obj_dom(2) [OF d]
    by (cases r) (auto simp: typed_def tree_ok_def remove_failed_def map_remove_obj_def)
qed

lemma inj_keys: "inj KInt" "inj KFloat" "inj KBool" "inj KTime" "inj KString"
  by (simp_all add: inj_def)

lemmas tree_adds = tree_add [OF _ inj_keys(1)] tree_add [OF _ inj_keys(2)] tree_add [OF _ inj_keys(3)] tree_add [OF _ inj_keys(4)]
  tree_add [OF _ inj_keys(5)]

lemmas tree_removes = tree_remove [OF _ inj_keys(1)] tree_remove [OF _ inj_keys(2)] tree_remove [OF _ inj_keys(3)]
  tree_remove [OF _ inj_keys(4)] tree_remove [OF _ inj_keys(5)]

section \<open>The operations\<close>

lemma ex_typed: "\<exists>r s'. A = Some (r, C s') \<and> R r s' \<Longrightarrow> (\<And>r s'. R r s' \<Longrightarrow> Q r (C s')) \<Longrightarrow> \<exists>r x. A = Some (r, x) \<and> Q r x"
  by blast

lemma index_add_ok:
  assumes "index_ok idx M" "index_balanced idx" "node_fresh ie (index_nodes idx)" "index_ptype idx = type_of p" "key_of coll p = Some k"
  shows "\<exists>r idx'. index_add ie coll p obj idx = Some (r, idx') \<and> index_ptype idx' = index_ptype idx \<and>
    (case r of Inl e \<Rightarrow> add_failed ie (M k = None) (index_room idx = []) (idx' = idx) e
     | Inr _ \<Rightarrow> index_balanced idx' \<and> index_ok idx' (map_add_obj k obj M))"
proof (cases idx)
  case (IntIndex s)
  then obtain x where p: "p = PInt x" "k = KInt x" using assms by (cases p) auto
  have e: "index_add ie coll p obj idx = typed IntIndex (vi_add_call ie x obj s)" using p IntIndex by (simp add: index_add_def)
  show ?thesis unfolding e by (rule ex_typed [OF tree_adds(1) [where s = s and M = M and ie = ie and C = IntIndex and k = "x" and obj = obj]]) (use assms p IntIndex in \<open>auto split: sum.splits\<close>)
next
  case (FloatIndex s)
  then obtain x where p: "p = PFloat x" "k = KFloat x" using assms by (cases p) auto
  have e: "index_add ie coll p obj idx = typed FloatIndex (vi_add_call ie x obj s)" using p FloatIndex by (simp add: index_add_def)
  show ?thesis unfolding e by (rule ex_typed [OF tree_adds(2) [where s = s and M = M and ie = ie and C = FloatIndex and k = "x" and obj = obj]]) (use assms p FloatIndex in \<open>auto split: sum.splits\<close>)
next
  case (BoolIndex s)
  then obtain x where p: "p = PBool x" "k = KBool x" using assms by (cases p) auto
  have e: "index_add ie coll p obj idx = typed BoolIndex (vi_add_call ie x obj s)" using p BoolIndex by (simp add: index_add_def)
  show ?thesis unfolding e by (rule ex_typed [OF tree_adds(3) [where s = s and M = M and ie = ie and C = BoolIndex and k = "x" and obj = obj]]) (use assms p BoolIndex in \<open>auto split: sum.splits\<close>)
next
  case (TimeIndex s)
  then obtain x where p: "p = PTime x" "k = KTime (time_key x)" using assms by (cases p) auto
  have e: "index_add ie coll p obj idx = typed TimeIndex (vi_add_call ie (time_key x) obj s)" using p TimeIndex by (simp add: index_add_def)
  show ?thesis unfolding e by (rule ex_typed [OF tree_adds(4) [where s = s and M = M and ie = ie and C = TimeIndex and k = "time_key x" and obj = obj]]) (use assms p TimeIndex in \<open>auto split: sum.splits\<close>)
next
  case (StringIndex s)
  then obtain x where p: "p = PString x" "k = KString (coll x)" using assms by (cases p) auto
  have e: "index_add ie coll p obj idx = typed StringIndex (vi_add_call ie (coll x) obj s)" using p StringIndex by (simp add: index_add_def)
  show ?thesis unfolding e by (rule ex_typed [OF tree_adds(5) [where s = s and M = M and ie = ie and C = StringIndex and k = "coll x" and obj = obj]]) (use assms p StringIndex in \<open>auto split: sum.splits\<close>)
next
  case (BaseIndex t)
  then show ?thesis using assms by (cases p) auto
qed

lemma index_remove_ok:
  assumes "index_ok idx M" "index_balanced idx" "index_ptype idx = type_of p" "key_of coll p = Some k"
  shows "\<exists>r idx'. index_remove ie coll p obj idx = Some (r, idx') \<and> index_ptype idx' = index_ptype idx \<and>
    (case r of Inl e \<Rightarrow> remove_failed ie (map_remove_obj k obj M k = None) (idx' = idx) e
     | Inr _ \<Rightarrow> index_ok idx' (map_remove_obj k obj M))"
proof (cases idx)
  case (IntIndex s)
  then obtain x where p: "p = PInt x" "k = KInt x" using assms by (cases p) auto
  have e: "index_remove ie coll p obj idx = typed IntIndex (vi_remove_call ie x obj s)" using p IntIndex by (simp add: index_remove_def)
  show ?thesis unfolding e by (rule ex_typed [OF tree_removes(1) [where s = s and M = M and ie = ie and C = IntIndex and k = "x" and obj = obj]]) (use assms p IntIndex in \<open>auto split: sum.splits\<close>)
next
  case (FloatIndex s)
  then obtain x where p: "p = PFloat x" "k = KFloat x" using assms by (cases p) auto
  have e: "index_remove ie coll p obj idx = typed FloatIndex (vi_remove_call ie x obj s)" using p FloatIndex by (simp add: index_remove_def)
  show ?thesis unfolding e by (rule ex_typed [OF tree_removes(2) [where s = s and M = M and ie = ie and C = FloatIndex and k = "x" and obj = obj]]) (use assms p FloatIndex in \<open>auto split: sum.splits\<close>)
next
  case (BoolIndex s)
  then obtain x where p: "p = PBool x" "k = KBool x" using assms by (cases p) auto
  have e: "index_remove ie coll p obj idx = typed BoolIndex (vi_remove_call ie x obj s)" using p BoolIndex by (simp add: index_remove_def)
  show ?thesis unfolding e by (rule ex_typed [OF tree_removes(3) [where s = s and M = M and ie = ie and C = BoolIndex and k = "x" and obj = obj]]) (use assms p BoolIndex in \<open>auto split: sum.splits\<close>)
next
  case (TimeIndex s)
  then obtain x where p: "p = PTime x" "k = KTime (time_key x)" using assms by (cases p) auto
  have e: "index_remove ie coll p obj idx = typed TimeIndex (vi_remove_call ie (time_key x) obj s)" using p TimeIndex by (simp add: index_remove_def)
  show ?thesis unfolding e by (rule ex_typed [OF tree_removes(4) [where s = s and M = M and ie = ie and C = TimeIndex and k = "time_key x" and obj = obj]]) (use assms p TimeIndex in \<open>auto split: sum.splits\<close>)
next
  case (StringIndex s)
  then obtain x where p: "p = PString x" "k = KString (coll x)" using assms by (cases p) auto
  have e: "index_remove ie coll p obj idx = typed StringIndex (vi_remove_call ie (coll x) obj s)" using p StringIndex by (simp add: index_remove_def)
  show ?thesis unfolding e by (rule ex_typed [OF tree_removes(5) [where s = s and M = M and ie = ie and C = StringIndex and k = "coll x" and obj = obj]]) (use assms p StringIndex in \<open>auto split: sum.splits\<close>)
next
  case (BaseIndex t)
  then show ?thesis using assms by (cases p) auto
qed

lemma index_errors:
  "index_ptype idx \<noteq> type_of p \<Longrightarrow> index_add ie coll p obj idx = Some (Inl PropertyTypeMismatch, idx)"
  "index_ptype idx \<noteq> type_of p \<Longrightarrow> index_remove ie coll p obj idx = Some (Inl PropertyTypeMismatch, idx)"
  "index_ok idx M \<Longrightarrow> index_ptype idx = type_of p \<Longrightarrow> key_of coll p = None \<Longrightarrow>
     index_add ie coll p obj idx = Some (Inl (no_tree (type_of p)), idx) \<and>
     index_remove ie coll p obj idx = Some (Inl (no_tree (type_of p)), idx)"
  by (cases idx; cases p; auto simp: index_add_def index_remove_def)+

text \<open>
  C20. On an index of any property type that stands for a map from values to sequences of objects, and whose
  tree is balanced: \<open>add\<close> either puts the object in front of the value's sequence, and keeps the balance, or
  throws what a lock or the allocator throws; when that is a lock of the tree or the node of a new value,
  nothing has changed. \<open>remove\<close> either deletes the object's first occurrence and an empty sequence, or throws
  \<open>LockTimeout\<close>, before any change or when the sequence has become empty. A value of another type throws and
  changes nothing, as does a value of a type that has no trees. \<open>remove\<close> may lose the balance of the tree,
  so that this is about a call, not about any run of calls.
\<close>

theorem typed_index_refines_map:
  assumes "index_ok idx M" "index_balanced idx" "node_fresh ie (index_nodes idx)"
  shows "if index_ptype idx \<noteq> type_of p
    then index_add ie coll p obj idx = Some (Inl PropertyTypeMismatch, idx) \<and>
      index_remove ie coll p obj idx = Some (Inl PropertyTypeMismatch, idx)
    else case key_of coll p of
        None \<Rightarrow> index_add ie coll p obj idx = Some (Inl (no_tree (type_of p)), idx) \<and>
          index_remove ie coll p obj idx = Some (Inl (no_tree (type_of p)), idx)
      | Some k \<Rightarrow>
          (\<exists>r idx'. index_add ie coll p obj idx = Some (r, idx') \<and>
             (case r of Inl e \<Rightarrow> add_failed ie (M k = None) (index_room idx = []) (idx' = idx) e
              | Inr _ \<Rightarrow> index_balanced idx' \<and> index_ok idx' (map_add_obj k obj M))) \<and>
          (\<exists>r idx'. index_remove ie coll p obj idx = Some (r, idx') \<and>
             (case r of Inl e \<Rightarrow> remove_failed ie (map_remove_obj k obj M k = None) (idx' = idx) e
              | Inr _ \<Rightarrow> index_ok idx' (map_remove_obj k obj M)))"
proof (cases "index_ptype idx = type_of p")
  case False
  then show ?thesis using index_errors(1) [OF False] index_errors(2) [OF False] by simp
next
  case True
  show ?thesis
  proof (cases "key_of coll p")
    case None
    then show ?thesis using True index_errors(3) [OF assms(1) True] by simp
  next
    case (Some k)
    then show ?thesis
      using True index_add_ok [OF assms True Some, of obj] index_remove_ok [OF assms(1, 2) True Some, of ie obj] by simp blast
  qed
qed

definition ex_int_index :: "int index" where
  "ex_int_index = IntIndex ex_values"

definition ex_int_map :: "int key \<Rightarrow> addr list option" where
  "ex_int_map k = (case k of KInt i \<Rightarrow> if i = 3 then Some [31, 32] else if i = 5 then Some [51] else None | _ \<Rightarrow> None)"

lemma ex_int_index_ok: "index_ok ex_int_index ex_int_map" "index_balanced ex_int_index" "192 \<notin> index_nodes ex_int_index"
proof -
  have "(\<lambda>i. ex_int_map (KInt i)) = [3 \<mapsto> [31, 32], 5 \<mapsto> [51]]" by (auto simp: ex_int_map_def)
  moreover have "dom ex_int_map \<subseteq> range KInt" by (auto simp: ex_int_map_def split: key.splits)
  ultimately show "index_ok ex_int_index ex_int_map" using ex_values_ok by (simp add: ex_int_index_def tree_ok_def)
  show "index_balanced ex_int_index" "192 \<notin> index_nodes ex_int_index" by (simp_all add: ex_int_index_def ex_values_def)
qed

definition granted :: "addr \<Rightarrow> index_env" where
  "granted n = \<lparr>ie_wl = (\<lambda>_. False), ie_timeout = (\<lambda>_. False), ie_node = Inr n, ie_cell = None\<rparr>"

lemma granted_simps [simp]:
  "\<not> lock_timeout (granted n)" "quiet (granted n)" "ie_node (granted n) = Inr n" "ie_cell (granted n) = None"
  "ie_wl (granted n) = (\<lambda>_. False)" "ie_timeout (granted n) = (\<lambda>_. False)"
  by (auto simp: granted_def quiet_def lock_timeout_def)

text \<open>The node of the value 3 is locked by another transaction.\<close>

definition ex_locked :: index_env where
  "ex_locked = (granted 192)\<lparr>ie_timeout := (\<lambda>c. c = (NodeLock 128, True))\<rparr>"

lemma typed_index_refines_map_witness:
  "(\<exists>idx'. index_remove (granted 192) (\<lambda>s. s) (PInt 5) 51 ex_int_index = Some (Inr (), idx') \<and>
      index_ok idx' (map_remove_obj (KInt 5) 51 ex_int_map)) \<and>
   index_add (granted 192) (\<lambda>s. s) (PBool True) 51 ex_int_index = Some (Inl PropertyTypeMismatch, ex_int_index) \<and>
   index_remove ex_locked (\<lambda>s. s) (PInt 3) 31 ex_int_index = Some (Inl LockTimeout, ex_int_index)"
proof -
  have t: "index_ptype ex_int_index = Integer" by (simp add: ex_int_index_def)
  have z: "0 \<notin> index_nodes ex_int_index" by (simp add: ex_int_index_def ex_values_def)
  have n: "node_fresh (granted 192) (index_nodes ex_int_index)" "node_fresh ex_locked (index_nodes ex_int_index)"
    using z ex_int_index_ok(3) by (simp_all add: node_fresh_def ex_locked_def)
  obtain r :: "unit result" and idx' where r: "index_remove (granted 192) (\<lambda>s. s) (PInt 5) 51 ex_int_index = Some (r, idx')" "case r of
      Inl e \<Rightarrow> remove_failed (granted 192) (map_remove_obj (KInt 5) 51 ex_int_map (KInt 5) = None) (idx' = ex_int_index) e
    | Inr _ \<Rightarrow> index_ok idx' (map_remove_obj (KInt 5) 51 ex_int_map)"
    using typed_index_refines_map [OF ex_int_index_ok(1, 2) n(1), of "PInt 5" "\<lambda>s. s" 51] t by auto
  have "r = Inr ()" using r(2) by (cases r) (simp_all add: remove_failed_def)
  moreover have "index_remove ex_locked (\<lambda>s. s) (PInt 3) 31 ex_int_index = Some (Inl LockTimeout, ex_int_index)"
  proof -
    obtain r2 :: "unit result" and idx2 where r2: "index_remove ex_locked (\<lambda>s. s) (PInt 3) 31 ex_int_index = Some (r2, idx2)" "case r2 of
        Inl e \<Rightarrow> remove_failed ex_locked (map_remove_obj (KInt 3) 31 ex_int_map (KInt 3) = None) (idx2 = ex_int_index) e
      | Inr _ \<Rightarrow> index_ok idx2 (map_remove_obj (KInt 3) 31 ex_int_map)"
      using typed_index_refines_map [OF ex_int_index_ok(1, 2) n(2), of "PInt 3" "\<lambda>s. s" 31] t by auto
    have "r2 = Inl LockTimeout" using r2(1)
      by (simp add: index_remove_def ex_int_index_def typed_def vi_remove_call_def denied_def find_locks_def ex_locked_def ex_values_def Let_def)
    moreover have "map_remove_obj (KInt 3) 31 ex_int_map (KInt 3) \<noteq> None" by (simp add: map_remove_obj_def ex_int_map_def)
    ultimately show ?thesis using r2 by (auto simp: remove_failed_def)
  qed
  ultimately show ?thesis
    using r typed_index_refines_map [OF ex_int_index_ok(1, 2) n(1), of "PBool True" "\<lambda>s. s" 51] by (simp add: t)
qed

end
