(* ===== verification/Typed_Query.thy ===== *)
theory Typed_Query
  imports Typed_Index Index_Iteration
begin

text \<open>
  \<open>Index::get_iterator\<close> of \<open>src/Index.cc\<close>: the type checks and the choice of the iterator by the operator of the
  predicate. The property: the iterator yields the objects whose values satisfy the predicate, in order of
  the values, or throws for a predicate with a value of another type.
\<close>

section \<open>The choice of the iterator\<close>

text \<open>\<open>pp.op >= GeLe\<close>.\<close>

definition range_op :: "op \<Rightarrow> bool" where
  "range_op oper \<longleftrightarrow> oper \<in> {GeLe, GeLt, GtLe, GtLt}"

definition choose_iterator :: "'k::linorder index_tree \<Rightarrow> op \<Rightarrow> 'k \<Rightarrow> 'k \<Rightarrow> bool \<Rightarrow> 'k index_iterator option" where
  "choose_iterator t oper a b reverse =
     (if range_op oper then get_iterator_range t a b oper reverse
      else if oper = DontCare then get_iterator_all t reverse
      else get_iterator_op t a oper reverse)"

datatype 'f typed_iterator =
    IntIt "int index_iterator"
  | FloatIt "'f index_iterator"
  | BoolIt "bool index_iterator"
  | TimeIt "int index_iterator"
  | StringIt "u8 list index_iterator"

text \<open>The values of a property of the right type; the others are never used.\<close>

fun int_value :: "'f property \<Rightarrow> int" where
  "int_value (PInt i) = i"
| "int_value _ = 0"

fun float_value :: "'f property \<Rightarrow> 'f" where
  "float_value (PFloat x) = x"
| "float_value _ = undefined"

fun bool_value :: "'f property \<Rightarrow> bool" where
  "bool_value (PBool b) = b"
| "bool_value _ = False"

fun time_value :: "'f property \<Rightarrow> int" where
  "time_value (PTime t) = time_key t"
| "time_value _ = 0"

fun string_value :: "'f property \<Rightarrow> u8 list" where
  "string_value (PString s) = s"
| "string_value _ = []"

definition index_get_iterator ::
    "(u8 list \<Rightarrow> u8 list) \<Rightarrow> 'f::linorder index \<Rightarrow> 'f predicate \<Rightarrow> bool \<Rightarrow> 'f typed_iterator result option" where
  "index_get_iterator coll idx pp reverse =
     (let a = pp_v1 pp; b = pp_v2 pp; oper = pp_op pp
      in if oper \<noteq> DontCare \<and> (index_ptype idx \<noteq> type_of a \<or> range_op oper \<and> index_ptype idx \<noteq> type_of b)
         then Some (Inl PropertyTypeMismatch)
         else case idx of
             IntIndex s \<Rightarrow> map_option (\<lambda>it. Inr (IntIt it)) (choose_iterator (vi_tree s) oper (int_value a) (int_value b) reverse)
           | FloatIndex s \<Rightarrow> map_option (\<lambda>it. Inr (FloatIt it)) (choose_iterator (vi_tree s) oper (float_value a) (float_value b) reverse)
           | BoolIndex s \<Rightarrow> map_option (\<lambda>it. Inr (BoolIt it)) (choose_iterator (vi_tree s) oper (bool_value a) (bool_value b) reverse)
           | TimeIndex s \<Rightarrow> map_option (\<lambda>it. Inr (TimeIt it)) (choose_iterator (vi_tree s) oper (time_value a) (time_value b) reverse)
           | StringIndex s \<Rightarrow>
               map_option (\<lambda>it. Inr (StringIt it))
                 (choose_iterator (vi_tree s) oper (coll (string_value a)) (coll (string_value b)) reverse)
           | BaseIndex t \<Rightarrow> Some (Inl (no_tree t)))"

text \<open>The loop over such an iterator.\<close>

fun typed_elements :: "'f::linorder index \<Rightarrow> 'f typed_iterator \<Rightarrow> addr list option" where
  "typed_elements (IntIndex s) (IntIt it) = elements (vi_tree s) (lh_cells (vi_lists s)) it"
| "typed_elements (FloatIndex s) (FloatIt it) = elements (vi_tree s) (lh_cells (vi_lists s)) it"
| "typed_elements (BoolIndex s) (BoolIt it) = elements (vi_tree s) (lh_cells (vi_lists s)) it"
| "typed_elements (TimeIndex s) (TimeIt it) = elements (vi_tree s) (lh_cells (vi_lists s)) it"
| "typed_elements (StringIndex s) (StringIt it) = elements (vi_tree s) (lh_cells (vi_lists s)) it"
| "typed_elements _ _ = None"

section \<open>What is selected\<close>

text \<open>The objects of the keys that satisfy the predicate, in the order of the keys or in reverse.\<close>

definition selected :: "bool \<Rightarrow> ('k::linorder \<Rightarrow> addr list option) \<Rightarrow> op \<Rightarrow> 'k \<Rightarrow> 'k \<Rightarrow> addr list" where
  "selected reverse M oper a b = scan_map reverse M {k. M k \<noteq> None \<and> satisfies (<) oper k a b}"

fun query_spec ::
    "(u8 list \<Rightarrow> u8 list) \<Rightarrow> 'f::linorder index \<Rightarrow> ('f key \<rightharpoonup> addr list) \<Rightarrow> 'f predicate \<Rightarrow> bool \<Rightarrow> addr list" where
  "query_spec coll (IntIndex s) M pp reverse =
     selected reverse (\<lambda>k. M (KInt k)) (pp_op pp) (int_value (pp_v1 pp)) (int_value (pp_v2 pp))"
| "query_spec coll (FloatIndex s) M pp reverse =
     selected reverse (\<lambda>k. M (KFloat k)) (pp_op pp) (float_value (pp_v1 pp)) (float_value (pp_v2 pp))"
| "query_spec coll (BoolIndex s) M pp reverse =
     selected reverse (\<lambda>k. M (KBool k)) (pp_op pp) (bool_value (pp_v1 pp)) (bool_value (pp_v2 pp))"
| "query_spec coll (TimeIndex s) M pp reverse =
     selected reverse (\<lambda>k. M (KTime k)) (pp_op pp) (time_value (pp_v1 pp)) (time_value (pp_v2 pp))"
| "query_spec coll (StringIndex s) M pp reverse =
     selected reverse (\<lambda>k. M (KString k)) (pp_op pp) (coll (string_value (pp_v1 pp))) (coll (string_value (pp_v2 pp)))"
| "query_spec coll (BaseIndex t) M pp reverse = []"

text \<open>A range has room for a value.\<close>

definition room :: "op \<Rightarrow> 'k::linorder \<Rightarrow> 'k \<Rightarrow> bool" where
  "room oper a b \<longleftrightarrow> (range_op oper \<longrightarrow> a < b \<or> a = b \<and> oper = GeLe)"

fun predicate_room :: "(u8 list \<Rightarrow> u8 list) \<Rightarrow> 'f::linorder index \<Rightarrow> 'f predicate \<Rightarrow> bool" where
  "predicate_room coll (IntIndex s) pp = room (pp_op pp) (int_value (pp_v1 pp)) (int_value (pp_v2 pp))"
| "predicate_room coll (FloatIndex s) pp = room (pp_op pp) (float_value (pp_v1 pp)) (float_value (pp_v2 pp))"
| "predicate_room coll (BoolIndex s) pp = room (pp_op pp) (bool_value (pp_v1 pp)) (bool_value (pp_v2 pp))"
| "predicate_room coll (TimeIndex s) pp = room (pp_op pp) (time_value (pp_v1 pp)) (time_value (pp_v2 pp))"
| "predicate_room coll (StringIndex s) pp = room (pp_op pp) (coll (string_value (pp_v1 pp))) (coll (string_value (pp_v2 pp)))"
| "predicate_room coll (BaseIndex t) pp = True"

lemma entries_scan:
  assumes r: "vi_rel s cs"
  shows "entry_elements (lh_cells (vi_lists s)) cs (filter (\<lambda>e. Q (fst e)) (dents d (vi_tree s))) =
    scan_map d (vi_map s cs) {k. vi_map s cs k \<noteq> None \<and> Q k}"
proof -
  let ?t = "vi_tree s" and ?M = "vi_map s cs"
  have b: "bst ?t" using r by (simp add: vi_rel_def)
  have present: "?M k' \<noteq> None \<longleftrightarrow> k' \<in> fst ` set (ents ?t)" for k'
    using r find_keys [OF b, of k'] by (simp add: vi_map_def vi_rel_def)
  have S: "{k. ?M k \<noteq> None \<and> Q k} = {k' \<in> fst ` set (ents ?t). Q k'}" unfolding present by blast
  have "cell_contents (lh_cells (vi_lists s)) (cs (fst e)) = the (?M (fst e))" if "e \<in> set (ents ?t)" for e
    using present [of "fst e"] that by (auto simp: vi_map_def split: if_splits)
  then have "entry_elements (lh_cells (vi_lists s)) cs (filter (\<lambda>e. Q (fst e)) (dents d ?t)) =
      concat (map (\<lambda>k'. the (?M k')) (map fst (filter (\<lambda>e. Q (fst e)) (dents d ?t))))"
    unfolding entry_elements_def map_map by (intro arg_cong [where f = concat] map_cong) auto
  then show ?thesis unfolding sorted_keys [OF b, of Q] scan_map_def S by (simp add: Let_def)
qed

lemma chosen_elements:
  assumes ok: "vi_ok s M" and o: "oper \<noteq> Ne" and rm: "room oper a b"
  shows "\<exists>it. choose_iterator (vi_tree s) oper a b reverse = Some it \<and>
    elements (vi_tree s) (lh_cells (vi_lists s)) it = Some (selected reverse M oper a b)"
proof -
  obtain cs where r: "vi_rel s cs" and M: "M = vi_map s cs" using ok by (auto simp: vi_ok_def)
  have t: "distinct_addrs (vi_tree s)" "bst (vi_tree s)" using r by (simp_all add: vi_rel_def)
  have d: "(if reverse then rev (ents (vi_tree s)) else ents (vi_tree s)) = dents reverse (vi_tree s)" by (simp add: dents_def)
  note es = entries_scan [OF r, of _ reverse]
  have "Option.bind (choose_iterator (vi_tree s) oper a b reverse) (elements (vi_tree s) (lh_cells (vi_lists s))) =
      Some (selected reverse M oper a b)"
  proof (cases "range_op oper")
    case True
    have "(\<lambda>k. in_range oper a b k) = (\<lambda>k. satisfies (<) oper k a b)"
      using True by (auto simp: range_op_def in_range_def fun_eq_iff not_less)
    moreover have "a < b \<or> a = b \<and> oper \<notin> {GeLt, GtLe, GtLt}" using rm True by (auto simp: room_def)
    ultimately show ?thesis
      using range_elements [OF t rel_lists_ok [OF r], of a b oper reverse] es [of "in_range oper a b"] True
      unfolding d by (simp add: choose_iterator_def selected_def M)
  next
    case False
    then have op: "oper \<in> {DontCare, Eq, Lt, Le, Gt, Ge}" using o by (cases oper) (auto simp: range_op_def)
    then have "(\<lambda>k. in_op oper a k) = (\<lambda>k. satisfies (<) oper k a b)" by (auto simp: fun_eq_iff not_less)
    then show ?thesis
      using operator_elements [OF t rel_lists_ok [OF r] op, of reverse a] es [of "in_op oper a"] False
      unfolding d by (simp add: choose_iterator_def selected_def M)
  qed
  then show ?thesis by (simp add: bind_eq_Some_conv)
qed

text \<open>
  C21. The iterator that an index makes for a predicate yields exactly the objects indexed under the values
  that satisfy the operator, or lie in the range, in the order of the values or in reverse, for every type
  of index; a predicate with a value of another type throws. This is for every operator other than \<open>!=\<close>, and
  for ranges with room for a value (\<open>predicate_room\<close>); the locks of the scan are granted, and the index does not
  change meanwhile. \<open>neq_iterator_skips\<close> and \<open>empty_range_yields_min\<close> show the cases left out.
\<close>

theorem index_query_selects:
  assumes "index_ok idx M" "pp_op pp \<noteq> Ne" "predicate_room coll idx pp"
  shows "if pp_op pp \<noteq> DontCare \<and> (index_ptype idx \<noteq> type_of (pp_v1 pp) \<or> range_op (pp_op pp) \<and> index_ptype idx \<noteq> type_of (pp_v2 pp))
    then index_get_iterator coll idx pp reverse = Some (Inl PropertyTypeMismatch)
    else if index_ptype idx \<in> {NoValue, Blob}
    then index_get_iterator coll idx pp reverse = Some (Inl (no_tree (index_ptype idx)))
    else \<exists>it. index_get_iterator coll idx pp reverse = Some (Inr it) \<and> typed_elements idx it = Some (query_spec coll idx M pp reverse)"
proof (cases "pp_op pp \<noteq> DontCare \<and> (index_ptype idx \<noteq> type_of (pp_v1 pp) \<or> range_op (pp_op pp) \<and> index_ptype idx \<noteq> type_of (pp_v2 pp))")
  case True
  then show ?thesis by (simp add: index_get_iterator_def)
next
  case False
  note g = index_get_iterator_def [of coll idx pp reverse, unfolded Let_def if_not_P [OF False]]
  have "if index_ptype idx \<in> {NoValue, Blob}
    then index_get_iterator coll idx pp reverse = Some (Inl (no_tree (index_ptype idx)))
    else \<exists>it. index_get_iterator coll idx pp reverse = Some (Inr it) \<and> typed_elements idx it = Some (query_spec coll idx M pp reverse)"
  proof (cases idx)
    case (IntIndex s)
    then show ?thesis using chosen_elements [OF _ assms(2), of s "\<lambda>k. M (KInt k)"] assms g by (fastforce simp: tree_ok_def)
  next
    case (FloatIndex s)
    then show ?thesis using chosen_elements [OF _ assms(2), of s "\<lambda>k. M (KFloat k)"] assms g by (fastforce simp: tree_ok_def)
  next
    case (BoolIndex s)
    then show ?thesis using chosen_elements [OF _ assms(2), of s "\<lambda>k. M (KBool k)"] assms g by (fastforce simp: tree_ok_def)
  next
    case (TimeIndex s)
    then show ?thesis using chosen_elements [OF _ assms(2), of s "\<lambda>k. M (KTime k)"] assms g by (fastforce simp: tree_ok_def)
  next
    case (StringIndex s)
    then show ?thesis using chosen_elements [OF _ assms(2), of s "\<lambda>k. M (KString k)"] assms g by (fastforce simp: tree_ok_def)
  next
    case (BaseIndex t)
    then show ?thesis using assms(1) g by auto
  qed
  then show ?thesis unfolding if_not_P [OF False] .
qed

text \<open>The values from 3 up to, and not including, 5; a value of another type.\<close>

definition ex_query :: "int predicate" where
  "ex_query = \<lparr>pp_id = 1, pp_op = GeLt, pp_v1 = PInt 3, pp_v2 = PInt 5\<rparr>"

lemma index_query_selects_witness:
  "(\<exists>it. index_get_iterator (\<lambda>s. s) ex_int_index ex_query False = Some (Inr it) \<and>
      typed_elements ex_int_index it = Some [31, 32]) \<and>
   index_get_iterator (\<lambda>s. s) ex_int_index (ex_query\<lparr>pp_v1 := PBool True\<rparr>) False = Some (Inl PropertyTypeMismatch)"
proof -
  have S: "{k. ex_int_map (KInt k) \<noteq> None \<and> satisfies (<) GeLt k 3 5} = {3}" by (auto simp: ex_int_map_def)
  have t: "index_ptype ex_int_index = Integer" by (simp add: ex_int_index_def)
  have rm: "pp_op ex_query \<noteq> Ne" "predicate_room (\<lambda>s. s) ex_int_index ex_query"
    "pp_op (ex_query\<lparr>pp_v1 := PBool True\<rparr>) \<noteq> Ne" "predicate_room (\<lambda>s. s) ex_int_index (ex_query\<lparr>pp_v1 := PBool True\<rparr>)"
    by (simp_all add: ex_query_def ex_int_index_def room_def)
  have types: "type_of (pp_v1 ex_query) = Integer" "type_of (pp_v2 ex_query) = Integer" "range_op (pp_op ex_query)"
    "pp_op ex_query \<noteq> DontCare"
    by (simp_all add: ex_query_def range_op_def)
  have spec: "query_spec (\<lambda>s. s) ex_int_index ex_int_map ex_query False = [31, 32]"
    using S by (simp add: ex_int_index_def ex_query_def selected_def scan_map_def) (simp add: ex_int_map_def)
  have "\<exists>it. index_get_iterator (\<lambda>s. s) ex_int_index ex_query False = Some (Inr it) \<and>
      typed_elements ex_int_index it = Some [31, 32]"
    using index_query_selects [OF ex_int_index_ok(1) rm(1, 2), of False]
    by (simp add: t spec types)
  moreover have "index_get_iterator (\<lambda>s. s) ex_int_index (ex_query\<lparr>pp_v1 := PBool True\<rparr>) False = Some (Inl PropertyTypeMismatch)"
    using index_query_selects [OF ex_int_index_ok(1) rm(3) rm(4), of False] by (simp add: t types)
  ultimately show ?thesis by blast
qed

end
