(* ===== verification/Index_Manager.thy ===== *)
theory Index_Manager
  imports Typed_Query
begin

text \<open>
  \<open>src/IndexManager.cc\<close>: for nodes and for edges, a chunk list of tags whose values are chunk lists of property
  ids whose values are pointers to indices. A chunk list is the finite map that \<open>Chunk_List_Laws\<close> shows it
  to be, with its count of elements; an index is named by its place, so a pointer obtained twice for one
  place is one index. Every call of a chunk list, and the allocation of an index, may throw before it
  changes anything: \<open>LockTimeout\<close> from its locks, or what the allocator throws. An environment says which do.
  The properties: the index of a tag is the sequence of its nodes, \<open>create_index\<close> makes what is missing,
  \<open>update\<close> keeps both indices of a property in step with it, and at tag 0 it adds an object twice.
\<close>

section \<open>State and environment\<close>

datatype index_type = NodeIndex | EdgeIndex

text \<open>\<open>IndexList\<close>: the inner \<open>None\<close> is the null pointer of a new entry.\<close>

record 'f index_list =
  il_map :: "u16 \<Rightarrow> 'f index option option"
  il_num :: nat

record 'f index_manager =
  im_tags :: "index_type \<Rightarrow> u16 \<Rightarrow> 'f index_list option"

text \<open>
  The calls of the two chunk lists and of the allocator, by tag and property id. A call made twice by one
  operation has its locks the second time, so it throws the first time or not at all.
\<close>

datatype manager_call =
    Tag_add index_type u16
  | Tag_find index_type u16
  | Entry_add index_type u16 u16
  | Entry_find index_type u16 u16
  | Index_alloc index_type u16 u16

text \<open>\<open>me_index False\<close> is the environment of the index of the operation's tag, \<open>me_index True\<close> that of tag 0 in \<open>update\<close>.\<close>

record manager_env =
  me_throws :: "manager_call \<Rightarrow> pmgd_error option"
  me_index :: "bool \<Rightarrow> index_env"

definition il_empty :: "'f index_list" where
  "il_empty = \<lparr>il_map = Map.empty, il_num = 0\<rparr>"

definition put_list :: "index_type \<Rightarrow> u16 \<Rightarrow> 'f index_list \<Rightarrow> 'f index_manager \<Rightarrow> 'f index_manager" where
  "put_list ty tag l im = im\<lparr>im_tags := (im_tags im)(ty := (im_tags im ty)(tag \<mapsto> l))\<rparr>"

text \<open>\<open>*idx = i\<close> for the pointer \<open>idx\<close> to the entry of \<open>pid\<close>.\<close>

definition il_set :: "u16 \<Rightarrow> 'f index option \<Rightarrow> 'f index_list \<Rightarrow> 'f index_list" where
  "il_set pid i l = l\<lparr>il_map := (il_map l)(pid \<mapsto> i)\<rparr>"

section \<open>Making indices\<close>

text \<open>\<open>_tag_prop_map[index_type].add (tag, allocator)\<close>.\<close>

definition tag_list_add :: "manager_env \<Rightarrow> index_type \<Rightarrow> u16 \<Rightarrow> 'f index_manager \<Rightarrow> 'f index_list result \<times> 'f index_manager" where
  "tag_list_add me ty tag im =
     (case me_throws me (Tag_add ty tag) of
        Some e \<Rightarrow> (Inl e, im)
      | None \<Rightarrow>
          (case im_tags im ty tag of
             Some l \<Rightarrow> (Inr l, im)
           | None \<Rightarrow> (Inr il_empty, put_list ty tag il_empty im)))"

text \<open>\<open>tag_entry->add (pid, allocator)\<close>, for the list of \<open>tag\<close>: the list with the entry.\<close>

definition index_list_add ::
    "manager_env \<Rightarrow> index_type \<Rightarrow> u16 \<Rightarrow> u16 \<Rightarrow> 'f index_list \<Rightarrow> 'f index_manager \<Rightarrow> 'f index_list result \<times> 'f index_manager" where
  "index_list_add me ty tag pid l im =
     (case me_throws me (Entry_add ty tag pid) of
        Some e \<Rightarrow> (Inl e, im)
      | None \<Rightarrow>
          (case il_map l pid of
             Some _ \<Rightarrow> (Inr l, im)
           | None \<Rightarrow>
               (let l' = \<lparr>il_map = (il_map l)(pid \<mapsto> None), il_num = il_num l + 1\<rparr> in (Inr l', put_list ty tag l' im))))"

text \<open>A new index over the memory \<open>H\<close> for its lists.\<close>

fun new_index :: "property_type \<Rightarrow> addr list_heap \<Rightarrow> 'f index result" where
  "new_index Integer H = Inr (IntIndex \<lparr>vi_tree = Null, vi_lists = H\<rparr>)"
| "new_index Float H = Inr (FloatIndex \<lparr>vi_tree = Null, vi_lists = H\<rparr>)"
| "new_index Boolean H = Inr (BoolIndex \<lparr>vi_tree = Null, vi_lists = H\<rparr>)"
| "new_index TimeType H = Inr (TimeIndex \<lparr>vi_tree = Null, vi_lists = H\<rparr>)"
| "new_index String H = Inr (StringIndex \<lparr>vi_tree = Null, vi_lists = H\<rparr>)"
| "new_index NoValue H = Inl NotImplemented"
| "new_index Blob H = Inl PropertyTypeInvalid"

definition add_tag_index ::
    "manager_env \<Rightarrow> index_type \<Rightarrow> u16 \<Rightarrow> addr list_heap \<Rightarrow> 'f index_manager \<Rightarrow> 'f index_list result \<times> 'f index_manager" where
  "add_tag_index me ty tag H im =
     (case tag_list_add me ty tag im of
        (Inl e, im1) \<Rightarrow> (Inl e, im1)
      | (Inr l, im1) \<Rightarrow>
          if il_num l = 0 \<and> tag \<noteq> 0 then
            (case me_throws me (Index_alloc ty tag 0) of
               Some e \<Rightarrow> (Inl e, im1)
             | None \<Rightarrow>
                 (case index_list_add me ty tag 0 l im1 of
                    (Inl e, im2) \<Rightarrow> (Inl e, im2)
                  | (Inr l', im2) \<Rightarrow>
                      (let l2 = il_set 0 (Some (BoolIndex \<lparr>vi_tree = Null, vi_lists = H\<rparr>)) l'
                       in (Inr l2, put_list ty tag l2 im2))))
          else (Inr l, im1))"

text \<open>
  \<open>create_index\<close> in the list of its tag; \<open>H\<close> is the memory of the new index. The type is tested after the
  entry is made.
\<close>

definition create_entry ::
    "manager_env \<Rightarrow> index_type \<Rightarrow> u16 \<Rightarrow> u16 \<Rightarrow> property_type \<Rightarrow> addr list_heap \<Rightarrow> 'f index_list \<Rightarrow> 'f index_manager \<Rightarrow>
     unit result \<times> 'f index_manager" where
  "create_entry me ty tag pid ptype H l im =
     (case index_list_add me ty tag pid l im of
        (Inl e, im1) \<Rightarrow> (Inl e, im1)
      | (Inr l', im1) \<Rightarrow>
          if il_map l' pid = Some None then
            (case new_index ptype H of
               Inl e \<Rightarrow> (Inl e, im1)
             | Inr idx \<Rightarrow>
                 (case me_throws me (Index_alloc ty tag pid) of
                    Some e \<Rightarrow> (Inl e, im1)
                  | None \<Rightarrow> (Inr (), put_list ty tag (il_set pid (Some idx) l') im1)))
          else (Inr (), im1))"

text \<open>\<open>H0\<close> is the memory of the tag's index.\<close>

definition create_index ::
    "manager_env \<Rightarrow> index_type \<Rightarrow> u16 \<Rightarrow> u16 \<Rightarrow> property_type \<Rightarrow> addr list_heap \<Rightarrow> addr list_heap \<Rightarrow> 'f index_manager \<Rightarrow>
     unit result \<times> 'f index_manager" where
  "create_index me ty tag pid ptype H0 H im =
     (case add_tag_index me ty tag H0 im of
        (Inl e, im1) \<Rightarrow> (Inl e, im1)
      | (Inr l, im1) \<Rightarrow> create_entry me ty tag pid ptype H l im1)"

section \<open>Finding an index\<close>

definition index_at :: "index_type \<Rightarrow> u16 \<Rightarrow> u16 \<Rightarrow> 'f index_manager \<Rightarrow> 'f index option option" where
  "index_at ty tag pid im = (case im_tags im ty tag of None \<Rightarrow> None | Some l \<Rightarrow> il_map l pid)"

text \<open>What the \<open>find\<close> of the tag, and if the tag is there that of the property id, throws.\<close>

definition find_throws :: "manager_env \<Rightarrow> index_type \<Rightarrow> u16 \<Rightarrow> u16 \<Rightarrow> 'f index_manager \<Rightarrow> pmgd_error option" where
  "find_throws me ty tag pid im =
     (case me_throws me (Tag_find ty tag) of
        Some e \<Rightarrow> Some e
      | None \<Rightarrow> (case im_tags im ty tag of None \<Rightarrow> None | Some _ \<Rightarrow> me_throws me (Entry_find ty tag pid)))"

text \<open>
  \<open>get_index\<close>; \<open>ptype\<close> is \<open>None\<close> for \<open>PropertyType(0)\<close>. The result is the index or \<open>NULL\<close>; the outer \<open>None\<close> is
  \<open>check_type\<close> called on a null pointer.
\<close>

definition get_index ::
    "manager_env \<Rightarrow> index_type \<Rightarrow> u16 \<Rightarrow> u16 \<Rightarrow> property_type option \<Rightarrow> 'f index_manager \<Rightarrow> 'f index option result option" where
  "get_index me ty tag pid ptype im =
     (case find_throws me ty tag pid im of
        Some e \<Rightarrow> Some (Inl e)
      | None \<Rightarrow>
          (case index_at ty tag pid im of
             None \<Rightarrow> Some (Inr None)
           | Some i \<Rightarrow>
               (case ptype of
                  None \<Rightarrow> Some (Inr i)
                | Some t \<Rightarrow>
                    (case i of
                       None \<Rightarrow> None
                     | Some idx \<Rightarrow> (case check_type t idx of Inl e \<Rightarrow> Some (Inl e) | Inr _ \<Rightarrow> Some (Inr (Some idx)))))))"

text \<open>A store through the pointer to the index at a place.\<close>

definition put_index :: "index_type \<Rightarrow> u16 \<Rightarrow> u16 \<Rightarrow> 'f index \<Rightarrow> 'f index_manager \<Rightarrow> 'f index_manager" where
  "put_index ty tag pid idx im =
     (case im_tags im ty tag of None \<Rightarrow> im | Some l \<Rightarrow> put_list ty tag (il_set pid (Some idx) l) im)"

section \<open>The index of a tag\<close>

text \<open>
  \<open>tag_entry->find (0)\<close> and the pointer in it, as a \<open>BoolValueIndex\<close>; \<open>None\<close> is a null pointer or an index of
  another type.
\<close>

definition tag_index :: "manager_env \<Rightarrow> index_type \<Rightarrow> u16 \<Rightarrow> 'f index_list \<Rightarrow> bool value_index result option" where
  "tag_index me ty tag l =
     (case me_throws me (Entry_find ty tag 0) of
        Some e \<Rightarrow> Some (Inl e)
      | None \<Rightarrow> (case il_map l 0 of Some (Some (BoolIndex s)) \<Rightarrow> Some (Inr s) | _ \<Rightarrow> None))"

text \<open>\<open>add\<close>: for \<open>tag \<noteq> 0\<close>, the object is put into the list of the only key, \<open>true\<close>.\<close>

definition manager_add ::
    "manager_env \<Rightarrow> index_type \<Rightarrow> u16 \<Rightarrow> addr \<Rightarrow> addr list_heap \<Rightarrow> 'f index_manager \<Rightarrow> (bool result \<times> 'f index_manager) option" where
  "manager_add me ty tag obj H im =
     (if tag = 0 then Some (Inr False, im)
      else case add_tag_index me ty tag H im of
          (Inl e, im1) \<Rightarrow> Some (Inl e, im1)
        | (Inr l, im1) \<Rightarrow>
            (case tag_index me ty tag l of
               None \<Rightarrow> None
             | Some (Inl e) \<Rightarrow> Some (Inl e, im1)
             | Some (Inr s) \<Rightarrow>
                 map_option (\<lambda>(r, s'). (case r of Inl e \<Rightarrow> Inl e | Inr _ \<Rightarrow> Inr True, put_index ty tag 0 (BoolIndex s') im1))
                   (vi_add_call (me_index me False) True obj s)))"

text \<open>\<open>remove\<close>: the list is found and changed; its key stays when the list becomes empty.\<close>

definition manager_remove ::
    "manager_env \<Rightarrow> index_type \<Rightarrow> u16 \<Rightarrow> addr \<Rightarrow> 'f index_manager \<Rightarrow> (unit result \<times> 'f index_manager) option" where
  "manager_remove me ty tag obj im =
     (if tag = 0 then Some (Inr (), im)
      else case tag_list_add me ty tag im of
          (Inl e, im1) \<Rightarrow> Some (Inl e, im1)
        | (Inr l, im1) \<Rightarrow>
            (case tag_index me ty tag l of
               None \<Rightarrow> None
             | Some (Inl e) \<Rightarrow> Some (Inl e, im1)
             | Some (Inr s) \<Rightarrow>
                 if denied (me_index me False) (find_locks True (vi_tree s)) then Some (Inl LockTimeout, im1)
                 else case fst (get_locks_find True (vi_tree s)) of
                     None \<Rightarrow> None
                   | Some (a, h) \<Rightarrow>
                       map_option (\<lambda>(h', H', es).
                           (Inr (), put_index ty tag 0 (BoolIndex \<lparr>vi_tree = set_value a h' (vi_tree s), vi_lists = H'\<rparr>) im1))
                         (list_remove (=) obj h (vi_lists s))))"

text \<open>\<open>get_iterator\<close>: the predicate is \<open>Eq true\<close>; no index gives \<open>NULL\<close>.\<close>

definition tag_predicate :: "'f predicate" where
  "tag_predicate = \<lparr>pp_id = 0, pp_op = Eq, pp_v1 = PBool True, pp_v2 = PNone\<rparr>"

definition manager_get_iterator ::
    "manager_env \<Rightarrow> (u8 list \<Rightarrow> u8 list) \<Rightarrow> index_type \<Rightarrow> u16 \<Rightarrow> 'f::linorder index_manager \<Rightarrow> 'f typed_iterator option result option" where
  "manager_get_iterator me coll ty tag im =
     (case get_index me ty tag 0 None im of
        None \<Rightarrow> None
      | Some (Inl e) \<Rightarrow> Some (Inl e)
      | Some (Inr None) \<Rightarrow> Some (Inr None)
      | Some (Inr (Some idx)) \<Rightarrow>
          map_option (\<lambda>r. case r of Inl e \<Rightarrow> Inl e | Inr it \<Rightarrow> Inr (Some it)) (index_get_iterator coll idx tag_predicate False))"

section \<open>The indices of a property\<close>

text \<open>\<open>index->add\<close> or \<open>index->remove\<close> for the index at a place.\<close>

definition index_op ::
    "('f index \<Rightarrow> (unit result \<times> 'f index) option) \<Rightarrow> index_type \<Rightarrow> u16 \<Rightarrow> u16 \<Rightarrow> 'f index_manager \<Rightarrow>
     (unit result \<times> 'f index_manager) option" where
  "index_op f ty tag pid im =
     (case index_at ty tag pid im of
        Some (Some idx) \<Rightarrow> map_option (\<lambda>(r, idx'). (r, put_index ty tag pid idx' im)) (f idx)
      | _ \<Rightarrow> None)"

text \<open>Calls in order; one that throws ends the rest.\<close>

fun calls :: "('s \<Rightarrow> (unit result \<times> 's) option) list \<Rightarrow> 's \<Rightarrow> (unit result \<times> 's) option" where
  "calls [] s = Some (Inr (), s)"
| "calls (f # fs) s =
     (case f s of None \<Rightarrow> None | Some (Inl e, s') \<Rightarrow> Some (Inl e, s') | Some (Inr _, s') \<Rightarrow> calls fs s')"

definition update ::
    "manager_env \<Rightarrow> (u8 list \<Rightarrow> u8 list) \<Rightarrow> index_type \<Rightarrow> u16 \<Rightarrow> addr \<Rightarrow> u16 \<Rightarrow> 'f::linorder property option \<Rightarrow>
     'f property option \<Rightarrow> 'f index_manager \<Rightarrow> (unit result \<times> 'f index_manager) option" where
  "update me coll ty tag obj pid old new im =
     (let ptype = map_option type_of new
      in case get_index me ty tag pid ptype im of
          None \<Rightarrow> None
        | Some (Inl e) \<Rightarrow> Some (Inl e, im)
        | Some (Inr index) \<Rightarrow>
            (case get_index me ty 0 pid ptype im of
               None \<Rightarrow> None
             | Some (Inl e) \<Rightarrow> Some (Inl e, im)
             | Some (Inr gindex) \<Rightarrow>
                 (let at = (\<lambda>f. if index = None then [] else [index_op (f (me_index me False)) ty tag pid]);
                      gat = (\<lambda>f. if gindex = None then [] else [index_op (f (me_index me True)) ty 0 pid])
                  in calls
                      ((case old of None \<Rightarrow> []
                        | Some p \<Rightarrow> at (\<lambda>ie. index_remove ie coll p obj) @ gat (\<lambda>ie. index_remove ie coll p obj)) @
                       (case new of None \<Rightarrow> []
                        | Some p \<Rightarrow> at (\<lambda>ie. index_add ie coll p obj) @ gat (\<lambda>ie. index_add ie coll p obj))) im)))"

section \<open>The index of a tag as a sequence\<close>

text \<open>A tree without a node, or with the node of \<open>true\<close> only, whose list may be empty.\<close>

definition supply_ok :: "addr list_heap \<Rightarrow> bool" where
  "supply_ok H \<longleftrightarrow> distinct (lh_supply H) \<and> 0 \<notin> set (lh_supply H)"

definition tag_index_ok :: "bool value_index \<Rightarrow> addr list \<Rightarrow> bool" where
  "tag_index_ok s xs \<longleftrightarrow> supply_ok (vi_lists s) \<and>
     (vi_tree s = Null \<and> xs = [] \<or>
      (\<exists>a h as. vi_tree s = TreeNode a Null Null 0 True h \<and> list_at (lh_cells (vi_lists s)) h as \<and>
         set (lh_supply (vi_lists s)) \<inter> set as = {} \<and> cell_contents (lh_cells (vi_lists s)) as = xs))"

lemma tag_index_okI:
  assumes "vi_tree s = TreeNode a Null Null 0 True h" "list_at (lh_cells (vi_lists s)) h as" "supply_ok (vi_lists s)"
    "set (lh_supply (vi_lists s)) \<inter> set as = {}" "cell_contents (lh_cells (vi_lists s)) as = xs"
  shows "tag_index_ok s xs"
  using assms unfolding tag_index_ok_def by blast

lemma add_true:
  "\<exists>es rb lk. avl_add wl True v0 n Null = (TreeNode n Null Null 0 True v0, Some n, es, rb, lk)"
  "\<exists>es rb lk. avl_add wl True v0 n (TreeNode a Null Null 0 True v) = (TreeNode a Null Null 0 True v, Some a, es, rb, lk)"
  by (auto simp: avl_add_def get_locks_add_def Let_def)

lemma tag_tree_add:
  assumes t: "tag_index_ok s xs"
  obtains a h as es rb lk where "avl_add wl True list_init n (vi_tree s) = (TreeNode a Null Null 0 True h, Some a, es, rb, lk)"
    "list_at (lh_cells (vi_lists s)) h as" "set (lh_supply (vi_lists s)) \<inter> set as = {}" "cell_contents (lh_cells (vi_lists s)) as = xs"
proof (cases "vi_tree s = Null")
  case True
  then have "xs = []" using t by (auto simp: tag_index_ok_def)
  then show thesis using that [of n list_init _ _ _ "[]"] add_true(1) [of wl list_init n] True by auto
next
  case False
  then obtain a h as where "vi_tree s = TreeNode a Null Null 0 True h" "list_at (lh_cells (vi_lists s)) h as"
    "set (lh_supply (vi_lists s)) \<inter> set as = {}" "cell_contents (lh_cells (vi_lists s)) as = xs"
    using t by (auto simp: tag_index_ok_def)
  then show thesis using that [of a h _ _ _ as] add_true(2) [of wl list_init n a h] by auto
qed

lemma tag_cell_ok:
  assumes t: "tag_index_ok s xs"
  shows "\<exists>r s'. add_cell ie True obj n s = Some (r, s') \<and>
    (case r of Inl e \<Rightarrow> (ie_cell ie = Some e \<or> e = BadAlloc \<and> lh_supply (vi_lists s) = []) \<and> tag_index_ok s' xs
     | Inr _ \<Rightarrow> tag_index_ok s' (obj # xs))"
proof -
  obtain a h as es rb lk where T: "avl_add (ie_wl ie) True list_init n (vi_tree s) = (TreeNode a Null Null 0 True h, Some a, es, rb, lk)"
    "list_at (lh_cells (vi_lists s)) h as" "set (lh_supply (vi_lists s)) \<inter> set as = {}" "cell_contents (lh_cells (vi_lists s)) as = xs"
    by (rule tag_tree_add [OF t])
  have sup: "supply_ok (vi_lists s)" using t by (simp add: tag_index_ok_def)
  have same: "tag_index_ok (s\<lparr>vi_tree := TreeNode a Null Null 0 True h\<rparr>) xs"
    by (intro tag_index_okI [of _ a h as]) (use T sup in simp_all)
  show ?thesis
  proof (cases "ie_cell ie")
    case (Some e)
    then show ?thesis using same T(1) by (simp add: add_cell_def)
  next
    case None
    show ?thesis
    proof (cases "lh_supply (vi_lists s)")
      case Nil
      then show ?thesis using same T(1) None by (simp add: add_cell_def vi_add_def list_add_def)
    next
      case (Cons c rest)
      have c: "c \<noteq> 0" "c \<notin> set rest" "distinct rest" "0 \<notin> set rest" using sup Cons by (auto simp: supply_ok_def)
      have "c \<notin> set as" using T(3) Cons by auto
      obtain h' H' les where l: "list_add obj h (vi_lists s) = (Inr c, h', H', les)" "list_at (lh_cells H') h' (c # as)"
        "cell_contents (lh_cells H') (c # as) = obj # cell_contents (lh_cells (vi_lists s)) as" "lh_supply H' = rest"
        using list_add_ok [OF T(2) Cons c(1) \<open>c \<notin> set as\<close>, of obj] by metis
      have "set rest \<inter> set (c # as) = {}" using c(2) T(3) Cons by auto
      then have "tag_index_ok \<lparr>vi_tree = TreeNode a Null Null 0 True h', vi_lists = H'\<rparr> (obj # xs)"
        by (intro tag_index_okI [of _ a h' "c # as"]) (use l c T(4) in \<open>auto simp: supply_ok_def\<close>)
      then show ?thesis using T(1) l(1) None by (simp add: add_cell_def vi_add_def)
    qed
  qed
qed

text \<open>What the tree of an index, or the cell for an object, may throw.\<close>

definition tree_throws :: "index_env \<Rightarrow> pmgd_error \<Rightarrow> bool" where
  "tree_throws ie e \<longleftrightarrow> e = LockTimeout \<and> lock_timeout ie \<or> ie_node ie = Inl e \<or> ie_cell ie = Some e"

lemma tag_add_ok:
  assumes t: "tag_index_ok s xs"
  shows "\<exists>r s'. vi_add_call ie True obj s = Some (r, s') \<and>
    (case r of Inl e \<Rightarrow> (tree_throws ie e \<or> e = BadAlloc \<and> lh_supply (vi_lists s) = []) \<and> tag_index_ok s' xs
     | Inr _ \<Rightarrow> tag_index_ok s' (obj # xs))"
proof (cases "denied ie (add_locks ie True (vi_tree s))")
  case True
  then show ?thesis using denied_timeout [OF True] t by (simp add: vi_add_call_def tree_throws_def)
next
  case False
  have cell: "\<exists>r s'. add_cell ie True obj n s = Some (r, s') \<and>
    (case r of Inl e \<Rightarrow> (tree_throws ie e \<or> e = BadAlloc \<and> lh_supply (vi_lists s) = []) \<and> tag_index_ok s' xs
     | Inr _ \<Rightarrow> tag_index_ok s' (obj # xs))" for n
    using tag_cell_ok [OF t, of ie obj n] by (force simp: tree_throws_def split: sum.splits)
  show ?thesis
  proof (cases "fst (get_locks_find True (vi_tree s))")
    case None
    then show ?thesis using False t cell by (cases "ie_node ie") (simp_all add: vi_add_call_def tree_throws_def)
  next
    case (Some x)
    then show ?thesis using False cell [of 0] by (simp add: vi_add_call_def)
  qed
qed

lemma tag_remove_ok:
  assumes t: "tag_index_ok s xs" and m: "obj \<in> set xs"
  shows "\<exists>a h h' H' es. fst (get_locks_find True (vi_tree s)) = Some (a, h) \<and> list_remove (=) obj h (vi_lists s) = Some (h', H', es) \<and>
    tag_index_ok \<lparr>vi_tree = set_value a h' (vi_tree s), vi_lists = H'\<rparr> (del_first ((=) obj) xs)"
proof -
  obtain a h as where T: "vi_tree s = TreeNode a Null Null 0 True h" "list_at (lh_cells (vi_lists s)) h as"
    "set (lh_supply (vi_lists s)) \<inter> set as = {}" "cell_contents (lh_cells (vi_lists s)) as = xs"
    using t m by (auto simp: tag_index_ok_def)
  obtain h' H' es as' where l: "list_remove (=) obj h (vi_lists s) = Some (h', H', es)" "list_at (lh_cells H') h' as'"
    "cell_contents (lh_cells H') as' = del_first ((=) obj) xs" "as' = del_first (\<lambda>a. obj = cell_value (lh_cells (vi_lists s) a)) as"
    "lh_supply H' = lh_supply (vi_lists s)"
    by (rule list_remove_ok [OF T(2), of "(=)" obj, unfolded T(4)]) auto
  have "set as' \<subseteq> set as" unfolding l(4) by (rule del_first_subset)
  then have "set (lh_supply H') \<inter> set as' = {}" using T(3) unfolding l(5) by auto
  then have "tag_index_ok \<lparr>vi_tree = set_value a h' (vi_tree s), vi_lists = H'\<rparr> (del_first ((=) obj) xs)"
    by (intro tag_index_okI [of _ a h' as']) (use t T l in \<open>auto simp: tag_index_ok_def supply_ok_def\<close>)
  then show ?thesis using T l by auto
qed

lemma tag_elements:
  assumes "tag_index_ok s xs"
  shows "elements (vi_tree s) (lh_cells (vi_lists s)) (new_eq_iterator (vi_tree s) True) = Some xs"
proof -
  let ?m = "lh_cells (vi_lists s)" and ?it = "new_eq_iterator (vi_tree s) True"
  obtain as where "links ?m (it_list ?it) as" "cell_contents ?m as = xs"
  proof (cases "vi_tree s = Null")
    case True
    then show thesis using that [of "[]"] assms by (simp add: tag_index_ok_def new_eq_iterator_def trav_set_def Let_def)
  next
    case False
    then show thesis using that assms by (auto simp: tag_index_ok_def new_eq_iterator_def trav_set_def list_at_def Let_def)
  qed
  moreover have "it_class ?it = IndexEq" "\<not> it_vacant ?it" "it_path ?it = []"
    by (simp_all add: new_eq_iterator_def case_prod_unfold Let_def)
  ultimately show ?thesis using elements_eq [of ?it ?m as "vi_tree s"] by simp
qed

section \<open>The index of a tag in the manager\<close>

text \<open>
  The list of a tag is empty, as an add that threw can leave it, or holds the index of the tag at property 0;
  tag 0 has none.
\<close>

definition list_ok :: "u16 \<Rightarrow> 'f index_list \<Rightarrow> bool" where
  "list_ok tag l \<longleftrightarrow> (il_num l = 0 \<longleftrightarrow> il_map l = Map.empty) \<and>
     (tag \<noteq> 0 \<longrightarrow> il_map l = Map.empty \<or> (\<exists>s. il_map l 0 = Some (Some (BoolIndex s))))"

definition tag_ok :: "index_type \<Rightarrow> u16 \<Rightarrow> 'f index_manager \<Rightarrow> bool" where
  "tag_ok ty tag im \<longleftrightarrow> (case im_tags im ty tag of None \<Rightarrow> True | Some l \<Rightarrow> list_ok tag l)"

definition tag_objects :: "index_type \<Rightarrow> u16 \<Rightarrow> 'f index_manager \<Rightarrow> addr list \<Rightarrow> bool" where
  "tag_objects ty tag im xs \<longleftrightarrow> tag_ok ty tag im \<and>
     (case index_at ty tag 0 im of None \<Rightarrow> xs = [] | Some (Some (BoolIndex s)) \<Rightarrow> tag_index_ok s xs | _ \<Rightarrow> False)"

definition others_same :: "index_type \<Rightarrow> u16 \<Rightarrow> 'f index_manager \<Rightarrow> 'f index_manager \<Rightarrow> bool" where
  "others_same ty tag im im' \<longleftrightarrow> (\<forall>ty' tag'. (ty', tag') \<noteq> (ty, tag) \<longrightarrow> im_tags im' ty' tag' = im_tags im ty' tag')"

lemma others_same_refl [simp]: "others_same ty tag im im"
  by (simp add: others_same_def)

lemma others_same_trans: "others_same ty tag a b \<Longrightarrow> others_same ty tag b c \<Longrightarrow> others_same ty tag a c"
  by (simp add: others_same_def)

lemma put_list_simps [simp]:
  "im_tags (put_list ty tag l im) ty' tag' = (if ty' = ty \<and> tag' = tag then Some l else im_tags im ty' tag')"
  "others_same ty tag im (put_list ty tag l im)"
  "others_same ty tag im (put_list ty tag l im') = others_same ty tag im im'"
  by (auto simp: put_list_def others_same_def)

lemma index_at_put_list [simp]: "index_at ty tag pid (put_list ty tag l im) = il_map l pid"
  by (simp add: index_at_def)

lemma tag_ok_put_list [simp]: "tag_ok ty tag (put_list ty tag l im) = list_ok tag l"
  by (simp add: tag_ok_def)

lemma put_index_simps:
  "im_tags im ty tag = Some l \<Longrightarrow> put_index ty tag pid idx im = put_list ty tag (il_set pid (Some idx) l) im"
  "others_same ty tag im (put_index ty tag pid idx im)"
  by (simp_all add: put_index_def split: option.splits)

lemma list_ok_empty [simp]: "list_ok tag il_empty" "il_map il_empty = Map.empty" "il_num il_empty = 0"
  by (simp_all add: list_ok_def il_empty_def)

text \<open>A place in the list that \<open>add_tag_index\<close> returns.\<close>

definition tag_place :: "index_type \<Rightarrow> u16 \<Rightarrow> addr list_heap \<Rightarrow> 'f index_manager \<Rightarrow> u16 \<Rightarrow> 'f index option option" where
  "tag_place ty tag H im pid =
     (if tag \<noteq> 0 \<and> pid = 0 \<and> index_at ty tag 0 im = None then Some (Some (BoolIndex \<lparr>vi_tree = Null, vi_lists = H\<rparr>))
      else index_at ty tag pid im)"

definition tag_calls :: "index_type \<Rightarrow> u16 \<Rightarrow> manager_call set" where
  "tag_calls ty tag = {Tag_add ty tag, Index_alloc ty tag 0, Entry_add ty tag 0}"

definition calls_throw :: "manager_env \<Rightarrow> manager_call set \<Rightarrow> pmgd_error \<Rightarrow> bool" where
  "calls_throw me cs e \<longleftrightarrow> (\<exists>c\<in>cs. me_throws me c = Some e)"

lemma tag_list_add_ok:
  assumes ok: "tag_ok ty tag im"
  shows "\<exists>r im1. tag_list_add me ty tag im = (r, im1) \<and> others_same ty tag im im1 \<and>
    (case r of Inl e \<Rightarrow> me_throws me (Tag_add ty tag) = Some e \<and> im1 = im
     | Inr l \<Rightarrow> im_tags im1 ty tag = Some l \<and> list_ok tag l \<and> (\<forall>pid. il_map l pid = index_at ty tag pid im))"
  using ok by (cases "me_throws me (Tag_add ty tag)"; cases "im_tags im ty tag")
    (simp_all add: tag_list_add_def tag_ok_def index_at_def)

lemma add_tag_index_ok:
  assumes ok: "tag_ok ty tag im"
  shows "\<exists>r im1. add_tag_index me ty tag H im = (r, im1) \<and> others_same ty tag im im1 \<and> tag_ok ty tag im1 \<and>
    (case r of Inl e \<Rightarrow> calls_throw me (tag_calls ty tag) e \<and> (\<forall>pid. index_at ty tag pid im1 = index_at ty tag pid im)
     | Inr l \<Rightarrow> im_tags im1 ty tag = Some l \<and> (\<forall>pid. il_map l pid = tag_place ty tag H im pid))"
proof -
  obtain r :: "'a index_list result" and im1 where r: "tag_list_add me ty tag im = (r, im1)" "others_same ty tag im im1"
    "case r of Inl e \<Rightarrow> me_throws me (Tag_add ty tag) = Some e \<and> im1 = im
     | Inr l \<Rightarrow> im_tags im1 ty tag = Some l \<and> list_ok tag l \<and> (\<forall>pid. il_map l pid = index_at ty tag pid im)"
    using tag_list_add_ok [OF ok, of me] by (elim exE conjE) (rule that)
  show ?thesis
  proof (cases r)
    case (Inl e)
    then show ?thesis using r ok by (auto simp: add_tag_index_def calls_throw_def tag_calls_def)
  next
    case (Inr l)
    then have l: "im_tags im1 ty tag = Some l" "list_ok tag l" "\<And>pid. il_map l pid = index_at ty tag pid im" using r(3) by simp_all
    then have at: "index_at ty tag pid im1 = index_at ty tag pid im" for pid by (simp add: index_at_def)
    have ok1: "tag_ok ty tag im1" using l by (simp add: tag_ok_def)
    show ?thesis
    proof (cases "il_num l = 0 \<and> tag \<noteq> 0")
      case False
      then have "tag_place ty tag H im pid = il_map l pid" for pid
        using l(2, 3) by (cases "tag = 0") (auto simp: tag_place_def list_ok_def)
      moreover have "add_tag_index me ty tag H im = (Inr l, im1)" using False r(1) Inr by (auto simp: add_tag_index_def)
      ultimately show ?thesis using r(2) l(1, 3) ok1 by simp
    next
      case True
      then have empty: "il_map l = Map.empty" using l(2) by (simp add: list_ok_def)
      then have none: "index_at ty tag pid im = None" for pid using l(3) by metis
      have thrown: "me_throws me c = Some e \<Longrightarrow> c \<in> tag_calls ty tag \<Longrightarrow> calls_throw me (tag_calls ty tag) e" for c e
        by (auto simp: calls_throw_def)
      show ?thesis
      proof (cases "me_throws me (Index_alloc ty tag 0)")
        case (Some e)
        then show ?thesis using thrown [OF Some] True r(1, 2) Inr ok1 at by (simp add: add_tag_index_def tag_calls_def)
      next
        case alloc: None
        show ?thesis
        proof (cases "me_throws me (Entry_add ty tag 0)")
          case (Some e)
          then show ?thesis using thrown [OF Some] True alloc r(1, 2) Inr ok1 at
            by (simp add: add_tag_index_def index_list_add_def tag_calls_def)
        next
          case None
          then show ?thesis using True alloc r(1, 2) Inr empty none
            by (auto simp: add_tag_index_def index_list_add_def il_set_def list_ok_def tag_place_def Let_def fun_eq_iff)
        qed
      qed
    qed
  qed
qed

text \<open>The memory for the next object of a tag.\<close>

definition tag_room :: "index_type \<Rightarrow> u16 \<Rightarrow> addr list_heap \<Rightarrow> 'f index_manager \<Rightarrow> addr list" where
  "tag_room ty tag H im = (case index_at ty tag 0 im of Some (Some (BoolIndex s)) \<Rightarrow> lh_supply (vi_lists s) | _ \<Rightarrow> lh_supply H)"

lemma tag_objects_put:
  assumes "im_tags im ty tag = Some l" "list_ok tag l" "il_num l \<noteq> 0" "tag_index_ok s xs"
  shows "tag_objects ty tag (put_index ty tag 0 (BoolIndex s) im) xs"
  using assms by (auto simp: tag_objects_def put_index_simps(1) [OF assms(1)] il_set_def list_ok_def)

lemma manager_add_ok:
  assumes tag: "tag \<noteq> 0" and t: "tag_objects ty tag im xs" and H: "supply_ok H"
  shows "\<exists>r im'. manager_add me ty tag obj H im = Some (r, im') \<and> others_same ty tag im im' \<and>
    (case r of
       Inl e \<Rightarrow> (calls_throw me (insert (Entry_find ty tag 0) (tag_calls ty tag)) e \<or> tree_throws (me_index me False) e \<or>
         e = BadAlloc \<and> tag_room ty tag H im = []) \<and> tag_objects ty tag im' xs
     | Inr b \<Rightarrow> b \<and> tag_objects ty tag im' (obj # xs))"
proof -
  obtain r :: "'a index_list result" and im1 where r: "add_tag_index me ty tag H im = (r, im1)" "others_same ty tag im im1" "tag_ok ty tag im1"
    "case r of Inl e \<Rightarrow> calls_throw me (tag_calls ty tag) e \<and> (\<forall>pid. index_at ty tag pid im1 = index_at ty tag pid im)
     | Inr l \<Rightarrow> im_tags im1 ty tag = Some l \<and> (\<forall>pid. il_map l pid = tag_place ty tag H im pid)"
    using add_tag_index_ok [OF conjunct1 [OF t [unfolded tag_objects_def]], of me H] by (elim exE conjE) (rule that)
  show ?thesis
  proof (cases r)
    case (Inl e)
    then have "tag_objects ty tag im1 xs" using r(3, 4) t by (simp add: tag_objects_def)
    then show ?thesis using r Inl tag by (auto simp: manager_add_def calls_throw_def)
  next
    case (Inr l)
    then have l: "im_tags im1 ty tag = Some l" "\<And>pid. il_map l pid = tag_place ty tag H im pid" "list_ok tag l"
      using r(3, 4) by (simp_all add: tag_ok_def)
    obtain s where s: "il_map l 0 = Some (Some (BoolIndex s))" "tag_index_ok s xs" "lh_supply (vi_lists s) = tag_room ty tag H im"
    proof (cases "index_at ty tag 0 im")
      case None
      then have "tag_index_ok \<lparr>vi_tree = Null, vi_lists = H\<rparr> xs" using t H by (simp add: tag_objects_def tag_index_ok_def)
      then show thesis using that None tag l(2) by (simp add: tag_place_def tag_room_def)
    next
      case (Some i)
      then obtain s where "i = Some (BoolIndex s)" "tag_index_ok s xs" using t by (auto simp: tag_objects_def split: option.splits index.splits)
      then show thesis using that Some l(2) by (simp add: tag_place_def tag_room_def)
    qed
    have ne: "il_num l \<noteq> 0" using l(3) s(1) by (auto simp: list_ok_def)
    have at: "index_at ty tag 0 im1 = Some (Some (BoolIndex s))" using l(1) s(1) by (simp add: index_at_def)
    have obj1: "tag_objects ty tag im1 xs" using r(3) at s(2) by (simp add: tag_objects_def)
    show ?thesis
    proof (cases "me_throws me (Entry_find ty tag 0)")
      case (Some e)
      then show ?thesis using r(1, 2) Inr tag obj1 by (auto simp: manager_add_def tag_index_def calls_throw_def)
    next
      case None
      obtain r2 :: "unit result" and s' where r2: "vi_add_call (me_index me False) True obj s = Some (r2, s')"
        "case r2 of Inl e \<Rightarrow> (tree_throws (me_index me False) e \<or> e = BadAlloc \<and> lh_supply (vi_lists s) = []) \<and> tag_index_ok s' xs
         | Inr _ \<Rightarrow> tag_index_ok s' (obj # xs)"
        using tag_add_ok [OF s(2), of "me_index me False" obj] by (elim exE conjE) (rule that)
      have "manager_add me ty tag obj H im =
          Some (case r2 of Inl e \<Rightarrow> Inl e | Inr _ \<Rightarrow> Inr True, put_index ty tag 0 (BoolIndex s') im1)"
        using None r(1) Inr tag s(1) r2(1) by (simp add: manager_add_def tag_index_def)
      moreover have "others_same ty tag im (put_index ty tag 0 (BoolIndex s') im1)" by (rule others_same_trans [OF r(2) put_index_simps(2)])
      ultimately show ?thesis using r2(2) s(3) tag_objects_put [OF l(1, 3) ne] by (cases r2) auto
    qed
  qed
qed

lemma manager_remove_ok:
  assumes tag: "tag \<noteq> 0" and t: "tag_objects ty tag im xs" and m: "obj \<in> set xs"
  shows "\<exists>r im'. manager_remove me ty tag obj im = Some (r, im') \<and> others_same ty tag im im' \<and>
    (case r of
       Inl e \<Rightarrow> (calls_throw me {Tag_add ty tag, Entry_find ty tag 0} e \<or> e = LockTimeout \<and> lock_timeout (me_index me False)) \<and>
         tag_objects ty tag im' xs
     | Inr _ \<Rightarrow> tag_objects ty tag im' (del_first ((=) obj) xs))"
proof -
  obtain l s where s: "im_tags im ty tag = Some l" "list_ok tag l" "il_map l 0 = Some (Some (BoolIndex s))" "tag_index_ok s xs"
    using t m by (auto simp: tag_objects_def tag_ok_def index_at_def split: option.splits index.splits)
  have ne: "il_num l \<noteq> 0" using s(2, 3) by (auto simp: list_ok_def)
  obtain a h h' H' es where r: "fst (get_locks_find True (vi_tree s)) = Some (a, h)"
    "list_remove (=) obj h (vi_lists s) = Some (h', H', es)"
    "tag_index_ok \<lparr>vi_tree = set_value a h' (vi_tree s), vi_lists = H'\<rparr> (del_first ((=) obj) xs)"
    using tag_remove_ok [OF s(4) m] by blast
  let ?im = "put_index ty tag 0 (BoolIndex \<lparr>vi_tree = set_value a h' (vi_tree s), vi_lists = H'\<rparr>) im"
  consider (tags) e where "me_throws me (Tag_add ty tag) = Some e"
    | (entry) e where "me_throws me (Tag_add ty tag) = None" "me_throws me (Entry_find ty tag 0) = Some e"
    | (lock) "me_throws me (Tag_add ty tag) = None" "me_throws me (Entry_find ty tag 0) = None"
        "denied (me_index me False) (find_locks True (vi_tree s))"
    | (fine) "me_throws me (Tag_add ty tag) = None" "me_throws me (Entry_find ty tag 0) = None"
        "\<not> denied (me_index me False) (find_locks True (vi_tree s))"
    by fastforce
  then show ?thesis
  proof cases
    case tags
    then show ?thesis using t tag by (simp add: manager_remove_def tag_list_add_def calls_throw_def)
  next
    case entry
    then show ?thesis using t tag s(1) by (simp add: manager_remove_def tag_list_add_def tag_index_def calls_throw_def)
  next
    case lock
    then show ?thesis using t tag s(1, 3) denied_timeout [OF lock(3)] by (simp add: manager_remove_def tag_list_add_def tag_index_def)
  next
    case fine
    then have "manager_remove me ty tag obj im = Some (Inr (), ?im)"
      using s(1, 3) r(1, 2) tag by (simp add: manager_remove_def tag_list_add_def tag_index_def)
    then show ?thesis using tag_objects_put [OF s(1, 2) ne r(3)] put_index_simps(2) [of ty tag im] by simp
  qed
qed

lemma manager_iterator_ok:
  assumes "tag_objects ty tag im xs"
  shows "case find_throws me ty tag 0 im of
      Some e \<Rightarrow> manager_get_iterator me coll ty tag im = Some (Inl e)
    | None \<Rightarrow>
        if index_at ty tag 0 im = None then manager_get_iterator me coll ty tag im = Some (Inr None) \<and> xs = []
        else \<exists>idx it. index_at ty tag 0 im = Some (Some idx) \<and>
          manager_get_iterator me coll ty tag im = Some (Inr (Some it)) \<and> typed_elements idx it = Some xs"
proof (cases "find_throws me ty tag 0 im")
  case (Some e)
  then show ?thesis by (simp add: manager_get_iterator_def get_index_def)
next
  case found: None
  show ?thesis
  proof (cases "index_at ty tag 0 im")
    case None
    then show ?thesis using found assms by (simp add: manager_get_iterator_def get_index_def tag_objects_def)
  next
    case (Some i)
    then obtain s where s: "index_at ty tag 0 im = Some (Some (BoolIndex s))" "tag_index_ok s xs"
      using assms by (auto simp: tag_objects_def split: option.splits index.splits)
    then have "manager_get_iterator me coll ty tag im = Some (Inr (Some (BoolIt (new_eq_iterator (vi_tree s) True))))"
      using found by (simp add: manager_get_iterator_def get_index_def index_get_iterator_def tag_predicate_def range_op_def choose_iterator_def
          get_iterator_op_def Let_def)
    then show ?thesis using found s(1) tag_elements [OF s(2)] by simp
  qed
qed

text \<open>
  C29. For a tag other than 0 the manager keeps the sequence of the tagged objects: \<open>add\<close> puts an object in
  front, making the tag's list and index if needed, or throws what one of its calls throws: a chunk list, an
  allocation, a lock of the tree, or \<open>BadAlloc\<close> without a cell; \<open>remove\<close> of an object of the tag deletes its
  first occurrence, or throws what a chunk list throws or \<open>LockTimeout\<close> of the tree. When they throw, the
  sequence is what it was. The iterator of the tag, with the locks of the tree granted, yields the sequence,
  also when it has become empty; without an index of the tag it is \<open>NULL\<close>. Nothing changes for another tag
  or kind.
\<close>

theorem tag_index_is_sequence:
  assumes "tag \<noteq> 0" "tag_objects ty tag im xs" "supply_ok H"
  shows "(\<exists>r im'. manager_add me ty tag obj H im = Some (r, im') \<and> others_same ty tag im im' \<and>
      (case r of
         Inl e \<Rightarrow> (calls_throw me (insert (Entry_find ty tag 0) (tag_calls ty tag)) e \<or> tree_throws (me_index me False) e \<or>
           e = BadAlloc \<and> tag_room ty tag H im = []) \<and> tag_objects ty tag im' xs
       | Inr b \<Rightarrow> b \<and> tag_objects ty tag im' (obj # xs))) \<and>
    (obj \<in> set xs \<longrightarrow> (\<exists>r im'. manager_remove me ty tag obj im = Some (r, im') \<and> others_same ty tag im im' \<and>
      (case r of
         Inl e \<Rightarrow> (calls_throw me {Tag_add ty tag, Entry_find ty tag 0} e \<or> e = LockTimeout \<and> lock_timeout (me_index me False)) \<and>
           tag_objects ty tag im' xs
       | Inr _ \<Rightarrow> tag_objects ty tag im' (del_first ((=) obj) xs)))) \<and>
    (case find_throws me ty tag 0 im of
       Some e \<Rightarrow> manager_get_iterator me coll ty tag im = Some (Inl e)
     | None \<Rightarrow>
         if index_at ty tag 0 im = None then manager_get_iterator me coll ty tag im = Some (Inr None) \<and> xs = []
         else \<exists>idx it. index_at ty tag 0 im = Some (Some idx) \<and>
           manager_get_iterator me coll ty tag im = Some (Inr (Some it)) \<and> typed_elements idx it = Some xs)"
  by (intro conjI impI manager_add_ok [OF assms] manager_remove_ok [OF assms(1, 2)] manager_iterator_ok [OF assms(2)])

section \<open>The indices of a property\<close>

text \<open>The places of the indices.\<close>

definition view :: "'f index_manager \<Rightarrow> index_type \<times> u16 \<times> u16 \<Rightarrow> 'f index option option" where
  "view im p = (case p of (ty, tag, pid) \<Rightarrow> index_at ty tag pid im)"

lemma view_at: "view im (ty, tag, pid) = index_at ty tag pid im"
  by (simp add: view_def)

lemma view_put:
  assumes "index_at ty tag pid im = Some i"
  shows "view (put_index ty tag pid idx im) = (view im)((ty, tag, pid) := Some (Some idx))"
  using assms by (auto simp: view_def index_at_def put_index_def il_set_def fun_eq_iff split: option.splits)

definition op_result :: "('f index \<Rightarrow> (unit result \<times> 'f index) option) \<Rightarrow> 'f index \<Rightarrow> 'f index" where
  "op_result f idx = snd (the (f idx))"

definition runs :: "('f index \<Rightarrow> (unit result \<times> 'f index) option) \<Rightarrow> 'f index \<Rightarrow> bool" where
  "runs f idx \<longleftrightarrow> (\<exists>idx'. f idx = Some (Inr (), idx'))"

lemma calls_append: "calls fs s = Some (Inr (), s') \<Longrightarrow> calls (fs @ gs) s = calls gs s'"
  by (induction fs s rule: calls.induct) (auto split: option.splits sum.splits)

lemma call_at:
  assumes "index_at ty tag pid im = map_option Some i" "\<And>idx. i = Some idx \<Longrightarrow> runs f idx"
  shows "\<exists>im'. calls (if i = None then [] else [index_op f ty tag pid]) im = Some (Inr (), im') \<and>
    view im' = (view im)((ty, tag, pid) := map_option (\<lambda>idx. Some (op_result f idx)) i)"
proof (cases i)
  case None
  then show ?thesis using assms(1) by (auto simp: view_def fun_eq_iff)
next
  case (Some idx)
  obtain idx' where "f idx = Some (Inr (), idx')" using assms(2) [OF Some] by (auto simp: runs_def)
  then show ?thesis using assms(1) Some view_put [of ty tag pid im] by (simp add: index_op_def op_result_def)
qed

text \<open>The same call at two places.\<close>

lemma calls_at:
  assumes "index_at ty tag pid im = map_option Some i" "\<And>idx. i = Some idx \<Longrightarrow> runs f idx"
    and "index_at ty tag' pid im = map_option Some j" "\<And>idx. j = Some idx \<Longrightarrow> runs g idx" and ne: "tag \<noteq> tag'"
  shows "\<exists>im'. calls ((if i = None then [] else [index_op f ty tag pid]) @ (if j = None then [] else [index_op g ty tag' pid])) im = Some (Inr (), im') \<and>
    view im' = (view im)((ty, tag, pid) := map_option (\<lambda>idx. Some (op_result f idx)) i, (ty, tag', pid) := map_option (\<lambda>idx. Some (op_result g idx)) j)"
proof -
  obtain im1 where 1: "calls (if i = None then [] else [index_op f ty tag pid]) im = Some (Inr (), im1)"
    "view im1 = (view im)((ty, tag, pid) := map_option (\<lambda>idx. Some (op_result f idx)) i)"
    using call_at [OF assms(1, 2)] by blast
  have "index_at ty tag' pid im1 = map_option Some j" using assms(3) ne unfolding view_at [symmetric] 1(2) by simp
  then show ?thesis using call_at [of ty tag' pid im1 j g] assms(4) unfolding calls_append [OF 1(1)] 1(2) by blast
qed

subsection \<open>One index\<close>

definition removal :: "index_env \<Rightarrow> (u8 list \<Rightarrow> u8 list) \<Rightarrow> addr \<Rightarrow> 'f::linorder property option \<Rightarrow> 'f index \<Rightarrow> 'f index" where
  "removal ie coll obj old idx = (case old of None \<Rightarrow> idx | Some p \<Rightarrow> op_result (index_remove ie coll p obj) idx)"

definition addition :: "index_env \<Rightarrow> (u8 list \<Rightarrow> u8 list) \<Rightarrow> addr \<Rightarrow> 'f::linorder property option \<Rightarrow> 'f index \<Rightarrow> 'f index" where
  "addition ie coll obj new idx = (case new of None \<Rightarrow> idx | Some p \<Rightarrow> op_result (index_add ie coll p obj) idx)"

definition can_add :: "index_env \<Rightarrow> 'f::linorder index \<Rightarrow> bool" where
  "can_add ie idx \<longleftrightarrow> index_balanced idx \<and> node_fresh ie (index_nodes idx) \<and> index_room idx \<noteq> []"

definition suits :: "(u8 list \<Rightarrow> u8 list) \<Rightarrow> 'f::linorder property option \<Rightarrow> 'f index \<Rightarrow> bool" where
  "suits coll p idx \<longleftrightarrow> (case p of None \<Rightarrow> True | Some v \<Rightarrow> type_of v = index_ptype idx \<and> key_of coll v \<noteq> None)"

text \<open>
  The index is balanced, the values have its type, and once the old value is removed it is balanced still and
  can take the new one; its environment throws nothing.
\<close>

definition ready ::
    "index_env \<Rightarrow> (u8 list \<Rightarrow> u8 list) \<Rightarrow> addr \<Rightarrow> 'f::linorder property option \<Rightarrow> 'f property option \<Rightarrow> 'f index \<Rightarrow> bool" where
  "ready ie coll obj old new idx \<longleftrightarrow> quiet ie \<and> index_balanced idx \<and> suits coll old idx \<and> suits coll new idx \<and>
     (new = None \<or> can_add ie (removal ie coll obj old idx))"

definition map_removed ::
    "(u8 list \<Rightarrow> u8 list) \<Rightarrow> addr \<Rightarrow> 'f property option \<Rightarrow> ('f key \<rightharpoonup> addr list) \<Rightarrow> ('f key \<rightharpoonup> addr list)" where
  "map_removed coll obj old M = (case old of None \<Rightarrow> M | Some p \<Rightarrow> map_remove_obj (the (key_of coll p)) obj M)"

definition map_changed ::
    "(u8 list \<Rightarrow> u8 list) \<Rightarrow> addr \<Rightarrow> 'f property option \<Rightarrow> 'f property option \<Rightarrow> ('f key \<rightharpoonup> addr list) \<Rightarrow> ('f key \<rightharpoonup> addr list)" where
  "map_changed coll obj old new M =
     (case new of None \<Rightarrow> map_removed coll obj old M
      | Some p \<Rightarrow> map_add_obj (the (key_of coll p)) obj (map_removed coll obj old M))"

lemma add_runs:
  assumes "quiet ie" "index_ok idx m" "can_add ie idx" "suits coll (Some p) idx"
  shows "runs (index_add ie coll p obj) idx" "index_ok (addition ie coll obj (Some p) idx) (map_add_obj (the (key_of coll p)) obj m)"
    "index_ptype (addition ie coll obj (Some p) idx) = index_ptype idx"
proof -
  obtain k where k: "key_of coll p = Some k" "index_ptype idx = type_of p" using assms(4) by (auto simp: suits_def)
  have c: "index_balanced idx" "node_fresh ie (index_nodes idx)" "index_room idx \<noteq> []" using assms(3) by (simp_all add: can_add_def)
  obtain r :: "unit result" and idx' where r: "index_add ie coll p obj idx = Some (r, idx')" "index_ptype idx' = index_ptype idx"
    "case r of Inl e \<Rightarrow> add_failed ie (m k = None) (index_room idx = []) (idx' = idx) e
     | Inr _ \<Rightarrow> index_balanced idx' \<and> index_ok idx' (map_add_obj k obj m)"
    using index_add_ok [OF assms(2) c(1, 2) k(2, 1), of obj] by (elim exE conjE) (rule that)
  have "r = Inr ()" using r(3) c(3) assms(1) by (cases r) (auto simp: add_failed_def quiet_def)
  then show "runs (index_add ie coll p obj) idx" "index_ok (addition ie coll obj (Some p) idx) (map_add_obj (the (key_of coll p)) obj m)"
    "index_ptype (addition ie coll obj (Some p) idx) = index_ptype idx"
    using r k by (simp_all add: runs_def addition_def op_result_def)
qed

lemma remove_runs:
  assumes "quiet ie" "index_ok idx m" "index_balanced idx" "suits coll (Some p) idx"
  shows "runs (index_remove ie coll p obj) idx" "index_ok (removal ie coll obj (Some p) idx) (map_removed coll obj (Some p) m)"
    "index_ptype (removal ie coll obj (Some p) idx) = index_ptype idx"
proof -
  obtain k where k: "key_of coll p = Some k" "index_ptype idx = type_of p" using assms(4) by (auto simp: suits_def)
  obtain r :: "unit result" and idx' where r: "index_remove ie coll p obj idx = Some (r, idx')" "index_ptype idx' = index_ptype idx"
    "case r of Inl e \<Rightarrow> remove_failed ie (map_remove_obj k obj m k = None) (idx' = idx) e
     | Inr _ \<Rightarrow> index_ok idx' (map_remove_obj k obj m)"
    using index_remove_ok [OF assms(2, 3) k(2, 1), of ie obj] by (elim exE conjE) (rule that)
  have "r = Inr ()" using r(3) assms(1) by (cases r) (auto simp: remove_failed_def quiet_def)
  then show "runs (index_remove ie coll p obj) idx" "index_ok (removal ie coll obj (Some p) idx) (map_removed coll obj (Some p) m)"
    "index_ptype (removal ie coll obj (Some p) idx) = index_ptype idx"
    using r k by (simp_all add: runs_def removal_def map_removed_def op_result_def)
qed

lemma removal_ok:
  assumes "quiet ie" "index_ok idx m" "index_balanced idx" "suits coll old idx"
  shows "index_ok (removal ie coll obj old idx) (map_removed coll obj old m)"
    "index_ptype (removal ie coll obj old idx) = index_ptype idx"
  using remove_runs [where obj = obj, OF assms(1-3)] assms by (cases old; simp add: removal_def map_removed_def)+

lemma changed_ok:
  assumes "index_ok idx m" "ready ie coll obj old new idx"
  shows "index_ok (addition ie coll obj new (removal ie coll obj old idx)) (map_changed coll obj old new m)"
    "\<And>p. new = Some p \<Longrightarrow> runs (index_add ie coll p obj) (removal ie coll obj old idx)"
    "\<And>p. old = Some p \<Longrightarrow> runs (index_remove ie coll p obj) idx"
proof -
  have q: "quiet ie" and r: "index_balanced idx" "suits coll old idx" "suits coll new idx"
    "new = None \<or> can_add ie (removal ie coll obj old idx)"
    using assms(2) by (simp_all add: ready_def)
  note rm = removal_ok [OF q assms(1) r(1, 2), of obj]
  have s: "suits coll (Some p) (removal ie coll obj old idx)" if "new = Some p" for p
    using r(3) that rm(2) by (simp add: suits_def)
  have c: "can_add ie (removal ie coll obj old idx)" if "new = Some p" for p using r(4) that by simp
  show "index_ok (addition ie coll obj new (removal ie coll obj old idx)) (map_changed coll obj old new m)"
    using rm(1) add_runs(2) [where obj = obj, OF q rm(1) c s] by (cases new) (simp_all add: addition_def map_changed_def)
  show "runs (index_add ie coll p obj) (removal ie coll obj old idx)" if "new = Some p" for p
    by (rule add_runs(1) [OF q rm(1) c [OF that] s [OF that]])
  show "runs (index_remove ie coll p obj) idx" if "old = Some p" for p
    using remove_runs(1) [OF q assms(1) r(1)] r(2) that by simp
qed

subsection \<open>Both indices\<close>

definition index_holds :: "'f::linorder index option \<Rightarrow> ('f key \<rightharpoonup> addr list) option \<Rightarrow> bool" where
  "index_holds i M \<longleftrightarrow> (case i of None \<Rightarrow> M = None | Some idx \<Rightarrow> \<exists>m. M = Some m \<and> index_ok idx m)"

text \<open>Neither a chunk list nor the allocator throws.\<close>

definition lists_quiet :: "manager_env \<Rightarrow> bool" where
  "lists_quiet me \<longleftrightarrow> (\<forall>c. me_throws me c = None)"

lemma get_index_suits:
  assumes "lists_quiet me" "index_at ty tag pid im = map_option Some i" "\<And>idx. i = Some idx \<Longrightarrow> suits coll new idx"
  shows "get_index me ty tag pid (map_option type_of new) im = Some (Inr i)"
proof -
  have "find_throws me ty tag pid im = None" using assms(1) by (simp add: find_throws_def lists_quiet_def split: option.splits)
  then show ?thesis using assms(2, 3) by (cases i; cases new) (simp_all add: get_index_def check_type_def suits_def)
qed

abbreviation one_call ::
    "'f index option \<Rightarrow> ('f index \<Rightarrow> (unit result \<times> 'f index) option) \<Rightarrow> index_type \<Rightarrow> u16 \<Rightarrow> u16 \<Rightarrow>
     ('f index_manager \<Rightarrow> (unit result \<times> 'f index_manager) option) list" where
  "one_call i f ty tag pid \<equiv> (if i = None then [] else [index_op f ty tag pid])"

lemma update_calls:
  assumes q: "lists_quiet me" and i: "index_at ty tag pid im = map_option Some i" and j: "index_at ty 0 pid im = map_option Some j"
    and s: "\<And>idx. i = Some idx \<Longrightarrow> suits coll new idx" "\<And>idx. j = Some idx \<Longrightarrow> suits coll new idx"
  shows "update me coll ty tag obj pid old new im =
    calls ((case old of None \<Rightarrow> []
        | Some p \<Rightarrow> one_call i (index_remove (me_index me False) coll p obj) ty tag pid @
            one_call j (index_remove (me_index me True) coll p obj) ty 0 pid) @
      (case new of None \<Rightarrow> []
        | Some p \<Rightarrow> one_call i (index_add (me_index me False) coll p obj) ty tag pid @
            one_call j (index_add (me_index me True) coll p obj) ty 0 pid)) im"
  using get_index_suits [OF q i, of coll new, OF s(1)] get_index_suits [OF q j, of coll new, OF s(2)]
  by (simp add: update_def Let_def)

lemma update_places:
  fixes me :: manager_env
  defines "a \<equiv> me_index me False" and "g \<equiv> me_index me True"
  assumes q: "lists_quiet me" and tag: "tag \<noteq> 0"
    and i: "index_at ty tag pid im = map_option Some i" "\<And>idx. i = Some idx \<Longrightarrow> \<exists>m. index_ok idx m \<and> ready a coll obj old new idx"
    and j: "index_at ty 0 pid im = map_option Some j" "\<And>idx. j = Some idx \<Longrightarrow> \<exists>m. index_ok idx m \<and> ready g coll obj old new idx"
  shows "\<exists>im'. update me coll ty tag obj pid old new im = Some (Inr (), im') \<and>
    view im' = (view im)
      ((ty, tag, pid) := map_option (\<lambda>idx. Some (addition a coll obj new (removal a coll obj old idx))) i,
       (ty, 0, pid) := map_option (\<lambda>idx. Some (addition g coll obj new (removal g coll obj old idx))) j)"
proof -
  have si: "suits coll new idx" if "i = Some idx" for idx using i(2) [OF that] by (auto simp: ready_def)
  have sj: "suits coll new idx" if "j = Some idx" for idx using j(2) [OF that] by (auto simp: ready_def)
  let ?i = "map_option (removal a coll obj old) i" and ?j = "map_option (removal g coll obj old) j"
  obtain im1 where 1: "calls (case old of None \<Rightarrow> []
        | Some p \<Rightarrow> one_call i (index_remove a coll p obj) ty tag pid @ one_call j (index_remove g coll p obj) ty 0 pid) im = Some (Inr (), im1)"
    "view im1 = (view im)((ty, tag, pid) := map_option Some ?i, (ty, 0, pid) := map_option Some ?j)"
  proof (cases old)
    case None
    then show thesis using that [of im] i(1) j(1) by (auto simp: removal_def view_def fun_eq_iff option.map_comp comp_def)
  next
    case (Some p)
    have "runs (index_remove a coll p obj) idx" if "i = Some idx" for idx using i(2) [OF that] changed_ok(3) Some by blast
    moreover have "runs (index_remove g coll p obj) idx" if "j = Some idx" for idx using j(2) [OF that] changed_ok(3) Some by blast
    ultimately show thesis
      using calls_at [OF i(1) _ j(1) _ tag, of "index_remove a coll p obj" "index_remove g coll p obj"] that Some
      by (auto simp: removal_def option.map_comp comp_def)
  qed
  have at: "index_at ty tag pid im1 = map_option Some ?i" "index_at ty 0 pid im1 = map_option Some ?j"
    using tag unfolding view_at [symmetric] 1(2) by simp_all
  have "\<exists>im'. calls (case new of None \<Rightarrow> []
        | Some p \<Rightarrow> one_call i (index_add a coll p obj) ty tag pid @ one_call j (index_add g coll p obj) ty 0 pid) im1 = Some (Inr (), im') \<and>
    view im' = (view im1)
      ((ty, tag, pid) := map_option (\<lambda>idx. Some (addition a coll obj new idx)) ?i,
       (ty, 0, pid) := map_option (\<lambda>idx. Some (addition g coll obj new idx)) ?j)"
  proof (cases new)
    case None
    then show ?thesis using at by (auto simp: addition_def view_def fun_eq_iff option.map_comp comp_def)
  next
    case (Some p)
    have "runs (index_add a coll p obj) idx" if "?i = Some idx" for idx using i(2) changed_ok(2) Some that by fastforce
    moreover have "runs (index_add g coll p obj) idx" if "?j = Some idx" for idx using j(2) changed_ok(2) Some that by fastforce
    ultimately show ?thesis
      using calls_at [OF at(1) _ at(2) _ tag, of "index_add a coll p obj" "index_add g coll p obj"] Some
      by (simp add: addition_def)
  qed
  then obtain im' where 2: "calls (case new of None \<Rightarrow> []
        | Some p \<Rightarrow> one_call i (index_add a coll p obj) ty tag pid @ one_call j (index_add g coll p obj) ty 0 pid) im1 = Some (Inr (), im')"
    "view im' = (view im)
      ((ty, tag, pid) := map_option (\<lambda>idx. Some (addition a coll obj new (removal a coll obj old idx))) i,
       (ty, 0, pid) := map_option (\<lambda>idx. Some (addition g coll obj new (removal g coll obj old idx))) j)"
    using tag unfolding 1(2) by (auto simp: option.map_comp comp_def fun_upd_twist)
  have "update me coll ty tag obj pid old new im = Some (Inr (), im')"
    using update_calls [OF q i(1) j(1) si sj, of obj old, folded a_def g_def] 2(1) calls_append [OF 1(1)] by simp
  then show ?thesis using 2(2) by blast
qed

text \<open>
  C17. When no chunk list and no lock throws, the allocator gives memory, and both indices are balanced, have
  the values' type, and are balanced still once the old value is removed (\<open>ready\<close>): for a tag other than 0,
  \<open>update\<close> keeps both indices of a property, the one for the tag and the one for all
  tags, in step with it: in each the object moves from the sequence of its old value to the front of that of
  the new one, or only out or in; an index that does not exist is not made, and no other index changes.
\<close>

theorem update_keeps_indices:
  assumes "lists_quiet me" "tag \<noteq> 0"
    and "index_at ty tag pid im = map_option Some i" "index_holds i M" "pred_option (ready (me_index me False) coll obj old new) i"
    and "index_at ty 0 pid im = map_option Some j" "index_holds j G" "pred_option (ready (me_index me True) coll obj old new) j"
  shows "\<exists>im' i' j'. update me coll ty tag obj pid old new im = Some (Inr (), im') \<and>
    index_at ty tag pid im' = map_option Some i' \<and> index_holds i' (map_option (map_changed coll obj old new) M) \<and>
    index_at ty 0 pid im' = map_option Some j' \<and> index_holds j' (map_option (map_changed coll obj old new) G) \<and>
    (\<forall>ty' tag' pid'. (ty', tag', pid') \<notin> {(ty, tag, pid), (ty, 0, pid)} \<longrightarrow> index_at ty' tag' pid' im' = index_at ty' tag' pid' im)"
proof -
  let ?ch = "\<lambda>ie idx. addition ie coll obj new (removal ie coll obj old idx)"
  let ?i = "map_option (?ch (me_index me False)) i"
  let ?j = "map_option (?ch (me_index me True)) j"
  have h: "\<exists>m. index_ok idx m \<and> ready ie coll obj old new idx"
    if "index_holds k N" "pred_option (ready ie coll obj old new) k" "k = Some idx" for k N ie idx
    using that by (auto simp: index_holds_def)
  obtain im' where u: "update me coll ty tag obj pid old new im = Some (Inr (), im')"
    "view im' = (view im)((ty, tag, pid) := map_option Some ?i, (ty, 0, pid) := map_option Some ?j)"
    using update_places [OF assms(1-3) h [OF assms(4, 5)] assms(6) h [OF assms(7, 8)]]
    by (auto simp: option.map_comp comp_def)
  have held: "index_holds (map_option (?ch ie) k) (map_option (map_changed coll obj old new) N)"
    if "index_holds k N" "pred_option (ready ie coll obj old new) k" for k N ie
    using that changed_ok(1) by (cases k) (fastforce simp: index_holds_def)+
  have at: "index_at ty tag pid im' = map_option Some ?i" "index_at ty 0 pid im' = map_option Some ?j"
    "\<And>ty' tag' pid'. (ty', tag', pid') \<notin> {(ty, tag, pid), (ty, 0, pid)} \<Longrightarrow> index_at ty' tag' pid' im' = index_at ty' tag' pid' im"
    using assms(2) unfolding view_at [symmetric] u(2) by auto
  show ?thesis
    by (rule exI [of _ im'], rule exI [of _ ?i], rule exI [of _ ?j])
      (intro conjI allI impI u(1) at held [OF assms(4, 5)] held [OF assms(7, 8)])
qed

section \<open>Tag 0\<close>

lemma index_holds_place: "index_holds i (Some m) \<longleftrightarrow> (\<exists>idx. i = Some idx \<and> index_ok idx m)"
  by (cases i) (simp_all add: index_holds_def)

text \<open>
  C35. At tag 0, the tag of objects without one, the two indices that \<open>update\<close> looks up are the same one, so a
  new value puts the object into its sequence twice; every query for the value then yields it twice. This is
  when the index has the type and is balanced, and no lock and no allocation throws.
\<close>

theorem update_tag0_duplicates:
  assumes "index_at ty 0 pid im = Some (Some idx)" "index_ok idx m" "suits coll (Some p) idx" "key_of coll p = Some k"
    and "can_add (me_index me False) idx" "can_add (me_index me True) (addition (me_index me False) coll obj (Some p) idx)"
    and "lists_quiet me" "quiet (me_index me False)" "quiet (me_index me True)"
  shows "\<exists>im' idx'. update me coll ty 0 obj pid None (Some p) im = Some (Inr (), im') \<and>
    index_at ty 0 pid im' = Some (Some idx') \<and>
    index_ok idx' (m(k \<mapsto> obj # obj # (case m k of None \<Rightarrow> [] | Some xs \<Rightarrow> xs)))"
proof -
  let ?ea = "me_index me False" and ?eb = "me_index me True"
  let ?a = "addition ?ea coll obj (Some p)" and ?b = "addition ?eb coll obj (Some p)"
  note one = add_runs [where obj = obj, OF assms(8, 2, 5, 3)]
  have "suits coll (Some p) (?a idx)" using assms(3) one(3) by (simp add: suits_def)
  note two = add_runs [where obj = obj, OF assms(9) one(2) assms(6) this]
  obtain im1 where 1: "calls [index_op (index_add ?ea coll p obj) ty 0 pid] im = Some (Inr (), im1)"
    "view im1 = (view im)((ty, 0, pid) := Some (Some (?a idx)))"
    using call_at [of ty 0 pid im "Some idx" "index_add ?ea coll p obj"] assms(1) one(1) by (auto simp: addition_def)
  have "index_at ty 0 pid im1 = Some (Some (?a idx))" unfolding view_at [symmetric] 1(2) by simp
  then obtain im2 where 2: "calls [index_op (index_add ?eb coll p obj) ty 0 pid] im1 = Some (Inr (), im2)"
    "view im2 = (view im1)((ty, 0, pid) := Some (Some (?b (?a idx))))"
    using call_at [of ty 0 pid im1 "Some (?a idx)" "index_add ?eb coll p obj"] two(1) by (auto simp: addition_def)
  have "update me coll ty 0 obj pid None (Some p) im =
      calls ([index_op (index_add ?ea coll p obj) ty 0 pid] @ [index_op (index_add ?eb coll p obj) ty 0 pid]) im"
    by (subst update_calls [OF assms(7), where i = "Some idx" and j = "Some idx"]) (use assms(1, 3) in simp_all)
  then have u: "update me coll ty 0 obj pid None (Some p) im = Some (Inr (), im2)"
    unfolding calls_append [OF 1(1)] 2(1) .
  have "map_add_obj k obj (map_add_obj k obj m) = m(k \<mapsto> obj # obj # (case m k of None \<Rightarrow> [] | Some xs \<Rightarrow> xs))"
    by (simp add: map_add_obj_def)
  then have "index_ok (?b (?a idx)) (m(k \<mapsto> obj # obj # (case m k of None \<Rightarrow> [] | Some xs \<Rightarrow> xs)))"
    using two(2) assms(4) by simp
  moreover have "index_at ty 0 pid im2 = Some (Some (?b (?a idx)))" unfolding view_at [symmetric] 2(2) by simp
  ultimately show ?thesis using u by blast
qed

section \<open>New indices\<close>

lemma new_tree_ok:
  assumes "supply_ok H" "set (lh_supply H) \<subseteq> {0<..<2 ^ 64}"
  shows "vi_ok \<lparr>vi_tree = Null, vi_lists = H\<rparr> Map.empty"
  unfolding vi_ok_def
  by (rule exI [of _ "\<lambda>_. []"]) (use assms in \<open>simp add: vi_rel_def vi_map_def supply_ok_def bst_def avl_find_def fun_eq_iff\<close>)

lemma new_index_ok:
  assumes "supply_ok H" "set (lh_supply H) \<subseteq> {0<..<2 ^ 64}" "ptype \<notin> {NoValue, Blob}"
  shows "\<exists>idx. new_index ptype H = Inr idx \<and> index_ptype idx = ptype \<and> index_ok idx Map.empty"
  using assms(3) by (cases ptype) (simp_all add: tree_ok_def new_tree_ok [OF assms(1, 2)])

definition create_calls :: "index_type \<Rightarrow> u16 \<Rightarrow> u16 \<Rightarrow> manager_call set" where
  "create_calls ty tag pid = insert (Entry_add ty tag pid) (insert (Index_alloc ty tag pid) (tag_calls ty tag))"

text \<open>What the place of the new index holds once the tag's list is there, and the empty tree of the tag's index.\<close>

definition empty_index :: "property_type \<Rightarrow> 'f::linorder index \<Rightarrow> bool" where
  "empty_index t idx \<longleftrightarrow> index_ptype idx = t \<and> t \<notin> {NoValue, Blob} \<and> index_ok idx Map.empty"

lemma create_entry_ok:
  fixes im :: "'f::linorder index_manager"
  assumes l: "im_tags im ty tag = Some l" "list_ok tag l" "tag \<noteq> 0 \<longrightarrow> (\<exists>s. il_map l 0 = Some (Some (BoolIndex s)))"
    and H: "supply_ok H" "set (lh_supply H) \<subseteq> {0<..<2 ^ 64}"
  shows "\<exists>r im'. create_entry me ty tag pid ptype H l im = (r, im') \<and> others_same ty tag im im' \<and> tag_ok ty tag im' \<and>
    (\<forall>p. p \<noteq> pid \<longrightarrow> index_at ty tag p im' = il_map l p) \<and>
    (\<forall>i. il_map l pid = Some (Some i) \<longrightarrow> index_at ty tag pid im' = Some (Some i)) \<and>
    (case r of
       Inl e \<Rightarrow> calls_throw me {Entry_add ty tag pid, Index_alloc ty tag pid} e \<or>
         ptype \<in> {NoValue, Blob} \<and> e = no_tree ptype \<and> index_at ty tag pid im' = Some None
     | Inr _ \<Rightarrow> \<exists>idx. index_at ty tag pid im' = Some (Some idx) \<and> (il_map l pid = Some (Some idx) \<or> empty_index ptype idx))"
proof -
  have ok: "tag_ok ty tag im" and at: "index_at ty tag p im = il_map l p" for p using l(1, 2) by (simp_all add: tag_ok_def index_at_def)
  consider (thrown) e where "me_throws me (Entry_add ty tag pid) = Some e"
    | (there) i where "me_throws me (Entry_add ty tag pid) = None" "il_map l pid = Some (Some i)"
    | (missing) "me_throws me (Entry_add ty tag pid) = None" "il_map l pid \<in> {None, Some None}"
    by (metis insert_iff option.exhaust)
  then show ?thesis
  proof cases
    case thrown
    then show ?thesis using ok at by (simp add: create_entry_def index_list_add_def calls_throw_def)
  next
    case there
    then show ?thesis using ok at by (simp add: create_entry_def index_list_add_def)
  next
    case missing
    define l' where "l' = (case il_map l pid of None \<Rightarrow> \<lparr>il_map = (il_map l)(pid \<mapsto> None), il_num = il_num l + 1\<rparr> | Some _ \<Rightarrow> l)"
    define im1 where "im1 = (case il_map l pid of None \<Rightarrow> put_list ty tag l' im | Some _ \<Rightarrow> im)"
    have add: "index_list_add me ty tag pid l im = (Inr l', im1)"
      by (simp add: index_list_add_def missing(1) l'_def im1_def Let_def split: option.splits)
    have l': "il_map l' = (il_map l)(pid \<mapsto> None)" "list_ok tag l'"
      using l(2, 3) missing(2) by (auto simp: l'_def list_ok_def split: option.splits)
    have im1: "im_tags im1 ty tag = Some l'" "others_same ty tag im im1"
      using l(1) by (auto simp: im1_def l'_def split: option.splits)
    have at1: "index_at ty tag p im1 = (if p = pid then Some None else il_map l p)" and ok1: "tag_ok ty tag im1" for p
      using im1(1) l' by (simp_all add: index_at_def tag_ok_def)
    show ?thesis
    proof (cases "ptype \<in> {NoValue, Blob}")
      case True
      then have "new_index ptype H = (Inl (no_tree ptype) :: 'f index result)" by (auto simp: no_tree_def)
      then show ?thesis using add l' im1(2) ok1 at1 missing(2) True by (auto simp: create_entry_def)
    next
      case False
      then obtain idx :: "'f index" where idx: "new_index ptype H = Inr idx" "empty_index ptype idx"
        using new_index_ok [where ?'a = 'f, OF H False] by (auto simp: empty_index_def)
      have "pid \<noteq> 0 \<or> tag = 0" using l(3) missing(2) by auto
      then have "list_ok tag (il_set pid (Some idx) l')" using l' by (auto simp: il_set_def list_ok_def)
      then show ?thesis using add l' im1(2) ok1 at1 missing(2) idx
        by (cases "me_throws me (Index_alloc ty tag pid)") (auto simp: create_entry_def calls_throw_def il_set_def)
    qed
  qed
qed

text \<open>
  C38. \<open>create_index\<close> for any tag, whose list is empty or has the index of the tag: when it returns, the place
  has the index that it had, whatever its type, and else a new empty index, which is of the type asked for,
  but for property 0 of a new tag the Boolean index of the tag; the tag's index is there if the tag is not 0,
  new and empty if it was not there; the other places of the tag are as before. It throws what a chunk list or
  an allocation throws, or for a type without an index the error of the type, and then the entry has been
  made with a null pointer, on which a lookup with a type calls \<open>check_type\<close>. Also when it throws, the
  indices of the tag stay, other tags are as before, and the list of the tag is well-formed.
\<close>

theorem create_index_correct:
  fixes im :: "'f::linorder index_manager"
  assumes "tag_ok ty tag im" "supply_ok H0" "set (lh_supply H0) \<subseteq> {0<..<2 ^ 64}" "supply_ok H" "set (lh_supply H) \<subseteq> {0<..<2 ^ 64}"
  shows "\<exists>r im'. create_index me ty tag pid ptype H0 H im = (r, im') \<and> others_same ty tag im im' \<and> tag_ok ty tag im' \<and>
    (\<forall>pid' i. index_at ty tag pid' im = Some (Some i) \<longrightarrow> index_at ty tag pid' im' = Some (Some i)) \<and>
    (case r of
       Inl e \<Rightarrow> calls_throw me (create_calls ty tag pid) e \<or>
         ptype \<in> {NoValue, Blob} \<and> e = no_tree ptype \<and> index_at ty tag pid im' = Some None \<and>
         (find_throws me ty tag pid im' = None \<longrightarrow> get_index me ty tag pid (Some t) im' = None)
     | Inr _ \<Rightarrow>
         (\<exists>idx. index_at ty tag pid im' = Some (Some idx) \<and>
            (case index_at ty tag pid im of
               Some (Some old) \<Rightarrow> idx = old
             | _ \<Rightarrow> empty_index (if tag \<noteq> 0 \<and> pid = 0 then Boolean else ptype) idx)) \<and>
         (tag \<noteq> 0 \<longrightarrow> (\<exists>s. index_at ty tag 0 im' = Some (Some (BoolIndex s)) \<and>
            (index_at ty tag 0 im = None \<longrightarrow> index_ok (BoolIndex s :: 'f index) Map.empty))) \<and>
         (\<forall>pid'. pid' \<noteq> pid \<longrightarrow> tag = 0 \<or> pid' \<noteq> 0 \<or> index_at ty tag 0 im \<noteq> None \<longrightarrow>
            index_at ty tag pid' im' = index_at ty tag pid' im))"
proof -
  let ?B = "BoolIndex \<lparr>vi_tree = Null, vi_lists = H0\<rparr> :: 'f index"
  have bool: "empty_index Boolean ?B" using new_tree_ok [OF assms(2, 3)] by (simp add: empty_index_def tree_ok_def)
  obtain r :: "'f index_list result" and im1 where r: "add_tag_index me ty tag H0 im = (r, im1)" "others_same ty tag im im1" "tag_ok ty tag im1"
    "case r of Inl e \<Rightarrow> calls_throw me (tag_calls ty tag) e \<and> (\<forall>pid. index_at ty tag pid im1 = index_at ty tag pid im)
     | Inr l \<Rightarrow> im_tags im1 ty tag = Some l \<and> (\<forall>pid. il_map l pid = tag_place ty tag H0 im pid)"
    using add_tag_index_ok [OF assms(1), of me H0] by (elim exE conjE) (rule that)
  show ?thesis
  proof (cases r)
    case (Inl e)
    then have "calls_throw me (create_calls ty tag pid) e" using r(4) by (auto simp: calls_throw_def create_calls_def)
    then show ?thesis using r Inl by (simp add: create_index_def)
  next
    case (Inr l)
    then have l: "im_tags im1 ty tag = Some l" "list_ok tag l" "\<And>p. il_map l p = tag_place ty tag H0 im p"
      using r(3, 4) by (simp_all add: tag_ok_def)
    have kept: "il_map l p = Some (Some i)" if "index_at ty tag p im = Some (Some i)" for p i using that by (auto simp: l(3) tag_place_def)
    have first: "tag \<noteq> 0 \<Longrightarrow> \<exists>s. il_map l 0 = Some (Some (BoolIndex s)) \<and>
        (index_at ty tag 0 im = None \<longrightarrow> index_ok (BoolIndex s :: 'f index) Map.empty)"
      using l(2, 3) bool by (auto simp: list_ok_def tag_place_def empty_index_def fun_eq_iff split: if_splits)
    obtain r2 im2 where r2: "create_entry me ty tag pid ptype H l im1 = (r2, im2)" "others_same ty tag im1 im2" "tag_ok ty tag im2"
      "\<And>p. p \<noteq> pid \<Longrightarrow> index_at ty tag p im2 = il_map l p"
      "\<And>i. il_map l pid = Some (Some i) \<Longrightarrow> index_at ty tag pid im2 = Some (Some i)"
      "case r2 of
         Inl e \<Rightarrow> calls_throw me {Entry_add ty tag pid, Index_alloc ty tag pid} e \<or>
           ptype \<in> {NoValue, Blob} \<and> e = no_tree ptype \<and> index_at ty tag pid im2 = Some None
       | Inr _ \<Rightarrow> \<exists>idx. index_at ty tag pid im2 = Some (Some idx) \<and> (il_map l pid = Some (Some idx) \<or> empty_index ptype idx)"
      using create_entry_ok [OF l(1, 2) _ assms(4, 5), of me pid ptype] first by blast
    have c: "create_index me ty tag pid ptype H0 H im = (r2, im2)" using r(1) Inr r2(1) by (simp add: create_index_def)
    have frame: "others_same ty tag im im2" by (rule others_same_trans [OF r(2) r2(2)])
    have kept2: "index_at ty tag p im2 = Some (Some i)" if "index_at ty tag p im = Some (Some i)" for p i
      using kept [OF that] r2(4, 5) by (cases "p = pid") auto
    show ?thesis
    proof (cases r2)
      case (Inl e)
      then show ?thesis using c frame r2(3, 6) kept2 by (auto simp: create_calls_def calls_throw_def get_index_def)
    next
      case (Inr u)
      then obtain idx where idx: "index_at ty tag pid im2 = Some (Some idx)" "il_map l pid = Some (Some idx) \<or> empty_index ptype idx"
        using r2(6) by auto
      have "case index_at ty tag pid im of Some (Some o1) \<Rightarrow> idx = o1
          | _ \<Rightarrow> empty_index (if tag \<noteq> 0 \<and> pid = 0 then Boolean else ptype) idx"
        using idx kept2 [of pid] r2(5) first bool l(3) [of pid] by (auto simp: tag_place_def split: if_splits option.splits)
      moreover have "\<exists>s. index_at ty tag 0 im2 = Some (Some (BoolIndex s)) \<and>
          (index_at ty tag 0 im = None \<longrightarrow> index_ok (BoolIndex s :: 'f index) Map.empty)" if "tag \<noteq> 0"
        using first [OF that] r2(4) [of 0] r2(5) by (cases "pid = 0") auto
      moreover have "index_at ty tag p im2 = index_at ty tag p im" if "p \<noteq> pid" "tag = 0 \<or> p \<noteq> 0 \<or> index_at ty tag 0 im \<noteq> None" for p
        using r2(4) [OF that(1)] that(2) by (auto simp: l(3) tag_place_def)
      ultimately show ?thesis using c frame r2(3) kept2 Inr idx(1) by simp
    qed
  qed
qed

section \<open>A manager\<close>

text \<open>
  Nodes with tag 3 have an index of property 7, that of \<open>ex_int_index\<close>; the index of property 7 for all tags is
  empty.
\<close>

definition ex_heap :: "addr list_heap" where
  "ex_heap = \<lparr>lh_cells = (\<lambda>_. \<lparr>cell_value = 0, cell_next = 0\<rparr>), lh_supply = [2000, 2016]\<rparr>"

definition ex_empty :: "int index" where
  "ex_empty = IntIndex \<lparr>vi_tree = Null, vi_lists = ex_heap\<rparr>"

definition ex_manager :: "int index_manager" where
  "ex_manager =
     \<lparr>im_tags = (\<lambda>ty. if ty = NodeIndex
        then [0 \<mapsto> \<lparr>il_map = [7 \<mapsto> Some ex_empty], il_num = 1\<rparr>,
              3 \<mapsto> \<lparr>il_map = [0 \<mapsto> Some (BoolIndex \<lparr>vi_tree = Null, vi_lists = ex_heap\<rparr>), 7 \<mapsto> Some ex_int_index], il_num = 2\<rparr>]
        else Map.empty)\<rparr>"

lemma ex_heap_ok: "supply_ok ex_heap" "set (lh_supply ex_heap) \<subseteq> {0<..<2 ^ 64}"
  by (simp_all add: ex_heap_def supply_ok_def)

lemma ex_empty_ok: "index_ok ex_empty Map.empty"
  using new_tree_ok [OF ex_heap_ok] by (simp add: ex_empty_def tree_ok_def)

definition ex_quiet :: "addr \<Rightarrow> addr \<Rightarrow> manager_env" where
  "ex_quiet a g = \<lparr>me_throws = (\<lambda>_. None), me_index = (\<lambda>b. granted (if b then g else a))\<rparr>"

lemma ex_quiet_simps [simp]:
  "lists_quiet (ex_quiet a g)" "me_throws (ex_quiet a g) c = None" "me_index (ex_quiet a g) False = granted a"
  "me_index (ex_quiet a g) True = granted g" "\<not> calls_throw (ex_quiet a g) cs e" "find_throws (ex_quiet a g) ty tag pid im = None"
  by (simp_all add: ex_quiet_def lists_quiet_def calls_throw_def find_throws_def split: option.splits)

lemma tree_throws_granted [simp]: "\<not> tree_throws (granted n) e"
  by (simp add: tree_throws_def)

text \<open>The chunk list of tag 5 times out when the index of the tag is put into it.\<close>

definition ex_busy :: manager_env where
  "ex_busy = (ex_quiet 192 192)\<lparr>me_throws := (\<lambda>c. if c = Entry_add NodeIndex 5 0 then Some LockTimeout else None)\<rparr>"

lemma tag_index_is_sequence_witness:
  "(\<exists>im'. manager_add (ex_quiet 192 192) NodeIndex 5 51 ex_heap ex_manager = Some (Inr True, im') \<and> tag_objects NodeIndex 5 im' [51]) \<and>
   (\<exists>im'. manager_add ex_busy NodeIndex 5 51 ex_heap ex_manager = Some (Inl LockTimeout, im') \<and> tag_objects NodeIndex 5 im' []) \<and>
   manager_get_iterator (ex_quiet 192 192) (\<lambda>s. s) NodeIndex 5 ex_manager = Some (Inr None)"
proof -
  have t: "tag_objects NodeIndex 5 ex_manager []" "index_at NodeIndex 5 0 ex_manager = None" "tag_room NodeIndex 5 ex_heap ex_manager \<noteq> []"
    by (simp_all add: tag_objects_def tag_ok_def tag_room_def index_at_def ex_manager_def ex_heap_def)
  note seq = tag_index_is_sequence [OF _ t(1) ex_heap_ok(1), where obj = 51 and coll = "\<lambda>s. s"]
  obtain r im' where r: "manager_add (ex_quiet 192 192) NodeIndex 5 51 ex_heap ex_manager = Some (r, im')"
    "case r of Inl e \<Rightarrow> (calls_throw (ex_quiet 192 192) (insert (Entry_find NodeIndex 5 0) (tag_calls NodeIndex 5)) e \<or>
          tree_throws (me_index (ex_quiet 192 192) False) e \<or> e = BadAlloc \<and> tag_room NodeIndex 5 ex_heap ex_manager = []) \<and>
        tag_objects NodeIndex 5 im' []
     | Inr b \<Rightarrow> b \<and> tag_objects NodeIndex 5 im' [51]"
    using conjunct1 [OF seq, of "ex_quiet 192 192"] by auto
  have one: "\<exists>im'. manager_add (ex_quiet 192 192) NodeIndex 5 51 ex_heap ex_manager = Some (Inr True, im') \<and> tag_objects NodeIndex 5 im' [51]"
    using r t(3) by (cases r) auto
  obtain r2 im2 where r2: "manager_add ex_busy NodeIndex 5 51 ex_heap ex_manager = Some (r2, im2)"
    "case r2 of Inl e \<Rightarrow> (calls_throw ex_busy (insert (Entry_find NodeIndex 5 0) (tag_calls NodeIndex 5)) e \<or>
          tree_throws (me_index ex_busy False) e \<or> e = BadAlloc \<and> tag_room NodeIndex 5 ex_heap ex_manager = []) \<and>
        tag_objects NodeIndex 5 im2 []
     | Inr b \<Rightarrow> b \<and> tag_objects NodeIndex 5 im2 [51]"
    using conjunct1 [OF seq, of ex_busy] by auto
  have "r2 = Inl LockTimeout" using r2(1)
    by (simp add: manager_add_def add_tag_index_def tag_list_add_def index_list_add_def ex_busy_def ex_quiet_def ex_manager_def)
  then have "\<exists>im'. manager_add ex_busy NodeIndex 5 51 ex_heap ex_manager = Some (Inl LockTimeout, im') \<and> tag_objects NodeIndex 5 im' []"
    using r2 by simp
  then show ?thesis using one conjunct2 [OF conjunct2 [OF seq, of "ex_quiet 192 192"]] t(2) by simp
qed

lemma ex_places: "index_at NodeIndex 3 7 ex_manager = Some (Some ex_int_index)" "index_at NodeIndex 0 7 ex_manager = Some (Some ex_empty)"
  by (simp_all add: index_at_def ex_manager_def)

lemma ex_ready:
  "ready (granted 192) (\<lambda>s. s) 32 (Some (PInt 3)) (Some (PInt 5)) ex_int_index"
  "ready (granted 192) (\<lambda>s. s) 32 (Some (PInt 3)) (Some (PInt 5)) ex_empty"
  by (simp_all add: ready_def suits_def can_add_def removal_def op_result_def index_remove_def typed_def vi_remove_call_def denied_def list_ex_iff
      vi_remove_def node_fresh_def ex_int_index_def ex_values_def ex_empty_def ex_heap_def list_remove_def remove_loop.simps unlink_def Let_def)

lemma update_keeps_indices_witness:
  "\<exists>im' i'. update (ex_quiet 192 192) (\<lambda>s. s) NodeIndex 3 32 7 (Some (PInt 3)) (Some (PInt 5)) ex_manager = Some (Inr (), im') \<and>
     index_at NodeIndex 3 7 im' = map_option Some i' \<and>
     index_holds i' (Some (map_changed (\<lambda>s. s) 32 (Some (PInt 3)) (Some (PInt 5)) ex_int_map)) \<and>
     map_changed (\<lambda>s. s) 32 (Some (PInt 3)) (Some (PInt 5)) ex_int_map (KInt 5) = Some [32, 51]"
proof -
  have h: "index_holds (Some ex_int_index) (Some ex_int_map)" "index_holds (Some ex_empty) (Some Map.empty)"
    using ex_int_index_ok(1) ex_empty_ok by (simp_all add: index_holds_place)
  have "map_changed (\<lambda>s. s) 32 (Some (PInt 3)) (Some (PInt 5)) ex_int_map (KInt 5) = Some [32, 51]"
    by (simp add: map_changed_def map_removed_def map_add_obj_def map_remove_obj_def ex_int_map_def)
  then show ?thesis
    using update_keeps_indices [OF _ _ _ h(1) _ _ h(2), of "ex_quiet 192 192" 3 NodeIndex 7 ex_manager "\<lambda>s. s" 32 "Some (PInt 3)" "Some (PInt 5)"]
      ex_places ex_ready by auto
qed

lemma update_tag0_duplicates_witness:
  "\<exists>im' idx'. update (ex_quiet 192 256) (\<lambda>s. s) NodeIndex 0 32 7 None (Some (PInt 5)) ex_manager = Some (Inr (), im') \<and>
     index_at NodeIndex 0 7 im' = Some (Some idx') \<and> index_ok idx' [KInt 5 \<mapsto> [32, 32]]"
proof -
  have a: "addition (granted 192) (\<lambda>s. s) 32 (Some (PInt 5)) ex_empty =
      IntIndex \<lparr>vi_tree = TreeNode 192 Null Null 0 5 \<lparr>l_head = 2000, l_num = 1\<rparr>,
        vi_lists = \<lparr>lh_cells = (\<lambda>_. \<lparr>cell_value = 0, cell_next = 0\<rparr>)(2000 := \<lparr>cell_value = 32, cell_next = 0\<rparr>), lh_supply = [2016]\<rparr>\<rparr>"
    by (simp add: addition_def op_result_def index_add_def typed_def vi_add_call_def denied_def list_ex_iff add_cell_def vi_add_def avl_add_def
        get_locks_add_def list_add_def list_init_def ex_empty_def ex_heap_def Let_def)
  have r: "suits (\<lambda>s. s) (Some (PInt 5)) ex_empty" "can_add (granted 192) ex_empty"
    "can_add (granted 256) (addition (granted 192) (\<lambda>s. s) 32 (Some (PInt 5)) ex_empty)" "key_of (\<lambda>s. s) (PInt 5 :: int property) = Some (KInt 5)"
    unfolding a by (simp_all add: suits_def can_add_def node_fresh_def ex_empty_def ex_heap_def)
  show ?thesis using update_tag0_duplicates [OF ex_places(2) ex_empty_ok r(1, 4), of "ex_quiet 192 256" 32] r(2, 3) by simp
qed

text \<open>A new tag with an index of property 9, and a type without an index for a tag in use.\<close>

lemma create_index_correct_witness:
  "(\<exists>im' idx s. create_index (ex_quiet 192 192) EdgeIndex 5 9 Float ex_heap ex_heap ex_manager = (Inr (), im') \<and>
     index_at EdgeIndex 5 9 im' = Some (Some idx) \<and> empty_index Float idx \<and> index_at EdgeIndex 5 0 im' = Some (Some (BoolIndex s))) \<and>
   (\<exists>im'. create_index (ex_quiet 192 192) NodeIndex 3 9 Blob ex_heap ex_heap ex_manager = (Inl PropertyTypeInvalid, im') \<and>
     get_index (ex_quiet 192 192) NodeIndex 3 9 (Some Integer) im' = None)"
proof -
  have ok: "tag_ok EdgeIndex 5 ex_manager" "tag_ok NodeIndex 3 ex_manager"
    by (auto simp: tag_ok_def list_ok_def ex_manager_def fun_eq_iff)
  have none: "index_at EdgeIndex 5 p ex_manager = None" "index_at NodeIndex 3 9 ex_manager = None" for p
    by (simp_all add: index_at_def ex_manager_def)
  note c = create_index_correct [OF _ ex_heap_ok ex_heap_ok, where me = "ex_quiet 192 192" and t = Integer]
  obtain r im' where r: "create_index (ex_quiet 192 192) EdgeIndex 5 9 Float ex_heap ex_heap ex_manager = (r, im')"
    "r = Inr () \<longrightarrow> (\<exists>idx. index_at EdgeIndex 5 9 im' = Some (Some idx) \<and> empty_index Float idx) \<and>
       (\<exists>s. index_at EdgeIndex 5 0 im' = Some (Some (BoolIndex s)))"
    "r = Inr ()"
    using c [OF ok(1), where pid = 9 and ptype = Float] none(1) by (fastforce split: sum.splits)
  obtain r2 im2 where r2: "create_index (ex_quiet 192 192) NodeIndex 3 9 Blob ex_heap ex_heap ex_manager = (r2, im2)"
    "r2 = Inl PropertyTypeInvalid \<and> get_index (ex_quiet 192 192) NodeIndex 3 9 (Some Integer) im2 = None"
    using c [OF ok(2), where pid = 9 and ptype = Blob] none(2) by (fastforce simp: empty_index_def no_tree_def split: sum.splits)
  show ?thesis using r r2 by blast
qed

end
