(* ===== verification/Manager_Stats.thy ===== *)
theory Manager_Stats
  imports Index_Manager Index_Stats
begin

text \<open>
  The statistics of \<open>src/IndexManager.cc\<close>, and \<open>Index::get_stats\<close>: those of the indices of a tag, of the tags
  of a kind, and of both kinds, are summed, and the health is the average of the parts' healths weighted by
  their elements. All numbers are \<open>size_t\<close>; a list of entries is in the order of \<open>get_key_values\<close>.
\<close>

section \<open>One index\<close>

text \<open>Sizes of the structures: of a node by its key, of a cell, and of a node and an index by their type.\<close>

record 'f sizes =
  sz_key :: "'f key \<Rightarrow> u64"
  sz_cell :: u64
  sz_node :: "property_type \<Rightarrow> u64"
  sz_index :: "property_type \<Rightarrow> u64"

definition tree_stats :: "'f sizes \<Rightarrow> ('k \<Rightarrow> 'f key) \<Rightarrow> property_type \<Rightarrow> 'k value_index \<Rightarrow> index_stats result option" where
  "tree_stats z mk t s = map_option Inr (index_stats_info (\<lambda>k. sz_key z (mk k)) (sz_cell z) (sz_node z t) (sz_index z t) (vi_tree s))"

fun get_stats :: "'f sizes \<Rightarrow> 'f index \<Rightarrow> index_stats result option" where
  "get_stats z (IntIndex s) = tree_stats z KInt Integer s"
| "get_stats z (FloatIndex s) = tree_stats z KFloat Float s"
| "get_stats z (BoolIndex s) = tree_stats z KBool Boolean s"
| "get_stats z (TimeIndex s) = tree_stats z KTime TimeType s"
| "get_stats z (StringIndex s) = tree_stats z KString String s"
| "get_stats z (BaseIndex t) = Some (Inl (if t \<in> {NoValue, Blob} then NotImplemented else PropertyTypeInvalid))"

section \<open>Sums\<close>

definition zero_stats :: index_stats where
  "zero_stats = \<lparr>st_unique = 0, st_entry_size = 0, st_elements = 0, st_bytes = 0, st_health = 0\<rparr>"

definition add_totals :: "index_stats \<Rightarrow> index_stats \<Rightarrow> index_stats" where
  "add_totals s x =
     s\<lparr>st_bytes := st_bytes s + st_bytes x, st_elements := st_elements s + st_elements x, st_unique := st_unique s + st_unique x\<rparr>"

text \<open>\<open>stats.health_factor += part.health_factor * part.total_elements / n\<close>, for each part.\<close>

definition weigh :: "u64 \<Rightarrow> index_stats list \<Rightarrow> u64 \<Rightarrow> u64" where
  "weigh n xs h = foldl (\<lambda>h x. h + st_health x * st_elements x div n) h xs"

text \<open>The entries in order; the first that throws, or that is a null pointer, ends the loop.\<close>

fun entries_stats :: "'f sizes \<Rightarrow> (u16 \<times> 'f index option) list \<Rightarrow> (u16 \<times> index_stats) list result option" where
  "entries_stats z [] = Some (Inr [])"
| "entries_stats z ((pid, i) # es) =
     (case Option.bind i (get_stats z) of
        None \<Rightarrow> None
      | Some (Inl e) \<Rightarrow> Some (Inl e)
      | Some (Inr x) \<Rightarrow>
          (case entries_stats z es of
             None \<Rightarrow> None
           | Some (Inl e) \<Rightarrow> Some (Inl e)
           | Some (Inr xs) \<Rightarrow> Some (Inr ((pid, x) # xs))))"

text \<open>The index of a tag itself, property 0, is left out of the health.\<close>

definition list_totals :: "(u16 \<times> index_stats) list \<Rightarrow> index_stats" where
  "list_totals xs =
     (let s = foldl add_totals zero_stats (map snd xs);
          props = map snd (filter (\<lambda>x. fst x \<noteq> 0) xs);
          n = foldl (\<lambda>n x. n + st_elements x) 0 props
      in s\<lparr>st_health := (if n = 0 then 100 else weigh n props (st_health s))\<rparr>)"

text \<open>\<open>get_index_stats (tag_entry)\<close>; \<open>None\<close> is no list.\<close>

definition tag_stats :: "'f sizes \<Rightarrow> (u16 \<times> 'f index option) list option \<Rightarrow> index_stats result option" where
  "tag_stats z es =
     (case es of None \<Rightarrow> Some (Inr zero_stats)
      | Some es \<Rightarrow> map_option (\<lambda>r. case r of Inl e \<Rightarrow> Inl e | Inr xs \<Rightarrow> Inr (list_totals xs)) (entries_stats z es))"

text \<open>\<open>get_index_stats (index_type, tag, property_id)\<close>.\<close>

definition place_stats :: "manager_env \<Rightarrow> 'f sizes \<Rightarrow> index_type \<Rightarrow> u16 \<Rightarrow> u16 \<Rightarrow> 'f index_manager \<Rightarrow> index_stats result option" where
  "place_stats me z ty tag pid im =
     (case get_index me ty tag pid None im of
        None \<Rightarrow> None
      | Some (Inl e) \<Rightarrow> Some (Inl e)
      | Some (Inr None) \<Rightarrow> Some (Inr zero_stats)
      | Some (Inr (Some idx)) \<Rightarrow> get_stats z idx)"

text \<open>\<open>get_index_stats (index_type)\<close> from the statistics of its tags.\<close>

definition type_totals :: "index_stats list \<Rightarrow> index_stats" where
  "type_totals xs =
     (let s = foldl add_totals zero_stats xs
      in s\<lparr>st_health := (if st_elements s = 0 then 100 else weigh (st_elements s) xs (st_health s))\<rparr>)"

text \<open>\<open>get_index_stats ()\<close> from those of nodes and edges.\<close>

definition all_totals :: "index_stats \<Rightarrow> index_stats \<Rightarrow> index_stats" where
  "all_totals ns es =
     (let s = zero_stats\<lparr>st_unique := st_unique ns + st_unique es, st_elements := st_elements ns + st_elements es,
                st_bytes := st_bytes ns + st_bytes es\<rparr>
      in if st_elements s = 0 then s\<lparr>st_health := 100\<rparr>
         else (let s1 = s\<lparr>st_health := st_health s + st_elements ns * st_health ns div st_elements s\<rparr>
               in s1\<lparr>st_health := st_health s1 + st_elements es * st_health es div st_elements s1\<rparr>))"

section \<open>The averages\<close>

lemma totals_sums:
  "foldl add_totals s xs =
     s\<lparr>st_bytes := st_bytes s + sum_list (map st_bytes xs), st_elements := st_elements s + sum_list (map st_elements xs),
       st_unique := st_unique s + sum_list (map st_unique xs)\<rparr>"
  by (induction xs arbitrary: s) (simp_all add: add_totals_def algebra_simps)

lemma elements_sum: "foldl (\<lambda>n x. n + st_elements x) n xs = n + sum_list (map st_elements xs)"
  by (induction xs arbitrary: n) (simp_all add: algebra_simps)

lemma weigh_sum: "weigh n xs h = h + (\<Sum>x\<leftarrow>xs. st_health x * st_elements x div n)"
  unfolding weigh_def by (induction xs arbitrary: h) (simp_all add: algebra_simps)

lemma sum_parts: "0 < n \<Longrightarrow> (\<Sum>x\<leftarrow>xs. f x * g x div n) \<le> (\<Sum>x\<leftarrow>xs. f x * g x) div (n :: nat)"
proof (induction xs)
  case (Cons x xs)
  have "f x * g x div n + (\<Sum>x\<leftarrow>xs. f x * g x) div n \<le> (f x * g x + (\<Sum>x\<leftarrow>xs. f x * g x)) div n"
    using Cons(2) by (metis div_add1_eq le_add1)
  then show ?case using Cons by simp
qed simp

lemma sum_weights: "\<forall>x\<in>set xs. f x \<le> 100 \<Longrightarrow> (\<Sum>x\<leftarrow>xs. f x * g x) \<le> 100 * (\<Sum>x\<leftarrow>xs. g x :: nat)"
proof (induction xs)
  case (Cons x xs)
  have "f x * g x \<le> 100 * g x" using Cons.prems by simp
  moreover have "(\<Sum>x\<leftarrow>xs. f x * g x) \<le> 100 * (\<Sum>x\<leftarrow>xs. g x)" using Cons by simp
  ultimately show ?case by (simp add: distrib_left add_mono)
qed simp

text \<open>As long as a hundred times the elements fit in \<open>size_t\<close>, nothing wraps and the average is at most 100.\<close>

lemma weigh_bounds:
  assumes h: "\<forall>x\<in>set xs. st_health x \<le> 100" and fits: "100 * (\<Sum>x\<leftarrow>xs. unat (st_elements x)) < 2 ^ 64"
    and n: "n = sum_list (map st_elements xs)" "n \<noteq> 0"
  shows "unat (weigh n xs 0) = (\<Sum>x\<leftarrow>xs. unat (st_health x) * unat (st_elements x) div (\<Sum>x\<leftarrow>xs. unat (st_elements x)))"
    "weigh n xs 0 \<le> 100"
proof -
  let ?N = "\<Sum>x\<leftarrow>xs. unat (st_elements x)"
  have N: "unat n = ?N" using fits unfolding n by (subst unat_sum_list) (simp_all add: comp_def)
  have pos: "0 < ?N" using n(2) N by (metis unat_eq_zero gr0I)
  have hn: "\<forall>x\<in>set xs. unat (st_health x) \<le> 100" using h by (simp add: word_le_nat_alt)
  have part: "unat (st_health x * st_elements x div n) = unat (st_health x) * unat (st_elements x) div ?N" if "x \<in> set xs" for x
  proof -
    have "unat (st_elements x) \<le> ?N" by (rule member_le_sum_list) (use that in auto)
    then have "unat (st_health x) * unat (st_elements x) \<le> 100 * ?N" using hn that by (intro mult_le_mono) auto
    then have "unat (st_health x) * unat (st_elements x) < 2 ^ 64" using fits by (rule le_less_trans)
    then show ?thesis by (simp add: unat_div_distrib unat_word_ariths N)
  qed
  have parts: "map unat (map (\<lambda>x. st_health x * st_elements x div n) xs) = map (\<lambda>x. unat (st_health x) * unat (st_elements x) div ?N) xs"
    by (simp add: part)
  have le: "(\<Sum>x\<leftarrow>xs. unat (st_health x) * unat (st_elements x) div ?N) \<le> 100"
  proof -
    have "(\<Sum>x\<leftarrow>xs. unat (st_health x) * unat (st_elements x) div ?N) \<le> (\<Sum>x\<leftarrow>xs. unat (st_health x) * unat (st_elements x)) div ?N"
      by (rule sum_parts [OF pos])
    also have "\<dots> \<le> 100 * ?N div ?N" by (rule div_le_mono) (rule sum_weights [OF hn])
    finally show ?thesis using pos by simp
  qed
  show u: "unat (weigh n xs 0) = (\<Sum>x\<leftarrow>xs. unat (st_health x) * unat (st_elements x) div ?N)"
    unfolding weigh_sum using unat_sum_list [of "map (\<lambda>x. st_health x * st_elements x div n) xs"] le by (simp only: parts) simp
  show "weigh n xs 0 \<le> 100" using u le by (simp add: word_le_nat_alt)
qed

section \<open>The property\<close>

definition counted :: "index_stats \<Rightarrow> index_stats list \<Rightarrow> bool" where
  "counted s xs \<longleftrightarrow> unat (st_elements s) = (\<Sum>x\<leftarrow>xs. unat (st_elements x)) \<and>
     st_unique s = sum_list (map st_unique xs) \<and> st_bytes s = sum_list (map st_bytes xs) \<and> st_health s \<le> 100"

lemma counted_totals:
  assumes "100 * (\<Sum>x\<leftarrow>xs. unat (st_elements x)) < 2 ^ 64" "h \<le> 100"
  shows "counted (foldl add_totals zero_stats xs\<lparr>st_health := h\<rparr>) xs"
proof -
  have "unat (sum_list (map st_elements xs)) = (\<Sum>x\<leftarrow>xs. unat (st_elements x))"
    using assms(1) by (subst unat_sum_list) (simp_all add: comp_def)
  then show ?thesis using assms(2) by (simp add: counted_def totals_sums zero_stats_def)
qed

lemma list_totals_counted:
  assumes h: "\<forall>x\<in>set xs. st_health (snd x) \<le> 100" and fits: "100 * (\<Sum>x\<leftarrow>xs. unat (st_elements (snd x))) < 2 ^ 64"
  shows "counted (list_totals xs) (map snd xs)"
proof -
  let ?props = "map snd (filter (\<lambda>x. fst x \<noteq> 0) xs)"
  have "(\<Sum>x\<leftarrow>?props. unat (st_elements x)) \<le> (\<Sum>x\<leftarrow>xs. unat (st_elements (snd x)))"
    by (induction xs) auto
  then have f: "100 * (\<Sum>x\<leftarrow>?props. unat (st_elements x)) < 2 ^ 64" using fits by linarith
  have w: "n = sum_list (map st_elements ?props) \<Longrightarrow> n \<noteq> 0 \<Longrightarrow> weigh n ?props 0 \<le> 100" for n
    by (rule weigh_bounds(2) [OF _ f]) (use h in auto)
  have "st_health (foldl add_totals zero_stats (map snd xs)) = 0" by (simp add: totals_sums zero_stats_def)
  then show ?thesis
    unfolding list_totals_def Let_def elements_sum
    by (intro counted_totals) (use fits w in \<open>auto simp: comp_def\<close>)
qed

lemma type_totals_counted:
  assumes h: "\<forall>x\<in>set xs. st_health x \<le> 100" and fits: "100 * (\<Sum>x\<leftarrow>xs. unat (st_elements x)) < 2 ^ 64"
  shows "counted (type_totals xs) xs"
proof -
  have "st_health (foldl add_totals zero_stats xs) = 0" "st_elements (foldl add_totals zero_stats xs) = sum_list (map st_elements xs)"
    by (simp_all add: totals_sums zero_stats_def)
  then show ?thesis
    unfolding type_totals_def Let_def
    by (intro counted_totals fits) (use weigh_bounds(2) [OF h fits refl] in auto)
qed

lemma all_totals_type: "all_totals ns es = type_totals [ns, es]"
  by (simp add: all_totals_def type_totals_def weigh_def zero_stats_def add_totals_def Let_def algebra_simps)

text \<open>
  As long as a hundred times the elements fit in \<open>size_t\<close>, the statistics of a tag, of a kind and of all
  indices count what their parts count, and from parts with healths up to 100 the health is up to 100.
  The average rounds down each part: an index list whose indices all have health 100 may have 99.
\<close>

theorem statistics_bounded:
  assumes "\<forall>x\<in>set xs. st_health (snd x) \<le> 100" "100 * (\<Sum>x\<leftarrow>xs. unat (st_elements (snd x))) < 2 ^ 64"
    and "\<forall>x\<in>set ys. st_health x \<le> 100" "100 * (\<Sum>x\<leftarrow>ys. unat (st_elements x)) < 2 ^ 64"
    and "st_health ns \<le> 100" "st_health es \<le> 100" "100 * (unat (st_elements ns) + unat (st_elements es)) < 2 ^ 64"
  shows "counted (list_totals xs) (map snd xs) \<and> counted (type_totals ys) ys \<and> counted (all_totals ns es) [ns, es]"
proof (intro conjI)
  show "counted (all_totals ns es) [ns, es]"
    unfolding all_totals_type by (rule type_totals_counted) (use assms in simp_all)
qed (use assms list_totals_counted type_totals_counted in blast)+

definition ex_stats :: "nat \<Rightarrow> index_stats" where
  "ex_stats n = \<lparr>st_unique = 1, st_entry_size = 64, st_elements = word_of_nat n, st_bytes = 128, st_health = 100\<rparr>"

lemma statistics_bounded_witness:
  "counted (list_totals [(0, ex_stats 5), (7, ex_stats 1), (9, ex_stats 2)]) [ex_stats 5, ex_stats 1, ex_stats 2] \<and>
   st_health (list_totals [(0, ex_stats 5), (7, ex_stats 1), (9, ex_stats 2)]) = 99 \<and>
   counted (all_totals (ex_stats 1) (ex_stats 2)) [ex_stats 1, ex_stats 2]"
proof -
  have h: "st_health (list_totals [(0, ex_stats 5), (7, ex_stats 1), (9, ex_stats 2)]) = 99" by code_simp
  show ?thesis
    using statistics_bounded [of "[(0, ex_stats 5), (7, ex_stats 1), (9, ex_stats 2)]" "[]" "ex_stats 1" "ex_stats 2"] h
    by (simp add: ex_stats_def)
qed

end
